(* ===== verification/Prelude.thy ===== *)
theory Prelude
  imports Main "HOL-Library.AList"
begin

text \<open>
  What the components of the development share: the Python exceptions the modelled code
  raises, results as values of a sum type with their bind, Python's \<open>dict\<close> as an
  association list in insertion order, and the list lemmas that several components use.
\<close>

section \<open>Exceptions and results\<close>

text \<open>
  One constructor for each exception class that modelled code raises (the message text is
  not modelled). \<open>UserError n\<close> stands for an exception raised by a function the program
  is given, such as a validator, a watcher or a transaction body.
\<close>

datatype py_error =
    ValueError
  | TypeError
  | IndexError
  | KeyError
  | RuntimeError
  | OverflowError
  | RecursionError
  | AttributeError
  | NotImplementedError
  | AssertionError
  | ExceptionInfo
  | UserError nat

type_synonym 'a res = "py_error + 'a"

definition rbind :: "'a res \<Rightarrow> ('a \<Rightarrow> 'b res) \<Rightarrow> 'b res" where
  "rbind m f = (case m of Inl e \<Rightarrow> Inl e | Inr x \<Rightarrow> f x)"

definition guard_res :: "py_error \<Rightarrow> bool \<Rightarrow> 'a res \<Rightarrow> 'a res" where
  "guard_res e b m = (if b then m else Inl e)"

named_theorems res_simps \<open>evaluation of results\<close>

lemma rbind_Inl [simp, res_simps]: "rbind (Inl e) f = Inl e"
  by (simp add: rbind_def)

lemma rbind_Inr [simp, res_simps]: "rbind (Inr x) f = f x"
  by (simp add: rbind_def)

lemma rbind_assoc: "rbind (rbind m f) g = rbind m (\<lambda>x. rbind (f x) g)"
  by (cases m) simp_all

lemma rbind_Inr_right [simp]: "rbind m Inr = m"
  by (cases m) simp_all

lemma rbind_eq_Inr_iff: "rbind m f = Inr y \<longleftrightarrow> (\<exists>x. m = Inr x \<and> f x = Inr y)"
  by (cases m) simp_all

lemma rbind_split:
  "P (rbind m f) \<longleftrightarrow> (\<forall>e. m = Inl e \<longrightarrow> P (Inl e)) \<and> (\<forall>x. m = Inr x \<longrightarrow> P (f x))"
  by (cases m) simp_all

lemma guard_res_simps [simp, res_simps]:
  "guard_res e True m = m"
  "guard_res e False m = Inl e"
  by (simp_all add: guard_res_def)

text \<open>A loop that stops at the first exception: \<open>for x in xs: s = f(s, x)\<close>.\<close>

fun foldM :: "('s \<Rightarrow> 'a \<Rightarrow> 's res) \<Rightarrow> 's \<Rightarrow> 'a list \<Rightarrow> 's res" where
  "foldM f s [] = Inr s"
| "foldM f s (x # xs) = rbind (f s x) (\<lambda>s'. foldM f s' xs)"

lemma foldM_append: "foldM f s (xs @ ys) = rbind (foldM f s xs) (\<lambda>s'. foldM f s' ys)"
  by (induction xs arbitrary: s) (simp_all add: rbind_assoc)

text \<open>
  A loop whose body never fails from a good state, and keeps it good, never fails; an
  abstraction of the state then follows the pure fold.
\<close>

lemma foldM_simulation:
  assumes step: "\<And>s a x. R s a \<Longrightarrow> x \<in> set xs \<Longrightarrow> \<exists>s'. f s x = Inr s' \<and> R s' (g a x)"
    and init: "R s a"
  shows "\<exists>s'. foldM f s xs = Inr s' \<and> R s' (foldl g a xs)"
  using assms
proof (induction xs arbitrary: s a)
  case Nil
  then show ?case by simp
next
  case (Cons x xs)
  from Cons.prems obtain s' where s': "f s x = Inr s'" "R s' (g a x)"
    by (metis list.set_intros(1))
  have "\<exists>t. foldM f s' xs = Inr t \<and> R t (foldl g (g a x) xs)"
    using Cons.prems(1) s'(2) by (intro Cons.IH) auto
  with s' show ?case by simp
qed

text \<open>\<open>[f(x) for x in xs]\<close> with an \<open>f\<close> that may raise.\<close>

fun mapM :: "('b \<Rightarrow> 'c res) \<Rightarrow> 'b list \<Rightarrow> 'c list res" where
  "mapM f [] = Inr []"
| "mapM f (x # xs) = rbind (f x) (\<lambda>y. rbind (mapM f xs) (\<lambda>ys. Inr (y # ys)))"

lemma mapM_map: "(\<And>x. x \<in> set xs \<Longrightarrow> f x = Inr (g x)) \<Longrightarrow> mapM f xs = Inr (map g xs)"
  by (induction xs) simp_all

section \<open>Python indexing\<close>

text \<open>An argument that the code checks with \<open>isinstance(_, int)\<close>.\<close>

datatype index_arg = IdxInt int | IdxOther

text \<open>
  The normalised position of Python index \<open>i\<close> in a sequence of length \<open>n\<close>: a negative
  index counts from the end, and a position outside the sequence raises IndexError.
\<close>

definition py_index :: "nat \<Rightarrow> int \<Rightarrow> nat res" where
  "py_index n i =
     (let j = (if i < 0 then i + int n else i)
      in if 0 \<le> j \<and> j < int n then Inr (nat j) else Inl IndexError)"

lemma py_index_nonneg [simp]: "i < n \<Longrightarrow> py_index n (int i) = Inr i"
  by (simp add: py_index_def)

lemma py_index_neg: "0 < i \<Longrightarrow> i \<le> n \<Longrightarrow> py_index n (- int i) = Inr (n - i)"
  by (auto simp: py_index_def Let_def)

lemma py_index_Inr: "py_index n i = Inr j \<Longrightarrow> j < n"
  by (auto simp: py_index_def Let_def split: if_splits)

end
