(* ===== verification/VectorTrie.thy ===== *)
theory VectorTrie
  imports Prelude
begin

text \<open>
  The node level of the persistent vector (\<open>src/src/basilisp/lang/vector.py\<close>): the 32-way
  branches, path copying, and the recursive tree routines of \<open>PersistentVector\<close>. The second
  half gives the canonical tree of a list of elements and shows what each routine does to it.
\<close>

unbundle bit_operations_syntax

section \<open>Nodes\<close>

definition BRANCH_BITS :: nat where
  "BRANCH_BITS = 5"

definition BRANCH_FACTOR :: nat where
  "BRANCH_FACTOR = push_bit BRANCH_BITS 1"

definition BRANCH_MASK :: nat where
  "BRANCH_MASK = BRANCH_FACTOR - 1"

lemma BRANCH_simps [simp]:
  "BRANCH_BITS = 5" "BRANCH_FACTOR = 32" "BRANCH_MASK = 31"
  by (simp_all add: BRANCH_BITS_def BRANCH_FACTOR_def BRANCH_MASK_def push_bit_eq_mult)

text \<open>
  A slot of a node array holds any Python object: \<open>None\<close>, another node, or a user's value.
  A leaf array and the tail hold the vector's elements, which are such objects too, so an
  element may itself be \<open>None\<close>.
\<close>

datatype 'a pyobj = PyNone | PyNode "'a vnode" | PyObj 'a
  and 'a vnode = VNode (edit: "'a pyobj") (arr: "'a pyobj list")

definition empty_branch :: "'a pyobj list" where
  "empty_branch = replicate BRANCH_FACTOR PyNone"

definition EMPTY_NODE :: "'a vnode" where
  "EMPTY_NODE = VNode PyNone empty_branch"

definition branch :: "'a vnode \<Rightarrow> 'a pyobj list res" where
  "branch node = (if length (arr node) \<noteq> BRANCH_FACTOR then Inl ValueError else Inr (arr node))"

definition replace_slot :: "'a vnode \<Rightarrow> nat \<Rightarrow> 'a pyobj \<Rightarrow> 'a vnode res" where
  "replace_slot node index value =
     rbind (branch node) (\<lambda>a. Inr (VNode (edit node) (a[index := value])))"

definition tail_offset :: "nat \<Rightarrow> nat" where
  "tail_offset count =
     (if count < BRANCH_FACTOR then 0
      else push_bit BRANCH_BITS (drop_bit BRANCH_BITS (count - 1)))"

text \<open>
  The slot of level \<open>level\<close> on the path to element \<open>index\<close>: \<open>(index >> level) & BRANCH_MASK\<close>.
\<close>

definition slot_index :: "int \<Rightarrow> nat \<Rightarrow> nat" where
  "slot_index index level = nat (drop_bit level index AND int BRANCH_MASK)"

text \<open>
  \<open>_new_path\<close> counts the level down to exactly 0; from a level that is not a multiple of
  \<open>BRANCH_BITS\<close> Python recurses without end, which is the RecursionError branch. The other
  routines shift by the level, so a level below 0 raises ValueError there.
\<close>

fun new_path :: "nat \<Rightarrow> 'a vnode \<Rightarrow> 'a vnode res" where
  "new_path level node =
     (if level = 0 then Inr node
      else if level < BRANCH_BITS then Inl RecursionError
      else rbind (new_path (level - BRANCH_BITS) node)
             (\<lambda>child. Inr (VNode PyNone (PyNode child # replicate (BRANCH_FACTOR - 1) PyNone))))"

declare new_path.simps [simp del]

text \<open>The loop of \<open>_array_for\<close> below the tail: \<open>for level in range(shift, 0, -BRANCH_BITS)\<close>.\<close>

fun descend :: "nat \<Rightarrow> 'a vnode \<Rightarrow> nat \<Rightarrow> 'a pyobj list res" where
  "descend level node index =
     (if level = 0 then branch node
      else rbind (branch node) (\<lambda>a.
        case a ! slot_index (int index) level of
          PyNode child \<Rightarrow> descend (level - BRANCH_BITS) child index
        | _ \<Rightarrow> Inl ValueError))"

declare descend.simps [simp del]

fun push_tail :: "nat \<Rightarrow> nat \<Rightarrow> 'a vnode \<Rightarrow> 'a vnode \<Rightarrow> 'a vnode res" where
  "push_tail count level parent tail_node =
     (let subindex = slot_index (int count - 1) level in
      rbind
        (if level = BRANCH_BITS then Inr tail_node
         else rbind (branch parent) (\<lambda>a.
           case a ! subindex of
             PyNone \<Rightarrow> (if level < BRANCH_BITS then Inl RecursionError
                        else new_path (level - BRANCH_BITS) tail_node)
           | PyNode existing \<Rightarrow>
               (if level < BRANCH_BITS then Inl ValueError
                else push_tail count (level - BRANCH_BITS) existing tail_node)
           | PyObj _ \<Rightarrow> Inl ValueError))
        (\<lambda>child. replace_slot parent subindex (PyNode child)))"

declare push_tail.simps [simp del]

text \<open>\<open>None\<close> is Python's \<open>None\<close>: the node became empty.\<close>

fun pop_tail :: "nat \<Rightarrow> nat \<Rightarrow> 'a vnode \<Rightarrow> 'a vnode option res" where
  "pop_tail count level node =
     (let subindex = slot_index (int count - 2) level in
      if level > BRANCH_BITS then
        rbind (branch node) (\<lambda>a.
          case a ! subindex of
            PyNode child \<Rightarrow>
              rbind (pop_tail count (level - BRANCH_BITS) child) (\<lambda>new_child.
                if new_child = None \<and> subindex = 0 then Inr None
                else rbind (replace_slot node subindex
                              (case new_child of None \<Rightarrow> PyNone | Some n \<Rightarrow> PyNode n))
                       (\<lambda>n. Inr (Some n)))
          | _ \<Rightarrow> Inl ValueError)
      else if subindex = 0 then Inr None
      else rbind (replace_slot node subindex PyNone) (\<lambda>n. Inr (Some n)))"

declare pop_tail.simps [simp del]

fun do_assoc :: "nat \<Rightarrow> 'a vnode \<Rightarrow> nat \<Rightarrow> 'a pyobj \<Rightarrow> 'a vnode res" where
  "do_assoc level node index value =
     (if level = 0 then replace_slot node (index AND BRANCH_MASK) value
      else let subindex = slot_index (int index) level in
        rbind (branch node) (\<lambda>a.
          case a ! subindex of
            PyNode child \<Rightarrow>
              (if level < BRANCH_BITS then Inl ValueError
               else rbind (do_assoc (level - BRANCH_BITS) child index value)
                      (\<lambda>c. replace_slot node subindex (PyNode c)))
          | _ \<Rightarrow> Inl ValueError))"

declare do_assoc.simps [simp del]


section \<open>Arithmetic of slots\<close>

lemma slot_index_nat: "slot_index (int n) level = (n div 2 ^ level) mod 32"
proof -
  have "drop_bit level (int n) AND int 31 = int ((n div 2 ^ level) mod 32)"
    using take_bit_eq_mask [of 5 "drop_bit level (int n)"]
    by (simp add: mask_eq_exp_minus_1 take_bit_eq_mod drop_bit_eq_div zdiv_int zmod_int)
  then show ?thesis
    by (simp add: slot_index_def)
qed

text \<open>The number of elements that a node of height \<open>h\<close> (level \<open>5 * h\<close>) can hold.\<close>

definition cap :: "nat \<Rightarrow> nat" where
  "cap h = 32 ^ Suc h"

lemma cap_0 [simp]: "cap 0 = 32"
  by (simp add: cap_def)

lemma cap_Suc: "cap (Suc h) = 32 * cap h"
  by (simp add: cap_def)

lemma cap_pos [simp]: "0 < cap h" "cap h \<noteq> 0"
  by (simp_all add: cap_def)

lemma cap_ge_32: "32 \<le> cap h"
  by (induction h) (auto simp: cap_Suc)

lemma dvd_cap: "32 dvd cap h"
  by (simp add: cap_def)

lemma two_power_level: "(2 :: nat) ^ (5 * Suc h) = cap h"
  by (simp only: cap_def power_mult) simp

lemma slot_index_level: "slot_index (int i) (5 * Suc h) = i mod cap (Suc h) div cap h"
proof -
  have "i mod (cap h * 32) = cap h * (i div cap h mod 32) + i mod cap h"
    by (rule mod_mult2_eq)
  then have "i mod cap (Suc h) div cap h = i div cap h mod 32"
    by (simp add: cap_Suc mult.commute)
  moreover have "slot_index (int i) (5 * Suc h) = i div cap h mod 32"
    by (simp only: slot_index_nat two_power_level)
  ultimately show ?thesis by simp
qed

lemma slot_less: "i mod cap (Suc h) div cap h < 32"
  by (simp add: cap_Suc div_less_iff_less_mult)

lemma index_mask: "i AND BRANCH_MASK = i mod 32" for i :: nat
  using take_bit_eq_mask [of 5 i] by (simp add: mask_eq_exp_minus_1 take_bit_eq_mod)

lemma mod_cap_mod_cap: "(i mod cap (Suc h)) mod cap h = i mod cap h"
  by (simp add: cap_Suc mod_mod_cancel)

section \<open>The canonical tree of a list\<close>

text \<open>
  Block \<open>k\<close> of the elements below a node of height \<open>Suc h\<close>, the slots of that node, and the
  node itself. A leaf holds 32 elements; a branch holds one subtree per non-empty block, and
  \<open>None\<close> in the slots after the last.
\<close>

definition block :: "nat \<Rightarrow> nat \<Rightarrow> 'a list \<Rightarrow> 'a list" where
  "block h k xs = take (cap h) (drop (k * cap h) xs)"

primrec build :: "nat \<Rightarrow> 'a pyobj list \<Rightarrow> 'a vnode" where
  "build 0 xs = VNode PyNone xs"
| "build (Suc h) xs =
     VNode PyNone (map (\<lambda>k. if k * cap h < length xs then PyNode (build h (block h k xs))
                             else PyNone) [0..<32])"

definition slots :: "nat \<Rightarrow> 'a pyobj list \<Rightarrow> 'a pyobj list" where
  "slots h xs = arr (build (Suc h) xs)"

lemma length_slots [simp]: "length (slots h xs) = 32"
  by (simp add: slots_def)

lemma nth_slots [simp]:
  "k < 32 \<Longrightarrow> slots h xs ! k =
     (if k * cap h < length xs then PyNode (build h (block h k xs)) else PyNone)"
  by (simp add: slots_def)

lemma build_Suc_slots: "build (Suc h) xs = VNode PyNone (slots h xs)"
  by (simp add: slots_def)

declare build.simps [simp del]

lemma branch_build_0: "length xs = 32 \<Longrightarrow> branch (build 0 xs) = Inr xs"
  by (simp add: branch_def build.simps)

lemma branch_build_Suc: "branch (build (Suc h) xs) = Inr (slots h xs)"
  by (simp add: branch_def build_Suc_slots)

lemma replace_build_Suc:
  "replace_slot (build (Suc h) xs) k v = Inr (VNode PyNone ((slots h xs)[k := v]))"
  by (simp add: replace_slot_def branch_build_Suc) (simp add: build_Suc_slots)

lemma slots_eqI:
  assumes "length ys = 32" "\<And>k. k < 32 \<Longrightarrow> slots h xs ! k = ys ! k"
  shows "slots h xs = ys"
  using assms by (auto intro: nth_equalityI)

lemma length_block: "length (block h k xs) = min (cap h) (length xs - k * cap h)"
  by (simp add: block_def)

lemma dvd_length_block: "32 dvd length xs \<Longrightarrow> 32 dvd length (block h k xs)"
  using dvd_cap [of h] by (auto simp: length_block min_def intro: dvd_diff_nat dvd_mult)

lemma full_leaf: "32 dvd n \<Longrightarrow> 0 < n \<Longrightarrow> n \<le> 32 \<Longrightarrow> n = 32" for n :: nat
  by (auto dest: dvd_imp_le)

text \<open>Two multiples of 32 that differ, differ by at least 32.\<close>

lemma dvd_gap: "32 dvd a \<Longrightarrow> 32 dvd b \<Longrightarrow> a < b \<Longrightarrow> a + 32 \<le> b" for a b :: nat
  by (auto elim!: dvdE)

subsection \<open>Lookup\<close>

lemma leaf_position:
  fixes r k c :: nat
  assumes "32 dvd c"
  shows "32 * (r div 32) + k * c = 32 * ((k * c + r) div 32)"
proof -
  obtain q where "k * c = 32 * q"
    using assms by (metis dvd_def dvd_mult)
  then show ?thesis by simp
qed

lemma descend_build:
  assumes "32 dvd length xs" "length xs \<le> cap h" "i mod cap h < length xs"
  shows "descend (5 * h) (build h xs) i = Inr (take 32 (drop (32 * (i mod cap h div 32)) xs))"
  using assms
proof (induction h arbitrary: xs)
  case 0
  then have "length xs = 32"
    by (intro full_leaf) auto
  then show ?case by (simp add: descend.simps [of 0] branch_build_0)
next
  case (Suc h)
  define j where "j = i mod cap (Suc h)"
  define k where "k = j div cap h"
  have r: "i mod cap h = j mod cap h"
    by (simp add: j_def mod_cap_mod_cap)
  have j: "j = k * cap h + j mod cap h"
    by (simp add: k_def)
  have k32: "k < 32"
    by (simp add: k_def j_def slot_less)
  have kn: "k * cap h < length xs"
    using Suc.prems(3) j unfolding j_def [symmetric] by linarith
  have len: "j mod cap h < length (block h k xs)"
    using Suc.prems(3) j unfolding j_def [symmetric] length_block by auto
  have sub: "descend (5 * h) (build h (block h k xs)) i
      = Inr (take 32 (drop (32 * (j mod cap h div 32)) (block h k xs)))"
    unfolding r [symmetric]
    using dvd_length_block [OF Suc.prems(1), of h k] len
    by (intro Suc.IH) (auto simp: length_block r)
  have fit: "32 * (j mod cap h div 32) + 32 \<le> cap h"
    by (rule dvd_gap) (auto simp: dvd_cap intro: le_less_trans [OF times_div_less_eq_dividend])
  have "take 32 (drop (32 * (j mod cap h div 32)) (block h k xs))
      = take 32 (drop (32 * (j mod cap h div 32) + k * cap h) xs)"
    using fit by (simp add: block_def drop_take min_absorb1)
  also have "\<dots> = take 32 (drop (32 * (j div 32)) xs)"
    by (subst leaf_position [OF dvd_cap]) (simp add: j [symmetric])
  finally have leaf: "take 32 (drop (32 * (j mod cap h div 32)) (block h k xs))
      = take 32 (drop (32 * (j div 32)) xs)" .
  show ?case
    using sub leaf k32 kn slot_index_level [of i h]
    by (subst descend.simps) (simp add: branch_build_Suc del: build.simps flip: j_def k_def)
qed

subsection \<open>Appending a leaf\<close>

lemma slots_append:
  assumes "32 dvd length xs" "length t = 32"
  shows "slots h (xs @ t) =
    (slots h xs)[length xs div cap h :=
      PyNode (build h (drop (length xs div cap h * cap h) xs @ t))]"
proof (rule slots_eqI)
  define n where "n = length xs"
  define k where "k = n div cap h"
  have n: "n = k * cap h + n mod cap h"
    by (simp add: k_def)
  have room: "n mod cap h + 32 \<le> cap h"
    by (rule dvd_gap) (use assms(1) dvd_cap [of h] in \<open>auto simp: n_def dvd_mod\<close>)
  fix k' :: nat
  assume k': "k' < 32"
  consider (below) "k' < k" | (here) "k' = k" | (above) "k < k'"
    by linarith
  then show "slots h (xs @ t) ! k' = (slots h xs)[length xs div cap h :=
      PyNode (build h (drop (length xs div cap h * cap h) xs @ t))] ! k'"
  proof cases
    case below
    then have "Suc k' * cap h \<le> k * cap h"
      by (intro mult_le_mono1) simp
    then have *: "k' * cap h + cap h \<le> n"
      using n by (simp add: add.commute)
    then have "k' * cap h < n"
      using cap_pos(1) [of h] by linarith
    moreover have "block h k' (xs @ t) = block h k' xs"
      using * by (simp add: block_def n_def)
    ultimately show ?thesis
      using k' below assms(2) by (simp add: n_def k_def)
  next
    case here
    have "block h k (xs @ t) = drop (k * cap h) xs @ t"
      using n room assms(2) by (simp add: block_def n_def)
    moreover have "k * cap h < n + 32"
      using n by linarith
    ultimately show ?thesis
      using k' here assms(2) by (simp add: n_def k_def)
  next
    case above
    then have "Suc k * cap h \<le> k' * cap h"
      by (intro mult_le_mono1) simp
    then have "n + 32 \<le> k' * cap h"
      using n room by (simp add: add.commute)
    then show ?thesis
      using k' above assms(2) by (simp add: n_def k_def)
  qed
qed simp

lemma new_path_build: "length t = 32 \<Longrightarrow> new_path (5 * h) (build 0 t) = Inr (build h t)"
proof (induction h)
  case 0
  then show ?case by (simp add: new_path.simps)
next
  case (Suc h)
  have "slots h t = PyNode (build h t) # replicate 31 PyNone"
  proof (rule slots_eqI)
    fix k :: nat
    assume "k < 32"
    moreover have "0 < k \<Longrightarrow> 32 \<le> k * cap h"
      using cap_ge_32 [of h] by (cases k) auto
    moreover have "block h 0 t = t"
      using Suc.prems cap_ge_32 [of h] by (simp add: block_def)
    ultimately show "slots h t ! k = (PyNode (build h t) # replicate 31 PyNone) ! k"
      using Suc.prems by (cases k) auto
  qed simp
  with Suc show ?case
    by (subst new_path.simps) (simp add: build_Suc_slots numeral_eq_Suc)
qed

lemma push_tail_build:
  assumes "32 dvd length xs" "length t = 32" "length xs < cap (Suc h)" "0 < count"
    and pos: "32 * ((count - 1) mod cap (Suc h) div 32) = length xs"
  shows "push_tail count (5 * Suc h) (build (Suc h) xs) (build 0 t) = Inr (build (Suc h) (xs @ t))"
  using assms
proof (induction h arbitrary: xs)
  case 0
  then have k: "slot_index (int count - 1) 5 = length xs div 32"
    using slot_index_level [of "count - 1" 0] by (simp add: of_nat_diff)
  have "drop (length xs div 32 * 32) xs = []"
    using 0 by simp
  with 0 slots_append [of xs t 0] show ?case
    by (subst push_tail.simps)
      (simp add: k replace_build_Suc Let_def build_Suc_slots [of 0 "xs @ t"])
next
  case (Suc h)
  define k where "k = length xs div cap (Suc h)"
  define ys where "ys = drop (k * cap (Suc h)) xs"
  let ?i = "count - 1"
  have i: "int count - 1 = int ?i"
    using Suc.prems(4) by simp
  have "?i mod cap (Suc (Suc h)) div 32 div (cap (Suc h) div 32)
      = ?i mod cap (Suc (Suc h)) div cap (Suc h)"
    using dvd_cap [of "Suc h"] by (simp add: div_mult2_eq [symmetric])
  moreover have "length xs div 32 div (cap (Suc h) div 32) = length xs div cap (Suc h)"
    using dvd_cap [of "Suc h"] by (simp add: div_mult2_eq [symmetric])
  ultimately have slot: "slot_index (int ?i) (5 * Suc (Suc h)) = k"
    using Suc.prems(5) unfolding k_def slot_index_level
    by (metis nonzero_mult_div_cancel_left zero_neq_numeral)
  have k32: "k < 32"
    using slot slot_less [of ?i "Suc h"] by (simp only: slot_index_level)
  have len: "length ys = length xs mod cap (Suc h)" "length ys < cap (Suc h)"
    by (simp_all add: ys_def k_def minus_div_mult_eq_mod)
  have child: "(if k * cap (Suc h) < length xs then push_tail count (5 * Suc h) (build (Suc h) ys) (build 0 t)
      else new_path (5 * Suc h) (build 0 t)) = Inr (build (Suc h) (ys @ t))"
  proof (cases "k * cap (Suc h) < length xs")
    case True
    have "32 * (?i mod cap (Suc h) div 32) = length ys"
    proof -
      have "?i mod cap (Suc (Suc h)) = k * cap (Suc h) + ?i mod cap (Suc h)"
        using slot unfolding slot_index_level
        by (metis div_mult_mod_eq mod_cap_mod_cap)
      then have "length xs = k * cap (Suc h) + 32 * (?i mod cap (Suc h) div 32)"
        using Suc.prems(5) leaf_position [OF dvd_cap, of "?i mod cap (Suc h)" k "Suc h"]
        by (simp add: add.commute)
      then show ?thesis by (simp add: ys_def)
    qed
    with Suc.prems len have "push_tail count (5 * Suc h) (build (Suc h) ys) (build 0 t)
        = Inr (build (Suc h) (ys @ t))"
      by (intro Suc.IH) (auto simp: dvd_mod dvd_cap)
    with True show ?thesis by simp
  next
    case False
    then have "ys = []" by (simp add: ys_def)
    with False show ?thesis
      using new_path_build [OF Suc.prems(2), of "Suc h"] by simp
  qed
  have blk: "block (Suc h) k xs = ys"
    using len by (simp add: block_def ys_def)
  have "slots (Suc h) (xs @ t) = (slots (Suc h) xs)[k := PyNode (build (Suc h) (ys @ t))]"
    using slots_append [OF Suc.prems(1,2), of "Suc h"] by (simp add: k_def ys_def)
  then show ?case
    using child slot k32 blk
    by (subst push_tail.simps)
      (auto simp: Let_def i branch_build_Suc replace_build_Suc build_Suc_slots [of "Suc h" "xs @ t"]
         split: if_splits)
qed

subsection \<open>Removing the last leaf\<close>

text \<open>What the slot of the last block becomes when its last 32 elements go away.\<close>

definition last_slot :: "nat \<Rightarrow> 'a pyobj list \<Rightarrow> 'a pyobj" where
  "last_slot h ys =
     (if length ys = 32 then PyNone else PyNode (build h (take (length ys - 32) ys)))"

lemma slots_drop_last:
  fixes h :: nat and xs :: "'a pyobj list"
  assumes "32 dvd length xs" "0 < length xs"
  defines "k \<equiv> (length xs - 1) div cap h"
  shows "slots h (take (length xs - 32) xs) =
    (slots h xs)[k := last_slot h (drop (k * cap h) xs)]"
proof (rule slots_eqI)
  define n where "n = length xs"
  have n32: "32 \<le> n"
    using assms(1,2) dvd_imp_le unfolding n_def by blast
  have n: "n - 1 = k * cap h + (n - 1) mod cap h"
    by (simp add: k_def n_def)
  have low: "k * cap h + 32 \<le> n"
    using n n32 assms(1) by (intro dvd_gap) (auto simp: n_def dvd_cap intro: dvd_mult)
  have high: "n \<le> Suc k * cap h"
    using n n32 mod_less_divisor [OF cap_pos(1) [of h], of "n - 1"] unfolding mult_Suc by linarith
  fix k' :: nat
  assume k': "k' < 32"
  consider (below) "k' < k" | (here) "k' = k" | (above) "k < k'"
    by linarith
  then show "slots h (take (length xs - 32) xs) ! k' =
      (slots h xs)[k := last_slot h (drop (k * cap h) xs)] ! k'"
  proof cases
    case below
    then have "Suc k' * cap h \<le> k * cap h"
      by (intro mult_le_mono1) simp
    then have *: "k' * cap h + cap h \<le> n - 32"
      using low by (simp add: add.commute)
    then have "k' * cap h < n - 32"
      using cap_pos(1) [of h] by linarith
    moreover have "block h k' (take (n - 32) xs) = block h k' xs"
      using * by (simp add: block_def n_def take_drop min_absorb1 add.commute)
    ultimately show ?thesis
      using k' below by (simp add: n_def)
  next
    case here
    have "block h k (take (n - 32) xs) = take (n - 32 - k * cap h) (drop (k * cap h) xs)"
      using high by (simp add: block_def n_def drop_take min_absorb2)
    then show ?thesis
      using k' here low high by (auto simp: n_def last_slot_def add.commute)
  next
    case above
    then have "Suc k * cap h \<le> k' * cap h"
      by (intro mult_le_mono1) simp
    then show ?thesis
      using k' above high by (simp add: n_def)
  qed
qed simp

lemma pop_tail_build:
  assumes "32 dvd length xs" "0 < length xs" "length xs \<le> cap (Suc h)" "2 \<le> count"
    and pos: "(count - 2) mod cap (Suc h) = length xs - 1"
  shows "pop_tail count (5 * Suc h) (build (Suc h) xs) =
    Inr (if length xs = 32 then None else Some (build (Suc h) (take (length xs - 32) xs)))"
  using assms
proof (induction h arbitrary: xs)
  case 0
  have c: "int count - 2 = int (count - 2)"
    using 0 by simp
  have k: "slot_index (int (count - 2)) 5 = (length xs - 1) div 32"
    using slot_index_level [of "count - 2" 0] 0 by simp
  obtain q where q: "length xs = 32 * Suc q"
    using 0(1,2) by (metis dvd_def mult_0_right not_gr_zero not0_implies_Suc)
  then have kq: "(length xs - 1) div 32 = q"
    by simp
  have top: "slots 0 (take (length xs - 32) xs) = (slots 0 xs)[q := PyNone]"
    using slots_drop_last [OF 0(1,2), of 0] q by (simp add: kq last_slot_def)
  have shorter: "build (Suc 0) (take (32 * q) xs) = VNode PyNone ((slots 0 xs)[q := PyNone])"
    using top q by (simp add: build_Suc_slots [of 0 "take (32 * q) xs"])
  show ?case
  proof (cases "q = 0")
    case True
    with q show ?thesis
      by (subst pop_tail.simps) (simp add: c k kq)
  next
    case False
    with q show ?thesis
      by (subst pop_tail.simps)
        (simp add: c k kq Let_def replace_build_Suc shorter)
  qed
next
  case (Suc h)
  define n where "n = length xs"
  define k where "k = (n - 1) div cap (Suc h)"
  define ys where "ys = drop (k * cap (Suc h)) xs"
  have c: "int count - 2 = int (count - 2)"
    using Suc.prems by simp
  have n32: "32 \<le> n"
    using Suc.prems(1,2) dvd_imp_le unfolding n_def by blast
  have slot: "slot_index (int (count - 2)) (5 * Suc (Suc h)) = k"
    by (simp only: slot_index_level Suc.prems(5)) (simp add: k_def n_def)
  have k32: "k < 32"
    using slot slot_less [of "count - 2" "Suc h"] by (simp only: slot_index_level)
  have n1: "n - 1 = k * cap (Suc h) + (n - 1) mod cap (Suc h)"
    by (simp add: k_def)
  have low: "k * cap (Suc h) + 32 \<le> n"
    using n1 n32 Suc.prems(1) by (intro dvd_gap) (auto simp: n_def dvd_cap intro: dvd_mult)
  have high: "n \<le> k * cap (Suc h) + cap (Suc h)"
    using n1 n32 mod_less_divisor [OF cap_pos(1) [of "Suc h"], of "n - 1"] by linarith
  have len: "length ys = n - k * cap (Suc h)" "0 < length ys" "length ys \<le> cap (Suc h)"
    using low high by (auto simp: ys_def n_def)
  have blk: "block (Suc h) k xs = ys"
    using len by (simp add: block_def ys_def)
  have "(count - 2) mod cap (Suc h) = (n - 1) mod cap (Suc h)"
    using Suc.prems(5) by (metis mod_cap_mod_cap n_def)
  also have "\<dots> = length ys - 1"
    using n1 len(1) low by simp
  finally have child: "pop_tail count (5 * Suc h) (build (Suc h) ys) =
      Inr (if length ys = 32 then None else Some (build (Suc h) (take (length ys - 32) ys)))"
    using Suc.prems len low
    by (intro Suc.IH) (auto simp: n_def dvd_diff_nat dvd_cap intro!: dvd_diff_nat dvd_mult)
  have top: "slots (Suc h) (take (length xs - 32) xs) = (slots (Suc h) xs)[k := last_slot (Suc h) ys]"
    using slots_drop_last [OF Suc.prems(1,2), of "Suc h"] by (simp add: k_def ys_def n_def)
  have only: "length ys = 32 \<and> k = 0 \<longleftrightarrow> n = 32"
  proof
    assume "n = 32"
    moreover from this have "k = 0"
      using cap_ge_32 [of "Suc h"] by (simp add: k_def)
    ultimately show "length ys = 32 \<and> k = 0"
      using len by simp
  qed (use len in auto)
  show ?case
    using child slot k32 blk low only top
    by (subst pop_tail.simps)
      (auto simp: c Let_def branch_build_Suc replace_build_Suc last_slot_def n_def
        build_Suc_slots [of "Suc h" "take (length xs - 32) xs"])
qed

subsection \<open>Replacing an element\<close>

lemma slots_update:
  assumes "j < length xs"
  shows "slots h (xs[j := v]) =
    (slots h xs)[j div cap h := PyNode (build h ((block h (j div cap h) xs)[j mod cap h := v]))]"
proof (rule slots_eqI)
  fix k :: nat
  assume k: "k < 32"
  have j: "j = j div cap h * cap h + j mod cap h"
    by simp
  show "slots h (xs[j := v]) ! k = (slots h xs)[j div cap h :=
      PyNode (build h ((block h (j div cap h) xs)[j mod cap h := v]))] ! k"
  proof (cases "k = j div cap h")
    case True
    have "k * cap h < length xs"
      using True j assms by (metis le_add1 le_less_trans)
    moreover have "block h k (xs[j := v]) = (block h k xs)[j mod cap h := v]"
      using True j by (simp add: block_def drop_update_swap take_update_swap minus_div_mult_eq_mod)
    ultimately show ?thesis
      using True k by simp
  next
    case False
    have "block h k (xs[j := v]) = block h k xs"
    proof (cases "k < j div cap h")
      case True
      then have "Suc k * cap h \<le> j div cap h * cap h"
        by (intro mult_le_mono1) simp
      then have "cap h + k * cap h \<le> j div cap h * cap h"
        by simp
      then have "k * cap h + cap h \<le> j"
        by (metis add.commute j le_add1 le_trans)
      then show ?thesis
        by (simp add: block_def drop_update_swap take_update_swap list_update_beyond)
    next
      case not_less: False
      with False have "Suc (j div cap h) * cap h \<le> k * cap h"
        by (intro mult_le_mono1) simp
      then have "j < k * cap h"
        using j mod_less_divisor [OF cap_pos(1) [of h], of j] unfolding mult_Suc by linarith
      then show ?thesis
        by (simp add: block_def)
    qed
    with False k show ?thesis by simp
  qed
qed simp

lemma do_assoc_build:
  assumes "32 dvd length xs" "length xs \<le> cap h" "i mod cap h < length xs"
  shows "do_assoc (5 * h) (build h xs) i v = Inr (build h (xs[i mod cap h := v]))"
  using assms
proof (induction h arbitrary: xs)
  case 0
  then have "length xs = 32"
    by (intro full_leaf) auto
  then show ?case
    by (simp add: do_assoc.simps [of 0] replace_slot_def branch_build_0 index_mask [simplified])
      (simp add: build.simps)
next
  case (Suc h)
  define j where "j = i mod cap (Suc h)"
  define k where "k = j div cap h"
  have r: "i mod cap h = j mod cap h"
    by (simp add: j_def mod_cap_mod_cap)
  have j: "j = k * cap h + j mod cap h"
    by (simp add: k_def)
  have k32: "k < 32"
    by (simp add: k_def j_def slot_less)
  have kn: "k * cap h < length xs"
    using Suc.prems(3) j unfolding j_def [symmetric] by linarith
  have len: "j mod cap h < length (block h k xs)"
    using Suc.prems(3) j unfolding j_def [symmetric] length_block by auto
  have sub: "do_assoc (5 * h) (build h (block h k xs)) i v
      = Inr (build h ((block h k xs)[j mod cap h := v]))"
    unfolding r [symmetric]
    using dvd_length_block [OF Suc.prems(1), of h k] len
    by (intro Suc.IH) (auto simp: length_block r)
  show ?case
    using sub k32 kn slot_index_level [of i h] slots_update [of j xs h v] Suc.prems(3)
    by (subst do_assoc.simps)
      (simp add: branch_build_Suc replace_build_Suc build_Suc_slots [of h "xs[j := v]"]
        flip: j_def k_def)
qed

end
