(* ===== verification/PVector.thy ===== *)
theory PVector
  imports VectorTrie
begin

text \<open>
  \<open>PersistentVector\<close>, \<open>TransientVector\<close> and \<open>PrimitiveVector\<close> of
  \<open>src/src/basilisp/lang/vector.py\<close>, with the refinement of the 32-way tree to lists: every
  operation of a vector that represents a list represents the list operation's result.
\<close>

section \<open>The persistent vector\<close>

record 'a pvec =
  vcount :: nat
  vshift :: nat
  vroot :: "'a vnode"
  vtail :: "'a pyobj list"
  vmeta :: "'a pyobj"

definition EMPTY_VEC :: "'a pvec" where
  "EMPTY_VEC = \<lparr>vcount = 0, vshift = BRANCH_BITS, vroot = EMPTY_NODE, vtail = [], vmeta = PyNone\<rparr>"

definition vec_index :: "nat \<Rightarrow> index_arg \<Rightarrow> nat res" where
  "vec_index count index =
     (case index of IdxOther \<Rightarrow> Inl TypeError | IdxInt i \<Rightarrow> py_index count i)"

definition array_for :: "'a pvec \<Rightarrow> nat \<Rightarrow> 'a pyobj list res" where
  "array_for v index =
     (if index \<ge> tail_offset (vcount v) then Inr (vtail v)
      else descend (vshift v) (vroot v) index)"

definition vec_nth :: "'a pvec \<Rightarrow> index_arg \<Rightarrow> 'a pyobj res" where
  "vec_nth v index =
     rbind (vec_index (vcount v) index) (\<lambda>i.
     rbind (array_for v i) (\<lambda>a.
       let k = i AND BRANCH_MASK in if k < length a then Inr (a ! k) else Inl IndexError))"

definition vec_append :: "'a pvec \<Rightarrow> 'a pyobj \<Rightarrow> 'a pvec res" where
  "vec_append v value =
     (if length (vtail v) < BRANCH_FACTOR then
        Inr (v\<lparr>vcount := vcount v + 1, vtail := vtail v @ [value]\<rparr>)
      else
        let tail_node = VNode PyNone (vtail v) in
        rbind
          (if drop_bit BRANCH_BITS (vcount v) > push_bit (vshift v) 1 then
             rbind (new_path (vshift v) tail_node) (\<lambda>path.
               Inr (VNode PyNone ([PyNode (vroot v), PyNode path] @
                                  replicate (BRANCH_FACTOR - 2) PyNone),
                    vshift v + BRANCH_BITS))
           else
             rbind (push_tail (vcount v) (vshift v) (vroot v) tail_node) (\<lambda>root.
               Inr (root, vshift v)))
          (\<lambda>(new_root, new_shift).
             Inr (v\<lparr>vcount := vcount v + 1, vshift := new_shift, vroot := new_root,
                    vtail := [value]\<rparr>)))"

text \<open>
  \<open>_assoc_one\<close> appends through \<open>self._append\<close>, a virtual call that the primitive vector
  overrides; \<open>app\<close> is the append of the receiver's class.
\<close>

definition assoc_one_via ::
    "('a pvec \<Rightarrow> 'a pyobj \<Rightarrow> 'a pvec res) \<Rightarrow> 'a pvec \<Rightarrow> index_arg \<Rightarrow> 'a pyobj \<Rightarrow> 'a pvec res" where
  "assoc_one_via app v index value =
     (case index of
        IdxOther \<Rightarrow> Inl TypeError
      | IdxInt i0 \<Rightarrow>
          let i = (if i0 < 0 then i0 + int (vcount v) else i0) in
          if i = int (vcount v) then app v value
          else if \<not> (0 \<le> i \<and> i < int (vcount v)) then Inl IndexError
          else if nat i \<ge> tail_offset (vcount v) then
            (let k = nat i AND BRANCH_MASK in
             if k < length (vtail v) then Inr (v\<lparr>vtail := (vtail v)[k := value]\<rparr>)
             else Inl IndexError)
          else rbind (do_assoc (vshift v) (vroot v) (nat i) value) (\<lambda>root.
            Inr (v\<lparr>vroot := root\<rparr>)))"

definition assoc_one :: "'a pvec \<Rightarrow> index_arg \<Rightarrow> 'a pyobj \<Rightarrow> 'a pvec res" where
  "assoc_one v index value = assoc_one_via vec_append v index value"

definition vec_with_meta :: "'a pvec \<Rightarrow> 'a pyobj \<Rightarrow> 'a pvec" where
  "vec_with_meta v meta = v\<lparr>vmeta := meta\<rparr>"

definition vec_cons :: "'a pvec \<Rightarrow> 'a pyobj list \<Rightarrow> 'a pvec res" where
  "vec_cons v elems = foldM vec_append v elems"

text \<open>
  \<open>partition(coll, 2)\<close> of \<open>basilisp/util.py\<close>: the last group of an odd collection has one
  element.
\<close>

fun partition2 :: "'b list \<Rightarrow> ('b \<times> 'b option) list" where
  "partition2 [] = []"
| "partition2 [a] = [(a, None)]"
| "partition2 (a # b # rest) = (a, Some b) # partition2 rest"

text \<open>
  \<open>assoc\<close> takes keys and values in one argument list; \<open>as_index\<close> is what
  \<open>isinstance(_, int)\<close> and the integer's value say of an object.
\<close>

definition vec_assoc ::
    "('a pyobj \<Rightarrow> index_arg) \<Rightarrow> 'a pvec \<Rightarrow> 'a pyobj list \<Rightarrow> 'a pvec res" where
  "vec_assoc as_index v kvs =
     (if odd (length kvs) then Inl TypeError
      else foldM (\<lambda>r (key, value).
             assoc_one r (as_index key) (case value of Some x \<Rightarrow> x | None \<Rightarrow> PyNone))
           v (partition2 kvs))"

definition vec_contains :: "'a pvec \<Rightarrow> index_arg \<Rightarrow> bool" where
  "vec_contains v k = (case k of IdxInt i \<Rightarrow> 0 \<le> i \<and> i < int (vcount v) | IdxOther \<Rightarrow> False)"

text \<open>\<open>entry\<close> turns an IndexError into \<open>None\<close>; the entry's key is the index as given.\<close>

definition vec_entry :: "'a pvec \<Rightarrow> index_arg \<Rightarrow> (index_arg \<times> 'a pyobj) option res" where
  "vec_entry v k =
     (case vec_nth v k of
        Inr x \<Rightarrow> Inr (Some (k, x))
      | Inl IndexError \<Rightarrow> Inr None
      | Inl e \<Rightarrow> Inl e)"

definition vec_val_at :: "'a pvec \<Rightarrow> index_arg \<Rightarrow> 'a pyobj \<Rightarrow> 'a pyobj res" where
  "vec_val_at v k dflt =
     (case vec_nth v k of
        Inr x \<Rightarrow> Inr x
      | Inl IndexError \<Rightarrow> Inr dflt
      | Inl TypeError \<Rightarrow> Inr dflt
      | Inl e \<Rightarrow> Inl e)"

text \<open>\<open>nth\<close> with \<open>None\<close> for the absent \<open>notfound\<close> argument (\<open>NTH_SENTINEL\<close>).\<close>

definition vec_nth_or :: "'a pvec \<Rightarrow> index_arg \<Rightarrow> 'a pyobj option \<Rightarrow> 'a pyobj res" where
  "vec_nth_or v k notfound =
     (case vec_nth v k of
        Inr x \<Rightarrow> Inr x
      | Inl IndexError \<Rightarrow> (case notfound of Some d \<Rightarrow> Inr d | None \<Rightarrow> Inl IndexError)
      | Inl e \<Rightarrow> Inl e)"

definition vec_empty :: "'a pvec \<Rightarrow> 'a pvec" where
  "vec_empty v = vec_with_meta EMPTY_VEC (vmeta v)"

definition vec_peek :: "'a pvec \<Rightarrow> 'a pyobj res" where
  "vec_peek v = (if vcount v = 0 then Inr PyNone else vec_nth v (IdxInt (int (vcount v) - 1)))"

text \<open>The end of \<open>pop\<close>: drop a root that has only its first child left.\<close>

definition shrink_root :: "nat \<Rightarrow> 'a vnode \<Rightarrow> ('a vnode \<times> nat) res" where
  "shrink_root shift new_root =
     (if shift > BRANCH_BITS then
        rbind (branch new_root) (\<lambda>a.
          if a ! 1 = PyNone then
            (case a ! 0 of
               PyNode first \<Rightarrow> Inr (first, shift - BRANCH_BITS)
             | _ \<Rightarrow> Inl ValueError)
          else Inr (new_root, shift))
      else Inr (new_root, shift))"

definition vec_pop :: "'a pvec \<Rightarrow> 'a pvec res" where
  "vec_pop v =
     (if vcount v = 0 then Inl IndexError
      else if vcount v = 1 then Inr (vec_with_meta EMPTY_VEC (vmeta v))
      else if length (vtail v) > 1 then
        Inr (v\<lparr>vcount := vcount v - 1, vtail := butlast (vtail v)\<rparr>)
      else
        rbind (array_for v (vcount v - 2)) (\<lambda>new_tail.
        rbind (pop_tail (vcount v) (vshift v) (vroot v)) (\<lambda>popped.
          rbind (shrink_root (vshift v) (case popped of None \<Rightarrow> EMPTY_NODE | Some n \<Rightarrow> n))
            (\<lambda>(root, shift).
               Inr (v\<lparr>vcount := vcount v - 1, vshift := shift, vroot := root,
                      vtail := new_tail\<rparr>)))))"

text \<open>\<open>__iter__\<close>: the elements at positions 0, 1, ... in turn.\<close>

definition vec_iter :: "'a pvec \<Rightarrow> 'a pyobj list res" where
  "vec_iter v = mapM (\<lambda>i. vec_nth v (IdxInt (int i))) [0..<vcount v]"

text \<open>\<open>vector(members, meta)\<close>, with \<open>None\<close> for the absent metadata.\<close>

definition vector :: "'a pyobj list \<Rightarrow> 'a pyobj \<Rightarrow> 'a pvec res" where
  "vector members meta =
     rbind (foldM vec_append EMPTY_VEC members) (\<lambda>r.
       Inr (if meta = PyNone then r else vec_with_meta r meta))"

text \<open>A reducing function's result: a plain value, or one wrapped in \<open>Reduced\<close>.\<close>

datatype 's reduction = Running 's | Reduced 's

fun reduce_reads :: "('s \<Rightarrow> 'b \<Rightarrow> 's reduction) \<Rightarrow> 's \<Rightarrow> 'b res list \<Rightarrow> 's res" where
  "reduce_reads f init [] = Inr init"
| "reduce_reads f init (r # rs) =
     rbind r (\<lambda>x. case f init x of Reduced y \<Rightarrow> Inr y | Running y \<Rightarrow> reduce_reads f y rs)"

text \<open>The elements in order, each as the result of reading it.\<close>

definition vec_reads :: "'a pvec \<Rightarrow> 'a pyobj res list" where
  "vec_reads v = map (\<lambda>i. vec_nth v (IdxInt (int i))) [0..<vcount v]"

text \<open>
  \<open>reduce\<close>: without an initial value the first element is used, and the call \<open>f()\<close> answers
  for an empty vector. The elements are read as the loop goes.
\<close>

definition vec_reduce ::
    "('a pyobj \<Rightarrow> 'a pyobj \<Rightarrow> 'a pyobj reduction) \<Rightarrow> 'a pyobj \<Rightarrow> 'a pyobj option \<Rightarrow>
     'a pvec \<Rightarrow> 'a pyobj res" where
  "vec_reduce f f_no_args init v =
     (case init of
        Some i \<Rightarrow> reduce_reads f i (vec_reads v)
      | None \<Rightarrow>
          (case vec_reads v of
             [] \<Rightarrow> Inr f_no_args
           | r # rs \<Rightarrow> rbind r (\<lambda>x. reduce_reads f x rs)))"

definition vec_reduce_kv ::
    "('s \<Rightarrow> nat \<Rightarrow> 'a pyobj \<Rightarrow> 's reduction) \<Rightarrow> 's \<Rightarrow> 'a pvec \<Rightarrow> 's res" where
  "vec_reduce_kv f init v =
     reduce_reads (\<lambda>s (i, x). f s i x) init
       (map (\<lambda>i. rbind (vec_nth v (IdxInt (int i))) (\<lambda>x. Inr (i, x))) [0..<vcount v])"

text \<open>\<open>vec_from_components\<close>, the public constructor: it reads every tree position once.\<close>

definition vec_from_components ::
    "int \<Rightarrow> int \<Rightarrow> 'a vnode \<Rightarrow> 'a pyobj list \<Rightarrow> 'a pyobj \<Rightarrow> 'a pvec res" where
  "vec_from_components count shift root tail meta =
     (if count < 0 then Inl TypeError
      else if shift < int BRANCH_BITS \<or> shift mod int BRANCH_BITS \<noteq> 0 then Inl TypeError
      else if length tail \<noteq> nat count - tail_offset (nat count) then Inl ValueError
      else let result = \<lparr>vcount = nat count, vshift = nat shift, vroot = root,
                         vtail = tail, vmeta = meta\<rparr> in
        rbind (mapM (array_for result) [0..<tail_offset (nat count)]) (\<lambda>_. Inr result))"

section \<open>The list a vector represents\<close>

lemma tail_offset_eq: "tail_offset n = 32 * ((n - 1) div 32)"
  by (simp add: tail_offset_def push_bit_eq_mult drop_bit_eq_div)

lemma tail_offset_facts:
  "32 dvd tail_offset n" "tail_offset n \<le> n" "n \<le> tail_offset n + 32"
  "0 < n \<Longrightarrow> tail_offset n < n"
  using mult_div_mod_eq [of 32 "n - 1"] mod_less_divisor [of 32 "n - 1"]
  unfolding tail_offset_eq by (simp, linarith+)

text \<open>
  \<open>vec_rep v xs\<close>: the vector holds exactly the elements \<open>xs\<close>. The tree is the canonical
  tree of the elements before the tail, of the least height that fits them.
\<close>

definition vec_rep_at :: "nat \<Rightarrow> 'a pvec \<Rightarrow> 'a pyobj list \<Rightarrow> bool" where
  "vec_rep_at h v xs \<longleftrightarrow>
     vcount v = length xs \<and> vshift v = 5 * Suc h \<and>
     vroot v = build (Suc h) (take (tail_offset (length xs)) xs) \<and>
     vtail v = drop (tail_offset (length xs)) xs \<and>
     tail_offset (length xs) \<le> cap (Suc h) \<and> (0 < h \<longrightarrow> cap h < tail_offset (length xs))"

definition vec_rep :: "'a pvec \<Rightarrow> 'a pyobj list \<Rightarrow> bool" where
  "vec_rep v xs \<longleftrightarrow> (\<exists>h. vec_rep_at h v xs)"

named_theorems vec_refine \<open>refinement of vector operations to list operations\<close>

lemma vec_rep_count: "vec_rep v xs \<Longrightarrow> vcount v = length xs"
  by (auto simp: vec_rep_def vec_rep_at_def)

lemma vec_rep_meta [simp]: "vec_rep (v\<lparr>vmeta := m\<rparr>) xs = vec_rep v xs"
  by (simp add: vec_rep_def vec_rep_at_def)

lemma EMPTY_NODE_build: "EMPTY_NODE = build (Suc h) []"
  by (simp add: EMPTY_NODE_def empty_branch_def build.simps map_replicate_const)

lemma vec_rep_empty [vec_refine]: "vec_rep EMPTY_VEC []"
  unfolding vec_rep_def vec_rep_at_def
  by (rule exI [of _ 0]) (simp add: EMPTY_VEC_def tail_offset_eq EMPTY_NODE_build [of 0])

subsection \<open>Reading\<close>

lemma mod_tail:
  fixes i off :: nat
  assumes "32 dvd off" "off \<le> i" "i < off + 32"
  shows "i mod 32 = i - off"
proof -
  obtain r where "i = off + r"
    using assms(2) le_Suc_ex by blast
  with assms show ?thesis by auto
qed

lemma array_for_rep:
  assumes "vec_rep v xs" "i < length xs"
  shows "\<exists>a. array_for v i = Inr a \<and> i mod 32 < length a \<and> a ! (i mod 32) = xs ! i"
proof -
  obtain h where h: "vec_rep_at h v xs"
    using assms(1) by (auto simp: vec_rep_def)
  define off where "off = tail_offset (length xs)"
  have off: "32 dvd off" "off \<le> length xs" "length xs \<le> off + 32" "off \<le> cap (Suc h)"
    using h tail_offset_facts [of "length xs"] by (auto simp: off_def vec_rep_at_def)
  show ?thesis
  proof (cases "off \<le> i")
    case True
    then have "i mod 32 = i - off"
      using off(1,3) assms(2) by (intro mod_tail) auto
    with True show ?thesis
      using h assms(2) off(2)
      by (auto simp: array_for_def vec_rep_at_def off_def [symmetric])
  next
    case False
    then have i: "i < cap (Suc h)"
      using off(4) by linarith
    have "descend (5 * Suc h) (build (Suc h) (take off xs)) i
        = Inr (take 32 (drop (32 * (i div 32)) (take off xs)))"
      using off False i descend_build [of "take off xs" "Suc h" i] by (simp add: min_absorb2)
    moreover have "32 * (i div 32) + 32 \<le> off"
      using off(1) False
      by (intro dvd_gap) (auto intro: le_less_trans [OF times_div_less_eq_dividend])
    moreover from this have "i mod 32 < length (take 32 (drop (32 * (i div 32)) (take off xs)))"
      using off(2) by simp
    moreover have "take 32 (drop (32 * (i div 32)) (take off xs)) ! (i mod 32) = xs ! i"
      using False off(2) by simp
    ultimately show ?thesis
      using h False by (auto simp: array_for_def vec_rep_at_def off_def [symmetric])
  qed
qed

lemma vec_nth_rep [vec_refine]:
  assumes "vec_rep v xs"
  shows "vec_nth v index = rbind (vec_index (length xs) index) (\<lambda>i. Inr (xs ! i))"
proof (cases "vec_index (length xs) index")
  case (Inl e)
  then show ?thesis
    using assms by (simp add: vec_nth_def vec_rep_count)
next
  case (Inr i)
  then have "i < length xs"
    by (auto simp: vec_index_def dest: py_index_Inr split: index_arg.splits)
  then obtain a where "array_for v i = Inr a" "i mod 32 < length a" "a ! (i mod 32) = xs ! i"
    using array_for_rep [OF assms] by blast
  with Inr show ?thesis
    using assms index_mask [of i] by (simp add: vec_nth_def vec_rep_count Let_def)
qed

lemma vec_nth_int: "vec_rep v xs \<Longrightarrow> i < length xs \<Longrightarrow> vec_nth v (IdxInt (int i)) = Inr (xs ! i)"
  by (simp add: vec_refine vec_index_def)

lemma vec_iter_rep [vec_refine]: "vec_rep v xs \<Longrightarrow> vec_iter v = Inr xs"
  using mapM_map [of "[0..<length xs]" "\<lambda>i. vec_nth v (IdxInt (int i))" "(!) xs"]
  by (simp add: vec_iter_def vec_rep_count vec_nth_int map_nth)

subsection \<open>Appending\<close>

lemma tail_offset_Suc:
  "tail_offset (Suc n) = (if n - tail_offset n < 32 then tail_offset n else n)"
proof (cases n)
  case (Suc m)
  define a b where "a = m div 32" and "b = m mod 32"
  have m: "m = 32 * a + b" "b < 32"
    by (simp_all add: a_def b_def)
  have "Suc m div 32 = (if b = 31 then Suc a else a)"
    using m by (simp add: div_Suc)
  with Suc m show ?thesis
    by (auto simp: tail_offset_eq)
qed (simp add: tail_offset_eq)

lemma full_tail: "n - tail_offset n \<ge> 32 \<Longrightarrow> n = tail_offset n + 32"
  using tail_offset_facts [of n] by linarith

lemma build_overflow:
  assumes "length xs = cap (Suc h)" "length t = 32"
  shows "VNode PyNone (PyNode (build (Suc h) xs) # PyNode (build (Suc h) t) # replicate 30 PyNone)
    = build (Suc (Suc h)) (xs @ t)"
proof -
  have "slots (Suc h) (xs @ t)
      = PyNode (build (Suc h) xs) # PyNode (build (Suc h) t) # replicate 30 PyNone"
  proof (rule slots_eqI)
    fix k :: nat
    assume k: "k < 32"
    have b: "block (Suc h) 0 (xs @ t) = xs" "block (Suc h) 1 (xs @ t) = t"
      using assms cap_ge_32 [of "Suc h"] by (simp_all add: block_def)
    consider "k = 0" | "k = 1" | j where "k = Suc (Suc j)"
      by (metis One_nat_def not0_implies_Suc)
    then show "slots (Suc h) (xs @ t) ! k
        = (PyNode (build (Suc h) xs) # PyNode (build (Suc h) t) # replicate 30 PyNone) ! k"
    proof cases
      case 3
      then have "cap (Suc h) + 32 \<le> k * cap (Suc h)"
        using cap_ge_32 [of "Suc h"] by (simp add: trans_le_add1)
      with 3 k assms show ?thesis by simp
    qed (use k assms b in simp_all)
  qed simp
  then show ?thesis
    by (simp add: build_Suc_slots)
qed

lemma vec_append_rep [vec_refine]:
  assumes "vec_rep v xs"
  shows "\<exists>w. vec_append v x = Inr w \<and> vec_rep w (xs @ [x]) \<and> vmeta w = vmeta v"
proof -
  obtain h where h: "vec_rep_at h v xs"
    using assms by (auto simp: vec_rep_def)
  define n where "n = length xs"
  define off where "off = tail_offset n"
  have off: "32 dvd off" "off \<le> n" "n \<le> off + 32" "off \<le> cap (Suc h)" "0 < h \<longrightarrow> cap h < off"
    using h tail_offset_facts [of n] by (auto simp: off_def n_def vec_rep_at_def)
  have v: "vcount v = n" "vshift v = 5 * Suc h" "vroot v = build (Suc h) (take off xs)"
    "vtail v = drop off xs" "length (drop off xs) = n - off"
    using h by (auto simp: vec_rep_at_def n_def off_def)
  show ?thesis
  proof (cases "n - off < 32")
    case True
    then have "vec_rep_at h (v\<lparr>vcount := n + 1, vtail := drop off xs @ [x]\<rparr>) (xs @ [x])"
      using v off by (simp add: vec_rep_at_def n_def [symmetric] tail_offset_Suc off_def)
    with True v show ?thesis
      by (auto simp: vec_append_def vec_rep_def n_def)
  next
    case False
    then have full: "n = off + 32"
      unfolding off_def by (intro full_tail) simp
    define t where "t = drop off xs"
    have t: "length t = 32" "take off xs @ t = xs" "take n (xs @ [x]) = xs"
      using full by (simp_all add: t_def n_def)
    have node: "VNode PyNone t = build 0 t" and vt: "vtail v = t"
      by (simp_all add: build.simps v t_def)
    have over: "push_bit (5 * Suc h) 1 < drop_bit 5 n \<longleftrightarrow> off = cap (Suc h)"
    proof -
      have "push_bit (5 * Suc h) 1 = cap h"
        by (simp only: push_bit_eq_mult two_power_level mult_1)
      moreover have "drop_bit 5 n = off div 32 + 1"
        using full by (simp add: drop_bit_eq_div)
      moreover have "cap h \<le> off div 32 \<longleftrightarrow> cap (Suc h) \<le> off"
        by (simp add: cap_Suc less_eq_div_iff_mult_less_eq mult.commute)
      ultimately show ?thesis
        using off(4) by auto
    qed
    have newoff: "tail_offset (Suc n) = n"
      using False by (simp add: tail_offset_Suc off_def)
    show ?thesis
    proof (cases "off = cap (Suc h)")
      case True
      let ?w = "v\<lparr>vcount := n + 1, vshift := 5 * Suc (Suc h),
                  vroot := build (Suc (Suc h)) xs, vtail := [x]\<rparr>"
      have root: "VNode PyNone (PyNode (build (Suc h) (take off xs)) # PyNode (build (Suc h) t) #
          replicate 30 PyNone) = build (Suc (Suc h)) xs"
        using True off(2) t build_overflow [of "take off xs" h t] by (simp add: n_def)
      have ov: "push_bit (5 * Suc h) 1 < drop_bit 5 n"
        using over True by blast
      have "vec_append v x = Inr ?w"
        using ov root new_path_build [OF t(1), of "Suc h"]
        by (simp add: vec_append_def vt t(1) v(1-3) Let_def node)
      moreover have "vec_rep_at (Suc h) ?w (xs @ [x])"
        using True full t newoff cap_ge_32 [of "Suc h"]
        by (simp add: vec_rep_at_def n_def [symmetric] cap_Suc [of "Suc h"])
      ultimately show ?thesis
        by (auto simp: vec_rep_def)
    next
      case not_over: False
      let ?w = "v\<lparr>vcount := n + 1, vroot := build (Suc h) xs, vtail := [x]\<rparr>"
      have room: "off + 32 \<le> cap (Suc h)"
        using off(1,4) not_over by (intro dvd_gap) (auto simp: dvd_cap)
      have "push_tail n (5 * Suc h) (build (Suc h) (take off xs)) (build 0 t)
          = Inr (build (Suc h) (take off xs @ t))"
        using full room off t(1) by (intro push_tail_build) (auto simp: n_def [symmetric] min_absorb2)
      moreover have ov: "\<not> push_bit (5 * Suc h) 1 < drop_bit 5 n"
        using over not_over by blast
      ultimately have "vec_append v x = Inr ?w"
        by (simp add: vec_append_def vt t(1,2) v(1-3) Let_def node)
      moreover have "vec_rep_at h ?w (xs @ [x])"
        using full room off t newoff v(2)
        by (auto simp: vec_rep_at_def n_def [symmetric])
      ultimately show ?thesis
        by (auto simp: vec_rep_def)
    qed
  qed
qed

subsection \<open>Replacing\<close>

lemma assoc_one_end:
  "vec_rep v xs \<Longrightarrow> assoc_one v (IdxInt (int (length xs))) x = vec_append v x"
  by (simp add: assoc_one_def assoc_one_via_def vec_rep_count)

lemma assoc_one_rep:
  assumes "vec_rep v xs" and i: "i < length xs"
  shows "\<exists>w. assoc_one v (IdxInt (int i)) x = Inr w \<and> vec_rep w (xs[i := x]) \<and> vmeta w = vmeta v"
proof -
  obtain h where h: "vec_rep_at h v xs"
    using assms by (auto simp: vec_rep_def)
  define off where "off = tail_offset (length xs)"
  have off: "32 dvd off" "off \<le> length xs" "length xs \<le> off + 32" "off \<le> cap (Suc h)"
    using h tail_offset_facts [of "length xs"] by (auto simp: off_def vec_rep_at_def)
  have v: "vcount v = length xs" "vshift v = 5 * Suc h" "vroot v = build (Suc h) (take off xs)"
    "vtail v = drop off xs" "tail_offset (length xs) = off"
    using h by (auto simp: vec_rep_at_def off_def)
  show ?thesis
  proof (cases "off \<le> i")
    case True
    have k: "i AND 31 = i - off"
      using True off i mod_tail [of off i] index_mask [of i] by simp
    have "vec_rep_at h (v\<lparr>vtail := (drop off xs)[i - off := x]\<rparr>) (xs[i := x])"
      using h True i by (simp add: vec_rep_at_def off_def drop_update_swap)
    moreover have "assoc_one v (IdxInt (int i)) x
        = Inr (v\<lparr>vtail := (drop off xs)[i - off := x]\<rparr>)"
      using True i off(2) by (simp add: assoc_one_def assoc_one_via_def v Let_def k)
    ultimately show ?thesis
      by (auto simp: vec_rep_def)
  next
    case False
    then have im: "i mod cap (Suc h) = i"
      using off(4) by simp
    have "do_assoc (5 * Suc h) (build (Suc h) (take off xs)) i x
        = Inr (build (Suc h) ((take off xs)[i := x]))"
      using do_assoc_build [of "take off xs" "Suc h" i x] off False im
      by (simp add: min_absorb2)
    then have "assoc_one v (IdxInt (int i)) x
        = Inr (v\<lparr>vroot := build (Suc h) ((take off xs)[i := x])\<rparr>)"
      using False i by (simp add: assoc_one_def assoc_one_via_def v Let_def)
    moreover have "vec_rep_at h (v\<lparr>vroot := build (Suc h) ((take off xs)[i := x])\<rparr>) (xs[i := x])"
      using h False by (simp add: vec_rep_at_def off_def take_update_swap)
    ultimately show ?thesis
      by (auto simp: vec_rep_def)
  qed
qed

text \<open>The full contract of \<open>assoc\<close> at one index: negative indices, appending, and errors.\<close>

definition list_assoc :: "'b list \<Rightarrow> index_arg \<Rightarrow> 'b \<Rightarrow> 'b list res" where
  "list_assoc xs index x =
     (case index of
        IdxOther \<Rightarrow> Inl TypeError
      | IdxInt i \<Rightarrow>
          if i = int (length xs) then Inr (xs @ [x])
          else rbind (py_index (length xs) i) (\<lambda>k. Inr (xs[k := x])))"

definition rel_res :: "('b \<Rightarrow> 'c \<Rightarrow> bool) \<Rightarrow> 'b res \<Rightarrow> 'c res \<Rightarrow> bool" where
  "rel_res R a b =
     (case a of
        Inl e \<Rightarrow> b = Inl e
      | Inr x \<Rightarrow> (case b of Inr y \<Rightarrow> R x y | Inl _ \<Rightarrow> False))"

lemma rel_res_simps [simp]:
  "rel_res R (Inl e) b \<longleftrightarrow> b = Inl e"
  "rel_res R (Inr x) (Inr y) \<longleftrightarrow> R x y"
  "rel_res R (Inr x) (Inl e) \<longleftrightarrow> False"
  by (simp_all add: rel_res_def)

definition rep_same_meta :: "'a pyobj \<Rightarrow> 'a pvec \<Rightarrow> 'a pyobj list \<Rightarrow> bool" where
  "rep_same_meta m v xs \<longleftrightarrow> vec_rep v xs \<and> vmeta v = m"

lemma assoc_one_refines [vec_refine]:
  assumes "rep_same_meta m v xs"
  shows "rel_res (rep_same_meta m) (assoc_one v index x) (list_assoc xs index x)"
proof (cases index)
  case (IdxInt i)
  have rep: "vec_rep v xs" and m: "vmeta v = m"
    using assms by (auto simp: rep_same_meta_def)
  define j where "j = (if i < 0 then i + int (length xs) else i)"
  have same: "assoc_one v (IdxInt i) x = assoc_one v (IdxInt j) x" if "0 \<le> j"
    using that rep by (auto simp: assoc_one_def assoc_one_via_def j_def vec_rep_count)
  show ?thesis
  proof (cases "0 \<le> j \<and> j \<le> int (length xs)")
    case False
    then show ?thesis
      using rep IdxInt
      by (auto simp: assoc_one_def assoc_one_via_def list_assoc_def py_index_def vec_rep_count Let_def j_def
          split: if_splits)
  next
    case True
    then obtain k where k: "j = int k" "k \<le> length xs"
      by (metis int_nat_eq nat_le_iff of_nat_le_iff nonneg_int_cases)
    show ?thesis
    proof (cases "k = length xs")
      case True
      then have "i = int (length xs)"
        using k by (auto simp: j_def split: if_splits)
      then show ?thesis
        using vec_append_rep [OF rep, of x] assoc_one_end [OF rep, of x] m IdxInt
        by (auto simp: list_assoc_def rep_same_meta_def)
    next
      case False
      with k have kl: "k < length xs" by simp
      then have "py_index (length xs) i = Inr k" "i \<noteq> int (length xs)"
        using k by (auto simp: py_index_def j_def Let_def split: if_splits)
      then show ?thesis
        using assoc_one_rep [OF rep kl, of x] same k m IdxInt
        by (auto simp: list_assoc_def rep_same_meta_def)
    qed
  qed
qed (simp add: assoc_one_def assoc_one_via_def list_assoc_def)

subsection \<open>Removing the last element\<close>

lemma tail_offset_pred:
  "2 \<le> n \<Longrightarrow> tail_offset (n - 1) = (if n - tail_offset n = 1 then tail_offset n - 32 else tail_offset n)"
proof -
  assume n: "2 \<le> n"
  define m where "m = n - 2"
  then have nm: "n = Suc (Suc m)"
    using n by simp
  define a b where "a = m div 32" and "b = m mod 32"
  have m: "m = 32 * a + b" "b < 32"
    by (simp_all add: a_def b_def)
  have "Suc m div 32 = (if b = 31 then Suc a else a)"
    using m by (simp add: div_Suc)
  with nm m show ?thesis
    by (auto simp: tail_offset_eq)
qed

lemma vec_pop_last_leaf:
  assumes h: "vec_rep_at h v xs" and n: "length xs = tail_offset (length xs) + 1" "2 \<le> length xs"
  shows "\<exists>w k. vec_pop v = Inr w \<and> vec_rep_at k w (butlast xs) \<and> vmeta w = vmeta v"
proof -
  define off where "off = tail_offset (length xs)"
  define X where "X = take off xs"
  have off: "32 dvd off" "length xs = off + 1" "off \<le> cap (Suc h)" "0 < h \<longrightarrow> cap h < off" "0 < off"
    using h n tail_offset_facts [of "length xs"] by (auto simp: off_def vec_rep_at_def)
  then have off32: "32 \<le> off"
    using dvd_imp_le by blast
  have ob: "tail_offset (Suc off) = off"
    using off(2) by (simp add: off_def)
  then have v: "vcount v = off + 1" "vshift v = 5 * Suc h" "vroot v = build (Suc h) X"
    "length (vtail v) = 1" "tail_offset (off + 1) = off"
    using h off(2) by (simp_all add: vec_rep_at_def X_def)
  have X: "length X = off" "butlast xs = X"
    using off(2) by (simp_all add: X_def butlast_conv_take)
  have newoff: "tail_offset off = off - 32"
    using tail_offset_pred [of "off + 1"] off32 v(5) by simp
  have leaf: "array_for v (off - 1) = Inr (drop (off - 32) X)"
  proof -
    obtain q where q: "off = 32 * Suc q"
      using off(1,5) by (metis dvd_def mult_0_right not_gr_zero not0_implies_Suc)
    have "descend (5 * Suc h) (build (Suc h) X) (off - 1)
        = Inr (take 32 (drop (32 * ((off - 1) div 32)) X))"
      using descend_build [of X "Suc h" "off - 1"] off X by simp
    moreover have "(off - 1) div 32 = q"
      by (simp add: q)
    ultimately show ?thesis
      using v off32 X q by (simp add: array_for_def)
  qed
  have popped: "pop_tail (off + 1) (5 * Suc h) (build (Suc h) X)
      = Inr (if off = 32 then None else Some (build (Suc h) (take (off - 32) X)))"
    using pop_tail_build [of X h "off + 1"] off X off32 by simp
  define Y where "Y = take (off - 32) X"
  define P where "P = (if off = 32 then None else Some (build (Suc h) Y))"
  define g where "g = (if 0 < h \<and> off - 32 = cap h then h - 1 else h)"
  have root: "(case P of None \<Rightarrow> EMPTY_NODE | Some n \<Rightarrow> n) = build (Suc h) Y"
    by (simp add: P_def Y_def EMPTY_NODE_build [of h])
  have shrink: "shrink_root (5 * Suc h) (build (Suc h) Y) = Inr (build (Suc g) Y, 5 * Suc g)"
  proof (cases h)
    case (Suc h')
    have len: "length Y = off - 32"
      using X by (simp add: Y_def)
    have ge: "cap h \<le> off - 32"
      using off(1,4) Suc dvd_gap [of "cap h" off] dvd_cap [of h] by auto
    have pos: "0 < off - 32"
      using ge cap_pos(1) [of h] by linarith
    show ?thesis
    proof (cases "off - 32 = cap h")
      case True
      then have "block h 0 Y = Y"
        using len by (simp add: block_def)
      with True len pos Suc show ?thesis
        by (simp add: shrink_root_def branch_build_Suc g_def)
    next
      case False
      then show ?thesis
        using ge len by (simp add: shrink_root_def branch_build_Suc g_def)
    qed
  qed (simp add: shrink_root_def g_def)
  let ?w = "v\<lparr>vcount := off, vshift := 5 * Suc g, vroot := build (Suc g) Y,
              vtail := drop (off - 32) X\<rparr>"
  have popped': "pop_tail (vcount v) (vshift v) (vroot v) = Inr P"
    using popped v(1-3) by (simp add: P_def Y_def)
  have "vec_pop v = Inr ?w"
    unfolding vec_pop_def popped'
    using v(1,2,4) leaf root shrink off(5) by simp
  moreover have "vec_rep_at g ?w (butlast xs)"
  proof -
    have "0 < h \<longrightarrow> cap h \<le> off - 32"
      using off(1,4) dvd_gap [of "cap h" off] dvd_cap [of h] by auto
    then have "0 < g \<longrightarrow> cap g < off - 32"
      by (auto simp: cap_def g_def)
    moreover have "off - 32 \<le> cap (Suc g)"
      using off(3) by (auto simp: g_def)
    ultimately show ?thesis
      using X newoff by (simp add: vec_rep_at_def Y_def)
  qed
  ultimately show ?thesis by auto
qed

lemma vec_pop_rep [vec_refine]:
  assumes "vec_rep v xs" "xs \<noteq> []"
  shows "\<exists>w. vec_pop v = Inr w \<and> vec_rep w (butlast xs) \<and> vmeta w = vmeta v"
proof -
  obtain h where h: "vec_rep_at h v xs"
    using assms by (auto simp: vec_rep_def)
  define n where "n = length xs"
  have v: "vcount v = n" "vtail v = drop (tail_offset n) xs" "length (vtail v) = n - tail_offset n"
    using h by (auto simp: vec_rep_at_def n_def)
  have n: "0 < n"
    using assms(2) by (simp add: n_def)
  consider "n = 1" | "2 \<le> n" "n - tail_offset n = 1" | "2 \<le> n" "n - tail_offset n > 1"
    using n tail_offset_facts(4) [OF n] by linarith
  then show ?thesis
  proof cases
    case 1
    then have "butlast xs = []"
      by (simp add: n_def butlast_conv_take)
    then show ?thesis
      using 1 vec_rep_empty by (simp add: vec_pop_def v vec_with_meta_def)
  next
    case 2
    then have "length xs = tail_offset (length xs) + 1" "2 \<le> length xs"
      by (simp_all add: n_def)
    from vec_pop_last_leaf [OF h this] show ?thesis
      by (auto simp: vec_rep_def)
  next
    case 3
    have off: "tail_offset (n - 1) = tail_offset n"
      using 3 tail_offset_pred [of n] by simp
    have "vec_rep_at h (v\<lparr>vcount := n - 1, vtail := butlast (vtail v)\<rparr>) (butlast xs)"
      using h 3 off unfolding vec_rep_at_def
      by (simp add: n_def drop_butlast take_butlast)
    moreover have "vec_pop v = Inr (v\<lparr>vcount := n - 1, vtail := butlast (vtail v)\<rparr>)"
      using 3 v by (simp add: vec_pop_def)
    ultimately show ?thesis
      by (auto simp: vec_rep_def)
  qed
qed

lemma assoc_one_via_other:
  "vec_rep v xs \<Longrightarrow> index \<noteq> IdxInt (int (length xs)) \<Longrightarrow>
    assoc_one_via app v index x = assoc_one v index x"
  by (auto simp: assoc_one_def assoc_one_via_def vec_rep_count Let_def split: index_arg.splits)

lemma assoc_one_via_end:
  "vec_rep v xs \<Longrightarrow> assoc_one_via app v (IdxInt (int (length xs))) x = app v x"
  by (simp add: assoc_one_via_def vec_rep_count)

end
