(* ===== verification/VectorOps.thy ===== *)
theory VectorOps
  imports PVector
begin

text \<open>
  The list contract that the three vector classes of \<open>src/src/basilisp/lang/vector.py\<close> share,
  as a locale; the transient and primitive vectors; and the interpretations of the contract on
  the persistent, transient and primitive vector. The properties about whole programs of vector
  operations follow from the interpretations.
\<close>

section \<open>Programs of vector operations\<close>

datatype 'x vec_op = Conj 'x | AssocAt index_arg 'x | PopLast

fun run_vec_op ::
    "('v \<Rightarrow> 'x \<Rightarrow> 'v res) \<Rightarrow> ('v \<Rightarrow> index_arg \<Rightarrow> 'x \<Rightarrow> 'v res) \<Rightarrow> ('v \<Rightarrow> 'v res) \<Rightarrow>
     'v \<Rightarrow> 'x vec_op \<Rightarrow> 'v res" where
  "run_vec_op app upd pop v (Conj x) = app v x"
| "run_vec_op app upd pop v (AssocAt i x) = upd v i x"
| "run_vec_op app upd pop v PopLast = pop v"

text \<open>
  The same operations on lists. \<open>conv\<close> is the coercion applied to a new element before
  anything else happens; an element that \<open>assoc\<close> puts behind the last one is coerced again,
  by the append that \<open>assoc\<close> calls.
\<close>

definition list_assoc_conv :: "('x \<Rightarrow> 'x res) \<Rightarrow> 'x list \<Rightarrow> index_arg \<Rightarrow> 'x \<Rightarrow> 'x list res" where
  "list_assoc_conv conv xs i x =
     rbind (conv x) (\<lambda>y.
       if i = IdxInt (int (length xs)) then rbind (conv y) (\<lambda>z. Inr (xs @ [z]))
       else list_assoc xs i y)"

lemma list_assoc_conv_Inr [simp]: "list_assoc_conv Inr xs i x = list_assoc xs i x"
  by (auto simp: list_assoc_conv_def list_assoc_def)

lemma list_assoc_conv_idem:
  "(\<And>y. conv x = Inr y \<Longrightarrow> conv y = Inr y) \<Longrightarrow>
    list_assoc_conv conv xs i x = rbind (conv x) (list_assoc xs i)"
  by (cases "conv x") (auto simp: list_assoc_conv_def list_assoc_def)

fun list_vec_op :: "('x \<Rightarrow> 'x res) \<Rightarrow> 'x list \<Rightarrow> 'x vec_op \<Rightarrow> 'x list res" where
  "list_vec_op conv xs (Conj x) = rbind (conv x) (\<lambda>y. Inr (xs @ [y]))"
| "list_vec_op conv xs (AssocAt i x) = list_assoc_conv conv xs i x"
| "list_vec_op conv xs PopLast = (if xs = [] then Inl IndexError else Inr (butlast xs))"

locale list_contract =
  fixes rep :: "'v \<Rightarrow> 'x list \<Rightarrow> bool"
    and conv :: "'x \<Rightarrow> 'x res"
    and app :: "'v \<Rightarrow> 'x \<Rightarrow> 'v res"
    and upd :: "'v \<Rightarrow> index_arg \<Rightarrow> 'x \<Rightarrow> 'v res"
    and pop :: "'v \<Rightarrow> 'v res"
    and iter :: "'v \<Rightarrow> 'x list res"
  assumes rep_app: "rep v xs \<Longrightarrow> rel_res rep (app v x) (rbind (conv x) (\<lambda>y. Inr (xs @ [y])))"
    and rep_upd: "rep v xs \<Longrightarrow> rel_res rep (upd v i x) (list_assoc_conv conv xs i x)"
    and rep_pop: "rep v xs \<Longrightarrow>
      rel_res rep (pop v) (if xs = [] then Inl IndexError else Inr (butlast xs))"
    and rep_iter: "rep v xs \<Longrightarrow> iter v = Inr xs"
begin

lemma step_refines:
  "rep v xs \<Longrightarrow> rel_res rep (run_vec_op app upd pop v c) (list_vec_op conv xs c)"
  by (cases c) (simp_all add: rep_app rep_upd rep_pop)

lemma run_refines:
  "rep v xs \<Longrightarrow>
    rel_res rep (foldM (run_vec_op app upd pop) v cs) (foldM (list_vec_op conv) xs cs)"
proof (induction cs arbitrary: v xs)
  case (Cons c cs)
  show ?case
  proof (cases "run_vec_op app upd pop v c")
    case (Inl e)
    with step_refines [OF Cons.prems, of c] show ?thesis by simp
  next
    case (Inr w)
    with step_refines [OF Cons.prems, of c] obtain ys
      where "list_vec_op conv xs c = Inr ys" "rep w ys"
      by (cases "list_vec_op conv xs c") auto
    with Inr Cons.IH show ?thesis by simp
  qed
qed simp

lemma run_then_iter:
  assumes "rep v xs"
  shows "rbind (foldM (run_vec_op app upd pop) v cs) iter = foldM (list_vec_op conv) xs cs"
  using run_refines [OF assms, of cs] rep_iter
  by (cases "foldM (run_vec_op app upd pop) v cs"; cases "foldM (list_vec_op conv) xs cs") auto

lemma app_all:
  assumes "rep v xs" "conv = Inr"
  shows "\<exists>w. foldM app v ys = Inr w \<and> rep w (xs @ ys)"
  using assms
proof (induction ys arbitrary: v xs)
  case (Cons y ys)
  with rep_app [OF Cons.prems(1), of y] obtain w where "app v y = Inr w" "rep w (xs @ [y])"
    by (cases "app v y") auto
  with Cons.IH [of w "xs @ [y]"] Cons.prems show ?case by simp
qed simp

end

section \<open>The persistent vector meets the contract\<close>

lemma rel_res_I: "a = Inr x \<Longrightarrow> R x y \<Longrightarrow> rel_res R a (Inr y)"
  by simp

lemma vec_append_refines:
  "rep_same_meta m v xs \<Longrightarrow> rel_res (rep_same_meta m) (vec_append v x) (Inr (xs @ [x]))"
  using vec_append_rep [of v xs x] by (auto simp: rep_same_meta_def)

lemma vec_pop_refines:
  "rep_same_meta m v xs \<Longrightarrow>
    rel_res (rep_same_meta m) (vec_pop v) (if xs = [] then Inl IndexError else Inr (butlast xs))"
  using vec_pop_rep [of v xs] by (auto simp: rep_same_meta_def vec_pop_def vec_rep_count)

interpretation pv: list_contract "rep_same_meta m" Inr vec_append assoc_one vec_pop vec_iter for m
  by unfold_locales
    (auto simp: vec_append_refines assoc_one_refines vec_pop_refines vec_iter_rep rep_same_meta_def)

lemma EMPTY_VEC_rep: "rep_same_meta PyNone EMPTY_VEC []"
  by (simp add: rep_same_meta_def vec_rep_empty) (simp add: EMPTY_VEC_def)

lemma vector_rep: "\<exists>v. vector xs m = Inr v \<and> rep_same_meta m v xs"
proof -
  obtain w where "foldM vec_append EMPTY_VEC xs = Inr w" "rep_same_meta PyNone w xs"
    using pv.app_all [OF EMPTY_VEC_rep refl, of xs] by auto
  then show ?thesis
    by (auto simp: vector_def vec_with_meta_def rep_same_meta_def)
qed

section \<open>The transient vector\<close>

text \<open>
  \<open>TransientVector\<close> stages its elements in a plain list; the model of the object is that
  list. Python's list indexing accepts negative positions.
\<close>

type_synonym 'a tvec = "'a pyobj list"

definition to_transient :: "'a pvec \<Rightarrow> 'a tvec res" where
  "to_transient v = vec_iter v"

definition t_index :: "index_arg \<Rightarrow> nat \<Rightarrow> bool \<Rightarrow> nat res" where
  "t_index index count allow_end =
     (case index of
        IdxOther \<Rightarrow> Inl TypeError
      | IdxInt i0 \<Rightarrow>
          let i = (if i0 < 0 then i0 + int count else i0);
              upper_bound = (if allow_end then int count else int count - 1) in
          if 0 \<le> i \<and> i \<le> upper_bound then Inr (nat i) else Inl IndexError)"

definition cons_transient :: "'a tvec \<Rightarrow> 'a pyobj list \<Rightarrow> 'a tvec" where
  "cons_transient t elems = t @ elems"

definition assoc_one_transient :: "'a tvec \<Rightarrow> index_arg \<Rightarrow> 'a pyobj \<Rightarrow> 'a tvec res" where
  "assoc_one_transient t key value =
     rbind (t_index key (length t) True) (\<lambda>index.
       if index = length t then Inr (t @ [value]) else Inr (t[index := value]))"

definition assoc_transient ::
    "('a pyobj \<Rightarrow> index_arg) \<Rightarrow> 'a tvec \<Rightarrow> 'a pyobj list \<Rightarrow> 'a tvec res" where
  "assoc_transient as_index t kvs =
     foldM (\<lambda>r (key, value).
         assoc_one_transient r (as_index key) (case value of Some x \<Rightarrow> x | None \<Rightarrow> PyNone))
       t (partition2 kvs)"

definition contains_transient :: "'a tvec \<Rightarrow> index_arg \<Rightarrow> bool" where
  "contains_transient t k = (case k of IdxInt i \<Rightarrow> 0 \<le> i \<and> i < int (length t) | IdxOther \<Rightarrow> False)"

definition t_get :: "'a tvec \<Rightarrow> index_arg \<Rightarrow> 'a pyobj res" where
  "t_get t k = rbind (vec_index (length t) k) (\<lambda>i. Inr (t ! i))"

definition entry_transient :: "'a tvec \<Rightarrow> index_arg \<Rightarrow> (index_arg \<times> 'a pyobj) option res" where
  "entry_transient t k =
     (case t_get t k of
        Inr x \<Rightarrow> Inr (Some (k, x))
      | Inl IndexError \<Rightarrow> Inr None
      | Inl e \<Rightarrow> Inl e)"

definition val_at_transient :: "'a tvec \<Rightarrow> index_arg \<Rightarrow> 'a pyobj \<Rightarrow> 'a pyobj res" where
  "val_at_transient t k dflt =
     (case t_get t k of
        Inr x \<Rightarrow> Inr x
      | Inl IndexError \<Rightarrow> Inr dflt
      | Inl TypeError \<Rightarrow> Inr dflt
      | Inl e \<Rightarrow> Inl e)"

definition nth_transient :: "'a tvec \<Rightarrow> index_arg \<Rightarrow> 'a pyobj option \<Rightarrow> 'a pyobj res" where
  "nth_transient t k notfound =
     (case t_get t k of
        Inr x \<Rightarrow> Inr x
      | Inl IndexError \<Rightarrow> (case notfound of Some d \<Rightarrow> Inr d | None \<Rightarrow> Inl IndexError)
      | Inl e \<Rightarrow> Inl e)"

definition pop_transient :: "'a tvec \<Rightarrow> 'a tvec res" where
  "pop_transient t = (if t = [] then Inl IndexError else Inr (butlast t))"

definition to_persistent :: "'a tvec \<Rightarrow> 'a pvec res" where
  "to_persistent t = vector t PyNone"

lemma assoc_one_transient_list: "assoc_one_transient t i x = list_assoc t i x"
  by (auto simp: assoc_one_transient_def list_assoc_def t_index_def py_index_def Let_def
      split: index_arg.splits)

interpretation tv: list_contract "(=)" Inr "\<lambda>t x. Inr (cons_transient t [x])"
    assoc_one_transient pop_transient Inr
  by unfold_locales
    (auto simp: cons_transient_def assoc_one_transient_list pop_transient_def rel_res_def
      split: sum.splits)

section \<open>The primitive vector\<close>

text \<open>
  \<open>PrimitiveVector\<close> coerces every element it is given; \<open>pcoerce\<close> is the coercion, which
  may raise. The superclass routines build the tree.
\<close>

record 'a prim_vec =
  pbase :: "'a pvec"
  ptype :: string
  pcoerce :: "'a pyobj \<Rightarrow> 'a pyobj res"

definition wrap_vector :: "'a prim_vec \<Rightarrow> 'a pvec res \<Rightarrow> 'a prim_vec res" where
  "wrap_vector p m = rbind m (\<lambda>v. Inr (p\<lparr>pbase := v\<rparr>))"

definition prim_append :: "'a prim_vec \<Rightarrow> 'a pyobj \<Rightarrow> 'a prim_vec res" where
  "prim_append p x = rbind (pcoerce p x) (\<lambda>y. wrap_vector p (vec_append (pbase p) y))"

definition prim_assoc_one :: "'a prim_vec \<Rightarrow> index_arg \<Rightarrow> 'a pyobj \<Rightarrow> 'a prim_vec res" where
  "prim_assoc_one p i x =
     rbind (pcoerce p x) (\<lambda>y. wrap_vector p
       (assoc_one_via (\<lambda>v z. rbind (pcoerce p z) (vec_append v)) (pbase p) i y))"

definition prim_pop :: "'a prim_vec \<Rightarrow> 'a prim_vec res" where
  "prim_pop p = wrap_vector p (vec_pop (pbase p))"

definition prim_cons :: "'a prim_vec \<Rightarrow> 'a pyobj list \<Rightarrow> 'a prim_vec res" where
  "prim_cons p elems = foldM prim_append p elems"

definition prim_with_meta :: "'a prim_vec \<Rightarrow> 'a pyobj \<Rightarrow> 'a prim_vec" where
  "prim_with_meta p m = p\<lparr>pbase := vec_with_meta (pbase p) m\<rparr>"

definition primitive_vector ::
    "'a pyobj list \<Rightarrow> string \<Rightarrow> ('a pyobj \<Rightarrow> 'a pyobj res) \<Rightarrow> 'a pyobj \<Rightarrow> 'a prim_vec res" where
  "primitive_vector members t c meta =
     rbind (foldM prim_append \<lparr>pbase = EMPTY_VEC, ptype = t, pcoerce = c\<rparr> members) (\<lambda>p.
       Inr (if meta = PyNone then p else prim_with_meta p meta))"

definition prim_empty :: "'a prim_vec \<Rightarrow> 'a prim_vec res" where
  "prim_empty p = primitive_vector [] (ptype p) (pcoerce p) PyNone"

definition prim_to_transient :: "'a prim_vec \<Rightarrow> 'a tvec res" where
  "prim_to_transient p = Inl TypeError"

definition prim_rep ::
    "string \<Rightarrow> ('a pyobj \<Rightarrow> 'a pyobj res) \<Rightarrow> 'a pyobj \<Rightarrow> 'a prim_vec \<Rightarrow> 'a pyobj list \<Rightarrow> bool" where
  "prim_rep t c m p xs \<longleftrightarrow> ptype p = t \<and> pcoerce p = c \<and> rep_same_meta m (pbase p) xs"

lemma wrap_refines:
  assumes "prim_rep t c m p xs" "rel_res (rep_same_meta m) w ys"
  shows "rel_res (prim_rep t c m) (wrap_vector p w) ys"
  using assms by (cases w; cases ys) (auto simp: wrap_vector_def prim_rep_def)

lemma rel_res_rbind_same:
  "(\<And>y. a = Inr y \<Longrightarrow> rel_res R (f y) (g y)) \<Longrightarrow> rel_res R (rbind a f) (rbind a g)"
  by (cases a) simp_all

interpretation prv: list_contract "prim_rep t c m" c prim_append prim_assoc_one prim_pop
    "\<lambda>p. vec_iter (pbase p)" for t c m
proof
  fix v :: "'a prim_vec" and xs x i
  assume rep: "prim_rep t c m v xs"
  then have c: "pcoerce v = c" and base: "rep_same_meta m (pbase v) xs"
    by (auto simp: prim_rep_def)
  show "rel_res (prim_rep t c m) (prim_append v x) (rbind (c x) (\<lambda>y. Inr (xs @ [y])))"
    unfolding prim_append_def c
    by (intro rel_res_rbind_same wrap_refines [OF rep] vec_append_refines base)
  have vrep: "vec_rep (pbase v) xs"
    using base by (simp add: rep_same_meta_def)
  show "rel_res (prim_rep t c m) (prim_assoc_one v i x) (list_assoc_conv c xs i x)"
    unfolding prim_assoc_one_def c list_assoc_conv_def
  proof (intro rel_res_rbind_same wrap_refines [OF rep])
    fix y
    show "rel_res (rep_same_meta m)
        (assoc_one_via (\<lambda>v z. rbind (c z) (vec_append v)) (pbase v) i y)
        (if i = IdxInt (int (length xs)) then rbind (c y) (\<lambda>z. Inr (xs @ [z]))
         else list_assoc xs i y)"
      using assoc_one_via_other [OF vrep] assoc_one_via_end [OF vrep]
      by (auto intro!: rel_res_rbind_same vec_append_refines [OF base] assoc_one_refines [OF base])
  qed
  show "rel_res (prim_rep t c m) (prim_pop v)
      (if xs = [] then Inl IndexError else Inr (butlast xs))"
    unfolding prim_pop_def by (intro wrap_refines [OF rep] vec_pop_refines base)
  show "vec_iter (pbase v) = Inr xs"
    using base by (simp add: rep_same_meta_def vec_iter_rep)
qed

section \<open>Properties\<close>

abbreviation vec_step :: "'a pvec \<Rightarrow> 'a pyobj vec_op \<Rightarrow> 'a pvec res" where
  "vec_step \<equiv> run_vec_op vec_append assoc_one vec_pop"

abbreviation transient_step :: "'a tvec \<Rightarrow> 'a pyobj vec_op \<Rightarrow> 'a tvec res" where
  "transient_step \<equiv>
     run_vec_op (\<lambda>t x. Inr (cons_transient t [x])) assoc_one_transient pop_transient"

abbreviation prim_step :: "'a prim_vec \<Rightarrow> 'a pyobj vec_op \<Rightarrow> 'a prim_vec res" where
  "prim_step \<equiv> run_vec_op prim_append prim_assoc_one prim_pop"

text \<open>
  C1: Whatever sequence of conj, assoc (at any index, negative or out of range) and pop is run
  from the empty vector, iterating over the 32-way tree gives exactly the list that the same
  operations produce on a list; when one of them raises, the same exception comes out at the
  same operation.
\<close>

theorem vec_program_refines_list:
  "rbind (foldM vec_step EMPTY_VEC cs) vec_iter = foldM (list_vec_op Inr) [] cs"
  by (rule pv.run_then_iter [OF EMPTY_VEC_rep])

text \<open>
  Reading any index of a vector that a program of operations produced gives the element of
  the list at that index: negative indices count from the end, an index outside the vector
  raises IndexError and a non-integer index raises TypeError. The tree walk never meets a
  missing branch.
\<close>

theorem vec_nth_after_program:
  "rbind (foldM vec_step EMPTY_VEC cs) (\<lambda>v. vec_nth v k)
    = rbind (foldM (list_vec_op Inr) [] cs)
        (\<lambda>xs. rbind (vec_index (length xs) k) (\<lambda>i. Inr (xs ! i)))"
  using pv.run_refines [OF EMPTY_VEC_rep, of cs]
  by (cases "foldM vec_step EMPTY_VEC cs"; cases "foldM (list_vec_op Inr) [] cs")
    (auto simp: rep_same_meta_def vec_nth_rep)

lemma rep_depth:
  assumes "vec_rep v xs"
  shows "5 dvd vshift v" "5 \<le> vshift v" "5 < vshift v \<Longrightarrow> 2 ^ vshift v < vcount v"
    "vcount v \<le> 2 ^ (vshift v + 5) + 32"
proof -
  obtain h where h: "vec_rep_at h v xs"
    using assms by (auto simp: vec_rep_def)
  have c: "2 ^ vshift v = cap h" "2 ^ (vshift v + 5) = cap (Suc h)"
    using h two_power_level [of h] two_power_level [of "Suc h"]
    by (simp_all add: vec_rep_at_def add.commute)
  show "5 dvd vshift v" "5 \<le> vshift v"
    using h by (simp_all add: vec_rep_at_def)
  show "vcount v \<le> 2 ^ (vshift v + 5) + 32"
    unfolding c(2) using h tail_offset_facts(3) [of "length xs"]
    by (simp add: vec_rep_at_def)
  assume "5 < vshift v"
  then show "2 ^ vshift v < vcount v"
    unfolding c(1) using h tail_offset_facts(2) [of "length xs"]
    by (auto simp: vec_rep_at_def)
qed

text \<open>
  The tree of a vector that a program of operations produced is never deeper than its size
  calls for: the shift is a multiple of 5, a root above the lowest branch level means that more
  than \<open>2 ^ shift\<close> elements are present, and the elements fit in the tree and the tail.
\<close>

theorem vec_depth_bound:
  assumes "foldM vec_step EMPTY_VEC cs = Inr v"
  shows "5 dvd vshift v \<and> 5 \<le> vshift v \<and> (5 < vshift v \<longrightarrow> 2 ^ vshift v < vcount v) \<and>
    vcount v \<le> 2 ^ (vshift v + 5) + 32"
proof -
  obtain xs where "rep_same_meta PyNone v xs"
    using pv.run_refines [OF EMPTY_VEC_rep, of cs] assms
    by (cases "foldM (list_vec_op Inr) [] cs") auto
  then have "vec_rep v xs"
    by (simp add: rep_same_meta_def)
  from rep_depth [OF this] show ?thesis
    by blast
qed

theorem vec_depth_bound_witness:
  "\<exists>v :: nat pvec. foldM vec_step EMPTY_VEC [Conj (PyObj 7), PopLast, Conj PyNone] = Inr v \<and>
     5 dvd vshift v"
proof -
  have run: "foldM vec_step EMPTY_VEC [Conj (PyObj (7 :: nat)), PopLast, Conj PyNone]
      = Inr (EMPTY_VEC\<lparr>vcount := 1, vtail := [PyNone]\<rparr>)"
    by (simp add: vec_append_def vec_pop_def vec_with_meta_def EMPTY_VEC_def)
  from run vec_depth_bound [OF run] show ?thesis
    by blast
qed

text \<open>
  C12: Editing through a transient is editing the list: make a vector from elements, turn it into
  a transient, run any operations on the transient and make it persistent again; iterating over
  the result gives the list that the operations produce, or the operation's exception.
\<close>

theorem transient_round_trip:
  "rbind (rbind (vector xs m) to_transient) (\<lambda>t.
     rbind (foldM transient_step t cs) (\<lambda>u. rbind (to_persistent u) vec_iter))
   = foldM (list_vec_op Inr) xs cs"
proof -
  obtain v where v: "vector xs m = Inr v" "rep_same_meta m v xs"
    using vector_rep by blast
  have out: "rbind (to_persistent u) vec_iter = Inr u" for u :: "'a tvec"
    using vector_rep [of u PyNone] by (auto simp: to_persistent_def rep_same_meta_def vec_iter_rep)
  have "foldM transient_step xs cs = foldM (list_vec_op Inr) xs cs"
    using tv.run_then_iter [of xs xs cs] by simp
  moreover have "vec_iter v = Inr xs"
    using v(2) by (simp add: rep_same_meta_def vec_iter_rep)
  ultimately show ?thesis
    by (simp add: to_transient_def v(1) out)
qed

text \<open>
  A primitive vector behaves as the list of coerced elements: any program of operations from
  the empty primitive vector gives the list program whose every new element goes through the
  coercion first, and stops at the coercion's exception.
\<close>

theorem prim_program_refines_list:
  "rbind (rbind (primitive_vector [] t c PyNone) (\<lambda>p. foldM prim_step p cs))
     (\<lambda>p. vec_iter (pbase p)) = foldM (list_vec_op c) [] cs"
proof -
  have "prim_rep t c PyNone \<lparr>pbase = EMPTY_VEC, ptype = t, pcoerce = c\<rparr> []"
    using EMPTY_VEC_rep by (simp add: prim_rep_def)
  from prv.run_then_iter [OF this, of cs] show ?thesis
    by (simp add: primitive_vector_def)
qed

subsection \<open>The public component constructor\<close>

lemma mapM_Inr_all: "mapM f xs = Inr ys \<Longrightarrow> x \<in> set xs \<Longrightarrow> \<exists>y. f x = Inr y"
  by (induction xs arbitrary: ys) (auto simp: rbind_eq_Inr_iff)

lemma descend_length: "descend level node i = Inr a \<Longrightarrow> length a = 32"
proof (induction level node i rule: descend.induct)
  case (1 level node i)
  then show ?case
    by (subst (asm) descend.simps)
      (auto simp: rbind_eq_Inr_iff branch_def split: if_splits pyobj.splits)
qed

lemma tail_position:
  assumes "tail_offset n \<le> i" "i < n"
  shows "i mod 32 < n - tail_offset n"
  using tail_offset_facts [of n] assms mod_tail [of "tail_offset n" i] by auto

text \<open>
  \<open>vec_from_components\<close> accepts only components whose every position can be read: whatever
  nodes and tail a caller passes, if the constructor returns a vector then no index within its
  count can raise.
\<close>

theorem vec_from_components_readable:
  assumes "vec_from_components count shift root tail meta = Inr v" and "i < vcount v"
  shows "\<exists>x. vec_nth v (IdxInt (int i)) = Inr x"
proof -
  define n where "n = nat count"
  have v: "v = \<lparr>vcount = n, vshift = nat shift, vroot = root, vtail = tail, vmeta = meta\<rparr>"
    and len: "length tail = n - tail_offset n"
    and reads: "\<exists>ys. mapM (array_for v) [0..<tail_offset n] = Inr ys"
    using assms(1) unfolding vec_from_components_def n_def
    by (auto simp: Let_def rbind_eq_Inr_iff split: if_splits)
  have "\<exists>a. array_for v i = Inr a \<and> i mod 32 < length a"
  proof (cases "tail_offset n \<le> i")
    case True
    with assms(2) len tail_position [of n i] show ?thesis
      by (simp add: array_for_def v)
  next
    case False
    then obtain a where "array_for v i = Inr a"
      using reads mapM_Inr_all [of "array_for v" "[0..<tail_offset n]" _ i] by auto
    moreover from this False have "length a = 32"
      by (auto simp: array_for_def v dest: descend_length split: if_splits)
    ultimately show ?thesis by auto
  qed
  with assms(2) index_mask [of i] show ?thesis
    by (auto simp: vec_nth_def vec_index_def Let_def)
qed

theorem vec_from_components_readable_witness:
  "\<exists>v :: nat pvec. vec_from_components 1 5 EMPTY_NODE [PyObj 3] PyNone = Inr v \<and>
     (\<exists>x. vec_nth v (IdxInt 0) = Inr x)"
proof -
  define v :: "nat pvec" where
    "v = \<lparr>vcount = 1, vshift = 5, vroot = EMPTY_NODE, vtail = [PyObj 3], vmeta = PyNone\<rparr>"
  have c: "vec_from_components 1 5 EMPTY_NODE [PyObj 3] PyNone = Inr v"
    by (simp add: vec_from_components_def tail_offset_def v_def)
  have "0 < vcount v"
    by (simp add: v_def)
  from c vec_from_components_readable [OF c this] show ?thesis
    by auto
qed

text \<open>
  Taking a vector apart and rebuilding it from its count, shift, root and tail with
  \<open>vec_from_components\<close> gives the same vector back, for every vector a program of operations
  produced.
\<close>

theorem vec_components_round_trip:
  assumes "foldM vec_step EMPTY_VEC cs = Inr v"
  shows "vec_from_components (int (vcount v)) (int (vshift v)) (vroot v) (vtail v) (vmeta v) = Inr v"
proof -
  obtain xs where "rep_same_meta PyNone v xs"
    using pv.run_refines [OF EMPTY_VEC_rep, of cs] assms
    by (cases "foldM (list_vec_op Inr) [] cs") auto
  then have rep: "vec_rep v xs"
    by (simp add: rep_same_meta_def)
  then have n: "vcount v = length xs" "length (vtail v) = vcount v - tail_offset (vcount v)"
    by (auto simp: vec_rep_def vec_rep_at_def)
  have "\<exists>a. array_for v i = Inr a" if "i < tail_offset (vcount v)" for i
    using array_for_rep [OF rep, of i] that tail_offset_facts(2) [of "vcount v"] n(1) by auto
  then have "mapM (array_for v) [0..<tail_offset (vcount v)]
      = Inr (map (\<lambda>i. projr (array_for v i)) [0..<tail_offset (vcount v)])"
    by (intro mapM_map) (metis atLeastLessThan_iff set_upt sum.sel(2))
  moreover have "int (vshift v) mod 5 = 0"
    using rep_depth(1) [OF rep] by presburger
  ultimately show ?thesis
    using n(2) rep_depth(2) [OF rep]
    by (cases v) (simp add: vec_from_components_def Let_def)
qed

theorem vec_components_round_trip_witness:
  "\<exists>v :: nat pvec. foldM vec_step EMPTY_VEC [Conj (PyObj 4)] = Inr v \<and>
     vec_from_components (int (vcount v)) (int (vshift v)) (vroot v) (vtail v) (vmeta v) = Inr v"
proof -
  have run: "foldM vec_step EMPTY_VEC [Conj (PyObj (4 :: nat))]
      = Inr (EMPTY_VEC\<lparr>vcount := 1, vtail := [PyObj 4]\<rparr>)"
    by (simp add: vec_append_def EMPTY_VEC_def)
  from run vec_components_round_trip [OF run] show ?thesis
    by blast
qed

end
