(* ===== verification/Reference.thy ===== *)
theory Reference
  imports Prelude
begin

text \<open>
  The parts that every mutable reference shares (\<open>src/src/basilisp/lang/reference.py\<close>):
  metadata, a validator and watches. Atoms, Refs and Agents extend the record.

  A validator and a watcher are functions the user supplies; either may raise. The watch map is
  an association list. The order in which the persistent map visits its entries belongs to the
  library that implements it, so \<open>notify_watches\<close> takes it as the parameter \<open>ord\<close>.
\<close>

type_synonym 'v validator = "'v \<Rightarrow> bool res"
type_synonym 'v watcher = "'v \<Rightarrow> 'v \<Rightarrow> unit res"

record ('v, 'm) reference =
  ref_meta :: 'm
  ref_validator :: "'v validator option"
  ref_watches :: "(nat \<times> 'v watcher) list"

definition alter_meta ::
    "('m \<Rightarrow> 'm res) \<Rightarrow> ('v, 'm, 'z) reference_scheme \<Rightarrow>
     (('v, 'm, 'z) reference_scheme \<times> 'm) res" where
  "alter_meta f r = rbind (f (ref_meta r)) (\<lambda>m. Inr (r\<lparr>ref_meta := m\<rparr>, m))"

definition reset_meta ::
    "'m \<Rightarrow> ('v, 'm, 'z) reference_scheme \<Rightarrow> ('v, 'm, 'z) reference_scheme \<times> 'm" where
  "reset_meta m r = (r\<lparr>ref_meta := m\<rparr>, m)"

definition add_watch ::
    "nat \<Rightarrow> 'v watcher \<Rightarrow> ('v, 'm, 'z) reference_scheme \<Rightarrow> ('v, 'm, 'z) reference_scheme" where
  "add_watch k fn r = r\<lparr>ref_watches := AList.update k fn (ref_watches r)\<rparr>"

definition remove_watch ::
    "nat \<Rightarrow> ('v, 'm, 'z) reference_scheme \<Rightarrow> ('v, 'm, 'z) reference_scheme" where
  "remove_watch k r = r\<lparr>ref_watches := AList.delete k (ref_watches r)\<rparr>"

text \<open>
  \<open>_notify_watches\<close> calls the watchers in turn and stops at the first that raises. The result
  lists the calls that were made, each with the watch key and the two values.
\<close>

type_synonym 'v watch_call = "nat \<times> 'v \<times> 'v"

fun notify_each ::
    "(nat \<times> 'v watcher) list \<Rightarrow> 'v \<Rightarrow> 'v \<Rightarrow> 'v watch_call list \<times> unit res" where
  "notify_each [] old new = ([], Inr ())"
| "notify_each ((k, fn) # ws) old new =
     (case fn old new of
        Inl e \<Rightarrow> ([(k, old, new)], Inl e)
      | Inr _ \<Rightarrow> (let (calls, r) = notify_each ws old new in ((k, old, new) # calls, r)))"

type_synonym 'v watch_order = "(nat \<times> 'v watcher) list \<Rightarrow> (nat \<times> 'v watcher) list"

definition notify_watches ::
    "'v watch_order \<Rightarrow> ('v, 'm, 'z) reference_scheme \<Rightarrow> 'v \<Rightarrow> 'v \<Rightarrow>
     'v watch_call list \<times> unit res" where
  "notify_watches ord r old new = notify_each (ord (ref_watches r)) old new"

text \<open>
  \<open>_validate\<close>: an exception of the validator counts as a refusal; a refusal raises
  ExceptionInfo.
\<close>

definition run_validator :: "'v validator option \<Rightarrow> 'v \<Rightarrow> unit res" where
  "run_validator vf val =
     (case vf of
        None \<Rightarrow> Inr ()
      | Some f \<Rightarrow> (case f val of Inr True \<Rightarrow> Inr () | _ \<Rightarrow> Inl ExceptionInfo))"

definition validate :: "('v, 'm, 'z) reference_scheme \<Rightarrow> 'v \<Rightarrow> unit res" where
  "validate r val = run_validator (ref_validator r) val"

text \<open>\<open>set_validator\<close>: a new validator must accept the current value \<open>cur\<close>.\<close>

definition set_validator ::
    "'v \<Rightarrow> 'v validator option \<Rightarrow> ('v, 'm, 'z) reference_scheme \<Rightarrow>
     ('v, 'm, 'z) reference_scheme res" where
  "set_validator cur vf r =
     rbind (case vf of None \<Rightarrow> Inr () | Some f \<Rightarrow> run_validator (Some f) cur) (\<lambda>_.
       Inr (r\<lparr>ref_validator := vf\<rparr>))"

definition accepts :: "'v validator option \<Rightarrow> 'v \<Rightarrow> bool" where
  "accepts vf val \<longleftrightarrow> (case vf of None \<Rightarrow> True | Some f \<Rightarrow> f val = Inr True)"

lemma run_validator_accepts:
  "run_validator vf val = (if accepts vf val then Inr () else Inl ExceptionInfo)"
  by (auto simp: run_validator_def accepts_def split: option.splits sum.splits bool.splits)

lemma validate_accepts:
  "validate r val = (if accepts (ref_validator r) val then Inr () else Inl ExceptionInfo)"
  by (simp add: validate_def run_validator_accepts)

lemma set_validator_accepts:
  "set_validator cur vf r = Inr s \<Longrightarrow> accepts (ref_validator s) cur"
  by (auto simp: set_validator_def run_validator_accepts accepts_def rbind_eq_Inr_iff
      split: option.splits if_splits)

text \<open>Every watcher is called, in order, when none raises.\<close>

lemma notify_each_all:
  "\<forall>w \<in> set ws. snd w old new = Inr () \<Longrightarrow>
    notify_each ws old new = (map (\<lambda>w. (fst w, old, new)) ws, Inr ())"
  by (induction ws) auto

text \<open>Whatever the watchers do, the calls made are a prefix of the watch map's keys.\<close>

lemma notify_each_prefix:
  "\<exists>n. map fst (fst (notify_each ws old new)) = take n (map fst ws)"
proof (induction ws)
  case (Cons w ws)
  then obtain n where "map fst (fst (notify_each ws old new)) = take n (map fst ws)"
    by blast
  then show ?case
    by (cases w; cases "snd w old new")
      (auto simp: Let_def split: prod.splits intro: exI [of _ "Suc n"] exI [of _ "Suc 0"])
qed simp

end
