(* ===== verification/Stm.thy ===== *)
theory Stm
  imports Reference
begin

text \<open>
  The optimistic software transactional memory of \<open>src/src/basilisp/lang/stm.py\<close>.

  A Ref is a cell of a store, named by its address. Other threads are an environment: a
  sequence of stores, one for each point in time at which the running thread touches a Ref. A
  transaction body is a tree of the operations it calls, each with the rest of the body as a
  function of what the operation returned or raised, so that a body may depend on everything it
  reads and may handle exceptions. Functions given to \<open>alter\<close> and \<open>commute\<close> may raise.
\<close>

section \<open>Refs\<close>

text \<open>
  The argument of a history control: what \<open>int(value)\<close> gives for a finite number, an infinity
  or a NaN, or an object that is not a number (a bool is refused as one).
\<close>

datatype number_arg = Finite int | NotFinite | NotNumeric

definition history_limit :: "number_arg \<Rightarrow> int res" where
  "history_limit a =
     (case a of
        NotNumeric \<Rightarrow> Inl TypeError
      | NotFinite \<Rightarrow> Inl ValueError
      | Finite n \<Rightarrow> guard_res OverflowError (- (2 ^ 31) \<le> n \<and> n < 2 ^ 31) (Inr n))"

record ('v, 'm) cell = "('v, 'm) reference" +
  cstate :: 'v
  cversion :: nat
  chistory :: "'v list"
  cmin_history :: int
  cmax_history :: int

type_synonym ('v, 'm) store = "nat \<Rightarrow> ('v, 'm) cell"

definition new_ref :: "'v \<Rightarrow> 'm \<Rightarrow> 'v validator option \<Rightarrow> ('v, 'm) cell res" where
  "new_ref state m vf =
     rbind (case vf of None \<Rightarrow> Inr () | Some f \<Rightarrow> run_validator (Some f) state) (\<lambda>_.
       Inr \<lparr>ref_meta = m, ref_validator = vf, ref_watches = [],
            cstate = state, cversion = 0, chistory = [], cmin_history = 0, cmax_history = 10\<rparr>)"

definition read_committed :: "('v, 'm) cell \<Rightarrow> 'v \<times> nat" where
  "read_committed c = (cstate c, cversion c)"

definition history_count :: "('v, 'm) cell \<Rightarrow> nat" where
  "history_count c = length (chistory c)"

definition set_min_history :: "number_arg \<Rightarrow> ('v, 'm) cell \<Rightarrow> ('v, 'm) cell res" where
  "set_min_history a c = rbind (history_limit a) (\<lambda>n. Inr (c\<lparr>cmin_history := n\<rparr>))"

definition set_max_history :: "number_arg \<Rightarrow> ('v, 'm) cell \<Rightarrow> ('v, 'm) cell res" where
  "set_max_history a c = rbind (history_limit a) (\<lambda>n. Inr (c\<lparr>cmax_history := n\<rparr>))"

definition record_history :: "'v \<Rightarrow> ('v, 'm) cell \<Rightarrow> ('v, 'm) cell" where
  "record_history v c =
     (if int (length (chistory c)) < max 0 (cmin_history c)
      then c\<lparr>chistory := chistory c @ [v]\<rparr> else c)"

text \<open>The public accessors check that their argument is a Ref (\<open>None\<close>: some other object).\<close>

definition require_ref :: "('v, 'm) cell option \<Rightarrow> ('v, 'm) cell res" where
  "require_ref x = (case x of None \<Rightarrow> Inl TypeError | Some c \<Rightarrow> Inr c)"

definition ref_history_count :: "('v, 'm) cell option \<Rightarrow> nat res" where
  "ref_history_count x = rbind (require_ref x) (\<lambda>c. Inr (history_count c))"

text \<open>With no value the accessor returns the control, with one it returns the updated Ref.\<close>

definition ref_min_history ::
    "('v, 'm) cell option \<Rightarrow> number_arg option \<Rightarrow> (int + ('v, 'm) cell) res" where
  "ref_min_history x value =
     rbind (require_ref x) (\<lambda>c.
       case value of
         None \<Rightarrow> Inr (Inl (cmin_history c))
       | Some a \<Rightarrow> rbind (set_min_history a c) (\<lambda>c'. Inr (Inr c')))"

definition ref_max_history ::
    "('v, 'm) cell option \<Rightarrow> number_arg option \<Rightarrow> (int + ('v, 'm) cell) res" where
  "ref_max_history x value =
     rbind (require_ref x) (\<lambda>c.
       case value of
         None \<Rightarrow> Inr (Inl (cmax_history c))
       | Some a \<Rightarrow> rbind (set_max_history a c) (\<lambda>c'. Inr (Inr c')))"

section \<open>The transaction log\<close>

type_synonym 'v update = "'v \<Rightarrow> 'v res"

text \<open>
  The dicts keep insertion order. The callables registered for after the commit are named by
  numbers. \<open>conflicts\<close> lists a Ref, the version read and the version found.
\<close>

record 'v txn =
  reads :: "(nat \<times> 'v \<times> nat) list"
  writes :: "(nat \<times> 'v) list"
  commutes :: "(nat \<times> 'v update list) list"
  commuted_values :: "(nat \<times> 'v) list"
  ensures :: "nat set"
  after_actions :: "nat list"
  conflicts :: "(nat \<times> nat \<times> nat) list"

definition new_txn :: "'v txn" where
  "new_txn = \<lparr>reads = [], writes = [], commutes = [], commuted_values = [], ensures = {},
              after_actions = [], conflicts = []\<rparr>"

definition txn_read :: "('v, 'm) store \<Rightarrow> nat \<Rightarrow> 'v txn \<Rightarrow> 'v txn \<times> 'v" where
  "txn_read S r t =
     (case map_of (writes t) r of
        Some v \<Rightarrow> (t, v)
      | None \<Rightarrow>
         (case map_of (commuted_values t) r of
            Some v \<Rightarrow> (t, v)
          | None \<Rightarrow>
             (case map_of (reads t) r of
                Some p \<Rightarrow> (t, fst p)
              | None \<Rightarrow>
                  (t\<lparr>reads := reads t @ [(r, read_committed (S r))]\<rparr>,
                   fst (read_committed (S r))))))"

definition in_commutes :: "'v txn \<Rightarrow> nat \<Rightarrow> bool" where
  "in_commutes t r \<longleftrightarrow> r \<in> set (map fst (commutes t))"

definition txn_alter ::
    "('v, 'm) store \<Rightarrow> nat \<Rightarrow> 'v update \<Rightarrow> 'v txn \<Rightarrow> 'v txn \<times> 'v res" where
  "txn_alter S r f t =
     (if in_commutes t r then (t, Inl RuntimeError)
      else let (t1, old) = txn_read S r t
           in (case f old of
                 Inl e \<Rightarrow> (t1, Inl e)
               | Inr v \<Rightarrow> (t1\<lparr>writes := AList.update r v (writes t1)\<rparr>, Inr v)))"

definition txn_ref_set ::
    "('v, 'm) store \<Rightarrow> nat \<Rightarrow> 'v \<Rightarrow> 'v txn \<Rightarrow> 'v txn \<times> 'v res" where
  "txn_ref_set S r v t =
     (if in_commutes t r then (t, Inl RuntimeError)
      else let (t1, _) = txn_read S r t
           in (t1\<lparr>writes := AList.update r v (writes t1)\<rparr>, Inr v))"

text \<open>\<open>setdefault(ref, []).append(entry)\<close> on the dict of staged commutes.\<close>

definition stage_commute :: "nat \<Rightarrow> 'v update \<Rightarrow> 'v txn \<Rightarrow> 'v txn" where
  "stage_commute r f t =
     t\<lparr>commutes :=
         AList.update r
           ((case map_of (commutes t) r of None \<Rightarrow> [] | Some fs \<Rightarrow> fs) @ [f]) (commutes t)\<rparr>"

definition txn_commute ::
    "('v, 'm) store \<Rightarrow> nat \<Rightarrow> 'v update \<Rightarrow> 'v txn \<Rightarrow> 'v txn \<times> 'v res" where
  "txn_commute S r f t =
     (let (t1, old) =
        (case map_of (writes t) r of
           Some v \<Rightarrow> (t, v)
         | None \<Rightarrow>
            (case map_of (commuted_values t) r of
               Some v \<Rightarrow> (t, v)
             | None \<Rightarrow>
                (case map_of (reads t) r of
                   Some p \<Rightarrow> (t, fst p)
                 | None \<Rightarrow>
                     (let (v, n) = read_committed (S r)
                      in (t\<lparr>reads := reads t @ [(r, v, n)]\<rparr>, v)))))
      in (case f old of
            Inl e \<Rightarrow> (t1, Inl e)
          | Inr v \<Rightarrow>
             (let t2 = stage_commute r f t1
              in if r \<in> set (map fst (writes t2))
                 then (t2\<lparr>writes := AList.update r v (writes t2)\<rparr>, Inr v)
                 else (t2\<lparr>commuted_values := AList.update r v (commuted_values t2)\<rparr>, Inr v))))"

definition txn_ensure :: "('v, 'm) store \<Rightarrow> nat \<Rightarrow> 'v txn \<Rightarrow> 'v txn \<times> 'v" where
  "txn_ensure S r t = (let (t1, v) = txn_read S r t in (t1\<lparr>ensures := insert r (ensures t1)\<rparr>, v))"

definition txn_after_commit :: "nat \<Rightarrow> 'v txn \<Rightarrow> 'v txn" where
  "txn_after_commit a t = t\<lparr>after_actions := after_actions t @ [a]\<rparr>"

section \<open>Commit\<close>

text \<open>
  \<open>set(commutes) - set(writes)\<close>: the Refs that only commutes updated. Python does not fix
  the order in which it visits a set, so \<open>ord\<close> stands for the arrangement it chooses.
\<close>

definition pure_commutes :: "(nat list \<Rightarrow> nat list) \<Rightarrow> 'v txn \<Rightarrow> nat list" where
  "pure_commutes ord t =
     ord (filter (\<lambda>r. r \<notin> set (map fst (writes t))) (map fst (commutes t)))"

text \<open>The Refs whose locks the commit takes, in the order of their addresses.\<close>

definition lock_order :: "'v txn \<Rightarrow> nat list" where
  "lock_order t =
     sort (remdups (map fst (reads t) @ map fst (writes t) @ map fst (commutes t)))"

definition find_conflicts ::
    "nat list \<Rightarrow> ('v, 'm) store \<Rightarrow> 'v txn \<Rightarrow> (nat \<times> nat \<times> nat) list" where
  "find_conflicts pure S t =
     map (\<lambda>(r, _, ver). (r, ver, cversion (S r)))
       (filter (\<lambda>(r, _, ver). (r \<notin> set pure \<or> r \<in> ensures t) \<and> cversion (S r) \<noteq> ver) (reads t))"

text \<open>The commuted functions of a Ref, replayed on the committed value.\<close>

definition replay :: "'v txn \<Rightarrow> nat \<Rightarrow> 'v \<Rightarrow> 'v res" where
  "replay t r v =
     foldM (\<lambda>x f. f x) v (case map_of (commutes t) r of None \<Rightarrow> [] | Some fs \<Rightarrow> fs)"

type_synonym 'v change = "nat \<times> 'v \<times> 'v"

definition write_changes :: "('v, 'm) store \<Rightarrow> 'v txn \<Rightarrow> 'v change list" where
  "write_changes S t = map (\<lambda>(r, v). (r, cstate (S r), v)) (writes t)"

definition commit_changes ::
    "nat list \<Rightarrow> ('v, 'm) store \<Rightarrow> 'v txn \<Rightarrow> 'v change list res" where
  "commit_changes pure S t =
     foldM (\<lambda>cs r. rbind (replay t r (cstate (S r))) (\<lambda>v. Inr (cs @ [(r, cstate (S r), v)])))
       (write_changes S t) pure"

definition validate_changes :: "('v, 'm) store \<Rightarrow> 'v change list \<Rightarrow> unit res" where
  "validate_changes S cs = foldM (\<lambda>_ (r, _, v). validate (S r) v) () cs"

definition install :: "('v, 'm) store \<Rightarrow> 'v change \<Rightarrow> ('v, 'm) store" where
  "install S c =
     (let (r, _, v) = c; cell = record_history (cstate (S r)) (S r)
      in S(r := cell\<lparr>cstate := v, cversion := cversion cell + 1\<rparr>))"

text \<open>
  \<open>commit\<close>: the store and the log afterwards, and the changes (None when a version read has
  changed) or the exception of a replayed function or a validator.
\<close>

definition commit ::
    "(nat list \<Rightarrow> nat list) \<Rightarrow> ('v, 'm) store \<Rightarrow> 'v txn \<Rightarrow>
     ('v, 'm) store \<times> 'v txn \<times> 'v change list option res" where
  "commit ord S t =
     (let pure = pure_commutes ord t;
          cf = find_conflicts pure S t
      in if cf \<noteq> [] then (S, t\<lparr>conflicts := cf\<rparr>, Inr None)
         else (case rbind (commit_changes pure S t) (\<lambda>cs.
                       rbind (validate_changes S cs) (\<lambda>_. Inr cs)) of
                 Inl e \<Rightarrow> (S, t, Inl e)
               | Inr cs \<Rightarrow> (foldl install S cs, t, Inr (Some cs))))"

section \<open>Transaction bodies\<close>

text \<open>
  \<open>RetAwaitable\<close> is a body that returns an awaitable, \<open>Nested\<close> a call of
  \<open>run_transaction\<close> inside the body.
\<close>

datatype ('v, 'r) body =
    Ret 'r
  | RetAwaitable
  | Raise py_error
  | Deref nat "'v \<Rightarrow> ('v, 'r) body"
  | Alter nat "'v update" "'v res \<Rightarrow> ('v, 'r) body"
  | RefSet nat 'v "'v res \<Rightarrow> ('v, 'r) body"
  | Commute nat "'v update" "'v res \<Rightarrow> ('v, 'r) body"
  | Ensure nat "'v res \<Rightarrow> ('v, 'r) body"
  | AfterCommit nat "('v, 'r) body"
  | IoBang "unit res \<Rightarrow> ('v, 'r) body"
  | Nested "index_arg option" "('v, 'r) body" "'r res \<Rightarrow> ('v, 'r) body"

definition require_transaction :: "'v txn option \<Rightarrow> 'v txn res" where
  "require_transaction cur = (case cur of None \<Rightarrow> Inl RuntimeError | Some t \<Rightarrow> Inr t)"

definition in_transaction :: "'v txn option \<Rightarrow> bool" where
  "in_transaction cur \<longleftrightarrow> cur \<noteq> None"

definition io_bang :: "'v txn option \<Rightarrow> unit res" where
  "io_bang cur = guard_res RuntimeError (\<not> in_transaction cur) (Inr ())"

text \<open>The module-level operations need a current transaction; \<open>deref\<close> does without one.\<close>

definition stm_op ::
    "('v txn \<Rightarrow> 'v txn \<times> 'a res) \<Rightarrow> 'v txn option \<Rightarrow> 'v txn option \<times> 'a res" where
  "stm_op f cur =
     (case require_transaction cur of
        Inl e \<Rightarrow> (cur, Inl e)
      | Inr t \<Rightarrow> (let (t', x) = f t in (Some t', x)))"

definition ref_deref :: "('v, 'm) store \<Rightarrow> nat \<Rightarrow> 'v txn option \<Rightarrow> 'v txn option \<times> 'v" where
  "ref_deref S r cur =
     (case cur of
        Some t \<Rightarrow> (let (t', v) = txn_read S r t in (Some t', v))
      | None \<Rightarrow> (None, cstate (S r)))"

definition stm_alter where
  "stm_alter S r f cur = stm_op (txn_alter S r f) cur"

definition stm_ref_set where
  "stm_ref_set S r v cur = stm_op (txn_ref_set S r v) cur"

definition stm_commute where
  "stm_commute S r f cur = stm_op (txn_commute S r f) cur"

definition stm_ensure where
  "stm_ensure S r cur = stm_op (\<lambda>t. let (t', v) = txn_ensure S r t in (t', Inr v)) cur"

text \<open>\<open>after_commit\<close> refuses an object that is not callable (\<open>None\<close>) before anything else.\<close>

definition stm_after_commit :: "nat option \<Rightarrow> 'v txn option \<Rightarrow> 'v txn option \<times> unit res" where
  "stm_after_commit action cur =
     (case action of
        None \<Rightarrow> (cur, Inl TypeError)
      | Some a \<Rightarrow> stm_op (\<lambda>t. (txn_after_commit a t, Inr ())) cur)"

definition validate_max_attempts :: "index_arg option \<Rightarrow> unit res" where
  "validate_max_attempts ma =
     (case ma of
        None \<Rightarrow> Inr ()
      | Some IdxOther \<Rightarrow> Inl TypeError
      | Some (IdxInt n) \<Rightarrow> (if n < 1 then Inl ValueError else Inr ()))"

text \<open>
  The thread's view of time: operation number \<open>n\<close> of the run meets the store \<open>E n\<close>.
\<close>

primrec exec_body ::
    "('v, 'r) body \<Rightarrow> (nat \<Rightarrow> ('v, 'm) store) \<Rightarrow> nat \<Rightarrow> 'v txn \<Rightarrow> nat \<times> 'v txn \<times> 'r res" where
  "exec_body (Ret x) E n t = (n, t, Inr x)"
| "exec_body RetAwaitable E n t = (n, t, Inl TypeError)"
| "exec_body (Raise e) E n t = (n, t, Inl e)"
| "exec_body (Deref r k) E n t =
     (case ref_deref (E n) r (Some t) of (c, v) \<Rightarrow> exec_body (k v) E (Suc n) (the c))"
| "exec_body (Alter r f k) E n t =
     (case stm_alter (E n) r f (Some t) of (c, x) \<Rightarrow> exec_body (k x) E (Suc n) (the c))"
| "exec_body (RefSet r v k) E n t =
     (case stm_ref_set (E n) r v (Some t) of (c, x) \<Rightarrow> exec_body (k x) E (Suc n) (the c))"
| "exec_body (Commute r f k) E n t =
     (case stm_commute (E n) r f (Some t) of (c, x) \<Rightarrow> exec_body (k x) E (Suc n) (the c))"
| "exec_body (Ensure r k) E n t =
     (case stm_ensure (E n) r (Some t) of (c, x) \<Rightarrow> exec_body (k x) E (Suc n) (the c))"
| "exec_body (AfterCommit a b) E n t =
     (case stm_after_commit (Some a) (Some t) of (c, _) \<Rightarrow> exec_body b E (Suc n) (the c))"
| "exec_body (IoBang k) E n t = exec_body (k (io_bang (Some t))) E (Suc n) t"
| "exec_body (Nested ma b k) E n t =
     (case validate_max_attempts ma of
        Inl e \<Rightarrow> exec_body (k (Inl e)) E (Suc n) t
      | Inr _ \<Rightarrow>
          (if ma \<noteq> None then exec_body (k (Inl RuntimeError)) E (Suc n) t
           else (case exec_body b E n t of (n', t', x) \<Rightarrow> exec_body (k x) E (Suc n') t')))"

section \<open>Running a transaction\<close>

text \<open>
  One attempt: the body on a fresh log, then the commit at the next point in time. A body that
  raises, or a commit that raises, ends the run.
\<close>

datatype ('v, 'm, 'r) attempt_result =
    Raised py_error
  | Conflicted "(nat \<times> nat \<times> nat) list"
  | Committed "('v, 'm) store" "'v change list" "nat list" 'r

definition attempt ::
    "(nat list \<Rightarrow> nat list) \<Rightarrow> (nat \<Rightarrow> ('v, 'm) store) \<Rightarrow> ('v, 'r) body \<Rightarrow> nat \<Rightarrow>
     nat \<times> ('v, 'm, 'r) attempt_result" where
  "attempt ord E b n =
     (let (n', t, x) = exec_body b E n new_txn
      in (n', case x of
                Inl e \<Rightarrow> Raised e
              | Inr v \<Rightarrow>
                  (case commit ord (E n') t of
                     (_, _, Inl e) \<Rightarrow> Raised e
                   | (_, t', Inr None) \<Rightarrow> Conflicted (conflicts t')
                   | (S', t', Inr (Some cs)) \<Rightarrow> Committed S' cs (after_actions t') v)))"

datatype 'v tx_event = WatchEvent nat "'v watch_call" | ActionEvent nat

text \<open>The watches of the changed Refs, in turn, until one raises.\<close>

fun notify_changes ::
    "'v watch_order \<Rightarrow> ('v, 'm) store \<Rightarrow> 'v change list \<Rightarrow> 'v tx_event list \<times> unit res" where
  "notify_changes word S [] = ([], Inr ())"
| "notify_changes word S ((r, old, new) # cs) =
     (case notify_watches word (S r) old new of
        (calls, Inl e) \<Rightarrow> (map (WatchEvent r) calls, Inl e)
      | (calls, Inr _) \<Rightarrow>
          (let (ev, x) = notify_changes word S cs in (map (WatchEvent r) calls @ ev, x)))"

text \<open>The registered actions, in turn, until one raises; \<open>act\<close> says what each one does.\<close>

fun run_actions :: "(nat \<Rightarrow> unit res) \<Rightarrow> nat list \<Rightarrow> 'v tx_event list \<times> unit res" where
  "run_actions act [] = ([], Inr ())"
| "run_actions act (a # as) =
     (case act a of
        Inl e \<Rightarrow> ([ActionEvent a], Inl e)
      | Inr _ \<Rightarrow> (let (ev, x) = run_actions act as in (ActionEvent a # ev, x)))"

text \<open>
  \<open>try: notify; finally: actions\<close>. An action that raises replaces the exception of a watch.
\<close>

definition after_publish ::
    "'v watch_order \<Rightarrow> (nat \<Rightarrow> unit res) \<Rightarrow> ('v, 'm) store \<Rightarrow> 'v change list \<Rightarrow> nat list \<Rightarrow> 'r \<Rightarrow>
     'v tx_event list \<times> 'r res" where
  "after_publish word act S cs as x =
     (let (ev1, w) = notify_changes word S cs;
          (ev2, a) = run_actions act as
      in (ev1 @ ev2, rbind a (\<lambda>_. rbind w (\<lambda>_. Inr x))))"

text \<open>
  What a run did: the attempts made, the point in time of its end, the store it published (if
  it committed), the watches and actions it called, the conflicts it reports and its result.
\<close>

record ('v, 'm, 'r) outcome =
  o_attempts :: nat
  o_time :: nat
  o_store :: "('v, 'm) store option"
  o_events :: "'v tx_event list"
  o_conflicts :: "(nat \<times> nat \<times> nat) list"
  o_result :: "'r res"

text \<open>
  The loop of \<open>run_transaction\<close>. A run that never stops conflicting has no outcome; the fuel
  bounds the number of attempts followed.
\<close>

fun attempts_loop ::
    "(nat list \<Rightarrow> nat list) \<Rightarrow> 'v watch_order \<Rightarrow> (nat \<Rightarrow> unit res) \<Rightarrow> index_arg option \<Rightarrow>
     (nat \<Rightarrow> ('v, 'm) store) \<Rightarrow> ('v, 'r) body \<Rightarrow> nat \<Rightarrow> nat \<Rightarrow> nat \<Rightarrow>
     ('v, 'm, 'r) outcome option" where
  "attempts_loop ord word act ma E b 0 tries n = None"
| "attempts_loop ord word act ma E b (Suc fuel) tries n =
     (case attempt ord E b n of
        (n', Raised e) \<Rightarrow>
          Some \<lparr>o_attempts = Suc tries, o_time = n', o_store = None, o_events = [],
                o_conflicts = [], o_result = Inl e\<rparr>
      | (n', Committed S cs as v) \<Rightarrow>
          (let (ev, x) = after_publish word act S cs as v
           in Some \<lparr>o_attempts = Suc tries, o_time = n', o_store = Some S, o_events = ev,
                    o_conflicts = [], o_result = x\<rparr>)
      | (n', Conflicted cf) \<Rightarrow>
          (case ma of
             Some (IdxInt m) \<Rightarrow>
               (if m \<le> int (Suc tries)
                then Some \<lparr>o_attempts = Suc tries, o_time = n', o_store = None, o_events = [],
                           o_conflicts = cf, o_result = Inl ExceptionInfo\<rparr>
                else attempts_loop ord word act ma E b fuel (Suc tries) (Suc n'))
           | _ \<Rightarrow> attempts_loop ord word act ma E b fuel (Suc tries) (Suc n')))"

text \<open>A call of \<open>run_transaction\<close> outside any transaction.\<close>

definition run_transaction ::
    "(nat list \<Rightarrow> nat list) \<Rightarrow> 'v watch_order \<Rightarrow> (nat \<Rightarrow> unit res) \<Rightarrow> index_arg option \<Rightarrow>
     (nat \<Rightarrow> ('v, 'm) store) \<Rightarrow> ('v, 'r) body \<Rightarrow> nat \<Rightarrow> nat \<Rightarrow> ('v, 'm, 'r) outcome option" where
  "run_transaction ord word act ma E b fuel n =
     (case validate_max_attempts ma of
        Inl e \<Rightarrow> Some \<lparr>o_attempts = 0, o_time = n, o_store = None, o_events = [],
                       o_conflicts = [], o_result = Inl e\<rparr>
      | Inr _ \<Rightarrow> attempts_loop ord word act ma E b fuel 0 n)"

end
