(* ===== verification/StmProps.thy ===== *)
theory StmProps
  imports Stm
begin

text \<open>
  Correctness of the transactional memory: what a commit does to the store, the environment of
  a transaction generated by the operations of the other threads, serializability of committed
  runs, bounded retries and the retained history.
\<close>

section \<open>Logs\<close>

definition valid_reads :: "('v, 'm) store \<Rightarrow> 'v txn \<Rightarrow> bool" where
  "valid_reads S t \<longleftrightarrow> (\<forall>q \<in> set (reads t). snd q = read_committed (S (fst q)))"

definition past_reads :: "(nat \<Rightarrow> ('v, 'm) store) \<Rightarrow> nat \<Rightarrow> 'v txn \<Rightarrow> bool" where
  "past_reads E n t \<longleftrightarrow> (\<forall>q \<in> set (reads t). \<exists>i\<le>n. snd q = read_committed (E i (fst q)))"

text \<open>
  A well-formed log: one entry per Ref, and the value shown for a Ref that was only commuted is
  what its functions make of the value read.
\<close>

definition shown_ok ::
    "('v \<times> nat) option \<Rightarrow> 'v option \<Rightarrow> 'v update list option \<Rightarrow> 'v option \<Rightarrow> bool" where
  "shown_ok read write fs shown \<longleftrightarrow>
     (case (write, fs) of
        (Some _, _) \<Rightarrow> True
      | (None, None) \<Rightarrow> shown = None
      | (None, Some gs) \<Rightarrow>
          (case (read, shown) of
             (Some p, Some v) \<Rightarrow> foldM (\<lambda>x f. f x) (fst p) gs = Inr v
           | _ \<Rightarrow> False))"

definition wf_txn :: "'v txn \<Rightarrow> bool" where
  "wf_txn t \<longleftrightarrow>
     distinct (map fst (reads t)) \<and> distinct (map fst (writes t)) \<and>
     distinct (map fst (commutes t)) \<and>
     (\<forall>r. shown_ok (map_of (reads t) r) (map_of (writes t) r) (map_of (commutes t) r)
            (map_of (commuted_values t) r))"

lemma wf_new_txn [simp]: "wf_txn new_txn"
  by (simp add: wf_txn_def new_txn_def shown_ok_def)

lemma valid_new_txn [simp]: "valid_reads S new_txn"
  by (simp add: valid_reads_def new_txn_def)

lemma past_new_txn [simp]: "past_reads E n new_txn"
  by (simp add: past_reads_def new_txn_def)

lemmas log_op_defs = txn_read_def txn_alter_def txn_ref_set_def txn_commute_def txn_ensure_def
  txn_after_commit_def stage_commute_def

text \<open>
  How an operation may depend on the store: through the entry it adds to \<open>reads\<close>, if any.
\<close>

definition reads_only ::
    "(('v, 'm) store \<Rightarrow> 'v txn \<Rightarrow> 'v txn \<times> 'a) \<Rightarrow> bool" where
  "reads_only f \<longleftrightarrow>
     (\<forall>S t. \<exists>l. reads (fst (f S t)) = reads t @ l \<and>
        (\<forall>q \<in> set l. snd q = read_committed (S (fst q))) \<and>
        (\<forall>S'. valid_reads S' (fst (f S t)) \<longrightarrow> f S' t = f S t))"

lemma reads_only_read: "reads_only (\<lambda>S. txn_read S r)"
  unfolding reads_only_def
  by (auto simp: txn_read_def valid_reads_def split: option.splits)

lemma valid_reads_cong: "reads t = reads t' \<Longrightarrow> valid_reads S t = valid_reads S t'"
  by (simp add: valid_reads_def)

lemma reads_only_map:
  assumes "reads_only f" and h: "\<And>p. reads (fst (h p)) = reads (fst p)"
  shows "reads_only (\<lambda>S t. h (f S t))"
  unfolding reads_only_def
proof (intro allI)
  fix S t
  obtain l where "reads (fst (f S t)) = reads t @ l"
    "\<forall>q \<in> set l. snd q = read_committed (S (fst q))"
    "\<forall>S'. valid_reads S' (fst (f S t)) \<longrightarrow> f S' t = f S t"
    using assms(1) unfolding reads_only_def by blast
  then show "\<exists>l. reads (fst (h (f S t))) = reads t @ l \<and>
      (\<forall>q \<in> set l. snd q = read_committed (S (fst q))) \<and>
      (\<forall>S'. valid_reads S' (fst (h (f S t))) \<longrightarrow> h (f S' t) = h (f S t))"
    by (intro exI [of _ l]) (simp add: h valid_reads_cong [OF h])
qed

lemma reads_only_guard:
  assumes "reads_only f"
  shows "reads_only (\<lambda>S t. if P t then (t, x) else f S t)"
  using assms unfolding reads_only_def by simp

lemma reads_only_alter: "reads_only (\<lambda>S. txn_alter S r f)"
  unfolding txn_alter_def
  by (intro reads_only_guard reads_only_map [OF reads_only_read])
    (simp split: prod.splits sum.splits)

lemma reads_only_ref_set: "reads_only (\<lambda>S. txn_ref_set S r v)"
  unfolding txn_ref_set_def
  by (intro reads_only_guard reads_only_map [OF reads_only_read]) (simp split: prod.splits)

lemma reads_only_ensure: "reads_only (\<lambda>S. txn_ensure S r)"
  unfolding txn_ensure_def
  by (intro reads_only_map [OF reads_only_read]) (simp split: prod.splits)

text \<open>The value that \<open>commute\<close> starts from is the one \<open>read\<close> gives.\<close>

lemma txn_commute_read:
  "txn_commute S r f t =
     (let (t1, old) = txn_read S r t
      in (case f old of
            Inl e \<Rightarrow> (t1, Inl e)
          | Inr v \<Rightarrow>
             (let t2 = stage_commute r f t1
              in if r \<in> set (map fst (writes t2))
                 then (t2\<lparr>writes := AList.update r v (writes t2)\<rparr>, Inr v)
                 else (t2\<lparr>commuted_values := AList.update r v (commuted_values t2)\<rparr>, Inr v))))"
  by (simp add: txn_commute_def txn_read_def read_committed_def split: option.split)

lemma reads_only_commute: "reads_only (\<lambda>S. txn_commute S r f)"
  unfolding txn_commute_read
  by (intro reads_only_map [OF reads_only_read])
    (simp add: stage_commute_def Let_def split: prod.splits sum.splits)

lemma reads_only_after_commit: "reads_only (\<lambda>S t. (txn_after_commit a t, x))"
  by (auto simp: reads_only_def txn_after_commit_def)


section \<open>Bodies\<close>

lemma stm_op_Some: "stm_op f (Some t) = (Some (fst (f t)), snd (f t))"
  by (simp add: stm_op_def require_transaction_def split_def Let_def)

lemma exec_step:
  "exec_body (Deref r kd) E n t =
     exec_body (kd (snd (txn_read (E n) r t))) E (Suc n) (fst (txn_read (E n) r t))"
  "exec_body (Alter r f k) E n t =
     exec_body (k (snd (txn_alter (E n) r f t))) E (Suc n) (fst (txn_alter (E n) r f t))"
  "exec_body (RefSet r v k) E n t =
     exec_body (k (snd (txn_ref_set (E n) r v t))) E (Suc n) (fst (txn_ref_set (E n) r v t))"
  "exec_body (Commute r f k) E n t =
     exec_body (k (snd (txn_commute (E n) r f t))) E (Suc n) (fst (txn_commute (E n) r f t))"
  "exec_body (Ensure r k) E n t =
     exec_body (k (Inr (snd (txn_ensure (E n) r t)))) E (Suc n) (fst (txn_ensure (E n) r t))"
  "exec_body (AfterCommit a b) E n t = exec_body b E (Suc n) (txn_after_commit a t)"
  by (simp_all add: ref_deref_def stm_alter_def stm_ref_set_def stm_commute_def stm_ensure_def
      stm_after_commit_def stm_op_Some split_def Let_def)

text \<open>
  A relation between logs that is reflexive, transitive and holds across every operation holds
  across every body.
\<close>

lemma exec_body_rel:
  assumes refl: "\<And>n t. Q n t n t"
    and trans: "\<And>n t n1 t1 n2 t2. Q n t n1 t1 \<Longrightarrow> Q n1 t1 n2 t2 \<Longrightarrow> Q n t n2 t2"
    and tick: "\<And>n t. Q n t (Suc n) t"
    and ops: "\<And>n t r. Q n t (Suc n) (fst (txn_read (E n) r t))"
      "\<And>n t r f. Q n t (Suc n) (fst (txn_alter (E n) r f t))"
      "\<And>n t r v. Q n t (Suc n) (fst (txn_ref_set (E n) r v t))"
      "\<And>n t r f. Q n t (Suc n) (fst (txn_commute (E n) r f t))"
      "\<And>n t r. Q n t (Suc n) (fst (txn_ensure (E n) r t))"
      "\<And>n t a. Q n t (Suc n) (txn_after_commit a t)"
  shows "exec_body b E n t = (n', t', x) \<Longrightarrow> Q n t n' t'"
proof (induction b arbitrary: n t n' t' x)
  case (Nested ma b k)
  note IHk = Nested.IH(2) [OF rangeI]
  show ?case
  proof (cases "validate_max_attempts ma")
    case (Inl e)
    then have "exec_body (k (Inl e)) E (Suc n) t = (n', t', x)" using Nested.prems by simp
    then show ?thesis using IHk trans tick by blast
  next
    case (Inr u)
    show ?thesis
    proof (cases ma)
      case None
      obtain n1 t1 y where b: "exec_body b E n t = (n1, t1, y)" by (cases "exec_body b E n t")
      with Nested.prems Inr None have "exec_body (k y) E (Suc n1) t1 = (n', t', x)" by simp
      then have "Q (Suc n1) t1 n' t'" using IHk by blast
      with Nested.IH(1) [OF b] show ?thesis using trans tick by blast
    next
      case (Some m)
      then have "exec_body (k (Inl RuntimeError)) E (Suc n) t = (n', t', x)"
        using Nested.prems Inr by simp
      then show ?thesis using IHk trans tick by blast
    qed
  qed
next
  case (IoBang k)
  then show ?case using trans tick by (metis exec_body.simps(10) rangeI)
next
  case (Deref r k)
  show ?case
    by (rule trans [OF ops(1) Deref.IH [OF rangeI Deref.prems [unfolded exec_step]]])
next
  case (Alter r f k)
  show ?case
    by (rule trans [OF ops(2) Alter.IH [OF rangeI Alter.prems [unfolded exec_step]]])
next
  case (RefSet r v k)
  show ?case
    by (rule trans [OF ops(3) RefSet.IH [OF rangeI RefSet.prems [unfolded exec_step]]])
next
  case (Commute r f k)
  show ?case
    by (rule trans [OF ops(4) Commute.IH [OF rangeI Commute.prems [unfolded exec_step]]])
next
  case (Ensure r k)
  show ?case
    by (rule trans [OF ops(5) Ensure.IH [OF rangeI Ensure.prems [unfolded exec_step]]])
next
  case (AfterCommit a b)
  show ?case by (rule trans [OF ops(6) AfterCommit.IH [OF AfterCommit.prems [unfolded exec_step]]])
qed (use refl in simp_all)


lemmas reads_only_ops = reads_only_read reads_only_alter reads_only_ref_set reads_only_commute
  reads_only_ensure

lemma reads_onlyD:
  assumes "reads_only f"
  shows "\<exists>l. reads (fst (f S t)) = reads t @ l"
    and "valid_reads S' (fst (f S t)) \<Longrightarrow> f S' t = f S t"
    and "past_reads E n t \<Longrightarrow> past_reads E (Suc n) (fst (f (E n) t))"
proof -
  show "\<exists>l. reads (fst (f S t)) = reads t @ l"
    and "valid_reads S' (fst (f S t)) \<Longrightarrow> f S' t = f S t"
    using assms unfolding reads_only_def by blast+
  obtain l where l: "reads (fst (f (E n) t)) = reads t @ l"
    "\<forall>q \<in> set l. snd q = read_committed (E n (fst q))"
    using assms unfolding reads_only_def by blast
  assume "past_reads E n t"
  then show "past_reads E (Suc n) (fst (f (E n) t))"
    using l unfolding past_reads_def by (metis Un_iff le_SucI le_refl set_append)
qed

text \<open>A body only adds to the versions read, and reads them at or before the time it ends.\<close>

lemma exec_body_reads:
  "exec_body b E n t = (n', t', x) \<Longrightarrow>
     n \<le> n' \<and> (\<exists>l. reads t' = reads t @ l) \<and> (past_reads E n t \<longrightarrow> past_reads E n' t')"
proof (erule exec_body_rel [rotated -1], goal_cases)
  case (2 n t n1 t1 n2 t2)
  then show ?case by fastforce
next
  case (3 n t)
  then show ?case unfolding past_reads_def by (auto intro: le_SucI)
next
  case (9 n t a)
  then show ?case unfolding past_reads_def txn_after_commit_def by (auto intro: le_SucI)
qed (use reads_onlyD [OF reads_only_read] reads_onlyD [OF reads_only_alter]
    reads_onlyD [OF reads_only_ref_set] reads_onlyD [OF reads_only_commute]
    reads_onlyD [OF reads_only_ensure] in auto)

lemma valid_reads_append: "reads t' = reads t @ l \<Longrightarrow> valid_reads S t' \<Longrightarrow> valid_reads S t"
  by (simp add: valid_reads_def)

text \<open>
  If every version a body read is the one in the store \<open>S\<close>, then the body, run with nothing
  else happening on \<open>S\<close>, does the same.
\<close>

definition replays_on :: "('v, 'm) store \<Rightarrow> ('v, 'r) body \<Rightarrow> 'v txn \<Rightarrow> 'v txn \<Rightarrow> 'r res \<Rightarrow> bool" where
  "replays_on S b t t' x \<longleftrightarrow> (\<forall>m. \<exists>m'. exec_body b (\<lambda>_. S) m t = (m', t', x))"

lemma replays_op:
  fixes S :: "('v, 'm) store" and E :: "nat \<Rightarrow> ('v, 'm) store"
  assumes "reads_only f" and p0: "f (E n) t = p0" and p: "f S t = p"
    and ex: "exec_body (k (snd p0)) E (Suc n) (fst p0) = (n', t', x)"
    and IH: "\<forall>y n t n' x. exec_body (k y) E n t = (n', t', x) \<longrightarrow> replays_on S (k y) t t' x"
    and valid: "valid_reads S t'"
  shows "p = p0 \<and> replays_on S (k (snd p)) (fst p) t' x"
proof -
  have "valid_reads S (fst p0)"
    using exec_body_reads [OF ex] valid_reads_append valid by blast
  then have "p = p0" using reads_onlyD(2) [OF assms(1)] p0 p by metis
  then show ?thesis using IH ex by auto
qed

lemma exec_body_replays:
  fixes S :: "('v, 'm) store" and E :: "nat \<Rightarrow> ('v, 'm) store"
  shows "exec_body b E n t = (n', t', x) \<Longrightarrow> valid_reads S t' \<Longrightarrow> replays_on S b t t' x"
proof (induction b arbitrary: n t n' t' x)
  case (Deref r k)
  note st = Deref.prems(1) [unfolded exec_step]
  have "\<forall>y n t n' x. exec_body (k y) E n t = (n', t', x) \<longrightarrow> replays_on S (k y) t t' x"
    using Deref.IH [OF rangeI] Deref.prems(2) by blast
  from replays_op [where k = k, OF reads_only_read refl refl st this Deref.prems(2)]
  show ?case unfolding replays_on_def exec_step by blast
next
  case (Alter r f k)
  note st = Alter.prems(1) [unfolded exec_step]
  have "\<forall>y n t n' x. exec_body (k y) E n t = (n', t', x) \<longrightarrow> replays_on S (k y) t t' x"
    using Alter.IH [OF rangeI] Alter.prems(2) by blast
  from replays_op [where k = k, OF reads_only_alter refl refl st this Alter.prems(2)]
  show ?case unfolding replays_on_def exec_step by blast
next
  case (RefSet r v k)
  note st = RefSet.prems(1) [unfolded exec_step]
  have "\<forall>y n t n' x. exec_body (k y) E n t = (n', t', x) \<longrightarrow> replays_on S (k y) t t' x"
    using RefSet.IH [OF rangeI] RefSet.prems(2) by blast
  from replays_op [where k = k, OF reads_only_ref_set refl refl st this RefSet.prems(2)]
  show ?case unfolding replays_on_def exec_step by blast
next
  case (Commute r f k)
  note st = Commute.prems(1) [unfolded exec_step]
  have "\<forall>y n t n' x. exec_body (k y) E n t = (n', t', x) \<longrightarrow> replays_on S (k y) t t' x"
    using Commute.IH [OF rangeI] Commute.prems(2) by blast
  from replays_op [where k = k, OF reads_only_commute refl refl st this Commute.prems(2)]
  show ?case unfolding replays_on_def exec_step by blast
next
  case (Ensure r k)
  note st = Ensure.prems(1) [unfolded exec_step]
  have "\<forall>y n t n' x. exec_body (k (Inr y)) E n t = (n', t', x) \<longrightarrow>
      replays_on S (k (Inr y)) t t' x"
    using Ensure.IH [OF rangeI] Ensure.prems(2) by blast
  from replays_op [where k = "\<lambda>v. k (Inr v)", OF reads_only_ensure refl refl st this Ensure.prems(2)]
  show ?case unfolding replays_on_def exec_step by blast
next
  case (AfterCommit a b)
  show ?case
    using AfterCommit.IH [OF AfterCommit.prems(1) [unfolded exec_step] AfterCommit.prems(2)]
    unfolding replays_on_def exec_step by blast
next
  case (IoBang k)
  then show ?case unfolding replays_on_def by simp
next
  case (Nested ma b k)
  note IHk = Nested.IH(2) [OF rangeI _ Nested.prems(2)]
  show ?case
  proof (cases "ma = None")
    case True
    obtain n1 t1 y where b: "exec_body b E n t = (n1, t1, y)" by (cases "exec_body b E n t")
    with Nested.prems True have k: "exec_body (k y) E (Suc n1) t1 = (n', t', x)"
      by (simp add: validate_max_attempts_def)
    have "valid_reads S t1"
      using exec_body_reads [OF k] valid_reads_append Nested.prems(2) by blast
    then have r1: "replays_on S b t t1 y" using Nested.IH(1) [OF b] by blast
    have r2: "replays_on S (k y) t1 t' x" using IHk [OF k] .
    show ?thesis
      unfolding replays_on_def
    proof
      fix m
      obtain m1 where m1: "exec_body b (\<lambda>_. S) m t = (m1, t1, y)"
        using r1 unfolding replays_on_def by blast
      obtain m2 where "exec_body (k y) (\<lambda>_. S) (Suc m1) t1 = (m2, t', x)"
        using r2 unfolding replays_on_def by blast
      with m1 True show "\<exists>m'. exec_body (Nested ma b k) (\<lambda>_. S) m t = (m', t', x)"
        by (simp add: validate_max_attempts_def)
    qed
  next
    case False
    then obtain e where e: "\<And>(E :: nat \<Rightarrow> ('v, 'm) store) n t.
        exec_body (Nested ma b k) E n t = exec_body (k (Inl e)) E (Suc n) t"
      by (cases "validate_max_attempts ma") auto
    from IHk [OF Nested.prems(1) [unfolded e]] show ?thesis unfolding replays_on_def e by blast
  qed
qed (simp_all add: replays_on_def)


section \<open>Well-formed logs\<close>

lemma txn_read_frame:
  "txn_read S r t = (t1, v) \<Longrightarrow>
     writes t1 = writes t \<and> commutes t1 = commutes t \<and> commuted_values t1 = commuted_values t \<and>
     ensures t1 = ensures t \<and>
     (v = (case map_of (writes t) r of
             Some w \<Rightarrow> w
           | None \<Rightarrow> (case map_of (commuted_values t) r of
                        Some w \<Rightarrow> w | None \<Rightarrow> fst (the (map_of (reads t1) r))))) \<and>
     (map_of (writes t) r = None \<longrightarrow> map_of (commuted_values t) r = None \<longrightarrow>
        map_of (reads t1) r \<noteq> None)"
  by (auto simp: txn_read_def map_of_append map_add_def split: option.splits)

lemma replay_commutes: "commutes t' = commutes t \<Longrightarrow> replay t' r v = replay t r v"
  by (simp add: replay_def)

lemma wf_txn_read:
  assumes "wf_txn t"
  shows "wf_txn (fst (txn_read S r t))"
proof -
  have *: "shown_ok (map_of (reads t @ [(r, p)]) q) (map_of (writes t) q) (map_of (commutes t) q)
            (map_of (commuted_values t) q)"
    if "map_of (writes t) r = None" "map_of (commuted_values t) r = None"
      "map_of (reads t) r = None" for p q
  proof -
    have "shown_ok (map_of (reads t) q) (map_of (writes t) q) (map_of (commutes t) q)
            (map_of (commuted_values t) q)"
      using assms by (simp add: wf_txn_def)
    then show ?thesis
      using that by (cases "q = r"; cases "map_of (commutes t) r")
        (auto simp: shown_ok_def map_add_def split: option.splits)
  qed
  show ?thesis
    using assms * by (auto simp: txn_read_def wf_txn_def map_of_eq_None_iff split: option.splits)
qed

lemma wf_txn_write:
  assumes "wf_txn t" and "map_of (commutes t) r = None \<or> map_of (writes t) r \<noteq> None"
  shows "wf_txn (t\<lparr>writes := AList.update r v (writes t)\<rparr>)"
  using assms unfolding wf_txn_def
  by (auto simp: distinct_update update_conv' shown_ok_def)

lemma wf_txn_alter:
  assumes wt: "wf_txn t"
  shows "wf_txn (fst (txn_alter S r f t))"
proof (cases "in_commutes t r")
  case False
  obtain t1 v where t1: "txn_read S r t = (t1, v)" by (cases "txn_read S r t")
  have "map_of (commutes t1) r = None"
    using False txn_read_frame [OF t1] by (simp add: in_commutes_def map_of_eq_None_iff)
  then show ?thesis
    using False wf_txn_read [OF wt, of S r] wf_txn_write [of t1 r]
    by (simp add: txn_alter_def t1 split: sum.split)
qed (simp add: txn_alter_def wt)

lemma wf_txn_ref_set:
  assumes wt: "wf_txn t"
  shows "wf_txn (fst (txn_ref_set S r v t))"
proof (cases "in_commutes t r")
  case False
  obtain t1 w where t1: "txn_read S r t = (t1, w)" by (cases "txn_read S r t")
  have "map_of (commutes t1) r = None"
    using False txn_read_frame [OF t1] by (simp add: in_commutes_def map_of_eq_None_iff)
  then show ?thesis
    using False wf_txn_read [OF wt, of S r] wf_txn_write [of t1 r]
    by (simp add: txn_ref_set_def t1)
qed (simp add: txn_ref_set_def wt)

lemma wf_txn_ensure: "wf_txn t \<Longrightarrow> wf_txn (fst (txn_ensure S r t))"
  using wf_txn_read [of t S r] by (simp add: txn_ensure_def wf_txn_def split_def Let_def)

lemma wf_txn_after_commit: "wf_txn t \<Longrightarrow> wf_txn (txn_after_commit a t)"
  by (simp add: txn_after_commit_def wf_txn_def)

lemma stage_commute_simps [simp]:
  "reads (stage_commute r f t) = reads t" "writes (stage_commute r f t) = writes t"
  "commuted_values (stage_commute r f t) = commuted_values t"
  "ensures (stage_commute r f t) = ensures t"
  "map_of (commutes (stage_commute r f t)) =
     (map_of (commutes t))(r \<mapsto> (case map_of (commutes t) r of None \<Rightarrow> [] | Some fs \<Rightarrow> fs) @ [f])"
  "distinct (map fst (commutes t)) \<Longrightarrow> distinct (map fst (commutes (stage_commute r f t)))"
  by (simp_all add: stage_commute_def update_conv' distinct_update)

lemma shown_ok_step:
  assumes "shown_ok rd None fs vo" and "f v = Inr w"
    and "v = (case vo of Some u \<Rightarrow> u | None \<Rightarrow> fst (the rd))" and "vo = None \<longrightarrow> rd \<noteq> None"
  shows "shown_ok rd None (Some ((case fs of None \<Rightarrow> [] | Some gs \<Rightarrow> gs) @ [f])) (Some w)"
  using assms by (auto simp: shown_ok_def foldM_append split: option.splits)

lemma wf_txn_commute:
  assumes wt: "wf_txn t"
  shows "wf_txn (fst (txn_commute S r f t))"
proof -
  obtain t1 v where t1: "txn_read S r t = (t1, v)" by (cases "txn_read S r t")
  note fr = txn_read_frame [OF t1]
  have wf: "wf_txn t1" using wf_txn_read [OF wt, of S r] t1 by simp
  show ?thesis
  proof (cases "f v")
    case (Inl e)
    then show ?thesis using wf by (simp add: txn_commute_read t1)
  next
    case (Inr w)
    let ?t2 = "stage_commute r f t1"
    show ?thesis
    proof (cases "map_of (writes t1) r")
      case None
      then have notin: "r \<notin> set (map fst (writes t1))" by (simp add: map_of_eq_None_iff)
      have "shown_ok (map_of (reads t1) r) None
             (Some ((case map_of (commutes t1) r of None \<Rightarrow> [] | Some gs \<Rightarrow> gs) @ [f])) (Some w)"
      proof (rule shown_ok_step [where f = f and v = v])
        show "shown_ok (map_of (reads t1) r) None (map_of (commutes t1) r)
                (map_of (commuted_values t1) r)"
          using wf None unfolding wf_txn_def by metis
      qed (use fr None Inr in auto)
      then have "wf_txn (?t2\<lparr>commuted_values := AList.update r w (commuted_values ?t2)\<rparr>)"
        using wf None unfolding wf_txn_def by (simp add: update_conv')
      then show ?thesis using notin Inr by (simp add: txn_commute_read t1)
    next
      case (Some u)
      then have isin: "r \<in> set (map fst (writes t1))"
        by (metis map_of_eq_None_iff option.distinct(1) set_map)
      have "wf_txn ?t2" using wf Some unfolding wf_txn_def by (simp add: shown_ok_def)
      then have "wf_txn (?t2\<lparr>writes := AList.update r w (writes ?t2)\<rparr>)"
        using Some by (intro wf_txn_write) simp_all
      then show ?thesis using isin Inr by (simp add: txn_commute_read t1)
    qed
  qed
qed

lemma exec_body_wf:
  assumes "exec_body b E n t = (n', t', x)" "wf_txn t"
  shows "wf_txn t'"
proof -
  have "wf_txn t \<longrightarrow> wf_txn t'"
    using assms(1)
    by (rule exec_body_rel [where Q = "\<lambda>_ t _ t'. wf_txn t \<longrightarrow> wf_txn t'", rotated -1])
      (auto intro: wf_txn_read wf_txn_alter wf_txn_ref_set wf_txn_commute wf_txn_ensure
        wf_txn_after_commit)
  then show ?thesis using assms(2) by simp
qed


section \<open>Commit\<close>

text \<open>A commit with one change per Ref installs each of them once.\<close>

lemma foldl_install:
  "distinct (map fst cs) \<Longrightarrow>
     foldl install S cs r =
       (case map_of cs r of
          None \<Rightarrow> S r
        | Some (_, v) \<Rightarrow>
            (record_history (cstate (S r)) (S r))
              \<lparr>cstate := v, cversion := cversion (S r) + 1\<rparr>)"
proof (induction cs arbitrary: S)
  case (Cons c cs)
  obtain q old v where c: "c = (q, old, v)" by (cases c)
  with Cons.prems have q: "map_of cs q = None" by (auto simp: map_of_eq_None_iff)
  have "install S c r = S r" if "r \<noteq> q" using that by (simp add: install_def c Let_def)
  moreover have "install S c q =
      (record_history (cstate (S q)) (S q))\<lparr>cstate := v, cversion := cversion (S q) + 1\<rparr>"
    by (simp add: install_def c record_history_def Let_def)
  ultimately show ?case
    using Cons.IH [of "install S c"] Cons.prems q unfolding c
    by (cases "r = q") (auto split: option.splits)
qed simp

lemma commit_changes_append:
  "foldM (\<lambda>cs r. rbind (replay t r (cstate (S r))) (\<lambda>v. Inr (cs @ [(r, cstate (S r), v)]))) ws rs =
     Inr cs \<Longrightarrow>
   \<exists>l. cs = ws @ l \<and> map fst l = rs \<and>
     (\<forall>(r, old, v) \<in> set l. old = cstate (S r) \<and> replay t r (cstate (S r)) = Inr v)"
proof (induction rs arbitrary: ws)
  case (Cons r rs)
  from Cons.prems obtain v where v: "replay t r (cstate (S r)) = Inr v"
    and rest: "foldM (\<lambda>cs r. rbind (replay t r (cstate (S r)))
                 (\<lambda>v. Inr (cs @ [(r, cstate (S r), v)]))) (ws @ [(r, cstate (S r), v)]) rs = Inr cs"
    by (auto simp: rbind_eq_Inr_iff)
  from Cons.IH [OF rest] obtain l where l: "cs = (ws @ [(r, cstate (S r), v)]) @ l"
    "map fst l = rs"
    "\<forall>(r, old, v) \<in> set l. old = cstate (S r) \<and> replay t r (cstate (S r)) = Inr v" by blast
  then show ?case by (intro exI [of _ "(r, cstate (S r), v) # l"]) (simp add: v)
qed simp

text \<open>What is known of the changes of a commit that succeeds.\<close>

lemma commit_SomeD:
  assumes "commit ord S t = (S', t', Inr (Some cs))"
  shows "t' = t" "S' = foldl install S cs" "find_conflicts (pure_commutes ord t) S t = []"
    "\<exists>l. cs = write_changes S t @ l \<and> map fst l = pure_commutes ord t \<and>
       (\<forall>(r, old, v) \<in> set l. old = cstate (S r) \<and> replay t r (cstate (S r)) = Inr v)"
    "validate_changes S cs = Inr ()"
proof -
  let ?pure = "pure_commutes ord t"
  have c: "find_conflicts ?pure S t = [] \<and> t' = t \<and> S' = foldl install S cs \<and>
      commit_changes ?pure S t = Inr cs \<and> validate_changes S cs = Inr ()"
    using assms
    by (auto simp: commit_def Let_def rbind_eq_Inr_iff split: if_splits sum.splits)
  then show "t' = t" "S' = foldl install S cs" "find_conflicts ?pure S t = []"
    "validate_changes S cs = Inr ()" by blast+
  show "\<exists>l. cs = write_changes S t @ l \<and> map fst l = pure_commutes ord t \<and>
       (\<forall>(r, old, v) \<in> set l. old = cstate (S r) \<and> replay t r (cstate (S r)) = Inr v)"
    using commit_changes_append c unfolding commit_changes_def by blast
qed

text \<open>\<open>ord\<close> arranges a set: it permutes its argument.\<close>

definition set_order :: "(nat list \<Rightarrow> nat list) \<Rightarrow> bool" where
  "set_order ord \<longleftrightarrow> (\<forall>xs. distinct xs \<longrightarrow> distinct (ord xs) \<and> set (ord xs) = set xs)"

lemma pure_commutes_set:
  "set_order ord \<Longrightarrow> wf_txn t \<Longrightarrow>
     distinct (pure_commutes ord t) \<and>
     (r \<in> set (pure_commutes ord t) \<longleftrightarrow>
        map_of (writes t) r = None \<and> map_of (commutes t) r \<noteq> None)"
  by (auto simp: set_order_def pure_commutes_def wf_txn_def map_of_eq_None_iff
      distinct_map_filter image_iff)

lemma map_of_map_keyed:
  "map_of (map (\<lambda>(r, v). (r, g r, v)) xs) r = map_option (\<lambda>v. (g r, v)) (map_of xs r)"
  by (induction xs) auto

lemma map_fst_write_changes: "map fst (write_changes S t) = map fst (writes t)"
  by (simp add: write_changes_def split_def o_def)

text \<open>The value that a commit gives to each Ref.\<close>

lemma commit_value:
  assumes "set_order ord" "wf_txn t" "commit ord S t = (S', t', Inr (Some cs))"
  shows "distinct (map fst cs)"
    "map_of cs r =
       (case map_of (writes t) r of
          Some v \<Rightarrow> Some (cstate (S r), v)
        | None \<Rightarrow>
            (case map_of (commutes t) r of
               None \<Rightarrow> None
             | Some fs \<Rightarrow>
                 (case replay t r (cstate (S r)) of
                    Inr v \<Rightarrow> Some (cstate (S r), v) | Inl _ \<Rightarrow> None)))"
    "r \<in> set (pure_commutes ord t) \<Longrightarrow> \<exists>v. replay t r (cstate (S r)) = Inr v"
proof -
  obtain l where l: "cs = write_changes S t @ l" "map fst l = pure_commutes ord t"
    "\<forall>(r, old, v) \<in> set l. old = cstate (S r) \<and> replay t r (cstate (S r)) = Inr v"
    using commit_SomeD(4) [OF assms(3)] by blast
  note ps = pure_commutes_set [OF assms(1,2)]
  have lset: "fst ` set l = set (pure_commutes ord t)"
    using l(2) by (metis list.set_map)
  show d: "distinct (map fst cs)"
    using ps assms(2) lset
    by (auto simp: l map_fst_write_changes wf_txn_def map_of_eq_None_iff)
  show "r \<in> set (pure_commutes ord t) \<Longrightarrow> \<exists>v. replay t r (cstate (S r)) = Inr v"
    using l(3) lset by force
  have w: "map_of (write_changes S t) r = map_option (\<lambda>v. (cstate (S r), v)) (map_of (writes t) r)"
    unfolding write_changes_def by (rule map_of_map_keyed)
  show "map_of cs r = (case map_of (writes t) r of
          Some v \<Rightarrow> Some (cstate (S r), v)
        | None \<Rightarrow>
            (case map_of (commutes t) r of
               None \<Rightarrow> None
             | Some fs \<Rightarrow>
                 (case replay t r (cstate (S r)) of
                    Inr v \<Rightarrow> Some (cstate (S r), v) | Inl _ \<Rightarrow> None)))"
  proof (cases "map_of l r")
    case None
    then have "r \<notin> set (pure_commutes ord t)" using lset by (simp add: map_of_eq_None_iff)
    then show ?thesis using ps w None by (auto simp: l map_add_def split: option.splits)
  next
    case (Some p)
    then have mem: "(r, p) \<in> set l" by (rule map_of_SomeD)
    then have "r \<in> set (pure_commutes ord t)" using lset by force
    moreover have "fst p = cstate (S r)" "replay t r (cstate (S r)) = Inr (snd p)"
      using l(3) mem by auto
    ultimately show ?thesis
      using ps w Some by (cases p) (auto simp: l map_add_def split: option.splits)
  qed
qed


section \<open>The environment\<close>

text \<open>
  What one operation of any thread may do to the store: commit a transaction, set a history
  control, a watch or a validator, or nothing.
\<close>

inductive store_step :: "('v, 'm) store \<Rightarrow> ('v, 'm) store \<Rightarrow> bool" where
  idle: "store_step S S"
| commits: "set_order ord \<Longrightarrow> wf_txn t \<Longrightarrow> store_step S (fst (commit ord S t))"
| min_history: "set_min_history a (S r) = Inr c \<Longrightarrow> store_step S (S(r := c))"
| max_history: "set_max_history a (S r) = Inr c \<Longrightarrow> store_step S (S(r := c))"
| watch: "store_step S (S(r := add_watch k fn (S r)))"
| unwatch: "store_step S (S(r := remove_watch k (S r)))"
| validator: "set_validator (cstate (S r)) vf (S r) = Inr c \<Longrightarrow> store_step S (S(r := c))"
| meta: "alter_meta f (S r) = Inr (c, m) \<Longrightarrow> store_step S (S(r := c))"

text \<open>
  Any number of steps happens between two operations of the transaction.
\<close>

definition environment :: "(nat \<Rightarrow> ('v, 'm) store) \<Rightarrow> bool" where
  "environment E \<longleftrightarrow> (\<forall>i. store_step\<^sup>*\<^sup>* (E i) (E (Suc i)))"

definition evolves :: "('v, 'm) store \<Rightarrow> ('v, 'm) store \<Rightarrow> bool" where
  "evolves S S' \<longleftrightarrow>
     (\<forall>r. cversion (S r) < cversion (S' r) \<or> read_committed (S r) = read_committed (S' r))"

lemma evolves_refl [simp]: "evolves S S"
  by (simp add: evolves_def)

lemma evolves_trans:
  assumes "evolves S T" "evolves T U"
  shows "evolves S U"
  unfolding evolves_def
proof
  fix r
  have "cversion (S r) < cversion (T r) \<or> read_committed (S r) = read_committed (T r)"
    "cversion (T r) < cversion (U r) \<or> read_committed (T r) = read_committed (U r)"
    using assms unfolding evolves_def by blast+
  then show "cversion (S r) < cversion (U r) \<or> read_committed (S r) = read_committed (U r)"
    by (auto simp: read_committed_def)
qed

lemma record_history_simps [simp]:
  "cstate (record_history v c) = cstate c" "cversion (record_history v c) = cversion c"
  "ref_validator (record_history v c) = ref_validator c"
  "ref_watches (record_history v c) = ref_watches c"
  "cmin_history (record_history v c) = cmin_history c"
  "cmax_history (record_history v c) = cmax_history c"
  by (simp_all add: record_history_def)

lemma commit_cases:
  obtains (conflict) cf where "commit ord S t = (S, t\<lparr>conflicts := cf\<rparr>, Inr None)"
      "cf = find_conflicts (pure_commutes ord t) S t" "cf \<noteq> []"
  | (error) e where "commit ord S t = (S, t, Inl e)"
  | (success) cs where "commit ord S t = (foldl install S cs, t, Inr (Some cs))"
proof (cases "find_conflicts (pure_commutes ord t) S t = []")
  case True
  show ?thesis
  proof (cases "rbind (commit_changes (pure_commutes ord t) S t)
                 (\<lambda>cs. rbind (validate_changes S cs) (\<lambda>_. Inr cs))")
    case (Inl e)
    with True show ?thesis by (intro error [of e]) (simp add: commit_def)
  next
    case (Inr cs)
    with True show ?thesis by (intro success [of cs]) (simp add: commit_def)
  qed
next
  case False
  then show ?thesis using conflict by (simp add: commit_def Let_def)
qed

lemma evolves_commit:
  assumes "set_order ord" "wf_txn t"
  shows "evolves S (fst (commit ord S t))"
proof (cases rule: commit_cases [of ord S t])
  case (success cs)
  then have d: "distinct (map fst cs)" using commit_value(1) assms by blast
  show ?thesis
    unfolding evolves_def success(1) fst_conv
  proof
    fix r
    show "cversion (S r) < cversion (foldl install S cs r) \<or>
        read_committed (S r) = read_committed (foldl install S cs r)"
      by (cases "map_of cs r") (auto simp: foldl_install [OF d])
  qed
qed simp_all

lemma evolves_step: "store_step S S' \<Longrightarrow> evolves S S'"
proof (induction rule: store_step.induct)
  case (commits ord t S)
  then show ?case by (rule evolves_commit)
qed (auto simp: evolves_def read_committed_def set_min_history_def set_max_history_def
    add_watch_def remove_watch_def set_validator_def alter_meta_def rbind_eq_Inr_iff)

lemma evolves_steps: "store_step\<^sup>*\<^sup>* S S' \<Longrightarrow> evolves S S'"
  by (induction rule: rtranclp_induct) (auto intro: evolves_trans evolves_step)

lemma environment_evolves:
  assumes "environment E" "i \<le> j"
  shows "evolves (E i) (E j)"
  using assms(2)
proof (induction j rule: dec_induct)
  case (step k)
  then show ?case
    using assms(1) evolves_steps evolves_trans unfolding environment_def by blast
qed simp

text \<open>A version read in the past that is still current was read with the current value.\<close>

lemma past_reads_valid:
  assumes "environment E" "past_reads E n t"
    and "\<And>q. q \<in> set (reads t) \<Longrightarrow> snd (snd q) = cversion (E n (fst q))"
  shows "valid_reads (E n) t"
  unfolding valid_reads_def
proof
  fix q assume q: "q \<in> set (reads t)"
  then obtain i where i: "i \<le> n" "snd q = read_committed (E i (fst q))"
    using assms(2) unfolding past_reads_def by blast
  have "cversion (E i (fst q)) = cversion (E n (fst q))"
    using assms(3) [OF q] i by (simp add: read_committed_def)
  then show "snd q = read_committed (E n (fst q))"
    using environment_evolves [OF assms(1) i(1)] i(2) unfolding evolves_def by (metis less_irrefl)
qed

lemma no_conflicts_valid:
  assumes "find_conflicts pure S t = []" and "q \<in> set (reads t)"
    and "fst q \<notin> set pure \<or> fst q \<in> ensures t"
  shows "snd (snd q) = cversion (S (fst q))"
  using assms by (fastforce simp: find_conflicts_def filter_empty_conv)

end
