(* ===== verification/StmCorrect.thy ===== *)
theory StmCorrect
  imports StmProps
begin

text \<open>
  The guarantees of the transactional memory that its clients rely on, with their instances.
\<close>

section \<open>Serializability\<close>

lemma attempt_CommittedD:
  assumes "attempt ord E b n = (n', Committed S' cs as v)"
  obtains t where "exec_body b E n new_txn = (n', t, Inr v)"
    "commit ord (E n') t = (S', t, Inr (Some cs))" "as = after_actions t"
proof -
  obtain n1 t x where ex: "exec_body b E n new_txn = (n1, t, x)"
    by (cases "exec_body b E n new_txn")
  show ?thesis
    using assms that commit_SomeD(1)
    by (fastforce simp: attempt_def ex split: sum.splits prod.splits option.splits)
qed

text \<open>The log of a committed attempt holds, at the commit, only current reads.\<close>

lemma committed_reads_valid:
  assumes "environment E" "exec_body b E n new_txn = (n', t, x)"
    and "commit ord (E n') t = (S', t', Inr (Some cs))"
    and "set (pure_commutes ord t) \<subseteq> ensures t"
  shows "valid_reads (E n') t"
proof (rule past_reads_valid [OF assms(1)])
  show "past_reads E n' t" using exec_body_reads [OF assms(2)] by simp
  show "snd (snd q) = cversion (E n' (fst q))" if "q \<in> set (reads t)" for q
    using no_conflicts_valid [OF commit_SomeD(3) [OF assms(3)] that] assms(4) by blast
qed

lemma committed_value_shown:
  assumes "set_order ord" "wf_txn t" "valid_reads S t" "commit ord S t = (S', t', Inr (Some cs))"
  shows "cstate (S' r) = snd (txn_read S r t)"
proof -
  note v = commit_value [OF assms(1,2,4)]
  have S': "S' = foldl install S cs" by (rule commit_SomeD(2) [OF assms(4)])
  have rd: "fst p = cstate (S r)" if "map_of (reads t) r = Some p" for p
    using assms(3) map_of_SomeD [OF that] by (force simp: valid_reads_def read_committed_def)
  have ok: "shown_ok (map_of (reads t) r) (map_of (writes t) r) (map_of (commutes t) r)
      (map_of (commuted_values t) r)"
    using assms(2) by (simp add: wf_txn_def)
  show ?thesis
  proof (cases "map_of (writes t) r")
    case (Some w)
    then show ?thesis
      using v(2) [of r] by (simp add: S' foldl_install [OF v(1)] txn_read_def)
  next
    case None
    then show ?thesis
      using ok v(2) [of r] rd
      by (auto simp: S' foldl_install [OF v(1)] txn_read_def shown_ok_def replay_def
          read_committed_def split: option.splits)
  qed
qed

text \<open>
  C2: transactions are serializable. Whatever the other threads do between the operations of a
  body, an attempt that commits (its commuted Refs ensured, or none commuted) has the effect it
  would have had alone on the store it found at its commit: run there with nothing else
  happening it publishes the same store, makes the same changes, registers the same actions and
  returns the same value; and the published state of each Ref is the one the transaction
  itself would have read last.
\<close>

theorem transaction_serializable:
  assumes "set_order ord" and "environment E"
    and "attempt ord E b n = (n', Committed S' cs as v)"
    and "exec_body b E n new_txn = (n', t, x)" and "set (pure_commutes ord t) \<subseteq> ensures t"
  shows "(\<exists>m'. attempt ord (\<lambda>_. E n') b m = (m', Committed S' cs as v)) \<and>
    (\<forall>r. cstate (S' r) = snd (txn_read (E n') r t))"
proof -
  have x: "x = Inr v" and c: "commit ord (E n') t = (S', t, Inr (Some cs))"
    and as: "as = after_actions t"
    using assms(3,4) by (auto elim: attempt_CommittedD)
  have valid: "valid_reads (E n') t"
    by (rule committed_reads_valid [OF assms(2,4) c assms(5)])
  obtain m' where "exec_body b (\<lambda>_. E n') m new_txn = (m', t, x)"
    using exec_body_replays [OF assms(4) valid] unfolding replays_on_def by blast
  then have "attempt ord (\<lambda>_. E n') b m = (m', Committed S' cs as v)"
    by (simp add: attempt_def x c as)
  moreover have "wf_txn t" using exec_body_wf [OF assms(4)] by simp
  ultimately show ?thesis using committed_value_shown [OF assms(1) _ valid c] by blast
qed

section \<open>Atomic commits\<close>

lemma validate_changes_accepts:
  "validate_changes S cs = Inr u \<longleftrightarrow>
     (\<forall>(r, _, v) \<in> set cs. accepts (ref_validator (S r)) v)"
proof -
  have "foldM (\<lambda>_ (r, _, v). validate (S r) v) () cs = Inr u \<longleftrightarrow>
      (\<forall>(r, _, v) \<in> set cs. accepts (ref_validator (S r)) v)" for u
    by (induction cs) (auto simp: validate_accepts rbind_eq_Inr_iff split: if_splits)
  then show ?thesis by (simp add: validate_changes_def)
qed

lemma commit_success_value:
  assumes "set_order ord" "wf_txn t" "commit ord S t = (S', t', Inr (Some cs))"
  shows "case map_of cs r of
      None \<Rightarrow> S' r = S r
    | Some (old, v) \<Rightarrow>
        old = cstate (S r) \<and> accepts (ref_validator (S r)) v \<and>
        S' r = (record_history old (S r))\<lparr>cstate := v, cversion := cversion (S r) + 1\<rparr>"
proof (cases "map_of cs r")
  case (Some p)
  have "accepts (ref_validator (S r)) (snd p)"
    using commit_SomeD(5) [OF assms(3)] map_of_SomeD [OF Some]
    by (auto simp: validate_changes_accepts)
  moreover have "fst p = cstate (S r)"
    using Some commit_value(2) [OF assms, of r] by (auto split: option.splits sum.splits)
  ultimately show ?thesis
    using Some
    by (cases p) (simp add: commit_SomeD(2) [OF assms(3)] foldl_install [OF commit_value(1) [OF assms]])
qed (simp add: commit_SomeD(2) [OF assms(3)] foldl_install [OF commit_value(1) [OF assms]])

lemma find_conflicts_iff:
  "find_conflicts pure S t \<noteq> [] \<longleftrightarrow>
     (\<exists>r v ver. (r, v, ver) \<in> set (reads t) \<and> cversion (S r) \<noteq> ver \<and>
        (r \<notin> set pure \<or> r \<in> ensures t))"
  by (auto simp: find_conflicts_def filter_empty_conv)

lemma commit_conflict_iff:
  "snd (snd (commit ord S t)) = Inr None \<longleftrightarrow> find_conflicts (pure_commutes ord t) S t \<noteq> []"
  by (auto simp: commit_def Let_def split: sum.splits)

text \<open>
  C5: a commit is atomic. One that finds a stale version (of a Ref that is not only commuted, or
  is ensured), or in which a replayed function or a validator raises, leaves every Ref as it
  was; one that succeeds gives each changed Ref its new, validated state, one more version and
  at most one more history entry, and leaves every other Ref as it was.
\<close>

theorem commit_atomic:
  assumes "set_order ord" and "exec_body b E n new_txn = (n', t, x)"
    and "commit ord S t = (S', t', y)"
  shows "(case y of
      Inr (Some cs) \<Rightarrow>
        (\<forall>r. case map_of cs r of
               None \<Rightarrow> S' r = S r
             | Some (old, v) \<Rightarrow>
                 old = cstate (S r) \<and> accepts (ref_validator (S r)) v \<and>
                 S' r = (record_history old (S r))\<lparr>cstate := v, cversion := cversion (S r) + 1\<rparr>)
    | Inr None \<Rightarrow> S' = S
    | Inl e \<Rightarrow> S' = S) \<and>
    (y = Inr None \<longleftrightarrow>
       (\<exists>r v ver. (r, v, ver) \<in> set (reads t) \<and> cversion (S r) \<noteq> ver \<and>
          (r \<notin> set (pure_commutes ord t) \<or> r \<in> ensures t)))"
proof
  have wf: "wf_txn t" using exec_body_wf [OF assms(2)] by simp
  show "case y of
      Inr (Some cs) \<Rightarrow>
        (\<forall>r. case map_of cs r of
               None \<Rightarrow> S' r = S r
             | Some (old, v) \<Rightarrow>
                 old = cstate (S r) \<and> accepts (ref_validator (S r)) v \<and>
                 S' r = (record_history old (S r))\<lparr>cstate := v, cversion := cversion (S r) + 1\<rparr>)
    | Inr None \<Rightarrow> S' = S
    | Inl e \<Rightarrow> S' = S"
  proof (cases rule: commit_cases [of ord S t])
    case (success cs)
    then show ?thesis
      using assms(3) commit_success_value [OF assms(1) wf success(1)] by auto
  qed (use assms(3) in auto)
  show "y = Inr None \<longleftrightarrow>
       (\<exists>r v ver. (r, v, ver) \<in> set (reads t) \<and> cversion (S r) \<noteq> ver \<and>
          (r \<notin> set (pure_commutes ord t) \<or> r \<in> ensures t))"
    using commit_conflict_iff [of ord S t] assms(3) by (simp add: find_conflicts_iff)
qed

section \<open>Commutes\<close>

text \<open>
  A Ref that a transaction only commutes, and does not ensure, never makes it retry: a
  commit whose log read nothing else finds no conflict. The state committed for such a Ref is
  the staged functions applied, in order, to the state found at the commit, so the updates
  that other threads committed in the meantime are kept.
\<close>

theorem commute_replayed_at_commit:
  assumes "set_order ord" and "exec_body b E n new_txn = (n', t, x)"
    and "commit ord S t = (S', t', y)"
  shows "((\<forall>q \<in> set (reads t). fst q \<in> set (pure_commutes ord t) - ensures t) \<longrightarrow> y \<noteq> Inr None) \<and>
    (\<forall>cs r fs. y = Inr (Some cs) \<longrightarrow> map_of (writes t) r = None \<longrightarrow>
       map_of (commutes t) r = Some fs \<longrightarrow>
       foldM (\<lambda>v f. f v) (cstate (S r)) fs = Inr (cstate (S' r)))"
proof (intro conjI impI allI)
  assume "\<forall>q \<in> set (reads t). fst q \<in> set (pure_commutes ord t) - ensures t"
  then show "y \<noteq> Inr None"
    using commit_conflict_iff [of ord S t] assms(3) by (force simp: find_conflicts_iff)
next
  fix cs r fs
  assume y: "y = Inr (Some cs)" and w: "map_of (writes t) r = None"
    and fs: "map_of (commutes t) r = Some fs"
  have wf: "wf_txn t" using exec_body_wf [OF assms(2)] by simp
  have c: "commit ord S t = (S', t', Inr (Some cs))" using assms(3) y by simp
  have pure: "r \<in> set (pure_commutes ord t)" using pure_commutes_set [OF assms(1) wf] w fs by simp
  obtain v where v: "replay t r (cstate (S r)) = Inr v"
    using commit_value(3) [OF assms(1) wf c pure] by blast
  then have "map_of cs r = Some (cstate (S r), v)"
    using commit_value(2) [OF assms(1) wf c, of r] w fs by simp
  then have "cstate (S' r) = v"
    using commit_success_value [OF assms(1) wf c, of r] by simp
  then show "foldM (\<lambda>v f. f v) (cstate (S r)) fs = Inr (cstate (S' r))"
    using v fs by (simp add: replay_def)
qed

section \<open>Retries\<close>

lemma exec_body_time: "exec_body b E n t = (n', t', x) \<Longrightarrow> n \<le> n'"
  using exec_body_reads by blast

lemma reads_only_from:
  assumes "reads_only f"
  shows "n \<le> Suc n \<and> (\<forall>q \<in> set (reads (fst (f (E n) t))). q \<in> set (reads t) \<or>
    (\<exists>i\<ge>n. snd q = read_committed (E i (fst q))))"
proof -
  obtain l where "reads (fst (f (E n) t)) = reads t @ l"
    "\<forall>q \<in> set l. snd q = read_committed (E n (fst q))"
    using assms unfolding reads_only_def by blast
  then show ?thesis by auto
qed

lemma exec_body_reads_from:
  "exec_body b E n t = (n', t', x) \<Longrightarrow>
     n \<le> n' \<and> (\<forall>q \<in> set (reads t'). q \<in> set (reads t) \<or>
       (\<exists>i\<ge>n. snd q = read_committed (E i (fst q))))"
proof (erule exec_body_rel [rotated -1], goal_cases)
  case (2 n t n1 t1 n2 t2)
  then show ?case by (meson order_trans)
next
  case (9 n t a)
  then show ?case by (simp add: txn_after_commit_def)
qed (rule reads_only_ops [THEN reads_only_from] | simp)+

lemma attempt_time: "fst (attempt ord E b n) \<ge> n"
  by (cases "exec_body b E n new_txn") (auto simp: attempt_def dest: exec_body_time)

text \<open>An attempt during which the store does not change never conflicts.\<close>

lemma attempt_quiet:
  assumes "\<forall>i\<ge>n. E i = S"
  shows "snd (attempt ord E b n) \<noteq> Conflicted cf"
proof -
  obtain n' t x where ex: "exec_body b E n new_txn = (n', t, x)"
    by (cases "exec_body b E n new_txn")
  have "\<forall>q \<in> set (reads t). snd q = read_committed (S (fst q))"
    using assms exec_body_reads_from [OF ex] by (fastforce simp: new_txn_def)
  then have "find_conflicts (pure_commutes ord t) (E n') t = []"
    using assms exec_body_time [OF ex]
    by (auto simp: find_conflicts_def filter_empty_conv read_committed_def)
  then show ?thesis
    using commit_conflict_iff [of ord "E n'" t]
    by (auto simp: attempt_def ex split: sum.splits prod.splits option.splits)
qed


lemma attempts_loop_quiet:
  assumes "\<forall>i\<ge>N. E i = S"
  shows "N < n + fuel \<Longrightarrow> 0 < fuel \<Longrightarrow> attempts_loop ord word act ma E b fuel tries n \<noteq> None"
proof (induction fuel arbitrary: tries n)
  case (Suc fuel)
  obtain n' a where a: "attempt ord E b n = (n', a)" by (cases "attempt ord E b n")
  show ?case
  proof (cases a)
    case (Conflicted cf)
    then have "n < N" using attempt_quiet [of n E S ord b cf] assms a by force
    moreover have "n \<le> n'" using attempt_time [where ord = ord and E = E and b = b and n = n] a by simp
    ultimately have "attempts_loop ord word act ma E b fuel (Suc tries) (Suc n') \<noteq> None"
      using Suc.prems by (intro Suc.IH) auto
    then show ?thesis
      by (cases ma; cases "the ma") (auto simp: a Conflicted)
  qed (simp_all add: a split_def Let_def)
qed simp

lemma attempts_loop_outcome:
  "attempts_loop ord word act ma E b fuel tries n = Some out \<Longrightarrow>
     tries < o_attempts out \<and> o_attempts out \<le> tries + fuel \<and>
     (\<forall>m. ma = Some (IdxInt m) \<longrightarrow> int tries < m \<longrightarrow> int (o_attempts out) \<le> m) \<and>
     (o_conflicts out \<noteq> [] \<longrightarrow>
        (ma = Some (IdxInt (int (o_attempts out))) \<or> (\<exists>m \<le> int (Suc tries). ma = Some (IdxInt m))) \<and>
        o_result out = Inl ExceptionInfo \<and> o_store out = None)"
proof (induction fuel arbitrary: tries n)
  case (Suc fuel)
  obtain n' a where a: "attempt ord E b n = (n', a)" by (cases "attempt ord E b n")
  show ?case
  proof (cases a)
    case (Conflicted cf)
    show ?thesis
    proof (cases "\<exists>m. ma = Some (IdxInt m) \<and> m \<le> int (Suc tries)")
      case True
      then show ?thesis using Suc.prems by (auto simp: a Conflicted)
    next
      case False
      then have "attempts_loop ord word act ma E b fuel (Suc tries) (Suc n') = Some out"
        using Suc.prems by (cases ma; cases "the ma") (auto simp: a Conflicted)
      from Suc.IH [OF this] False show ?thesis by (auto simp: not_le)
    qed
  qed (use Suc.prems in \<open>auto simp: a split_def Let_def\<close>)
qed simp

lemma attempts_loop_bounded:
  "int tries < m \<Longrightarrow> m \<le> int (tries + fuel) \<Longrightarrow>
     attempts_loop ord word act (Some (IdxInt m)) E b fuel tries n \<noteq> None"
proof (induction fuel arbitrary: tries n)
  case (Suc fuel)
  obtain n' a where a: "attempt ord E b n = (n', a)" by (cases "attempt ord E b n")
  show ?case
  proof (cases a)
    case (Conflicted cf)
    then show ?thesis
      using Suc.prems Suc.IH [of "Suc tries" "Suc n'"] by (auto simp: a simp del: not_None_eq)
  qed (simp_all add: a split_def Let_def)
qed simp

text \<open>
  A transaction cannot be retried forever by traffic that stops. If from time \<open>N\<close> on the
  other threads leave the Refs alone, a run that starts at time \<open>n\<close> has an outcome after at most
  \<open>N - n + 1\<close> attempts: after one, when they are quiet from its start.
\<close>

theorem run_transaction_terminates:
  assumes "\<forall>i\<ge>N. E i = S"
  shows "\<exists>out. run_transaction ord word act ma E b (Suc (N - n)) n = Some out \<and>
    o_attempts out \<le> Suc (N - n)"
proof (cases "validate_max_attempts ma")
  case (Inr u)
  have "attempts_loop ord word act ma E b (Suc (N - n)) 0 n \<noteq> None"
    by (rule attempts_loop_quiet [OF assms]) simp_all
  then obtain out where out: "attempts_loop ord word act ma E b (Suc (N - n)) 0 n = Some out"
    by blast
  from attempts_loop_outcome [OF this] out Inr show ?thesis
    by (simp add: run_transaction_def del: attempts_loop.simps)
qed (simp add: run_transaction_def)

text \<open>
  C30: \<open>max_attempts\<close> bounds the retries. With a positive limit \<open>m\<close> the loop always ends, after
  between one and \<open>m\<close> attempts; if it ends because of conflicts then it made exactly \<open>m\<close>
  attempts, published nothing and raises the conflict error. Any other limit is refused before
  the first attempt.
\<close>

theorem run_transaction_bounded:
  assumes "nat m \<le> fuel"
  shows "\<exists>out. run_transaction ord word act (Some (IdxInt m)) E b fuel n = Some out \<and>
    (if m < 1 then o_attempts out = 0 \<and> o_result out = Inl ValueError \<and> o_store out = None
     else 1 \<le> o_attempts out \<and> int (o_attempts out) \<le> m \<and>
       (o_conflicts out \<noteq> [] \<longrightarrow>
          int (o_attempts out) = m \<and> o_result out = Inl ExceptionInfo \<and> o_store out = None))"
proof (cases "m < 1")
  case True
  then show ?thesis by (simp add: run_transaction_def validate_max_attempts_def)
next
  case False
  then obtain out where
    out: "attempts_loop ord word act (Some (IdxInt m)) E b fuel 0 n = Some out"
    using attempts_loop_bounded [of 0 m fuel ord word act E b n] assms by (auto simp: nat_le_iff)
  from attempts_loop_outcome [OF this] out False show ?thesis
    by (auto simp: run_transaction_def validate_max_attempts_def)
qed

section \<open>After the commit\<close>

lemma run_actions_all:
  "\<forall>a \<in> set as. act a = Inr () \<Longrightarrow> run_actions act as = (map ActionEvent as, Inr ())"
  by (induction as) auto

lemma notify_changes_no_action: "ActionEvent a \<notin> set (fst (notify_changes word S cs))"
proof (induction word S cs rule: notify_changes.induct)
  case (2 word S r old new cs)
  obtain calls x where n: "notify_watches word (S r) old new = (calls, x)"
    by (cases "notify_watches word (S r) old new")
  show ?case
    using 2 by (cases x) (auto simp: n split_def Let_def)
qed simp

definition action_of :: "'v tx_event \<Rightarrow> nat option" where
  "action_of ev = (case ev of ActionEvent a \<Rightarrow> Some a | WatchEvent _ _ \<Rightarrow> None)"

lemma actions_of_notify: "List.map_filter action_of (fst (notify_changes word S cs)) = []"
  using notify_changes_no_action [of _ word S cs]
  by (auto simp: List.map_filter_def filter_empty_conv action_of_def split: tx_event.splits)

lemma map_filter_append:
  "List.map_filter f (xs @ ys) = List.map_filter f xs @ List.map_filter f ys"
  by (simp add: List.map_filter_def)

lemma actions_of_map: "List.map_filter action_of (map ActionEvent as) = as"
  by (induction as) (simp_all add: List.map_filter_simps action_of_def)

text \<open>
  The actions registered by the attempt that committed all run, once each and in the order
  they were registered, after every watch call, even when a watch raises; what a watch raised is
  then the result of the run, and the transaction stays published. (The actions themselves do
  not raise here; actions of attempts that did not commit never run, since only a committed log
  reaches this point.)
\<close>

theorem after_commit_actions_run:
  assumes "\<forall>a \<in> set as. act a = Inr ()"
  shows "List.map_filter action_of (fst (after_publish word act S cs as v)) = as \<and>
    (\<exists>watches. fst (after_publish word act S cs as v) = watches @ map ActionEvent as \<and>
       watches = fst (notify_changes word S cs)) \<and>
    snd (after_publish word act S cs as v) =
      rbind (snd (notify_changes word S cs)) (\<lambda>_. Inr v)"
  using actions_of_notify [of word S cs]
  by (simp add: after_publish_def split_def Let_def run_actions_all [OF assms]
      map_filter_append actions_of_map)

section \<open>Validators and history\<close>

definition store_valid :: "('v, 'm) store \<Rightarrow> bool" where
  "store_valid S \<longleftrightarrow> (\<forall>r. accepts (ref_validator (S r)) (cstate (S r)))"

lemma new_ref_valid: "new_ref v m vf = Inr c \<Longrightarrow> accepts (ref_validator c) (cstate c)"
  by (auto simp: new_ref_def rbind_eq_Inr_iff run_validator_accepts accepts_def
      split: option.splits if_splits)

lemma store_valid_step:
  assumes "store_step S S'" "store_valid S"
  shows "store_valid S'"
  using assms
proof (induction rule: store_step.induct)
  case (commits ord t S)
  show ?case
  proof (cases rule: commit_cases [of ord S t])
    case (success cs)
    have "accepts (ref_validator (foldl install S cs r)) (cstate (foldl install S cs r))" for r
      using commit_success_value [OF commits(1,2) success, of r] commits(3)
      by (auto simp: store_valid_def split: option.splits)
    then show ?thesis by (simp add: store_valid_def success)
  qed (use commits in simp_all)
next
  case (validator S r vf c)
  then have "accepts (ref_validator c) (cstate (S r))" by (rule_tac set_validator_accepts)
  moreover have "cstate c = cstate (S r)"
    using validator by (auto simp: set_validator_def rbind_eq_Inr_iff)
  ultimately show ?case using validator by (simp add: store_valid_def)
qed (auto simp: store_valid_def set_min_history_def set_max_history_def add_watch_def
    remove_watch_def alter_meta_def rbind_eq_Inr_iff)

text \<open>
  No Ref ever holds a state its validator refuses. Starting from Refs whose states are
  accepted (as the constructor makes them), any sequence of commits, validator changes, watch
  changes and history controls by any threads keeps every state accepted by the validator in
  force.
\<close>

theorem validators_hold:
  assumes "environment E" and "store_valid (E 0)"
  shows "store_valid (E n)"
proof (induction n)
  case (Suc n)
  have steps: "store_valid T" if "store_step\<^sup>*\<^sup>* S T" "store_valid S" for S T :: "('a, 'b) store"
    using that by (induction rule: rtranclp_induct) (auto intro: store_valid_step)
  show ?case using steps Suc assms(1) unfolding environment_def by blast
qed (rule assms(2))

definition history_grows :: "('v, 'm) store \<Rightarrow> ('v, 'm) store \<Rightarrow> bool" where
  "history_grows S S' \<longleftrightarrow> (\<forall>r. \<exists>l. chistory (S' r) = chistory (S r) @ l)"

lemma history_grows_step: "store_step S S' \<Longrightarrow> history_grows S S'"
proof (induction rule: store_step.induct)
  case (commits ord t S)
  show ?case
  proof (cases rule: commit_cases [of ord S t])
    case (success cs)
    have "\<exists>l. chistory (foldl install S cs r) = chistory (S r) @ l" for r
      using commit_success_value [OF commits(1,2) success, of r]
      by (auto simp: record_history_def split: option.splits)
    then show ?thesis by (simp add: history_grows_def success)
  qed (simp_all add: history_grows_def)
qed (auto simp: history_grows_def set_min_history_def set_max_history_def add_watch_def
    remove_watch_def set_validator_def alter_meta_def rbind_eq_Inr_iff)

text \<open>
  Retained history is only ever extended. Whatever the threads do, and however they change
  the history controls, the values retained for a Ref at one time are the first values retained
  at any later time; and a commit that changes a Ref retains its old state exactly when fewer
  values are retained than the configured minimum (a negative minimum counting as none).
\<close>

theorem history_only_grows:
  assumes "environment E" and "i \<le> j" and "set_order ord" and "wf_txn t"
    and "commit ord (E j) t = (S', t', Inr (Some cs))" and "map_of cs r = Some (old, v)"
  shows "(\<exists>l. chistory (E j r) = chistory (E i r) @ l) \<and>
    chistory (S' r) =
      (if int (history_count (E j r)) < cmin_history (E j r)
       then chistory (E j r) @ [cstate (E j r)] else chistory (E j r))"
proof
  have grows: "history_grows S T" if "store_step\<^sup>*\<^sup>* S T" for S T :: "('a, 'b) store"
    using that
  proof (induction rule: rtranclp_induct)
    case (step T U)
    then show ?case using history_grows_step [of T U] unfolding history_grows_def
      by (metis append.assoc)
  qed (simp add: history_grows_def)
  have "history_grows (E i) (E j)"
    using assms(2)
  proof (induction j rule: dec_induct)
    case (step k)
    then show ?case
      using assms(1) grows [of "E k" "E (Suc k)"] unfolding environment_def history_grows_def
      by (metis append.assoc)
  qed (simp add: history_grows_def)
  then show "\<exists>l. chistory (E j r) = chistory (E i r) @ l" by (simp add: history_grows_def)
  show "chistory (S' r) =
      (if int (history_count (E j r)) < cmin_history (E j r)
       then chistory (E j r) @ [cstate (E j r)] else chistory (E j r))"
    using commit_success_value [OF assms(3-5), of r] assms(6)
    by (auto simp: record_history_def history_count_def)
qed


section \<open>Instances\<close>

text \<open>
  Refs that hold numbers, with one value of history; another thread commits the state 99 to Ref
  2 after the first operation of the transaction below, which increments Ref 0 and, ensured,
  commutes Ref 1.
\<close>

definition demo_cell :: "nat \<Rightarrow> (nat, unit) cell" where
  "demo_cell v = \<lparr>ref_meta = (), ref_validator = None, ref_watches = [],
     cstate = v, cversion = 0, chistory = [], cmin_history = 1, cmax_history = 10\<rparr>"

definition demo_other :: "nat txn" where
  "demo_other = new_txn\<lparr>writes := [(2, 99)]\<rparr>"

definition demo_env :: "nat \<Rightarrow> (nat, unit) store" where
  "demo_env i = (if i = 0 then demo_cell else fst (commit (\<lambda>xs. xs) demo_cell demo_other))"

definition demo_body :: "(nat, nat) body" where
  "demo_body =
     Alter 0 (\<lambda>x. Inr (x + 1)) (\<lambda>_. Commute 1 (\<lambda>x. Inr (x + 10)) (\<lambda>_.
       Ensure 1 (\<lambda>v. case v of Inr x \<Rightarrow> Ret x | Inl e \<Rightarrow> Raise e)))"

definition demo_log :: "nat txn" where
  "demo_log = \<lparr>reads = [(0, 0, 0), (1, 1, 0)], writes = [(0, 1)],
     commutes = [(1, [\<lambda>x. Inr (x + 10)])], commuted_values = [(1, 11)], ensures = {1},
     after_actions = [], conflicts = []\<rparr>"

lemma set_order_id: "set_order (\<lambda>xs. xs)"
  by (simp add: set_order_def)

lemma wf_demo_other: "wf_txn demo_other"
  by (simp add: wf_txn_def demo_other_def new_txn_def shown_ok_def)

lemma demo_env_environment: "environment demo_env"
  unfolding environment_def demo_env_def
  using store_step.commits [OF set_order_id wf_demo_other, of demo_cell] store_step.idle
  by auto

lemmas demo_simps = demo_cell_def demo_other_def new_txn_def commit_def pure_commutes_def
  find_conflicts_def commit_changes_def write_changes_def validate_changes_def validate_def
  run_validator_def install_def record_history_def replay_def Let_def

lemma demo_exec: "exec_body demo_body demo_env 0 new_txn = (3, demo_log, Inr 11)"
  by (simp add: demo_body_def exec_step txn_alter_def txn_commute_def txn_ensure_def txn_read_def
      stage_commute_def in_commutes_def read_committed_def demo_env_def demo_log_def demo_simps
      del: exec_body.simps(4-9) One_nat_def)

lemma demo_commit:
  "commit (\<lambda>xs. xs) (demo_env 3) demo_log =
     (foldl install (demo_env 3) [(0, 0, 1), (1, 1, 11)], demo_log,
      Inr (Some [(0, 0, 1), (1, 1, 11)]))"
  by (simp add: demo_env_def demo_log_def demo_simps)

lemma demo_attempt:
  "attempt (\<lambda>xs. xs) demo_env demo_body 0 =
     (3, Committed (foldl install (demo_env 3) [(0, 0, 1), (1, 1, 11)])
           [(0, 0, 1), (1, 1, 11)] [] 11)"
  by (simp add: attempt_def demo_exec demo_commit) (simp add: demo_log_def)

lemma demo_ensured: "set (pure_commutes (\<lambda>xs. xs) demo_log) \<subseteq> ensures demo_log"
  by (simp add: pure_commutes_def demo_log_def)

theorem transaction_serializable_witness:
  "cstate (foldl install (demo_env 3) [(0, 0, 1), (1, 1, 11)] 1) =
     snd (txn_read (demo_env 3) 1 demo_log)"
  using transaction_serializable
    [OF set_order_id demo_env_environment demo_attempt demo_exec demo_ensured] by blast

theorem commit_atomic_witness:
  "foldl install (demo_env 3) [(0, 0, 1), (1, 1, 11)] 2 = demo_env 3 2"
  using commit_atomic [OF set_order_id demo_exec demo_commit]
  by (auto dest!: conjunct1 spec [of _ 2])

theorem commute_replayed_at_commit_witness:
  "foldM (\<lambda>v f. f v) (cstate (demo_env 3 1)) [\<lambda>x. Inr (x + 10)] =
     Inr (cstate (foldl install (demo_env 3) [(0, 0, 1), (1, 1, 11)] 1))"
  using commute_replayed_at_commit [OF set_order_id demo_exec demo_commit]
  by (auto simp: demo_log_def simp del: foldM.simps)

theorem run_transaction_terminates_witness:
  "\<exists>out. run_transaction (\<lambda>xs. xs) (\<lambda>ws. ws) (\<lambda>_. Inr ()) None demo_env demo_body 2 0 = Some out \<and>
     o_attempts out \<le> 2"
  using run_transaction_terminates
    [of 1 demo_env "demo_env 1" "\<lambda>xs. xs" "\<lambda>ws. ws" "\<lambda>_. Inr ()" None demo_body 0]
  by (simp add: demo_env_def numeral_2_eq_2 del: attempts_loop.simps)

theorem run_transaction_bounded_witness:
  "\<exists>out. run_transaction (\<lambda>xs. xs) (\<lambda>ws. ws) (\<lambda>_. Inr ()) (Some (IdxInt 2)) demo_env demo_body 2 0 =
     Some out \<and> 1 \<le> o_attempts out \<and> int (o_attempts out) \<le> 2"
  using run_transaction_bounded
    [of 2 2 "\<lambda>xs. xs" "\<lambda>ws. ws" "\<lambda>_. Inr ()" demo_env demo_body 0]
  by auto

theorem after_commit_actions_run_witness:
  "fst (after_publish (\<lambda>ws. ws) (\<lambda>_. Inr ()) demo_cell [(0, 0, 1)] [7, 8] (11 :: nat)) =
     [ActionEvent 7, ActionEvent 8]"
  using after_commit_actions_run
    [of "[7, 8]" "\<lambda>_. Inr ()" "\<lambda>ws. ws" demo_cell "[(0, 0, 1)]" "11 :: nat"]
  by (simp add: notify_watches_def demo_cell_def)

theorem validators_hold_witness: "store_valid (demo_env 3)"
  by (rule validators_hold [OF demo_env_environment])
    (simp add: store_valid_def demo_env_def demo_cell_def accepts_def)

theorem history_only_grows_witness:
  "chistory (foldl install (demo_env 3) [(0, 0, 1), (1, 1, 11)] 0) = [0]"
proof -
  have wf: "wf_txn demo_log" by (rule exec_body_wf [OF demo_exec wf_new_txn])
  show ?thesis
    using history_only_grows [OF demo_env_environment le0 set_order_id wf demo_commit, of 0 0 1]
    by (simp add: history_count_def demo_env_def demo_simps)
qed

end
