(* ===== verification/Channel.thy ===== *)
theory Channel
  imports Prelude
begin

text \<open>
  The asyncio channels of \<open>src/src/basilisp/concurrent_channel.py\<close>: buffered and unbuffered
  channels, the waiters that block on them, \<open>alts\<close>, and the \<open>pipe\<close> and \<open>pipeline\<close> loops.

  Everything runs on one event loop, so an operation is atomic between two awaits: each is a
  function on the channel and the futures. An \<open>async\<close> operation that has to wait enqueues a
  waiter and returns the future it awaits; what happens after the await is an operation of its
  own.
\<close>

section \<open>State\<close>

datatype policy = Fixed | Sliding | Dropping

text \<open>The values a future is resolved with: a put's truth value, a closed channel's nil, an item.\<close>

datatype 'v msg = MBool bool | MNil | MVal 'v

text \<open>
  A future is pending, cancelled or has a result; the result of a selection also names the
  channel that won.
\<close>

datatype 'v fut = Pending | Cancelled | Resolved "'v msg" "nat option"

type_synonym 'v futs = "nat \<Rightarrow> 'v fut"

text \<open>\<open>_Waiter\<close>: a plain future, or the branch of the selection \<open>s\<close> on channel \<open>c\<close>.\<close>

datatype waiter = FutureW nat | SelectW nat nat

record 'v chan =
  capacity :: nat
  cpolicy :: policy
  closed :: bool
  cloop :: "nat option"
  buffer :: "'v list"
  puts :: "('v \<times> waiter) list"
  takes :: "waiter list"

type_synonym 'v cst = "'v chan \<times> 'v futs"

fun future_of :: "waiter \<Rightarrow> nat" where
  "future_of (FutureW f) = f"
| "future_of (SelectW s c) = s"

fun winner_of :: "waiter \<Rightarrow> nat option" where
  "winner_of (FutureW f) = None"
| "winner_of (SelectW s c) = Some c"

definition active :: "'v futs \<Rightarrow> waiter \<Rightarrow> bool" where
  "active fs w \<longleftrightarrow> (case fs (future_of w) of Pending \<Rightarrow> True | _ \<Rightarrow> False)"

definition resolve :: "waiter \<Rightarrow> 'v msg \<Rightarrow> 'v futs \<Rightarrow> 'v futs \<times> bool" where
  "resolve w m fs =
     (if active fs w then (fs(future_of w := Resolved m (winner_of w)), True) else (fs, False))"

text \<open>The policy argument is a string; \<open>None\<close> is one that names no policy.\<close>

definition new_chan :: "int \<Rightarrow> policy option \<Rightarrow> 'v chan res" where
  "new_chan cap pol =
     (if cap < 0 then Inl ValueError
      else case pol of
             None \<Rightarrow> Inl ValueError
           | Some p \<Rightarrow>
               (if cap = 0 \<and> p \<noteq> Fixed then Inl ValueError
                else Inr \<lparr>capacity = nat cap, cpolicy = p, closed = False, cloop = None,
                          buffer = [], puts = [], takes = []\<rparr>))"

section \<open>Channel operations\<close>

definition bind_loop :: "nat \<Rightarrow> 'v chan \<Rightarrow> 'v chan \<times> unit res" where
  "bind_loop loop ch =
     (case cloop ch of
        None \<Rightarrow> (ch\<lparr>cloop := Some loop\<rparr>, Inr ())
      | Some l \<Rightarrow> (if l = loop then (ch, Inr ()) else (ch, Inl RuntimeError)))"

definition validate_value :: "'v option \<Rightarrow> 'v res" where
  "validate_value v = (case v of None \<Rightarrow> Inl ValueError | Some x \<Rightarrow> Inr x)"

definition discard_inactive :: "'v futs \<Rightarrow> 'v chan \<Rightarrow> 'v chan" where
  "discard_inactive fs ch =
     ch\<lparr>puts := filter (\<lambda>p. active fs (snd p)) (puts ch),
        takes := filter (active fs) (takes ch)\<rparr>"

text \<open>Popping every waiter of a queue and resolving it.\<close>

definition resolve_all :: "'v msg \<Rightarrow> waiter list \<Rightarrow> 'v futs \<Rightarrow> 'v futs" where
  "resolve_all m ws fs = foldl (\<lambda>fs w. fst (resolve w m fs)) fs ws"

definition close :: "nat \<Rightarrow> 'v cst \<Rightarrow> 'v cst \<times> unit res" where
  "close loop s =
     (let (ch, fs) = s in
      case bind_loop loop ch of
        (ch1, Inl e) \<Rightarrow> ((ch1, fs), Inl e)
      | (ch1, Inr _) \<Rightarrow>
          (if closed ch1 then ((ch1, fs), Inr ())
           else
             (let ch2 = discard_inactive fs (ch1\<lparr>closed := True\<rparr>);
                  fs1 = resolve_all (MBool False) (map snd (puts ch2)) fs;
                  ch3 = ch2\<lparr>puts := []\<rparr>
              in if buffer ch3 = []
                 then ((ch3\<lparr>takes := []\<rparr>, resolve_all MNil (takes ch3) fs1), Inr ())
                 else ((ch3, fs1), Inr ()))))"

text \<open>Popping waiting takes until one accepts the message.\<close>

fun hand_over :: "'v msg \<Rightarrow> waiter list \<Rightarrow> 'v futs \<Rightarrow> waiter list \<times> 'v futs \<times> bool" where
  "hand_over m [] fs = ([], fs, False)"
| "hand_over m (w # ws) fs =
     (case resolve w m fs of
        (fs1, True) \<Rightarrow> (ws, fs1, True)
      | (fs1, False) \<Rightarrow> hand_over m ws fs1)"

text \<open>The result of \<open>_try_put\<close>: None stands for the marker \<open>_BLOCKED\<close>.\<close>

definition try_put :: "nat \<Rightarrow> 'v option \<Rightarrow> 'v cst \<Rightarrow> 'v cst \<times> bool option res" where
  "try_put loop value s =
     (let (ch, fs) = s in
      case bind_loop loop ch of
        (ch1, Inl e) \<Rightarrow> ((ch1, fs), Inl e)
      | (ch1, Inr _) \<Rightarrow>
         (case validate_value value of
            Inl e \<Rightarrow> ((ch1, fs), Inl e)
          | Inr v \<Rightarrow>
             (if closed ch1 then ((ch1, fs), Inr (Some False))
              else
                (let ch2 = discard_inactive fs ch1;
                     (ws, fs1, handed) = hand_over (MVal v) (takes ch2) fs;
                     ch3 = ch2\<lparr>takes := ws\<rparr>
                 in if handed then ((ch3, fs1), Inr (Some True))
                    else if capacity ch3 = 0 then ((ch3, fs1), Inr None)
                    else if length (buffer ch3) < capacity ch3
                    then ((ch3\<lparr>buffer := buffer ch3 @ [v]\<rparr>, fs1), Inr (Some True))
                    else case cpolicy ch3 of
                           Sliding \<Rightarrow>
                             ((ch3\<lparr>buffer := tl (buffer ch3) @ [v]\<rparr>, fs1), Inr (Some True))
                         | Dropping \<Rightarrow> ((ch3, fs1), Inr (Some True))
                         | Fixed \<Rightarrow> ((ch3, fs1), Inr None)))))"

text \<open>The loop of \<open>_fill_buffer\<close>: waiting puts move into the free places of the buffer.\<close>

fun fill_loop ::
    "nat \<Rightarrow> ('v \<times> waiter) list \<Rightarrow> 'v list \<Rightarrow> 'v futs \<Rightarrow>
     ('v \<times> waiter) list \<times> 'v list \<times> 'v futs" where
  "fill_loop cap [] buf fs = ([], buf, fs)"
| "fill_loop cap ((v, w) # ps) buf fs =
     (if length buf < cap
      then (case resolve w (MBool True) fs of
              (fs1, True) \<Rightarrow> fill_loop cap ps (buf @ [v]) fs1
            | (fs1, False) \<Rightarrow> fill_loop cap ps buf fs1)
      else ((v, w) # ps, buf, fs))"

definition fill_buffer :: "'v cst \<Rightarrow> 'v cst" where
  "fill_buffer s =
     (let (ch, fs) = s;
          ch1 = discard_inactive fs ch;
          (ps, buf, fs1) = fill_loop (capacity ch1) (puts ch1) (buffer ch1) fs
      in (ch1\<lparr>puts := ps, buffer := buf\<rparr>, fs1))"

text \<open>Popping waiting puts until one is still there to be told that its value was taken.\<close>

fun take_from_puts ::
    "('v \<times> waiter) list \<Rightarrow> 'v futs \<Rightarrow> ('v \<times> waiter) list \<times> 'v futs \<times> 'v option" where
  "take_from_puts [] fs = ([], fs, None)"
| "take_from_puts ((v, w) # ps) fs =
     (case resolve w (MBool True) fs of
        (fs1, True) \<Rightarrow> (ps, fs1, Some v)
      | (fs1, False) \<Rightarrow> take_from_puts ps fs1)"

datatype 'v taken = Item 'v | Nil | NotReady

definition try_take :: "nat \<Rightarrow> 'v cst \<Rightarrow> 'v cst \<times> 'v taken res" where
  "try_take loop s =
     (let (ch, fs) = s in
      case bind_loop loop ch of
        (ch1, Inl e) \<Rightarrow> ((ch1, fs), Inl e)
      | (ch1, Inr _) \<Rightarrow>
         (let ch2 = discard_inactive fs ch1 in
          case buffer ch2 of
            v # rest \<Rightarrow> (fill_buffer (ch2\<lparr>buffer := rest\<rparr>, fs), Inr (Item v))
          | [] \<Rightarrow>
              (let (ps, fs1, got) = take_from_puts (puts ch2) fs;
                   ch3 = ch2\<lparr>puts := ps\<rparr>
               in case got of
                    Some v \<Rightarrow> ((ch3, fs1), Inr (Item v))
                  | None \<Rightarrow> ((ch3, fs1), Inr (if closed ch3 then Nil else NotReady)))))"

definition offer :: "nat \<Rightarrow> 'v option \<Rightarrow> 'v cst \<Rightarrow> 'v cst \<times> bool res" where
  "offer loop value s =
     (case try_put loop value s of (s1, x) \<Rightarrow> (s1, rbind x (\<lambda>r. Inr (r = Some True))))"

definition poll :: "nat \<Rightarrow> 'v cst \<Rightarrow> 'v cst \<times> 'v option res" where
  "poll loop s =
     (case try_take loop s of
        (s1, x) \<Rightarrow> (s1, rbind x (\<lambda>r. Inr (case r of Item v \<Rightarrow> Some v | _ \<Rightarrow> None))))"

text \<open>
  The part of \<open>put\<close> and \<open>take\<close> before the await: either the result at once, or the future
  \<open>f\<close> (fresh, made by the loop) that is awaited.
\<close>

datatype 'a started = Finished 'a | Awaiting nat

definition put_start :: "nat \<Rightarrow> 'v option \<Rightarrow> nat \<Rightarrow> 'v cst \<Rightarrow> 'v cst \<times> bool started res" where
  "put_start loop value f s =
     (case try_put loop value s of
        (s1, Inl e) \<Rightarrow> (s1, Inl e)
      | (s1, Inr (Some b)) \<Rightarrow> (s1, Inr (Finished b))
      | ((ch, fs), Inr None) \<Rightarrow>
          ((ch\<lparr>puts := puts ch @ [(the value, FutureW f)]\<rparr>, fs(f := Pending)), Inr (Awaiting f)))"

definition take_start :: "nat \<Rightarrow> nat \<Rightarrow> 'v cst \<Rightarrow> 'v cst \<times> 'v option started res" where
  "take_start loop f s =
     (case try_take loop s of
        (s1, Inl e) \<Rightarrow> (s1, Inl e)
      | (s1, Inr (Item v)) \<Rightarrow> (s1, Inr (Finished (Some v)))
      | (s1, Inr Nil) \<Rightarrow> (s1, Inr (Finished None))
      | ((ch, fs), Inr NotReady) \<Rightarrow>
          ((ch\<lparr>takes := takes ch @ [FutureW f]\<rparr>, fs(f := Pending)), Inr (Awaiting f)))"

text \<open>
  After the await, whether it returned or was cancelled: the \<open>finally\<close> block. Cancelling a task
  cancels the future it awaits, unless that is already done.
\<close>

definition await_end :: "'v cst \<Rightarrow> 'v cst" where
  "await_end s = (discard_inactive (snd s) (fst s), snd s)"

definition cancel_await :: "nat \<Rightarrow> 'v cst \<Rightarrow> 'v cst" where
  "cancel_await f s =
     (let (ch, fs) = s
      in await_end (ch, if fs f = Pending then fs(f := Cancelled) else fs))"

definition enqueue_put :: "nat \<Rightarrow> 'v \<Rightarrow> nat \<Rightarrow> nat \<Rightarrow> 'v cst \<Rightarrow> 'v cst \<times> unit res" where
  "enqueue_put loop v sel c s =
     (let (ch, fs) = s in
      case bind_loop loop ch of
        (ch1, Inl e) \<Rightarrow> ((ch1, fs), Inl e)
      | (ch1, Inr _) \<Rightarrow> ((ch1\<lparr>puts := puts ch1 @ [(v, SelectW sel c)]\<rparr>, fs), Inr ()))"

definition enqueue_take :: "nat \<Rightarrow> nat \<Rightarrow> nat \<Rightarrow> 'v cst \<Rightarrow> 'v cst \<times> unit res" where
  "enqueue_take loop sel c s =
     (let (ch, fs) = s in
      case bind_loop loop ch of
        (ch1, Inl e) \<Rightarrow> ((ch1, fs), Inl e)
      | (ch1, Inr _) \<Rightarrow> ((ch1\<lparr>takes := takes ch1 @ [SelectW sel c]\<rparr>, fs), Inr ()))"


section \<open>Timeout channels\<close>

text \<open>
  A channel with a one-shot timer of its loop. \<open>cancel\<close> marks the timer, also one that has
  fired.
\<close>

record 'v timeout_chan = "'v chan" +
  timer_cancelled :: bool

definition new_timeout_chan :: "nat \<Rightarrow> int \<Rightarrow> 'v timeout_chan res" where
  "new_timeout_chan loop delay_ms =
     (if delay_ms < 0 then Inl ValueError
      else Inr \<lparr>capacity = 0, cpolicy = Fixed, closed = False, cloop = Some loop,
                buffer = [], puts = [], takes = [], timer_cancelled = False\<rparr>)"

definition timeout_close ::
    "nat \<Rightarrow> 'v timeout_chan \<times> 'v futs \<Rightarrow> ('v timeout_chan \<times> 'v futs) \<times> unit res" where
  "timeout_close loop s =
     (let (tc, fs) = s;
          ((ch, fs1), x) = close loop (chan.truncate tc, fs)
      in ((chan.extend ch \<lparr>timer_cancelled = True\<rparr>, fs1), x))"

section \<open>Selections\<close>

record 'v world =
  wchans :: "nat \<Rightarrow> 'v chan"
  wfuts :: "'v futs"

text \<open>An operation of a single channel, in the world.\<close>

definition on_chan :: "nat \<Rightarrow> ('v cst \<Rightarrow> 'v cst \<times> 'a) \<Rightarrow> 'v world \<Rightarrow> 'v world \<times> 'a" where
  "on_chan c f w =
     (let ((ch, fs), x) = f (wchans w c, wfuts w)
      in (w\<lparr>wchans := (wchans w)(c := ch), wfuts := fs\<rparr>, x))"

text \<open>
  The ports of an \<open>alts\<close> call: a channel, a pair of a channel and a value, or anything else; and
  the operations they parse to, with None for the marker \<open>_MISSING\<close>.
\<close>

datatype 'v port = TakePort nat | PutPort nat "'v option" | BadPort

fun parse_port :: "'v port \<Rightarrow> (nat \<times> 'v option) res" where
  "parse_port (TakePort c) = Inr (c, None)"
| "parse_port (PutPort c value) = rbind (validate_value value) (\<lambda>v. Inr (c, Some v))"
| "parse_port BadPort = Inl TypeError"

text \<open>One operation tried without waiting; None when it is not ready or blocked.\<close>

definition try_op ::
    "nat \<Rightarrow> nat \<times> 'v option \<Rightarrow> 'v world \<Rightarrow> 'v world \<times> 'v msg option res" where
  "try_op loop op w =
     (case op of
        (c, None) \<Rightarrow>
          (case on_chan c (try_take loop) w of
             (w1, x) \<Rightarrow> (w1, rbind x (\<lambda>t. Inr (case t of
                Item v \<Rightarrow> Some (MVal v) | Nil \<Rightarrow> Some MNil | NotReady \<Rightarrow> None))))
      | (c, Some v) \<Rightarrow>
          (case on_chan c (try_put loop (Some v)) w of
             (w1, x) \<Rightarrow> (w1, rbind x (\<lambda>t. Inr (map_option MBool t)))))"

fun try_ports ::
    "nat \<Rightarrow> (nat \<times> 'v option) list \<Rightarrow> 'v world \<Rightarrow> 'v world \<times> ('v msg \<times> nat) option res" where
  "try_ports loop [] w = (w, Inr None)"
| "try_ports loop (op # ops) w =
     (case try_op loop op w of
        (w1, Inl e) \<Rightarrow> (w1, Inl e)
      | (w1, Inr (Some m)) \<Rightarrow> (w1, Inr (Some (m, fst op)))
      | (w1, Inr None) \<Rightarrow> try_ports loop ops w1)"

fun enqueue_ports ::
    "nat \<Rightarrow> nat \<Rightarrow> (nat \<times> 'v option) list \<Rightarrow> 'v world \<Rightarrow> 'v world \<times> unit res" where
  "enqueue_ports loop sel [] w = (w, Inr ())"
| "enqueue_ports loop sel ((c, value) # ops) w =
     (case on_chan c (case value of
                        None \<Rightarrow> enqueue_take loop sel c
                      | Some v \<Rightarrow> enqueue_put loop v sel c) w of
        (w1, Inl e) \<Rightarrow> (w1, Inl e)
      | (w1, Inr _) \<Rightarrow> enqueue_ports loop sel ops w1)"

datatype 'v alt_result =
    Ready "'v msg" nat
  | Default "'v msg option"
  | Selecting nat

text \<open>
  \<open>alts\<close> up to its await: the operations in the order of the ports, or in a random order
  \<open>shuffle\<close>; then the default (\<open>None\<close> when \<open>_MISSING\<close>; \<open>has_default\<close> overrides its presence);
  then one selection enqueued on every port.
\<close>

definition alts_start ::
    "nat \<Rightarrow> ((nat \<times> 'v option) list \<Rightarrow> (nat \<times> 'v option) list) \<Rightarrow> 'v port list \<Rightarrow> bool \<Rightarrow>
     'v msg option \<Rightarrow> bool option \<Rightarrow> nat \<Rightarrow> 'v world \<Rightarrow> 'v world \<times> 'v alt_result res" where
  "alts_start loop shuffle ports priority dflt has_default sel w =
     (case mapM parse_port ports of
        Inl e \<Rightarrow> (w, Inl e)
      | Inr ops \<Rightarrow>
         (let has = (case has_default of None \<Rightarrow> dflt \<noteq> None | Some b \<Rightarrow> b) in
          if ops = [] \<and> \<not> has then (w, Inl ValueError)
          else
            (let ops1 = (if priority then ops else shuffle ops) in
             case try_ports loop ops1 w of
               (w1, Inl e) \<Rightarrow> (w1, Inl e)
             | (w1, Inr (Some (m, c))) \<Rightarrow> (w1, Inr (Ready m c))
             | (w1, Inr None) \<Rightarrow>
                 (if has then (w1, Inr (Default dflt))
                  else
                    (let w2 = w1\<lparr>wfuts := (wfuts w1)(sel := Pending)\<rparr> in
                     case enqueue_ports loop sel ops1 w2 of
                       (w3, Inl e) \<Rightarrow> (w3, Inl e)
                     | (w3, Inr _) \<Rightarrow> (w3, Inr (Selecting sel)))))))"

text \<open>The \<open>finally\<close> block of \<open>alts\<close>, for the channels of its operations.\<close>

definition alts_end :: "nat list \<Rightarrow> 'v world \<Rightarrow> 'v world" where
  "alts_end cs w =
     foldl (\<lambda>w c. fst (on_chan c (\<lambda>s. (await_end s, ())) w)) w cs"

end
