(* ===== verification/ChannelProps.thy ===== *)
theory ChannelProps
  imports Channel
begin

text \<open>
  What the channel operations do to the waiters that are still active: the invariant of a
  channel, one-shot futures, and the order in which values move.
\<close>

section \<open>The live view of a channel\<close>

definition live_puts :: "'v futs \<Rightarrow> 'v chan \<Rightarrow> ('v \<times> waiter) list" where
  "live_puts fs ch = filter (\<lambda>p. active fs (snd p)) (puts ch)"

definition live_takes :: "'v futs \<Rightarrow> 'v chan \<Rightarrow> waiter list" where
  "live_takes fs ch = filter (active fs) (takes ch)"

text \<open>The values a channel holds, in the order takes will receive them.\<close>

definition content :: "'v cst \<Rightarrow> 'v list" where
  "content s = buffer (fst s) @ map fst (live_puts (snd s) (fst s))"

definition chan_ok :: "'v futs \<Rightarrow> 'v chan \<Rightarrow> bool" where
  "chan_ok fs ch \<longleftrightarrow>
     length (buffer ch) \<le> capacity ch \<and>
     (cpolicy ch \<noteq> Fixed \<longrightarrow> 0 < capacity ch \<and> live_puts fs ch = []) \<and>
     (live_puts fs ch \<noteq> [] \<longrightarrow> length (buffer ch) = capacity ch) \<and>
     (live_takes fs ch \<noteq> [] \<longrightarrow> buffer ch = []) \<and>
     (\<forall>p \<in> set (live_puts fs ch). \<forall>t \<in> set (live_takes fs ch). future_of (snd p) = future_of t) \<and>
     (closed ch \<longrightarrow> live_puts fs ch = [] \<and> live_takes fs ch = [])"

text \<open>Futures only go from pending to done.\<close>

definition one_shot :: "'v futs \<Rightarrow> 'v futs \<Rightarrow> bool" where
  "one_shot fs fs' \<longleftrightarrow> (\<forall>f. fs f \<noteq> Pending \<longrightarrow> fs' f = fs f)"

lemma one_shot_refl [simp, intro]: "one_shot fs fs"
  by (simp add: one_shot_def)

lemma one_shot_trans: "one_shot fs gs \<Longrightarrow> one_shot gs hs \<Longrightarrow> one_shot fs hs"
  unfolding one_shot_def by metis

lemma active_iff: "active fs w \<longleftrightarrow> fs (future_of w) = Pending"
  by (simp add: active_def split: fut.split)

lemma one_shot_active: "one_shot fs fs' \<Longrightarrow> active fs' w \<Longrightarrow> active fs w"
  unfolding one_shot_def active_iff by metis

lemma filter_sub: "(\<And>x. Q x \<Longrightarrow> P x) \<Longrightarrow> filter Q (filter P xs) = filter Q xs"
  by (metis (mono_tags, lifting) filter_cong filter_filter)

text \<open>What waits for less is still in order.\<close>

lemma chan_ok_one_shot:
  assumes "chan_ok fs ch" "one_shot fs fs'"
  shows "chan_ok fs' ch"
proof -
  have sub: "set (live_puts fs' ch) \<subseteq> set (live_puts fs ch)"
    "set (live_takes fs' ch) \<subseteq> set (live_takes fs ch)"
    using one_shot_active [OF assms(2)] by (auto simp: live_puts_def live_takes_def)
  then have "live_puts fs ch = [] \<Longrightarrow> live_puts fs' ch = []"
    "live_takes fs ch = [] \<Longrightarrow> live_takes fs' ch = []"
    by (metis list.set(1) set_empty2 subset_empty)+
  then show ?thesis using assms(1) sub unfolding chan_ok_def by (meson subsetD)
qed

lemma discard_live [simp]:
  "live_puts fs (discard_inactive fs ch) = live_puts fs ch"
  "live_takes fs (discard_inactive fs ch) = live_takes fs ch"
  by (simp_all add: live_puts_def live_takes_def discard_inactive_def)

lemma discard_fields [simp]:
  "puts (discard_inactive fs ch) = live_puts fs ch"
  "takes (discard_inactive fs ch) = live_takes fs ch"
  "buffer (discard_inactive fs ch) = buffer ch" "capacity (discard_inactive fs ch) = capacity ch"
  "cpolicy (discard_inactive fs ch) = cpolicy ch" "closed (discard_inactive fs ch) = closed ch"
  "cloop (discard_inactive fs ch) = cloop ch"
  by (simp_all add: live_puts_def live_takes_def discard_inactive_def)

lemma resolve_one_shot: "resolve w m fs = (fs', b) \<Longrightarrow> one_shot fs fs'"
  by (auto simp: resolve_def one_shot_def active_iff split: if_splits)

lemma resolve_all_one_shot: "one_shot fs (resolve_all m ws fs)"
proof (induction ws arbitrary: fs)
  case (Cons w ws)
  have "one_shot fs (fst (resolve w m fs))"
    using resolve_one_shot by (cases "resolve w m fs") auto
  then show ?case using Cons one_shot_trans by (fastforce simp: resolve_all_def)
qed (simp add: resolve_all_def)

lemma resolve_all_dead: "w \<in> set ws \<Longrightarrow> \<not> active (resolve_all m ws fs) w"
proof (induction ws arbitrary: fs)
  case (Cons x ws)
  show ?case
  proof (cases "w \<in> set ws")
    case True
    then show ?thesis using Cons.IH by (simp add: resolve_all_def)
  next
    case False
    then have "x = w" using Cons.prems by simp
    have "\<not> active (fst (resolve x m fs)) x" by (simp add: resolve_def active_iff)
    moreover have "one_shot (fst (resolve x m fs)) (resolve_all m (x # ws) fs)"
      using resolve_all_one_shot [of "fst (resolve x m fs)"] by (simp add: resolve_all_def)
    ultimately show ?thesis using one_shot_active \<open>x = w\<close> by blast
  qed
qed simp

text \<open>Resolving the waiters of a queue gives every pending future among them the message.\<close>

lemma resolve_all_eq:
  "resolve_all m ws fs f =
    (if fs f = Pending \<and> f \<in> future_of ` set ws
     then Resolved m (winner_of (hd (filter (\<lambda>w. future_of w = f) ws))) else fs f)"
  unfolding resolve_all_def
  by (induction ws arbitrary: fs) (auto simp: resolve_def active_iff)

lemma hand_over_one_shot: "hand_over m ws fs = (ws', fs', b) \<Longrightarrow> one_shot fs fs'"
proof (induction m ws fs arbitrary: ws' fs' b rule: hand_over.induct)
  case (2 m w ws fs)
  obtain fs1 c where r: "resolve w m fs = (fs1, c)" by (cases "resolve w m fs")
  then show ?case
    using 2 resolve_one_shot [OF r] one_shot_trans by (cases c) (auto, blast)
qed simp

lemma hand_over_active:
  "active fs w \<Longrightarrow>
     hand_over m (w # ws) fs = (ws, fs(future_of w := Resolved m (winner_of w)), True)"
  by (simp add: resolve_def)

lemma fill_loop_one_shot: "fill_loop cap ps buf fs = (ps', buf', fs') \<Longrightarrow> one_shot fs fs'"
proof (induction cap ps buf fs arbitrary: ps' buf' fs' rule: fill_loop.induct)
  case (2 cap v w ps buf fs)
  obtain fs1 c where r: "resolve w (MBool True) fs = (fs1, c)"
    by (cases "resolve w (MBool True) fs")
  then show ?case
    using 2 resolve_one_shot [OF r] one_shot_trans
    by (cases c) (auto split: if_splits, blast+)
qed simp

lemma fill_loop_buffer:
  "fill_loop cap ps buf fs = (ps', buf', fs') \<Longrightarrow> length buf \<le> cap \<Longrightarrow>
     length buf' \<le> cap \<and> (ps' \<noteq> [] \<longrightarrow> length buf' = cap) \<and> set ps' \<subseteq> set ps \<and>
     (ps = [] \<longrightarrow> buf' = buf)"
proof (induction cap ps buf fs arbitrary: ps' buf' fs' rule: fill_loop.induct)
  case (2 cap v w ps buf fs)
  obtain fs1 c where r: "resolve w (MBool True) fs = (fs1, c)"
    by (cases "resolve w (MBool True) fs")
  show ?case
  proof (cases "length buf < cap")
    case True
    then show ?thesis
      using 2(1) [OF True r [symmetric]] 2(2) [OF True r [symmetric]] 2(3,4) r by (cases c) auto
  next
    case False
    then show ?thesis using 2(3,4) by auto
  qed
qed simp

lemma take_from_puts_one_shot: "take_from_puts ps fs = (ps', fs', x) \<Longrightarrow> one_shot fs fs'"
proof (induction ps fs arbitrary: ps' fs' x rule: take_from_puts.induct)
  case (2 v w ps fs)
  obtain fs1 c where r: "resolve w (MBool True) fs = (fs1, c)"
    by (cases "resolve w (MBool True) fs")
  then show ?case
    using 2 resolve_one_shot [OF r] one_shot_trans by (cases c) (auto, blast)
qed simp

lemma take_from_puts_active:
  "active fs w \<Longrightarrow>
     take_from_puts ((v, w) # ps) fs =
       (ps, fs(future_of w := Resolved (MBool True) (winner_of w)), Some v)"
  by (simp add: resolve_def)


section \<open>The operations on a bound channel\<close>

definition bound :: "nat \<Rightarrow> 'v chan \<Rightarrow> bool" where
  "bound loop ch \<longleftrightarrow> cloop ch = None \<or> cloop ch = Some loop"

abbreviation bind_to :: "nat \<Rightarrow> 'v chan \<Rightarrow> 'v chan" where
  "bind_to loop ch \<equiv> ch\<lparr>cloop := Some loop\<rparr>"

lemma bind_loop_bound: "bound loop ch \<Longrightarrow> bind_loop loop ch = (bind_to loop ch, Inr ())"
  by (cases ch) (auto simp: bound_def bind_loop_def)

lemma bind_loop_cases:
  obtains (ok) "bound loop ch" "bind_loop loop ch = (bind_to loop ch, Inr ())"
    | (error) "\<not> bound loop ch" "bind_loop loop ch = (ch, Inl RuntimeError)"
  using bind_loop_bound that by (cases "bound loop ch")
    (auto simp: bound_def bind_loop_def split: option.splits)

lemma live_cloop [simp]:
  "live_puts fs (ch\<lparr>cloop := l\<rparr>) = live_puts fs ch"
  "live_takes fs (ch\<lparr>cloop := l\<rparr>) = live_takes fs ch"
  by (simp_all add: live_puts_def live_takes_def)

lemma chan_ok_cloop [simp]: "chan_ok fs (ch\<lparr>cloop := l\<rparr>) = chan_ok fs ch"
  by (simp add: chan_ok_def)

lemma chan_ok_discard [simp]: "chan_ok fs (discard_inactive fs ch) = chan_ok fs ch"
  by (simp add: chan_ok_def)

lemma live_takes_active: "t \<in> set (live_takes fs ch) \<Longrightarrow> active fs t"
  by (simp add: live_takes_def)

lemma live_puts_active: "p \<in> set (live_puts fs ch) \<Longrightarrow> active fs (snd p)"
  by (simp add: live_puts_def)

lemma live_of_fields:
  "live_puts fs (ch\<lparr>puts := ps\<rparr>) = filter (\<lambda>p. active fs (snd p)) ps"
  "live_puts fs (ch\<lparr>takes := ts\<rparr>) = live_puts fs ch"
  "live_puts fs (ch\<lparr>buffer := b\<rparr>) = live_puts fs ch"
  "live_puts fs (ch\<lparr>closed := c\<rparr>) = live_puts fs ch"
  "live_takes fs (ch\<lparr>takes := ts\<rparr>) = filter (active fs) ts"
  "live_takes fs (ch\<lparr>puts := ps\<rparr>) = live_takes fs ch"
  "live_takes fs (ch\<lparr>buffer := b\<rparr>) = live_takes fs ch"
  "live_takes fs (ch\<lparr>closed := c\<rparr>) = live_takes fs ch"
  by (simp_all add: live_puts_def live_takes_def)

text \<open>
  \<open>_try_put\<close> on an open channel: the longest-waiting live take gets the value; without one it
  is buffered, dropped, or blocked.
\<close>

lemma try_put_open:
  assumes "bound loop ch" "\<not> closed ch"
  shows "try_put loop (Some v) (ch, fs) =
    (let ch2 = discard_inactive fs (bind_to loop ch) in
     case live_takes fs ch of
       t # ts \<Rightarrow>
         ((ch2\<lparr>takes := ts\<rparr>, fs(future_of t := Resolved (MVal v) (winner_of t))), Inr (Some True))
     | [] \<Rightarrow>
         (if capacity ch = 0 then ((ch2, fs), Inr None)
          else if length (buffer ch) < capacity ch
          then ((ch2\<lparr>buffer := buffer ch @ [v]\<rparr>, fs), Inr (Some True))
          else case cpolicy ch of
                 Sliding \<Rightarrow> ((ch2\<lparr>buffer := tl (buffer ch) @ [v]\<rparr>, fs), Inr (Some True))
               | Dropping \<Rightarrow> ((ch2, fs), Inr (Some True))
               | Fixed \<Rightarrow> ((ch2, fs), Inr None)))"
proof (cases "live_takes fs ch")
  case Nil
  have "takes (discard_inactive fs (bind_to loop ch)) = []" using Nil by simp
  then have self: "(discard_inactive fs (bind_to loop ch))\<lparr>takes := []\<rparr> =
      discard_inactive fs (bind_to loop ch)" by simp
  show ?thesis
    using Nil assms self
    by (simp add: try_put_def bind_loop_bound validate_value_def Let_def split: policy.split)
next
  case (Cons t ts)
  then have "active fs t" by (intro live_takes_active [of t fs ch]) simp
  with Cons assms show ?thesis
    by (simp add: try_put_def bind_loop_bound validate_value_def Let_def hand_over_active
        del: hand_over.simps)
qed

lemma try_put_closed:
  "bound loop ch \<Longrightarrow> closed ch \<Longrightarrow>
     try_put loop (Some v) (ch, fs) = ((bind_to loop ch, fs), Inr (Some False))"
  by (simp add: try_put_def bind_loop_bound validate_value_def)

lemma try_put_error:
  "try_put loop None (ch, fs) =
     (if bound loop ch then ((bind_to loop ch, fs), Inl ValueError)
      else ((ch, fs), Inl RuntimeError))"
  "\<not> bound loop ch \<Longrightarrow> try_put loop v (ch, fs) = ((ch, fs), Inl RuntimeError)"
  by (rule bind_loop_cases [of loop ch]; simp add: try_put_def validate_value_def)+

definition put_blocked :: "nat option \<Rightarrow> 'v futs \<Rightarrow> 'v chan \<Rightarrow> bool" where
  "put_blocked sel fs ch \<longleftrightarrow>
     \<not> closed ch \<and> cpolicy ch = Fixed \<and> length (buffer ch) = capacity ch \<and>
     (\<forall>t \<in> set (live_takes fs ch). Some (future_of t) = sel)"

definition take_waits :: "nat option \<Rightarrow> 'v futs \<Rightarrow> 'v chan \<Rightarrow> bool" where
  "take_waits sel fs ch \<longleftrightarrow>
     \<not> closed ch \<and> buffer ch = [] \<and> (\<forall>p \<in> set (live_puts fs ch). Some (future_of (snd p)) = sel)"

lemma chan_ok_takes_tail:
  assumes "chan_ok fs ch" "live_takes fs ch = t # ts"
    "fs' = fs(future_of t := Resolved m c)"
  shows "chan_ok fs' (discard_inactive fs (ch\<lparr>cloop := l\<rparr>)\<lparr>takes := ts\<rparr>)"
proof -
  have os: "one_shot fs fs'"
    using assms live_takes_active [of t fs ch] by (auto simp: one_shot_def active_iff)
  have ok: "chan_ok fs' ch" by (rule chan_ok_one_shot [OF assms(1) os])
  have "live_puts fs' (discard_inactive fs (ch\<lparr>cloop := l\<rparr>)\<lparr>takes := ts\<rparr>) = live_puts fs' ch"
    using one_shot_active [OF os] by (auto simp: live_puts_def discard_inactive_def intro!: filter_cong)
  moreover have "set (live_takes fs' (discard_inactive fs (ch\<lparr>cloop := l\<rparr>)\<lparr>takes := ts\<rparr>)) \<subseteq>
      set (live_takes fs' ch)"
    using assms(2) by (auto simp: live_takes_def) (metis filter_is_subset list.set_intros(2) subsetD)+
  ultimately show ?thesis using ok unfolding chan_ok_def by auto
qed

definition same_view :: "'v futs \<Rightarrow> 'v chan \<Rightarrow> 'v chan \<Rightarrow> bool" where
  "same_view fs ch ch' \<longleftrightarrow>
     live_puts fs ch' = live_puts fs ch \<and> live_takes fs ch' = live_takes fs ch \<and>
     buffer ch' = buffer ch \<and> capacity ch' = capacity ch \<and> cpolicy ch' = cpolicy ch \<and>
     closed ch' = closed ch"

lemma same_view_refl [simp]: "same_view fs ch ch"
  by (simp add: same_view_def)

lemma same_view_trans: "same_view fs a b \<Longrightarrow> same_view fs b c \<Longrightarrow> same_view fs a c"
  by (simp add: same_view_def)

lemma try_put_ok:
  assumes "chan_ok fs ch" "try_put loop v (ch, fs) = ((ch', fs'), x)"
  shows "chan_ok fs' ch' \<and> one_shot fs fs' \<and>
    (x = Inr None \<longrightarrow> v \<noteq> None \<and> fs' = fs \<and> put_blocked None fs' ch' \<and> same_view fs ch ch')"
proof (cases "\<not> bound loop ch \<or> v = None \<or> closed ch")
  case True
  then show ?thesis
    using assms by (cases v; cases "bound loop ch")
      (auto simp: try_put_error try_put_closed split: if_splits)
next
  case False
  then obtain y where b: "bound loop ch" "v = Some y" "\<not> closed ch" by auto
  note eq = assms(2) [unfolded b(2) try_put_open [OF b(1,3)]]
  show ?thesis
  proof (cases "live_takes fs ch")
    case Nil
    then have "live_takes fs (discard_inactive fs (bind_to loop ch)) = []" by simp
    then show ?thesis
      using eq Nil assms(1) b
      by (auto simp: Let_def chan_ok_def put_blocked_def same_view_def live_of_fields
          split: if_splits policy.splits)
  next
    case (Cons t ts)
    have "one_shot fs (fs(future_of t := Resolved (MVal y) (winner_of t)))"
      using Cons live_takes_active [of t fs ch] by (auto simp: one_shot_def active_iff)
    then show ?thesis
      using eq Cons chan_ok_takes_tail [OF assms(1) Cons refl] by (auto simp: Let_def)
  qed
qed


lemma fill_buffer_ok:
  assumes "chan_ok fs ch" "buffer ch = v # rest" "fill_buffer (ch\<lparr>buffer := rest\<rparr>, fs) = (ch', fs')"
  shows "chan_ok fs' ch' \<and> one_shot fs fs' \<and> closed ch' = closed ch \<and> cpolicy ch' = cpolicy ch \<and>
    capacity ch' = capacity ch"
proof -
  obtain ps buf where f: "fill_loop (capacity ch) (live_puts fs ch) rest fs = (ps, buf, fs')"
    and ch': "ch' = discard_inactive fs (ch\<lparr>buffer := rest\<rparr>)\<lparr>puts := ps, buffer := buf\<rparr>"
    using assms(3) by (auto simp: fill_buffer_def live_of_fields Let_def split: prod.splits)
  have os: "one_shot fs fs'" by (rule fill_loop_one_shot [OF f])
  have len: "length rest \<le> capacity ch" using assms by (simp add: chan_ok_def)
  note fb = fill_loop_buffer [OF f len]
  have lt: "live_takes fs ch = []" using assms(1,2) unfolding chan_ok_def by auto
  then have "live_takes fs' ch' = []"
    by (simp add: ch' live_takes_def discard_inactive_def)
  moreover have "live_puts fs' ch' = filter (\<lambda>p. active fs' (snd p)) ps"
    by (simp add: ch' live_puts_def)
  moreover have "ps = []" if "live_puts fs ch = []" using fb that by auto
  moreover have "ps \<noteq> []" if "filter (\<lambda>p. active fs' (snd p)) ps \<noteq> []" using that by auto
  ultimately show ?thesis
    using fb os assms(1) unfolding chan_ok_def by (auto simp: ch')
qed

lemma chan_ok_puts_tail:
  assumes "chan_ok fs ch" "live_puts fs ch = (v, w) # ps" "buffer ch = []"
    "fs' = fs(future_of w := Resolved m c)"
  shows "chan_ok fs' (discard_inactive fs (ch\<lparr>cloop := l\<rparr>)\<lparr>puts := ps\<rparr>)"
proof -
  have os: "one_shot fs fs'"
    using assms live_puts_active [of "(v, w)" fs ch] by (auto simp: one_shot_def active_iff)
  have ok: "chan_ok fs' ch" by (rule chan_ok_one_shot [OF assms(1) os])
  let ?ch = "discard_inactive fs (ch\<lparr>cloop := l\<rparr>)\<lparr>puts := ps\<rparr>"
  have "live_takes fs' ?ch = live_takes fs' ch"
    using one_shot_active [OF os]
    by (auto simp: live_takes_def discard_inactive_def intro!: filter_cong)
  moreover have "set (live_puts fs' ?ch) \<subseteq> set (live_puts fs' ch)"
    using assms(2) by (auto simp: live_puts_def) (metis filter_is_subset list.set_intros(2) subsetD)+
  ultimately show ?thesis using ok unfolding chan_ok_def by auto
qed

text \<open>
  \<open>_try_take\<close>: the oldest buffered value, with waiting puts moved up; else the value of the
  longest-waiting live put; else nothing.
\<close>

lemma try_take_bound:
  assumes "bound loop ch"
  shows "try_take loop (ch, fs) =
    (let ch2 = discard_inactive fs (bind_to loop ch) in
     case buffer ch of
       v # rest \<Rightarrow> (fill_buffer (ch2\<lparr>buffer := rest\<rparr>, fs), Inr (Item v))
     | [] \<Rightarrow>
         (case live_puts fs ch of
            (v, w) # ps \<Rightarrow>
              ((ch2\<lparr>puts := ps\<rparr>, fs(future_of w := Resolved (MBool True) (winner_of w))),
               Inr (Item v))
          | [] \<Rightarrow> ((ch2, fs), Inr (if closed ch then Nil else NotReady))))"
proof (cases "live_puts fs ch")
  case Nil
  have "puts (discard_inactive fs (bind_to loop ch)) = []" using Nil by simp
  then have self: "(discard_inactive fs (bind_to loop ch))\<lparr>puts := []\<rparr> =
      discard_inactive fs (bind_to loop ch)" by simp
  show ?thesis
    using Nil assms self by (simp add: try_take_def bind_loop_bound Let_def split: list.split)
next
  case (Cons p ps)
  obtain v w where p: "p = (v, w)" by (cases p)
  have "active fs w" using Cons live_puts_active [of p fs ch] by (simp add: p)
  with Cons assms show ?thesis
    by (simp add: try_take_def bind_loop_bound Let_def p take_from_puts_active
        del: take_from_puts.simps split: list.split)
qed

lemma try_take_error:
  "\<not> bound loop ch \<Longrightarrow> try_take loop (ch, fs) = ((ch, fs), Inl RuntimeError)"
  by (rule bind_loop_cases [of loop ch]; simp add: try_take_def)

lemma try_take_ok:
  assumes "chan_ok fs ch" "try_take loop (ch, fs) = ((ch', fs'), x)"
  shows "chan_ok fs' ch' \<and> one_shot fs fs' \<and>
    (x = Inr NotReady \<longrightarrow> fs' = fs \<and> take_waits None fs' ch' \<and> same_view fs ch ch')"
proof (cases "bound loop ch")
  case False
  then show ?thesis using assms by (auto simp: try_take_error)
next
  case True
  note eq = assms(2) [unfolded try_take_bound [OF True]]
  show ?thesis
  proof (cases "buffer ch")
    case Nil
    show ?thesis
    proof (cases "live_puts fs ch")
      case Nil2: Nil
      have "live_puts fs (discard_inactive fs (bind_to loop ch)) = []" using Nil2 by simp
      then show ?thesis
        using eq Nil Nil2 assms(1) by (auto simp: Let_def take_waits_def same_view_def split: if_splits)
    next
      case (Cons p ps)
      obtain v w where p: "p = (v, w)" by (cases p)
      have "one_shot fs (fs(future_of w := Resolved (MBool True) (winner_of w)))"
        using Cons live_puts_active [of p fs ch] by (auto simp: p one_shot_def active_iff)
      moreover have "ch' = discard_inactive fs (bind_to loop ch)\<lparr>puts := ps\<rparr>"
        "fs' = fs(future_of w := Resolved (MBool True) (winner_of w))" "x = Inr (Item v)"
        using eq Nil Cons by (simp_all add: Let_def p)
      ultimately show ?thesis
        using chan_ok_puts_tail [OF assms(1) Cons [unfolded p] Nil refl] by simp
    qed
  next
    case (Cons v rest)
    have "chan_ok fs (discard_inactive fs (bind_to loop ch))" using assms(1) by simp
    moreover have "fill_buffer ((discard_inactive fs (bind_to loop ch))\<lparr>buffer := rest\<rparr>, fs) = (ch', fs')"
      and "x = Inr (Item v)"
      using eq Cons by (simp_all add: Let_def)
    ultimately show ?thesis 
      using fill_buffer_ok [of fs "discard_inactive fs (bind_to loop ch)" v rest ch' fs'] Cons
      by simp
  qed
qed

text \<open>Closing refuses every waiting put and, when nothing is buffered, ends every waiting take.\<close>

lemma close_open:
  assumes "bound loop ch" "\<not> closed ch"
  shows "close loop (ch, fs) =
    (let ch3 = discard_inactive fs ((bind_to loop ch)\<lparr>closed := True\<rparr>)\<lparr>puts := []\<rparr>;
         fs1 = resolve_all (MBool False) (map snd (live_puts fs ch)) fs
     in if buffer ch = []
        then ((ch3\<lparr>takes := []\<rparr>, resolve_all MNil (live_takes fs ch) fs1), Inr ())
        else ((ch3, fs1), Inr ()))"
  using assms by (simp add: close_def bind_loop_bound Let_def live_of_fields)

lemma close_other:
  "bound loop ch \<Longrightarrow> closed ch \<Longrightarrow> close loop (ch, fs) = ((bind_to loop ch, fs), Inr ())"
  "\<not> bound loop ch \<Longrightarrow> close loop (ch, fs) = ((ch, fs), Inl RuntimeError)"
  by (rule bind_loop_cases [of loop ch]; simp add: close_def)+

lemma close_ok:
  assumes "chan_ok fs ch" "close loop (ch, fs) = ((ch', fs'), x)"
  shows "chan_ok fs' ch' \<and> one_shot fs fs'"
proof (cases "bound loop ch \<and> \<not> closed ch")
  case True
  let ?fs1 = "resolve_all (MBool False) (map snd (live_puts fs ch)) fs"
  have os: "one_shot fs ?fs1" "one_shot ?fs1 (resolve_all MNil (live_takes fs ch) ?fs1)"
    by (rule resolve_all_one_shot)+
  note eq = assms(2) [unfolded close_open [OF conjunct1 [OF True] conjunct2 [OF True]]]
  show ?thesis
  proof (cases "buffer ch = []")
    case True
    then show ?thesis
      using eq os one_shot_trans [OF os] assms(1)
      by (auto simp: Let_def chan_ok_def live_puts_def live_takes_def)
  next
    case False
    then have "live_takes fs ch = []" using assms(1) unfolding chan_ok_def by auto
    then show ?thesis
      using eq os False assms(1)
      by (auto simp: Let_def chan_ok_def live_puts_def live_takes_def discard_inactive_def)
  qed
next
  case False
  then show ?thesis
    using assms by (cases "bound loop ch") (auto simp: close_other)
qed


section \<open>Waiting operations\<close>

lemma live_append:
  "active fs w \<Longrightarrow> live_puts fs (ch\<lparr>puts := puts ch @ [(v, w)]\<rparr>) = live_puts fs ch @ [(v, w)]"
  "active fs w \<Longrightarrow> live_takes fs (ch\<lparr>takes := takes ch @ [w]\<rparr>) = live_takes fs ch @ [w]"
  by (simp_all add: live_puts_def live_takes_def)

lemma pending_update: "fs f = Pending \<Longrightarrow> fs(f := Pending) = fs"
  by auto

lemma one_shot_pending: "one_shot fs fs' \<Longrightarrow> one_shot fs (fs'(f := Pending)) \<or> fs' f \<noteq> Pending"
  using pending_update by fastforce

lemma put_blocked_append:
  assumes "chan_ok fs ch" "put_blocked (Some s) fs ch \<or> put_blocked None fs ch"
    "active fs w" "future_of w = s"
  shows "chan_ok fs (ch\<lparr>puts := puts ch @ [(v, w)]\<rparr>)"
  using assms unfolding chan_ok_def put_blocked_def live_append(1) [OF assms(3)] live_of_fields(6)
  by auto

lemma take_waits_append:
  assumes "chan_ok fs ch" "take_waits (Some s) fs ch \<or> take_waits None fs ch"
    "active fs w" "future_of w = s"
  shows "chan_ok fs (ch\<lparr>takes := takes ch @ [w]\<rparr>)"
  using assms unfolding chan_ok_def take_waits_def live_append(2) [OF assms(3)] live_of_fields(2)
  by auto

lemma put_start_ok:
  assumes "chan_ok fs ch" "fs f = Pending" "put_start loop v f (ch, fs) = ((ch', fs'), x)"
  shows "chan_ok fs' ch' \<and> one_shot fs fs'"
proof -
  obtain ch1 fs1 y where t: "try_put loop v (ch, fs) = ((ch1, fs1), y)"
    by (metis surj_pair)
  note ok = try_put_ok [OF assms(1) t]
  show ?thesis
  proof (cases "y = Inr None")
    case True
    then have fs1: "fs1 = fs" and blocked: "put_blocked None fs ch1" and "v \<noteq> None"
      using ok by blast+
    have "active fs (FutureW f)" using assms(2) by (simp add: active_iff)
    then have "chan_ok fs (ch1\<lparr>puts := puts ch1 @ [(the v, FutureW f)]\<rparr>)"
      using ok fs1 blocked True by (intro put_blocked_append [of _ _ f]) auto
    then show ?thesis
      using assms(2,3) by (auto simp: put_start_def t True fs1 pending_update)
  next
    case False
    then show ?thesis
      using ok assms(3) by (auto simp: put_start_def t split: sum.splits option.splits)
  qed
qed

lemma take_start_ok:
  assumes "chan_ok fs ch" "fs f = Pending" "take_start loop f (ch, fs) = ((ch', fs'), x)"
  shows "chan_ok fs' ch' \<and> one_shot fs fs'"
proof -
  obtain ch1 fs1 y where t: "try_take loop (ch, fs) = ((ch1, fs1), y)"
    by (metis surj_pair)
  note ok = try_take_ok [OF assms(1) t]
  show ?thesis
  proof (cases "y = Inr NotReady")
    case True
    then have fs1: "fs1 = fs" and waits: "take_waits None fs ch1" using ok by blast+
    have "active fs (FutureW f)" using assms(2) by (simp add: active_iff)
    then have "chan_ok fs (ch1\<lparr>takes := takes ch1 @ [FutureW f]\<rparr>)"
      using ok fs1 waits True by (intro take_waits_append [of _ _ f]) auto
    then show ?thesis
      using assms(2,3) by (auto simp: take_start_def t True fs1 pending_update)
  next
    case False
    then show ?thesis
      using ok assms(3) by (auto simp: take_start_def t split: sum.splits taken.splits)
  qed
qed

lemma cancel_await_ok:
  assumes "chan_ok fs ch" "cancel_await f (ch, fs) = (ch', fs')"
  shows "chan_ok fs' ch' \<and> one_shot fs fs'"
proof -
  have os: "one_shot fs fs'" using assms(2)
    by (auto simp: cancel_await_def await_end_def one_shot_def split: if_splits)
  then show ?thesis
    using assms(2) chan_ok_one_shot [OF assms(1) os]
    by (auto simp: cancel_await_def await_end_def)
qed

section \<open>The world\<close>

definition world_ok :: "'v world \<Rightarrow> bool" where
  "world_ok w \<longleftrightarrow> (\<forall>c. chan_ok (wfuts w) (wchans w c))"

lemma on_chan_ok:
  assumes "world_ok w" "on_chan c f w = (w', x)"
    and "\<And>ch' fs' y. f (wchans w c, wfuts w) = ((ch', fs'), y) \<Longrightarrow>
           chan_ok fs' ch' \<and> one_shot (wfuts w) fs'"
  shows "world_ok w' \<and> one_shot (wfuts w) (wfuts w')"
proof -
  obtain ch' fs' y where f: "f (wchans w c, wfuts w) = ((ch', fs'), y)" by (metis surj_pair)
  then have w': "w' = w\<lparr>wchans := (wchans w)(c := ch'), wfuts := fs'\<rparr>"
    using assms(2) by (simp add: on_chan_def)
  show ?thesis
    using assms(1,3) f chan_ok_one_shot unfolding world_ok_def w' by fastforce
qed

text \<open>An operation that turns out not to be ready leaves the view of every channel alone.\<close>

definition same_world :: "'v world \<Rightarrow> 'v world \<Rightarrow> bool" where
  "same_world w w' \<longleftrightarrow>
     wfuts w' = wfuts w \<and> (\<forall>c. same_view (wfuts w) (wchans w c) (wchans w' c))"

lemma same_world_refl [simp]: "same_world w w"
  by (simp add: same_world_def)

lemma same_world_trans: "same_world a b \<Longrightarrow> same_world b c \<Longrightarrow> same_world a c"
  unfolding same_world_def by (metis same_view_trans)

fun op_waits :: "nat option \<Rightarrow> 'v world \<Rightarrow> nat \<times> 'v option \<Rightarrow> bool" where
  "op_waits sel w (c, None) = take_waits sel (wfuts w) (wchans w c)"
| "op_waits sel w (c, Some v) = put_blocked sel (wfuts w) (wchans w c)"

lemma op_waits_same: "same_world w w' \<Longrightarrow> op_waits sel w op = op_waits sel w' op"
  by (cases "(sel, w, op)" rule: op_waits.cases)
    (simp_all add: same_world_def same_view_def take_waits_def put_blocked_def)

lemma try_op_ok:
  assumes "world_ok w" "try_op loop op w = (w', x)"
  shows "world_ok w' \<and> one_shot (wfuts w) (wfuts w') \<and>
    (x = Inr None \<longrightarrow> same_world w w' \<and> op_waits None w' op)"
proof -
  obtain c val where op: "op = (c, val)" by (cases op)
  have cok: "chan_ok (wfuts w) (wchans w c)" using assms(1) by (simp add: world_ok_def)
  show ?thesis
  proof (cases val)
    case None
    obtain ch' fs' y where t: "try_take loop (wchans w c, wfuts w) = ((ch', fs'), y)"
      by (metis surj_pair)
    note ok = try_take_ok [OF cok t]
    have o: "on_chan c (try_take loop) w =
        (w\<lparr>wchans := (wchans w)(c := ch'), wfuts := fs'\<rparr>, y)"
      by (simp add: on_chan_def t)
    have "world_ok (w\<lparr>wchans := (wchans w)(c := ch'), wfuts := fs'\<rparr>) \<and> one_shot (wfuts w) fs'"
      using on_chan_ok [OF assms(1) o] try_take_ok [OF cok] by simp
    moreover have "x = Inr None \<longleftrightarrow> y = Inr NotReady" and "w' = w\<lparr>wchans := (wchans w)(c := ch'), wfuts := fs'\<rparr>"
      using assms(2) by (auto simp: try_op_def op None o rbind_def split: sum.splits taken.splits)
    ultimately show ?thesis using ok by (auto simp: op None same_world_def)
  next
    case (Some v)
    obtain ch' fs' y where t: "try_put loop (Some v) (wchans w c, wfuts w) = ((ch', fs'), y)"
      by (metis surj_pair)
    note ok = try_put_ok [OF cok t]
    have o: "on_chan c (try_put loop (Some v)) w =
        (w\<lparr>wchans := (wchans w)(c := ch'), wfuts := fs'\<rparr>, y)"
      by (simp add: on_chan_def t)
    have "world_ok (w\<lparr>wchans := (wchans w)(c := ch'), wfuts := fs'\<rparr>) \<and> one_shot (wfuts w) fs'"
      using on_chan_ok [OF assms(1) o] try_put_ok [OF cok] by simp
    moreover have "x = Inr None \<longleftrightarrow> y = Inr None" and "w' = w\<lparr>wchans := (wchans w)(c := ch'), wfuts := fs'\<rparr>"
      using assms(2) by (auto simp: try_op_def op Some o rbind_def split: sum.splits option.splits)
    ultimately show ?thesis using ok by (auto simp: op Some same_world_def)
  qed
qed

lemma try_ports_ok:
  assumes "world_ok w" "try_ports loop ops w = (w', x)"
  shows "world_ok w' \<and> one_shot (wfuts w) (wfuts w') \<and>
    (x = Inr None \<longrightarrow> same_world w w' \<and> (\<forall>op \<in> set ops. op_waits None w' op))"
  using assms
proof (induction ops arbitrary: w)
  case (Cons op ops)
  obtain w1 y where t: "try_op loop op w = (w1, y)" by (cases "try_op loop op w")
  note ok = try_op_ok [OF Cons.prems(1) t]
  show ?case
  proof (cases "y = Inr None")
    case True
    then have r: "try_ports loop ops w1 = (w', x)" using Cons.prems(2) by (simp add: t)
    have "op_waits None w' op" if "x = Inr None"
      using Cons.IH [OF _ r] ok True that op_waits_same by metis
    then show ?thesis
      using Cons.IH [OF _ r] ok True one_shot_trans same_world_trans by (metis set_ConsD)
  next
    case False
    then show ?thesis using Cons.prems(2) ok by (auto simp: t split: sum.splits option.splits)
  qed
qed auto

end
