(* ===== verification/ChannelCorrect.thy ===== *)
theory ChannelCorrect
  imports ChannelProps
begin

text \<open>
  The guarantees of the channels: the invariant every reachable world satisfies, one-shot
  futures, first-in first-out delivery, the three buffer policies, closing, and selections that
  act on at most one of their ports.
\<close>

section \<open>Selections keep the invariant\<close>

lemma on_chan_enqueue:
  "on_chan c (enqueue_put loop v sel c') w =
     (if bound loop (wchans w c)
      then (w\<lparr>wchans := (wchans w)(c := (bind_to loop (wchans w c))
              \<lparr>puts := puts (wchans w c) @ [(v, SelectW sel c')]\<rparr>)\<rparr>, Inr ())
      else (w, Inl RuntimeError))"
  "on_chan c (enqueue_take loop sel c') w =
     (if bound loop (wchans w c)
      then (w\<lparr>wchans := (wchans w)(c := (bind_to loop (wchans w c))
              \<lparr>takes := takes (wchans w c) @ [SelectW sel c']\<rparr>)\<rparr>, Inr ())
      else (w, Inl RuntimeError))"
  by (rule bind_loop_cases [of loop "wchans w c"];
      simp add: on_chan_def enqueue_put_def enqueue_take_def)+

lemma op_waits_None: "op_waits None w op \<Longrightarrow> op_waits (Some s) w op"
  by (cases "(Some s, w, op)" rule: op_waits.cases) (auto simp: take_waits_def put_blocked_def)

lemma enqueue_one:
  assumes "world_ok w" "wfuts w sel = Pending" "op_waits (Some sel) w (c, val)"
    and "on_chan c (case val of None \<Rightarrow> enqueue_take loop sel c
                              | Some v \<Rightarrow> enqueue_put loop v sel c) w = (w', x)"
  shows "world_ok w' \<and> wfuts w' = wfuts w \<and>
    (\<forall>op. op_waits (Some sel) w op \<longrightarrow> op_waits (Some sel) w' op)"
proof (cases "bound loop (wchans w c)")
  case True
  have act: "active (wfuts w) (SelectW sel c)" using assms(2) by (simp add: active_iff)
  have cok: "chan_ok (wfuts w) (wchans w c)" using assms(1) by (simp add: world_ok_def)
  show ?thesis
  proof (cases val)
    case None
    let ?ch = "(wchans w c)\<lparr>takes := takes (wchans w c) @ [SelectW sel c]\<rparr>"
    have w': "w' = w\<lparr>wchans := (wchans w)(c := ?ch\<lparr>cloop := Some loop\<rparr>)\<rparr>"
      using assms(4) True by (cases "wchans w c") (auto simp: None on_chan_enqueue)
    have "chan_ok (wfuts w) ?ch"
      using cok assms(3) act by (intro take_waits_append [of _ _ sel]) (auto simp: None)
    moreover have "op_waits (Some sel) w' op" if "op_waits (Some sel) w op" for op
      using that act
      by (cases "(Some sel, w, op)" rule: op_waits.cases)
        (auto simp: w' take_waits_def put_blocked_def live_append live_of_fields(2))
    ultimately show ?thesis using assms(1) by (auto simp: w' world_ok_def)
  next
    case (Some v)
    let ?ch = "(wchans w c)\<lparr>puts := puts (wchans w c) @ [(v, SelectW sel c)]\<rparr>"
    have w': "w' = w\<lparr>wchans := (wchans w)(c := ?ch\<lparr>cloop := Some loop\<rparr>)\<rparr>"
      using assms(4) True by (cases "wchans w c") (auto simp: Some on_chan_enqueue)
    have "chan_ok (wfuts w) ?ch"
      using cok assms(3) act by (intro put_blocked_append [of _ _ sel]) (auto simp: Some)
    moreover have "op_waits (Some sel) w' op" if "op_waits (Some sel) w op" for op
      using that act
      by (cases "(Some sel, w, op)" rule: op_waits.cases)
        (auto simp: w' take_waits_def put_blocked_def live_append live_of_fields(6))
    ultimately show ?thesis using assms(1) by (auto simp: w' world_ok_def)
  qed
next
  case False
  then show ?thesis using assms by (cases val) (auto simp: on_chan_enqueue)
qed

lemma enqueue_ports_ok:
  assumes "world_ok w" "wfuts w sel = Pending" "\<forall>op \<in> set ops. op_waits (Some sel) w op"
    and "enqueue_ports loop sel ops w = (w', x)"
  shows "world_ok w' \<and> wfuts w' = wfuts w"
  using assms
proof (induction ops arbitrary: w)
  case (Cons op ops)
  obtain c val where op: "op = (c, val)" by (cases op)
  obtain w1 y where e: "on_chan c (case val of None \<Rightarrow> enqueue_take loop sel c
      | Some v \<Rightarrow> enqueue_put loop v sel c) w = (w1, y)"
    by (metis surj_pair)
  have "op_waits (Some sel) w (c, val)" using Cons.prems(3) by (simp add: op)
  note one = enqueue_one [OF Cons.prems(1,2) this e]
  show ?case
  proof (cases y)
    case (Inl e')
    then show ?thesis using one Cons.prems(4) e by (auto simp: op)
  next
    case (Inr u)
    then have "enqueue_ports loop sel ops w1 = (w', x)" using Cons.prems(4) e by (simp add: op)
    then show ?thesis using Cons.IH [of w1] one Cons.prems(2,3) by auto
  qed
qed simp

lemma alts_start_ok:
  assumes "world_ok w" "wfuts w sel = Pending"
    and "alts_start loop shuffle ports priority dflt has_default sel w = (w', x)"
  shows "world_ok w' \<and> one_shot (wfuts w) (wfuts w')"
proof (cases "mapM parse_port ports")
  case (Inl e)
  then show ?thesis using assms by (simp add: alts_start_def)
next
  case (Inr ops)
  define ops1 where "ops1 = (if priority then ops else shuffle ops)"
  obtain w1 y where t: "try_ports loop ops1 w = (w1, y)" by (cases "try_ports loop ops1 w")
  note ok = try_ports_ok [OF assms(1) t]
  have final: "world_ok w3 \<and> one_shot (wfuts w) (wfuts w3)"
    if y: "y = Inr None" and e: "enqueue_ports loop sel ops1 (w1\<lparr>wfuts := (wfuts w1)(sel := Pending)\<rparr>) = (w3, z)"
    for w3 z
  proof -
    have same: "wfuts w1 = wfuts w" using ok y by (simp add: same_world_def)
    then have "w1\<lparr>wfuts := (wfuts w1)(sel := Pending)\<rparr> = w1"
      using assms(2) by (cases w1) (simp add: pending_update)
    moreover have "\<forall>op \<in> set ops1. op_waits (Some sel) w1 op" using ok y op_waits_None by blast
    ultimately show ?thesis
      using enqueue_ports_ok [of w1 sel ops1 loop w3 z] e ok same assms(2) by simp
  qed
  show ?thesis
    using assms(1,3) ok final
    by (auto simp: alts_start_def Inr ops1_def [symmetric] t Let_def
        split: if_splits sum.splits option.splits prod.splits)
qed

lemma alts_end_ok:
  assumes "world_ok w"
  shows "world_ok (alts_end cs w) \<and> wfuts (alts_end cs w) = wfuts w"
  using assms
proof (induction cs arbitrary: w)
  case (Cons c cs)
  let ?w = "fst (on_chan c (\<lambda>s. (await_end s, ())) w)"
  have "world_ok ?w \<and> wfuts ?w = wfuts w"
    using Cons.prems by (auto simp: on_chan_def await_end_def world_ok_def)
  then show ?case using Cons.IH [of ?w] by (simp add: alts_end_def)
qed (simp add: alts_end_def)

section \<open>Reachable worlds\<close>

text \<open>
  One step of the event loop: some coroutine performs an operation, starts waiting on a fresh
  future, leaves its await or is cancelled.
\<close>

inductive world_step :: "'v world \<Rightarrow> 'v world \<Rightarrow> bool" where
  offer_step: "on_chan c (offer loop v) w = (w', x) \<Longrightarrow> world_step w w'"
| poll_step: "on_chan c (poll loop) w = (w', x) \<Longrightarrow> world_step w w'"
| put_step: "wfuts w f = Pending \<Longrightarrow> on_chan c (put_start loop v f) w = (w', x) \<Longrightarrow> world_step w w'"
| take_step: "wfuts w f = Pending \<Longrightarrow> on_chan c (take_start loop f) w = (w', x) \<Longrightarrow> world_step w w'"
| close_step: "on_chan c (close loop) w = (w', x) \<Longrightarrow> world_step w w'"
| end_step: "on_chan c (\<lambda>s. (await_end s, ())) w = (w', x) \<Longrightarrow> world_step w w'"
| cancel_step: "on_chan c (\<lambda>s. (cancel_await f s, ())) w = (w', x) \<Longrightarrow> world_step w w'"
| alts_step: "wfuts w sel = Pending \<Longrightarrow>
    alts_start loop shuffle ports priority dflt has_default sel w = (w', y) \<Longrightarrow> world_step w w'"
| alts_end_step: "world_step w (alts_end cs w)"

lemma world_step_ok:
  "world_step w w' \<Longrightarrow> world_ok w \<Longrightarrow> world_ok w' \<and> one_shot (wfuts w) (wfuts w')"
proof (induction rule: world_step.induct)
  case (offer_step c loop v w w' x)
  have "chan_ok fs' ch' \<and> one_shot (wfuts w) fs'"
    if "offer loop v (wchans w c, wfuts w) = ((ch', fs'), y)" for ch' fs' y
    using that offer_step(2) try_put_ok [of "wfuts w" "wchans w c" loop v]
    by (auto simp: offer_def world_ok_def split: prod.splits)
  then show ?case by (rule on_chan_ok [OF offer_step(2,1)])
next
  case (poll_step c loop w w' x)
  have "chan_ok fs' ch' \<and> one_shot (wfuts w) fs'"
    if "poll loop (wchans w c, wfuts w) = ((ch', fs'), y)" for ch' fs' y
    using that poll_step(2) try_take_ok [of "wfuts w" "wchans w c" loop]
    by (auto simp: poll_def world_ok_def split: prod.splits)
  then show ?case by (rule on_chan_ok [OF poll_step(2,1)])
next
  case (put_step w f c loop v w' x)
  then have "chan_ok (wfuts w) (wchans w c)" by (simp add: world_ok_def)
  then show ?case by (rule on_chan_ok [OF put_step(3,2) put_start_ok [where fs = "wfuts w" and f = f, OF _ put_step(1)]])
next
  case (take_step w f c loop w' x)
  then have "chan_ok (wfuts w) (wchans w c)" by (simp add: world_ok_def)
  then show ?case by (rule on_chan_ok [OF take_step(3,2) take_start_ok [where fs = "wfuts w" and f = f, OF _ take_step(1)]])
next
  case (close_step c loop w w' x)
  then have "chan_ok (wfuts w) (wchans w c)" by (simp add: world_ok_def)
  then show ?case by (rule on_chan_ok [OF close_step(2,1) close_ok])
next
  case (end_step c w w' x)
  then have "chan_ok (wfuts w) (wchans w c)" by (simp add: world_ok_def)
  then show ?case by (intro on_chan_ok [OF end_step(2,1)]) (auto simp: await_end_def)
next
  case (cancel_step c f w w' x)
  then have cok: "chan_ok (wfuts w) (wchans w c)" by (simp add: world_ok_def)
  show ?case by (rule on_chan_ok [OF cancel_step(2,1)]) (use cancel_await_ok [OF cok] in auto)
next
  case (alts_step w sel loop shuffle ports priority dflt has_default w' y)
  then show ?case using alts_start_ok by blast
next
  case (alts_end_step w cs)
  then show ?case using alts_end_ok by fastforce
qed

text \<open>A world in which every channel has just been made, and nothing has been awaited.\<close>

definition fresh_world :: "'v world \<Rightarrow> bool" where
  "fresh_world w \<longleftrightarrow>
     wfuts w = (\<lambda>_. Pending) \<and>
     (\<forall>c. \<exists>cap pol. new_chan cap pol = Inr (wchans w c))"

lemma fresh_world_ok: "fresh_world w \<Longrightarrow> world_ok w"
proof -
  have "chan_ok fs ch" if "new_chan cap pol = Inr ch" for fs cap pol and ch :: "'a chan"
    using that
    by (auto simp: new_chan_def chan_ok_def live_puts_def live_takes_def
        split: if_splits option.splits)
  then show "fresh_world w \<Longrightarrow> world_ok w" unfolding fresh_world_def world_ok_def by metis
qed

lemma world_steps_ok:
  "world_step\<^sup>*\<^sup>* w w' \<Longrightarrow> world_ok w \<Longrightarrow> world_ok w' \<and> one_shot (wfuts w) (wfuts w')"
  by (induction rule: rtranclp_induct) (blast intro: one_shot_trans dest: world_step_ok)+


section \<open>Guarantees\<close>

text \<open>
  C3: the invariant of channels. However coroutines interleave their operations on any number of
  channels, in every world reached from freshly made channels, whether anything has completed yet
  or not, no buffer exceeds its capacity; a put waits only on an open channel of the fixed policy
  whose buffer is full; a take waits only on an open channel whose buffer is empty; a live put
  and a live take wait on the same channel only as two branches of one selection; and a future
  that is done keeps its result in every world reached from there.
\<close>

theorem channel_invariant:
  assumes "fresh_world w0" "world_step\<^sup>*\<^sup>* w0 w"
  shows "length (buffer (wchans w c)) \<le> capacity (wchans w c) \<and>
    (live_puts (wfuts w) (wchans w c) \<noteq> [] \<longrightarrow>
       \<not> closed (wchans w c) \<and> cpolicy (wchans w c) = Fixed \<and>
       length (buffer (wchans w c)) = capacity (wchans w c)) \<and>
    (live_takes (wfuts w) (wchans w c) \<noteq> [] \<longrightarrow>
       \<not> closed (wchans w c) \<and> buffer (wchans w c) = []) \<and>
    (\<forall>p \<in> set (live_puts (wfuts w) (wchans w c)). \<forall>t \<in> set (live_takes (wfuts w) (wchans w c)).
       future_of (snd p) = future_of t) \<and>
    (\<forall>w' f. world_step\<^sup>*\<^sup>* w w' \<and> wfuts w f \<noteq> Pending \<longrightarrow> wfuts w' f = wfuts w f)"
proof -
  have ok: "world_ok w" using world_steps_ok [OF assms(2)] fresh_world_ok [OF assms(1)] by simp
  then have "\<forall>w' f. world_step\<^sup>*\<^sup>* w w' \<and> wfuts w f \<noteq> Pending \<longrightarrow> wfuts w' f = wfuts w f"
    using world_steps_ok by (auto simp: one_shot_def)
  moreover have "chan_ok (wfuts w) (wchans w c)" using ok by (simp add: world_ok_def)
  ultimately show ?thesis unfolding chan_ok_def by metis
qed

section \<open>Delivery order\<close>

fun polls :: "nat \<Rightarrow> nat \<Rightarrow> 'v cst \<Rightarrow> 'v cst \<times> 'v option res list" where
  "polls loop 0 s = (s, [])"
| "polls loop (Suc n) s =
     (let (s1, x) = poll loop s; (s2, xs) = polls loop n s1 in (s2, x # xs))"

definition put_futures :: "'v cst \<Rightarrow> nat list" where
  "put_futures s = map (\<lambda>p. future_of (snd p)) (live_puts (snd s) (fst s))"

lemma fill_loop_content:
  assumes "\<forall>p \<in> set ps. active fs (snd p)" "distinct (map (\<lambda>p. future_of (snd p)) ps)"
    and "fill_loop cap ps buf fs = (ps', buf', fs')"
  shows "\<exists>k. ps' = drop k ps \<and> buf' = buf @ map fst (take k ps) \<and>
    (\<forall>p \<in> set ps'. active fs' (snd p))"
  using assms
proof (induction ps arbitrary: buf fs)
  case (Cons p ps)
  obtain v w where p: "p = (v, w)" by (cases p)
  show ?case
  proof (cases "length buf < cap")
    case True
    let ?fs = "fs(future_of w := Resolved (MBool True) (winner_of w))"
    have w: "active fs w" using Cons.prems(1) by (simp add: p)
    then have f: "fill_loop cap ps (buf @ [v]) ?fs = (ps', buf', fs')"
      using Cons.prems(3) True by (simp add: p resolve_def)
    have a: "\<forall>q \<in> set ps. active ?fs (snd q)"
      using Cons.prems(1,2) by (force simp: p active_iff)
    have d: "distinct (map (\<lambda>p. future_of (snd p)) ps)" using Cons.prems(2) by simp
    obtain k where "ps' = drop k ps \<and> buf' = (buf @ [v]) @ map fst (take k ps) \<and>
        (\<forall>q \<in> set ps'. active fs' (snd q))"
      using Cons.IH [OF a d f] by blast
    then show ?thesis by (intro exI [of _ "Suc k"]) (simp add: p)
  next
    case False
    then show ?thesis using Cons.prems by (intro exI [of _ 0]) (auto simp: p)
  qed
qed simp

lemma poll_content:
  assumes "chan_ok fs ch" "bound loop ch" "distinct (put_futures (ch, fs))"
    and "content (ch, fs) = v # vs"
  shows "\<exists>ch' fs'. poll loop (ch, fs) = ((ch', fs'), Inr (Some v)) \<and> content (ch', fs') = vs \<and>
    chan_ok fs' ch' \<and> bound loop ch' \<and> distinct (put_futures (ch', fs'))"
proof -
  obtain ch' fs' x where t: "try_take loop (ch, fs) = ((ch', fs'), x)" by (metis surj_pair)
  note ok = try_take_ok [OF assms(1) t]
  note eq = t [unfolded try_take_bound [OF assms(2)]]
  have act: "\<forall>p \<in> set (live_puts fs ch). active fs (snd p)" using live_puts_active by blast
  have dist: "distinct (map (\<lambda>p. future_of (snd p)) (live_puts fs ch))"
    using assms(3) by (simp add: put_futures_def)
  have "x = Inr (Item v) \<and> content (ch', fs') = vs \<and> bound loop ch' \<and>
      distinct (put_futures (ch', fs'))"
  proof (cases "buffer ch")
    case Nil
    then obtain w ps where lp: "live_puts fs ch = (v, w) # ps" and vs: "vs = map fst ps"
      using assms(4) by (auto simp: content_def)
    let ?fs = "fs(future_of w := Resolved (MBool True) (winner_of w))"
    have e: "ch' = discard_inactive fs (bind_to loop ch)\<lparr>puts := ps\<rparr>" "fs' = ?fs" "x = Inr (Item v)"
      using eq Nil lp by (simp_all add: Let_def)
    have "filter (\<lambda>p. active ?fs (snd p)) ps = ps"
      using act dist lp by (force simp: filter_id_conv active_iff)
    then have "live_puts fs' ch' = ps" by (simp add: e live_of_fields)
    then show ?thesis
      using dist lp vs Nil by (simp add: e(1,3) content_def put_futures_def bound_def)
  next
    case (Cons b rest)
    then have b: "b = v" "vs = rest @ map fst (live_puts fs ch)"
      using assms(4) by (auto simp: content_def)
    obtain ps buf where f: "fill_loop (capacity ch) (live_puts fs ch) rest fs = (ps, buf, fs')"
      and ch': "ch' = discard_inactive fs (discard_inactive fs (bind_to loop ch)\<lparr>buffer := rest\<rparr>)
                        \<lparr>puts := ps, buffer := buf\<rparr>"
      and x: "x = Inr (Item v)"
      using eq Cons b by (auto simp: fill_buffer_def live_of_fields Let_def split: prod.splits)
    obtain k where k: "ps = drop k (live_puts fs ch)" "buf = rest @ map fst (take k (live_puts fs ch))"
      "\<forall>p \<in> set ps. active fs' (snd p)"
      using fill_loop_content [OF act dist f] by blast
    have lp: "live_puts fs' ch' = ps" using k(3) by (simp add: ch' live_puts_def filter_id_conv)
    have "map fst (take k (live_puts fs ch)) @ map fst (drop k (live_puts fs ch)) =
        map fst (live_puts fs ch)"
      by (metis append_take_drop_id map_append)
    then have "content (ch', fs') = vs"
      by (simp add: content_def lp b(2)) (simp add: ch' k(1,2))
    moreover have "distinct (put_futures (ch', fs'))"
      using dist by (simp add: put_futures_def lp k(1) drop_map [symmetric])
    ultimately show ?thesis by (simp add: x ch' bound_def)
  qed
  with ok show ?thesis by (auto simp: poll_def t)
qed

lemma polls_content:
  assumes "chan_ok (snd s) (fst s)" "bound loop (fst s)" "distinct (put_futures s)"
  shows "snd (polls loop (length (content s)) s) = map (\<lambda>v. Inr (Some v)) (content s)"
  using assms
proof (induction "content s" arbitrary: s)
  case (Cons v vs)
  obtain ch fs where s: "s = (ch, fs)" by (cases s)
  obtain ch' fs' where p: "poll loop (ch, fs) = ((ch', fs'), Inr (Some v))"
    "content (ch', fs') = vs" "chan_ok fs' ch'" "bound loop ch'"
    "distinct (put_futures (ch', fs'))"
    using poll_content [of fs ch loop v vs] Cons.prems Cons.hyps(2) by (auto simp: s)
  have "snd (polls loop (length vs) (ch', fs')) = map (\<lambda>v. Inr (Some v)) vs"
    using Cons.hyps(1) [of "(ch', fs')"] p by simp
  then show ?case
    using Cons.hyps(2) [symmetric] p(1) by (simp add: s split_def Let_def)
qed (metis list.size(3) list.map(1) polls.simps(1) snd_conv)

text \<open>Puts that are each started, waiting or not, before any take, with what each returned.\<close>

fun start_puts :: "nat \<Rightarrow> ('v \<times> nat) list \<Rightarrow> 'v cst \<Rightarrow> 'v cst \<times> bool started res list" where
  "start_puts loop [] s = (s, [])"
| "start_puts loop ((v, f) # ps) s =
     (let (s1, x) = put_start loop (Some v) f s; (s2, xs) = start_puts loop ps s1 in (s2, x # xs))"

text \<open>
  A channel of capacity \<open>n\<close> on which the puts \<open>ps\<close> were started and the first \<open>k\<close> values taken:
  the next \<open>n\<close> values are buffered, the puts after them wait, and of the puts that had to wait
  the first \<open>k\<close> are resolved.
\<close>

definition fifo_state :: "nat \<Rightarrow> nat \<Rightarrow> ('v \<times> nat) list \<Rightarrow> nat \<Rightarrow> 'v cst" where
  "fifo_state loop n ps k =
     (\<lparr>capacity = n, cpolicy = Fixed, closed = False, cloop = Some loop,
       buffer = map fst (take n (drop k ps)),
       puts = map (apsnd FutureW) (drop n (drop k ps)), takes = []\<rparr>,
      \<lambda>f. if f \<in> set (map snd (take k (drop n ps))) then Resolved (MBool True) None else Pending)"

lemma fifo_put_start:
  assumes "f \<notin> set (map snd ps)"
  shows "put_start loop (Some v) f (fifo_state loop n ps 0) =
    (fifo_state loop n (ps @ [(v, f)]) 0,
     Inr (if length ps < n then Finished True else Awaiting f))"
proof -
  have "filter (\<lambda>p. active (\<lambda>_. Pending) (snd p)) ps = ps" for ps :: "('a \<times> waiter) list"
    by (simp add: active_iff)
  then show ?thesis
    by (auto simp: put_start_def try_put_def fifo_state_def bind_loop_def validate_value_def
        discard_inactive_def Let_def)
qed

lemma fifo_puts_start:
  assumes "distinct (map snd (qs @ ps))"
  shows "start_puts loop ps (fifo_state loop n qs 0) =
    (fifo_state loop n (qs @ ps) 0,
     map (\<lambda>_. Inr (Finished True)) (take (n - length qs) ps) @
     map (\<lambda>p. Inr (Awaiting (snd p))) (drop (n - length qs) ps))"
  using assms
proof (induction ps arbitrary: qs)
  case (Cons p ps)
  obtain v f where p: "p = (v, f)" by (cases p)
  have "put_start loop (Some v) f (fifo_state loop n qs 0) =
      (fifo_state loop n (qs @ [p]) 0, Inr (if length qs < n then Finished True else Awaiting f))"
    using Cons.prems by (simp add: p fifo_put_start)
  moreover have "start_puts loop ps (fifo_state loop n (qs @ [p]) 0) =
      (fifo_state loop n (qs @ p # ps) 0,
       map (\<lambda>_. Inr (Finished True)) (take (n - Suc (length qs)) ps) @
       map (\<lambda>p. Inr (Awaiting (snd p))) (drop (n - Suc (length qs)) ps))"
    using Cons.IH [of "qs @ [p]"] Cons.prems by simp
  ultimately show ?case
    by (cases "n - length qs") (auto simp: p Let_def Suc_diff_Suc [symmetric] diff_Suc split: nat.splits)
qed simp

lemma fifo_active:
  assumes "distinct (map snd ps)" "p \<in> set (drop k (drop n ps))"
  shows "active (snd (fifo_state loop n ps k)) (FutureW (snd p))"
proof -
  have "distinct (map snd (take k (drop n ps)) @ map snd (drop k (drop n ps)))"
    using assms(1) by (metis append_take_drop_id distinct_drop drop_map map_append)
  then show ?thesis using assms(2) by (force simp: active_iff fifo_state_def)
qed

lemma fifo_discard:
  assumes "distinct (map snd ps)"
  shows "discard_inactive (snd (fifo_state loop n ps k)) (fst (fifo_state loop n ps k)) =
    fst (fifo_state loop n ps k)"
proof -
  have "active (snd (fifo_state loop n ps k)) (snd q)"
    if "q \<in> set (puts (fst (fifo_state loop n ps k)))" for q
    using that fifo_active [OF assms, of _ k n loop]
    by (auto simp: fifo_state_def add.commute)
  then have "filter (\<lambda>q. active (snd (fifo_state loop n ps k)) (snd q))
      (puts (fst (fifo_state loop n ps k))) = puts (fst (fifo_state loop n ps k))"
    by simp
  moreover have "takes (fst (fifo_state loop n ps k)) = []" by (simp add: fifo_state_def)
  ultimately show ?thesis by (simp add: discard_inactive_def)
qed

lemma fifo_poll:
  assumes "distinct (map snd ps)" "k < length ps"
  shows "poll loop (fifo_state loop n ps k) =
    (fifo_state loop n ps (Suc k), Inr (Some (fst (ps ! k))))"
proof -
  obtain ch fs where s: "fifo_state loop n ps k = (ch, fs)" by fastforce
  then have bind: "bind_loop loop ch = (ch, Inr ())" by (auto simp: bind_loop_def fifo_state_def)
  have disc: "discard_inactive fs ch = ch" using fifo_discard [OF assms(1), of loop n k] by (simp add: s)
  have parts: "ch = fst (fifo_state loop n ps k)" "fs = snd (fifo_state loop n ps k)"
    by (simp_all add: s)
  have d: "drop k ps = ps ! k # drop (Suc k) ps" using assms(2) by (simp add: Cons_nth_drop_Suc)
  show ?thesis
  proof (cases n)
    case 0
    obtain v f where p: "ps ! k = (v, f)" by fastforce
    have act: "active fs (FutureW f)"
      unfolding parts
      using fifo_active [OF assms(1), of "ps ! k" k n loop] by (simp add: 0 d p)
    have puts: "puts ch = (v, FutureW f) # map (apsnd FutureW) (drop (Suc k) ps)" "buffer ch = []"
      by (simp_all add: parts fifo_state_def 0 d p)
    have "take (Suc k) ps = take k ps @ [(v, f)]"
      using assms(2) by (simp add: take_Suc_conv_app_nth p)
    then have "fs(f := Resolved (MBool True) None) = snd (fifo_state loop n ps (Suc k))"
      "ch\<lparr>puts := map (apsnd FutureW) (drop (Suc k) ps)\<rparr> = fst (fifo_state loop n ps (Suc k))"
      by (auto simp: parts fifo_state_def 0 fun_eq_iff)
    then show ?thesis
      unfolding poll_def try_take_def s Let_def prod.case bind sum.case disc puts list.case
        take_from_puts_active [OF act]
      by (simp add: p)
  next
    case (Suc m)
    have buf: "buffer ch = fst (ps ! k) # map fst (take m (drop (Suc k) ps))"
      by (simp add: parts fifo_state_def Suc d)
    let ?ch1 = "ch\<lparr>buffer := map fst (take m (drop (Suc k) ps))\<rparr>"
    have disc1: "discard_inactive fs ?ch1 = ?ch1"
      using disc by (cases ch) (simp add: discard_inactive_def)
    have nd: "drop n (drop k ps) = drop m (drop (Suc k) ps)" by (simp add: Suc add.commute)
    have fill: "fill_loop n (puts ch) (map fst (take m (drop (Suc k) ps))) fs =
      (puts (fst (fifo_state loop n ps (Suc k))), buffer (fst (fifo_state loop n ps (Suc k))),
       snd (fifo_state loop n ps (Suc k)))"
    proof (cases "drop m (drop (Suc k) ps)")
      case Nil
      then have "length ps \<le> n + k" by (simp add: Suc)
      then show ?thesis
        using Nil nd by (simp add: parts fifo_state_def Suc)
    next
      case (Cons p qs)
      then have len: "m < length (drop (Suc k) ps)"
        by (metis drop_all list.distinct(1) not_le)
      have p: "drop (Suc k) ps ! m = p" using Cons hd_drop_conv_nth [OF len] by simp
      have qs: "drop (Suc m) (drop (Suc k) ps) = qs"
        using Cons by (metis drop_Suc list.sel(3) tl_drop)
      obtain v f where vf: "p = (v, f)" by fastforce
      let ?buf = "map fst (take m (drop (Suc k) ps))"
      have "take (Suc m) (drop (Suc k) ps) = take m (drop (Suc k) ps) @ [p]"
        using take_Suc_conv_app_nth [OF len] p by simp
      then have buf': "buffer (fst (fifo_state loop n ps (Suc k))) = ?buf @ [v]"
        by (simp add: fifo_state_def Suc vf)
      have puts': "puts (fst (fifo_state loop n ps (Suc k))) = map (apsnd FutureW) qs"
        using qs by (simp add: fifo_state_def Suc)
      have "take (Suc k) (drop n ps) = take k (drop n ps) @ [p]"
        using len p by (simp add: Suc take_Suc_conv_app_nth add.commute)
      then have futs': "snd (fifo_state loop n ps (Suc k)) = fs(f := Resolved (MBool True) None)"
        by (auto simp: parts fifo_state_def vf fun_eq_iff)
      have "active fs (FutureW (snd p))"
        unfolding parts by (rule fifo_active [OF assms(1)]) (use Cons nd in \<open>simp add: add.commute\<close>)
      moreover have "puts ch = (v, FutureW f) # map (apsnd FutureW) qs"
        unfolding parts using nd Cons by (simp add: fifo_state_def vf)
      moreover have "length ?buf = m" using len by simp
      ultimately show ?thesis
        unfolding buf' puts' futs' by (cases qs) (auto simp: Suc resolve_def vf)
    qed
    have "fill_buffer (?ch1, fs) = fifo_state loop n ps (Suc k)"
      unfolding fill_buffer_def Let_def prod.case disc1
      using fill by (simp add: parts fifo_state_def)
    then show ?thesis
      unfolding poll_def try_take_def s Let_def prod.case bind sum.case disc buf by simp
  qed
qed

lemma fifo_polls:
  assumes "distinct (map snd ps)" "j + k \<le> length ps"
  shows "polls loop k (fifo_state loop n ps j) =
    (fifo_state loop n ps (j + k), map (\<lambda>p. Inr (Some (fst p))) (take k (drop j ps)))"
  using assms(2)
proof (induction k arbitrary: j)
  case (Suc k)
  then have "drop j ps = ps ! j # drop (Suc j) ps" by (simp add: Cons_nth_drop_Suc)
  then show ?case
    using Suc.IH [of "Suc j"] Suc.prems by (simp add: fifo_poll [OF assms(1)] Let_def)
qed simp

lemma start_puts_new:
  assumes "new_chan cap (Some Fixed) = Inr ch" "ps \<noteq> []"
  shows "start_puts loop ps (ch, \<lambda>_. Pending) = start_puts loop ps (fifo_state loop (nat cap) [] 0)"
proof -
  have "put_start loop (Some v) f (ch, \<lambda>_. Pending) =
      put_start loop (Some v) f (fifo_state loop (nat cap) [] 0)" for v f
    using assms(1)
    by (auto simp: new_chan_def fifo_state_def put_start_def try_put_def bind_loop_def Let_def
        validate_value_def discard_inactive_def split: if_splits)
  then show ?thesis using assms(2) by (cases ps) auto
qed

text \<open>
  C6: delivery is first in, first out, and puts complete in step with the takes. When coroutines
  put values on a new channel of capacity \<open>n\<close> and the fixed policy, the first \<open>n\<close> puts return True
  at once and each later one awaits its own future. Any number \<open>k\<close> of takes that follow (no more
  than there are values) receive the first \<open>k\<close> values in the order the puts were made, none lost
  and none duplicated; by then the first \<open>k\<close> of the waiting puts have been resolved with True and
  the others still wait, so that the takes of all values complete every put.
\<close>

theorem channel_fifo:
  assumes "new_chan cap (Some Fixed) = Inr ch" "distinct (map snd ps)" "k \<le> length ps"
    and "start_puts loop ps (ch, \<lambda>_. Pending) = (s, started)" and "polls loop k s = (s', received)"
  shows "started = map (\<lambda>_. Inr (Finished True)) (take (nat cap) ps) @
      map (\<lambda>p. Inr (Awaiting (snd p))) (drop (nat cap) ps) \<and>
    received = map (\<lambda>p. Inr (Some (fst p))) (take k ps) \<and>
    (\<forall>p \<in> set (take k (drop (nat cap) ps)). snd s' (snd p) = Resolved (MBool True) None) \<and>
    (\<forall>p \<in> set (drop k (drop (nat cap) ps)). snd s' (snd p) = Pending)"
proof (cases "ps = []")
  case True
  then show ?thesis using assms(3,4,5) by simp
next
  case False
  note start = assms(4) [unfolded start_puts_new [OF assms(1) False]]
  have s: "s = fifo_state loop (nat cap) ps 0" "started =
      map (\<lambda>_. Inr (Finished True)) (take (nat cap) ps) @
      map (\<lambda>p. Inr (Awaiting (snd p))) (drop (nat cap) ps)"
    using start fifo_puts_start [of "[]" ps loop "nat cap"] assms(2) by simp_all
  have "s' = fifo_state loop (nat cap) ps k" "received = map (\<lambda>p. Inr (Some (fst p))) (take k ps)"
    using assms(3,5) fifo_polls [OF assms(2), of 0 k loop "nat cap"] by (simp_all add: s(1))
  then show ?thesis
    using fifo_active [OF assms(2), of _ k "nat cap" loop]
    by (auto simp: s(2) active_iff) (auto simp: fifo_state_def intro: rev_image_eqI)
qed


section \<open>Buffer policies\<close>

fun offers :: "nat \<Rightarrow> 'v list \<Rightarrow> 'v cst \<Rightarrow> 'v cst \<times> bool res list" where
  "offers loop [] s = (s, [])"
| "offers loop (v # vs) s =
     (let (s1, x) = offer loop (Some v) s; (s2, xs) = offers loop vs s1 in (s2, x # xs))"

text \<open>What a buffer of capacity \<open>n\<close> keeps of the values offered to it.\<close>

fun kept :: "policy \<Rightarrow> nat \<Rightarrow> 'v list \<Rightarrow> 'v list" where
  "kept Sliding n vs = drop (length vs - n) vs"
| "kept pol n vs = take n vs"

definition idle_chan :: "nat \<Rightarrow> policy \<Rightarrow> nat \<Rightarrow> 'v list \<Rightarrow> 'v chan \<Rightarrow> bool" where
  "idle_chan loop pol n us ch \<longleftrightarrow>
     bound loop ch \<and> \<not> closed ch \<and> puts ch = [] \<and> takes ch = [] \<and> capacity ch = n \<and>
     cpolicy ch = pol \<and> buffer ch = kept pol n us"

lemma offer_idle:
  assumes "idle_chan loop pol n us ch" "0 < n"
  shows "\<exists>ch'. offer loop (Some v) (ch, fs) = ((ch', fs), Inr (pol \<noteq> Fixed \<or> length us < n)) \<and>
    idle_chan loop pol n (us @ [v]) ch'"
proof -
  have lt: "live_takes fs ch = []" and lp: "live_puts fs ch = []"
    using assms(1) by (simp_all add: idle_chan_def live_takes_def live_puts_def)
  have len: "length (kept pol n us) < n \<longleftrightarrow> length us < n"
    using assms(2) by (cases pol) auto
  have tl: "tl (drop (length us - n) us) = drop (Suc (length us) - n) us" if "n \<le> length us"
    using that assms(2) by (simp add: tl_drop drop_Suc [symmetric] Suc_diff_le)
  show ?thesis
    using assms lt lp len
    by (cases pol)
      (auto simp: offer_def try_put_open idle_chan_def Let_def bound_def tl not_less
        less_imp_le_nat)
qed

lemma offers_idle:
  assumes "idle_chan loop pol n us ch" "0 < n"
  shows "\<exists>ch'. offers loop vs (ch, fs) =
      ((ch', fs), map (\<lambda>i. Inr (pol \<noteq> Fixed \<or> i < n)) [length us..<length us + length vs]) \<and>
    idle_chan loop pol n (us @ vs) ch'"
  using assms(1)
proof (induction vs arbitrary: us ch)
  case (Cons v vs)
  obtain ch1 where o: "offer loop (Some v) (ch, fs) = ((ch1, fs), Inr (pol \<noteq> Fixed \<or> length us < n))"
    "idle_chan loop pol n (us @ [v]) ch1"
    using offer_idle [OF Cons.prems assms(2)] by blast
  have u: "[length us..<length us + length (v # vs)] =
      length us # [length (us @ [v])..<length (us @ [v]) + length vs]"
    by (simp add: upt_conv_Cons del: upt_Suc)
  from Cons.IH [OF o(2)] show ?case
    unfolding u by (auto simp: o(1) Let_def simp del: upt_Suc)
qed simp

text \<open>
  The three policies. Of the values offered to a new channel of capacity \<open>n > 0\<close> that nobody
  takes from, a fixed buffer keeps the first \<open>n\<close> and refuses the rest, a dropping buffer keeps
  the first \<open>n\<close> and says that it accepted all, a sliding buffer keeps the last \<open>n\<close>; and the
  polls that follow receive exactly the values kept, in order.
\<close>

theorem buffer_policies:
  assumes "new_chan cap (Some pol) = Inr ch" "0 < cap"
  shows "snd (offers loop vs (ch, fs)) =
      map (\<lambda>i. Inr (pol \<noteq> Fixed \<or> i < nat cap)) [0..<length vs] \<and>
    buffer (fst (fst (offers loop vs (ch, fs)))) = kept pol (nat cap) vs \<and>
    snd (polls loop (length (kept pol (nat cap) vs)) (fst (offers loop vs (ch, fs)))) =
      map (\<lambda>v. Inr (Some v)) (kept pol (nat cap) vs)"
proof -
  have "idle_chan loop pol (nat cap) [] ch"
    using assms by (cases pol)
      (auto simp: idle_chan_def new_chan_def bound_def split: if_splits)
  then obtain ch' where o: "offers loop vs (ch, fs) =
      ((ch', fs), map (\<lambda>i. Inr (pol \<noteq> Fixed \<or> i < nat cap)) [0..<length vs])"
    and idle: "idle_chan loop pol (nat cap) vs ch'"
    using offers_idle [of loop pol "nat cap" "[]" ch vs fs] assms(2) by auto
  have "length (kept pol (nat cap) vs) \<le> nat cap" by (cases pol) auto
  then have "chan_ok fs ch'" "content (ch', fs) = kept pol (nat cap) vs"
    using idle assms(2)
    by (auto simp: chan_ok_def idle_chan_def content_def live_puts_def live_takes_def)
  moreover have "put_futures (ch', fs) = []"
    using idle by (simp add: put_futures_def idle_chan_def live_puts_def)
  ultimately show ?thesis
    using polls_content [of "(ch', fs)" loop] idle by (simp add: o idle_chan_def)
qed

section \<open>Waiting takes\<close>

fun start_takes :: "nat \<Rightarrow> nat list \<Rightarrow> 'v cst \<Rightarrow> 'v cst" where
  "start_takes loop [] s = s"
| "start_takes loop (f # qs) s = start_takes loop qs (fst (take_start loop f s))"

lemma start_takes_empty:
  assumes "bound loop ch" "\<not> closed ch" "buffer ch = []" "puts ch = []"
    and "takes ch = map FutureW us" "\<forall>f \<in> set (us @ qs). fs f = Pending"
  shows "\<exists>ch'. start_takes loop qs (ch, fs) = (ch', fs) \<and> bound loop ch' \<and> \<not> closed ch' \<and>
    buffer ch' = [] \<and> puts ch' = [] \<and> takes ch' = map FutureW (us @ qs) \<and>
    capacity ch' = capacity ch \<and> cpolicy ch' = cpolicy ch"
  using assms
proof (induction qs arbitrary: us ch)
  case (Cons f qs)
  have lp: "live_puts fs ch = []" using Cons.prems(4) by (simp add: live_puts_def)
  have lt: "live_takes fs ch = takes ch"
    using Cons.prems(5,6) by (auto simp: live_takes_def active_iff filter_id_conv)
  have d: "discard_inactive fs (bind_to loop ch) = bind_to loop ch"
    using Cons.prems(4) lt by (simp add: discard_inactive_def live_takes_def)
  have "fs f = Pending" using Cons.prems(6) by simp
  then have t: "fst (take_start loop f (ch, fs)) =
      ((bind_to loop ch)\<lparr>takes := takes ch @ [FutureW f]\<rparr>, fs)"
    using Cons.prems lp d
    by (simp add: take_start_def try_take_bound Let_def pending_update)
  show ?case
    using Cons.IH [of "(bind_to loop ch)\<lparr>takes := takes ch @ [FutureW f]\<rparr>" "us @ [f]"]
      Cons.prems by (simp add: t bound_def)
qed auto

lemma offers_waiting:
  assumes "bound loop ch" "\<not> closed ch" "takes ch = map FutureW qs" "distinct qs"
    and "\<forall>f \<in> set qs. fs f = Pending" "length vs \<le> length qs"
  shows "\<exists>ch' fs'. offers loop vs (ch, fs) = ((ch', fs'), map (\<lambda>_. Inr True) vs) \<and>
    buffer ch' = buffer ch \<and>
    (\<forall>i < length vs. fs' (qs ! i) = Resolved (MVal (vs ! i)) None) \<and>
    (\<forall>f. f \<notin> set (take (length vs) qs) \<longrightarrow> fs' f = fs f)"
  using assms
proof (induction vs arbitrary: ch fs qs)
  case (Cons v vs)
  then obtain f rs where q: "qs = f # rs" by (cases qs) auto
  let ?fs = "fs(f := Resolved (MVal v) None)"
  have lt: "live_takes fs ch = takes ch"
    using Cons.prems(3,5) by (auto simp: live_takes_def active_iff filter_id_conv)
  obtain ch1 where o: "offer loop (Some v) (ch, fs) = ((ch1, ?fs), Inr True)"
    and ch1: "bound loop ch1" "\<not> closed ch1" "takes ch1 = map FutureW rs" "buffer ch1 = buffer ch"
    using Cons.prems lt by (auto simp: offer_def try_put_open Let_def q bound_def)
  have f: "f \<notin> set rs" "distinct rs" "\<forall>g \<in> set rs. ?fs g = Pending" "length vs \<le> length rs"
    using Cons.prems by (auto simp: q)
  obtain ch' fs' where r: "offers loop vs (ch1, ?fs) = ((ch', fs'), map (\<lambda>_. Inr True) vs)"
    "buffer ch' = buffer ch1" "\<forall>i < length vs. fs' (rs ! i) = Resolved (MVal (vs ! i)) None"
    "\<forall>g. g \<notin> set (take (length vs) rs) \<longrightarrow> fs' g = ?fs g"
    using Cons.IH [OF ch1(1,2,3) f(2,3,4)] by blast
  have "f \<notin> set (take (length vs) rs)" using f(1) in_set_takeD by fastforce
  then have "fs' f = Resolved (MVal v) None" using r(4) by simp
  then have "\<forall>i < length (v # vs). fs' (qs ! i) = Resolved (MVal ((v # vs) ! i)) None"
    using r(3) by (auto simp: q less_Suc_eq_0_disj)
  moreover have "\<forall>g. g \<notin> set (take (length (v # vs)) qs) \<longrightarrow> fs' g = fs g"
    using r(4) by (auto simp: q)
  ultimately show ?case using o r(1,2) ch1(4) by (auto simp: Let_def)
qed auto

text \<open>
  Waiting takes are served in the order they began to wait. When coroutines wait to take
  from a new channel and values are then offered, no more than there are takes, every offer
  succeeds, the \<open>i\<close>-th take is resolved with the \<open>i\<close>-th value, no other future is touched, and
  nothing is buffered.
\<close>

theorem waiting_takes_in_order:
  assumes "new_chan cap (Some pol) = Inr ch" "distinct qs" "length vs \<le> length qs"
  shows "\<exists>ch' fs'. offers loop vs (start_takes loop qs (ch, \<lambda>_. Pending)) =
      ((ch', fs'), map (\<lambda>_. Inr True) vs) \<and> buffer ch' = [] \<and>
    (\<forall>i < length vs. fs' (qs ! i) = Resolved (MVal (vs ! i)) None) \<and>
    (\<forall>f. f \<notin> set (take (length vs) qs) \<longrightarrow> fs' f = Pending)"
proof -
  have ch: "bound loop ch" "\<not> closed ch" "buffer ch = []" "puts ch = []" "takes ch = map FutureW []"
    using assms(1) by (auto simp: new_chan_def bound_def split: if_splits)
  obtain ch1 where s: "start_takes loop qs (ch, \<lambda>_. Pending) = (ch1, \<lambda>_. Pending)"
    "bound loop ch1" "\<not> closed ch1" "buffer ch1 = []" "takes ch1 = map FutureW qs"
    using start_takes_empty [OF ch, of qs "\<lambda>_. Pending"] by auto
  show ?thesis
    using offers_waiting [OF s(2,3,5) assms(2) _ assms(3), of "\<lambda>_. Pending"] s(1,4) by simp
qed


section \<open>Closing\<close>

text \<open>
  Closing. Closing an open channel succeeds; every waiting put is told False; if nothing is
  buffered, every waiting take is told nil (a take that is the branch of a selection whose put
  on the channel was just refused excepted); no other future changes. Afterwards a put of any
  value is refused without effect, closing again does nothing, and takes receive the values
  buffered at the close, in order.
\<close>

theorem close_channel:
  assumes "chan_ok fs ch" "bound loop ch" "\<not> closed ch"
  shows "\<exists>ch' fs'. close loop (ch, fs) = ((ch', fs'), Inr ()) \<and>
    (\<forall>p \<in> set (live_puts fs ch). \<exists>c. fs' (future_of (snd p)) = Resolved (MBool False) c) \<and>
    (\<forall>t \<in> set (live_takes fs ch). future_of t \<notin> set (put_futures (ch, fs)) \<longrightarrow>
       (\<exists>c. fs' (future_of t) = Resolved MNil c)) \<and>
    (\<forall>f. f \<notin> set (put_futures (ch, fs)) \<longrightarrow> f \<notin> future_of ` set (live_takes fs ch) \<longrightarrow>
       fs' f = fs f) \<and>
    (\<forall>v. offer loop (Some v) (ch', fs') = ((ch', fs'), Inr False)) \<and>
    close loop (ch', fs') = ((ch', fs'), Inr ()) \<and>
    snd (polls loop (length (buffer ch)) (ch', fs')) = map (\<lambda>v. Inr (Some v)) (buffer ch)"
proof -
  let ?fs1 = "resolve_all (MBool False) (map snd (live_puts fs ch)) fs"
  obtain ch' fs' where c: "close loop (ch, fs) = ((ch', fs'), Inr ())"
    and ch': "closed ch'" "cloop ch' = Some loop" "buffer ch' = buffer ch" "puts ch' = []"
      "capacity ch' = capacity ch"
    and fs': "fs' = (if buffer ch = [] then resolve_all MNil (live_takes fs ch) ?fs1 else ?fs1)"
    using close_open [OF assms(2,3)] by (cases "buffer ch = []") (auto simp: Let_def)
  have ok: "chan_ok fs' ch'" using close_ok [OF assms(1) c] by simp
  have lt: "buffer ch \<noteq> [] \<Longrightarrow> live_takes fs ch = []" using assms(1) unfolding chan_ok_def by auto
  have pend: "\<forall>p \<in> set (live_puts fs ch). fs (future_of (snd p)) = Pending"
    "\<forall>t \<in> set (live_takes fs ch). fs (future_of t) = Pending"
    by (auto simp: live_puts_def live_takes_def active_iff)
  have b: "bound loop ch'" "bind_to loop ch' = ch'" using ch'(2) by (cases ch'; simp add: bound_def)+
  have "content (ch', fs') = buffer ch" "put_futures (ch', fs') = []"
    using ch' by (simp_all add: content_def put_futures_def live_puts_def)
  then have drain: "snd (polls loop (length (buffer ch)) (ch', fs')) =
      map (\<lambda>v. Inr (Some v)) (buffer ch)"
    using polls_content [of "(ch', fs')" loop] ok b(1) by simp
  have puts: "\<forall>p \<in> set (live_puts fs ch). \<exists>c. fs' (future_of (snd p)) = Resolved (MBool False) c"
    using pend(1) by (auto simp: fs' resolve_all_eq)
  have takes: "\<forall>t \<in> set (live_takes fs ch). future_of t \<notin> set (put_futures (ch, fs)) \<longrightarrow>
       (\<exists>c. fs' (future_of t) = Resolved MNil c)"
    using pend(2) lt by (auto simp: fs' resolve_all_eq put_futures_def)
  have rest: "\<forall>f. f \<notin> set (put_futures (ch, fs)) \<longrightarrow> f \<notin> future_of ` set (live_takes fs ch) \<longrightarrow>
       fs' f = fs f"
    by (auto simp: fs' resolve_all_eq put_futures_def)
  show ?thesis
    using c puts takes rest drain ch'(1) b
    by (intro exI [of _ ch'] exI [of _ fs'])
      (simp add: offer_def try_put_closed close_other(1))
qed

section \<open>Selections\<close>

lemma try_ports_first:
  assumes "world_ok w" "try_ports loop ops w = (w', Inr (Some (m, c)))"
  shows "\<exists>pre op post w1. ops = pre @ op # post \<and> c = fst op \<and> same_world w w1 \<and>
    (\<forall>o' \<in> set pre. op_waits None w1 o') \<and> try_op loop op w1 = (w', Inr (Some m))"
  using assms
proof (induction ops arbitrary: w)
  case (Cons op ops)
  obtain w1 y where t: "try_op loop op w = (w1, y)" by (cases "try_op loop op w")
  note ok = try_op_ok [OF Cons.prems(1) t]
  show ?case
  proof (cases "y = Inr None")
    case True
    then have r: "try_ports loop ops w1 = (w', Inr (Some (m, c)))"
      using Cons.prems(2) by (simp add: t)
    obtain pre op' post w2 where *: "ops = pre @ op' # post" "c = fst op'" "same_world w1 w2"
      "\<forall>o' \<in> set pre. op_waits None w2 o'" "try_op loop op' w2 = (w', Inr (Some m))"
      using Cons.IH [OF conjunct1 [OF ok] r] by blast
    have "op_waits None w2 op" using ok True op_waits_same [OF *(3)] by blast
    then show ?thesis
      using * ok True same_world_trans
      by (intro exI [of _ "op # pre"] exI [of _ op'] exI [of _ post] exI [of _ w2]) auto
  next
    case False
    then have "y = Inr (Some m)" "w1 = w'" "c = fst op"
      using Cons.prems(2) t by (auto split: sum.splits option.splits)
    then show ?thesis
      using t by (intro exI [of _ "[]"] exI [of _ op] exI [of _ ops] exI [of _ w]) simp
  qed
qed simp

definition branch_waits :: "nat \<Rightarrow> 'v world \<Rightarrow> nat \<times> 'v option \<Rightarrow> bool" where
  "branch_waits sel w op =
     (case op of
        (c, None) \<Rightarrow> SelectW sel c \<in> set (takes (wchans w c))
      | (c, Some v) \<Rightarrow> (v, SelectW sel c) \<in> set (puts (wchans w c)))"

lemma enqueue_ports_waits:
  assumes "enqueue_ports loop sel ops w = (w', Inr ())"
  shows "wfuts w' = wfuts w \<and> (\<forall>op \<in> set ops. branch_waits sel w' op) \<and>
    (\<forall>op. branch_waits sel w op \<longrightarrow> branch_waits sel w' op)"
  using assms
proof (induction ops arbitrary: w)
  case (Cons op ops)
  obtain c val where op: "op = (c, val)" by (cases op)
  obtain w1 where e: "on_chan c (case val of None \<Rightarrow> enqueue_take loop sel c
      | Some v \<Rightarrow> enqueue_put loop v sel c) w = (w1, Inr ())"
    and r: "enqueue_ports loop sel ops w1 = (w', Inr ())"
    using Cons.prems by (auto simp: op split: prod.splits sum.splits)
  have "branch_waits sel w1 op \<and> wfuts w1 = wfuts w \<and>
      (\<forall>op. branch_waits sel w op \<longrightarrow> branch_waits sel w1 op)"
    using e by (cases val)
      (auto simp: op on_chan_enqueue branch_waits_def split: if_splits option.splits)
  then show ?case using Cons.IH [OF r] by (metis set_ConsD)
qed simp

text \<open>
  Once the future of a selection is done, its branches are as good as removed: none of them is
  live on any channel, now or later, and the \<open>finally\<close> block takes them out of the queues.
\<close>

definition branch_live :: "nat \<Rightarrow> 'v world \<Rightarrow> nat \<Rightarrow> bool" where
  "branch_live sel w c \<longleftrightarrow>
     sel \<in> future_of ` set (live_takes (wfuts w) (wchans w c)) \<or>
     sel \<in> future_of ` snd ` set (live_puts (wfuts w) (wchans w c))"

definition branch_queued :: "nat \<Rightarrow> 'v world \<Rightarrow> nat \<Rightarrow> bool" where
  "branch_queued sel w c \<longleftrightarrow>
     sel \<in> future_of ` set (takes (wchans w c)) \<or> sel \<in> future_of ` snd ` set (puts (wchans w c))"

lemma done_branch_dead: "wfuts w sel \<noteq> Pending \<Longrightarrow> \<not> branch_live sel w c"
  by (auto simp: branch_live_def live_takes_def live_puts_def active_iff)

lemma world_steps_one_shot:
  "world_step\<^sup>*\<^sup>* w w' \<Longrightarrow> world_ok w \<Longrightarrow> one_shot (wfuts w) (wfuts w')"
  using world_steps_ok by blast

lemma alts_end_queues:
  "wfuts w sel \<noteq> Pending \<Longrightarrow>
     (\<forall>c. c \<in> set cs \<or> \<not> branch_queued sel w c \<longrightarrow> \<not> branch_queued sel (alts_end cs w) c)"
proof (induction cs arbitrary: w)
  case (Cons c cs)
  let ?w = "fst (on_chan c (\<lambda>s. (await_end s, ())) w)"
  have w: "wfuts ?w = wfuts w"
    "wchans ?w = (wchans w)(c := discard_inactive (wfuts w) (wchans w c))"
    by (simp_all add: on_chan_def await_end_def)
  have "\<not> branch_queued sel ?w c"
    using done_branch_dead [OF Cons.prems, of c] w by (simp add: branch_live_def branch_queued_def)
  moreover have "\<not> branch_queued sel w d \<Longrightarrow> \<not> branch_queued sel ?w d" for d
    using w by (auto simp: branch_queued_def live_takes_def live_puts_def)
  ultimately show ?case
    using Cons.IH [of ?w] Cons.prems w(1) by (auto simp: alts_end_def)
qed (simp add: alts_end_def)

text \<open>A single pass over waiting puts takes at most one branch of a selection.\<close>

lemma fill_loop_once:
  "fill_loop cap ps buf fs = (ps', buf', fs') \<Longrightarrow>
     \<exists>ms. buf' = buf @ map fst ms \<and> set ms \<subseteq> set ps \<and> (\<forall>p \<in> set ms. active fs (snd p)) \<and>
       distinct (map (\<lambda>p. future_of (snd p)) ms)"
proof (induction cap ps buf fs arbitrary: ps' buf' fs' rule: fill_loop.induct)
  case (2 cap v w ps buf fs)
  show ?case
  proof (cases "length buf < cap")
    case True
    show ?thesis
    proof (cases "active fs w")
      case act: True
      let ?fs = "fs(future_of w := Resolved (MBool True) (winner_of w))"
      have r: "resolve w (MBool True) fs = (?fs, True)" using act by (simp add: resolve_def)
      have f: "fill_loop cap ps (buf @ [v]) ?fs = (ps', buf', fs')" using 2(3) True r by simp
      obtain ms where ms: "buf' = (buf @ [v]) @ map fst ms" "set ms \<subseteq> set ps"
        "\<forall>p \<in> set ms. active ?fs (snd p)" "distinct (map (\<lambda>p. future_of (snd p)) ms)"
        using 2(1) [OF True r [symmetric] refl f] by blast
      have "\<forall>p \<in> set ms. active fs (snd p) \<and> future_of (snd p) \<noteq> future_of w"
        using ms(3) by (auto simp: active_iff split: if_splits)
      then show ?thesis using ms(1,2,4) act by (intro exI [of _ "(v, w) # ms"]) auto
    next
      case dead: False
      have r: "resolve w (MBool True) fs = (fs, False)" using dead by (simp add: resolve_def)
      have f: "fill_loop cap ps buf fs = (ps', buf', fs')" using 2(3) True r by simp
      from 2(2) [OF True r [symmetric] refl f] show ?thesis by (metis list.set_intros(2) subset_code(1))
    qed
  next
    case False
    then show ?thesis using 2(3) by (intro exI [of _ "[]"]) simp
  qed
qed (intro exI [of _ "[]"], simp)

lemma distinct_filter_one: "distinct (map f ms) \<Longrightarrow> length (filter (\<lambda>p. f p = x) ms) \<le> 1"
  by (induction ms) (auto simp: filter_empty_conv image_iff)

lemma fill_buffer_once:
  "\<exists>ms. buffer (fst (fill_buffer s)) = buffer (fst s) @ map fst ms \<and>
     length (filter (\<lambda>p. future_of (snd p) = sel) ms) \<le> 1"
proof -
  obtain ch fs where s: "s = (ch, fs)" by fastforce
  obtain ps' buf' fs' where f: "fill_loop (capacity ch) (live_puts fs ch) (buffer ch) fs = (ps', buf', fs')"
    by (metis surj_pair)
  obtain ms where "buf' = buffer ch @ map fst ms" "distinct (map (\<lambda>p. future_of (snd p)) ms)"
    using fill_loop_once [OF f] by blast
  then show ?thesis
    using f distinct_filter_one [of "\<lambda>p. future_of (snd p)" ms sel]
    by (intro exI [of _ ms]) (simp add: s fill_buffer_def Let_def)
qed

text \<open>
  C13: a selection acts on one port at most. In a reachable world, \<open>alts\<close> that returns a ready
  result performed exactly one of its operations, the first in its order (the ports' order with
  \<open>priority\<close>, else the shuffled one) that was ready, every operation before it having to wait;
  one that returns its default performed none, all having to wait, and left every waiter, buffer
  and future as it was; and one that goes on to wait performed none either, and waits with the
  single future of its selection on every port. However coroutines go on from there, a pass
  over waiting puts takes at most one branch of the selection; and in any world in which its
  future is done (resolved by a port or cancelled), the future keeps that result, in no later
  world is any branch of it live on any channel, so that no second port can take from it or
  give to it, and the \<open>finally\<close> block leaves no waiter of it on the channels of its ports.
\<close>

theorem alts_exactly_one:
  assumes "world_ok w" "wfuts w sel = Pending" "mapM parse_port ports = Inr ops"
    and "alts_start loop shuffle ports priority dflt has_default sel w = (w', Inr r)"
    and "ops1 = (if priority then ops else shuffle ops)"
  shows "case r of
      Ready m c \<Rightarrow>
        (\<exists>pre op post w1. ops1 = pre @ op # post \<and> c = fst op \<and> same_world w w1 \<and>
           (\<forall>o' \<in> set pre. op_waits None w1 o') \<and> try_op loop op w1 = (w', Inr (Some m)))
    | Default d \<Rightarrow> d = dflt \<and> same_world w w' \<and> (\<forall>op \<in> set ops1. op_waits None w' op)
    | Selecting s \<Rightarrow> s = sel \<and> wfuts w' = wfuts w \<and>
        (\<exists>w1. same_world w w1 \<and> (\<forall>op \<in> set ops1. op_waits None w1 op)) \<and>
        (\<forall>op \<in> set ops1. branch_waits sel w' op) \<and>
        (\<forall>w2. world_step\<^sup>*\<^sup>* w' w2 \<longrightarrow>
          (\<forall>c. \<exists>ms. buffer (fst (fill_buffer (wchans w2 c, wfuts w2))) =
              buffer (wchans w2 c) @ map fst ms \<and>
              length (filter (\<lambda>p. future_of (snd p) = sel) ms) \<le> 1) \<and>
          (wfuts w2 sel \<noteq> Pending \<longrightarrow>
            (\<forall>w3. world_step\<^sup>*\<^sup>* w2 w3 \<longrightarrow>
               wfuts w3 sel = wfuts w2 sel \<and> (\<forall>c. \<not> branch_live sel w3 c)) \<and>
            (\<forall>op \<in> set ops1. \<not> branch_queued sel (alts_end (map fst ops1) w2) (fst op))))"
proof -
  obtain w1 y where t: "try_ports loop ops1 w = (w1, y)" by (cases "try_ports loop ops1 w")
  note ok = try_ports_ok [OF assms(1) t]
  note alts = assms(4) [unfolded alts_start_def assms(3) Let_def sum.case assms(5) [symmetric] t]
  have ok': "world_ok w'" using alts_start_ok [OF assms(1,2,4)] by blast
  have fill: "\<exists>ms. buffer (fst (fill_buffer (wchans w2 c, wfuts w2))) =
      buffer (wchans w2 c) @ map fst ms \<and> length (filter (\<lambda>p. future_of (snd p) = sel) ms) \<le> 1"
    for w2 :: "'a world" and c
    using fill_buffer_once [of "(wchans w2 c, wfuts w2)" sel] by simp
  have final: "wfuts w3 sel = wfuts w2 sel \<and> \<not> branch_live sel w3 c"
    if "world_step\<^sup>*\<^sup>* w' w2" "wfuts w2 sel \<noteq> Pending" "world_step\<^sup>*\<^sup>* w2 w3" for w2 w3 c
  proof -
    have "world_ok w2" using world_steps_ok [OF that(1) ok'] by blast
    then have "wfuts w3 sel = wfuts w2 sel"
      using world_steps_one_shot [OF that(3)] that(2) by (simp add: one_shot_def)
    then show ?thesis using done_branch_dead that(2) by metis
  qed
  show ?thesis
  proof (cases "y = Inr None")
    case True
    then have same: "same_world w w1" and waits: "\<forall>op \<in> set ops1. op_waits None w1 op"
      using ok by blast+
    have w1: "w1\<lparr>wfuts := (wfuts w1)(sel := Pending)\<rparr> = w1"
      using same assms(2) by (cases w1) (simp add: same_world_def pending_update)
    show ?thesis
    proof (cases r)
      case (Selecting s)
      then have e: "s = sel" "enqueue_ports loop sel ops1 w1 = (w', Inr ())"
        using alts True w1 by (auto split: if_splits prod.splits sum.splits)
      note q = enqueue_ports_waits [OF e(2)]
      have "wfuts w' = wfuts w" using q same by (simp add: same_world_def)
      moreover have "\<not> branch_queued sel (alts_end (map fst ops1) w2) (fst op)"
        if "op \<in> set ops1" "wfuts w2 sel \<noteq> Pending" for op w2
        using alts_end_queues [OF that(2), of "map fst ops1"] that(1) by simp
      ultimately show ?thesis
        unfolding Selecting alt_result.case
        by (intro conjI allI impI ballI exI [of _ w1]) (use e(1) same waits q fill final in \<open>blast\<close>)+
    qed (use alts same waits True in \<open>auto split: if_splits prod.splits sum.splits\<close>)
  next
    case False
    then obtain m c where "y = Inr (Some (m, c))" "r = Ready m c" "w1 = w'"
      using alts by (auto split: if_splits sum.splits option.splits)
    then show ?thesis using try_ports_first [OF assms(1)] t by auto
  qed
qed


section \<open>Instances\<close>

definition demo_chan :: "nat \<Rightarrow> policy \<Rightarrow> nat chan" where
  "demo_chan n pol = \<lparr>capacity = n, cpolicy = pol, closed = False, cloop = None,
                      buffer = [], puts = [], takes = []\<rparr>"

definition demo_world :: "nat world" where
  "demo_world = \<lparr>wchans = (\<lambda>c. demo_chan (if c = 0 then 0 else 1) Fixed), wfuts = (\<lambda>_. Pending)\<rparr>"

lemma demo_fresh: "fresh_world demo_world"
proof -
  have "new_chan (int (if c = 0 then 0 else 1)) (Some Fixed) = Inr (wchans demo_world c)" for c
    by (simp add: new_chan_def demo_world_def demo_chan_def)
  moreover have "wfuts demo_world = (\<lambda>_. Pending)" by (simp add: demo_world_def)
  ultimately show ?thesis unfolding fresh_world_def by blast
qed

text \<open>A coroutine waits to take from channel 0; another offers 5, which resolves its future 7.\<close>

definition demo_waiting :: "nat world" where
  "demo_waiting = fst (on_chan 0 (take_start 1 7) demo_world)"

definition demo_served :: "nat world" where
  "demo_served = fst (on_chan 0 (offer 1 (Some 5)) demo_waiting)"

lemma demo_waits: "world_step demo_world demo_waiting"
  unfolding demo_waiting_def
  by (rule take_step [of demo_world 7 0 1]) (simp add: demo_world_def, rule surjective_pairing)

lemma demo_steps: "world_step\<^sup>*\<^sup>* demo_world demo_served"
proof -
  have "world_step demo_waiting demo_served"
    unfolding demo_served_def by (rule offer_step) (rule surjective_pairing)
  then show ?thesis using demo_waits by (meson r_into_rtranclp rtranclp_trans)
qed

lemma demo_waiting_7:
  "live_takes (wfuts demo_waiting) (wchans demo_waiting 0) = [FutureW 7]"
  by (simp add: demo_waiting_def demo_world_def demo_chan_def on_chan_def take_start_def
      try_take_def bind_loop_def discard_inactive_def Let_def live_takes_def active_iff)

lemma demo_served_7: "wfuts demo_served 7 = Resolved (MVal 5) None"
  by (simp add: demo_served_def demo_waiting_def demo_world_def demo_chan_def on_chan_def
      take_start_def try_take_def bind_loop_def discard_inactive_def offer_def try_put_def
      validate_value_def active_def resolve_def Let_def)

theorem channel_invariant_witness:
  "length (buffer (wchans demo_served 0)) \<le> capacity (wchans demo_served 0) \<and>
   live_takes (wfuts demo_waiting) (wchans demo_waiting 0) = [FutureW 7] \<and>
   buffer (wchans demo_waiting 0) = [] \<and> wfuts demo_served 7 = Resolved (MVal 5) None"
proof -
  have "world_step\<^sup>*\<^sup>* demo_world demo_waiting"
    using demo_waits by (rule r_into_rtranclp)
  note waiting = channel_invariant [OF demo_fresh this, of 0]
  have "live_takes (wfuts demo_waiting) (wchans demo_waiting 0) \<noteq> [] \<longrightarrow>
      buffer (wchans demo_waiting 0) = []"
    using waiting by blast
  moreover have "length (buffer (wchans demo_served 0)) \<le> capacity (wchans demo_served 0)"
    using channel_invariant [OF demo_fresh demo_steps, of 0] by blast
  ultimately show ?thesis using demo_waiting_7 demo_served_7 by simp
qed

theorem channel_fifo_witness:
  "\<exists>s s'. start_puts 1 [(10, 0), (11, 1), (12, 2)] (demo_chan 1 Fixed, \<lambda>_. Pending) =
       (s, [Inr (Finished True), Inr (Awaiting 1), Inr (Awaiting 2)]) \<and>
     polls 1 2 s = (s', [Inr (Some 10), Inr (Some 11)]) \<and>
     snd s' 1 = Resolved (MBool True) None \<and> snd s' 2 = Resolved (MBool True) None"
proof -
  let ?ps = "[(10, 0), (11, 1), (12, 2)] :: (nat \<times> nat) list"
  obtain s xs where s: "start_puts 1 ?ps (demo_chan 1 Fixed, \<lambda>_. Pending) = (s, xs)" by fastforce
  obtain s' ys where s': "polls 1 2 s = (s', ys)" by fastforce
  have new: "new_chan 1 (Some Fixed) = Inr (demo_chan 1 Fixed)"
    by (simp add: new_chan_def demo_chan_def)
  from channel_fifo [OF new _ _ s s'] have
    "xs = [Inr (Finished True), Inr (Awaiting 1), Inr (Awaiting 2)] \<and>
     ys = [Inr (Some 10), Inr (Some 11)] \<and>
     snd s' 1 = Resolved (MBool True) None \<and> snd s' 2 = Resolved (MBool True) None"
    by simp
  with s s' show ?thesis by blast
qed

theorem buffer_policies_witness:
  "buffer (fst (fst (offers 1 [1, 2, 3] (demo_chan 2 Sliding, \<lambda>_. Pending)))) = [2, 3]"
  using buffer_policies [of 2 Sliding "demo_chan 2 Sliding" 1 "[1, 2, 3]" "\<lambda>_. Pending"]
  by (simp add: new_chan_def demo_chan_def del: offers.simps polls.simps)

theorem waiting_takes_in_order_witness:
  "\<exists>ch' fs'. offers 1 [10, 11] (start_takes 1 [4, 5, 6] (demo_chan 1 Fixed, \<lambda>_. Pending)) =
      ((ch', fs'), [Inr True, Inr True]) \<and> fs' 5 = Resolved (MVal 11) None"
  using waiting_takes_in_order [of 1 Fixed "demo_chan 1 Fixed" "[4, 5, 6]" "[10, 11]" 1]
  by (auto simp: new_chan_def demo_chan_def simp del: offers.simps start_takes.simps
      dest: spec [of _ 1])

theorem close_channel_witness:
  "\<exists>ch' fs'. close 1 (demo_chan 2 Fixed, \<lambda>_. Pending) = ((ch', fs'), Inr ()) \<and>
     offer 1 (Some 3) (ch', fs') = ((ch', fs'), Inr False)"
  using close_channel [of "\<lambda>_. Pending" "demo_chan 2 Fixed" 1]
  by (auto simp: demo_chan_def chan_ok_def live_puts_def live_takes_def bound_def)

theorem alts_exactly_one_witness:
  "branch_waits 9 (fst (alts_start 1 (\<lambda>ops. ops) [TakePort 0, TakePort 1] True None None 9 demo_world))
     (1, None)"
proof -
  have a: "alts_start 1 (\<lambda>ops. ops) [TakePort 0, TakePort 1] True None None 9 demo_world =
      (fst (alts_start 1 (\<lambda>ops. ops) [TakePort 0, TakePort 1] True None None 9 demo_world),
       Inr (Selecting 9))"
    by (simp add: alts_start_def demo_world_def demo_chan_def try_op_def on_chan_def try_take_def
        bind_loop_def discard_inactive_def enqueue_take_def Let_def)
  show ?thesis
    using alts_exactly_one [OF fresh_world_ok [OF demo_fresh] _ _ a, of "[(0, None), (1, None)]"]
    by (simp add: demo_world_def)
qed

end
