(* ===== verification/ChannelFlow.thy ===== *)
theory ChannelFlow
  imports Prelude
begin

text \<open>
  The loops that move values between channels (\<open>pipe\<close>, \<open>pipeline\<close> and \<open>_transduce_one\<close> of
  \<open>src/src/basilisp/concurrent_channel.py\<close>).

  A loop sees its source as the list of values its takes return before the source is closed and
  drained, and its destination as what its puts return or raise: \<open>put i x\<close> is the answer to the
  \<open>i\<close>-th put, of \<open>x\<close> (False on a closed channel, an exception for nil, which an error handler may
  produce, or for a channel of another event loop).
  Which workers of a pipeline finish when is the business of the event loop: \<open>fin i\<close> says, for
  the \<open>i\<close>-th wait, which of the pending workers it finds done.
\<close>

section \<open>One value through a transducer\<close>

text \<open>
  A transducer applied to the reducing function \<open>emit\<close>, as seen on one input: the items that
  its step passes to \<open>emit\<close>, in order, and whether the step's result is \<open>Reduced\<close>; and the same
  for its completion. Its code is the user's; it may raise after some calls.
\<close>

record ('v, 'o) xform =
  x_init :: "unit res"
  x_step :: "'v \<Rightarrow> 'o option list \<times> bool res"
  x_done :: "'o option list \<times> unit res"

text \<open>\<open>emit(result, item)\<close> refuses nil.\<close>

fun emit_all :: "'o list \<Rightarrow> 'o option list \<Rightarrow> 'o list res" where
  "emit_all emitted [] = Inr emitted"
| "emit_all emitted (None # items) = Inl ValueError"
| "emit_all emitted (Some x # items) = emit_all (emitted @ [x]) items"

definition transduce_one :: "('v, 'o) xform \<Rightarrow> 'v \<Rightarrow> 'o list res" where
  "transduce_one xf v =
     rbind (x_init xf) (\<lambda>_.
     rbind (emit_all [] (fst (x_step xf v))) (\<lambda>emitted.
     rbind (snd (x_step xf v)) (\<lambda>reduced.
       if reduced then Inr emitted
       else rbind (emit_all emitted (fst (x_done xf))) (\<lambda>emitted'.
            rbind (snd (x_done xf)) (\<lambda>_. Inr emitted')))))"

section \<open>Pipes\<close>

text \<open>The values put, those left in the source, and how the loop ended.\<close>

fun pipe_loop :: "(nat \<Rightarrow> 'v \<Rightarrow> bool res) \<Rightarrow> nat \<Rightarrow> 'v list \<Rightarrow> 'v list \<times> 'v list \<times> unit res" where
  "pipe_loop put i [] = ([], [], Inr ())"
| "pipe_loop put i (v # vs) =
     (case put i v of
        Inl e \<Rightarrow> ([], vs, Inl e)
      | Inr True \<Rightarrow> (let (fwd, rest, x) = pipe_loop put (Suc i) vs in (v # fwd, rest, x))
      | Inr False \<Rightarrow> ([], vs, Inr ()))"

text \<open>\<open>_pipe\<close>: the same, and whether the destination was closed, which it is on every way out.\<close>

definition pipe ::
    "(nat \<Rightarrow> 'v \<Rightarrow> bool res) \<Rightarrow> bool \<Rightarrow> 'v list \<Rightarrow> ('v list \<times> 'v list \<times> unit res) \<times> bool" where
  "pipe put close_output vs = (pipe_loop put 0 vs, close_output)"

section \<open>Pipelines\<close>

text \<open>
  The variables of \<open>_pipeline\<close>; \<open>pl_output\<close> lists the values that the destination accepted and
  \<open>pl_puts\<close> counts the puts made.
\<close>

record ('v, 'o) pipeline_state =
  pl_source :: "'v list"
  pl_pending :: "(nat \<times> 'v) list"
  pl_completed :: "(nat \<times> 'o list) list"
  pl_closed :: bool
  pl_next_seq :: nat
  pl_next_out :: nat
  pl_output :: "'o list"
  pl_puts :: nat

text \<open>The inner loop: admit inputs while fewer than \<open>par\<close> workers are pending.\<close>

fun admit :: "nat \<Rightarrow> 'v list \<Rightarrow> (nat \<times> 'v) list \<Rightarrow> nat \<Rightarrow> 'v list \<times> (nat \<times> 'v) list \<times> bool \<times> nat" where
  "admit par [] pend n = ([], pend, length pend < par, n)"
| "admit par (v # vs) pend n =
     (if length pend < par then admit par vs (pend @ [(n, v)]) (Suc n)
      else (v # vs, pend, False, n))"

text \<open>
  Collecting the finished workers, in the order of their inputs. A failed one ends the pipeline
  unless an error handler replaces its outputs (\<open>None\<close> dropping the input; nil among the
  replacements is an output like any other, which the put of it will refuse).
\<close>

definition worker_result ::
    "('v \<Rightarrow> 'o list res) \<Rightarrow> (py_error \<Rightarrow> 'v \<Rightarrow> 'o list option res) option \<Rightarrow> 'v \<Rightarrow> 'o list res" where
  "worker_result f handler v =
     (case f v of
        Inr os \<Rightarrow> Inr os
      | Inl e \<Rightarrow>
          (case handler of
             None \<Rightarrow> Inl e
           | Some h \<Rightarrow>
               rbind (h e v) (\<lambda>r. Inr (case r of None \<Rightarrow> [] | Some os \<Rightarrow> os))))"

fun collect ::
    "('v \<Rightarrow> 'o list res) \<Rightarrow> (nat \<times> 'v) list \<Rightarrow> nat set \<Rightarrow>
     (nat \<times> 'v) list \<Rightarrow> (nat \<times> 'o list) list \<Rightarrow>
     ((nat \<times> 'v) list \<times> (nat \<times> 'o list) list) \<times> unit res" where
  "collect wr [] finished kept done = ((kept, done), Inr ())"
| "collect wr ((n, v) # pend) finished kept done =
     (if n \<notin> finished then collect wr pend finished (kept @ [(n, v)]) done
      else (case wr v of
              Inl e \<Rightarrow> ((kept @ pend, done), Inl e)
            | Inr os \<Rightarrow> collect wr pend finished kept (done @ [(n, os)])))"

text \<open>
  Putting the values of one input; False when the destination refuses one, and the exception
  that a put raises.
\<close>

fun put_all :: "(nat \<Rightarrow> 'o \<Rightarrow> bool res) \<Rightarrow> nat \<Rightarrow> 'o list \<Rightarrow> 'o list \<times> nat \<times> bool res" where
  "put_all put i [] = ([], i, Inr True)"
| "put_all put i (x # xs) =
     (case put i x of
        Inl e \<Rightarrow> ([], Suc i, Inl e)
      | Inr True \<Rightarrow> (let (ys, j, b) = put_all put (Suc i) xs in (x # ys, j, b))
      | Inr False \<Rightarrow> ([], Suc i, Inr False))"

text \<open>
  \<open>while next_output in completed\<close>: the outputs that are due. The recursion removes an entry of
  \<open>completed\<close> each time, so the number of entries bounds it.
\<close>

fun emit_due ::
    "(nat \<Rightarrow> 'o \<Rightarrow> bool res) \<Rightarrow> nat \<Rightarrow> ('v, 'o) pipeline_state \<Rightarrow>
     ('v, 'o) pipeline_state \<times> bool res" where
  "emit_due put 0 s = (s, Inr True)"
| "emit_due put (Suc k) s =
     (case map_of (pl_completed s) (pl_next_out s) of
        None \<Rightarrow> (s, Inr True)
      | Some os \<Rightarrow>
          (let (ys, j, b) = put_all put (pl_puts s) os;
               s1 = s\<lparr>pl_completed := AList.delete (pl_next_out s) (pl_completed s),
                      pl_output := pl_output s @ ys, pl_puts := j\<rparr>
           in if b = Inr True then emit_due put k (s1\<lparr>pl_next_out := Suc (pl_next_out s)\<rparr>)
              else (s1, b)))"

datatype ('v, 'o) iteration =
    Continue "('v, 'o) pipeline_state"
  | Return "('v, 'o) pipeline_state"
  | Fail "('v, 'o) pipeline_state" py_error

text \<open>One iteration of the main loop.\<close>

definition pipeline_step ::
    "nat \<Rightarrow> ('v \<Rightarrow> 'o list res) \<Rightarrow> (nat \<Rightarrow> 'o \<Rightarrow> bool res) \<Rightarrow> ((nat \<times> 'v) list \<Rightarrow> nat set) \<Rightarrow>
     ('v, 'o) pipeline_state \<Rightarrow> ('v, 'o) iteration" where
  "pipeline_step par wr put finished s =
     (let (src, pend, ended, n) =
            (if pl_closed s then (pl_source s, pl_pending s, True, pl_next_seq s)
             else admit par (pl_source s) (pl_pending s) (pl_next_seq s));
          s1 = s\<lparr>pl_source := src, pl_pending := pend, pl_closed := ended, pl_next_seq := n\<rparr>
      in if pend = [] then Continue s1
         else (case collect wr pend (finished pend) [] (pl_completed s1) of
                 ((kept, dn), Inl e) \<Rightarrow> Fail (s1\<lparr>pl_pending := kept, pl_completed := dn\<rparr>) e
               | ((kept, dn), Inr _) \<Rightarrow>
                   (case emit_due put (length dn) (s1\<lparr>pl_pending := kept, pl_completed := dn\<rparr>) of
                      (s2, Inl e) \<Rightarrow> Fail s2 e
                    | (s2, Inr True) \<Rightarrow> Continue s2
                    | (s2, Inr False) \<Rightarrow> Return s2)))"

fun pipeline_loop ::
    "nat \<Rightarrow> ('v \<Rightarrow> 'o list res) \<Rightarrow> (nat \<Rightarrow> 'o \<Rightarrow> bool res) \<Rightarrow> (nat \<Rightarrow> (nat \<times> 'v) list \<Rightarrow> nat set) \<Rightarrow>
     nat \<Rightarrow> nat \<Rightarrow> ('v, 'o) pipeline_state \<Rightarrow> (('v, 'o) pipeline_state \<times> unit res) option" where
  "pipeline_loop par wr put fin i 0 s = None"
| "pipeline_loop par wr put fin i (Suc fuel) s =
     (if pl_closed s \<and> pl_pending s = [] then Some (s, Inr ())
      else (case pipeline_step par wr put (fin i) s of
              Continue s1 \<Rightarrow> pipeline_loop par wr put fin (Suc i) fuel s1
            | Return s1 \<Rightarrow> Some (s1, Inr ())
            | Fail s1 e \<Rightarrow> Some (s1, Inl e)))"

definition pipeline_start :: "'v list \<Rightarrow> ('v, 'o) pipeline_state" where
  "pipeline_start vs = \<lparr>pl_source = vs, pl_pending = [], pl_completed = [], pl_closed = False,
     pl_next_seq = 0, pl_next_out = 0, pl_output = [], pl_puts = 0\<rparr>"

text \<open>
  \<open>pipeline\<close> checks its arguments before it starts: \<open>callable_xform\<close> and \<open>callable_handler\<close> are
  what \<open>callable\<close> says of them (the latter of a missing handler is not asked).
\<close>

definition check_pipeline :: "index_arg \<Rightarrow> bool \<Rightarrow> bool option \<Rightarrow> nat res" where
  "check_pipeline parallelism callable_xform callable_handler =
     (case parallelism of
        IdxOther \<Rightarrow> Inl TypeError
      | IdxInt p \<Rightarrow>
          (if p < 1 then Inl ValueError
           else if \<not> callable_xform then Inl TypeError
           else if callable_handler = Some False then Inl TypeError
           else Inr (nat p)))"


section \<open>Order of a pipeline's outputs\<close>

definition seq_range :: "('v, 'o) pipeline_state \<Rightarrow> nat set" where
  "seq_range s = {pl_next_out s..<pl_next_seq s}"

text \<open>
  The invariant: inputs are numbered in the order they were taken; those between \<open>next_output\<close>
  and \<open>next_sequence\<close> are pending or completed; the ones before it have been put, in order.
\<close>

definition numbered :: "('v \<Rightarrow> 'o list res) \<Rightarrow> 'v list \<Rightarrow> (nat \<times> 'v) list \<Rightarrow> (nat \<times> 'o list) list \<Rightarrow> nat \<Rightarrow> nat \<Rightarrow> bool" where
  "numbered wr vs pend compl lo hi \<longleftrightarrow>
     (\<forall>(k, v) \<in> set pend. k < length vs \<and> v = vs ! k) \<and>
     (\<forall>(k, os) \<in> set compl. k < length vs \<and> wr (vs ! k) = Inr os) \<and>
     distinct (map fst pend @ map fst compl) \<and>
     fst ` set pend \<union> fst ` set compl = {lo..<hi} \<and> lo \<le> hi"

definition done_of :: "('v \<Rightarrow> 'o list res) \<Rightarrow> 'v \<Rightarrow> 'o list" where
  "done_of wr v = (case wr v of Inr os \<Rightarrow> os | Inl _ \<Rightarrow> [])"

definition flow_inv :: "('v \<Rightarrow> 'o list res) \<Rightarrow> 'v list \<Rightarrow> ('v, 'o) pipeline_state \<Rightarrow> bool" where
  "flow_inv wr vs s \<longleftrightarrow>
     pl_next_seq s \<le> length vs \<and> pl_source s = drop (pl_next_seq s) vs \<and>
     (pl_closed s \<longrightarrow> pl_source s = []) \<and>
     numbered wr vs (pl_pending s) (pl_completed s) (pl_next_out s) (pl_next_seq s) \<and>
     pl_output s = concat (map (done_of wr) (take (pl_next_out s) vs))"

lemma admit_bound:
  "admit par src pend n = (src', pend', ended, n') \<Longrightarrow> length pend \<le> par \<Longrightarrow> length pend' \<le> par"
  by (induction par src pend n rule: admit.induct) (auto split: if_splits)

lemma admit_length:
  "admit par src pend n = (src', pend', ended, n') \<Longrightarrow>
     length src' + length pend' = length src + length pend"
  by (induction par src pend n rule: admit.induct) (auto split: if_splits)

lemma admit_numbered:
  assumes "admit par src pend n = (src', pend', ended, n')" "n \<le> length vs" "src = drop n vs"
    "numbered wr vs pend compl lo n"
  shows "n' \<le> length vs \<and> src' = drop n' vs \<and> numbered wr vs pend' compl lo n' \<and>
    (ended \<longrightarrow> src' = []) \<and> (pend' = [] \<longrightarrow> 0 < par \<longrightarrow> ended)"
  using assms
proof (induction par src pend n rule: admit.induct)
  case (2 par v xs pend n)
  show ?case
  proof (cases "length pend < par")
    case True
    have n: "n < length vs" using "2.prems"(3) by (metis drop_all list.distinct(1) not_le)
    then have d: "v = vs ! n" "xs = drop (Suc n) vs"
      using "2.prems"(3) by (simp_all add: Cons_nth_drop_Suc [symmetric])
    have notin: "n \<notin> fst ` set pend \<union> fst ` set compl"
      using "2.prems"(4) by (simp add: numbered_def)
    have "numbered wr vs (pend @ [(n, v)]) compl lo (Suc n)"
      using "2.prems"(4) n d notin by (auto simp: numbered_def)
    then show ?thesis using "2.IH" [OF True] "2.prems" True n d by auto
  next
    case False
    then have "src' = v # xs" "pend' = pend" "n' = n" "\<not> ended" using "2.prems"(1) by auto
    then show ?thesis using "2.prems" False by auto
  qed
qed auto

lemma collect_numbered:
  assumes "collect wr pend finished kept dn = ((kept', dn'), x)"
    and "numbered wr vs (kept @ pend) dn lo hi"
  shows "x = Inr () \<Longrightarrow> numbered wr vs kept' dn' lo hi"
    and "x = Inr () \<Longrightarrow> kept' = kept @ filter (\<lambda>p. fst p \<notin> finished) pend"
  using assms
proof (induction wr pend finished kept dn rule: collect.induct)
  case (2 wr n v pend finished kept dn)
  {
    case 1
    show ?case
    proof (cases "n \<in> finished")
      case True
      then obtain os where w: "wr v = Inr os" using 1 by (auto split: sum.splits)
      have "numbered wr vs (kept @ pend) (dn @ [(n, os)]) lo hi"
        using 1(3) w by (auto simp: numbered_def)
      then show ?thesis using 2(3) [of os] 1 True w by simp
    next
      case False
      then show ?thesis using 2(1) 1 by simp
    qed
  next
    case 2
    show ?case
    proof (cases "n \<in> finished")
      case True
      then obtain os where w: "wr v = Inr os" using 2 by (auto split: sum.splits)
      have "numbered wr vs (kept @ pend) (dn @ [(n, os)]) lo hi"
        using 2(3) w by (auto simp: numbered_def)
      then show ?thesis using "2.IH"(4) [of os] 2 True w by simp
    next
      case False
      then show ?thesis using "2.IH"(2) 2 by simp
    qed
  }
qed auto


lemma put_all_prefix:
  "put_all put i xs = (ys, j, b) \<Longrightarrow> \<exists>zs. xs = ys @ zs \<and> (b = Inr True \<longrightarrow> zs = [])"
  by (induction put i xs arbitrary: ys j b rule: put_all.induct)
    (auto simp: Let_def split: sum.splits bool.splits prod.splits)

lemma put_all_accepted:
  "put_all put i xs = (ys, j, Inr False) \<Longrightarrow> \<exists>k x. put k x = Inr False"
  by (induction put i xs arbitrary: ys rule: put_all.induct)
    (auto simp: Let_def split: sum.splits bool.splits prod.splits)

lemma numbered_emit:
  assumes num: "numbered wr vs pend dn lo hi" and mem: "lo \<in> fst ` set dn"
  shows "numbered wr vs pend (AList.delete lo dn) (Suc lo) hi"
proof -
  have sub: "set (AList.delete lo dn) \<subseteq> set dn" by (auto simp: AList.delete_eq)
  have ks: "fst ` set (AList.delete lo dn) = fst ` set dn - {lo}"
    by (auto simp: AList.delete_eq image_iff)
  have d: "distinct (map fst pend)" "distinct (map fst dn)"
    "fst ` set pend \<inter> fst ` set dn = {}"
    using num by (auto simp: numbered_def)
  have "distinct (map fst (AList.delete lo dn))" using d(2) by (rule distinct_delete)
  moreover have "fst ` set pend \<inter> (fst ` set dn - {lo}) = {}" using d(3) by blast
  ultimately have "distinct (map fst pend @ map fst (AList.delete lo dn))"
    using d(1) ks by simp
  moreover have "fst ` set pend \<union> (fst ` set dn - {lo}) = {Suc lo..<hi}"
  proof -
    have "lo \<notin> fst ` set pend" using d(3) mem by blast
    then have "fst ` set pend \<union> (fst ` set dn - {lo}) = (fst ` set pend \<union> fst ` set dn) - {lo}"
      by blast
    also have "\<dots> = {lo..<hi} - {lo}" using num by (simp add: numbered_def)
    finally show ?thesis by auto
  qed
  moreover have "lo < hi" using num mem unfolding numbered_def by (metis UnI2 atLeastLessThan_iff)
  ultimately show ?thesis
    using num sub ks unfolding numbered_def by (metis (no_types, lifting) Suc_leI subsetD)
qed

text \<open>
  Emitting what is due keeps the invariant; when the destination refuses, what was put is a
  prefix of the outputs in order.
\<close>

definition ordered_prefix :: "('v \<Rightarrow> 'o list res) \<Rightarrow> 'v list \<Rightarrow> 'o list \<Rightarrow> bool" where
  "ordered_prefix wr vs out \<longleftrightarrow> (\<exists>zs. concat (map (done_of wr) vs) = out @ zs)"

lemma flow_inv_prefix: "flow_inv wr vs s \<Longrightarrow> ordered_prefix wr vs (pl_output s)"
  unfolding flow_inv_def ordered_prefix_def
  by (metis append_take_drop_id concat_append map_append)

lemma emit_due_inv:
  assumes "flow_inv wr vs s" "emit_due put k s = (s', b)"
  shows "ordered_prefix wr vs (pl_output s') \<and> (b = Inr True \<longrightarrow> flow_inv wr vs s') \<and>
    pl_pending s' = pl_pending s \<and> pl_source s' = pl_source s \<and> pl_closed s' = pl_closed s \<and>
    (b = Inr True \<longrightarrow> length (pl_completed s) \<le> k \<longrightarrow> pl_next_out s' \<notin> fst ` set (pl_completed s')) \<and>
    (b = Inr False \<longrightarrow> (\<exists>i x. put i x = Inr False))"
  using assms
proof (induction put k s rule: emit_due.induct)
  case (1 put s)
  then show ?case using flow_inv_prefix by auto
next
  case (2 put k s)
  let ?n = "pl_next_out s"
  show ?case
  proof (cases "map_of (pl_completed s) ?n")
    case None
    then have "s' = s" "b = Inr True" using 2(3) by auto
    then show ?thesis using 2(2) None flow_inv_prefix by (auto simp: map_of_eq_None_iff)
  next
    case (Some os)
    obtain ys j c where pa: "put_all put (pl_puts s) os = (ys, j, c)"
      by (cases "put_all put (pl_puts s) os")
    let ?s1 = "s\<lparr>pl_completed := AList.delete ?n (pl_completed s),
                 pl_output := pl_output s @ ys, pl_puts := j\<rparr>"
    have mem: "(?n, os) \<in> set (pl_completed s)" by (rule map_of_SomeD [OF Some])
    have num: "numbered wr vs (pl_pending s) (pl_completed s) ?n (pl_next_seq s)"
      using 2(2) by (simp add: flow_inv_def)
    have lt: "?n < length vs" "wr (vs ! ?n) = Inr os" using num mem by (auto simp: numbered_def)
    have out: "concat (map (done_of wr) (take (Suc ?n) vs)) = pl_output s @ os"
      using 2(2) lt by (simp add: take_Suc_conv_app_nth flow_inv_def done_of_def)
    obtain zs where zs: "os = ys @ zs" "c = Inr True \<longrightarrow> zs = []" using put_all_prefix [OF pa] by blast
    show ?thesis
    proof (cases "c = Inr True")
      case True
      let ?s2 = "?s1\<lparr>pl_next_out := Suc ?n\<rparr>"
      have "?n \<in> fst ` set (pl_completed s)" using mem by force
      from numbered_emit [OF num this]
      have inv: "flow_inv wr vs ?s2"
        using 2(2) out zs True by (auto simp: flow_inv_def)
      have "length (AList.delete ?n (pl_completed s)) < length (pl_completed s)"
        unfolding AList.delete_eq by (rule length_filter_less [OF mem]) simp
      then show ?thesis
        using 2(1) [OF Some pa [symmetric] refl refl refl True inv] 2(3) Some pa True
        by (auto simp: Let_def)
    next
      case False
      have "ordered_prefix wr vs (pl_output s @ ys)"
        using out zs(1) unfolding ordered_prefix_def
        by (metis append.assoc append_take_drop_id concat_append map_append)
      then show ?thesis
        using 2(3) Some pa False put_all_accepted [of put "pl_puts s" os ys j] by (auto simp: Let_def)
    qed
  qed
qed


text \<open>What one iteration of the main loop does to a state that satisfies the invariant.\<close>

definition due_free :: "('v, 'o) pipeline_state \<Rightarrow> bool" where
  "due_free s \<longleftrightarrow> pl_next_out s \<notin> fst ` set (pl_completed s)"

definition work_left :: "('v, 'o) pipeline_state \<Rightarrow> nat" where
  "work_left s = length (pl_source s) + length (pl_pending s)"

lemma admitted_inv:
  assumes "flow_inv wr vs s" "0 < par"
    and "(if pl_closed s then (pl_source s, pl_pending s, True, pl_next_seq s)
          else admit par (pl_source s) (pl_pending s) (pl_next_seq s)) = (src, pend, ended, n)"
  shows "flow_inv wr vs (s\<lparr>pl_source := src, pl_pending := pend, pl_closed := ended, pl_next_seq := n\<rparr>)
    \<and> length src + length pend = work_left s \<and> (pend = [] \<longrightarrow> ended)"
proof (cases "pl_closed s")
  case True
  then show ?thesis using assms by (auto simp: flow_inv_def work_left_def)
next
  case False
  then have a: "admit par (pl_source s) (pl_pending s) (pl_next_seq s) = (src, pend, ended, n)"
    using assms(3) by simp
  have "pl_next_seq s \<le> length vs" "pl_source s = drop (pl_next_seq s) vs"
    "numbered wr vs (pl_pending s) (pl_completed s) (pl_next_out s) (pl_next_seq s)"
    using assms(1) by (auto simp: flow_inv_def)
  note adm = admit_numbered [OF a this]
  show ?thesis
    using assms(1,2) adm admit_length [OF a] by (auto simp: flow_inv_def work_left_def)
qed

lemma pipeline_step_inv:
  assumes "flow_inv wr vs s" "due_free s" "0 < par"
    and "\<not> (pl_closed s \<and> pl_pending s = [])"
    and fair: "\<And>pend. pend \<noteq> [] \<Longrightarrow> fst ` set pend \<inter> finished pend \<noteq> {}"
  shows "case pipeline_step par wr put finished s of
      Continue s1 \<Rightarrow> flow_inv wr vs s1 \<and> due_free s1 \<and>
        (work_left s1 < work_left s \<or> work_left s1 = 0 \<and> pl_closed s1 \<and> \<not> pl_closed s) \<and>
        (pl_closed s \<longrightarrow> pl_closed s1)
    | Return s1 \<Rightarrow> ordered_prefix wr vs (pl_output s1) \<and> (\<exists>i x. put i x = Inr False)
    | Fail s1 e \<Rightarrow> ordered_prefix wr vs (pl_output s1)"
proof -
  obtain src pend ended n where adm:
    "(if pl_closed s then (pl_source s, pl_pending s, True, pl_next_seq s)
      else admit par (pl_source s) (pl_pending s) (pl_next_seq s)) = (src, pend, ended, n)"
    by (metis surj_pair)
  let ?s1 = "s\<lparr>pl_source := src, pl_pending := pend, pl_closed := ended, pl_next_seq := n\<rparr>"
  note ai = admitted_inv [OF assms(1,3) adm]
  have stay: "pl_closed s \<longrightarrow> ended" using adm by (auto split: if_splits)
  show ?thesis
  proof (cases "pend = []")
    case True
    have "\<not> pl_closed s" using adm True assms(4) by (auto split: if_splits)
    moreover have "src = []" using ai True by (auto simp: flow_inv_def)
    moreover have e: "ended = True" using ai True by simp
    ultimately show ?thesis
      using ai adm True assms(2) unfolding e
      by (simp add: pipeline_step_def due_free_def work_left_def)
  next
    case False
    obtain kept dn x where c: "collect wr pend (finished pend) [] (pl_completed ?s1) = ((kept, dn), x)"
      by (metis surj_pair)
    let ?s2 = "?s1\<lparr>pl_pending := kept, pl_completed := dn\<rparr>"
    show ?thesis
    proof (cases x)
      case (Inl e)
      have "ordered_prefix wr vs (pl_output s)" using flow_inv_prefix [OF assms(1)] .
      then show ?thesis using c adm False Inl by (simp add: pipeline_step_def)
    next
      case (Inr u)
      have "numbered wr vs ([] @ pend) (pl_completed ?s1) (pl_next_out s) n"
        using ai by (simp add: flow_inv_def)
      note cn = collect_numbered [OF c this]
      have inv2: "flow_inv wr vs ?s2" using ai cn Inr by (auto simp: flow_inv_def)
      obtain p where "p \<in> set pend" "fst p \<in> finished pend" using fair [OF False] by auto
      then have "length kept < length pend" using cn(2) Inr by (auto intro: length_filter_less)
      then have wl: "work_left ?s2 < work_left s" using ai by (simp add: work_left_def)
      obtain s3 b where e: "emit_due put (length dn) ?s2 = (s3, b)" by (metis surj_pair)
      note ed = emit_due_inv [OF inv2 e]
      have "work_left s3 = work_left ?s2" using ed by (simp add: work_left_def)
      then show ?thesis
        using c adm False Inr e ed wl stay
        by (auto simp: pipeline_step_def due_free_def split: sum.splits bool.splits)
    qed
  qed
qed

lemma pipeline_loop_inv:
  assumes "flow_inv wr vs s" "due_free s" "0 < par"
    and fair: "\<And>i pend. pend \<noteq> [] \<Longrightarrow> fst ` set pend \<inter> fin i pend \<noteq> {}"
    and "work_left s + (if pl_closed s then 1 else 2) \<le> fuel"
  shows "\<exists>s' r. pipeline_loop par wr put fin i fuel s = Some (s', r) \<and>
    ordered_prefix wr vs (pl_output s') \<and>
    (r = Inr () \<longrightarrow> (\<forall>i x. put i x \<noteq> Inr False) \<longrightarrow> pl_output s' = concat (map (done_of wr) vs))"
  using assms(1,2,5)
proof (induction fuel arbitrary: i s)
  case (Suc fuel)
  show ?case
  proof (cases "pl_closed s \<and> pl_pending s = []")
    case True
    have num: "numbered wr vs (pl_pending s) (pl_completed s) (pl_next_out s) (pl_next_seq s)"
      "pl_source s = drop (pl_next_seq s) vs" "pl_source s = []"
      "pl_output s = concat (map (done_of wr) (take (pl_next_out s) vs))"
      using Suc.prems(1) True by (auto simp: flow_inv_def)
    have "fst ` set (pl_completed s) = {pl_next_out s..<pl_next_seq s}" "pl_next_out s \<le> pl_next_seq s"
      using num(1) True by (auto simp: numbered_def)
    then have "pl_next_out s = pl_next_seq s"
      using Suc.prems(2) unfolding due_free_def by (metis atLeastLessThan_iff le_neq_implies_less order_refl)
    then have "pl_output s = concat (map (done_of wr) vs)" using num by simp
    then show ?thesis using True flow_inv_prefix [OF Suc.prems(1)] by simp
  next
    case False
    note st = pipeline_step_inv [where finished = "fin i" and put = put, OF Suc.prems(1,2) assms(3) False fair]
    show ?thesis
    proof (cases "pipeline_step par wr put (fin i) s")
      case (Continue s1)
      then have "flow_inv wr vs s1" "due_free s1"
        "work_left s1 + (if pl_closed s1 then 1 else 2) \<le> fuel"
        using st Suc.prems(3) by (auto split: if_splits)
      from Suc.IH [OF this] show ?thesis using Continue False by auto
    qed (use st False in auto)
  qed
qed (simp split: if_splits)

text \<open>
  C7: a pipeline emits in input order. With any positive parallelism, any sizes of outputs and
  any order in which the workers finish (at least one of the pending workers being done after
  each wait), the main loop ends after at most two iterations more than there are inputs. What
  it put is always a prefix of the outputs of the inputs in their order, whether a worker or a
  put raised or the destination refused a value; and when it ends normally and the destination
  refused nothing, it is all of them, each exactly once.
\<close>

theorem pipeline_ordered:
  assumes "0 < par" and "\<forall>i pend. pend \<noteq> [] \<longrightarrow> fst ` set pend \<inter> fin i pend \<noteq> {}"
  shows "\<exists>s r. pipeline_loop par (worker_result f handler) put fin 0 (length vs + 2) (pipeline_start vs) =
      Some (s, r) \<and>
    (\<exists>rest. concat (map (done_of (worker_result f handler)) vs) = pl_output s @ rest) \<and>
    (r = Inr () \<longrightarrow> (\<forall>i x. put i x \<noteq> Inr False) \<longrightarrow>
       pl_output s = concat (map (done_of (worker_result f handler)) vs))"
proof -
  have "flow_inv (worker_result f handler) vs (pipeline_start vs)" "due_free (pipeline_start vs)"
    "work_left (pipeline_start vs) + (if pl_closed (pipeline_start vs) then 1 else 2) \<le> length vs + 2"
    by (simp_all add: flow_inv_def pipeline_start_def numbered_def due_free_def work_left_def)
  from pipeline_loop_inv [OF this(1,2) assms(1) _ this(3)] assms(2) show ?thesis
    unfolding ordered_prefix_def by blast
qed

theorem pipeline_ordered_witness:
  "\<exists>s. pipeline_loop 2 (worker_result (\<lambda>v. Inr [v, v + 100]) None) (\<lambda>_ _. Inr True)
        (\<lambda>_ pend. {fst (last pend)}) 0 5 (pipeline_start [1, 2, 3 :: nat]) = Some (s, Inr ()) \<and>
     pl_output s = [1, 101, 2, 102, 3, 103]"
proof -
  have fair: "\<forall>i pend. pend \<noteq> [] \<longrightarrow>
      fst ` set pend \<inter> (\<lambda>_ pend. {fst (last pend)}) (i :: nat) (pend :: (nat \<times> nat) list) \<noteq> {}"
    by auto
  have run: "\<exists>s. pipeline_loop 2 (worker_result (\<lambda>v. Inr [v, v + 100]) None) (\<lambda>_ _. Inr True)
        (\<lambda>_ pend. {fst (last pend)}) 0 5 (pipeline_start [1, 2, 3 :: nat]) = Some (s, Inr ())"
    by (simp add: eval_nat_numeral pipeline_start_def pipeline_step_def worker_result_def)
  then obtain s where s: "pipeline_loop 2 (worker_result (\<lambda>v. Inr [v, v + 100]) None) (\<lambda>_ _. Inr True)
        (\<lambda>_ pend. {fst (last pend)}) 0 5 (pipeline_start [1, 2, 3 :: nat]) = Some (s, Inr ())"
    by blast
  have l: "length [1, 2, 3 :: nat] + 2 = 5" by simp
  have "pl_output s = [1, 101, 2, 102, 3, 103]"
    using pipeline_ordered [of 2, OF _ fair, of "\<lambda>v. Inr [v, v + 100]" None "\<lambda>_ _. Inr True" "[1, 2, 3]",
        unfolded l s]
    by (auto simp: done_of_def worker_result_def)
  with s show ?thesis by blast
qed

text \<open>
  A pipeline admits no more than its parallelism. Starting from at most \<open>par\<close> pending
  workers, admission never exceeds \<open>par\<close>, takes inputs only from the front of the source, loses
  none, and stops early only when the source has ended.
\<close>

theorem pipeline_admission_bounded:
  assumes "length pend \<le> par" "admit par src pend n = (src', pend', ended, n')"
  shows "length pend' \<le> par \<and> map snd pend' @ src' = map snd pend @ src \<and>
    (length pend' < par \<longrightarrow> ended \<and> src' = [])"
  using assms
  by (induction par src pend n rule: admit.induct) (auto split: if_splits)

theorem pipeline_admission_bounded_witness:
  "map snd [(0 :: nat, 5 :: nat), (1, 6)] @ [7] = [5, 6, 7]"
  using pipeline_admission_bounded [of "[]" 2 "[5, 6, 7]" 0 "[7]" "[(0, 5), (1, 6)]" False 2]
  by simp

text \<open>A pipe forwards the source in order until the destination refuses a value.\<close>

lemma pipe_loop_forwards:
  "pipe_loop put i vs = (fwd, rest, x) \<Longrightarrow>
     fwd = take (length fwd) vs \<and> rest = drop (Suc (length fwd)) vs \<and>
     (\<forall>j < length fwd. put (i + j) (vs ! j) = Inr True) \<and>
     (length fwd < length vs \<longrightarrow> put (i + length fwd) (vs ! length fwd) \<noteq> Inr True)"
proof (induction put i vs arbitrary: fwd rest rule: pipe_loop.induct)
  case (2 put i v vs)
  show ?case
  proof (cases "put i v = Inr True")
    case True
    obtain f r where p: "pipe_loop put (Suc i) vs = (f, r, x)" "fwd = v # f" "rest = r"
      using 2(2) True by (auto split: prod.splits)
    then show ?thesis
      using 2(1) True by (fastforce simp: less_Suc_eq_0_disj)
  qed (use 2 in \<open>auto split: sum.splits bool.splits\<close>)
qed simp

end
