(* ===== verification/Atom.thy ===== *)
theory Atom
  imports Reference
begin

text \<open>
  Atoms (\<open>src/src/basilisp/lang/atom.py\<close>): a reference whose state is replaced by compare and
  set. Other threads are an environment: the atom as it is at each point in time at which the
  running thread reads or swaps it. Python's \<open>==\<close> on states is the parameter \<open>eq\<close>.
\<close>

record ('v, 'm) atom = "('v, 'm) reference" +
  astate :: 'v

definition new_atom :: "'v \<Rightarrow> 'm \<Rightarrow> 'v validator option \<Rightarrow> ('v, 'm) atom res" where
  "new_atom state m vf =
     rbind (case vf of None \<Rightarrow> Inr () | Some f \<Rightarrow> run_validator (Some f) state) (\<lambda>_.
       Inr \<lparr>ref_meta = m, ref_validator = vf, ref_watches = [], astate = state\<rparr>)"

definition atom_deref :: "('v, 'm) atom \<Rightarrow> 'v" where
  "atom_deref a = astate a"

text \<open>\<open>_compare_and_set\<close>, under the lock.\<close>

definition cas_state :: "('v \<Rightarrow> 'v \<Rightarrow> bool) \<Rightarrow> 'v \<Rightarrow> 'v \<Rightarrow> ('v, 'm) atom \<Rightarrow> ('v, 'm) atom \<times> bool" where
  "cas_state eq old new a = (if \<not> eq (astate a) old then (a, False) else (a\<lparr>astate := new\<rparr>, True))"

text \<open>
  What an operation leaves: the atom, if the operation changed it, the watch calls made, and the
  result.
\<close>

type_synonym ('v, 'm, 'r) atom_outcome = "('v, 'm) atom option \<times> 'v watch_call list \<times> 'r res"

definition publish ::
    "'v watch_order \<Rightarrow> ('v, 'm) atom \<Rightarrow> 'v \<Rightarrow> 'v \<Rightarrow> 'r \<Rightarrow> ('v, 'm, 'r) atom_outcome" where
  "publish word a old new r =
     (let (calls, x) = notify_watches word a old new in (Some a, calls, rbind x (\<lambda>_. Inr r)))"

definition compare_and_set ::
    "('v \<Rightarrow> 'v \<Rightarrow> bool) \<Rightarrow> 'v watch_order \<Rightarrow> (nat \<Rightarrow> ('v, 'm) atom) \<Rightarrow> nat \<Rightarrow> 'v \<Rightarrow> 'v \<Rightarrow>
     ('v, 'm, bool) atom_outcome" where
  "compare_and_set eq word E n old new =
     (case validate (E n) new of
        Inl e \<Rightarrow> (None, [], Inl e)
      | Inr _ \<Rightarrow>
          (case cas_state eq old new (E (Suc n)) of
             (_, False) \<Rightarrow> (None, [], Inr False)
           | (a, True) \<Rightarrow> publish word a old new True))"

text \<open>
  The loops of \<open>swap\<close> and \<open>reset\<close>: one iteration reads the state at time \<open>n\<close> and compares and
  sets at time \<open>n + 1\<close>. The fuel bounds the iterations followed.
\<close>

fun atom_swap ::
    "('v \<Rightarrow> 'v \<Rightarrow> bool) \<Rightarrow> 'v watch_order \<Rightarrow> (nat \<Rightarrow> ('v, 'm) atom) \<Rightarrow> ('v \<Rightarrow> 'v res) \<Rightarrow> nat \<Rightarrow> nat \<Rightarrow>
     ('v, 'm, 'v) atom_outcome option" where
  "atom_swap eq word E f 0 n = None"
| "atom_swap eq word E f (Suc fuel) n =
     (let oldval = astate (E n) in
      case rbind (f oldval) (\<lambda>newval. rbind (validate (E n) newval) (\<lambda>_. Inr newval)) of
        Inl e \<Rightarrow> Some (None, [], Inl e)
      | Inr newval \<Rightarrow>
          (case cas_state eq oldval newval (E (Suc n)) of
             (_, False) \<Rightarrow> atom_swap eq word E f fuel (Suc (Suc n))
           | (a, True) \<Rightarrow> Some (publish word a oldval newval newval)))"

fun atom_reset ::
    "('v \<Rightarrow> 'v \<Rightarrow> bool) \<Rightarrow> 'v watch_order \<Rightarrow> (nat \<Rightarrow> ('v, 'm) atom) \<Rightarrow> 'v \<Rightarrow> nat \<Rightarrow> nat \<Rightarrow>
     ('v, 'm, 'v) atom_outcome option" where
  "atom_reset eq word E v 0 n = None"
| "atom_reset eq word E v (Suc fuel) n =
     (let oldval = astate (E n) in
      case validate (E n) v of
        Inl e \<Rightarrow> Some (None, [], Inl e)
      | Inr _ \<Rightarrow>
          (case cas_state eq oldval v (E (Suc n)) of
             (_, False) \<Rightarrow> atom_reset eq word E v fuel (Suc (Suc n))
           | (a, True) \<Rightarrow> Some (publish word a oldval v v)))"

section \<open>Properties\<close>

lemma publish_fst [simp]: "fst (publish word a old new r) = Some a"
  by (simp add: publish_def split_def Let_def)

lemma reset_is_swap: "atom_reset eq word E v fuel n = atom_swap eq word E (\<lambda>_. Inr v) fuel n"
  by (induction eq word E v fuel n rule: atom_reset.induct)
    (auto simp: Let_def cas_state_def split: sum.splits)

text \<open>
  C10: \<open>swap!\<close> is linearizable. If a swap publishes an atom then at some instant of its run the
  atom was replaced in one step: its state, equal to the value the function was applied to,
  became the function's result, accepted by the validator, and everything else about it stayed
  as it was at that instant. A swap whose function or validator raises publishes nothing.
\<close>

theorem swap_linearizable:
  assumes "atom_swap eq word E f fuel n = Some (out, calls, x)"
  shows "case out of
      Some a \<Rightarrow> (\<exists>t old new. n \<le> t \<and> old = astate (E t) \<and> eq (astate (E (Suc t))) old \<and>
        f old = Inr new \<and> accepts (ref_validator (E t)) new \<and> a = (E (Suc t))\<lparr>astate := new\<rparr>)
    | None \<Rightarrow> calls = [] \<and> (\<exists>e. x = Inl e)"
  using assms
proof (induction eq word E f fuel n rule: atom_swap.induct)
  case (2 eq word E f fuel n)
  show ?case
  proof (cases "rbind (f (astate (E n))) (\<lambda>newval. rbind (validate (E n) newval) (\<lambda>_. Inr newval))")
    case (Inl e)
    then have "out = None \<and> calls = [] \<and> x = Inl e" using 2(2) by (simp add: Let_def)
    then show ?thesis by simp
  next
    case (Inr new)
    then have f: "f (astate (E n)) = Inr new" "accepts (ref_validator (E n)) new"
      by (auto simp: rbind_eq_Inr_iff validate_accepts split: if_splits)
    show ?thesis
    proof (cases "eq (astate (E (Suc n))) (astate (E n))")
      case True
      then have "out = Some ((E (Suc n))\<lparr>astate := new\<rparr>)"
        using 2(2) Inr by (auto simp: Let_def cas_state_def publish_def split_def)
      then show ?thesis using f True by auto
    next
      case False
      then have "atom_swap eq word E f fuel (Suc (Suc n)) = Some (out, calls, x)"
        using 2(2) Inr by (simp add: Let_def cas_state_def)
      from 2(1) [OF refl Inr _ _ this] False show ?thesis
        by (auto simp: cas_state_def split: option.splits) (meson Suc_leD)+
    qed
  qed
qed simp

text \<open>
  A swap or reset ends once the other threads leave the atom alone. If the state stays equal
  to itself from time \<open>N\<close> on, then fuel \<open>N + 1\<close> is enough for a swap that starts at time 0.
\<close>

theorem swap_terminates:
  assumes "\<forall>i\<ge>N. eq (astate (E (Suc i))) (astate (E i))"
  shows "atom_swap eq word E f (Suc N) 0 \<noteq> None \<and> atom_reset eq word E v (Suc N) 0 \<noteq> None"
proof -
  have "N < n + fuel \<Longrightarrow> 0 < fuel \<Longrightarrow> atom_swap eq word E f fuel n \<noteq> None" for f n fuel
  proof (induction fuel arbitrary: n)
    case (Suc fuel)
    show ?case
    proof (cases "eq (astate (E (Suc n))) (astate (E n))")
      case False
      then have "n < N" using assms by (metis not_le)
      then have "atom_swap eq word E f fuel (Suc (Suc n)) \<noteq> None"
        using Suc.prems by (intro Suc.IH) auto
      then show ?thesis
        by (auto simp: Let_def cas_state_def split: sum.splits simp del: not_None_eq)
    qed (auto simp: Let_def cas_state_def split: sum.splits simp del: not_None_eq)
  qed simp
  from this [of 0 "Suc N" f] this [of 0 "Suc N" "\<lambda>_. Inr v"] show ?thesis
    unfolding reset_is_swap by auto
qed

text \<open>
  \<open>compare-and-set!\<close> replaces the state exactly when it equals the expected value at that
  instant and the new value is accepted; it answers whether it did.
\<close>

theorem compare_and_set_spec:
  "compare_and_set eq word E n old new =
     (if \<not> accepts (ref_validator (E n)) new then (None, [], Inl ExceptionInfo)
      else if \<not> eq (astate (E (Suc n))) old then (None, [], Inr False)
      else publish word ((E (Suc n))\<lparr>astate := new\<rparr>) old new True)"
  by (simp add: compare_and_set_def validate_accepts cas_state_def)

section \<open>Instances\<close>

definition demo_atom :: "nat \<Rightarrow> (nat, unit) atom" where
  "demo_atom v = \<lparr>ref_meta = (), ref_validator = None, ref_watches = [], astate = v\<rparr>"

text \<open>Another thread sets the state to 7 between the first read and the first compare and set.\<close>

definition demo_traffic :: "nat \<Rightarrow> (nat, unit) atom" where
  "demo_traffic i = demo_atom (if i = 0 then 3 else 7)"

lemma demo_swap:
  "atom_swap (=) (\<lambda>ws. ws) demo_traffic (\<lambda>x. Inr (x + 1)) 2 0 = Some (Some (demo_atom 8), [], Inr 8)"
  by (simp add: numeral_2_eq_2 demo_traffic_def demo_atom_def cas_state_def publish_def
      notify_watches_def validate_def run_validator_def)

theorem swap_linearizable_witness:
  "\<exists>t old. old = astate (demo_traffic t) \<and> astate (demo_traffic (Suc t)) = old \<and>
     demo_atom 8 = (demo_traffic (Suc t))\<lparr>astate := old + 1\<rparr>"
  using swap_linearizable [OF demo_swap] by auto

theorem swap_terminates_witness:
  "atom_swap (=) (\<lambda>ws. ws) demo_traffic (\<lambda>x. Inr (x + 1)) 2 0 \<noteq> None"
  using swap_terminates [of 1 "(=)" demo_traffic "\<lambda>ws. ws" "\<lambda>x. Inr (x + 1)"]
  by (simp add: demo_traffic_def numeral_2_eq_2 del: atom_swap.simps)

end
