(* ===== verification/Equality.thy ===== *)
theory Equality
  imports Complex_Main Prelude
begin

text \<open>
  Value equivalence and storage keys (\<open>src/src/basilisp/lang/equality.py\<close>).

  A Python value is, as far as this file looks at it, a bool, an exact number of one of four
  kinds, or something else. Python's \<open>==\<close> compares all the numbers, bools included, by their
  value; Clojure's \<open>=\<close> keeps the kinds apart. (Infinities and NaN are not modelled.)
\<close>

section \<open>Values\<close>

datatype 'a pyval =
    PyBool bool
  | PyInt int
  | PyFraction rat
  | PyDecimal rat
  | PyFloat rat
  | PyOther 'a

datatype 'a host = Number rat | Object 'a

fun host_of :: "'a pyval \<Rightarrow> 'a host" where
  "host_of (PyBool b) = Number (if b then 1 else 0)"
| "host_of (PyInt n) = Number (of_int n)"
| "host_of (PyFraction q) = Number q"
| "host_of (PyDecimal q) = Number q"
| "host_of (PyFloat q) = Number q"
| "host_of (PyOther x) = Object x"

text \<open>Python's \<open>==\<close>.\<close>

definition py_eq :: "'a pyval \<Rightarrow> 'a pyval \<Rightarrow> bool" where
  "py_eq a b \<longleftrightarrow> host_of a = host_of b"

datatype family = Integer | Ratio | DecimalFamily | Floating

fun numeric_family :: "'a pyval \<Rightarrow> family option" where
  "numeric_family (PyBool b) = None"
| "numeric_family (PyInt n) = Some Integer"
| "numeric_family (PyFraction q) = Some (if snd (quotient_of q) = 1 then Integer else Ratio)"
| "numeric_family (PyDecimal q) = Some DecimalFamily"
| "numeric_family (PyFloat q) = Some Floating"
| "numeric_family (PyOther x) = None"

definition numeric_equiv :: "'a pyval \<Rightarrow> 'a pyval \<Rightarrow> bool" where
  "numeric_equiv left right =
     (if numeric_family left = None \<and> numeric_family right = None then py_eq left right
      else if numeric_family left \<noteq> numeric_family right then False
      else py_eq left right)"

definition numeric_compare :: "'a pyval \<Rightarrow> 'a pyval \<Rightarrow> bool res" where
  "numeric_compare left right =
     (if numeric_family left = None \<or> numeric_family right = None then Inl TypeError
      else Inr (py_eq left right))"

section \<open>Storage keys\<close>

datatype 'a storage_key = Raw "'a pyval" | EquivalenceKey "'a pyval" family

text \<open>
  Python's \<open>==\<close> on storage keys: \<open>EquivalenceKey.__eq__\<close> when either side is one (the
  reflected call answers for a raw left side), else \<open>==\<close> on the values.
\<close>

fun key_eq :: "'a storage_key \<Rightarrow> 'a storage_key \<Rightarrow> bool" where
  "key_eq (EquivalenceKey v f) (EquivalenceKey w g) \<longleftrightarrow> f = g \<and> numeric_equiv v w"
| "key_eq (Raw v) (Raw w) \<longleftrightarrow> py_eq v w"
| "key_eq _ _ \<longleftrightarrow> False"

text \<open>\<open>hash((family, value))\<close>, for the hash functions \<open>hp\<close> of pairs and \<open>hv\<close> of values.\<close>

fun key_hash :: "(family \<Rightarrow> 'h \<Rightarrow> 'h) \<Rightarrow> ('a pyval \<Rightarrow> 'h) \<Rightarrow> 'a storage_key \<Rightarrow> 'h" where
  "key_hash hp hv (EquivalenceKey v f) = hp f (hv v)"
| "key_hash hp hv (Raw v) = hv v"

definition equivalence_key :: "'a pyval \<Rightarrow> 'a storage_key" where
  "equivalence_key v = (case numeric_family v of None \<Rightarrow> Raw v | Some f \<Rightarrow> EquivalenceKey v f)"

fun public_key :: "'a storage_key \<Rightarrow> 'a pyval" where
  "public_key (EquivalenceKey v f) = v"
| "public_key (Raw v) = v"

section \<open>Properties\<close>

lemma equivp_numeric_equiv: "equivp numeric_equiv"
proof (rule equivpI)
  show "reflp numeric_equiv" by (simp add: reflp_def numeric_equiv_def py_eq_def)
  show "symp numeric_equiv" by (auto simp: symp_def numeric_equiv_def py_eq_def)
  show "transp numeric_equiv"
    by (auto simp: transp_def numeric_equiv_def py_eq_def split: if_splits)
qed

lemma key_eq_equiv: "key_eq (equivalence_key a) (equivalence_key b) = numeric_equiv a b"
  by (cases "numeric_family a"; cases "numeric_family b")
    (auto simp: equivalence_key_def numeric_equiv_def)

text \<open>
  C11: storage keys realise Clojure's equality. The keys a collection stores for two values are
  equal exactly when the values are \<open>=\<close>; \<open>=\<close> is an equivalence relation that refines Python's
  \<open>==\<close> and never identifies numbers of different families; equal keys have equal hashes whenever
  Python's hash respects \<open>==\<close>; and the public value is recovered unchanged.
\<close>

theorem storage_keys_lawful:
  assumes "\<And>v w. py_eq v w \<Longrightarrow> hv v = hv w"
  shows "key_eq (equivalence_key a) (equivalence_key b) = numeric_equiv a b \<and>
    equivp (numeric_equiv :: 'a pyval \<Rightarrow> 'a pyval \<Rightarrow> bool) \<and>
    (numeric_equiv a b \<longrightarrow> py_eq a b \<and> numeric_family a = numeric_family b) \<and>
    (key_eq (equivalence_key a) (equivalence_key b) \<longrightarrow>
       key_hash hp hv (equivalence_key a) = key_hash hp hv (equivalence_key b)) \<and>
    public_key (equivalence_key a) = a"
proof (intro conjI impI)
  show eq: "key_eq (equivalence_key a) (equivalence_key b) = numeric_equiv a b"
    by (rule key_eq_equiv)
  show "equivp (numeric_equiv :: 'a pyval \<Rightarrow> 'a pyval \<Rightarrow> bool)" by (rule equivp_numeric_equiv)
  show le: "numeric_equiv a b \<Longrightarrow> py_eq a b"
    and fam: "numeric_equiv a b \<Longrightarrow> numeric_family a = numeric_family b"
    by (auto simp: numeric_equiv_def split: if_splits)
  show "key_hash hp hv (equivalence_key a) = key_hash hp hv (equivalence_key b)"
    if "key_eq (equivalence_key a) (equivalence_key b)"
  proof -
    have n: "numeric_equiv a b" using that eq by simp
    have "hv a = hv b" using assms le [OF n] by blast
    then show ?thesis using fam [OF n] by (simp add: equivalence_key_def split: option.split)
  qed
  show "public_key (equivalence_key a) = a"
    by (simp add: equivalence_key_def split: option.split)
qed

theorem storage_keys_lawful_witness:
  "key_eq (equivalence_key (PyInt 1)) (equivalence_key (PyFloat 1 :: nat pyval)) =
     numeric_equiv (PyInt 1) (PyFloat 1 :: nat pyval) \<and>
   \<not> numeric_equiv (PyInt 1) (PyFloat 1 :: nat pyval) \<and> py_eq (PyInt 1) (PyFloat 1 :: nat pyval)"
  using storage_keys_lawful
    [of "\<lambda>v. case host_of v of Number q \<Rightarrow> fst (quotient_of q) | Object n \<Rightarrow> int n"
       "PyInt 1" "PyFloat 1 :: nat pyval" "\<lambda>f h. h"]
  by (auto simp: py_eq_def numeric_equiv_def)

section \<open>Keys as pairs\<close>

text \<open>
  The two equalities of a value as one pair: two values have the same storage key when the
  pairs are equal, and are \<open>==\<close> for Python when the second components are.
\<close>

type_synonym 'a ckey = "family option \<times> 'a host"

definition ckey_of :: "'a pyval \<Rightarrow> 'a ckey" where
  "ckey_of v = (numeric_family v, host_of v)"

lemma ckey_of_eq:
  "ckey_of a = ckey_of b \<longleftrightarrow> key_eq (equivalence_key a) (equivalence_key b)"
  "snd (ckey_of a) = snd (ckey_of b) \<longleftrightarrow> py_eq a b"
  by (auto simp: key_eq_equiv ckey_of_def numeric_equiv_def py_eq_def)

text \<open>
  An unwrapped value \<open>v\<close> used as a key finds the storage key of \<open>w\<close> only if that is raw.
\<close>

definition raw_key :: "'a ckey \<Rightarrow> 'a ckey" where
  "raw_key k = (None, snd k)"

lemma raw_key_eq:
  "key_eq (Raw v) (equivalence_key w) \<longleftrightarrow> raw_key (ckey_of v) = ckey_of w"
  by (cases "numeric_family w")
    (auto simp: equivalence_key_def raw_key_def ckey_of_def py_eq_def)

end
