(* ===== verification/Cache.thy ===== *)
theory Cache
  imports Equality Atom
begin

text \<open>
  The cache policies of \<open>src/src/basilisp/core_cache.py\<close>: basic, function, FIFO, LRU, TTL, LU
  and LIRS caches, the operations they inherit, and the wrapped look-up.

  A persistent map is an association list over storage keys (pairs of a family and a host value,
  compared whole). The Python dicts that the policies keep beside it hold unwrapped keys, which
  Python compares by host value only and which keep the place and the key object of their first
  insertion. Lookups return \<open>None\<close> for Python's None. Metadata is carried along by every
  operation and is not modelled.
\<close>

section \<open>Maps and dicts\<close>

type_synonym ('a, 'v) pmap = "('a ckey \<times> 'v) list"

definition map_assoc :: "'a ckey \<Rightarrow> 'v \<Rightarrow> ('a, 'v) pmap \<Rightarrow> ('a, 'v) pmap" where
  "map_assoc k v m = AList.update k v m"

definition map_dissoc :: "'a ckey \<Rightarrow> ('a, 'v) pmap \<Rightarrow> ('a, 'v) pmap" where
  "map_dissoc k m = AList.delete k m"

type_synonym ('a, 'b) pdict = "('a ckey \<times> 'b) list"

fun pd_get :: "('a, 'b) pdict \<Rightarrow> 'a ckey \<Rightarrow> 'b option" where
  "pd_get [] k = None"
| "pd_get ((k', b) # d) k = (if snd k' = snd k then Some b else pd_get d k)"

fun pd_set :: "'a ckey \<Rightarrow> 'b \<Rightarrow> ('a, 'b) pdict \<Rightarrow> ('a, 'b) pdict" where
  "pd_set k b [] = [(k, b)]"
| "pd_set k b ((k', b') # d) = (if snd k' = snd k then (k', b) # d else (k', b') # pd_set k b d)"

definition pd_pop :: "'a ckey \<Rightarrow> ('a, 'b) pdict \<Rightarrow> ('a, 'b) pdict" where
  "pd_pop k d = filter (\<lambda>(k', _). snd k' \<noteq> snd k) d"

definition pd_has :: "('a, 'b) pdict \<Rightarrow> 'a ckey \<Rightarrow> bool" where
  "pd_has d k \<longleftrightarrow> pd_get d k \<noteq> None"

text \<open>\<open>min(d, key=d.__getitem__)\<close>: the first key with the least value; an empty dict raises.\<close>

fun min_entry :: "('a ckey \<times> 'b::linorder) \<Rightarrow> ('a, 'b) pdict \<Rightarrow> 'a ckey \<times> 'b" where
  "min_entry best [] = best"
| "min_entry best ((k, t) # d) = min_entry (if t < snd best then (k, t) else best) d"

definition min_key :: "('a, 'b::linorder) pdict \<Rightarrow> 'a ckey res" where
  "min_key d = (case d of [] \<Rightarrow> Inl ValueError | e # es \<Rightarrow> Inr (fst (min_entry e es)))"

section \<open>The operations of every cache\<close>

definition cache_lookup :: "('a, 'v) pmap \<Rightarrow> 'a ckey \<Rightarrow> 'v option \<Rightarrow> 'v option" where
  "cache_lookup m item not_found =
     (case map_of m item of Some v \<Rightarrow> Some v | None \<Rightarrow> not_found)"

definition cache_has :: "('a, 'v) pmap \<Rightarrow> 'a ckey \<Rightarrow> bool" where
  "cache_has m item \<longleftrightarrow> map_of m item \<noteq> None"

text \<open>Subscripting and \<open>entry\<close>, given the policy's own \<open>has\<close> and \<open>lookup\<close>.\<close>

definition cache_getitem :: "('c \<Rightarrow> 'k \<Rightarrow> bool) \<Rightarrow> ('c \<Rightarrow> 'k \<Rightarrow> 'v option) \<Rightarrow> 'c \<Rightarrow> 'k \<Rightarrow> 'v option res" where
  "cache_getitem has lookup c item = (if has c item then Inr (lookup c item) else Inl KeyError)"

definition cache_entry ::
    "('c \<Rightarrow> 'k \<Rightarrow> bool) \<Rightarrow> ('c \<Rightarrow> 'k \<Rightarrow> 'v option) \<Rightarrow> 'c \<Rightarrow> 'k \<Rightarrow> ('k \<times> 'v option) option" where
  "cache_entry has lookup c item = (if has c item then Some (item, lookup c item) else None)"

text \<open>\<open>assoc\<close> is a sequence of misses, \<open>dissoc\<close> one of evictions.\<close>

fun pairs_of :: "'b list \<Rightarrow> ('b \<times> 'b) list" where
  "pairs_of (a # b # rest) = (a, b) # pairs_of rest"
| "pairs_of _ = []"

definition cache_assoc ::
    "('c \<Rightarrow> 'b \<Rightarrow> 'b \<Rightarrow> 'c res) \<Rightarrow> 'c \<Rightarrow> 'b list \<Rightarrow> 'c res" where
  "cache_assoc miss c kvs =
     (if odd (length kvs) then Inl ValueError
      else foldM (\<lambda>r (k, v). miss r k v) c (pairs_of kvs))"

definition cache_dissoc :: "('c \<Rightarrow> 'k \<Rightarrow> 'c res) \<Rightarrow> 'c \<Rightarrow> 'k list \<Rightarrow> 'c res" where
  "cache_dissoc evict c ks = foldM evict c ks"

section \<open>Basic and function caches\<close>

type_synonym ('a, 'v) basic_cache = "('a, 'v) pmap"

definition basic_hit :: "('a, 'v) basic_cache \<Rightarrow> 'a ckey \<Rightarrow> ('a, 'v) basic_cache" where
  "basic_hit c item = c"

definition basic_miss :: "('a, 'v) basic_cache \<Rightarrow> 'a ckey \<Rightarrow> 'v \<Rightarrow> ('a, 'v) basic_cache" where
  "basic_miss c item result = map_assoc item result c"

definition basic_evict :: "('a, 'v) basic_cache \<Rightarrow> 'a ckey \<Rightarrow> ('a, 'v) basic_cache" where
  "basic_evict c item = map_dissoc item c"

definition basic_seed :: "('a, 'v) basic_cache \<Rightarrow> ('a, 'v) pmap \<Rightarrow> ('a, 'v) basic_cache" where
  "basic_seed c base = base"

text \<open>A function cache looks its item up without wrapping it.\<close>

definition fn_lookup :: "('v \<Rightarrow> 'w) \<Rightarrow> ('a, 'v) pmap \<Rightarrow> 'a ckey \<Rightarrow> 'w option \<Rightarrow> 'w option" where
  "fn_lookup f m item not_found =
     (case map_of m (raw_key item) of None \<Rightarrow> not_found | Some v \<Rightarrow> Some (f v))"

section \<open>FIFO\<close>

text \<open>The queue holds keys, or None for the placeholder \<open>_FREE\<close>.\<close>

record ('a, 'v) fifo_cache =
  fifo_map :: "('a, 'v) pmap"
  fifo_q :: "'a ckey option list"
  fifo_limit :: nat

definition new_fifo :: "('a, 'v) pmap \<Rightarrow> 'a ckey option list \<Rightarrow> int \<Rightarrow> ('a, 'v) fifo_cache res" where
  "new_fifo m q limit =
     (if limit \<le> 0 then Inl ValueError
      else Inr \<lparr>fifo_map = m, fifo_q = q, fifo_limit = nat limit\<rparr>)"

definition fifo_miss :: "('a, 'v) fifo_cache \<Rightarrow> 'a ckey \<Rightarrow> 'v \<Rightarrow> ('a, 'v) fifo_cache" where
  "fifo_miss c item result =
     (let q = (if fifo_q c = [] then replicate (fifo_limit c) None else fifo_q c);
          base = (if length (fifo_map c) \<ge> fifo_limit c
                  then (case hd q of None \<Rightarrow> fifo_map c | Some h \<Rightarrow> map_dissoc h (fifo_map c))
                  else fifo_map c)
      in c\<lparr>fifo_map := map_assoc item result base, fifo_q := tl q @ [Some item]\<rparr>)"

definition fifo_evict :: "('a, 'v) fifo_cache \<Rightarrow> 'a ckey \<Rightarrow> ('a, 'v) fifo_cache" where
  "fifo_evict c item =
     (if \<not> cache_has (fifo_map c) item then c
      else c\<lparr>fifo_map := map_dissoc item (fifo_map c),
             fifo_q := None # filter (\<lambda>e. case e of None \<Rightarrow> True | Some k \<Rightarrow> snd k \<noteq> snd item)
                                     (fifo_q c)\<rparr>)"

definition fifo_seed :: "('a, 'v) fifo_cache \<Rightarrow> ('a, 'v) pmap \<Rightarrow> ('a, 'v) fifo_cache" where
  "fifo_seed c base =
     (let keeping = drop (length base - fifo_limit c) base
      in c\<lparr>fifo_map := keeping,
           fifo_q := replicate (fifo_limit c - length keeping) None @ map (Some \<circ> fst) keeping\<rparr>)"

section \<open>LRU\<close>

record ('a, 'v) lru_cache =
  lru_map :: "('a, 'v) pmap"
  lru_dict :: "('a, nat) pdict"
  lru_tick :: nat
  lru_limit :: nat

definition new_lru :: "('a, 'v) pmap \<Rightarrow> ('a, nat) pdict \<Rightarrow> nat \<Rightarrow> int \<Rightarrow> ('a, 'v) lru_cache res" where
  "new_lru m lru tick limit =
     (if limit \<le> 0 then Inl ValueError
      else Inr \<lparr>lru_map = m, lru_dict = lru, lru_tick = tick, lru_limit = nat limit\<rparr>)"

definition lru_hit :: "('a, 'v) lru_cache \<Rightarrow> 'a ckey \<Rightarrow> ('a, 'v) lru_cache" where
  "lru_hit c item =
     (let tick = lru_tick c + 1;
          lru = (if cache_has (lru_map c) item then pd_set item tick (lru_dict c) else lru_dict c)
      in c\<lparr>lru_dict := lru, lru_tick := tick\<rparr>)"

text \<open>
  The victim when the dict is full: the item itself if it is in the dict, else the least key.
  \<open>evict_victim\<close> is the part that \<open>LRUCache\<close> and \<open>LUCache\<close> share.
\<close>

definition evict_victim ::
    "nat \<Rightarrow> 'a ckey \<Rightarrow> ('a, 'v) pmap \<Rightarrow> ('a, nat) pdict \<Rightarrow> (('a, 'v) pmap \<times> ('a, nat) pdict) res" where
  "evict_victim limit item base d =
     (if length d \<ge> limit then
        rbind (if pd_has d item then Inr item else min_key d) (\<lambda>victim.
          Inr (map_dissoc victim base, pd_pop victim d))
      else Inr (base, d))"

definition lru_miss :: "('a, 'v) lru_cache \<Rightarrow> 'a ckey \<Rightarrow> 'v \<Rightarrow> ('a, 'v) lru_cache res" where
  "lru_miss c item result =
     (let tick = lru_tick c + 1 in
      rbind (evict_victim (lru_limit c) item (lru_map c) (lru_dict c)) (\<lambda>(base, lru).
        Inr (c\<lparr>lru_map := map_assoc item result base, lru_dict := pd_set item tick lru,
               lru_tick := tick\<rparr>)))"

definition lru_evict :: "('a, 'v) lru_cache \<Rightarrow> 'a ckey \<Rightarrow> ('a, 'v) lru_cache" where
  "lru_evict c item =
     (if \<not> cache_has (lru_map c) item then c
      else c\<lparr>lru_map := map_dissoc item (lru_map c), lru_dict := pd_pop item (lru_dict c),
             lru_tick := lru_tick c + 1\<rparr>)"

text \<open>\<open>{key: n for key in base}\<close>: a later key that Python finds equal replaces the value only.\<close>

definition dict_of_keys :: "'b \<Rightarrow> ('a, 'v) pmap \<Rightarrow> ('a, 'b) pdict" where
  "dict_of_keys b base = foldl (\<lambda>d k. pd_set k b d) [] (map fst base)"

definition lru_seed :: "('a, 'v) lru_cache \<Rightarrow> ('a, 'v) pmap \<Rightarrow> ('a, 'v) lru_cache" where
  "lru_seed c base = c\<lparr>lru_map := base, lru_dict := dict_of_keys 0 base, lru_tick := 0\<rparr>"

section \<open>LU\<close>

record ('a, 'v) lu_cache =
  lu_map :: "('a, 'v) pmap"
  lu_dict :: "('a, nat) pdict"
  lu_limit :: nat

definition new_lu :: "('a, 'v) pmap \<Rightarrow> ('a, nat) pdict \<Rightarrow> int \<Rightarrow> ('a, 'v) lu_cache res" where
  "new_lu m lu limit =
     (if limit \<le> 0 then Inl ValueError
      else Inr \<lparr>lu_map = m, lu_dict = lu, lu_limit = nat limit\<rparr>)"

definition lu_hit :: "('a, 'v) lu_cache \<Rightarrow> 'a ckey \<Rightarrow> ('a, 'v) lu_cache res" where
  "lu_hit c item =
     (case pd_get (lu_dict c) item of
        None \<Rightarrow> Inl KeyError
      | Some n \<Rightarrow> Inr (c\<lparr>lu_dict := pd_set item (n + 1) (lu_dict c)\<rparr>))"

definition lu_miss :: "('a, 'v) lu_cache \<Rightarrow> 'a ckey \<Rightarrow> 'v \<Rightarrow> ('a, 'v) lu_cache res" where
  "lu_miss c item result =
     rbind (evict_victim (lu_limit c) item (lu_map c) (lu_dict c)) (\<lambda>(base, lu).
       Inr (c\<lparr>lu_map := map_assoc item result base,
              lu_dict := pd_set item ((case pd_get lu item of None \<Rightarrow> 0 | Some n \<Rightarrow> n) + 1) lu\<rparr>))"

definition lu_evict :: "('a, 'v) lu_cache \<Rightarrow> 'a ckey \<Rightarrow> ('a, 'v) lu_cache" where
  "lu_evict c item =
     (if \<not> cache_has (lu_map c) item then c
      else c\<lparr>lu_map := map_dissoc item (lu_map c), lu_dict := pd_pop item (lu_dict c)\<rparr>)"

definition lu_seed :: "('a, 'v) lu_cache \<Rightarrow> ('a, 'v) pmap \<Rightarrow> ('a, 'v) lu_cache" where
  "lu_seed c base = c\<lparr>lu_map := base, lu_dict := dict_of_keys 0 base\<rparr>"


section \<open>TTL\<close>

text \<open>
  The dict holds the generation and creation time of a key; the queue the same in the order of
  insertion. An operation that asks the clock is given the time it answers, in milliseconds.
\<close>

record ('a, 'v) ttl_cache =
  ttl_map :: "('a, 'v) pmap"
  ttl_dict :: "('a, nat \<times> int) pdict"
  ttl_q :: "('a ckey \<times> nat \<times> int) list"
  ttl_gen :: nat
  ttl_ms :: int

definition new_ttl ::
    "('a, 'v) pmap \<Rightarrow> ('a, nat \<times> int) pdict \<Rightarrow> ('a ckey \<times> nat \<times> int) list \<Rightarrow> nat \<Rightarrow> int \<Rightarrow>
     ('a, 'v) ttl_cache res" where
  "new_ttl m ttl q gen ms =
     (if ms < 0 then Inl ValueError
      else Inr \<lparr>ttl_map = m, ttl_dict = ttl, ttl_q = q, ttl_gen = gen, ttl_ms = ms\<rparr>)"

text \<open>\<open>item in self._inner\<close> looks the item up without wrapping it.\<close>

definition ttl_has :: "int \<Rightarrow> ('a, 'v) ttl_cache \<Rightarrow> 'a ckey \<Rightarrow> bool" where
  "ttl_has now c item \<longleftrightarrow>
     (let created = (case pd_get (ttl_dict c) item of None \<Rightarrow> - ttl_ms c | Some (_, t) \<Rightarrow> t)
      in map_of (ttl_map c) (raw_key item) \<noteq> None \<and> now - created < ttl_ms c)"

definition ttl_lookup :: "int \<Rightarrow> ('a, 'v) ttl_cache \<Rightarrow> 'a ckey \<Rightarrow> 'v option \<Rightarrow> 'v option" where
  "ttl_lookup now c item not_found =
     (if ttl_has now c item then map_of (ttl_map c) item else not_found)"

text \<open>\<open>_prune\<close>: the keys whose entries are stale, and the queue without its expired front.\<close>

fun ttl_prune ::
    "int \<Rightarrow> int \<Rightarrow> ('a, nat \<times> int) pdict \<Rightarrow> ('a ckey \<times> nat \<times> int) list \<Rightarrow>
     'a ckey list \<times> ('a ckey \<times> nat \<times> int) list" where
  "ttl_prune now ms ttl [] = ([], [])"
| "ttl_prune now ms ttl ((k, g, t) # q) =
     (if now - t > ms
      then (let (ks, q') = ttl_prune now ms ttl q
            in (if map_option fst (pd_get ttl k) = Some g then k # ks else ks, q'))
      else ([], (k, g, t) # q))"

definition ttl_miss :: "int \<Rightarrow> ('a, 'v) ttl_cache \<Rightarrow> 'a ckey \<Rightarrow> 'v \<Rightarrow> ('a, 'v) ttl_cache" where
  "ttl_miss now c item result =
     (let (stale, queue) = ttl_prune now (ttl_ms c) (ttl_dict c) (ttl_q c);
          base = map_assoc item result (foldl (\<lambda>m k. map_dissoc k m) (ttl_map c) stale);
          ttl = filter (\<lambda>(k, _). \<forall>s \<in> set stale. snd s \<noteq> snd k) (ttl_dict c)
      in c\<lparr>ttl_map := base, ttl_dict := pd_set item (ttl_gen c, now) ttl,
           ttl_q := queue @ [(item, ttl_gen c, now)], ttl_gen := ttl_gen c + 1\<rparr>)"

definition ttl_evict :: "('a, 'v) ttl_cache \<Rightarrow> 'a ckey \<Rightarrow> ('a, 'v) ttl_cache" where
  "ttl_evict c item =
     c\<lparr>ttl_map := map_dissoc item (ttl_map c),
       ttl_dict := (if \<not> pd_has (ttl_dict c) item then ttl_dict c else pd_pop item (ttl_dict c))\<rparr>"

definition ttl_seed :: "int \<Rightarrow> ('a, 'v) ttl_cache \<Rightarrow> ('a, 'v) pmap \<Rightarrow> ('a, 'v) ttl_cache" where
  "ttl_seed now c base =
     c\<lparr>ttl_map := base, ttl_dict := dict_of_keys (ttl_gen c, now) base,
       ttl_q := ttl_q c @ map (\<lambda>(k, _). (k, ttl_gen c, now)) base, ttl_gen := ttl_gen c + 1\<rparr>"

section \<open>LIRS\<close>

record ('a, 'v) lirs_cache =
  lirs_map :: "('a, 'v) pmap"
  lirs_s :: "('a, int) pdict"
  lirs_q :: "('a, int) pdict"
  lirs_tick :: int
  lirs_limit_s :: nat
  lirs_limit_q :: nat

definition new_lirs ::
    "('a, 'v) pmap \<Rightarrow> ('a, int) pdict \<Rightarrow> ('a, int) pdict \<Rightarrow> int \<Rightarrow> int \<Rightarrow> int \<Rightarrow>
     ('a, 'v) lirs_cache res" where
  "new_lirs m s q tick limit_s limit_q =
     (if limit_s \<le> 0 \<or> limit_q \<le> 0 then Inl ValueError
      else Inr \<lparr>lirs_map = m, lirs_s = s, lirs_q = q, lirs_tick = tick,
                lirs_limit_s = nat limit_s, lirs_limit_q = nat limit_q\<rparr>)"

text \<open>
  \<open>_prune\<close>: drop the oldest entries of S that are in Q or no longer cached. Each round removes an
  entry, so the size of the dict bounds the rounds.
\<close>

fun lirs_prune_rounds ::
    "nat \<Rightarrow> ('a, int) pdict \<Rightarrow> ('a, int) pdict \<Rightarrow> ('a, 'v) pmap \<Rightarrow> ('a, int) pdict" where
  "lirs_prune_rounds 0 s q m = s"
| "lirs_prune_rounds (Suc n) s q m =
     (case min_key s of
        Inl _ \<Rightarrow> s
      | Inr k \<Rightarrow>
          (if pd_has q k \<or> \<not> cache_has m k then lirs_prune_rounds n (pd_pop k s) q m else s))"

definition lirs_prune :: "('a, int) pdict \<Rightarrow> ('a, int) pdict \<Rightarrow> ('a, 'v) pmap \<Rightarrow> ('a, int) pdict" where
  "lirs_prune s q m = lirs_prune_rounds (length s) s q m"

definition lirs_hit :: "('a, 'v) lirs_cache \<Rightarrow> 'a ckey \<Rightarrow> ('a, 'v) lirs_cache res" where
  "lirs_hit c item =
     (let tick = lirs_tick c + 1; s = lirs_s c; q = lirs_q c in
      if \<not> pd_has s item
      then Inr (c\<lparr>lirs_s := pd_set item tick s, lirs_q := pd_set item tick q, lirs_tick := tick\<rparr>)
      else rbind (min_key s) (\<lambda>oldest_s.
        if pd_has q item
        then (let q1 = pd_set oldest_s tick (pd_pop item q);
                  s1 = pd_set item tick (pd_pop oldest_s s)
              in Inr (c\<lparr>lirs_s := lirs_prune s1 q1 (lirs_map c), lirs_q := q1,
                        lirs_tick := tick\<rparr>))
        else Inr (c\<lparr>lirs_s := lirs_prune (pd_set item tick s) q (lirs_map c),
                    lirs_tick := tick\<rparr>)))"

definition lirs_miss :: "('a, 'v) lirs_cache \<Rightarrow> 'a ckey \<Rightarrow> 'v \<Rightarrow> ('a, 'v) lirs_cache res" where
  "lirs_miss c item result =
     (let tick = lirs_tick c + 1; s = lirs_s c; q = lirs_q c in
      if length (lirs_map c) < lirs_limit_s c
      then rbind (min_key s) (\<lambda>oldest_s.
        Inr (c\<lparr>lirs_map := map_assoc item result (lirs_map c),
               lirs_s := pd_set item tick (pd_pop oldest_s s), lirs_tick := tick\<rparr>))
      else rbind (min_key q) (\<lambda>oldest_q.
        let q1 = pd_pop oldest_q q;
            base = map_assoc item result (map_dissoc oldest_q (lirs_map c))
        in if pd_has s item
           then rbind (min_key s) (\<lambda>last_s.
             let s1 = lirs_prune (pd_set item tick (pd_pop last_s s)) q1 base
             in Inr (c\<lparr>lirs_map := base, lirs_s := s1, lirs_q := pd_set last_s tick q1,
                       lirs_tick := tick\<rparr>))
           else Inr (c\<lparr>lirs_map := base, lirs_s := pd_set item tick s,
                       lirs_q := pd_set item tick q1, lirs_tick := tick\<rparr>)))"

definition lirs_evict :: "('a, 'v) lirs_cache \<Rightarrow> 'a ckey \<Rightarrow> ('a, 'v) lirs_cache" where
  "lirs_evict c item =
     (if \<not> cache_has (lirs_map c) item then c
      else c\<lparr>lirs_map := map_dissoc item (lirs_map c), lirs_s := pd_pop item (lirs_s c),
             lirs_q := pd_pop item (lirs_q c)\<rparr>)"

text \<open>The integer keys -n, ..., -1, each with itself as its tick.\<close>

definition dummy_entries :: "nat \<Rightarrow> ('a, int) pdict" where
  "dummy_entries n = map (\<lambda>i. (ckey_of (PyInt i), i)) [- int n..-1]"

definition lirs_seed :: "('a, 'v) lirs_cache \<Rightarrow> ('a, 'v) pmap \<Rightarrow> ('a, 'v) lirs_cache" where
  "lirs_seed c base =
     c\<lparr>lirs_map := base, lirs_s := dummy_entries (lirs_limit_s c),
       lirs_q := dummy_entries (lirs_limit_q c), lirs_tick := 0\<rparr>"

section \<open>Factories\<close>

definition basic_cache_factory :: "('a, 'v) pmap \<Rightarrow> ('a, 'v) basic_cache" where
  "basic_cache_factory base = base"

definition fifo_cache_factory :: "('a, 'v) pmap \<Rightarrow> int \<Rightarrow> ('a, 'v) fifo_cache res" where
  "fifo_cache_factory base threshold =
     rbind (new_fifo [] [] threshold) (\<lambda>c. Inr (fifo_seed c base))"

definition lru_cache_factory :: "('a, 'v) pmap \<Rightarrow> int \<Rightarrow> ('a, 'v) lru_cache res" where
  "lru_cache_factory base threshold =
     rbind (new_lru [] [] 0 threshold) (\<lambda>c. Inr (lru_seed c base))"

definition ttl_cache_factory :: "int \<Rightarrow> ('a, 'v) pmap \<Rightarrow> int \<Rightarrow> ('a, 'v) ttl_cache res" where
  "ttl_cache_factory now base ms = rbind (new_ttl [] [] [] 0 ms) (\<lambda>c. Inr (ttl_seed now c base))"

definition lu_cache_factory :: "('a, 'v) pmap \<Rightarrow> int \<Rightarrow> ('a, 'v) lu_cache res" where
  "lu_cache_factory base threshold =
     rbind (new_lu [] [] threshold) (\<lambda>c. Inr (lu_seed c base))"

definition lirs_cache_factory :: "('a, 'v) pmap \<Rightarrow> int \<Rightarrow> int \<Rightarrow> ('a, 'v) lirs_cache res" where
  "lirs_cache_factory base limit_s limit_q =
     rbind (new_lirs [] [] [] 0 limit_s limit_q) (\<lambda>c. Inr (lirs_seed c base))"

definition soft_cache_factory :: "('a, 'v) pmap \<Rightarrow> ('a, 'v) basic_cache res" where
  "soft_cache_factory base = Inl NotImplementedError"

section \<open>Wrapped caches\<close>

text \<open>
  \<open>wrapped_lookup_or_miss\<close> and \<open>wrapped_through\<close> hold the atom's lock, so nothing interferes
  with the atom between the inspection and the \<open>reset\<close>. The cache protocol is that of the
  policy in the atom; \<open>compute\<close> is \<open>wrap_fn(value_fn, item)\<close>. The result is the atom afterwards.
\<close>

definition locked_reset ::
    "'c watch_order \<Rightarrow> ('c, 'm) atom \<Rightarrow> 'c \<Rightarrow> ('c, 'm) atom \<times> 'c watch_call list \<times> unit res" where
  "locked_reset word a c =
     (case validate a c of
        Inl e \<Rightarrow> (a, [], Inl e)
      | Inr _ \<Rightarrow>
          (let a' = a\<lparr>astate := c\<rparr>; (calls, x) = notify_watches word a' (astate a) c
           in (a', calls, x)))"

definition wrapped_lookup_or_miss ::
    "('c \<Rightarrow> 'k \<Rightarrow> bool) \<Rightarrow> ('c \<Rightarrow> 'k \<Rightarrow> 'v option) \<Rightarrow> ('c \<Rightarrow> 'k \<Rightarrow> 'v \<Rightarrow> 'c res) \<Rightarrow>
     'c watch_order \<Rightarrow> ('c, 'm) atom \<Rightarrow> 'k \<Rightarrow> ('k \<Rightarrow> 'v res) \<Rightarrow> ('c, 'm) atom \<times> 'v option res" where
  "wrapped_lookup_or_miss has lookup miss word a item compute =
     (let cache = astate a in
      if has cache item then (a, Inr (lookup cache item))
      else (case rbind (compute item) (\<lambda>v. miss cache item v) of
              Inl e \<Rightarrow> (a, Inl e)
            | Inr updated \<Rightarrow>
                (case locked_reset word a updated of
                   (a', _, x) \<Rightarrow> (a', rbind x (\<lambda>_. Inr (lookup updated item))))))"

definition wrapped_through ::
    "('c \<Rightarrow> 'k \<Rightarrow> bool) \<Rightarrow> ('c \<Rightarrow> 'k \<Rightarrow> 'c res) \<Rightarrow> ('c \<Rightarrow> 'k \<Rightarrow> 'v \<Rightarrow> 'c res) \<Rightarrow>
     'c watch_order \<Rightarrow> ('c, 'm) atom \<Rightarrow> 'k \<Rightarrow> ('k \<Rightarrow> 'v res) \<Rightarrow> ('c, 'm) atom \<times> 'c res" where
  "wrapped_through has hit miss word a item compute =
     (let cache = astate a in
      case (if has cache item then hit cache item
            else rbind (compute item) (\<lambda>v. miss cache item v)) of
        Inl e \<Rightarrow> (a, Inl e)
      | Inr updated \<Rightarrow>
          (case locked_reset word a updated of (a', _, x) \<Rightarrow> (a', rbind x (\<lambda>_. Inr updated))))"

end
