(* ===== verification/CacheProtocol.thy ===== *)
theory CacheProtocol
  imports Cache
begin

text \<open>
  The protocol that the cache policies share, as a locale; what its clients, the wrapped look-ups
  and \<open>core.memoize\<close>, get from it; and each policy as an instance.
\<close>

section \<open>The protocol\<close>

text \<open>
  \<open>ok\<close> restricts the keys the laws are stated for. A miss may evict other items, and a hit may
  reorder the policy's records, but neither invents or changes a value.
\<close>

locale cache_protocol =
  fixes inv :: "'c \<Rightarrow> bool"
    and ok :: "'k \<Rightarrow> bool"
    and has :: "'c \<Rightarrow> 'k \<Rightarrow> bool"
    and lookup :: "'c \<Rightarrow> 'k \<Rightarrow> 'v option"
    and hit :: "'c \<Rightarrow> 'k \<Rightarrow> 'c res"
    and miss :: "'c \<Rightarrow> 'k \<Rightarrow> 'v \<Rightarrow> 'c res"
    and evict :: "'c \<Rightarrow> 'k \<Rightarrow> 'c"
  assumes has_lookup: "inv c \<Longrightarrow> has c k \<longleftrightarrow> lookup c k \<noteq> None"
    and miss_law: "inv c \<Longrightarrow> ok k \<Longrightarrow> miss c k v = Inr c' \<Longrightarrow>
      inv c' \<and> lookup c' k = Some v \<and> (\<forall>x. x \<noteq> k \<longrightarrow> lookup c' x = None \<or> lookup c' x = lookup c x)"
    and hit_law: "inv c \<Longrightarrow> ok k \<Longrightarrow> has c k \<Longrightarrow> hit c k = Inr c' \<Longrightarrow>
      inv c' \<and> (\<forall>x. lookup c' x = lookup c x)"
    and evict_law: "inv c \<Longrightarrow> ok k \<Longrightarrow>
      inv (evict c k) \<and> lookup (evict c k) k = None \<and>
      (\<forall>x. x \<noteq> k \<longrightarrow> lookup (evict c k) x = lookup c x)"
begin

definition coherent :: "('k \<Rightarrow> 'v res) \<Rightarrow> 'c \<Rightarrow> bool" where
  "coherent f c \<longleftrightarrow> inv c \<and> (\<forall>k v. lookup c k = Some v \<longrightarrow> f k = Inr v)"

lemma coherent_miss:
  assumes "coherent f c" "ok k" "f k = Inr v" "miss c k v = Inr c'"
  shows "coherent f c' \<and> lookup c' k = Some v"
proof -
  have m: "inv c'" "lookup c' k = Some v"
    "\<forall>x. x \<noteq> k \<longrightarrow> lookup c' x = None \<or> lookup c' x = lookup c x"
    using miss_law [of c k v c'] assms by (auto simp: coherent_def)
  have "f x = Inr w" if "lookup c' x = Some w" for x w
  proof (cases "x = k")
    case True
    then show ?thesis using that m(2) assms(3) by simp
  next
    case False
    then have "lookup c x = Some w" using that m(3) by (metis option.distinct(1))
    then show ?thesis using assms(1) by (simp add: coherent_def)
  qed
  then show ?thesis using m by (simp add: coherent_def)
qed

text \<open>
  A wrapped look-up answers what the function computes, whether from the cache or not, and keeps
  the cache coherent with it; an exception of the function leaves the cache alone.
\<close>

lemma wrapped_lookup_coherent:
  assumes "coherent f (astate a)" "ok k"
    and "wrapped_lookup_or_miss has lookup miss word a k f = (a', x)"
  shows "coherent f (astate a') \<and> (\<forall>r. x = Inr r \<longrightarrow> (\<exists>v. f k = Inr v \<and> r = Some v)) \<and>
    (\<forall>e. f k = Inl e \<longrightarrow> a' = a \<and> x = Inl e)"
proof (cases "has (astate a) k")
  case True
  then obtain v where "lookup (astate a) k = Some v" "f k = Inr v"
    using assms(1) has_lookup [of "astate a" k] by (auto simp: coherent_def)
  then show ?thesis
    using assms True by (auto simp: wrapped_lookup_or_miss_def Let_def)
next
  case False
  show ?thesis
  proof (cases "f k")
    case (Inl e)
    then show ?thesis using assms False by (auto simp: wrapped_lookup_or_miss_def Let_def)
  next
    case (Inr v)
    show ?thesis
    proof (cases "miss (astate a) k v")
      case (Inl e)
      then show ?thesis
        using assms False Inr by (auto simp: wrapped_lookup_or_miss_def Let_def)
    next
      case (Inr c')
      note m = coherent_miss [OF assms(1,2) \<open>f k = Inr v\<close> Inr]
      obtain b calls y where r: "locked_reset word a c' = (b, calls, y)" by (metis surj_pair)
      then have "astate b = astate a \<or> astate b = c'"
        by (auto simp: locked_reset_def Let_def split: sum.splits prod.splits)
      moreover have "a' = b" "x = rbind y (\<lambda>_. Inr (lookup c' k))"
        using assms(3) False Inr \<open>f k = Inr v\<close> r by (auto simp: wrapped_lookup_or_miss_def Let_def)
      ultimately show ?thesis
        using m assms(1) \<open>f k = Inr v\<close> by (auto simp: rbind_eq_Inr_iff)
    qed
  qed
qed

lemma wrapped_through_coherent:
  assumes "coherent f (astate a)" "ok k"
    and "wrapped_through has hit miss word a k f = (a', x)"
  shows "coherent f (astate a') \<and> (\<forall>c. x = Inr c \<longrightarrow> coherent f c \<and> (\<exists>v. lookup c k = Some v \<and> f k = Inr v))"
proof -
  let ?up = "if has (astate a) k then hit (astate a) k else rbind (f k) (\<lambda>v. miss (astate a) k v)"
  have up: "coherent f c \<and> (\<exists>v. lookup c k = Some v \<and> f k = Inr v)" if "?up = Inr c" for c
  proof (cases "has (astate a) k")
    case True
    then have "inv c" "\<forall>x. lookup c x = lookup (astate a) x"
      using that hit_law [of "astate a" k c] assms(1,2) by (auto simp: coherent_def)
    then show ?thesis
      using True assms(1) has_lookup [of "astate a" k] by (auto simp: coherent_def)
  next
    case False
    then show ?thesis
      using that coherent_miss [OF assms(1,2)] by (auto simp: rbind_eq_Inr_iff)
  qed
  show ?thesis
  proof (cases ?up)
    case (Inl e)
    then have "a' = a" "x = Inl e" using assms(3) by (auto simp: wrapped_through_def Let_def)
    then show ?thesis using assms(1) by simp
  next
    case (Inr c)
    obtain b calls y where r: "locked_reset word a c = (b, calls, y)" by (metis surj_pair)
    then have "astate b = astate a \<or> astate b = c"
      by (auto simp: locked_reset_def Let_def split: sum.splits prod.splits)
    moreover have "a' = b" "x = rbind y (\<lambda>_. Inr c)"
      using assms(3) Inr r by (auto simp: wrapped_through_def Let_def)
    ultimately show ?thesis using up [OF Inr] assms(1) by (auto simp: rbind_eq_Inr_iff)
  qed
qed

end

text \<open>A client that looks up one key after the other.\<close>

fun run_lookups ::
    "('c \<Rightarrow> 'k \<Rightarrow> bool) \<Rightarrow> ('c \<Rightarrow> 'k \<Rightarrow> 'v option) \<Rightarrow> ('c \<Rightarrow> 'k \<Rightarrow> 'v \<Rightarrow> 'c res) \<Rightarrow>
     'c watch_order \<Rightarrow> ('k \<Rightarrow> 'v res) \<Rightarrow> ('c, 'm) atom \<Rightarrow> 'k list \<Rightarrow>
     ('c, 'm) atom \<times> 'v option res list" where
  "run_lookups has lookup miss word f a [] = (a, [])"
| "run_lookups has lookup miss word f a (k # ks) =
     (let (a1, x) = wrapped_lookup_or_miss has lookup miss word a k f;
          (a2, xs) = run_lookups has lookup miss word f a1 ks
      in (a2, x # xs))"

text \<open>A protocol whose operations never raise on a well-formed cache.\<close>

locale total_cache_protocol = cache_protocol +
  assumes miss_total: "inv c \<Longrightarrow> ok k \<Longrightarrow> \<exists>c'. miss c k v = Inr c'"
    and hit_total: "inv c \<Longrightarrow> ok k \<Longrightarrow> has c k \<Longrightarrow> \<exists>c'. hit c k = Inr c'"
begin

lemma wrapped_lookup_total:
  assumes "coherent f (astate a)" "ok k" "ref_validator a = None" "ref_watches a = []"
    and "word [] = []"
  shows "\<exists>a'. wrapped_lookup_or_miss has lookup miss word a k f = (a', rbind (f k) (\<lambda>v. Inr (Some v))) \<and>
    coherent f (astate a') \<and> ref_validator a' = None \<and> ref_watches a' = []"
proof -
  obtain a' x where w: "wrapped_lookup_or_miss has lookup miss word a k f = (a', x)"
    by (metis surj_pair)
  note c = wrapped_lookup_coherent [OF assms(1,2) w]
  have ref: "ref_validator a' = None \<and> ref_watches a' = [] \<and> (f k = Inr v \<longrightarrow> x = Inr (Some v))" for v
  proof (cases "has (astate a) k \<or> (\<exists>e. f k = Inl e)")
    case True
    then show ?thesis
      using w assms(3,4) c by (auto simp: wrapped_lookup_or_miss_def Let_def)
  next
    case False
    then obtain u where f: "f k = Inr u" by (cases "f k") auto
    obtain c' where m: "miss (astate a) k u = Inr c'"
      using miss_total assms(1,2) unfolding coherent_def by blast
    have "locked_reset word a c' = (a\<lparr>astate := c'\<rparr>, [], Inr ())"
      using assms(3-5) by (simp add: locked_reset_def validate_def run_validator_def notify_watches_def)
    then have "a' = a\<lparr>astate := c'\<rparr>" "x = Inr (lookup c' k)"
      using w False f m by (auto simp: wrapped_lookup_or_miss_def Let_def)
    then show ?thesis
      using assms(3,4) coherent_miss [OF assms(1,2) f m] f by auto
  qed
  show ?thesis using w c ref by (cases "f k") auto
qed

text \<open>Any sequence of look-ups through the wrapped cache answers what the function computes.\<close>

lemma run_lookups_transparent:
  assumes "coherent f (astate a)" "\<forall>k \<in> set ks. ok k" "ref_validator a = None"
    and "ref_watches a = []" "word [] = []"
  shows "snd (run_lookups has lookup miss word f a ks) = map (\<lambda>k. rbind (f k) (\<lambda>v. Inr (Some v))) ks"
  using assms
proof (induction ks arbitrary: a)
  case (Cons k ks)
  obtain a' where "wrapped_lookup_or_miss has lookup miss word a k f =
      (a', rbind (f k) (\<lambda>v. Inr (Some v)))"
    "coherent f (astate a')" "ref_validator a' = None" "ref_watches a' = []"
    using wrapped_lookup_total [of f a k word] Cons.prems by auto
  then show ?case using Cons.IH [of a'] Cons.prems by (simp add: split_def Let_def)
qed simp

end

section \<open>Map and dict lemmas\<close>

named_theorems cache_simps \<open>maps and dicts of the caches\<close>

lemma map_of_map_assoc [cache_simps]: "map_of (map_assoc k v m) = (map_of m)(k \<mapsto> v)"
  by (simp add: map_assoc_def update_conv')

lemma map_of_map_dissoc [cache_simps]: "map_of (map_dissoc k m) = (map_of m)(k := None)"
  by (simp add: map_dissoc_def delete_conv')

lemma pd_get_eq: "pd_get d k = map_of (map (\<lambda>(k', b). (snd k', b)) d) (snd k)"
  by (induction d k rule: pd_get.induct) auto

lemma pd_get_set [cache_simps]:
  "pd_get (pd_set k b d) x = (if snd x = snd k then Some b else pd_get d x)"
  by (induction k b d rule: pd_set.induct) auto

lemma pd_get_pop [cache_simps]: "pd_get (pd_pop k d) x = (if snd x = snd k then None else pd_get d x)"
  by (induction d) (auto simp: pd_pop_def)

lemma pd_has_set [cache_simps]: "pd_has (pd_set k b d) x \<longleftrightarrow> snd x = snd k \<or> pd_has d x"
  by (simp add: pd_has_def pd_get_set)

lemma pd_has_pop [cache_simps]: "pd_has (pd_pop k d) x \<longleftrightarrow> snd x \<noteq> snd k \<and> pd_has d x"
  by (simp add: pd_has_def pd_get_pop)

lemma pd_has_iff: "pd_has d k \<longleftrightarrow> snd k \<in> (\<lambda>p. snd (fst p)) ` set d"
  unfolding pd_has_def by (induction d k rule: pd_get.induct) auto

lemma min_key_Nil [simp]: "min_key [] = Inl ValueError"
  by (simp add: min_key_def)

lemma min_key_Cons: "d \<noteq> [] \<Longrightarrow> \<exists>k. min_key d = Inr k"
  by (cases d) (auto simp: min_key_def)

lemma min_entry_in: "min_entry e d \<in> insert e (set d)"
proof (induction e d rule: min_entry.induct)
  case (2 best k t d)
  then show ?case by (cases "t < snd best") auto
qed simp

lemma min_key_in: "min_key d = Inr k \<Longrightarrow> k \<in> fst ` set d"
  using min_entry_in by (cases d) (fastforce simp: min_key_def)+

lemma min_entry_le: "x \<in> insert e (set d) \<Longrightarrow> snd (min_entry e d) \<le> snd x"
proof (induction e d arbitrary: x rule: min_entry.induct)
  case (2 best k t d)
  define e where "e = (if t < snd best then (k, t) else best)"
  note IH = 2(1) [folded e_def]
  have e: "snd e \<le> snd best" "snd e \<le> t" by (auto simp: e_def)
  have m: "snd (min_entry e d) \<le> snd e" by (rule IH) simp
  have "snd (min_entry e d) \<le> snd x"
  proof (cases "x \<in> set d")
    case True
    then show ?thesis by (intro IH) simp
  next
    case False
    then have "x = best \<or> x = (k, t)" using 2(2) by auto
    then show ?thesis using order_trans [OF m e(1)] order_trans [OF m e(2)] by auto
  qed
  then show ?case by (simp add: e_def)
qed simp

text \<open>Keys that Python and the persistent maps compare alike: integers and non-numbers.\<close>

definition plain_key :: "'a ckey \<Rightarrow> bool" where
  "plain_key k \<longleftrightarrow> (case snd k of Number q \<Rightarrow> fst k = Some Integer | Object x \<Rightarrow> fst k = None)"

lemma plain_key_eq: "plain_key k \<Longrightarrow> plain_key l \<Longrightarrow> snd k = snd l \<longleftrightarrow> k = l"
  by (cases k; cases l; cases "snd k") (auto simp: plain_key_def)

lemma plain_key_int: "plain_key (ckey_of (PyInt n))"
  by (simp add: plain_key_def ckey_of_def)

definition plain_pairs :: "('a ckey \<times> 'b) list \<Rightarrow> bool" where
  "plain_pairs d \<longleftrightarrow> (\<forall>p \<in> set d. plain_key (fst p)) \<and> distinct (map fst d)"


section \<open>The policies as instances\<close>

lemma cache_has_iff: "cache_has m k \<longleftrightarrow> cache_lookup m k None \<noteq> None"
  by (auto simp: cache_has_def cache_lookup_def split: option.split)

lemma cache_lookup_None: "cache_lookup m k None = map_of m k"
  by (simp add: cache_lookup_def split: option.split)

interpretation basic: total_cache_protocol "\<lambda>_. True" "\<lambda>_. True" cache_has
    "\<lambda>c k. cache_lookup c k None" "\<lambda>c k. Inr (basic_hit c k)" "\<lambda>c k v. Inr (basic_miss c k v)"
    basic_evict
  by unfold_locales
    (auto simp: cache_has_iff cache_lookup_None basic_hit_def basic_miss_def basic_evict_def
      cache_simps)

interpretation fifo: total_cache_protocol "\<lambda>_. True" "\<lambda>_. True" "\<lambda>c. cache_has (fifo_map c)"
    "\<lambda>c k. cache_lookup (fifo_map c) k None" "\<lambda>c k. Inr c" "\<lambda>c k v. Inr (fifo_miss c k v)"
    fifo_evict
  by unfold_locales
    (auto simp: cache_has_iff cache_lookup_None fifo_miss_def fifo_evict_def cache_simps Let_def
      split: option.split)

lemma evict_victim_cases:
  assumes "evict_victim limit item base d = Inr (base', d')"
  obtains "base' = base" "d' = d" "length d < limit"
    | victim where "base' = map_dissoc victim base" "d' = pd_pop victim d" "limit \<le> length d"
        "victim = item \<and> pd_has d item \<or> \<not> pd_has d item \<and> min_key d = Inr victim"
  using assms by (auto simp: evict_victim_def rbind_eq_Inr_iff split: if_splits)

lemma evict_victim_total: "0 < limit \<Longrightarrow> \<exists>r. evict_victim limit item base d = Inr r"
  using min_key_Cons [of d] by (cases "d = []") (auto simp: evict_victim_def rbind_eq_Inr_iff)

interpretation lru: total_cache_protocol "\<lambda>c. 0 < lru_limit c" "\<lambda>_. True"
    "\<lambda>c. cache_has (lru_map c)" "\<lambda>c k. cache_lookup (lru_map c) k None"
    "\<lambda>c k. Inr (lru_hit c k)" lru_miss lru_evict
proof unfold_locales
  fix c c' :: "('a, 'b) lru_cache" and k v
  assume "0 < lru_limit c" and m: "lru_miss c k v = Inr c'"
  then obtain base d where e: "evict_victim (lru_limit c) k (lru_map c) (lru_dict c) = Inr (base, d)"
    and c': "lru_map c' = map_assoc k v base" "lru_limit c' = lru_limit c"
    by (auto simp: lru_miss_def Let_def rbind_eq_Inr_iff)
  show "0 < lru_limit c' \<and> cache_lookup (lru_map c') k None = Some v \<and>
      (\<forall>x. x \<noteq> k \<longrightarrow> cache_lookup (lru_map c') x None = None \<or>
        cache_lookup (lru_map c') x None = cache_lookup (lru_map c) x None)"
    using \<open>0 < lru_limit c\<close> by (rule_tac evict_victim_cases [OF e])
      (auto simp: c' cache_lookup_None cache_simps)
next
  show "\<exists>c'. lru_miss c k v = Inr c'" if "0 < lru_limit c" for c :: "('a, 'b) lru_cache" and k v
    using evict_victim_total [OF that, of k "lru_map c" "lru_dict c"]
    by (auto simp: lru_miss_def Let_def rbind_eq_Inr_iff)
qed (auto simp: cache_has_iff cache_lookup_None lru_hit_def lru_evict_def cache_simps Let_def)

definition lu_inv :: "('a, 'v) lu_cache \<Rightarrow> bool" where
  "lu_inv c \<longleftrightarrow> 0 < lu_limit c \<and> (\<forall>p \<in> set (lu_dict c). plain_key (fst p)) \<and>
     (\<forall>k. plain_key k \<longrightarrow> cache_has (lu_map c) k \<longrightarrow> pd_has (lu_dict c) k)"

lemma pd_set_keys: "fst ` set (pd_set k b d) \<subseteq> insert k (fst ` set d)"
  by (induction k b d rule: pd_set.induct) auto

lemma pd_pop_keys: "set (pd_pop k d) \<subseteq> set d"
  by (auto simp: pd_pop_def)

lemma plain_dict_set:
  "(\<forall>p \<in> set d. plain_key (fst p)) \<Longrightarrow> plain_key k \<Longrightarrow> \<forall>p \<in> set (pd_set k b d). plain_key (fst p)"
  using pd_set_keys [of k b d] by force

lemma lu_inv_miss:
  assumes "lu_inv c" "plain_key k" "lu_miss c k v = Inr c'"
  shows "lu_inv c'"
proof -
  obtain base d where e: "evict_victim (lu_limit c) k (lu_map c) (lu_dict c) = Inr (base, d)"
    and c': "c' = c\<lparr>lu_map := map_assoc k v base,
       lu_dict := pd_set k ((case pd_get d k of None \<Rightarrow> 0 | Some n \<Rightarrow> n) + 1) d\<rparr>"
    using assms(3) by (auto simp: lu_miss_def rbind_eq_Inr_iff)
  have "(\<forall>p \<in> set d. plain_key (fst p)) \<and>
      (\<forall>x. plain_key x \<longrightarrow> x \<noteq> k \<longrightarrow> cache_has base x \<longrightarrow> pd_has d x)"
  proof (rule evict_victim_cases [OF e])
    fix victim
    assume v: "base = map_dissoc victim (lu_map c)" "d = pd_pop victim (lu_dict c)"
      "victim = k \<and> pd_has (lu_dict c) k \<or> \<not> pd_has (lu_dict c) k \<and> min_key (lu_dict c) = Inr victim"
    have "plain_key victim"
      using v(3) assms(1,2) min_key_in [of "lu_dict c" victim] by (auto simp: lu_inv_def)
    then show ?thesis
      using assms(1) pd_pop_keys [of victim "lu_dict c"]
      by (auto simp: v(1,2) lu_inv_def cache_has_def cache_simps plain_key_eq split: if_splits)
  qed (use assms(1) in \<open>auto simp: lu_inv_def\<close>)
  then show ?thesis
    using assms(1,2) plain_dict_set [of d k]
    by (auto simp: c' lu_inv_def cache_has_def cache_simps split: if_splits)
qed

interpretation lu: total_cache_protocol lu_inv plain_key
    "\<lambda>c. cache_has (lu_map c)" "\<lambda>c k. cache_lookup (lu_map c) k None"
    lu_hit lu_miss lu_evict
proof unfold_locales
  fix c c' :: "('a, 'b) lu_cache" and k v
  assume inv: "lu_inv c" and k: "plain_key k" and m: "lu_miss c k v = Inr c'"
  then obtain base d where e: "evict_victim (lu_limit c) k (lu_map c) (lu_dict c) = Inr (base, d)"
    and c': "lu_map c' = map_assoc k v base"
    by (auto simp: lu_miss_def rbind_eq_Inr_iff)
  show "lu_inv c' \<and> cache_lookup (lu_map c') k None = Some v \<and>
      (\<forall>x. x \<noteq> k \<longrightarrow> cache_lookup (lu_map c') x None = None \<or>
        cache_lookup (lu_map c') x None = cache_lookup (lu_map c) x None)"
    using lu_inv_miss [OF inv k m] by (rule_tac evict_victim_cases [OF e])
      (auto simp: c' cache_lookup_None cache_simps)
next
  fix c c' :: "('a, 'b) lu_cache" and k :: "'a ckey"
  assume inv: "lu_inv c" and k: "plain_key k" and "lu_hit c k = Inr c'"
  then obtain n where c': "c' = c\<lparr>lu_dict := pd_set k (Suc n) (lu_dict c)\<rparr>"
    by (auto simp: lu_hit_def split: option.splits)
  have "\<forall>p \<in> set (pd_set k (Suc n) (lu_dict c)). plain_key (fst p)"
    by (rule plain_dict_set [OF _ k]) (use inv in \<open>simp add: lu_inv_def\<close>)
  then show "lu_inv c' \<and> (\<forall>x. cache_lookup (lu_map c') x None = cache_lookup (lu_map c) x None)"
    using inv by (simp add: c' lu_inv_def cache_simps)
next
  fix c :: "('a, 'b) lu_cache" and k :: "'a ckey"
  assume inv: "lu_inv c" and k: "plain_key k"
  have "pd_has (lu_dict (lu_evict c k)) x"
    if "plain_key x" "cache_has (lu_map (lu_evict c k)) x" for x
  proof -
    have "cache_has (lu_map c) x \<longrightarrow> pd_has (lu_dict c) x"
      using inv that(1) unfolding lu_inv_def by blast
    then show ?thesis
      using that plain_key_eq [OF that(1) k]
      by (auto simp: lu_evict_def cache_has_def cache_simps split: if_splits)
  qed
  moreover have "\<forall>p \<in> set (lu_dict (lu_evict c k)). plain_key (fst p)"
    using inv pd_pop_keys [of k "lu_dict c"] by (auto simp: lu_evict_def lu_inv_def)
  ultimately have "lu_inv (lu_evict c k)" using inv by (simp add: lu_inv_def lu_evict_def)
  then show "lu_inv (lu_evict c k) \<and> cache_lookup (lu_map (lu_evict c k)) k None = None \<and>
      (\<forall>x. x \<noteq> k \<longrightarrow> cache_lookup (lu_map (lu_evict c k)) x None = cache_lookup (lu_map c) x None)"
    by (auto simp: lu_evict_def cache_lookup_None cache_has_def cache_simps)
next
  show "\<exists>c'. lu_miss c k v = Inr c'" if "lu_inv c" for c :: "('a, 'b) lu_cache" and k v
    using evict_victim_total [of "lu_limit c" k "lu_map c" "lu_dict c"] that
    by (auto simp: lu_miss_def lu_inv_def rbind_eq_Inr_iff)
next
  show "\<exists>c'. lu_hit c k = Inr c'" if "lu_inv c" "plain_key k" "cache_has (lu_map c) k"
    for c :: "('a, 'b) lu_cache" and k :: "'a ckey"
  proof -
    have "pd_has (lu_dict c) k" using that unfolding lu_inv_def by blast
    then show ?thesis by (auto simp: lu_hit_def pd_has_def)
  qed
qed (simp add: cache_has_iff)

text \<open>A LIRS cache is an instance too, but its operations may raise, as is shown below.\<close>

interpretation lirs: cache_protocol "\<lambda>_. True" "\<lambda>_. True" "\<lambda>c. cache_has (lirs_map c)"
    "\<lambda>c k. cache_lookup (lirs_map c) k None" lirs_hit lirs_miss lirs_evict
  by unfold_locales
    (auto simp: cache_has_iff cache_lookup_None lirs_hit_def lirs_miss_def lirs_evict_def
      cache_simps Let_def rbind_eq_Inr_iff split: if_splits)

end
