(* ===== verification/CacheCorrect.thy ===== *)
theory CacheCorrect
  imports CacheProtocol "HOL-Library.Multiset"
begin

text \<open>
  What each cache policy does: transparency of wrapped caches, LRU as a recency list, FIFO as a
  bounded queue, expiry of TTL entries, and inputs on which the code does not keep its promises.
\<close>

section \<open>Transparency\<close>

definition fresh_atom :: "'c \<Rightarrow> ('c, unit) atom" where
  "fresh_atom c = \<lparr>ref_meta = (), ref_validator = None, ref_watches = [], astate = c\<rparr>"

lemma fresh_atom_simps [simp]:
  "ref_validator (fresh_atom c) = None" "ref_watches (fresh_atom c) = []" "astate (fresh_atom c) = c"
  by (simp_all add: fresh_atom_def)



section \<open>LRU as a recency list\<close>

lemma hd_insort:
  "hd (insort_key f x ys) = (if ys = [] then x else if f x \<le> f (hd ys) then x else hd ys)"
  by (cases ys) auto

lemma min_entry_sort: "min_entry e d = hd (sort_key snd (e # d))"
proof (induction e d rule: min_entry.induct)
  case (2 best k t d)
  then show ?case
    by (cases "sort_key snd d = []") (auto simp: hd_insort not_less not_le split: if_splits)
qed simp

lemma min_key_sort: "d \<noteq> [] \<Longrightarrow> min_key d = Inr (fst (hd (sort_key snd d)))"
  by (cases d) (simp_all add: min_key_def min_entry_sort del: sort_key_simps)

definition distinct_hosts :: "('a, 'b) pdict \<Rightarrow> bool" where
  "distinct_hosts d \<longleftrightarrow> distinct (map (\<lambda>p. snd (fst p)) d)"

lemma pd_set_new: "\<not> pd_has d k \<Longrightarrow> pd_set k b d = d @ [(k, b)]"
  by (induction k b d rule: pd_set.induct) (auto simp: pd_has_def split: if_splits)

lemma filter_pd_set:
  assumes "distinct_hosts d" "\<And>k'. snd k' = snd k \<Longrightarrow> \<not> P (k', b)"
  shows "filter P (pd_set k b d) = filter P (pd_pop k d)"
  using assms
proof (induction k b d rule: pd_set.induct)
  case (2 k b k' b' d)
  show ?case
  proof (cases "snd k' = snd k")
    case True
    then have "pd_pop k d = d"
      using 2(2) by (auto simp: distinct_hosts_def pd_pop_def filter_id_conv image_iff)
    then show ?thesis using True 2(3) by (simp add: pd_pop_def)
  next
    case False
    then show ?thesis using 2 by (simp add: pd_pop_def distinct_hosts_def)
  qed
qed (simp add: pd_pop_def)

lemma mset_pd_set:
  assumes "distinct_hosts d" "\<forall>p \<in> set d. snd (fst p) = snd k \<longrightarrow> fst p = k"
  shows "mset (pd_set k b d) = add_mset (k, b) (mset (pd_pop k d))"
  using assms
proof (induction k b d rule: pd_set.induct)
  case (2 k b k' b' d)
  show ?case
  proof (cases "snd k' = snd k")
    case True
    then have "pd_pop k d = d"
      using 2(2) by (auto simp: distinct_hosts_def pd_pop_def filter_id_conv image_iff)
    then show ?thesis using True 2(3) by (simp add: pd_pop_def)
  next
    case False
    then show ?thesis using 2 by (simp add: pd_pop_def distinct_hosts_def)
  qed
qed (simp add: pd_pop_def)

text \<open>Setting a key to a tick above all others moves it to the end of the order of ticks.\<close>

lemma sort_pd_set:
  fixes d :: "('a, nat) pdict"
  assumes "distinct_hosts d" "\<forall>p \<in> set d. snd (fst p) = snd k \<longrightarrow> fst p = k"
    and "\<forall>p \<in> set d. snd p < t"
  shows "sort_key snd (pd_set k t d) = sort_key snd (pd_pop k d) @ [(k, t)]"
proof (rule properties_for_sort_key)
  show "mset (sort_key snd (pd_pop k d) @ [(k, t)]) = mset (pd_set k t d)"
    using mset_pd_set [OF assms(1,2), of t] by simp
  have sub: "set (pd_pop k d) \<subseteq> set d" by (rule pd_pop_keys)
  show "filter (\<lambda>y. snd x = snd y) (sort_key snd (pd_pop k d) @ [(k, t)]) =
      filter (\<lambda>y. snd x = snd y) (pd_set k t d)"
    if "x \<in> set (sort_key snd (pd_pop k d) @ [(k, t)])" for x
  proof (cases "snd x = t")
    case True
    have "filter (\<lambda>y. t = snd y) (pd_pop k d) = []"
      using assms(3) sub by (auto simp: filter_empty_conv)
    moreover have "filter (\<lambda>y. t = snd y) (pd_set k t d) = [(k, t)]"
    proof -
      have "mset (filter (\<lambda>y. t = snd y) (pd_set k t d)) = mset [(k, t)]"
        using arg_cong [where f = mset, OF calculation]
        by (simp add: mset_filter mset_pd_set [OF assms(1,2)])
      then show ?thesis by (metis mset_single_iff_right)
    qed
    ultimately show ?thesis using True by (simp add: filter_sort)
  next
    case False
    then have "filter (\<lambda>y. snd x = snd y) (pd_set k t d) = filter (\<lambda>y. snd x = snd y) (pd_pop k d)"
      by (intro filter_pd_set [OF assms(1)]) auto
    then show ?thesis using False by (simp add: eq_commute [of "snd x"] sort_key_stable)
  qed
  show "sorted (map snd (sort_key snd (pd_pop k d) @ [(k, t)]))"
    using assms(3) sub by (fastforce simp: sorted_append intro: less_imp_le)
qed


text \<open>
  The specification: the cached pairs, least recently used first. A hit moves its key to the end;
  a miss appends it, and drops the front when the cache is full of other keys.
\<close>

datatype ('k, 'v) cache_op = Hit 'k | Miss 'k 'v | Evict 'k

fun op_key :: "('k, 'v) cache_op \<Rightarrow> 'k" where
  "op_key (Hit k) = k"
| "op_key (Miss k v) = k"
| "op_key (Evict k) = k"

fun recency_step :: "nat \<Rightarrow> ('k \<times> 'v) list \<Rightarrow> ('k, 'v) cache_op \<Rightarrow> ('k \<times> 'v) list" where
  "recency_step limit xs (Hit k) =
     (case map_of xs k of None \<Rightarrow> xs | Some v \<Rightarrow> AList.delete k xs @ [(k, v)])"
| "recency_step limit xs (Miss k v) =
     (let ys = AList.delete k xs
      in (if length xs < limit \<or> map_of xs k \<noteq> None then ys else tl ys) @ [(k, v)])"
| "recency_step limit xs (Evict k) = AList.delete k xs"

fun lru_step :: "('a, 'v) lru_cache \<Rightarrow> ('a ckey, 'v) cache_op \<Rightarrow> ('a, 'v) lru_cache res" where
  "lru_step c (Hit k) = Inr (lru_hit c k)"
| "lru_step c (Miss k v) = lru_miss c k v"
| "lru_step c (Evict k) = Inr (lru_evict c k)"

definition recency :: "('a, 'v) lru_cache \<Rightarrow> ('a ckey \<times> 'v) list" where
  "recency c = map (\<lambda>p. (fst p, the (map_of (lru_map c) (fst p)))) (sort_key snd (lru_dict c))"

definition lru_wf :: "('a, 'v) lru_cache \<Rightarrow> bool" where
  "lru_wf c \<longleftrightarrow> 0 < lru_limit c \<and> plain_pairs (lru_dict c) \<and>
     dom (map_of (lru_map c)) = fst ` set (lru_dict c) \<and>
     (\<forall>p \<in> set (lru_dict c). snd p \<le> lru_tick c)"

lemma map_of_keyed: "map_of (map (\<lambda>p. (fst p, g (fst p))) xs) k = (if k \<in> fst ` set xs then Some (g k) else None)"
  by (induction xs) auto

lemma delete_keyed:
  "AList.delete k (map (\<lambda>p. (fst p, g (fst p))) xs) = map (\<lambda>p. (fst p, g (fst p))) (filter (\<lambda>p. fst p \<noteq> k) xs)"
  by (induction xs) auto

lemma delete_keyed_cong:
  "(\<And>p. p \<in> set xs \<Longrightarrow> fst p \<noteq> k \<Longrightarrow> g (fst p) = h (fst p)) \<Longrightarrow>
   AList.delete k (map (\<lambda>p. (fst p, g (fst p))) xs) = AList.delete k (map (\<lambda>p. (fst p, h (fst p))) xs)"
  by (simp add: delete_keyed)

lemma keys_filter: "fst ` {p \<in> A. fst p \<noteq> k} = fst ` A - {k}"
  by auto

lemma recency_lookup: "lru_wf c \<Longrightarrow> map_of (recency c) k = map_of (lru_map c) k"
  using map_of_keyed [of "\<lambda>k. the (map_of (lru_map c) k)" "sort_key snd (lru_dict c)" k]
    domIff [of k "map_of (lru_map c)"]
  by (auto simp: recency_def lru_wf_def simp del: map_of_eq_None_iff)

lemma plain_host_eq: "plain_pairs d \<Longrightarrow> plain_key k \<Longrightarrow> p \<in> set d \<Longrightarrow> snd (fst p) = snd k \<longleftrightarrow> fst p = k"
  unfolding plain_pairs_def using plain_key_eq by blast

lemma plain_pop: "plain_pairs d \<Longrightarrow> plain_key k \<Longrightarrow> pd_pop k d = filter (\<lambda>p. fst p \<noteq> k) d"
  unfolding pd_pop_def
  by (rule filter_cong [OF refl]) (simp add: case_prod_beta plain_host_eq)

lemma plain_pairs_filter: "plain_pairs d \<Longrightarrow> plain_pairs (filter P d)"
  by (auto simp: plain_pairs_def distinct_map_filter)

lemma plain_hosts: "plain_pairs d \<Longrightarrow> distinct_hosts d"
  unfolding plain_pairs_def distinct_hosts_def distinct_map inj_on_def by (metis plain_key_eq)

lemma plain_pd_has: "plain_pairs d \<Longrightarrow> plain_key k \<Longrightarrow> pd_has d k \<longleftrightarrow> k \<in> fst ` set d"
  unfolding pd_has_iff image_iff using plain_host_eq by metis

lemma plain_pd_set:
  assumes "plain_pairs d" "plain_key k"
  shows "plain_pairs (pd_set k t d)" "set (pd_set k t d) = insert (k, t) (set (filter (\<lambda>p. fst p \<noteq> k) d))"
proof -
  have m: "mset (pd_set k t d) = add_mset (k, t) (mset (filter (\<lambda>p. fst p \<noteq> k) d))"
    using mset_pd_set [OF plain_hosts [OF assms(1)], of k t] plain_host_eq [OF assms]
    by (simp add: plain_pop [OF assms])
  show s: "set (pd_set k t d) = insert (k, t) (set (filter (\<lambda>p. fst p \<noteq> k) d))"
    using arg_cong [OF m, of set_mset] by simp
  have "mset (map fst (pd_set k t d)) = mset (k # map fst (filter (\<lambda>p. fst p \<noteq> k) d))"
    unfolding mset_map m by simp
  then have "distinct (map fst (pd_set k t d))"
    using assms(1) by (subst mset_eq_imp_distinct_iff [where ys = "k # map fst (filter (\<lambda>p. fst p \<noteq> k) d)"])
      (auto simp: plain_pairs_def distinct_map_filter)
  then show "plain_pairs (pd_set k t d)"
    using assms unfolding plain_pairs_def s by auto
qed

lemma keyed_pd_set:
  assumes "plain_pairs d" "plain_key k" "\<forall>p \<in> set d. snd p < (t :: nat)"
  shows "map (\<lambda>p. (fst p, g (fst p))) (sort_key snd (pd_set k t d)) =
    AList.delete k (map (\<lambda>p. (fst p, g (fst p))) (sort_key snd d)) @ [(k, g k)]"
proof -
  have "sort_key snd (pd_set k t d) = sort_key snd (pd_pop k d) @ [(k, t)]"
    by (rule sort_pd_set [OF plain_hosts [OF assms(1)]])
      (use assms(3) plain_host_eq [OF assms(1,2)] in simp_all)
  then show ?thesis using plain_pop [OF assms(1,2)] by (simp add: delete_keyed filter_sort)
qed


lemma recency_wf: "lru_wf c \<Longrightarrow> length (recency c) = length (lru_dict c)"
  by (simp add: recency_def)

lemma lru_stamp:
  assumes "plain_pairs d" "plain_key k" "\<forall>p \<in> set d. snd p \<le> n" "dom (map_of m) = fst ` set d"
    and "0 < lru_limit c"
  shows "lru_wf (c\<lparr>lru_map := map_assoc k v m, lru_dict := pd_set k (n + 1) d, lru_tick := n + 1\<rparr>)"
  using assms(3,4,5) plain_pd_set [OF assms(1,2), of "n + 1"]
  by (auto simp: lru_wf_def cache_simps keys_filter)

lemma lru_hit_step:
  assumes "lru_wf c" "plain_key k"
  shows "lru_wf (lru_hit c k) \<and> recency (lru_hit c k) = recency_step (lru_limit c) (recency c) (Hit k)"
proof (cases "map_of (lru_map c) k")
  case None
  then show ?thesis
    using assms(1) recency_lookup [OF assms(1), of k]
    by (auto simp: lru_hit_def cache_has_def lru_wf_def recency_def Let_def)
next
  case (Some v)
  have p: "plain_pairs (lru_dict c)" "\<forall>p \<in> set (lru_dict c). snd p < Suc (lru_tick c)"
    using assms(1) by (auto simp: lru_wf_def less_Suc_eq_le)
  have "k \<in> fst ` set (lru_dict c)" using assms(1) Some unfolding lru_wf_def by blast
  then have "lru_wf (lru_hit c k)"
    using assms(1) Some plain_pd_set [OF p(1) assms(2), of "Suc (lru_tick c)"]
    by (auto simp: lru_wf_def lru_hit_def cache_has_def Let_def le_SucI keys_filter)
  then show ?thesis
    using Some recency_lookup [OF assms(1), of k]
      keyed_pd_set [OF p(1) assms(2) p(2), of "\<lambda>k. the (map_of (lru_map c) k)"]
    by (simp add: lru_hit_def cache_has_def recency_def Let_def)
qed

lemma lru_evict_step:
  assumes "lru_wf c" "plain_key k"
  shows "lru_wf (lru_evict c k) \<and> recency (lru_evict c k) = recency_step (lru_limit c) (recency c) (Evict k)"
proof (cases "map_of (lru_map c) k")
  case None
  then have "k \<notin> fst ` set (recency c)"
    using recency_lookup [OF assms(1), of k] by (metis map_of_eq_None_iff)
  then show ?thesis
    using assms(1) None by (simp add: lru_evict_def cache_has_def delete_id)
next
  case (Some v)
  have p: "plain_pairs (lru_dict c)" using assms(1) by (simp add: lru_wf_def)
  note pop = plain_pop [OF p assms(2)]
  have "lru_wf (lru_evict c k)"
    using assms(1) Some plain_pairs_filter [OF p, of "\<lambda>p. fst p \<noteq> k"]
    by (auto simp: lru_wf_def lru_evict_def pop cache_has_def cache_simps le_SucI keys_filter)
  moreover have "recency (lru_evict c k) = AList.delete k (recency c)"
    using Some by (auto simp: recency_def lru_evict_def cache_has_def pop cache_simps
        delete_keyed [of k "\<lambda>x. the (map_of (lru_map c) x)"] filter_sort)
  ultimately show ?thesis by simp
qed

lemma hd_sort_filter:
  assumes "distinct (map fst d)" "d \<noteq> []"
  shows "sort_key snd (filter (\<lambda>p. fst p \<noteq> fst (hd (sort_key snd d))) d) = tl (sort_key snd d)"
proof -
  obtain e es where e: "sort_key snd d = e # es" by (metis assms(2) length_sort length_0_conv neq_Nil_conv)
  have "distinct (map fst (e # es))"
    using assms(1) unfolding e [symmetric] by (simp add: distinct_map)
  then have "filter (\<lambda>p. fst p \<noteq> fst e) es = es" by (auto simp: filter_id_conv image_iff)
  then show ?thesis by (simp add: filter_sort [symmetric] e)
qed

lemma lru_miss_step:
  assumes "lru_wf c" "plain_key k"
  shows "\<exists>c'. lru_miss c k v = Inr c' \<and> lru_wf c' \<and> lru_limit c' = lru_limit c \<and>
    recency c' = recency_step (lru_limit c) (recency c) (Miss k v)"
proof -
  define g where "g x = the (map_of (lru_map c) x)" for x
  define R where "R d = map (\<lambda>p. (fst p, g (fst p))) (sort_key snd d)" for d :: "('a, nat) pdict"
  have w: "plain_pairs (lru_dict c)" "\<forall>p \<in> set (lru_dict c). snd p \<le> lru_tick c" "0 < lru_limit c"
    "dom (map_of (lru_map c)) = fst ` set (lru_dict c)"
    using assms(1) by (auto simp: lru_wf_def)
  have rec: "recency c = R (lru_dict c)" by (simp add: recency_def R_def g_def)
  obtain base d where e: "evict_victim (lru_limit c) k (lru_map c) (lru_dict c) = Inr (base, d)"
    using evict_victim_total [OF w(3)] by (metis surj_pair)
  let ?c' = "c\<lparr>lru_map := map_assoc k v base, lru_dict := pd_set k (lru_tick c + 1) d,
     lru_tick := lru_tick c + 1\<rparr>"
  have d: "plain_pairs d \<and> (\<forall>p \<in> set d. snd p \<le> lru_tick c) \<and> dom (map_of base) = fst ` set d \<and>
      (\<forall>x \<in> fst ` set d. map_of base x = map_of (lru_map c) x) \<and>
      AList.delete k (R d) = (if length (recency c) < lru_limit c \<or> map_of (recency c) k \<noteq> None
        then AList.delete k (recency c) else tl (AList.delete k (recency c)))"
  proof (rule evict_victim_cases [OF e])
    fix victim
    assume v: "base = map_dissoc victim (lru_map c)" "d = pd_pop victim (lru_dict c)"
      "lru_limit c \<le> length (lru_dict c)"
      "victim = k \<and> pd_has (lru_dict c) k \<or> \<not> pd_has (lru_dict c) k \<and> min_key (lru_dict c) = Inr victim"
    have ne: "lru_dict c \<noteq> []" using v(3) w(3) by auto
    have "plain_key victim"
      using v(4) assms(2) min_key_in [of "lru_dict c" victim] w(1) by (auto simp: plain_pairs_def)
    then have d: "d = filter (\<lambda>p. fst p \<noteq> victim) (lru_dict c)" using v(2) plain_pop w(1) by blast
    have full: "\<not> length (recency c) < lru_limit c" using v(3) recency_wf [OF assms(1)] by simp
    have has: "map_of (recency c) k \<noteq> None \<longleftrightarrow> pd_has (lru_dict c) k"
      unfolding recency_lookup [OF assms(1)] plain_pd_has [OF w(1) assms(2)] w(4) [symmetric] by auto
    have Rd: "AList.delete k (R d) = (if map_of (recency c) k \<noteq> None
        then AList.delete k (recency c) else tl (AList.delete k (recency c)))"
    proof (cases "pd_has (lru_dict c) k")
      case True
      then have "R d = AList.delete k (R (lru_dict c))"
        using v(4) by (simp add: R_def d delete_keyed filter_sort)
      then show ?thesis using True has by (simp add: rec delete_idem)
    next
      case False
      then have k: "k \<notin> fst ` set (lru_dict c)" using plain_pd_has [OF w(1) assms(2)] by simp
      have "R d = tl (R (lru_dict c))"
        using v(4) False hd_sort_filter [of "lru_dict c"] w(1) ne
        by (simp add: R_def d min_key_sort map_tl plain_pairs_def)
      moreover have "AList.delete k (R (lru_dict c)) = R (lru_dict c)"
        using k by (intro delete_id) (simp add: R_def image_image)
      moreover have "AList.delete k (R d) = R d"
        using k by (intro delete_id) (auto simp: R_def image_image d)
      ultimately show ?thesis using False has by (simp add: rec)
    qed
    show ?thesis
      using w plain_pairs_filter [OF w(1)] Rd full
      by (auto simp: v(1) d cache_simps keys_filter)
  next
    assume "base = lru_map c" "d = lru_dict c" "length (lru_dict c) < lru_limit c"
    then show ?thesis using w recency_wf [OF assms(1)] rec by simp
  qed
  have "lru_wf ?c'" by (rule lru_stamp) (use d w(3) assms(2) in auto)
  moreover have "recency ?c' = AList.delete k (R d) @ [(k, v)]"
  proof -
    have "recency ?c' = AList.delete k (map (\<lambda>p. (fst p, the (((map_of base)(k \<mapsto> v)) (fst p)))) (sort_key snd d)) @ [(k, v)]"
      using d keyed_pd_set [of d k "lru_tick c + 1" "\<lambda>x. the (((map_of base)(k \<mapsto> v)) x)"] assms(2)
      by (auto simp: recency_def cache_simps less_Suc_eq_le)
    also have "\<dots> = AList.delete k (R d) @ [(k, v)]"
      using d unfolding R_def g_def by (subst delete_keyed_cong) auto
    finally show ?thesis .
  qed
  moreover have "lru_miss c k v = Inr ?c'" by (simp add: lru_miss_def e Let_def)
  ultimately show ?thesis using d by (intro exI [of _ ?c']) (simp add: Let_def)
qed


lemma lru_step_simulates:
  assumes "lru_wf c" "plain_key (op_key op)"
  shows "\<exists>c'. lru_step c op = Inr c' \<and> lru_wf c' \<and> lru_limit c' = lru_limit c \<and>
    recency c' = recency_step (lru_limit c) (recency c) op"
proof (cases op)
  case (Hit k)
  then show ?thesis using lru_hit_step [OF assms(1), of k] assms(2) by (simp add: lru_hit_def Let_def)
next
  case (Miss k v)
  then show ?thesis using lru_miss_step [OF assms(1), of k v] assms(2) by simp
next
  case (Evict k)
  then show ?thesis using lru_evict_step [OF assms(1), of k] assms(2) by (simp add: lru_evict_def)
qed

lemma delete_shorter:
  "length (AList.delete k xs) \<le> length xs"
  "map_of xs k \<noteq> None \<Longrightarrow> length (AList.delete k xs) < length xs"
  by (induction xs) (auto split: if_splits)

lemma recency_step_bounded:
  assumes "0 < limit" shows "length (recency_step limit xs op) \<le> max limit (length xs)"
proof (cases op)
  case (Hit k)
  then show ?thesis using delete_shorter(2) [of xs k] by (auto split: option.splits)
next
  case (Miss k v)
  then show ?thesis
    using delete_shorter(1) [of k xs] delete_shorter(2) [of xs k] assms
    by (cases "map_of xs k = None") (auto simp: Let_def simp del: map_of_eq_None_iff)
qed (simp add: delete_shorter(1) le_max_iff_disj)

lemma recency_steps_bounded:
  "0 < limit \<Longrightarrow> length (foldl (recency_step limit) xs ops) \<le> max limit (length xs)"
proof (induction ops arbitrary: xs)
  case (Cons op ops)
  then show ?case using recency_step_bounded [of limit xs op] by (fastforce simp: max_def split: if_splits)
qed simp

lemma dict_of_keys_new:
  assumes "distinct (map (snd \<circ> fst) (acc @ base))"
  shows "foldl (\<lambda>d k. pd_set k b d) (map (\<lambda>p. (fst p, b)) acc) (map fst base) = map (\<lambda>p. (fst p, b)) (acc @ base)"
  using assms
proof (induction base arbitrary: acc)
  case (Cons p base)
  have "\<not> pd_has (map (\<lambda>p. (fst p, b)) acc) (fst p)" using Cons.prems by (auto simp: pd_has_iff image_iff)
  then show ?case using Cons.IH [of "acc @ [p]"] Cons.prems by (simp add: pd_set_new)
qed simp

lemma dict_of_keys_plain: "plain_pairs base \<Longrightarrow> dict_of_keys b base = map (\<lambda>p. (fst p, b)) base"
  using dict_of_keys_new [of "[]" base b] plain_hosts [of base]
  by (simp add: dict_of_keys_def distinct_hosts_def comp_def)

lemma sort_constant: "sort_key (\<lambda>p. snd p) (map (\<lambda>p. (f p, b :: nat)) xs) = map (\<lambda>p. (f p, b)) xs"
  by (rule sort_key_id_if_sorted) (induction xs, auto)

lemma lru_seeded:
  assumes "plain_pairs base" "lru_cache_factory base limit = Inr c"
  shows "lru_wf c \<and> recency c = base \<and> lru_limit c = nat limit"
proof -
  have c: "c = \<lparr>lru_map = base, lru_dict = map (\<lambda>p. (fst p, 0)) base, lru_tick = 0, lru_limit = nat limit\<rparr>" "0 < limit"
    using assms by (auto simp: lru_cache_factory_def new_lru_def lru_seed_def dict_of_keys_plain split: if_splits)
  have "map (\<lambda>p. (fst p, the (map_of base (fst p)))) base = base"
    using assms(1) by (intro map_idI) (auto simp: plain_pairs_def)
  moreover have "plain_pairs (map (\<lambda>p. (fst p, 0 :: nat)) base)"
    using assms(1) by (simp add: plain_pairs_def comp_def)
  ultimately show ?thesis
    using c(2) by (simp add: c(1) lru_wf_def recency_def sort_constant comp_def dom_map_of_conv_image_fst image_image)
qed



end
