(* ===== verification/CacheLimits.thy ===== *)
theory CacheLimits
  imports CacheCorrect
begin

text \<open>
  FIFO caches as bounded queues, the lifetime of TTL entries, and inputs on which the policies
  exceed their limits or raise.
\<close>

section \<open>FIFO as a bounded queue\<close>

text \<open>Callers add an entry only after looking for it, as the wrapped caches do.\<close>

fun fifo_step :: "('a, 'v) fifo_cache \<Rightarrow> ('a ckey, 'v) cache_op \<Rightarrow> ('a, 'v) fifo_cache" where
  "fifo_step c (Hit k) = c"
| "fifo_step c (Miss k v) = (if cache_has (fifo_map c) k then c else fifo_miss c k v)"
| "fifo_step c (Evict k) = fifo_evict c k"

text \<open>The specification: the cached pairs, oldest first.\<close>

fun queue_step :: "nat \<Rightarrow> ('k \<times> 'v) list \<Rightarrow> ('k, 'v) cache_op \<Rightarrow> ('k \<times> 'v) list" where
  "queue_step limit xs (Hit k) = xs"
| "queue_step limit xs (Miss k v) =
     (if map_of xs k \<noteq> None then xs else (if length xs < limit then xs else tl xs) @ [(k, v)])"
| "queue_step limit xs (Evict k) = AList.delete k xs"

definition fifo_rel :: "('a, 'v) fifo_cache \<Rightarrow> ('a ckey \<times> 'v) list \<Rightarrow> bool" where
  "fifo_rel c xs \<longleftrightarrow> 0 < fifo_limit c \<and> length xs \<le> fifo_limit c \<and> plain_pairs xs \<and>
     fifo_map c = xs \<and>
     fifo_q c = replicate (fifo_limit c - length xs) None @ map (Some \<circ> fst) xs"

lemma update_fresh: "k \<notin> fst ` set xs \<Longrightarrow> AList.update k v xs = xs @ [(k, v)]"
  by (induction xs) auto

lemma fifo_miss_rel:
  assumes "fifo_rel c xs" "plain_key k" "map_of xs k = None"
  shows "fifo_rel (fifo_miss c k v) ((if length xs < fifo_limit c then xs else tl xs) @ [(k, v)])"
proof (cases "length xs < fifo_limit c")
  case True
  then obtain n where n: "fifo_limit c - length xs = Suc n" by (metis Suc_diff_Suc)
  then have "fifo_limit c - length (xs @ [(k, v)]) = n" by simp
  then show ?thesis
    using assms True n
    by (auto simp: fifo_rel_def fifo_miss_def Let_def plain_pairs_def map_assoc_def update_fresh
        map_of_eq_None_iff)
next
  case False
  then have l: "length xs = fifo_limit c" using assms(1) by (simp add: fifo_rel_def)
  then obtain p ys where xs: "xs = p # ys" using assms(1) by (cases xs) (auto simp: fifo_rel_def)
  have d: "map_dissoc (fst p) xs = ys"
    using assms(1) by (simp add: xs map_dissoc_def fifo_rel_def plain_pairs_def delete_id)
  have q: "fifo_q c = map (Some \<circ> fst) xs" "fifo_map c = xs" using assms(1) l by (auto simp: fifo_rel_def)
  have "fifo_miss c k v = c\<lparr>fifo_map := ys @ [(k, v)], fifo_q := map (Some \<circ> fst) (ys @ [(k, v)])\<rparr>"
    using q l d assms(3)
    by (auto simp: fifo_miss_def Let_def xs map_assoc_def update_fresh map_of_eq_None_iff
        split: if_splits)
  then show ?thesis
    using assms False l by (auto simp: fifo_rel_def xs plain_pairs_def map_of_eq_None_iff split: if_splits)
qed

lemma delete_present:
  "distinct (map fst xs) \<Longrightarrow> map_of xs k \<noteq> None \<Longrightarrow> length xs = Suc (length (AList.delete k xs))"
proof (induction xs)
  case (Cons p xs)
  then show ?case by (cases "fst p = k") (auto simp: delete_id split: if_splits)
qed simp

lemma fifo_evict_rel:
  assumes "fifo_rel c xs" "plain_key k"
  shows "fifo_rel (fifo_evict c k) (AList.delete k xs)"
proof (cases "map_of xs k = None")
  case True
  then have "AList.delete k xs = xs" by (simp add: delete_id map_of_eq_None_iff)
  then show ?thesis using assms True by (simp add: fifo_rel_def fifo_evict_def cache_has_def)
next
  case False
  have w: "plain_pairs xs" "length xs \<le> fifo_limit c" "fifo_map c = xs"
    "fifo_q c = replicate (fifo_limit c - length xs) None @ map (Some \<circ> fst) xs"
    using assms(1) by (auto simp: fifo_rel_def)
  have f: "filter (\<lambda>e. case e of None \<Rightarrow> True | Some l \<Rightarrow> snd l \<noteq> snd k) (map (Some \<circ> fst) xs) =
      map (Some \<circ> fst) (AList.delete k xs)"
    using w(1) assms(2) plain_host_eq [OF w(1) assms(2)]
    by (simp add: filter_map AList.delete_eq comp_def split_def eq_commute [of k] cong: filter_cong)
  have "fifo_limit c - length (AList.delete k xs) = Suc (fifo_limit c - length xs)"
    using delete_present [of xs k] False w(1,2) by (auto simp: plain_pairs_def)
  then show ?thesis
    using assms(1) False w f plain_pairs_filter [OF w(1)] delete_shorter(1) [of k xs]
    by (auto simp: fifo_rel_def fifo_evict_def cache_has_def map_dissoc_def AList.delete_eq filter_replicate)
qed

lemma fifo_step_rel:
  assumes "fifo_rel c xs" "plain_key (op_key op)"
  shows "fifo_rel (fifo_step c op) (queue_step (fifo_limit c) xs op) \<and>
    fifo_limit (fifo_step c op) = fifo_limit c"
  using assms fifo_miss_rel [OF assms(1)] fifo_evict_rel [OF assms(1)]
  by (cases op) (auto simp: fifo_rel_def cache_has_def fifo_miss_def fifo_evict_def Let_def)

lemma fifo_seeded:
  assumes "plain_pairs base" "fifo_cache_factory base limit = Inr c"
  shows "fifo_rel c (drop (length base - nat limit) base) \<and> fifo_limit c = nat limit"
proof -
  have "plain_pairs (drop n base)" for n
    using assms(1) by (auto simp: plain_pairs_def drop_map [symmetric] dest: in_set_dropD)
  then show ?thesis
    using assms(2)
    by (auto simp: fifo_cache_factory_def new_fifo_def fifo_seed_def fifo_rel_def Let_def split: if_splits)
qed

text \<open>
  The FIFO cache is a bounded queue. From a cache made over a base map, any sequence of hits,
  guarded misses and evictions on (integer or non-numeric) keys leaves exactly the pairs of the
  abstract queue (a miss appends and drops the oldest pair when full), and never more of them than
  the limit.
\<close>

theorem fifo_refines_queue:
  assumes "fifo_cache_factory base limit = Inr c" "plain_pairs base" "\<forall>op \<in> set ops. plain_key (op_key op)"
  shows "(\<forall>k. cache_lookup (fifo_map (foldl fifo_step c ops)) k None =
      map_of (foldl (queue_step (nat limit)) (drop (length base - nat limit) base) ops) k) \<and>
    length (fifo_map (foldl fifo_step c ops)) \<le> nat limit"
proof -
  have "fifo_rel (foldl fifo_step c ops) (foldl (queue_step (fifo_limit c)) xs ops) \<and>
      fifo_limit (foldl fifo_step c ops) = fifo_limit c" if "fifo_rel c xs" for c :: "('a, 'b) fifo_cache" and xs
    using that assms(3)
  proof (induction ops arbitrary: c xs)
    case (Cons op ops)
    then show ?case
      using fifo_step_rel [of c xs op] Cons.IH [of "fifo_step c op" "queue_step (fifo_limit c) xs op"] by auto
  qed simp
  from this [of c "drop (length base - nat limit) base"] show ?thesis
    using fifo_seeded [OF assms(2,1)] by (auto simp: fifo_rel_def cache_lookup_None)
qed

theorem fifo_refines_queue_witness:
  "\<exists>c :: (string, nat) fifo_cache. fifo_cache_factory [(ckey_of (PyInt 1), 10), (ckey_of (PyInt 2), 20)] 2 = Inr c \<and>
    cache_lookup (fifo_map (foldl fifo_step c [Hit (ckey_of (PyInt 1)), Miss (ckey_of (PyInt 3)) 30]))
      (ckey_of (PyInt 1)) None = None"
proof -
  define c :: "(string, nat) fifo_cache" where
    "c = \<lparr>fifo_map = [(ckey_of (PyInt 1), 10), (ckey_of (PyInt 2), 20)],
      fifo_q = [Some (ckey_of (PyInt 1)), Some (ckey_of (PyInt 2))], fifo_limit = 2\<rparr>"
  have c: "fifo_cache_factory [(ckey_of (PyInt 1), 10), (ckey_of (PyInt 2), 20)] 2 = Inr c"
    by (simp add: fifo_cache_factory_def new_fifo_def fifo_seed_def c_def)
  from fifo_refines_queue [OF c, of "[Hit (ckey_of (PyInt 1)), Miss (ckey_of (PyInt 3)) 30]"] c
  show ?thesis by (auto simp: plain_pairs_def plain_key_def ckey_of_def)
qed


section \<open>Lifetimes in a TTL cache\<close>

text \<open>
  The specification: each key's value and the time of its insertion. An entry is visible for less
  than the time to live.
\<close>

datatype ('k, 'v) timed_op = TMiss int 'k 'v | TEvict int 'k

fun op_time :: "('k, 'v) timed_op \<Rightarrow> int" where
  "op_time (TMiss t k v) = t"
| "op_time (TEvict t k) = t"

fun timed_key :: "('k, 'v) timed_op \<Rightarrow> 'k" where
  "timed_key (TMiss t k v) = k"
| "timed_key (TEvict t k) = k"

fun ttl_step :: "('a, 'v) ttl_cache \<Rightarrow> ('a ckey, 'v) timed_op \<Rightarrow> ('a, 'v) ttl_cache" where
  "ttl_step c (TMiss t k v) = ttl_miss t c k v"
| "ttl_step c (TEvict t k) = ttl_evict c k"

fun birth_step :: "('k \<Rightarrow> ('v \<times> int) option) \<Rightarrow> ('k, 'v) timed_op \<Rightarrow> 'k \<Rightarrow> ('v \<times> int) option" where
  "birth_step m (TMiss t k v) = m(k \<mapsto> (v, t))"
| "birth_step m (TEvict t k) = m(k := None)"

definition bare :: "'a ckey \<Rightarrow> bool" where
  "bare k \<longleftrightarrow> fst k = None"

lemma bare_eq: "bare k \<Longrightarrow> bare l \<Longrightarrow> snd k = snd l \<longleftrightarrow> k = l"
  by (auto simp: bare_def prod_eq_iff)

definition ttl_wf :: "int \<Rightarrow> ('a, 'v) ttl_cache \<Rightarrow> bool" where
  "ttl_wf tm c \<longleftrightarrow> sorted (map (\<lambda>e. snd (snd e)) (ttl_q c)) \<and> distinct (map (\<lambda>e. (fst e, fst (snd e))) (ttl_q c)) \<and>
     (\<forall>e \<in> set (ttl_q c). bare (fst e) \<and> fst (snd e) < ttl_gen c \<and> snd (snd e) \<le> tm) \<and>
     (\<forall>k g t. bare k \<longrightarrow> pd_get (ttl_dict c) k = Some (g, t) \<longrightarrow> (k, g, t) \<in> set (ttl_q c))"

definition ttl_rel :: "int \<Rightarrow> ('a, 'v) ttl_cache \<Rightarrow> ('a ckey \<Rightarrow> ('v \<times> int) option) \<Rightarrow> bool" where
  "ttl_rel tm c m \<longleftrightarrow> ttl_wf tm c \<and> (\<forall>k. bare k \<longrightarrow>
     (case map_of (ttl_map c) k of
        Some v \<Rightarrow> (\<exists>g t. pd_get (ttl_dict c) k = Some (g, t) \<and> m k = Some (v, t))
      | None \<Rightarrow> pd_get (ttl_dict c) k = None \<and> (\<forall>v t. m k = Some (v, t) \<longrightarrow> ttl_ms c < tm - t)))"

lemma ttl_prune_eq:
  "ttl_prune now ms d q =
     (map fst (filter (\<lambda>e. map_option fst (pd_get d (fst e)) = Some (fst (snd e)))
        (takeWhile (\<lambda>e. ms < now - snd (snd e)) q)), dropWhile (\<lambda>e. ms < now - snd (snd e)) q)"
  by (induction now ms d q rule: ttl_prune.induct) auto

lemma sorted_dropWhile_le:
  "sorted (map (\<lambda>e. snd (snd e)) q) \<Longrightarrow> e \<in> set (dropWhile (\<lambda>e. ms < now - snd (snd e)) q) \<Longrightarrow>
   now - snd (snd e) \<le> (ms :: int)"
  by (induction q) (auto split: if_splits)

lemma in_take_or_drop: "x \<in> set xs \<longleftrightarrow> x \<in> set (takeWhile P xs) \<or> x \<in> set (dropWhile P xs)"
  by (metis Un_iff set_append takeWhile_dropWhile_id)

lemma stale_iff:
  assumes "ttl_wf tm c" "bare k"
  shows "k \<in> set (fst (ttl_prune now (ttl_ms c) (ttl_dict c) (ttl_q c))) \<longleftrightarrow>
    (\<exists>g t. pd_get (ttl_dict c) k = Some (g, t) \<and> ttl_ms c < now - t)"
    (is "_ \<longleftrightarrow> ?R")
proof
  assume "k \<in> set (fst (ttl_prune now (ttl_ms c) (ttl_dict c) (ttl_q c)))"
  then obtain g t where e: "(k, g, t) \<in> set (takeWhile (\<lambda>e. ttl_ms c < now - snd (snd e)) (ttl_q c))"
    "map_option fst (pd_get (ttl_dict c) k) = Some g"
    by (auto simp: ttl_prune_eq)
  then obtain t' where d: "pd_get (ttl_dict c) k = Some (g, t')" by auto
  have q: "(k, g, t) \<in> set (ttl_q c)" using e(1) by (rule set_takeWhileD [THEN conjunct1])
  have q': "(k, g, t') \<in> set (ttl_q c)" using assms d unfolding ttl_wf_def by blast
  have "inj_on (\<lambda>e. (fst e, fst (snd e))) (set (ttl_q c))"
    using assms(1) by (simp add: ttl_wf_def distinct_map)
  from inj_onD [OF this _ q q'] have "t = t'" by simp
  then show ?R using set_takeWhileD [OF e(1)] d by auto
next
  assume ?R
  then obtain g t where d: "pd_get (ttl_dict c) k = Some (g, t)" "ttl_ms c < now - t" by blast
  have "(k, g, t) \<in> set (ttl_q c)" using assms d unfolding ttl_wf_def by blast
  moreover have "(k, g, t) \<notin> set (dropWhile (\<lambda>e. ttl_ms c < now - snd (snd e)) (ttl_q c))"
    using sorted_dropWhile_le [of "ttl_q c" "(k, g, t)" "ttl_ms c" now] assms(1) d(2) by (auto simp: ttl_wf_def)
  ultimately have "(k, g, t) \<in> set (takeWhile (\<lambda>e. ttl_ms c < now - snd (snd e)) (ttl_q c))"
    by (metis in_take_or_drop)
  then show "k \<in> set (fst (ttl_prune now (ttl_ms c) (ttl_dict c) (ttl_q c)))"
    using d(1) unfolding ttl_prune_eq fst_conv set_map by (intro image_eqI [where x = "(k, g, t)"]) simp_all
qed

lemma map_of_dissocs: "map_of (foldl (\<lambda>m k. map_dissoc k m) m ks) x = (if x \<in> set ks then None else map_of m x)"
  by (induction ks arbitrary: m) (auto simp: cache_simps)

lemma pd_get_filter:
  "pd_get (filter (\<lambda>(k, _). snd k \<notin> H) d) x = (if snd x \<in> H then None else pd_get d x)"
proof (induction d)
  case (Cons p d)
  then show ?case by (cases "snd (fst p) = snd x"; cases p) auto
qed simp

lemma pd_get_dropped:
  fixes d :: "('a, 'b) pdict"
  shows "pd_get (filter (\<lambda>(k, _). \<forall>s \<in> A. snd s \<noteq> snd k) d) x = (if snd x \<in> snd ` A then None else pd_get d x)"
proof -
  have "(\<lambda>(k :: 'a ckey, _ :: 'b). \<forall>s \<in> A. snd s \<noteq> snd k) = (\<lambda>(k, _). snd k \<notin> snd ` A)"
    by (rule ext) (simp add: split_def image_iff, metis)
  then show ?thesis by (simp only: pd_get_filter)
qed

lemma ttl_miss_rel:
  assumes r: "ttl_rel tm c m" and k: "bare k" and now: "tm \<le> now"
  shows "ttl_rel now (ttl_miss now c k v) (m(k \<mapsto> (v, now))) \<and>
    (\<forall>x g t. bare x \<longrightarrow> pd_get (ttl_dict (ttl_miss now c k v)) x = Some (g, t) \<longrightarrow> 0 \<le> ttl_ms c \<longrightarrow>
       now - t \<le> ttl_ms c)"
proof -
  obtain stale queue where p: "ttl_prune now (ttl_ms c) (ttl_dict c) (ttl_q c) = (stale, queue)"
    by (metis surj_pair)
  have w: "ttl_wf tm c" using r by (simp add: ttl_rel_def)
  have st: "x \<in> set stale \<longleftrightarrow> (\<exists>g t. pd_get (ttl_dict c) x = Some (g, t) \<and> ttl_ms c < now - t)"
    if "bare x" for x using stale_iff [OF w that, of now] by (simp add: p)
  have bare_stale: "bare s" if "s \<in> set stale" for s
    using that w p by (auto simp: ttl_prune_eq ttl_wf_def dest!: set_takeWhileD)
  have q: "queue = dropWhile (\<lambda>e. ttl_ms c < now - snd (snd e)) (ttl_q c)" using p by (simp add: ttl_prune_eq)
  let ?c = "ttl_miss now c k v"
  have c: "ttl_q ?c = queue @ [(k, ttl_gen c, now)]" "ttl_gen ?c = ttl_gen c + 1" "ttl_ms ?c = ttl_ms c"
    by (simp_all add: ttl_miss_def p Let_def)
  have host: "(\<exists>s \<in> set stale. snd s = snd x) \<longleftrightarrow> x \<in> set stale" if "bare x" for x
    using bare_stale bare_eq that by metis
  have dict: "pd_get (ttl_dict ?c) x = (if x = k then Some (ttl_gen c, now)
      else if x \<in> set stale then None else pd_get (ttl_dict c) x)" if "bare x" for x
    using host [OF that] bare_eq [OF that k]
    by (simp add: ttl_miss_def p Let_def cache_simps pd_get_dropped image_iff eq_commute [of "snd x"])
  have mp: "map_of (ttl_map ?c) x = (if x = k then Some v else if x \<in> set stale then None else map_of (ttl_map c) x)" for x
    by (simp add: ttl_miss_def p Let_def cache_simps map_of_dissocs)
  have inq: "(x, g, t) \<in> set queue" if "bare x" "x \<notin> set stale" "pd_get (ttl_dict c) x = Some (g, t)" for x g t
  proof -
    have "(x, g, t) \<in> set (ttl_q c)" using w that(1,3) unfolding ttl_wf_def by blast
    moreover have "\<not> ttl_ms c < now - t" using st [OF that(1)] that(2,3) by auto
    then have "(x, g, t) \<notin> set (takeWhile (\<lambda>e. ttl_ms c < now - snd (snd e)) (ttl_q c))"
      by (auto dest: set_takeWhileD)
    ultimately show ?thesis unfolding q by (metis in_take_or_drop)
  qed
  have sub: "set queue \<subseteq> set (ttl_q c)" unfolding q by (auto dest: set_dropWhileD)
  obtain front where "ttl_q c = front @ queue" unfolding q by (metis takeWhile_dropWhile_id)
  then have "sorted (map (\<lambda>e. snd (snd e)) queue)" "distinct (map (\<lambda>e. (fst e, fst (snd e))) queue)"
    using w unfolding ttl_wf_def by (simp_all add: sorted_append)
  moreover have "\<forall>e \<in> set queue. bare (fst e) \<and> fst (snd e) < ttl_gen c \<and> snd (snd e) \<le> now"
    using w sub now unfolding ttl_wf_def by force
  moreover have "(x, g, t) \<in> set (ttl_q ?c)" if "bare x" "pd_get (ttl_dict ?c) x = Some (g, t)" for x g t
    using that inq [of x g t] by (auto simp: c dict [OF that(1)] split: if_splits)
  ultimately have wf: "ttl_wf now ?c"
    unfolding ttl_wf_def c using k by (auto simp: sorted_append less_Suc_eq)
  have rel: "case map_of (ttl_map ?c) x of
      Some u \<Rightarrow> (\<exists>g t. pd_get (ttl_dict ?c) x = Some (g, t) \<and> (m(k \<mapsto> (v, now))) x = Some (u, t))
    | None \<Rightarrow> pd_get (ttl_dict ?c) x = None \<and> (\<forall>u t. (m(k \<mapsto> (v, now))) x = Some (u, t) \<longrightarrow> ttl_ms ?c < now - t)"
    if "bare x" for x
  proof -
    have "case map_of (ttl_map c) x of
        Some u \<Rightarrow> (\<exists>g t. pd_get (ttl_dict c) x = Some (g, t) \<and> m x = Some (u, t))
      | None \<Rightarrow> pd_get (ttl_dict c) x = None \<and> (\<forall>u t. m x = Some (u, t) \<longrightarrow> ttl_ms c < tm - t)"
      using r that unfolding ttl_rel_def by blast
    note old = this
    show ?thesis
    proof (cases "x = k \<or> x \<notin> set stale")
      case True
      then show ?thesis using old now dict [OF k] by (auto simp: mp dict [OF that] c split: option.splits)
    next
      case False
      then obtain g t where "pd_get (ttl_dict c) x = Some (g, t)" "ttl_ms c < now - t"
        using st \<open>bare x\<close> by blast
      then show ?thesis using old False by (auto simp: mp dict [OF that] c split: option.splits)
    qed
  qed
  have young: "now - t \<le> ttl_ms c"
    if "bare x" "pd_get (ttl_dict ?c) x = Some (g, t)" "0 \<le> ttl_ms c" for x g t
    using that st [OF that(1)] by (auto simp: dict [OF that(1)] split: if_splits)
  show ?thesis using wf rel young unfolding ttl_rel_def by blast
qed


lemma ttl_evict_rel:
  assumes r: "ttl_rel tm c m" and k: "bare k" and now: "tm \<le> now"
  shows "ttl_rel now (ttl_evict c k) (m(k := None))"
proof -
  have d: "pd_get (ttl_dict (ttl_evict c k)) x = (if x = k then None else pd_get (ttl_dict c) x)"
    if "bare x" for x
    using bare_eq [OF that k] by (cases "pd_get (ttl_dict c) k") (auto simp: ttl_evict_def cache_simps pd_has_def)
  have q: "ttl_q (ttl_evict c k) = ttl_q c" "ttl_gen (ttl_evict c k) = ttl_gen c" "ttl_ms (ttl_evict c k) = ttl_ms c"
    "map_of (ttl_map (ttl_evict c k)) = (map_of (ttl_map c))(k := None)"
    by (simp_all add: ttl_evict_def cache_simps)
  have "ttl_wf now (ttl_evict c k)"
    using r now d unfolding ttl_rel_def ttl_wf_def q by (fastforce split: if_splits)
  moreover have "case map_of (ttl_map (ttl_evict c k)) x of
      Some u \<Rightarrow> (\<exists>g t. pd_get (ttl_dict (ttl_evict c k)) x = Some (g, t) \<and> (m(k := None)) x = Some (u, t))
    | None \<Rightarrow> pd_get (ttl_dict (ttl_evict c k)) x = None \<and>
        (\<forall>u t. (m(k := None)) x = Some (u, t) \<longrightarrow> ttl_ms (ttl_evict c k) < now - t)" if "bare x" for x
  proof -
    have "case map_of (ttl_map c) x of
        Some u \<Rightarrow> (\<exists>g t. pd_get (ttl_dict c) x = Some (g, t) \<and> m x = Some (u, t))
      | None \<Rightarrow> pd_get (ttl_dict c) x = None \<and> (\<forall>u t. m x = Some (u, t) \<longrightarrow> ttl_ms c < tm - t)"
      using r that unfolding ttl_rel_def by blast
    then show ?thesis
      using now unfolding d [OF that] q by (cases "map_of (ttl_map c) x") fastforce+
  qed
  ultimately show ?thesis unfolding ttl_rel_def by blast
qed

lemma ttl_rel_lookup:
  assumes "ttl_rel tm c m" "bare k" "tm \<le> now" "0 \<le> ttl_ms c"
  shows "ttl_lookup now c k nf = (case m k of
      Some (v, t) \<Rightarrow> if now - t < ttl_ms c then Some v else nf
    | None \<Rightarrow> nf)"
proof -
  have raw: "raw_key k = k" using assms(2) by (cases k) (simp add: raw_key_def bare_def)
  have "case map_of (ttl_map c) k of
      Some u \<Rightarrow> (\<exists>g t. pd_get (ttl_dict c) k = Some (g, t) \<and> m k = Some (u, t))
    | None \<Rightarrow> pd_get (ttl_dict c) k = None \<and> (\<forall>u t. m k = Some (u, t) \<longrightarrow> ttl_ms c < tm - t)"
    using assms(1,2) unfolding ttl_rel_def by blast
  then show ?thesis
    using assms(3,4) by (cases "map_of (ttl_map c) k"; cases "m k")
      (auto simp: ttl_lookup_def ttl_has_def raw)
qed

text \<open>
  C9: a TTL cache is a map with lifetimes, for keys that are not numeric. After any time-ordered
  sequence of misses and evictions of such keys on a fresh cache, a look-up of such a key answers the
  last value written to it exactly while fewer than the time to live have passed since; the entries
  pruned on the way are never missed. (Numeric keys are never found at all, see \<open>cache_limits_broken\<close>.)
\<close>

theorem ttl_lifetimes:
  assumes "ttl_cache_factory t0 [] ms = Inr c" "sorted (t0 # map op_time ops @ [now])"
    and "\<forall>op \<in> set ops. bare (timed_key op)" "bare k"
  shows "ttl_lookup now (foldl ttl_step c ops) k nf =
    (case foldl birth_step (\<lambda>_. None) ops k of
       Some (v, t) \<Rightarrow> if now - t < ms then Some v else nf
     | None \<Rightarrow> nf)"
proof -
  have c: "c = \<lparr>ttl_map = [], ttl_dict = [], ttl_q = [], ttl_gen = 1, ttl_ms = ms\<rparr>" "0 \<le> ms"
    using assms(1) by (auto simp: ttl_cache_factory_def new_ttl_def ttl_seed_def dict_of_keys_def split: if_splits)
  have step: "\<exists>tm. ttl_rel tm (foldl ttl_step c ops) (foldl birth_step m ops) \<and>
      ttl_ms (foldl ttl_step c ops) = ttl_ms c \<and> tm \<le> now"
    if "ttl_rel tm c m" "sorted (tm # map op_time ops @ [now])" "\<forall>op \<in> set ops. bare (timed_key op)"
    for tm and c :: "('a, 'b) ttl_cache" and m
    using that
  proof (induction ops arbitrary: tm c m)
    case (Cons op ops)
    have le: "tm \<le> op_time op" using Cons.prems(2) by simp
    have "ttl_rel (op_time op) (ttl_step c op) (birth_step m op)"
      using ttl_miss_rel [OF Cons.prems(1) _ le] ttl_evict_rel [OF Cons.prems(1) _ le] Cons.prems(3)
      by (cases op) auto
    moreover have "ttl_ms (ttl_step c op) = ttl_ms c"
      by (cases op) (simp_all add: ttl_miss_def ttl_evict_def split_def Let_def)
    ultimately show ?case
      using Cons.IH [of "op_time op" "ttl_step c op" "birth_step m op"] Cons.prems(2,3) by simp
  qed auto
  have "ttl_rel t0 c (\<lambda>_. None)" by (simp add: c(1) ttl_rel_def ttl_wf_def)
  then obtain tm where tm: "ttl_rel tm (foldl ttl_step c ops) (foldl birth_step (\<lambda>_. None) ops)"
    "ttl_ms (foldl ttl_step c ops) = ms" "tm \<le> now"
    using step [of t0 c "\<lambda>_. None"] assms(2,3) c(1) by auto
  show ?thesis
    using ttl_rel_lookup [OF tm(1) assms(4) tm(3), of nf] c(2) unfolding tm(2) by simp
qed

theorem ttl_lifetimes_witness:
  "\<exists>c :: (string, nat) ttl_cache. ttl_cache_factory 100 [] 50 = Inr c \<and>
    ttl_lookup 180 (foldl ttl_step c [TMiss 110 (ckey_of (PyOther ''a'')) 1, TMiss 140 (ckey_of (PyOther ''b'')) 2])
      (ckey_of (PyOther ''b'')) None = Some 2 \<and>
    ttl_lookup 180 (foldl ttl_step c [TMiss 110 (ckey_of (PyOther ''a'')) 1, TMiss 140 (ckey_of (PyOther ''b'')) 2])
      (ckey_of (PyOther ''a'')) None = None"
proof -
  obtain c :: "(string, nat) ttl_cache" where c: "ttl_cache_factory 100 [] 50 = Inr c"
    by (simp add: ttl_cache_factory_def new_ttl_def)
  note t = ttl_lifetimes [OF c, of "[TMiss 110 (ckey_of (PyOther ''a'')) 1, TMiss 140 (ckey_of (PyOther ''b'')) 2]" 180]
  from t [of "ckey_of (PyOther ''a'')"] t [of "ckey_of (PyOther ''b'')"] c show ?thesis
    by (auto simp: bare_def ckey_of_def)
qed


section \<open>Where the limits fail\<close>

text \<open>Keys of the values that are no booleans; a numeric key is stored under its family.\<close>

definition stored_keys :: "'a ckey set" where
  "stored_keys = ckey_of ` {w. \<forall>b. w \<noteq> PyBool b}"

lemma raw_not_stored: "numeric_family v \<noteq> None \<Longrightarrow> raw_key (ckey_of v) \<notin> stored_keys"
proof
  assume "numeric_family v \<noteq> None" "raw_key (ckey_of v) \<in> stored_keys"
  then obtain w where w: "\<forall>b. w \<noteq> PyBool b" "numeric_family w = None" "host_of v = host_of w"
    by (auto simp: stored_keys_def raw_key_def ckey_of_def)
  then show False using \<open>numeric_family v \<noteq> None\<close> by (cases w; cases v) auto
qed

lemma dissocs_keys: "fst ` set (foldl (\<lambda>m k. map_dissoc k m) m ks) \<subseteq> fst ` set m"
proof (induction ks arbitrary: m)
  case (Cons k ks)
  have "fst ` set (map_dissoc k m) \<subseteq> fst ` set m" by (auto simp: map_dissoc_def AList.delete_eq)
  with Cons.IH [of "map_dissoc k m"] show ?case by simp
qed simp

lemma ttl_step_keys:
  assumes "fst ` set (ttl_map c) \<subseteq> stored_keys" "timed_key op \<in> stored_keys"
  shows "fst ` set (ttl_map (ttl_step c op)) \<subseteq> stored_keys"
proof (cases op)
  case (TMiss t k v)
  obtain stale q where "ttl_prune t (ttl_ms c) (ttl_dict c) (ttl_q c) = (stale, q)" by fastforce
  then show ?thesis
    using assms TMiss dissocs_keys [of "ttl_map c" stale]
    by (auto simp: ttl_miss_def map_assoc_def dom_update [unfolded dom_map_of_conv_image_fst] dest!: subsetD)
next
  case (TEvict t k)
  then show ?thesis using assms by (auto simp: ttl_evict_def map_dissoc_def AList.delete_eq)
qed

lemma ttl_steps_keys:
  "fst ` set (ttl_map c) \<subseteq> stored_keys \<Longrightarrow> \<forall>op \<in> set ops. timed_key op \<in> stored_keys \<Longrightarrow>
     fst ` set (ttl_map (foldl ttl_step c ops)) \<subseteq> stored_keys"
  by (induction ops arbitrary: c) (simp_all add: ttl_step_keys)

text \<open>The hosts of a dict: what Python compares.\<close>

definition hosts :: "('a, 'b) pdict \<Rightarrow> 'a host list" where
  "hosts d = map (\<lambda>p. snd (fst p)) d"

lemma hosts_pd_set: "hosts (pd_set k b d) = (if snd k \<in> set (hosts d) then hosts d else hosts d @ [snd k])"
  by (induction k b d rule: pd_set.induct) (auto simp: hosts_def)

lemma hosts_pd_pop: "hosts (pd_pop k d) = filter (\<lambda>h. h \<noteq> snd k) (hosts d)"
  by (induction d) (auto simp: hosts_def pd_pop_def)

lemma pd_has_hosts: "pd_has d k \<longleftrightarrow> snd k \<in> set (hosts d)"
  by (auto simp: pd_has_iff hosts_def)

text \<open>Misses of the keys 0, 0.0, 1, 1.0 and so on.\<close>

definition twin_misses :: "'v \<Rightarrow> nat \<Rightarrow> ('a ckey, 'v) cache_op list" where
  "twin_misses x n =
     concat (map (\<lambda>i. [Miss (ckey_of (PyInt (int i))) x, Miss (ckey_of (PyFloat (of_nat i))) x]) [0..<n])"

lemma twin_misses_Suc:
  "twin_misses x (Suc n) =
     twin_misses x n @ [Miss (ckey_of (PyInt (int n))) x, Miss (ckey_of (PyFloat (of_nat n))) x]"
  by (simp add: twin_misses_def)

definition twin_keys :: "nat \<Rightarrow> 'a ckey list" where
  "twin_keys n = concat (map (\<lambda>i. [ckey_of (PyInt (int i)), ckey_of (PyFloat (of_nat i))]) [0..<n])"

lemma twin_key_new: "ckey_of (PyInt (int n)) \<notin> set (twin_keys n)" "ckey_of (PyFloat (of_nat n)) \<notin> set (twin_keys n)"
  by (auto simp: twin_keys_def ckey_of_def)

lemma twin_lru:
  assumes "n \<le> lru_limit c" "lru_map c = []" "lru_dict c = []"
  shows "\<exists>c'. foldM lru_step c (twin_misses x n) = Inr c' \<and> lru_limit c' = lru_limit c \<and>
    map fst (lru_map c') = twin_keys n \<and> hosts (lru_dict c') = map (\<lambda>i. Number (of_nat i)) [0..<n]"
  using assms(1)
proof (induction n)
  case 0
  then show ?case using assms(2,3) by (simp add: twin_misses_def twin_keys_def hosts_def)
next
  case (Suc n)
  then obtain c1 where c1: "foldM lru_step c (twin_misses x n) = Inr c1" "lru_limit c1 = lru_limit c"
    "map fst (lru_map c1) = twin_keys n" "hosts (lru_dict c1) = map (\<lambda>i. Number (of_nat i)) [0..<n]"
    by auto
  let ?k = "ckey_of (PyInt (int n)) :: 'a ckey" and ?l = "ckey_of (PyFloat (of_nat n)) :: 'a ckey"
  have snd: "snd ?k = Number (of_nat n)" "snd ?l = Number (of_nat n)" by (simp_all add: ckey_of_def)
  have fresh: "snd ?k \<notin> set (hosts (lru_dict c1))" by (auto simp: c1(4) snd)
  have len: "length (lru_dict c1) = n" using arg_cong [OF c1(4), of length] by (simp add: hosts_def)
  have "fst ` set (lru_map c1) = set (twin_keys n)" using arg_cong [OF c1(3), of set] by simp
  then have new: "?k \<notin> fst ` set (lru_map c1)" "?l \<notin> fst ` set (lru_map c1)" "?l \<noteq> ?k"
    using twin_key_new [of n] by (simp_all add: ckey_of_def)
  define c2 where "c2 = c1\<lparr>lru_map := lru_map c1 @ [(?k, x)], lru_dict := pd_set ?k (lru_tick c1 + 1) (lru_dict c1),
    lru_tick := lru_tick c1 + 1\<rparr>"
  have step1: "lru_step c1 (Miss ?k x) = Inr c2"
    using len Suc.prems c1(2) new(1)
    by (simp add: c2_def lru_miss_def evict_victim_def map_assoc_def update_fresh)
  have hosts2: "hosts (lru_dict c2) = map (\<lambda>i. Number (of_nat i)) [0..<Suc n]"
    using fresh by (simp add: c2_def hosts_pd_set c1(4) snd)
  then have "pd_has (lru_dict c2) ?l" by (simp add: pd_has_hosts snd)
  moreover have "map_dissoc ?l (lru_map c2) = lru_map c2"
    using new by (simp add: c2_def map_dissoc_def delete_idem image_Un)
  moreover define dict where
    "dict = (if lru_limit c2 \<le> length (lru_dict c2) then pd_pop ?l (lru_dict c2) else lru_dict c2)"
  ultimately have dict: "evict_victim (lru_limit c2) ?l (lru_map c2) (lru_dict c2) = Inr (lru_map c2, dict)"
    by (simp add: evict_victim_def)
  have "hosts (pd_set ?l t dict) = map (\<lambda>i. Number (of_nat i)) [0..<Suc n]" for t
    using hosts2 by (auto simp: dict_def hosts_pd_set hosts_pd_pop snd filter_id_conv)
  moreover have "map_assoc ?l x (lru_map c2) = lru_map c2 @ [(?l, x)]"
    using new by (simp add: c2_def map_assoc_def update_fresh image_Un)
  ultimately obtain c3 where "lru_step c2 (Miss ?l x) = Inr c3" "lru_limit c3 = lru_limit c1"
    "map fst (lru_map c3) = twin_keys n @ [?k, ?l]" "hosts (lru_dict c3) = map (\<lambda>i. Number (of_nat i)) [0..<Suc n]"
    using dict c1(3) by (simp add: lru_miss_def c2_def)
  then show ?case
    using c1(1,2) step1 by (simp add: twin_misses_Suc foldM_append) (simp add: twin_keys_def)
qed

text \<open>
  C31: two ways in which the policies break what they promise, for caches of any size and any programs. A TTL cache
  never finds a numeric key: whatever keys (no booleans) were added and evicted before, a look-up of an
  entry just added under a number answers that it is not there, while the map holds it. And an LRU cache of any
  limit holds twice as many entries after the misses of \<open>0, 0.0, 1, 1.0, \<dots>\<close>, because the dict in which
  it counts its entries takes \<open>1\<close> and \<open>1.0\<close> for one key.
\<close>

theorem cache_limits_broken:
  assumes "ttl_cache_factory t0 [] ms = Inr c" "\<forall>op \<in> set ops. timed_key op \<in> stored_keys"
    and "numeric_family v \<noteq> None" and "lru_cache_factory [] limit = Inr d"
  shows "ttl_lookup now (foldl ttl_step c (ops @ [TMiss t (ckey_of v) x])) (ckey_of v) nf = nf \<and>
    map_of (ttl_map (foldl ttl_step c (ops @ [TMiss t (ckey_of v) x]))) (ckey_of v) = Some x \<and>
    (\<exists>d'. foldM lru_step d (twin_misses y (nat limit)) = Inr d' \<and>
       lru_limit d' = nat limit \<and> length (lru_map d') = 2 * nat limit)"
proof (intro conjI)
  let ?c = "foldl ttl_step c (ops @ [TMiss t (ckey_of v) x])"
  have "ttl_map c = []"
    using assms(1) by (auto simp: ttl_cache_factory_def new_ttl_def ttl_seed_def split: if_splits)
  moreover have "ckey_of v \<in> stored_keys" using assms(3) by (auto simp: stored_keys_def)
  ultimately have "fst ` set (ttl_map ?c) \<subseteq> stored_keys"
    using assms(2) by (intro ttl_steps_keys) auto
  then have "map_of (ttl_map ?c) (raw_key (ckey_of v)) = None"
    using raw_not_stored [OF assms(3)] by (auto simp: map_of_eq_None_iff)
  then show "ttl_lookup now ?c (ckey_of v) nf = nf" by (simp add: ttl_lookup_def ttl_has_def)
  show "map_of (ttl_map ?c) (ckey_of v) = Some x"
    by (auto simp: ttl_miss_def map_assoc_def update_conv split: prod.split)
  have d: "lru_map d = []" "lru_dict d = []" "lru_limit d = nat limit"
    using assms(4) by (auto simp: lru_cache_factory_def new_lru_def lru_seed_def dict_of_keys_def split: if_splits)
  have "length (twin_keys n :: 'c ckey list) = 2 * n" for n by (induction n) (simp_all add: twin_keys_def)
  then show "\<exists>d'. foldM lru_step d (twin_misses y (nat limit)) = Inr d' \<and>
      lru_limit d' = nat limit \<and> length (lru_map d') = 2 * nat limit"
    using twin_lru [of "nat limit" d y] d by (metis length_map order_refl)
qed

theorem cache_limits_broken_witness:
  "(\<exists>c :: (unit, string) ttl_cache. ttl_cache_factory 0 [] 1000 = Inr c \<and>
     ttl_lookup 5 (ttl_miss 4 c (ckey_of (PyInt 1)) ''a'') (ckey_of (PyInt 1)) None = None) \<and>
   (\<exists>d d' :: (unit, string) lru_cache. lru_cache_factory [] 3 = Inr d \<and>
     foldM lru_step d (twin_misses ''b'' 3) = Inr d' \<and> lru_limit d' = 3 \<and> length (lru_map d') = 6)"
proof -
  obtain c :: "(unit, string) ttl_cache" where c: "ttl_cache_factory 0 [] 1000 = Inr c"
    by (simp add: ttl_cache_factory_def new_ttl_def)
  obtain d :: "(unit, string) lru_cache" where d: "lru_cache_factory [] 3 = Inr d"
    by (simp add: lru_cache_factory_def new_lru_def)
  have v: "numeric_family (PyInt 1 :: unit pyval) \<noteq> None" and n: "nat 3 = 3" by simp_all
  from cache_limits_broken [OF c _ v d, of "[]" 5 4 "''a''" None "''b''", unfolded n]
  have "ttl_lookup 5 (ttl_miss 4 c (ckey_of (PyInt 1)) ''a'') (ckey_of (PyInt 1)) None = None"
    "\<exists>d'. foldM lru_step d (twin_misses ''b'' 3) = Inr d' \<and> lru_limit d' = 3 \<and> length (lru_map d') = 6"
    by simp_all
  then show ?thesis using c d by blast
qed

text \<open>Two more, by evaluation: FIFO with an entry added again, and LIRS after an eviction.\<close>

lemma fifo_lirs_examples:
  "\<exists>c. fifo_cache_factory [] 3 = Inr c \<and>
      length (fifo_map (foldl (\<lambda>c n. fifo_miss c (ckey_of (PyOther n)) True) c [0, 1, 1, 2, 3, 4 :: nat])) = 4"
  "\<exists>c. lirs_cache_factory [] 1 1 = Inr c \<and>
      rbind (lirs_miss c (ckey_of (PyInt 1 :: nat pyval)) True)
        (\<lambda>c. lirs_miss (lirs_evict c (ckey_of (PyInt 1))) (ckey_of (PyOther 0)) True) = Inl ValueError"
  by (auto simp: fifo_cache_factory_def new_fifo_def fifo_seed_def fifo_miss_def ckey_of_def
      map_assoc_def map_dissoc_def numeral_eq_Suc Let_def)
    (auto simp: lirs_cache_factory_def new_lirs_def lirs_seed_def lirs_miss_def lirs_evict_def
      dummy_entries_def ckey_of_def map_assoc_def map_dissoc_def Let_def cache_has_def pd_pop_def min_key_def)

end
