(* ===== verification/Character.thy ===== *)
theory Character
  imports Prelude
begin

text \<open>
  UTF-16 views of Python strings (\<open>src/src/basilisp/lang/character.py\<close>).

  A Python string is a list of code points (numbers below 0x110000, surrogates included); the
  codec \<open>utf-16-le\<close> with \<open>surrogatepass\<close> turns it into bytes and back.
\<close>

section \<open>The codec\<close>

type_synonym pystr = "nat list"

definition valid_str :: "pystr \<Rightarrow> bool" where
  "valid_str s \<longleftrightarrow> (\<forall>c \<in> set s. c < 0x110000)"

definition units_of_point :: "nat \<Rightarrow> nat list" where
  "units_of_point c =
     (if c < 0x10000 then [c]
      else [0xD800 + (c - 0x10000) div 0x400, 0xDC00 + (c - 0x10000) mod 0x400])"

definition bytes_of_unit :: "nat \<Rightarrow> nat list" where
  "bytes_of_unit u = [u mod 256, u div 256]"

definition encode_utf16 :: "pystr \<Rightarrow> nat list" where
  "encode_utf16 s = concat (map bytes_of_unit (concat (map units_of_point s)))"

text \<open>Decoding joins a high and a low surrogate that follow each other, and passes others.\<close>

definition is_high :: "nat \<Rightarrow> bool" where
  "is_high u \<longleftrightarrow> 0xD800 \<le> u \<and> u < 0xDC00"

definition is_low :: "nat \<Rightarrow> bool" where
  "is_low u \<longleftrightarrow> 0xDC00 \<le> u \<and> u < 0xE000"

fun join_units :: "nat list \<Rightarrow> pystr" where
  "join_units (u # v # us) =
     (if is_high u \<and> is_low v
      then (0x10000 + (u - 0xD800) * 0x400 + (v - 0xDC00)) # join_units us
      else u # join_units (v # us))"
| "join_units us = us"

text \<open>\<open>int.from_bytes(_, "little")\<close> of the slices of two bytes.\<close>

fun units_of_bytes :: "nat list \<Rightarrow> nat list" where
  "units_of_bytes (a # b # bs) = (a + 256 * b) # units_of_bytes bs"
| "units_of_bytes [a] = [a]"
| "units_of_bytes [] = []"

definition decode_utf16 :: "nat list \<Rightarrow> pystr" where
  "decode_utf16 bs = join_units (units_of_bytes bs)"

section \<open>The operations\<close>

definition utf16_length :: "pystr \<Rightarrow> nat" where
  "utf16_length s = length (encode_utf16 s) div 2"

definition iter_utf16_units :: "pystr \<Rightarrow> nat list" where
  "iter_utf16_units s = units_of_bytes (encode_utf16 s)"

definition utf16_unit_at :: "pystr \<Rightarrow> index_arg \<Rightarrow> nat res" where
  "utf16_unit_at s index =
     (case index of
        IdxOther \<Rightarrow> Inl TypeError
      | IdxInt i \<Rightarrow>
          (if i < 0 then Inl IndexError
           else (let encoded = encode_utf16 s; offset = nat i * 2
                 in if offset \<ge> length encoded then Inl IndexError
                    else Inr (hd (units_of_bytes (take 2 (drop offset encoded)))))))"

text \<open>
  The substring indexes have passed \<open>_coerce_substring_index\<close>; its exceptions come in as results.
\<close>

definition utf16_substring :: "pystr \<Rightarrow> int res \<Rightarrow> int res option \<Rightarrow> pystr res" where
  "utf16_substring s start stop =
     rbind start (\<lambda>a.
     rbind (case stop of None \<Rightarrow> Inr (int (utf16_length s)) | Some e \<Rightarrow> e) (\<lambda>b.
       if a < 0 \<or> b < a \<or> b > int (utf16_length s) then Inl IndexError
       else Inr (decode_utf16 (take (nat (b * 2 - a * 2)) (drop (nat (a * 2)) (encode_utf16 s))))))"

text \<open>A character is one code unit; \<open>character\<close> accepts one, or a string of one code unit.\<close>

datatype character_arg = CharacterArg nat | StringArg pystr | OtherArg

definition validate_code_unit :: "character_arg \<Rightarrow> nat res" where
  "validate_code_unit v =
     (case v of
        StringArg [c] \<Rightarrow> if c > 0xFFFF then Inl ValueError else Inr c
      | _ \<Rightarrow> Inl ValueError)"

definition character :: "character_arg \<Rightarrow> nat res" where
  "character v = (case v of CharacterArg c \<Rightarrow> Inr c | _ \<Rightarrow> validate_code_unit v)"

definition char_name :: "nat \<Rightarrow> pystr" where
  "char_name c =
     (if c = 10 then map of_char ''newline''
      else if c = 32 then map of_char ''space''
      else if c = 9 then map of_char ''tab''
      else if c = 12 then map of_char ''formfeed''
      else if c = 8 then map of_char ''backspace''
      else if c = 13 then map of_char ''return''
      else [c])"

definition hex_digit :: "nat \<Rightarrow> nat" where
  "hex_digit d = (if d < 10 then 48 + d else 55 + d)"

definition hex4 :: "nat \<Rightarrow> pystr" where
  "hex4 c = map hex_digit [c div 4096 mod 16, c div 256 mod 16, c div 16 mod 16, c mod 16]"

definition char_lrepr :: "nat \<Rightarrow> bool \<Rightarrow> bool \<Rightarrow> pystr" where
  "char_lrepr c human_readable print_readably =
     (if human_readable \<or> \<not> print_readably then [c]
      else if 0xD800 \<le> c \<and> c \<le> 0xDFFF then [92, 117] @ hex4 c
      else 92 # char_name c)"

section \<open>Properties\<close>

definition utf16 :: "pystr \<Rightarrow> nat list" where
  "utf16 s = concat (map units_of_point s)"

lemma units_of_encoded: "units_of_bytes (concat (map bytes_of_unit us)) = us"
  by (induction us) (auto simp: bytes_of_unit_def)

lemma length_encoded: "length (concat (map bytes_of_unit us)) = 2 * length us"
  by (induction us) (auto simp: bytes_of_unit_def)

lemma drop_encoded: "drop (2 * n) (concat (map bytes_of_unit us)) = concat (map bytes_of_unit (drop n us))"
proof (induction n arbitrary: us)
  case (Suc n)
  then show ?case by (cases us) (simp_all add: bytes_of_unit_def)
qed simp

lemma take_encoded: "take (2 * n) (concat (map bytes_of_unit us)) = concat (map bytes_of_unit (take n us))"
proof (induction n arbitrary: us)
  case (Suc n)
  then show ?case by (cases us) (simp_all add: bytes_of_unit_def)
qed simp

lemma iter_units: "iter_utf16_units s = utf16 s"
  by (simp add: iter_utf16_units_def encode_utf16_def utf16_def units_of_encoded)

lemma utf16_length: "utf16_length s = length (utf16 s)"
  by (simp add: utf16_length_def encode_utf16_def utf16_def length_encoded)

lemma utf16_join: "utf16 (join_units us) = us" if "\<forall>u \<in> set us. u < 0x10000"
  using that
proof (induction us rule: join_units.induct)
  case (1 u v us)
  show ?case
  proof (cases "is_high u \<and> is_low v")
    case True
    define c where "c = 0x10000 + (u - 0xD800) * 0x400 + (v - 0xDC00)"
    obtain a b where ab: "u = 0xD800 + a" "v = 0xDC00 + b" "b < 0x400"
      using True by (auto simp: is_high_def is_low_def dest!: le_Suc_ex)
    then have "c = 0x10000 + (a * 0x400 + b)" by (simp add: c_def)
    then have "units_of_point c = [u, v]" using ab by (simp add: units_of_point_def)
    then show ?thesis using 1 True by (simp add: utf16_def c_def [symmetric])
  next
    case False
    then have "join_units (u # v # us) = u # join_units (v # us)"
      by (simp only: join_units.simps if_not_P [OF False] if_False)
    moreover have "utf16 (join_units (v # us)) = v # us"
      by (rule 1(2)) (use False 1(3) in auto)
    ultimately show ?thesis using 1(3) by (simp add: utf16_def units_of_point_def)
  qed
qed (simp_all add: utf16_def units_of_point_def)

lemma utf16_below: "valid_str s \<Longrightarrow> \<forall>u \<in> set (utf16 s). u < 0x10000"
  by (auto simp: utf16_def units_of_point_def valid_str_def split: if_splits)

text \<open>
  Strings are indexed by UTF-16 code unit. With the units of a string as the reference list, the
  length is its length, indexing is its indexing with every index outside it (negative ones
  included) an error, and a substring has exactly the units of the slice, surrogate pairs cut in
  half included; bounds out of order or range raise IndexError.
\<close>

theorem utf16_indexing:
  assumes "valid_str s"
  shows "utf16_length s = length (iter_utf16_units s) \<and>
    utf16_unit_at s (IdxInt i) =
      (if 0 \<le> i \<and> i < int (utf16_length s) then Inr (iter_utf16_units s ! nat i) else Inl IndexError) \<and>
    (if 0 \<le> a \<and> a \<le> b \<and> b \<le> int (utf16_length s)
     then \<exists>r. utf16_substring s (Inr a) (Some (Inr b)) = Inr r \<and>
       iter_utf16_units r = take (nat (b - a)) (drop (nat a) (iter_utf16_units s))
     else utf16_substring s (Inr a) (Some (Inr b)) = Inl IndexError)"
proof (intro conjI)
  show "utf16_length s = length (iter_utf16_units s)" by (simp add: iter_units utf16_length)
  show "utf16_unit_at s (IdxInt i) =
      (if 0 \<le> i \<and> i < int (utf16_length s) then Inr (iter_utf16_units s ! nat i) else Inl IndexError)"
  proof (cases "0 \<le> i \<and> i < int (utf16_length s)")
    case True
    then have i: "nat i < length (utf16 s)" by (simp add: utf16_length nat_less_iff)
    have "take 2 (drop (nat i * 2) (encode_utf16 s)) = bytes_of_unit (utf16 s ! nat i)"
      using drop_encoded [of "nat i" "utf16 s"] i
      by (simp add: encode_utf16_def utf16_def [symmetric] mult.commute Cons_nth_drop_Suc [symmetric]
          bytes_of_unit_def)
    then show ?thesis
      using True i
      by (simp add: utf16_unit_at_def Let_def encode_utf16_def utf16_def [symmetric] length_encoded
          iter_units utf16_length bytes_of_unit_def)
  next
    case False
    then show ?thesis
      by (auto simp: utf16_unit_at_def Let_def encode_utf16_def utf16_def [symmetric] length_encoded
          utf16_length)
  qed
  show "if 0 \<le> a \<and> a \<le> b \<and> b \<le> int (utf16_length s)
     then \<exists>r. utf16_substring s (Inr a) (Some (Inr b)) = Inr r \<and>
       iter_utf16_units r = take (nat (b - a)) (drop (nat a) (iter_utf16_units s))
     else utf16_substring s (Inr a) (Some (Inr b)) = Inl IndexError"
  proof (cases "0 \<le> a \<and> a \<le> b \<and> b \<le> int (utf16_length s)")
    case True
    have n: "nat (b * 2 - a * 2) = 2 * nat (b - a)" "nat (a * 2) = 2 * nat a" using True by auto
    have "\<forall>u \<in> set (take (nat (b - a)) (drop (nat a) (utf16 s))). u < 0x10000"
      using utf16_below [OF assms] by (meson in_set_dropD in_set_takeD)
    then show ?thesis
      using True
      by (simp add: utf16_substring_def n encode_utf16_def utf16_def [symmetric] take_encoded
          drop_encoded decode_utf16_def units_of_encoded iter_units utf16_join)
  next
    case False
    then show ?thesis by (auto simp: utf16_substring_def)
  qed
qed

theorem utf16_indexing_witness:
  "utf16_substring [0x1F600, 97] (Inr 1) (Some (Inr 3)) = Inr [0xDE00, 97] \<and>
   utf16_unit_at [0x1F600, 97] (IdxInt 2) = Inr 97"
proof -
  have v: "valid_str [0x1F600, 97]" by (simp add: valid_str_def)
  have "utf16_unit_at [0x1F600, 97] (IdxInt 2) = Inr 97"
    using utf16_indexing [OF v, of 2 0 0]
    by (simp add: iter_units utf16_length utf16_def units_of_point_def)
  moreover have "utf16_substring [0x1F600, 97] (Inr 1) (Some (Inr 3)) = Inr [0xDE00, 97]"
    by (simp add: utf16_substring_def utf16_length encode_utf16_def utf16_def units_of_point_def
        bytes_of_unit_def decode_utf16_def is_high_def)
  ultimately show ?thesis by simp
qed

end
