(* ===== verification/Hashing.thy ===== *)
theory Hashing
  imports Complex_Main Character "HOL-Library.Word" "HOL-Library.Multiset"
begin

unbundle bit_operations_syntax

text \<open>
  Clojure's hashes (\<open>src/src/basilisp/lang/hashing.py\<close>): Murmur3 on unbounded integers that the
  code masks to 32 bits after each operation.
\<close>

section \<open>Masked arithmetic\<close>

definition MASK_32 :: int where "MASK_32 = push_bit 32 1 - 1"
definition MASK_64 :: int where "MASK_64 = push_bit 64 1 - 1"
definition INT_32_SIGN :: int where "INT_32_SIGN = push_bit 31 1"
definition GOLDEN_RATIO_32 :: int where "GOLDEN_RATIO_32 = -1640531527"

definition int32 :: "int \<Rightarrow> int" where
  "int32 value =
     (let value = value AND MASK_32
      in if value AND INT_32_SIGN \<noteq> 0 then value - push_bit 32 1 else value)"

definition uint32 :: "int \<Rightarrow> int" where
  "uint32 value = value AND MASK_32"

definition rotate_left_32 :: "int \<Rightarrow> nat \<Rightarrow> int" where
  "rotate_left_32 value amount =
     (let value = uint32 value
      in uint32 (push_bit amount value OR drop_bit (32 - amount) value))"

definition mix_k1 :: "int \<Rightarrow> int" where
  "mix_k1 value =
     (let value = uint32 (value * 0xCC9E2D51);
          value = rotate_left_32 value 15
      in uint32 (value * 0x1B873593))"

definition mix_h1 :: "int \<Rightarrow> int \<Rightarrow> int" where
  "mix_h1 hash_basis value =
     (let hash_basis = uint32 hash_basis XOR uint32 value;
          hash_basis = rotate_left_32 hash_basis 13
      in uint32 (hash_basis * 5 + 0xE6546B64))"

definition fmix :: "int \<Rightarrow> int \<Rightarrow> int" where
  "fmix hash_basis len =
     (let hash_basis = uint32 hash_basis XOR uint32 len;
          hash_basis = hash_basis XOR drop_bit 16 hash_basis;
          hash_basis = uint32 (hash_basis * 0x85EBCA6B);
          hash_basis = hash_basis XOR drop_bit 13 hash_basis;
          hash_basis = uint32 (hash_basis * 0xC2B2AE35);
          hash_basis = hash_basis XOR drop_bit 16 hash_basis
      in int32 hash_basis)"

section \<open>Numbers\<close>

definition hash_long :: "int \<Rightarrow> int" where
  "hash_long value =
     (if value = 0 then 0
      else (let unsigned_value = value AND MASK_64;
                hash_basis = mix_h1 0 (mix_k1 (unsigned_value AND MASK_32));
                hash_basis = mix_h1 hash_basis (mix_k1 (drop_bit 32 unsigned_value))
            in fmix hash_basis 8))"

text \<open>\<open>while magnitude: words.append(magnitude & _MASK_32); magnitude >>= 32\<close>\<close>

function magnitude_words :: "int \<Rightarrow> int list" where
  "magnitude_words magnitude =
     (if magnitude \<le> 0 then []
      else (magnitude AND MASK_32) # magnitude_words (drop_bit 32 magnitude))"
  by auto
termination
  by (relation "measure nat") (auto simp: drop_bit_eq_div)

declare magnitude_words.simps [simp del]

definition big_integer_hash :: "int \<Rightarrow> int" where
  "big_integer_hash value =
     (if value = 0 then 0
      else (let hash_basis =
              foldl (\<lambda>h word. int32 (31 * h + word)) 0 (rev (magnitude_words \<bar>value\<bar>))
            in int32 (if value > 0 then hash_basis else - hash_basis)))"

definition integer_hash :: "int \<Rightarrow> int" where
  "integer_hash value =
     (if - push_bit 63 1 \<le> value \<and> value < push_bit 63 1 then hash_long value
      else big_integer_hash value)"

text \<open>A float is given by its 64 bits, as \<open>struct.pack(">d", _)\<close> has them.\<close>

definition float_is_zero :: "64 word \<Rightarrow> bool" where
  "float_is_zero bits \<longleftrightarrow> bits = 0 \<or> bits = 0x8000000000000000"

definition float_is_nan :: "64 word \<Rightarrow> bool" where
  "float_is_nan bits \<longleftrightarrow>
     bits AND 0x7FF0000000000000 = 0x7FF0000000000000 \<and> bits AND 0x000FFFFFFFFFFFFF \<noteq> 0"

definition double_hash :: "64 word \<Rightarrow> int" where
  "double_hash value =
     (if float_is_zero value then 0
      else (let bits = (if float_is_nan value then 0x7FF8000000000000 else uint value)
            in int32 ((bits XOR drop_bit 32 bits) AND MASK_32)))"

text \<open>A finite decimal: sign, coefficient digits (most significant first) and exponent.\<close>

datatype decimal = Finite bool "nat list" int | NonFinite pystr

text \<open>\<open>while len(digits) > 1 and digits[-1] == 0\<close>, on the digits reversed.\<close>

fun strip_zeros :: "nat list \<Rightarrow> int \<Rightarrow> nat list \<times> int" where
  "strip_zeros (d # e # ds) exponent =
     (if d = 0 then strip_zeros (e # ds) (exponent + 1) else (d # e # ds, exponent))"
| "strip_zeros ds exponent = (ds, exponent)"

definition unscaled_of :: "nat list \<Rightarrow> int" where
  "unscaled_of digits = foldl (\<lambda>u digit. u * 10 + int digit) 0 digits"

definition java_string_hash :: "pystr \<Rightarrow> int" where
  "java_string_hash value =
     foldl (\<lambda>h unit. int32 (31 * h + int unit)) 0 (iter_utf16_units value)"

definition hash_int :: "int \<Rightarrow> int" where
  "hash_int value = (if value = 0 then 0 else fmix (mix_h1 0 (mix_k1 value)) 4)"

definition string_hash :: "pystr \<Rightarrow> int" where
  "string_hash value = hash_int (java_string_hash value)"

definition decimal_is_zero :: "nat list \<Rightarrow> bool" where
  "decimal_is_zero digits \<longleftrightarrow> (\<forall>d \<in> set digits. d = 0)"

definition decimal_hash :: "decimal \<Rightarrow> int" where
  "decimal_hash value =
     (case value of
        NonFinite text \<Rightarrow> string_hash text
      | Finite sign digits exponent \<Rightarrow>
          (if decimal_is_zero digits then 0
           else (let (ds, exponent) = strip_zeros (rev digits) exponent;
                     unscaled = unscaled_of (rev ds);
                     unscaled = (if sign then - unscaled else unscaled);
                     scale = - exponent
                 in int32 (31 * big_integer_hash unscaled + scale))))"

definition ratio_hash :: "int \<Rightarrow> int \<Rightarrow> int" where
  "ratio_hash num den = int32 (big_integer_hash num XOR big_integer_hash den)"

section \<open>Names\<close>

fun hash_units :: "int \<Rightarrow> nat list \<Rightarrow> int" where
  "hash_units h (a # b # units) = hash_units (mix_h1 h (mix_k1 (int a OR push_bit 16 (int b)))) units"
| "hash_units h [a] = h XOR mix_k1 (int a)"
| "hash_units h [] = h"

definition hash_unencoded_chars :: "pystr \<Rightarrow> int" where
  "hash_unencoded_chars value =
     (let units = iter_utf16_units value
      in fmix (hash_units 0 units) (2 * int (length units)))"

definition hash_combine :: "int \<Rightarrow> int \<Rightarrow> int" where
  "hash_combine left right =
     int32 (left XOR (right + GOLDEN_RATIO_32 + push_bit 6 left + drop_bit 2 left))"

definition symbol_hash :: "pystr \<Rightarrow> pystr option \<Rightarrow> int" where
  "symbol_hash name ns =
     hash_combine (hash_unencoded_chars name) (java_string_hash (case ns of None \<Rightarrow> [] | Some n \<Rightarrow> n))"

definition named_hash :: "bool \<Rightarrow> pystr \<Rightarrow> pystr option \<Rightarrow> int" where
  "named_hash is_keyword name ns =
     (if is_keyword then int32 (symbol_hash name ns + GOLDEN_RATIO_32) else symbol_hash name ns)"

section \<open>Collections\<close>

definition mix_collection_hash :: "int \<Rightarrow> nat \<Rightarrow> int" where
  "mix_collection_hash hash_basis n = fmix (mix_h1 0 (mix_k1 hash_basis)) (int n)"

text \<open>The argument is the list of the \<open>clojure_hash\<close> values of the members.\<close>

definition hash_ordered :: "int list \<Rightarrow> int" where
  "hash_ordered hs = mix_collection_hash (foldl (\<lambda>h x. int32 (31 * h + x)) 1 hs) (length hs)"

definition hash_unordered :: "int list \<Rightarrow> int" where
  "hash_unordered hs = mix_collection_hash (foldl (\<lambda>h x. int32 (h + x)) 0 hs) (length hs)"

text \<open>
  The values that \<open>clojure_hash\<close> tells apart; \<open>HRecord\<close> and \<open>HHost\<close> carry Python's own hash, a
  fraction its numerator and positive denominator.
\<close>

datatype hval =
    HNone
  | HBool bool
  | HInt int
  | HFraction int int
  | HDecimal decimal
  | HFloat "64 word"
  | HChar nat
  | HStr pystr
  | HNamed bool pystr "pystr option"
  | HRecord int
  | HEntry hval hval
  | HMap "(hval \<times> hval) list"
  | HSet "hval list"
  | HSeq "hval list"
  | HHost int

primrec clojure_hash :: "hval \<Rightarrow> int" where
  "clojure_hash HNone = 0"
| "clojure_hash (HBool b) = (if b then 1231 else 1237)"
| "clojure_hash (HInt n) = integer_hash n"
| "clojure_hash (HFraction n d) = (if d = 1 then integer_hash n else ratio_hash n d)"
| "clojure_hash (HDecimal d) = decimal_hash d"
| "clojure_hash (HFloat w) = double_hash w"
| "clojure_hash (HChar c) = int c"
| "clojure_hash (HStr s) = string_hash s"
| "clojure_hash (HNamed k name ns) = named_hash k name ns"
| "clojure_hash (HRecord h) = int32 h"
| "clojure_hash (HEntry k v) = hash_ordered [clojure_hash k, clojure_hash v]"
| "clojure_hash (HMap kvs) =
     (let entries = map (\<lambda>(k, v). hash_ordered [k, v]) (map (map_prod clojure_hash clojure_hash) kvs)
      in mix_collection_hash (foldl (\<lambda>h x. int32 (h + x)) 0 entries) (length entries))"
| "clojure_hash (HSet xs) = hash_unordered (map clojure_hash xs)"
| "clojure_hash (HSeq xs) = hash_ordered (map clojure_hash xs)"
| "clojure_hash (HHost h) = int32 h"


section \<open>Murmur3 on words\<close>

text \<open>The algorithm as published, on 32-bit words.\<close>

definition word_mix_k1 :: "32 word \<Rightarrow> 32 word" where
  "word_mix_k1 k = word_rotl 15 (k * 0xCC9E2D51) * 0x1B873593"

definition word_mix_h1 :: "32 word \<Rightarrow> 32 word \<Rightarrow> 32 word" where
  "word_mix_h1 h k = word_rotl 13 (h XOR k) * 5 + 0xE6546B64"

definition word_fmix :: "32 word \<Rightarrow> 32 word \<Rightarrow> 32 word" where
  "word_fmix h len =
     (let h = h XOR len;
          h = (h XOR drop_bit 16 h) * 0x85EBCA6B;
          h = (h XOR drop_bit 13 h) * 0xC2B2AE35
      in h XOR drop_bit 16 h)"

text \<open>The hash of a list of 32-bit blocks and of the odd 16-bit unit that may follow them.\<close>

definition murmur3 :: "32 word list \<Rightarrow> 32 word option \<Rightarrow> nat \<Rightarrow> 32 word" where
  "murmur3 blocks tail bytes =
     (let h = foldl (\<lambda>h k. word_mix_h1 h (word_mix_k1 k)) 0 blocks
      in word_fmix (case tail of None \<Rightarrow> h | Some k \<Rightarrow> h XOR word_mix_k1 k) (of_nat bytes))"

fun blocks_of :: "nat list \<Rightarrow> 32 word list" where
  "blocks_of (a # b # us) = (of_nat a OR push_bit 16 (of_nat b)) # blocks_of us"
| "blocks_of us = []"

definition tail_of :: "nat list \<Rightarrow> 32 word option" where
  "tail_of us = (if odd (length us) then Some (of_nat (last us)) else None)"

named_theorems wordify \<open>masked integers as words\<close>

lemma mask_32: "v AND MASK_32 = take_bit 32 v"
  by (simp add: MASK_32_def take_bit_eq_mask mask_eq_exp_minus_1 push_bit_eq_mult)

lemma mask_64: "v AND MASK_64 = take_bit 64 v"
  by (simp add: MASK_64_def take_bit_eq_mask mask_eq_exp_minus_1 push_bit_eq_mult)

lemma uint32_word: "uint32 v = uint (of_int v :: 32 word)"
  by (simp add: uint32_def mask_32 uint_word_of_int_eq)

lemma int32_word: "int32 v = sint (of_int v :: 32 word)"
proof -
  have "take_bit 32 v AND INT_32_SIGN \<noteq> 0 \<longleftrightarrow> bit v 31"
    by (simp add: INT_32_SIGN_def and_exp_eq_0_iff_not_bit [of _ 31, simplified] push_bit_eq_mult bit_take_bit_iff)
  then show ?thesis
    by (simp add: int32_def mask_32 Let_def signed_of_int signed_take_bit_eq_take_bit_minus push_bit_eq_mult)
qed

lemma word_uint32 [wordify]: "of_int (uint32 v) = (of_int v :: 32 word)"
  by (simp add: uint32_word)

lemma word_drop_uint32 [wordify]:
  "of_int (drop_bit n (uint32 v)) = drop_bit n (of_int v :: 32 word)"
  by (rule bit_word_eqI) (auto simp: uint32_def mask_32 bit_simps)

lemma word_of_uint_xor_drop [wordify]:
  "of_int (uint32 v XOR drop_bit n (uint32 v)) = (of_int v XOR drop_bit n (of_int v) :: 32 word)"
  by (simp add: of_int_xor_eq wordify)

lemma rotl_shift:
  fixes w :: "32 word"
  assumes "0 < n" "n < 32"
  shows "word_rotl n w = push_bit n w OR drop_bit (32 - n) w"
proof (rule bit_word_eqI)
  fix i assume i: "i < LENGTH(32)"
  have m: "n mod 32 = n" using assms by simp
  show "bit (word_rotl n w) i = bit (push_bit n w OR drop_bit (32 - n) w) i"
  proof (cases "n \<le> i")
    case True
    then have "(i + (32 - n)) mod 32 = i - n" using i assms by (simp add: mod_if)
    then show ?thesis
      using True i assms by (auto simp: bit_word_rotl_iff m bit_simps bit_imp_le_length dest: bit_imp_le_length)
  next
    case False
    then have "(i + (32 - n)) mod 32 = 32 - n + i" using i assms by simp
    then show ?thesis
      using False i assms by (auto simp: bit_word_rotl_iff m bit_simps)
  qed
qed

lemma word_rotate [wordify]:
  "0 < n \<Longrightarrow> n < 32 \<Longrightarrow> of_int (rotate_left_32 v n) = word_rotl n (of_int v :: 32 word)"
  by (simp add: rotate_left_32_def Let_def wordify of_int_or_eq rotl_shift)
    (simp add: push_bit_eq_mult wordify)

lemma word_mix_k1 [wordify]: "of_int (mix_k1 v) = word_mix_k1 (of_int v)"
  by (simp add: mix_k1_def word_mix_k1_def Let_def wordify)

lemma word_mix_h1 [wordify]: "of_int (mix_h1 h v) = word_mix_h1 (of_int h) (of_int v)"
  by (simp add: mix_h1_def word_mix_h1_def Let_def wordify of_int_xor_eq)

lemma xor_uint32: "uint32 a XOR uint32 b = uint32 (a XOR b)"
  by (simp add: uint32_def mask_32)

lemma fmix_word: "fmix h n = sint (word_fmix (of_int h) (of_int n))"
  by (simp add: fmix_def word_fmix_def Let_def int32_word of_int_xor_eq wordify xor_uint32)

lemma hash_units_word:
  "of_int (hash_units h us) = (let g = foldl (\<lambda>h k. word_mix_h1 h (word_mix_k1 k)) (of_int h) (blocks_of us)
     in case tail_of us of None \<Rightarrow> g | Some k \<Rightarrow> g XOR word_mix_k1 k)"
  by (induction h us rule: hash_units.induct)
    (auto simp: tail_of_def wordify of_int_or_eq of_int_xor_eq push_bit_of_int [symmetric] Let_def)

text \<open>
  C32: the masked arithmetic is Murmur3. The hash of a string of UTF-16 units, of an integer of 32 or
  64 bits and of a collection's basis, which the code computes on unbounded integers masked after
  each step, is the signed value of the Murmur3 algorithm on 32-bit words.
\<close>

theorem hash_is_murmur3:
  "hash_unencoded_chars s =
     sint (murmur3 (blocks_of (iter_utf16_units s)) (tail_of (iter_utf16_units s)) (2 * length (iter_utf16_units s))) \<and>
   hash_int n = (if n = 0 then 0 else sint (murmur3 [of_int n] None 4)) \<and>
   hash_long n = (if n = 0 then 0 else sint (murmur3 [of_int n, of_int (drop_bit 32 n)] None 8)) \<and>
   mix_collection_hash n m = sint (word_fmix (word_mix_h1 0 (word_mix_k1 (of_int n))) (of_nat m))"
proof (intro conjI)
  show "hash_unencoded_chars s =
     sint (murmur3 (blocks_of (iter_utf16_units s)) (tail_of (iter_utf16_units s)) (2 * length (iter_utf16_units s)))"
    by (simp add: hash_unencoded_chars_def fmix_word hash_units_word murmur3_def Let_def)
  show "hash_int n = (if n = 0 then 0 else sint (murmur3 [of_int n] None 4))"
    by (simp add: hash_int_def fmix_word wordify murmur3_def)
  have "of_int ((n AND MASK_64) AND MASK_32) = (of_int n :: 32 word)"
    by (rule bit_word_eqI) (auto simp: mask_64 mask_32 bit_simps)
  moreover have "of_int (drop_bit 32 (n AND MASK_64)) = (of_int (drop_bit 32 n) :: 32 word)"
    by (rule bit_word_eqI) (auto simp: mask_64 bit_simps)
  ultimately show "hash_long n = (if n = 0 then 0 else sint (murmur3 [of_int n, of_int (drop_bit 32 n)] None 8))"
    by (simp add: hash_long_def fmix_word wordify murmur3_def Let_def)
  show "mix_collection_hash n m = sint (word_fmix (word_mix_h1 0 (word_mix_k1 (of_int n))) (of_nat m))"
    by (simp add: mix_collection_hash_def fmix_word wordify)
qed


section \<open>Range and agreement with equality\<close>

definition is_int32 :: "int \<Rightarrow> bool" where
  "is_int32 n \<longleftrightarrow> - (2 ^ 31) \<le> n \<and> n < 2 ^ 31"

lemma sint_is_int32: "is_int32 (sint (w :: 32 word))"
  using sint_ge [of w] sint_lt [of w] by (simp add: is_int32_def)

lemma int32_is_int32: "is_int32 (int32 n)"
  by (simp only: int32_word sint_is_int32)

lemma hash_int32s:
  "is_int32 (fmix h n)" "is_int32 (hash_long m)" "is_int32 (big_integer_hash m)" "is_int32 (hash_int m)"
  "is_int32 0"
  by (simp_all add: fmix_word sint_is_int32 hash_long_def hash_int_def big_integer_hash_def int32_is_int32
      Let_def) (simp_all add: is_int32_def)

text \<open>
  Clojure's \<open>=\<close> on these values, as far as it identifies different representations: equal decimals
  of different scale, a fraction with denominator one and its integer, the two zeros, members pairwise, sets
  and maps in any order, and a map entry and the vector of its two halves.
\<close>

fun decimal_value :: "decimal \<Rightarrow> rat option" where
  "decimal_value (Finite sign digits e) =
     Some ((if sign then -1 else 1) * of_int (unscaled_of digits) * 10 powi e)"
| "decimal_value (NonFinite t) = None"

fun digits_ok :: "decimal \<Rightarrow> bool" where
  "digits_ok (Finite sign digits e) \<longleftrightarrow> (\<forall>d \<in> set digits. d < 10)"
| "digits_ok (NonFinite t) \<longleftrightarrow> True"

inductive clj_eq :: "hval \<Rightarrow> hval \<Rightarrow> bool" where
  clj_refl: "clj_eq v v"
| clj_sym: "clj_eq v w \<Longrightarrow> clj_eq w v"
| clj_trans: "clj_eq u v \<Longrightarrow> clj_eq v w \<Longrightarrow> clj_eq u w"
| clj_ratio: "clj_eq (HFraction n 1) (HInt n)"
| clj_zero: "clj_eq (HFloat 0) (HFloat 0x8000000000000000)"
| clj_decimal: "digits_ok d \<Longrightarrow> digits_ok e \<Longrightarrow> decimal_value d = decimal_value e \<Longrightarrow>
    decimal_value d \<noteq> None \<Longrightarrow> clj_eq (HDecimal d) (HDecimal e)"
| clj_seq: "list_all2 clj_eq xs ys \<Longrightarrow> clj_eq (HSeq xs) (HSeq ys)"
| clj_entry: "clj_eq k k' \<Longrightarrow> clj_eq v v' \<Longrightarrow> clj_eq (HEntry k v) (HSeq [k', v'])"
| clj_set: "list_all2 clj_eq xs ys \<Longrightarrow> mset ys = mset zs \<Longrightarrow> clj_eq (HSet xs) (HSet zs)"
| clj_map: "list_all2 (\<lambda>p q. clj_eq (fst p) (fst q) \<and> clj_eq (snd p) (snd q)) xs ys \<Longrightarrow> mset ys = mset zs \<Longrightarrow>
    clj_eq (HMap xs) (HMap zs)"

lemma unscaled_append: "unscaled_of (ds @ [d]) = unscaled_of ds * 10 + int d"
  by (simp add: unscaled_of_def)

lemma unscaled_zero: "unscaled_of ds = 0 \<longleftrightarrow> decimal_is_zero ds"
proof (induction ds rule: rev_induct)
  case Nil
  then show ?case by (simp add: unscaled_of_def decimal_is_zero_def)
next
  case (snoc d ds)
  have "0 \<le> unscaled_of ds" by (induction ds rule: rev_induct) (simp_all add: unscaled_append, simp add: unscaled_of_def)
  then show ?case using snoc by (auto simp: unscaled_append decimal_is_zero_def)
qed

lemma last_digit: "d < 10 \<Longrightarrow> d \<noteq> 0 \<Longrightarrow> \<not> (10 :: int) dvd u * 10 + int d"
  by presburger

lemma strip_zeros_value:
  assumes "strip_zeros rs e = (rs', e')" "\<forall>d \<in> set rs. d < 10"
  shows "of_int (unscaled_of (rev rs)) * 10 powi e = (of_int (unscaled_of (rev rs')) * 10 powi e' :: rat) \<and>
    (\<not> decimal_is_zero rs \<longrightarrow> \<not> 10 dvd unscaled_of (rev rs'))"
  using assms
proof (induction rs e arbitrary: rs' e' rule: strip_zeros.induct [case_names digits none one])
  case (digits d d' ds e)
  have rev: "unscaled_of (rev (d # d' # ds)) = unscaled_of (rev (d' # ds)) * 10 + int d"
    by (simp only: rev.simps(2) [of d] unscaled_append)
  show ?case
  proof (cases "d = 0")
    case True
    have p: "(10 :: rat) powi (e + 1) = 10 powi e * 10" by (simp add: power_int_add)
    have IH: "of_int (unscaled_of (rev (d' # ds))) * 10 powi (e + 1) = (of_int (unscaled_of (rev rs')) * 10 powi e' :: rat) \<and>
        (\<not> decimal_is_zero (d' # ds) \<longrightarrow> \<not> 10 dvd unscaled_of (rev rs'))"
      by (rule digits(1)) (use True digits(2,3) in auto)
    have "decimal_is_zero (d # d' # ds) = decimal_is_zero (d' # ds)"
      using True by (simp add: decimal_is_zero_def)
    moreover have "unscaled_of (rev (d # d' # ds)) = unscaled_of (rev (d' # ds)) * 10" using rev True by simp
    ultimately show ?thesis using IH unfolding p by (simp del: rev.simps add: mult.assoc mult.left_commute)
  next
    case False
    then have "rs' = d # d' # ds" "e' = e" using digits(2) by auto
    moreover have "\<not> 10 dvd unscaled_of (rev (d' # ds)) * 10 + int d"
      by (rule last_digit) (use False digits(3) in auto)
    ultimately show ?thesis using rev by simp
  qed
next
  case (one d e)
  then show ?case using last_digit [of d 0] by (auto simp: unscaled_of_def decimal_is_zero_def)
qed (auto simp: decimal_is_zero_def)

lemma scaled_eq:
  assumes "of_int u * 10 powi e = (of_int u' * 10 powi e' :: rat)" "\<not> 10 dvd u" "\<not> 10 dvd u'"
  shows "u = u' \<and> e = e'"
proof -
  have le: "a = b \<and> x = y"
    if "of_int a * 10 powi x = (of_int b * 10 powi y :: rat)" "\<not> 10 dvd a" "x \<le> y" for a b x y
  proof -
    have "10 powi y = (10 powi x * 10 ^ nat (y - x) :: rat)"
      using that(3) by (simp add: power_int_add [symmetric] power_int_of_nat [symmetric] del: power_int_of_nat)
    then have "of_int a = (of_int b * 10 ^ nat (y - x) :: rat)" using that(1) by (simp add: mult.commute mult.left_commute)
    then have ab: "a = b * 10 ^ nat (y - x)"
      by (metis of_int_eq_iff of_int_mult of_int_numeral of_int_power)
    then have "nat (y - x) = 0" using that(2) by (metis dvd_mult dvd_power not_gr_zero)
    then show ?thesis using ab that(3) by simp
  qed
  show ?thesis using le [of u e u' e'] le [of u' e' u e] assms by (cases "e \<le> e'") auto
qed

lemma decimal_hash_eq:
  assumes "digits_ok a" "digits_ok b" "decimal_value a = decimal_value b" "decimal_value a \<noteq> None"
  shows "decimal_hash a = decimal_hash b"
proof -
  obtain s ds e where a: "a = Finite s ds e" using assms(4) by (cases a) auto
  obtain s' ds' e' where b: "b = Finite s' ds' e'" using assms(3,4) by (cases b) (auto simp: a)
  define sg where "sg t n = (if t then - n else n)" for t and n :: int
  obtain rs r where r: "strip_zeros (rev ds) e = (rs, r)" by (metis surj_pair)
  obtain rs' r' where r': "strip_zeros (rev ds') e' = (rs', r')" by (metis surj_pair)
  note v = strip_zeros_value [OF r] strip_zeros_value [OF r']
  have eq: "of_int (sg s (unscaled_of ds)) * 10 powi e = (of_int (sg s' (unscaled_of ds')) * 10 powi e' :: rat)"
    using assms(3) by (auto simp: a b sg_def)
  then have z: "decimal_is_zero ds \<longleftrightarrow> decimal_is_zero ds'"
    unfolding unscaled_zero [symmetric] by (auto simp: sg_def split: if_splits)
  show ?thesis
  proof (cases "decimal_is_zero ds")
    case True
    then show ?thesis using z by (simp add: a b decimal_hash_def)
  next
    case False
    have nd: "\<not> 10 dvd sg s (unscaled_of (rev rs))" "\<not> 10 dvd sg s' (unscaled_of (rev rs'))"
      using v assms(1,2) False z by (auto simp: a b sg_def decimal_is_zero_def)
    have "of_int (sg s (unscaled_of (rev rs))) * 10 powi r = (of_int (sg s' (unscaled_of (rev rs'))) * 10 powi r' :: rat)"
      using eq v assms(1,2) by (auto simp: a b sg_def split: if_splits)
    from scaled_eq [OF this nd] show ?thesis
      using False z by (simp add: a b decimal_hash_def r r' sg_def Let_def)
  qed
qed

lemma unordered_mset:
  assumes "mset xs = mset ys"
  shows "foldl (\<lambda>h x. int32 (h + x)) b xs = foldl (\<lambda>h x. int32 (h + x)) b ys"
proof -
  have "of_int (foldl (\<lambda>h x. int32 (h + x)) b xs) = (of_int b + of_int (sum_list xs) :: 32 word)" for xs b
    by (induction xs arbitrary: b) (simp_all add: int32_word)
  moreover have "foldl (\<lambda>h x. int32 (h + x)) b xs = (if xs = [] then b else sint (of_int (foldl (\<lambda>h x. int32 (h + x)) b xs) :: 32 word))" for xs b
    by (cases xs rule: rev_cases) (simp_all add: int32_word)
  ultimately show ?thesis using assms
    by (metis (no_types, lifting) mset_zero_iff sum_mset_sum_list)
qed

lemma list_all2_map_eq: "list_all2 (\<lambda>x y. f x = g y) xs ys \<Longrightarrow> map f xs = map g ys"
  by (induction xs ys rule: list_all2_induct) auto

lemma hash_unordered_perm: "mset xs = mset ys \<Longrightarrow> hash_unordered xs = hash_unordered ys"
  unfolding hash_unordered_def using unordered_mset [of xs ys 0] mset_eq_length [of xs ys] by simp

definition entry_hash :: "hval \<times> hval \<Rightarrow> int" where
  "entry_hash p = hash_ordered [clojure_hash (fst p), clojure_hash (snd p)]"

lemma map_hash: "clojure_hash (HMap kvs) = hash_unordered (map entry_hash kvs)"
proof -
  have "map (\<lambda>(k, v). hash_ordered [k, v]) (map (map_prod clojure_hash clojure_hash) kvs) = map entry_hash kvs"
    by (simp add: entry_hash_def split_def)
  then show ?thesis by (simp only: clojure_hash.simps Let_def hash_unordered_def)
qed

lemma equal_hashes: "clj_eq v w \<Longrightarrow> clojure_hash v = clojure_hash w"
proof (induction rule: clj_eq.induct)
  case clj_zero
  then show ?case by (simp add: double_hash_def float_is_zero_def)
next
  case (clj_decimal d e)
  then show ?case using decimal_hash_eq [of d e] by simp
next
  case (clj_seq xs ys)
  then have "map clojure_hash xs = map clojure_hash ys"
    by (intro list_all2_map_eq) (auto elim: list_all2_mono)
  then show ?case by simp
next
  case (clj_set xs ys zs)
  then have "map clojure_hash xs = map clojure_hash ys"
    by (intro list_all2_map_eq) (auto elim: list_all2_mono)
  moreover have "mset (map clojure_hash ys) = mset (map clojure_hash zs)"
    unfolding mset_map clj_set(2) ..
  ultimately show ?case using hash_unordered_perm by simp
next
  case (clj_map xs ys zs)
  then have "map entry_hash xs = map entry_hash ys"
    by (intro list_all2_map_eq) (auto simp: entry_hash_def elim: list_all2_mono)
  moreover have "mset (map entry_hash ys) = mset (map entry_hash zs)"
    unfolding mset_map clj_map(2) ..
  ultimately show ?case unfolding map_hash using hash_unordered_perm by simp
qed simp_all

lemma range_simps:
  "is_int32 (integer_hash n)" "is_int32 (ratio_hash n d)" "is_int32 (double_hash b)"
  "is_int32 (string_hash s)" "is_int32 (decimal_hash x)" "is_int32 (named_hash k s ns)"
  "is_int32 (hash_ordered hs)" "is_int32 (hash_unordered hs)" "is_int32 1231" "is_int32 1237"
proof -
  show s: "is_int32 (string_hash s)" for s by (simp add: string_hash_def hash_int32s)
  show "is_int32 (decimal_hash x)"
    by (simp add: decimal_hash_def s hash_int32s int32_is_int32 Let_def split: decimal.split prod.split)
  show "is_int32 (integer_hash n)" "is_int32 (ratio_hash n d)" "is_int32 (double_hash b)"
    "is_int32 (named_hash k s ns)" "is_int32 (hash_ordered hs)" "is_int32 (hash_unordered hs)"
    by (simp_all add: integer_hash_def ratio_hash_def double_hash_def named_hash_def symbol_hash_def
        hash_combine_def hash_ordered_def hash_unordered_def mix_collection_hash_def hash_int32s
        int32_is_int32 Let_def)
  show "is_int32 1231" "is_int32 1237" by (simp_all add: is_int32_def)
qed

text \<open>
  C33: the hash is a 32-bit integer and respects equality. Values that Clojure's \<open>=\<close> identifies
  (decimals of different scale, ratios that are integers, both float zeros, equal members, sets
  and maps in any order of iteration, entries as vectors) have the same hash, and the hash of
  every value is in the range of a JVM int (a character's is its code unit). A record, which is
  \<open>==\<close> to a map with its entries but hashes by its own method, is left out of the identifications.
\<close>

theorem hash_respects_equality:
  assumes "clj_eq v w"
  shows "clojure_hash v = clojure_hash w \<and>
    (case v of HChar c \<Rightarrow> clojure_hash v = int c | _ \<Rightarrow> is_int32 (clojure_hash v))"
proof
  show "clojure_hash v = clojure_hash w" by (rule equal_hashes [OF assms])
  show "case v of HChar c \<Rightarrow> clojure_hash v = int c | _ \<Rightarrow> is_int32 (clojure_hash v)"
    by (cases v) (simp_all add: hash_int32s range_simps int32_is_int32 map_hash del: clojure_hash.simps(12))
qed

theorem hash_respects_equality_witness:
  "clojure_hash (HSet [HDecimal (Finite False [1, 0] 0), HFraction 7 1]) =
   clojure_hash (HSet [HInt 7, HDecimal (Finite False [1] 1)])"
proof -
  have "clj_eq (HDecimal (Finite False [1, 0] 0)) (HDecimal (Finite False [1] 1))"
    by (rule clj_decimal) (simp_all add: unscaled_of_def)
  then have "clj_eq (HSet [HDecimal (Finite False [1, 0] 0), HFraction 7 1]) (HSet [HInt 7, HDecimal (Finite False [1] 1)])"
    by (intro clj_set [where ys = "[HDecimal (Finite False [1] 1), HInt 7]"]) (simp_all add: clj_ratio add_mset_commute)
  from hash_respects_equality [OF this] show ?thesis by simp
qed

end
