(* ===== verification/Base64.thy ===== *)
theory Base64
  imports Prelude
begin

unbundle bit_operations_syntax

text \<open>
  The base64 codec of \<open>src/src/basilisp/data_codec_base64.py\<close>. Bytes are numbers below 256. The
  encoder is Python's \<open>base64.b64encode\<close>; the decoder is the code's own loop over a table. A
  binary stream is the bytes it has left; how many bytes each read delivers at most is a
  parameter.
\<close>

section \<open>Tables and lengths\<close>

definition alphabet :: "nat list" where
  "alphabet = map of_char ''ABCDEFGHIJKLMNOPQRSTUVWXYZabcdefghijklmnopqrstuvwxyz0123456789+/''"

definition DECODE_TABLE :: "nat list" where
  "DECODE_TABLE = foldl (\<lambda>table (byte, v). table[byte := v]) (replicate (foldl max 0 alphabet + 1) 0)
     (zip alphabet [0..<length alphabet])"

definition quot :: "int \<Rightarrow> int \<Rightarrow> int" where
  "quot numerator denominator =
     (if numerator < 0 then - ((- numerator) div denominator) else numerator div denominator)"

definition enc_length :: "int \<Rightarrow> int" where
  "enc_length len = quot (len + 2) 3 * 4"

definition dec_length :: "int \<Rightarrow> int \<Rightarrow> int" where
  "dec_length len padding_length = quot len 4 * 3 - padding_length"

text \<open>The argument is None when Python cannot make bytes of it.\<close>

definition slice :: "nat list option \<Rightarrow> int \<Rightarrow> int \<Rightarrow> nat list res" where
  "slice source offset len =
     (if offset < 0 then Inl ValueError
      else if len < 0 then Inl ValueError
      else (case source of
              None \<Rightarrow> Inl TypeError
            | Some data \<Rightarrow>
                (if len = 0 then Inr []
                 else if offset + len > int (length data) then Inl ValueError
                 else Inr (take (nat len) (drop (nat offset) data)))))"

definition PAD :: nat where "PAD = 61"

definition pad_length :: "nat list option \<Rightarrow> int \<Rightarrow> int \<Rightarrow> int res" where
  "pad_length source offset len =
     rbind (slice source offset len) (\<lambda>data.
       if data = [] then Inr 0
       else if last data \<noteq> PAD then Inr 0
       else rbind (py_index (length data) (-2)) (\<lambda>i. Inr (if data ! i = PAD then 2 else 1)))"

section \<open>Encoding\<close>

text \<open>\<open>base64.b64encode\<close>\<close>

fun b64encode :: "nat list \<Rightarrow> nat list" where
  "b64encode (a # b # c # bs) =
     [alphabet ! (a div 4), alphabet ! (a mod 4 * 16 + b div 16),
      alphabet ! (b mod 16 * 4 + c div 64), alphabet ! (c mod 64)] @ b64encode bs"
| "b64encode [a, b] =
     [alphabet ! (a div 4), alphabet ! (a mod 4 * 16 + b div 16), alphabet ! (b mod 16 * 4), PAD]"
| "b64encode [a] = [alphabet ! (a div 4), alphabet ! (a mod 4 * 16), PAD, PAD]"
| "b64encode [] = []"

text \<open>A destination: its content, and whether it can be written.\<close>

datatype destination = ByteArray "nat list" | MemoryView bool "nat list" | OtherDest

definition write_destination :: "destination \<Rightarrow> nat list \<Rightarrow> destination res" where
  "write_destination dest data =
     (case dest of
        OtherDest \<Rightarrow> Inl TypeError
      | MemoryView readonly bs \<Rightarrow>
          (if readonly then Inl TypeError
           else if length bs < length data then Inl ValueError
           else Inr (MemoryView readonly (data @ drop (length data) bs)))
      | ByteArray bs \<Rightarrow>
          (if length bs < length data then Inl ValueError
           else Inr (ByteArray (data @ drop (length data) bs))))"

definition encode_into ::
    "nat list option \<Rightarrow> int \<Rightarrow> int \<Rightarrow> destination \<Rightarrow> (destination \<times> nat) res" where
  "encode_into source offset len dest =
     rbind (slice source offset len) (\<lambda>data.
       let encoded = b64encode data
       in rbind (write_destination dest encoded) (\<lambda>d. Inr (d, length encoded)))"

text \<open>The offset and length a caller may omit; without an offset the whole source is taken.\<close>

definition arguments :: "nat list \<Rightarrow> int option \<Rightarrow> int option \<Rightarrow> (int \<times> int) res" where
  "arguments source offset len =
     (case offset of
        None \<Rightarrow> Inr (0, int (length source))
      | Some i \<Rightarrow> (case len of None \<Rightarrow> Inl TypeError | Some n \<Rightarrow> Inr (i, n)))"

definition b64_encode :: "nat list \<Rightarrow> int option \<Rightarrow> int option \<Rightarrow> nat list res" where
  "b64_encode source offset len =
     rbind (arguments source offset len) (\<lambda>(i, n).
     rbind (slice (Some source) i n) (\<lambda>data. Inr (b64encode data)))"

section \<open>Decoding\<close>

definition decode_value :: "nat \<Rightarrow> nat res" where
  "decode_value encoded_byte =
     (if encoded_byte < length DECODE_TABLE then Inr (DECODE_TABLE ! encoded_byte) else Inl ValueError)"

definition decode_at :: "nat list \<Rightarrow> nat \<Rightarrow> nat res" where
  "decode_at data i = (if i < length data then decode_value (data ! i) else Inl IndexError)"

text \<open>
  The loop of \<open>_decode_bytes\<close>: \<open>outp\<close> holds the bytes written so far, so that its length is
  \<open>output_index\<close>.
\<close>

function decode_loop :: "nat list \<Rightarrow> nat \<Rightarrow> nat \<Rightarrow> nat list \<Rightarrow> nat list res" where
  "decode_loop data decoded_length input_index outp =
     (if length outp < decoded_length
      then rbind (decode_at data input_index) (\<lambda>v0.
           rbind (decode_at data (input_index + 1)) (\<lambda>v1.
           rbind (decode_at data (input_index + 2)) (\<lambda>v2.
           rbind (decode_at data (input_index + 3)) (\<lambda>v3.
             let bits = push_bit 18 v0 OR push_bit 12 v1 OR push_bit 6 v2 OR v3;
                 out1 = outp @ [drop_bit 16 bits AND 0xFF];
                 out2 = (if length out1 < decoded_length then out1 @ [drop_bit 8 bits AND 0xFF] else out1);
                 out3 = (if length out2 < decoded_length then out2 @ [bits AND 0xFF] else out2)
             in decode_loop data decoded_length (input_index + 4) out3))))
      else Inr outp)"
  by auto
termination
  by (relation "measure (\<lambda>(_, n, _, outp). n - length outp)") (auto split: if_splits)

declare decode_loop.simps [simp del]

definition decode_bytes :: "nat list \<Rightarrow> nat list res" where
  "decode_bytes data =
     rbind (pad_length (Some data) 0 (int (length data))) (\<lambda>pad.
       let n = dec_length (int (length data)) pad
       in if n < 0 then Inl ValueError else decode_loop data (nat n) 0 [])"

definition decode_into ::
    "nat list option \<Rightarrow> int \<Rightarrow> int \<Rightarrow> destination \<Rightarrow> (destination \<times> nat) res" where
  "decode_into source offset len dest =
     rbind (slice source offset len) (\<lambda>data.
     rbind (decode_bytes data) (\<lambda>decoded.
     rbind (write_destination dest decoded) (\<lambda>d. Inr (d, length decoded))))"

definition b64_decode :: "nat list \<Rightarrow> int option \<Rightarrow> int option \<Rightarrow> nat list res" where
  "b64_decode source offset len =
     rbind (arguments source offset len) (\<lambda>(i, n).
     rbind (slice (Some source) i n) decode_bytes)"

section \<open>Streams\<close>

text \<open>
  \<open>stream.read(n)\<close> delivers at most \<open>n\<close> bytes, and at most \<open>rd i\<close> at the \<open>i\<close>-th read. \<open>_read_fully\<close>
  returns the bytes read, the number of the next read, and what the stream has left.
\<close>

function read_fully :: "(nat \<Rightarrow> nat) \<Rightarrow> nat \<Rightarrow> nat list \<Rightarrow> nat \<Rightarrow> nat list \<times> nat \<times> nat list" where
  "read_fully rd i stream remaining =
     (if remaining = 0 then ([], i, stream)
      else (let n = min remaining (rd i); chunk = take n stream; stream = drop n stream
            in if chunk = [] then ([], Suc i, stream)
               else (let (bytes, j, rest) = read_fully rd (Suc i) stream (remaining - length chunk)
                     in (chunk @ bytes, j, rest))))"
  by auto
termination
  by (relation "measure (\<lambda>(_, _, _, remaining). remaining)") auto

declare read_fully.simps [simp del]

text \<open>\<open>buffer_size\<close>, given the option's value if there is one.\<close>

definition buffer_size :: "int option \<Rightarrow> int \<Rightarrow> int \<Rightarrow> nat res" where
  "buffer_size opt default_size multiple =
     (let n = (case opt of None \<Rightarrow> default_size | Some n \<Rightarrow> n)
      in if n < 0 \<or> n mod multiple \<noteq> 0 then Inl ValueError else Inr (nat n))"

text \<open>
  \<open>while data := _read_fully(...): output_stream.write(...)\<close>. Each round shortens the stream, so
  its length bounds the rounds.
\<close>

fun transfer_loop ::
    "(nat list \<Rightarrow> nat list res) \<Rightarrow> (nat \<Rightarrow> nat) \<Rightarrow> nat \<Rightarrow> nat \<Rightarrow> nat \<Rightarrow> nat list \<Rightarrow> nat list \<Rightarrow> nat list res" where
  "transfer_loop code rd buf 0 i stream out = Inr out"
| "transfer_loop code rd buf (Suc rounds) i stream out =
     (case read_fully rd i stream buf of (data, j, rest) \<Rightarrow>
        if data = [] then Inr out
        else rbind (code data) (\<lambda>coded. transfer_loop code rd buf rounds j rest (out @ coded)))"

definition encoding_transfer :: "(nat \<Rightarrow> nat) \<Rightarrow> int option \<Rightarrow> nat list \<Rightarrow> nat list res" where
  "encoding_transfer rd opt stream =
     rbind (buffer_size opt 6144 3) (\<lambda>buf.
       transfer_loop (\<lambda>data. Inr (b64encode data)) rd buf (length stream) 0 stream [])"

definition decoding_transfer :: "(nat \<Rightarrow> nat) \<Rightarrow> int option \<Rightarrow> nat list \<Rightarrow> nat list res" where
  "decoding_transfer rd opt stream =
     rbind (buffer_size opt 8192 4) (\<lambda>buf.
       transfer_loop decode_bytes rd buf (length stream) 0 stream [])"

section \<open>Lengths and chunks\<close>

definition bytes :: "nat list \<Rightarrow> bool" where
  "bytes bs \<longleftrightarrow> (\<forall>b \<in> set bs. b < 256)"

lemma length_b64encode: "length (b64encode bs) = 4 * ((length bs + 2) div 3)"
proof (induction bs rule: b64encode.induct)
  case (1 a b c bs)
  have "(length (a # b # c # bs) + 2) div 3 = Suc ((length bs + 2) div 3)" by simp
  then show ?case using 1 by simp
qed simp_all

lemma b64encode_append: "3 dvd length xs \<Longrightarrow> b64encode (xs @ ys) = b64encode xs @ b64encode ys"
proof (induction xs rule: b64encode.induct [case_names three two one none])
  case (three a b c bs)
  then have "3 dvd length bs" by simp presburger
  then show ?case using three by simp
next
  case (two a b)
  then show ?case by (simp add: numeral_2_eq_2 [symmetric])
qed auto

lemma take_b64encode: "take (4 * k) (b64encode bs) = b64encode (take (3 * k) bs)"
proof (cases "3 * k \<le> length bs")
  case True
  then have "b64encode bs = b64encode (take (3 * k) bs) @ b64encode (drop (3 * k) bs)"
    using b64encode_append [of "take (3 * k) bs" "drop (3 * k) bs"] by simp
  moreover have "length (b64encode (take (3 * k) bs)) = 4 * k"
    using True by (simp add: length_b64encode min_absorb2)
  ultimately show ?thesis by simp
next
  case False
  then have "(length bs + 2) div 3 \<le> k" by simp
  then show ?thesis using False by (simp add: length_b64encode)
qed

lemma drop_b64encode: "drop (4 * k) (b64encode bs) = b64encode (drop (3 * k) bs)"
proof (cases "3 * k \<le> length bs")
  case True
  then have "b64encode bs = b64encode (take (3 * k) bs) @ b64encode (drop (3 * k) bs)"
    using b64encode_append [of "take (3 * k) bs" "drop (3 * k) bs"] by simp
  moreover have "length (b64encode (take (3 * k) bs)) = 4 * k"
    using True by (simp add: length_b64encode min_absorb2)
  ultimately show ?thesis by simp
next
  case False
  then have "(length bs + 2) div 3 \<le> k" by simp
  then show ?thesis using False by (simp add: length_b64encode)
qed

lemma read_fully_take:
  assumes "\<And>i. 0 < rd i"
  shows "\<exists>j. read_fully rd i stream n = (take n stream, j, drop n stream)"
  using assms
proof (induction rd i stream n rule: read_fully.induct)
  case (1 rd i stream n)
  show ?case
  proof (cases "n = 0 \<or> take (min n (rd i)) stream = []")
    case True
    then consider "n = 0" | "stream = []" using "1.prems" [of i] by (auto simp: min_def split: if_splits)
    then show ?thesis by cases (subst read_fully.simps, simp add: Let_def)+
  next
    case False
    define m where "m = min n (rd i)"
    have n: "n \<noteq> 0" "take m stream \<noteq> []" using False by (auto simp: m_def)
    have "\<exists>j. read_fully rd (Suc i) (drop m stream) (n - length (take m stream)) =
        (take (n - length (take m stream)) (drop m stream), j, drop (n - length (take m stream)) (drop m stream))"
      by (rule "1.IH" [OF n(1) m_def refl refl n(2) "1.prems"])
    then obtain j where j: "read_fully rd (Suc i) (drop m stream) (n - length (take m stream)) =
        (take (n - length (take m stream)) (drop m stream), j, drop (n - length (take m stream)) (drop m stream))" ..
    have "read_fully rd i stream n = (take m stream @ take (n - length (take m stream)) (drop m stream), j,
        drop (n - length (take m stream)) (drop m stream))"
      using False j by (subst read_fully.simps) (simp add: m_def [symmetric] Let_def)
    moreover have "take m stream @ take (n - length (take m stream)) (drop m stream) = take n stream \<and>
        drop (n - length (take m stream)) (drop m stream) = drop n stream"
    proof (cases "m \<le> length stream")
      case True
      have "n = m + (n - m)" by (simp add: m_def)
      then show ?thesis using True take_add [of m "n - m" stream] by (simp add: min_absorb2 m_def)
    next
      case False
      then show ?thesis by (simp add: m_def)
    qed
    ultimately show ?thesis by auto
  qed
qed

text \<open>
  A transfer with any schedule of reads applies the codec to consecutive chunks of the buffer's
  size; when the codec does not mind being cut at multiples of that size, it is the codec.
\<close>

lemma transfer_chunks:
  assumes rd: "\<And>i. 0 < rd i" and n: "0 < n"
    and code: "\<And>xs. xs \<noteq> [] \<Longrightarrow> P xs \<Longrightarrow> P (drop n xs) \<and> code (take n xs) = Inr (f (take n xs)) \<and>
      f xs = f (take n xs) @ f (drop n xs)" and nil: "f [] = []"
    and s: "P stream" "length stream \<le> rounds"
  shows "transfer_loop code rd n rounds i stream out = Inr (out @ f stream)"
  using s
proof (induction rounds arbitrary: i stream out)
  case 0
  then show ?case using nil by simp
next
  case (Suc rounds)
  obtain j where r: "read_fully rd i stream n = (take n stream, j, drop n stream)"
    using read_fully_take [of rd, OF rd] by blast
  show ?case
  proof (cases "stream = []")
    case True
    then show ?thesis using r nil by simp
  next
    case False
    then have c: "P (drop n stream)" "code (take n stream) = Inr (f (take n stream))"
      "f stream = f (take n stream) @ f (drop n stream)"
      using code Suc.prems(1) by blast+
    have "length (drop n stream) \<le> rounds" using Suc.prems(2) n False by (cases stream) auto
    then show ?thesis using Suc.IH [OF c(1)] False r n c(2,3) by simp
  qed
qed

section \<open>Decoding what was encoded\<close>

lemma table_length: "length (foldl (\<lambda>t (k, v). t[k := v]) t ps) = length t"
  by (induction ps arbitrary: t) auto

lemma table_other:
  "k \<notin> fst ` set ps \<Longrightarrow> foldl (\<lambda>t (k, v). t[k := v]) t ps ! k = t ! k"
  by (induction ps arbitrary: t) auto

lemma table_entry:
  "distinct (map fst ps) \<Longrightarrow> \<forall>p \<in> set ps. fst p < length t \<Longrightarrow> (k, v) \<in> set ps \<Longrightarrow>
   foldl (\<lambda>t (k, v). t[k := v]) t ps ! k = v"
proof (induction ps arbitrary: t)
  case (Cons p ps)
  show ?case
  proof (cases "(k, v) \<in> set ps")
    case True
    then show ?thesis using Cons.IH [of "t[fst p := snd p]"] Cons.prems by (simp add: case_prod_beta)
  next
    case False
    then show ?thesis using table_other [of k ps "t[k := v]"] Cons.prems by auto
  qed
qed simp

lemma alphabet_facts:
  "length alphabet = 64" "distinct alphabet" "foldl max 0 alphabet = 122" "\<forall>k \<in> set alphabet. k < 123"
  "PAD \<notin> set alphabet"
  by (simp add: alphabet_def) code_simp+

lemma length_table [simp]: "length DECODE_TABLE = 123"
  by (simp add: DECODE_TABLE_def table_length alphabet_facts)

lemma alphabet_zip: "v < 64 \<Longrightarrow> (alphabet ! v, v) \<in> set (zip alphabet [0..<length alphabet])"
  unfolding in_set_zip using alphabet_facts(1) by (intro exI [of _ v]) simp

lemma alphabet_decoded: "v < 64 \<Longrightarrow> DECODE_TABLE ! (alphabet ! v) = v"
  unfolding DECODE_TABLE_def
proof (rule table_entry)
  show "distinct (map fst (zip alphabet [0..<length alphabet]))"
    using alphabet_facts(2) by (subst map_fst_zip) simp_all
  show "\<forall>p \<in> set (zip alphabet [0..<length alphabet]). fst p < length (replicate (foldl max 0 alphabet + 1) (0 :: nat))"
  proof
    fix p assume "p \<in> set (zip alphabet [0..<length alphabet])"
    then have "fst p \<in> set alphabet" by (metis prod.collapse set_zip_leftD)
    then show "fst p < length (replicate (foldl max 0 alphabet + 1) (0 :: nat))"
      unfolding alphabet_facts(3) length_replicate using alphabet_facts(4) by simp
  qed
qed (rule alphabet_zip)

lemma alphabet_member: "v < 64 \<Longrightarrow> alphabet ! v \<in> set alphabet"
  using alphabet_facts(1) by simp

lemma alphabet_values:
  assumes "v < 64"
  shows "decode_value (alphabet ! v) = Inr v" "alphabet ! v \<noteq> PAD"
proof -
  have m: "alphabet ! v \<in> set alphabet" by (rule alphabet_member [OF assms])
  show "alphabet ! v \<noteq> PAD" using m alphabet_facts(5) by metis
  have "alphabet ! v < 123" using m alphabet_facts(4) by blast
  then show "decode_value (alphabet ! v) = Inr v"
    unfolding decode_value_def length_table alphabet_decoded [OF assms] by (rule if_P)
qed

lemma decode_char [simp]: "v < 64 \<Longrightarrow> decode_value (alphabet ! v) = Inr v"
  and char_not_pad [simp]: "v < 64 \<Longrightarrow> alphabet ! v \<noteq> PAD"
  by (fact alphabet_values)+

lemma decode_pad [simp]: "decode_value PAD = Inr 0"
proof -
  have "DECODE_TABLE ! PAD = replicate 123 0 ! PAD"
    unfolding DECODE_TABLE_def alphabet_facts(3)
    by (subst table_other) (use alphabet_facts(5) in \<open>auto dest: set_zip_leftD\<close>)
  then show ?thesis by (simp add: decode_value_def PAD_def)
qed

lemma or_shifted: "v < 2 ^ n \<Longrightarrow> push_bit n u OR v = u * 2 ^ n + (v :: nat)"
proof -
  assume v: "v < 2 ^ n"
  have "push_bit n u AND v = 0"
    using v by (auto simp: bit_eq_iff bit_simps) (metis bit_take_bit_iff not_le take_bit_nat_eq_self)
  then show ?thesis by (simp add: disjunctive_add_eq_or [symmetric] push_bit_eq_mult)
qed

lemma bits_value:
  assumes "v1 < 64" "v2 < 64" "v3 < 64"
  shows "push_bit 18 v0 OR push_bit 12 v1 OR push_bit 6 v2 OR v3 = v0 * 262144 + v1 * 4096 + v2 * 64 + (v3 :: nat)"
proof -
  have "push_bit 6 v2 OR v3 = v2 * 64 + v3" using or_shifted [of v3 6 v2] assms by simp
  moreover have "push_bit 12 v1 OR (v2 * 64 + v3) = v1 * 4096 + (v2 * 64 + v3)"
    using or_shifted [of "v2 * 64 + v3" 12 v1] assms by simp
  moreover have "push_bit 18 v0 OR (v1 * 4096 + (v2 * 64 + v3)) = v0 * 262144 + (v1 * 4096 + (v2 * 64 + v3))"
    using or_shifted [of "v1 * 4096 + (v2 * 64 + v3)" 18 v0] assms by simp
  ultimately show ?thesis by simp
qed

lemma byte_of: "drop_bit n x AND 0xFF = x div 2 ^ n mod (256 :: nat)"
  using take_bit_eq_mask [of 8 "drop_bit n x"] by (simp add: drop_bit_eq_div take_bit_eq_mod mask_eq_exp_minus_1)


lemma append_bytes:
  assumes "length outp < n"
  shows "(let out1 = outp @ [p]; out2 = (if length out1 < n then out1 @ [q] else out1)
    in if length out2 < n then out2 @ [r] else out2) = outp @ take (n - length outp) [p, q, r]"
proof -
  obtain m where m: "n - length outp = Suc m" using assms by (metis Suc_diff_Suc)
  then have "n = length outp + Suc m" using assms by simp
  then show ?thesis by (cases m; cases "m - 1") (auto simp: Let_def)
qed

text \<open>One turn of the loop over the four characters that stand for up to three bytes.\<close>

lemma decode_turn:
  assumes "length outp < n" "drop i data = [w0, w1, w2, w3] @ rest"
    and "decode_value w0 = Inr v0" "decode_value w1 = Inr v1" "decode_value w2 = Inr v2" "decode_value w3 = Inr v3"
    and "v1 < 64" "v2 < 64" "v3 < 64" and "x = v0 * 262144 + v1 * 4096 + v2 * 64 + v3"
  shows "decode_loop data n i outp = decode_loop data n (i + 4)
    (outp @ take (n - length outp) [x div 65536 mod 256, x div 256 mod 256, x mod 256])"
proof -
  have len: "i + 3 < length data" using arg_cong [OF assms(2), of length] by simp
  have "data ! (i + k) = ([w0, w1, w2, w3] @ rest) ! k" for k
    using len nth_drop [of i data k] by (simp add: assms(2))
  from this [of 0] this [of 1] this [of 2] this [of 3]
  have at: "decode_at data i = Inr v0" "decode_at data (i + 1) = Inr v1" "decode_at data (i + 2) = Inr v2"
    "decode_at data (i + 3) = Inr v3"
    using len assms(3-6) by (simp_all add: decode_at_def)
  have bits: "push_bit 18 v0 OR push_bit 12 v1 OR push_bit 6 v2 OR v3 = x"
    using bits_value assms(7-10) by simp
  show ?thesis
    using assms(1) byte_of [of 16 x] byte_of [of 8 x] byte_of [of 0 x] append_bytes [OF assms(1)]
    by (subst decode_loop.simps) (simp only: at bits rbind_Inr Let_def if_True, simp)
qed

lemma pack_bytes:
  "q * 4 + r = a \<Longrightarrow> s * 16 + t = b \<Longrightarrow> u * 64 + w = c \<Longrightarrow>
   q * 262144 + (r * 16 + s) * 4096 + (t * 4 + u) * 64 + w = a * 65536 + b * 256 + (c :: nat)"
  by (auto simp: algebra_simps)

lemma pack_two:
  "q * 4 + r = a \<Longrightarrow> s * 16 + t = b \<Longrightarrow>
   q * 262144 + (r * 16 + s) * 4096 + t * 4 * 64 + 0 = a * 65536 + b * (256 :: nat)"
  by (auto simp: algebra_simps)

lemma pack_one: "q * 4 + r = a \<Longrightarrow> q * 262144 + r * 16 * 4096 + 0 * 64 + 0 = a * (65536 :: nat)"
  by (auto simp: algebra_simps)

lemma unpack_bytes:
  assumes "b < 256" "c < (256 :: nat)"
  shows "(a * 65536 + b * 256 + c) div 65536 = a" "(a * 65536 + b * 256 + c) div 256 mod 256 = b"
    "(a * 65536 + b * 256 + c) mod 256 = c"
proof -
  have "a * 65536 + b * 256 + c = (a * 256 + b) * 256 + c" by simp
  moreover have "((a * 256 + b) * 256 + c) div 256 = a * 256 + b" "((a * 256 + b) * 256 + c) mod 256 = c"
    using assms(2) by (simp_all only: div_mult_self3 mod_mult_self3) simp_all
  moreover have "(a * 256 + b) mod 256 = b" "(a * 256 + b) div 256 = a" using assms(1) by simp_all
  ultimately show "(a * 65536 + b * 256 + c) div 256 mod 256 = b" "(a * 65536 + b * 256 + c) mod 256 = c"
    by metis+
  show "(a * 65536 + b * 256 + c) div 65536 = a" using assms by simp
qed

lemma sextets:
  assumes "a < 256" "b < 256" "c < (256 :: nat)"
  shows "a div 4 < 64" "a mod 4 * 16 + b div 16 < 64" "b mod 16 * 4 + c div 64 < 64" "c mod 64 < 64"
    "a mod 4 * 16 < 64" "b mod 16 * 4 < 64"
proof -
  have "a div 4 < 64" "b div 16 < 16" "c div 64 < 4" "a mod 4 < 4" "b mod 16 < 16" "c mod 64 < 64"
    using assms by auto
  then show "a div 4 < 64" "a mod 4 * 16 + b div 16 < 64" "b mod 16 * 4 + c div 64 < 64" "c mod 64 < 64"
    "a mod 4 * 16 < 64" "b mod 16 * 4 < 64"
    by linarith+
qed

lemma decode_done: "n \<le> length outp \<Longrightarrow> decode_loop data n i outp = Inr outp"
  by (simp add: decode_loop.simps)

lemma decode_encoded:
  assumes "bytes bs" "drop i data = b64encode bs" "n = length outp + length bs"
  shows "decode_loop data n i outp = Inr (outp @ bs)"
  using assms
proof (induction bs arbitrary: i "outp" rule: b64encode.induct)
  case (1 a b c bs)
  define x where "x = a div 4 * 262144 + (a mod 4 * 16 + b div 16) * 4096 + (b mod 16 * 4 + c div 64) * 64 + c mod 64"
  have lt: "a < 256" "b < 256" "c < 256" "bytes bs" using 1(2) by (auto simp: bytes_def)
  have x: "x = a * 65536 + b * 256 + c"
    unfolding x_def by (rule pack_bytes) (rule div_mult_mod_eq)+
  have "decode_loop data n i outp = decode_loop data n (i + 4)
      (outp @ take (n - length outp) [x div 65536 mod 256, x div 256 mod 256, x mod 256])"
    by (rule decode_turn [OF _ 1(3) [unfolded b64encode.simps] _ _ _ _ _ _ _ x_def])
      (simp_all only: decode_char sextets [OF lt(1-3)] 1(4), simp)
  also have "take (n - length outp) [x div 65536 mod 256, x div 256 mod 256, x mod 256] = [a, b, c]"
    using lt(1) 1(4) unfolding x unpack_bytes [OF lt(2,3)] by simp
  also have "decode_loop data n (i + 4) (outp @ [a, b, c]) = Inr ((outp @ [a, b, c]) @ bs)"
  proof (rule 1(1) [OF lt(4)])
    show "drop (i + 4) data = b64encode bs"
      using arg_cong [OF 1(3), of "drop 4"] by (simp add: add.commute)
  qed (use 1(4) in simp)
  finally show ?case by simp
next
  case (2 a b)
  define x where "x = a div 4 * 262144 + (a mod 4 * 16 + b div 16) * 4096 + (b mod 16 * 4) * 64 + 0"
  have lt: "a < 256" "b < 256" using 2(1) by (auto simp: bytes_def)
  have x: "x = a * 65536 + b * 256"
    unfolding x_def by (rule pack_two) (rule div_mult_mod_eq)+
  have dr: "drop i data = [alphabet ! (a div 4), alphabet ! (a mod 4 * 16 + b div 16),
      alphabet ! (b mod 16 * 4), PAD] @ []" using 2(2) by simp
  have "decode_loop data n i outp = decode_loop data n (i + 4)
      (outp @ take (n - length outp) [x div 65536 mod 256, x div 256 mod 256, x mod 256])"
    by (rule decode_turn [OF _ dr _ _ _ _ _ _ _ x_def])
      (simp_all only: decode_char decode_pad sextets [OF lt lt(1)] 2(3), simp_all)
  also have "take (n - length outp) [x div 65536 mod 256, x div 256 mod 256, x mod 256] = [a, b]"
    using lt 2(3) unpack_bytes [of b 0 a] by (simp add: x)
  finally show ?case using 2(3) by (simp add: decode_done)
next
  case (3 a)
  define x where "x = a div 4 * 262144 + (a mod 4 * 16) * 4096 + 0 * 64 + 0"
  have lt: "a < 256" using 3(1) by (auto simp: bytes_def)
  have x: "x = a * 65536" unfolding x_def by (rule pack_one) (rule div_mult_mod_eq)
  have dr: "drop i data = [alphabet ! (a div 4), alphabet ! (a mod 4 * 16), PAD, PAD] @ []"
    using 3(2) by simp
  have "decode_loop data n i outp = decode_loop data n (i + 4)
      (outp @ take (n - length outp) [x div 65536 mod 256, x div 256 mod 256, x mod 256])"
    by (rule decode_turn [OF _ dr _ _ _ _ _ _ _ x_def])
      (simp_all only: decode_char decode_pad sextets [OF lt lt lt] 3(3), simp_all)
  also have "take (n - length outp) [x div 65536 mod 256, x div 256 mod 256, x mod 256] = [a]"
    using lt 3(3) by (simp add: x)
  finally show ?case using 3(3) by (simp add: decode_done)
next
  case 4
  then show ?case by (simp add: decode_loop.simps)
qed

lemma last_encoded:
  "bytes bs \<Longrightarrow> bs \<noteq> [] \<Longrightarrow> b64encode bs \<noteq> [] \<and>
    (last (b64encode bs) = PAD \<longleftrightarrow> length bs mod 3 \<noteq> 0) \<and>
    (length bs mod 3 \<noteq> 0 \<longrightarrow> (b64encode bs ! (length (b64encode bs) - 2) = PAD \<longleftrightarrow> length bs mod 3 = 1))"
proof (induction bs rule: b64encode.induct)
  case (1 a b c bs)
  have lt: "a < 256" "b < 256" "c < 256" using 1(2) by (auto simp: bytes_def)
  show ?case
  proof (cases "bs = []")
    case True
    then show ?thesis using sextets [OF lt] by simp
  next
    case False
    define es where "es = b64encode bs"
    obtain q where q: "b64encode (a # b # c # bs) = q @ es" "length q = 4" by (auto simp: es_def)
    have "bytes bs" using 1(2) by (simp add: bytes_def)
    then have IH: "es \<noteq> []" "(last es = PAD) = (length bs mod 3 \<noteq> 0)"
      "length bs mod 3 \<noteq> 0 \<longrightarrow> (es ! (length es - 2) = PAD \<longleftrightarrow> length bs mod 3 = 1)"
      using 1(1) False by (simp_all add: es_def)
    have "4 \<le> length es" using False by (cases bs) (simp_all add: es_def length_b64encode)
    then have n: "(q @ es) ! (length (q @ es) - 2) = es ! (length es - 2)"
      using q(2) by (simp add: nth_append)
    have m: "length (a # b # c # bs) mod 3 = length bs mod 3" by simp
    show ?thesis unfolding q(1) n m using IH by simp
  qed
next
  case (2 a b)
  then have "a < 256" "b < 256" by (auto simp: bytes_def)
  then show ?case using sextets [of a b 0] by simp
next
  case (3 a)
  then show ?case by simp
qed simp

lemma pad_of_encoded:
  assumes "bytes bs"
  shows "pad_length (Some (b64encode bs)) 0 (int (length (b64encode bs))) =
    Inr (int (if length bs mod 3 = 0 then 0 else 3 - length bs mod 3))"
proof (cases "bs = []")
  case True
  then show ?thesis by (simp add: pad_length_def slice_def)
next
  case False
  note l = last_encoded [OF assms False]
  have len: "4 \<le> length (b64encode bs)" using False by (cases bs) (simp_all add: length_b64encode)
  have "slice (Some (b64encode bs)) 0 (int (length (b64encode bs))) = Inr (b64encode bs)"
    using len by (simp add: slice_def)
  moreover have "py_index (length (b64encode bs)) (-2) = Inr (length (b64encode bs) - 2)"
    using len py_index_neg [of 2 "length (b64encode bs)"] by simp
  moreover have "length bs mod 3 = 0 \<or> length bs mod 3 = 1 \<or> length bs mod 3 = 2" by presburger
  ultimately show ?thesis using l by (auto simp: pad_length_def)
qed

lemma dec_length_encoded:
  "dec_length (int (length (b64encode bs))) (int (if length bs mod 3 = 0 then 0 else 3 - length bs mod 3)) =
   int (length bs)"
proof -
  have "quot (int (length (b64encode bs))) 4 = int ((length bs + 2) div 3)"
    by (simp add: length_b64encode quot_def)
  then show ?thesis unfolding dec_length_def by simp presburger
qed

lemma decode_b64encode:
  assumes "bytes bs"
  shows "decode_bytes (b64encode bs) = Inr bs"
  using decode_encoded [OF assms, of 0 "b64encode bs" "length bs" "[]"]
  by (simp only: decode_bytes_def pad_of_encoded [OF assms] rbind_Inr Let_def dec_length_encoded) simp

section \<open>Properties\<close>

text \<open>
  C35: decoding undoes encoding. For every sequence of bytes, the decoder's loop over the encoder's
  whole output returns the bytes; the lengths announced
  by \<open>enc_length\<close> and \<open>dec_length\<close> with \<open>pad_length\<close> are the lengths produced; and streaming either
  way, with any buffer of a permitted positive size and any sizes of the partial reads, gives the
  result of coding everything at once.
\<close>

theorem base64_round_trip:
  assumes "bytes bs" and "\<And>i. 0 < rd i" and "0 < n"
  shows "rbind (b64_encode bs None None) (\<lambda>e. b64_decode e None None) = Inr bs \<and>
    int (length (b64encode bs)) = enc_length (int (length bs)) \<and>
    rbind (pad_length (Some (b64encode bs)) 0 (int (length (b64encode bs))))
      (\<lambda>p. Inr (dec_length (int (length (b64encode bs))) p)) = Inr (int (length bs)) \<and>
    encoding_transfer rd (Some (3 * int n)) bs = Inr (b64encode bs) \<and>
    decoding_transfer rd (Some (4 * int n)) (b64encode bs) = Inr bs"
proof (intro conjI)
  have sl: "slice (Some xs) 0 (int (length xs)) = Inr xs" for xs by (simp add: slice_def)
  show "rbind (b64_encode bs None None) (\<lambda>e. b64_decode e None None) = Inr bs"
    by (simp add: b64_encode_def b64_decode_def arguments_def sl decode_b64encode assms(1))
  show "int (length (b64encode bs)) = enc_length (int (length bs))"
    by (simp add: length_b64encode enc_length_def quot_def)
  show "rbind (pad_length (Some (b64encode bs)) 0 (int (length (b64encode bs))))
      (\<lambda>p. Inr (dec_length (int (length (b64encode bs))) p)) = Inr (int (length bs))"
    by (simp only: pad_of_encoded [OF assms(1)] rbind_Inr dec_length_encoded)
  have "transfer_loop (\<lambda>data. Inr (b64encode data)) rd (3 * n) (length bs) 0 bs [] = Inr ([] @ b64encode bs)"
  proof (rule transfer_chunks [where P = "\<lambda>_. True"])
    show "True \<and> Inr (b64encode (take (3 * n) xs)) = Inr (b64encode (take (3 * n) xs)) \<and>
        b64encode xs = b64encode (take (3 * n) xs) @ b64encode (drop (3 * n) xs)" for xs
      by (simp add: take_b64encode [symmetric] drop_b64encode [symmetric])
  qed (use assms in simp_all)
  moreover have "buffer_size (Some (3 * int n)) 6144 3 = Inr (3 * n)" by (simp add: buffer_size_def nat_mult_distrib)
  ultimately show "encoding_transfer rd (Some (3 * int n)) bs = Inr (b64encode bs)"
    by (simp add: encoding_transfer_def)
  define f where "f e = (THE bs. bytes bs \<and> e = b64encode bs)" for e
  have f: "f (b64encode xs) = xs" if "bytes xs" for xs
    unfolding f_def using that decode_b64encode by (intro the_equality) (auto dest: arg_cong [where f = decode_bytes])
  have "transfer_loop decode_bytes rd (4 * n) (length (b64encode bs)) 0 (b64encode bs) [] = Inr ([] @ f (b64encode bs))"
  proof (rule transfer_chunks [where P = "\<lambda>e. \<exists>xs. bytes xs \<and> e = b64encode xs"])
    fix e assume "\<exists>xs. bytes xs \<and> e = b64encode xs"
    then obtain xs where xs: "bytes xs" "e = b64encode xs" by blast
    have b: "bytes (take (3 * n) xs)" "bytes (drop (3 * n) xs)"
      using xs(1) by (auto simp: bytes_def dest: in_set_takeD in_set_dropD)
    show "(\<exists>ys. bytes ys \<and> drop (4 * n) e = b64encode ys) \<and>
        decode_bytes (take (4 * n) e) = Inr (f (take (4 * n) e)) \<and>
        f e = f (take (4 * n) e) @ f (drop (4 * n) e)"
      using b xs f decode_b64encode by (auto simp: take_b64encode drop_b64encode)
  qed (use assms f [of "[]"] in \<open>auto simp: bytes_def\<close>)
  moreover have "buffer_size (Some (4 * int n)) 8192 4 = Inr (4 * n)" by (simp add: buffer_size_def nat_mult_distrib)
  ultimately show "decoding_transfer rd (Some (4 * int n)) (b64encode bs) = Inr bs"
    by (simp add: decoding_transfer_def f assms(1))
qed

theorem base64_round_trip_witness:
  "decoding_transfer (\<lambda>_. 1) (Some 4) (b64encode [104, 105, 0, 255]) = Inr [104, 105, 0, 255] \<and>
   b64encode [104, 105, 0, 255] = map of_char ''aGkA/w==''"
  using base64_round_trip [of "[104, 105, 0, 255]" "\<lambda>_. 1" 1] by (simp add: bytes_def alphabet_def PAD_def)

text \<open>
  What malformed input does. A lone padding character raises IndexError and a pair of them
  ValueError; a byte that is in the range of the table but not in the alphabet is read as zero; a
  byte above the table raises ValueError; characters after the last whole group are dropped; and
  a buffer size of zero is accepted, with which a transfer writes nothing whatever the stream
  holds.
\<close>

theorem base64_edge_cases:
  "decode_bytes [PAD] = Inl IndexError \<and> decode_bytes [PAD, PAD] = Inl ValueError \<and>
   decode_bytes (map of_char ''A*AA'') = Inr [0, 0, 0] \<and>
   decode_bytes (map of_char ''AA~A'') = Inl ValueError \<and>
   decode_bytes (map of_char ''AAAAAA'') = Inr [0, 0, 0] \<and>
   encoding_transfer rd (Some 0) stream = Inr []"
proof (intro conjI)
  have A: "decode_value 65 = Inr 0"
    using alphabet_values(1) [of 0] by (simp add: alphabet_def)
  have "42 \<notin> set alphabet" by code_simp
  then have "DECODE_TABLE ! 42 = replicate 123 0 ! 42"
    unfolding DECODE_TABLE_def alphabet_facts(3) by (subst table_other) (auto dest: set_zip_leftD)
  then have star: "decode_value 42 = Inr 0" by (simp add: decode_value_def)
  have tilde: "decode_value 126 = Inl ValueError" by (simp add: decode_value_def)
  note unfold = decode_bytes_def pad_length_def slice_def dec_length_def quot_def PAD_def decode_loop.simps
    decode_at_def py_index_def A star tilde Let_def
  show "decode_bytes [PAD] = Inl IndexError" "decode_bytes [PAD, PAD] = Inl ValueError"
    by (simp_all add: unfold)
  show "decode_bytes (map of_char ''A*AA'') = Inr [0, 0, 0]" by (simp add: unfold)
  show "decode_bytes (map of_char ''AA~A'') = Inl ValueError" by (simp add: unfold)
  show "decode_bytes (map of_char ''AAAAAA'') = Inr [0, 0, 0]" by (simp add: unfold)
  show "encoding_transfer rd (Some 0) stream = Inr []"
    by (cases "length stream") (simp_all add: encoding_transfer_def buffer_size_def read_fully.simps)
qed

end
