(* ===== verification/Chunk.thy ===== *)
theory Chunk
  imports Prelude
begin

text \<open>
  Chunks and chunked sequences (\<open>src/src/basilisp/lang/chunk.py\<close>) and ranges
  (\<open>src/src/basilisp/lang/range.py\<close>). An array or vector is the list of its items; metadata of
  sequences is not modelled.
\<close>

section \<open>Array chunks\<close>

definition DEFAULT_CHUNK_SIZE :: nat where "DEFAULT_CHUNK_SIZE = 32"

record 'a array_chunk =
  ac_array :: "'a list"
  ac_offset :: nat
  ac_end :: nat

definition new_array_chunk :: "'a list \<Rightarrow> int \<Rightarrow> int option \<Rightarrow> 'a array_chunk res" where
  "new_array_chunk array offset end_opt =
     (let n = int (length array); stop = (case end_opt of None \<Rightarrow> n | Some e \<Rightarrow> e)
      in if offset < 0 \<or> stop < offset \<or> stop > n then Inl IndexError
         else Inr \<lparr>ac_array = array, ac_offset = nat offset, ac_end = nat stop\<rparr>)"

definition chunk_len :: "'a array_chunk \<Rightarrow> nat" where
  "chunk_len c = ac_end c - ac_offset c"

definition chunk_nth :: "'a array_chunk \<Rightarrow> int \<Rightarrow> 'a option \<Rightarrow> 'a res" where
  "chunk_nth c k notfound =
     (if 0 \<le> k \<and> k < int (chunk_len c) then Inr (ac_array c ! (ac_offset c + nat k))
      else (case notfound of Some x \<Rightarrow> Inr x | None \<Rightarrow> Inl IndexError))"

definition drop_first :: "'a array_chunk \<Rightarrow> 'a array_chunk res" where
  "drop_first c =
     (if chunk_len c = 0 then Inl IndexError
      else new_array_chunk (ac_array c) (int (ac_offset c) + 1) (Some (int (ac_end c))))"

section \<open>Chunk buffers\<close>

record 'a chunk_buffer =
  cb_capacity :: nat
  cb_items :: "'a list option"

definition new_chunk_buffer :: "index_arg \<Rightarrow> 'a chunk_buffer res" where
  "new_chunk_buffer capacity =
     (case capacity of
        IdxOther \<Rightarrow> Inl TypeError
      | IdxInt n \<Rightarrow>
          (if n < 0 then Inl ValueError else Inr \<lparr>cb_capacity = nat n, cb_items = Some []\<rparr>))"

definition buffer_append :: "'a chunk_buffer \<Rightarrow> 'a \<Rightarrow> 'a chunk_buffer res" where
  "buffer_append b v =
     (case cb_items b of
        None \<Rightarrow> Inl RuntimeError
      | Some items \<Rightarrow>
          (if length items \<ge> cb_capacity b then Inl IndexError
           else Inr (b\<lparr>cb_items := Some (items @ [v])\<rparr>)))"

definition buffer_chunk :: "'a chunk_buffer \<Rightarrow> ('a chunk_buffer \<times> 'a array_chunk) res" where
  "buffer_chunk b =
     (case cb_items b of
        None \<Rightarrow> Inl RuntimeError
      | Some items \<Rightarrow>
          rbind (new_array_chunk items 0 None) (\<lambda>c. Inr (b\<lparr>cb_items := None\<rparr>, c)))"

section \<open>Chunked sequences\<close>

text \<open>
  \<open>ConsSeq\<close> is the \<open>Cons\<close> cell that conjoining makes, \<open>CCons chunk offset rest\<close> a \<open>ChunkedCons\<close>
  (without a rest, \<open>None\<close>), \<open>VecSeq source offset chunk_end\<close> a \<open>ChunkedVectorSeq\<close>.
\<close>

datatype 'a cseq =
    EmptySeq
  | ConsSeq 'a "'a cseq"
  | CCons "'a array_chunk" nat "'a cseq option"
  | VecSeq "'a list" nat nat

definition new_chunked_cons :: "'a array_chunk \<Rightarrow> 'a cseq option \<Rightarrow> int \<Rightarrow> 'a cseq res" where
  "new_chunked_cons c rest offset =
     (if chunk_len c = 0 then Inl ValueError
      else if \<not> (0 \<le> offset \<and> offset < int (chunk_len c)) then Inl IndexError
      else Inr (CCons c (nat offset) rest))"

definition new_vec_seq :: "'a list \<Rightarrow> int \<Rightarrow> nat option \<Rightarrow> 'a cseq res" where
  "new_vec_seq source offset chunk_end =
     (if \<not> (0 \<le> offset \<and> offset < int (length source)) then Inl IndexError
      else Inr (VecSeq source (nat offset)
             (case chunk_end of
                None \<Rightarrow> min (nat offset + DEFAULT_CHUNK_SIZE) (length source)
              | Some e \<Rightarrow> e)))"

definition cseq_cons :: "'a cseq \<Rightarrow> 'a list \<Rightarrow> 'a cseq" where
  "cseq_cons s elems = foldl (\<lambda>result elem. ConsSeq elem result) s elems"

definition cons_chunked_rest :: "'a cseq option \<Rightarrow> 'a cseq" where
  "cons_chunked_rest rest = (case rest of Some r \<Rightarrow> r | None \<Rightarrow> EmptySeq)"

definition vec_chunked_rest :: "'a list \<Rightarrow> nat \<Rightarrow> 'a cseq res" where
  "vec_chunked_rest source chunk_end =
     (if chunk_end = length source then Inr EmptySeq else new_vec_seq source (int chunk_end) None)"

definition vec_chunked_next :: "'a list \<Rightarrow> nat \<Rightarrow> 'a cseq option res" where
  "vec_chunked_next source chunk_end =
     (if chunk_end = length source then Inr None
      else rbind (new_vec_seq source (int chunk_end) None) (\<lambda>s. Inr (Some s)))"

text \<open>\<open>first\<close> of the empty sequence is nil.\<close>

definition cseq_first :: "'a cseq \<Rightarrow> 'a option res" where
  "cseq_first s =
     (case s of
        EmptySeq \<Rightarrow> Inr None
      | ConsSeq x r \<Rightarrow> Inr (Some x)
      | CCons c offset rest \<Rightarrow> rbind (chunk_nth c (int offset) None) (\<lambda>x. Inr (Some x))
      | VecSeq source offset chunk_end \<Rightarrow>
          rbind (py_index (length source) (int offset)) (\<lambda>i. Inr (Some (source ! i))))"

definition cseq_rest :: "'a cseq \<Rightarrow> 'a cseq res" where
  "cseq_rest s =
     (case s of
        EmptySeq \<Rightarrow> Inr EmptySeq
      | ConsSeq x r \<Rightarrow> Inr r
      | CCons c offset rest \<Rightarrow>
          (if offset + 1 < chunk_len c then new_chunked_cons c rest (int offset + 1)
           else Inr (cons_chunked_rest rest))
      | VecSeq source offset chunk_end \<Rightarrow>
          (if offset + 1 < chunk_end then new_vec_seq source (int offset + 1) (Some chunk_end)
           else vec_chunked_rest source chunk_end))"

definition chunk_first :: "'a cseq \<Rightarrow> 'a array_chunk res" where
  "chunk_first s =
     (case s of
        CCons c offset rest \<Rightarrow> new_array_chunk (ac_array c) (int (ac_offset c + offset)) (Some (int (ac_end c)))
      | VecSeq source offset chunk_end \<Rightarrow> new_array_chunk source (int offset) (Some (int chunk_end))
      | _ \<Rightarrow> Inl TypeError)"

definition chunk_rest :: "'a cseq \<Rightarrow> 'a cseq res" where
  "chunk_rest s =
     (case s of
        CCons c offset rest \<Rightarrow> Inr (cons_chunked_rest rest)
      | VecSeq source offset chunk_end \<Rightarrow> vec_chunked_rest source chunk_end
      | _ \<Rightarrow> Inl TypeError)"

definition chunk_next :: "'a cseq \<Rightarrow> 'a cseq option res" where
  "chunk_next s =
     (case s of
        CCons c offset rest \<Rightarrow> Inr rest
      | VecSeq source offset chunk_end \<Rightarrow> vec_chunked_next source chunk_end
      | _ \<Rightarrow> Inl TypeError)"

definition is_chunked_seq :: "'a cseq \<Rightarrow> bool" where
  "is_chunked_seq s = (case s of CCons _ _ _ \<Rightarrow> True | VecSeq _ _ _ \<Rightarrow> True | _ \<Rightarrow> False)"

text \<open>\<open>chunk_cons\<close>; its first argument is None when it is not an array chunk.\<close>

definition chunk_cons :: "'a array_chunk option \<Rightarrow> 'a cseq option \<Rightarrow> 'a cseq option res" where
  "chunk_cons c rest =
     (case c of
        None \<Rightarrow> Inl TypeError
      | Some c \<Rightarrow>
          (if chunk_len c = 0 then Inr rest
           else rbind (new_chunked_cons c rest 0) (\<lambda>s. Inr (Some s))))"

definition chunked_vector_seq :: "'a list \<Rightarrow> 'a cseq option res" where
  "chunked_vector_seq source =
     (if length source = 0 then Inr None
      else rbind (new_vec_seq source 0 None) (\<lambda>s. Inr (Some s)))"

definition chunk_items :: "'a array_chunk \<Rightarrow> 'a list" where
  "chunk_items c = take (chunk_len c) (drop (ac_offset c) (ac_array c))"

text \<open>\<open>__iter__\<close>\<close>

fun cseq_iter :: "'a cseq \<Rightarrow> 'a list" where
  "cseq_iter EmptySeq = []"
| "cseq_iter (ConsSeq x r) = x # cseq_iter r"
| "cseq_iter (CCons c offset rest) =
     drop offset (chunk_items c) @ (case rest of None \<Rightarrow> [] | Some r \<Rightarrow> cseq_iter r)"
| "cseq_iter (VecSeq source offset chunk_end) = drop offset source"

section \<open>Walking by items and by chunks\<close>

definition chunk_ok :: "'a array_chunk \<Rightarrow> bool" where
  "chunk_ok c \<longleftrightarrow> ac_offset c \<le> ac_end c \<and> ac_end c \<le> length (ac_array c)"

fun cseq_ok :: "'a cseq \<Rightarrow> bool" where
  "cseq_ok EmptySeq \<longleftrightarrow> True"
| "cseq_ok (ConsSeq x r) \<longleftrightarrow> cseq_ok r"
| "cseq_ok (CCons c offset rest) \<longleftrightarrow>
     chunk_ok c \<and> offset < chunk_len c \<and> (case rest of None \<Rightarrow> True | Some r \<Rightarrow> cseq_ok r)"
| "cseq_ok (VecSeq source offset chunk_end) \<longleftrightarrow>
     offset < chunk_end \<and> chunk_end \<le> length source \<and> chunk_end \<le> offset + DEFAULT_CHUNK_SIZE"

lemma new_vec_seq_ok:
  "offset < length source \<Longrightarrow> \<exists>s. new_vec_seq source (int offset) None = Inr s \<and> cseq_ok s \<and>
    cseq_iter s = drop offset source"
  by (auto simp: new_vec_seq_def DEFAULT_CHUNK_SIZE_def)

lemma vec_chunked_rest_ok:
  "chunk_end \<le> length source \<Longrightarrow> \<exists>s. vec_chunked_rest source chunk_end = Inr s \<and> cseq_ok s \<and>
    cseq_iter s = drop chunk_end source"
  using new_vec_seq_ok [of chunk_end source] by (auto simp: vec_chunked_rest_def)

lemma chunk_items_nth:
  "chunk_ok c \<Longrightarrow> i < chunk_len c \<Longrightarrow> chunk_items c ! i = ac_array c ! (ac_offset c + i)"
  by (simp add: chunk_items_def chunk_ok_def)

lemma length_chunk_items: "chunk_ok c \<Longrightarrow> length (chunk_items c) = chunk_len c"
  by (auto simp: chunk_items_def chunk_ok_def chunk_len_def)

lemma new_array_chunk_items:
  assumes "new_array_chunk array (int i) (Some (int j)) = Inr c"
  shows "chunk_ok c \<and> chunk_items c = take (j - i) (drop i array)"
  using assms by (auto simp: new_array_chunk_def chunk_ok_def chunk_items_def chunk_len_def Let_def split: if_splits)

text \<open>
  Walking a sequence item by item and walking it chunk by chunk see the same items. From every
  sequence the constructors make (chunked conses, vector views, cells conjoined in front), \<open>first\<close> and
  \<open>rest\<close> never raise, stay among such sequences and peel the items of the iteration off in order;
  and on the chunked ones so do \<open>chunk-first\<close> and \<open>chunk-rest\<close>, whole non-empty chunks at a time (of
  at most 32 items for a vector).
\<close>

theorem chunk_walks_agree:
  assumes "cseq_ok s" and "cseq_iter s \<noteq> []"
  shows "\<exists>r. cseq_first s = Inr (Some (hd (cseq_iter s))) \<and> cseq_rest s = Inr r \<and> cseq_ok r \<and>
      cseq_iter r = tl (cseq_iter s) \<and>
    (is_chunked_seq s \<longrightarrow> (\<exists>c t. chunk_first s = Inr c \<and> chunk_rest s = Inr t \<and> chunk_items c \<noteq> [] \<and>
       cseq_ok t \<and> cseq_iter s = chunk_items c @ cseq_iter t \<and>
       (case s of VecSeq _ _ _ \<Rightarrow> chunk_len c \<le> DEFAULT_CHUNK_SIZE | _ \<Rightarrow> True)))"
proof (cases s)
  case EmptySeq
  then show ?thesis using assms by simp
next
  case (ConsSeq x r)
  then show ?thesis using assms by (simp add: cseq_first_def cseq_rest_def is_chunked_seq_def)
next
  case (CCons c offset rest)
  have ok: "chunk_ok c" "offset < chunk_len c" "case rest of None \<Rightarrow> True | Some r \<Rightarrow> cseq_ok r"
    using assms(1) CCons by auto
  have d: "drop offset (chunk_items c) = chunk_items c ! offset # drop (Suc offset) (chunk_items c)"
    using ok by (simp add: Cons_nth_drop_Suc length_chunk_items)
  define tail where "tail = (case rest of None \<Rightarrow> [] | Some r \<Rightarrow> cseq_iter r)"
  have rest: "cseq_ok (cons_chunked_rest rest)" "cseq_iter (cons_chunked_rest rest) = tail"
    using ok(3) by (auto simp: cons_chunked_rest_def tail_def split: option.splits)
  have first: "cseq_first s = Inr (Some (hd (cseq_iter s)))"
    using ok(1,2) by (simp add: CCons cseq_first_def chunk_nth_def d chunk_items_nth)
  have step: "\<exists>r. cseq_rest s = Inr r \<and> cseq_ok r \<and> cseq_iter r = tl (cseq_iter s)"
  proof (cases "offset + 1 < chunk_len c")
    case True
    then have "cseq_rest s = Inr (CCons c (Suc offset) rest)"
      by (simp add: CCons cseq_rest_def new_chunked_cons_def nat_add_distrib)
    then show ?thesis using True ok by (simp add: CCons d)
  next
    case False
    then have "drop (Suc offset) (chunk_items c) = []" using ok by (simp add: length_chunk_items)
    then show ?thesis using False rest by (simp add: CCons cseq_rest_def d tail_def)
  qed
  have le: "ac_offset c + offset \<le> ac_end c" using ok(2) by (simp add: chunk_len_def)
  then obtain c' where c': "chunk_first s = Inr c'"
    using ok(1) by (auto simp: CCons chunk_first_def new_array_chunk_def chunk_ok_def Let_def)
  have "chunk_items c' = take (ac_end c - (ac_offset c + offset)) (drop (ac_offset c + offset) (ac_array c))"
    using new_array_chunk_items [of "ac_array c" "ac_offset c + offset" "ac_end c" c'] c'
    by (simp add: CCons chunk_first_def)
  also have "\<dots> = drop offset (chunk_items c)"
    by (simp add: chunk_items_def chunk_len_def drop_take add.commute)
  finally have items: "chunk_items c' = drop offset (chunk_items c)" .
  then have chunks: "chunk_items c' \<noteq> []" "cseq_iter s = chunk_items c' @ cseq_iter (cons_chunked_rest rest)"
    by (simp_all add: d CCons rest(2) tail_def)
  have "chunk_rest s = Inr (cons_chunked_rest rest)" by (simp add: CCons chunk_rest_def)
  then show ?thesis using first step c' chunks rest(1) CCons by auto
next
  case (VecSeq source offset chunk_end)
  have ok: "offset < chunk_end" "chunk_end \<le> length source" "chunk_end \<le> offset + DEFAULT_CHUNK_SIZE"
    using assms(1) VecSeq by auto
  have d: "drop offset source = source ! offset # drop (Suc offset) source"
    using ok by (simp add: Cons_nth_drop_Suc)
  have first: "cseq_first s = Inr (Some (hd (cseq_iter s)))"
    using ok by (simp add: VecSeq cseq_first_def d)
  obtain t where t: "vec_chunked_rest source chunk_end = Inr t" "cseq_ok t" "cseq_iter t = drop chunk_end source"
    using vec_chunked_rest_ok [OF ok(2)] by blast
  have step: "\<exists>r. cseq_rest s = Inr r \<and> cseq_ok r \<and> cseq_iter r = tl (cseq_iter s)"
  proof (cases "offset + 1 < chunk_end")
    case True
    then have "cseq_rest s = Inr (VecSeq source (Suc offset) chunk_end)"
      using ok by (simp add: VecSeq cseq_rest_def new_vec_seq_def nat_add_distrib)
    then show ?thesis using True ok by (simp add: VecSeq d)
  next
    case False
    then have "chunk_end = Suc offset" using ok by simp
    then show ?thesis using t False by (simp add: VecSeq cseq_rest_def d)
  qed
  obtain c where c: "chunk_first s = Inr c"
    using ok by (auto simp: VecSeq chunk_first_def new_array_chunk_def Let_def)
  have items: "chunk_ok c \<and> chunk_items c = take (chunk_end - offset) (drop offset source)"
    using new_array_chunk_items [of source offset chunk_end c] c by (simp add: VecSeq chunk_first_def)
  have "drop offset source = chunk_items c @ drop chunk_end source"
    using ok items append_take_drop_id [of "chunk_end - offset" "drop offset source"] by simp
  moreover have "chunk_items c \<noteq> []" using items ok by auto
  moreover have "chunk_len c \<le> DEFAULT_CHUNK_SIZE"
    using items ok length_chunk_items [of c] by simp
  moreover have "chunk_rest s = Inr t" using t(1) by (simp add: VecSeq chunk_rest_def)
  ultimately show ?thesis using first step c t VecSeq by auto
qed


theorem chunk_walks_agree_witness:
  "cseq_first (VecSeq [10, 20, 30 :: int] 1 3) = Inr (Some 20) \<and>
   (\<exists>c t. chunk_first (VecSeq [10, 20, 30 :: int] 1 3) = Inr c \<and>
      chunk_rest (VecSeq [10, 20, 30 :: int] 1 3) = Inr t \<and> [20, 30] = chunk_items c @ cseq_iter t)"
  using chunk_walks_agree [of "VecSeq [10, 20, 30 :: int] 1 3"]
  by (auto simp: DEFAULT_CHUNK_SIZE_def is_chunked_seq_def)

text \<open>
  A buffer takes as many items as its capacity, gives exactly these items as a chunk, and can be
  used no more.
\<close>

lemma buffer_fills:
  "length ys + length xs \<le> n \<Longrightarrow> foldM buffer_append \<lparr>cb_capacity = n, cb_items = Some ys\<rparr> xs =
    Inr \<lparr>cb_capacity = n, cb_items = Some (ys @ xs)\<rparr>"
  by (induction xs arbitrary: ys) (simp_all add: buffer_append_def)

lemma buffer_one_shot:
  assumes "new_chunk_buffer (IdxInt (int n)) = Inr b" "length xs \<le> n"
  shows "\<exists>b1 b2 c. foldM buffer_append b xs = Inr b1 \<and> buffer_chunk b1 = Inr (b2, c) \<and> chunk_items c = xs \<and>
    (length xs = n \<longrightarrow> buffer_append b1 x = Inl IndexError) \<and>
    buffer_append b2 x = Inl RuntimeError \<and> buffer_chunk b2 = Inl RuntimeError"
  using assms buffer_fills [of "[]" xs n]
  by (auto simp: new_chunk_buffer_def buffer_chunk_def new_array_chunk_def buffer_append_def chunk_items_def
      chunk_len_def Let_def)

section \<open>Ranges\<close>

text \<open>
  A range over exact numbers; \<open>Conj\<close> is the \<open>Cons\<close> cell that conjoining makes, \<open>ZeroStep\<close> the endless
  \<open>_ZeroStepRangeSeq\<close>.
\<close>

datatype 'n range_seq =
    REmpty
  | Range 'n "'n option" 'n nat
  | ZeroStep 'n
  | Conj 'n "'n range_seq"

definition in_bounds :: "'n::linordered_idom \<Rightarrow> 'n option \<Rightarrow> 'n \<Rightarrow> bool" where
  "in_bounds v stop step =
     (case stop of None \<Rightarrow> True | Some e \<Rightarrow> if step \<ge> 0 then v < e else v > e)"

definition new_range_seq :: "'n \<Rightarrow> 'n option \<Rightarrow> 'n \<Rightarrow> int \<Rightarrow> 'n range_seq res" where
  "new_range_seq start stop step remaining =
     (if remaining < 1 \<or> remaining > int DEFAULT_CHUNK_SIZE then Inl ValueError
      else Inr (Range start stop step (nat remaining)))"

definition range_first :: "'n range_seq \<Rightarrow> 'n option" where
  "range_first s =
     (case s of REmpty \<Rightarrow> None | Range start _ _ _ \<Rightarrow> Some start | ZeroStep v \<Rightarrow> Some v | Conj x _ \<Rightarrow> Some x)"

definition range_rest :: "'n::linordered_idom range_seq \<Rightarrow> 'n range_seq res" where
  "range_rest s =
     (case s of
        REmpty \<Rightarrow> Inr REmpty
      | Conj _ r \<Rightarrow> Inr r
      | ZeroStep v \<Rightarrow> Inr (ZeroStep v)
      | Range start stop step remaining \<Rightarrow>
          (let next_start = start + step
           in if \<not> in_bounds next_start stop step then Inr REmpty
              else if remaining > 1 then new_range_seq next_start stop step (int remaining - 1)
              else new_range_seq next_start stop step (int DEFAULT_CHUNK_SIZE)))"

definition range_cons :: "'n range_seq \<Rightarrow> 'n list \<Rightarrow> 'n range_seq" where
  "range_cons s elems = foldl (\<lambda>result elem. Conj elem result) s elems"

text \<open>\<open>_chunk_values\<close>: at most \<open>remaining\<close> values from \<open>current\<close> on.\<close>

fun chunk_values :: "nat \<Rightarrow> 'n::linordered_idom \<Rightarrow> 'n option \<Rightarrow> 'n \<Rightarrow> 'n list" where
  "chunk_values 0 current stop step = []"
| "chunk_values (Suc n) current stop step =
     (if \<not> in_bounds current stop step then []
      else current # chunk_values n (current + step) stop step)"

definition range_chunked_first :: "'n::linordered_idom range_seq \<Rightarrow> 'n array_chunk res" where
  "range_chunked_first s =
     (case s of
        Range start stop step remaining \<Rightarrow> new_array_chunk (chunk_values remaining start stop step) 0 None
      | _ \<Rightarrow> Inl TypeError)"

definition range_chunked_rest :: "'n::linordered_idom range_seq \<Rightarrow> 'n range_seq res" where
  "range_chunked_rest s =
     (case s of
        Range start stop step remaining \<Rightarrow>
          (let values = chunk_values remaining start stop step;
               next_start = ((\<lambda>x. x + step) ^^ length values) start
           in if \<not> in_bounds next_start stop step then Inr REmpty
              else new_range_seq next_start stop step (int DEFAULT_CHUNK_SIZE))
      | _ \<Rightarrow> Inl TypeError)"

definition range_chunked_next :: "'n::linordered_idom range_seq \<Rightarrow> 'n range_seq option res" where
  "range_chunked_next s =
     rbind (range_chunked_rest s) (\<lambda>r. Inr (if r = REmpty then None else Some r))"

text \<open>The first \<open>n\<close> items that \<open>__iter__\<close> yields.\<close>

fun range_iter :: "nat \<Rightarrow> 'n::linordered_idom range_seq \<Rightarrow> 'n list" where
  "range_iter 0 s = []"
| "range_iter (Suc n) REmpty = []"
| "range_iter (Suc n) (ZeroStep v) = v # range_iter n (ZeroStep v)"
| "range_iter (Suc n) (Conj x r) = x # range_iter n r"
| "range_iter (Suc n) (Range start stop step remaining) =
     chunk_values (Suc n) start stop step"

definition make_range :: "'n::linordered_idom list \<Rightarrow> 'n range_seq res" where
  "make_range args =
     (let build = (\<lambda>start stop step.
            if \<not> in_bounds start stop step then Inr REmpty
            else if step = 0 then Inr (ZeroStep start)
            else new_range_seq start stop step (int DEFAULT_CHUNK_SIZE))
      in case args of
           [] \<Rightarrow> build 0 None 1
         | [e] \<Rightarrow> build 0 (Some e) 1
         | [s, e] \<Rightarrow> build s (Some e) 1
         | [s, e, d] \<Rightarrow> build s (Some e) d
         | _ \<Rightarrow> Inl TypeError)"

text \<open>Ranges as the operations make them: in bounds, with 1 to 32 items left of the chunk.\<close>

fun range_ok :: "'n::linordered_idom range_seq \<Rightarrow> bool" where
  "range_ok (Range start stop step remaining) \<longleftrightarrow>
     in_bounds start stop step \<and> 0 < remaining \<and> remaining \<le> DEFAULT_CHUNK_SIZE"
| "range_ok (Conj x r) \<longleftrightarrow> range_ok r"
| "range_ok _ \<longleftrightarrow> True"

fun walk :: "nat \<Rightarrow> 'n::linordered_idom range_seq \<Rightarrow> 'n list res" where
  "walk 0 s = Inr []"
| "walk (Suc n) s =
     (case range_first s of
        None \<Rightarrow> Inr []
      | Some x \<Rightarrow> rbind (range_rest s) (\<lambda>r. rbind (walk n r) (\<lambda>xs. Inr (x # xs))))"

fun chunk_walk :: "nat \<Rightarrow> 'n::linordered_idom range_seq \<Rightarrow> 'n list res" where
  "chunk_walk 0 s = Inr []"
| "chunk_walk (Suc n) s =
     (if s = REmpty then Inr []
      else rbind (range_chunked_first s) (\<lambda>c. rbind (range_chunked_rest s) (\<lambda>r.
           rbind (chunk_walk n r) (\<lambda>xs. Inr (chunk_items c @ xs)))))"

lemma range_rest_ok:
  "range_ok s \<Longrightarrow> \<exists>r. range_rest s = Inr r \<and> range_ok r"
  by (cases s) (auto simp: range_rest_def new_range_seq_def DEFAULT_CHUNK_SIZE_def Let_def)

lemma walk_range:
  "in_bounds start stop step \<Longrightarrow> 0 < remaining \<Longrightarrow> remaining \<le> DEFAULT_CHUNK_SIZE \<Longrightarrow>
   walk n (Range start stop step remaining) = Inr (chunk_values n start stop step)"
proof (induction n arbitrary: start remaining)
  case (Suc n)
  show ?case
  proof (cases "in_bounds (start + step) stop step")
    case True
    define m where "m = (if remaining > 1 then remaining - 1 else DEFAULT_CHUNK_SIZE)"
    have "range_rest (Range start stop step remaining) = Inr (Range (start + step) stop step m)"
      using True Suc.prems
      by (auto simp: range_rest_def new_range_seq_def m_def DEFAULT_CHUNK_SIZE_def Let_def nat_diff_distrib)
    moreover have "walk n (Range (start + step) stop step m) = Inr (chunk_values n (start + step) stop step)"
      by (rule Suc.IH [OF True]) (use Suc.prems in \<open>auto simp: m_def DEFAULT_CHUNK_SIZE_def\<close>)
    ultimately show ?thesis using Suc.prems(1) unfolding walk.simps by (simp add: range_first_def)
  next
    case False
    then have "range_rest (Range start stop step remaining) = Inr REmpty"
      by (simp add: range_rest_def Let_def)
    moreover have "walk n (REmpty :: 'a range_seq) = Inr []" by (cases n) (simp_all add: range_first_def)
    moreover have "chunk_values n (start + step) stop step = []" using False by (cases n) simp_all
    ultimately show ?thesis using Suc.prems(1) by (simp add: range_first_def)
  qed
qed simp

lemma step_power: "((\<lambda>x. x + step) ^^ n) start = start + of_nat n * (step :: 'n :: linordered_idom)"
  by (induction n) (simp_all add: algebra_simps)

lemma chunk_values_split:
  "chunk_values (m + n) start stop step =
   (let xs = chunk_values m start stop step
    in if length xs < m then xs else xs @ chunk_values n (start + of_nat m * step) stop step)"
  by (induction m arbitrary: start) (auto simp: Let_def algebra_simps split: if_splits)

lemma chunk_values_length: "length (chunk_values n start stop step) \<le> n"
  by (induction n arbitrary: start) auto

lemma chunk_values_stop:
  "length (chunk_values n start stop step) < n \<Longrightarrow>
   \<not> in_bounds (start + of_nat (length (chunk_values n start stop step)) * step) stop step"
proof (induction n arbitrary: start)
  case (Suc n)
  show ?case
  proof (cases "in_bounds start stop step")
    case True
    then have "length (chunk_values n (start + step) stop step) < n" using Suc.prems by simp
    from Suc.IH [OF this] show ?thesis using True by (simp add: algebra_simps)
  qed simp
qed simp

text \<open>The values, one by one: an arithmetic progression cut off at the bound.\<close>

lemma chunk_values_nth:
  "i < length (chunk_values n start stop step) \<Longrightarrow>
   chunk_values n start stop step ! i = start + of_nat i * step \<and> in_bounds (start + of_nat i * step) stop step"
proof (induction n arbitrary: start i)
  case (Suc n)
  show ?case
  proof (cases i)
    case 0
    then show ?thesis using Suc.prems by (auto split: if_splits)
  next
    case (Suc j)
    then show ?thesis using Suc.IH [of j "start + step"] Suc.prems by (auto simp: algebra_simps split: if_splits)
  qed
qed simp


lemma chunk_values_out: "\<not> in_bounds start stop step \<Longrightarrow> chunk_values n start stop step = []"
  by (cases n) simp_all

lemma chunk_walk_empty [simp]: "chunk_walk n REmpty = Inr []"
  by (cases n) simp_all

lemma chunk_step:
  assumes "0 < remaining" "in_bounds start stop step"
  defines "xs \<equiv> chunk_values remaining start stop step"
  shows "\<exists>c. range_chunked_first (Range start stop step remaining) = Inr c \<and> chunk_items c = xs \<and> xs \<noteq> [] \<and>
    range_chunked_rest (Range start stop step remaining) =
      Inr (if length xs = remaining \<and> in_bounds (start + of_nat remaining * step) stop step
           then Range (start + of_nat remaining * step) stop step DEFAULT_CHUNK_SIZE else REmpty)"
proof -
  have "xs \<noteq> []" using assms(1,2) unfolding xs_def by (cases remaining) simp_all
  moreover have "length xs \<noteq> remaining \<Longrightarrow> \<not> in_bounds (start + of_nat (length xs) * step) stop step"
    using chunk_values_stop [of remaining start stop step] chunk_values_length [of remaining start stop step]
    unfolding xs_def by simp
  ultimately show ?thesis
    by (auto simp: range_chunked_first_def range_chunked_rest_def new_array_chunk_def chunk_items_def
        chunk_len_def xs_def [symmetric] step_power new_range_seq_def DEFAULT_CHUNK_SIZE_def Let_def)
qed

lemma chunk_walk_range:
  "0 < remaining \<Longrightarrow> in_bounds start stop step \<Longrightarrow>
   chunk_walk m (Range start stop step remaining) =
     Inr (chunk_values (case m of 0 \<Rightarrow> 0 | Suc k \<Rightarrow> remaining + DEFAULT_CHUNK_SIZE * k) start stop step)"
proof (induction m arbitrary: start remaining)
  case (Suc m)
  define xs where "xs = chunk_values remaining start stop step"
  define start' where "start' = start + of_nat remaining * step"
  obtain c where c: "range_chunked_first (Range start stop step remaining) = Inr c" "chunk_items c = xs"
    "range_chunked_rest (Range start stop step remaining) =
      Inr (if length xs = remaining \<and> in_bounds start' stop step
           then Range start' stop step DEFAULT_CHUNK_SIZE else REmpty)"
    using chunk_step [OF Suc.prems] unfolding xs_def start'_def by blast
  have split: "chunk_values (remaining + DEFAULT_CHUNK_SIZE * m) start stop step =
      (if length xs < remaining then xs else xs @ chunk_values (DEFAULT_CHUNK_SIZE * m) start' stop step)"
    by (simp add: chunk_values_split xs_def start'_def Let_def)
  show ?case
  proof (cases "length xs = remaining \<and> in_bounds start' stop step")
    case True
    have "chunk_walk m (Range start' stop step DEFAULT_CHUNK_SIZE) =
        Inr (chunk_values (DEFAULT_CHUNK_SIZE * m) start' stop step)"
      using Suc.IH [of DEFAULT_CHUNK_SIZE start'] True
      by (cases m) (simp_all add: DEFAULT_CHUNK_SIZE_def)
    then show ?thesis using True c split by simp
  next
    case False
    have "length xs < remaining \<or> chunk_values (DEFAULT_CHUNK_SIZE * m) start' stop step = []"
      using False chunk_values_length [of remaining start stop step] chunk_values_out
      unfolding xs_def by (metis le_neq_implies_less)
    then show ?thesis using False c split by auto
  qed
qed simp

text \<open>An integer range with a positive step has \<open>ceiling ((stop - start) / step)\<close> items.\<close>

lemma int_range_length:
  fixes start stop step :: int
  assumes "0 < step"
  shows "length (chunk_values n start (Some stop) step) = min n (nat ((stop - start + step - 1) div step))"
proof (induction n arbitrary: start)
  case (Suc n)
  show ?case
  proof (cases "start < stop")
    case True
    have "(stop - start + step - 1) div step = (stop - (start + step) + step - 1) div step + 1"
      using assms div_add_self2 [of step "stop - (start + step) + step - 1"] by (simp add: algebra_simps)
    moreover have "0 \<le> (stop - (start + step) + step - 1) div step"
      using True assms by (simp add: pos_imp_zdiv_nonneg_iff)
    ultimately show ?thesis using True assms Suc.IH [of "start + step"] by (simp add: in_bounds_def nat_add_distrib)
  next
    case False
    then have "(stop - start + step - 1) div step \<le> (step - 1) div step"
      using assms by (intro zdiv_mono1) simp_all
    then have "(stop - start + step - 1) div step \<le> 0" using assms by (simp add: div_pos_pos_trivial)
    then show ?thesis using False assms by (simp add: in_bounds_def)
  qed
qed simp

text \<open>
  A range is its arithmetic progression. Walked item by item, or chunk by chunk (the remainder of
  the first chunk and then 32 at a time), a range yields the values that its iteration yields: the
  \<open>i\<close>-th is \<open>start + i * step\<close>, all are within the bound, and if the walk stops early then the next value
  is out of bounds.
\<close>

theorem range_walks_agree:
  assumes "range_ok (Range start stop step remaining)"
  shows "walk n (Range start stop step remaining) = Inr (range_iter n (Range start stop step remaining)) \<and>
    chunk_walk (Suc m) (Range start stop step remaining) =
      Inr (range_iter (remaining + DEFAULT_CHUNK_SIZE * m) (Range start stop step remaining)) \<and>
    (\<forall>i < length (range_iter n (Range start stop step remaining)).
       range_iter n (Range start stop step remaining) ! i = start + of_nat i * step \<and>
       in_bounds (start + of_nat i * step) stop step) \<and>
    (length (range_iter n (Range start stop step remaining)) < n \<longrightarrow>
       \<not> in_bounds (start + of_nat (length (range_iter n (Range start stop step remaining))) * step) stop step)"
proof -
  have it: "range_iter k (Range start stop step remaining) = chunk_values k start stop step" for k
    by (cases k) simp_all
  show ?thesis
    unfolding it
    using assms walk_range [of start stop step remaining n] chunk_walk_range [of remaining start stop step "Suc m"]
      chunk_values_nth [of _ n start stop step] chunk_values_stop [of n start stop step]
    by simp
qed

theorem range_walks_agree_witness:
  "walk 9 (Range 0 (Some 10) 3 32) = Inr [0, 3, 6, 9 :: int] \<and>
   chunk_walk 1 (Range 0 (Some 10) 3 32) = Inr [0, 3, 6, 9 :: int]"
  using range_walks_agree [of 0 "Some 10" "3 :: int" 32 9 0]
  by (simp add: in_bounds_def DEFAULT_CHUNK_SIZE_def numeral_eq_Suc)

end
