(* ===== verification/Multifn.thy ===== *)
theory Multifn
  imports Prelude
begin

text \<open>
  Multimethods (\<open>src/src/basilisp/lang/multifn.py\<close>).

  A dispatch value is \<open>'k option\<close>, None being nil (Python's None). \<open>isa h\<close> is the function \<open>isa?\<close> of
  the core library under the hierarchy \<open>h\<close>; the value of the hierarchy reference is given to each
  operation that reads it. Iterating over the method map visits its entries in an order that is the
  parameter \<open>ord\<close>. A method is a value that is not None; \<open>truthy\<close> is what \<open>if method\<close> says of it.
\<close>

record ('k, 'm, 'h) multifn =
  mf_default :: "'k option"
  mf_methods :: "('k option \<times> 'm) list"
  mf_cache :: "('k option \<times> 'm) list"
  mf_prefers :: "('k option \<times> 'k option list) list"
  mf_hierarchy :: 'h

type_synonym ('k, 'h) isa = "'h \<Rightarrow> 'k option \<Rightarrow> 'k option \<Rightarrow> bool"
type_synonym ('k, 'm) method_order = "('k option \<times> 'm) list \<Rightarrow> ('k option \<times> 'm) list"

definition new_multifn :: "'k option \<Rightarrow> 'h \<Rightarrow> ('k, 'm, 'h) multifn" where
  "new_multifn dflt h =
     \<lparr>mf_default = dflt, mf_methods = [], mf_cache = [], mf_prefers = [], mf_hierarchy = h\<rparr>"

definition reset_cache :: "'h \<Rightarrow> ('k, 'm, 'h) multifn \<Rightarrow> ('k, 'm, 'h) multifn" where
  "reset_cache h f = f\<lparr>mf_cache := mf_methods f, mf_hierarchy := h\<rparr>"

definition has_preference :: "('k, 'm, 'h) multifn \<Rightarrow> 'k option \<Rightarrow> 'k option \<Rightarrow> bool" where
  "has_preference f preferred_key other_key =
     (case map_of (mf_prefers f) preferred_key of
        None \<Rightarrow> False
      | Some others \<Rightarrow> other_key \<in> set others)"

definition precedes ::
    "('k, 'h) isa \<Rightarrow> 'h \<Rightarrow> ('k, 'm, 'h) multifn \<Rightarrow> 'k option \<Rightarrow> 'k option \<Rightarrow> bool" where
  "precedes isa h f tag parent \<longleftrightarrow> has_preference f tag parent \<or> isa h tag parent"

definition add_method :: "'h \<Rightarrow> ('k, 'm, 'h) multifn \<Rightarrow> 'k option \<Rightarrow> 'm \<Rightarrow> ('k, 'm, 'h) multifn" where
  "add_method h f key m = reset_cache h (f\<lparr>mf_methods := AList.update key m (mf_methods f)\<rparr>)"

text \<open>The loop of \<open>_find_and_cache_method\<close>; a \<open>best_key\<close> of None is also a best key that is nil.\<close>

fun find_loop ::
    "('k, 'h) isa \<Rightarrow> 'h \<Rightarrow> ('k, 'm, 'h) multifn \<Rightarrow> 'k option \<Rightarrow> ('k option \<times> 'm) list \<Rightarrow>
     'k option \<Rightarrow> 'm option \<Rightarrow> 'm option res" where
  "find_loop isa h f key [] best_key best_method = Inr best_method"
| "find_loop isa h f key ((method_key, m) # items) best_key best_method =
     (if isa h key method_key then
        (let (best_key, best_method) =
               (if best_key = None \<or> precedes isa h f method_key best_key then (method_key, Some m)
                else (best_key, best_method))
         in if \<not> precedes isa h f best_key method_key then Inl RuntimeError
            else find_loop isa h f key items best_key best_method)
      else find_loop isa h f key items best_key best_method)"

definition find_and_cache_method ::
    "('k, 'h) isa \<Rightarrow> ('k, 'm) method_order \<Rightarrow> 'h \<Rightarrow> ('k, 'm, 'h) multifn \<Rightarrow> 'k option \<Rightarrow>
     (('k, 'm, 'h) multifn \<times> 'm option) res" where
  "find_and_cache_method isa ord h f key =
     rbind (find_loop isa h f key (ord (mf_methods f)) None None) (\<lambda>best_method.
       let best_method =
         (case best_method of None \<Rightarrow> map_of (mf_methods f) (mf_default f) | Some m \<Rightarrow> Some m)
       in Inr (case best_method of
                 None \<Rightarrow> (f, None)
               | Some m \<Rightarrow> (f\<lparr>mf_cache := AList.update key m (mf_cache f)\<rparr>, Some m)))"

definition get_method ::
    "('k, 'h) isa \<Rightarrow> ('k, 'm) method_order \<Rightarrow> 'h \<Rightarrow> ('k, 'm, 'h) multifn \<Rightarrow> 'k option \<Rightarrow>
     (('k, 'm, 'h) multifn \<times> 'm option) res" where
  "get_method isa ord h f key =
     (let f = (if mf_hierarchy f \<noteq> h then reset_cache h f else f)
      in case map_of (mf_cache f) key of
           Some m \<Rightarrow> Inr (f, Some m)
         | None \<Rightarrow> find_and_cache_method isa ord h f key)"

definition prefer_method ::
    "'h \<Rightarrow> ('k, 'm, 'h) multifn \<Rightarrow> 'k option \<Rightarrow> 'k option \<Rightarrow> ('k, 'm, 'h) multifn res" where
  "prefer_method h f preferred_key other_key =
     (if has_preference f other_key preferred_key then Inl RuntimeError
      else (let existing = (case map_of (mf_prefers f) preferred_key of None \<Rightarrow> [] | Some s \<Rightarrow> s)
            in Inr (reset_cache h
                 (f\<lparr>mf_prefers := AList.update preferred_key (List.insert other_key existing)
                                    (mf_prefers f)\<rparr>))))"

definition remove_method ::
    "('m \<Rightarrow> bool) \<Rightarrow> 'h \<Rightarrow> ('k, 'm, 'h) multifn \<Rightarrow> 'k option \<Rightarrow> ('k, 'm, 'h) multifn \<times> 'm option" where
  "remove_method truthy h f key =
     (let m = map_of (mf_methods f) key;
          f = (case m of
                 Some m \<Rightarrow> if truthy m then f\<lparr>mf_methods := AList.delete key (mf_methods f)\<rparr> else f
               | None \<Rightarrow> f)
      in (reset_cache h f, m))"

definition remove_all_methods :: "'h \<Rightarrow> ('k, 'm, 'h) multifn \<Rightarrow> ('k, 'm, 'h) multifn" where
  "remove_all_methods h f = reset_cache h (f\<lparr>mf_methods := [], mf_prefers := []\<rparr>)"

text \<open>Calling: \<open>dispatch\<close> and \<open>apply\<close> are the dispatch function and the method applied to the call.\<close>

definition mf_call ::
    "('k, 'h) isa \<Rightarrow> ('k, 'm) method_order \<Rightarrow> 'h \<Rightarrow> ('k, 'm, 'h) multifn \<Rightarrow> 'k option res \<Rightarrow>
     ('m \<Rightarrow> 'r res) \<Rightarrow> ('k, 'm, 'h) multifn \<times> 'r res" where
  "mf_call isa ord h f dispatch_value apply_method =
     (case dispatch_value of
        Inl e \<Rightarrow> (f, Inl e)
      | Inr key \<Rightarrow>
          (case get_method isa ord h f key of
             Inl e \<Rightarrow> ((if mf_hierarchy f \<noteq> h then reset_cache h f else f), Inl e)
           | Inr (f', Some m) \<Rightarrow> (f', apply_method m)
           | Inr (f', None) \<Rightarrow> (f', Inl NotImplementedError)))"

section \<open>The cache is transparent\<close>

text \<open>What a look-up means without a cache: the exact key's method, else the loop's choice.\<close>

definition mf_resolve ::
    "('k, 'h) isa \<Rightarrow> ('k, 'm) method_order \<Rightarrow> 'h \<Rightarrow> ('k, 'm, 'h) multifn \<Rightarrow> 'k option \<Rightarrow> 'm option res" where
  "mf_resolve isa ord h f key =
     (case map_of (mf_methods f) key of
        Some m \<Rightarrow> Inr (Some m)
      | None \<Rightarrow>
          rbind (find_loop isa h f key (ord (mf_methods f)) None None) (\<lambda>best.
            Inr (case best of None \<Rightarrow> map_of (mf_methods f) (mf_default f) | Some m \<Rightarrow> Some m)))"

definition cache_ok :: "('k, 'h) isa \<Rightarrow> ('k, 'm) method_order \<Rightarrow> ('k, 'm, 'h) multifn \<Rightarrow> bool" where
  "cache_ok isa ord f \<longleftrightarrow>
     (\<forall>k m. map_of (mf_methods f) k = Some m \<longrightarrow> map_of (mf_cache f) k = Some m) \<and>
     (\<forall>k m. map_of (mf_cache f) k = Some m \<longrightarrow> mf_resolve isa ord (mf_hierarchy f) f k = Inr (Some m))"

lemma find_loop_cong:
  assumes "mf_prefers f = mf_prefers g"
  shows "find_loop isa h f key items bk bm = find_loop isa h g key items bk bm"
proof -
  have "precedes isa h f = precedes isa h g"
    using assms by (simp add: precedes_def has_preference_def fun_eq_iff)
  then show ?thesis by (induction items arbitrary: bk bm) (auto simp: Let_def)
qed

lemma mf_resolve_cong:
  assumes "mf_prefers f = mf_prefers g" "mf_methods f = mf_methods g" "mf_default f = mf_default g"
  shows "mf_resolve isa ord h f k = mf_resolve isa ord h g k"
  unfolding mf_resolve_def assms(2,3) find_loop_cong [OF assms(1)] ..

lemma cache_ok_reset: "cache_ok isa ord (reset_cache h f)"
  by (simp add: cache_ok_def reset_cache_def mf_resolve_def)

datatype ('k, 'm) mf_op =
    AddMethod "'k option" 'm
  | PreferMethod "'k option" "'k option"
  | RemoveMethod "'k option"
  | RemoveAll
  | GetMethod "'k option"

text \<open>One operation at a time at which the hierarchy is \<open>h\<close>; an exception leaves what was set before it.\<close>

fun mf_step ::
    "('m \<Rightarrow> bool) \<Rightarrow> ('k, 'h) isa \<Rightarrow> ('k, 'm) method_order \<Rightarrow> ('k, 'm, 'h) multifn \<Rightarrow> 'h \<times> ('k, 'm) mf_op \<Rightarrow>
     ('k, 'm, 'h) multifn" where
  "mf_step truthy isa ord f (h, AddMethod k m) = add_method h f k m"
| "mf_step truthy isa ord f (h, PreferMethod a b) =
     (case prefer_method h f a b of Inl e \<Rightarrow> f | Inr f' \<Rightarrow> f')"
| "mf_step truthy isa ord f (h, RemoveMethod k) = fst (remove_method truthy h f k)"
| "mf_step truthy isa ord f (h, RemoveAll) = remove_all_methods h f"
| "mf_step truthy isa ord f (h, GetMethod k) =
     fst (mf_call isa ord h f (Inr k) (\<lambda>m. Inr ()))"

lemma reset_same: "mf_resolve isa ord h (reset_cache h' f) k = mf_resolve isa ord h f k"
  by (rule mf_resolve_cong) (simp_all add: reset_cache_def)

lemma get_method_resolve:
  assumes "cache_ok isa ord f"
  shows "case get_method isa ord h f key of
      Inl e \<Rightarrow> mf_resolve isa ord h f key = Inl e
    | Inr (f', r) \<Rightarrow> mf_resolve isa ord h f key = Inr r \<and> cache_ok isa ord f'"
proof -
  define g where "g = (if mf_hierarchy f \<noteq> h then reset_cache h f else f)"
  have g: "cache_ok isa ord g" "mf_hierarchy g = h" "mf_resolve isa ord h g k = mf_resolve isa ord h f k" for k
    using assms by (cases "mf_hierarchy f = h"; simp add: g_def cache_ok_reset reset_same; simp add: reset_cache_def)+
  have get: "get_method isa ord h f key = (case map_of (mf_cache g) key of
      Some m \<Rightarrow> Inr (g, Some m) | None \<Rightarrow> find_and_cache_method isa ord h g key)"
    unfolding get_method_def Let_def g_def ..
  show ?thesis
  proof (cases "map_of (mf_cache g) key")
    case (Some m)
    then have "mf_resolve isa ord h g key = Inr (Some m)" using g(1,2) by (auto simp: cache_ok_def)
    then show ?thesis using Some g(1,3) by (simp add: get)
  next
    case None
    then have exact: "map_of (mf_methods g) key = None"
      using g(1) unfolding cache_ok_def by (metis not_Some_eq)
    show ?thesis
    proof (cases "mf_resolve isa ord h g key")
      case (Inl e)
      then have "find_and_cache_method isa ord h g key = Inl e"
        using exact by (cases "find_loop isa h g key (ord (mf_methods g)) None None")
          (auto simp: mf_resolve_def find_and_cache_method_def)
      then show ?thesis using None Inl g(3) by (simp add: get)
    next
      case (Inr r)
      then have find: "find_and_cache_method isa ord h g key = Inr (case r of
          None \<Rightarrow> (g, None) | Some m \<Rightarrow> (g\<lparr>mf_cache := AList.update key m (mf_cache g)\<rparr>, Some m))"
        using exact by (cases "find_loop isa h g key (ord (mf_methods g)) None None")
          (auto simp: mf_resolve_def find_and_cache_method_def Let_def)
      show ?thesis
      proof (cases r)
        case None
        then show ?thesis using find Inr g(1,3) \<open>map_of (mf_cache g) key = None\<close> by (simp add: get)
      next
        case (Some m)
        define g' where "g' = g\<lparr>mf_cache := AList.update key m (mf_cache g)\<rparr>"
        have same: "mf_resolve isa ord h g' k = mf_resolve isa ord h g k" for k
          by (rule mf_resolve_cong) (simp_all add: g'_def)
        have "cache_ok isa ord g'"
          unfolding cache_ok_def
        proof (intro conjI allI impI)
          fix k u assume "map_of (mf_methods g') k = Some u"
          then show "map_of (mf_cache g') k = Some u"
            using g(1) exact by (auto simp: g'_def cache_ok_def update_conv')
        next
          fix k u assume "map_of (mf_cache g') k = Some u"
          then have "mf_resolve isa ord h g k = Inr (Some u)"
            using g(1,2) Inr Some by (auto simp: g'_def cache_ok_def update_conv' split: if_splits)
          then show "mf_resolve isa ord (mf_hierarchy g') g' k = Inr (Some u)"
            using same g(2) by (simp add: g'_def)
        qed
        then show ?thesis
          using find Inr g(3) Some \<open>map_of (mf_cache g) key = None\<close> by (simp add: get g'_def)
      qed
    qed
  qed
qed

lemma mf_step_ok: "cache_ok isa ord f \<Longrightarrow> cache_ok isa ord (mf_step truthy isa ord f hop)"
proof (induction truthy isa ord f hop rule: mf_step.induct)
  case (5 truthy isa ord f h k)
  then show ?case
    using get_method_resolve [of isa ord f h k] cache_ok_reset [of isa ord h f]
    by (auto simp: mf_call_def split: sum.splits prod.splits option.splits)
qed (auto simp: add_method_def prefer_method_def remove_method_def remove_all_methods_def cache_ok_reset Let_def
    split: sum.splits if_splits)

text \<open>
  C34: the method cache is transparent. Whatever methods were added, removed and preferred, however
  the hierarchy changed on the way and whichever values were looked up in between, a call
  dispatches as it would without a cache: to the method of the exact value, else to the one the
  search through the method table chooses under the current hierarchy, else to the default's; it
  raises when the search does, and NotImplementedError when there is no method.
\<close>

theorem multifn_cache_transparent:
  "snd (mf_call isa ord h (foldl (mf_step truthy isa ord) (new_multifn dflt h0) ops) (Inr key) apply_method) =
    rbind (mf_resolve isa ord h (foldl (mf_step truthy isa ord) (new_multifn dflt h0) ops) key)
      (\<lambda>r. case r of None \<Rightarrow> Inl NotImplementedError | Some m \<Rightarrow> apply_method m)"
proof -
  have "cache_ok isa ord (new_multifn dflt h0)"
    by (simp add: cache_ok_def new_multifn_def)
  then have "cache_ok isa ord (foldl (mf_step truthy isa ord) (new_multifn dflt h0) ops)"
    by (induction ops rule: rev_induct) (simp_all add: mf_step_ok)
  from get_method_resolve [OF this, of h key] show ?thesis
    by (auto simp: mf_call_def split: sum.splits prod.splits option.splits)
qed

section \<open>Which method is chosen\<close>

lemma find_loop_best:
  assumes b: "b \<in> M" "isa h key b" and M: "\<And>x. x \<in> M \<Longrightarrow> x \<noteq> None"
    and best: "\<And>x. x \<in> M \<Longrightarrow> precedes isa h f b x" "\<And>x. x \<in> M \<Longrightarrow> x \<noteq> b \<Longrightarrow> \<not> precedes isa h f x b"
  shows "\<forall>x \<in> fst ` set items. isa h key x \<longrightarrow> x \<in> M \<Longrightarrow> distinct (map fst items) \<Longrightarrow>
    (bk = b \<and> bm = Some m \<and> b \<notin> fst ` set items) \<or>
    ((bk = None \<and> bm = None \<or> bk \<in> M \<and> bk \<noteq> b) \<and> (b, m) \<in> set items) \<Longrightarrow>
    find_loop isa h f key items bk bm = Inr (Some m) \<or>
    find_loop isa h f key items bk bm = Inl RuntimeError \<and>
      (\<exists>x \<in> M. \<exists>y \<in> M. \<not> precedes isa h f x y \<and> \<not> precedes isa h f y x)"
proof (induction items arbitrary: bk bm)
  case (Cons p items)
  obtain k n where p: "p = (k, n)" by (cases p)
  show ?case
  proof (cases "isa h key k")
    case False
    then have "k \<noteq> b" using b(2) by auto
    then show ?thesis using Cons.prems False by (simp add: p) (rule Cons.IH, auto)
  next
    case True
    then have k: "k \<in> M" using Cons.prems(1) by (simp add: p)
    define bk' bm' where "bk' = (if bk = None \<or> precedes isa h f k bk then k else bk)"
      and "bm' = (if bk = None \<or> precedes isa h f k bk then Some n else bm)"
    have loop: "find_loop isa h f key (p # items) bk bm =
        (if \<not> precedes isa h f bk' k then Inl RuntimeError else find_loop isa h f key items bk' bm')"
      using True by (simp add: p bk'_def bm'_def)
    show ?thesis
    proof (cases "precedes isa h f bk' k")
      case ok: False
      have "bk' \<in> M" using k Cons.prems(3) b(1) by (auto simp: bk'_def)
      moreover have "\<not> precedes isa h f k bk'"
        using ok k M by (auto simp: bk'_def split: if_splits)
      ultimately show ?thesis using ok k unfolding loop by auto
    next
      case ok: True
      have "(bk' = b \<and> bm' = Some m \<and> b \<notin> fst ` set items) \<or>
          ((bk' = None \<and> bm' = None \<or> bk' \<in> M \<and> bk' \<noteq> b) \<and> (b, m) \<in> set items)"
      proof (cases "k = b")
        case True
        then have "n = m" "bk = None \<or> bk \<in> M \<and> bk \<noteq> b" "b \<notin> fst ` set items"
          using Cons.prems(2,3) by (force simp: p)+
        moreover have "bk = None \<or> precedes isa h f k bk" using calculation(2) best(1) True by auto
        ultimately show ?thesis using True by (simp add: bk'_def bm'_def)
      next
        case ne: False
        show ?thesis
        proof (cases "bk = b")
          case True
          then have "bm = Some m" "b \<notin> fst ` set items" using Cons.prems(3) M b(1) ne by (auto simp: p)
          moreover have "\<not> (bk = None \<or> precedes isa h f k bk)" using True best(2) [OF k ne] M b(1) by auto
          ultimately show ?thesis using True by (auto simp: bk'_def bm'_def)
        next
          case False
          then show ?thesis using Cons.prems(3) ne k M b(1) by (auto simp: p bk'_def bm'_def)
        qed
      qed
      then show ?thesis
        using Cons.IH [of bk' bm'] Cons.prems(1,2) ok unfolding loop by (simp add: p)
    qed
  qed
qed auto

text \<open>
  Dispatch chooses the preferred method. Where no method is registered for the exact value and one of
  the (non-nil) matching keys precedes all the others, by preference or by \<open>isa?\<close>, and none of them
  precedes it, the search chooses its method in every order of the table, or else raises because
  two of the matching keys are unordered; so when the matching keys are pairwise ordered it is
  always the one chosen.
\<close>

theorem dispatch_chooses_best:
  assumes "distinct (map fst (mf_methods f))" "set (ord (mf_methods f)) = set (mf_methods f)"
    and "distinct (map fst (ord (mf_methods f)))" "map_of (mf_methods f) key = None"
    and "M = {x \<in> fst ` set (mf_methods f). isa h key x}" "None \<notin> M" "(b, m) \<in> set (mf_methods f)" "b \<in> M"
    and "\<forall>x \<in> M. precedes isa h f b x \<and> (x \<noteq> b \<longrightarrow> \<not> precedes isa h f x b)"
  shows "mf_resolve isa ord h f key = Inr (Some m) \<or>
    mf_resolve isa ord h f key = Inl RuntimeError \<and>
      (\<exists>x \<in> M. \<exists>y \<in> M. \<not> precedes isa h f x y \<and> \<not> precedes isa h f y x)"
proof -
  have "find_loop isa h f key (ord (mf_methods f)) None None = Inr (Some m) \<or>
    find_loop isa h f key (ord (mf_methods f)) None None = Inl RuntimeError \<and>
      (\<exists>x \<in> M. \<exists>y \<in> M. \<not> precedes isa h f x y \<and> \<not> precedes isa h f y x)"
  proof (rule find_loop_best [of b M])
    show "x \<noteq> None" if "x \<in> M" for x using that assms(6) by metis
    show "b \<in> M" "isa h key b" using assms(5,8) by auto
    show "precedes isa h f b x" if "x \<in> M" for x using that assms(9) by blast
    show "\<not> precedes isa h f x b" if "x \<in> M" "x \<noteq> b" for x using that assms(9) by blast
    show "\<forall>x \<in> fst ` set (ord (mf_methods f)). isa h key x \<longrightarrow> x \<in> M" using assms(2,5) by simp
    show "distinct (map fst (ord (mf_methods f)))" by (rule assms(3))
  qed (use assms(2,7) in simp)
  then show ?thesis using assms(4) by (auto simp: mf_resolve_def)
qed

text \<open>Three keys of which 2 is preferred to both others, which are unordered.\<close>

definition demo_multifn :: "(nat, string, unit) multifn" where
  "demo_multifn = \<lparr>mf_default = None, mf_methods = [(Some 1, ''one''), (Some 2, ''two''), (Some 3, ''three'')],
     mf_cache = [], mf_prefers = [(Some 2, [Some 1, Some 3])], mf_hierarchy = ()\<rparr>"

definition demo_isa :: "unit \<Rightarrow> nat option \<Rightarrow> nat option \<Rightarrow> bool" where
  "demo_isa h x y \<longleftrightarrow> x = y \<or> x = Some 0"

theorem dispatch_chooses_best_witness:
  "mf_resolve demo_isa (\<lambda>ms. ms) () demo_multifn (Some 0) = Inr (Some ''two'') \<or>
   mf_resolve demo_isa (\<lambda>ms. ms) () demo_multifn (Some 0) = Inl RuntimeError"
  using dispatch_chooses_best [of demo_multifn "\<lambda>ms. ms" "Some 0" "{Some 1, Some 2, Some 3}" demo_isa "()"
      "Some 2" "''two''"]
  by (auto simp: demo_multifn_def demo_isa_def precedes_def has_preference_def)

text \<open>
  Whether a call is ambiguous depends on the order of the method table. With key 2 preferred to
  keys 1 and 3 and these two unordered, a call that matches all three dispatches to 2's method when
  the table is visited as 2, 1, 3, and raises when it is visited as 1, 3, 2.
\<close>

theorem dispatch_depends_on_order:
  "mf_resolve demo_isa (\<lambda>ms. [ms ! 1, ms ! 0, ms ! 2]) () demo_multifn (Some 0) = Inr (Some ''two'') \<and>
   mf_resolve demo_isa (\<lambda>ms. [ms ! 0, ms ! 2, ms ! 1]) () demo_multifn (Some 0) = Inl RuntimeError"
  by (simp add: mf_resolve_def demo_multifn_def demo_isa_def precedes_def has_preference_def Let_def)

end
