(* ===== verification/Maps.thy ===== *)
theory Maps
  imports Equality PVector Hashing
begin

text \<open>
  Persistent hash maps and their transients (\<open>src/src/basilisp/lang/map.py\<close>).

  The map type of the package \<open>immutables\<close> is not part of the program: it is the parameter
  \<open>H\<close>, a record of the operations the code uses. What the code relies on is the locale
  \<open>hash_map\<close>: the operations are those of a dictionary, in no particular order. A \<open>mutate\<close>
  block works on a private copy until \<open>finish\<close>, so it is a sequence of updates.

  Keys are Python values, values have any type \<open>'v\<close> (\<open>nil\<close> is its None), metadata any type.
\<close>

section \<open>The underlying map\<close>

record ('m, 'a, 'v) hamt =
  h_empty :: 'm
  h_get :: "'m \<Rightarrow> 'a storage_key \<Rightarrow> 'v option"
  h_set :: "'a storage_key \<Rightarrow> 'v \<Rightarrow> 'm \<Rightarrow> 'm"
  h_del :: "'a storage_key \<Rightarrow> 'm \<Rightarrow> 'm"
  h_items :: "'m \<Rightarrow> ('a storage_key \<times> 'v) list"

text \<open>\<open>_Map(pairs)\<close>, \<open>k in m\<close>, \<open>len(m)\<close>, and \<open>del m[k]\<close> under \<open>except KeyError: pass\<close>.\<close>

definition h_of :: "('m, 'a, 'v) hamt \<Rightarrow> ('a storage_key \<times> 'v) list \<Rightarrow> 'm" where
  "h_of H kvs = foldl (\<lambda>m (k, v). h_set H k v m) (h_empty H) kvs"

definition h_has :: "('m, 'a, 'v) hamt \<Rightarrow> 'm \<Rightarrow> 'a storage_key \<Rightarrow> bool" where
  "h_has H m k \<longleftrightarrow> h_get H m k \<noteq> None"

definition h_len :: "('m, 'a, 'v) hamt \<Rightarrow> 'm \<Rightarrow> nat" where
  "h_len H m = length (h_items H m)"

definition h_discard :: "('m, 'a, 'v) hamt \<Rightarrow> 'a storage_key \<Rightarrow> 'm \<Rightarrow> 'm" where
  "h_discard H k m = (if h_has H m k then h_del H k m else m)"

text \<open>\<open>equivalence_key\<close> leaves a storage key as it is.\<close>

fun to_key :: "'a storage_key \<Rightarrow> 'a storage_key" where
  "to_key (Raw v) = equivalence_key v"
| "to_key (EquivalenceKey v f) = EquivalenceKey v f"

section \<open>Persistent maps\<close>

record ('m, 'md) persistent_map =
  pm_inner :: 'm
  pm_meta :: "'md option"

text \<open>The constructor stores every key again under its storage key.\<close>

definition new_map :: "('m, 'a, 'v) hamt \<Rightarrow> 'm \<Rightarrow> 'md option \<Rightarrow> ('m, 'md) persistent_map" where
  "new_map H m md = \<lparr>pm_inner = h_of H (map (apfst to_key) (h_items H m)), pm_meta = md\<rparr>"

definition from_coll ::
    "('m, 'a, 'v) hamt \<Rightarrow> ('a pyval \<times> 'v) list \<Rightarrow> 'md option \<Rightarrow> ('m, 'md) persistent_map" where
  "from_coll H members md = new_map H (h_of H (map (apfst equivalence_key) members)) md"

definition EMPTY_MAP :: "('m, 'a, 'v) hamt \<Rightarrow> ('m, 'md) persistent_map" where
  "EMPTY_MAP H = from_coll H [] None"

definition map_val_at :: "('m, 'a, 'v) hamt \<Rightarrow> ('m, 'md) persistent_map \<Rightarrow> 'a pyval \<Rightarrow> 'v \<Rightarrow> 'v" where
  "map_val_at H m k dflt =
     (case h_get H (pm_inner m) (equivalence_key k) of None \<Rightarrow> dflt | Some v \<Rightarrow> v)"

definition map_contains :: "('m, 'a, 'v) hamt \<Rightarrow> ('m, 'md) persistent_map \<Rightarrow> 'a pyval \<Rightarrow> bool" where
  "map_contains H m k = h_has H (pm_inner m) (equivalence_key k)"

definition map_getitem :: "('m, 'a, 'v) hamt \<Rightarrow> ('m, 'md) persistent_map \<Rightarrow> 'a pyval \<Rightarrow> 'v res" where
  "map_getitem H m k =
     (case h_get H (pm_inner m) (equivalence_key k) of None \<Rightarrow> Inl KeyError | Some v \<Rightarrow> Inr v)"

definition map_entry ::
    "('m, 'a, 'v) hamt \<Rightarrow> ('m, 'md) persistent_map \<Rightarrow> 'a pyval \<Rightarrow> ('a pyval \<times> 'v) option" where
  "map_entry H m k =
     (let storage_key = equivalence_key k in
      case h_get H (pm_inner m) storage_key of
        None \<Rightarrow> None | Some v \<Rightarrow> Some (public_key storage_key, v))"

definition public_items :: "('a storage_key \<times> 'v) list \<Rightarrow> ('a pyval \<times> 'v) list" where
  "public_items kvs = map (apfst public_key) kvs"

definition map_items :: "('m, 'a, 'v) hamt \<Rightarrow> ('m, 'md) persistent_map \<Rightarrow> ('a pyval \<times> 'v) list" where
  "map_items H m = public_items (h_items H (pm_inner m))"

definition map_len :: "('m, 'a, 'v) hamt \<Rightarrow> ('m, 'md) persistent_map \<Rightarrow> nat" where
  "map_len H m = h_len H (pm_inner m)"

definition map_seq ::
    "('m, 'a, 'v) hamt \<Rightarrow> ('m, 'md) persistent_map \<Rightarrow> ('a pyval \<times> 'v) list option" where
  "map_seq H m = (if h_len H (pm_inner m) = 0 then None else Some (map_items H m))"

text \<open>\<open>==\<close> of two maps.\<close>

definition map_eq ::
    "('m, 'a, 'a pyval) hamt \<Rightarrow> ('m, 'md) persistent_map \<Rightarrow> ('m, 'md) persistent_map \<Rightarrow> bool" where
  "map_eq H m other \<longleftrightarrow>
     map_len H m = map_len H other \<and>
     list_all (\<lambda>(k, _). map_contains H other k \<and>
        (case (map_getitem H m k, map_getitem H other k) of
           (Inr a, Inr b) \<Rightarrow> numeric_equiv a b | _ \<Rightarrow> False)) (map_items H m)"

text \<open>
  The hash: \<open>hash_unordered\<close> over the entries, each hashed by \<open>clojure_hash\<close> as a map entry. What
  \<open>clojure_hash\<close> sees of a key or a value is a parameter.
\<close>

definition map_hash ::
    "('m, 'a, 'v) hamt \<Rightarrow> ('a pyval \<Rightarrow> hval) \<Rightarrow> ('v \<Rightarrow> hval) \<Rightarrow> ('m, 'md) persistent_map \<Rightarrow> int" where
  "map_hash H key_view value_view m =
     hash_unordered (map (\<lambda>(k, v). clojure_hash (HEntry (key_view k) (value_view v))) (map_items H m))"

definition map_with_meta ::
    "('m, 'a, 'v) hamt \<Rightarrow> ('m, 'md) persistent_map \<Rightarrow> 'md option \<Rightarrow> ('m, 'md) persistent_map" where
  "map_with_meta H m md = new_map H (pm_inner m) md"

definition map_empty :: "('m, 'a, 'v) hamt \<Rightarrow> ('m, 'md) persistent_map \<Rightarrow> ('m, 'md) persistent_map" where
  "map_empty H m = map_with_meta H (EMPTY_MAP H) (pm_meta m)"

text \<open>
  Arguments \<open>k1, v1, k2, v2, ...\<close>: the pairs, and the key left over when their number is odd.
  \<open>partition\<close> yields the pairs and then that key alone, which does not unpack into two.
\<close>

type_synonym ('a, 'v) kvs = "('a pyval \<times> 'v) list \<times> 'a pyval option"

definition h_assoc :: "('m, 'a, 'v) hamt \<Rightarrow> ('a pyval \<times> 'v) list \<Rightarrow> 'm \<Rightarrow> 'm" where
  "h_assoc H pairs m = foldl (\<lambda>m (k, v). h_set H (equivalence_key k) v m) m pairs"

definition h_dissoc :: "('m, 'a, 'v) hamt \<Rightarrow> 'a pyval list \<Rightarrow> 'm \<Rightarrow> 'm" where
  "h_dissoc H ks m = foldl (\<lambda>m k. h_discard H (equivalence_key k) m) m ks"

definition hash_map_assoc ::
    "('m, 'a, 'v) hamt \<Rightarrow> ('m, 'md) persistent_map \<Rightarrow> ('a, 'v) kvs \<Rightarrow> ('m, 'md) persistent_map res" where
  "hash_map_assoc H m kvs =
     (case kvs of (pairs, Some _) \<Rightarrow> Inl ValueError
      | (pairs, None) \<Rightarrow> Inr (new_map H (h_assoc H pairs (pm_inner m)) (pm_meta m)))"

definition hash_map_dissoc ::
    "('m, 'a, 'v) hamt \<Rightarrow> ('m, 'md) persistent_map \<Rightarrow> 'a pyval list \<Rightarrow> ('m, 'md) persistent_map" where
  "hash_map_dissoc H m ks = new_map H (h_dissoc H ks (pm_inner m)) (pm_meta m)"

text \<open>\<open>update\<close> and \<open>update_with\<close>; a map argument is the list of its items.\<close>

definition map_update ::
    "('m, 'a, 'v) hamt \<Rightarrow> ('m, 'md) persistent_map \<Rightarrow> ('a pyval \<times> 'v) list list \<Rightarrow>
     ('m, 'md) persistent_map" where
  "map_update H m maps =
     new_map H (foldl (\<lambda>m items. h_assoc H items m) (pm_inner m) maps) (pm_meta m)"

definition h_merge :: "('m, 'a, 'v) hamt \<Rightarrow> ('v \<Rightarrow> 'v \<Rightarrow> 'v) \<Rightarrow> ('a pyval \<times> 'v) list \<Rightarrow> 'm \<Rightarrow> 'm" where
  "h_merge H merge_fn items m =
     foldl (\<lambda>m (k, v). let storage_key = equivalence_key k in
        h_set H storage_key (case h_get H m storage_key of Some w \<Rightarrow> merge_fn w v | None \<Rightarrow> v) m) m items"

definition map_update_with ::
    "('m, 'a, 'v) hamt \<Rightarrow> ('m, 'md) persistent_map \<Rightarrow> ('v \<Rightarrow> 'v \<Rightarrow> 'v) \<Rightarrow> ('a pyval \<times> 'v) list list \<Rightarrow>
     ('m, 'md) persistent_map" where
  "map_update_with H m merge_fn maps =
     new_map H (foldl (\<lambda>m items. h_merge H merge_fn items m) (pm_inner m) maps) (pm_meta m)"

text \<open>
  The arguments of \<open>conj\<close>: a map, a map entry, None, a vector, tuple or list (with its pair, if
  it has two elements), any other object with a length (a string, a set), or anything else.
\<close>

datatype ('a, 'v) conj_arg =
    MapArg "('a pyval \<times> 'v) list"
  | EntryArg "'a pyval" 'v
  | NoneArg
  | VecArg "('a pyval \<times> 'v) option"
  | SizedArg "('a pyval \<times> 'v) option"
  | OtherArg

fun entry_from_vector_arg :: "('a, 'v) conj_arg \<Rightarrow> ('a pyval \<times> 'v) res" where
  "entry_from_vector_arg (VecArg (Some kv)) = Inr kv"
| "entry_from_vector_arg (VecArg None) = Inl ValueError"
| "entry_from_vector_arg _ = Inl TypeError"

text \<open>\<open>MapEntry.from_vec\<close>, which asks for a length of two only.\<close>

fun entry_from_vec :: "('a, 'v) conj_arg \<Rightarrow> ('a pyval \<times> 'v) res" where
  "entry_from_vec (VecArg (Some kv)) = Inr kv"
| "entry_from_vec (SizedArg (Some kv)) = Inr kv"
| "entry_from_vec (VecArg None) = Inl ValueError"
| "entry_from_vec (SizedArg None) = Inl ValueError"
| "entry_from_vec _ = Inl TypeError"

text \<open>\<open>except (TypeError, ValueError) as e: raise ValueError\<close>.\<close>

definition conj_error :: "'b res \<Rightarrow> 'b res" where
  "conj_error r = (case r of Inl e \<Rightarrow> Inl (if e \<in> {TypeError, ValueError} then ValueError else e) | Inr x \<Rightarrow> Inr x)"

fun h_conj :: "('m, 'a, 'v) hamt \<Rightarrow> 'm \<Rightarrow> ('a, 'v) conj_arg \<Rightarrow> 'm res" where
  "h_conj H m (MapArg items) = Inr (h_assoc H items m)"
| "h_conj H m (EntryArg k v) = Inr (h_set H (equivalence_key k) v m)"
| "h_conj H m NoneArg = Inr m"
| "h_conj H m elem =
     rbind (entry_from_vector_arg elem) (\<lambda>(k, v). Inr (h_set H (equivalence_key k) v m))"

definition map_cons ::
    "('m, 'a, 'v) hamt \<Rightarrow> ('m, 'md) persistent_map \<Rightarrow> ('a, 'v) conj_arg list \<Rightarrow>
     ('m, 'md) persistent_map res" where
  "map_cons H m elems =
     rbind (conj_error (foldM (h_conj H) (pm_inner m) elems)) (\<lambda>inner. Inr (new_map H inner (pm_meta m)))"

fun kv_reduce :: "('s \<Rightarrow> 'k \<Rightarrow> 'v \<Rightarrow> 's reduction) \<Rightarrow> 's \<Rightarrow> ('k \<times> 'v) list \<Rightarrow> 's" where
  "kv_reduce f init [] = init"
| "kv_reduce f init ((k, v) # kvs) =
     (case f init k v of Reduced y \<Rightarrow> y | Running y \<Rightarrow> kv_reduce f y kvs)"

definition map_reduce_kv ::
    "('m, 'a, 'v) hamt \<Rightarrow> ('m, 'md) persistent_map \<Rightarrow> ('s \<Rightarrow> 'a pyval \<Rightarrow> 'v \<Rightarrow> 's reduction) \<Rightarrow> 's \<Rightarrow> 's" where
  "map_reduce_kv H m f init = kv_reduce f init (map_items H m)"

text \<open>\<open>from_entries\<close> and \<open>hash_map\<close>.\<close>

definition from_entries :: "('m, 'a, 'v) hamt \<Rightarrow> ('a pyval \<times> 'v) list \<Rightarrow> ('m, 'md) persistent_map" where
  "from_entries H entries = new_map H (h_assoc H entries (h_empty H)) None"

definition make_hash_map :: "('m, 'a, 'v) hamt \<Rightarrow> ('a, 'v) kvs \<Rightarrow> ('m, 'md) persistent_map res" where
  "make_hash_map H kvs =
     (case kvs of (pairs, Some _) \<Rightarrow> Inl ValueError | (pairs, None) \<Rightarrow> Inr (from_entries H pairs))"

section \<open>Transient maps\<close>

text \<open>
  A transient is its evolver, changed in place: an operation that raises has kept the changes
  it made before, so it returns the evolver with its result.
\<close>

definition map_to_transient :: "('m, 'md) persistent_map \<Rightarrow> 'm" where
  "map_to_transient m = pm_inner m"

definition map_assoc_transient :: "('m, 'a, 'v) hamt \<Rightarrow> 'v \<Rightarrow> 'm \<Rightarrow> ('a, 'v) kvs \<Rightarrow> 'm" where
  "map_assoc_transient H nil m kvs =
     (case kvs of (pairs, odd_key) \<Rightarrow>
        let m' = h_assoc H pairs m in
        (case odd_key of None \<Rightarrow> m' | Some k \<Rightarrow> h_set H (equivalence_key k) nil m'))"

definition map_dissoc_transient :: "('m, 'a, 'v) hamt \<Rightarrow> 'm \<Rightarrow> 'a pyval list \<Rightarrow> 'm" where
  "map_dissoc_transient H m ks = h_dissoc H ks m"

fun conj_in_place :: "('m, 'a, 'v) hamt \<Rightarrow> 'm \<Rightarrow> ('a, 'v) conj_arg list \<Rightarrow> 'm \<times> py_error option" where
  "conj_in_place H m [] = (m, None)"
| "conj_in_place H m (elem # elems) =
     (case h_conj H m elem of Inl e \<Rightarrow> (m, Some e) | Inr m' \<Rightarrow> conj_in_place H m' elems)"

definition map_cons_transient ::
    "('m, 'a, 'v) hamt \<Rightarrow> 'm \<Rightarrow> ('a, 'v) conj_arg list \<Rightarrow> 'm \<times> py_error option" where
  "map_cons_transient H m elems =
     (case conj_in_place H m elems of (m', e) \<Rightarrow>
        (m', map_option (\<lambda>e. if e \<in> {TypeError, ValueError} then ValueError else e) e))"

definition map_to_persistent :: "('m, 'a, 'v) hamt \<Rightarrow> 'm \<Rightarrow> ('m, 'md) persistent_map" where
  "map_to_persistent H m = new_map H m None"

definition tmap_val_at :: "('m, 'a, 'v) hamt \<Rightarrow> 'm \<Rightarrow> 'a pyval \<Rightarrow> 'v \<Rightarrow> 'v" where
  "tmap_val_at H m k dflt = (case h_get H m (equivalence_key k) of None \<Rightarrow> dflt | Some v \<Rightarrow> v)"

definition tmap_contains :: "('m, 'a, 'v) hamt \<Rightarrow> 'm \<Rightarrow> 'a pyval \<Rightarrow> bool" where
  "tmap_contains H m k = h_has H m (equivalence_key k)"

definition tmap_entry :: "('m, 'a, 'v) hamt \<Rightarrow> 'm \<Rightarrow> 'a pyval \<Rightarrow> ('a pyval \<times> 'v) option" where
  "tmap_entry H m k =
     (let storage_key = equivalence_key k in
      case h_get H m storage_key of None \<Rightarrow> None | Some v \<Rightarrow> Some (public_key storage_key, v))"

end
