(* ===== verification/MapLaws.thy ===== *)
theory MapLaws
  imports Maps
begin

text \<open>
  What the hash maps of Maps.thy promise: the contract \<open>hash_map\<close> of the underlying map, and the
  finite map from values up to \<open>=\<close> that every program of map operations computes.
\<close>

section \<open>The contract of the underlying map\<close>

text \<open>The first entry whose key equals \<open>k\<close>.\<close>

fun find_key :: "'a storage_key \<Rightarrow> ('a storage_key \<times> 'v) list \<Rightarrow> 'v option" where
  "find_key k [] = None"
| "find_key k ((k', v) # kvs) = (if key_eq k' k then Some v else find_key k kvs)"

text \<open>The equality of storage keys as that of the triples they stand for.\<close>

fun key_id :: "'a storage_key \<Rightarrow> family option \<times> family option \<times> 'a host" where
  "key_id (Raw v) = (None, None, host_of v)"
| "key_id (EquivalenceKey v f) = (Some f, numeric_family v, host_of v)"

lemma key_eq_id: "key_eq a b \<longleftrightarrow> key_id a = key_id b"
  by (cases a; cases b) (auto simp: numeric_equiv_def py_eq_def)

locale hash_map =
  fixes H :: "('m, 'a, 'v) hamt" and ok :: "'m \<Rightarrow> bool"
  assumes ok_empty: "ok (h_empty H)"
    and ok_set: "ok m \<Longrightarrow> ok (h_set H k v m)"
    and ok_del: "ok m \<Longrightarrow> h_get H m k \<noteq> None \<Longrightarrow> ok (h_del H k m)"
    and get_items: "ok m \<Longrightarrow> h_get H m k = find_key k (h_items H m)"
    and distinct_items: "ok m \<Longrightarrow> distinct (map (\<lambda>kv. key_id (fst kv)) (h_items H m))"
    and items_empty: "h_items H (h_empty H) = []"
    and get_set: "ok m \<Longrightarrow> h_get H (h_set H k v m) k' = (if key_eq k k' then Some v else h_get H m k')"
    and get_del: "ok m \<Longrightarrow> h_get H m k \<noteq> None \<Longrightarrow>
      h_get H (h_del H k m) k' = (if key_eq k k' then None else h_get H m k')"
    and keys_set: "ok m \<Longrightarrow> fst ` set (h_items H (h_set H k v m)) \<subseteq> insert k (fst ` set (h_items H m))"
    and keys_del: "ok m \<Longrightarrow> h_get H m k \<noteq> None \<Longrightarrow>
      fst ` set (h_items H (h_del H k m)) \<subseteq> fst ` set (h_items H m)"

text \<open>The contract holds of an association list.\<close>

fun alist_set :: "'a storage_key \<Rightarrow> 'v \<Rightarrow> ('a storage_key \<times> 'v) list \<Rightarrow> ('a storage_key \<times> 'v) list" where
  "alist_set k v [] = [(k, v)]"
| "alist_set k v ((k', w) # kvs) =
     (if key_eq k' k then (k', v) # kvs else (k', w) # alist_set k v kvs)"

definition alist_hamt :: "(('a storage_key \<times> 'v) list, 'a, 'v) hamt" where
  "alist_hamt = \<lparr>h_empty = [], h_get = (\<lambda>m k. find_key k m), h_set = alist_set,
     h_del = (\<lambda>k. filter (\<lambda>kv. \<not> key_eq (fst kv) k)), h_items = (\<lambda>m. m)\<rparr>"

lemma alist_hamt_simps [simp]:
  "h_empty alist_hamt = []" "h_get alist_hamt m k = find_key k m" "h_set alist_hamt = alist_set"
  "h_del alist_hamt k m = filter (\<lambda>kv. \<not> key_eq (fst kv) k) m" "h_items alist_hamt m = m"
  by (simp_all add: alist_hamt_def)

lemma find_key_alist_set: "find_key k' (alist_set k v m) = (if key_eq k k' then Some v else find_key k' m)"
  by (induction m) (auto simp: key_eq_id)

lemma find_key_filter:
  "find_key k' (filter (\<lambda>kv. \<not> key_eq (fst kv) k) m) = (if key_eq k k' then None else find_key k' m)"
  by (induction m) (auto simp: key_eq_id)

lemma keys_alist_set: "fst ` set (alist_set k v m) \<subseteq> insert k (fst ` set m)"
proof (induction m)
  case (Cons e m)
  then show ?case by (cases e) auto
qed simp

lemma ids_alist_set: "set (map (\<lambda>kv. key_id (fst kv)) (alist_set k v m)) \<subseteq>
    insert (key_id k) (set (map (\<lambda>kv. key_id (fst kv)) m))"
proof (induction m)
  case (Cons e m)
  then show ?case by (cases e) auto
qed simp

lemma distinct_alist_set:
  "distinct (map (\<lambda>kv. key_id (fst kv)) m) \<Longrightarrow> distinct (map (\<lambda>kv. key_id (fst kv)) (alist_set k v m))"
proof (induction m)
  case (Cons e m)
  obtain k' w where e: "e = (k', w)" by (cases e)
  show ?case
    using Cons ids_alist_set [of k v m] by (cases "key_id k' = key_id k") (auto simp: e key_eq_id)
qed simp

interpretation alist: hash_map alist_hamt "\<lambda>m. distinct (map (\<lambda>kv. key_id (fst kv)) m)"
proof
  fix m :: "('a storage_key \<times> 'v) list" and k v
  show "fst ` set (h_items alist_hamt (h_set alist_hamt k v m)) \<subseteq> insert k (fst ` set (h_items alist_hamt m))"
    using keys_alist_set [of k v m] by simp
qed (auto simp: find_key_alist_set find_key_filter distinct_alist_set distinct_map_filter)

section \<open>The finite map of a hash map\<close>

text \<open>
  Values up to Clojure's \<open>=\<close> are the pairs \<open>ckey_of\<close>; \<open>contents H m\<close> is the finite map of them.
\<close>

definition ident :: "'a ckey \<Rightarrow> family option \<times> family option \<times> 'a host" where
  "ident c = (fst c, fst c, snd c)"

lemma ident_eq [simp]: "ident c = ident d \<longleftrightarrow> c = d"
  by (auto simp: ident_def prod_eq_iff)

lemma key_id_key [simp]: "key_id (equivalence_key v) = ident (ckey_of v)"
  by (cases "numeric_family v") (auto simp: equivalence_key_def ident_def ckey_of_def)

definition contents :: "('m, 'a, 'v) hamt \<Rightarrow> 'm \<Rightarrow> 'a ckey \<Rightarrow> 'v option" where
  "contents H m c = map_of (map (\<lambda>kv. (key_id (fst kv), snd kv)) (h_items H m)) (ident c)"

definition wf_key :: "'a storage_key \<Rightarrow> bool" where
  "wf_key k \<longleftrightarrow> equivalence_key (public_key k) = k"

lemma wf_equivalence_key [simp]: "wf_key (equivalence_key v)"
  by (auto simp: wf_key_def equivalence_key_def split: option.splits)

lemma wf_to_key: "wf_key k \<Longrightarrow> to_key k = k"
  by (cases k) (auto simp: wf_key_def)

lemma public_equivalence_key [simp]: "public_key (equivalence_key v) = v"
  by (simp add: equivalence_key_def split: option.split)

lemma wf_key_id: "wf_key k \<Longrightarrow> key_id k = ident (ckey_of (public_key k))"
  by (metis key_id_key wf_key_def)

lemma find_key_map_of: "find_key k kvs = map_of (map (\<lambda>kv. (key_id (fst kv), snd kv)) kvs) (key_id k)"
  by (induction kvs) (auto simp: key_eq_id)

definition put :: "('a ckey \<Rightarrow> 'v option) \<Rightarrow> 'a pyval \<times> 'v \<Rightarrow> 'a ckey \<Rightarrow> 'v option" where
  "put c kv = c(ckey_of (fst kv) \<mapsto> snd kv)"

lemma put_pair [simp]: "put c (k, v) = c(ckey_of k \<mapsto> v)"
  by (simp add: put_def)

definition drop_key :: "('a ckey \<Rightarrow> 'v option) \<Rightarrow> 'a pyval \<Rightarrow> 'a ckey \<Rightarrow> 'v option" where
  "drop_key c k = c(ckey_of k := None)"

lemma map_of_image_None: "map_of (map (\<lambda>kv. (g kv, snd kv)) kvs) i = None \<longleftrightarrow> i \<notin> g ` set kvs"
  by (induction kvs) auto

lemma foldl_puts:
  "distinct (map (\<lambda>kv. key_id (fst kv)) kvs) \<Longrightarrow> \<forall>k \<in> fst ` set kvs. wf_key k \<Longrightarrow>
    foldl put (\<lambda>c. None) (public_items kvs) c =
    map_of (map (\<lambda>kv. (key_id (fst kv), snd kv)) kvs) (ident c)"
proof (induction kvs rule: rev_induct)
  case (snoc e kvs)
  obtain k v where e: "e = (k, v)" by (cases e)
  have k: "key_id k = ident (ckey_of (public_key k))" using snoc.prems wf_key_id by (auto simp: e)
  have "map_of (map (\<lambda>kv. (key_id (fst kv), snd kv)) kvs) (key_id k) = None"
    using snoc.prems(1) by (simp add: e map_of_image_None)
  moreover have "public_items (kvs @ [e]) = public_items kvs @ [(public_key k, v)]"
    by (simp add: public_items_def e)
  ultimately show ?case using snoc by (auto simp: e k map_add_def split: option.split)
qed (simp add: public_items_def)

lemma all_subset: "A \<subseteq> B \<Longrightarrow> \<forall>x \<in> B. P x \<Longrightarrow> \<forall>x \<in> A. P x"
  by blast

lemma contents_none: "\<not> (\<exists>k :: 'a storage_key. key_id k = ident d) \<Longrightarrow> contents H m d = None"
  unfolding contents_def map_of_eq_None_iff by (simp add: image_iff) metis

context hash_map begin

definition sound :: "'m \<Rightarrow> bool" where
  "sound m \<longleftrightarrow> ok m \<and> (\<forall>k \<in> fst ` set (h_items H m). wf_key k)"

lemma sound_ok: "sound m \<Longrightarrow> ok m"
  by (simp add: sound_def)

lemma get_contents: "ok m \<Longrightarrow> h_get H m (equivalence_key k) = contents H m (ckey_of k)"
  by (simp add: get_items find_key_map_of contents_def)

lemma has_contents: "ok m \<Longrightarrow> h_has H m (equivalence_key k) \<longleftrightarrow> contents H m (ckey_of k) \<noteq> None"
  by (simp add: h_has_def get_contents)

lemma sound_empty: "sound (h_empty H)" and contents_empty: "contents H (h_empty H) = (\<lambda>c. None)"
  by (auto simp: sound_def ok_empty items_empty contents_def)

lemma contents_get: "ok m \<Longrightarrow> key_id k = ident c \<Longrightarrow> contents H m c = h_get H m k"
  by (simp add: contents_def get_items find_key_map_of)

lemma contents_set_key:
  assumes "ok m" "key_id k = ident c"
  shows "contents H (h_set H k v m) = (contents H m)(c \<mapsto> v)"
proof
  fix d :: "'a ckey"
  show "contents H (h_set H k v m) d = ((contents H m)(c \<mapsto> v)) d"
  proof (cases "\<exists>k'. key_id k' = ident d")
    case True
    then obtain k' :: "'a storage_key" where "key_id k' = ident d" by blast
    then show ?thesis
      using assms contents_get [OF ok_set [OF assms(1)]] contents_get [OF assms(1)]
      by (auto simp: get_set key_eq_id)
  next
    case False
    then show ?thesis using assms(2) contents_none [OF False, of H] by auto
  qed
qed

lemma contents_set: "ok m \<Longrightarrow> contents H (h_set H (equivalence_key k) v m) = (contents H m)(ckey_of k \<mapsto> v)"
  by (rule contents_set_key) simp_all

lemma sound_set_key:
  assumes "sound m" "wf_key k"
  shows "sound (h_set H k v m)"
proof -
  have "\<forall>x \<in> insert k (fst ` set (h_items H m)). wf_key x" using assms by (simp add: sound_def)
  from all_subset [OF keys_set this] show ?thesis using assms(1) ok_set by (simp add: sound_def)
qed

lemma sound_set: "sound m \<Longrightarrow> sound (h_set H (equivalence_key k) v m)"
  by (rule sound_set_key) simp_all

lemma sound_discard:
  assumes "sound m"
  shows "sound (h_discard H k m)"
proof (cases "h_has H m k")
  case True
  then show ?thesis
    using assms ok_del [of m k] all_subset [OF keys_del [of m k], of wf_key]
    by (simp add: sound_def h_discard_def h_has_def)
qed (simp add: assms h_discard_def)

lemma contents_discard:
  assumes "ok m"
  shows "contents H (h_discard H (equivalence_key k) m) = (contents H m)(ckey_of k := None)"
proof (cases "h_has H m (equivalence_key k)")
  case True
  then have p: "h_get H m (equivalence_key k) \<noteq> None" by (simp add: h_has_def)
  show ?thesis
  proof
    fix d :: "'a ckey"
    show "contents H (h_discard H (equivalence_key k) m) d = ((contents H m)(ckey_of k := None)) d"
    proof (cases "\<exists>k'. key_id k' = ident d")
      case k': True
      then obtain k' :: "'a storage_key" where "key_id k' = ident d" by blast
      then show ?thesis
        using True contents_get [OF ok_del [OF assms p]] contents_get [OF assms]
        by (auto simp: get_del [OF assms p] key_eq_id h_discard_def)
    next
      case False
      then show ?thesis using contents_none [OF False, of H] by auto
    qed
  qed
next
  case False
  then show ?thesis using assms by (auto simp: h_discard_def has_contents)
qed

lemma assoc_ok:
  "sound m \<Longrightarrow> sound (h_assoc H pairs m) \<and> contents H (h_assoc H pairs m) = foldl put (contents H m) pairs"
  by (induction pairs arbitrary: m)
    (auto simp: h_assoc_def sound_set contents_set sound_ok)

lemma dissoc_ok:
  "sound m \<Longrightarrow> sound (h_dissoc H ks m) \<and> contents H (h_dissoc H ks m) = foldl drop_key (contents H m) ks"
  by (induction ks arbitrary: m) (auto simp: h_dissoc_def sound_discard contents_discard sound_ok drop_key_def)

text \<open>Building a map from the items of another gives the same contents.\<close>

lemma h_of_ok:
  "\<forall>k \<in> fst ` set kvs. wf_key k \<Longrightarrow> sound (h_of H kvs) \<and>
    contents H (h_of H kvs) = foldl put (\<lambda>c. None) (public_items kvs)"
proof (induction kvs rule: rev_induct)
  case Nil
  then show ?case by (simp add: h_of_def sound_empty contents_empty public_items_def)
next
  case (snoc e kvs)
  obtain k v where e: "e = (k, v)" by (cases e)
  have k: "wf_key k" and IH: "sound (h_of H kvs)"
    "contents H (h_of H kvs) = foldl put (\<lambda>c. None) (public_items kvs)"
    using snoc by (auto simp: e)
  have "h_of H (kvs @ [e]) = h_set H k v (h_of H kvs)" by (simp add: h_of_def e)
  then show ?case
    using sound_set_key [OF IH(1) k] contents_set_key [OF sound_ok [OF IH(1)] wf_key_id [OF k], of v] IH(2)
    by (simp add: e public_items_def)
qed

lemma new_map_ok:
  assumes "sound m"
  shows "sound (pm_inner (new_map H m md)) \<and> contents H (pm_inner (new_map H m md)) = contents H m"
proof -
  have keys: "\<forall>k \<in> fst ` set (h_items H m). wf_key k" using assms by (simp add: sound_def)
  then have "map (apfst to_key) (h_items H m) = h_items H m"
    by (intro map_idI) (auto simp: wf_to_key image_iff)
  then show ?thesis
    using h_of_ok [OF keys] foldl_puts [OF distinct_items [OF sound_ok [OF assms]] keys]
    by (auto simp: new_map_def contents_def)
qed

end

end
