(* ===== verification/MapPrograms.thy ===== *)
theory MapPrograms
  imports MapLaws
begin

text \<open>
  Programs of hash map operations against finite maps, and equality and hashing of hash maps.
\<close>

section \<open>Programs of map operations\<close>

datatype ('a, 'v) transient_op =
    TAssoc "('a, 'v) kvs"
  | TDissoc "'a pyval list"
  | TCons "('a, 'v) conj_arg list"

fun transient_step :: "('m, 'a, 'v) hamt \<Rightarrow> 'v \<Rightarrow> 'm \<Rightarrow> ('a, 'v) transient_op \<Rightarrow> 'm res" where
  "transient_step H nil m (TAssoc kvs) = Inr (map_assoc_transient H nil m kvs)"
| "transient_step H nil m (TDissoc ks) = Inr (map_dissoc_transient H m ks)"
| "transient_step H nil m (TCons elems) =
     (case map_cons_transient H m elems of (m', None) \<Rightarrow> Inr m' | (m', Some e) \<Rightarrow> Inl e)"

datatype ('a, 'v, 'md) map_op =
    Assoc "('a, 'v) kvs"
  | Dissoc "'a pyval list"
  | Update "('a pyval \<times> 'v) list list"
  | UpdateWith "'v \<Rightarrow> 'v \<Rightarrow> 'v" "('a pyval \<times> 'v) list list"
  | Conj "('a, 'v) conj_arg list"
  | WithMeta "'md option"
  | Empty
  | Transient "('a, 'v) transient_op list"

fun map_step ::
    "('m, 'a, 'v) hamt \<Rightarrow> 'v \<Rightarrow> ('m, 'md) persistent_map \<Rightarrow> ('a, 'v, 'md) map_op \<Rightarrow>
     ('m, 'md) persistent_map res" where
  "map_step H nil m (Assoc kvs) = hash_map_assoc H m kvs"
| "map_step H nil m (Dissoc ks) = Inr (hash_map_dissoc H m ks)"
| "map_step H nil m (Update maps) = Inr (map_update H m maps)"
| "map_step H nil m (UpdateWith f maps) = Inr (map_update_with H m f maps)"
| "map_step H nil m (Conj elems) = map_cons H m elems"
| "map_step H nil m (WithMeta md) = Inr (map_with_meta H m md)"
| "map_step H nil m Empty = Inr (map_empty H m)"
| "map_step H nil m (Transient ops) =
     rbind (foldM (transient_step H nil) (map_to_transient m) ops) (\<lambda>t. Inr (map_to_persistent H t))"

text \<open>The same operations on a finite map from values up to \<open>=\<close>, with its metadata.\<close>

type_synonym ('a, 'v) finmap = "'a ckey \<Rightarrow> 'v option"

fun spec_conj :: "('a, 'v) finmap \<Rightarrow> ('a, 'v) conj_arg \<Rightarrow> ('a, 'v) finmap res" where
  "spec_conj c (MapArg items) = Inr (foldl put c items)"
| "spec_conj c (EntryArg k v) = Inr (put c (k, v))"
| "spec_conj c NoneArg = Inr c"
| "spec_conj c (VecArg (Some kv)) = Inr (put c kv)"
| "spec_conj c (VecArg None) = Inl ValueError"
| "spec_conj c (SizedArg kv) = Inl ValueError"
| "spec_conj c OtherArg = Inl ValueError"

definition merged :: "('v \<Rightarrow> 'v \<Rightarrow> 'v) \<Rightarrow> ('a, 'v) finmap \<Rightarrow> 'a pyval \<Rightarrow> 'v \<Rightarrow> 'v" where
  "merged f c k v = (case c (ckey_of k) of Some w \<Rightarrow> f w v | None \<Rightarrow> v)"

definition put_merged :: "('v \<Rightarrow> 'v \<Rightarrow> 'v) \<Rightarrow> ('a, 'v) finmap \<Rightarrow> 'a pyval \<times> 'v \<Rightarrow> ('a, 'v) finmap" where
  "put_merged f c kv = put c (fst kv, merged f c (fst kv) (snd kv))"

fun spec_transient :: "'v \<Rightarrow> ('a, 'v) finmap \<Rightarrow> ('a, 'v) transient_op \<Rightarrow> ('a, 'v) finmap res" where
  "spec_transient nil c (TAssoc (pairs, odd_key)) =
     Inr (foldl put c (pairs @ (case odd_key of None \<Rightarrow> [] | Some k \<Rightarrow> [(k, nil)])))"
| "spec_transient nil c (TDissoc ks) = Inr (foldl drop_key c ks)"
| "spec_transient nil c (TCons elems) = foldM spec_conj c elems"

fun spec_step ::
    "'v \<Rightarrow> ('a, 'v) finmap \<times> 'md option \<Rightarrow> ('a, 'v, 'md) map_op \<Rightarrow> (('a, 'v) finmap \<times> 'md option) res" where
  "spec_step nil (c, md) (Assoc (pairs, None)) = Inr (foldl put c pairs, md)"
| "spec_step nil (c, md) (Assoc (pairs, Some k)) = Inl ValueError"
| "spec_step nil (c, md) (Dissoc ks) = Inr (foldl drop_key c ks, md)"
| "spec_step nil (c, md) (Update maps) = Inr (foldl put c (concat maps), md)"
| "spec_step nil (c, md) (UpdateWith f maps) = Inr (foldl (put_merged f) c (concat maps), md)"
| "spec_step nil (c, md) (Conj elems) = rbind (foldM spec_conj c elems) (\<lambda>c'. Inr (c', md))"
| "spec_step nil (c, md) (WithMeta md') = Inr (c, md')"
| "spec_step nil (c, md) Empty = Inr (\<lambda>k. None, md)"
| "spec_step nil (c, md) (Transient ops) =
     rbind (foldM (spec_transient nil) c ops) (\<lambda>c'. Inr (c', None))"

section \<open>Refinement\<close>

lemma put_merged_pair: "put_merged f c (k, v) = put c (k, merged f c k v)"
  by (simp add: put_merged_def)

lemma h_merge_Cons: "h_merge H f ((k, v) # items) m =
    h_merge H f items (h_set H (equivalence_key k)
      (case h_get H m (equivalence_key k) of Some w \<Rightarrow> f w v | None \<Rightarrow> v) m)"
  by (simp add: h_merge_def Let_def)

lemma rel_res_rbind:
  "rel_res R a b \<Longrightarrow> (\<And>x y. R x y \<Longrightarrow> rel_res S (f x) (g y)) \<Longrightarrow> rel_res S (rbind a f) (rbind b g)"
  by (cases a; cases b) auto

lemma rel_res_foldM:
  "(\<And>s a x. R s a \<Longrightarrow> rel_res R (f s x) (g a x)) \<Longrightarrow> R s a \<Longrightarrow> rel_res R (foldM f s xs) (foldM g a xs)"
proof (induction xs arbitrary: s a)
  case (Cons x xs)
  have "rel_res R (foldM f t xs) (foldM g b xs)" if "R t b" for t b
    using Cons.IH Cons.prems(1) that by blast
  then show ?case unfolding foldM.simps by (intro rel_res_rbind [OF Cons.prems(1) [OF Cons.prems(2)]])
qed simp

lemma conj_error_simps [simp]:
  "conj_error (Inr x) = Inr x" "conj_error (Inl TypeError) = Inl ValueError"
  "conj_error (Inl ValueError) = Inl ValueError"
  by (simp_all add: conj_error_def)

lemma conj_error_rbind: "conj_error (rbind m f) = rbind (conj_error m) (\<lambda>x. conj_error (f x))"
  by (cases m) (simp_all add: conj_error_def)

lemma conj_error_foldM: "conj_error (foldM f m xs) = foldM (\<lambda>m x. conj_error (f m x)) m xs"
  by (induction xs arbitrary: m) (simp_all add: conj_error_rbind)

lemma conj_in_place_foldM:
  "foldM (h_conj H) m elems =
     (case conj_in_place H m elems of (m', None) \<Rightarrow> Inr m' | (m', Some e) \<Rightarrow> Inl e)"
  by (induction elems arbitrary: m) (auto split: sum.split)

lemma cons_transient_foldM: "transient_step H nil m (TCons elems) = conj_error (foldM (h_conj H) m elems)"
  by (auto simp: conj_in_place_foldM map_cons_transient_def conj_error_def split: prod.split option.split)

lemma dom_map_of_items: "dom (map_of (map (\<lambda>kv. (g (fst kv), snd kv)) kvs)) = (\<lambda>kv. g (fst kv)) ` set kvs"
proof (induction kvs)
  case (Cons kv kvs)
  then show ?case by (simp del: fun_upd_apply)
qed simp

lemma item_value:
  "distinct (map (\<lambda>kv. g (fst kv)) kvs) \<Longrightarrow> kv \<in> set kvs \<Longrightarrow>
    map_of (map (\<lambda>kv. (g (fst kv), snd kv)) kvs) (g (fst kv)) = Some (snd kv)"
  by (rule map_of_is_SomeI) (auto simp: comp_def)

context hash_map begin

definition holds :: "'m \<Rightarrow> ('a, 'v) finmap \<Rightarrow> bool" where
  "holds m c \<longleftrightarrow> sound m \<and> contents H m = c"

definition map_rel :: "('m, 'md) persistent_map \<Rightarrow> ('a, 'v) finmap \<times> 'md option \<Rightarrow> bool" where
  "map_rel m s \<longleftrightarrow> holds (pm_inner m) (fst s) \<and> pm_meta m = snd s"

lemma holds_empty: "holds (h_empty H) (\<lambda>k. None)"
  by (simp add: holds_def sound_empty contents_empty)

lemma holds_set: "holds m c \<Longrightarrow> holds (h_set H (equivalence_key k) v m) (put c (k, v))"
  by (simp add: holds_def sound_set contents_set sound_ok)

lemma holds_assoc: "holds m c \<Longrightarrow> holds (h_assoc H pairs m) (foldl put c pairs)"
  using assoc_ok by (auto simp: holds_def)

lemma holds_dissoc: "holds m c \<Longrightarrow> holds (h_dissoc H ks m) (foldl drop_key c ks)"
  using dissoc_ok by (auto simp: holds_def)

lemma holds_merge: "holds m c \<Longrightarrow> holds (h_merge H f items m) (foldl (put_merged f) c items)"
proof (induction items arbitrary: m c)
  case (Cons kv items)
  obtain k v where kv: "kv = (k, v)" by (cases kv)
  have get: "h_get H m (equivalence_key k) = c (ckey_of k)"
    using Cons.prems get_contents by (auto simp: holds_def sound_ok)
  have "h_merge H f (kv # items) m = h_merge H f items (h_set H (equivalence_key k) (merged f c k v) m)"
    by (simp only: kv h_merge_Cons get merged_def)
  then show ?case
    using Cons.IH [OF holds_set [OF Cons.prems, of k "merged f c k v"]]
    by (simp only: kv put_merged_pair foldl_Cons)
qed (simp add: h_merge_def)

lemma holds_new_map: "holds m c \<Longrightarrow> map_rel (new_map H m md) (c, md)"
  using new_map_ok [of m md] by (auto simp: map_rel_def holds_def new_map_def)

lemma holds_conj: "holds m c \<Longrightarrow> rel_res holds (conj_error (h_conj H m e)) (spec_conj c e)"
proof (cases e)
  case (VecArg kv)
  then show "holds m c \<Longrightarrow> ?thesis"
    using holds_set [of m c] by (cases kv) (auto split: prod.split simp del: put_pair)
next
  case (EntryArg k v)
  then show "holds m c \<Longrightarrow> ?thesis" using holds_set [of m c k v] by (simp del: put_pair)
qed (auto simp: holds_assoc)

lemma holds_conjs:
  "holds m c \<Longrightarrow> rel_res holds (conj_error (foldM (h_conj H) m elems)) (foldM spec_conj c elems)"
  unfolding conj_error_foldM by (rule rel_res_foldM) (simp_all add: holds_conj)

lemma holds_updates:
  assumes "\<And>m c items. holds m c \<Longrightarrow> holds (g items m) (foldl h c items)" "holds m c"
  shows "holds (foldl (\<lambda>m items. g items m) m maps) (foldl h c (concat maps))"
  using assms(2) by (induction maps arbitrary: m c) (auto simp: assms(1))

lemma holds_transient: "holds m c \<Longrightarrow> rel_res holds (transient_step H nil m t) (spec_transient nil c t)"
proof (cases t)
  case (TAssoc kvs)
  assume h: "holds m c"
  obtain pairs odd_key where "kvs = (pairs, odd_key)" by (cases kvs)
  then show ?thesis
    using TAssoc holds_assoc [OF h, of pairs] holds_set
    by (cases odd_key) (auto simp: map_assoc_transient_def Let_def)
next
  case (TCons elems)
  assume "holds m c"
  then show ?thesis unfolding TCons cons_transient_foldM by (simp add: holds_conjs)
qed (simp add: map_dissoc_transient_def holds_dissoc)

lemma map_rel_new: "holds m c \<Longrightarrow> map_rel \<lparr>pm_inner = pm_inner (new_map H m md), pm_meta = md\<rparr> (c, md)"
  using holds_new_map [of m c md] by (simp add: map_rel_def)

lemma map_relD: "map_rel m (c, md) \<Longrightarrow> holds (pm_inner m) c"
  by (simp add: map_rel_def)

lemma EMPTY_rel: "map_rel (EMPTY_MAP H) (\<lambda>k. None, None)"
  by (simp add: EMPTY_MAP_def from_coll_def h_of_def holds_new_map holds_empty)

lemma map_step_rel:
  fixes s :: "('a, 'v) finmap \<times> 'md option"
  assumes "map_rel m s"
  shows "rel_res map_rel (map_step H nil m p) (spec_step nil s p)"
proof -
  obtain c md where s: "s = (c, md)" by (cases s)
  have h: "holds (pm_inner m) c" and md: "pm_meta m = md" using assms by (auto simp: map_rel_def s)
  show ?thesis
  proof (cases p)
    case (Assoc kvs)
    then show ?thesis
      by (cases kvs; cases "snd kvs") (auto simp: s md hash_map_assoc_def holds_new_map holds_assoc [OF h])
  next
    case (Dissoc ks)
    then show ?thesis by (simp add: s md hash_map_dissoc_def holds_new_map holds_dissoc [OF h])
  next
    case (Update maps)
    then show ?thesis
      using holds_updates [of "h_assoc H" put, OF holds_assoc h]
      by (simp add: s md map_update_def holds_new_map)
  next
    case (UpdateWith f maps)
    then show ?thesis
      using holds_updates [of "h_merge H f" "put_merged f", OF holds_merge h]
      by (simp add: s md map_update_with_def holds_new_map)
  next
    case (Conj elems)
    have "rel_res map_rel (rbind (conj_error (foldM (h_conj H) (pm_inner m) elems)) (\<lambda>i. Inr (new_map H i md)))
        (rbind (foldM spec_conj c elems) (\<lambda>c'. Inr (c', md)))"
      by (rule rel_res_rbind [OF holds_conjs [OF h]]) (simp add: holds_new_map)
    then show ?thesis by (simp add: Conj s md map_cons_def)
  next
    case (WithMeta md')
    then show ?thesis by (simp add: s map_with_meta_def holds_new_map [OF h])
  next
    case Empty
    have "holds (pm_inner (EMPTY_MAP H :: ('m, 'md) persistent_map)) (\<lambda>k. None)"
      by (rule map_relD [OF EMPTY_rel])
    then show ?thesis by (simp add: Empty s md map_empty_def map_with_meta_def holds_new_map)
  next
    case (Transient ops)
    have "rel_res holds (foldM (transient_step H nil) (pm_inner m) ops) (foldM (spec_transient nil) c ops)"
      by (rule rel_res_foldM) (simp_all add: holds_transient h)
    then have "rel_res map_rel
        (rbind (foldM (transient_step H nil) (pm_inner m) ops) (\<lambda>t. Inr (map_to_persistent H t)))
        (rbind (foldM (spec_transient nil) c ops) (\<lambda>c'. Inr (c', None)))"
      by (rule rel_res_rbind) (simp add: map_to_persistent_def holds_new_map)
    then show ?thesis by (simp add: Transient s map_to_transient_def)
  qed
qed

lemma map_program_rel:
  "rel_res map_rel (foldM (map_step H nil) (EMPTY_MAP H) ops) (foldM (spec_step nil) (\<lambda>k. None, None) ops)"
  by (rule rel_res_foldM) (simp_all add: map_step_rel EMPTY_rel)

text \<open>What a map answers, from the finite map it holds.\<close>

lemma items_rel:
  assumes "holds (pm_inner m) c"
  shows "map_of (map (\<lambda>kv. (ckey_of (fst kv), snd kv)) (map_items H m)) = c \<and>
    distinct (map (\<lambda>kv. ckey_of (fst kv)) (map_items H m))"
proof -
  let ?kvs = "h_items H (pm_inner m)"
  have keys: "\<forall>k \<in> fst ` set ?kvs. wf_key k" and ok: "ok (pm_inner m)"
    using assms by (auto simp: holds_def sound_def)
  have "map_of (map (\<lambda>kv. (ckey_of (fst kv), snd kv)) (public_items kvs)) c =
      map_of (map (\<lambda>kv. (key_id (fst kv), snd kv)) kvs) (ident c)"
    if "\<forall>k \<in> fst ` set kvs. wf_key k" for kvs :: "('a storage_key \<times> 'v) list" and c
    using that by (induction kvs) (auto simp: public_items_def wf_key_id)
  moreover have "distinct (map (\<lambda>kv. ckey_of (fst kv)) (public_items kvs)) \<longleftrightarrow>
      distinct (map (\<lambda>kv. key_id (fst kv)) kvs)"
    if "\<forall>k \<in> fst ` set kvs. wf_key k" for kvs :: "('a storage_key \<times> 'v) list"
    using that by (induction kvs) (auto simp: public_items_def wf_key_id image_iff)
  ultimately show ?thesis
    using keys distinct_items [OF ok] assms by (auto simp: map_items_def holds_def contents_def fun_eq_iff)
qed

lemma len_rel:
  assumes "holds (pm_inner m) c"
  shows "map_len H m = card (dom c)"
proof -
  let ?kvs = "map_items H m"
  have "dom c = set (map (\<lambda>kv. ckey_of (fst kv)) ?kvs)"
    using items_rel [OF assms] dom_map_of_items [of ckey_of ?kvs] by simp
  then have "card (dom c) = length ?kvs"
    using items_rel [OF assms] distinct_card by (metis length_map)
  then show ?thesis by (simp add: map_len_def h_len_def map_items_def public_items_def)
qed

lemma lookups_rel:
  assumes "holds (pm_inner m) c"
  shows "map_val_at H m k dflt = (case c (ckey_of k) of None \<Rightarrow> dflt | Some v \<Rightarrow> v)"
    and "map_contains H m k \<longleftrightarrow> c (ckey_of k) \<noteq> None"
    and "map_getitem H m k = (case c (ckey_of k) of None \<Rightarrow> Inl KeyError | Some v \<Rightarrow> Inr v)"
    and "map_entry H m k = map_option (Pair k) (c (ckey_of k))"
  using assms
  by (auto simp: holds_def sound_ok map_val_at_def map_contains_def map_getitem_def map_entry_def
      get_contents has_contents split: option.split)

end

text \<open>
  C36: programs of hash map operations compute finite maps. For any underlying map that keeps the
  contract, and any program of \<open>assoc\<close>, \<open>dissoc\<close>, \<open>update\<close>, \<open>update_with\<close>, \<open>cons\<close>, \<open>with_meta\<close>,
  \<open>empty\<close> and edits through a transient, started at the empty map: the program raises exactly the
  error that the same program on finite maps from values up to \<open>=\<close> does, or ends in a map with
  that metadata, whose look-ups, membership tests, subscripts and entries are those of the finite
  map, whose items list each of its keys once with its value, and whose length is its size.
\<close>

theorem hash_map_refines_finite_map:
  fixes ops :: "('a, 'v, 'md) map_op list"
  assumes "hash_map H ok"
  shows "case foldM (map_step H nil) (EMPTY_MAP H) ops of
      Inl e \<Rightarrow> foldM (spec_step nil) (\<lambda>k. None, None) ops = Inl e
    | Inr m \<Rightarrow> (\<exists>c. foldM (spec_step nil) (\<lambda>k. None, None) ops = Inr (c, pm_meta m) \<and>
        map_of (map (\<lambda>kv. (ckey_of (fst kv), snd kv)) (map_items H m)) = c \<and>
        distinct (map (\<lambda>kv. ckey_of (fst kv)) (map_items H m)) \<and>
        map_len H m = card (dom c) \<and>
        map_val_at H m k dflt = (case c (ckey_of k) of None \<Rightarrow> dflt | Some v \<Rightarrow> v) \<and>
        map_contains H m k = (c (ckey_of k) \<noteq> None) \<and>
        map_getitem H m k = (case c (ckey_of k) of None \<Rightarrow> Inl KeyError | Some v \<Rightarrow> Inr v) \<and>
        map_entry H m k = map_option (Pair k) (c (ckey_of k)))"
proof -
  note rel = hash_map.map_program_rel [OF assms, of nil ops]
  show ?thesis
  proof (cases "foldM (map_step H nil) (EMPTY_MAP H) ops")
    case (Inl e)
    then show ?thesis using rel by simp
  next
    case (Inr m)
    then obtain c md where s: "foldM (spec_step nil) (\<lambda>k. None, None) ops = Inr (c, md)"
      and r: "hash_map.map_rel H ok m (c, md)"
      using rel by (cases "foldM (spec_step nil) (\<lambda>k. None, None) ops :: (('a, 'v) finmap \<times> 'md option) res") auto
    note h = hash_map.map_relD [OF assms r]
    have "pm_meta m = md" using r by (simp add: hash_map.map_rel_def [OF assms])
    then show ?thesis
      using s Inr hash_map.items_rel [OF assms h] hash_map.len_rel [OF assms h]
        hash_map.lookups_rel [OF assms h] by simp
  qed
qed

definition demo_map_ops :: "(nat, nat, unit) map_op list" where
  "demo_map_ops =
     [Assoc ([(PyInt 1, 10), (PyFloat 1, 20)], None), Dissoc [PyInt 1],
      Transient [TAssoc ([], Some (PyInt 2))]]"

lemma demo_map_spec:
  "foldM (spec_step 0) (\<lambda>k. None, None) demo_map_ops =
     Inr ([(Some Floating, Number 1) \<mapsto> 20, (Some Integer, Number 2) \<mapsto> 0], None)"
  by (auto simp: demo_map_ops_def ckey_of_def drop_key_def)

theorem hash_map_refines_finite_map_witness:
  "case foldM (map_step alist_hamt 0) (EMPTY_MAP alist_hamt) demo_map_ops of
     Inl e \<Rightarrow> False
   | Inr m \<Rightarrow> map_val_at alist_hamt m (PyFloat 1) 0 = 20 \<and> \<not> map_contains alist_hamt m (PyInt 1)"
  using hash_map_refines_finite_map [OF alist.hash_map_axioms, of 0 demo_map_ops "PyFloat 1" 0]
    hash_map_refines_finite_map [OF alist.hash_map_axioms, of 0 demo_map_ops "PyInt 1" 0]
  unfolding demo_map_spec by (auto simp: ckey_of_def split: sum.splits)

section \<open>Equality and hashing\<close>

text \<open>The maps that programs of the operations make.\<close>

definition made_map :: "('m, 'a, 'v) hamt \<Rightarrow> 'v \<Rightarrow> ('m, 'md) persistent_map \<Rightarrow> bool" where
  "made_map H nil m \<longleftrightarrow> (\<exists>ops. foldM (map_step H nil) (EMPTY_MAP H) ops = Inr m)"

lemma made_map_holds:
  assumes "hash_map H ok" "made_map H nil m"
  obtains c where "hash_map.holds H ok (pm_inner m) c"
proof -
  obtain ops where ops: "foldM (map_step H nil) (EMPTY_MAP H) ops = Inr m"
    using assms(2) by (auto simp: made_map_def)
  obtain s where "hash_map.map_rel H ok m s"
    using hash_map.map_program_rel [OF assms(1), of nil ops] unfolding ops rel_res_def
    by (auto split: sum.splits)
  then show thesis using that by (auto simp: hash_map.map_rel_def [OF assms(1)])
qed

lemma equal_domains: "finite A \<Longrightarrow> finite B \<Longrightarrow> card A = card B \<Longrightarrow> A \<subseteq> B \<Longrightarrow> A = B"
  by (simp add: card_subset_eq)

lemma mset_by_keys:
  assumes "distinct (map g xs)" "distinct (map g ys)" "g ` set xs = g ` set ys"
    and "\<And>x y. x \<in> set xs \<Longrightarrow> y \<in> set ys \<Longrightarrow> g x = g y \<Longrightarrow> f x = f y"
  shows "mset (map f xs) = mset (map f ys)"
proof -
  have "mset (map f zs) = image_mset (\<lambda>k. f (SOME z. z \<in> set zs \<and> g z = k)) (mset_set (g ` set zs))"
    if d: "distinct (map g zs)" for zs
  proof -
    have inj: "inj_on g (set zs)" using d by (simp add: distinct_map)
    have "mset_set (g ` set zs) = image_mset g (mset zs)"
      using d inj by (metis distinct_map image_mset_mset_set mset_set_set)
    moreover have some: "(SOME w. w \<in> set zs \<and> g w = g z) = z" if "z \<in> set zs" for z
      using that inj by (metis (mono_tags, lifting) inj_onD someI_ex)
    ultimately have "image_mset (\<lambda>k. f (SOME z. z \<in> set zs \<and> g z = k)) (mset_set (g ` set zs)) =
        image_mset (\<lambda>z. f (SOME w. w \<in> set zs \<and> g w = g z)) (mset zs)"
      by (simp add: image_mset.compositionality comp_def)
    also have "\<dots> = image_mset f (mset zs)" using some by (intro image_mset_cong) simp
    finally show ?thesis by simp
  qed
  moreover have "f (SOME z. z \<in> set xs \<and> g z = k) = f (SOME z. z \<in> set ys \<and> g z = k)"
    if "k \<in> g ` set xs" for k
  proof -
    have "\<exists>z. z \<in> set xs \<and> g z = k" using that by auto
    moreover have "\<exists>z. z \<in> set ys \<and> g z = k" using that unfolding assms(3) by auto
    ultimately have this: "\<exists>z. z \<in> set xs \<and> g z = k" "\<exists>z. z \<in> set ys \<and> g z = k" by blast+
    from someI_ex [OF this(1)] someI_ex [OF this(2)] show ?thesis using assms(4) by metis
  qed
  then have "{#f (SOME z. z \<in> set xs \<and> g z = k). k \<in># mset_set (g ` set xs)#} =
      {#f (SOME z. z \<in> set ys \<and> g z = k). k \<in># mset_set (g ` set xs)#}"
    by (intro image_mset_cong) simp
  ultimately show ?thesis using assms(1,2) assms(3) [symmetric] by simp
qed

lemma same_domains:
  assumes "dom c = (\<lambda>kv. ckey_of (fst kv)) ` A" "dom d = (\<lambda>kv. ckey_of (fst kv)) ` B"
    and none: "\<And>k. (c (ckey_of k) = None) = (d (ckey_of k) = None)"
  shows "dom c = dom d"
proof (intro equalityI subsetI)
  fix x assume "x \<in> dom c"
  moreover from this obtain kv where "x = ckey_of (fst kv)" using assms(1) by auto
  ultimately show "x \<in> dom d" using none by (simp add: domIff)
next
  fix x assume "x \<in> dom d"
  moreover from this obtain kv where "x = ckey_of (fst kv)" using assms(2) by auto
  ultimately show "x \<in> dom c" using none by (simp add: domIff)
qed

lemma map_eq_iff:
  assumes "hash_map H ok" "hash_map.holds H ok (pm_inner m) c" "hash_map.holds H ok (pm_inner n) d"
  shows "map_eq H m n \<longleftrightarrow> (\<forall>k. rel_option numeric_equiv (c (ckey_of k)) (d (ckey_of k)))"
proof -
  note im = hash_map.items_rel [OF assms(1,2)] and i_n = hash_map.items_rel [OF assms(1,3)]
  have dm: "dom c = (\<lambda>kv. ckey_of (fst kv)) ` set (map_items H m)"
    and dn: "dom d = (\<lambda>kv. ckey_of (fst kv)) ` set (map_items H n)"
    using im i_n dom_map_of_items [of ckey_of "map_items H m"] dom_map_of_items [of ckey_of "map_items H n"]
    by auto
  note simps = hash_map.len_rel [OF assms(1,2)] hash_map.len_rel [OF assms(1,3)]
    hash_map.lookups_rel [OF assms(1,2)] hash_map.lookups_rel [OF assms(1,3)]
  have eq: "map_eq H m n \<longleftrightarrow> card (dom c) = card (dom d) \<and>
      (\<forall>kv \<in> set (map_items H m). rel_option numeric_equiv (c (ckey_of (fst kv))) (d (ckey_of (fst kv))))"
  proof -
    have each: "(case kv of (k, _) \<Rightarrow> map_contains H n k \<and>
        (case (map_getitem H m k, map_getitem H n k) of (Inr a, Inr b) \<Rightarrow> numeric_equiv a b | _ \<Rightarrow> False)) =
      rel_option numeric_equiv (c (ckey_of (fst kv))) (d (ckey_of (fst kv)))"
      if "kv \<in> set (map_items H m)" for kv
    proof -
      have "ckey_of (fst kv) \<in> dom c" unfolding dm using that by (rule imageI)
      then have "c (ckey_of (fst kv)) \<noteq> None" by (simp add: domIff)
      then show ?thesis
        by (cases kv; cases "c (ckey_of (fst kv))"; cases "d (ckey_of (fst kv))") (simp_all add: simps)
    qed
    show ?thesis
      unfolding map_eq_def list_all_iff hash_map.len_rel [OF assms(1,2)] hash_map.len_rel [OF assms(1,3)]
      by (intro conj_cong refl ball_cong) (rule each)
  qed
  show ?thesis
  proof
    assume "map_eq H m n"
    then have card: "card (dom c) = card (dom d)"
      and rel: "\<And>kv. kv \<in> set (map_items H m) \<Longrightarrow>
        rel_option numeric_equiv (c (ckey_of (fst kv))) (d (ckey_of (fst kv)))"
      using eq by auto
    have "dom c \<subseteq> dom d"
    proof
      fix x assume x: "x \<in> dom c"
      then obtain kv where "kv \<in> set (map_items H m)" "x = ckey_of (fst kv)" using dm by auto
      with rel [of kv] x show "x \<in> dom d" by (cases "c x"; cases "d x") auto
    qed
    then have dom: "dom c = dom d" using card dm dn equal_domains [of "dom c" "dom d"] by simp
    show "\<forall>k. rel_option numeric_equiv (c (ckey_of k)) (d (ckey_of k))"
    proof
      fix k
      show "rel_option numeric_equiv (c (ckey_of k)) (d (ckey_of k))"
      proof (cases "ckey_of k \<in> dom c")
        case True
        then obtain kv where "kv \<in> set (map_items H m)" "ckey_of k = ckey_of (fst kv)" using dm by auto
        then show ?thesis using rel [of kv] by simp
      next
        case False
        then have "c (ckey_of k) = None" "d (ckey_of k) = None" using dom by (auto simp: domIff)
        then show ?thesis by simp
      qed
    qed
  next
    assume rel: "\<forall>k. rel_option numeric_equiv (c (ckey_of k)) (d (ckey_of k))"
    then have none: "(c (ckey_of k) = None) = (d (ckey_of k) = None)" for k
      using spec [OF rel, of k] by (cases "c (ckey_of k)"; cases "d (ckey_of k)") auto
    have "dom c = dom d" by (rule same_domains [OF dm dn none])
    with rel show "map_eq H m n" by (simp add: eq)
  qed
qed

lemma map_eq_answers:
  fixes m n :: "('m, 'md) persistent_map"
  assumes "hash_map H ok" "made_map H nil m" "made_map H nil n"
  shows "map_eq H m n = (\<forall>k. rel_res numeric_equiv (map_getitem H m k) (map_getitem H n k))"
proof -
  obtain c where c: "hash_map.holds H ok (pm_inner m) c" using made_map_holds [OF assms(1,2)] .
  obtain d where d: "hash_map.holds H ok (pm_inner n) d" using made_map_holds [OF assms(1,3)] .
  have "rel_res numeric_equiv (map_getitem H m k) (map_getitem H n k) =
      rel_option numeric_equiv (c (ckey_of k)) (d (ckey_of k))" for k
    unfolding hash_map.lookups_rel(3) [OF assms(1) c] hash_map.lookups_rel(3) [OF assms(1) d]
    by (cases "c (ckey_of k)"; cases "d (ckey_of k)") auto
  then show ?thesis using map_eq_iff [OF assms(1) c d] by simp
qed

text \<open>
  Equal maps hash alike when the keys and values they hold look alike to \<open>clojure_hash\<close> whenever
  they are \<open>=\<close>. A record breaks this: it is \<open>==\<close> to a map with the same entries, and hashes
  otherwise.
\<close>

lemma equal_maps_hash_alike:
  fixes m n :: "('m, 'md) persistent_map"
  assumes "hash_map H ok" "made_map H nil m" "made_map H nil n" "map_eq H m n"
    and "\<And>k k'. numeric_equiv k k' \<Longrightarrow> clj_eq (key_view k) (key_view k')"
    and "\<And>v v'. numeric_equiv v v' \<Longrightarrow> clj_eq (value_view v) (value_view v')"
  shows "map_hash H key_view value_view m = map_hash H key_view value_view n"
proof -
  define he where "he = (\<lambda>(k, v). clojure_hash (HEntry (key_view k) (value_view v)))"
  have alike: "he (k, v) = he (k', v')" if "numeric_equiv k k'" "numeric_equiv v v'" for k k' v v'
    using equal_hashes [OF assms(5) [OF that(1)]] equal_hashes [OF assms(6) [OF that(2)]]
    by (simp add: he_def)
  obtain c where c: "hash_map.holds H ok (pm_inner m) c" using made_map_holds [OF assms(1,2)] .
  obtain d where d: "hash_map.holds H ok (pm_inner n) d" using made_map_holds [OF assms(1,3)] .
  note im = hash_map.items_rel [OF assms(1) c] and i_n = hash_map.items_rel [OF assms(1) d]
  have rel: "rel_option numeric_equiv (c (ckey_of k)) (d (ckey_of k))" for k
    using assms(4) map_eq_iff [OF assms(1) c d] by simp
  have none: "(c (ckey_of k) = None) = (d (ckey_of k) = None)" for k
    using rel [of k] by (cases "c (ckey_of k)"; cases "d (ckey_of k)") auto
  have dm: "dom c = (\<lambda>kv. ckey_of (fst kv)) ` set (map_items H m)"
    and dn: "dom d = (\<lambda>kv. ckey_of (fst kv)) ` set (map_items H n)"
    using im i_n dom_map_of_items [of ckey_of "map_items H m"] dom_map_of_items [of ckey_of "map_items H n"]
    by auto
  have "dom c = dom d" by (rule same_domains [OF dm dn none])
  then have keys: "(\<lambda>kv. ckey_of (fst kv)) ` set (map_items H m) = (\<lambda>kv. ckey_of (fst kv)) ` set (map_items H n)"
    using dm dn by simp
  have "he x = he y" if x: "x \<in> set (map_items H m)" and y: "y \<in> set (map_items H n)"
    and k: "ckey_of (fst x) = ckey_of (fst y)" for x y
  proof -
    have "c (ckey_of (fst x)) = Some (snd x)" "d (ckey_of (fst y)) = Some (snd y)"
      using im i_n x y item_value [of ckey_of "map_items H m" x] item_value [of ckey_of "map_items H n" y] by auto
    then have "numeric_equiv (snd x) (snd y)" using rel [of "fst x"] k by simp
    moreover have "numeric_equiv (fst x) (fst y)" using k by (simp add: ckey_of_eq key_eq_equiv)
    ultimately have "he (fst x, snd x) = he (fst y, snd y)" by (intro alike)
    then show ?thesis by simp
  qed
  then have "mset (map he (map_items H m)) = mset (map he (map_items H n))"
    using mset_by_keys [OF conjunct2 [OF im] conjunct2 [OF i_n] keys] by blast
  then show ?thesis unfolding map_hash_def he_def by (rule hash_unordered_perm)
qed

text \<open>
  C37: equality of hash maps is Clojure's. For maps that programs of the operations make, \<open>==\<close> holds
  exactly when both maps answer every key alike, with values that are \<open>=\<close> or with KeyError on
  both sides. So it does not depend on the order of the insertions, and it is reflexive,
  symmetric and transitive.
\<close>

theorem map_equality_lawful:
  fixes m n p :: "('m, 'md) persistent_map"
  assumes "hash_map H ok" "made_map H nil m" "made_map H nil n" "made_map H nil p"
  shows "map_eq H m n = (\<forall>k. rel_res numeric_equiv (map_getitem H m k) (map_getitem H n k)) \<and>
    map_eq H m m \<and> (map_eq H m n = map_eq H n m) \<and> (map_eq H m n \<and> map_eq H n p \<longrightarrow> map_eq H m p)"
proof -
  note iff = map_eq_answers [OF assms(1)]
  have "rel_res numeric_equiv x y = rel_res numeric_equiv y x"
    "rel_res numeric_equiv x y \<Longrightarrow> rel_res numeric_equiv y z \<Longrightarrow> rel_res numeric_equiv x z"
    "rel_res numeric_equiv x x" for x y z :: "'a pyval res"
    using equivp_numeric_equiv [where 'a = 'a]
    by (cases x; cases y; cases z; auto elim: equivp_symp equivp_transp intro: equivp_reflp)+
  then show ?thesis
    unfolding iff [OF assms(2,3)] iff [OF assms(3,2)] iff [OF assms(2,2)] iff [OF assms(3,4)] iff [OF assms(2,4)]
    by blast
qed

definition demo_map :: "(nat pyval \<times> nat pyval) list \<Rightarrow> ((nat storage_key \<times> nat pyval) list, unit) persistent_map" where
  "demo_map pairs = new_map alist_hamt (h_assoc alist_hamt pairs (pm_inner (EMPTY_MAP alist_hamt :: (_, unit) persistent_map))) None"

lemma made_demo_map: "made_map alist_hamt (PyInt 0) (demo_map pairs)"
  unfolding made_map_def
  by (rule exI [of _ "[Assoc (pairs, None)]"])
    (simp add: demo_map_def hash_map_assoc_def EMPTY_MAP_def from_coll_def new_map_def)

theorem map_equality_lawful_witness:
  "\<not> map_eq alist_hamt (demo_map [(PyInt 1, PyInt 5)]) (demo_map [(PyFloat 1, PyInt 5)])"
proof -
  have "map_getitem alist_hamt (demo_map [(PyInt 1, PyInt 5)]) (PyInt 1) = Inr (PyInt 5)"
    "map_getitem alist_hamt (demo_map [(PyFloat 1, PyInt 5)]) (PyInt 1) = Inl KeyError"
    by (simp_all add: map_getitem_def demo_map_def new_map_def EMPTY_MAP_def from_coll_def h_of_def
        h_assoc_def equivalence_key_def numeric_equiv_def py_eq_def)
  then have "\<not> (\<forall>k. rel_res numeric_equiv (map_getitem alist_hamt (demo_map [(PyInt 1, PyInt 5)]) k)
      (map_getitem alist_hamt (demo_map [(PyFloat 1, PyInt 5)]) k))"
    by (metis Inr_Inl_False rel_res_simps(3))
  then show ?thesis
    using map_equality_lawful [OF alist.hash_map_axioms made_demo_map made_demo_map made_demo_map,
        of "[(PyInt 1, PyInt 5)]" "[(PyFloat 1, PyInt 5)]" "[]"] by simp
qed

end
