(* ===== verification/SortedColls.thy ===== *)
theory SortedColls
  imports MapPrograms
begin

text \<open>
  Collections whose iteration order is computed by a comparator: sorted maps
  (\<open>src/src/basilisp/lang/map.py\<close>), hash sets and sorted sets (\<open>src/src/basilisp/lang/set.py\<close>) and
  priority maps (\<open>src/src/basilisp/lang/priority_map.py\<close>), over the underlying map of Maps.thy.
\<close>

section \<open>Comparators and sorting\<close>

text \<open>
  What a comparator returns: a bool, a (finite) number, or something else with its truth value.
\<close>

datatype cmp_result = CmpBool bool | CmpNumber rat | CmpOther bool

type_synonym 'k comparator = "'k \<Rightarrow> 'k \<Rightarrow> cmp_result"

fun truthy :: "cmp_result \<Rightarrow> bool" where
  "truthy (CmpBool b) \<longleftrightarrow> b"
| "truthy (CmpNumber q) \<longleftrightarrow> q \<noteq> 0"
| "truthy (CmpOther b) \<longleftrightarrow> b"

text \<open>\<open>int\<close> rounds towards zero.\<close>

definition py_int :: "rat \<Rightarrow> int" where
  "py_int q = (if q < 0 then - \<lfloor>- q\<rfloor> else \<lfloor>q\<rfloor>)"

definition comparator_fn :: "'k comparator \<Rightarrow> 'k \<Rightarrow> 'k \<Rightarrow> int res" where
  "comparator_fn comparator left right =
     (case comparator left right of
        CmpBool b \<Rightarrow> Inr (if b then -1 else if truthy (comparator right left) then 1 else 0)
      | CmpNumber q \<Rightarrow> Inr (py_int q)
      | CmpOther _ \<Rightarrow> Inl TypeError)"

text \<open>
  \<open>sorted(xs, key=cmp_to_key(cmp))\<close>: a stable sort that only asks whether one element is less
  than another, here by inserting the elements one by one after those not greater.
\<close>

fun insert_sorted :: "('b \<Rightarrow> 'b \<Rightarrow> int res) \<Rightarrow> 'b \<Rightarrow> 'b list \<Rightarrow> 'b list res" where
  "insert_sorted cmp x [] = Inr [x]"
| "insert_sorted cmp x (y # ys) =
     rbind (cmp x y) (\<lambda>c. if c < 0 then Inr (x # y # ys)
                          else rbind (insert_sorted cmp x ys) (\<lambda>zs. Inr (y # zs)))"

definition py_sorted :: "('b \<Rightarrow> 'b \<Rightarrow> int res) \<Rightarrow> 'b list \<Rightarrow> 'b list res" where
  "py_sorted cmp xs = foldM (\<lambda>ys x. insert_sorted cmp x ys) [] xs"

section \<open>Sorted maps\<close>

record ('m, 'a, 'md) sorted_map =
  so_inner :: 'm
  so_comparator :: "'a pyval comparator"
  so_meta :: "'md option"

definition new_sorted_map ::
    "('m, 'a, 'v) hamt \<Rightarrow> 'm \<Rightarrow> 'a pyval comparator \<Rightarrow> 'md option \<Rightarrow> ('m, 'a, 'md) sorted_map" where
  "new_sorted_map H m comparator md =
     \<lparr>so_inner = pm_inner (new_map H m md), so_comparator = comparator, so_meta = md\<rparr>"

definition so_items :: "('m, 'a, 'v) hamt \<Rightarrow> ('m, 'a, 'md) sorted_map \<Rightarrow> ('a pyval \<times> 'v) list res" where
  "so_items H m =
     py_sorted (\<lambda>l r. comparator_fn (so_comparator m) (fst l) (fst r)) (public_items (h_items H (so_inner m)))"

definition so_new ::
    "('m, 'a, 'v) hamt \<Rightarrow> ('m, 'a, 'md) sorted_map \<Rightarrow> 'm \<Rightarrow> 'md option \<Rightarrow> ('m, 'a, 'md) sorted_map" where
  "so_new H self m md =
     new_sorted_map H m (so_comparator self) (if md = None then so_meta self else md)"

definition so_with_meta ::
    "('m, 'a, 'v) hamt \<Rightarrow> ('m, 'a, 'md) sorted_map \<Rightarrow> 'md option \<Rightarrow> ('m, 'a, 'md) sorted_map" where
  "so_with_meta H m md = so_new H m (so_inner m) md"

definition so_assoc ::
    "('m, 'a, 'v) hamt \<Rightarrow> ('m, 'a, 'md) sorted_map \<Rightarrow> ('a, 'v) kvs \<Rightarrow> ('m, 'a, 'md) sorted_map res" where
  "so_assoc H m kvs =
     (case kvs of (pairs, Some _) \<Rightarrow> Inl ValueError
      | (pairs, None) \<Rightarrow> Inr (so_new H m (h_assoc H pairs (so_inner m)) None))"

definition so_dissoc ::
    "('m, 'a, 'v) hamt \<Rightarrow> ('m, 'a, 'md) sorted_map \<Rightarrow> 'a pyval list \<Rightarrow> ('m, 'a, 'md) sorted_map" where
  "so_dissoc H m ks = so_new H m (h_dissoc H ks (so_inner m)) None"

text \<open>The hash map part, on which the inherited operations run.\<close>

definition so_base :: "('m, 'a, 'md) sorted_map \<Rightarrow> ('m, 'md) persistent_map" where
  "so_base m = \<lparr>pm_inner = so_inner m, pm_meta = so_meta m\<rparr>"

definition so_update ::
    "('m, 'a, 'v) hamt \<Rightarrow> ('m, 'a, 'md) sorted_map \<Rightarrow> ('a pyval \<times> 'v) list list \<Rightarrow> ('m, 'a, 'md) sorted_map" where
  "so_update H m maps = so_new H m (pm_inner (map_update H (so_base m) maps)) None"

definition so_update_with ::
    "('m, 'a, 'v) hamt \<Rightarrow> ('m, 'a, 'md) sorted_map \<Rightarrow> ('v \<Rightarrow> 'v \<Rightarrow> 'v) \<Rightarrow> ('a pyval \<times> 'v) list list \<Rightarrow>
     ('m, 'a, 'md) sorted_map" where
  "so_update_with H m merge_fn maps =
     so_new H m (foldl (\<lambda>i items. h_merge H merge_fn items i) (so_inner m) maps) None"

definition so_cons ::
    "('m, 'a, 'v) hamt \<Rightarrow> ('m, 'a, 'md) sorted_map \<Rightarrow> ('a, 'v) conj_arg list \<Rightarrow> ('m, 'a, 'md) sorted_map res" where
  "so_cons H m elems =
     rbind (map_cons H (so_base m) elems) (\<lambda>updated. Inr (so_new H m (pm_inner updated) None))"

definition so_empty :: "('m, 'a, 'v) hamt \<Rightarrow> ('m, 'a, 'md) sorted_map \<Rightarrow> ('m, 'a, 'md) sorted_map" where
  "so_empty H m = so_new H m (h_empty H) None"

definition so_seq ::
    "('m, 'a, 'v) hamt \<Rightarrow> ('m, 'a, 'md) sorted_map \<Rightarrow> ('a pyval \<times> 'v) list option res" where
  "so_seq H m = (if h_len H (so_inner m) = 0 then Inr None else rbind (so_items H m) (\<lambda>kvs. Inr (Some kvs)))"

definition so_rseq ::
    "('m, 'a, 'v) hamt \<Rightarrow> ('m, 'a, 'md) sorted_map \<Rightarrow> ('a pyval \<times> 'v) list option res" where
  "so_rseq H m =
     (if h_len H (so_inner m) = 0 then Inr None else rbind (so_items H m) (\<lambda>kvs. Inr (Some (rev kvs))))"

definition so_reduce_kv ::
    "('m, 'a, 'v) hamt \<Rightarrow> ('m, 'a, 'md) sorted_map \<Rightarrow> ('s \<Rightarrow> 'a pyval \<Rightarrow> 'v \<Rightarrow> 's reduction) \<Rightarrow> 's \<Rightarrow> 's res" where
  "so_reduce_kv H m f init = rbind (so_items H m) (\<lambda>kvs. Inr (kv_reduce f init kvs))"

definition make_sorted_map ::
    "('m, 'a, 'v) hamt \<Rightarrow> 'a pyval comparator \<Rightarrow> ('a, 'v) kvs \<Rightarrow> 'md option \<Rightarrow> ('m, 'a, 'md) sorted_map res" where
  "make_sorted_map H comparator kvs md =
     (case kvs of (pairs, Some _) \<Rightarrow> Inl ValueError
      | (pairs, None) \<Rightarrow> Inr (new_sorted_map H (h_assoc H pairs (h_empty H)) comparator md))"

section \<open>Sets\<close>

text \<open>A set is a map from storage keys to themselves.\<close>

type_synonym ('m, 'a) set_hamt = "('m, 'a, 'a storage_key) hamt"

record ('m, 'md) persistent_set =
  ps_inner :: 'm
  ps_meta :: "'md option"

definition h_members :: "('m, 'a) set_hamt \<Rightarrow> 'm \<Rightarrow> 'a storage_key list" where
  "h_members H m = map fst (h_items H m)"

definition h_set_of :: "('m, 'a) set_hamt \<Rightarrow> 'a storage_key list \<Rightarrow> 'm" where
  "h_set_of H ks = h_of H (map (\<lambda>k. (k, k)) ks)"

definition new_set :: "('m, 'a) set_hamt \<Rightarrow> 'm \<Rightarrow> 'md option \<Rightarrow> ('m, 'md) persistent_set" where
  "new_set H m md =
     \<lparr>ps_inner = h_set_of H (map (\<lambda>k. equivalence_key (public_key k)) (h_members H m)), ps_meta = md\<rparr>"

definition set_from_iterable ::
    "('m, 'a) set_hamt \<Rightarrow> 'a pyval list \<Rightarrow> 'md option \<Rightarrow> ('m, 'md) persistent_set" where
  "set_from_iterable H members md = new_set H (h_set_of H (map equivalence_key members)) md"

definition EMPTY_SET :: "('m, 'a) set_hamt \<Rightarrow> ('m, 'md) persistent_set" where
  "EMPTY_SET H = set_from_iterable H [] None"

definition set_contains :: "('m, 'a) set_hamt \<Rightarrow> ('m, 'md) persistent_set \<Rightarrow> 'a pyval \<Rightarrow> bool" where
  "set_contains H s item = h_has H (ps_inner s) (equivalence_key item)"

definition set_call :: "('m, 'a) set_hamt \<Rightarrow> ('m, 'md) persistent_set \<Rightarrow> 'a pyval \<Rightarrow> 'a pyval \<Rightarrow> 'a pyval" where
  "set_call H s key dflt = (if set_contains H s key then key else dflt)"

definition set_iter :: "('m, 'a) set_hamt \<Rightarrow> ('m, 'md) persistent_set \<Rightarrow> 'a pyval list" where
  "set_iter H s = map public_key (h_members H (ps_inner s))"

definition set_len :: "('m, 'a) set_hamt \<Rightarrow> ('m, 'md) persistent_set \<Rightarrow> nat" where
  "set_len H s = h_len H (ps_inner s)"

definition set_eq :: "('m, 'a) set_hamt \<Rightarrow> ('m, 'md) persistent_set \<Rightarrow> ('m, 'md) persistent_set \<Rightarrow> bool" where
  "set_eq H s other \<longleftrightarrow> set_len H s = set_len H other \<and> list_all (set_contains H other) (set_iter H s)"

definition set_hash :: "('m, 'a) set_hamt \<Rightarrow> ('a pyval \<Rightarrow> int) \<Rightarrow> ('m, 'md) persistent_set \<Rightarrow> int" where
  "set_hash H he s = hash_unordered (map he (set_iter H s))"

definition h_adjoin :: "('m, 'a) set_hamt \<Rightarrow> 'a pyval list \<Rightarrow> 'm \<Rightarrow> 'm" where
  "h_adjoin H elems m = foldl (\<lambda>m e. let k = equivalence_key e in h_set H k k m) m elems"

definition set_cons :: "('m, 'a) set_hamt \<Rightarrow> ('m, 'md) persistent_set \<Rightarrow> 'a pyval list \<Rightarrow> ('m, 'md) persistent_set" where
  "set_cons H s elems = new_set H (h_adjoin H elems (ps_inner s)) (ps_meta s)"

definition set_disj :: "('m, 'a) set_hamt \<Rightarrow> ('m, 'md) persistent_set \<Rightarrow> 'a pyval list \<Rightarrow> ('m, 'md) persistent_set" where
  "set_disj H s elems = new_set H (h_dissoc H elems (ps_inner s)) (ps_meta s)"

text \<open>\<open>with_meta\<close> builds the set again from the storage keys.\<close>

definition set_with_meta ::
    "('m, 'a) set_hamt \<Rightarrow> ('m, 'md) persistent_set \<Rightarrow> 'md option \<Rightarrow> ('m, 'md) persistent_set" where
  "set_with_meta H s md = new_set H (h_set_of H (map to_key (h_members H (ps_inner s)))) md"

definition set_empty :: "('m, 'a) set_hamt \<Rightarrow> ('m, 'md) persistent_set \<Rightarrow> ('m, 'md) persistent_set" where
  "set_empty H s = set_with_meta H (EMPTY_SET H) (ps_meta s)"

definition set_seq :: "('m, 'a) set_hamt \<Rightarrow> ('m, 'md) persistent_set \<Rightarrow> 'a pyval list option" where
  "set_seq H s = (if h_len H (ps_inner s) = 0 then None else Some (set_iter H s))"

text \<open>
  \<open>difference\<close> and \<open>intersection\<close> fold the operators \<open>-\<close> and \<open>&\<close> of Python's abstract sets: the
  members that the other set lacks, and the other set's members that this one has. The
  other sets are persistent sets of the model; the operators also take Python's own sets, whose
  membership test is Python's and which are not modelled.
\<close>

definition set_minus :: "('m, 'a) set_hamt \<Rightarrow> ('m, 'md) persistent_set \<Rightarrow> ('m, 'md) persistent_set \<Rightarrow> ('m, 'md) persistent_set" where
  "set_minus H s other = set_from_iterable H (filter (\<lambda>x. \<not> set_contains H other x) (set_iter H s)) None"

definition set_and :: "('m, 'a) set_hamt \<Rightarrow> ('m, 'md) persistent_set \<Rightarrow> ('m, 'md) persistent_set \<Rightarrow> ('m, 'md) persistent_set" where
  "set_and H s other = set_from_iterable H (filter (set_contains H s) (set_iter H other)) None"

definition set_difference ::
    "('m, 'a) set_hamt \<Rightarrow> ('m, 'md) persistent_set \<Rightarrow> ('m, 'md) persistent_set list \<Rightarrow> ('m, 'md) persistent_set" where
  "set_difference H s others = foldl (set_minus H) s others"

definition set_intersection ::
    "('m, 'a) set_hamt \<Rightarrow> ('m, 'md) persistent_set \<Rightarrow> ('m, 'md) persistent_set list \<Rightarrow> ('m, 'md) persistent_set" where
  "set_intersection H s others = foldl (set_and H) s others"

text \<open>Transient sets.\<close>

definition set_to_transient :: "('m, 'md) persistent_set \<Rightarrow> 'm" where
  "set_to_transient s = ps_inner s"

definition set_cons_transient :: "('m, 'a) set_hamt \<Rightarrow> 'm \<Rightarrow> 'a pyval list \<Rightarrow> 'm" where
  "set_cons_transient H m elems = foldl (\<lambda>m e. h_set H (equivalence_key e) (equivalence_key e) m) m elems"

definition set_disj_transient :: "('m, 'a) set_hamt \<Rightarrow> 'm \<Rightarrow> 'a pyval list \<Rightarrow> 'm" where
  "set_disj_transient H m elems = h_dissoc H elems m"

definition set_to_persistent :: "('m, 'a) set_hamt \<Rightarrow> 'm \<Rightarrow> ('m, 'md) persistent_set" where
  "set_to_persistent H m = new_set H m None"

text \<open>Sorted sets.\<close>

record ('m, 'a, 'md) sorted_set =
  ss_inner :: 'm
  ss_comparator :: "'a pyval comparator"
  ss_meta :: "'md option"

definition new_sorted_set ::
    "('m, 'a) set_hamt \<Rightarrow> 'm \<Rightarrow> 'a pyval comparator \<Rightarrow> 'md option \<Rightarrow> ('m, 'a, 'md) sorted_set" where
  "new_sorted_set H m comparator md =
     \<lparr>ss_inner = ps_inner (new_set H m md), ss_comparator = comparator, ss_meta = md\<rparr>"

definition ss_members :: "('m, 'a) set_hamt \<Rightarrow> ('m, 'a, 'md) sorted_set \<Rightarrow> 'a pyval list res" where
  "ss_members H s = py_sorted (comparator_fn (ss_comparator s)) (map public_key (h_members H (ss_inner s)))"

definition ss_new ::
    "('m, 'a) set_hamt \<Rightarrow> ('m, 'a, 'md) sorted_set \<Rightarrow> 'm \<Rightarrow> 'md option \<Rightarrow> ('m, 'a, 'md) sorted_set" where
  "ss_new H self m md = new_sorted_set H m (ss_comparator self) (if md = None then ss_meta self else md)"

definition ss_with_meta ::
    "('m, 'a) set_hamt \<Rightarrow> ('m, 'a, 'md) sorted_set \<Rightarrow> 'md option \<Rightarrow> ('m, 'a, 'md) sorted_set" where
  "ss_with_meta H s md = ss_new H s (ss_inner s) md"

definition ss_cons :: "('m, 'a) set_hamt \<Rightarrow> ('m, 'a, 'md) sorted_set \<Rightarrow> 'a pyval list \<Rightarrow> ('m, 'a, 'md) sorted_set" where
  "ss_cons H s elems = ss_new H s (h_adjoin H elems (ss_inner s)) None"

definition ss_disj :: "('m, 'a) set_hamt \<Rightarrow> ('m, 'a, 'md) sorted_set \<Rightarrow> 'a pyval list \<Rightarrow> ('m, 'a, 'md) sorted_set" where
  "ss_disj H s elems = ss_new H s (h_dissoc H elems (ss_inner s)) None"

definition ss_empty :: "('m, 'a) set_hamt \<Rightarrow> ('m, 'a, 'md) sorted_set \<Rightarrow> ('m, 'a, 'md) sorted_set" where
  "ss_empty H s = ss_new H s (h_empty H) None"

definition ss_seq :: "('m, 'a) set_hamt \<Rightarrow> ('m, 'a, 'md) sorted_set \<Rightarrow> 'a pyval list option res" where
  "ss_seq H s = (if h_len H (ss_inner s) = 0 then Inr None else rbind (ss_members H s) (\<lambda>xs. Inr (Some xs)))"

definition make_sorted_set ::
    "('m, 'a) set_hamt \<Rightarrow> 'a pyval comparator \<Rightarrow> 'a pyval list \<Rightarrow> 'md option \<Rightarrow> ('m, 'a, 'md) sorted_set" where
  "make_sorted_set H comparator members md =
     new_sorted_set H (h_set_of H (map equivalence_key members)) comparator md"

end
