(* ===== verification/OrderedMaps.thy ===== *)
theory OrderedMaps
  imports MapPrograms
begin

text \<open>
  Array maps, which keep insertion order, and struct maps, whose declared keys come first and
  are never removed (\<open>src/src/basilisp/lang/map.py\<close>). Reading a stored value that is missing would
  raise KeyError, so the items of a map are a result.
\<close>

section \<open>Array maps\<close>

record ('m, 'a, 'md) array_map =
  am_inner :: 'm
  am_order :: "'a storage_key list"
  am_meta :: "'md option"

text \<open>One pair stored: the order grows by a key that is not in the map.\<close>

definition am_put ::
    "('m, 'a, 'v) hamt \<Rightarrow> 'm \<times> 'a storage_key list \<Rightarrow> 'a pyval \<times> 'v \<Rightarrow> 'm \<times> 'a storage_key list" where
  "am_put H s kv =
     (let storage_key = equivalence_key (fst kv) in
      (h_set H storage_key (snd kv) (fst s),
       if h_has H (fst s) storage_key then snd s else snd s @ [storage_key]))"

definition new_array_map ::
    "('m, 'a, 'v) hamt \<Rightarrow> ('a pyval \<times> 'v) list \<Rightarrow> 'md option \<Rightarrow> ('m, 'a, 'md) array_map" where
  "new_array_map H members md =
     (case foldl (am_put H) (h_empty H, []) members of
        (inner, order) \<Rightarrow> \<lparr>am_inner = inner, am_order = order, am_meta = md\<rparr>)"

text \<open>The keys in order, then those of the map that the order does not have.\<close>

definition am_keys :: "('m, 'a, 'v) hamt \<Rightarrow> ('m, 'a, 'md) array_map \<Rightarrow> 'a storage_key list" where
  "am_keys H m =
     (let yielded = filter (h_has H (am_inner m)) (am_order m)
      in yielded @ filter (\<lambda>k. \<not> list_ex (key_eq k) yielded) (map fst (h_items H (am_inner m))))"

definition ordered_item :: "('m, 'a, 'v) hamt \<Rightarrow> 'm \<Rightarrow> 'a storage_key \<Rightarrow> ('a pyval \<times> 'v) res" where
  "ordered_item H m k =
     (case h_get H m k of None \<Rightarrow> Inl KeyError | Some v \<Rightarrow> Inr (public_key k, v))"

definition am_items :: "('m, 'a, 'v) hamt \<Rightarrow> ('m, 'a, 'md) array_map \<Rightarrow> ('a pyval \<times> 'v) list res" where
  "am_items H m = mapM (ordered_item H (am_inner m)) (am_keys H m)"

text \<open>\<open>_new\<close>: None stands for "keep the metadata".\<close>

definition am_new ::
    "('m, 'a, 'md) array_map \<Rightarrow> 'm \<Rightarrow> 'a storage_key list option \<Rightarrow> 'md option \<Rightarrow> ('m, 'a, 'md) array_map" where
  "am_new self inner order md =
     \<lparr>am_inner = inner, am_order = (case order of None \<Rightarrow> am_order self | Some ks \<Rightarrow> ks),
      am_meta = (if md = None then am_meta self else md)\<rparr>"

definition am_with_meta :: "('m, 'a, 'md) array_map \<Rightarrow> 'md option \<Rightarrow> ('m, 'a, 'md) array_map" where
  "am_with_meta m md = am_new m (am_inner m) None md"

definition am_assoc ::
    "('m, 'a, 'v) hamt \<Rightarrow> ('m, 'a, 'md) array_map \<Rightarrow> ('a, 'v) kvs \<Rightarrow> ('m, 'a, 'md) array_map res" where
  "am_assoc H m kvs =
     (case kvs of (pairs, Some _) \<Rightarrow> Inl ValueError
      | (pairs, None) \<Rightarrow>
          (case foldl (am_put H) (am_inner m, am_order m) pairs of
             (inner, order) \<Rightarrow> Inr (am_new m inner (Some order) None)))"

definition am_dissoc ::
    "('m, 'a, 'v) hamt \<Rightarrow> ('m, 'a, 'md) array_map \<Rightarrow> 'a pyval list \<Rightarrow> ('m, 'a, 'md) array_map" where
  "am_dissoc H m ks =
     (let storage_keys = map equivalence_key ks;
          inner = foldl (\<lambda>i k. h_discard H k i) (am_inner m) storage_keys;
          order = filter (\<lambda>k. \<not> list_ex (key_eq k) storage_keys) (am_order m)
      in am_new m inner (Some order) None)"

fun am_conj ::
    "('m, 'a, 'v) hamt \<Rightarrow> ('m, 'a, 'md) array_map \<Rightarrow> ('a, 'v) conj_arg \<Rightarrow> ('m, 'a, 'md) array_map res" where
  "am_conj H m (MapArg items) = am_assoc H m (items, None)"
| "am_conj H m (EntryArg k v) = am_assoc H m ([(k, v)], None)"
| "am_conj H m NoneArg = Inr m"
| "am_conj H m elem = rbind (entry_from_vector_arg elem) (\<lambda>kv. am_assoc H m ([kv], None))"

definition am_cons ::
    "('m, 'a, 'v) hamt \<Rightarrow> ('m, 'a, 'md) array_map \<Rightarrow> ('a, 'v) conj_arg list \<Rightarrow> ('m, 'a, 'md) array_map res" where
  "am_cons H m elems = conj_error (foldM (am_conj H) m elems)"

definition am_empty :: "('m, 'a, 'v) hamt \<Rightarrow> ('m, 'a, 'md) array_map \<Rightarrow> ('m, 'a, 'md) array_map" where
  "am_empty H m = new_array_map H [] (am_meta m)"

definition am_seq ::
    "('m, 'a, 'v) hamt \<Rightarrow> ('m, 'a, 'md) array_map \<Rightarrow> ('a pyval \<times> 'v) list option res" where
  "am_seq H m = (if h_len H (am_inner m) = 0 then Inr None else rbind (am_items H m) (\<lambda>kvs. Inr (Some kvs)))"

definition am_reduce_kv ::
    "('m, 'a, 'v) hamt \<Rightarrow> ('m, 'a, 'md) array_map \<Rightarrow> ('s \<Rightarrow> 'a pyval \<Rightarrow> 'v \<Rightarrow> 's reduction) \<Rightarrow> 's \<Rightarrow> 's res" where
  "am_reduce_kv H m f init = rbind (am_items H m) (\<lambda>kvs. Inr (kv_reduce f init kvs))"

text \<open>\<open>update\<close> is inherited: it makes a plain hash map of the underlying map.\<close>

definition am_update ::
    "('m, 'a, 'v) hamt \<Rightarrow> ('m, 'a, 'md) array_map \<Rightarrow> ('a pyval \<times> 'v) list list \<Rightarrow> ('m, 'md) persistent_map" where
  "am_update H m maps = map_update H \<lparr>pm_inner = am_inner m, pm_meta = am_meta m\<rparr> maps"

definition make_array_map :: "('m, 'a, 'v) hamt \<Rightarrow> ('a, 'v) kvs \<Rightarrow> ('m, 'a, 'md) array_map res" where
  "make_array_map H kvs =
     (case kvs of (pairs, Some _) \<Rightarrow> Inl ValueError | (pairs, None) \<Rightarrow> Inr (new_array_map H pairs None))"

section \<open>Struct maps\<close>

text \<open>A definition has an identity, which accessors compare.\<close>

record 'a struct_definition =
  sd_id :: nat
  sd_keys :: "'a pyval list"
  sd_storage_keys :: "'a storage_key list"

definition new_struct_definition :: "nat \<Rightarrow> 'a pyval list \<Rightarrow> 'a struct_definition res" where
  "new_struct_definition i keys =
     (let sks = map equivalence_key keys in
      if \<not> distinct (map key_id sks) then Inl ValueError
      else Inr \<lparr>sd_id = i, sd_keys = keys, sd_storage_keys = sks\<rparr>)"

definition contains_key :: "'a struct_definition \<Rightarrow> 'a pyval \<Rightarrow> bool" where
  "contains_key d k = list_ex (key_eq (equivalence_key k)) (sd_storage_keys d)"

record ('m, 'a, 'md) struct_map =
  sm_definition :: "'a struct_definition"
  sm_inner :: 'm
  sm_meta :: "'md option"

text \<open>The constructor, on an underlying map: missing declared keys are stored as None.\<close>

definition new_struct_map ::
    "('m, 'a, 'v) hamt \<Rightarrow> 'v \<Rightarrow> 'a struct_definition \<Rightarrow> 'm \<Rightarrow> 'md option \<Rightarrow> ('m, 'a, 'md) struct_map" where
  "new_struct_map H nil d m md =
     (let inner = foldl (\<lambda>i k. if h_has H i (equivalence_key k) then i
                               else h_set H (equivalence_key k) nil i) m (sd_keys d)
      in \<lparr>sm_definition = d, sm_inner = pm_inner (new_map H inner md), sm_meta = md\<rparr>)"

definition struct ::
    "('m, 'a, 'v) hamt \<Rightarrow> 'v \<Rightarrow> 'a struct_definition \<Rightarrow> 'v list \<Rightarrow> ('m, 'a, 'md) struct_map res" where
  "struct H nil d values =
     (if length values > length (sd_keys d) then Inl ValueError
      else Inr (new_struct_map H nil d (h_of H (map (apfst equivalence_key) (zip (sd_keys d) values))) None))"

definition sm_new ::
    "('m, 'a, 'v) hamt \<Rightarrow> 'v \<Rightarrow> ('m, 'a, 'md) struct_map \<Rightarrow> 'm \<Rightarrow> 'md option \<Rightarrow> ('m, 'a, 'md) struct_map" where
  "sm_new H nil self m md =
     new_struct_map H nil (sm_definition self) m (if md = None then sm_meta self else md)"

definition sm_with_meta ::
    "('m, 'a, 'v) hamt \<Rightarrow> 'v \<Rightarrow> ('m, 'a, 'md) struct_map \<Rightarrow> 'md option \<Rightarrow> ('m, 'a, 'md) struct_map" where
  "sm_with_meta H nil m md = new_struct_map H nil (sm_definition m) (sm_inner m) md"

definition sm_assoc ::
    "('m, 'a, 'v) hamt \<Rightarrow> 'v \<Rightarrow> ('m, 'a, 'md) struct_map \<Rightarrow> ('a, 'v) kvs \<Rightarrow> ('m, 'a, 'md) struct_map res" where
  "sm_assoc H nil m kvs =
     (case kvs of (pairs, Some _) \<Rightarrow> Inl ValueError
      | (pairs, None) \<Rightarrow> Inr (sm_new H nil m (h_assoc H pairs (sm_inner m)) None))"

definition sm_dissoc ::
    "('m, 'a, 'v) hamt \<Rightarrow> 'v \<Rightarrow> ('m, 'a, 'md) struct_map \<Rightarrow> 'a pyval list \<Rightarrow> ('m, 'a, 'md) struct_map res" where
  "sm_dissoc H nil m ks =
     rbind (foldM (\<lambda>i k. if contains_key (sm_definition m) k then Inl RuntimeError
                         else Inr (h_discard H (equivalence_key k) i)) (sm_inner m) ks)
       (\<lambda>inner. Inr (sm_new H nil m inner None))"

fun sm_conj ::
    "('m, 'a, 'v) hamt \<Rightarrow> 'v \<Rightarrow> ('m, 'a, 'md) struct_map \<Rightarrow> ('a, 'v) conj_arg \<Rightarrow> ('m, 'a, 'md) struct_map res" where
  "sm_conj H nil m (MapArg items) = sm_assoc H nil m (items, None)"
| "sm_conj H nil m (EntryArg k v) = sm_assoc H nil m ([(k, v)], None)"
| "sm_conj H nil m NoneArg = Inr m"
| "sm_conj H nil m elem = rbind (entry_from_vector_arg elem) (\<lambda>kv. sm_assoc H nil m ([kv], None))"

definition sm_cons ::
    "('m, 'a, 'v) hamt \<Rightarrow> 'v \<Rightarrow> ('m, 'a, 'md) struct_map \<Rightarrow> ('a, 'v) conj_arg list \<Rightarrow>
     ('m, 'a, 'md) struct_map res" where
  "sm_cons H nil m elems = conj_error (foldM (sm_conj H nil) m elems)"

definition sm_empty :: "('m, 'a, 'v) hamt \<Rightarrow> 'v \<Rightarrow> ('m, 'a, 'md) struct_map \<Rightarrow> ('m, 'a, 'md) struct_map" where
  "sm_empty H nil m = new_struct_map H nil (sm_definition m) (h_empty H) None"

definition sm_to_transient :: "('m, 'a, 'md) struct_map \<Rightarrow> 'm res" where
  "sm_to_transient m = Inl TypeError"

definition sm_keys :: "('m, 'a, 'v) hamt \<Rightarrow> ('m, 'a, 'md) struct_map \<Rightarrow> 'a storage_key list" where
  "sm_keys H m =
     (let declared = sd_storage_keys (sm_definition m)
      in declared @ filter (\<lambda>k. \<not> list_ex (key_eq k) declared) (map fst (h_items H (sm_inner m))))"

definition sm_items :: "('m, 'a, 'v) hamt \<Rightarrow> ('m, 'a, 'md) struct_map \<Rightarrow> ('a pyval \<times> 'v) list res" where
  "sm_items H m = mapM (ordered_item H (sm_inner m)) (sm_keys H m)"

definition sm_val_at :: "('m, 'a, 'v) hamt \<Rightarrow> ('m, 'a, 'md) struct_map \<Rightarrow> 'a pyval \<Rightarrow> 'v \<Rightarrow> 'v" where
  "sm_val_at H m k dflt =
     (case h_get H (sm_inner m) (equivalence_key k) of None \<Rightarrow> dflt | Some v \<Rightarrow> v)"

definition make_struct_map ::
    "('m, 'a, 'v) hamt \<Rightarrow> 'v \<Rightarrow> 'a struct_definition \<Rightarrow> ('a, 'v) kvs \<Rightarrow> ('m, 'a, 'md) struct_map res" where
  "make_struct_map H nil d inits =
     (case inits of (pairs, Some _) \<Rightarrow> Inl ValueError
      | (pairs, None) \<Rightarrow> rbind (struct H nil d []) (\<lambda>m. sm_assoc H nil m (pairs, None)))"

text \<open>Accessors. The argument of a call is a struct map or something else (None).\<close>

record 'a struct_accessor =
  sa_definition :: "'a struct_definition"
  sa_key :: "'a pyval"

definition accessor :: "'a struct_definition \<Rightarrow> 'a pyval \<Rightarrow> 'a struct_accessor res" where
  "accessor d k = (if \<not> contains_key d k then Inl ValueError else Inr \<lparr>sa_definition = d, sa_key = k\<rparr>)"

definition accessor_call ::
    "('m, 'a, 'v) hamt \<Rightarrow> 'v \<Rightarrow> 'a struct_accessor \<Rightarrow> ('m, 'a, 'md) struct_map option \<Rightarrow> 'v res" where
  "accessor_call H nil a m =
     (case m of None \<Rightarrow> Inl RuntimeError
      | Some sm \<Rightarrow>
          if sd_id (sm_definition sm) \<noteq> sd_id (sa_definition a) then Inl RuntimeError
          else Inr (sm_val_at H sm (sa_key a) nil))"

end
