(* ===== verification/OrderedCorrect.thy ===== *)
theory OrderedCorrect
  imports OrderedMaps
begin

text \<open>
  Array maps are association lists in insertion order, and struct maps are finite maps that keep
  their declared keys.
\<close>

section \<open>Array maps as association lists\<close>

datatype ('a, 'v, 'md) array_op =
    AAssoc "('a, 'v) kvs"
  | ADissoc "'a pyval list"
  | ACons "('a, 'v) conj_arg list"
  | AWithMeta "'md option"
  | AEmpty

fun am_step ::
    "('m, 'a, 'v) hamt \<Rightarrow> ('m, 'a, 'md) array_map \<Rightarrow> ('a, 'v, 'md) array_op \<Rightarrow> ('m, 'a, 'md) array_map res" where
  "am_step H m (AAssoc kvs) = am_assoc H m kvs"
| "am_step H m (ADissoc ks) = Inr (am_dissoc H m ks)"
| "am_step H m (ACons elems) = am_cons H m elems"
| "am_step H m (AWithMeta md) = Inr (am_with_meta m md)"
| "am_step H m AEmpty = Inr (am_empty H m)"

type_synonym ('a, 'v) ordered = "('a ckey \<times> 'v) list"

definition update_last :: "('a, 'v) ordered \<Rightarrow> 'a pyval \<times> 'v \<Rightarrow> ('a, 'v) ordered" where
  "update_last xs kv = AList.update (ckey_of (fst kv)) (snd kv) xs"

definition remove_keys :: "'a pyval list \<Rightarrow> ('a, 'v) ordered \<Rightarrow> ('a, 'v) ordered" where
  "remove_keys ks xs = filter (\<lambda>x. fst x \<notin> ckey_of ` set ks) xs"

fun ordered_conj :: "('a, 'v) ordered \<Rightarrow> ('a, 'v) conj_arg \<Rightarrow> ('a, 'v) ordered res" where
  "ordered_conj xs (MapArg items) = Inr (foldl update_last xs items)"
| "ordered_conj xs (EntryArg k v) = Inr (update_last xs (k, v))"
| "ordered_conj xs NoneArg = Inr xs"
| "ordered_conj xs (VecArg (Some kv)) = Inr (update_last xs kv)"
| "ordered_conj xs (VecArg None) = Inl ValueError"
| "ordered_conj xs (SizedArg kv) = Inl ValueError"
| "ordered_conj xs OtherArg = Inl ValueError"

fun ordered_step ::
    "('a, 'v) ordered \<times> 'md option \<Rightarrow> ('a, 'v, 'md) array_op \<Rightarrow> (('a, 'v) ordered \<times> 'md option) res" where
  "ordered_step (xs, md) (AAssoc (pairs, None)) = Inr (foldl update_last xs pairs, md)"
| "ordered_step (xs, md) (AAssoc (pairs, Some k)) = Inl ValueError"
| "ordered_step (xs, md) (ADissoc ks) = Inr (remove_keys ks xs, md)"
| "ordered_step (xs, md) (ACons elems) = rbind (foldM ordered_conj xs elems) (\<lambda>ys. Inr (ys, md))"
| "ordered_step (xs, md) (AWithMeta md') = Inr (xs, if md' = None then md else md')"
| "ordered_step (xs, md) AEmpty = Inr ([], md)"

lemma foldl_drop_key: "foldl drop_key c ks x = (if x \<in> ckey_of ` set ks then None else c x)"
  by (induction ks arbitrary: c) (auto simp: drop_key_def)

lemma map_of_remove_keys: "map_of (remove_keys ks xs) = foldl drop_key (map_of xs) ks"
proof
  fix x
  have "map_of (filter (\<lambda>y. fst y \<notin> A) xs) x = (if x \<in> A then None else map_of xs x)" for A
    by (induction xs) auto
  then show "map_of (remove_keys ks xs) x = foldl drop_key (map_of xs) ks x"
    by (simp add: remove_keys_def foldl_drop_key)
qed

lemma h_dissoc_keys: "foldl (\<lambda>i k. h_discard H k i) m (map equivalence_key ks) = h_dissoc H ks m"
  by (simp add: h_dissoc_def foldl_map)

lemma wf_key_eq:
  "wf_key k \<Longrightarrow> wf_key k' \<Longrightarrow> key_eq k k' \<longleftrightarrow> ckey_of (public_key k) = ckey_of (public_key k')"
  by (simp add: key_eq_id wf_key_id)

lemma list_ex_key_eq:
  "wf_key k \<Longrightarrow> \<forall>k' \<in> set ks. wf_key k' \<Longrightarrow>
    list_ex (key_eq k) ks \<longleftrightarrow> ckey_of (public_key k) \<in> (\<lambda>k'. ckey_of (public_key k')) ` set ks"
  by (induction ks) (auto simp: wf_key_eq)

context hash_map begin

text \<open>The underlying map holds \<open>xs\<close>, and the order is that of its keys.\<close>

definition order_rel :: "'m \<times> 'a storage_key list \<Rightarrow> ('a, 'v) ordered \<Rightarrow> bool" where
  "order_rel s xs \<longleftrightarrow> holds (fst s) (map_of xs) \<and> distinct (map fst xs) \<and>
     (\<forall>k \<in> set (snd s). wf_key k) \<and> map (\<lambda>k. ckey_of (public_key k)) (snd s) = map fst xs"

definition array_rel :: "('m, 'a, 'md) array_map \<Rightarrow> ('a, 'v) ordered \<times> 'md option \<Rightarrow> bool" where
  "array_rel m s \<longleftrightarrow> order_rel (am_inner m, am_order m) (fst s) \<and> am_meta m = snd s"

lemma holds_has: "holds m c \<Longrightarrow> h_has H m (equivalence_key k) \<longleftrightarrow> c (ckey_of k) \<noteq> None"
  by (auto simp: holds_def sound_ok has_contents)

lemma order_rel_put: "order_rel s xs \<Longrightarrow> order_rel (am_put H s kv) (update_last xs kv)"
proof -
  obtain k v where kv: "kv = (k, v)" by (cases kv)
  assume r: "order_rel s xs"
  then have h: "holds (fst s) (map_of xs)" by (simp add: order_rel_def)
  have "holds (h_set H (equivalence_key k) v (fst s)) (map_of (update_last xs kv))"
    using holds_set [OF h, of k v] by (simp add: update_last_def kv update_conv' put_def)
  then show ?thesis
    using r by (auto simp: order_rel_def am_put_def kv update_last_def Let_def update_keys distinct_update
        holds_has [OF h] map_of_eq_None_iff)
qed

lemma order_rel_puts: "order_rel s xs \<Longrightarrow> order_rel (foldl (am_put H) s kvs) (foldl update_last xs kvs)"
  by (induction kvs arbitrary: s xs) (simp_all add: order_rel_put)

lemma new_array_map_rel: "array_rel (new_array_map H members md) (foldl update_last [] members, md)"
proof -
  have "order_rel (h_empty H, []) []" using holds_empty by (simp add: order_rel_def)
  from order_rel_puts [OF this, of members] show ?thesis
    by (cases "foldl (am_put H) (h_empty H, []) members") (simp add: array_rel_def new_array_map_def)
qed

lemma am_assoc_rel:
  assumes "array_rel m (xs, md)"
  shows "rel_res array_rel (am_assoc H m (pairs, None)) (Inr (foldl update_last xs pairs, md))"
  using assms order_rel_puts [of "(am_inner m, am_order m)" xs pairs]
  by (auto simp: am_assoc_def array_rel_def am_new_def split: prod.split)

lemma remove_keys_rel:
  assumes "order_rel (m, ks) xs"
  shows "order_rel (h_dissoc H rs m, filter (\<lambda>k. \<not> list_ex (key_eq k) (map equivalence_key rs)) ks)
    (remove_keys rs xs)"
proof -
  have wf: "\<forall>k \<in> set ks. wf_key k" and keys: "map (\<lambda>k. ckey_of (public_key k)) ks = map fst xs"
    and dist: "distinct (map fst xs)" and h: "holds m (map_of xs)"
    using assms by (auto simp: order_rel_def)
  have "filter (\<lambda>k. \<not> list_ex (key_eq k) (map equivalence_key rs)) ks =
      filter (\<lambda>k. ckey_of (public_key k) \<notin> ckey_of ` set rs) ks"
    using wf by (intro filter_cong) (auto simp: list_ex_key_eq image_image)
  moreover have "map (\<lambda>k. ckey_of (public_key k)) (filter (\<lambda>k. ckey_of (public_key k) \<notin> ckey_of ` set rs) ks) =
      map fst (remove_keys rs xs)"
  proof -
    have "map g (filter (\<lambda>k. g k \<notin> A) ks) = filter (\<lambda>c. c \<notin> A) (map g ks)" for g :: "'a storage_key \<Rightarrow> 'a ckey" and A
      by (simp add: filter_map comp_def)
    moreover have "map fst (filter (\<lambda>x. fst x \<notin> A) xs) = filter (\<lambda>c. c \<notin> A) (map fst xs)" for A
      by (simp add: filter_map comp_def)
    ultimately show ?thesis by (simp add: remove_keys_def keys)
  qed
  moreover have "distinct (map fst (remove_keys rs xs))"
    using dist by (simp add: remove_keys_def distinct_map_filter)
  ultimately show ?thesis
    using wf holds_dissoc [OF h, of rs] by (simp add: order_rel_def map_of_remove_keys)
qed

lemma am_conj_rel:
  assumes "array_rel m (xs, md)"
  shows "rel_res array_rel (conj_error (am_conj H m e)) (rbind (ordered_conj xs e) (\<lambda>ys. Inr (ys, md)))"
proof -
  have lift: "rel_res array_rel (conj_error (am_assoc H m (pairs, None))) (Inr (foldl update_last xs pairs, md))" for pairs
    using am_assoc_rel [OF assms, of pairs] by (cases "am_assoc H m (pairs, None)") auto
  show ?thesis
  proof (cases e)
    case (VecArg kv)
    then show ?thesis using lift [of "[the kv]"] by (cases kv) auto
  qed (use assms lift lift [of "[(_, _)]"] in auto)
qed

lemma am_cons_rel:
  assumes "array_rel m (xs, md)"
  shows "rel_res array_rel (am_cons H m elems) (rbind (foldM ordered_conj xs elems) (\<lambda>ys. Inr (ys, md)))"
  unfolding am_cons_def conj_error_foldM
  using assms
proof (induction elems arbitrary: m xs)
  case (Cons e elems)
  have *: "rel_res array_rel (conj_error (am_conj H m e)) (rbind (ordered_conj xs e) (\<lambda>ys. Inr (ys, md)))"
    by (rule am_conj_rel [OF Cons.prems])
  show ?case
  proof (cases "ordered_conj xs e")
    case (Inl err)
    then show ?thesis using * by (cases "conj_error (am_conj H m e)") auto
  next
    case (Inr ys)
    then show ?thesis using * Cons.IH by (cases "conj_error (am_conj H m e)") auto
  qed
qed simp

lemma am_step_rel:
  assumes "array_rel m s"
  shows "rel_res array_rel (am_step H m p) (ordered_step s p)"
proof -
  obtain xs md where s: "s = (xs, md)" by (cases s)
  note r = assms [unfolded s]
  show ?thesis
  proof (cases p)
    case (AAssoc kvs)
    then show ?thesis
      using am_assoc_rel [OF r] by (cases kvs; cases "snd kvs") (auto simp: s am_assoc_def)
  next
    case (ADissoc ks)
    then show ?thesis
      using r remove_keys_rel [of "am_inner m" "am_order m" xs ks]
      by (simp add: s am_dissoc_def Let_def h_dissoc_keys array_rel_def am_new_def)
  next
    case (ACons elems)
    then show ?thesis using am_cons_rel [OF r] by (simp add: s)
  next
    case (AWithMeta md')
    then show ?thesis using r by (simp add: s am_with_meta_def am_new_def array_rel_def)
  next
    case AEmpty
    then show ?thesis using r new_array_map_rel [of "[]" md] by (simp add: s am_empty_def array_rel_def)
  qed
qed

lemma ordered_item_rel:
  "holds m c \<Longrightarrow> wf_key k \<Longrightarrow> c (ckey_of (public_key k)) = Some v \<Longrightarrow> ordered_item H m k = Inr (public_key k, v)"
  using get_contents [of m "public_key k"] by (auto simp: ordered_item_def holds_def sound_ok wf_key_def)

lemma holds_keys:
  assumes "holds m c"
  shows "(\<forall>k \<in> fst ` set (h_items H m). wf_key k) \<and>
    (\<lambda>kv. ckey_of (public_key (fst kv))) ` set (h_items H m) = dom c"
proof -
  have "map_of (map (\<lambda>kv. (ckey_of (fst kv), snd kv)) (public_items (h_items H m))) = c"
    using items_rel [of "\<lparr>pm_inner = m, pm_meta = None\<rparr>" c] assms by (simp add: map_items_def)
  then have "dom c = (\<lambda>kv. ckey_of (fst kv)) ` set (public_items (h_items H m))"
    using dom_map_of_items [of ckey_of "public_items (h_items H m)"] by simp
  also have "\<dots> = (\<lambda>kv. ckey_of (public_key (fst kv))) ` set (h_items H m)"
    by (simp add: public_items_def image_comp comp_def)
  finally show ?thesis using assms by (simp add: holds_def sound_def)
qed

lemma array_items:
  assumes "array_rel m (xs, md)"
  shows "\<exists>kvs. am_items H m = Inr kvs \<and> map (\<lambda>kv. (ckey_of (fst kv), snd kv)) kvs = xs"
proof -
  have wf: "\<forall>k \<in> set (am_order m). wf_key k" and keys: "map (\<lambda>k. ckey_of (public_key k)) (am_order m) = map fst xs"
    and dist: "distinct (map fst xs)" and h: "holds (am_inner m) (map_of xs)"
    using assms by (auto simp: array_rel_def order_rel_def)
  have set_keys: "(\<lambda>k. ckey_of (public_key k)) ` set (am_order m) = fst ` set xs"
    using arg_cong [OF keys, of set] by simp
  have "h_has H (am_inner m) k" if "k \<in> set (am_order m)" for k
  proof -
    have "ckey_of (public_key k) \<in> fst ` set xs" using set_keys that by auto
    then show ?thesis
      using that wf holds_has [OF h, of "public_key k"] by (auto simp: wf_key_def map_of_eq_None_iff)
  qed
  then have yielded: "filter (h_has H (am_inner m)) (am_order m) = am_order m" by simp
  have "list_ex (key_eq k) (am_order m)" if "k \<in> fst ` set (h_items H (am_inner m))" for k
  proof -
    have "ckey_of (public_key k) \<in> dom (map_of xs)" using holds_keys [OF h] that by force
    then show ?thesis
      using list_ex_key_eq [of k "am_order m"] wf holds_keys [OF h] that set_keys
      by (auto simp: dom_map_of_conv_image_fst)
  qed
  then have keys_eq: "am_keys H m = am_order m"
    by (auto simp: am_keys_def Let_def yielded filter_empty_conv)
  define val where "val k = the (map_of xs (ckey_of (public_key k)))" for k
  have item: "ordered_item H (am_inner m) k = Inr (public_key k, val k)" if "k \<in> set (am_order m)" for k
  proof -
    have "ckey_of (public_key k) \<in> fst ` set xs" using set_keys that by auto
    then have "map_of xs (ckey_of (public_key k)) = Some (val k)"
      unfolding val_def by (simp add: map_of_eq_None_iff flip: dom_map_of_conv_image_fst)
    then show ?thesis using ordered_item_rel [OF h] wf that by blast
  qed
  have "am_items H m = Inr (map (\<lambda>k. (public_key k, val k)) (am_order m))"
    unfolding am_items_def keys_eq by (rule mapM_map) (rule item)
  moreover have "map (\<lambda>k. (ckey_of (public_key k), val k)) (am_order m) = map (\<lambda>c. (c, the (map_of xs c))) (map fst xs)"
    unfolding keys [symmetric] by (simp add: val_def)
  moreover have "map (\<lambda>c. (c, the (map_of xs c))) (map fst xs) = xs"
    using dist by (intro map_idI [THEN trans [OF map_map]]) (auto simp: map_of_is_SomeI)
  ultimately show ?thesis by (simp add: comp_def)
qed

lemma array_program_rel:
  "rel_res array_rel (foldM (am_step H) (new_array_map H members md) ops)
    (foldM ordered_step (foldl update_last [] members, md) ops)"
  by (rule rel_res_foldM) (simp_all add: am_step_rel new_array_map_rel)

end

text \<open>
  Array maps are association lists in insertion order. Any program of \<open>assoc\<close>, \<open>dissoc\<close>, \<open>cons\<close>,
  \<open>with_meta\<close> and \<open>empty\<close> on an array map raises the error that it raises on the association list,
  or ends in a map whose items, read in order, are that list: a new key goes to the end, a key
  stored again keeps its place, a removed key leaves the others in place. (\<open>with_meta\<close> of None
  keeps the metadata, as the code does.)
\<close>

theorem array_map_refines_alist:
  assumes "hash_map H ok"
  shows "case foldM (am_step H) (new_array_map H members md) ops of
      Inl e \<Rightarrow> foldM ordered_step (foldl update_last [] members, md) ops = Inl e
    | Inr m \<Rightarrow> (\<exists>kvs. am_items H m = Inr kvs \<and>
        foldM ordered_step (foldl update_last [] members, md) ops =
          Inr (map (\<lambda>kv. (ckey_of (fst kv), snd kv)) kvs, am_meta m))"
proof (cases "foldM (am_step H) (new_array_map H members md) ops")
  case (Inl e)
  then show ?thesis using hash_map.array_program_rel [OF assms, of members md ops] by simp
next
  case (Inr m)
  then obtain xs md' where s: "foldM ordered_step (foldl update_last [] members, md) ops = Inr (xs, md')"
    and r: "hash_map.array_rel H ok m (xs, md')"
    using hash_map.array_program_rel [OF assms, of members md ops]
    by (cases "foldM ordered_step (foldl update_last [] members, md) ops") auto
  then have "am_meta m = md'" by (simp add: hash_map.array_rel_def [OF assms])
  then show ?thesis using Inr s hash_map.array_items [OF assms r] by auto
qed

definition demo_array_ops :: "(nat, nat, unit) array_op list" where
  "demo_array_ops = [AAssoc ([(PyInt 3, 30), (PyInt 2, 21)], None), ADissoc [PyInt 1]]"

theorem array_map_refines_alist_witness:
  "case foldM (am_step alist_hamt) (new_array_map alist_hamt [(PyInt 2, 20), (PyInt 1, 10)] None) demo_array_ops of
     Inl e \<Rightarrow> False
   | Inr m \<Rightarrow> (\<exists>kvs. am_items alist_hamt m = Inr kvs \<and> map snd kvs = [21, 30])"
proof -
  have spec: "foldM ordered_step (foldl update_last [] [(PyInt 2, 20), (PyInt 1, 10)], None) demo_array_ops =
    Inr ([((Some Integer, Number 2), 21), ((Some Integer, Number 3), 30)], None)"
    by (simp add: update_last_def remove_keys_def ckey_of_def demo_array_ops_def)
  note * = array_map_refines_alist [OF alist.hash_map_axioms, of "[(PyInt 2, 20), (PyInt 1, 10)]" None demo_array_ops,
      unfolded spec]
  show ?thesis
  proof (cases "foldM (am_step alist_hamt) (new_array_map alist_hamt [(PyInt 2, 20), (PyInt 1, 10)] None) demo_array_ops")
    case (Inl e)
    with * show ?thesis by simp
  next
    case (Inr m)
    with * obtain kvs where kvs: "am_items alist_hamt m = Inr kvs"
      "map (\<lambda>kv. (ckey_of (fst kv), snd kv)) kvs = [((Some Integer, Number 2), 21), ((Some Integer, Number 3), 30)]"
      by auto
    have "map snd kvs = map snd (map (\<lambda>kv. (ckey_of (fst kv), snd kv)) kvs)" by simp
    then have "map snd kvs = [21, 30]" unfolding kvs(2) by simp
    with kvs(1) Inr show ?thesis by simp
  qed
qed

section \<open>Struct maps\<close>

datatype ('a, 'v, 'md) struct_op =
    SAssoc "('a, 'v) kvs"
  | SDissoc "'a pyval list"
  | SCons "('a, 'v) conj_arg list"
  | SWithMeta "'md option"
  | SEmpty

fun sm_step ::
    "('m, 'a, 'v) hamt \<Rightarrow> 'v \<Rightarrow> ('m, 'a, 'md) struct_map \<Rightarrow> ('a, 'v, 'md) struct_op \<Rightarrow>
     ('m, 'a, 'md) struct_map res" where
  "sm_step H nil m (SAssoc kvs) = sm_assoc H nil m kvs"
| "sm_step H nil m (SDissoc ks) = sm_dissoc H nil m ks"
| "sm_step H nil m (SCons elems) = sm_cons H nil m elems"
| "sm_step H nil m (SWithMeta md) = Inr (sm_with_meta H nil m md)"
| "sm_step H nil m SEmpty = Inr (sm_empty H nil m)"

text \<open>A finite map with None for the declared keys it lacks.\<close>

definition fill :: "'v \<Rightarrow> 'a pyval list \<Rightarrow> ('a, 'v) finmap \<Rightarrow> ('a, 'v) finmap" where
  "fill nil keys c x = (if x \<in> ckey_of ` set keys \<and> c x = None then Some nil else c x)"

definition declared :: "'a pyval list \<Rightarrow> 'a pyval \<Rightarrow> bool" where
  "declared keys k \<longleftrightarrow> ckey_of k \<in> ckey_of ` set keys"

fun struct_step ::
    "'v \<Rightarrow> 'a pyval list \<Rightarrow> ('a, 'v) finmap \<times> 'md option \<Rightarrow> ('a, 'v, 'md) struct_op \<Rightarrow>
     (('a, 'v) finmap \<times> 'md option) res" where
  "struct_step nil keys (c, md) (SAssoc (pairs, None)) = Inr (foldl put c pairs, md)"
| "struct_step nil keys (c, md) (SAssoc (pairs, Some k)) = Inl ValueError"
| "struct_step nil keys (c, md) (SDissoc ks) =
     (if list_ex (declared keys) ks then Inl RuntimeError else Inr (foldl drop_key c ks, md))"
| "struct_step nil keys (c, md) (SCons elems) = rbind (foldM spec_conj c elems) (\<lambda>c'. Inr (c', md))"
| "struct_step nil keys (c, md) (SWithMeta md') = Inr (c, md')"
| "struct_step nil keys (c, md) SEmpty = Inr (fill nil keys (\<lambda>x. None), None)"

lemma fill_id: "ckey_of ` set keys \<subseteq> dom c \<Longrightarrow> fill nil keys c = c"
  by (auto simp: fill_def fun_eq_iff domIff)

lemma dom_fill: "dom (fill nil keys c) = dom c \<union> ckey_of ` set keys"
  by (auto simp: fill_def dom_def)

lemma dom_puts: "dom c \<subseteq> dom (foldl put c kvs)"
proof (induction kvs arbitrary: c)
  case (Cons kv kvs)
  have "dom c \<subseteq> dom (put c kv)" by (auto simp: put_def)
  then show ?case using Cons [of "put c kv"] by simp
qed simp

context hash_map begin

definition struct_rel ::
    "'a struct_definition \<Rightarrow> ('m, 'a, 'md) struct_map \<Rightarrow> ('a, 'v) finmap \<times> 'md option \<Rightarrow> bool" where
  "struct_rel d m s \<longleftrightarrow> holds (sm_inner m) (fst s) \<and> ckey_of ` set (sd_keys d) \<subseteq> dom (fst s) \<and>
     sm_meta m = snd s \<and> sm_definition m = d \<and> sd_storage_keys d = map equivalence_key (sd_keys d)"

lemma holds_fill:
  "holds m c \<Longrightarrow> holds (foldl (\<lambda>i k. if h_has H i (equivalence_key k) then i
      else h_set H (equivalence_key k) nil i) m keys) (fill nil keys c)"
proof (induction keys arbitrary: m c)
  case Nil
  then show ?case by (simp add: fill_def [abs_def])
next
  case (Cons k keys)
  define c' where "c' = (if c (ckey_of k) = None then put c (k, nil) else c)"
  have "holds (if h_has H m (equivalence_key k) then m else h_set H (equivalence_key k) nil m) c'"
    using Cons.prems holds_set [OF Cons.prems, of k nil] by (auto simp: c'_def holds_has [OF Cons.prems])
  note IH = Cons.IH [OF this]
  have "fill nil keys c' = fill nil (k # keys) c"
    by (rule ext) (auto simp: fill_def c'_def put_def)
  then show ?case using IH by (simp only: foldl_Cons)
qed

lemma new_struct_map_rel:
  assumes "holds m c" "sd_storage_keys d = map equivalence_key (sd_keys d)"
  shows "struct_rel d (new_struct_map H nil d m md) (fill nil (sd_keys d) c, md)"
  using assms map_relD [OF holds_new_map [OF holds_fill [OF assms(1), of nil "sd_keys d"]]]
  by (simp add: struct_rel_def new_struct_map_def Let_def dom_fill)

lemma sm_new_rel:
  assumes "struct_rel d m (c, md)" "holds i c'" "ckey_of ` set (sd_keys d) \<subseteq> dom c'"
  shows "struct_rel d (sm_new H nil m i None) (c', md)"
  using assms new_struct_map_rel [OF assms(2), of d nil md]
  by (simp add: struct_rel_def sm_new_def fill_id)

lemma sm_assoc_rel:
  assumes r: "struct_rel d m (c, md)"
  shows "rel_res (struct_rel d) (sm_assoc H nil m (pairs, None)) (Inr (foldl put c pairs, md))"
proof -
  have h: "holds (sm_inner m) c" and dc: "ckey_of ` set (sd_keys d) \<subseteq> dom c" using r by (auto simp: struct_rel_def)
  have "ckey_of ` set (sd_keys d) \<subseteq> dom (foldl put c pairs)" using dc dom_puts [of c pairs] by (rule subset_trans)
  then show ?thesis by (simp add: sm_assoc_def sm_new_rel [OF r holds_assoc [OF h]])
qed

lemma sm_conj_rel:
  assumes "struct_rel d m (c, md)"
  shows "rel_res (struct_rel d) (conj_error (sm_conj H nil m e)) (rbind (spec_conj c e) (\<lambda>c'. Inr (c', md)))"
proof -
  have lift: "rel_res (struct_rel d) (conj_error (sm_assoc H nil m (pairs, None))) (Inr (foldl put c pairs, md))" for pairs
    using sm_assoc_rel [OF assms, of nil pairs] by (cases "sm_assoc H nil m (pairs, None)") auto
  show ?thesis
  proof (cases e)
    case (VecArg kv)
    then show ?thesis using lift [of "[the kv]"] by (cases kv) auto
  next
    case (EntryArg k v)
    then show ?thesis using lift [of "[(k, v)]"] by simp
  qed (use assms lift in auto)
qed

lemma sm_cons_rel:
  assumes "struct_rel d m (c, md)"
  shows "rel_res (struct_rel d) (sm_cons H nil m elems) (rbind (foldM spec_conj c elems) (\<lambda>c'. Inr (c', md)))"
  unfolding sm_cons_def conj_error_foldM
  using assms
proof (induction elems arbitrary: m c)
  case (Cons e elems)
  have *: "rel_res (struct_rel d) (conj_error (sm_conj H nil m e)) (rbind (spec_conj c e) (\<lambda>c'. Inr (c', md)))"
    by (rule sm_conj_rel [OF Cons.prems])
  show ?case
  proof (cases "spec_conj c e")
    case (Inl err)
    then show ?thesis using * by (cases "conj_error (sm_conj H nil m e)") auto
  next
    case (Inr ys)
    then show ?thesis using * Cons.IH by (cases "conj_error (sm_conj H nil m e)") auto
  qed
qed simp

lemma contains_key_iff:
  "sd_storage_keys d = map equivalence_key (sd_keys d) \<Longrightarrow> contains_key d k \<longleftrightarrow> declared (sd_keys d) k"
  by (auto simp: contains_key_def declared_def list_ex_iff key_eq_equiv image_iff ckey_of_eq(1))

lemma dissoc_declared:
  "foldM (\<lambda>i k. if declared keys k then Inl RuntimeError else Inr (h_discard H (equivalence_key k) i)) m ks =
     (if list_ex (declared keys) ks then Inl RuntimeError else Inr (h_dissoc H ks m))"
  by (induction ks arbitrary: m) (simp_all add: h_dissoc_def)

lemma sm_step_rel:
  assumes "struct_rel d m s"
  shows "rel_res (struct_rel d) (sm_step H nil m p) (struct_step nil (sd_keys d) s p)"
proof -
  obtain c md where s: "s = (c, md)" by (cases s)
  note r = assms [unfolded s]
  have h: "holds (sm_inner m) c" and dc: "ckey_of ` set (sd_keys d) \<subseteq> dom c"
    and sks: "sd_storage_keys d = map equivalence_key (sd_keys d)"
    and ks: "sm_definition m = d" using r by (auto simp: struct_rel_def)
  show ?thesis
  proof (cases p)
    case (SAssoc kvs)
    then show ?thesis
      using sm_assoc_rel [OF r] by (cases kvs; cases "snd kvs") (auto simp: s sm_assoc_def)
  next
    case (SDissoc ks)
    have "ckey_of ` set (sd_keys d) \<subseteq> dom (foldl drop_key c ks)" if "\<not> list_ex (declared (sd_keys d)) ks"
    proof
      fix x assume x: "x \<in> ckey_of ` set (sd_keys d)"
      then have "x \<notin> ckey_of ` set ks" using that unfolding list_ex_iff declared_def by blast
      then show "x \<in> dom (foldl drop_key c ks)" using x dc by (auto simp: foldl_drop_key domIff)
    qed
    then show ?thesis
      by (simp add: SDissoc s sm_dissoc_def ks contains_key_iff [OF sks] dissoc_declared
          sm_new_rel [OF r holds_dissoc [OF h]])
  next
    case (SCons elems)
    then show ?thesis using sm_cons_rel [OF r] by (simp add: s)
  next
    case (SWithMeta md')
    then show ?thesis
      using new_struct_map_rel [OF h sks, of nil md'] by (simp add: s sm_with_meta_def ks fill_id [OF dc])
  next
    case SEmpty
    then show ?thesis using new_struct_map_rel [OF holds_empty sks, of nil None] by (simp add: s sm_empty_def ks)
  qed
qed

lemma items_of_keys:
  assumes h: "holds m c" and wf: "\<forall>k \<in> set ks. wf_key k" and dist: "distinct (map (\<lambda>k. ckey_of (public_key k)) ks)"
    and dom: "(\<lambda>k. ckey_of (public_key k)) ` set ks = dom c"
  shows "\<exists>kvs. mapM (ordered_item H m) ks = Inr kvs \<and>
    map_of (map (\<lambda>kv. (ckey_of (fst kv), snd kv)) kvs) = c \<and> map fst kvs = map public_key ks"
proof -
  define val where "val k = the (c (ckey_of (public_key k)))" for k
  have val: "c (ckey_of (public_key k)) = Some (val k)" if "k \<in> set ks" for k
  proof -
    have "ckey_of (public_key k) \<in> dom c" unfolding dom [symmetric] using that by (rule imageI)
    then show ?thesis by (auto simp: val_def)
  qed
  have "mapM (ordered_item H m) ks = Inr (map (\<lambda>k. (public_key k, val k)) ks)"
    by (rule mapM_map) (use ordered_item_rel [OF h] wf val in blast)
  moreover have "map_of (map (\<lambda>k. (ckey_of (public_key k), val k)) ks) = c"
  proof
    fix x
    show "map_of (map (\<lambda>k. (ckey_of (public_key k), val k)) ks) x = c x"
    proof (cases "x \<in> dom c")
      case True
      then obtain k where k: "k \<in> set ks" "x = ckey_of (public_key k)" unfolding dom [symmetric] by blast
      have "map_of (map (\<lambda>k. (ckey_of (public_key k), val k)) ks) x = Some (val k)"
        using dist k by (intro map_of_is_SomeI) (auto simp: comp_def)
      then show ?thesis using val [OF k(1)] k(2) by simp
    next
      case False
      then have "x \<notin> fst ` set (map (\<lambda>k. (ckey_of (public_key k), val k)) ks)"
        unfolding dom [symmetric] by (simp add: image_comp comp_def)
      then show ?thesis using False by (simp add: map_of_eq_None_iff domIff)
    qed
  qed
  ultimately show ?thesis by (auto simp: comp_def)
qed

lemma struct_keys:
  assumes h: "holds (sm_inner m) c" and dom: "ckey_of ` set (sd_keys d) \<subseteq> dom c" and d: "sm_definition m = d"
    and sks: "sd_storage_keys d = map equivalence_key (sd_keys d)" and dist: "distinct (map ckey_of (sd_keys d))"
  shows "(\<forall>k \<in> set (sm_keys H m). wf_key k) \<and> distinct (map (\<lambda>k. ckey_of (public_key k)) (sm_keys H m)) \<and>
    (\<lambda>k. ckey_of (public_key k)) ` set (sm_keys H m) = dom c \<and>
    take (length (sd_keys d)) (map public_key (sm_keys H m)) = sd_keys d"
proof -
  let ?g = "\<lambda>k. ckey_of (public_key k)"
  let ?rest = "filter (\<lambda>k. \<not> list_ex (key_eq k) (sd_storage_keys d)) (map fst (h_items H (sm_inner m)))"
  have keys: "sm_keys H m = map equivalence_key (sd_keys d) @ ?rest"
    by (simp add: sm_keys_def d sks Let_def)
  have wf: "\<forall>k \<in> set (map fst (h_items H (sm_inner m))). wf_key k" using holds_keys [OF h] by simp
  have in_declared: "list_ex (key_eq k) (sd_storage_keys d) \<longleftrightarrow> ?g k \<in> ckey_of ` set (sd_keys d)"
    if "wf_key k" for k
    using list_ex_key_eq [OF that, of "map equivalence_key (sd_keys d)"] by (simp add: sks image_comp comp_def)
  have rest: "?g ` set ?rest = dom c - ckey_of ` set (sd_keys d)"
  proof (intro equalityI subsetI)
    fix x assume "x \<in> ?g ` set ?rest"
    then obtain k where k: "k \<in> set (map fst (h_items H (sm_inner m)))" "\<not> list_ex (key_eq k) (sd_storage_keys d)" "x = ?g k"
      by auto
    then have "x \<in> dom c" using holds_keys [OF h] by (metis (no_types, lifting) image_iff list.set_map)
    then show "x \<in> dom c - ckey_of ` set (sd_keys d)" using k wf in_declared by auto
  next
    fix x assume x: "x \<in> dom c - ckey_of ` set (sd_keys d)"
    then obtain kv where kv: "kv \<in> set (h_items H (sm_inner m))" "x = ?g (fst kv)" using holds_keys [OF h] by blast
    then have "fst kv \<in> set ?rest" using x wf in_declared by auto
    then show "x \<in> ?g ` set ?rest" unfolding kv(2) by (rule imageI)
  qed
  have "distinct (map ?g (map fst (h_items H (sm_inner m))))"
  proof -
    have "map (\<lambda>kv. key_id (fst kv)) (h_items H (sm_inner m)) = map ident (map ?g (map fst (h_items H (sm_inner m))))"
      using wf by (simp add: wf_key_id)
    moreover have "distinct (map (\<lambda>kv. key_id (fst kv)) (h_items H (sm_inner m)))"
      using distinct_items [of "sm_inner m"] h by (simp add: holds_def sound_ok)
    ultimately show ?thesis using distinct_map [of ident] by metis
  qed
  then have "distinct (map ?g ?rest)" by (rule distinct_map_filter)
  moreover have "map ?g (map equivalence_key (sd_keys d)) = map ckey_of (sd_keys d)" by simp
  ultimately have dist': "distinct (map ?g (sm_keys H m))"
    unfolding keys map_append distinct_append using dist rest by (auto simp: comp_def)
  have "?g ` set (sm_keys H m) = ckey_of ` set (sd_keys d) \<union> ?g ` set ?rest"
    unfolding keys set_append image_Un by (simp add: image_comp comp_def)
  then have "?g ` set (sm_keys H m) = dom c" unfolding rest using dom by blast
  moreover have "\<forall>k \<in> set (sm_keys H m). wf_key k" unfolding keys using wf by auto
  ultimately show ?thesis using dist' by (simp add: keys comp_def)
qed

lemma struct_program_rel:
  assumes "struct_rel d m s"
  shows "rel_res (struct_rel d) (foldM (sm_step H nil) m ops) (foldM (struct_step nil (sd_keys d)) s ops)"
  by (rule rel_res_foldM) (simp_all add: sm_step_rel assms)

lemma struct_start:
  assumes "new_struct_definition i keys = Inr d" "struct H nil d values = Inr m"
  shows "struct_rel d m (fill nil keys (foldl put (\<lambda>k. None) (zip keys values)), None) \<and> sd_keys d = keys \<and>
    distinct (map ckey_of keys)"
proof -
  have d: "sd_keys d = keys" "sd_storage_keys d = map equivalence_key keys"
    and dist: "distinct (map (\<lambda>k. ident (ckey_of k)) keys)"
    using assms(1) by (auto simp: new_struct_definition_def Let_def comp_def split: if_splits)
  have "map (\<lambda>k. ident (ckey_of k)) keys = map ident (map ckey_of keys)" by simp
  with dist have "distinct (map ckey_of keys)" using distinct_map [of ident] by metis
  moreover have m: "m = new_struct_map H nil d (h_of H (map (apfst equivalence_key) (zip keys values))) None"
    using assms(2) by (auto simp: struct_def d split: if_splits)
  have "h_of H (map (apfst equivalence_key) (zip keys values)) = h_assoc H (zip keys values) (h_empty H)"
    by (simp add: h_of_def h_assoc_def foldl_map case_prod_unfold)
  then have "holds (h_of H (map (apfst equivalence_key) (zip keys values))) (foldl put (\<lambda>k. None) (zip keys values))"
    using holds_assoc [OF holds_empty] by simp
  from new_struct_map_rel [OF this, of d nil None] show ?thesis
    using calculation by (simp add: m d)
qed

end

text \<open>
  C38: a struct map keeps its declared keys. For any definition whose keys are distinct and any
  struct of it, a program of \<open>assoc\<close>, \<open>dissoc\<close>, \<open>cons\<close>, \<open>with_meta\<close> and \<open>empty\<close> is the program on
  finite maps in which removing a declared key raises RuntimeError; the items of its result are
  that finite map, each key once, the declared keys first in their declared order; and a declared
  key has an accessor that returns its value from the result, while any other has none.
\<close>

theorem struct_map_keeps_keys:
  assumes "hash_map H ok" "new_struct_definition i keys = Inr d" "struct H nil d values = Inr m0"
  shows "case foldM (sm_step H nil) m0 ops of
      Inl e \<Rightarrow> foldM (struct_step nil keys) (fill nil keys (foldl put (\<lambda>k. None) (zip keys values)), None) ops = Inl e
    | Inr m \<Rightarrow> (\<exists>c kvs.
        foldM (struct_step nil keys) (fill nil keys (foldl put (\<lambda>k. None) (zip keys values)), None) ops =
          Inr (c, sm_meta m) \<and>
        sm_items H m = Inr kvs \<and> map_of (map (\<lambda>kv. (ckey_of (fst kv), snd kv)) kvs) = c \<and>
        distinct (map (\<lambda>kv. ckey_of (fst kv)) kvs) \<and> map fst (take (length keys) kvs) = keys \<and>
        rbind (accessor d k) (\<lambda>a. accessor_call H nil a (Some m)) =
          (if declared keys k then Inr (the (c (ckey_of k))) else Inl ValueError))"
proof (cases "foldM (sm_step H nil) m0 ops")
  case (Inl e)
  then show ?thesis
    using hash_map.struct_program_rel [OF assms(1), of d m0 _ nil ops] hash_map.struct_start [OF assms] by fastforce
next
  case (Inr m)
  note start = hash_map.struct_start [OF assms]
  obtain c md where s: "foldM (struct_step nil keys) (fill nil keys (foldl put (\<lambda>k. None) (zip keys values)), None) ops = Inr (c, md)"
    and r: "hash_map.struct_rel H ok d m (c, md)"
    using hash_map.struct_program_rel [OF assms(1) conjunct1 [OF start], of nil ops] start Inr
    by (cases "foldM (struct_step nil keys) (fill nil keys (foldl put (\<lambda>k. None) (zip keys values)), None) ops") auto
  have h: "hash_map.holds H ok (sm_inner m) c" and dom: "ckey_of ` set (sd_keys d) \<subseteq> dom c"
    and d: "sm_definition m = d" and sks: "sd_storage_keys d = map equivalence_key (sd_keys d)" and md: "sm_meta m = md"
    using r by (auto simp: hash_map.struct_rel_def [OF assms(1)])
  note keys = hash_map.struct_keys [OF assms(1) h dom d sks]
  obtain kvs where kvs: "sm_items H m = Inr kvs" "map_of (map (\<lambda>kv. (ckey_of (fst kv), snd kv)) kvs) = c"
    "map fst kvs = map public_key (sm_keys H m)"
    using hash_map.items_of_keys [OF assms(1) h, of "sm_keys H m"] keys start unfolding sm_items_def by auto
  have "map (\<lambda>kv. ckey_of (fst kv)) kvs = map ckey_of (map fst kvs)" by simp
  also have "\<dots> = map (\<lambda>k. ckey_of (public_key k)) (sm_keys H m)" unfolding kvs(3) by simp
  finally have dist: "distinct (map (\<lambda>kv. ckey_of (fst kv)) kvs)" using keys start by simp
  have take: "map fst (take (length keys) kvs) = keys" using kvs(3) keys start by (simp only: take_map [symmetric])
  have acc: "rbind (accessor d k) (\<lambda>a. accessor_call H nil a (Some m)) =
      (if declared keys k then Inr (the (c (ckey_of k))) else Inl ValueError)"
  proof (cases "declared keys k")
    case True
    then have "ckey_of k \<in> dom c" using dom start by (auto simp: declared_def)
    then obtain v where "c (ckey_of k) = Some v" by blast
    moreover have "h_get H (sm_inner m) (equivalence_key k) = c (ckey_of k)"
      using hash_map.get_contents [OF assms(1)] h
      by (auto simp: hash_map.holds_def [OF assms(1)] hash_map.sound_ok [OF assms(1)])
    ultimately show ?thesis
      using True start
      by (simp add: accessor_def accessor_call_def d sm_val_at_def hash_map.contains_key_iff [OF assms(1) sks])
  next
    case False
    then show ?thesis using start by (simp add: accessor_def hash_map.contains_key_iff [OF assms(1) sks])
  qed
  show ?thesis using Inr s md kvs(1,2) dist take acc by auto
qed

definition demo_struct :: "nat struct_definition" where
  "demo_struct = \<lparr>sd_id = 7, sd_keys = [PyInt 1, PyInt 2], sd_storage_keys = map equivalence_key [PyInt 1, PyInt 2]\<rparr>"

theorem struct_map_keeps_keys_witness:
  "\<exists>m0 :: ((nat storage_key \<times> nat) list, nat, unit) struct_map. struct alist_hamt 0 demo_struct [10] = Inr m0 \<and>
     foldM (sm_step alist_hamt 0) m0 [SAssoc ([(PyInt 3, 30)], None), SDissoc [PyInt 3, PyInt 2]] = Inl RuntimeError"
proof -
  have d: "new_struct_definition 7 [PyInt 1, PyInt 2] = Inr demo_struct"
    by (simp add: new_struct_definition_def demo_struct_def Let_def ckey_of_def)
  obtain m0 :: "((nat storage_key \<times> nat) list, nat, unit) struct_map"
    where m0: "struct alist_hamt 0 demo_struct [10] = Inr m0"
    by (simp add: struct_def demo_struct_def)
  define ops :: "(nat, nat, unit) struct_op list"
    where "ops = [SAssoc ([(PyInt 3, 30)], None), SDissoc [PyInt 3, PyInt 2]]"
  have "foldM (struct_step 0 [PyInt 1, PyInt 2]) s ops = Inl RuntimeError" for s
    by (cases s) (simp add: ops_def declared_def)
  with struct_map_keeps_keys [OF alist.hash_map_axioms d m0, of ops "PyInt 1"]
  have "foldM (sm_step alist_hamt 0) m0 ops = Inl RuntimeError"
    by (cases "foldM (sm_step alist_hamt 0) m0 ops") auto
  then show ?thesis using m0 unfolding ops_def by blast
qed

end
