(* ===== verification/SortedCorrect.thy ===== *)
theory SortedCorrect
  imports SortedColls OrderedCorrect
begin

text \<open>
  Sorted maps are finite maps read in comparator order; sets are finite sets of values up to \<open>=\<close>.
\<close>

section \<open>Sorting\<close>

text \<open>\<open>l\<close> may stand before \<open>r\<close>: \<open>r\<close> is not less than it.\<close>

definition cmp_le :: "('b \<Rightarrow> 'b \<Rightarrow> int res) \<Rightarrow> 'b \<Rightarrow> 'b \<Rightarrow> bool" where
  "cmp_le cmp l r = (case cmp r l of Inl _ \<Rightarrow> False | Inr c \<Rightarrow> 0 \<le> c)"

text \<open>A comparator that always answers, and whose order is total and transitive.\<close>

definition lawful :: "('b \<Rightarrow> 'b \<Rightarrow> int res) \<Rightarrow> bool" where
  "lawful cmp \<longleftrightarrow> (\<forall>l r. \<not> isl (cmp l r)) \<and> (\<forall>l r. cmp_le cmp l r \<or> cmp_le cmp r l) \<and> transp (cmp_le cmp)"

lemma lawfulD:
  assumes "lawful cmp"
  obtains c where "cmp l r = Inr c" "c < 0 \<Longrightarrow> cmp_le cmp l r" "\<not> c < 0 \<Longrightarrow> cmp_le cmp r l"
proof -
  obtain c where c: "cmp l r = Inr c" using assms unfolding lawful_def by (metis isl_def sumE)
  have "cmp_le cmp r l \<longleftrightarrow> \<not> c < 0" by (auto simp: cmp_le_def c)
  moreover have "cmp_le cmp l r \<or> cmp_le cmp r l" using assms by (simp add: lawful_def)
  ultimately show thesis using that c by blast
qed

lemma insert_sorted_ok:
  assumes "lawful cmp" "sorted_wrt (cmp_le cmp) ys"
  shows "\<exists>zs. insert_sorted cmp x ys = Inr zs \<and> mset zs = add_mset x (mset ys) \<and> sorted_wrt (cmp_le cmp) zs"
  using assms(2)
proof (induction ys)
  case (Cons y ys)
  have trans: "cmp_le cmp a b \<Longrightarrow> cmp_le cmp b c \<Longrightarrow> cmp_le cmp a c" for a b c
    using assms(1) unfolding lawful_def by (meson transpE)
  obtain c where c: "cmp x y = Inr c" "c < 0 \<Longrightarrow> cmp_le cmp x y" "\<not> c < 0 \<Longrightarrow> cmp_le cmp y x"
    using lawfulD [OF assms(1), of x y] by blast
  show ?case
  proof (cases "c < 0")
    case True
    then have "sorted_wrt (cmp_le cmp) (x # y # ys)" using Cons.prems trans c(2) by auto
    then show ?thesis using True c(1) by simp
  next
    case False
    obtain zs where zs: "insert_sorted cmp x ys = Inr zs" "mset zs = add_mset x (mset ys)" "sorted_wrt (cmp_le cmp) zs"
      using Cons by auto
    have "set zs = insert x (set ys)" using arg_cong [OF zs(2), of set_mset] by simp
    then have "sorted_wrt (cmp_le cmp) (y # zs)" using zs(3) Cons.prems c(3) False by auto
    then show ?thesis using False c(1) zs(1,2) by simp
  qed
qed simp

lemma py_sorted_ok:
  assumes "lawful cmp"
  shows "\<exists>ys. py_sorted cmp xs = Inr ys \<and> mset ys = mset xs \<and> sorted_wrt (cmp_le cmp) ys"
proof -
  have "sorted_wrt (cmp_le cmp) zs \<Longrightarrow> \<exists>ys. foldM (\<lambda>ys x. insert_sorted cmp x ys) zs xs = Inr ys \<and>
      mset ys = mset xs + mset zs \<and> sorted_wrt (cmp_le cmp) ys" for zs
  proof (induction xs arbitrary: zs)
    case (Cons x xs)
    obtain us where us: "insert_sorted cmp x zs = Inr us" "mset us = add_mset x (mset zs)" "sorted_wrt (cmp_le cmp) us"
      using insert_sorted_ok [OF assms Cons.prems] by blast
    show ?case using Cons.IH [OF us(3)] us(1,2) by auto
  qed simp
  from this [of "[]"] show ?thesis by (simp add: py_sorted_def)
qed

lemma lawful_fst: "lawful cmp \<Longrightarrow> lawful (\<lambda>l r. cmp (f l) (f r))"
  unfolding lawful_def cmp_le_def transp_def by blast

section \<open>Sorted maps\<close>

datatype ('a, 'v, 'md) sorted_op =
    OAssoc "('a, 'v) kvs"
  | ODissoc "'a pyval list"
  | OUpdate "('a pyval \<times> 'v) list list"
  | OUpdateWith "'v \<Rightarrow> 'v \<Rightarrow> 'v" "('a pyval \<times> 'v) list list"
  | OCons "('a, 'v) conj_arg list"
  | OWithMeta "'md option"
  | OEmpty

fun so_step ::
    "('m, 'a, 'v) hamt \<Rightarrow> ('m, 'a, 'md) sorted_map \<Rightarrow> ('a, 'v, 'md) sorted_op \<Rightarrow> ('m, 'a, 'md) sorted_map res" where
  "so_step H m (OAssoc kvs) = so_assoc H m kvs"
| "so_step H m (ODissoc ks) = Inr (so_dissoc H m ks)"
| "so_step H m (OUpdate maps) = Inr (so_update H m maps)"
| "so_step H m (OUpdateWith f maps) = Inr (so_update_with H m f maps)"
| "so_step H m (OCons elems) = so_cons H m elems"
| "so_step H m (OWithMeta md) = Inr (so_with_meta H m md)"
| "so_step H m OEmpty = Inr (so_empty H m)"

fun sorted_step ::
    "('a, 'v) finmap \<times> 'md option \<Rightarrow> ('a, 'v, 'md) sorted_op \<Rightarrow> (('a, 'v) finmap \<times> 'md option) res" where
  "sorted_step (c, md) (OAssoc (pairs, None)) = Inr (foldl put c pairs, md)"
| "sorted_step (c, md) (OAssoc (pairs, Some k)) = Inl ValueError"
| "sorted_step (c, md) (ODissoc ks) = Inr (foldl drop_key c ks, md)"
| "sorted_step (c, md) (OUpdate maps) = Inr (foldl put c (concat maps), md)"
| "sorted_step (c, md) (OUpdateWith f maps) = Inr (foldl (put_merged f) c (concat maps), md)"
| "sorted_step (c, md) (OCons elems) = rbind (foldM spec_conj c elems) (\<lambda>c'. Inr (c', md))"
| "sorted_step (c, md) (OWithMeta md') = Inr (c, if md' = None then md else md')"
| "sorted_step (c, md) OEmpty = Inr (\<lambda>k. None, md)"

context hash_map begin

definition sorted_rel ::
    "'a pyval comparator \<Rightarrow> ('m, 'a, 'md) sorted_map \<Rightarrow> ('a, 'v) finmap \<times> 'md option \<Rightarrow> bool" where
  "sorted_rel cmp m s \<longleftrightarrow> holds (so_inner m) (fst s) \<and> so_meta m = snd s \<and> so_comparator m = cmp"

lemma new_sorted_rel: "holds i c \<Longrightarrow> sorted_rel cmp (new_sorted_map H i cmp md) (c, md)"
  using map_relD [OF holds_new_map [of i c md]] by (simp add: sorted_rel_def new_sorted_map_def)

lemma so_new_rel:
  "sorted_rel cmp m (c, md) \<Longrightarrow> holds i c' \<Longrightarrow> sorted_rel cmp (so_new H m i md') (c', if md' = None then md else md')"
  using new_sorted_rel [of i c' cmp "if md' = None then md else md'"] by (cases md') (simp_all add: so_new_def sorted_rel_def)

lemma so_base_rel: "sorted_rel cmp m (c, md) \<Longrightarrow> map_rel (so_base m) (c, md)"
  by (simp add: sorted_rel_def map_rel_def so_base_def)

lemma so_step_rel:
  fixes s :: "('a, 'v) finmap \<times> 'md option"
  assumes "sorted_rel cmp m s"
  shows "rel_res (sorted_rel cmp) (so_step H m p) (sorted_step s p)"
proof -
  obtain c md where s: "s = (c, md)" by (cases s)
  note r = assms [unfolded s]
  have h: "holds (so_inner m) c" using r by (simp add: sorted_rel_def)
  note new = so_new_rel [OF r, where md' = None, simplified]
  show ?thesis
  proof (cases p)
    case (OAssoc kvs)
    then show ?thesis
      using new [OF holds_assoc [OF h]] by (cases kvs; cases "snd kvs") (auto simp: s so_assoc_def)
  next
    case (ODissoc ks)
    then show ?thesis using new [OF holds_dissoc [OF h]] by (simp add: s so_dissoc_def)
  next
    case (OUpdate maps)
    have "map_rel (map_update H (so_base m) maps) (foldl put c (concat maps), md)"
      using map_step_rel [OF so_base_rel [OF r], of _ "Update maps"] by simp
    then show ?thesis using new [OF map_relD] by (simp add: OUpdate s so_update_def)
  next
    case (OUpdateWith f maps)
    then show ?thesis
      using new [OF holds_updates [of "h_merge H f" "put_merged f", OF holds_merge h]]
      by (simp add: s so_update_with_def)
  next
    case (OCons elems)
    have "rel_res map_rel (map_cons H (so_base m) elems) (rbind (foldM spec_conj c elems) (\<lambda>c'. Inr (c', md)))"
      using map_step_rel [OF so_base_rel [OF r], of _ "Conj elems"] by simp
    then have "rel_res (sorted_rel cmp) (so_cons H m elems)
        (rbind (rbind (foldM spec_conj c elems) (\<lambda>c'. Inr (c', md))) (\<lambda>s. Inr (fst s, md)))"
      unfolding so_cons_def by (rule rel_res_rbind) (auto simp: map_rel_def intro: new)
    then show ?thesis by (simp add: OCons s rbind_assoc)
  next
    case (OWithMeta md')
    then show ?thesis using so_new_rel [OF r h, of md'] by (simp add: s so_with_meta_def)
  next
    case OEmpty
    then show ?thesis using new [OF holds_empty] by (simp add: s so_empty_def)
  qed
qed

lemma sorted_program_rel:
  "rel_res (sorted_rel cmp) (foldM (so_step H) (new_sorted_map H (h_empty H) cmp md) ops)
    (foldM sorted_step (\<lambda>k. None, md) ops)"
  by (rule rel_res_foldM) (simp_all add: so_step_rel new_sorted_rel holds_empty)

lemma sorted_items:
  assumes "lawful (comparator_fn cmp)" "sorted_rel cmp m (c, md)"
  shows "\<exists>kvs. so_items H m = Inr kvs \<and> map_of (map (\<lambda>kv. (ckey_of (fst kv), snd kv)) kvs) = c \<and>
    distinct (map (\<lambda>kv. ckey_of (fst kv)) kvs) \<and>
    sorted_wrt (\<lambda>x y. cmp_le (comparator_fn cmp) (fst x) (fst y)) kvs \<and>
    so_rseq H m = Inr (if kvs = [] then None else Some (rev kvs))"
proof -
  let ?items = "public_items (h_items H (so_inner m))"
  have cmp: "so_comparator m = cmp" and h: "holds (pm_inner (so_base m)) c"
    using assms(2) by (auto simp: sorted_rel_def so_base_def)
  obtain kvs where kvs: "so_items H m = Inr kvs" "mset kvs = mset ?items"
    and sorted: "sorted_wrt (cmp_le (\<lambda>l r. comparator_fn cmp (fst l) (fst r))) kvs"
    using py_sorted_ok [OF lawful_fst [OF assms(1)], of fst ?items] by (auto simp: so_items_def cmp)
  have sorted': "sorted_wrt (\<lambda>x y. cmp_le (comparator_fn cmp) (fst x) (fst y)) kvs"
    using sorted unfolding cmp_le_def by simp
  have items: "map_items H (so_base m) = ?items" by (simp add: map_items_def so_base_def)
  note rel = items_rel [OF h, unfolded items]
  have "mset (map (\<lambda>kv. ckey_of (fst kv)) kvs) = mset (map (\<lambda>kv. ckey_of (fst kv)) ?items)"
    using kvs(2) by simp
  then have dist: "distinct (map (\<lambda>kv. ckey_of (fst kv)) kvs)" using rel by (metis mset_eq_imp_distinct_iff)
  have "map_of (map (\<lambda>kv. (ckey_of (fst kv), snd kv)) kvs) = map_of (map (\<lambda>kv. (ckey_of (fst kv), snd kv)) ?items)"
    using dist rel mset_eq_setD [OF kvs(2)] by (subst map_of_inject_set) (simp_all add: comp_def)
  moreover have "kvs = [] \<longleftrightarrow> ?items = []" using kvs(2) by auto
  ultimately show ?thesis
    using kvs(1) dist sorted' rel by (auto simp: so_rseq_def h_len_def public_items_def)
qed

end

text \<open>
  Sorted maps are finite maps read in order. For a comparator, three-way or boolean, that is
  total and transitive, a program of operations on an empty sorted map raises the error that it
  raises on finite maps, or ends in a map whose items are those of the finite map, each key once,
  in an order in which no key is less than one before it; \<open>rseq\<close> is the same items backwards.
\<close>

theorem sorted_map_in_order:
  assumes "hash_map H ok" "lawful (comparator_fn cmp)"
  shows "case foldM (so_step H) (new_sorted_map H (h_empty H) cmp md) ops of
      Inl e \<Rightarrow> foldM sorted_step (\<lambda>k. None, md) ops = Inl e
    | Inr m \<Rightarrow> (\<exists>c kvs. foldM sorted_step (\<lambda>k. None, md) ops = Inr (c, so_meta m) \<and>
        so_items H m = Inr kvs \<and> map_of (map (\<lambda>kv. (ckey_of (fst kv), snd kv)) kvs) = c \<and>
        distinct (map (\<lambda>kv. ckey_of (fst kv)) kvs) \<and>
        sorted_wrt (\<lambda>x y. cmp_le (comparator_fn cmp) (fst x) (fst y)) kvs \<and>
        so_rseq H m = Inr (if kvs = [] then None else Some (rev kvs)))"
proof (cases "foldM (so_step H) (new_sorted_map H (h_empty H) cmp md) ops")
  case (Inl e)
  then show ?thesis using hash_map.sorted_program_rel [OF assms(1), of cmp md ops] by simp
next
  case (Inr m)
  then obtain c md' where s: "foldM sorted_step (\<lambda>k. None, md) ops = Inr (c, md')"
    and r: "hash_map.sorted_rel H ok cmp m (c, md')"
    using hash_map.sorted_program_rel [OF assms(1), of cmp md ops]
    by (cases "foldM sorted_step (\<lambda>k. None, md) ops") auto
  then have "so_meta m = md'" by (simp add: hash_map.sorted_rel_def [OF assms(1)])
  then show ?thesis using Inr s hash_map.sorted_items [OF assms r] by simp
qed

definition demo_number :: "nat pyval \<Rightarrow> rat" where
  "demo_number v = (case host_of v of Number q \<Rightarrow> q | Object _ \<Rightarrow> 0)"

definition demo_less :: "nat pyval comparator" where
  "demo_less l r = CmpBool (demo_number l < demo_number r)"

lemma demo_less_le: "cmp_le (comparator_fn demo_less) l r \<longleftrightarrow> demo_number l \<le> demo_number r"
  by (auto simp: cmp_le_def comparator_fn_def demo_less_def)

lemma demo_less_lawful: "lawful (comparator_fn demo_less)"
  unfolding lawful_def demo_less_le transp_def by (auto simp: comparator_fn_def demo_less_def)

theorem sorted_map_in_order_witness:
  "case foldM (so_step alist_hamt) (new_sorted_map alist_hamt [] demo_less None)
      [OAssoc ([(PyInt 2, True), (PyFloat 1, False)], None) :: (nat, bool, unit) sorted_op] of
     Inl e \<Rightarrow> False
   | Inr m \<Rightarrow> (\<exists>kvs. so_items alist_hamt m = Inr kvs \<and> sorted (map (\<lambda>kv. demo_number (fst kv)) kvs))"
proof -
  have "sorted (map (\<lambda>kv. demo_number (fst kv)) kvs) \<longleftrightarrow>
      sorted_wrt (\<lambda>x y. cmp_le (comparator_fn demo_less) (fst x) (fst y)) kvs" for kvs :: "(nat pyval \<times> bool) list"
    by (simp add: demo_less_le sorted_wrt_map sorted_map)
  then show ?thesis
    using sorted_map_in_order [OF alist.hash_map_axioms demo_less_lawful, of "None :: unit option"
        "[OAssoc ([(PyInt 2, True), (PyFloat 1, False)], None)]"]
    by (cases "foldM (so_step alist_hamt) (new_sorted_map alist_hamt [] demo_less (None :: unit option))
        [OAssoc ([(PyInt 2, True), (PyFloat 1, False)], None)]") auto
qed

section \<open>Sets\<close>

text \<open>The contract for sets: an underlying map whose values are storage keys.\<close>

locale hash_set = hash_map H ok
  for H :: "('m, 'a, 'a storage_key) hamt" and ok :: "'m \<Rightarrow> bool"

interpretation alist_set: hash_set alist_hamt "\<lambda>m. distinct (map (\<lambda>kv. key_id (fst kv)) m)"
  by unfold_locales

datatype ('a, 'md) set_op =
    SetCons "'a pyval list"
  | SetDisj "'a pyval list"
  | SetMeta "'md option"
  | SetEmpty
  | SetTransient "(bool \<times> 'a pyval list) list"
  | SetDifference "'a pyval list list"
  | SetIntersection "'a pyval list list"

text \<open>Edits of a transient are \<open>conj!\<close> (True) and \<open>disj!\<close> (False); other sets are made from members.\<close>

definition transient_edit :: "('m, 'a) set_hamt \<Rightarrow> 'm \<Rightarrow> bool \<times> 'a pyval list \<Rightarrow> 'm" where
  "transient_edit H m e =
     (if fst e then set_cons_transient H m (snd e) else set_disj_transient H m (snd e))"

fun set_step :: "('m, 'a) set_hamt \<Rightarrow> ('m, 'md) persistent_set \<Rightarrow> ('a, 'md) set_op \<Rightarrow> ('m, 'md) persistent_set" where
  "set_step H s (SetCons xs) = set_cons H s xs"
| "set_step H s (SetDisj xs) = set_disj H s xs"
| "set_step H s (SetMeta md) = set_with_meta H s md"
| "set_step H s SetEmpty = set_empty H s"
| "set_step H s (SetTransient es) = set_to_persistent H (foldl (transient_edit H) (set_to_transient s) es)"
| "set_step H s (SetDifference xss) = set_difference H s (map (\<lambda>xs. set_from_iterable H xs None) xss)"
| "set_step H s (SetIntersection xss) = set_intersection H s (map (\<lambda>xs. set_from_iterable H xs None) xss)"

fun finset_step :: "'a ckey set \<times> 'md option \<Rightarrow> ('a, 'md) set_op \<Rightarrow> 'a ckey set \<times> 'md option" where
  "finset_step (A, md) (SetCons xs) = (A \<union> ckey_of ` set xs, md)"
| "finset_step (A, md) (SetDisj xs) = (A - ckey_of ` set xs, md)"
| "finset_step (A, md) (SetMeta md') = (A, md')"
| "finset_step (A, md) SetEmpty = ({}, md)"
| "finset_step (A, md) (SetTransient es) =
     (foldl (\<lambda>B e. if fst e then B \<union> ckey_of ` set (snd e) else B - ckey_of ` set (snd e)) A es, None)"
| "finset_step (A, md) (SetDifference xss) =
     (A - (\<Union>xs \<in> set xss. ckey_of ` set xs), if xss = [] then md else None)"
| "finset_step (A, md) (SetIntersection xss) =
     (A \<inter> (\<Inter>xs \<in> set xss. ckey_of ` set xs), if xss = [] then md else None)"

lemma dom_foldl_put: "dom (foldl put c kvs) = dom c \<union> (\<lambda>kv. ckey_of (fst kv)) ` set kvs"
proof (induction kvs arbitrary: c)
  case (Cons kv kvs)
  then show ?case by (auto simp: put_def simp del: fun_upd_apply)
qed simp

lemma dom_foldl_drop: "dom (foldl drop_key c ks) = dom c - ckey_of ` set ks"
  by (auto simp: domIff foldl_drop_key split: if_splits)

context hash_set begin

definition set_holds :: "'m \<Rightarrow> 'a ckey set \<Rightarrow> bool" where
  "set_holds m A \<longleftrightarrow> (\<exists>c. holds m c \<and> dom c = A)"

definition set_rel :: "('m, 'md) persistent_set \<Rightarrow> 'a ckey set \<times> 'md option \<Rightarrow> bool" where
  "set_rel s a \<longleftrightarrow> set_holds (ps_inner s) (fst a) \<and> ps_meta s = snd a"

lemma set_holds_set_of: "\<forall>k \<in> set ks. wf_key k \<Longrightarrow> set_holds (h_set_of H ks) ((\<lambda>k. ckey_of (public_key k)) ` set ks)"
  using h_of_ok [of "map (\<lambda>k. (k, k)) ks"]
  by (auto simp: set_holds_def holds_def h_set_of_def dom_foldl_put public_items_def image_comp comp_def)

lemma set_holds_has: "set_holds m A \<Longrightarrow> h_has H m (equivalence_key x) \<longleftrightarrow> ckey_of x \<in> A"
  by (auto simp: set_holds_def holds_has domIff)

lemma set_holds_members:
  assumes "set_holds m A"
  shows "(\<forall>k \<in> set (h_members H m). wf_key k) \<and> (\<lambda>k. ckey_of (public_key k)) ` set (h_members H m) = A \<and>
    distinct (map (\<lambda>k. ckey_of (public_key k)) (h_members H m))"
proof -
  obtain c where c: "holds m c" "dom c = A" using assms by (auto simp: set_holds_def)
  have "distinct (map (\<lambda>kv. ckey_of (fst kv)) (public_items (h_items H m)))"
    using items_rel [of "\<lparr>pm_inner = m, pm_meta = None\<rparr>" c] c(1) by (simp add: map_items_def)
  then show ?thesis
    using holds_keys [OF c(1)] c(2) by (simp add: h_members_def public_items_def image_comp comp_def)
qed

lemma new_set_rel: "set_holds m A \<Longrightarrow> set_rel (new_set H m md) (A, md)"
  using set_holds_members [of m A] set_holds_set_of [of "map (\<lambda>k. equivalence_key (public_key k)) (h_members H m)"]
  by (simp add: set_rel_def new_set_def image_comp comp_def)

lemma set_from_iterable_rel: "set_rel (set_from_iterable H xs md) (ckey_of ` set xs, md)"
  using set_holds_set_of [of "map equivalence_key xs"]
  by (simp add: set_from_iterable_def new_set_rel image_comp comp_def)

lemma adjoin_holds: "set_holds m A \<Longrightarrow> set_holds (h_adjoin H xs m) (A \<union> ckey_of ` set xs)"
proof (induction xs arbitrary: m A)
  case (Cons x xs)
  obtain c where c: "holds m c" "dom c = A" using Cons.prems by (auto simp: set_holds_def)
  have "set_holds (h_set H (equivalence_key x) (equivalence_key x) m) (insert (ckey_of x) A)"
    unfolding set_holds_def using holds_set [OF c(1), of x "equivalence_key x"] c(2)
    by (intro exI conjI) (assumption, simp)
  from Cons.IH [OF this] show ?case by (simp add: h_adjoin_def Let_def)
qed (simp add: h_adjoin_def)

lemma disj_holds: "set_holds m A \<Longrightarrow> set_holds (h_dissoc H xs m) (A - ckey_of ` set xs)"
  unfolding set_holds_def using holds_dissoc dom_foldl_drop by metis

lemma set_cons_transient_adjoin: "set_cons_transient H m xs = h_adjoin H xs m"
  by (simp add: set_cons_transient_def h_adjoin_def Let_def)

lemma transient_edits_hold:
  "set_holds m A \<Longrightarrow> set_holds (foldl (transient_edit H) m es)
    (foldl (\<lambda>B e. if fst e then B \<union> ckey_of ` set (snd e) else B - ckey_of ` set (snd e)) A es)"
  by (induction es arbitrary: m A)
    (auto simp: transient_edit_def set_cons_transient_adjoin adjoin_holds set_disj_transient_def disj_holds)

lemma set_iter_rel:
  assumes "set_rel s (A, md)"
  shows "ckey_of ` set (set_iter H s) = A \<and> distinct (map ckey_of (set_iter H s))"
  using set_holds_members [of "ps_inner s" A] assms
  by (simp add: set_rel_def set_iter_def image_comp comp_def)

lemma set_contains_rel: "set_rel s (A, md) \<Longrightarrow> set_contains H s x \<longleftrightarrow> ckey_of x \<in> A"
  by (simp add: set_rel_def set_contains_def set_holds_has)

lemma set_minus_rel: "set_rel s (A, md) \<Longrightarrow> set_rel t (B, md') \<Longrightarrow> set_rel (set_minus H s t) (A - B, None)"
  using set_from_iterable_rel [of "filter (\<lambda>x. \<not> set_contains H t x) (set_iter H s)" None] set_iter_rel [of s A md]
  unfolding set_minus_def by (auto simp: set_contains_rel elim!: back_subst [where P = "\<lambda>A. set_rel _ (A, _)"])

lemma set_and_rel: "set_rel s (A, md) \<Longrightarrow> set_rel t (B, md') \<Longrightarrow> set_rel (set_and H s t) (A \<inter> B, None)"
  using set_from_iterable_rel [of "filter (set_contains H s) (set_iter H t)" None] set_iter_rel [of t B md']
  unfolding set_and_def by (auto simp: set_contains_rel elim!: back_subst [where P = "\<lambda>A. set_rel _ (A, _)"])

lemma set_difference_rel:
  "set_rel s (A, md) \<Longrightarrow> set_rel (set_difference H s (map (\<lambda>xs. set_from_iterable H xs None) xss))
    (A - (\<Union>xs \<in> set xss. ckey_of ` set xs), if xss = [] then md else None)"
  unfolding set_difference_def
proof (induction xss arbitrary: s A md)
  case (Cons xs xss)
  show ?case
    using Cons.IH [OF set_minus_rel [OF Cons.prems set_from_iterable_rel [of xs None]]]
    by (simp add: Diff_eq Int_assoc Compl_Un)
qed simp

lemma set_intersection_rel:
  "set_rel s (A, md) \<Longrightarrow> set_rel (set_intersection H s (map (\<lambda>xs. set_from_iterable H xs None) xss))
    (A \<inter> (\<Inter>xs \<in> set xss. ckey_of ` set xs), if xss = [] then md else None)"
  unfolding set_intersection_def
proof (induction xss arbitrary: s A md)
  case (Cons xs xss)
  show ?case
    using Cons.IH [OF set_and_rel [OF Cons.prems set_from_iterable_rel [of xs None]]]
    by (simp add: Int_assoc)
qed simp

lemma set_step_rel:
  fixes a :: "'a ckey set \<times> 'md option"
  assumes "set_rel s a"
  shows "set_rel (set_step H s p) (finset_step a p)"
proof -
  obtain A md where a: "a = (A, md)" by (cases a)
  note r = assms [unfolded a]
  have h: "set_holds (ps_inner s) A" and md: "ps_meta s = md" using r by (auto simp: set_rel_def)
  show ?thesis
  proof (cases p)
    case (SetMeta md')
    have "map to_key (h_members H (ps_inner s)) = h_members H (ps_inner s)"
      using set_holds_members [OF h] by (intro map_idI) (simp add: wf_to_key)
    moreover have "set_holds (h_set_of H (h_members H (ps_inner s))) A"
      using set_holds_set_of [of "h_members H (ps_inner s)"] set_holds_members [OF h] by simp
    ultimately show ?thesis by (simp add: SetMeta a set_with_meta_def new_set_rel)
  next
    case SetEmpty
    have "set_holds (ps_inner (EMPTY_SET H :: ('m, 'md) persistent_set)) {}"
      using set_from_iterable_rel [of "[]" "None :: 'md option"] by (simp add: EMPTY_SET_def set_rel_def)
    then have "h_members H (ps_inner (EMPTY_SET H :: ('m, 'md) persistent_set)) = []"
      using set_holds_members by fastforce
    then show ?thesis
      using set_holds_set_of [of "[]"] by (simp add: SetEmpty a md set_empty_def set_with_meta_def new_set_rel)
  next
    case (SetTransient es)
    then show ?thesis
      using transient_edits_hold [OF h] by (simp add: a set_to_transient_def set_to_persistent_def new_set_rel)
  qed (use r h in \<open>simp_all add: a md set_cons_def set_disj_def new_set_rel adjoin_holds disj_holds
      set_difference_rel set_intersection_rel\<close>)
qed

lemma set_program_rel:
  fixes ops :: "('a, 'md) set_op list"
  shows "set_rel (foldl (set_step H) (EMPTY_SET H) ops) (foldl finset_step ({}, None) ops)"
proof -
  have "set_rel s a \<Longrightarrow> set_rel (foldl (set_step H) s ops) (foldl finset_step a ops)" for s :: "('m, 'md) persistent_set" and a
    by (induction ops arbitrary: s a) (simp_all add: set_step_rel)
  moreover have "set_rel (EMPTY_SET H) ({}, None)"
    using set_from_iterable_rel [of "[]" None] by (simp add: EMPTY_SET_def)
  ultimately show ?thesis by blast
qed

lemma set_len_rel:
  assumes "set_rel s (A, md)"
  shows "set_len H s = card A"
proof -
  have "length (set_iter H s) = card (ckey_of ` set (set_iter H s))"
    using set_iter_rel [OF assms] distinct_card [of "map ckey_of (set_iter H s)"] by simp
  then show ?thesis using set_iter_rel [OF assms] by (simp add: set_len_def h_len_def set_iter_def h_members_def)
qed

lemma set_eq_rel:
  assumes "set_rel s (A, md)" "set_rel t (B, md')"
  shows "set_eq H s t \<longleftrightarrow> A = B"
proof -
  have "finite A" "finite B" using set_iter_rel [OF assms(1)] set_iter_rel [OF assms(2)] by (metis List.finite_set finite_imageI)+
  moreover have "list_all (set_contains H t) (set_iter H s) \<longleftrightarrow> A \<subseteq> B"
    using set_iter_rel [OF assms(1)] by (auto simp: list_all_iff set_contains_rel [OF assms(2)])
  ultimately show ?thesis
    using equal_domains [of A B] by (auto simp: set_eq_def set_len_rel [OF assms(1)] set_len_rel [OF assms(2)])
qed

text \<open>The members of a sorted set.\<close>

lemma sorted_set_members:
  assumes "lawful (comparator_fn cmp)" "set_holds (ss_inner s) A" "ss_comparator s = cmp"
  shows "\<exists>xs. ss_members H s = Inr xs \<and> ckey_of ` set xs = A \<and> distinct (map ckey_of xs) \<and>
    sorted_wrt (cmp_le (comparator_fn cmp)) xs"
proof -
  let ?ms = "map public_key (h_members H (ss_inner s))"
  obtain xs where xs: "ss_members H s = Inr xs" "mset xs = mset ?ms" "sorted_wrt (cmp_le (comparator_fn cmp)) xs"
    using py_sorted_ok [OF assms(1), of ?ms] by (auto simp: ss_members_def assms(3))
  have "mset (map ckey_of xs) = mset (map ckey_of ?ms)"
    using arg_cong [OF xs(2), of "image_mset ckey_of"] by (simp add: multiset.map_comp comp_def)
  moreover have "distinct (map ckey_of ?ms)" using set_holds_members [OF assms(2)] by (simp add: comp_def)
  ultimately have "distinct (map ckey_of xs)" by (metis mset_eq_imp_distinct_iff)
  moreover have "set xs = set ?ms" using xs(2) by (rule mset_eq_setD)
  ultimately show ?thesis using xs set_holds_members [OF assms(2)] by (simp add: image_comp comp_def)
qed

end

text \<open>
  C39: sets are finite sets of values up to \<open>=\<close>. After any program of \<open>cons\<close>, \<open>disj\<close>, \<open>with_meta\<close>,
  \<open>empty\<close>, transient edits, \<open>difference\<close> and \<open>intersection\<close>, the set contains exactly the values of
  the finite set that the same program computes, iterates over each of them once, has its size and
  carries its metadata; and two such sets are \<open>==\<close> exactly when the finite sets are equal.
\<close>

theorem sets_refine_finite_sets:
  assumes "hash_set H ok"
  shows "let s = foldl (set_step H) (EMPTY_SET H) ops; a = foldl finset_step ({}, None) ops;
             t = foldl (set_step H) (EMPTY_SET H) ops2; b = foldl finset_step ({}, None) ops2
         in (set_contains H s x = (ckey_of x \<in> fst a)) \<and> ckey_of ` set (set_iter H s) = fst a \<and>
            distinct (map ckey_of (set_iter H s)) \<and> set_len H s = card (fst a) \<and> ps_meta s = snd a \<and>
            set_eq H s t = (fst a = fst b)"
proof -
  have rel: "hash_set.set_rel H ok (foldl (set_step H) (EMPTY_SET H) ps)
      (fst (foldl finset_step ({}, None) ps), snd (foldl finset_step ({}, None) ps))" for ps
    using hash_set.set_program_rel [OF assms, of ps] by simp
  have "ps_meta (foldl (set_step H) (EMPTY_SET H) ops) = snd (foldl finset_step ({}, None) ops)"
    using rel [of ops] by (simp add: hash_set.set_rel_def [OF assms])
  then show ?thesis
    unfolding Let_def
    using hash_set.set_iter_rel [OF assms rel [of ops]] hash_set.set_contains_rel [OF assms rel [of ops]]
      hash_set.set_len_rel [OF assms rel [of ops]] hash_set.set_eq_rel [OF assms rel [of ops] rel [of ops2]]
    by simp
qed

definition demo_set_ops :: "(nat, unit) set_op list" where
  "demo_set_ops = [SetCons [PyInt 1, PyInt 2], SetDisj [PyInt 1], SetTransient [(True, [PyFloat 3])]]"

theorem sets_refine_finite_sets_witness:
  "set_contains alist_hamt (foldl (set_step alist_hamt) (EMPTY_SET alist_hamt) demo_set_ops) (PyFloat 3) \<and>
   \<not> set_contains alist_hamt (foldl (set_step alist_hamt) (EMPTY_SET alist_hamt) demo_set_ops) (PyInt 3)"
proof -
  have spec: "foldl finset_step ({}, None) demo_set_ops = ({(Some Integer, Number 2), (Some Floating, Number 3)}, None)"
    by (auto simp: ckey_of_def demo_set_ops_def)
  show ?thesis
    using sets_refine_finite_sets [OF alist_set.hash_set_axioms, of demo_set_ops _ "PyFloat 3", unfolded spec Let_def]
      sets_refine_finite_sets [OF alist_set.hash_set_axioms, of demo_set_ops _ "PyInt 3", unfolded spec Let_def]
    by (simp add: ckey_of_def)
qed

end
