(* ===== verification/PriorityMap.thy ===== *)
theory PriorityMap
  imports SortedCorrect
begin

text \<open>
  Priority maps (\<open>src/src/basilisp/lang/priority_map.py\<close>): maps whose entries are ordered by a
  comparator on their values, or on what a key function makes of them.

  \<open>assoc\<close>, \<open>dissoc\<close> and \<open>cons\<close> use a key as it is given, and the constructor then stores every
  key under its storage key; reading the items gives the storage keys out. So a key argument here
  is a Python object: an ordinary value (\<open>Raw\<close>) or a storage key that was read before.
\<close>

section \<open>Operations\<close>

record ('m, 'v, 'md) priority_map =
  pr_inner :: 'm
  pr_comparator :: "'v comparator"
  pr_keyfn :: "('v \<Rightarrow> 'v) option"
  pr_meta :: "'md option"

definition new_priority_map ::
    "('m, 'a, 'v) hamt \<Rightarrow> 'm \<Rightarrow> 'v comparator \<Rightarrow> ('v \<Rightarrow> 'v) option \<Rightarrow> 'md option \<Rightarrow>
     ('m, 'v, 'md) priority_map" where
  "new_priority_map H inner comparator keyfn md =
     \<lparr>pr_inner = pm_inner (new_map H inner md), pr_comparator = comparator, pr_keyfn = keyfn, pr_meta = md\<rparr>"

definition priority :: "('m, 'v, 'md) priority_map \<Rightarrow> 'v \<Rightarrow> 'v" where
  "priority m v = (case pr_keyfn m of None \<Rightarrow> v | Some f \<Rightarrow> f v)"

definition pr_items :: "('m, 'a, 'v) hamt \<Rightarrow> ('m, 'v, 'md) priority_map \<Rightarrow> ('a storage_key \<times> 'v) list res" where
  "pr_items H m =
     py_sorted (\<lambda>l r. comparator_fn (pr_comparator m) (priority m (snd l)) (priority m (snd r)))
       (h_items H (pr_inner m))"

definition pr_new ::
    "('m, 'a, 'v) hamt \<Rightarrow> ('m, 'v, 'md) priority_map \<Rightarrow> 'm \<Rightarrow> 'md option \<Rightarrow> ('m, 'v, 'md) priority_map" where
  "pr_new H self inner md =
     new_priority_map H inner (pr_comparator self) (pr_keyfn self) (if md = None then pr_meta self else md)"

definition pr_with_meta ::
    "('m, 'a, 'v) hamt \<Rightarrow> ('m, 'v, 'md) priority_map \<Rightarrow> 'md option \<Rightarrow> ('m, 'v, 'md) priority_map" where
  "pr_with_meta H m md = pr_new H m (pr_inner m) md"

text \<open>The arguments of \<open>assoc\<close>: pairs, and whether a key is left over.\<close>

definition pr_assoc ::
    "('m, 'a, 'v) hamt \<Rightarrow> ('m, 'v, 'md) priority_map \<Rightarrow> ('a storage_key \<times> 'v) list \<Rightarrow> bool \<Rightarrow>
     ('m, 'v, 'md) priority_map res" where
  "pr_assoc H m pairs left_over =
     (if left_over then Inl ValueError
      else Inr (pr_new H m (foldl (\<lambda>i (k, v). h_set H k v i) (pr_inner m) pairs) None))"

definition pr_dissoc ::
    "('m, 'a, 'v) hamt \<Rightarrow> ('m, 'v, 'md) priority_map \<Rightarrow> 'a storage_key list \<Rightarrow> ('m, 'v, 'md) priority_map" where
  "pr_dissoc H m keys = pr_new H m (foldl (\<lambda>i k. h_discard H k i) (pr_inner m) keys) None"

fun pr_conj ::
    "('m, 'a, 'v) hamt \<Rightarrow> ('m, 'v, 'md) priority_map \<Rightarrow> ('a, 'v) conj_arg \<Rightarrow> ('m, 'v, 'md) priority_map res" where
  "pr_conj H m NoneArg = Inr m"
| "pr_conj H m (MapArg items) = foldM (\<lambda>r (k, v). pr_assoc H r [(Raw k, v)] False) m items"
| "pr_conj H m (EntryArg k v) = pr_assoc H m [(Raw k, v)] False"
| "pr_conj H m elem = rbind (entry_from_vec elem) (\<lambda>(k, v). pr_assoc H m [(Raw k, v)] False)"

definition pr_cons ::
    "('m, 'a, 'v) hamt \<Rightarrow> ('m, 'v, 'md) priority_map \<Rightarrow> ('a, 'v) conj_arg list \<Rightarrow> ('m, 'v, 'md) priority_map res" where
  "pr_cons H m elems = foldM (pr_conj H) m elems"

definition pr_empty :: "('m, 'a, 'v) hamt \<Rightarrow> ('m, 'v, 'md) priority_map \<Rightarrow> ('m, 'v, 'md) priority_map" where
  "pr_empty H m = pr_new H m (h_empty H) None"

definition pr_seq ::
    "('m, 'a, 'v) hamt \<Rightarrow> ('m, 'v, 'md) priority_map \<Rightarrow> ('a storage_key \<times> 'v) list option res" where
  "pr_seq H m = (if h_len H (pr_inner m) = 0 then Inr None else rbind (pr_items H m) (\<lambda>kvs. Inr (Some kvs)))"

definition pr_rseq ::
    "('m, 'a, 'v) hamt \<Rightarrow> ('m, 'v, 'md) priority_map \<Rightarrow> ('a storage_key \<times> 'v) list option res" where
  "pr_rseq H m =
     (if h_len H (pr_inner m) = 0 then Inr None else rbind (pr_items H m) (\<lambda>kvs. Inr (Some (rev kvs))))"

definition pr_reduce_kv ::
    "('m, 'a, 'v) hamt \<Rightarrow> ('m, 'v, 'md) priority_map \<Rightarrow> ('s \<Rightarrow> 'a storage_key \<Rightarrow> 'v \<Rightarrow> 's reduction) \<Rightarrow> 's \<Rightarrow> 's res" where
  "pr_reduce_kv H m f init = rbind (pr_items H m) (\<lambda>kvs. Inr (kv_reduce f init kvs))"

definition pr_peek ::
    "('m, 'a, 'v) hamt \<Rightarrow> ('m, 'v, 'md) priority_map \<Rightarrow> ('a storage_key \<times> 'v) option res" where
  "pr_peek H m =
     (if h_len H (pr_inner m) = 0 then Inr None
      else rbind (pr_items H m) (\<lambda>kvs. case kvs of [] \<Rightarrow> Inl IndexError | kv # _ \<Rightarrow> Inr (Some kv)))"

definition pr_pop :: "('m, 'a, 'v) hamt \<Rightarrow> ('m, 'v, 'md) priority_map \<Rightarrow> ('m, 'v, 'md) priority_map res" where
  "pr_pop H m =
     rbind (pr_peek H m) (\<lambda>entry. case entry of None \<Rightarrow> Inl IndexError | Some kv \<Rightarrow> Inr (pr_dissoc H m [fst kv]))"

definition make_priority_map ::
    "('m, 'a, 'v) hamt \<Rightarrow> 'v comparator \<Rightarrow> ('v \<Rightarrow> 'v) option \<Rightarrow> ('a storage_key \<times> 'v) list \<Rightarrow> bool \<Rightarrow>
     ('m, 'v, 'md) priority_map res" where
  "make_priority_map H comparator keyfn pairs left_over =
     (if left_over then Inl ValueError
      else pr_assoc H (new_priority_map H (h_empty H) comparator keyfn None) pairs False)"

text \<open>
  \<open>subseq\<close> and \<open>rsubseq\<close>: a test such as \<open><\<close> is a function of the comparison and zero; the bound
  is compared with the priority of each entry.
\<close>

definition pr_test ::
    "('m, 'v, 'md) priority_map \<Rightarrow> (int \<Rightarrow> int \<Rightarrow> bool) \<Rightarrow> 'v \<Rightarrow> ('a storage_key \<times> 'v) list \<Rightarrow> ('a storage_key \<times> 'v) list res" where
  "pr_test m test key entries =
     rbind (mapM (\<lambda>kv. rbind (comparator_fn (pr_comparator m) (priority m (snd kv)) key)
              (\<lambda>c. Inr (kv, test c 0))) entries)
       (\<lambda>tested. Inr (map fst (filter snd tested)))"

definition pr_bound ::
    "('m, 'a, 'v) hamt \<Rightarrow> ('m, 'v, 'md) priority_map \<Rightarrow> (int \<Rightarrow> int \<Rightarrow> bool) \<Rightarrow> 'v \<Rightarrow> bool \<Rightarrow>
     ('a storage_key \<times> 'v) list res" where
  "pr_bound H m test key backwards =
     rbind (pr_items H m) (\<lambda>kvs. pr_test m test key (if backwards then rev kvs else kvs))"

definition entry_seq :: "'e list \<Rightarrow> 'e list option" where
  "entry_seq entries = (if entries = [] then None else Some entries)"

definition pr_subseq ::
    "('m, 'a, 'v) hamt \<Rightarrow> ('m, 'v, 'md) priority_map \<Rightarrow> bool \<Rightarrow> (int \<Rightarrow> int \<Rightarrow> bool) \<Rightarrow> 'v \<Rightarrow>
     ((int \<Rightarrow> int \<Rightarrow> bool) \<times> 'v) option \<Rightarrow> ('a storage_key \<times> 'v) list option res" where
  "pr_subseq H m backwards start_test start_key end_bound =
     rbind (pr_bound H m start_test start_key backwards) (\<lambda>entries.
       case end_bound of
         None \<Rightarrow> Inr (entry_seq entries)
       | Some (end_test, end_key) \<Rightarrow>
           rbind (pr_test m end_test end_key entries) (\<lambda>es. Inr (entry_seq es)))"

section \<open>Invariant\<close>

datatype ('a, 'v, 'md) priority_op =
    PAssoc "('a storage_key \<times> 'v) list" bool
  | PDissoc "'a storage_key list"
  | PCons "('a, 'v) conj_arg list"
  | PWithMeta "'md option"
  | PEmpty
  | PPop

fun pr_step ::
    "('m, 'a, 'v) hamt \<Rightarrow> ('m, 'v, 'md) priority_map \<Rightarrow> ('a, 'v, 'md) priority_op \<Rightarrow>
     ('m, 'v, 'md) priority_map res" where
  "pr_step H m (PAssoc pairs left_over) = pr_assoc H m pairs left_over"
| "pr_step H m (PDissoc keys) = Inr (pr_dissoc H m keys)"
| "pr_step H m (PCons elems) = pr_cons H m elems"
| "pr_step H m (PWithMeta md) = Inr (pr_with_meta H m md)"
| "pr_step H m PEmpty = Inr (pr_empty H m)"
| "pr_step H m PPop = pr_pop H m"

text \<open>A key object of the program: an ordinary value, or a storage key that a map gave out.\<close>

definition key_object :: "'a storage_key \<Rightarrow> bool" where
  "key_object k \<longleftrightarrow> wf_key (to_key k)"

lemma key_object_Raw [simp]: "key_object (Raw v)"
  by (simp add: key_object_def)

lemma wf_key_object: "wf_key k \<Longrightarrow> key_object k"
  by (simp add: key_object_def wf_to_key)

fun op_ok :: "('a, 'v, 'md) priority_op \<Rightarrow> bool" where
  "op_ok (PAssoc pairs left_over) \<longleftrightarrow> list_all (\<lambda>kv. key_object (fst kv)) pairs"
| "op_ok _ \<longleftrightarrow> True"

context hash_map begin

lemma new_priority_sound:
  assumes "\<forall>k \<in> fst ` set (h_items H i). key_object k"
  shows "sound (pr_inner (new_priority_map H i cmp keyfn md))"
proof -
  have "\<forall>k \<in> fst ` set (map (apfst to_key) (h_items H i)). wf_key k"
    using assms by (auto simp: key_object_def)
  from h_of_ok [OF this] show ?thesis by (simp add: new_priority_map_def new_map_def)
qed

lemma set_key_objects:
  "ok i \<Longrightarrow> \<forall>k \<in> fst ` set (h_items H i). key_object k \<Longrightarrow> list_all (\<lambda>kv. key_object (fst kv)) pairs \<Longrightarrow>
    ok (foldl (\<lambda>i (k, v). h_set H k v i) i pairs) \<and>
    (\<forall>k \<in> fst ` set (h_items H (foldl (\<lambda>i (k, v). h_set H k v i) i pairs)). key_object k)"
proof (induction pairs arbitrary: i)
  case (Cons kv pairs)
  obtain k v where kv: "kv = (k, v)" by (cases kv)
  have "\<forall>x \<in> insert k (fst ` set (h_items H i)). key_object x" using Cons.prems by (simp add: kv)
  from Cons.IH [OF ok_set [OF Cons.prems(1)] all_subset [OF keys_set [OF Cons.prems(1)] this]]
  show ?case using Cons.prems(3) by (simp add: kv)
qed simp

lemma sound_key_objects: "sound i \<Longrightarrow> ok i \<and> (\<forall>k \<in> fst ` set (h_items H i). key_object k)"
  by (auto simp: sound_def wf_key_object)

lemma pr_assoc_sound:
  assumes "sound (pr_inner m)" "list_all (\<lambda>kv. key_object (fst kv)) pairs" "pr_assoc H m pairs b = Inr m'"
  shows "sound (pr_inner m')"
proof -
  let ?i = "foldl (\<lambda>i (k, v). h_set H k v i) (pr_inner m) pairs"
  have "ok (pr_inner m)" "\<forall>k \<in> fst ` set (h_items H (pr_inner m)). key_object k"
    using sound_key_objects [OF assms(1)] by blast+
  then have "\<forall>k \<in> fst ` set (h_items H ?i). key_object k"
    using set_key_objects [OF _ _ assms(2)] by blast
  from new_priority_sound [OF this] show ?thesis
    using assms(3) by (cases b) (auto simp: pr_assoc_def pr_new_def)
qed

lemma discards_sound: "sound i \<Longrightarrow> sound (foldl (\<lambda>i k. h_discard H k i) i keys)"
  by (induction keys arbitrary: i) (simp_all add: sound_discard)

lemma pr_new_sound: "sound i \<Longrightarrow> sound (pr_inner (pr_new H m i md))"
  using sound_key_objects [of i] by (simp add: pr_new_def new_priority_sound)

lemma foldM_preserves:
  "(\<And>s x s'. P s \<Longrightarrow> f s x = Inr s' \<Longrightarrow> P s') \<Longrightarrow> P s \<Longrightarrow> foldM f s xs = Inr s' \<Longrightarrow> P s'"
proof (induction xs arbitrary: s)
  case (Cons x xs)
  then show ?case by (cases "f s x") auto
qed simp

lemma pr_conj_sound: "sound (pr_inner m) \<Longrightarrow> pr_conj H m e = Inr m' \<Longrightarrow> sound (pr_inner m')"
proof (cases e)
  case (MapArg items)
  have step: "sound (pr_inner s')" if "sound (pr_inner s)" "(case x of (k, v) \<Rightarrow> pr_assoc H s [(Raw k, v)] False) = Inr s'"
    for s s' :: "('m, 'v, 'd) priority_map" and x
    using pr_assoc_sound [OF that(1), of "[(Raw (fst x), snd x)]" False s'] that(2) by (cases x) simp
  assume "sound (pr_inner m)" "pr_conj H m e = Inr m'"
  then show ?thesis
    unfolding MapArg pr_conj.simps by (rule foldM_preserves [where P = "\<lambda>s. sound (pr_inner s)", rotated]) (rule step)
next
  case (VecArg kv)
  assume "sound (pr_inner m)" "pr_conj H m e = Inr m'"
  then show ?thesis
    using pr_assoc_sound [of m "[(Raw (fst (the kv)), snd (the kv))]" False m']
    by (cases kv) (auto simp: VecArg split: prod.splits)
next
  case (SizedArg kv)
  assume "sound (pr_inner m)" "pr_conj H m e = Inr m'"
  then show ?thesis
    using pr_assoc_sound [of m "[(Raw (fst (the kv)), snd (the kv))]" False m']
    by (cases kv) (auto simp: SizedArg split: prod.splits)
next
  case (EntryArg k v)
  assume "sound (pr_inner m)" "pr_conj H m e = Inr m'"
  then show ?thesis using pr_assoc_sound [of m "[(Raw k, v)]" False m'] by (simp add: EntryArg)
qed auto

lemma pr_step_sound:
  assumes "sound (pr_inner m)" "op_ok p" "pr_step H m p = Inr m'"
  shows "sound (pr_inner m')"
proof (cases p)
  case (PAssoc pairs b)
  then show ?thesis using assms pr_assoc_sound by simp
next
  case (PCons elems)
  then show ?thesis
    using assms(1,3) foldM_preserves [of "\<lambda>s. sound (pr_inner s)" "pr_conj H" m elems m', OF pr_conj_sound]
    by (simp add: pr_cons_def)
next
  case PPop
  then show ?thesis
    using assms(1,3) by (auto simp: pr_pop_def pr_dissoc_def pr_new_sound sound_discard rbind_eq_Inr_iff split: option.splits)
qed (use assms in \<open>auto simp: pr_dissoc_def pr_with_meta_def pr_empty_def pr_new_sound discards_sound sound_empty\<close>)

lemma program_sound:
  fixes ops :: "('a, 'v, 'd) priority_op list"
  assumes "foldM (pr_step H) (new_priority_map H (h_empty H) cmp keyfn md) ops = Inr m" "list_all op_ok ops"
  shows "sound (pr_inner m)"
proof -
  have "sound (pr_inner m0) \<Longrightarrow> list_all op_ok ops \<Longrightarrow> foldM (pr_step H) m0 ops = Inr m \<Longrightarrow> sound (pr_inner m)"
    for m0 :: "('m, 'v, 'd) priority_map" and m
  proof (induction ops arbitrary: m0)
    case (Cons p ops)
    then show ?case using pr_step_sound by (cases "pr_step H m0 p") auto
  qed simp
  moreover have "sound (pr_inner (new_priority_map H (h_empty H) cmp keyfn md))"
    by (rule new_priority_sound) (simp add: items_empty)
  ultimately show ?thesis using assms by blast
qed

lemma pr_step_settings:
  "pr_step H m p = Inr m' \<Longrightarrow> pr_comparator m' = pr_comparator m \<and> pr_keyfn m' = pr_keyfn m"
proof -
  have assoc: "pr_assoc H m pairs b = Inr m' \<Longrightarrow> pr_comparator m' = pr_comparator m \<and> pr_keyfn m' = pr_keyfn m" for m m' :: "('m, 'v, 'd) priority_map" and pairs b
    by (auto simp: pr_assoc_def pr_new_def new_priority_map_def split: if_splits)
  let ?P = "\<lambda>s :: ('m, 'v, 'd) priority_map. pr_comparator s = pr_comparator m \<and> pr_keyfn s = pr_keyfn m"
  have step: "?P s'" if "?P s" "(case x of (k, v) \<Rightarrow> pr_assoc H s [(Raw k, v)] False) = Inr s'"
    for s s' :: "('m, 'v, 'd) priority_map" and x
    using that assoc [of s _ False s'] by (cases x) auto
  have conj: "?P s'" if "?P s" "pr_conj H s e = Inr s'" for s s' e
  proof (cases e)
    case (MapArg items)
    show ?thesis
      using foldM_preserves [of ?P _ s items s', OF step that(1)] that(2) by (simp add: MapArg)
  next
    case (VecArg kv)
    then show ?thesis using that assoc [of s _ False s'] by (cases kv) (auto split: prod.splits)
  next
    case (SizedArg kv)
    then show ?thesis using that assoc [of s _ False s'] by (cases kv) (auto split: prod.splits)
  next
    case (EntryArg k v)
    then show ?thesis using that assoc [of s _ False s'] by auto
  qed (use that in auto)
  assume "pr_step H m p = Inr m'"
  then show ?thesis
  proof (cases p)
    case (PCons elems)
    then show ?thesis
      using foldM_preserves [of ?P "pr_conj H" m elems m', OF conj] \<open>pr_step H m p = Inr m'\<close>
      by (simp add: pr_cons_def)
  qed (auto simp: assoc pr_dissoc_def pr_new_def new_priority_map_def pr_with_meta_def pr_empty_def pr_pop_def
      rbind_eq_Inr_iff split: option.splits)
qed

lemma program_settings:
  "foldM (pr_step H) m ops = Inr m' \<Longrightarrow> pr_comparator m' = pr_comparator m \<and> pr_keyfn m' = pr_keyfn m"
proof (induction ops arbitrary: m)
  case (Cons p ops)
  then show ?case using pr_step_settings [of m p] by (cases "pr_step H m p") auto
qed simp

end

section \<open>Draining a priority map\<close>

text \<open>\<open>peek\<close> and \<open>pop\<close> until the map is empty, at most \<open>n\<close> times.\<close>

fun pr_drain ::
    "('m, 'a, 'v) hamt \<Rightarrow> nat \<Rightarrow> ('m, 'v, 'md) priority_map \<Rightarrow> ('a storage_key \<times> 'v) list res" where
  "pr_drain H 0 m = Inr []"
| "pr_drain H (Suc n) m =
     rbind (pr_peek H m) (\<lambda>entry. case entry of
         None \<Rightarrow> Inr []
       | Some kv \<Rightarrow> rbind (pr_pop H m) (\<lambda>m'. rbind (pr_drain H n m') (\<lambda>kvs. Inr (kv # kvs))))"

definition priority_cmp :: "('m, 'v, 'md) priority_map \<Rightarrow> 'v \<Rightarrow> 'v \<Rightarrow> int res" where
  "priority_cmp m l r = comparator_fn (pr_comparator m) (priority m l) (priority m r)"

context hash_map begin

lemma pr_items_ok:
  assumes "lawful (priority_cmp m)"
  shows "\<exists>kvs. pr_items H m = Inr kvs \<and> mset kvs = mset (h_items H (pr_inner m)) \<and>
    sorted_wrt (\<lambda>x y. cmp_le (priority_cmp m) (snd x) (snd y)) kvs"
proof -
  have "cmp_le (\<lambda>l r. priority_cmp m (snd l) (snd r)) = (\<lambda>x y :: 'a storage_key \<times> 'v. cmp_le (priority_cmp m) (snd x) (snd y))"
    by (simp add: cmp_le_def fun_eq_iff)
  then show ?thesis
    using py_sorted_ok [OF lawful_fst [OF assms], of snd "h_items H (pr_inner m)"]
    unfolding pr_items_def priority_cmp_def by metis
qed

lemma len_contents:
  assumes "holds i c"
  shows "h_len H i = card (dom c)"
  using len_rel [of "\<lparr>pm_inner = i, pm_meta = None\<rparr>" c] assms by (simp add: map_len_def)

lemma item_contents:
  assumes "holds i c" "(k, v) \<in> set (h_items H i)"
  shows "wf_key k \<and> c (ckey_of (public_key k)) = Some v"
proof -
  have rel: "map_of (map (\<lambda>kv. (ckey_of (fst kv), snd kv)) (public_items (h_items H i))) = c"
    "distinct (map (\<lambda>kv. ckey_of (fst kv)) (public_items (h_items H i)))"
    using items_rel [of "\<lparr>pm_inner = i, pm_meta = None\<rparr>" c] assms(1) by (simp_all add: map_items_def)
  have "(public_key k, v) \<in> set (public_items (h_items H i))" using assms(2) by (force simp: public_items_def)
  from item_value [OF rel(2) this] have "c (ckey_of (public_key k)) = Some v" by (simp add: rel(1))
  moreover have "wf_key k" using assms by (auto simp: holds_def sound_def)
  ultimately show ?thesis by simp
qed

lemma drain_sorted:
  assumes "lawful (priority_cmp m)" "holds (pr_inner m) c" "card (dom c) = n"
  shows "\<exists>kvs. pr_drain H (Suc n) m = Inr kvs \<and>
    map_of (map (\<lambda>kv. (ckey_of (public_key (fst kv)), snd kv)) kvs) = c \<and>
    distinct (map (\<lambda>kv. ckey_of (public_key (fst kv))) kvs) \<and>
    list_all (\<lambda>kv. fst kv = equivalence_key (public_key (fst kv))) kvs \<and>
    sorted_wrt (\<lambda>x y. cmp_le (priority_cmp m) (snd x) (snd y)) kvs"
  using assms
proof (induction n arbitrary: m c)
  case 0
  have "finite (dom c)" using holds_keys [OF 0(2)] by (metis List.finite_set finite_imageI)
  then have "dom c = {}" using 0(3) by simp
  then have "c = (\<lambda>k. None)" by (simp add: fun_eq_iff domIff)
  moreover have "h_len H (pr_inner m) = 0" using len_contents [OF 0(2)] 0(3) by simp
  ultimately show ?case by (simp add: pr_peek_def)
next
  case (Suc n)
  obtain kvs where kvs: "pr_items H m = Inr kvs" "mset kvs = mset (h_items H (pr_inner m))"
    "sorted_wrt (\<lambda>x y. cmp_le (priority_cmp m) (snd x) (snd y)) kvs"
    using pr_items_ok [OF Suc.prems(1)] by blast
  have len: "h_len H (pr_inner m) \<noteq> 0" using len_contents [OF Suc.prems(2)] Suc.prems(3) by simp
  then obtain k v rest where cons: "kvs = (k, v) # rest"
    using kvs(2) by (cases kvs) (auto simp: h_len_def)
  have set_kvs: "set kvs = set (h_items H (pr_inner m))" using kvs(2) by (rule mset_eq_setD)
  then have kv: "wf_key k" "c (ckey_of (public_key k)) = Some v"
    using item_contents [OF Suc.prems(2), of k v] cons by auto
  define m' where "m' = pr_dissoc H m [k]"
  define c' where "c' = drop_key c (public_key k)"
  have "holds (h_discard H k (pr_inner m)) c'"
    using holds_dissoc [OF Suc.prems(2), of "[public_key k]"] kv(1) by (simp add: c'_def h_dissoc_def wf_key_def)
  then have h': "holds (pr_inner m') c'"
    using map_relD [OF holds_new_map] by (simp add: m'_def pr_dissoc_def pr_new_def new_priority_map_def)
  have cmp': "priority_cmp m' = priority_cmp m"
    by (simp add: priority_cmp_def [abs_def] m'_def pr_dissoc_def pr_new_def new_priority_map_def priority_def)
  have dom': "dom c' = dom c - {ckey_of (public_key k)}" by (auto simp: c'_def drop_key_def)
  have "finite (dom c)" using holds_keys [OF Suc.prems(2)] by (metis List.finite_set finite_imageI)
  moreover have "ckey_of (public_key k) \<in> dom c" using kv(2) by blast
  ultimately have card: "card (dom c') = n" using Suc.prems(3) unfolding dom' by simp
  obtain es where es: "pr_drain H (Suc n) m' = Inr es"
    "map_of (map (\<lambda>kv. (ckey_of (public_key (fst kv)), snd kv)) es) = c'"
    "distinct (map (\<lambda>kv. ckey_of (public_key (fst kv))) es)"
    "list_all (\<lambda>kv. fst kv = equivalence_key (public_key (fst kv))) es"
    "sorted_wrt (\<lambda>x y. cmp_le (priority_cmp m) (snd x) (snd y)) es"
    using Suc.IH [OF _ h' card] Suc.prems(1) unfolding cmp' by blast
  have keys: "(\<lambda>kv. ckey_of (public_key (fst kv))) ` set es = dom c'"
    using dom_map_of_items [of "\<lambda>k. ckey_of (public_key k)" es] es(2) by simp
  have drain: "pr_drain H (Suc (Suc n)) m = Inr ((k, v) # es)"
    using es(1) len kvs(1) by (simp add: pr_peek_def pr_pop_def cons m'_def)
  have map_of: "map_of (map (\<lambda>kv. (ckey_of (public_key (fst kv)), snd kv)) ((k, v) # es)) = c"
    using es(2) kv(2) by (auto simp: c'_def drop_key_def fun_eq_iff)
  have "ckey_of (public_key k) \<notin> (\<lambda>kv. ckey_of (public_key (fst kv))) ` set es"
    unfolding keys dom' by simp
  then have dist: "distinct (map (\<lambda>kv. ckey_of (public_key (fst kv))) ((k, v) # es))" using es(3) by simp
  have "cmp_le (priority_cmp m) v (snd e)" if e: "e \<in> set es" for e
  proof -
    have "c' (ckey_of (public_key (fst e))) = Some (snd e)"
      using item_value [of "\<lambda>k. ckey_of (public_key k)" es e] es(2,3) e by simp
    then have ce: "c (ckey_of (public_key (fst e))) = Some (snd e)" by (auto simp: c'_def drop_key_def split: if_splits)
    then have "ckey_of (public_key (fst e)) \<in> (\<lambda>kv. ckey_of (public_key (fst kv))) ` set (h_items H (pr_inner m))"
      using holds_keys [OF Suc.prems(2)] by auto
    then obtain k' v' where "(k', v') \<in> set (h_items H (pr_inner m))" "ckey_of (public_key k') = ckey_of (public_key (fst e))"
      by auto
    then have kv': "(k', v') \<in> set kvs" "v' = snd e"
      using item_contents [OF Suc.prems(2), of k' v'] ce set_kvs by auto
    moreover have "cmp_le (priority_cmp m) v v" using Suc.prems(1) by (auto simp: lawful_def)
    ultimately show ?thesis using kvs(3) by (auto simp: cons)
  qed
  then have "sorted_wrt (\<lambda>x y. cmp_le (priority_cmp m) (snd x) (snd y)) ((k, v) # es)" using es(5) by simp
  moreover have "list_all (\<lambda>kv. fst kv = equivalence_key (public_key (fst kv))) ((k, v) # es)"
    using es(4) kv(1) by (simp add: wf_key_def)
  ultimately show ?case using drain map_of dist by blast
qed

lemma raw_number_absent:
  assumes "sound i" "numeric_family k \<noteq> None" "host_of k = Number q" "q \<noteq> 0" "q \<noteq> 1"
  shows "\<not> h_has H i (Raw k)"
proof -
  have "\<not> key_eq k' (Raw k)" if "wf_key k'" for k'
  proof (cases k')
    case (Raw w)
    then have "numeric_family w = None" using that by (auto simp: wf_key_def equivalence_key_def split: option.splits)
    moreover have "host_of w \<noteq> Number q \<or> (\<exists>b. w = PyBool b) \<or> numeric_family w \<noteq> None" by (cases w) auto
    ultimately show ?thesis using assms(3-5) Raw by (auto simp: py_eq_def split: if_splits)
  qed simp
  then have "\<forall>k \<in> fst ` set kvs. wf_key k \<Longrightarrow> find_key (Raw k) kvs = None" for kvs :: "('a storage_key \<times> 'v) list"
    by (induction kvs) auto
  then show ?thesis using assms(1) get_items [of i "Raw k"] by (simp add: h_has_def sound_def)
qed

end

text \<open>
  C40: a priority map gives up its entries in priority order, under their storage keys. Take any
  map that a program of \<open>assoc\<close>, \<open>dissoc\<close>, \<open>cons\<close>, \<open>with_meta\<close>, \<open>empty\<close> and \<open>pop\<close> makes from an
  empty priority map, with or without a key function, and let its comparator be total and
  transitive and never raise. Alternating \<open>peek\<close> and \<open>pop\<close> until the map is empty never fails,
  yields every entry exactly once up to unwrapping its key, and never yields an entry whose
  priority is less than that of one before it. The key of every entry it yields is the storage
  key: a number comes out wrapped in an EquivalenceKey, not as the number that was put in.
\<close>

theorem priority_map_drains_in_order:
  assumes "hash_map H ok" "lawful (comparator_fn cmp)" "list_all op_ok ops"
    and "foldM (pr_step H) (new_priority_map H (h_empty H) cmp keyfn md) ops = Inr m"
  shows "\<exists>kvs. pr_drain H (Suc (h_len H (pr_inner m))) m = Inr kvs \<and>
    map_of (map (\<lambda>kv. (ckey_of (public_key (fst kv)), snd kv)) kvs) = contents H (pr_inner m) \<and>
    distinct (map (\<lambda>kv. ckey_of (public_key (fst kv))) kvs) \<and>
    list_all (\<lambda>kv. fst kv = equivalence_key (public_key (fst kv))) kvs \<and>
    sorted_wrt (\<lambda>x y. cmp_le (comparator_fn cmp) (priority m (snd x)) (priority m (snd y))) kvs"
proof -
  have "hash_map.sound H ok (pr_inner m)" by (rule hash_map.program_sound [OF assms(1,4,3)])
  then have h: "hash_map.holds H ok (pr_inner m) (contents H (pr_inner m))"
    by (simp add: hash_map.holds_def [OF assms(1)])
  have cmp: "pr_comparator m = cmp"
    using hash_map.program_settings [OF assms(1,4)] by (simp add: new_priority_map_def)
  then have eq: "priority_cmp m = (\<lambda>l r. comparator_fn cmp (priority m l) (priority m r))"
    by (intro ext) (simp add: priority_cmp_def cmp)
  have "lawful (priority_cmp m)" unfolding eq by (rule lawful_fst [OF assms(2)])
  from hash_map.drain_sorted [OF assms(1) this h hash_map.len_contents [OF assms(1) h, symmetric]]
  show ?thesis by (simp add: cmp_le_def eq)
qed

definition demo_pop_ops :: "(nat, nat pyval, unit) priority_op list" where
  "demo_pop_ops = [PAssoc [(Raw (PyOther 7), PyInt 30), (Raw (PyInt 2), PyInt 10)] False, PCons [EntryArg (PyOther 8) (PyInt 20)], PPop]"

theorem priority_map_drains_in_order_witness:
  "case foldM (pr_step alist_hamt) (new_priority_map alist_hamt [] demo_less None None) demo_pop_ops of
     Inl e \<Rightarrow> False
   | Inr m \<Rightarrow> (\<exists>kvs. pr_drain alist_hamt (Suc (h_len alist_hamt (pr_inner m))) m = Inr kvs \<and>
       sorted (map (\<lambda>kv. demo_number (snd kv)) kvs))"
proof -
  have ops: "list_all op_ok demo_pop_ops" by (simp add: demo_pop_ops_def)
  have no_error: "\<not> isl (foldM (pr_step alist_hamt) (new_priority_map alist_hamt [] demo_less None None) demo_pop_ops)"
    by (simp add: demo_pop_ops_def pr_assoc_def pr_cons_def pr_pop_def pr_peek_def pr_items_def pr_new_def
        new_priority_map_def new_map_def h_of_def h_len_def py_sorted_def comparator_fn_def demo_less_def
        demo_number_def priority_def equivalence_key_def)
  show ?thesis
  proof (cases "foldM (pr_step alist_hamt) (new_priority_map alist_hamt [] demo_less None None) demo_pop_ops")
    case (Inl e)
    then show ?thesis using no_error by simp
  next
    case (Inr m)
    have "priority m v = v" for v
      using hash_map.program_settings [OF alist.hash_map_axioms Inr] by (simp add: priority_def new_priority_map_def)
    then have "sorted (map (\<lambda>kv. demo_number (snd kv)) kvs) \<longleftrightarrow>
        sorted_wrt (\<lambda>x y. cmp_le (comparator_fn demo_less) (priority m (snd x)) (priority m (snd y))) kvs"
      for kvs :: "(nat storage_key \<times> nat pyval) list"
      by (simp add: demo_less_le sorted_map)
    then show ?thesis
      using priority_map_drains_in_order [OF alist.hash_map_axioms demo_less_lawful ops, of None None m] Inr by auto
  qed
qed

text \<open>
  Numeric keys of a priority map cannot be removed or read. In any map that a program makes, the
  key \<open>k\<close> being a number other than 0 and 1 (which collide with the bools): \<open>dissoc\<close> of \<open>k\<close> leaves
  every entry where it is, because the entry is stored under the wrapped key; and the items of the
  map show the wrapper, not \<open>k\<close>.
\<close>

theorem priority_map_numeric_keys:
  assumes "hash_map H ok" "list_all op_ok ops"
    and "foldM (pr_step H) (new_priority_map H (h_empty H) cmp keyfn md) ops = Inr m"
    and "numeric_family k \<noteq> None" "host_of k = Number q" "q \<noteq> 0" "q \<noteq> 1"
  shows "contents H (pr_inner (pr_dissoc H m [Raw k])) = contents H (pr_inner m) \<and>
    (contents H (pr_inner m) (ckey_of k) \<noteq> None) = (\<exists>v f. fst v = EquivalenceKey (public_key (fst v)) f \<and>
      ckey_of (public_key (fst v)) = ckey_of k \<and> v \<in> set (h_items H (pr_inner m)))"
proof -
  have sound: "hash_map.sound H ok (pr_inner m)" by (rule hash_map.program_sound [OF assms(1,3,2)])
  then have h: "hash_map.holds H ok (pr_inner m) (contents H (pr_inner m))"
    by (simp add: hash_map.holds_def [OF assms(1)])
  have "pr_dissoc H m [Raw k] = pr_new H m (pr_inner m) None"
    using hash_map.raw_number_absent [OF assms(1) sound assms(4-7)] by (simp add: pr_dissoc_def h_discard_def)
  then have dissoc: "contents H (pr_inner (pr_dissoc H m [Raw k])) = contents H (pr_inner m)"
    using hash_map.new_map_ok [OF assms(1) sound, of "pr_meta m"] by (simp add: pr_new_def new_priority_map_def)
  have wrapped: "\<exists>f. k' = EquivalenceKey (public_key k') f" if "wf_key k'" "ckey_of (public_key k') = ckey_of k" for k'
  proof -
    have "numeric_family (public_key k') \<noteq> None" using that(2) assms(4) by (auto simp: ckey_of_def)
    then show ?thesis using that(1) by (cases k') (auto simp: wf_key_def equivalence_key_def)
  qed
  note keys = hash_map.holds_keys [OF assms(1) h]
  have "contents H (pr_inner m) (ckey_of k) \<noteq> None \<longleftrightarrow> ckey_of k \<in> dom (contents H (pr_inner m))"
    by (simp add: domIff)
  also have "\<dots> \<longleftrightarrow> (\<exists>v \<in> set (h_items H (pr_inner m)). ckey_of (public_key (fst v)) = ckey_of k)"
    unfolding conjunct2 [OF keys, symmetric] image_iff by metis
  also have "\<dots> \<longleftrightarrow> (\<exists>v f. fst v = EquivalenceKey (public_key (fst v)) f \<and>
      ckey_of (public_key (fst v)) = ckey_of k \<and> v \<in> set (h_items H (pr_inner m)))"
    using wrapped keys by blast
  finally show ?thesis using dissoc by simp
qed

theorem priority_map_numeric_keys_witness:
  "contents alist_hamt (pr_inner (pr_dissoc alist_hamt
       (new_priority_map alist_hamt [(Raw (PyInt 5 :: nat pyval), PyInt 10 :: nat pyval)] demo_less None (None :: unit option)) [Raw (PyInt 5 :: nat pyval)])) =
   contents alist_hamt (pr_inner (new_priority_map alist_hamt [(Raw (PyInt 5 :: nat pyval), PyInt 10)] demo_less None (None :: unit option)))"
proof -
  have "foldM (pr_step alist_hamt) (new_priority_map alist_hamt [] demo_less None (None :: unit option))
      [PAssoc [(Raw (PyInt 5 :: nat pyval), PyInt 10)] False] =
    Inr (new_priority_map alist_hamt [(Raw (PyInt 5 :: nat pyval), PyInt 10 :: nat pyval)] demo_less None (None :: unit option))"
    by (simp add: pr_assoc_def pr_new_def new_priority_map_def new_map_def h_of_def)
  from priority_map_numeric_keys [OF alist.hash_map_axioms _ this [folded alist_hamt_simps(1)], of "PyInt 5" 5]
  show ?thesis by simp
qed

end
