(* ===== verification/ReaderStream.thy ===== *)
theory ReaderStream
  imports Character
begin

text \<open>
  The reader's character stream (\<open>StreamReader\<close> of \<open>src/src/basilisp/lang/reader.py\<close>): a text
  stream behind three bounded deques (characters, lines, columns), with a negative index into
  them that moves back on \<open>pushback\<close>. The empty string that Python's \<open>read(1)\<close> returns at the end
  of the stream is \<open>None\<close>.
\<close>

section \<open>Deques\<close>

definition dappend :: "nat \<Rightarrow> 'a \<Rightarrow> 'a list \<Rightarrow> 'a list" where
  "dappend maxlen x xs = (let ys = xs @ [x] in drop (length ys - maxlen) ys)"

text \<open>\<open>xs[i]\<close> for an index \<open>i\<close> of Python.\<close>

definition dget :: "'a list \<Rightarrow> int \<Rightarrow> 'a res" where
  "dget xs i = rbind (py_index (length xs) i) (\<lambda>j. Inr (xs ! j))"

section \<open>The stream reader\<close>

record stream_reader =
  stream :: pystr
  pushback_depth :: nat
  idx :: int
  lines_ring :: "int list"
  cols_ring :: "int list"
  buffer :: "nat option list"

text \<open>\<open>stream.read(1)\<close>.\<close>

fun read1 :: "pystr \<Rightarrow> nat option \<times> pystr" where
  "read1 [] = (None, [])"
| "read1 (c # cs) = (Some c, cs)"

definition NEWLINE :: nat where "NEWLINE = 10"
definition CARRIAGE :: nat where "CARRIAGE = 13"

text \<open>Whether a line ends after the character \<open>c\<close> that is followed by \<open>d\<close>.\<close>

definition line_ends :: "nat option \<Rightarrow> nat option \<Rightarrow> bool" where
  "line_ends c d \<longleftrightarrow> c = Some NEWLINE \<or> (c = Some CARRIAGE \<and> d \<noteq> Some NEWLINE)"

definition update_loc :: "stream_reader \<Rightarrow> stream_reader res" where
  "update_loc r =
     rbind (dget (buffer r) (-2)) (\<lambda>prev.
     rbind (dget (buffer r) (-1)) (\<lambda>cur.
     rbind (dget (cols_ring r) (-1)) (\<lambda>c.
     rbind (dget (lines_ring r) (-1)) (\<lambda>l.
       if line_ends prev cur
       then Inr (r\<lparr>cols_ring := dappend (pushback_depth r) 0 (cols_ring r),
                  lines_ring := dappend (pushback_depth r) (l + 1) (lines_ring r)\<rparr>)
       else Inr (r\<lparr>cols_ring := dappend (pushback_depth r) (c + 1) (cols_ring r),
                  lines_ring := dappend (pushback_depth r) l (lines_ring r)\<rparr>)))))"

definition DEFAULT_INDEX :: int where "DEFAULT_INDEX = -2"

definition new_reader :: "pystr \<Rightarrow> nat \<Rightarrow> int option \<Rightarrow> int option \<Rightarrow> stream_reader res" where
  "new_reader src maxlen init_line init_column =
     (let line = (case init_line of None \<Rightarrow> 1 | Some l \<Rightarrow> l);
          column = (case init_column of None \<Rightarrow> 0 | Some c \<Rightarrow> c);
          (c0, rest0) = read1 src;
          (c1, rest1) = read1 rest0
      in update_loc
           \<lparr>stream = rest1, pushback_depth = maxlen, idx = -2,
            lines_ring = dappend maxlen line [], cols_ring = dappend maxlen column [],
            buffer = dappend maxlen c1 (dappend maxlen c0 [])\<rparr>)"

definition reader_col :: "stream_reader \<Rightarrow> int res" where
  "reader_col r = dget (cols_ring r) (idx r)"

definition reader_line :: "stream_reader \<Rightarrow> int res" where
  "reader_line r = dget (lines_ring r) (idx r)"

definition reader_loc :: "stream_reader \<Rightarrow> (int \<times> int) res" where
  "reader_loc r = rbind (reader_line r) (\<lambda>l. rbind (reader_col r) (\<lambda>c. Inr (l, c)))"

text \<open>\<open>list(buffer)[idx:]\<close> for a negative \<open>idx\<close>, and its characters that are not the empty string.\<close>

definition unread_count :: "stream_reader \<Rightarrow> nat" where
  "unread_count r =
     length (filter (\<lambda>c. c \<noteq> None) (drop (length (buffer r) - nat (- idx r)) (buffer r)))"

definition reader_peek :: "stream_reader \<Rightarrow> nat option res" where
  "reader_peek r = dget (buffer r) (idx r)"

definition reader_pushback :: "stream_reader \<Rightarrow> stream_reader res" where
  "reader_pushback r =
     (if \<bar>idx r - 1\<bar> > int (pushback_depth r) then Inl IndexError
      else Inr (r\<lparr>idx := idx r - 1\<rparr>))"

text \<open>\<open>next_char\<close> as the new state; the character it returns is the \<open>peek\<close> of that state.\<close>

definition reader_next :: "stream_reader \<Rightarrow> stream_reader res" where
  "reader_next r =
     (if idx r < DEFAULT_INDEX then Inr (r\<lparr>idx := idx r + 1\<rparr>)
      else (let (c, rest) = read1 (stream r)
            in update_loc (r\<lparr>stream := rest,
                             buffer := dappend (pushback_depth r) c (buffer r)\<rparr>)))"

section \<open>The cursor it implements\<close>

definition char_at :: "pystr \<Rightarrow> nat \<Rightarrow> nat option" where
  "char_at src i = (if i < length src then Some (src ! i) else None)"

text \<open>A line ends after position \<open>i\<close>; line feeds, carriage returns and their pair end one.\<close>

definition break_at :: "pystr \<Rightarrow> nat \<Rightarrow> bool" where
  "break_at src i \<longleftrightarrow> line_ends (char_at src i) (char_at src (Suc i))"

text \<open>The lines ended before position \<open>p\<close>, and the characters since the last such end.\<close>

definition line_at :: "pystr \<Rightarrow> int \<Rightarrow> nat \<Rightarrow> int" where
  "line_at src line p = line + int (length (filter (break_at src) [0..<p]))"

fun col_at :: "pystr \<Rightarrow> int \<Rightarrow> nat \<Rightarrow> int" where
  "col_at src column 0 = column"
| "col_at src column (Suc p) = (if break_at src p then 0 else col_at src column p + 1)"

text \<open>The last \<open>d\<close> of the first \<open>n\<close> values of \<open>f\<close>: what a deque keeps of a sequence.\<close>

definition ring :: "nat \<Rightarrow> (nat \<Rightarrow> 'a) \<Rightarrow> nat \<Rightarrow> 'a list" where
  "ring d f n = map f [n - d..<n]"

lemma length_ring: "length (ring d f n) = min d n"
  by (simp add: ring_def)

lemma ring_append: "dappend d (f n) (ring d f n) = ring d f (Suc n)"
proof -
  have "ring d f n @ [f n] = map f [n - d..<Suc n]" by (simp add: ring_def)
  moreover have "drop (Suc n - (n - d) - d) [n - d..<Suc n] = [Suc n - d..<Suc n]"
    by (simp only: drop_upt) (rule arg_cong2 [of _ _ _ _ upt]; arith)
  ultimately show ?thesis
    by (simp add: dappend_def Let_def ring_def drop_map del: upt_Suc)
qed

lemma dget_ring:
  assumes "0 < j"
  shows "dget (ring d f n) (- int j) =
    (if j \<le> d \<and> j \<le> n then Inr (f (n - j)) else Inl IndexError)"
proof (cases "j \<le> min d n")
  case True
  then have "py_index (min d n) (- int j) = Inr (min d n - j)"
    using assms by (auto simp: py_index_def Let_def nat_diff_distrib)
  moreover have "ring d f n ! (min d n - j) = f (n - j)"
  proof -
    have "min d n - j < n - (n - d)" "n - d + (min d n - j) = n - j" using True assms by auto
    then show ?thesis by (simp add: ring_def)
  qed
  ultimately show ?thesis using True by (simp add: dget_def length_ring)
next
  case False
  then show ?thesis using assms by (auto simp: dget_def length_ring py_index_def Let_def)
qed

section \<open>The cursor simulates the reader\<close>

text \<open>
  The reader \<open>r\<close> has loaded \<open>n\<close> characters after the first two and stands \<open>k\<close> characters back.
\<close>

definition reads :: "pystr \<Rightarrow> nat \<Rightarrow> int \<Rightarrow> int \<Rightarrow> nat \<Rightarrow> nat \<Rightarrow> stream_reader \<Rightarrow> bool" where
  "reads src d line column n k r \<longleftrightarrow>
     stream r = drop (n + 2) src \<and> pushback_depth r = d \<and> idx r = - int (k + 2) \<and> k + 2 \<le> d \<and>
     lines_ring r = ring d (line_at src line) (n + 2) \<and>
     cols_ring r = ring d (col_at src column) (n + 2) \<and>
     buffer r = ring d (char_at src) (n + 2)"

lemma read1_drop: "read1 (drop n src) = (char_at src n, drop (Suc n) src)"
proof (cases "n < length src")
  case True
  then show ?thesis by (simp add: char_at_def Cons_nth_drop_Suc [symmetric])
next
  case False
  then show ?thesis by (simp add: char_at_def)
qed

lemma line_at_Suc: "line_at src line (Suc p) = line_at src line p + (if break_at src p then 1 else 0)"
  by (simp add: line_at_def)

lemma dget_ring_last:
  assumes "2 \<le> d"
  shows "dget (ring d f (Suc (Suc n))) (-1) = Inr (f (Suc n))"
    and "dget (ring d f (Suc (Suc n))) (-2) = Inr (f n)"
    and "dget (ring d f (Suc n)) (-1) = Inr (f n)"
  using dget_ring [of 1 d f "Suc (Suc n)"] dget_ring [of 2 d f "Suc (Suc n)"]
    dget_ring [of 1 d f "Suc n"] assms
  by simp_all

lemma update_loc_ring:
  assumes "2 \<le> d" "pushback_depth r = d"
    and "lines_ring r = ring d (line_at src line) (Suc n)"
    and "cols_ring r = ring d (col_at src column) (Suc n)"
    and "buffer r = ring d (char_at src) (Suc (Suc n))"
  shows "update_loc r =
    Inr (r\<lparr>cols_ring := ring d (col_at src column) (Suc (Suc n)),
           lines_ring := ring d (line_at src line) (Suc (Suc n))\<rparr>)"
proof -
  have "dappend d (line_at src line n + (if break_at src n then 1 else 0))
      (ring d (line_at src line) (Suc n)) = ring d (line_at src line) (Suc (Suc n))"
    using ring_append [of d "line_at src line" "Suc n"] by (simp only: line_at_Suc)
  moreover have "dappend d (if break_at src n then 0 else col_at src column n + 1)
      (ring d (col_at src column) (Suc n)) = ring d (col_at src column) (Suc (Suc n))"
    using ring_append [of d "col_at src column" "Suc n"] by (simp only: col_at.simps(2))
  ultimately show ?thesis
    using assms
    by (simp add: update_loc_def dget_ring_last break_at_def [symmetric] del: col_at.simps split: if_splits)
qed

lemma new_reader_reads:
  assumes "2 \<le> d"
  shows "\<exists>r. new_reader src d (Some line) (Some column) = Inr r \<and> reads src d line column 0 0 r"
proof -
  have one: "dappend d (f 0) [] = ring d f (Suc 0)" for f
    using ring_append [of d f 0] by (simp add: ring_def)
  have first_char: "read1 src = (char_at src 0, drop (Suc 0) src)" using read1_drop [of 0 src] by simp
  have second_char: "read1 (drop (Suc 0) src) = (char_at src (Suc 0), drop (Suc (Suc 0)) src)"
    using read1_drop [of "Suc 0" src] by simp
  have l: "dappend d line [] = ring d (line_at src line) (Suc 0)"
    using one [of "line_at src line"] by (simp add: line_at_def)
  have c: "dappend d column [] = ring d (col_at src column) (Suc 0)"
    using one [of "col_at src column"] by simp
  show ?thesis
    using assms
    by (simp add: new_reader_def first_char second_char l c one ring_append Let_def
        update_loc_ring [where d = d and src = src and line = line and column = column and n = 0])
      (simp add: reads_def numeral_2_eq_2)
qed

lemma reader_next_reads:
  assumes "reads src d line column n k r"
  shows "\<exists>r'. reader_next r = Inr r' \<and>
    (if k = 0 then reads src d line column (Suc n) 0 r' else reads src d line column n (k - 1) r')"
proof (cases k)
  case 0
  let ?r = "r\<lparr>stream := drop (n + 3) src, buffer := ring d (char_at src) (n + 3)\<rparr>"
  have b: "dappend d (char_at src (n + 2)) (ring d (char_at src) (n + 2)) = ring d (char_at src) (n + 3)"
    using ring_append [of d "char_at src" "n + 2"] by (simp add: numeral_3_eq_3)
  have "reader_next r = update_loc ?r"
    using assms 0
    by (simp add: reader_next_def reads_def DEFAULT_INDEX_def read1_drop b [simplified] numeral_3_eq_3)
  moreover have "update_loc ?r = Inr (?r\<lparr>cols_ring := ring d (col_at src column) (Suc (Suc (Suc n))),
           lines_ring := ring d (line_at src line) (Suc (Suc (Suc n)))\<rparr>)"
    using assms 0 by (intro update_loc_ring) (simp_all add: reads_def numeral_3_eq_3)
  ultimately show ?thesis
    using assms 0 by (simp add: reads_def numeral_3_eq_3)
next
  case (Suc j)
  then show ?thesis using assms by (simp add: reader_next_def reads_def DEFAULT_INDEX_def)
qed

lemma reader_pushback_reads:
  assumes "reads src d line column n k r"
  shows "if k + 2 < d then \<exists>r'. reader_pushback r = Inr r' \<and> reads src d line column n (Suc k) r'
         else reader_pushback r = Inl IndexError"
  using assms by (auto simp: reader_pushback_def reads_def)

lemma reader_at:
  assumes "reads src d line column n k r"
  shows "reader_peek r = (if k \<le> n then Inr (char_at src (n - k)) else Inl IndexError)"
    and "reader_loc r = (if k \<le> n then Inr (line_at src line (n - k), col_at src column (n - k))
                         else Inl IndexError)"
  using assms dget_ring [of "k + 2" d "char_at src" "n + 2"]
    dget_ring [of "k + 2" d "line_at src line" "n + 2"]
    dget_ring [of "k + 2" d "col_at src column" "n + 2"]
  by (auto simp: reader_peek_def reader_loc_def reader_line_def reader_col_def reads_def)

section \<open>Refinement\<close>

datatype stream_op = NextChar | Pushback

fun run_stream :: "stream_op list \<Rightarrow> stream_reader \<Rightarrow> stream_reader res" where
  "run_stream [] r = Inr r"
| "run_stream (NextChar # ops) r = rbind (reader_next r) (run_stream ops)"
| "run_stream (Pushback # ops) r = rbind (reader_pushback r) (run_stream ops)"

text \<open>
  The cursor: a position in the text, and how many characters have been pushed back, at most
  \<open>room\<close> of them.
\<close>

fun run_cursor :: "nat \<Rightarrow> stream_op list \<Rightarrow> int \<times> nat \<Rightarrow> (int \<times> nat) res" where
  "run_cursor room [] c = Inr c"
| "run_cursor room (NextChar # ops) (p, k) = run_cursor room ops (p + 1, k - 1)"
| "run_cursor room (Pushback # ops) (p, k) =
     (if k = room then Inl IndexError else run_cursor room ops (p - 1, Suc k))"

lemma run_stream_cursor:
  assumes "reads src d line column n k r"
  shows "case run_cursor (d - 2) ops (int n - int k, k) of
      Inl e \<Rightarrow> run_stream ops r = Inl e
    | Inr (p, k') \<Rightarrow> \<exists>r' n'. run_stream ops r = Inr r' \<and> p = int n' - int k' \<and>
        reads src d line column n' k' r'"
  using assms
proof (induction ops arbitrary: n k r)
  case Nil
  then show ?case by auto
next
  case (Cons op ops)
  show ?case
  proof (cases op)
    case NextChar
    obtain r' where r': "reader_next r = Inr r'"
      "if k = 0 then reads src d line column (Suc n) 0 r' else reads src d line column n (k - 1) r'"
      using reader_next_reads [OF Cons.prems] by auto
    show ?thesis
    proof (cases "k = 0")
      case True
      moreover have "int (Suc n) - int 0 = int n - int k + 1" using True by simp
      ultimately show ?thesis
        using Cons.IH [of "Suc n" 0 r'] r' NextChar by (simp add: add.commute split: sum.splits prod.splits)
    next
      case False
      then have "int n - int (k - 1) = int n - int k + 1" by simp
      then show ?thesis
        using Cons.IH [of n "k - 1" r'] r' NextChar False by (simp add: algebra_simps split: sum.splits prod.splits)
    qed
  next
    case Pushback
    have k: "k + 2 \<le> d" using Cons.prems by (simp add: reads_def)
    show ?thesis
    proof (cases "k + 2 < d")
      case True
      then obtain r' where r': "reader_pushback r = Inr r'" "reads src d line column n (Suc k) r'"
        using reader_pushback_reads [OF Cons.prems] by auto
      have kd: "k \<noteq> d - 2" using True by simp
      then show ?thesis
        using Cons.IH [OF r'(2)] r'(1) Pushback k True kd by (simp add: diff_diff_eq add.commute split: sum.splits prod.splits)
    next
      case False
      then have "k = d - 2" using k by simp
      then show ?thesis using reader_pushback_reads [OF Cons.prems] False Pushback by simp
    qed
  qed
qed

text \<open>
  C16: the stream reader is a cursor over the text. After any sequence of \<open>next_char\<close> and
  \<open>pushback\<close> it shows the character, the line and the column of the cursor's position (end of
  stream past the end), where lines are counted by the line feeds, carriage returns and pairs of
  both before it; a pushback beyond the depth is the IndexError of the code, and so is a look
  before the first character.
\<close>

theorem stream_reader_refines_cursor:
  fixes src :: pystr and ops :: "stream_op list"
  assumes "2 \<le> d"
  shows "case run_cursor (d - 2) ops (0, 0) of
      Inl e \<Rightarrow> rbind (new_reader src d (Some line) (Some column)) (run_stream ops) = Inl e
    | Inr (p, k) \<Rightarrow> \<exists>r. rbind (new_reader src d (Some line) (Some column)) (run_stream ops) = Inr r \<and>
        reader_peek r = (if 0 \<le> p then Inr (char_at src (nat p)) else Inl IndexError) \<and>
        reader_loc r = (if 0 \<le> p then Inr (line_at src line (nat p), col_at src column (nat p))
                        else Inl IndexError)"
proof -
  obtain r where r: "new_reader src d (Some line) (Some column) = Inr r"
    and reads: "reads src d line column 0 0 r"
    using new_reader_reads [OF assms] by blast
  show ?thesis
  proof (cases "run_cursor (d - 2) ops (0, 0)")
    case (Inl e)
    then show ?thesis using run_stream_cursor [OF reads, of ops] r by simp
  next
    case (Inr pk)
    obtain p k where pk: "pk = (p, k)" by (cases pk)
    then obtain r' n' where r': "run_stream ops r = Inr r'" "p = int n' - int k"
      "reads src d line column n' k r'"
      using run_stream_cursor [OF reads, of ops] Inr by auto
    have "(k \<le> n') = (0 \<le> p)" "0 \<le> p \<Longrightarrow> nat p = n' - k" using r'(2) by auto
    then show ?thesis using Inr pk r r' reader_at [OF r'(3)] by (cases "0 \<le> p") simp_all
  qed
qed

text \<open>Reading \<open>a CR LF b\<close>, with two characters pushed back at the end.\<close>

theorem stream_reader_refines_cursor_witness:
  "\<exists>r. rbind (new_reader [97, 13, 10, 98] 5 (Some 1) (Some 0))
         (run_stream [NextChar, NextChar, NextChar, NextChar, Pushback, Pushback]) = Inr r \<and>
       reader_peek r = Inr (Some 10) \<and> reader_loc r = Inr (1, 2)"
  using stream_reader_refines_cursor
    [where d = 5 and ops = "[NextChar, NextChar, NextChar, NextChar, Pushback, Pushback]"
      and src = "[97, 13, 10, 98]" and line = 1 and column = 0]
  by (simp add: char_at_def line_at_def break_at_def line_ends_def NEWLINE_def CARRIAGE_def
      numeral_2_eq_2)

end
