(* ===== verification/ReaderForms.thy ===== *)
theory ReaderForms
  imports ReaderStream Equality
begin

text \<open>
  The forms the reader produces and what it asks of them: the equality and the hashability of the
  keys of map and set literals (\<open>__eq__\<close> and \<open>__hash__\<close> of the collections, through the storage
  keys of \<open>equality.py\<close>), metadata, and the walk over a form (\<open>_walk\<close>, \<open>_postwalk\<close> of
  \<open>src/src/basilisp/lang/reader.py\<close>). Values of other host types (floats, decimals, patterns,
  objects made by data readers) are of a type the development leaves open.
\<close>

section \<open>Forms\<close>

text \<open>
  \<open>FSymbol\<close>, and the collections, carry their metadata (a map form or none). Maps and sets hold
  their entries in the order in which the object is iterated. \<open>FEof\<close> and \<open>FComment\<close> are the
  reader's sentinel objects, \<open>FAbsent\<close> is \<open>ReaderConditional.FEATURE_NOT_PRESENT\<close>.
\<close>

datatype 'x form =
    FNil
  | FBool bool
  | FInt int
  | FRatio rat
  | FHost 'x
  | FStr pystr
  | FBytes "nat list"
  | FChar nat
  | FKeyword "pystr option" pystr
  | FSymbol "pystr option" pystr "'x form option"
  | FList "'x form list" "'x form option"
  | FVector "'x form list" "'x form option"
  | FSet "'x form list" "'x form option"
  | FMap "('x form \<times> 'x form) list" "'x form option"
  | FTagged "'x form" "'x form"
  | FCond "'x form list" bool
  | FEof
  | FComment
  | FAbsent

text \<open>
  What Python says about host values: the number one is (or that it is none), whether it can be
  hashed, and \<open>with_meta\<close> where its type has metadata.
\<close>

record 'x host_ops =
  host_value :: "'x \<Rightarrow> 'x pyval"
  host_hashable :: "'x \<Rightarrow> bool"
  host_add_meta :: "'x \<Rightarrow> 'x form \<Rightarrow> 'x form option"

fun number_of :: "'x host_ops \<Rightarrow> 'x form \<Rightarrow> 'x pyval option" where
  "number_of h (FBool b) = Some (PyBool b)"
| "number_of h (FInt n) = Some (PyInt n)"
| "number_of h (FRatio q) = Some (PyFraction q)"
| "number_of h (FHost x) = Some (host_value h x)"
| "number_of h _ = None"

text \<open>
  \<open>left == right\<close> of Python, and \<open>numeric_equiv(left, right)\<close> when \<open>strict\<close> is set: sequences
  compare by \<open>numeric_equiv\<close> of their elements, sets and maps through their storage keys.
\<close>

fun seq_items :: "'x form \<Rightarrow> 'x form list option" where
  "seq_items (FList xs m) = Some xs"
| "seq_items (FVector xs m) = Some xs"
| "seq_items _ = None"

definition same_number :: "'x host_ops \<Rightarrow> bool \<Rightarrow> 'x pyval \<Rightarrow> 'x form \<Rightarrow> bool" where
  "same_number h strict v b =
     (case number_of h b of
        None \<Rightarrow> False
      | Some w \<Rightarrow> if strict then numeric_equiv v w else py_eq v w)"

fun same_form :: "'x host_ops \<Rightarrow> bool \<Rightarrow> 'x form \<Rightarrow> 'x form \<Rightarrow> bool" where
  "same_form h strict FNil b = (b = FNil)"
| "same_form h strict (FBool v) b = same_number h strict (PyBool v) b"
| "same_form h strict (FInt v) b = same_number h strict (PyInt v) b"
| "same_form h strict (FRatio v) b = same_number h strict (PyFraction v) b"
| "same_form h strict (FHost v) b = same_number h strict (host_value h v) b"
| "same_form h strict (FStr s) b = (b = FStr s)"
| "same_form h strict (FBytes s) b = (b = FBytes s)"
| "same_form h strict (FChar c) b = (b = FChar c)"
| "same_form h strict (FKeyword ns n) b = (b = FKeyword ns n)"
| "same_form h strict (FSymbol ns n m) b = (case b of FSymbol ns' n' m' \<Rightarrow> ns = ns' \<and> n = n' | _ \<Rightarrow> False)"
| "same_form h strict (FList xs m) b =
     (case seq_items b of Some ys \<Rightarrow> list_all2 (same_form h True) xs ys | None \<Rightarrow> False)"
| "same_form h strict (FVector xs m) b =
     (case seq_items b of Some ys \<Rightarrow> list_all2 (same_form h True) xs ys | None \<Rightarrow> False)"
| "same_form h strict (FSet xs m) b =
     (case b of
        FSet ys m' \<Rightarrow> length xs = length ys \<and> (\<forall>x \<in> set xs. \<exists>y \<in> set ys. same_form h True x y)
      | _ \<Rightarrow> False)"
| "same_form h strict (FMap xs m) b =
     (case b of
        FMap ys m' \<Rightarrow> length xs = length ys \<and>
          (\<forall>x \<in> set xs. \<exists>y \<in> set ys. same_form h True (fst x) (fst y) \<and> same_form h True (snd x) (snd y))
      | _ \<Rightarrow> False)"
| "same_form h strict (FTagged t x) b =
     (case b of FTagged t' y \<Rightarrow> same_form h False t t' \<and> same_form h False x y | _ \<Rightarrow> False)"
| "same_form h strict (FCond xs s) b =
     (case b of FCond ys s' \<Rightarrow> list_all2 (same_form h True) xs ys \<and> s = s' | _ \<Rightarrow> False)"
| "same_form h strict FEof b = (b = FEof)"
| "same_form h strict FComment b = (b = FComment)"
| "same_form h strict FAbsent b = (b = FAbsent)"

text \<open>Equality of the storage keys \<open>equivalence_key(a)\<close> and \<open>equivalence_key(b)\<close>.\<close>

definition same_key :: "'x host_ops \<Rightarrow> 'x form \<Rightarrow> 'x form \<Rightarrow> bool" where
  "same_key h a b = same_form h True a b"

text \<open>\<open>hash\<close> of a collection hashes its elements; a reader conditional has no hash.\<close>

fun hashable :: "'x host_ops \<Rightarrow> 'x form \<Rightarrow> bool" where
  "hashable h (FHost x) = host_hashable h x"
| "hashable h (FList xs _) = (\<forall>x \<in> set xs. hashable h x)"
| "hashable h (FVector xs _) = (\<forall>x \<in> set xs. hashable h x)"
| "hashable h (FSet xs _) = (\<forall>x \<in> set xs. hashable h x)"
| "hashable h (FMap xs _) = (\<forall>x \<in> set xs. hashable h (fst x) \<and> hashable h (snd x))"
| "hashable h (FTagged t x) = hashable h x"
| "hashable h (FCond xs s) = False"
| "hashable h _ = True"

section \<open>Maps and sets\<close>

text \<open>An assignment to a key of a hash map: the key that is there stays, the value changes.\<close>

fun put_entry :: "'x host_ops \<Rightarrow> 'x form \<times> 'x form \<Rightarrow> ('x form \<times> 'x form) list \<Rightarrow> ('x form \<times> 'x form) list"
where
  "put_entry h e [] = [e]"
| "put_entry h e (d # ds) =
     (if same_key h (fst d) (fst e) then (fst d, snd e) # ds else d # put_entry h e ds)"

definition put_entries ::
  "'x host_ops \<Rightarrow> ('x form \<times> 'x form) list \<Rightarrow> ('x form \<times> 'x form) list \<Rightarrow> ('x form \<times> 'x form) list"
where
  "put_entries h es ds = fold (put_entry h) es ds"

definition member_of :: "'x host_ops \<Rightarrow> 'x form \<Rightarrow> 'x form list \<Rightarrow> bool" where
  "member_of h x xs \<longleftrightarrow> (\<exists>y \<in> set xs. same_key h y x)"

definition put_member :: "'x host_ops \<Rightarrow> 'x form \<Rightarrow> 'x form list \<Rightarrow> 'x form list" where
  "put_member h x xs = (if member_of h x xs then xs else xs @ [x])"

text \<open>\<open>lset.set(xs)\<close> and \<open>lmap.hash_map(*kvs)\<close>: a member or key without a hash is a TypeError.\<close>

definition make_set :: "'x host_ops \<Rightarrow> 'x form list \<Rightarrow> 'x form option \<Rightarrow> 'x form res" where
  "make_set h xs m =
     (if \<forall>x \<in> set xs. hashable h x then Inr (FSet (fold (put_member h) xs []) m) else Inl TypeError)"

definition make_map :: "'x host_ops \<Rightarrow> ('x form \<times> 'x form) list \<Rightarrow> 'x form option \<Rightarrow> 'x form res" where
  "make_map h es m =
     (if \<forall>e \<in> set es. hashable h (fst e) then Inr (FMap (put_entries h es []) m) else Inl TypeError)"

section \<open>Metadata\<close>

text \<open>
  \<open>v.meta.cons(new)\<close>, or \<open>new\<close> for an object without metadata: the entries of \<open>new\<close> over the
  old ones, in a map that keeps the metadata of the old map.
\<close>

fun merge_meta :: "'x host_ops \<Rightarrow> 'x form option \<Rightarrow> 'x form \<Rightarrow> 'x form option" where
  "merge_meta h (Some (FMap old m)) (FMap new m') = Some (FMap (put_entries h new old) m)"
| "merge_meta h _ new = Some new"

text \<open>\<open>isinstance(v, IWithMeta)\<close> with the merge above; \<open>None\<close> for a value without metadata.\<close>

fun add_meta :: "'x host_ops \<Rightarrow> 'x form \<Rightarrow> 'x form \<Rightarrow> 'x form option" where
  "add_meta h (FSymbol ns n m) new = Some (FSymbol ns n (merge_meta h m new))"
| "add_meta h (FList xs m) new = Some (FList xs (merge_meta h m new))"
| "add_meta h (FVector xs m) new = Some (FVector xs (merge_meta h m new))"
| "add_meta h (FSet xs m) new = Some (FSet xs (merge_meta h m new))"
| "add_meta h (FMap es m) new = Some (FMap es (merge_meta h m new))"
| "add_meta h (FHost x) new = host_add_meta h x new"
| "add_meta h _ new = None"

section \<open>Walking a form\<close>

text \<open>
  \<open>_postwalk(f, form)\<close>: the elements first, then the rebuilt collection, with the metadata of
  the old one. A walked set or map is built again, so members or keys that have become equal
  collapse.
\<close>

fun postwalk :: "'x host_ops \<Rightarrow> ('x form \<Rightarrow> 'x form res) \<Rightarrow> 'x form \<Rightarrow> 'x form res" where
  "postwalk h f (FList xs m) = rbind (mapM (\<lambda>x. x) (map (postwalk h f) xs)) (\<lambda>ys. f (FList ys m))"
| "postwalk h f (FVector xs m) = rbind (mapM (\<lambda>x. x) (map (postwalk h f) xs)) (\<lambda>ys. f (FVector ys m))"
| "postwalk h f (FSet xs m) =
     rbind (mapM (\<lambda>x. x) (map (postwalk h f) xs)) (\<lambda>ys. rbind (make_set h ys m) f)"
| "postwalk h f (FMap es m) =
     rbind (mapM (\<lambda>x. x) (map (\<lambda>e. rbind (postwalk h f (fst e))
        (\<lambda>k. rbind (postwalk h f (snd e)) (\<lambda>v. Inr (k, v)))) es))
       (\<lambda>ps. rbind (make_map h ps m) f)"
| "postwalk h f x = f x"

end
