(* ===== verification/ReaderTokens.thy ===== *)
theory ReaderTokens
  imports ReaderForms
begin

text \<open>
  The reader's context and its token readers (\<open>src/src/basilisp/lang/reader.py\<close>): whitespace,
  names, numbers, strings, byte strings, characters, symbols, keywords and comments.

  A reader function is a function of the reader's state that returns an error or a value and a
  new state. The loops take a fuel that bounds their turns; running out of it is the error
  \<open>OutOfFuel\<close>, which the code does not have.
\<close>

section \<open>Context\<close>

text \<open>
  \<open>SyntaxErr\<close> and \<open>EofErr\<close> are \<open>SyntaxError\<close> and \<open>UnexpectedEOFError\<close> with their line and column.
  \<open>BareSyntaxErr\<close> is a \<open>SyntaxError\<close> that was made without a reader and so tells no place, and \<open>PyErr\<close>
  is another exception, each with the line and column of the stream when it was raised; \<open>EndOfInput\<close> is Python's \<open>EOFError\<close>.
\<close>

datatype reader_error =
    SyntaxErr "(int \<times> int) option"
  | BareSyntaxErr "int \<times> int"
  | EofErr "(int \<times> int) option"
  | PyErr py_error "int \<times> int"
  | EndOfInput
  | AssertErr
  | OutOfFuel

text \<open>What a function of the caller raises: the reader's SyntaxError, or another exception.\<close>

datatype call_error = CallSyntaxError | CallAssertion | CallError py_error

text \<open>
  What the reader takes from Python and from its caller. \<open>uni_*\<close> are Python's character tables
  above ASCII: \<open>\\w\<close>, white space, \<open>isdigit\<close>, the categories of marks, and decimal digit values.
  \<open>py_float\<close> to \<open>py_regex\<close> are the constructors of host values. The rest are the arguments of
  \<open>ReaderContext\<close> and what it asks of the runtime: the current namespace with its aliases, and
  the factories of records and types (\<open>load_record\<close>).
\<close>

record 'x reader_env =
  uni_word :: "nat \<Rightarrow> bool"
  uni_space :: "nat \<Rightarrow> bool"
  uni_isdigit :: "nat \<Rightarrow> bool"
  uni_mark :: "nat \<Rightarrow> bool"
  uni_decimal :: "nat \<Rightarrow> nat option"
  py_float :: "pystr \<Rightarrow> 'x"
  py_decimal :: "pystr \<Rightarrow> 'x"
  py_scaled :: "bool \<Rightarrow> pystr \<Rightarrow> int \<Rightarrow> 'x res"
  py_complex :: "bool \<Rightarrow> pystr \<Rightarrow> 'x res"
  py_regex :: "pystr \<Rightarrow> 'x option"
  py_nan :: 'x
  py_inf :: 'x
  py_neg_inf :: 'x
  hosts :: "'x host_ops"
  current_ns :: pystr
  ns_aliases :: "pystr \<Rightarrow> pystr option"
  resolver :: "'x form \<Rightarrow> 'x form"
  data_readers :: "pystr option \<Rightarrow> pystr \<Rightarrow> ('x form \<Rightarrow> call_error + 'x form) option"
  builtin_readers :: "pystr option \<Rightarrow> pystr \<Rightarrow> ('x form \<Rightarrow> call_error + 'x form) option"
  default_reader :: "'x form \<Rightarrow> 'x form \<Rightarrow> call_error + 'x form"
  load_record :: "'x form \<Rightarrow> 'x form \<Rightarrow> call_error + 'x form"
  eval_reader :: "('x form \<Rightarrow> call_error + 'x form) option"
  features :: "'x form \<Rightarrow> bool"
  process_cond :: bool
  edn :: bool

text \<open>
  The state: the stream, the stacks of the context (top first), the auto-gensym tables that go
  with the syntax quotes, and the global counter of \<open>langutil.genname\<close>.
\<close>

record 'x rstate =
  rdr :: stream_reader
  anon_fns :: "bool list"
  quotes :: "bool list"
  gensyms :: "(pystr \<times> 'x form) list list"
  tag_policies :: "bool list"
  name_counter :: nat

type_synonym ('x, 'a) rm = "'x rstate \<Rightarrow> reader_error + 'a \<times> 'x rstate"

definition ret :: "'a \<Rightarrow> ('x, 'a) rm" where
  "ret a s = Inr (a, s)"

definition rdo :: "('x, 'a) rm \<Rightarrow> ('a \<Rightarrow> ('x, 'b) rm) \<Rightarrow> ('x, 'b) rm" where
  "rdo m f s = (case m s of Inl e \<Rightarrow> Inl e | Inr (a, s') \<Rightarrow> f a s')"

definition out_of_fuel :: "('x, 'a) rm" where
  "out_of_fuel s = Inl OutOfFuel"

definition assertion_error :: "('x, 'a) rm" where
  "assertion_error s = Inl AssertErr"

definition here :: "'x rstate \<Rightarrow> int \<times> int" where
  "here s = (case reader_loc (rdr s) of Inr lc \<Rightarrow> lc | Inl _ \<Rightarrow> (0, 0))"

definition py_raise :: "py_error \<Rightarrow> ('x, 'a) rm" where
  "py_raise e s = Inl (PyErr e (here s))"

text \<open>\<open>ctx.syntax_error\<close> and \<open>ctx.eof_error\<close>, raised.\<close>

definition syntax_error :: "('x, 'a) rm" where
  "syntax_error s =
     (case reader_loc (rdr s) of Inr lc \<Rightarrow> Inl (SyntaxErr (Some lc)) | Inl e \<Rightarrow> Inl (PyErr e (here s)))"

definition eof_error :: "('x, 'a) rm" where
  "eof_error s =
     (case reader_loc (rdr s) of Inr lc \<Rightarrow> Inl (EofErr (Some lc)) | Inl e \<Rightarrow> Inl (PyErr e (here s)))"

definition lift_res :: "'a res \<Rightarrow> ('x, 'a) rm" where
  "lift_res r = (case r of Inl e \<Rightarrow> py_raise e | Inr a \<Rightarrow> ret a)"

definition peek :: "('x, nat option) rm" where
  "peek s = (case reader_peek (rdr s) of Inl e \<Rightarrow> Inl (PyErr e (here s)) | Inr c \<Rightarrow> Inr (c, s))"

definition move :: "(stream_reader \<Rightarrow> stream_reader res) \<Rightarrow> ('x, unit) rm" where
  "move f s = (case f (rdr s) of Inl e \<Rightarrow> Inl (PyErr e (here s)) | Inr r \<Rightarrow> Inr ((), s\<lparr>rdr := r\<rparr>))"

definition next_char :: "('x, nat option) rm" where
  "next_char = rdo (move reader_next) (\<lambda>_. peek)"

definition pushback :: "('x, unit) rm" where
  "pushback = move reader_pushback"

definition advance :: "('x, nat option) rm" where
  "advance = rdo peek (\<lambda>c. rdo next_char (\<lambda>_. ret c))"

text \<open>The context managers: push, run the body, pop.\<close>

definition in_anon_fn :: "('x, 'a) rm \<Rightarrow> ('x, 'a) rm" where
  "in_anon_fn m =
     (\<lambda>s. rdo m (\<lambda>a t. ret a (t\<lparr>anon_fns := tl (anon_fns t)\<rparr>)) (s\<lparr>anon_fns := True # anon_fns s\<rparr>))"

definition is_in_anon_fn :: "'x rstate \<Rightarrow> bool" where
  "is_in_anon_fn s = (case anon_fns s of [] \<Rightarrow> False | b # _ \<Rightarrow> b)"

definition with_tag_policy :: "bool \<Rightarrow> ('x, 'a) rm \<Rightarrow> ('x, 'a) rm" where
  "with_tag_policy v m =
     (\<lambda>s. rdo m (\<lambda>a t. ret a (t\<lparr>tag_policies := tl (tag_policies t)\<rparr>))
        (s\<lparr>tag_policies := v # tag_policies s\<rparr>))"

definition should_process_tags :: "'x rstate \<Rightarrow> bool" where
  "should_process_tags s = (case tag_policies s of [] \<Rightarrow> True | b # _ \<Rightarrow> b)"

definition syntax_quoted :: "('x, 'a) rm \<Rightarrow> ('x, 'a) rm" where
  "syntax_quoted m =
     (\<lambda>s. rdo m (\<lambda>a t. ret a (t\<lparr>gensyms := tl (gensyms t), quotes := tl (quotes t)\<rparr>))
        (s\<lparr>quotes := True # quotes s, gensyms := [] # gensyms s\<rparr>))"

definition unquoted :: "('x, 'a) rm \<Rightarrow> ('x, 'a) rm" where
  "unquoted m =
     (\<lambda>s. rdo m (\<lambda>a t. ret a (t\<lparr>quotes := tl (quotes t)\<rparr>)) (s\<lparr>quotes := False # quotes s\<rparr>))"

definition is_syntax_quoted :: "'x rstate \<Rightarrow> bool" where
  "is_syntax_quoted s = (case quotes s of [] \<Rightarrow> False | b # _ \<Rightarrow> b)"

section \<open>Characters\<close>

definition lit :: "string \<Rightarrow> pystr" where
  "lit s = map of_char s"

definition ch :: "char \<Rightarrow> nat" where
  "ch c = of_char c"

lemma ch_eq [simp]: "ch c = ch d \<longleftrightarrow> c = d"
  by (simp add: ch_def)

definition is_digit :: "nat \<Rightarrow> bool" where
  "is_digit c \<longleftrightarrow> 48 \<le> c \<and> c \<le> 57"

definition is_letter :: "nat \<Rightarrow> bool" where
  "is_letter c \<longleftrightarrow> 65 \<le> c \<and> c \<le> 90 \<or> 97 \<le> c \<and> c \<le> 122"

text \<open>\<open>\\w\<close>, \<open>isdigit\<close> and \<open>[\\s,]\<close> of a character; the empty string matches none of them.\<close>

definition word_char :: "'x reader_env \<Rightarrow> nat \<Rightarrow> bool" where
  "word_char E c = (if c < 128 then is_digit c \<or> is_letter c \<or> c = 95 else uni_word E c)"

definition isdigit :: "'x reader_env \<Rightarrow> nat \<Rightarrow> bool" where
  "isdigit E c = (if c < 128 then is_digit c else uni_isdigit E c)"

definition py_space :: "'x reader_env \<Rightarrow> nat \<Rightarrow> bool" where
  "py_space E c = (if c < 128 then 9 \<le> c \<and> c \<le> 13 \<or> 28 \<le> c \<and> c \<le> 32 else uni_space E c)"

definition whitespace :: "'x reader_env \<Rightarrow> nat \<Rightarrow> bool" where
  "whitespace E c \<longleftrightarrow> py_space E c \<or> c = ch CHR '',''"

definition punctuation :: pystr where
  "punctuation = lit ''-+*?/='' @ [92] @ lit ''!&%><$:.''"

definition ns_name_char :: "'x reader_env \<Rightarrow> nat \<Rightarrow> bool" where
  "ns_name_char E c \<longleftrightarrow> word_char E c \<or> c \<in> set punctuation"

text \<open>\<open>_is_ns_name_char\<close>.\<close>

definition is_ns_name_char :: "'x reader_env \<Rightarrow> nat \<Rightarrow> bool" where
  "is_ns_name_char E c \<longleftrightarrow> ns_name_char E c \<or> (128 \<le> c \<and> uni_mark E c)"

definition on_char :: "(nat \<Rightarrow> bool) \<Rightarrow> nat option \<Rightarrow> bool" where
  "on_char p c = (case c of None \<Rightarrow> False | Some x \<Rightarrow> p x)"

definition is_hex :: "nat \<Rightarrow> bool" where
  "is_hex c \<longleftrightarrow> is_digit c \<or> 65 \<le> c \<and> c \<le> 70 \<or> 97 \<le> c \<and> c \<le> 102"

section \<open>White space and names\<close>

fun consume_whitespace :: "'x reader_env \<Rightarrow> nat \<Rightarrow> ('x, nat option) rm" where
  "consume_whitespace E 0 = out_of_fuel"
| "consume_whitespace E (Suc n) =
     rdo peek (\<lambda>c.
       if on_char (whitespace E) c then rdo next_char (\<lambda>_. consume_whitespace E n) else ret c)"

text \<open>
  The loop of \<open>_read_namespaced\<close> with its variables \<open>has_ns\<close>, \<open>ns\<close> and \<open>name\<close>.
\<close>

fun read_name_loop ::
  "'x reader_env \<Rightarrow> nat option \<Rightarrow> nat \<Rightarrow> bool \<Rightarrow> pystr \<Rightarrow> pystr \<Rightarrow> ('x, bool \<times> pystr \<times> pystr) rm"
where
  "read_name_loop E suffix 0 has_ns ns name = out_of_fuel"
| "read_name_loop E suffix (Suc n) has_ns ns name =
     rdo peek (\<lambda>c.
       if c = Some (ch CHR ''/'') then
         rdo next_char (\<lambda>_.
           if has_ns then
             if name = [] then read_name_loop E suffix n has_ns ns [ch CHR ''/''] else syntax_error
           else if name = [] then read_name_loop E suffix n has_ns ns [ch CHR ''/'']
           else if ch CHR ''/'' \<in> set name then syntax_error
           else read_name_loop E suffix n True name [])
       else if on_char (is_ns_name_char E) c
           \<or> (name \<noteq> [] \<and> c = Some 39)
           \<or> (edn E \<and> c = Some 39 \<and> \<not> has_ns)
           \<or> c = Some (ch CHR ''#'') then
         if has_ns \<and> name = [ch CHR ''/''] then syntax_error
         else rdo next_char (\<lambda>_. read_name_loop E suffix n has_ns ns (name @ [the c]))
       else if suffix \<noteq> None \<and> c = suffix then
         rdo next_char (\<lambda>_. read_name_loop E suffix n has_ns ns (name @ [the c]))
       else ret (has_ns, ns, name))"

definition read_namespaced ::
  "'x reader_env \<Rightarrow> nat \<Rightarrow> nat option \<Rightarrow> ('x, pystr option \<times> pystr) rm"
where
  "read_namespaced E n suffix =
     rdo (read_name_loop E suffix n False [] []) (\<lambda>(has_ns, ns, name).
       if \<not> has_ns then
         if ch CHR ''/'' \<in> set name \<and> name \<noteq> [ch CHR ''/''] then syntax_error
         else ret (None, name)
       else if ns = [] then assertion_error
       else ret (Some ns, name))"

section \<open>Symbols and keywords\<close>

text \<open>The segments of \<open>ns.split(".")\<close>.\<close>

fun split_on :: "nat \<Rightarrow> pystr \<Rightarrow> pystr list" where
  "split_on d [] = [[]]"
| "split_on d (c # cs) =
     (if c = d then [] # split_on d cs
      else case split_on d cs of seg # segs \<Rightarrow> (c # seg) # segs | [] \<Rightarrow> [[c]])"

definition ends_with :: "nat \<Rightarrow> pystr \<Rightarrow> bool" where
  "ends_with c s \<longleftrightarrow> s \<noteq> [] \<and> List.last s = c"

definition starts_with :: "nat \<Rightarrow> pystr \<Rightarrow> bool" where
  "starts_with c s \<longleftrightarrow> s \<noteq> [] \<and> hd s = c"

definition kw :: "string \<Rightarrow> 'x form" where
  "kw n = FKeyword None (lit n)"

definition reader_kw :: "string \<Rightarrow> 'x form" where
  "reader_kw n = FKeyword (Some (lit ''basilisp.lang.reader'')) (lit n)"

definition loc_meta :: "int \<times> int \<Rightarrow> int \<times> int \<Rightarrow> 'x form" where
  "loc_meta start stop =
     FMap [(reader_kw ''line'', FInt (fst start)), (reader_kw ''col'', FInt (snd start)),
           (reader_kw ''end-line'', FInt (fst stop)), (reader_kw ''end-col'', FInt (snd stop))] None"

definition location :: "('x, int \<times> int) rm" where
  "location s = (case reader_loc (rdr s) of Inl e \<Rightarrow> Inl (PyErr e (here s)) | Inr lc \<Rightarrow> Inr (lc, s))"

text \<open>\<open>_with_loc(f)\<close>.\<close>

definition with_loc :: "'x reader_env \<Rightarrow> ('x, 'x form) rm \<Rightarrow> ('x, 'x form) rm" where
  "with_loc E f =
     rdo location (\<lambda>start. rdo f (\<lambda>v. rdo location (\<lambda>stop.
       ret (case add_meta (hosts E) v (loc_meta start stop) of None \<Rightarrow> v | Some w \<Rightarrow> w))))"

definition symbol_of :: "'x reader_env \<Rightarrow> bool \<Rightarrow> pystr option \<Rightarrow> pystr \<Rightarrow> ('x, 'x form) rm" where
  "symbol_of E is_macro_sym ns name s =
     (if \<not> is_syntax_quoted s \<and> ends_with (ch CHR ''#'') name then syntax_error s
      else if ns \<noteq> None \<and> [] \<in> set (split_on (ch CHR ''.'') (the ns)) then syntax_error s
      else if ns = None \<and> name = lit ''nil'' then ret FNil s
      else if ns = None \<and> name = lit ''true'' then ret (FBool True) s
      else if ns = None \<and> name = lit ''false'' then ret (FBool False) s
      else if ns = None \<and> name = lit ''&'' then ret (FSymbol None name None) s
      else if ns = None \<and> starts_with (ch CHR ''.'') name then ret (FSymbol None name None) s
      else if is_syntax_quoted s \<and> \<not> ends_with (ch CHR ''#'') name \<and> \<not> is_macro_sym
      then ret (resolver E (FSymbol ns name None)) s
      else ret (FSymbol ns name None) s)"

definition read_sym :: "'x reader_env \<Rightarrow> nat \<Rightarrow> bool \<Rightarrow> ('x, 'x form) rm" where
  "read_sym E n is_macro_sym =
     with_loc E (rdo (read_namespaced E n (Some (ch CHR ''#''))) (\<lambda>(ns, name).
       symbol_of E is_macro_sym ns name))"

definition read_kw :: "'x reader_env \<Rightarrow> nat \<Rightarrow> ('x, 'x form) rm" where
  "read_kw E n =
     rdo advance (\<lambda>start.
       if start \<noteq> Some (ch CHR '':'') then assertion_error
       else rdo peek (\<lambda>c.
         if c = Some (ch CHR '':'') then
           if edn E then syntax_error
           else rdo advance (\<lambda>_. rdo (read_namespaced E n None) (\<lambda>(ns, name).
             case ns of
               None \<Rightarrow> ret (FKeyword (Some (current_ns E)) name)
             | Some alias \<Rightarrow>
                 (case ns_aliases E alias of
                    None \<Rightarrow> syntax_error
                  | Some full \<Rightarrow> ret (FKeyword (Some full) name))))
         else rdo (read_namespaced E n None) (\<lambda>(ns, name). ret (FKeyword ns name))))"

section \<open>Numbers\<close>

text \<open>\<open>for _ in chars: reader.pushback()\<close> with its IndexError turned into a SyntaxError.\<close>

fun pushback_times :: "nat \<Rightarrow> ('x, unit) rm" where
  "pushback_times 0 = ret ()"
| "pushback_times (Suc k) =
     (\<lambda>s. case pushback s of Inl e \<Rightarrow> syntax_error s | Inr (u, t) \<Rightarrow> pushback_times k t)"

text \<open>
  The loop of \<open>_read_num\<close>: the characters of the literal, or \<open>None\<close> when it has pushed them back
  to be read as a symbol.
\<close>

fun number_chars :: "'x reader_env \<Rightarrow> nat \<Rightarrow> pystr \<Rightarrow> ('x, pystr option) rm" where
  "number_chars E 0 chars = out_of_fuel"
| "number_chars E (Suc n) chars =
     rdo peek (\<lambda>c.
       if c = Some (ch CHR ''-'') then
         rdo next_char (\<lambda>following.
           if \<not> on_char (isdigit E) following \<and> following \<noteq> Some (ch CHR ''-'') then
             rdo pushback (\<lambda>_. rdo (pushback_times (length chars)) (\<lambda>_. ret None))
           else number_chars E n (chars @ [ch CHR ''-'']))
       else if c = Some (ch CHR ''+'') \<and> chars = [] then
         rdo next_char (\<lambda>following.
           if \<not> on_char (isdigit E) following then rdo pushback (\<lambda>_. ret None)
           else number_chars E n (chars @ [ch CHR ''+'']))
       else if c = Some (ch CHR ''+'') then
         rdo next_char (\<lambda>_. number_chars E n (chars @ [ch CHR ''+'']))
       else if \<not> on_char (\<lambda>x. is_digit x \<or> is_letter x \<or> x \<in> set (lit ''/.+'')) c then ret (Some chars)
       else rdo next_char (\<lambda>_. number_chars E n (chars @ [the c])))"

definition digit_of :: "nat \<Rightarrow> nat" where
  "digit_of c =
     (if is_digit c then c - 48 else if 97 \<le> c \<and> c \<le> 122 then c - 87 else c - 55)"

text \<open>\<open>int(s, base)\<close> of digits and letters; \<open>None\<close> is its ValueError.\<close>

definition int_of_digits :: "nat \<Rightarrow> pystr \<Rightarrow> int option" where
  "int_of_digits b s =
     (if s \<noteq> [] \<and> (\<forall>c \<in> set s. digit_of c < b)
      then Some (foldl (\<lambda>n c. n * int b + int (digit_of c)) 0 s) else None)"

definition decimal_int :: "pystr \<Rightarrow> int" where
  "decimal_int s = foldl (\<lambda>n c. n * 10 + int (digit_of c)) 0 s"

definition drop_sign :: "pystr \<Rightarrow> pystr" where
  "drop_sign s = (case s of [] \<Rightarrow> [] | c # cs \<Rightarrow> if c \<in> set (lit ''+-'') then cs else s)"

definition drop_suffix :: "char \<Rightarrow> pystr \<Rightarrow> pystr" where
  "drop_suffix c s = (if ends_with (ch c) s then butlast s else s)"

definition negative :: "pystr \<Rightarrow> bool" where
  "negative s = starts_with (ch CHR ''-'') s"

definition signed :: "pystr \<Rightarrow> int \<Rightarrow> int" where
  "signed s n = (if negative s then - n else n)"

definition digits :: "pystr \<Rightarrow> bool" where
  "digits s \<longleftrightarrow> s \<noteq> [] \<and> (\<forall>c \<in> set s. is_digit c)"

text \<open>\<open>\\d|[1-9]\\d+\<close>\<close>

definition plain_integer :: "pystr \<Rightarrow> bool" where
  "plain_integer s \<longleftrightarrow> digits s \<and> (length s = 1 \<or> hd s \<noteq> 48)"

text \<open>\<open>s\<close> around the first character of \<open>ds\<close> in it, if there is one.\<close>

definition cut_at :: "pystr \<Rightarrow> pystr \<Rightarrow> pystr \<times> pystr option" where
  "cut_at ds s =
     (case dropWhile (\<lambda>c. c \<notin> set ds) s of
        [] \<Rightarrow> (s, None)
      | _ # rest \<Rightarrow> (takeWhile (\<lambda>c. c \<notin> set ds) s, Some rest))"

text \<open>\<open>integer_literal\<close>, \<open>float_literal\<close> and the others: what the pattern binds, if it matches.\<close>

definition match_integer :: "pystr \<Rightarrow> int option" where
  "match_integer s =
     (let t = drop_suffix CHR ''N'' s; u = drop_sign t
      in if plain_integer u then Some (signed t (decimal_int u)) else None)"

definition match_float :: "pystr \<Rightarrow> pystr option" where
  "match_float s =
     (let t = drop_suffix CHR ''M'' s; (ip, fp) = cut_at (lit ''.'') (drop_sign t)
      in if plain_integer ip \<and> (\<forall>c \<in> set (case fp of None \<Rightarrow> [] | Some f \<Rightarrow> f). is_digit c)
         then Some t else None)"

definition match_octal :: "pystr \<Rightarrow> int option" where
  "match_octal s =
     (case drop_sign (drop_suffix CHR ''N'' s) of
        [] \<Rightarrow> None
      | z # t \<Rightarrow>
          if z = 48 \<and> (\<forall>c \<in> set t. is_digit c) then map_option (signed s) (int_of_digits 8 t) else None)"

definition match_hex :: "pystr \<Rightarrow> int option" where
  "match_hex s =
     (case drop_sign (drop_suffix CHR ''N'' s) of
        z # x # t \<Rightarrow>
          if z = 48 \<and> x \<in> set (lit ''Xx'') \<and> (\<forall>c \<in> set t. is_hex c)
          then map_option (signed s) (int_of_digits 16 t) else None
      | _ \<Rightarrow> None)"

definition match_ratio :: "pystr \<Rightarrow> (int \<times> int) option" where
  "match_ratio s =
     (case cut_at (lit ''/'') (drop_sign s) of
        (num, Some den) \<Rightarrow>
          if digits num \<and> digits den then Some (signed s (decimal_int num), decimal_int den) else None
      | (num, None) \<Rightarrow> None)"

text \<open>\<open>\\d+(?:\\.\\d*)?\<close>\<close>

definition significand :: "pystr \<Rightarrow> bool" where
  "significand s \<longleftrightarrow>
     (let (ip, fp) = cut_at (lit ''.'') s
      in digits ip \<and> (\<forall>c \<in> set (case fp of None \<Rightarrow> [] | Some f \<Rightarrow> f). is_digit c))"

definition match_scientific :: "pystr \<Rightarrow> (pystr \<times> int \<times> bool) option" where
  "match_scientific s =
     (case cut_at (lit ''Ee'') (drop_sign s) of
        (sig, Some exponent) \<Rightarrow>
          (let t = drop_suffix CHR ''M'' exponent
           in if significand sig \<and> digits (drop_sign t)
              then Some (sig, signed t (decimal_int (drop_sign t)), ends_with (ch CHR ''M'') exponent)
              else None)
      | (sig, None) \<Rightarrow> None)"

definition match_based :: "pystr \<Rightarrow> (nat \<times> pystr) option" where
  "match_based s =
     (case cut_at (lit ''r'') (drop_sign s) of
        (base, Some t) \<Rightarrow>
          if digits base \<and> length base \<le> 2 \<and> t \<noteq> [] \<and> (\<forall>c \<in> set t. is_digit c \<or> is_letter c)
          then Some (nat (decimal_int base), t) else None
      | (base, None) \<Rightarrow> None)"

definition match_complex :: "pystr \<Rightarrow> pystr option" where
  "match_complex s =
     (let t = drop_sign s
      in if ends_with (ch CHR ''J'') t \<and> significand (butlast t) then Some (butlast t) else None)"

text \<open>\<open>Fraction(n, d)\<close>, read back as an integer when its denominator is 1.\<close>

definition ratio_form :: "int \<Rightarrow> int \<Rightarrow> 'x form" where
  "ratio_form n d =
     (let q = Fract n d in if snd (quotient_of q) = 1 then FInt (fst (quotient_of q)) else FRatio q)"

text \<open>The value of a literal; \<open>None\<close> is the SyntaxError for an invalid number.\<close>

definition number_value :: "'x reader_env \<Rightarrow> pystr \<Rightarrow> 'x form res option" where
  "number_value E s =
     (case match_integer s of Some n \<Rightarrow> Some (Inr (FInt n)) | None \<Rightarrow>
      case match_float s of Some t \<Rightarrow>
        Some (Inr (FHost (if ends_with (ch CHR ''M'') s then py_decimal E t else py_float E t))) | None \<Rightarrow>
      case match_octal s of Some n \<Rightarrow> Some (Inr (FInt n)) | None \<Rightarrow>
      case match_hex s of Some n \<Rightarrow> Some (Inr (FInt n)) | None \<Rightarrow>
      case match_ratio s of Some (n, d) \<Rightarrow>
        (if n = 0 then Some (Inr (FInt 0)) else if d = 0 then None else Some (Inr (ratio_form n d))) | None \<Rightarrow>
      case match_scientific s of Some (sig, e, is_decimal) \<Rightarrow>
        (if is_decimal then Some (Inr (FHost (py_decimal E (butlast s))))
         else if ch CHR ''.'' \<notin> set sig \<and> 0 \<le> e
         then Some (Inr (FInt (signed s (decimal_int sig * 10 ^ nat e))))
         else Some (map_sum id FHost (py_scaled E (negative s) sig e))) | None \<Rightarrow>
      case match_based s of Some (base, t) \<Rightarrow>
        (if 2 \<le> base \<and> base \<le> 36
         then map_option (\<lambda>n. Inr (FInt (signed s n))) (int_of_digits base t) else None) | None \<Rightarrow>
      case match_complex s of Some t \<Rightarrow> Some (map_sum id FHost (py_complex E (negative s) t)) | None \<Rightarrow>
      None)"

definition read_num :: "'x reader_env \<Rightarrow> nat \<Rightarrow> ('x, 'x form) rm" where
  "read_num E n =
     rdo (number_chars E n []) (\<lambda>chars.
       case chars of
         None \<Rightarrow> read_sym E n False
       | Some s \<Rightarrow>
           if s = [] then assertion_error
           else (case number_value E s of None \<Rightarrow> syntax_error | Some r \<Rightarrow> lift_res r))"

section \<open>Strings\<close>

definition QUOTE :: nat where "QUOTE = 34"
definition BACKSLASH :: nat where "BACKSLASH = 92"

text \<open>\<open>_STR_ESCAPE_CHARS\<close>.\<close>

definition str_escapes :: "(nat \<times> nat) list" where
  "str_escapes = [(QUOTE, QUOTE), (BACKSLASH, BACKSLASH), (ch CHR ''a'', 7), (ch CHR ''b'', 8),
     (ch CHR ''f'', 12), (ch CHR ''n'', 10), (ch CHR ''r'', 13), (ch CHR ''t'', 9), (ch CHR ''v'', 11)]"

definition str_escape :: "nat option \<Rightarrow> nat option" where
  "str_escape c = (case c of None \<Rightarrow> None | Some x \<Rightarrow> map_of str_escapes x)"

text \<open>\<open>chr(n)\<close>: past the last code point a ValueError, past a C int an OverflowError.\<close>

definition py_chr :: "nat \<Rightarrow> nat res" where
  "py_chr n =
     (if n < 0x110000 then Inr n else if n < 2 ^ 31 then Inl ValueError else Inl OverflowError)"

definition hex_value :: "pystr \<Rightarrow> nat" where
  "hex_value s = foldl (\<lambda>n c. n * 16 + digit_of c) 0 s"

fun hex_run :: "nat \<Rightarrow> pystr \<Rightarrow> ('x, pystr) rm" where
  "hex_run 0 acc = out_of_fuel"
| "hex_run (Suc n) acc =
     rdo peek (\<lambda>c.
       if \<not> on_char is_hex c then rdo pushback (\<lambda>_. ret acc)
       else rdo next_char (\<lambda>_. hex_run n (acc @ [the c])))"

definition read_unicode_escape_seq :: "nat \<Rightarrow> ('x, nat) rm" where
  "read_unicode_escape_seq n =
     rdo advance (\<lambda>_. rdo (hex_run n []) (\<lambda>hex.
       if length hex \<notin> {4, 8} then syntax_error else lift_res (py_chr (hex_value hex))))"

definition is_u :: "nat option \<Rightarrow> bool" where
  "is_u c \<longleftrightarrow> c = Some (ch CHR ''u'') \<or> c = Some (ch CHR ''U'')"

fun read_str_loop :: "nat \<Rightarrow> bool \<Rightarrow> pystr \<Rightarrow> ('x, pystr) rm" where
  "read_str_loop 0 any_escape s = out_of_fuel"
| "read_str_loop (Suc n) any_escape s =
     rdo next_char (\<lambda>c.
       if c = None then eof_error
       else if c = Some BACKSLASH then
         rdo next_char (\<lambda>d.
           case str_escape d of
             Some e \<Rightarrow> read_str_loop n any_escape (s @ [e])
           | None \<Rightarrow>
               if is_u d then
                 rdo (read_unicode_escape_seq n) (\<lambda>u. read_str_loop n any_escape (s @ [u]))
               else if any_escape then
                 read_str_loop n any_escape (s @ BACKSLASH # (case d of None \<Rightarrow> [] | Some x \<Rightarrow> [x]))
               else syntax_error)
       else if c = Some QUOTE then rdo next_char (\<lambda>_. ret s)
       else read_str_loop n any_escape (s @ [the c]))"

definition read_str :: "nat \<Rightarrow> ('x, 'x form) rm" where
  "read_str n = rdo (read_str_loop n False []) (\<lambda>s. ret (FStr s))"

definition read_regex :: "'x reader_env \<Rightarrow> nat \<Rightarrow> ('x, 'x form) rm" where
  "read_regex E n =
     rdo (read_str_loop n True []) (\<lambda>s.
       case py_regex E s of None \<Rightarrow> syntax_error | Some p \<Rightarrow> ret (FHost p))"

section \<open>Byte strings\<close>

text \<open>The UTF-8 encoding of a character; a surrogate has none (a ValueError).\<close>

definition utf8 :: "nat \<Rightarrow> nat list res" where
  "utf8 c =
     (if c < 0x80 then Inr [c]
      else if c < 0x800 then Inr [0xC0 + c div 0x40, 0x80 + c mod 0x40]
      else if 0xD800 \<le> c \<and> c < 0xE000 then Inl ValueError
      else if c < 0x10000
      then Inr [0xE0 + c div 0x1000, 0x80 + c div 0x40 mod 0x40, 0x80 + c mod 0x40]
      else Inr [0xF0 + c div 0x40000, 0x80 + c div 0x1000 mod 0x40, 0x80 + c div 0x40 mod 0x40,
                0x80 + c mod 0x40])"

text \<open>
  \<open>int("0x" + s, 16)\<close>: hexadecimal digits (decimal digits of any script), each after at most one
  underscore.
\<close>

definition hex_digit_value :: "'x reader_env \<Rightarrow> nat \<Rightarrow> nat option" where
  "hex_digit_value E c =
     (if is_hex c then Some (digit_of c) else if c < 128 then None else uni_decimal E c)"

fun py_hex :: "'x reader_env \<Rightarrow> nat \<Rightarrow> pystr \<Rightarrow> nat option" where
  "py_hex E v [] = Some v"
| "py_hex E v (c # cs) =
     (if c = 95 then
        (case cs of
           [] \<Rightarrow> None
         | d # ds \<Rightarrow>
             (case hex_digit_value E d of None \<Rightarrow> None | Some x \<Rightarrow> py_hex E (16 * v + x) ds))
      else (case hex_digit_value E c of None \<Rightarrow> None | Some x \<Rightarrow> py_hex E (16 * v + x) cs))"

definition py_int_hex :: "'x reader_env \<Rightarrow> pystr \<Rightarrow> nat option" where
  "py_int_hex E s =
     (let t = rev (dropWhile (py_space E) (rev s)) in if t = [] then None else py_hex E 0 t)"

definition opt_char :: "nat option \<Rightarrow> pystr" where
  "opt_char c = (case c of None \<Rightarrow> [] | Some x \<Rightarrow> [x])"

definition read_hex_byte :: "'x reader_env \<Rightarrow> ('x, nat list) rm" where
  "read_hex_byte E =
     rdo next_char (\<lambda>c1. rdo next_char (\<lambda>c2.
       case py_int_hex E (opt_char c1 @ opt_char c2) of
         None \<Rightarrow> syntax_error
       | Some v \<Rightarrow> if v < 256 then ret [v] else syntax_error))"

fun read_byte_loop :: "'x reader_env \<Rightarrow> nat \<Rightarrow> nat list \<Rightarrow> ('x, nat list) rm" where
  "read_byte_loop E 0 b = out_of_fuel"
| "read_byte_loop E (Suc n) b =
     rdo next_char (\<lambda>c.
       if c = None then eof_error
       else if the c < 1 \<or> the c > 127 then eof_error
       else if c = Some BACKSLASH then
         rdo next_char (\<lambda>d.
           case str_escape d of
             Some e \<Rightarrow> read_byte_loop E n (b @ [e])
           | None \<Rightarrow>
               if d = Some (ch CHR ''x'') then
                 rdo (read_hex_byte E) (\<lambda>v. read_byte_loop E n (b @ v))
               else (case d of
                   None \<Rightarrow> read_byte_loop E n (b @ [BACKSLASH])
                 | Some x \<Rightarrow>
                     rdo (lift_res (utf8 x)) (\<lambda>v. read_byte_loop E n (b @ BACKSLASH # v))))
       else if c = Some QUOTE then rdo next_char (\<lambda>_. ret b)
       else read_byte_loop E n (b @ [the c]))"

definition read_byte_str :: "'x reader_env \<Rightarrow> nat \<Rightarrow> ('x, 'x form) rm" where
  "read_byte_str E n =
     rdo (consume_whitespace E n) (\<lambda>c.
       if c \<noteq> Some QUOTE then syntax_error
       else rdo (read_byte_loop E n []) (\<lambda>b. ret (FBytes b)))"

section \<open>Characters, constants and comments\<close>

text \<open>\<open>_SPECIAL_CHARS\<close>.\<close>

definition special_chars :: "(pystr \<times> nat) list" where
  "special_chars = [(lit ''newline'', 10), (lit ''space'', 32), (lit ''tab'', 9),
     (lit ''formfeed'', 12), (lit ''backspace'', 8), (lit ''return'', 13)]"

fun character_chars :: "'x reader_env \<Rightarrow> nat \<Rightarrow> bool \<Rightarrow> pystr \<Rightarrow> ('x, pystr) rm" where
  "character_chars E 0 is_first s = out_of_fuel"
| "character_chars E (Suc n) is_first s =
     rdo peek (\<lambda>c.
       if c = None \<or> (\<not> is_first \<and> \<not> on_char (word_char E) c) then ret s
       else rdo next_char (\<lambda>_. character_chars E n False (s @ [the c])))"

text \<open>\<open>char.character(s)\<close> and \<open>unicode_char.match(s)\<close>, whose group is the rest of \<open>s\<close>.\<close>

definition char_form :: "pystr \<Rightarrow> ('x, 'x form) rm" where
  "char_form s = rdo (lift_res (character (StringArg s))) (\<lambda>c. ret (FChar c))"

definition unicode_group :: "'x reader_env \<Rightarrow> pystr \<Rightarrow> pystr option" where
  "unicode_group E s =
     (case s of
        u # c # cs \<Rightarrow>
          if u = ch CHR ''u'' \<and> word_char E c then Some (c # takeWhile (word_char E) cs) else None
      | _ \<Rightarrow> None)"

definition character_value :: "'x reader_env \<Rightarrow> pystr \<Rightarrow> ('x, 'x form) rm" where
  "character_value E s =
     (case map_of special_chars s of
        Some c \<Rightarrow> char_form [c]
      | None \<Rightarrow>
          (case unicode_group E s of
             Some hex \<Rightarrow>
               (case py_int_hex E hex of
                  None \<Rightarrow> syntax_error
                | Some v \<Rightarrow>
                    (case rbind (py_chr v) (\<lambda>c. character (StringArg [c])) of
                       Inl e \<Rightarrow> syntax_error
                     | Inr c \<Rightarrow> ret (FChar c)))
           | None \<Rightarrow> if length s > 1 then syntax_error else char_form s))"

definition read_character :: "'x reader_env \<Rightarrow> nat \<Rightarrow> ('x, 'x form) rm" where
  "read_character E n =
     rdo advance (\<lambda>start.
       if start \<noteq> Some BACKSLASH then assertion_error
       else rdo (character_chars E n True []) (character_value E))"

definition read_numeric_constant :: "'x reader_env \<Rightarrow> nat \<Rightarrow> ('x, 'x form) rm" where
  "read_numeric_constant E n =
     rdo advance (\<lambda>start.
       if start \<noteq> Some (ch CHR ''#'') then assertion_error
       else rdo (read_namespaced E n None) (\<lambda>(ns, name).
         if ns \<noteq> None then syntax_error
         else if name = lit ''NaN'' then ret (FHost (py_nan E))
         else if name = lit ''Inf'' then ret (FHost (py_inf E))
         else if name = lit ''-Inf'' then ret (FHost (py_neg_inf E))
         else syntax_error))"

text \<open>The loop of \<open>_read_comment\<close>.\<close>

fun skip_line :: "nat \<Rightarrow> ('x, 'x form) rm" where
  "skip_line 0 = out_of_fuel"
| "skip_line (Suc n) =
     rdo peek (\<lambda>c.
       if c = Some NEWLINE \<or> c = Some CARRIAGE then rdo advance (\<lambda>_. ret FComment)
       else if c = None then ret FEof
       else rdo advance (\<lambda>_. skip_line n))"

definition read_comment :: "nat \<Rightarrow> ('x, 'x form) rm" where
  "read_comment n =
     rdo advance (\<lambda>start.
       if start \<noteq> Some (ch CHR '';'') \<and> start \<noteq> Some (ch CHR ''!'') then assertion_error
       else skip_line n)"

end
