(* ===== verification/Reader.thy ===== *)
theory Reader
  imports ReaderTokens
begin

text \<open>
  The reader proper (\<open>src/src/basilisp/lang/reader.py\<close>): collections, metadata, quoting,
  syntax quote, anonymous functions, f-strings, reader conditionals, tagged literals, the
  dispatch of \<open>_read_next\<close>, and the loops of \<open>read\<close> and \<open>read_with_source\<close>.

  Every function that calls \<open>_read_next\<close> takes it as its argument \<open>rd\<close>; \<open>read_next\<close> ties the
  knot with a fuel that bounds the nesting and is the fuel of the loops.
\<close>

section \<open>Tagged literals and reader conditionals\<close>

text \<open>
  A call of a data reader: its SyntaxErrors are raised again as \<open>ctx.syntax_error(e.message)\<close>.
\<close>

definition call_reader :: "(call_error + 'x form) \<Rightarrow> ('x, 'x form) rm" where
  "call_reader r =
     (case r of
        Inr v \<Rightarrow> ret v
      | Inl CallSyntaxError \<Rightarrow> syntax_error
      | Inl CallAssertion \<Rightarrow> assertion_error
      | Inl (CallError e) \<Rightarrow> py_raise e)"

fun resolve_tagged_literal :: "'x reader_env \<Rightarrow> 'x form \<Rightarrow> 'x form \<Rightarrow> ('x, 'x form) rm" where
  "resolve_tagged_literal E (FSymbol ns name m) v =
     (case data_readers E ns name of
        Some f \<Rightarrow> call_reader (f v)
      | None \<Rightarrow>
          (case builtin_readers E ns name of
             Some f \<Rightarrow> call_reader (f v)
           | None \<Rightarrow>
               if ns = None \<and> ch CHR ''.'' \<in> set name
               then call_reader (load_record E (FSymbol ns name m) v)
               else call_reader (default_reader E (FSymbol ns name m) v)))"
| "resolve_tagged_literal E _ v = assertion_error"

text \<open>A loop of reader functions.\<close>

fun rseq :: "('x, 'a) rm list \<Rightarrow> ('x, 'a list) rm" where
  "rseq [] = ret []"
| "rseq (m # ms) = rdo m (\<lambda>y. rdo (rseq ms) (\<lambda>ys. ret (y # ys)))"

text \<open>
  \<open>_postwalk(resolve_tagged_literals, form)\<close>: the tagged literals of the chosen branch,
  innermost first.
\<close>

fun resolve_tags :: "'x reader_env \<Rightarrow> 'x form \<Rightarrow> ('x, 'x form) rm" where
  "resolve_tags E (FList xs m) = rdo (rseq (map (resolve_tags E) xs)) (\<lambda>ys. ret (FList ys m))"
| "resolve_tags E (FVector xs m) = rdo (rseq (map (resolve_tags E) xs)) (\<lambda>ys. ret (FVector ys m))"
| "resolve_tags E (FSet xs m) =
     rdo (rseq (map (resolve_tags E) xs)) (\<lambda>ys. lift_res (make_set (hosts E) ys m))"
| "resolve_tags E (FMap es m) =
     rdo (rseq (map (\<lambda>e. rdo (resolve_tags E (fst e)) (\<lambda>k. rdo (resolve_tags E (snd e)) (\<lambda>v.
         ret (k, v)))) es)) (\<lambda>ps. lift_res (make_map (hosts E) ps m))"
| "resolve_tags E (FTagged t x) =
     rdo (resolve_tags E x) (\<lambda>v s.
       if should_process_tags s then resolve_tagged_literal E t v s else ret (FTagged t v) s)"
| "resolve_tags E x = ret x"

text \<open>\<open>_compile_feature_vec\<close>: pairs of a keyword and a form; \<open>None\<close> is its SyntaxError.\<close>

fun feature_pairs :: "'x form list \<Rightarrow> 'x form list \<Rightarrow> ('x form \<times> 'x form) list option" where
  "feature_pairs seen [] = Some []"
| "feature_pairs seen [k] = None"
| "feature_pairs seen (k # v # rest) =
     (case k of
        FKeyword ns n \<Rightarrow>
          if k \<in> set seen then None else map_option ((#) (k, v)) (feature_pairs (k # seen) rest)
      | _ \<Rightarrow> None)"

definition select_feature :: "'x reader_env \<Rightarrow> ('x form \<times> 'x form) list \<Rightarrow> 'x form" where
  "select_feature E pairs =
     (case find (\<lambda>p. features E (fst p)) pairs of None \<Rightarrow> FAbsent | Some p \<Rightarrow> snd p)"

fun select_branch :: "'x reader_env \<Rightarrow> 'x form \<Rightarrow> ('x, 'x form) rm" where
  "select_branch E (FCond xs splicing) =
     (case feature_pairs [] xs of
        None \<Rightarrow> syntax_error
      | Some pairs \<Rightarrow> resolve_tags E (select_feature E pairs))"
| "select_branch E _ = assertion_error"

text \<open>
  What an element read inside a collection adds to it: nothing for a comment, the items of the
  selected vector for a splicing conditional, otherwise itself.
\<close>

definition collected :: "'x reader_env \<Rightarrow> 'x form \<Rightarrow> ('x, 'x form list) rm" where
  "collected E elem =
     (case elem of
        FComment \<Rightarrow> ret []
      | FCond xs splicing \<Rightarrow>
          if process_cond E then
            if splicing then
              rdo (select_branch E elem) (\<lambda>f.
                case f of FAbsent \<Rightarrow> ret [] | FVector ys m \<Rightarrow> ret ys | _ \<Rightarrow> syntax_error)
            else assertion_error
          else ret [elem]
      | _ \<Rightarrow> ret [elem])"

section \<open>Collections\<close>

text \<open>
  The loop of \<open>_read_coll\<close> and \<open>__read_map_elems\<close> up to the closing character, which is
  consumed; the elements in order.
\<close>

fun read_elems :: "'x reader_env \<Rightarrow> ('x, 'x form) rm \<Rightarrow> nat \<Rightarrow> nat \<Rightarrow> 'x form list \<Rightarrow> ('x, 'x form list) rm"
where
  "read_elems E rd end_char 0 acc = out_of_fuel"
| "read_elems E rd end_char (Suc n) acc =
     rdo peek (\<lambda>c.
       if c = None then eof_error
       else if on_char (whitespace E) c then rdo advance (\<lambda>_. read_elems E rd end_char n acc)
       else if c = Some end_char then rdo next_char (\<lambda>_. ret acc)
       else rdo rd (\<lambda>elem. rdo (collected E elem) (\<lambda>xs. read_elems E rd end_char n (acc @ xs))))"

definition expect :: "nat \<Rightarrow> ('x, 'a) rm \<Rightarrow> ('x, 'a) rm" where
  "expect c m = rdo advance (\<lambda>start. if start \<noteq> Some c then assertion_error else m)"

definition read_list :: "'x reader_env \<Rightarrow> ('x, 'x form) rm \<Rightarrow> nat \<Rightarrow> ('x, 'x form) rm" where
  "read_list E rd n =
     with_loc E (expect (ch CHR ''('')
       (rdo (read_elems E rd (ch CHR '')'') n []) (\<lambda>xs. ret (FList xs None))))"

definition read_vector :: "'x reader_env \<Rightarrow> ('x, 'x form) rm \<Rightarrow> nat \<Rightarrow> ('x, 'x form) rm" where
  "read_vector E rd n =
     with_loc E (expect (ch CHR ''['')
       (rdo (read_elems E rd (ch CHR '']'') n []) (\<lambda>xs. ret (FVector xs None))))"

text \<open>\<open>set_if_valid\<close>.\<close>

definition set_if_valid :: "'x reader_env \<Rightarrow> 'x form list \<Rightarrow> ('x, 'x form) rm" where
  "set_if_valid E xs =
     (if \<exists>x \<in> set xs. \<not> hashable (hosts E) x then py_raise TypeError
      else if fold (put_member (hosts E)) xs [] \<noteq> xs then syntax_error
      else lift_res (make_set (hosts E) xs None))"

definition read_set :: "'x reader_env \<Rightarrow> ('x, 'x form) rm \<Rightarrow> nat \<Rightarrow> ('x, 'x form) rm" where
  "read_set E rd n =
     with_loc E (expect (ch CHR ''{'')
       (rdo (read_elems E rd (ch CHR ''}'') n []) (set_if_valid E)))"

text \<open>\<open>_map_key_processor\<close>.\<close>

fun process_key :: "pystr option \<Rightarrow> 'x form \<Rightarrow> 'x form" where
  "process_key (Some space) (FKeyword ns n) =
     (case ns of
        None \<Rightarrow> FKeyword (Some space) n
      | Some m \<Rightarrow> if m = lit ''_'' then FKeyword None n else FKeyword ns n)"
| "process_key (Some space) (FSymbol ns n meta) =
     (case ns of
        None \<Rightarrow> FSymbol (Some space) n None
      | Some m \<Rightarrow> if m = lit ''_'' then FSymbol None n None else FSymbol ns n meta)"
| "process_key space k = k"

text \<open>
  The loop over \<open>partition(elems, 2)\<close>: a key without a hash and a key seen before are
  SyntaxErrors, and so is a last key without a value.
\<close>

fun map_entries ::
  "'x reader_env \<Rightarrow> pystr option \<Rightarrow> 'x form list \<Rightarrow> 'x form list \<Rightarrow> ('x form \<times> 'x form) list option"
where
  "map_entries E space seen [] = Some []"
| "map_entries E space seen [k] = None"
| "map_entries E space seen (k # v # rest) =
     (let key = process_key space k
      in if \<not> hashable (hosts E) key \<or> member_of (hosts E) key seen then None
         else map_option ((#) (key, v)) (map_entries E space (seen @ [key]) rest))"

text \<open>\<open>except ValueError\<close> around the elements.\<close>

definition value_error_as_syntax :: "('x, 'a) rm \<Rightarrow> ('x, 'a) rm" where
  "value_error_as_syntax m s =
     (case m s of Inl (PyErr ValueError l) \<Rightarrow> Inl (SyntaxErr (Some l)) | r \<Rightarrow> r)"

definition read_map ::
  "'x reader_env \<Rightarrow> ('x, 'x form) rm \<Rightarrow> nat \<Rightarrow> pystr option \<Rightarrow> ('x, 'x form) rm"
where
  "read_map E rd n space =
     with_loc E (expect (ch CHR ''{'')
       (rdo (value_error_as_syntax (read_elems E rd (ch CHR ''}'') n [])) (\<lambda>xs.
         case map_entries E space [] xs of
           None \<Rightarrow> syntax_error
         | Some es \<Rightarrow> lift_res (make_map (hosts E) es None))))"

definition read_namespaced_map :: "'x reader_env \<Rightarrow> ('x, 'x form) rm \<Rightarrow> nat \<Rightarrow> ('x, 'x form) rm" where
  "read_namespaced_map E rd n =
     rdo peek (\<lambda>start.
       if start \<noteq> Some (ch CHR '':'') then assertion_error
       else rdo advance (\<lambda>_. rdo peek (\<lambda>c.
         rdo (if c = Some (ch CHR '':'') then rdo advance (\<lambda>_. ret (current_ns E))
              else rdo (read_namespaced E n None) (\<lambda>(kw_ns, map_ns).
                if kw_ns \<noteq> None then syntax_error else ret map_ns))
           (\<lambda>map_ns. rdo (consume_whitespace E n) (\<lambda>_. read_map E rd n (Some map_ns))))))"

section \<open>Comments and metadata\<close>

fun next_form :: "('x, 'x form) rm \<Rightarrow> nat \<Rightarrow> ('x, 'x form) rm" where
  "next_form rd 0 = out_of_fuel"
| "next_form rd (Suc n) = rdo rd (\<lambda>v. if v = FComment then next_form rd n else ret v)"

fun meta_of :: "'x form \<Rightarrow> 'x form option" where
  "meta_of (FSymbol ns n m) = Some (FMap [(kw ''tag'', FSymbol ns n m)] None)"
| "meta_of (FKeyword ns n) = Some (FMap [(FKeyword ns n, FBool True)] None)"
| "meta_of (FMap es m) = Some (FMap es m)"
| "meta_of (FVector xs m) = Some (FMap [(kw ''param-tags'', FVector xs m)] None)"
| "meta_of _ = None"

definition read_meta :: "'x reader_env \<Rightarrow> ('x, 'x form) rm \<Rightarrow> nat \<Rightarrow> ('x, 'x form) rm" where
  "read_meta E rd n =
     expect (ch CHR ''^'') (rdo (next_form rd n) (\<lambda>meta.
       case meta_of meta of
         None \<Rightarrow> syntax_error
       | Some meta_map \<Rightarrow>
           rdo (next_form rd n) (\<lambda>obj.
             case add_meta (hosts E) obj meta_map of None \<Rightarrow> syntax_error | Some w \<Rightarrow> ret w)))"

section \<open>Anonymous functions\<close>

definition sym :: "string \<Rightarrow> 'x form" where
  "sym n = FSymbol None (lit n) None"

definition core_sym :: "string \<Rightarrow> 'x form" where
  "core_sym n = FSymbol (Some (lit ''basilisp.core'')) (lit n) None"

definition form_list :: "'x form list \<Rightarrow> 'x form" where
  "form_list xs = FList xs None"

text \<open>
  \<open>fn_macro_args.match(name)\<close> and \<open>arg_suffix\<close> of its second group: a name that begins with
  \<open>%\<close>, then \<open>&\<close> or one digit if it has one.
\<close>

definition arg_suffix :: "pystr \<Rightarrow> pystr option" where
  "arg_suffix name =
     (case name of
        [] \<Rightarrow> None
      | p # rest \<Rightarrow>
          if p \<noteq> ch CHR ''%'' then None
          else (case rest of
                  [] \<Rightarrow> Some (lit ''1'')
                | c # _ \<Rightarrow>
                    if c = ch CHR ''&'' then Some (lit ''rest'')
                    else if is_digit c then Some [c] else Some (lit ''1'')))"

definition sym_replacement :: "bool \<Rightarrow> pystr \<Rightarrow> 'x form" where
  "sym_replacement quoted suffix =
     FSymbol None (lit ''arg-'' @ suffix @ (if quoted then lit ''#'' else [])) None"

fun symbol_arg :: "'x reader_env \<Rightarrow> 'x form \<Rightarrow> pystr option" where
  "symbol_arg E (FSymbol ns n m) =
     (if ns = None \<or> ns = Some (current_ns E) then arg_suffix n else None)"
| "symbol_arg E _ = None"

definition identify_and_replace :: "'x reader_env \<Rightarrow> bool \<Rightarrow> 'x form \<Rightarrow> 'x form" where
  "identify_and_replace E quoted f =
     (case symbol_arg E f of None \<Rightarrow> f | Some suffix \<Rightarrow> sym_replacement quoted suffix)"

text \<open>The suffixes that the walk puts into \<open>arg_set\<close>.\<close>

fun arg_set :: "'x reader_env \<Rightarrow> 'x form \<Rightarrow> pystr list" where
  "arg_set E (FList xs m) = concat (map (arg_set E) xs)"
| "arg_set E (FVector xs m) = concat (map (arg_set E) xs)"
| "arg_set E (FSet xs m) = concat (map (arg_set E) xs)"
| "arg_set E (FMap es m) = concat (map (\<lambda>e. arg_set E (fst e) @ arg_set E (snd e)) es)"
| "arg_set E x = (case symbol_arg E x of None \<Rightarrow> [] | Some suffix \<Rightarrow> [suffix])"

definition max_arg :: "pystr list \<Rightarrow> nat" where
  "max_arg args = fold max (map (\<lambda>s. hd s - 48) (filter (\<lambda>s. s \<noteq> lit ''rest'') args)) 0"

definition arg_list :: "bool \<Rightarrow> pystr list \<Rightarrow> 'x form list" where
  "arg_list quoted args =
     map (\<lambda>i. sym_replacement quoted [48 + i]) [1..<Suc (max_arg args)] @
     (if lit ''rest'' \<in> set args then [sym ''&'', sym_replacement quoted (lit ''rest'')] else [])"

definition read_function :: "'x reader_env \<Rightarrow> ('x, 'x form) rm \<Rightarrow> nat \<Rightarrow> ('x, 'x form) rm" where
  "read_function E rd n =
     with_loc E (\<lambda>s.
       if is_in_anon_fn s then syntax_error s
       else rdo (in_anon_fn (read_list E rd n)) (\<lambda>form t.
         let quoted = is_syntax_quoted t; args = arg_set E form
         in rdo (if seq_items form = Some [] then ret FNil
                 else lift_res (postwalk (hosts E) (\<lambda>f. Inr (identify_and_replace E quoted f)) form))
              (\<lambda>body. ret (form_list [sym ''fn*'', FVector (arg_list quoted args) None, body])) t) s)"

section \<open>Quoting\<close>

definition read_quoted :: "'x reader_env \<Rightarrow> ('x, 'x form) rm \<Rightarrow> nat \<Rightarrow> ('x, 'x form) rm" where
  "read_quoted E rd n =
     with_loc E (expect 39 (rdo (next_form rd n) (\<lambda>v. ret (form_list [sym ''quote'', v]))))"

definition read_deref :: "'x reader_env \<Rightarrow> ('x, 'x form) rm \<Rightarrow> nat \<Rightarrow> ('x, 'x form) rm" where
  "read_deref E rd n =
     with_loc E (expect (ch CHR ''@'')
       (rdo (next_form rd n) (\<lambda>v. ret (form_list [core_sym ''deref'', v]))))"

definition read_unquote :: "'x reader_env \<Rightarrow> ('x, 'x form) rm \<Rightarrow> nat \<Rightarrow> ('x, 'x form) rm" where
  "read_unquote E rd n =
     expect (ch CHR ''~'') (unquoted (rdo peek (\<lambda>c.
       if c = Some (ch CHR ''@'') then
         rdo advance (\<lambda>_. rdo (next_form rd n) (\<lambda>v.
           ret (form_list [core_sym ''unquote-splicing'', v])))
       else rdo (next_form rd n) (\<lambda>v. ret (form_list [core_sym ''unquote'', v])))))"

text \<open>\<open>form.first == sym\<close>, and \<open>form[1]\<close> with its IndexError.\<close>

fun headed_by :: "string \<Rightarrow> 'x form \<Rightarrow> bool" where
  "headed_by n (FList (FSymbol ns name m # xs) m') =
     (ns = Some (lit ''basilisp.core'') \<and> name = lit n)"
| "headed_by n _ = False"

fun second_item :: "'x form \<Rightarrow> ('x, 'x form) rm" where
  "second_item (FList (x # y # xs) m) = ret y"
| "second_item _ = py_raise IndexError"

definition is_unquote :: "'x form \<Rightarrow> bool" where
  "is_unquote f = headed_by ''unquote'' f"

definition is_unquote_splicing :: "'x form \<Rightarrow> bool" where
  "is_unquote_splicing f = headed_by ''unquote-splicing'' f"

text \<open>\<open>str(i)\<close> and \<open>langutil.genname\<close>.\<close>

fun nat_digits :: "nat \<Rightarrow> pystr" where
  "nat_digits n = (if n < 10 then [48 + n] else nat_digits (n div 10) @ [48 + n mod 10])"

definition genname :: "pystr \<Rightarrow> ('x, pystr) rm" where
  "genname prefix s =
     (let i = name_counter s + 1
      in Inr (prefix @ lit ''_'' @ nat_digits i, s\<lparr>name_counter := i\<rparr>))"

text \<open>The symbol \<open>name\<close> that ends with \<open>#\<close>, from the table of the innermost syntax quote.\<close>

definition auto_gensym :: "pystr \<Rightarrow> 'x form option \<Rightarrow> ('x, 'x form) rm" where
  "auto_gensym name m s =
     (case gensyms s of
        [] \<Rightarrow> Inl (PyErr IndexError (here s))
      | tbl # outer \<Rightarrow>
          (case map_of tbl name of
             Some g \<Rightarrow> ret g s
           | None \<Rightarrow>
               rdo (genname (butlast name)) (\<lambda>g t.
                 let genned = FSymbol None g m
                 in ret genned (t\<lparr>gensyms := ((name, genned) # tbl) # outer\<rparr>)) s))"

text \<open>\<open>_process_syntax_quoted_form\<close> and \<open>_expand_syntax_quote\<close>.\<close>

definition concat_form :: "'x form list \<Rightarrow> 'x form" where
  "concat_form xs = form_list (core_sym ''concat'' # xs)"

definition listed :: "'x form \<Rightarrow> 'x form" where
  "listed x = form_list [core_sym ''list'', x]"

definition expanded :: "('x form \<Rightarrow> ('x, 'x form) rm) \<Rightarrow> 'x form \<Rightarrow> ('x, 'x form) rm" where
  "expanded process x =
     (if is_unquote x then rdo (second_item x) (\<lambda>y. ret (listed y))
      else if is_unquote_splicing x then second_item x
      else rdo (process x) (\<lambda>y. ret (listed y)))"

lemma expanded_cong [fundef_cong]:
  assumes "x = y" "f y = g y"
  shows "expanded f x = expanded g y"
  using assms by (simp add: expanded_def)

definition applied :: "string \<Rightarrow> 'x form list \<Rightarrow> 'x form" where
  "applied f xs = form_list [core_sym ''apply'', core_sym f, concat_form xs]"

fun process_quoted :: "'x reader_env \<Rightarrow> 'x form \<Rightarrow> ('x, 'x form) rm" where
  "process_quoted E (FList xs m) =
     (if is_unquote (FList xs m) then second_item (FList xs m)
      else if is_unquote_splicing (FList xs m) then syntax_error
      else rdo (rseq (map (expanded (process_quoted E)) xs)) (\<lambda>ys.
        ret (form_list [core_sym ''seq'', concat_form ys])))"
| "process_quoted E (FVector xs m) =
     rdo (rseq (map (expanded (process_quoted E)) xs)) (\<lambda>ys. ret (applied ''vector'' ys))"
| "process_quoted E (FSet xs m) =
     rdo (rseq (map (expanded (process_quoted E)) xs)) (\<lambda>ys. ret (applied ''hash-set'' ys))"
| "process_quoted E (FMap es m) =
     rdo (rseq (map (\<lambda>e. rdo (expanded (process_quoted E) (fst e)) (\<lambda>k.
         rdo (expanded (process_quoted E) (snd e)) (\<lambda>v. ret [k, v]))) es)) (\<lambda>kvs.
       ret (applied ''hash-map'' (concat kvs)))"
| "process_quoted E (FSymbol ns name m) =
     (if ns = None \<and> ends_with (ch CHR ''#'') name
      then rdo (auto_gensym name m) (\<lambda>g. ret (form_list [sym ''quote'', g]))
      else ret (form_list [sym ''quote'', FSymbol ns name m]))"
| "process_quoted E x = ret x"

definition read_syntax_quoted :: "'x reader_env \<Rightarrow> ('x, 'x form) rm \<Rightarrow> nat \<Rightarrow> ('x, 'x form) rm" where
  "read_syntax_quoted E rd n =
     expect (ch CHR ''`'') (syntax_quoted (rdo (next_form rd n) (process_quoted E)))"

section \<open>f-strings\<close>

fun is_str :: "'x form \<Rightarrow> bool" where
  "is_str (FStr s) = True"
| "is_str _ = False"

fun str_of :: "'x form \<Rightarrow> pystr" where
  "str_of (FStr s) = s"
| "str_of _ = []"

definition fstr_form :: "'x form list \<Rightarrow> 'x form" where
  "fstr_form elems =
     (if \<forall>e \<in> set elems. is_str e then FStr (concat (map str_of elems))
      else form_list (core_sym ''str'' # elems))"

fun read_fstr_loop ::
  "'x reader_env \<Rightarrow> ('x, 'x form) rm \<Rightarrow> nat \<Rightarrow> 'x form list \<Rightarrow> pystr \<Rightarrow> ('x, 'x form) rm"
where
  "read_fstr_loop E rd 0 elems s = out_of_fuel"
| "read_fstr_loop E rd (Suc n) elems s =
     rdo next_char (\<lambda>c.
       if c = None then eof_error
       else if c = Some BACKSLASH then
         rdo next_char (\<lambda>d.
           case str_escape d of
             Some e \<Rightarrow> read_fstr_loop E rd n elems (s @ [e])
           | None \<Rightarrow>
               if is_u d then
                 rdo (read_unicode_escape_seq n) (\<lambda>u. read_fstr_loop E rd n elems (s @ [u]))
               else if d = Some (ch CHR ''{'') then read_fstr_loop E rd n elems (s @ [ch CHR ''{''])
               else syntax_error)
       else if c = Some QUOTE then rdo next_char (\<lambda>_. ret (fstr_form (elems @ [FStr s])))
       else if c = Some (ch CHR ''{'') then
         rdo next_char (\<lambda>_. rdo rd (\<lambda>expr. rdo (consume_whitespace E n) (\<lambda>d.
           if d \<noteq> Some (ch CHR ''}'') then syntax_error
           else read_fstr_loop E rd n (elems @ [FStr s, expr]) [])))
       else read_fstr_loop E rd n elems (s @ [the c]))"

definition read_fstr :: "'x reader_env \<Rightarrow> ('x, 'x form) rm \<Rightarrow> nat \<Rightarrow> ('x, 'x form) rm" where
  "read_fstr E rd n = rdo (consume_whitespace E n) (\<lambda>_. read_fstr_loop E rd n [] [])"

section \<open>Reader conditionals\<close>

text \<open>
  \<open>_read_reader_conditional_preserving\<close>: the elements are read with tagged literals left alone.
\<close>

definition read_cond_form ::
  "'x reader_env \<Rightarrow> ('x, 'x form) rm \<Rightarrow> nat \<Rightarrow> bool \<Rightarrow> ('x, 'x form) rm"
where
  "read_cond_form E rd n splicing =
     rdo (read_elems E (with_tag_policy False rd) (ch CHR '')'') n []) (\<lambda>xs.
       case feature_pairs [] xs of None \<Rightarrow> syntax_error | Some ps \<Rightarrow> ret (FCond xs splicing))"

definition read_reader_conditional ::
  "'x reader_env \<Rightarrow> ('x, 'x form) rm \<Rightarrow> nat \<Rightarrow> ('x, 'x form) rm"
where
  "read_reader_conditional E rd n =
     expect (ch CHR ''?'') (rdo peek (\<lambda>c.
       rdo (if c = Some (ch CHR ''@'') then rdo advance (\<lambda>_. ret True)
            else if c = Some (ch CHR ''('') then ret False
            else syntax_error) (\<lambda>splicing.
       rdo advance (\<lambda>open_char.
         if open_char \<noteq> Some (ch CHR ''('') then syntax_error
         else rdo (read_cond_form E rd n splicing) (\<lambda>cond.
           if process_cond E \<and> \<not> splicing then
             rdo (select_branch E cond) (\<lambda>f. ret (if f = FAbsent then FComment else f))
           else ret cond)))))"

text \<open>
  \<open>except SyntaxError as e: raise ctx.syntax_error(e.message)\<close>: the place is that of the stream, which
  has not moved since the error was raised.
\<close>

definition as_syntax_error :: "('x, 'a) rm \<Rightarrow> ('x, 'a) rm" where
  "as_syntax_error m s =
     (case m s of
        Inl (EofErr l) \<Rightarrow> Inl (SyntaxErr l)
      | Inl (BareSyntaxErr l) \<Rightarrow> Inl (SyntaxErr (Some l))
      | r \<Rightarrow> r)"

section \<open>Reader macros and dispatch\<close>

definition read_tagged :: "'x reader_env \<Rightarrow> ('x, 'x form) rm \<Rightarrow> nat \<Rightarrow> ('x, 'x form) rm" where
  "read_tagged E rd n =
     rdo (read_sym E n True) (\<lambda>tag.
       case tag of
         FSymbol ns name m \<Rightarrow>
           if ns = None \<and> \<not> edn E \<and> name = lit ''b'' then read_byte_str E n
           else if ns = None \<and> \<not> edn E \<and> name = lit ''f'' then read_fstr E rd n
           else rdo (next_form rd n) (\<lambda>v s.
             if should_process_tags s then resolve_tagged_literal E tag v s
             else ret (FTagged tag v) s)
       | _ \<Rightarrow> assertion_error)"

definition unless_edn :: "'x reader_env \<Rightarrow> ('x, 'a) rm \<Rightarrow> ('x, 'a) rm" where
  "unless_edn E m = (if edn E then syntax_error else m)"

text \<open>A call of \<open>ctx.reader_eval\<close>, whose errors are its own.\<close>

definition call_eval :: "(call_error + 'x form) \<Rightarrow> ('x, 'x form) rm" where
  "call_eval r =
     (case r of
        Inr v \<Rightarrow> ret v
      | Inl CallSyntaxError \<Rightarrow> (\<lambda>s. Inl (BareSyntaxErr (here s)))
      | Inl CallAssertion \<Rightarrow> assertion_error
      | Inl (CallError e) \<Rightarrow> py_raise e)"

definition read_reader_macro :: "'x reader_env \<Rightarrow> ('x, 'x form) rm \<Rightarrow> nat \<Rightarrow> ('x, 'x form) rm" where
  "read_reader_macro E rd n =
     expect (ch CHR ''#'') (rdo peek (\<lambda>c.
       if c = Some (ch CHR ''{'') then read_set E rd n
       else if c = Some (ch CHR ''^'') then read_meta E rd n
       else if c = Some (ch CHR ''('') then unless_edn E (read_function E rd n)
       else if c = Some (ch CHR '':'') then read_namespaced_map E rd n
       else if c = Some 39 then
         unless_edn E (rdo advance (\<lambda>_. rdo peek (\<lambda>d.
           rdo (if d = Some (ch CHR ''~'') then read_unquote E rd n else read_sym E n False)
             (\<lambda>v. ret (form_list [sym ''var'', v])))))
       else if c = Some QUOTE then unless_edn E (read_regex E n)
       else if c = Some (ch CHR ''_'') then
         rdo advance (\<lambda>_. rdo (next_form rd n) (\<lambda>_. ret FComment))
       else if c = Some (ch CHR ''!'') then read_comment n
       else if c = Some (ch CHR ''='') then
         unless_edn E (rdo advance (\<lambda>_.
           case eval_reader E of
             None \<Rightarrow> syntax_error
           | Some f \<Rightarrow>
               rdo (next_form rd n) (\<lambda>form.
                 if form = FEof then eof_error
                 else call_eval (f form))))
       else if c = Some (ch CHR ''?'') then
         unless_edn E (as_syntax_error (read_reader_conditional E rd n))
       else if c = Some (ch CHR ''#'') then read_numeric_constant E n
       else if on_char (ns_name_char E) c then read_tagged E rd n
       else syntax_error))"

text \<open>The body of \<open>_read_next\<close>.\<close>

definition read_form :: "'x reader_env \<Rightarrow> ('x, 'x form) rm \<Rightarrow> nat \<Rightarrow> ('x, 'x form) rm" where
  "read_form E rd n =
     rdo peek (\<lambda>c.
       if c = Some (ch CHR ''('') then read_list E rd n
       else if c = Some (ch CHR ''['') then read_vector E rd n
       else if c = Some (ch CHR ''{'') then read_map E rd n None
       else if on_char (\<lambda>x. is_digit x \<or> x \<in> set (lit ''+-'')) c then read_num E n
       else if on_char (whitespace E) c then rdo (consume_whitespace E n) (\<lambda>_. rd)
       else if c = Some (ch CHR '':'') then read_kw E n
       else if c = Some QUOTE then read_str n
       else if c = Some 39 then (if edn E then read_sym E n False else read_quoted E rd n)
       else if c = Some BACKSLASH then read_character E n
       else if on_char (ns_name_char E) c then read_sym E n False
       else if c = Some (ch CHR ''#'') then read_reader_macro E rd n
       else if c = Some (ch CHR ''^'') then read_meta E rd n
       else if c = Some (ch CHR '';'') then read_comment n
       else if c = Some (ch CHR ''`'') then unless_edn E (read_syntax_quoted E rd n)
       else if c = Some (ch CHR ''~'') then unless_edn E (read_unquote E rd n)
       else if c = Some (ch CHR ''@'') then unless_edn E (read_deref E rd n)
       else if c = None then ret FEof
       else syntax_error)"

primrec read_next :: "'x reader_env \<Rightarrow> nat \<Rightarrow> ('x, 'x form) rm" where
  "read_next E 0 = out_of_fuel"
| "read_next E (Suc n) = read_form E (read_next E n) n"

section \<open>Reading a stream\<close>

text \<open>
  The generator \<open>read\<close>: the forms it yields, and the error that ends it, if one does. \<open>fuel\<close> is
  that of each form, the other counter bounds their number.
\<close>

definition initial_state :: "stream_reader \<Rightarrow> bool \<Rightarrow> nat \<Rightarrow> 'x rstate" where
  "initial_state r policy counter =
     \<lparr>rdr = r, anon_fns = [], quotes = [], gensyms = [], tag_policies = [policy],
      name_counter = counter\<rparr>"

definition is_cond :: "'x form \<Rightarrow> bool" where
  "is_cond f = (case f of FCond xs s \<Rightarrow> True | _ \<Rightarrow> False)"

definition error_at :: "'x rstate \<Rightarrow> reader_error" where
  "error_at s = (case (syntax_error :: ('x, unit) rm) s of Inl e \<Rightarrow> e | Inr _ \<Rightarrow> AssertErr)"

fun read_loop ::
  "'x reader_env \<Rightarrow> nat \<Rightarrow> bool \<Rightarrow> nat \<Rightarrow> 'x rstate \<Rightarrow> 'x form list \<times> reader_error option"
where
  "read_loop E fuel is_eof_error 0 s = ([], Some OutOfFuel)"
| "read_loop E fuel is_eof_error (Suc n) s =
     (case read_next E fuel s of
        Inl e \<Rightarrow> ([], Some e)
      | Inr (expr, t) \<Rightarrow>
          if expr = FEof then ([], if is_eof_error then Some EndOfInput else None)
          else if expr = FComment then read_loop E fuel is_eof_error n t
          else if is_cond expr \<and> process_cond E then
            ([], Some (error_at t))
          else map_prod ((#) expr) id (read_loop E fuel is_eof_error n t))"

definition read_str_forms ::
  "'x reader_env \<Rightarrow> nat \<Rightarrow> bool \<Rightarrow> bool \<Rightarrow> int option \<Rightarrow> int option \<Rightarrow> nat \<Rightarrow> pystr \<Rightarrow>
   'x form list \<times> reader_error option"
where
  "read_str_forms E fuel is_eof_error policy init_line init_column counter src =
     (case new_reader src 5 init_line init_column of
        Inl e \<Rightarrow> ([], Some (PyErr e (0, 0)))
      | Inr r \<Rightarrow> read_loop E fuel is_eof_error fuel (initial_state r policy counter))"

text \<open>
  \<open>read_with_source\<close> on a stream that stands at the start of \<open>src\<close>: the next form, its trimmed
  source, and the position at which it leaves the stream.
\<close>

definition strip :: "'x reader_env \<Rightarrow> pystr \<Rightarrow> pystr" where
  "strip E s = rev (dropWhile (py_space E) (rev (dropWhile (py_space E) s)))"

fun source_loop ::
  "'x reader_env \<Rightarrow> nat \<Rightarrow> bool \<Rightarrow> pystr \<Rightarrow> nat \<Rightarrow> 'x rstate \<Rightarrow>
   reader_error + ('x form \<times> pystr \<times> nat) option"
where
  "source_loop E fuel is_eof_error src 0 s = Inl OutOfFuel"
| "source_loop E fuel is_eof_error src (Suc n) s =
     (case read_next E fuel s of
        Inl e \<Rightarrow> Inl e
      | Inr (expr, t) \<Rightarrow>
          if expr = FEof then (if is_eof_error then Inl EndOfInput else Inr None)
          else if expr = FComment then source_loop E fuel is_eof_error src n t
          else if is_cond expr \<and> process_cond E then
            Inl (error_at t)
          else (let stop = length src - length (stream (rdr t)) - unread_count (rdr t)
                in Inr (Some (expr, strip E (take stop src), stop))))"

definition read_with_source ::
  "'x reader_env \<Rightarrow> nat \<Rightarrow> bool \<Rightarrow> bool \<Rightarrow> int option \<Rightarrow> int option \<Rightarrow> nat \<Rightarrow> pystr \<Rightarrow>
   reader_error + ('x form \<times> pystr \<times> nat) option"
where
  "read_with_source E fuel is_eof_error policy init_line init_column counter src =
     (case new_reader src 5 init_line init_column of
        Inl e \<Rightarrow> Inl (PyErr e (0, 0))
      | Inr r \<Rightarrow> source_loop E fuel is_eof_error src fuel (initial_state r policy counter))"

end
