(* ===== verification/ReaderLaws.thy ===== *)
theory ReaderLaws
  imports Reader
begin

text \<open>
  How the reader's functions move over the text. \<open>stands src s p\<close> says that the state stands at
  position \<open>p\<close> of \<open>src\<close>; \<open>remains src s B\<close> that at most \<open>B\<close> characters are left; and
  \<open>fin src B \<sigma> r\<close> that an outcome is an error other than \<open>OutOfFuel\<close>, or a value with a state
  that has at most \<open>B\<close> characters left and the context stacks \<open>\<sigma>\<close>.
\<close>

section \<open>Positions\<close>

definition stands :: "pystr \<Rightarrow> 'x rstate \<Rightarrow> int \<Rightarrow> bool" where
  "stands src s p \<longleftrightarrow> (\<exists>line column n k. reads src 5 line column n k (rdr s) \<and> p = int n - int k)"

lemma stands_peek:
  assumes "stands src s p"
  shows "reader_peek (rdr s) = (if 0 \<le> p then Inr (char_at src (nat p)) else Inl IndexError)"
proof -
  obtain line column n k where r: "reads src 5 line column n k (rdr s)" "p = int n - int k"
    using assms by (auto simp: stands_def)
  then have "(k \<le> n) = (0 \<le> p)" "0 \<le> p \<Longrightarrow> n - k = nat p" by auto
  then show ?thesis using reader_at(1) [OF r(1)] by auto
qed

lemma stands_loc:
  assumes "stands src s p" "0 \<le> p"
  shows "\<exists>lc. reader_loc (rdr s) = Inr lc"
  using assms reader_at(2) by (fastforce simp: stands_def)

lemma stands_next:
  assumes "stands src s p"
  shows "\<exists>r. reader_next (rdr s) = Inr r \<and> stands src (s\<lparr>rdr := r\<rparr>) (p + 1)"
proof -
  obtain line column n k where r: "reads src 5 line column n k (rdr s)" "p = int n - int k"
    using assms by (auto simp: stands_def)
  obtain r' where r': "reader_next (rdr s) = Inr r'"
    "if k = 0 then reads src 5 line column (Suc n) 0 r' else reads src 5 line column n (k - 1) r'"
    using reader_next_reads [OF r(1)] by auto
  have "stands src (s\<lparr>rdr := r'\<rparr>) (p + 1)"
  proof (cases "k = 0")
    case True
    then have "reads src 5 line column (Suc n) 0 r'" "p + 1 = int (Suc n) - int 0"
      using r' r by simp_all
    then show ?thesis unfolding stands_def by fastforce
  next
    case False
    then have "reads src 5 line column n (k - 1) r'" "p + 1 = int n - int (k - 1)"
      using r' r by simp_all
    then show ?thesis unfolding stands_def by fastforce
  qed
  then show ?thesis using r' by blast
qed

lemma stands_pushback:
  assumes "stands src s p"
  shows "reader_pushback (rdr s) = Inl IndexError \<or>
    (\<exists>r. reader_pushback (rdr s) = Inr r \<and> stands src (s\<lparr>rdr := r\<rparr>) (p - 1))"
proof -
  obtain line column n k where r: "reads src 5 line column n k (rdr s)" "p = int n - int k"
    using assms by (auto simp: stands_def)
  show ?thesis
  proof (cases "k + 2 < 5")
    case True
    then obtain r' where r': "reader_pushback (rdr s) = Inr r'" "reads src 5 line column n (Suc k) r'"
      using reader_pushback_reads [OF r(1)] by auto
    then have "p - 1 = int n - int (Suc k)" using r by simp
    then show ?thesis using r' unfolding stands_def by fastforce
  next
    case False
    then show ?thesis using reader_pushback_reads [OF r(1)] by simp
  qed
qed

text \<open>A character that has just been passed can be pushed back.\<close>

lemma stands_next_pushback:
  assumes "stands src s p" "reader_next (rdr s) = Inr r"
  shows "\<exists>r'. reader_pushback r = Inr r' \<and> stands src (s\<lparr>rdr := r'\<rparr>) p"
proof -
  obtain line column n k where r: "reads src 5 line column n k (rdr s)" "p = int n - int k"
    using assms by (auto simp: stands_def)
  have r': "if k = 0 then reads src 5 line column (Suc n) 0 r else reads src 5 line column n (k - 1) r"
    using reader_next_reads [OF r(1)] assms(2) by auto
  show ?thesis
  proof (cases "k = 0")
    case True
    then have "reads src 5 line column (Suc n) 0 r" using r' by simp
    then obtain q where "reader_pushback r = Inr q" "reads src 5 line column (Suc n) (Suc 0) q"
      using reader_pushback_reads by fastforce
    moreover have "p = int (Suc n) - int (Suc 0)" using r True by simp
    ultimately show ?thesis unfolding stands_def by fastforce
  next
    case False
    then have a: "reads src 5 line column n (k - 1) r" using r' by simp
    have "k - 1 + 2 < 5" using r(1) False by (simp add: reads_def)
    then obtain q where "reader_pushback r = Inr q" "reads src 5 line column n (Suc (k - 1)) q"
      using reader_pushback_reads [OF a] by auto
    moreover have "p = int n - int (Suc (k - 1))" using r False by simp
    ultimately show ?thesis unfolding stands_def by fastforce
  qed
qed

lemma stands_update [simp]:
  "stands src (s\<lparr>anon_fns := a\<rparr>) p = stands src s p"
  "stands src (s\<lparr>quotes := b\<rparr>) p = stands src s p"
  "stands src (s\<lparr>gensyms := g\<rparr>) p = stands src s p"
  "stands src (s\<lparr>tag_policies := b\<rparr>) p = stands src s p"
  "stands src (s\<lparr>name_counter := m\<rparr>) p = stands src s p"
  by (simp_all add: stands_def)

section \<open>Outcomes\<close>

definition remains :: "pystr \<Rightarrow> 'x rstate \<Rightarrow> nat \<Rightarrow> bool" where
  "remains src s B \<longleftrightarrow> (\<exists>p. stands src s p \<and> int (length src) - p \<le> int B)"

lemma remains_mono: "remains src s B \<Longrightarrow> B \<le> C \<Longrightarrow> remains src s C"
  by (fastforce simp: remains_def)

lemma remains_update [simp]:
  "remains src (s\<lparr>anon_fns := a\<rparr>) B = remains src s B"
  "remains src (s\<lparr>quotes := b\<rparr>) B = remains src s B"
  "remains src (s\<lparr>gensyms := g\<rparr>) B = remains src s B"
  "remains src (s\<lparr>tag_policies := b\<rparr>) B = remains src s B"
  "remains src (s\<lparr>name_counter := m\<rparr>) B = remains src s B"
  by (simp_all add: remains_def)

type_synonym shape = "bool list \<times> bool list \<times> bool list \<times> nat"

definition shape :: "'x rstate \<Rightarrow> shape" where
  "shape s = (anon_fns s, quotes s, tag_policies s, length (gensyms s))"

lemma shape_rdr [simp]:
  "shape (s\<lparr>rdr := r\<rparr>) = shape s"
  "shape (s\<lparr>name_counter := m\<rparr>) = shape s"
  by (simp_all add: shape_def)

definition fin :: "pystr \<Rightarrow> nat \<Rightarrow> shape \<Rightarrow> reader_error + 'a \<times> 'x rstate \<Rightarrow> bool" where
  "fin src B \<sigma> r =
     (case r of Inl e \<Rightarrow> e \<noteq> OutOfFuel | Inr (a, t) \<Rightarrow> remains src t B \<and> shape t = \<sigma>)"

named_theorems fin_intros \<open>outcomes of the reader's functions\<close>

lemma fin_mono: "fin src B \<sigma> r \<Longrightarrow> B \<le> C \<Longrightarrow> fin src C \<sigma> r"
  by (auto simp: fin_def split: sum.splits intro: remains_mono)

lemma fin_pred: "fin src (B - Suc 0) \<sigma> r \<Longrightarrow> fin src B \<sigma> r"
  by (rule fin_mono) auto

lemma remains_pred:
  "remains src s (B - Suc 0) \<Longrightarrow> remains src s B"
  "remains src s (B - Suc (Suc 0)) \<Longrightarrow> remains src s (B - Suc 0)"
  "remains src s (B - Suc (Suc 0)) \<Longrightarrow> remains src s B"
  by (erule remains_mono; simp)+

lemma fin_ret: "remains src s B \<Longrightarrow> shape s = \<sigma> \<Longrightarrow> fin src B \<sigma> (ret a s)"
  by (simp add: fin_def ret_def)

lemma fin_rdo:
  assumes "fin src B \<sigma> (m s)"
    and "\<And>a t. m s = Inr (a, t) \<Longrightarrow> remains src t B \<Longrightarrow> shape t = \<sigma> \<Longrightarrow> fin src C \<tau> (f a t)"
  shows "fin src C \<tau> (rdo m f s)"
  using assms by (auto simp: fin_def rdo_def split: sum.splits)

lemma fin_errors [simp, intro]:
  "fin src B \<sigma> (syntax_error s)"
  "fin src B \<sigma> (eof_error s)"
  "fin src B \<sigma> (py_raise e s)"
  "fin src B \<sigma> (assertion_error s)"
  by (simp_all add: fin_def syntax_error_def eof_error_def py_raise_def assertion_error_def
      split: sum.split)

text \<open>Splitting the cases of a body, without looking at the conditions.\<close>

lemma fin_if:
  assumes "P \<Longrightarrow> fin src B \<sigma> (m s)" "\<not> P \<Longrightarrow> fin src B \<sigma> (m' s)"
  shows "fin src B \<sigma> ((if P then m else m') s)" "fin src B \<sigma> (if P then m s else m' s)"
  using assms by simp_all

lemma fin_option:
  assumes "x = None \<Longrightarrow> fin src B \<sigma> (m s)" "\<And>a. x = Some a \<Longrightarrow> fin src B \<sigma> (f a s)"
  shows "fin src B \<sigma> ((case x of None \<Rightarrow> m | Some a \<Rightarrow> f a) s)"
  using assms by (cases x) simp_all

lemma fin_pair:
  assumes "\<And>a b. x = (a, b) \<Longrightarrow> fin src B \<sigma> (f a b s)"
  shows "fin src B \<sigma> ((case x of (a, b) \<Rightarrow> f a b) s)"
  using assms by (cases x) simp

lemmas fin_cases = fin_if fin_option fin_pair

lemma fin_lift: "remains src s B \<Longrightarrow> shape s = \<sigma> \<Longrightarrow> fin src B \<sigma> (lift_res r s)"
  by (cases r) (simp_all add: lift_res_def fin_ret)

lemma remains_peek:
  assumes "remains src s B" "peek s = Inr (Some c, t)"
  shows "0 < B"
  using assms stands_peek
  by (fastforce simp: remains_def peek_def char_at_def split: sum.splits if_splits)

lemma remains_0:
  assumes "remains src s 0"
  shows "peek s = Inr (None, s)"
proof -
  obtain p where "stands src s p" "int (length src) - p \<le> 0" using assms by (auto simp: remains_def)
  then show ?thesis using stands_peek [of src s p] by (simp add: peek_def char_at_def)
qed

lemma at_end:
  assumes "remains src s B" "peek s = Inr (None, t)"
  shows "remains src s 0"
proof -
  obtain p where p: "stands src s p" using assms by (auto simp: remains_def)
  then have "int (length src) - p \<le> 0"
    using stands_peek [OF p] assms(2) by (auto simp: peek_def char_at_def split: sum.splits if_splits)
  then show ?thesis using p by (auto simp: remains_def)
qed

lemma fin_peek:
  assumes "remains src s B"
    and "\<And>c. peek s = Inr (c, s) \<Longrightarrow> (c \<noteq> None \<Longrightarrow> 0 < B) \<Longrightarrow> fin src C \<sigma> (f c s)"
  shows "fin src C \<sigma> (rdo peek f s)"
proof (cases "reader_peek (rdr s)")
  case (Inl e)
  then show ?thesis by (simp add: rdo_def peek_def fin_def)
next
  case (Inr c)
  then have "peek s = Inr (c, s)" by (simp add: peek_def)
  moreover from this have "c \<noteq> None \<Longrightarrow> 0 < B" using remains_peek [OF assms(1)] by (cases c) auto
  ultimately show ?thesis using assms(2) by (simp add: rdo_def)
qed

lemma fin_next:
  assumes "remains src s B"
    and "\<And>c t. remains src t (B - 1) \<Longrightarrow> shape t = shape s \<Longrightarrow> (c \<noteq> None \<Longrightarrow> 1 < B) \<Longrightarrow>
      peek t = Inr (c, t) \<Longrightarrow> next_char s = Inr (c, t) \<Longrightarrow> fin src C \<sigma> (f c t)"
  shows "fin src C \<sigma> (rdo next_char f s)"
proof -
  obtain p where p: "stands src s p" "int (length src) - p \<le> int B"
    using assms(1) by (auto simp: remains_def)
  obtain r where r: "reader_next (rdr s) = Inr r" "stands src (s\<lparr>rdr := r\<rparr>) (p + 1)"
    using stands_next [OF p(1)] by blast
  let ?t = "s\<lparr>rdr := r\<rparr>"
  have w: "remains src ?t (B - 1)" unfolding remains_def using p(2) r(2) by (intro exI [of _ "p + 1"]) auto
  show ?thesis
  proof (cases "reader_peek r")
    case (Inl e)
    then show ?thesis using r(1) by (simp add: rdo_def next_char_def move_def peek_def fin_def)
  next
    case (Inr c)
    then have pk: "peek ?t = Inr (c, ?t)" by (simp add: peek_def)
    have "c \<noteq> None \<Longrightarrow> 0 < B - 1" using remains_peek [OF w] pk by (cases c) auto
    moreover have "next_char s = Inr (c, ?t)"
      using r(1) pk by (simp add: next_char_def rdo_def move_def)
    ultimately have "fin src C \<sigma> (f c ?t)" using assms(2) [OF w _ _ pk] by simp
    then show ?thesis using r(1) pk by (simp add: rdo_def next_char_def move_def)
  qed
qed

lemma fin_pushback:
  assumes "remains src s B" "shape s = \<sigma>"
  shows "fin src (Suc B) \<sigma> (pushback s)"
proof -
  obtain p where p: "stands src s p" "int (length src) - p \<le> int B"
    using assms(1) by (auto simp: remains_def)
  show ?thesis
  proof (cases "reader_pushback (rdr s)")
    case (Inl e)
    then show ?thesis by (simp add: pushback_def move_def fin_def)
  next
    case (Inr r)
    then have "stands src (s\<lparr>rdr := r\<rparr>) (p - 1)" using stands_pushback [OF p(1)] by auto
    then have "remains src (s\<lparr>rdr := r\<rparr>) (Suc B)"
      unfolding remains_def using p(2) by (intro exI [of _ "p - 1"]) auto
    then show ?thesis using Inr assms(2) by (simp add: pushback_def move_def fin_def)
  qed
qed

lemma fin_advance:
  assumes "remains src s B"
    and "\<And>c t. remains src t (B - 1) \<Longrightarrow> shape t = shape s \<Longrightarrow> (c \<noteq> None \<Longrightarrow> 0 < B) \<Longrightarrow>
      peek s = Inr (c, s) \<Longrightarrow> fin src C \<sigma> (f c t)"
  shows "fin src C \<sigma> (rdo advance f s)"
proof -
  have "rdo advance f s = rdo peek (\<lambda>c. rdo next_char (\<lambda>_. f c)) s"
    by (simp add: advance_def rdo_def ret_def split: sum.split)
  moreover have "fin src C \<sigma> (rdo peek (\<lambda>c. rdo next_char (\<lambda>_. f c)) s)"
    using assms by (intro fin_peek [OF assms(1)] fin_next [OF assms(1)]) auto
  ultimately show ?thesis by simp
qed

lemma fin_location:
  assumes "remains src s B" "shape s = \<sigma>"
  shows "fin src B \<sigma> (location s)"
  using assms by (simp add: location_def fin_def split: sum.split)

section \<open>Outcomes with exact positions\<close>

definition run :: "('a \<Rightarrow> 'x rstate \<Rightarrow> bool) \<Rightarrow> reader_error + 'a \<times> 'x rstate \<Rightarrow> bool" where
  "run Q r = (case r of Inl e \<Rightarrow> e \<noteq> OutOfFuel | Inr (a, t) \<Rightarrow> Q a t)"

lemma run_mono: "run P r \<Longrightarrow> (\<And>a t. P a t \<Longrightarrow> Q a t) \<Longrightarrow> run Q r"
  by (auto simp: run_def split: sum.splits)

lemma run_ret: "Q a s \<Longrightarrow> run Q (ret a s)"
  by (simp add: run_def ret_def)

lemma run_rdo: "run P (m s) \<Longrightarrow> (\<And>a t. P a t \<Longrightarrow> run Q (f a t)) \<Longrightarrow> run Q (rdo m f s)"
  by (cases "m s") (auto simp: run_def rdo_def)

lemma run_if:
  assumes "P \<Longrightarrow> run Q (m s)" "\<not> P \<Longrightarrow> run Q (m' s)"
  shows "run Q ((if P then m else m') s)"
  using assms by simp

lemma run_peek:
  assumes "stands src s p"
    and "\<And>c. peek s = Inr (c, s) \<Longrightarrow> (c \<noteq> None \<Longrightarrow> p < int (length src)) \<Longrightarrow> run Q (f c s)"
  shows "run Q (rdo peek f s)"
  using assms(2) stands_peek [OF assms(1)]
  by (auto simp: rdo_def peek_def run_def char_at_def split: if_splits sum.split)

lemma run_next:
  assumes "stands src s p"
    and "\<And>c t. stands src t (p + 1) \<Longrightarrow> shape t = shape s \<Longrightarrow> run Q (f c t)"
  shows "run Q (rdo next_char f s)"
proof -
  obtain r where r: "reader_next (rdr s) = Inr r" "stands src (s\<lparr>rdr := r\<rparr>) (p + 1)"
    using stands_next [OF assms(1)] by blast
  then show ?thesis
    using assms(2) [OF r(2)]
    by (cases "reader_peek r") (simp_all add: rdo_def next_char_def move_def peek_def run_def)
qed

lemma run_pushback:
  assumes "stands src s p"
    and "\<And>u t. stands src t (p - 1) \<Longrightarrow> shape t = shape s \<Longrightarrow> run Q (f u t)"
  shows "run Q (rdo pushback f s)"
  using stands_pushback [OF assms(1)] assms(2)
  by (fastforce simp: rdo_def pushback_def move_def run_def)

end
