(* ===== verification/ReaderTotal.thy ===== *)
theory ReaderTotal
  imports ReaderLaws
begin

text \<open>
  The reader always returns, and leaves the context stacks as it found them.
\<close>

section \<open>Tokens\<close>

lemma consume_whitespace_fin:
  assumes "remains src s B" "B < n" "shape s = \<sigma>"
  shows "fin src B \<sigma> (consume_whitespace E n s)"
  using assms
proof (induction n arbitrary: s B)
  case (Suc n)
  have "fin src B \<sigma> (rdo next_char (\<lambda>_. consume_whitespace E n) s)" if "0 < B"
    using that Suc.prems
    by (intro fin_next [OF Suc.prems(1)] fin_mono [of src "B - 1", OF Suc.IH]) auto
  then show ?case
    unfolding consume_whitespace.simps
    using Suc.prems by (intro fin_peek [OF Suc.prems(1)]) (auto simp: on_char_def intro: fin_ret split: option.splits)
qed simp

lemma read_name_loop_fin:
  fixes s :: "'x rstate"
  assumes "remains src s B" "B < n" "shape s = \<sigma>"
  shows "fin src B \<sigma> (read_name_loop E suffix n has_ns ns name s)"
  using assms
proof (induction n arbitrary: s B has_ns ns name)
  case (Suc n)
  have step: "fin src B \<sigma> (rdo next_char f s)"
    if "0 < B" "\<And>c t. f c t = syntax_error t \<or>
        (\<exists>h m nm. f c t = read_name_loop E suffix n h m nm t)"
    for f :: "nat option \<Rightarrow> ('x, bool \<times> pystr \<times> pystr) rm"
  proof (rule fin_next [OF Suc.prems(1)])
    fix c and t :: "'x rstate"
    assume t: "remains src t (B - 1)" "shape t = shape s"
    have "fin src (B - 1) \<sigma> (read_name_loop E suffix n h m nm t)" for h m nm
      using Suc.prems that(1) t by (intro Suc.IH) auto
    then show "fin src B \<sigma> (f c t)"
      using that(2) [of c t] by (auto intro: fin_pred)
  qed
  show ?case
    unfolding read_name_loop.simps
    by (rule fin_peek [OF Suc.prems(1)]; intro fin_if fin_errors fin_ret [OF Suc.prems(1,3)] step)
      (auto simp: on_char_def split: option.splits)
qed simp

lemma read_namespaced_fin:
  assumes "remains src s B" "B < n" "shape s = \<sigma>"
  shows "fin src B \<sigma> (read_namespaced E n suffix s)"
  unfolding read_namespaced_def
  by (rule fin_rdo, rule read_name_loop_fin [OF assms]) (simp add: fin_ret split: prod.split)

lemma symbol_of_fin:
  assumes "remains src s B" "shape s = \<sigma>"
  shows "fin src B \<sigma> (symbol_of E m ns name s)"
  unfolding symbol_of_def by (intro fin_if fin_errors fin_ret [OF assms])

lemma hex_run_fin:
  fixes s :: "'x rstate"
  assumes "remains src s B" "B < n" "shape s = \<sigma>"
  shows "fin src (Suc B) \<sigma> (hex_run n acc s)"
  using assms
proof (induction n arbitrary: s B acc)
  case (Suc n)
  have "fin src (Suc B) \<sigma> (rdo next_char (\<lambda>_. hex_run n acc') s)" if "0 < B" for acc'
  proof (rule fin_next [OF Suc.prems(1)])
    fix c and t :: "'x rstate"
    assume t: "remains src t (B - 1)" "shape t = shape s"
    have "fin src (Suc (B - 1)) \<sigma> (hex_run n acc' t)"
      using Suc.prems that t by (intro Suc.IH) auto
    then show "fin src (Suc B) \<sigma> (hex_run n acc' t)" by (rule fin_mono) simp
  qed
  moreover have "fin src (Suc B) \<sigma> (rdo pushback (\<lambda>_. ret acc) s)"
    by (rule fin_rdo, rule fin_pushback [OF Suc.prems(1,3)]) (auto intro: fin_ret)
  ultimately show ?case
    unfolding hex_run.simps
    by (intro fin_peek [OF Suc.prems(1)]) (simp add: on_char_def split: option.split)
qed simp

lemma read_unicode_escape_seq_fin:
  fixes s :: "'x rstate"
  assumes "remains src s B" "B \<le> n" "0 < B" "shape s = \<sigma>"
  shows "fin src B \<sigma> (read_unicode_escape_seq n s)"
  unfolding read_unicode_escape_seq_def
proof (rule fin_advance [OF assms(1)])
  fix c and t :: "'x rstate"
  assume t: "remains src t (B - 1)" "shape t = shape s"
  have "fin src (Suc (B - 1)) \<sigma> (hex_run n [] t)" using assms t by (intro hex_run_fin) auto
  then have "fin src B \<sigma> (hex_run n [] t)" using assms(3) by simp
  then show "fin src B \<sigma> (rdo (hex_run n []) (\<lambda>hex. if length hex \<notin> {4, 8} then syntax_error
      else lift_res (py_chr (hex_value hex))) t)"
    by (rule fin_rdo) (auto intro: fin_lift)
qed

lemma escape_fin:
  fixes u :: "'x rstate"
  assumes "remains src u (B - 1 - 1)" "shape u = \<sigma>" "B \<le> n" "1 < B - 1"
    and loop: "\<And>t a. remains src t (B - 1) \<Longrightarrow> shape t = \<sigma> \<Longrightarrow> fin src C \<sigma> (f a t)"
  shows "fin src C \<sigma> (rdo (read_unicode_escape_seq n) f u)"
proof (rule fin_rdo)
  have "remains src u (B - 1)" by (rule remains_mono [OF assms(1)]) simp
  then show "fin src (B - 1) \<sigma> (read_unicode_escape_seq n u)"
    using assms by (intro read_unicode_escape_seq_fin) auto
qed (use loop in auto)

lemma read_str_loop_fin:
  fixes s :: "'x rstate"
  assumes "remains src s B" "B < n" "shape s = \<sigma>"
  shows "fin src (B - 1) \<sigma> (read_str_loop n any_escape acc s)"
  using assms
proof (induction n arbitrary: s B acc)
  case (Suc n)
  have loop: "fin src (B - 1) \<sigma> (read_str_loop n any_escape acc' t)"
    if "remains src t (B - 1)" "shape t = \<sigma>" "1 < B" for t :: "'x rstate" and acc'
    using that Suc.prems(2) by (intro fin_mono [OF Suc.IH [of t "B - 1"]]) auto
  show ?case
    unfolding read_str_loop.simps
  proof (rule fin_next [OF Suc.prems(1)], goal_cases)
    case (1 c t)
    then have t: "remains src t (B - 1)" "shape t = \<sigma>" using Suc.prems by auto
    show ?case
    proof (cases c)
      case (Some x)
      then have "1 < B" using 1 by simp
      have "fin src (B - 1) \<sigma> (rdo next_char (\<lambda>d.
           case str_escape d of
             Some e \<Rightarrow> read_str_loop n any_escape (acc @ [e])
           | None \<Rightarrow>
               if is_u d then
                 rdo (read_unicode_escape_seq n) (\<lambda>u. read_str_loop n any_escape (acc @ [u]))
               else if any_escape then
                 read_str_loop n any_escape (acc @ BACKSLASH # (case d of None \<Rightarrow> [] | Some x \<Rightarrow> [x]))
               else syntax_error) t)"
      proof (rule fin_next [OF t(1)], goal_cases)
        case (1 d u)
        then have u: "remains src u (B - 1 - 1)" "shape u = \<sigma>" "is_u d \<Longrightarrow> 1 < B - 1"
          using t by (auto simp: is_u_def)
        have "fin src (B - 1) \<sigma> (read_str_loop n any_escape acc' u)" for acc'
          by (rule loop) (use u \<open>1 < B\<close> in \<open>auto intro: remains_pred\<close>)
        moreover have "fin src (B - 1) \<sigma>
          (rdo (read_unicode_escape_seq n) (\<lambda>u. read_str_loop n any_escape (acc @ [u])) u)" if "is_u d"
          using u \<open>1 < B\<close> Suc.prems(2) that
          by (intro escape_fin [where B = B] loop) auto
        ultimately show ?case by (cases any_escape; cases "str_escape d") simp_all
      qed
      moreover have "fin src (B - 1) \<sigma> (rdo next_char (\<lambda>_. ret acc) t)"
        by (rule fin_next [OF t(1)]) (use t in \<open>auto intro!: fin_ret intro: remains_pred\<close>)
      ultimately show ?thesis using Some loop [OF t \<open>1 < B\<close>] by simp
    qed simp
  qed
qed simp

lemma read_hex_byte_fin:
  fixes s :: "'x rstate"
  assumes "remains src s B" "shape s = \<sigma>"
  shows "fin src B \<sigma> (read_hex_byte E s)"
  unfolding read_hex_byte_def
proof (rule fin_next [OF assms(1)], rule fin_next, assumption, goal_cases)
  case (1 c1 t c2 u)
  then have "remains src u B" by (auto intro: remains_pred)
  then show ?case using 1 assms by (intro fin_option fin_if fin_errors fin_ret) auto
qed

lemma read_byte_loop_fin:
  fixes s :: "'x rstate"
  assumes "remains src s B" "B < n" "shape s = \<sigma>"
  shows "fin src (B - 1) \<sigma> (read_byte_loop E n acc s)"
  using assms
proof (induction n arbitrary: s B acc)
  case (Suc n)
  have loop: "fin src (B - 1) \<sigma> (read_byte_loop E n acc' t)"
    if "remains src t (B - 1)" "shape t = \<sigma>" "1 < B" for t :: "'x rstate" and acc'
    using that Suc.prems(2) by (intro fin_mono [OF Suc.IH [of t "B - 1"]]) auto
  show ?case
    unfolding read_byte_loop.simps
  proof (rule fin_next [OF Suc.prems(1)], goal_cases)
    case (1 c t)
    then have t: "remains src t (B - 1)" "shape t = \<sigma>" using Suc.prems by auto
    show ?case
    proof (cases c)
      case (Some x)
      then have "1 < B" using 1 by simp
      have "fin src (B - 1) \<sigma> (rdo next_char (\<lambda>d.
           case str_escape d of
             Some e \<Rightarrow> read_byte_loop E n (acc @ [e])
           | None \<Rightarrow>
               if d = Some (ch CHR ''x'') then
                 rdo (read_hex_byte E) (\<lambda>v. read_byte_loop E n (acc @ v))
               else (case d of
                   None \<Rightarrow> read_byte_loop E n (acc @ [BACKSLASH])
                 | Some x \<Rightarrow>
                     rdo (lift_res (utf8 x)) (\<lambda>v. read_byte_loop E n (acc @ BACKSLASH # v)))) t)"
      proof (rule fin_next [OF t(1)], goal_cases)
        case (1 d u)
        then have u: "remains src u (B - 1)" "shape u = \<sigma>" using t by (auto intro: remains_pred)
        show ?case
        proof (intro fin_option fin_if)
          show "fin src (B - 1) \<sigma> (rdo (read_hex_byte E) (\<lambda>v. read_byte_loop E n (acc @ v)) u)"
            by (rule fin_rdo, rule read_hex_byte_fin [OF u]) (use loop \<open>1 < B\<close> in auto)
          show "fin src (B - 1) \<sigma> (rdo (lift_res (utf8 a)) (\<lambda>v. read_byte_loop E n (acc @ BACKSLASH # v)) u)" for a
            by (rule fin_rdo, rule fin_lift [OF u]) (use loop \<open>1 < B\<close> in auto)
        qed (use loop [OF u \<open>1 < B\<close>] in auto)
      qed
      moreover have "fin src (B - 1) \<sigma> (rdo next_char (\<lambda>_. ret acc) t)"
        by (rule fin_next [OF t(1)]) (use t in \<open>auto intro!: fin_ret intro: remains_pred\<close>)
      ultimately show ?thesis using Some loop [OF t \<open>1 < B\<close>] by simp
    qed simp
  qed
qed simp

lemma read_byte_str_fin:
  fixes s :: "'x rstate"
  assumes "remains src s B" "B < n" "shape s = \<sigma>"
  shows "fin src B \<sigma> (read_byte_str E n s)"
  unfolding read_byte_str_def
proof (rule fin_rdo, rule consume_whitespace_fin [OF assms], rule fin_if)
  fix t :: "'x rstate"
  assume t: "remains src t B" "shape t = \<sigma>"
  show "fin src B \<sigma> (rdo (read_byte_loop E n []) (\<lambda>b. ret (FBytes b)) t)"
    by (rule fin_rdo, rule read_byte_loop_fin [OF t(1) assms(2) t(2)])
      (auto intro!: fin_ret intro: remains_pred)
qed simp

lemma read_str_fin:
  fixes s :: "'x rstate"
  assumes "remains src s B" "B < n" "shape s = \<sigma>"
  shows "fin src (B - 1) \<sigma> (read_str n s)" "fin src (B - 1) \<sigma> (read_regex E n s)"
  unfolding read_str_def read_regex_def
  by (rule fin_rdo, rule read_str_loop_fin [OF assms], intro fin_option fin_errors fin_ret; simp)+

lemma character_chars_fin:
  fixes s :: "'x rstate"
  assumes "remains src s B" "B < n" "shape s = \<sigma>"
  shows "fin src B \<sigma> (character_chars E n is_first acc s)"
  using assms
proof (induction n arbitrary: s B is_first acc)
  case (Suc n)
  have "fin src B \<sigma> (rdo next_char (\<lambda>_. character_chars E n False (acc @ [the c])) s)" if "0 < B" for c
    using that Suc.prems
    by (intro fin_next [OF Suc.prems(1)] fin_mono [of src "B - 1", OF Suc.IH]) auto
  then show ?case
    unfolding character_chars.simps
    by (intro fin_peek [OF Suc.prems(1)] fin_if fin_ret [OF Suc.prems(1,3)]) auto
qed simp

lemma character_value_fin:
  assumes "remains src s B" "shape s = \<sigma>"
  shows "fin src B \<sigma> (character_value E acc s)"
proof -
  have form: "fin src B \<sigma> (char_form cs s)" for cs
    unfolding char_form_def by (rule fin_rdo, rule fin_lift [OF assms]) (auto intro: fin_ret)
  show ?thesis
    unfolding character_value_def
    by (intro fin_option fin_if fin_errors form)
      (auto intro: fin_ret [OF assms] split: sum.split)
qed

lemma read_character_fin:
  fixes s :: "'x rstate"
  assumes "remains src s B" "B < n" "shape s = \<sigma>"
  shows "fin src (B - 1) \<sigma> (read_character E n s)"
  unfolding read_character_def
proof (rule fin_advance [OF assms(1)], rule fin_if)
  fix t :: "'x rstate"
  assume t: "remains src t (B - 1)" "shape t = shape s"
  then show "fin src (B - 1) \<sigma> (rdo (character_chars E n True []) (character_value E) t)"
    using assms
    by (intro fin_rdo [where m = "character_chars E n True []" and B = "B - 1" and \<sigma> = \<sigma>]
        character_chars_fin character_value_fin) auto
qed simp

lemma skip_line_fin:
  fixes s :: "'x rstate"
  assumes "remains src s B" "B < n" "shape s = \<sigma>"
  shows "fin src B \<sigma> (skip_line n s)"
  using assms
proof (induction n arbitrary: s B)
  case (Suc n)
  have "fin src B \<sigma> (rdo advance (\<lambda>_. skip_line n) s)" if "0 < B"
    using that Suc.prems
    by (intro fin_advance [OF Suc.prems(1)] fin_mono [of src "B - 1", OF Suc.IH]) auto
  moreover have "fin src B \<sigma> (rdo advance (\<lambda>_. ret FComment) s)"
    using Suc.prems(3) by (intro fin_advance [OF Suc.prems(1)] fin_ret) (auto intro: remains_pred)
  ultimately show ?case
    unfolding skip_line.simps
    by (intro fin_peek [OF Suc.prems(1)] fin_if fin_ret [OF Suc.prems(1,3)]) auto
qed simp

lemma read_comment_fin:
  fixes s :: "'x rstate"
  assumes "remains src s B" "B < n" "shape s = \<sigma>"
  shows "fin src (B - 1) \<sigma> (read_comment n s)"
  unfolding read_comment_def
  using assms by (intro fin_advance [OF assms(1)] fin_if fin_errors skip_line_fin) auto

lemma with_loc_fin:
  assumes "fin src B \<sigma> (f s)"
  shows "fin src B \<sigma> (with_loc E f s)"
proof -
  have "fin src B \<sigma> (rdo f (\<lambda>v. rdo location (\<lambda>stop.
       ret (case add_meta (hosts E) v (loc_meta start stop) of None \<Rightarrow> v | Some w \<Rightarrow> w))) s)" for start
    by (rule fin_rdo, rule assms, rule fin_rdo, rule fin_location) (auto intro: fin_ret)
  then show ?thesis
    unfolding with_loc_def
    by (cases "reader_loc (rdr s)") (simp_all add: rdo_def [of location] location_def fin_def)
qed

lemma read_sym_fin:
  fixes s :: "'x rstate"
  assumes "remains src s B" "B < n" "shape s = \<sigma>"
  shows "fin src B \<sigma> (read_sym E n m s)"
  unfolding read_sym_def
  by (rule with_loc_fin, rule fin_rdo, rule read_namespaced_fin [OF assms], intro fin_pair symbol_of_fin)

text \<open>A symbol that begins with a name character consumes it.\<close>

lemma read_name_strict:
  fixes s :: "'x rstate"
  assumes "remains src s B" "B < n" "shape s = \<sigma>" "peek s = Inr (Some x, s)"
    and "ns_name_char E x \<or> edn E \<and> x = 39"
  shows "fin src (B - 1) \<sigma> (read_name_loop E suffix n False [] [] s)"
proof -
  obtain k where k: "n = Suc k" using assms(2) by (cases n) auto
  have "0 < B" using remains_peek [OF assms(1,4)] .
  have step: "fin src (B - 1) \<sigma> (rdo next_char (\<lambda>_. read_name_loop E suffix k False [] nm) s)" for nm
    using assms \<open>0 < B\<close> k by (intro fin_next [OF assms(1)] read_name_loop_fin) auto
  show ?thesis
    using assms(4,5) step
    by (auto simp: k rdo_def [of peek] on_char_def is_ns_name_char_def simp del: read_name_loop.simps(1))
qed

lemma read_sym_strict:
  fixes s :: "'x rstate"
  assumes "remains src s B" "B < n" "shape s = \<sigma>" "peek s = Inr (Some x, s)"
    and "ns_name_char E x \<or> edn E \<and> x = 39"
  shows "fin src (B - 1) \<sigma> (read_sym E n m s)"
  unfolding read_sym_def read_namespaced_def
  apply (rule with_loc_fin)
  apply (rule fin_rdo)
   apply (rule fin_rdo, rule read_name_strict [OF assms])
   apply (intro fin_pair fin_if fin_errors fin_ret; assumption)
  apply (intro fin_pair symbol_of_fin; assumption)
  done

lemma read_kw_fin:
  fixes s :: "'x rstate"
  assumes "remains src s B" "B < n" "shape s = \<sigma>"
  shows "fin src (B - 1) \<sigma> (read_kw E n s)"
proof -
  have name: "fin src (B - 1) \<sigma> (rdo (read_namespaced E n None) f t)"
    if "remains src t (B - 1)" "shape t = \<sigma>"
      "\<And>a u. remains src u (B - 1) \<Longrightarrow> shape u = \<sigma> \<Longrightarrow> fin src (B - 1) \<sigma> (f a u)"
    for f :: "pystr option \<times> pystr \<Rightarrow> ('x, 'x form) rm" and t
    using that assms(2) by (intro fin_rdo [where B = "B - 1" and \<sigma> = \<sigma>] read_namespaced_fin) auto
  show ?thesis
    unfolding read_kw_def
    apply (rule fin_advance [OF assms(1)], intro fin_if fin_errors)
    apply (rule fin_peek, assumption, intro fin_if fin_errors)
     apply (rule fin_advance, assumption)
     apply (rule name)
       apply (auto intro: remains_pred simp: assms intro!: fin_ret split: option.split) [3]
    apply (rule name)
      apply (auto simp: assms intro!: fin_ret)
    done
qed

section \<open>Numbers\<close>

lemma pushback_times_run:
  assumes "stands src s p" "shape s = \<sigma>"
  shows "run (\<lambda>_ t. stands src t (p - int k) \<and> shape t = \<sigma>) (pushback_times k s)"
  using assms
proof (induction k arbitrary: s p)
  case (Suc k)
  show ?case
  proof (cases "reader_pushback (rdr s)")
    case (Inl e)
    then show ?thesis
      by (simp add: pushback_def move_def syntax_error_def run_def split: sum.split)
  next
    case (Inr r)
    then have "stands src (s\<lparr>rdr := r\<rparr>) (p - 1)" using stands_pushback [OF Suc.prems(1)] by auto
    then have "run (\<lambda>_ t. stands src t (p - 1 - int k) \<and> shape t = \<sigma>) (pushback_times k (s\<lparr>rdr := r\<rparr>))"
      using Suc.prems by (intro Suc.IH) auto
    then show ?thesis using Inr by (simp add: pushback_def move_def algebra_simps)
  qed
qed (simp add: run_ret)

definition number_end :: "pystr \<Rightarrow> shape \<Rightarrow> int \<Rightarrow> pystr option \<Rightarrow> 'x rstate \<Rightarrow> bool" where
  "number_end src \<sigma> start cs t \<longleftrightarrow>
     stands src t (start + int (length (case cs of None \<Rightarrow> [] | Some s \<Rightarrow> s))) \<and> shape t = \<sigma>"

lemma number_chars_run:
  fixes s :: "'x rstate"
  assumes "stands src s p" "nat (int (length src) - p) < n" "shape s = \<sigma>"
  shows "run (number_end src \<sigma> (p - int (length chars))) (number_chars E n chars s)"
  using assms
proof (induction n arbitrary: s p chars)
  case (Suc n)
  let ?Q = "number_end src \<sigma> (p - int (length chars))"
  have more: "run ?Q (number_chars E n (chars @ [c]) t)"
    if "stands src t (p + 1)" "shape t = \<sigma>" "p < int (length src)" for c and t :: "'x rstate"
    using Suc.IH [OF that(1) _ that(2), of "chars @ [c]"] that(3) Suc.prems(2) by simp
  have backed: "run ?Q (rdo pushback (\<lambda>_. rdo (pushback_times (length chars)) (\<lambda>_. ret None)) t)"
    if "stands src t (p + 1)" "shape t = \<sigma>" for t :: "'x rstate"
  proof (rule run_pushback [OF that(1)])
    fix u and v :: "'x rstate"
    assume v: "stands src v (p + 1 - 1)" "shape v = shape t"
    show "run ?Q (rdo (pushback_times (length chars)) (\<lambda>_. ret None) v)"
      using v that
      by (intro run_rdo [where P = "\<lambda>_ t. stands src t (p - int (length chars)) \<and> shape t = \<sigma>"]
          pushback_times_run run_ret) (auto simp: number_end_def)
  qed
  have one_back: "run ?Q (rdo pushback (\<lambda>_. ret None) t)"
    if "stands src t (p + 1)" "shape t = \<sigma>" "chars = []" for t :: "'x rstate"
    using that by (intro run_pushback [OF that(1)] run_ret) (simp add: number_end_def)
  note step = run_next [OF Suc.prems(1)]
  show ?case
    unfolding number_chars.simps
    apply (rule run_peek [OF Suc.prems(1)])
    apply (intro run_if)
        apply (rule step, intro run_if backed more; use Suc.prems in simp)
       apply (rule step, intro run_if one_back more; use Suc.prems in simp)
      apply (rule step, intro more; use Suc.prems in simp)
     apply (rule run_ret, use Suc.prems in \<open>simp add: number_end_def\<close>)
    apply (rule step, intro more; use Suc.prems in \<open>auto simp: on_char_def split: option.splits\<close>)
    done
qed simp

lemma number_start:
  assumes "is_digit x \<or> x \<in> set (lit ''+-'')"
  shows "ns_name_char E x"
  using assms
  by (auto simp: ns_name_char_def word_char_def is_digit_def punctuation_def lit_def)

lemma fin_run:
  assumes "run P (m s)" "\<And>a t. P a t \<Longrightarrow> fin src C \<tau> (f a t)"
  shows "fin src C \<tau> (rdo m f s)"
  using assms by (cases "m s") (auto simp: run_def rdo_def fin_def)

lemma read_num_fin:
  fixes s :: "'x rstate"
  assumes "remains src s B" "B < n" "shape s = \<sigma>" "peek s = Inr (Some x, s)"
    and "is_digit x \<or> x \<in> set (lit ''+-'')"
  shows "fin src (B - 1) \<sigma> (read_num E n s)"
proof -
  obtain p where p: "stands src s p" "int (length src) - p \<le> int B"
    using assms(1) by (auto simp: remains_def)
  have "run (number_end src \<sigma> p) (number_chars E n [] s)"
    using number_chars_run [OF p(1) _ assms(3), of n "[]" E] p(2) assms(2) by simp
  then show ?thesis
    unfolding read_num_def
  proof (rule fin_run)
    fix cs and t :: "'x rstate"
    assume "number_end src \<sigma> p cs t"
    show "fin src (B - 1) \<sigma> ((case cs of None \<Rightarrow> read_sym E n False
       | Some s \<Rightarrow> if s = [] then assertion_error
           else (case number_value E s of None \<Rightarrow> syntax_error | Some r \<Rightarrow> lift_res r)) t)"
  proof (cases cs)
    case None
    then have t: "stands src t p" "shape t = \<sigma>" using \<open>number_end src \<sigma> p cs t\<close> by (simp_all add: number_end_def)
    have pk: "peek t = Inr (Some x, t)"
      using assms(4) stands_peek [OF p(1)] stands_peek [OF t(1)]
      by (simp add: peek_def split: sum.splits if_splits)
    have "remains src t B" using t p by (auto simp: remains_def)
    from read_sym_strict [OF this assms(2) t(2) pk, of E False]
    show ?thesis using None number_start [OF assms(5), of E] by simp
  next
    case (Some w)
    have "fin src (B - 1) \<sigma> ((case number_value E w of None \<Rightarrow> syntax_error | Some r \<Rightarrow> lift_res r) t)"
      if "w \<noteq> []"
    proof -
      have "1 \<le> int (length w)" using that by (cases w) auto
      then have "remains src t (B - 1)"
        unfolding remains_def using \<open>number_end src \<sigma> p cs t\<close> Some p
        by (intro exI [of _ "p + int (length w)"]) (auto simp: number_end_def)
      then show ?thesis
        using \<open>number_end src \<sigma> p cs t\<close> by (intro fin_option fin_errors fin_lift) (simp_all add: number_end_def)
    qed
    then show ?thesis using Some by simp
  qed
  qed
qed

section \<open>Tags and conditionals\<close>

lemma call_fin:
  assumes "remains src s B" "shape s = \<sigma>"
  shows "fin src B \<sigma> (call_reader r s)" "fin src B \<sigma> (call_eval r s)"
  using assms
  by (auto simp: call_reader_def call_eval_def intro: fin_ret split: sum.splits call_error.splits)
    (simp add: fin_def)

lemma resolve_tagged_literal_fin:
  assumes "remains src s B" "shape s = \<sigma>"
  shows "fin src B \<sigma> (resolve_tagged_literal E t v s)"
  by (cases "(E, t, v)" rule: resolve_tagged_literal.cases)
    (auto simp del: fin_errors intro!: fin_option fin_if fin_errors call_fin [OF assms])

lemma rseq_fin:
  assumes "remains src s B" "shape s = \<sigma>"
    and "\<And>m t. m \<in> set ms \<Longrightarrow> remains src t B \<Longrightarrow> shape t = \<sigma> \<Longrightarrow> fin src B \<sigma> (m t)"
  shows "fin src B \<sigma> (rseq ms s)"
  using assms
proof (induction ms arbitrary: s)
  case Nil
  then show ?case by (simp add: fin_ret)
next
  case (Cons m ms)
  show ?case
    unfolding rseq.simps
    by (rule fin_rdo, rule Cons.prems(3), simp, rule Cons.prems(1), rule Cons.prems(2),
        rule fin_rdo, rule Cons.IH) (use Cons.prems(3) in \<open>auto intro: fin_ret\<close>)
qed

lemma resolve_tags_fin:
  assumes "remains src s B" "shape s = \<sigma>"
  shows "fin src B \<sigma> (resolve_tags E f s)"
  using assms
proof (induction E f arbitrary: s rule: resolve_tags.induct)
  case (1 E xs m)
  show ?case
    unfolding resolve_tags.simps
    by (rule fin_rdo, rule rseq_fin [OF 1(2,3)]) (use 1(1) in \<open>auto intro: fin_ret\<close>)
next
  case (2 E xs m)
  show ?case
    unfolding resolve_tags.simps
    by (rule fin_rdo, rule rseq_fin [OF 2(2,3)]) (use 2(1) in \<open>auto intro: fin_ret\<close>)
next
  case (3 E xs m)
  show ?case
    unfolding resolve_tags.simps
    by (rule fin_rdo, rule rseq_fin [OF 3(2,3)]) (use 3(1) in \<open>auto intro: fin_lift\<close>)
next
  case (4 E es m)
  have entry: "fin src B \<sigma> (rdo (resolve_tags E (fst e)) (\<lambda>k. rdo (resolve_tags E (snd e)) (\<lambda>v.
         ret (k, v))) t)" if "e \<in> set es" "remains src t B" "shape t = \<sigma>" for e t
    by (rule fin_rdo, rule 4(1) [OF that], rule fin_rdo, rule 4(2) [OF that(1)]) (auto intro: fin_ret)
  show ?case
    unfolding resolve_tags.simps
    by (rule fin_rdo, rule rseq_fin [OF 4(3,4)]) (use entry in \<open>fastforce intro: fin_lift\<close>)+
next
  case (5 E t x)
  show ?case
    unfolding resolve_tags.simps
    by (rule fin_rdo, rule 5(1) [OF 5(2,3)]) (auto intro: fin_ret resolve_tagged_literal_fin)
qed (auto intro: fin_ret)

lemma select_branch_fin:
  assumes "remains src s B" "shape s = \<sigma>"
  shows "fin src B \<sigma> (select_branch E f s)"
  by (cases "(E, f)" rule: select_branch.cases)
    (auto simp del: fin_errors intro!: fin_option fin_errors resolve_tags_fin [OF assms])

lemma collected_fin:
  assumes "remains src s B" "shape s = \<sigma>"
  shows "fin src B \<sigma> (collected E elem s)"
proof -
  have "fin src B \<sigma> (rdo (select_branch E elem) (\<lambda>f.
      case f of FAbsent \<Rightarrow> ret [] | FVector ys m \<Rightarrow> ret ys | _ \<Rightarrow> syntax_error) s)"
    by (rule fin_rdo, rule select_branch_fin [OF assms]) (auto intro: fin_ret split: form.split)
  then show ?thesis
    unfolding collected_def by (auto intro: fin_ret [OF assms] split: form.split)
qed

section \<open>Forms\<close>

text \<open>
  What the recursion needs of the reader it calls: a call that has a character to read uses one
  up, and leaves the stacks alone.
\<close>

definition total_reader :: "pystr \<Rightarrow> nat \<Rightarrow> ('x, 'x form) rm \<Rightarrow> bool" where
  "total_reader src n rd \<longleftrightarrow>
     (\<forall>s B. remains src s B \<longrightarrow> B < n \<longrightarrow> fin src (B - 1) (shape s) (rd s)) \<and>
     (\<forall>s. remains src s 0 \<longrightarrow> 0 < n \<longrightarrow> rd s = Inr (FEof, s))"

lemma total_readerD:
  assumes "total_reader src n rd" "remains src s B" "B < n" "shape s = \<sigma>"
  shows "fin src (B - 1) \<sigma> (rd s)"
  using assms by (auto simp: total_reader_def)

lemma total_reader_policy:
  assumes "total_reader src n rd"
  shows "total_reader src n (with_tag_policy v rd)"
  unfolding total_reader_def
proof (intro allI impI conjI)
  fix s :: "'a rstate"
  assume "remains src s 0" "0 < n"
  then have "rd (s\<lparr>tag_policies := v # tag_policies s\<rparr>) = Inr (FEof, s\<lparr>tag_policies := v # tag_policies s\<rparr>)"
    using assms by (simp add: total_reader_def)
  then show "with_tag_policy v rd s = Inr (FEof, s)" by (simp add: with_tag_policy_def rdo_def ret_def)
next
  fix s :: "'a rstate" and B
  assume "remains src s B" "B < n"
  let ?s = "s\<lparr>tag_policies := v # tag_policies s\<rparr>"
  have "fin src (B - 1) (shape ?s) (rd ?s)"
    by (rule total_readerD [OF assms]) (use \<open>remains src s B\<close> \<open>B < n\<close> in simp_all)
  then show "fin src (B - 1) (shape s) (with_tag_policy v rd s)"
    unfolding with_tag_policy_def by (rule fin_rdo) (auto intro!: fin_ret simp: shape_def)
qed

lemma read_elems_fin:
  fixes s :: "'x rstate"
  assumes "total_reader src n rd" "remains src s B" "B < n" "B < k" "shape s = \<sigma>"
  shows "fin src B \<sigma> (read_elems E rd end_char k acc s)"
  using assms(2-)
proof (induction k arbitrary: s B acc)
  case (Suc k)
  have more: "fin src B \<sigma> (read_elems E rd end_char k acc' t)"
    if "remains src t (B - 1)" "shape t = \<sigma>" "0 < B" for acc' and t :: "'x rstate"
    using that Suc.prems by (intro fin_mono [OF Suc.IH [of t "B - 1"]]) auto
  have elem: "fin src B \<sigma> (rdo rd (\<lambda>elem. rdo (collected E elem) (\<lambda>xs.
      read_elems E rd end_char k (acc @ xs))) s)" if "0 < B"
    by (rule fin_rdo, rule total_readerD [OF assms(1) Suc.prems(1,2,4)], rule fin_rdo,
        rule collected_fin) (use that more in auto)
  show ?case
    unfolding read_elems.simps
    apply (rule fin_peek [OF Suc.prems(1)], intro fin_if fin_errors)
      apply (rule fin_advance [OF Suc.prems(1)], rule more; use Suc.prems in simp)
     apply (rule fin_next [OF Suc.prems(1)], rule fin_ret; use Suc.prems in \<open>auto intro: remains_pred\<close>)
    apply (rule elem, simp)
    done
qed simp

lemma expect_fin:
  assumes "remains src s B"
    and "\<And>t. remains src t (B - 1) \<Longrightarrow> shape t = shape s \<Longrightarrow> 0 < B \<Longrightarrow> fin src C \<sigma> (m t)"
  shows "fin src C \<sigma> (expect c m s)"
  unfolding expect_def
  by (rule fin_advance [OF assms(1)], cases "0 < B") (auto intro: assms(2))

lemma read_coll_fin:
  fixes s :: "'x rstate"
  assumes "total_reader src m rd" "remains src s B" "B \<le> m" "shape s = \<sigma>" "m \<le> n"
    and "\<And>xs t. remains src t (B - 1) \<Longrightarrow> shape t = \<sigma> \<Longrightarrow> fin src (B - 1) \<sigma> (f xs t)"
  shows "fin src (B - 1) \<sigma> (with_loc E (expect c (rdo (read_elems E rd d n []) f)) s)"
  apply (rule with_loc_fin, rule expect_fin [OF assms(2)])
  apply (rule fin_rdo, rule read_elems_fin [OF assms(1)])
  using assms by auto

lemma coll_fin:
  fixes s :: "'x rstate"
  assumes "total_reader src m rd" "remains src s B" "B \<le> m" "shape s = \<sigma>" "m \<le> n"
  shows "fin src (B - 1) \<sigma> (read_list E rd n s)"
    and "fin src (B - 1) \<sigma> (read_vector E rd n s)"
    and "fin src (B - 1) \<sigma> (read_set E rd n s)"
    and "fin src (B - 1) \<sigma> (read_map E rd n space s)"
proof -
  note coll = read_coll_fin [OF assms]
  show "fin src (B - 1) \<sigma> (read_list E rd n s)" "fin src (B - 1) \<sigma> (read_vector E rd n s)"
    unfolding read_list_def read_vector_def by (rule coll, rule fin_ret; simp)+
  show "fin src (B - 1) \<sigma> (read_set E rd n s)"
    unfolding read_set_def
    by (rule coll) (auto simp: set_if_valid_def intro!: fin_if fin_errors fin_lift)
  have "fin src C \<tau> (value_error_as_syntax m t)" if "fin src C \<tau> (m t)"
    for C \<tau> and m :: "('x, 'x form list) rm" and t
    using that
    by (auto simp: fin_def value_error_as_syntax_def split: sum.splits reader_error.splits py_error.splits)
  then show "fin src (B - 1) \<sigma> (read_map E rd n space s)"
    unfolding read_map_def
    apply (intro with_loc_fin expect_fin [OF assms(2)])
    apply (rule fin_rdo [where B = "B - 1" and \<sigma> = \<sigma>])
    using assms read_elems_fin [OF assms(1)]
    by (auto intro!: fin_option fin_errors fin_lift)
qed

lemma next_form_fin:
  fixes s :: "'x rstate"
  assumes "total_reader src n rd" "remains src s B" "B < n" "B < k" "shape s = \<sigma>"
  shows "fin src (B - 1) \<sigma> (next_form rd k s)"
  using assms(2-)
proof (induction k arbitrary: s B)
  case (Suc k)
  show ?case
  proof (cases "B = 0")
    case True
    then have "rd s = Inr (FEof, s)" using assms(1) Suc.prems by (simp add: total_reader_def)
    then show ?thesis using Suc.prems True by (simp add: rdo_def fin_ret)
  next
    case False
    show ?thesis
      unfolding next_form.simps
    proof (rule fin_rdo, rule total_readerD [OF assms(1) Suc.prems(1,2,4)], rule fin_if)
      fix v and t :: "'x rstate"
      assume t: "remains src t (B - 1)" "shape t = \<sigma>"
      then show "fin src (B - 1) \<sigma> (ret v t)" by (rule fin_ret)
      show "fin src (B - 1) \<sigma> (next_form rd k t)"
        using t False Suc.prems by (intro fin_mono [OF Suc.IH [of t "B - 1"]]) auto
    qed
  qed
qed simp

lemma second_item_fin:
  assumes "remains src s B" "shape s = \<sigma>"
  shows "fin src B \<sigma> (second_item f s)"
  by (cases f rule: second_item.cases) (auto intro: fin_ret [OF assms])

lemma auto_gensym_fin:
  assumes "remains src s B" "shape s = \<sigma>"
  shows "fin src B \<sigma> (auto_gensym name m s)"
  using assms
  by (auto simp: auto_gensym_def genname_def rdo_def ret_def fin_def Let_def shape_def
      split: list.split option.split)

lemma expanded_fin:
  assumes "remains src s B" "shape s = \<sigma>"
    and "\<And>t. remains src t B \<Longrightarrow> shape t = \<sigma> \<Longrightarrow> fin src B \<sigma> (process x t)"
  shows "fin src B \<sigma> (expanded process x s)"
  unfolding expanded_def
  by (intro fin_if; (rule second_item_fin [OF assms(1,2)])?)
    (rule fin_rdo, rule second_item_fin [OF assms(1,2)] assms(3) [OF assms(1,2)], rule fin_ret; assumption)+

lemma process_quoted_fin:
  assumes "remains src s B" "shape s = \<sigma>"
  shows "fin src B \<sigma> (process_quoted E f s)"
  using assms
proof (induction E f arbitrary: s rule: process_quoted.induct)
  case (1 E xs m)
  show ?case
    unfolding process_quoted.simps
    apply (intro fin_if fin_errors second_item_fin [OF 1(2,3)])
    apply (rule fin_rdo, rule rseq_fin [OF 1(2,3)])
    using 1(1) by (auto intro: fin_ret expanded_fin)
next
  case (2 E xs m)
  show ?case
    unfolding process_quoted.simps
    by (rule fin_rdo, rule rseq_fin [OF 2(2,3)]) (use 2(1) in \<open>auto intro: fin_ret expanded_fin\<close>)
next
  case (3 E xs m)
  show ?case
    unfolding process_quoted.simps
    by (rule fin_rdo, rule rseq_fin [OF 3(2,3)]) (use 3(1) in \<open>auto intro: fin_ret expanded_fin\<close>)
next
  case (4 E es m)
  have entry: "fin src B \<sigma> (rdo (expanded (process_quoted E) (fst e)) (\<lambda>k.
      rdo (expanded (process_quoted E) (snd e)) (\<lambda>v. ret [k, v])) t)"
    if "e \<in> set es" "remains src t B" "shape t = \<sigma>" for e t
    by (rule fin_rdo, rule expanded_fin, rule that(2), rule that(3), rule 4(1) [OF that(1)], assumption+,
        rule fin_rdo, rule expanded_fin, assumption, assumption, rule 4(2) [OF that(1)]) (auto intro: fin_ret)
  show ?case
    unfolding process_quoted.simps
    by (rule fin_rdo, rule rseq_fin [OF 4(3,4)]) (use entry in \<open>fastforce intro: fin_ret\<close>)+
next
  case (5 E ns name m)
  show ?case
    unfolding process_quoted.simps
    by (intro fin_if fin_ret 5; rule fin_rdo, rule auto_gensym_fin [OF 5], rule fin_ret; assumption)
qed (auto intro: fin_ret)

lemma quoting_fin:
  fixes s :: "'x rstate"
  assumes "total_reader src m rd" "remains src s B" "B \<le> m" "shape s = \<sigma>" "m \<le> n"
  shows "fin src (B - 1) \<sigma> (read_meta E rd n s)"
    and "fin src (B - 1) \<sigma> (read_quoted E rd n s)"
    and "fin src (B - 1) \<sigma> (read_deref E rd n s)"
    and "fin src (B - 1) \<sigma> (read_unquote E rd n s)"
    and "fin src (B - 1) \<sigma> (read_syntax_quoted E rd n s)"
proof -
  have form: "fin src (B - 1) \<tau> (rdo (next_form rd n) f t)"
    if "remains src t (B - 1)" "shape t = \<tau>" "0 < B"
      "\<And>v u. remains src u (B - 1) \<Longrightarrow> shape u = \<tau> \<Longrightarrow> fin src (B - 1) \<tau> (f v u)"
    for f :: "'x form \<Rightarrow> ('x, 'x form) rm" and t \<tau>
  proof (rule fin_rdo)
    show "fin src (B - 1) \<tau> (next_form rd n t)"
      using that assms by (intro fin_mono [OF next_form_fin [OF assms(1) that(1)]]) auto
  qed (use that in auto)
  show "fin src (B - 1) \<sigma> (read_meta E rd n s)"
    unfolding read_meta_def
    apply (rule expect_fin [OF assms(2)], rule form, assumption, simp add: assms, assumption)
    apply (rule fin_option, rule fin_errors, rule form, assumption, assumption, assumption)
    apply (intro fin_option fin_errors fin_ret; assumption)
    done
  show "fin src (B - 1) \<sigma> (read_quoted E rd n s)" "fin src (B - 1) \<sigma> (read_deref E rd n s)"
    unfolding read_quoted_def read_deref_def
    by (rule with_loc_fin, rule expect_fin [OF assms(2)], rule form;
        use assms in \<open>auto intro: fin_ret\<close>)+
  have unquoted: "fin src C \<sigma> (unquoted m t)"
    if "shape t = \<sigma>" "remains src t (B - 1)"
      "\<And>u. remains src u (B - 1) \<Longrightarrow> shape u = shape (t\<lparr>quotes := False # quotes t\<rparr>) \<Longrightarrow>
        fin src C (shape (t\<lparr>quotes := False # quotes t\<rparr>)) (m u)"
    for C t and m :: "('x, 'x form) rm"
    unfolding unquoted_def
    by (rule fin_rdo, rule that(3)) (use that in \<open>auto intro!: fin_ret simp: shape_def\<close>)
  show "fin src (B - 1) \<sigma> (read_unquote E rd n s)"
    unfolding read_unquote_def
    apply (rule expect_fin [OF assms(2)], rule unquoted)
      apply (simp add: assms)
     apply assumption
    apply (rule fin_peek, assumption, rule fin_if)
     apply (rule fin_advance, assumption)
     apply (rule form, rule remains_pred(1), simp, simp, assumption, rule fin_ret)
      apply assumption+
    apply (rule form, assumption, assumption, assumption, rule fin_ret)
     apply assumption+
    done
  have quoted: "fin src (B - 1) (shape (t\<lparr>quotes := True # quotes t, gensyms := [] # gensyms t\<rparr>))
      (rdo (next_form rd n) (process_quoted E) (t\<lparr>quotes := True # quotes t, gensyms := [] # gensyms t\<rparr>))"
    if "remains src t (B - 1)" "0 < B" for t
    by (rule form) (simp_all add: that [simplified] process_quoted_fin)
  show "fin src (B - 1) \<sigma> (read_syntax_quoted E rd n s)"
    unfolding read_syntax_quoted_def syntax_quoted_def
    by (rule expect_fin [OF assms(2)], rule fin_rdo, rule quoted)
      (use assms(4) in \<open>auto intro!: fin_ret simp: shape_def\<close>)
qed

lemma read_function_fin:
  fixes s :: "'x rstate"
  assumes "total_reader src m rd" "remains src s B" "B \<le> m" "shape s = \<sigma>" "m \<le> n"
  shows "fin src (B - 1) \<sigma> (read_function E rd n s)"
proof -
  let ?s = "s\<lparr>anon_fns := True # anon_fns s\<rparr>"
  have "fin src (B - 1) (shape ?s) (read_list E rd n ?s)"
    by (rule coll_fin [OF assms(1)]) (use assms in simp_all)
  then have list: "fin src (B - 1) \<sigma> (in_anon_fn (read_list E rd n) s)"
    unfolding in_anon_fn_def
    by (rule fin_rdo) (use assms(4) in \<open>auto intro!: fin_ret simp: shape_def\<close>)
  show ?thesis
    unfolding read_function_def Let_def
    apply (intro with_loc_fin fin_if fin_errors)
    apply (rule fin_rdo, rule list)
    apply (rule fin_rdo [where B = "B - 1" and \<sigma> = \<sigma>])
     apply (intro fin_if fin_ret fin_lift; assumption)
    apply (rule fin_ret; assumption)
    done
qed

section \<open>f-strings, conditionals and macros\<close>

lemma read_fstr_loop_fin:
  fixes s :: "'x rstate"
  assumes "total_reader src n rd" "remains src s B" "B < n" "B < k" "shape s = \<sigma>"
  shows "fin src B \<sigma> (read_fstr_loop E rd k elems acc s)"
  using assms(2-)
proof (induction k arbitrary: s B elems acc)
  case (Suc k)
  have loop: "fin src B \<sigma> (read_fstr_loop E rd k elems' acc' t)"
    if "remains src t (B - 1)" "shape t = \<sigma>" "1 < B" for t :: "'x rstate" and elems' acc'
    using that Suc.prems by (intro fin_mono [OF Suc.IH [of t "B - 1"]]) auto
  show ?case
    unfolding read_fstr_loop.simps
  proof (rule fin_next [OF Suc.prems(1)], goal_cases)
    case (1 c t)
    then have t: "remains src t (B - 1)" "shape t = \<sigma>" using Suc.prems by auto
    show ?case
    proof (cases c)
      case (Some x)
      then have B: "1 < B" using 1 by simp
      have esc: "fin src B \<sigma> (rdo next_char (\<lambda>d.
           case str_escape d of
             Some e \<Rightarrow> read_fstr_loop E rd k elems (acc @ [e])
           | None \<Rightarrow>
               if is_u d then
                 rdo (read_unicode_escape_seq k) (\<lambda>u. read_fstr_loop E rd k elems (acc @ [u]))
               else if d = Some (ch CHR ''{'') then read_fstr_loop E rd k elems (acc @ [ch CHR ''{''])
               else syntax_error) t)"
      proof (rule fin_next [OF t(1)], goal_cases)
        case (1 d u)
        then have u: "remains src u (B - 1 - 1)" "shape u = \<sigma>" "is_u d \<Longrightarrow> 1 < B - 1"
          using t by (auto simp: is_u_def)
        have "fin src B \<sigma> (rdo (read_unicode_escape_seq k) (\<lambda>u. read_fstr_loop E rd k elems (acc @ [u])) u)"
          if "is_u d"
          using u B Suc.prems that by (intro escape_fin [where B = B] loop) auto
        moreover have "fin src B \<sigma> (read_fstr_loop E rd k elems acc' u)" for acc'
          by (rule loop) (use u B in \<open>auto intro: remains_pred\<close>)
        ultimately show ?case by (intro fin_option fin_if fin_errors)
      qed
      have expr: "fin src B \<sigma> (rdo next_char (\<lambda>_. rdo rd (\<lambda>expr. rdo (consume_whitespace E k) (\<lambda>d.
           if d \<noteq> Some (ch CHR ''}'') then syntax_error
           else read_fstr_loop E rd k (elems @ [FStr acc, expr]) []))) t)"
      proof (rule fin_next [OF t(1)], goal_cases)
        case (1 d u)
        then have u: "remains src u (B - 1 - 1)" "shape u = \<sigma>" using t by auto
        show ?case
        proof (rule fin_rdo)
          show "fin src (B - 1 - 1 - 1) \<sigma> (rd u)"
            using u Suc.prems by (intro total_readerD [OF assms(1)]) auto
        next
          fix v and w :: "'x rstate"
          assume w: "remains src w (B - 1 - 1 - 1)" "shape w = \<sigma>"
          show "fin src B \<sigma> (rdo (consume_whitespace E k) (\<lambda>d.
            if d \<noteq> Some (ch CHR ''}'') then syntax_error
            else read_fstr_loop E rd k (elems @ [FStr acc, v]) []) w)"
          proof (rule fin_rdo, rule consume_whitespace_fin [OF w(1) _ w(2)])
            show "B - 1 - 1 - 1 < k" using Suc.prems B by auto
          next
            fix d and x :: "'x rstate"
            assume x: "remains src x (B - 1 - 1 - 1)" "shape x = \<sigma>"
            then have "remains src x (B - 1)" by (auto intro: remains_mono)
            then show "fin src B \<sigma> ((if d \<noteq> Some (ch CHR ''}'') then syntax_error
              else read_fstr_loop E rd k (elems @ [FStr acc, v]) []) x)"
              using x B by (intro fin_if fin_errors loop) auto
          qed
        qed
      qed
      have "fin src B \<sigma> (rdo next_char (\<lambda>_. ret (fstr_form (elems @ [FStr acc]))) t)"
        by (rule fin_next [OF t(1)]) (use t in \<open>auto intro!: fin_ret intro: remains_pred\<close>)
      then show ?thesis using Some loop [OF t B] esc expr by simp
    qed simp
  qed
qed simp

lemma read_fstr_fin:
  fixes s :: "'x rstate"
  assumes "total_reader src m rd" "remains src s B" "B < m" "shape s = \<sigma>" "m \<le> n"
  shows "fin src B \<sigma> (read_fstr E rd n s)"
proof -
  have n: "B < n" using assms(3,5) by simp
  show ?thesis
    unfolding read_fstr_def
    by (rule fin_rdo, rule consume_whitespace_fin [OF assms(2) n assms(4)],
        rule read_fstr_loop_fin [OF assms(1) _ assms(3) n])
qed

lemma read_cond_form_fin:
  fixes s :: "'x rstate"
  assumes "total_reader src m rd" "remains src s B" "B < m" "shape s = \<sigma>" "m \<le> n"
  shows "fin src B \<sigma> (read_cond_form E rd n splicing s)"
proof -
  have n: "B < n" using assms(3,5) by simp
  show ?thesis
    unfolding read_cond_form_def
    by (rule fin_rdo, rule read_elems_fin [OF total_reader_policy [OF assms(1)] assms(2,3) n assms(4)],
        intro fin_option fin_errors fin_ret)
qed

lemma read_reader_conditional_fin:
  fixes s :: "'x rstate"
  assumes "total_reader src m rd" "remains src s B" "B \<le> m" "shape s = \<sigma>" "m \<le> n"
  shows "fin src (B - 1) \<sigma> (read_reader_conditional E rd n s)"
  unfolding read_reader_conditional_def
proof (rule expect_fin [OF assms(2)], rule fin_peek, assumption, goal_cases)
  case (1 t c)
  show ?case
  proof (rule fin_rdo [where B = "B - 1" and \<sigma> = \<sigma>])
    show "fin src (B - 1) \<sigma> ((if c = Some (ch CHR ''@'') then rdo advance (\<lambda>_. ret True)
       else if c = Some (ch CHR ''('') then ret False else syntax_error) t)"
      using 1 assms(4)
      by (intro fin_if fin_errors fin_ret fin_advance [of src t "B - 1"]) (auto intro: remains_pred)
  next
    fix splicing and u :: "'x rstate"
    assume u: "remains src u (B - 1)" "shape u = \<sigma>"
    show "fin src (B - 1) \<sigma> (rdo advance (\<lambda>open_char.
         if open_char \<noteq> Some (ch CHR ''('') then syntax_error
         else rdo (read_cond_form E rd n splicing) (\<lambda>cond.
           if process_cond E \<and> \<not> splicing then
             rdo (select_branch E cond) (\<lambda>f. ret (if f = FAbsent then FComment else f))
           else ret cond)) u)"
    proof (rule fin_advance [OF u(1)], rule fin_if, rule fin_errors)
      fix open_char and v :: "'x rstate"
      assume v: "remains src v (B - 1 - 1)" "shape v = shape u"
      have w: "remains src v (B - 1)" using v(1) by (auto intro: remains_pred)
      show "fin src (B - 1) \<sigma> (rdo (read_cond_form E rd n splicing) (\<lambda>cond.
           if process_cond E \<and> \<not> splicing then
             rdo (select_branch E cond) (\<lambda>f. ret (if f = FAbsent then FComment else f))
           else ret cond) v)"
      proof (rule fin_rdo, rule read_cond_form_fin [OF assms(1) w])
        show "B - 1 < m" using 1(3) assms(3) by simp
        show "shape v = \<sigma>" using u v by simp
        show "m \<le> n" by (rule assms(5))
      next
        fix cond and x :: "'x rstate"
        assume x: "remains src x (B - 1)" "shape x = \<sigma>"
        show "fin src (B - 1) \<sigma> ((if process_cond E \<and> \<not> splicing then
             rdo (select_branch E cond) (\<lambda>f. ret (if f = FAbsent then FComment else f))
           else ret cond) x)"
          by (intro fin_if fin_ret x; rule fin_rdo, rule select_branch_fin [OF x], rule fin_ret; assumption)
      qed
    qed
  qed
qed

lemma read_tagged_fin:
  fixes s :: "'x rstate"
  assumes "total_reader src m rd" "remains src s B" "B < m" "shape s = \<sigma>" "m \<le> n"
  shows "fin src B \<sigma> (read_tagged E rd n s)"
  unfolding read_tagged_def
proof (rule fin_rdo)
  have n: "B < n" using assms(3,5) by simp
  show "fin src B \<sigma> (read_sym E n True s)" by (rule read_sym_fin [OF assms(2) n assms(4)])
  fix tag and t :: "'x rstate"
  assume t: "remains src t B" "shape t = \<sigma>"
  have tagged: "fin src B \<sigma> (rdo (next_form rd n) (\<lambda>v s.
             if should_process_tags s then resolve_tagged_literal E tag v s
             else ret (FTagged tag v) s) t)"
    by (rule fin_rdo [where B = B and \<sigma> = \<sigma>],
        rule fin_mono [OF next_form_fin [OF assms(1) t(1) assms(3) n t(2)]], simp,
        intro fin_if fin_ret resolve_tagged_literal_fin)
  show "fin src B \<sigma> ((case tag of
         FSymbol ns name m \<Rightarrow>
           if ns = None \<and> \<not> edn E \<and> name = lit ''b'' then read_byte_str E n
           else if ns = None \<and> \<not> edn E \<and> name = lit ''f'' then read_fstr E rd n
           else rdo (next_form rd n) (\<lambda>v s.
             if should_process_tags s then resolve_tagged_literal E tag v s
             else ret (FTagged tag v) s)
       | _ \<Rightarrow> assertion_error) t)"
    using tagged read_byte_str_fin [OF t(1) n t(2)] read_fstr_fin [OF assms(1) t(1) assms(3) t(2) assms(5)]
    by (simp split: form.split)
qed

lemma unless_edn_fin: "fin src B \<sigma> (m s) \<Longrightarrow> fin src B \<sigma> (unless_edn E m s)"
  by (simp add: unless_edn_def)

lemma read_namespaced_map_fin:
  fixes s :: "'x rstate"
  assumes "total_reader src m rd" "remains src s B" "B < m" "shape s = \<sigma>" "m \<le> n"
  shows "fin src B \<sigma> (read_namespaced_map E rd n s)"
  unfolding read_namespaced_map_def
proof (rule fin_peek [OF assms(2)], rule fin_if, rule fin_errors, rule fin_advance [OF assms(2)],
    rule fin_peek, assumption, goal_cases)
  case (1 c1 c2 t c)
  have n: "B < n" using assms(3,5) by simp
  have t: "remains src t B" "shape t = \<sigma>" using 1 assms by (auto intro: remains_pred)
  show ?case
  proof (rule fin_rdo [where B = B and \<sigma> = \<sigma>])
    show "fin src B \<sigma> ((if c = Some (ch CHR '':'') then rdo advance (\<lambda>_. ret (current_ns E))
              else rdo (read_namespaced E n None) (\<lambda>(kw_ns, map_ns).
                if kw_ns \<noteq> None then syntax_error else ret map_ns)) t)"
      apply (intro fin_if)
       apply (rule fin_advance [OF t(1)], rule fin_ret, erule remains_mono, simp, simp add: t)
      apply (rule fin_rdo, rule read_namespaced_fin [OF t(1) n t(2)])
      apply (intro fin_pair fin_if fin_errors fin_ret; assumption)
      done
  next
    fix map_ns and u :: "'x rstate"
    assume u: "remains src u B" "shape u = \<sigma>"
    show "fin src B \<sigma> (rdo (consume_whitespace E n) (\<lambda>_. read_map E rd n (Some map_ns)) u)"
      by (rule fin_rdo, rule consume_whitespace_fin [OF u(1) n u(2)], rule fin_mono,
          rule coll_fin(4) [OF assms(1)]) (use assms(3,5) in auto)
  qed
qed

lemma as_syntax_error_fin: "fin src B \<sigma> (m s) \<Longrightarrow> fin src B \<sigma> (as_syntax_error m s)"
  by (auto simp: fin_def as_syntax_error_def split: sum.splits reader_error.splits)

lemma read_reader_macro_fin:
  fixes s :: "'x rstate"
  assumes "total_reader src m rd" "remains src s B" "B \<le> m" "shape s = \<sigma>" "m \<le> n"
  shows "fin src (B - 1) \<sigma> (read_reader_macro E rd n s)"
  unfolding read_reader_macro_def
proof (rule expect_fin [OF assms(2)], rule fin_peek, assumption, goal_cases)
  case (1 t c)
  have t: "remains src t (B - 1)" "B - 1 < m" "B - 1 \<le> m" "shape t = \<sigma>" and n: "B - 1 < n"
    using 1 assms by auto
  note less = fin_mono [of src "B - 1 - 1" \<sigma> _ "B - 1", OF _ diff_le_self]
  note coll = coll_fin [OF assms(1) t(1,3,4) assms(5), THEN less]
    and quoting = quoting_fin [OF assms(1) t(1,3,4) assms(5), THEN less]
  have var_quote: "fin src (B - 1) \<sigma> (rdo advance (\<lambda>_. rdo peek (\<lambda>d.
           rdo (if d = Some (ch CHR ''~'') then read_unquote E rd n else read_sym E n False)
             (\<lambda>v. ret (form_list [sym ''var'', v])))) t)"
  proof (rule fin_advance [OF t(1)], rule fin_peek, assumption, goal_cases)
    case (1 c u d)
    have u: "remains src u (B - 1)" "shape u = \<sigma>" using 1 t by (auto intro: remains_pred)
    show ?case
      by (rule fin_rdo [where B = "B - 1" and \<sigma> = \<sigma>], intro fin_if,
          rule less [OF quoting_fin(4) [OF assms(1) u(1) t(3) u(2) assms(5)]],
          rule read_sym_fin [OF u(1) n u(2)], rule fin_ret)
  qed
  have form: "fin src (B - 1) \<sigma> (rdo (next_form rd n) f u)"
    if "remains src u (B - 1)" "shape u = \<sigma>"
      "\<And>v w. remains src w (B - 1) \<Longrightarrow> shape w = \<sigma> \<Longrightarrow> fin src (B - 1) \<sigma> (f v w)"
    for f :: "'x form \<Rightarrow> ('x, 'x form) rm" and u
    by (rule fin_rdo, rule less [OF next_form_fin [OF assms(1) that(1) t(2) n that(2)]], rule that(3))
  have skip: "fin src (B - 1) \<sigma> (rdo advance (\<lambda>_. rdo (next_form rd n) (\<lambda>_. ret (FComment :: 'x form))) t)"
    by (rule fin_advance [OF t(1)], rule form) (use t in \<open>auto intro: remains_pred fin_ret\<close>)
  have eval: "fin src (B - 1) \<sigma> (rdo advance (\<lambda>_.
           case eval_reader E of
             None \<Rightarrow> syntax_error
           | Some f \<Rightarrow>
               rdo (next_form rd n) (\<lambda>form.
                 if form = FEof then eof_error else call_eval (f form))) t)"
    by (rule fin_advance [OF t(1)], intro fin_option fin_errors form fin_if call_fin(2))
      (use t in \<open>auto intro: remains_pred\<close>)
  have "fin src (B - 1) \<sigma> (read_numeric_constant E n t)"
    unfolding read_numeric_constant_def
    apply (rule fin_advance [OF t(1)], intro fin_if fin_errors)
    apply (rule fin_rdo [where B = "B - 1" and \<sigma> = \<sigma>], rule read_namespaced_fin)
    by (use t n in \<open>auto intro: remains_pred intro!: fin_if fin_ret fin_pair\<close>)
  then show ?case
    by (intro fin_if fin_errors unless_edn_fin as_syntax_error_fin coll quoting var_quote skip eval
        less [OF read_function_fin [OF assms(1) t(1,3,4) assms(5)]]
        less [OF read_reader_conditional_fin [OF assms(1) t(1,3,4) assms(5)]]
        less [OF read_str_fin(2) [OF t(1) n t(4)]] less [OF read_comment_fin [OF t(1) n t(4)]]
        read_namespaced_map_fin [OF assms(1) t(1,2,4) assms(5)] read_tagged_fin [OF assms(1) t(1,2,4) assms(5)])
qed

lemma read_form_total:
  fixes rd :: "('x, 'x form) rm"
  assumes "total_reader src m rd" "Suc m \<le> n"
  shows "total_reader src (Suc m) (read_form E rd n)"
  unfolding total_reader_def
proof (intro conjI allI impI)
  fix s :: "'x rstate"
  assume "remains src s 0"
  then show "read_form E rd n s = Inr (FEof, s)"
    using remains_0 [of src s] by (simp add: read_form_def rdo_def on_char_def ret_def)
next
  fix s :: "'x rstate" and B
  assume s: "remains src s B" "B < Suc m"
  have n: "B < n" "m \<le> n" "B \<le> m" using s(2) assms(2) by auto
  note coll = coll_fin [OF assms(1) s(1) n(3) refl n(2)]
    and quoting = quoting_fin [OF assms(1) s(1) n(3) refl n(2)]
  show "fin src (B - 1) (shape s) (read_form E rd n s)"
    unfolding read_form_def
  proof (rule fin_peek [OF s(1)], goal_cases)
    case (1 c)
    show ?case
    proof (cases c)
      case None
      have "remains src s (B - 1)" by (rule remains_mono [OF at_end [OF s(1) 1(1) [unfolded None]]]) simp
      then show ?thesis using None by (simp add: on_char_def fin_ret)
    next
      case (Some x)
      then have pk: "peek s = Inr (Some x, s)" using 1 by simp
      have B: "0 < B" using 1(2) Some by simp
      have blank: "fin src (B - 1) (shape s) (rdo (consume_whitespace E n) (\<lambda>_. rd) s)" if "whitespace E x"
      proof -
        obtain k where k: "n = Suc k" using n by (cases n) auto
        have "fin src (B - 1) (shape s) (consume_whitespace E n s)"
          unfolding k consume_whitespace.simps using that pk B n(1) k
          by (simp add: rdo_def [of peek] on_char_def)
            (rule fin_next [OF s(1)], rule consume_whitespace_fin, auto)
        then show ?thesis
        proof (rule fin_rdo)
          fix a and t :: "'x rstate"
          assume "remains src t (B - 1)" "shape t = shape s"
          then show "fin src (B - 1) (shape s) (rd t)"
            using B n by (intro fin_mono [OF total_readerD [OF assms(1), of t "B - 1"]]) auto
        qed
      qed
      have sym: "fin src (B - 1) (shape s) (read_sym E n False s)"
        if "ns_name_char E x \<or> edn E \<and> x = 39"
        by (rule read_sym_strict [OF s(1) n(1) refl pk that])
      have num: "fin src (B - 1) (shape s) (read_num E n s)" if "is_digit x \<or> x \<in> set (lit ''+-'')"
        by (rule read_num_fin [OF s(1) n(1) refl pk that])
      show ?thesis
        apply (intro fin_if fin_errors unless_edn_fin coll quoting read_kw_fin [OF s(1) n(1) refl]
            read_str_fin(1) [OF s(1) n(1) refl] read_character_fin [OF s(1) n(1) refl]
            read_comment_fin [OF s(1) n(1) refl] num sym blank
            read_reader_macro_fin [OF assms(1) s(1) n(3) refl n(2)])
        by (auto simp: Some on_char_def)
    qed
  qed
qed

lemma read_next_total: "total_reader src (n - 1) (read_next E n)"
proof (induction n)
  case (Suc n)
  show ?case
  proof (cases n)
    case (Suc k)
    then have "total_reader src (Suc k) (read_form E (read_next E n) n)"
      using Suc.IH by (intro read_form_total) auto
    then show ?thesis using Suc by simp
  qed (simp add: total_reader_def)
qed (simp add: total_reader_def)

section \<open>Reading a whole text\<close>

lemma read_next_cases:
  fixes s :: "'x rstate"
  assumes "remains src s B" "Suc B < fuel"
  obtains e where "read_next E fuel s = Inl e" "e \<noteq> OutOfFuel"
  | v t where "read_next E fuel s = Inr (v, t)" "remains src t (B - 1)" "shape t = shape s"
      "B = 0 \<Longrightarrow> v = FEof"
proof -
  have fin: "fin src (B - 1) (shape s) (read_next E fuel s)"
    using assms by (intro total_readerD [OF read_next_total]) auto
  have eof: "B = 0 \<Longrightarrow> read_next E fuel s = Inr (FEof, s)"
    using read_next_total [of src fuel E] assms by (auto simp: total_reader_def)
  show thesis
    using fin eof that by (cases "read_next E fuel s") (auto simp: fin_def)
qed

lemma read_loop_total:
  fixes s :: "'x rstate"
  assumes "remains src s B" "Suc B < fuel" "B < n"
  shows "snd (read_loop E fuel is_eof_error n s) \<noteq> Some OutOfFuel"
  using assms
proof (induction n arbitrary: s B)
  case (Suc n)
  show ?case
  proof (cases rule: read_next_cases [OF Suc.prems(1,2), of E])
    case (1 e)
    then show ?thesis by simp
  next
    case (2 v t)
    have "error_at t \<noteq> OutOfFuel"
      by (simp add: error_at_def syntax_error_def split: sum.split)
    moreover have "snd (read_loop E fuel is_eof_error n t) \<noteq> Some OutOfFuel" if "B \<noteq> 0"
      using 2 Suc.prems that by (intro Suc.IH [of t "B - 1"]) auto
    ultimately show ?thesis
      using 2 by (cases "B = 0") (auto simp: Let_def)
  qed
qed simp

lemma initial_remains:
  assumes "new_reader src 5 init_line init_column = Inr r"
  shows "remains src (initial_state r policy counter) (length src)"
proof -
  obtain l c where "new_reader src 5 init_line init_column = new_reader src 5 (Some l) (Some c)"
    by (cases init_line; cases init_column) (auto simp: new_reader_def)
  then have "reads src 5 l c 0 0 r" using new_reader_reads [of 5 src l c] assms by auto
  then show ?thesis
    unfolding remains_def stands_def initial_state_def by (intro exI [of _ 0] conjI exI) auto
qed

text \<open>
  C15: reading terminates, and restores the context. With two more turns of fuel than the text has
  characters, no call of the reader runs out of it: from any position of a text, the next form is
  an error or a form read from at least one character of what was left (the end-of-file object
  when nothing was left), with the stacks of anonymous functions, quotes and tag policies as
  they were before; so the whole text is read, with finitely many forms and then its end or an
  error of the code.
\<close>

theorem reader_terminates:
  fixes E :: "'x reader_env" and s :: "'x rstate"
  assumes "remains src s B" "Suc B < fuel"
  shows "(case read_next E fuel s of
      Inl e \<Rightarrow> e \<noteq> OutOfFuel
    | Inr (v, t) \<Rightarrow> (if B = 0 then v = FEof else remains src t (B - 1)) \<and>
        anon_fns t = anon_fns s \<and> quotes t = quotes s \<and> tag_policies t = tag_policies s \<and>
        length (gensyms t) = length (gensyms s)) \<and>
    (Suc (length src) < fuel \<longrightarrow>
      snd (read_str_forms E fuel is_eof_error policy init_line init_column counter src) \<noteq> Some OutOfFuel)"
proof (intro conjI impI)
  show "case read_next E fuel s of
      Inl e \<Rightarrow> e \<noteq> OutOfFuel
    | Inr (v, t) \<Rightarrow> (if B = 0 then v = FEof else remains src t (B - 1)) \<and>
        anon_fns t = anon_fns s \<and> quotes t = quotes s \<and> tag_policies t = tag_policies s \<and>
        length (gensyms t) = length (gensyms s)"
    by (cases rule: read_next_cases [OF assms, of E]) (auto simp: shape_def)
next
  assume fuel: "Suc (length src) < fuel"
  show "snd (read_str_forms E fuel is_eof_error policy init_line init_column counter src) \<noteq> Some OutOfFuel"
  proof (cases "new_reader src 5 init_line init_column")
    case (Inr r)
    have "snd (read_loop E fuel is_eof_error fuel (initial_state r policy counter)) \<noteq> Some OutOfFuel"
      by (rule read_loop_total [OF initial_remains [OF Inr] fuel]) (use fuel in simp)
    then show ?thesis using Inr by (simp add: read_str_forms_def)
  qed (simp add: read_str_forms_def)
qed

text \<open>An environment without host values: ASCII names only, and no readers of tagged literals.\<close>

definition ascii_env :: "unit reader_env" where
  "ascii_env =
     \<lparr>uni_word = (\<lambda>_. False), uni_space = (\<lambda>_. False), uni_isdigit = (\<lambda>_. False),
      uni_mark = (\<lambda>_. False), uni_decimal = (\<lambda>_. None), py_float = (\<lambda>_. ()), py_decimal = (\<lambda>_. ()),
      py_scaled = (\<lambda>_ _ _. Inl OverflowError), py_complex = (\<lambda>_ _. Inr ()), py_regex = (\<lambda>_. None),
      py_nan = (), py_inf = (), py_neg_inf = (),
      hosts = \<lparr>host_value = PyOther, host_hashable = (\<lambda>_. True), host_add_meta = (\<lambda>_ _. None)\<rparr>,
      current_ns = lit ''user'', ns_aliases = (\<lambda>_. None), resolver = (\<lambda>f. f),
      data_readers = (\<lambda>_ _. None), builtin_readers = (\<lambda>_ _. None),
      default_reader = (\<lambda>_ _. Inl CallSyntaxError), load_record = (\<lambda>_ _. Inl CallAssertion),
      eval_reader = None, features = (\<lambda>f. f = kw ''lpy''), process_cond = True, edn = False\<rparr>"

theorem reader_terminates_witness:
  "\<exists>r. new_reader (lit ''(a #{1'') 5 None None = Inr r \<and>
     (case read_next ascii_env 9 (initial_state r True 0) of
        Inl e \<Rightarrow> e \<noteq> OutOfFuel
      | Inr (v, t) \<Rightarrow> remains (lit ''(a #{1'') t 5 \<and> anon_fns t = [] \<and> quotes t = [] \<and>
          tag_policies t = [True] \<and> length (gensyms t) = 0) \<and>
     snd (read_str_forms ascii_env 9 False True None None 0 (lit ''(a #{1'')) \<noteq> Some OutOfFuel"
proof -
  let ?src = "lit ''(a #{1''"
  have len: "length ?src = 6" by (simp add: lit_def)
  obtain r where r: "new_reader ?src 5 None None = Inr r"
    using new_reader_reads [of 5 ?src 1 0] by (auto simp: new_reader_def)
  have "remains ?src (initial_state r True 0) 6" using initial_remains [OF r] len by simp
  then show ?thesis
    using reader_terminates [where src = ?src and s = "initial_state r True 0" and B = 6 and fuel = 9 and
      E = ascii_env and is_eof_error = False and policy = True and init_line = None and
      init_column = None and counter = 0] r len
    by (auto simp: initial_state_def split: sum.splits)
qed

end
