(* ===== verification/Printer.thy ===== *)
theory Printer
  imports Reader
begin

text \<open>
  The Lisp representation of forms (\<open>lrepr\<close> of \<open>src/src/basilisp/lang/obj.py\<close>, and the
  \<open>_lrepr\<close> methods of symbols, keywords, characters, collections and tagged literals).
\<close>

section \<open>Settings\<close>

text \<open>
  The keyword arguments of \<open>lrepr\<close>; \<open>None\<close> is no limit. \<open>host_repr\<close> prints a host value, given
  \<open>human_readable\<close> and \<open>print_dup\<close>; \<open>object_repr\<close> is Python's \<open>repr\<close> of the sentinel objects.
\<close>

record 'x print_settings =
  human_readable :: bool
  print_dup :: bool
  print_length :: "nat option"
  print_level :: "int option"
  print_meta :: bool
  print_namespace_maps :: bool
  print_readably :: bool
  print_fn :: "'x form \<Rightarrow> pystr option"
  host_repr :: "bool \<Rightarrow> bool \<Rightarrow> 'x \<Rightarrow> pystr"
  object_repr :: "'x form \<Rightarrow> pystr"

definition default_settings :: "(bool \<Rightarrow> bool \<Rightarrow> 'x \<Rightarrow> pystr) \<Rightarrow> ('x form \<Rightarrow> pystr) \<Rightarrow> 'x print_settings" where
  "default_settings hr obj =
     \<lparr>human_readable = False, print_dup = False, print_length = None, print_level = None,
      print_meta = False, print_namespace_maps = True, print_readably = True,
      print_fn = (\<lambda>_. None), host_repr = hr, object_repr = obj\<rparr>"

text \<open>\<open>process_lrepr_kwargs\<close>, and the settings for the items of a collection.\<close>

definition deeper :: "'x print_settings \<Rightarrow> 'x print_settings" where
  "deeper ps = ps\<lparr>print_level := map_option (\<lambda>l. l - 1) (print_level ps)\<rparr>"

definition item_settings :: "'x print_settings \<Rightarrow> 'x print_settings" where
  "item_settings ps = (deeper ps)\<lparr>human_readable := False\<rparr>"

definition too_deep :: "'x print_settings \<Rightarrow> bool" where
  "too_deep ps = (case print_level ps of None \<Rightarrow> False | Some l \<Rightarrow> l < 1)"

definition shows_meta :: "'x print_settings \<Rightarrow> bool" where
  "shows_meta ps \<longleftrightarrow> print_dup ps \<or> print_meta ps \<and> print_readably ps"

section \<open>Atoms\<close>

definition int_repr :: "int \<Rightarrow> pystr" where
  "int_repr n = (if n < 0 then lit ''-'' @ nat_digits (nat (- n)) else nat_digits (nat n))"

definition lower_hex :: "nat \<Rightarrow> nat" where
  "lower_hex d = (if d < 10 then 48 + d else 87 + d)"

text \<open>The \<open>k\<close> lowest hexadecimal digits of \<open>n\<close>.\<close>

fun hex_repr :: "nat \<Rightarrow> nat \<Rightarrow> pystr" where
  "hex_repr 0 n = []"
| "hex_repr (Suc k) n = hex_repr k (n div 16) @ [lower_hex (n mod 16)]"

text \<open>A character under Python's codec \<open>unicode_escape\<close>.\<close>

definition unicode_escape :: "nat \<Rightarrow> pystr" where
  "unicode_escape c =
     (if c = BACKSLASH then [BACKSLASH, BACKSLASH]
      else if c = 9 then BACKSLASH # lit ''t''
      else if c = 10 then BACKSLASH # lit ''n''
      else if c = 13 then BACKSLASH # lit ''r''
      else if 32 \<le> c \<and> c < 127 then [c]
      else if c < 256 then BACKSLASH # lit ''x'' @ hex_repr 2 c
      else if c < 0x10000 then BACKSLASH # lit ''u'' @ hex_repr 4 c
      else BACKSLASH # lit ''U'' @ hex_repr 8 c)"

definition escape_quote :: "nat \<Rightarrow> pystr" where
  "escape_quote c = (if c = QUOTE then [BACKSLASH, QUOTE] else [c])"

definition str_repr :: "pystr \<Rightarrow> pystr" where
  "str_repr s = QUOTE # concat (map escape_quote (concat (map unicode_escape s))) @ [QUOTE]"

text \<open>\<open>repr(o)[2:-1]\<close> of a byte string: the quote is \<open>'\<close> unless that and no double one occurs.\<close>

definition byte_escape :: "nat \<Rightarrow> nat \<Rightarrow> pystr" where
  "byte_escape quote c =
     (if c = quote \<or> c = BACKSLASH then [BACKSLASH, c]
      else if c = 9 then BACKSLASH # lit ''t''
      else if c = 10 then BACKSLASH # lit ''n''
      else if c = 13 then BACKSLASH # lit ''r''
      else if 32 \<le> c \<and> c < 127 then [c]
      else BACKSLASH # lit ''x'' @ hex_repr 2 c)"

definition bytes_repr :: "nat list \<Rightarrow> pystr" where
  "bytes_repr b =
     (let quote = (if 39 \<in> set b \<and> QUOTE \<notin> set b then QUOTE else 39)
      in lit ''#b '' @ QUOTE # concat (map (byte_escape quote) b) @ [QUOTE])"

definition named_repr :: "pystr option \<Rightarrow> pystr \<Rightarrow> pystr" where
  "named_repr ns name = (case ns of None \<Rightarrow> name | Some n \<Rightarrow> n @ lit ''/'' @ name)"

text \<open>What \<open>_lrepr\<close> prints for a form that is not a collection (a symbol without metadata).\<close>

fun atom_repr :: "'x print_settings \<Rightarrow> 'x form \<Rightarrow> pystr" where
  "atom_repr ps FNil = lit ''nil''"
| "atom_repr ps (FBool b) = (if b then lit ''true'' else lit ''false'')"
| "atom_repr ps (FInt n) = int_repr n"
| "atom_repr ps (FRatio q) =
     int_repr (fst (quotient_of q)) @ lit ''/'' @ int_repr (snd (quotient_of q))"
| "atom_repr ps (FHost x) = host_repr ps (human_readable ps) (print_dup ps) x"
| "atom_repr ps (FStr s) =
     (if human_readable ps \<or> \<not> print_readably ps then s else str_repr s)"
| "atom_repr ps (FBytes b) = bytes_repr b"
| "atom_repr ps (FChar c) = char_lrepr c (human_readable ps) (print_readably ps)"
| "atom_repr ps (FKeyword ns n) = lit '':'' @ named_repr ns n"
| "atom_repr ps (FSymbol ns n m) = named_repr ns n"
| "atom_repr ps x = object_repr ps x"

text \<open>The callback \<open>print_fn\<close> comes first.\<close>

definition custom :: "'x print_settings \<Rightarrow> 'x form \<Rightarrow> pystr \<Rightarrow> pystr" where
  "custom ps x r = (case print_fn ps x of Some t \<Rightarrow> t | None \<Rightarrow> r)"

section \<open>Collections\<close>

fun join :: "pystr \<Rightarrow> pystr list \<Rightarrow> pystr" where
  "join sep [] = []"
| "join sep [x] = x"
| "join sep (x # y # xs) = x @ sep @ join sep (y # xs)"

definition limited :: "'x print_settings \<Rightarrow> pystr list \<Rightarrow> pystr list" where
  "limited ps items =
     (case print_length ps of
        None \<Rightarrow> items
      | Some n \<Rightarrow>
          if \<not> print_dup ps \<and> length items > n then take n items @ [lit ''...''] else items)"

text \<open>\<open>seq_lrepr\<close>, given the representation of the items and of the metadata to show.\<close>

definition seq_lrepr :: "'x print_settings \<Rightarrow> pystr \<Rightarrow> pystr \<Rightarrow> pystr option \<Rightarrow> pystr list \<Rightarrow> pystr" where
  "seq_lrepr ps start stop meta items =
     (if too_deep ps then lit ''#''
      else (case meta of Some m \<Rightarrow> if shows_meta ps then lit ''^'' @ m @ lit '' '' else [] | None \<Rightarrow> []) @
        start @ join (lit '' '') (limited ps items) @ stop)"

fun key_ns :: "'x form \<Rightarrow> pystr option" where
  "key_ns (FKeyword ns n) = ns"
| "key_ns (FSymbol ns n m) = ns"
| "key_ns _ = None"

fun bare_key :: "'x form \<Rightarrow> 'x form" where
  "bare_key (FKeyword ns n) = FKeyword None n"
| "bare_key (FSymbol ns n m) = FSymbol None n None"
| "bare_key k = k"

text \<open>\<open>check_same_ns\<close> with the test \<open>if ns_name_shared:\<close>.\<close>

definition shared_ns :: "'x print_settings \<Rightarrow> 'x form list \<Rightarrow> pystr option" where
  "shared_ns ps keys =
     (if print_namespace_maps ps \<and> keys \<noteq> [] \<and> (\<forall>k \<in> set keys. key_ns k = key_ns (hd keys))
         \<and> key_ns (hd keys) \<noteq> Some []
      then key_ns (hd keys) else None)"

definition map_lrepr ::
  "'x print_settings \<Rightarrow> pystr option \<Rightarrow> pystr option \<Rightarrow> pystr list \<Rightarrow> pystr"
where
  "map_lrepr ps space meta items =
     (if too_deep ps then lit ''#''
      else (case meta of Some m \<Rightarrow> if shows_meta ps then lit ''^'' @ m @ lit '' '' else [] | None \<Rightarrow> []) @
        (case space of None \<Rightarrow> [] | Some ns \<Rightarrow> lit ''#:'' @ ns) @
        lit ''{'' @ join (lit '', '') (limited ps items) @ lit ''}'')"

definition is_tag_key :: "'x form \<Rightarrow> bool" where
  "is_tag_key k \<longleftrightarrow>
     (case k of
        FKeyword ns n \<Rightarrow> ns = None \<and> n = lit ''tag''
      | FSymbol ns n m \<Rightarrow> ns = None \<and> n = lit ''tag''
      | _ \<Rightarrow> False)"

text \<open>\<open>meta_lrepr\<close> of a map whose one entry is for the key \<open>tag\<close> shows only its value.\<close>

fun single_tag :: "'x form \<Rightarrow> 'x form option" where
  "single_tag (FMap [(k, v)] m) = (if is_tag_key k then Some v else None)"
| "single_tag _ = None"

lemma size_single_tag [simp]: "single_tag m = Some v \<Longrightarrow> size v < size m"
  by (cases m rule: single_tag.cases) (auto split: if_splits)

fun lrepr :: "'x print_settings \<Rightarrow> 'x form \<Rightarrow> pystr" where
  "lrepr ps (FSymbol ns n m) =
     custom ps (FSymbol ns n m)
       ((case m of
           None \<Rightarrow> []
         | Some meta \<Rightarrow>
             if shows_meta ps
             then lit ''^'' @
               (case single_tag meta of Some v \<Rightarrow> lrepr ps v | None \<Rightarrow> lrepr ps meta) @ lit '' ''
             else []) @ named_repr ns n)"
| "lrepr ps (FList xs m) =
     custom ps (FList xs m)
       (seq_lrepr ps (lit ''('') (lit '')'')
         (map_option (\<lambda>meta. case single_tag meta of Some v \<Rightarrow> lrepr (deeper ps) v
                                | None \<Rightarrow> lrepr (deeper ps) meta) m)
         (map (lrepr (item_settings ps)) xs))"
| "lrepr ps (FVector xs m) =
     custom ps (FVector xs m)
       (seq_lrepr ps (lit ''['') (lit '']'')
         (map_option (\<lambda>meta. case single_tag meta of Some v \<Rightarrow> lrepr (deeper ps) v
                                | None \<Rightarrow> lrepr (deeper ps) meta) m)
         (map (lrepr (item_settings ps)) xs))"
| "lrepr ps (FSet xs m) =
     custom ps (FSet xs m)
       (seq_lrepr ps (lit ''#{'') (lit ''}'')
         (map_option (\<lambda>meta. case single_tag meta of Some v \<Rightarrow> lrepr (deeper ps) v
                                | None \<Rightarrow> lrepr (deeper ps) meta) m)
         (map (lrepr (item_settings ps)) xs))"
| "lrepr ps (FMap es m) =
     custom ps (FMap es m)
       (let space = shared_ns ps (map fst es); qs = item_settings ps
        in map_lrepr ps space
             (map_option (\<lambda>meta. case single_tag meta of
                  Some v \<Rightarrow> lrepr ((deeper ps)\<lparr>print_level := None\<rparr>) v
                | None \<Rightarrow> lrepr ((deeper ps)\<lparr>print_level := None\<rparr>) meta) m)
             (map (\<lambda>e. (if space = None then lrepr qs (fst e)
                        else custom qs (bare_key (fst e)) (atom_repr qs (bare_key (fst e)))) @
                     lit '' '' @ lrepr qs (snd e)) es))"
| "lrepr ps (FTagged t x) =
     custom ps (FTagged t x)
       (lit ''#'' @ (case t of FSymbol ns n m \<Rightarrow> named_repr ns n | _ \<Rightarrow> []) @ lit '' '' @ lrepr ps x)"
| "lrepr ps (FCond xs splicing) =
     custom ps (FCond xs splicing)
       (seq_lrepr ps (if splicing then lit ''#?@('' else lit ''#?('') (lit '')'') None
         (map (lrepr (item_settings ps)) xs))"
| "lrepr ps x = custom ps x (atom_repr ps x)"

end
