(* ===== verification/ReadAtoms.thy ===== *)
theory ReadAtoms
  imports ReaderTotal Printer
begin

text \<open>
  Reading what was printed. \<open>ahead src s xs\<close> says that the text \<open>xs\<close> is what the state has left
  of \<open>src\<close>; \<open>yields src m s P zs\<close> that the reader function \<open>m\<close> returns a value with \<open>P\<close>, leaves
  \<open>zs\<close>, and changes nothing of the state but the stream.
\<close>

declare read_name_loop.simps [simp del] number_chars.simps [simp del] read_str_loop.simps [simp del]
  hex_run.simps [simp del] read_elems.simps [simp del] character_chars.simps [simp del]
  consume_whitespace.simps [simp del] read_byte_loop.simps [simp del] next_form.simps [simp del]

section \<open>Running the reader forwards\<close>

definition ahead :: "pystr \<Rightarrow> 'x rstate \<Rightarrow> pystr \<Rightarrow> bool" where
  "ahead src s xs \<longleftrightarrow> (\<exists>p. stands src s (int p) \<and> p \<le> length src \<and> drop p src = xs)"

definition same_ctx :: "'x rstate \<Rightarrow> 'x rstate \<Rightarrow> bool" where
  "same_ctx s t \<longleftrightarrow> t = s\<lparr>rdr := rdr t\<rparr>"

lemma same_ctx_refl [simp]: "same_ctx s s"
  by (simp add: same_ctx_def)

lemma same_ctx_trans: "same_ctx s t \<Longrightarrow> same_ctx t u \<Longrightarrow> same_ctx s u"
  by (cases s; cases t; cases u) (simp add: same_ctx_def)

lemma same_ctx_quotes: "same_ctx s t \<Longrightarrow> quotes t = quotes s"
  by (cases s; cases t) (simp add: same_ctx_def)

definition yields ::
  "pystr \<Rightarrow> ('x, 'a) rm \<Rightarrow> 'x rstate \<Rightarrow> ('a \<Rightarrow> bool) \<Rightarrow> pystr \<Rightarrow> bool"
where
  "yields src m s P zs \<longleftrightarrow> (\<exists>a t. m s = Inr (a, t) \<and> P a \<and> ahead src t zs \<and> same_ctx s t)"

definition first :: "pystr \<Rightarrow> nat option" where
  "first xs = (case xs of [] \<Rightarrow> None | x # _ \<Rightarrow> Some x)"

lemma first_simps [simp]: "first [] = None" "first (x # xs) = Some x"
  by (simp_all add: first_def)

lemma ahead_peek:
  assumes "ahead src s xs"
  shows "peek s = Inr (first xs, s)"
proof -
  obtain p where p: "stands src s (int p)" "p \<le> length src" "drop p src = xs"
    using assms by (auto simp: ahead_def)
  have "char_at src p = first xs"
  proof (cases "p < length src")
    case True
    then have "xs = src ! p # drop (Suc p) src" using p(3) by (simp add: Cons_nth_drop_Suc)
    then show ?thesis using True by (simp add: char_at_def)
  next
    case False
    then show ?thesis using p(3) by (simp add: char_at_def)
  qed
  then show ?thesis using stands_peek [OF p(1)] by (simp add: peek_def)
qed

lemma ahead_step:
  assumes "ahead src s (x # xs)"
  shows "\<exists>r. reader_next (rdr s) = Inr r \<and> ahead src (s\<lparr>rdr := r\<rparr>) xs"
proof -
  obtain p where p: "stands src s (int p)" "p \<le> length src" "drop p src = x # xs"
    using assms by (auto simp: ahead_def)
  then have "p < length src" by (metis drop_all list.discI linorder_not_less)
  moreover have "drop (Suc p) src = xs" using p(3) by (metis drop_Suc list.sel(3) tl_drop)
  ultimately show ?thesis
    using stands_next [OF p(1)] by (auto simp: ahead_def intro!: exI [of _ "Suc p"] simp: add.commute)
qed

lemma yields_ret: "ahead src s zs \<Longrightarrow> P a \<Longrightarrow> yields src (ret a) s P zs"
  by (auto simp: yields_def ret_def)

lemma yields_mono: "yields src m s P zs \<Longrightarrow> (\<And>a. P a \<Longrightarrow> Q a) \<Longrightarrow> yields src m s Q zs"
  by (auto simp: yields_def)

lemma yields_rdo:
  assumes "yields src m s Q ys"
    and "\<And>a t. Q a \<Longrightarrow> ahead src t ys \<Longrightarrow> same_ctx s t \<Longrightarrow> yields src (f a) t P zs"
  shows "yields src (rdo m f) s P zs"
  using assms by (fastforce simp: yields_def rdo_def intro: same_ctx_trans)

lemma yields_peek:
  assumes "ahead src s xs" "yields src (f (first xs)) s P zs"
  shows "yields src (rdo peek f) s P zs"
  using assms ahead_peek by (fastforce simp: yields_def rdo_def)

lemma yields_next:
  assumes "ahead src s (x # xs)"
    and "\<And>t. ahead src t xs \<Longrightarrow> same_ctx s t \<Longrightarrow> yields src (f (first xs)) t P zs"
  shows "yields src (rdo next_char f) s P zs"
proof -
  obtain r where r: "reader_next (rdr s) = Inr r" "ahead src (s\<lparr>rdr := r\<rparr>) xs"
    using ahead_step [OF assms(1)] by blast
  have c: "same_ctx s (s\<lparr>rdr := r\<rparr>)" by (simp add: same_ctx_def)
  have "rdo next_char f s = f (first xs) (s\<lparr>rdr := r\<rparr>)"
    using r(1) ahead_peek [OF r(2)] by (simp add: rdo_def next_char_def move_def)
  then show ?thesis using assms(2) [OF r(2) c] same_ctx_trans [OF c] by (auto simp: yields_def)
qed

lemma yields_advance:
  assumes "ahead src s (x # xs)"
    and "\<And>t. ahead src t xs \<Longrightarrow> same_ctx s t \<Longrightarrow> yields src (f (Some x)) t P zs"
  shows "yields src (rdo advance f) s P zs"
proof -
  have "rdo advance f s = rdo peek (\<lambda>c. rdo next_char (\<lambda>_. f c)) s"
    by (simp add: advance_def rdo_def ret_def split: sum.split)
  moreover have "yields src (rdo peek (\<lambda>c. rdo next_char (\<lambda>_. f c))) s P zs"
    by (rule yields_peek [OF assms(1)], rule yields_next [OF assms(1)]) (simp add: assms(2))
  ultimately show ?thesis by (simp add: yields_def)
qed

lemma yields_then: "c \<Longrightarrow> yields src m s P zs \<Longrightarrow> yields src (if c then m else m') s P zs"
  by simp

lemma yields_else: "\<not> c \<Longrightarrow> yields src m' s P zs \<Longrightarrow> yields src (if c then m else m') s P zs"
  by simp

text \<open>A character read and pushed back.\<close>

lemma yields_next_pushback:
  assumes "ahead src s (x # xs)"
    and "\<And>t. ahead src t (x # xs) \<Longrightarrow> same_ctx s t \<Longrightarrow> yields src (f ()) t P zs"
    and "\<And>t. ahead src t xs \<Longrightarrow> f' (first xs) t = rdo pushback f t"
  shows "yields src (rdo next_char f') s P zs"
proof -
  obtain p where p: "stands src s (int p)" "p \<le> length src" "drop p src = x # xs"
    using assms(1) by (auto simp: ahead_def)
  obtain r where r: "reader_next (rdr s) = Inr r" "ahead src (s\<lparr>rdr := r\<rparr>) xs"
    using ahead_step [OF assms(1)] by blast
  obtain r' where r': "reader_pushback r = Inr r'" "stands src (s\<lparr>rdr := r'\<rparr>) (int p)"
    using stands_next_pushback [OF p(1) r(1)] by blast
  then have a: "ahead src (s\<lparr>rdr := r'\<rparr>) (x # xs)" using p by (auto simp: ahead_def)
  have c: "same_ctx s (s\<lparr>rdr := r'\<rparr>)" by (simp add: same_ctx_def)
  have "rdo next_char f' s = f () (s\<lparr>rdr := r'\<rparr>)"
    using r(1) r'(1) ahead_peek [OF r(2)] assms(3) [OF r(2)]
    by (simp add: rdo_def next_char_def move_def pushback_def)
  then show ?thesis using assms(2) [OF a c] same_ctx_trans [OF c] by (auto simp: yields_def)
qed

lemma yields_location:
  assumes "ahead src s xs"
  shows "yields src location s (\<lambda>_. True) xs"
proof -
  obtain p where "stands src s (int p)" using assms by (auto simp: ahead_def)
  then have "\<exists>lc. reader_loc (rdr s) = Inr lc" by (rule stands_loc) simp
  then show ?thesis using assms by (auto simp: yields_def location_def)
qed

section \<open>Forms without their metadata\<close>

fun strip_meta :: "'x form \<Rightarrow> 'x form" where
  "strip_meta (FSymbol ns n m) = FSymbol ns n None"
| "strip_meta (FList xs m) = FList (map strip_meta xs) None"
| "strip_meta (FVector xs m) = FVector (map strip_meta xs) None"
| "strip_meta (FSet xs m) = FSet (map strip_meta xs) None"
| "strip_meta (FMap es m) = FMap (map (\<lambda>e. (strip_meta (fst e), strip_meta (snd e))) es) None"
| "strip_meta (FTagged t x) = FTagged (strip_meta t) (strip_meta x)"
| "strip_meta (FCond xs s) = FCond (map strip_meta xs) s"
| "strip_meta x = x"

lemma strip_add_meta:
  assumes "add_meta h v new = Some w" "\<forall>x. v \<noteq> FHost x"
  shows "strip_meta w = strip_meta v"
  using assms by (cases "(h, v, new)" rule: add_meta.cases) auto

lemma yields_with_loc:
  assumes "ahead src s xs" "\<And>t. ahead src t xs \<Longrightarrow> same_ctx s t \<Longrightarrow>
      yields src f t (\<lambda>v. strip_meta v = w) zs" "\<And>x. w \<noteq> FHost x"
  shows "yields src (with_loc E f) s (\<lambda>v. strip_meta v = w) zs"
  unfolding with_loc_def
proof (rule yields_rdo, rule yields_location [OF assms(1)], rule yields_rdo, rule assms(2),
    assumption, assumption, rule yields_rdo, rule yields_location, assumption, rule yields_ret,
    assumption)
  fix start stop and v :: "'a form"
  assume v: "strip_meta v = w"
  then have "v \<noteq> FHost x" for x using assms(3) [of x] by auto
  then show "strip_meta (case add_meta (hosts E) v (loc_meta start stop) of None \<Rightarrow> v | Some w \<Rightarrow> w) = w"
    using v strip_add_meta by (fastforce split: option.split)
qed

lemma number_of_strip [simp]: "number_of h (strip_meta b) = number_of h b"
  by (cases b) simp_all

lemma seq_items_strip [simp]: "seq_items (strip_meta b) = map_option (map strip_meta) (seq_items b)"
  by (cases b) simp_all

lemma strip_eq_atom:
  "strip_meta b = FNil \<longleftrightarrow> b = FNil"
  "strip_meta b = FStr s \<longleftrightarrow> b = FStr s"
  "strip_meta b = FBytes w \<longleftrightarrow> b = FBytes w"
  "strip_meta b = FChar c \<longleftrightarrow> b = FChar c"
  "strip_meta b = FKeyword ns n \<longleftrightarrow> b = FKeyword ns n"
  "strip_meta b = FEof \<longleftrightarrow> b = FEof"
  "strip_meta b = FComment \<longleftrightarrow> b = FComment"
  "strip_meta b = FAbsent \<longleftrightarrow> b = FAbsent"
  by (cases b; simp)+

lemma all2_strip:
  assumes "\<And>x y. x \<in> set xs \<Longrightarrow> y \<in> set ys \<Longrightarrow> same_form h True (strip_meta x) (strip_meta y) = same_form h True x y"
  shows "list_all2 (same_form h True) (map strip_meta xs) (map strip_meta ys) =
    list_all2 (same_form h True) xs ys"
  unfolding list.rel_map by (rule list.rel_cong) (use assms in auto)

lemma same_form_strip: "same_form h strict (strip_meta a) (strip_meta b) = same_form h strict a b"
proof (induction h strict a b rule: same_form.induct)
  case (11 h strict xs m b)
  then show ?case by (cases "seq_items b") (simp_all add: all2_strip)
next
  case (12 h strict xs m b)
  then show ?case by (cases "seq_items b") (simp_all add: all2_strip)
next
  case (13 h strict xs m b)
  then show ?case by (cases b) auto
next
  case (14 h strict xs m b)
  then show ?case by (cases b) (auto 4 4)
next
  case (15 h strict t x b)
  then show ?case by (cases b) auto
next
  case (16 h strict xs s b)
  then show ?case by (cases b) (auto simp: all2_strip)
next
  case (10 h strict ns n m b)
  then show ?case by (cases b) auto
qed (simp_all add: same_number_def strip_eq_atom)

lemma hashable_strip [simp]: "hashable h (strip_meta a) = hashable h a"
  by (induction a) auto

section \<open>Names\<close>

text \<open>What can follow a printed form: the end, a space, a comma or a bracket.\<close>

definition delimited :: "pystr \<Rightarrow> bool" where
  "delimited xs \<longleftrightarrow> xs = [] \<or> hd xs \<in> set (lit '' )]},{'')"

definition name_part :: "'x reader_env \<Rightarrow> nat \<Rightarrow> bool" where
  "name_part E c \<longleftrightarrow> (is_ns_name_char E c \<or> c = 39 \<or> c = ch CHR ''#'') \<and> c \<noteq> ch CHR ''/''"

definition name_text :: "'x reader_env \<Rightarrow> pystr \<Rightarrow> bool" where
  "name_text E w \<longleftrightarrow> w \<noteq> [] \<and> hd w \<noteq> 39 \<and> (\<forall>c \<in> set w. name_part E c)"

lemma delimited_first:
  assumes "delimited xs" "first xs = Some c"
  shows "c = 32 \<or> c = 41 \<or> c = 93 \<or> c = 125 \<or> c = 44 \<or> c = 123"
  using assms by (cases xs) (auto simp: delimited_def lit_def)

lemma delimited_not_name:
  assumes "delimited xs"
  shows "\<not> on_char (is_ns_name_char E) (first xs)" "first xs \<noteq> Some 39" "first xs \<noteq> Some (ch CHR ''#'')"
    "first xs \<noteq> Some (ch CHR ''/'')" "\<not> on_char (word_char E) (first xs)"
  using assms delimited_first [OF assms]
  by (cases "first xs"; fastforce simp: on_char_def is_ns_name_char_def ns_name_char_def word_char_def
      is_digit_def is_letter_def punctuation_def lit_def ch_def)+

lemma read_name_prefix:
  assumes "ahead src s (w @ ys)" "\<forall>c \<in> set w. name_part E c" "name = [] \<Longrightarrow> w \<noteq> [] \<Longrightarrow> hd w \<noteq> 39"
    and "ch CHR ''/'' \<notin> set name"
    and "\<And>t. ahead src t ys \<Longrightarrow> same_ctx s t \<Longrightarrow>
      yields src (read_name_loop E suffix n has_ns ns (name @ w)) t P zs"
  shows "yields src (read_name_loop E suffix (length w + n) has_ns ns name) s P zs"
  using assms
proof (induction w arbitrary: s name)
  case (Cons c w)
  have c: "c \<noteq> ch CHR ''/''"
    "is_ns_name_char E c \<or> name \<noteq> [] \<and> c = 39 \<or> c = ch CHR ''#''"
    using Cons.prems(2,3) by (auto simp: name_part_def)
  have slash: "name \<noteq> [ch CHR ''/'']" using Cons.prems(4) by auto
  have "yields src (rdo next_char (\<lambda>_. read_name_loop E suffix (length w + n) has_ns ns (name @ [c]))) s P zs"
    by (rule yields_next [of _ _ _ "w @ ys"], use Cons.prems(1) in simp, rule Cons.IH)
      (use Cons.prems c in \<open>auto intro: same_ctx_trans\<close>)
  then have "yields src (read_name_loop E suffix (Suc (length w + n)) has_ns ns name) s P zs"
    unfolding read_name_loop.simps
    using c slash by (intro yields_peek [OF Cons.prems(1)]) (auto simp: on_char_def)
  then show ?case by simp
qed simp

lemma read_name_end:
  assumes "ahead src s xs" "delimited xs" "suffix = None \<or> suffix = Some (ch CHR ''#'')"
  shows "yields src (read_name_loop E suffix (Suc n) has_ns ns name) s (\<lambda>r. r = (has_ns, ns, name)) xs"
  unfolding read_name_loop.simps
  using delimited_not_name [OF assms(2)] assms
  by (intro yields_peek [OF assms(1)]) (auto intro: yields_ret)

definition ns_text :: "'x reader_env \<Rightarrow> pystr option \<Rightarrow> bool" where
  "ns_text E ns = (case ns of None \<Rightarrow> True | Some m \<Rightarrow> name_text E m)"

lemma read_namespaced_run:
  fixes s :: "'x rstate"
  assumes "ahead src s (named_repr ns name @ xs)" "delimited xs" "ns_text E ns" "name_text E name"
    and "suffix = None \<or> suffix = Some (ch CHR ''#'')" "length (named_repr ns name) < n"
  shows "yields src (read_namespaced E n suffix) s (\<lambda>r. r = (ns, name)) xs"
proof -
  have no_slash: "ch CHR ''/'' \<notin> set w" if "name_text E w" for w
    using that by (auto simp: name_text_def name_part_def)
  have body: "yields src (read_name_loop E suffix k has_ns m []) t (\<lambda>r. r = (has_ns, m, name)) xs"
    if ahead: "ahead src t (name @ xs)" and len: "length name < k" for t k has_ns m
  proof -
    obtain j where k: "k = length name + Suc j" using len by (metis add_Suc_right less_imp_Suc_add)
    show ?thesis
      unfolding k
      by (rule read_name_prefix [OF ahead])
        (use assms(4) read_name_end [OF _ assms(2,5)] in \<open>auto simp: name_text_def\<close>)
  qed
  show ?thesis
  proof (cases ns)
    case None
    have "yields src (read_name_loop E suffix n False [] []) s (\<lambda>r. r = (False, [], name)) xs"
      by (rule body) (use assms None in \<open>auto simp: named_repr_def\<close>)
    then show ?thesis
      unfolding read_namespaced_def
      by (rule yields_rdo) (use None no_slash [OF assms(4)] in \<open>auto intro: yields_ret\<close>)
  next
    case (Some m)
    then have m: "name_text E m" using assms(3) by (simp add: ns_text_def)
    obtain j where k: "n = length m + Suc j" "length name < j"
    proof
      show "n = length m + Suc (n - length m - 1)" "length name < n - length m - 1"
        using assms(6) Some by (auto simp: named_repr_def lit_def)
    qed
    have "yields src (read_name_loop E suffix n False [] []) s (\<lambda>r. r = (True, m, name)) xs"
      unfolding k(1)
    proof (rule read_name_prefix)
      show "ahead src s (m @ ch CHR ''/'' # name @ xs)"
        using assms(1) Some by (simp add: named_repr_def lit_def ch_def)
      show "\<forall>c \<in> set m. name_part E c" using m by (simp add: name_text_def)
      show "hd m \<noteq> 39" using m by (simp add: name_text_def)
      fix t :: "'x rstate"
      assume t: "ahead src t (ch CHR ''/'' # name @ xs)"
      have "yields src (rdo next_char (\<lambda>_. read_name_loop E suffix j True m [])) t (\<lambda>r. r = (True, m, name)) xs"
        by (rule yields_next [OF t]) (use body k in auto)
      then show "yields src (read_name_loop E suffix (Suc j) False [] ([] @ m)) t (\<lambda>r. r = (True, m, name)) xs"
        unfolding read_name_loop.simps using m no_slash [OF m]
        by (intro yields_peek [OF t]) (auto simp: name_text_def)
    qed simp
    then show ?thesis
      unfolding read_namespaced_def
      by (rule yields_rdo) (use Some m in \<open>auto simp: name_text_def intro: yields_ret\<close>)
  qed
qed

section \<open>Keywords and symbols\<close>

definition kw_text :: "'x reader_env \<Rightarrow> pystr option \<Rightarrow> pystr \<Rightarrow> bool" where
  "kw_text E ns n \<longleftrightarrow> ns_text E ns \<and> name_text E n \<and> hd (named_repr ns n) \<noteq> ch CHR '':''"

lemma named_repr_nonempty: "name_text E n \<Longrightarrow> named_repr ns n \<noteq> []"
  by (auto simp: named_repr_def name_text_def lit_def split: option.split)

lemma read_kw_run:
  fixes s :: "'x rstate"
  assumes "ahead src s (atom_repr ps (FKeyword ns name) @ xs)" "delimited xs" "kw_text E ns name"
    and "length (atom_repr ps (FKeyword ns name)) \<le> n"
  shows "yields src (read_kw E n) s (\<lambda>v. v = FKeyword ns name) xs"
proof -
  have a: "ahead src s (ch CHR '':'' # named_repr ns name @ xs)"
    using assms(1) by (simp add: lit_def ch_def)
  obtain c w where w: "named_repr ns name = c # w" "c \<noteq> ch CHR '':''"
    using assms(3) named_repr_nonempty unfolding kw_text_def by (metis list.collapse)
  have len: "length (named_repr ns name) < n" using assms(4) by (simp add: lit_def)
  show ?thesis
    unfolding read_kw_def
  proof (rule yields_advance [OF a])
    fix t :: "'x rstate"
    assume t: "ahead src t (named_repr ns name @ xs)"
    have "yields src (rdo (read_namespaced E n None) (\<lambda>(ns, name). ret (FKeyword ns name))) t
        (\<lambda>v. v = FKeyword ns name) xs"
      by (rule yields_rdo, rule read_namespaced_run [OF t assms(2)])
        (use assms(3) len in \<open>auto simp: kw_text_def intro: yields_ret\<close>)
    then show "yields src (if Some (ch CHR '':'') \<noteq> Some (ch CHR '':'') then assertion_error
       else rdo peek (\<lambda>c.
         if c = Some (ch CHR '':'') then
           if edn E then syntax_error
           else rdo advance (\<lambda>_. rdo (read_namespaced E n None) (\<lambda>(ns, name).
             case ns of
               None \<Rightarrow> ret (FKeyword (Some (current_ns E)) name)
             | Some alias \<Rightarrow>
                 (case ns_aliases E alias of
                    None \<Rightarrow> syntax_error
                  | Some full \<Rightarrow> ret (FKeyword (Some full) name))))
         else rdo (read_namespaced E n None) (\<lambda>(ns, name). ret (FKeyword ns name)))) t
        (\<lambda>v. v = FKeyword ns name) xs"
      by (intro yields_else yields_peek [OF t]) (use w in auto)
  qed
qed

text \<open>
  The symbols that read back: names of name characters that do not look like a number, a literal
  or a gensym, with a namespace of non-empty segments.
\<close>

definition symbol_start :: "'x reader_env \<Rightarrow> pystr \<Rightarrow> bool" where
  "symbol_start E w \<longleftrightarrow>
     ns_name_char E (hd w) \<and> \<not> whitespace E (hd w) \<and> \<not> is_digit (hd w) \<and>
     hd w \<noteq> ch CHR '':'' \<and> hd w \<noteq> BACKSLASH \<and>
     (hd w = ch CHR ''+'' \<longrightarrow> \<not> on_char (isdigit E) (first (tl w))) \<and>
     (hd w = ch CHR ''-'' \<longrightarrow>
        \<not> on_char (isdigit E) (first (tl w)) \<and> first (tl w) \<noteq> Some (ch CHR ''-''))"

definition symbol_text :: "'x reader_env \<Rightarrow> pystr option \<Rightarrow> pystr \<Rightarrow> bool" where
  "symbol_text E ns n \<longleftrightarrow>
     ns_text E ns \<and> name_text E n \<and> \<not> ends_with (ch CHR ''#'') n \<and>
     (case ns of
        None \<Rightarrow> n \<notin> {lit ''nil'', lit ''true'', lit ''false''}
      | Some m \<Rightarrow> [] \<notin> set (split_on (ch CHR ''.'') m)) \<and>
     symbol_start E (named_repr ns n)"

lemma not_quoted: "quotes s = [] \<Longrightarrow> \<not> is_syntax_quoted s"
  by (simp add: is_syntax_quoted_def)

lemma read_sym_run:
  fixes s :: "'x rstate"
  assumes "ahead src s (named_repr ns name @ xs)" "delimited xs" "quotes s = []"
    and "ns_text E ns" "name_text E name" "\<not> ends_with (ch CHR ''#'') name"
    and "\<forall>m. ns = Some m \<longrightarrow> [] \<notin> set (split_on (ch CHR ''.'') m)"
    and "length (named_repr ns name) < n"
    and "w = (if ns = None \<and> name = lit ''nil'' then FNil
              else if ns = None \<and> name = lit ''true'' then FBool True
              else if ns = None \<and> name = lit ''false'' then FBool False
              else FSymbol ns name None)"
  shows "yields src (read_sym E n b) s (\<lambda>v. strip_meta v = w) xs"
  unfolding read_sym_def
proof (rule yields_with_loc [OF assms(1)])
  fix t :: "'x rstate"
  assume t: "ahead src t (named_repr ns name @ xs)" "same_ctx s t"
  show "yields src (rdo (read_namespaced E n (Some (ch CHR ''#''))) (\<lambda>(ns, name).
       symbol_of E b ns name)) t (\<lambda>v. strip_meta v = w) xs"
  proof (rule yields_rdo, rule read_namespaced_run [OF t(1) assms(2,4,5)])
    fix r and u :: "'x rstate"
    assume r: "r = (ns, name)" and u: "ahead src u xs" "same_ctx t u"
    have q: "\<not> is_syntax_quoted u"
      using same_ctx_quotes [OF t(2)] same_ctx_quotes [OF u(2)] assms(3) by (simp add: not_quoted)
    have "ns \<noteq> None \<and> [] \<in> set (split_on (ch CHR ''.'') (the ns)) \<longleftrightarrow> False" using assms(7) by auto
    then have "symbol_of E b ns name u = ret w u"
      unfolding symbol_of_def assms(9) using assms(6) q by (simp only: if_False if_cancel simp_thms) presburger
    then show "yields src ((\<lambda>(ns, name). symbol_of E b ns name) r) u (\<lambda>v. strip_meta v = w) xs"
      using r u(1) unfolding assms(9) by (auto simp: yields_def ret_def)
  qed (use assms(8) in auto)
qed (auto simp: assms(9))

lemma number_chars_symbol:
  fixes s :: "'x rstate"
  assumes "ahead src s (c # w)" "c = ch CHR ''+'' \<or> c = ch CHR ''-''" "0 < n"
    and "\<not> on_char (isdigit E) (first w)" "c = ch CHR ''-'' \<longrightarrow> first w \<noteq> Some (ch CHR ''-'')"
  shows "yields src (number_chars E n []) s (\<lambda>v. v = None) (c # w)"
proof -
  obtain k where n: "n = Suc k" using assms(3) by (cases n) auto
  show ?thesis
    unfolding n number_chars.simps
    apply (rule yields_peek [OF assms(1)])
    apply (cases "c = ch CHR ''-''")
     apply simp
     apply (rule yields_next_pushback [OF assms(1), where f = "\<lambda>_. rdo (pushback_times 0) (\<lambda>_. ret None)"])
      apply (simp add: yields_def rdo_def ret_def)
    using assms(4,5) apply simp
    using assms(2) apply simp
    apply (rule yields_next_pushback [OF assms(1), where f = "\<lambda>_. ret None"])
     apply (simp add: yields_def ret_def)
    using assms(4) apply simp
    done
qed

section \<open>Strings\<close>

text \<open>
  The strings that read back: no control characters but tab, line feed and carriage return, none
  between 127 and 255, and no hexadecimal digit after a character above that.
\<close>

fun str_text :: "pystr \<Rightarrow> bool" where
  "str_text [] \<longleftrightarrow> True"
| "str_text (c # s) \<longleftrightarrow>
     (32 \<le> c \<and> c < 127 \<or> c = 9 \<or> c = 10 \<or> c = 13 \<or>
      256 \<le> c \<and> c < 0x110000 \<and> (s = [] \<or> \<not> is_hex (hd s))) \<and> str_text s"

lemma lower_hex: "d < 16 \<Longrightarrow> is_hex (lower_hex d)" "d < 16 \<Longrightarrow> digit_of (lower_hex d) = d"
  by (auto simp: lower_hex_def is_hex_def is_digit_def digit_of_def)

lemma hex_repr: "length (hex_repr k n) = k" "\<forall>c \<in> set (hex_repr k n). is_hex c"
  "n < 16 ^ k \<Longrightarrow> hex_value (hex_repr k n) = n"
proof -
  show "length (hex_repr k n) = k" by (induction k arbitrary: n) simp_all
  show "\<forall>c \<in> set (hex_repr k n). is_hex c" by (induction k arbitrary: n) (auto simp: lower_hex)
  show "hex_value (hex_repr k n) = n" if "n < 16 ^ k"
    using that
  proof (induction k arbitrary: n)
    case (Suc k)
    have "hex_value (hex_repr k (n div 16)) = n div 16" using Suc.prems by (intro Suc.IH) auto
    then show ?case by (simp add: hex_value_def lower_hex)
  qed (simp add: hex_value_def)
qed

lemma hex_run_run:
  fixes s :: "'x rstate"
  assumes "ahead src s (h # hs @ ys)" "\<forall>c \<in> set (h # hs). is_hex c" "\<not> on_char is_hex (first ys)"
    and "length hs + 1 < n"
  shows "yields src (hex_run n acc) s (\<lambda>r. r = acc @ h # hs) (List.last (h # hs) # ys)"
  using assms
proof (induction hs arbitrary: h s n acc)
  case Nil
  obtain k where n: "n = Suc (Suc k)" using Nil.prems(4) by (metis One_nat_def add_0 less_imp_Suc_add list.size(3) plus_1_eq_Suc)
  have "yields src (rdo next_char (\<lambda>_. hex_run (Suc k) (acc @ [h]))) s (\<lambda>r. r = acc @ [h]) (h # ys)"
  proof (rule yields_next_pushback [where f = "\<lambda>_. ret (acc @ [h])"])
    show "ahead src s (h # ys)" using Nil.prems(1) by simp
    show "hex_run (Suc k) (acc @ [h]) t = rdo pushback (\<lambda>_. ret (acc @ [h])) t"
      if "ahead src t ys" for t :: "'x rstate"
      using ahead_peek [OF that] Nil.prems(3) by (simp add: hex_run.simps rdo_def [of peek])
  qed (auto intro: yields_ret)
  then show ?case
    unfolding n hex_run.simps(2) [of "Suc k"] using Nil.prems(2)
    by (intro yields_peek [OF Nil.prems(1)]) (simp add: on_char_def)
next
  case (Cons g hs)
  obtain k where n: "n = Suc k" "length hs + 1 < k" using Cons.prems(4) by (cases n) auto
  have "yields src (rdo next_char (\<lambda>_. hex_run k (acc @ [h]))) s (\<lambda>r. r = (acc @ [h]) @ g # hs)
      (List.last (g # hs) # ys)"
    by (rule yields_next [of _ _ _ "g # hs @ ys"], use Cons.prems(1) in simp, rule Cons.IH)
      (use Cons.prems n in auto)
  then show ?case
    unfolding n(1) hex_run.simps using Cons.prems(2)
    by (intro yields_peek [OF Cons.prems(1)]) (simp add: on_char_def)
qed

lemma read_unicode_escape_seq_run:
  fixes s :: "'x rstate"
  assumes "ahead src s (u # hex_repr k c @ ys)" "k = 4 \<or> k = 8" "c < 16 ^ k" "c < 0x110000"
    and "\<not> on_char is_hex (first ys)" "k < n"
  shows "\<exists>q. yields src (read_unicode_escape_seq n) s (\<lambda>r. r = c) (q # ys)"
proof -
  obtain h hs where h: "hex_repr k c = h # hs" using assms(2) by (cases "hex_repr k c") (auto dest: arg_cong [of _ _ length] simp: hex_repr)
  have "yields src (read_unicode_escape_seq n) s (\<lambda>r. r = c) (List.last (h # hs) # ys)"
    unfolding read_unicode_escape_seq_def
  proof (rule yields_advance [OF assms(1)])
    fix t :: "'x rstate"
    assume t: "ahead src t (hex_repr k c @ ys)"
    have len: "length (h # hs) = k" using h hex_repr(1) by metis
    have "yields src (hex_run n []) t (\<lambda>r. r = [] @ h # hs) (List.last (h # hs) # ys)"
    proof (rule hex_run_run)
      show "ahead src t (h # hs @ ys)" using t h by simp
      show "\<forall>c \<in> set (h # hs). is_hex c" using h hex_repr(2) by metis
    qed (use assms len in auto)
    then show "yields src (rdo (hex_run n []) (\<lambda>hex. if length hex \<notin> {4, 8} then syntax_error
        else lift_res (py_chr (hex_value hex)))) t (\<lambda>r. r = c) (List.last (h # hs) # ys)"
    proof (rule yields_rdo)
      fix hex and v :: "'x rstate"
      assume hex: "hex = [] @ h # hs" and v: "ahead src v (List.last (h # hs) # ys)"
      have "hex_value hex = c" using hex h hex_repr(3) [OF assms(3)] by simp
      then show "yields src (if length hex \<notin> {4, 8} then syntax_error
        else lift_res (py_chr (hex_value hex))) v (\<lambda>r. r = c) (List.last (h # hs) # ys)"
        using len hex assms(2,4) v by (intro yields_else) (auto simp: py_chr_def lift_res_def intro: yields_ret)
    qed
  qed
  then show ?thesis by blast
qed

definition escaped :: "nat \<Rightarrow> pystr" where
  "escaped c = concat (map escape_quote (unicode_escape c))"

lemma str_repr_escaped: "str_repr s = QUOTE # concat (map escaped s) @ [QUOTE]"
proof -
  have "concat (map escape_quote (concat (map unicode_escape s))) = concat (map escaped s)"
    by (induction s) (simp_all add: escaped_def)
  then show ?thesis by (simp add: str_repr_def)
qed

lemma escape_quote_hex: "\<forall>c \<in> set w. is_hex c \<Longrightarrow> concat (map escape_quote w) = w"
  by (induction w) (auto simp: escape_quote_def QUOTE_def is_hex_def is_digit_def)

lemma escaped_cases:
  assumes "str_text (c # s)"
  shows "(escaped c = [c] \<and> c \<noteq> QUOTE \<and> c \<noteq> BACKSLASH) \<or>
    (\<exists>d. escaped c = [BACKSLASH, d] \<and> str_escape (Some d) = Some c) \<or>
    (\<exists>u k. escaped c = BACKSLASH # u # hex_repr k c \<and> is_u (Some u) \<and> str_escape (Some u) = None \<and>
      k \<in> {4, 8} \<and> c < 16 ^ k \<and> 256 \<le> c \<and> c < 0x110000)"
proof -
  consider "32 \<le> c" "c < 127" | "c = 9 \<or> c = 10 \<or> c = 13" | "256 \<le> c" "c < 0x110000"
    using assms by auto
  then show ?thesis
  proof cases
    case 1
    then show ?thesis
      by (cases "c = BACKSLASH"; cases "c = QUOTE")
        (simp_all add: escaped_def unicode_escape_def escape_quote_def str_escape_def str_escapes_def
          QUOTE_def BACKSLASH_def)
  next
    case 2
    then show ?thesis
      by (auto simp: escaped_def unicode_escape_def escape_quote_def str_escape_def str_escapes_def
          QUOTE_def BACKSLASH_def lit_def ch_def)
  next
    case 3
    define u k where "u = (if c < 0x10000 then ch CHR ''u'' else ch CHR ''U'')"
      and "k = (if c < 0x10000 then 4 else 8 :: nat)"
    have "escaped c = BACKSLASH # u # hex_repr k c"
      using 3 escape_quote_hex [OF hex_repr(2), of 4 c] escape_quote_hex [OF hex_repr(2), of 8 c]
      by (simp add: escaped_def unicode_escape_def u_def k_def lit_def ch_def BACKSLASH_def)
        (simp add: escape_quote_def QUOTE_def)
    moreover have "is_u (Some u)" "str_escape (Some u) = None"
      by (simp_all add: u_def is_u_def str_escape_def str_escapes_def QUOTE_def BACKSLASH_def ch_def)
    moreover have "k \<in> {4, 8} \<and> c < 16 ^ k" using 3 by (simp add: k_def)
    ultimately show ?thesis using 3 by blast
  qed
qed

lemma after_escape:
  assumes "str_text (c # s)" "256 \<le> c"
  shows "\<not> on_char is_hex (first (concat (map escaped s) @ QUOTE # xs))"
proof (cases s)
  case Nil
  then show ?thesis by (simp add: on_char_def QUOTE_def is_hex_def is_digit_def)
next
  case (Cons d s')
  then have "\<not> is_hex d" "str_text (d # s')" using assms by auto
  have "\<not> is_hex BACKSLASH" by (simp add: is_hex_def is_digit_def BACKSLASH_def)
  then have "\<exists>x w. escaped d = x # w \<and> \<not> is_hex x"
    using escaped_cases [OF \<open>str_text (d # s')\<close>] \<open>\<not> is_hex d\<close> by blast
  then show ?thesis using Cons by (auto simp: on_char_def)
qed

lemma quote_not_backslash: "QUOTE \<noteq> BACKSLASH" "BACKSLASH \<noteq> QUOTE"
  by (simp_all add: QUOTE_def BACKSLASH_def)

lemma str_end:
  fixes s :: "'x rstate"
  assumes "ahead src s (q # QUOTE # xs)"
  shows "yields src (read_str_loop (Suc k) any acc) s (\<lambda>r. r = acc) xs"
  unfolding read_str_loop.simps
  by (rule yields_next [OF assms], rule yields_else, simp, rule yields_else,
      simp add: quote_not_backslash, rule yields_then, simp, rule yields_next, assumption, rule yields_ret)
    simp_all

lemma str_plain:
  fixes s :: "'x rstate"
  assumes "ahead src s (q # c # ys)" "c \<noteq> QUOTE" "c \<noteq> BACKSLASH"
    and "\<And>t :: 'x rstate. ahead src t (c # ys) \<Longrightarrow> yields src (read_str_loop k any (acc @ [c])) t P zs"
  shows "yields src (read_str_loop (Suc k) any acc) s P zs"
  unfolding read_str_loop.simps
  by (rule yields_next [OF assms(1)], rule yields_else, simp, rule yields_else, simp add: assms(3),
      rule yields_else, simp add: assms(2)) (simp add: assms(4))

lemma str_escaped:
  fixes s :: "'x rstate"
  assumes "ahead src s (q # BACKSLASH # d # ys)" "str_escape (Some d) = Some e"
    and "\<And>t :: 'x rstate. ahead src t (d # ys) \<Longrightarrow> yields src (read_str_loop k any (acc @ [e])) t P zs"
  shows "yields src (read_str_loop (Suc k) any acc) s P zs"
  unfolding read_str_loop.simps
  by (rule yields_next [OF assms(1)], rule yields_else, simp, rule yields_then, simp,
      rule yields_next, assumption) (simp add: assms(2,3))

lemma str_unicode:
  fixes s :: "'x rstate"
  assumes "ahead src s (q # BACKSLASH # u # hex_repr j c @ ys)" "is_u (Some u)" "str_escape (Some u) = None"
    and "j = 4 \<or> j = 8" "c < 16 ^ j" "c < 0x110000" "\<not> on_char is_hex (first ys)" "j < k"
    and "\<And>(t :: 'x rstate) q. ahead src t (q # ys) \<Longrightarrow> yields src (read_str_loop k any (acc @ [c])) t P zs"
  shows "yields src (read_str_loop (Suc k) any acc) s P zs"
proof -
  have "yields src (rdo (read_unicode_escape_seq k) (\<lambda>u. read_str_loop k any (acc @ [u]))) t P zs"
    if t: "ahead src t (u # hex_repr j c @ ys)" for t :: "'x rstate"
  proof -
    obtain q where q: "yields src (read_unicode_escape_seq k) t (\<lambda>r. r = c) (q # ys)"
      using read_unicode_escape_seq_run [OF t assms(4-8)] by blast
    show ?thesis by (rule yields_rdo [OF q]) (use assms(9) in blast)
  qed
  then show ?thesis
    unfolding read_str_loop.simps
    by (intro yields_next [OF assms(1)]) (rule yields_else, simp, rule yields_then, simp,
      rule yields_next, assumption, simp add: assms(2,3))
qed

lemma read_str_loop_run:
  fixes s :: "'x rstate"
  assumes "ahead src s (q # concat (map escaped w) @ QUOTE # xs)" "str_text w" "length w + 8 < n"
  shows "yields src (read_str_loop n False acc) s (\<lambda>r. r = acc @ w) xs"
  using assms
proof (induction w arbitrary: s n acc q)
  case Nil
  then obtain k where n: "n = Suc k" by (cases n) auto
  show ?case using Nil.prems(1) str_end [of src s q xs k False acc] by (simp add: n)
next
  case (Cons c w)
  obtain k where n: "n = Suc k" "length w + 8 < k" using Cons.prems(3) by (cases n) auto
  let ?rest = "concat (map escaped w) @ QUOTE # xs"
  have IH: "yields src (read_str_loop k False (acc @ [c])) t (\<lambda>r. r = acc @ c # w) xs"
    if "ahead src t (q' # ?rest)" for t :: "'x rstate" and q'
    using Cons.IH [OF that, of k "acc @ [c]"] Cons.prems(2) n(2) by simp
  have start: "ahead src s (q # escaped c @ ?rest)" using Cons.prems(1) by simp
  show ?case
    using escaped_cases [OF Cons.prems(2)]
  proof (elim disjE exE conjE)
    assume "escaped c = [c]" "c \<noteq> QUOTE" "c \<noteq> BACKSLASH"
    then show ?thesis unfolding n(1) using start by (intro str_plain [where c = c] IH) simp_all
  next
    fix d
    assume e: "escaped c = [BACKSLASH, d]" "str_escape (Some d) = Some c"
    show ?thesis
      unfolding n(1)
    proof (rule str_escaped [where d = d and e = c and q = q and ys = ?rest])
      fix t :: "'x rstate"
      assume "ahead src t (d # ?rest)"
      then show "yields src (read_str_loop k False (acc @ [c])) t (\<lambda>r. r = acc @ c # w) xs"
        by (rule IH)
    qed (use e start in simp_all)
  next
    fix u j
    assume e: "escaped c = BACKSLASH # u # hex_repr j c" "is_u (Some u)" "str_escape (Some u) = None"
      "j \<in> {4, 8}" "c < 16 ^ j" "256 \<le> c" "c < 0x110000"
    show ?thesis
      unfolding n(1)
      by (rule str_unicode [where u = u and j = j and c = c and ys = ?rest and q = q])
        (use e n(2) start after_escape [OF Cons.prems(2)] IH in auto)
  qed
qed

lemma read_str_run:
  fixes s :: "'x rstate"
  assumes "ahead src s (str_repr w @ xs)" "str_text w" "length w + 8 < n"
  shows "yields src (read_str n) s (\<lambda>v. v = FStr w) xs"
  unfolding read_str_def
  by (rule yields_rdo, rule read_str_loop_run [where q = QUOTE and w = w])
    (use assms in \<open>auto simp: str_repr_escaped intro: yields_ret\<close>)

section \<open>Characters\<close>

lemma character_chars_run:
  fixes s :: "'x rstate"
  assumes "ahead src s (w @ xs)" "\<forall>c \<in> set w. word_char E c" "delimited xs" "length w < n"
  shows "yields src (character_chars E n False acc) s (\<lambda>r. r = acc @ w) xs"
  using assms
proof (induction w arbitrary: s n acc)
  case Nil
  then obtain k where n: "n = Suc k" by (cases n) auto
  show ?case
    unfolding n character_chars.simps
    using Nil.prems delimited_not_name(5) [OF Nil.prems(3)]
    by (intro yields_peek [OF Nil.prems(1)]) (auto intro: yields_ret)
next
  case (Cons c w)
  obtain k where n: "n = Suc k" "length w < k" using Cons.prems(4) by (cases n) auto
  have "yields src (rdo next_char (\<lambda>_. character_chars E k False (acc @ [c]))) s (\<lambda>r. r = (acc @ [c]) @ w) xs"
    by (rule yields_next [of _ _ c "w @ xs"], use Cons.prems(1) in simp, rule Cons.IH)
      (use Cons.prems n in auto)
  then show ?case
    unfolding n(1) character_chars.simps using Cons.prems(2)
    by (intro yields_peek [OF Cons.prems(1)]) (simp add: on_char_def)
qed

lemma read_character_chars:
  fixes s :: "'x rstate"
  assumes "ahead src s (BACKSLASH # c # w @ xs)" "\<forall>c \<in> set w. word_char E c" "delimited xs"
    and "length w + 1 < n" "\<And>t. character_value E (c # w) t = Inr (v, t)"
  shows "yields src (read_character E n) s (\<lambda>r. r = v) xs"
proof -
  obtain k where n: "n = Suc k" using assms(4) by (cases n) auto
  have chars: "yields src (character_chars E n True []) t (\<lambda>r. r = c # w) xs"
    if t: "ahead src t (c # w @ xs)" for t :: "'x rstate"
  proof -
    have "yields src (character_chars E k False [c]) u (\<lambda>r. r = [c] @ w) xs"
      if u: "ahead src u (w @ xs)" for u :: "'x rstate"
      by (rule character_chars_run [OF u assms(2,3)]) (use assms(4) n in simp)
    then show ?thesis
      unfolding n character_chars.simps
      by (intro yields_peek [OF t] yields_else) (simp, intro yields_next [OF t], simp)
  qed
  show ?thesis
    unfolding read_character_def
  proof (rule yields_advance [OF assms(1)], rule yields_else, simp, rule yields_rdo, rule chars, assumption)
    fix r and t :: "'x rstate"
    assume "r = c # w" "ahead src t xs"
    then show "yields src (character_value E r) t (\<lambda>r. r = v) xs"
      using assms(5) by (simp add: yields_def)
  qed
qed

lemma hex_digit: "d < 16 \<Longrightarrow> is_hex (hex_digit d)" "d < 16 \<Longrightarrow> digit_of (hex_digit d) = d"
  by (auto simp: hex_digit_def is_hex_def is_digit_def digit_of_def)

lemma hex_not_space: "is_hex c \<Longrightarrow> word_char E c \<and> \<not> py_space E c \<and> c \<noteq> 95"
  by (auto simp: is_hex_def is_digit_def word_char_def is_letter_def py_space_def)

lemma py_hex_digits:
  "\<forall>c \<in> set w. is_hex c \<Longrightarrow> py_hex E v w = Some (foldl (\<lambda>n c. n * 16 + digit_of c) v w)"
  by (induction w arbitrary: v) (auto simp: hex_digit_value_def hex_not_space mult.commute)

lemma py_int_hex_digits:
  assumes "\<forall>c \<in> set w. is_hex c" "w \<noteq> []"
  shows "py_int_hex E w = Some (hex_value w)"
proof -
  have "dropWhile (py_space E) (rev w) = rev w"
    using assms hex_not_space last_in_set [of w] by (fastforce simp: dropWhile_eq_self_iff hd_rev)
  then show ?thesis using assms by (simp add: py_int_hex_def py_hex_digits hex_value_def)
qed

lemma hex_value_four:
  assumes "a < 16" "b < 16" "c < 16" "d < 16"
  shows "hex_value (map hex_digit [a, b, c, d]) = ((a * 16 + b) * 16 + c) * 16 + d"
  using assms by (simp add: hex_value_def hex_digit)

lemma hex4: "\<forall>d \<in> set (hex4 c). is_hex d" "c < 0x10000 \<Longrightarrow> hex_value (hex4 c) = c"
proof -
  show "\<forall>d \<in> set (hex4 c). is_hex d" by (simp add: hex4_def hex_digit)
  show "hex_value (hex4 c) = c" if "c < 0x10000"
  proof -
    define x y z where "x = c div 16" and "y = x div 16" and "z = y div 16"
    have div: "c div 256 = y" "c div 4096 = z"
      by (simp_all add: x_def y_def z_def div_mult2_eq [symmetric])
    have "z < 16" using that by (simp add: div [symmetric])
    have "hex_value (hex4 c) = ((z mod 16 * 16 + y mod 16) * 16 + x mod 16) * 16 + c mod 16"
      unfolding hex4_def div x_def [symmetric] by (rule hex_value_four) simp_all
    also have "\<dots> = c" using \<open>z < 16\<close> by (simp add: x_def y_def z_def)
    finally show ?thesis .
  qed
qed

lemma character_ok: "c < 0x10000 \<Longrightarrow> character (StringArg [c]) = Inr c"
  by (simp add: character_def validate_code_unit_def)

lemma char_form_ok: "c < 0x10000 \<Longrightarrow> char_form [c] t = Inr (FChar c, t)"
  by (simp add: char_form_def character_ok lift_res_def rdo_def ret_def)

lemma special_not_char: "map_of special_chars [c] = None"
  by (simp add: special_chars_def lit_def)

lemma special_chars_letters: "map_of special_chars w = Some c \<Longrightarrow> \<forall>d \<in> set w. 97 \<le> d \<and> d \<le> 122"
  by (auto simp: special_chars_def lit_def split: if_splits)

lemma hex4_not_special: "map_of special_chars (ch CHR ''u'' # hex4 c) = None"
  by (simp add: special_chars_def lit_def ch_def)

lemma unicode_group_hex4: "unicode_group E (ch CHR ''u'' # hex4 c) = Some (hex4 c)"
proof -
  obtain a w where w: "hex4 c = a # w" by (simp add: hex4_def)
  then have "\<forall>d \<in> set (a # w). word_char E d" using hex4(1) [of c] hex_not_space by metis
  then show ?thesis using w by (simp add: unicode_group_def)
qed

lemma read_character_run:
  fixes s :: "'x rstate"
  assumes "ahead src s (char_lrepr c False True @ xs)" "delimited xs" "c < 0x10000" "9 < n"
  shows "yields src (read_character E n) s (\<lambda>r. r = FChar c) xs"
proof (cases "0xD800 \<le> c \<and> c \<le> 0xDFFF")
  case True
  show ?thesis
  proof (rule read_character_chars)
    show "ahead src s (BACKSLASH # ch CHR ''u'' # hex4 c @ xs)"
      using assms(1) True by (simp add: char_lrepr_def BACKSLASH_def ch_def)
    show "\<forall>d \<in> set (hex4 c). word_char E d" using hex4(1) hex_not_space by metis
    show "length (hex4 c) + 1 < n" using assms(4) by (simp add: hex4_def)
    have "hex4 c \<noteq> []" by (simp add: hex4_def)
    then show "character_value E (ch CHR ''u'' # hex4 c) t = Inr (FChar c, t)" for t :: "'x rstate"
      using py_int_hex_digits [OF hex4(1), of c E] hex4(2) [OF assms(3)] assms(3)
      by (simp add: character_value_def hex4_not_special unicode_group_hex4 py_chr_def character_ok ret_def)
  qed (rule assms(2))
next
  case False
  have letter: "word_char E d" if "97 \<le> d" "d \<le> 122" for d
    using that by (auto simp: word_char_def is_letter_def)
  show ?thesis
  proof (cases "char_name c = [c]")
    case True
    show ?thesis
    proof (rule read_character_chars [where w = "[]"])
      show "ahead src s (BACKSLASH # c # [] @ xs)"
        using assms(1) True False by (auto simp: char_lrepr_def BACKSLASH_def)
      show "character_value E [c] t = Inr (FChar c, t)" for t :: "'x rstate"
        using assms(3)
        by (simp add: character_value_def special_not_char unicode_group_def char_form_ok)
    qed (use assms in auto)
  next
    case named: False
    then have m: "map_of special_chars (char_name c) = Some c"
      by (auto simp: char_name_def special_chars_def lit_def split: if_splits)
    then have l: "\<forall>d \<in> set (char_name c). 97 \<le> d \<and> d \<le> 122" by (rule special_chars_letters)
    obtain a w where w: "char_name c = a # w" "length w < 9"
      using m by (auto simp: special_chars_def lit_def split: if_splits)
    show ?thesis
    proof (rule read_character_chars)
      show "ahead src s (BACKSLASH # a # w @ xs)"
        using assms(1) False w by (auto simp: char_lrepr_def BACKSLASH_def)
      show "\<forall>d \<in> set w. word_char E d" using l w letter by auto
      show "character_value E (a # w) t = Inr (FChar c, t)" for t :: "'x rstate"
        using m w assms(3) by (simp add: character_value_def char_form_ok)
    qed (use assms w in auto)
  qed
qed

section \<open>Numbers\<close>

lemma nat_digits_digits: "\<forall>c \<in> set (nat_digits n). is_digit c" "nat_digits n \<noteq> []"
  by (induction n rule: nat_digits.induct; subst nat_digits.simps; auto simp: is_digit_def simp del: nat_digits.simps)+

lemma nat_digits_value: "decimal_int (nat_digits n) = int n"
proof (induction n rule: nat_digits.induct)
  case (1 n)
  show ?case
  proof (cases "n < 10")
    case True
    then show ?thesis by (simp add: decimal_int_def digit_of_def is_digit_def)
  next
    case False
    have "decimal_int (nat_digits n) = decimal_int (nat_digits (n div 10)) * 10 + int (n mod 10)"
      using False by (subst nat_digits.simps) (simp add: decimal_int_def digit_of_def is_digit_def del: nat_digits.simps)
    also have "\<dots> = int (n div 10) * 10 + int (n mod 10)" using 1 False by simp
    also have "\<dots> = int (n div 10 * 10 + n mod 10)" by (simp only: of_nat_add of_nat_mult of_nat_numeral)
    also have "\<dots> = int n" by (simp only: div_mult_mod_eq)
    finally show ?thesis .
  qed
qed

lemma nat_digits_hd: "0 < n \<Longrightarrow> hd (nat_digits n) \<noteq> 48"
proof (induction n rule: nat_digits.induct)
  case (1 n)
  show ?case
  proof (cases "n < 10")
    case False
    then have "hd (nat_digits n) = hd (nat_digits (n div 10))"
      using nat_digits_digits(2) by (subst nat_digits.simps) (simp del: nat_digits.simps)
    then show ?thesis using 1 False by simp
  qed (use 1 in simp)
qed

lemma nat_digits_plain: "plain_integer (nat_digits n)"
proof (cases "n = 0")
  case False
  then show ?thesis using nat_digits_hd nat_digits_digits by (simp add: plain_integer_def digits_def del: nat_digits.simps)
qed (simp add: plain_integer_def digits_def is_digit_def)

declare nat_digits.simps [simp del]

lemma decimal_int_append: "decimal_int (s @ [c]) = decimal_int s * 10 + int (digit_of c)"
  by (simp add: decimal_int_def)

lemma digit_not:
  assumes "is_digit c"
  shows "c \<noteq> ch CHR ''-''" "c \<noteq> ch CHR ''+''" "c \<noteq> ch CHR ''/''" "c \<noteq> ch CHR ''N''" "c \<noteq> ch CHR ''M''"
    "c \<noteq> ch CHR ''.''" "c \<notin> set (lit ''+-'')" "c \<notin> set (lit ''.'')" "c \<notin> set (lit ''/'')"
  using assms by (auto simp: is_digit_def ch_def lit_def)

text \<open>The characters of a printed number, read as one.\<close>

lemma number_chars_plain:
  fixes s :: "'x rstate"
  assumes "ahead src s (w @ xs)" "\<forall>c \<in> set w. is_digit c \<or> c = ch CHR ''/''" "delimited xs" "length w < n"
  shows "yields src (number_chars E n acc) s (\<lambda>r. r = Some (acc @ w)) xs"
  using assms
proof (induction w arbitrary: s n acc)
  case Nil
  then obtain k where n: "n = Suc k" by (cases n) auto
  have "\<not> on_char (\<lambda>x. is_digit x \<or> is_letter x \<or> x \<in> set (lit ''/.+'')) (first xs)"
    "first xs \<noteq> Some (ch CHR ''-'')" "first xs \<noteq> Some (ch CHR ''+'')"
    using delimited_first [OF Nil.prems(3)]
    by (cases "first xs"; fastforce simp: on_char_def is_digit_def is_letter_def lit_def ch_def)+
  then show ?case
    unfolding n number_chars.simps using Nil.prems(1)
    by (intro yields_peek [of _ _ xs]) (simp_all add: yields_ret)
next
  case (Cons c w)
  obtain k where n: "n = Suc k" "length w < k" using Cons.prems(4) by (cases n) auto
  have c: "c \<noteq> ch CHR ''-''" "c \<noteq> ch CHR ''+''" "is_digit c \<or> c \<in> set (lit ''/.+'')"
    using Cons.prems(2) digit_not by (auto simp: lit_def ch_def)
  have "yields src (rdo next_char (\<lambda>_. number_chars E k (acc @ [c]))) s (\<lambda>r. r = Some ((acc @ [c]) @ w)) xs"
    by (rule yields_next [of _ _ c "w @ xs"], use Cons.prems(1) in simp, rule Cons.IH)
      (use Cons.prems n in auto)
  then show ?case
    unfolding n(1) number_chars.simps using c
    by (intro yields_peek [OF Cons.prems(1)] yields_else) (auto simp: on_char_def)
qed

lemma isdigit_digit: "is_digit c \<Longrightarrow> isdigit E c"
  by (auto simp: isdigit_def is_digit_def)

lemma number_chars_reads:
  fixes s :: "'x rstate"
  assumes "ahead src s (w @ xs)" "delimited xs" "length w < n"
    and "(\<forall>c \<in> set w. is_digit c \<or> c = ch CHR ''/'') \<or>
      (\<exists>d u. w = ch CHR ''-'' # d # u \<and> is_digit d \<and> (\<forall>c \<in> set u. is_digit c \<or> c = ch CHR ''/''))"
  shows "yields src (number_chars E n []) s (\<lambda>r. r = Some w) xs"
  using assms(4)
proof
  assume "\<forall>c \<in> set w. is_digit c \<or> c = ch CHR ''/''"
  then show ?thesis using number_chars_plain [OF assms(1) _ assms(2,3), of E "[]"] by simp
next
  assume "\<exists>d u. w = ch CHR ''-'' # d # u \<and> is_digit d \<and> (\<forall>c \<in> set u. is_digit c \<or> c = ch CHR ''/'')"
  then obtain d u where w: "w = ch CHR ''-'' # d # u" "is_digit d" "\<forall>c \<in> set u. is_digit c \<or> c = ch CHR ''/''"
    by blast
  obtain k where n: "n = Suc k" "length (d # u) < k" using assms(3) w by (cases n) auto
  have "yields src (rdo next_char (\<lambda>following.
           if \<not> on_char (isdigit E) following \<and> following \<noteq> Some (ch CHR ''-'') then
             rdo pushback (\<lambda>_. rdo (pushback_times (length [])) (\<lambda>_. ret None))
           else number_chars E k ([] @ [ch CHR ''-'']))) s (\<lambda>r. r = Some w) xs"
  proof (rule yields_next [of _ _ "ch CHR ''-''" "(d # u) @ xs"])
    fix t :: "'x rstate"
    assume t: "ahead src t ((d # u) @ xs)"
    have "yields src (number_chars E k [ch CHR ''-'']) t (\<lambda>r. r = Some ([ch CHR ''-''] @ d # u)) xs"
      by (rule number_chars_plain [OF t _ assms(2)]) (use w n in auto)
    then show "yields src (if \<not> on_char (isdigit E) (first ((d # u) @ xs)) \<and>
            first ((d # u) @ xs) \<noteq> Some (ch CHR ''-'') then
             rdo pushback (\<lambda>_. rdo (pushback_times (length [])) (\<lambda>_. ret None))
           else number_chars E k ([] @ [ch CHR ''-''])) t (\<lambda>r. r = Some w) xs"
      using w isdigit_digit [OF w(2), of E] by (intro yields_else) (simp_all add: on_char_def)
  qed (use assms(1) w in simp)
  then show ?thesis
    unfolding n(1) number_chars.simps using assms(1) w
    by (intro yields_peek [of _ _ "ch CHR ''-'' # d # u @ xs"] yields_then) simp_all
qed

lemma all_digits_end: "\<forall>c \<in> set u. is_digit c \<Longrightarrow> c \<in> {CHR ''N'', CHR ''M''} \<Longrightarrow> drop_suffix c (v @ u) = v @ u"
  if "u \<noteq> []"
  using that digit_not(4,5) last_in_set [of u] by (fastforce simp: drop_suffix_def ends_with_def)

lemma drop_sign_digits: "digits u \<Longrightarrow> drop_sign (u @ v) = u @ v"
  using digit_not(7) by (cases u) (auto simp: drop_sign_def digits_def)

lemma cut_at_none: "\<forall>c \<in> set u. c \<notin> set ds \<Longrightarrow> cut_at ds u = (u, None)"
proof -
  assume "\<forall>c \<in> set u. c \<notin> set ds"
  then have "dropWhile (\<lambda>c. c \<notin> set ds) u = []" by simp
  then show "cut_at ds u = (u, None)" unfolding cut_at_def by (simp only: list.case)
qed

lemma int_repr_cases:
  obtains u where "int_repr n = (if n < 0 then ch CHR ''-'' # u else u)" "plain_integer u"
    "signed (int_repr n) (decimal_int u) = n" "drop_sign (int_repr n) = u"
proof -
  let ?u = "nat_digits (nat \<bar>n\<bar>)"
  have d: "plain_integer ?u" "digits ?u" by (simp_all add: nat_digits_plain digits_def nat_digits_digits)
  obtain c w where w: "?u = c # w" "is_digit c" using d(2) by (cases ?u) (auto simp: digits_def)
  have r: "int_repr n = (if n < 0 then ch CHR ''-'' # ?u else ?u)"
    by (simp add: int_repr_def lit_def ch_def)
  show thesis
  proof (rule that [OF r d(1)])
    have "negative (int_repr n) \<longleftrightarrow> n < 0"
      using w digit_not(1) [OF w(2)] by (auto simp: r negative_def starts_with_def)
    then show "signed (int_repr n) (decimal_int ?u) = n"
      by (simp add: signed_def nat_digits_value)
    show "drop_sign (int_repr n) = ?u"
    proof (cases "n < 0")
      case True
      then show ?thesis by (simp add: r drop_sign_def lit_def ch_def)
    next
      case False
      then show ?thesis using drop_sign_digits [OF d(2), of "[]"] by (simp add: r)
    qed
  qed
qed

lemma plain_integer_digits: "plain_integer u \<Longrightarrow> digits u"
  by (simp add: plain_integer_def)

lemma match_integer_repr: "match_integer (int_repr n) = Some n"
proof (rule int_repr_cases [of n])
  fix u
  assume u: "int_repr n = (if n < 0 then ch CHR ''-'' # u else u)" "plain_integer u"
    "signed (int_repr n) (decimal_int u) = n" "drop_sign (int_repr n) = u"
  have "u \<noteq> []" "\<forall>c \<in> set u. is_digit c" using u(2) by (simp_all add: plain_integer_def digits_def)
  then have "drop_suffix CHR ''N'' (int_repr n) = int_repr n"
    using all_digits_end [of u "CHR ''N''" "[]"] all_digits_end [of u "CHR ''N''" "[ch CHR ''-'']"] by (simp add: u(1))
  then show ?thesis using u by (simp add: match_integer_def Let_def)
qed

lemma number_value_int: "number_value E (int_repr n) = Some (Inr (FInt n))"
  by (simp add: number_value_def match_integer_repr)

lemma int_repr_chars:
  "(\<forall>c \<in> set (int_repr n). is_digit c) \<or>
    (\<exists>d u. int_repr n = ch CHR ''-'' # d # u \<and> is_digit d \<and> (\<forall>c \<in> set u. is_digit c))"
proof (rule int_repr_cases [of n])
  fix u
  assume u: "int_repr n = (if n < 0 then ch CHR ''-'' # u else u)" "plain_integer u"
  then obtain d v where "u = d # v" "\<forall>c \<in> set (d # v). is_digit c"
    by (cases u) (auto simp: plain_integer_def digits_def)
  then show ?thesis using u(1) by auto
qed

text \<open>A printed ratio: two integers, the second one at least 2, around a slash.\<close>

lemma number_value_ratio:
  assumes "snd (quotient_of q) \<noteq> 1"
  shows "number_value E (atom_repr ps (FRatio q)) = Some (Inr (FRatio q))"
proof -
  obtain a b where ab: "quotient_of q = (a, b)" by (cases "quotient_of q")
  have b: "0 < b" "b \<noteq> 1" using quotient_of_denom_pos [OF ab] assms ab by auto
  have a: "a \<noteq> 0" using quotient_of_coprime [OF ab] b by auto
  define v where "v = nat_digits (nat b)"
  have v: "int_repr b = v" "digits v" "decimal_int v = b"
    using b(1) by (simp_all add: v_def int_repr_def digits_def nat_digits_digits nat_digits_value)
  obtain u where u: "plain_integer u" "signed (int_repr a) (decimal_int u) = a" "drop_sign (int_repr a) = u"
    using int_repr_cases [of a] by metis
  obtain z w where z: "u = z # w" "is_digit z" using u(1) by (cases u) (auto simp: plain_integer_def digits_def)
  have "z \<noteq> 48"
  proof
    assume "z = 48"
    then have "u = [48]" using u(1) z(1) by (auto simp: plain_integer_def)
    then show False using u(2) a by (simp add: decimal_int_def signed_def digit_of_def is_digit_def split: if_splits)
  qed
  define T where "T = int_repr a @ ch CHR ''/'' # v"
  have T: "atom_repr ps (FRatio q) = T" by (simp add: T_def ab v(1) lit_def ch_def)
  have ne: "int_repr a \<noteq> []" using u(3) z(1) by (auto simp: drop_sign_def)
  have sgn: "drop_sign T = u @ ch CHR ''/'' # v" "signed T x = signed (int_repr a) x" for x
    using ne u(3) by (cases "int_repr a"; simp add: T_def drop_sign_def signed_def negative_def starts_with_def split: if_splits)+
  have suffix: "drop_suffix c T = T" if "c \<in> {CHR ''N'', CHR ''M''}" for c
    using all_digits_end [of v c "int_repr a @ [ch CHR ''/'']"] v(2) that by (simp add: T_def digits_def)
  have slash: "\<not> is_digit (ch CHR ''/'')" by (simp add: is_digit_def ch_def)
  have dot: "cut_at (lit ''.'') (u @ ch CHR ''/'' # v) = (u @ ch CHR ''/'' # v, None)"
    using u(1) v(2) digit_not(8) by (intro cut_at_none) (auto simp: plain_integer_def digits_def lit_def ch_def)
  have "\<forall>c \<in> set u. c \<notin> set (lit ''/'')" using u(1) digit_not(9) by (auto simp: plain_integer_def digits_def)
  then have cut: "cut_at (lit ''/'') (u @ ch CHR ''/'' # v) = (u, Some v)"
    by (simp add: cut_at_def lit_def ch_def takeWhile_append2 dropWhile_append2)
  have q: "Fract a b = q" using ab b(1) by (metis Fract_of_int_quotient quotient_of_div)
  have no_int: "match_integer T = None" and no_float: "match_float T = None"
    using suffix slash dot by (simp_all add: match_integer_def match_float_def sgn plain_integer_def digits_def Let_def)
  have no_octal: "match_octal T = None" and no_hex: "match_hex T = None"
    using suffix \<open>z \<noteq> 48\<close> by (simp_all add: match_octal_def match_hex_def sgn z(1) split: list.split)
  have "match_ratio T = Some (a, b)"
    using cut v u(1,2) by (simp add: match_ratio_def sgn plain_integer_def)
  moreover have "ratio_form a b = FRatio q" using q b(2) by (simp add: ratio_form_def ab Let_def)
  ultimately show ?thesis
    unfolding T using a b(1) by (simp add: number_value_def no_int no_float no_octal no_hex)
qed

lemma read_num_run:
  fixes s :: "'x rstate"
  assumes "ahead src s (w @ xs)" "delimited xs" "length w < n" "number_value E w = Some (Inr v)" "w \<noteq> []"
    and "(\<forall>c \<in> set w. is_digit c \<or> c = ch CHR ''/'') \<or>
      (\<exists>d u. w = ch CHR ''-'' # d # u \<and> is_digit d \<and> (\<forall>c \<in> set u. is_digit c \<or> c = ch CHR ''/''))"
  shows "yields src (read_num E n) s (\<lambda>r. r = v) xs"
  unfolding read_num_def
  by (rule yields_rdo, rule number_chars_reads [OF assms(1,2,3,6)])
    (use assms(4,5) in \<open>auto simp: lift_res_def intro: yields_ret\<close>)

section \<open>Atoms\<close>

fun readable_atom :: "'x reader_env \<Rightarrow> 'x form \<Rightarrow> bool" where
  "readable_atom E FNil = True"
| "readable_atom E (FBool b) = True"
| "readable_atom E (FInt n) = True"
| "readable_atom E (FRatio q) = (snd (quotient_of q) \<noteq> 1)"
| "readable_atom E (FStr s) = str_text s"
| "readable_atom E (FChar c) = (c < 0x10000)"
| "readable_atom E (FKeyword ns n) = kw_text E ns n"
| "readable_atom E (FSymbol ns n m) = symbol_text E ns n"
| "readable_atom E _ = False"

text \<open>How \<open>_read_next\<close> dispatches on the first character of a printed atom.\<close>

lemma name_start_not:
  assumes "ns_name_char E c" "c \<noteq> BACKSLASH" "c \<noteq> ch CHR '':''"
  shows "c \<noteq> ch CHR ''(''" "c \<noteq> ch CHR ''[''" "c \<noteq> ch CHR ''{''" "c \<noteq> QUOTE" "c \<noteq> 39"
  using assms
  by (auto simp: ns_name_char_def word_char_def is_digit_def is_letter_def punctuation_def lit_def ch_def
      QUOTE_def)

lemma dispatch_sym:
  assumes "ahead src s (c # xs)" "symbol_start E (c # w)" "c \<noteq> ch CHR ''+''" "c \<noteq> ch CHR ''-''"
    and "yields src (read_sym E n False) s P zs"
  shows "yields src (read_form E rd n) s P zs"
proof -
  have c: "ns_name_char E c" "\<not> whitespace E c" "\<not> is_digit c" "c \<noteq> ch CHR '':''" "c \<noteq> BACKSLASH"
    using assms(2) by (simp_all add: symbol_start_def)
  have pm: "c \<notin> set (lit ''+-'')" using assms(3,4) by (simp add: lit_def ch_def)
  show ?thesis
    unfolding read_form_def
    using c pm name_start_not [OF c(1,5,4)]
    by (intro yields_peek [OF assms(1)]) (simp add: on_char_def assms(5))
qed

lemma dispatch_num:
  assumes "ahead src s (c # xs)" "is_digit c \<or> c \<in> set (lit ''+-'')"
    and "yields src (read_num E n) s P zs"
  shows "yields src (read_form E rd n) s P zs"
proof -
  have "c \<noteq> ch CHR ''(''" "c \<noteq> ch CHR ''[''" "c \<noteq> ch CHR ''{''"
    using assms(2) by (auto simp: is_digit_def lit_def ch_def)
  then show ?thesis
    unfolding read_form_def using assms(2)
    by (intro yields_peek [OF assms(1)]) (simp add: on_char_def assms(3))
qed

lemma dispatch_others:
  fixes s :: "'x rstate"
  shows "ahead src s (ch CHR '':'' # xs) \<Longrightarrow> yields src (read_kw E n) s P zs \<Longrightarrow> yields src (read_form E rd n) s P zs"
    and "ahead src s (QUOTE # xs) \<Longrightarrow> yields src (read_str n) s P zs \<Longrightarrow> yields src (read_form E rd n) s P zs"
    and "ahead src s (BACKSLASH # xs) \<Longrightarrow> yields src (read_character E n) s P zs \<Longrightarrow> yields src (read_form E rd n) s P zs"
    and "ahead src s (ch CHR ''('' # xs) \<Longrightarrow> yields src (read_list E rd n) s P zs \<Longrightarrow> yields src (read_form E rd n) s P zs"
    and "ahead src s (ch CHR ''['' # xs) \<Longrightarrow> yields src (read_vector E rd n) s P zs \<Longrightarrow> yields src (read_form E rd n) s P zs"
    and "ahead src s (ch CHR ''{'' # xs) \<Longrightarrow> yields src (read_map E rd n None) s P zs \<Longrightarrow> yields src (read_form E rd n) s P zs"
    and "ahead src s (ch CHR ''#'' # xs) \<Longrightarrow> yields src (read_reader_macro E rd n) s P zs \<Longrightarrow> yields src (read_form E rd n) s P zs"
  unfolding read_form_def
  by (rule yields_peek, assumption,
      simp add: on_char_def is_digit_def lit_def ch_def QUOTE_def BACKSLASH_def whitespace_def py_space_def
        ns_name_char_def word_char_def is_letter_def punctuation_def)+


lemma yields_eq_strip: "yields src m s (\<lambda>v. v = f) zs \<Longrightarrow> strip_meta f = w \<Longrightarrow> yields src m s (\<lambda>v. strip_meta v = w) zs"
  by (erule yields_mono) simp

lemma read_word:
  fixes s :: "'x rstate"
  assumes "ahead src s (w @ xs)" "delimited xs" "quotes s = []" "length w < n"
    and "(w, f) \<in> {(lit ''nil'', FNil), (lit ''true'', FBool True), (lit ''false'', FBool False)}"
  shows "yields src (read_form E rd n) s (\<lambda>v. strip_meta v = f) xs"
proof -
  have letters: "\<forall>c \<in> set w. is_letter c" and ne: "w \<noteq> []"
    using assms(5) by (auto simp: lit_def is_letter_def)
  have part: "name_part E c" "ns_name_char E c" "\<not> whitespace E c" "\<not> is_digit c" "c \<noteq> 39"
    "c \<noteq> ch CHR '':''" "c \<noteq> BACKSLASH" "c \<noteq> ch CHR ''+''" "c \<noteq> ch CHR ''-''" "c \<noteq> ch CHR ''#''"
    if "is_letter c" for c
    using that by (auto simp: name_part_def is_ns_name_char_def ns_name_char_def word_char_def is_letter_def
        ch_def whitespace_def py_space_def is_digit_def lit_def BACKSLASH_def)
  obtain c u where w: "w = c # u" "is_letter c" using letters ne by (cases w) auto
  have "\<not> ends_with (ch CHR ''#'') w"
    using letters ne part(10) last_in_set [of w] by (auto simp: ends_with_def)
  moreover have "name_text E w"
    using letters ne part by (auto simp: name_text_def w)
  ultimately have "yields src (read_sym E n False) s (\<lambda>v. strip_meta v = f) xs"
    using assms by (intro read_sym_run [where ns = None and name = w]) (auto simp: named_repr_def ns_text_def lit_def)
  moreover have "symbol_start E (c # u)" using part [OF w(2)] by (simp add: symbol_start_def)
  ultimately show ?thesis
    using assms(1) w part [OF w(2)] by (intro dispatch_sym [of src s c "u @ xs"]) auto
qed

end
