(* ===== verification/ReadPrint.thy ===== *)
theory ReadPrint
  imports ReadAtoms
begin

text \<open>
  Reading what was printed, for whole forms: collections, tagged literals and reader conditionals
  over the atoms of \<open>ReadAtoms\<close>.
\<close>

section \<open>Atoms\<close>

definition faithful :: "'x print_settings \<Rightarrow> bool" where
  "faithful ps \<longleftrightarrow>
     \<not> human_readable ps \<and> print_readably ps \<and> \<not> print_dup ps \<and> \<not> print_meta ps \<and>
     print_length ps = None \<and> print_level ps = None \<and> print_fn ps = (\<lambda>_. None)"

lemma faithful_default: "faithful (default_settings hr obj)"
  by (simp add: faithful_def default_settings_def)

lemma faithful_simps:
  assumes "faithful ps"
  shows "item_settings ps = ps" "custom ps f r = r" "\<not> too_deep ps" "\<not> shows_meta ps"
    "limited ps items = items"
  using assms
  by (simp_all add: faithful_def item_settings_def deeper_def custom_def too_deep_def shows_meta_def
      limited_def)

lemma read_signed_symbol:
  fixes s :: "'x rstate"
  assumes "ahead src s (c # u @ xs)" "delimited xs" "c = ch CHR ''+'' \<or> c = ch CHR ''-''" "0 < n"
    and "symbol_start E (c # u)"
    and "\<And>t. ahead src t (c # u @ xs) \<Longrightarrow> same_ctx s t \<Longrightarrow> yields src (read_sym E n False) t P zs"
  shows "yields src (read_form E rd n) s P zs"
proof (rule dispatch_num [OF assms(1)])
  show "is_digit c \<or> c \<in> set (lit ''+-'')" using assms(3) by (auto simp: lit_def ch_def)
  have "\<not> on_char (isdigit E) (first xs) \<and> first xs \<noteq> Some (ch CHR ''-'')"
    using delimited_first [OF assms(2)]
    by (cases "first xs") (fastforce simp: on_char_def isdigit_def is_digit_def ch_def)+
  moreover have "first (u @ xs) = (if u = [] then first xs else first u)" by (cases u) auto
  ultimately have "\<not> on_char (isdigit E) (first (u @ xs))"
    "c = ch CHR ''-'' \<longrightarrow> first (u @ xs) \<noteq> Some (ch CHR ''-'')"
    using assms(3,5) by (auto simp: symbol_start_def split: if_splits)
  then have "yields src (number_chars E n []) s (\<lambda>v. v = None) (c # u @ xs)"
    using assms(1,3,4) by (intro number_chars_symbol) auto
  then show "yields src (read_num E n) s P zs"
    unfolding read_num_def by (rule yields_rdo) (simp add: assms(6))
qed

text \<open>The characters of a printed number.\<close>

definition number_text :: "pystr \<Rightarrow> bool" where
  "number_text w \<longleftrightarrow>
     (\<forall>c \<in> set w. is_digit c \<or> c = ch CHR ''/'') \<and> w \<noteq> [] \<and> is_digit (hd w) \<or>
     (\<exists>d u. w = ch CHR ''-'' # d # u \<and> is_digit d \<and> (\<forall>c \<in> set u. is_digit c \<or> c = ch CHR ''/''))"

lemma int_repr_text: "number_text (int_repr n)"
proof -
  have "int_repr n \<noteq> []" using nat_digits_digits(2) by (simp add: int_repr_def)
  then show ?thesis using int_repr_chars [of n] by (auto simp: number_text_def)
qed

lemma ratio_text: "number_text (atom_repr ps (FRatio q))"
proof -
  have d: "0 < snd (quotient_of q)" by (rule quotient_of_denom_pos')
  then have "\<forall>c \<in> set (int_repr (snd (quotient_of q))). is_digit c"
    using nat_digits_digits(1) by (simp add: int_repr_def)
  then show ?thesis
    using int_repr_text [of "fst (quotient_of q)"] by (auto simp: number_text_def lit_def ch_def)
qed

lemma read_number:
  fixes s :: "'x rstate"
  assumes "ahead src s (w @ xs)" "delimited xs" "length w < n" "number_text w"
    and "number_value E w = Some (Inr v)"
  shows "yields src (read_form E rd n) s (\<lambda>r. r = v) xs"
proof -
  obtain c u where w: "w = c # u" "is_digit c \<or> c \<in> set (lit ''+-'')"
    using assms(4) by (cases w) (auto simp: number_text_def lit_def ch_def)
  have "yields src (read_num E n) s (\<lambda>r. r = v) xs"
    using assms(4,5) w by (intro read_num_run [OF assms(1-3)]) (auto simp: number_text_def)
  then show ?thesis using assms(1) w by (intro dispatch_num [of src s c "u @ xs"]) auto
qed

lemma length_escaped: "length w \<le> length (concat (map escaped w))"
proof (induction w)
  case (Cons c w)
  have "unicode_escape c \<noteq> []" by (simp add: unicode_escape_def)
  moreover have "escape_quote d \<noteq> []" for d by (simp add: escape_quote_def)
  ultimately have "escaped c \<noteq> []" by (cases "unicode_escape c") (simp_all add: escaped_def)
  then show ?case using Cons by (cases "escaped c") simp_all
qed simp

lemma read_atom_run:
  fixes s :: "'x rstate"
  assumes "ahead src s (atom_repr ps f @ xs)" "delimited xs" "quotes s = []"
    and "faithful ps" "readable_atom E f" "length (atom_repr ps f) + 9 < n"
  shows "yields src (read_form E rd n) s (\<lambda>v. strip_meta v = strip_meta f) xs"
proof (cases f)
  case FNil
  then show ?thesis using assms by (intro read_word [where w = "lit ''nil''"]) auto
next
  case (FBool b)
  then show ?thesis
    using assms by (intro read_word [where w = "if b then lit ''true'' else lit ''false''"]) auto
next
  case (FInt i)
  have "yields src (read_form E rd n) s (\<lambda>r. r = FInt i) xs"
    by (rule read_number) (use assms FInt int_repr_text number_value_int in auto)
  then show ?thesis using FInt by (auto elim: yields_mono)
next
  case (FRatio q)
  have "yields src (read_form E rd n) s (\<lambda>r. r = FRatio q) xs"
    by (rule read_number [where w = "atom_repr ps (FRatio q)"])
      (use assms FRatio ratio_text number_value_ratio in auto)
  then show ?thesis using FRatio by (auto elim: yields_mono)
next
  case (FStr w)
  have r: "atom_repr ps f = str_repr w" using assms(4) FStr by (simp add: faithful_def)
  have "yields src (read_str n) s (\<lambda>r. r = FStr w) xs"
    using assms(1,5,6) FStr length_escaped [of w] unfolding r
    by (intro read_str_run) (auto simp: str_repr_escaped)
  then show ?thesis
    using assms(1) FStr unfolding r str_repr_escaped
    by (intro dispatch_others(2)) (auto elim: yields_mono)
next
  case (FChar c)
  have r: "atom_repr ps f = char_lrepr c False True" using assms(4) FChar by (simp add: faithful_def)
  obtain u where u: "char_lrepr c False True = BACKSLASH # u"
    by (cases "0xD800 \<le> c \<and> c \<le> 0xDFFF") (simp_all add: char_lrepr_def BACKSLASH_def)
  have "yields src (read_character E n) s (\<lambda>r. r = FChar c) xs"
    using assms(1,2,5,6) FChar unfolding r by (intro read_character_run) auto
  then show ?thesis
    using assms(1) FChar u unfolding r by (intro dispatch_others(3)) (auto elim: yields_mono)
next
  case (FKeyword ns name)
  have "yields src (read_kw E n) s (\<lambda>r. r = FKeyword ns name) xs"
    using assms FKeyword by (intro read_kw_run [where ps = ps]) auto
  moreover have "ahead src s (ch CHR '':'' # named_repr ns name @ xs)"
    using assms(1) FKeyword by (simp add: lit_def ch_def)
  ultimately show ?thesis
    using FKeyword by (intro dispatch_others(1)) (auto elim: yields_mono)
next
  case (FSymbol ns name m)
  have t: "symbol_text E ns name" using assms(5) FSymbol by simp
  obtain c u where w: "named_repr ns name = c # u"
    using t named_repr_nonempty [of E name ns] by (cases "named_repr ns name") (auto simp: symbol_text_def)
  have a: "ahead src s (c # u @ xs)" using assms(1) FSymbol w by simp
  have start: "symbol_start E (c # u)" using t w by (simp add: symbol_text_def)
  have run: "yields src (read_sym E n False) t (\<lambda>v. strip_meta v = strip_meta f) xs"
    if "ahead src t (c # u @ xs)" "same_ctx s t" for t
    by (rule read_sym_run [where ns = ns and name = name])
      (use that(1) same_ctx_quotes [OF that(2)] t assms FSymbol w in \<open>auto simp: symbol_text_def\<close>)
  show ?thesis
  proof (cases "c = ch CHR ''+'' \<or> c = ch CHR ''-''")
    case True
    show ?thesis using assms(6) by (intro read_signed_symbol [OF a assms(2) True _ start run]) auto
  next
    case False
    then show ?thesis using a start run [OF a] by (intro dispatch_sym) auto
  qed
qed (use assms(5) in auto)


section \<open>Elements of a collection\<close>

text \<open>
  \<open>reads_as src rd s w f\<close>: wherever the reader stands before the text \<open>w\<close> and a delimiter, with
  the context of \<open>s\<close>, \<open>rd\<close> reads the form \<open>f\<close> from it up to metadata.
\<close>

definition reads_as ::
  "pystr \<Rightarrow> ('x, 'x form) rm \<Rightarrow> 'x rstate \<Rightarrow> pystr \<Rightarrow> 'x form \<Rightarrow> bool"
where
  "reads_as src rd s w f \<longleftrightarrow>
     (\<forall>t ys. same_ctx s t \<longrightarrow> ahead src t (w @ ys) \<longrightarrow> delimited ys \<longrightarrow>
        yields src rd t (\<lambda>v. strip_meta v = strip_meta f) ys)"

lemma reads_as_ctx: "reads_as src rd s w f \<Longrightarrow> same_ctx s t \<Longrightarrow> reads_as src rd t w f"
  by (auto simp: reads_as_def intro: same_ctx_trans)

definition starts :: "'x reader_env \<Rightarrow> pystr \<Rightarrow> bool" where
  "starts E w \<longleftrightarrow> w \<noteq> [] \<and> \<not> whitespace E (hd w) \<and> hd w \<notin> {41, 93, 125}"

text \<open>A form that a collection takes as an element.\<close>

definition element :: "'x reader_env \<Rightarrow> 'x form \<Rightarrow> bool" where
  "element E f \<longleftrightarrow> f \<noteq> FComment \<and> (process_cond E \<longrightarrow> \<not> is_cond f)"

lemma element_cong:
  assumes "element E f" "strip_meta v = strip_meta f"
  shows "element E v"
proof -
  have "f = FComment \<longleftrightarrow> v = FComment" using assms(2) strip_eq_atom(7) by metis
  moreover have "is_cond v = is_cond f" using assms(2) by (cases v; cases f) (auto simp: is_cond_def)
  ultimately show ?thesis using assms(1) by (simp add: element_def)
qed

lemma collected_element:
  assumes "element E f" "strip_meta v = strip_meta f"
  shows "collected E v = ret [v]"
  using element_cong [OF assms] by (auto simp: element_def collected_def is_cond_def split: form.split)

definition closing :: "nat \<Rightarrow> bool" where
  "closing c \<longleftrightarrow> c \<in> {41, 93, 125}"

lemma closing_not_space: "closing c \<Longrightarrow> \<not> whitespace E c"
  by (auto simp: closing_def whitespace_def py_space_def ch_def)

lemma elems_end:
  fixes s :: "'x rstate"
  assumes "ahead src s (c # xs)" "closing c" "0 < n"
  shows "yields src (read_elems E rd c n acc) s (\<lambda>vs. vs = acc) xs"
proof -
  obtain k where n: "n = Suc k" using assms(3) by (cases n) auto
  show ?thesis
    unfolding n read_elems.simps using closing_not_space [OF assms(2), of E]
    by (intro yields_peek [OF assms(1)] yields_else yields_then yields_next [OF assms(1)])
      (simp_all add: on_char_def yields_ret)
qed

lemma elems_space:
  fixes s :: "'x rstate"
  assumes "ahead src s (c # xs)" "whitespace E c"
    and "\<And>t. ahead src t xs \<Longrightarrow> same_ctx s t \<Longrightarrow> yields src (read_elems E rd end_char n acc) t P zs"
  shows "yields src (read_elems E rd end_char (Suc n) acc) s P zs"
  unfolding read_elems.simps using assms(2)
  by (intro yields_peek [OF assms(1)] yields_else yields_then yields_advance [OF assms(1)])
    (simp_all add: on_char_def assms(3))

lemma elems_item:
  fixes s :: "'x rstate"
  assumes "ahead src s (w @ ys)" "starts E w" "closing c" "delimited ys" "reads_as src rd s w f" "element E f"
    and "\<And>t v. ahead src t ys \<Longrightarrow> same_ctx s t \<Longrightarrow> strip_meta v = strip_meta f \<Longrightarrow>
      yields src (read_elems E rd c n (acc @ [v])) t P zs"
  shows "yields src (read_elems E rd c (Suc n) acc) s P zs"
proof -
  obtain d u where w: "w = d # u" "\<not> whitespace E d" "d \<noteq> c"
    using assms(2,3) by (cases w) (auto simp: starts_def closing_def)
  have "yields src (rdo rd (\<lambda>elem. rdo (collected E elem) (\<lambda>xs. read_elems E rd c n (acc @ xs)))) s P zs"
  proof (rule yields_rdo)
    show "yields src rd s (\<lambda>v. strip_meta v = strip_meta f) ys"
      using assms(1,4,5) by (simp add: reads_as_def)
    show "yields src (rdo (collected E v) (\<lambda>xs. read_elems E rd c n (acc @ xs))) t P zs"
      if "strip_meta v = strip_meta f" "ahead src t ys" "same_ctx s t" for v t
      unfolding collected_element [OF assms(6) that(1)]
    proof (rule yields_rdo, rule yields_ret [where P = "\<lambda>a. a = [v]", OF that(2) refl])
      fix a and u :: "'x rstate"
      assume a: "a = [v]" and u: "ahead src u ys" "same_ctx t u"
      show "yields src (read_elems E rd c n (acc @ a)) u P zs"
        unfolding a by (rule assms(7) [OF u(1) same_ctx_trans [OF that(3) u(2)] that(1)])
    qed
  qed
  then show ?thesis
    unfolding read_elems.simps using w assms(1)
    by (intro yields_peek [of src s "d # u @ ys"] yields_else) (simp_all add: on_char_def)
qed

text \<open>The tail of a collection: what follows an element up to the closing character.\<close>

fun tail_text :: "pystr \<Rightarrow> pystr list \<Rightarrow> pystr" where
  "tail_text sep [] = []"
| "tail_text sep (w # ws) = sep @ w @ tail_text sep ws"

lemma join_tail: "join sep (w # ws) = w @ tail_text sep ws"
  by (induction ws arbitrary: w) simp_all

lemma delimited_tail:
  assumes "closing c"
  shows "delimited (tail_text (lit '' '') ws @ c # xs)" "delimited (tail_text (lit '', '') ws @ c # xs)"
  using assms by (cases ws; auto simp: delimited_def closing_def lit_def)+

lemma whitespace_separators: "whitespace E 32" "whitespace E 44"
  by (simp_all add: whitespace_def py_space_def ch_def)

definition item :: "'x reader_env \<Rightarrow> pystr \<Rightarrow> ('x, 'x form) rm \<Rightarrow> 'x rstate \<Rightarrow> pystr \<Rightarrow> 'x form \<Rightarrow> bool" where
  "item E src rd s w f \<longleftrightarrow> starts E w \<and> reads_as src rd s w f \<and> element E f"

definition collects :: "'x form list \<Rightarrow> 'x form list \<Rightarrow> 'x form list \<Rightarrow> bool" where
  "collects acc fs vs \<longleftrightarrow> (\<exists>us. vs = acc @ us \<and> map strip_meta us = map strip_meta fs)"

lemma collects_nil: "collects acc [] acc"
  by (simp add: collects_def)

lemma collects_step: "collects (acc @ [v]) fs vs \<Longrightarrow> strip_meta v = strip_meta f \<Longrightarrow> collects acc (f # fs) vs"
  by (auto simp: collects_def)

lemma collects_start: "collects [] fs vs = (map strip_meta vs = map strip_meta fs)"
  by (simp add: collects_def)

lemma item_starts: "item E src rd s w f \<Longrightarrow> w \<noteq> []"
  by (simp add: item_def starts_def)

lemma item_run:
  fixes s :: "'x rstate"
  assumes "item E src rd s0 w f" "same_ctx s0 s" "ahead src s (w @ ys)" "closing c" "delimited ys"
    and "\<And>t v. ahead src t ys \<Longrightarrow> same_ctx s0 t \<Longrightarrow>
      yields src (read_elems E rd c n (acc @ [v])) t (collects (acc @ [v]) fs) zs"
  shows "yields src (read_elems E rd c (Suc n) acc) s (collects acc (f # fs)) zs"
proof (rule elems_item [OF assms(3) _ assms(4,5)])
  show "starts E w" "element E f" using assms(1) by (simp_all add: item_def)
  show "reads_as src rd s w f" using assms(1,2) reads_as_ctx by (auto simp: item_def)
  fix t :: "'x rstate" and v
  assume t: "ahead src t ys" "same_ctx s t" "strip_meta v = strip_meta f"
  show "yields src (read_elems E rd c n (acc @ [v])) t (collects acc (f # fs)) zs"
    using assms(6) [OF t(1) same_ctx_trans [OF assms(2) t(2)]] collects_step [OF _ t(3)]
    by (rule yields_mono)
qed

lemma elems_tail:
  fixes s :: "'x rstate"
  assumes "list_all2 (item E src rd s0) ws fs" "same_ctx s0 s"
    and "ahead src s (tail_text (lit '' '') ws @ c # xs)" "closing c"
    and "length (tail_text (lit '' '') ws) < n"
  shows "yields src (read_elems E rd c n acc) s (collects acc fs) xs"
  using assms(1-3,5)
proof (induction arbitrary: s n acc rule: list_all2_induct)
  case Nil
  then have "yields src (read_elems E rd c n acc) s (\<lambda>vs. vs = acc) xs"
    by (intro elems_end [OF _ assms(4)]) simp_all
  then show ?case by (rule yields_mono) (simp add: collects_nil)
next
  case (Cons w ws f fs)
  obtain k where n: "n = Suc (Suc k)" "length (tail_text (lit '' '') ws) < k"
  proof
    have "length (tail_text (lit '' '') ws) + 2 < n"
      using Cons.prems(3) item_starts [OF Cons.hyps(1)] by (cases w) (simp_all add: lit_def)
    then show "n = Suc (Suc (n - 2))" "length (tail_text (lit '' '') ws) < n - 2" by linarith+
  qed
  have "ahead src s (32 # w @ tail_text (lit '' '') ws @ c # xs)" using Cons.prems(2) by (simp add: lit_def)
  then show ?case
    unfolding n(1)
  proof (rule elems_space [OF _ whitespace_separators(1)])
    fix t :: "'x rstate"
    assume t: "ahead src t (w @ tail_text (lit '' '') ws @ c # xs)" "same_ctx s t"
    show "yields src (read_elems E rd c (Suc k) acc) t (collects acc (f # fs)) xs"
      by (rule item_run [OF Cons.hyps(1) same_ctx_trans [OF Cons.prems(1) t(2)] t(1) assms(4)
          delimited_tail(1) [OF assms(4)]]) (rule Cons.IH [OF _ _ n(2)])
  qed
qed

lemma elems_join:
  fixes s :: "'x rstate"
  assumes "list_all2 (item E src rd s0) ws fs" "same_ctx s0 s"
    and "ahead src s (join (lit '' '') ws @ c # xs)" "closing c" "length (join (lit '' '') ws) < n"
  shows "yields src (read_elems E rd c n []) s (\<lambda>vs. map strip_meta vs = map strip_meta fs) xs"
proof -
  have "yields src (read_elems E rd c n []) s (collects [] fs) xs"
  proof (cases ws)
    case Nil
    then have "fs = []" using assms(1) by simp
    moreover have "yields src (read_elems E rd c n []) s (\<lambda>vs. vs = []) xs"
      using assms(3,5) Nil by (intro elems_end [OF _ assms(4)]) simp_all
    ultimately show ?thesis by (auto elim: yields_mono simp: collects_start)
  next
    case (Cons w us)
    then obtain f gs where fs: "fs = f # gs" "item E src rd s0 w f" "list_all2 (item E src rd s0) us gs"
      using assms(1) by (auto simp: list_all2_Cons1)
    obtain k where n: "n = Suc k" "length (tail_text (lit '' '') us) < k"
    proof
      have "length (tail_text (lit '' '') us) + 1 < n"
        using assms(5) item_starts [OF fs(2)] by (cases w) (simp_all add: Cons join_tail del: join.simps)
      then show "n = Suc (n - 1)" "length (tail_text (lit '' '') us) < n - 1" by linarith+
    qed
    have "ahead src s (w @ tail_text (lit '' '') us @ c # xs)"
      using assms(3) by (simp add: Cons join_tail del: join.simps)
    then show ?thesis
      unfolding n(1) fs(1)
      by (rule item_run [OF fs(2) assms(2) _ assms(4) delimited_tail(1) [OF assms(4)]])
        (rule elems_tail [OF fs(3) _ _ assms(4) n(2)])
  qed
  then show ?thesis by (rule yields_mono) (simp add: collects_start)
qed

definition entry_text :: "pystr \<times> pystr \<Rightarrow> pystr" where
  "entry_text e = fst e @ lit '' '' @ snd e"

definition flat_entries :: "('x form \<times> 'x form) list \<Rightarrow> 'x form list" where
  "flat_entries es = concat (map (\<lambda>e. [fst e, snd e]) es)"

definition entry_item ::
  "'x reader_env \<Rightarrow> pystr \<Rightarrow> ('x, 'x form) rm \<Rightarrow> 'x rstate \<Rightarrow> pystr \<times> pystr \<Rightarrow> 'x form \<times> 'x form \<Rightarrow> bool"
where
  "entry_item E src rd s w e \<longleftrightarrow> item E src rd s (fst w) (fst e) \<and> item E src rd s (snd w) (snd e)"

lemma entry_run:
  fixes s :: "'x rstate"
  assumes "entry_item E src rd s0 w e" "same_ctx s0 s" "ahead src s (entry_text w @ ys)" "closing c"
    and "delimited ys" "\<And>t us. ahead src t ys \<Longrightarrow> same_ctx s0 t \<Longrightarrow>
      yields src (read_elems E rd c n us) t (collects us fs) zs"
  shows "yields src (read_elems E rd c (Suc (Suc (Suc n))) acc) s (collects acc (fst e # snd e # fs)) zs"
proof (rule item_run)
  show "item E src rd s0 (fst w) (fst e)" using assms(1) by (simp add: entry_item_def)
  show "ahead src s (fst w @ 32 # snd w @ ys)" using assms(3) by (simp add: entry_text_def lit_def)
  show "delimited (32 # snd w @ ys)" by (simp add: delimited_def lit_def)
  fix t :: "'x rstate" and v
  assume t: "ahead src t (32 # snd w @ ys)" "same_ctx s0 t"
  show "yields src (read_elems E rd c (Suc (Suc n)) (acc @ [v])) t (collects (acc @ [v]) (snd e # fs)) zs"
  proof (rule elems_space [OF t(1) whitespace_separators(1)])
    fix u :: "'x rstate"
    assume u: "ahead src u (snd w @ ys)" "same_ctx t u"
    show "yields src (read_elems E rd c (Suc n) (acc @ [v])) u (collects (acc @ [v]) (snd e # fs)) zs"
    proof (rule item_run [OF _ same_ctx_trans [OF t(2) u(2)] u(1) assms(4,5)])
      show "item E src rd s0 (snd w) (snd e)" using assms(1) by (simp add: entry_item_def)
    qed (rule assms(6))
  qed
qed (rule assms(2,4))+

lemma entry_length: "entry_item E src rd s w e \<Longrightarrow> 3 \<le> length (entry_text w)"
  by (cases "fst w"; cases "snd w") (auto simp: entry_item_def entry_text_def lit_def dest: item_starts)

lemma entries_tail:
  fixes s :: "'x rstate"
  assumes "list_all2 (entry_item E src rd s0) ws es" "same_ctx s0 s"
    and "ahead src s (tail_text (lit '', '') (map entry_text ws) @ c # xs)" "closing c"
    and "length (tail_text (lit '', '') (map entry_text ws)) < n"
  shows "yields src (read_elems E rd c n acc) s (collects acc (flat_entries es)) xs"
  using assms(1-3,5)
proof (induction arbitrary: s n acc rule: list_all2_induct)
  case Nil
  then have "yields src (read_elems E rd c n acc) s (\<lambda>vs. vs = acc) xs"
    by (intro elems_end [OF _ assms(4)]) simp_all
  then show ?case by (rule yields_mono) (simp add: collects_nil flat_entries_def)
next
  case (Cons w ws e es)
  let ?rest = "tail_text (lit '', '') (map entry_text ws)"
  obtain k where n: "n = Suc (Suc (Suc (Suc (Suc k))))" "length ?rest < k"
  proof
    have "length ?rest + 5 < n" using Cons.prems(3) entry_length [OF Cons.hyps(1)] by (simp add: lit_def)
    then show "n = Suc (Suc (Suc (Suc (Suc (n - 5)))))" "length ?rest < n - 5" by linarith+
  qed
  have "ahead src s (44 # 32 # entry_text w @ ?rest @ c # xs)" using Cons.prems(2) by (simp add: lit_def)
  then show ?case
    unfolding n(1)
  proof (rule elems_space [OF _ whitespace_separators(2)])
    fix t :: "'x rstate"
    assume t: "ahead src t (32 # entry_text w @ ?rest @ c # xs)" "same_ctx s t"
    show "yields src (read_elems E rd c (Suc (Suc (Suc (Suc k)))) acc) t (collects acc (flat_entries (e # es))) xs"
    proof (rule elems_space [OF t(1) whitespace_separators(1)])
      fix u :: "'x rstate"
      assume u: "ahead src u (entry_text w @ ?rest @ c # xs)" "same_ctx t u"
      have "same_ctx s0 u" using Cons.prems(1) t(2) u(2) same_ctx_trans by metis
      then show "yields src (read_elems E rd c (Suc (Suc (Suc k))) acc) u (collects acc (flat_entries (e # es))) xs"
        unfolding flat_entries_def list.map concat.simps append.simps
        by (rule entry_run [OF Cons.hyps(1) _ u(1) assms(4) delimited_tail(2) [OF assms(4)]])
          (rule Cons.IH [OF _ _ n(2), unfolded flat_entries_def])
    qed
  qed
qed

lemma entries_join:
  fixes s :: "'x rstate"
  assumes "list_all2 (entry_item E src rd s0) ws es" "same_ctx s0 s"
    and "ahead src s (join (lit '', '') (map entry_text ws) @ c # xs)" "closing c"
    and "length (join (lit '', '') (map entry_text ws)) < n"
  shows "yields src (read_elems E rd c n []) s
    (\<lambda>vs. map strip_meta vs = map strip_meta (flat_entries es)) xs"
proof -
  have "yields src (read_elems E rd c n []) s (collects [] (flat_entries es)) xs"
  proof (cases ws)
    case Nil
    then have "es = []" using assms(1) by simp
    moreover have "yields src (read_elems E rd c n []) s (\<lambda>vs. vs = []) xs"
      using assms(3,5) Nil by (intro elems_end [OF _ assms(4)]) simp_all
    ultimately show ?thesis by (auto elim: yields_mono simp: collects_start flat_entries_def)
  next
    case (Cons w us)
    then obtain e ds where es: "es = e # ds" "entry_item E src rd s0 w e" "list_all2 (entry_item E src rd s0) us ds"
      using assms(1) by (auto simp: list_all2_Cons1)
    let ?rest = "tail_text (lit '', '') (map entry_text us)"
    have join: "join (lit '', '') (map entry_text ws) = entry_text w @ ?rest"
      by (simp only: Cons list.map join_tail)
    obtain k where n: "n = Suc (Suc (Suc k))" "length ?rest < k"
    proof
      have "length ?rest + 3 < n" using assms(5) entry_length [OF es(2)] unfolding join by simp
      then show "n = Suc (Suc (Suc (n - 3)))" "length ?rest < n - 3" by linarith+
    qed
    have "ahead src s (entry_text w @ ?rest @ c # xs)" using assms(3) by (simp add: join)
    then show ?thesis
      unfolding n(1) es(1) flat_entries_def list.map concat.simps append.simps
      by (rule entry_run [OF es(2) assms(2) _ assms(4) delimited_tail(2) [OF assms(4)]])
        (rule entries_tail [OF es(3) _ _ assms(4) n(2), unfolded flat_entries_def])
  qed
  then show ?thesis by (rule yields_mono) (simp add: collects_start)
qed

section \<open>Sets and maps\<close>

text \<open>No two keys of the list are equal as keys.\<close>

definition distinct_keys :: "'x host_ops \<Rightarrow> 'x form list \<Rightarrow> bool" where
  "distinct_keys h xs \<longleftrightarrow> sorted_wrt (\<lambda>a b. \<not> same_key h a b) xs"

lemma same_key_strip: "same_key h (strip_meta a) (strip_meta b) = same_key h a b"
  by (simp add: same_key_def same_form_strip)

lemma distinct_keys_strip: "distinct_keys h (map strip_meta xs) = distinct_keys h xs"
  by (simp add: distinct_keys_def sorted_wrt_map same_key_strip)

lemma distinct_keys_cong:
  "map strip_meta xs = map strip_meta ys \<Longrightarrow> distinct_keys h xs = distinct_keys h ys"
  using distinct_keys_strip by metis

lemma hashable_cong:
  assumes "map strip_meta xs = map strip_meta ys"
  shows "(\<forall>x \<in> set xs. hashable h x) = (\<forall>y \<in> set ys. hashable h y)"
proof -
  have "(\<forall>x \<in> set xs. hashable h x) = (\<forall>x \<in> set (map strip_meta xs). hashable h x)" for xs
    by simp
  then show ?thesis using assms by metis
qed

lemma member_of_strip: "member_of h (strip_meta x) (map strip_meta xs) = member_of h x xs"
  by (simp add: member_of_def same_key_strip)

lemma put_members_distinct:
  "distinct_keys h xs \<Longrightarrow> \<forall>x \<in> set xs. \<not> member_of h x ys \<Longrightarrow> fold (put_member h) xs ys = ys @ xs"
proof (induction xs arbitrary: ys)
  case (Cons x xs)
  then have "\<forall>y \<in> set xs. \<not> member_of h y (ys @ [x])"
    by (auto simp: distinct_keys_def member_of_def)
  then show ?case using Cons by (simp add: put_member_def distinct_keys_def)
qed simp

lemma put_entry_new:
  "\<forall>d \<in> set ds. \<not> same_key h (fst d) (fst e) \<Longrightarrow> put_entry h e ds = ds @ [e]"
  by (induction ds) auto

lemma put_entries_distinct:
  "distinct_keys h (map fst es) \<Longrightarrow> \<forall>e \<in> set es. \<forall>d \<in> set ds. \<not> same_key h (fst d) (fst e) \<Longrightarrow>
    put_entries h es ds = ds @ es"
proof (induction es arbitrary: ds)
  case (Cons e es)
  have "put_entries h es (ds @ [e]) = (ds @ [e]) @ es"
    by (rule Cons.IH) (use Cons.prems in \<open>auto simp: distinct_keys_def\<close>)
  then show ?case using Cons.prems(2) put_entry_new [of ds h e] by (simp add: put_entries_def)
qed (simp add: put_entries_def)

lemma set_if_valid_run:
  fixes s :: "'x rstate"
  assumes "ahead src s ys" "distinct_keys (hosts E) xs" "\<forall>x \<in> set xs. hashable (hosts E) x"
    and "map strip_meta vs = map strip_meta xs"
  shows "yields src (set_if_valid E vs) s (\<lambda>v. strip_meta v = strip_meta (FSet xs m)) ys"
proof -
  have d: "distinct_keys (hosts E) vs" using assms(2) distinct_keys_cong [OF assms(4)] by simp
  have h: "\<forall>x \<in> set vs. hashable (hosts E) x" using assms(3) hashable_cong [OF assms(4)] by blast
  have "fold (put_member (hosts E)) vs [] = vs" using put_members_distinct [OF d, of "[]"] by (simp add: member_of_def)
  then have "set_if_valid E vs = ret (FSet vs None)"
    using h by (auto simp: set_if_valid_def make_set_def lift_res_def ret_def)
  then show ?thesis using assms(1,4) by (simp add: yields_ret)
qed

definition strip_entry :: "'x form \<times> 'x form \<Rightarrow> 'x form \<times> 'x form" where
  "strip_entry e = (strip_meta (fst e), strip_meta (snd e))"

lemma strip_strip [simp]: "strip_meta (strip_meta x) = strip_meta x"
  by (induction x rule: strip_meta.induct) simp_all

lemma strip_process_key: "strip_meta (process_key space (strip_meta k)) = strip_meta (process_key space k)"
  by (cases "(space, k)" rule: process_key.cases) (simp_all split: option.split)

lemma strip_map: "strip_meta (FMap es m) = FMap (map strip_entry es) None"
  by (simp add: strip_entry_def [abs_def])

text \<open>
  The entries of a map from the elements that were read: \<open>bk\<close> is what was printed of a key.
\<close>

lemma map_entries_run:
  assumes "map strip_meta vs = map strip_meta (flat_entries (map (\<lambda>e. (bk (fst e), snd e)) es))"
    and "\<forall>e \<in> set es. strip_meta (process_key space (bk (fst e))) = strip_meta (fst e)"
    and "\<forall>e \<in> set es. hashable (hosts E) (fst e)" "distinct_keys (hosts E) (map fst es)"
    and "\<forall>e \<in> set es. \<not> member_of (hosts E) (fst e) seen"
  shows "\<exists>ds. map_entries E space seen vs = Some ds \<and> map strip_entry ds = map strip_entry es"
  using assms
proof (induction es arbitrary: vs seen)
  case Nil
  then show ?case by (simp add: flat_entries_def)
next
  case (Cons e es)
  obtain k v us where vs: "vs = k # v # us" "strip_meta k = strip_meta (bk (fst e))"
    "strip_meta v = strip_meta (snd e)"
    "map strip_meta us = map strip_meta (flat_entries (map (\<lambda>e. (bk (fst e), snd e)) es))"
    using Cons.prems(1) by (auto simp: flat_entries_def Cons_eq_map_conv map_eq_Cons_conv)
  define key where "key = process_key space k"
  have key: "strip_meta key = strip_meta (fst e)"
    using Cons.prems(2) vs(2) strip_process_key unfolding key_def by (metis list.set_intros(1))
  have hash: "hashable (hosts E) key"
    using Cons.prems(3) key hashable_strip by (metis list.set_intros(1))
  have same: "same_key (hosts E) key x = same_key (hosts E) (fst e) x" for x
    using key same_key_strip by metis
  have new: "\<not> member_of (hosts E) key seen"
    using Cons.prems(5) key member_of_strip by (metis list.set_intros(1))
  obtain ds where ds: "map_entries E space (seen @ [key]) us = Some ds" "map strip_entry ds = map strip_entry es"
  proof -
    have "\<forall>d \<in> set es. \<not> member_of (hosts E) (fst d) (seen @ [key])"
      using Cons.prems(4,5) same by (auto simp: member_of_def distinct_keys_def)
    then show ?thesis
      using Cons.IH [OF vs(4), of "seen @ [key]"] Cons.prems(2-4) that by (auto simp: distinct_keys_def)
  qed
  show ?case
    using vs(1,3) hash new ds key by (simp add: Let_def key_def [symmetric] strip_entry_def [of "(key, v)"] strip_entry_def [of e])
qed

lemma make_map_run:
  fixes s :: "'x rstate" and E :: "'x reader_env"
  assumes "ahead src s ys" "map strip_meta vs = map strip_meta (flat_entries (map (\<lambda>e. (bk (fst e), snd e)) es))"
    and "\<forall>e \<in> set es. strip_meta (process_key space (bk (fst e))) = strip_meta (fst e)"
    and "\<forall>e \<in> set es. hashable (hosts E) (fst e)" "distinct_keys (hosts E) (map fst es)"
  shows "yields src (case map_entries E space [] vs of
           None \<Rightarrow> syntax_error
         | Some es \<Rightarrow> lift_res (make_map (hosts E) es None)) s (\<lambda>v. strip_meta v = strip_meta (FMap es m)) ys"
proof -
  obtain ds where ds: "map_entries E space [] vs = Some ds" "map strip_entry ds = map strip_entry es"
    using map_entries_run [OF assms(2-5), of "[]"] by (auto simp: member_of_def)
  have keys: "map strip_meta (map fst ds) = map strip_meta (map fst es)"
    using arg_cong [OF ds(2), of "map fst"] by (simp add: strip_entry_def comp_def)
  have "distinct_keys (hosts E) (map fst ds)" using assms(5) distinct_keys_cong [OF keys] by simp
  then have "put_entries (hosts E) ds [] = ds" using put_entries_distinct [of "hosts E" ds "[]"] by simp
  moreover have "\<forall>e \<in> set ds. hashable (hosts E) (fst e)"
    using assms(4) hashable_cong [OF keys, of "hosts E"] by auto
  ultimately have "(lift_res (make_map (hosts E) ds None) :: ('x, 'x form) rm) = ret (FMap ds None)"
    by (auto simp: make_map_def lift_res_def ret_def)
  then show ?thesis
    using yields_ret [OF assms(1), of "\<lambda>v. strip_meta v = strip_meta (FMap es m)" "FMap ds None"] ds
    by (simp add: strip_map del: strip_meta.simps)
qed

section \<open>The forms that read back\<close>

text \<open>What a map shows of its keys, and what can be read back from it.\<close>

definition shown_key :: "'x print_settings \<Rightarrow> ('x form \<times> 'x form) list \<Rightarrow> 'x form \<Rightarrow> 'x form" where
  "shown_key ps es k = (if shared_ns ps (map fst es) = None then k else bare_key k)"

definition readable_tag :: "'x reader_env \<Rightarrow> 'x form \<Rightarrow> bool" where
  "readable_tag E t =
     (case t of
        FSymbol ns n m \<Rightarrow>
          symbol_text E ns n \<and> hd (named_repr ns n) \<notin> set (lit ''_!=?'') \<and>
          (ns = None \<and> \<not> edn E \<longrightarrow> n \<noteq> lit ''b'' \<and> n \<noteq> lit ''f'')
      | _ \<Rightarrow> False)"

text \<open>
  The forms that read back as they were: atoms whose text is one (\<open>readable_atom\<close>); collections of
  such forms, with distinct hashable members and keys; tagged literals where they are not resolved;
  reader conditionals where they are kept. \<open>pol\<close> is whether tagged literals are resolved.
\<close>

fun readable :: "'x reader_env \<Rightarrow> 'x print_settings \<Rightarrow> bool \<Rightarrow> 'x form \<Rightarrow> bool" where
  "readable E ps pol (FList xs m) = (\<forall>x \<in> set xs. readable E ps pol x)"
| "readable E ps pol (FVector xs m) = (\<forall>x \<in> set xs. readable E ps pol x)"
| "readable E ps pol (FSet xs m) =
     ((\<forall>x \<in> set xs. readable E ps pol x) \<and> (\<forall>x \<in> set xs. hashable (hosts E) x) \<and>
      distinct_keys (hosts E) xs)"
| "readable E ps pol (FMap es m) =
     ((\<forall>e \<in> set es. (if shared_ns ps (map fst es) = None then readable E ps pol (fst e)
                     else readable_atom E (bare_key (fst e))) \<and> readable E ps pol (snd e)) \<and>
      (\<forall>e \<in> set es. hashable (hosts E) (fst e)) \<and> distinct_keys (hosts E) (map fst es) \<and>
      (\<forall>space. shared_ns ps (map fst es) = Some space \<longrightarrow>
         name_text E space \<and> hd space \<noteq> ch CHR '':''))"
| "readable E ps pol (FTagged t x) = (\<not> pol \<and> readable_tag E t \<and> readable E ps pol x)"
| "readable E ps pol (FCond xs splicing) =
     (\<not> process_cond E \<and> \<not> edn E \<and> feature_pairs [] xs \<noteq> None \<and>
      (\<forall>x \<in> set xs. readable E ps False x))"
| "readable E ps pol a = readable_atom E a"

lemma atom_starts:
  assumes "readable_atom E f" "faithful ps"
  shows "starts E (atom_repr ps f)"
proof -
  have char: "starts E (c # w)" if "is_digit c \<or> c \<in> set (lit ''-:ntf'') \<union> {QUOTE, BACKSLASH}" for c w
    using that by (auto simp: is_digit_def starts_def whitespace_def py_space_def lit_def ch_def QUOTE_def BACKSLASH_def)
  have num: "starts E w" if nt: "number_text w" for w
  proof -
    obtain c u where w: "w = c # u" "is_digit c \<or> c = ch CHR ''-''"
      using nt by (cases w) (auto simp: number_text_def)
    then have "is_digit c \<or> c \<in> set (lit ''-:ntf'') \<union> {QUOTE, BACKSLASH}"
      by (auto simp: lit_def ch_def)
    then show ?thesis using char w by simp
  qed
  show ?thesis
  proof (cases f)
    case (FInt n)
    then show ?thesis using num [OF int_repr_text] by simp
  next
    case (FRatio q)
    then show ?thesis using num [OF ratio_text] by simp
  next
    case (FStr w)
    then show ?thesis using assms(2) char [of QUOTE] by (simp add: faithful_def str_repr_escaped)
  next
    case (FChar c)
    then show ?thesis
      using assms(2) char [of BACKSLASH]
      by (cases "0xD800 \<le> c \<and> c \<le> 0xDFFF") (simp_all add: faithful_def char_lrepr_def BACKSLASH_def)
  next
    case (FSymbol ns n m)
    then have t: "symbol_text E ns n" using assms(1) by simp
    then obtain c u where w: "named_repr ns n = c # u"
      using named_repr_nonempty [of E n ns] by (cases "named_repr ns n") (auto simp: symbol_text_def)
    then have "ns_name_char E c" "\<not> whitespace E c" "c \<noteq> BACKSLASH" "c \<noteq> ch CHR '':''"
      using t by (auto simp: symbol_text_def symbol_start_def)
    then show ?thesis
      using w FSymbol
      by (auto simp: starts_def ns_name_char_def word_char_def is_digit_def is_letter_def punctuation_def
          lit_def BACKSLASH_def)
  qed (use assms(1) char in \<open>auto simp: lit_def\<close>)
qed

lemma lrepr_atom:
  assumes "readable_atom E f" "faithful ps"
  shows "lrepr ps f = atom_repr ps f"
  using assms by (cases f) (auto simp: faithful_simps split: option.split)

lemma lrepr_seq:
  assumes "faithful ps"
  shows "lrepr ps (FList xs m) = 40 # join (lit '' '') (map (lrepr ps) xs) @ [41]"
    "lrepr ps (FVector xs m) = 91 # join (lit '' '') (map (lrepr ps) xs) @ [93]"
    "lrepr ps (FSet xs m) = 35 # 123 # join (lit '' '') (map (lrepr ps) xs) @ [125]"
    "lrepr ps (FCond xs splicing) =
       35 # 63 # (if splicing then [64] else []) @ 40 # join (lit '' '') (map (lrepr ps) xs) @ [41]"
  by (simp_all add: seq_lrepr_def faithful_simps [OF assms] lit_def split: option.split)

definition key_text :: "'x print_settings \<Rightarrow> ('x form \<times> 'x form) list \<Rightarrow> 'x form \<Rightarrow> pystr" where
  "key_text ps es k =
     (if shared_ns ps (map fst es) = None then lrepr ps k else atom_repr ps (bare_key k))"

lemma lrepr_map:
  assumes "faithful ps"
  shows "lrepr ps (FMap es m) =
    (case shared_ns ps (map fst es) of None \<Rightarrow> [] | Some ns \<Rightarrow> 35 # 58 # ns) @
    123 # join (lit '', '') (map entry_text (map (\<lambda>e. (key_text ps es (fst e), lrepr ps (snd e))) es)) @ [125]"
  by (cases "shared_ns ps (map fst es)")
    (simp_all add: map_lrepr_def faithful_simps [OF assms] Let_def entry_text_def key_text_def comp_def
      lit_def split: option.split)

lemma lrepr_tagged:
  assumes "faithful ps" "readable_tag E t"
  obtains ns n m where "t = FSymbol ns n m" "symbol_text E ns n" "hd (named_repr ns n) \<notin> set (lit ''_!=?'')"
    "ns = None \<and> \<not> edn E \<longrightarrow> n \<noteq> lit ''b'' \<and> n \<noteq> lit ''f''"
    "lrepr ps (FTagged t x) = 35 # named_repr ns n @ 32 # lrepr ps x"
  using assms by (cases t) (auto simp: readable_tag_def faithful_simps lit_def)

lemma readable_element: "readable E ps pol f \<Longrightarrow> element E f"
  by (cases f) (auto simp: element_def is_cond_def)

lemma readable_starts:
  assumes "readable E ps pol f" "faithful ps"
  shows "starts E (lrepr ps f)"
proof -
  have open_char: "starts E (c # w)" if "c \<in> {35, 40, 91, 123}" for c w
    using that by (auto simp: starts_def whitespace_def py_space_def ch_def)
  show ?thesis
  proof (cases "readable_atom E f")
    case True
    then show ?thesis using atom_starts lrepr_atom assms(2) by metis
  next
    case False
    then show ?thesis
    proof (cases f)
      case (FMap es m)
      then show ?thesis
        using lrepr_map [OF assms(2), of es m] open_char by (auto split: option.splits)
    next
      case (FTagged t x)
      then have "readable_tag E t" using assms(1) by simp
      then show ?thesis by (rule lrepr_tagged [OF assms(2), of E t x]) (simp add: FTagged open_char)
    qed (use False assms(1) lrepr_seq [OF assms(2)] open_char in auto)
  qed
qed

lemma list_all2_self: "\<forall>x \<in> set xs. P (f x) x \<Longrightarrow> list_all2 P (map f xs) xs"
  by (induction xs) simp_all

lemma length_join: "x \<in> set ws \<Longrightarrow> length x \<le> length (join sep ws)"
  by (induction sep ws rule: join.induct) auto

text \<open>
  The induction hypothesis: from a state that does not quote and resolves tags if \<open>pol\<close>, \<open>f\<close> is
  read from its text with ten more turns of fuel than it has characters.
\<close>

definition reads_back :: "'x reader_env \<Rightarrow> pystr \<Rightarrow> bool \<Rightarrow> pystr \<Rightarrow> 'x form \<Rightarrow> bool" where
  "reads_back E src pol w f \<longleftrightarrow>
     (\<forall>s n. quotes s = [] \<longrightarrow> should_process_tags s = pol \<longrightarrow> length w + 10 < n \<longrightarrow>
        reads_as src (read_next E n) s w f)"

lemma reads_backI:
  fixes f :: "'x form"
  assumes "\<And>(s :: 'x rstate) n ys. quotes s = [] \<Longrightarrow> should_process_tags s = pol \<Longrightarrow> length w + 9 < n \<Longrightarrow>
      ahead src s (w @ ys) \<Longrightarrow> delimited ys \<Longrightarrow>
      yields src (read_form E (read_next E n) n) s (\<lambda>v. strip_meta v = strip_meta f) ys"
  shows "reads_back E src pol w f"
  unfolding reads_back_def reads_as_def
proof (intro allI impI)
  fix s t :: "'x rstate" and n ys
  assume s: "quotes s = []" "should_process_tags s = pol" and n: "length w + 10 < n"
    and t: "same_ctx s t" "ahead src t (w @ ys)" "delimited ys"
  obtain k where k: "n = Suc k" "length w + 9 < k" using n by (cases n) auto
  have "tag_policies t = tag_policies s" using t(1) by (cases s; cases t) (simp add: same_ctx_def)
  then show "yields src (read_next E n) t (\<lambda>v. strip_meta v = strip_meta f) ys"
    using assms [of t k ys] s t k same_ctx_quotes [OF t(1)] by (simp add: should_process_tags_def)
qed

lemma reads_back_items:
  assumes "\<forall>x \<in> set xs. reads_back E src pol (g x) (f x)" "\<forall>x \<in> set xs. starts E (g x)"
    and "\<forall>x \<in> set xs. element E (f x)" "quotes s = []" "should_process_tags s = pol"
    and "\<forall>x \<in> set xs. length (g x) + 10 < n"
  shows "\<forall>x \<in> set xs. item E src (read_next E n) s (g x) (f x)"
  using assms by (auto simp: item_def reads_back_def)

lemma elems_back:
  fixes s :: "'x rstate"
  assumes "\<forall>x \<in> set xs. reads_back E src pol (lrepr ps x) x" "\<forall>x \<in> set xs. readable E ps pol x" "faithful ps"
    and "ahead src s (join (lit '' '') (map (lrepr ps) xs) @ c # ys)" "closing c" "quotes s = []"
    and "should_process_tags s = pol" "length (join (lit '' '') (map (lrepr ps) xs)) + 10 < n"
  shows "yields src (read_elems E (read_next E n) c n []) s (\<lambda>vs. map strip_meta vs = map strip_meta xs) ys"
proof -
  have "length (lrepr ps x) + 10 < n" if "x \<in> set xs" for x
    using length_join [of "lrepr ps x" "map (lrepr ps) xs" "lit '' ''"] that assms(8) by simp
  moreover have "starts E (lrepr ps x)" "element E x" if "x \<in> set xs" for x
    using assms(2) that readable_starts [OF _ assms(3)] readable_element by blast+
  ultimately have "\<forall>x \<in> set xs. item E src (read_next E n) s (lrepr ps x) x"
    using assms(1,6,7) by (intro reads_back_items) auto
  then have "list_all2 (item E src (read_next E n) s) (map (lrepr ps) xs) xs" by (rule list_all2_self)
  then show ?thesis by (rule elems_join [OF _ same_ctx_refl assms(4,5)]) (use assms(8) in simp)
qed

lemma yields_expect:
  fixes s :: "'x rstate"
  assumes "ahead src s (c # xs)" "\<And>t. ahead src t xs \<Longrightarrow> same_ctx s t \<Longrightarrow> yields src m t P zs"
  shows "yields src (expect c m) s P zs"
  unfolding expect_def
  by (rule yields_advance [OF assms(1)], rule yields_else, simp, rule assms(2))

lemma same_ctx_tags: "same_ctx s t \<Longrightarrow> should_process_tags t = should_process_tags s"
  by (cases s; cases t) (simp add: same_ctx_def should_process_tags_def)

lemma seq_back:
  fixes s :: "'x rstate" and k :: "'x form list \<Rightarrow> ('x, 'x form) rm"
  assumes "\<forall>x \<in> set xs. reads_back E src pol (lrepr ps x) x" "\<forall>x \<in> set xs. readable E ps pol x" "faithful ps"
    and "ahead src s (d # join (lit '' '') (map (lrepr ps) xs) @ c # ys)" "closing c" "quotes s = []"
    and "should_process_tags s = pol" "length (join (lit '' '') (map (lrepr ps) xs)) + 10 < n"
    and "\<And>x. w \<noteq> FHost x" "\<And>vs t. map strip_meta vs = map strip_meta xs \<Longrightarrow> ahead src t ys \<Longrightarrow>
      yields src (k vs) t (\<lambda>v. strip_meta v = w) ys"
  shows "yields src (with_loc E (expect d (rdo (read_elems E (read_next E n) c n []) k))) s
    (\<lambda>v. strip_meta v = w) ys"
proof (rule yields_with_loc [OF assms(4) _ assms(9)], rule yields_expect, assumption)
  fix t u :: "'x rstate"
  assume t: "same_ctx s t" "same_ctx t u" and u: "ahead src u (join (lit '' '') (map (lrepr ps) xs) @ c # ys)"
  have "quotes u = []" "should_process_tags u = pol"
    using assms(6,7) same_ctx_quotes [OF t(1)] same_ctx_quotes [OF t(2)] same_ctx_tags [OF t(1)]
      same_ctx_tags [OF t(2)] by simp_all
  then have "yields src (read_elems E (read_next E n) c n []) u (\<lambda>vs. map strip_meta vs = map strip_meta xs) ys"
    by (rule elems_back [OF assms(1-3) u assms(5) _ _ assms(8)])
  then show "yields src (rdo (read_elems E (read_next E n) c n []) k) u (\<lambda>v. strip_meta v = w) ys"
    by (rule yields_rdo) (rule assms(10))
qed

lemma list_back:
  assumes "\<forall>x \<in> set xs. reads_back E src pol (lrepr ps x) x" "\<forall>x \<in> set xs. readable E ps pol x" "faithful ps"
  shows "reads_back E src pol (lrepr ps (FList xs m)) (FList xs m)"
proof (rule reads_backI)
  fix s :: "'a rstate" and n ys
  assume s: "quotes s = []" "should_process_tags s = pol" "length (lrepr ps (FList xs m)) + 9 < n"
    "ahead src s (lrepr ps (FList xs m) @ ys)" "delimited ys"
  have a: "ahead src s (ch CHR ''('' # join (lit '' '') (map (lrepr ps) xs) @ ch CHR '')'' # ys)"
    using s(4) by (simp add: lrepr_seq [OF assms(3)] ch_def del: lrepr.simps)
  show "yields src (read_form E (read_next E n) n) s (\<lambda>v. strip_meta v = strip_meta (FList xs m)) ys"
    by (rule dispatch_others(4) [OF a], unfold read_list_def, rule seq_back [OF assms a])
      (use s in \<open>auto simp: closing_def ch_def lrepr_seq [OF assms(3)] yields_ret simp del: lrepr.simps\<close>)
qed

lemma vector_back:
  assumes "\<forall>x \<in> set xs. reads_back E src pol (lrepr ps x) x" "\<forall>x \<in> set xs. readable E ps pol x" "faithful ps"
  shows "reads_back E src pol (lrepr ps (FVector xs m)) (FVector xs m)"
proof (rule reads_backI)
  fix s :: "'a rstate" and n ys
  assume s: "quotes s = []" "should_process_tags s = pol" "length (lrepr ps (FVector xs m)) + 9 < n"
    "ahead src s (lrepr ps (FVector xs m) @ ys)" "delimited ys"
  have a: "ahead src s (ch CHR ''['' # join (lit '' '') (map (lrepr ps) xs) @ ch CHR '']'' # ys)"
    using s(4) by (simp add: lrepr_seq [OF assms(3)] ch_def del: lrepr.simps)
  show "yields src (read_form E (read_next E n) n) s (\<lambda>v. strip_meta v = strip_meta (FVector xs m)) ys"
    by (rule dispatch_others(5) [OF a], unfold read_vector_def, rule seq_back [OF assms a])
      (use s in \<open>auto simp: closing_def ch_def lrepr_seq [OF assms(3)] yields_ret simp del: lrepr.simps\<close>)
qed

lemma macro_chars:
  "ch CHR ''#'' = 35" "ch CHR ''{'' = 123" "ch CHR ''^'' = 94" "ch CHR ''('' = 40" "ch CHR '':'' = 58" "ch CHR ''_'' = 95" "ch CHR ''!'' = 33"
  "ch CHR ''='' = 61" "ch CHR ''?'' = 63" "ch CHR ''@'' = 64" "ch CHR '')'' = 41" "ch CHR ''}'' = 125"
  by (simp_all add: ch_def)

lemma set_back:
  assumes "\<forall>x \<in> set xs. reads_back E src pol (lrepr ps x) x" "readable E ps pol (FSet xs m)" "faithful ps"
  shows "reads_back E src pol (lrepr ps (FSet xs m)) (FSet xs m)"
proof (rule reads_backI)
  fix s :: "'a rstate" and n ys
  assume s: "quotes s = []" "should_process_tags s = pol" "length (lrepr ps (FSet xs m)) + 9 < n"
    "ahead src s (lrepr ps (FSet xs m) @ ys)" "delimited ys"
  let ?inner = "join (lit '' '') (map (lrepr ps) xs) @ ch CHR ''}'' # ys"
  have a: "ahead src s (ch CHR ''#'' # ch CHR ''{'' # ?inner)"
    using s(4) by (simp add: lrepr_seq [OF assms(3)] macro_chars del: lrepr.simps)
  have r: "\<forall>x \<in> set xs. readable E ps pol x" using assms(2) by simp
  have "yields src (read_set E (read_next E n) n) t (\<lambda>v. strip_meta v = strip_meta (FSet xs m)) ys"
    if t: "ahead src t (ch CHR ''{'' # ?inner)" "same_ctx s t" for t
    unfolding read_set_def
  proof (rule seq_back [OF assms(1) r assms(3) t(1)])
    show "yields src (set_if_valid E vs) u (\<lambda>v. strip_meta v = strip_meta (FSet xs m)) ys"
      if "map strip_meta vs = map strip_meta xs" "ahead src u ys" for vs u
      using assms(2) that by (intro set_if_valid_run) auto
  qed (use s same_ctx_quotes [OF t(2)] same_ctx_tags [OF t(2)] in
      \<open>auto simp: closing_def ch_def lrepr_seq [OF assms(3)] simp del: lrepr.simps\<close>)
  then show "yields src (read_form E (read_next E n) n) s (\<lambda>v. strip_meta v = strip_meta (FSet xs m)) ys"
    by (intro dispatch_others(7) [OF a], unfold read_reader_macro_def)
      (rule yields_expect [OF a], rule yields_peek, assumption, rule yields_then, simp_all)
qed

text \<open>The entries of a printed map, with or without a shared namespace.\<close>

lemma key_text_back:
  assumes "readable E ps pol (FMap es m)" "faithful ps" "e \<in> set es"
    and "shared_ns ps (map fst es) = None \<Longrightarrow> reads_back E src pol (lrepr ps (fst e)) (fst e)"
    and "\<And>a. readable_atom E a \<Longrightarrow> reads_back E src pol (atom_repr ps a) a"
  shows "reads_back E src pol (key_text ps es (fst e)) (shown_key ps es (fst e)) \<and>
    starts E (key_text ps es (fst e)) \<and> element E (shown_key ps es (fst e))"
proof (cases "shared_ns ps (map fst es) = None")
  case True
  then have "readable E ps pol (fst e)" using assms(1,3) by simp
  then show ?thesis
    using True assms(4) readable_starts [OF _ assms(2)] readable_element
    by (simp add: key_text_def shown_key_def) blast
next
  case False
  then have r: "readable_atom E (bare_key (fst e))" using assms(1,3) by simp
  moreover have "element E (bare_key (fst e))"
    using r by (cases "bare_key (fst e)") (auto simp: element_def is_cond_def)
  ultimately show ?thesis
    using False assms(5) atom_starts [OF r assms(2)] by (simp add: key_text_def shown_key_def del: not_None_eq)
qed

lemma process_shown_key:
  assumes "e \<in> set es"
  shows "strip_meta (process_key (shared_ns ps (map fst es)) (shown_key ps es (fst e))) = strip_meta (fst e)"
proof (cases "shared_ns ps (map fst es)")
  case None
  then show ?thesis by (simp add: shown_key_def)
next
  case (Some ns)
  then have "key_ns (fst e) = Some ns" using assms by (auto simp: shared_ns_def split: if_splits)
  then show ?thesis using Some by (cases "fst e") (simp_all add: shown_key_def)
qed

lemma read_map_back:
  fixes s :: "'x rstate" and E :: "'x reader_env"
  assumes "readable E ps pol (FMap es m)" "faithful ps"
    and "shared_ns ps (map fst es) = None \<longrightarrow> (\<forall>e \<in> set es. reads_back E src pol (lrepr ps (fst e)) (fst e))"
    and "\<forall>e \<in> set es. reads_back E src pol (lrepr ps (snd e)) (snd e)"
    and "\<And>a. readable_atom E a \<Longrightarrow> reads_back E src pol (atom_repr ps a) a"
    and "inner = join (lit '', '') (map entry_text (map (\<lambda>e. (key_text ps es (fst e), lrepr ps (snd e))) es))"
    and "ahead src s (ch CHR ''{'' # inner @ ch CHR ''}'' # ys)" "quotes s = []"
    and "should_process_tags s = pol" "length inner + 10 < n"
  shows "yields src (read_map E (read_next E n) n (shared_ns ps (map fst es))) s
    (\<lambda>v. strip_meta v = strip_meta (FMap es m)) ys"
  unfolding read_map_def
proof (rule yields_with_loc [OF assms(7)], rule yields_expect, assumption)
  let ?ws = "map (\<lambda>e. (key_text ps es (fst e), lrepr ps (snd e))) es"
  let ?ds = "map (\<lambda>e. (shown_key ps es (fst e), snd e)) es"
  fix t u :: "'x rstate"
  assume t: "same_ctx s t" "same_ctx t u" and u: "ahead src u (inner @ ch CHR ''}'' # ys)"
  have ctx: "quotes u = []" "should_process_tags u = pol"
    using assms(8,9) same_ctx_quotes [OF t(1)] same_ctx_quotes [OF t(2)] same_ctx_tags [OF t(1)]
      same_ctx_tags [OF t(2)] by simp_all
  have entry: "entry_item E src (read_next E n) u (key_text ps es (fst e), lrepr ps (snd e))
      (shown_key ps es (fst e), snd e)" if e: "e \<in> set es" for e
  proof -
    have "entry_text (key_text ps es (fst e), lrepr ps (snd e)) \<in> set (map entry_text ?ws)" using e by force
    from length_join [OF this, of "lit '', ''"]
    have len: "length (key_text ps es (fst e)) + 10 < n" "length (lrepr ps (snd e)) + 10 < n"
      using assms(10) by (simp_all add: assms(6) entry_text_def)
    have r: "readable E ps pol (snd e)" using assms(1) e by simp
    have k: "reads_back E src pol (key_text ps es (fst e)) (shown_key ps es (fst e)) \<and>
      starts E (key_text ps es (fst e)) \<and> element E (shown_key ps es (fst e))"
      by (rule key_text_back [OF assms(1,2) e]) (use assms(3,5) e in auto)
    show ?thesis
      using k len ctx assms(4) e readable_starts [OF r assms(2)] readable_element [OF r]
      by (auto simp: entry_item_def item_def reads_back_def)
  qed
  have "list_all2 (entry_item E src (read_next E n) u) ?ws ?ds"
    using entry by (simp add: list_all2_map1 list_all2_map2 list.rel_refl_strong)
  from entries_join [OF this same_ctx_refl u [unfolded assms(6)], of n]
  have read: "yields src (read_elems E (read_next E n) (ch CHR ''}'') n []) u
      (\<lambda>vs. map strip_meta vs = map strip_meta (flat_entries ?ds)) ys"
    using assms(10) by (simp add: closing_def ch_def assms(6))
  have read': "yields src (value_error_as_syntax (read_elems E (read_next E n) (ch CHR ''}'') n [])) u
      (\<lambda>vs. map strip_meta vs = map strip_meta (flat_entries ?ds)) ys"
    using read by (auto simp: yields_def value_error_as_syntax_def)
  show "yields src (rdo (value_error_as_syntax (read_elems E (read_next E n) (ch CHR ''}'') n [])) (\<lambda>xs.
         case map_entries E (shared_ns ps (map fst es)) [] xs of
           None \<Rightarrow> syntax_error
         | Some es \<Rightarrow> lift_res (make_map (hosts E) es None))) u
      (\<lambda>v. strip_meta v = strip_meta (FMap es m)) ys"
    by (rule yields_rdo [OF read'], rule make_map_run [where bk = "shown_key ps es"])
      (use assms(1) process_shown_key in auto)
qed simp

lemma whitespace_here:
  fixes s :: "'x rstate"
  assumes "ahead src s (c # xs)" "\<not> whitespace E c" "0 < n"
  shows "yields src (consume_whitespace E n) s (\<lambda>_. True) (c # xs)"
proof -
  obtain k where n: "n = Suc k" using assms(3) by (cases n) auto
  show ?thesis
    unfolding n consume_whitespace.simps using assms(2)
    by (intro yields_peek [OF assms(1)] yields_else) (simp_all add: on_char_def yields_ret assms(1))
qed

lemma map_back:
  fixes E :: "'x reader_env"
  assumes "readable E ps pol (FMap es m)" "faithful ps"
    and "shared_ns ps (map fst es) = None \<longrightarrow> (\<forall>e \<in> set es. reads_back E src pol (lrepr ps (fst e)) (fst e))"
    and "\<forall>e \<in> set es. reads_back E src pol (lrepr ps (snd e)) (snd e)"
    and "\<And>a. readable_atom E a \<Longrightarrow> reads_back E src pol (atom_repr ps a) a"
  shows "reads_back E src pol (lrepr ps (FMap es m)) (FMap es m)"
proof (rule reads_backI)
  let ?inner = "join (lit '', '') (map entry_text (map (\<lambda>e. (key_text ps es (fst e), lrepr ps (snd e))) es))"
  let ?space = "shared_ns ps (map fst es)"
  fix s :: "'x rstate" and n ys
  assume s: "quotes s = []" "should_process_tags s = pol" "length (lrepr ps (FMap es m)) + 9 < n"
    "ahead src s (lrepr ps (FMap es m) @ ys)" "delimited ys"
  have len: "length ?inner + 10 < n" using s(3) by (simp add: lrepr_map [OF assms(2)] del: lrepr.simps)
  have run: "yields src (read_map E (read_next E n) n ?space) t (\<lambda>v. strip_meta v = strip_meta (FMap es m)) ys"
    if t: "ahead src t (ch CHR ''{'' # ?inner @ ch CHR ''}'' # ys)" "same_ctx s t" for t
    by (rule read_map_back [OF assms refl t(1) _ _ len])
      (use s(1,2) same_ctx_quotes [OF t(2)] same_ctx_tags [OF t(2)] in simp_all)
  show "yields src (read_form E (read_next E n) n) s (\<lambda>v. strip_meta v = strip_meta (FMap es m)) ys"
  proof (cases ?space)
    case None
    have a: "ahead src s (ch CHR ''{'' # ?inner @ ch CHR ''}'' # ys)"
      using s(4) None by (simp add: lrepr_map [OF assms(2)] macro_chars del: lrepr.simps)
    show ?thesis using run [OF a same_ctx_refl] None by (intro dispatch_others(6) [OF a]) simp
  next
    case (Some ns)
    then have ns: "name_text E ns" "hd ns \<noteq> ch CHR '':''" using assms(1) by simp_all
    obtain c w where w: "ns = c # w" "c \<noteq> ch CHR '':''" using ns by (cases ns) (auto simp: name_text_def)
    let ?rest = "ch CHR ''{'' # ?inner @ ch CHR ''}'' # ys"
    have a: "ahead src s (ch CHR ''#'' # ch CHR '':'' # ns @ ?rest)"
      using s(4) Some by (simp add: lrepr_map [OF assms(2)] macro_chars del: lrepr.simps)
    have n: "length ns < n" using s(3) Some by (simp add: lrepr_map [OF assms(2)] del: lrepr.simps)
    have "yields src (read_namespaced_map E (read_next E n) n) t (\<lambda>v. strip_meta v = strip_meta (FMap es m)) ys"
      if t: "ahead src t (ch CHR '':'' # ns @ ?rest)" "same_ctx s t" for t
      unfolding read_namespaced_map_def
    proof (rule yields_peek [OF t(1)], rule yields_else, simp, rule yields_advance [OF t(1)])
      fix u :: "'x rstate"
      assume u: "ahead src u (ns @ ?rest)" "same_ctx t u"
      have "yields src (read_namespaced E n None) u (\<lambda>r. r = (None, ns)) ?rest"
        by (rule read_namespaced_run)
          (use u(1) ns(1) n in \<open>auto simp: named_repr_def ns_text_def delimited_def lit_def ch_def\<close>)
      then have "yields src (rdo (read_namespaced E n None) (\<lambda>(kw_ns, map_ns).
          if kw_ns \<noteq> None then syntax_error else ret map_ns)) u (\<lambda>r. r = ns) ?rest"
        by (rule yields_rdo) (auto intro: yields_ret)
      then have "yields src (rdo (rdo (read_namespaced E n None) (\<lambda>(kw_ns, map_ns).
          if kw_ns \<noteq> None then syntax_error else ret map_ns))
          (\<lambda>map_ns. rdo (consume_whitespace E n) (\<lambda>_. read_map E (read_next E n) n (Some map_ns)))) u
          (\<lambda>v. strip_meta v = strip_meta (FMap es m)) ys"
      proof (rule yields_rdo)
        fix r and v :: "'x rstate"
        assume r: "r = ns" and v: "ahead src v ?rest" "same_ctx u v"
        have "\<not> whitespace E (ch CHR ''{'')" by (simp add: whitespace_def py_space_def ch_def)
        moreover have "0 < n" using n by simp
        ultimately have "yields src (consume_whitespace E n) v (\<lambda>_. True) ?rest"
          by (rule whitespace_here [OF v(1)])
        then show "yields src (rdo (consume_whitespace E n) (\<lambda>_. read_map E (read_next E n) n (Some r))) v
            (\<lambda>v. strip_meta v = strip_meta (FMap es m)) ys"
        proof (rule yields_rdo)
          fix d and x :: "'x rstate"
          assume x: "ahead src x ?rest" "same_ctx v x"
          have "same_ctx s x"
            by (rule same_ctx_trans [OF t(2) same_ctx_trans [OF u(2) same_ctx_trans [OF v(2) x(2)]]])
          then show "yields src (read_map E (read_next E n) n (Some r)) x
              (\<lambda>v. strip_meta v = strip_meta (FMap es m)) ys"
            using run [OF x(1)] by (simp only: Some r)
        qed
      qed
      then show "yields src (rdo peek (\<lambda>c. rdo (if c = Some (ch CHR '':'') then rdo advance (\<lambda>_. ret (current_ns E))
              else rdo (read_namespaced E n None) (\<lambda>(kw_ns, map_ns).
                if kw_ns \<noteq> None then syntax_error else ret map_ns))
           (\<lambda>map_ns. rdo (consume_whitespace E n) (\<lambda>_. read_map E (read_next E n) n (Some map_ns))))) u
           (\<lambda>v. strip_meta v = strip_meta (FMap es m)) ys"
        using u(1) w by (intro yields_peek [of src u "c # w @ ?rest"]) simp_all
    qed
    then show ?thesis
      by (intro dispatch_others(7) [OF a], unfold read_reader_macro_def)
        (rule yields_expect [OF a], rule yields_peek, assumption, simp add: macro_chars del: strip_meta.simps)
  qed
qed

section \<open>Tagged literals and reader conditionals\<close>

text \<open>A form after a space.\<close>

lemma dispatch_space:
  fixes s :: "'x rstate"
  assumes "ahead src s (32 # c # xs)" "\<not> whitespace E c" "1 < n"
    and "\<And>t. ahead src t (c # xs) \<Longrightarrow> same_ctx s t \<Longrightarrow> yields src rd t P zs"
  shows "yields src (read_form E rd n) s P zs"
proof -
  obtain k where n: "n = Suc k" "0 < k" using assms(3) by (cases n) auto
  have "yields src (rdo next_char (\<lambda>_. consume_whitespace E k)) s (\<lambda>_. True) (c # xs)"
    by (rule yields_next [OF assms(1)], rule whitespace_here [OF _ assms(2) n(2)])
  then have "yields src (consume_whitespace E n) s (\<lambda>_. True) (c # xs)"
    unfolding n(1) consume_whitespace.simps using whitespace_separators(1) [of E]
    by (intro yields_peek [OF assms(1)] yields_then) (simp_all add: on_char_def)
  then have "yields src (rdo (consume_whitespace E n) (\<lambda>_. rd)) s P zs"
    by (rule yields_rdo) (rule assms(4))
  then show ?thesis
    unfolding read_form_def using whitespace_separators(1) [of E]
    by (intro yields_peek [OF assms(1)]) (simp add: on_char_def is_digit_def lit_def ch_def)
qed

lemma strip_symbol: "strip_meta v = FSymbol ns n None \<Longrightarrow> \<exists>m. v = FSymbol ns n m"
  by (cases v) auto

lemma macro_tag:
  fixes s :: "'x rstate"
  assumes "ahead src s (ch CHR ''#'' # c # xs)" "ns_name_char E c" "c \<noteq> ch CHR '':''" "c \<noteq> BACKSLASH"
    and "c \<notin> set (lit ''_!=?'')"
    and "\<And>t. ahead src t (c # xs) \<Longrightarrow> same_ctx s t \<Longrightarrow> yields src (read_tagged E rd n) t P zs"
  shows "yields src (read_reader_macro E rd n) s P zs"
proof -
  have "c \<noteq> ch CHR ''^''" "c \<noteq> ch CHR ''#''"
    using assms(2) by (auto simp: ns_name_char_def word_char_def is_digit_def is_letter_def punctuation_def
        lit_def ch_def)
  note c = this name_start_not [OF assms(2,4,3)] assms(2,3,5)
  show ?thesis
    unfolding read_reader_macro_def
    by (rule yields_expect [OF assms(1)], rule yields_peek, assumption)
      (use c in \<open>simp add: on_char_def lit_def macro_chars assms(6)\<close>)
qed

lemma tagged_back:
  fixes E :: "'x reader_env"
  assumes "readable E ps pol (FTagged tag x)" "faithful ps" "reads_back E src pol (lrepr ps x) x"
  shows "reads_back E src pol (lrepr ps (FTagged tag x)) (FTagged tag x)"
proof -
  have t: "readable_tag E tag" and pol: "\<not> pol" and x: "readable E ps pol x" using assms(1) by auto
  obtain ns name m where tag: "tag = FSymbol ns name m" "symbol_text E ns name"
    "hd (named_repr ns name) \<notin> set (lit ''_!=?'')"
    "ns = None \<and> \<not> edn E \<longrightarrow> name \<noteq> lit ''b'' \<and> name \<noteq> lit ''f''"
    "lrepr ps (FTagged tag x) = 35 # named_repr ns name @ 32 # lrepr ps x"
    using lrepr_tagged [OF assms(2) t] by metis
  obtain c u where w: "named_repr ns name = c # u"
    using tag(2) named_repr_nonempty [of E name ns] by (cases "named_repr ns name") (auto simp: symbol_text_def)
  obtain d v where d: "lrepr ps x = d # v" "\<not> whitespace E d"
    using readable_starts [OF x assms(2)] by (cases "lrepr ps x") (auto simp: starts_def)
  show ?thesis
  proof (rule reads_backI)
    fix s :: "'x rstate" and n ys
    assume s: "quotes s = []" "should_process_tags s = pol" "length (lrepr ps (FTagged tag x)) + 9 < n"
      "ahead src s (lrepr ps (FTagged tag x) @ ys)" "delimited ys"
    have a: "ahead src s (ch CHR ''#'' # c # u @ 32 # lrepr ps x @ ys)"
      using s(4) by (simp add: tag(5) w macro_chars del: lrepr.simps)
    obtain k where n: "n = Suc k" "length (lrepr ps x) + 10 < k" "1 < k"
      using s(3) w by (cases n) (auto simp: tag(5) simp del: lrepr.simps)
    have tagged: "yields src (read_tagged E (read_next E n) n) t (\<lambda>r. strip_meta r = strip_meta (FTagged tag x)) ys"
      if t: "ahead src t (c # u @ 32 # lrepr ps x @ ys)" "same_ctx s t" for t
      unfolding read_tagged_def
    proof (rule yields_rdo)
      show "yields src (read_sym E n True) t (\<lambda>r. strip_meta r = FSymbol ns name None) (32 # lrepr ps x @ ys)"
        by (rule read_sym_run [where ns = ns and name = name])
          (use t(1) tag(2) w s(1,3) same_ctx_quotes [OF t(2)] in
            \<open>auto simp: symbol_text_def delimited_def lit_def tag(5) simp del: lrepr.simps\<close>)
      fix r :: "'x form" and q :: "'x rstate"
      assume r: "strip_meta r = FSymbol ns name None" and q: "ahead src q (32 # lrepr ps x @ ys)" "same_ctx t q"
      obtain m' where r': "r = FSymbol ns name m'" using strip_symbol [OF r] by blast
      have c: "same_ctx s q" using t(2) q(2) same_ctx_trans by blast
      have ahead: "ahead src q (32 # d # v @ ys)" using q(1) d(1) by simp
      have next_form_n: "next_form rd n = rdo rd (\<lambda>f. if f = FComment then next_form rd k else ret f)"
        for rd :: "('x, 'x form) rm" by (simp add: n(1) next_form.simps)
      have "yields src (read_next E n) q (\<lambda>f. strip_meta f = strip_meta x) ys"
        unfolding n(1) read_next.simps
      proof (rule dispatch_space [OF ahead d(2) n(3)])
        fix p :: "'x rstate"
        assume p: "ahead src p (d # v @ ys)" "same_ctx q p"
        have "same_ctx s p" by (rule same_ctx_trans [OF c p(2)])
        then show "yields src (read_next E k) p (\<lambda>f. strip_meta f = strip_meta x) ys"
          using assms(3) s(1,2,5) n(2) p(1) d(1) by (simp add: reads_back_def reads_as_def)
      qed
      then have "yields src (rdo (read_next E n) (\<lambda>f. if f = FComment then next_form (read_next E n) k else ret f)) q
          (\<lambda>f. strip_meta f = strip_meta x) ys"
      proof (rule yields_rdo)
        fix f and p :: "'x rstate"
        assume f: "strip_meta f = strip_meta x" and p: "ahead src p ys"
        have "x \<noteq> FComment" using x by auto
        then have "f \<noteq> FComment" using f by (cases x) auto
        then show "yields src (if f = FComment then next_form (read_next E n) k else ret f) p
            (\<lambda>f. strip_meta f = strip_meta x) ys"
          using f p by (simp add: yields_ret)
      qed
      then have next_run: "yields src (next_form (read_next E n) n) q (\<lambda>f. strip_meta f = strip_meta x) ys"
        by (simp only: next_form_n)
      have "yields src (rdo (next_form (read_next E n) n) (\<lambda>v s.
          if should_process_tags s then resolve_tagged_literal E r v s else ret (FTagged r v) s)) q
          (\<lambda>f. strip_meta f = strip_meta (FTagged tag x)) ys"
      proof (rule yields_rdo [OF next_run])
        fix f :: "'x form" and p :: "'x rstate"
        assume f: "strip_meta f = strip_meta x" and p: "ahead src p ys" "same_ctx q p"
        have "\<not> should_process_tags p"
          using same_ctx_tags [OF same_ctx_trans [OF c p(2)]] s(2) pol by simp
        then show "yields src (\<lambda>s. if should_process_tags s then resolve_tagged_literal E r f s
            else ret (FTagged r f) s) p (\<lambda>f. strip_meta f = strip_meta (FTagged tag x)) ys"
          using f p(1) r by (auto simp: yields_def ret_def tag(1))
      qed
      then show "yields src (case r of
         FSymbol ns name m \<Rightarrow>
           if ns = None \<and> \<not> edn E \<and> name = lit ''b'' then read_byte_str E n
           else if ns = None \<and> \<not> edn E \<and> name = lit ''f'' then read_fstr E (read_next E n) n
           else rdo (next_form (read_next E n) n) (\<lambda>v s.
             if should_process_tags s then resolve_tagged_literal E r v s
             else ret (FTagged r v) s)
       | _ \<Rightarrow> assertion_error) q (\<lambda>f. strip_meta f = strip_meta (FTagged tag x)) ys"
        using tag(4) r' by auto
    qed
    show "yields src (read_form E (read_next E n) n) s (\<lambda>r. strip_meta r = strip_meta (FTagged tag x)) ys"
      by (rule dispatch_others(7) [OF a], rule macro_tag [OF a _ _ _ _ tagged])
        (use tag(2,3) w in \<open>auto simp: symbol_text_def symbol_start_def\<close>)
  qed
qed

lemma ahead_context [simp]: "ahead src (s\<lparr>tag_policies := b\<rparr>) xs = ahead src s xs"
  by (simp add: ahead_def)

lemma yields_with_tag_policy:
  fixes s :: "'x rstate"
  assumes "yields src m (s\<lparr>tag_policies := b # tag_policies s\<rparr>) P zs"
  shows "yields src (with_tag_policy b m) s P zs"
proof -
  obtain a t where t: "m (s\<lparr>tag_policies := b # tag_policies s\<rparr>) = Inr (a, t)" "P a" "ahead src t zs"
    "same_ctx (s\<lparr>tag_policies := b # tag_policies s\<rparr>) t"
    using assms by (auto simp: yields_def)
  have "same_ctx s (t\<lparr>tag_policies := tl (tag_policies t)\<rparr>)"
    using t(4) by (cases s; cases t) (simp add: same_ctx_def)
  then show ?thesis using t(1-3) by (simp add: yields_def with_tag_policy_def rdo_def ret_def)
qed

lemma feature_pairs_strip:
  "map strip_meta xs = map strip_meta ys \<Longrightarrow> (feature_pairs seen xs = None) = (feature_pairs seen ys = None)"
proof (induction seen xs arbitrary: ys rule: feature_pairs.induct)
  case (3 seen k v rest)
  obtain k' v' rest' where ys: "ys = k' # v' # rest'" "strip_meta k = strip_meta k'"
    "map strip_meta rest = map strip_meta rest'"
    using "3.prems" by (auto simp: Cons_eq_map_conv map_eq_Cons_conv)
  show ?case
  proof (cases "\<exists>ns n. k = FKeyword ns n")
    case True
    then have "k' = k" using ys(2) by (cases k') auto
    then show ?thesis using True "3.IH" ys(1,3) by auto
  next
    case False
    then have "\<nexists>ns n. k' = FKeyword ns n" using ys(2) by (cases k) auto
    then show ?thesis using False ys(1) by (cases k; cases k') auto
  qed
qed (auto simp: Cons_eq_map_conv map_eq_Cons_conv)

lemma cond_form_back:
  fixes E :: "'x reader_env" and s :: "'x rstate"
  assumes "readable E ps pol (FCond xs splicing)" "faithful ps"
    and "\<forall>x \<in> set xs. reads_back E src False (lrepr ps x) x"
    and "ahead src s (join (lit '' '') (map (lrepr ps) xs) @ ch CHR '')'' # ys)" "quotes s = []"
    and "length (join (lit '' '') (map (lrepr ps) xs)) + 10 < n"
  shows "yields src (read_cond_form E (read_next E n) n splicing) s
    (\<lambda>v. strip_meta v = strip_meta (FCond xs splicing)) ys"
proof -
  have xs: "\<forall>x \<in> set xs. readable E ps False x" "feature_pairs [] xs \<noteq> None" using assms(1) by simp_all
  have "item E src (with_tag_policy False (read_next E n)) s (lrepr ps x) x" if x: "x \<in> set xs" for x
    unfolding item_def reads_as_def
  proof (intro conjI allI impI)
    show "starts E (lrepr ps x)" "element E x"
      using xs(1) x readable_starts [OF _ assms(2)] readable_element by blast+
    fix t :: "'x rstate" and zs
    assume t: "same_ctx s t" "ahead src t (lrepr ps x @ zs)" "delimited zs"
    let ?u = "t\<lparr>tag_policies := False # tag_policies t\<rparr>"
    have "length (lrepr ps x) + 10 < n"
      using length_join [of "lrepr ps x" "map (lrepr ps) xs" "lit '' ''"] x assms(6) by simp
    moreover have "quotes ?u = []" "should_process_tags ?u = False"
      using same_ctx_quotes [OF t(1)] assms(5) by (simp_all add: should_process_tags_def)
    moreover have "ahead src ?u (lrepr ps x @ zs)" using t(2) by simp
    ultimately have "yields src (read_next E n) ?u (\<lambda>v. strip_meta v = strip_meta x) zs"
      using assms(3) x t(3) same_ctx_refl unfolding reads_back_def reads_as_def by blast
    then show "yields src (with_tag_policy False (read_next E n)) t (\<lambda>v. strip_meta v = strip_meta x) zs"
      by (rule yields_with_tag_policy)
  qed
  then have "list_all2 (item E src (with_tag_policy False (read_next E n)) s) (map (lrepr ps) xs) xs"
    by (intro list_all2_self) blast
  then have "yields src (read_elems E (with_tag_policy False (read_next E n)) (ch CHR '')'') n []) s
      (\<lambda>vs. map strip_meta vs = map strip_meta xs) ys"
    by (rule elems_join [OF _ same_ctx_refl assms(4)]) (use assms(6) in \<open>simp_all add: closing_def ch_def\<close>)
  then show ?thesis
    unfolding read_cond_form_def
  proof (rule yields_rdo)
    fix vs and t :: "'x rstate"
    assume vs: "map strip_meta vs = map strip_meta xs" and t: "ahead src t ys"
    have "feature_pairs [] vs \<noteq> None" using feature_pairs_strip [OF vs] xs(2) by simp
    then show "yields src (case feature_pairs [] vs of None \<Rightarrow> syntax_error | Some ps \<Rightarrow> ret (FCond vs splicing)) t
        (\<lambda>v. strip_meta v = strip_meta (FCond xs splicing)) ys"
      using yields_ret [OF t, of "\<lambda>v. strip_meta v = strip_meta (FCond xs splicing)" "FCond vs splicing"] vs
      by auto
  qed
qed

lemma cond_back:
  fixes E :: "'x reader_env"
  assumes "readable E ps pol (FCond xs splicing)" "faithful ps"
    and "\<forall>x \<in> set xs. reads_back E src False (lrepr ps x) x"
  shows "reads_back E src pol (lrepr ps (FCond xs splicing)) (FCond xs splicing)"
proof (rule reads_backI)
  let ?w = "strip_meta (FCond xs splicing)"
  let ?inner = "join (lit '' '') (map (lrepr ps) xs)"
  fix s :: "'x rstate" and n ys
  assume s: "quotes s = []" "should_process_tags s = pol" "length (lrepr ps (FCond xs splicing)) + 9 < n"
    "ahead src s (lrepr ps (FCond xs splicing) @ ys)" "delimited ys"
  let ?open = "ch CHR ''('' # ?inner @ ch CHR '')'' # ys"
  let ?mark = "(if splicing then [ch CHR ''@''] else []) @ ?open"
  have a: "ahead src s (ch CHR ''#'' # ch CHR ''?'' # ?mark)"
    using s(4) by (simp add: lrepr_seq [OF assms(2)] macro_chars del: lrepr.simps split: if_splits)
  have len: "length ?inner + 10 < n" using s(3) by (simp add: lrepr_seq [OF assms(2)] del: lrepr.simps)
  have keep: "\<not> process_cond E" "\<not> edn E" using assms(1) by simp_all
  have "yields src (read_reader_conditional E (read_next E n) n) t (\<lambda>v. strip_meta v = ?w) ys"
    if t: "ahead src t (ch CHR ''?'' # ?mark)" "same_ctx s t" for t
    unfolding read_reader_conditional_def
  proof (rule yields_expect [OF t(1)])
    fix u :: "'x rstate"
    assume u: "ahead src u ?mark" "same_ctx t u"
    let ?choose = "\<lambda>c. if c = Some (ch CHR ''@'') then rdo advance (\<lambda>_. ret True)
            else if c = Some (ch CHR ''('') then ret False else syntax_error"
    have choice: "yields src (?choose (first ?mark)) u (\<lambda>b. b = splicing) ?open"
    proof (cases splicing)
      case True
      then have "ahead src u (ch CHR ''@'' # ?open)" using u(1) by simp
      then have "yields src (rdo advance (\<lambda>_. ret True)) u (\<lambda>b. b = splicing) ?open"
        by (rule yields_advance) (simp add: True yields_ret)
      then show ?thesis using True by simp
    next
      case False
      then show ?thesis using u(1) by (simp add: macro_chars yields_ret)
    qed
    show "yields src (rdo peek (\<lambda>c. rdo (?choose c) (\<lambda>splicing. rdo advance (\<lambda>open_char.
         if open_char \<noteq> Some (ch CHR ''('') then syntax_error
         else rdo (read_cond_form E (read_next E n) n splicing) (\<lambda>cond.
           if process_cond E \<and> \<not> splicing then
             rdo (select_branch E cond) (\<lambda>f. ret (if f = FAbsent then FComment else f))
           else ret cond))))) u (\<lambda>v. strip_meta v = ?w) ys"
    proof (rule yields_peek [OF u(1)], rule yields_rdo [OF choice], rule yields_advance, assumption,
        rule yields_else, simp, rule yields_rdo)
      fix b and q p :: "'x rstate"
      assume b: "b = splicing" and q: "same_ctx u q" "same_ctx q p" and p: "ahead src p (?inner @ ch CHR '')'' # ys)"
      have "quotes p = []"
        using s(1) same_ctx_quotes [OF t(2)] same_ctx_quotes [OF u(2)] same_ctx_quotes [OF q(1)]
          same_ctx_quotes [OF q(2)] by simp
      then show "yields src (read_cond_form E (read_next E n) n b) p (\<lambda>v. strip_meta v = ?w) ys"
        unfolding b by (rule cond_form_back [OF assms p _ len])
    qed (use keep in \<open>simp add: yields_ret del: strip_meta.simps\<close>)
  qed
  then have macro: "yields src (as_syntax_error (read_reader_conditional E (read_next E n) n)) t (\<lambda>v. strip_meta v = ?w) ys"
    if "ahead src t (ch CHR ''?'' # ?mark)" "same_ctx s t" for t
    using that by (fastforce simp: yields_def as_syntax_error_def)
  show "yields src (read_form E (read_next E n) n) s (\<lambda>v. strip_meta v = ?w) ys"
    by (rule dispatch_others(7) [OF a], unfold read_reader_macro_def, rule yields_expect [OF a],
        rule yields_peek, assumption)
      (simp add: QUOTE_def unless_edn_def keep macro del: strip_meta.simps, simp add: ch_def)
qed

section \<open>The round trip\<close>

lemma atom_back:
  assumes "readable_atom E a" "faithful ps"
  shows "reads_back E src pol (atom_repr ps a) a"
  by (rule reads_backI, rule read_atom_run) (use assms in auto)

lemma readable_back:
  "readable E ps pol f \<Longrightarrow> faithful ps \<Longrightarrow> reads_back E src pol (lrepr ps f) f"
proof (induction E ps pol f rule: readable.induct)
  case (1 E ps pol xs m)
  then show ?case by (intro list_back) auto
next
  case (2 E ps pol xs m)
  then show ?case by (intro vector_back) auto
next
  case (3 E ps pol xs m)
  then show ?case by (intro set_back) auto
next
  case (4 E ps pol es m)
  show ?case
  proof (rule map_back [OF "4.prems"])
    show "shared_ns ps (map fst es) = None \<longrightarrow> (\<forall>e \<in> set es. reads_back E src pol (lrepr ps (fst e)) (fst e))"
      using "4.IH"(1) "4.prems" by auto
    show "\<forall>e \<in> set es. reads_back E src pol (lrepr ps (snd e)) (snd e)"
      using "4.IH"(2) "4.prems" by auto
  qed (rule atom_back [OF _ "4.prems"(2)])
next
  case (5 E ps pol t x)
  then show ?case by (intro tagged_back) auto
next
  case (6 E ps pol xs splicing)
  then show ?case by (intro cond_back) auto
qed (metis atom_back lrepr_atom readable.simps)+

lemma read_end:
  fixes s :: "'x rstate"
  assumes "ahead src s []"
  shows "yields src (read_next E (Suc k)) s (\<lambda>v. v = FEof) []"
  unfolding read_next.simps read_form_def
  by (rule yields_peek [OF assms]) (simp add: on_char_def yields_ret assms)

lemma read_loop_step:
  fixes s :: "'x rstate"
  assumes "yields src (read_next E fuel) s (\<lambda>v. strip_meta v = strip_meta f) ys" "readable E ps pol f"
  shows "\<exists>v t. read_loop E fuel b (Suc n) s = map_prod ((#) v) id (read_loop E fuel b n t) \<and>
    strip_meta v = strip_meta f \<and> ahead src t ys \<and> same_ctx s t"
proof -
  obtain v t where v: "read_next E fuel s = Inr (v, t)" "strip_meta v = strip_meta f" "ahead src t ys" "same_ctx s t"
    using assms(1) by (auto simp: yields_def)
  have "element E v" by (rule element_cong [OF readable_element [OF assms(2)] v(2)])
  moreover have "v \<noteq> FEof" using v(2) assms(2) by (cases f) auto
  ultimately have "read_loop E fuel b (Suc n) s = map_prod ((#) v) id (read_loop E fuel b n t)"
    using v(1) by (auto simp: element_def)
  then show ?thesis using v(2-4) by blast
qed

lemma read_loop_tail:
  fixes s :: "'x rstate"
  assumes "\<forall>f \<in> set fs. readable E ps pol f" "faithful ps"
    and "ahead src s (tail_text (lit '' '') (map (lrepr ps) fs))" "quotes s = []" "should_process_tags s = pol"
    and "length (tail_text (lit '' '') (map (lrepr ps) fs)) + 10 < fuel" "length fs < n"
  shows "\<exists>gs. read_loop E fuel b n s = (gs, if b then Some EndOfInput else None) \<and>
    map strip_meta gs = map strip_meta fs"
  using assms(1,3-7)
proof (induction fs arbitrary: s n)
  case Nil
  obtain k j where k: "fuel = Suc k" "n = Suc j" using Nil.prems(5,6) by (cases fuel; cases n) auto
  show ?case using read_end [of src s E k] Nil.prems(2) by (auto simp: yields_def k simp del: read_next.simps)
next
  case (Cons f fs)
  obtain k j where k: "fuel = Suc k" "n = Suc j" "length fs < j" using Cons.prems(5,6) by (cases fuel; cases n) auto
  have f: "readable E ps pol f" using Cons.prems(1) by simp
  let ?rest = "tail_text (lit '' '') (map (lrepr ps) fs)"
  obtain c w where w: "lrepr ps f = c # w" "\<not> whitespace E c"
    using readable_starts [OF f assms(2)] by (cases "lrepr ps f") (auto simp: starts_def)
  have a: "ahead src s (32 # c # w @ ?rest)" using Cons.prems(2) w by (simp add: lit_def)
  have len: "length (lrepr ps f) + 10 < k" using Cons.prems(5) k by (simp add: lit_def)
  have d: "delimited ?rest" by (cases fs) (simp_all add: delimited_def lit_def)
  have "yields src (read_next E fuel) s (\<lambda>v. strip_meta v = strip_meta f) ?rest"
    unfolding k(1) read_next.simps
  proof (rule dispatch_space [OF a w(2)])
    fix t :: "'x rstate"
    assume t: "ahead src t (c # w @ ?rest)" "same_ctx s t"
    then show "yields src (read_next E k) t (\<lambda>v. strip_meta v = strip_meta f) ?rest"
      using readable_back [OF f assms(2), of src] Cons.prems(3,4) len d w(1)
      by (simp add: reads_back_def reads_as_def)
  qed (use len in simp)
  from read_loop_step [OF this f, of b j] obtain v t where v:
    "read_loop E fuel b (Suc j) s = map_prod ((#) v) id (read_loop E fuel b j t)"
    "strip_meta v = strip_meta f" "ahead src t ?rest" "same_ctx s t" by blast
  have "\<exists>gs. read_loop E fuel b j t = (gs, if b then Some EndOfInput else None) \<and>
      map strip_meta gs = map strip_meta fs"
    using Cons.prems v k(3) same_ctx_quotes [OF v(4)] same_ctx_tags [OF v(4)]
    by (intro Cons.IH) (simp_all add: lit_def)
  then show ?case using v(1,2) k(2) by (auto simp del: read_loop.simps)
qed

lemma read_loop_join:
  fixes s :: "'x rstate"
  assumes "\<forall>f \<in> set fs. readable E ps pol f" "faithful ps"
    and "ahead src s (join (lit '' '') (map (lrepr ps) fs))" "quotes s = []" "should_process_tags s = pol"
    and "length (join (lit '' '') (map (lrepr ps) fs)) + 10 < fuel" "length fs < n"
  shows "\<exists>gs. read_loop E fuel b n s = (gs, if b then Some EndOfInput else None) \<and>
    map strip_meta gs = map strip_meta fs"
proof (cases fs)
  case Nil
  then show ?thesis using read_loop_tail [of fs E ps pol src s fuel n b] assms by simp
next
  case (Cons f gs)
  let ?rest = "tail_text (lit '' '') (map (lrepr ps) gs)"
  have join: "join (lit '' '') (map (lrepr ps) fs) = lrepr ps f @ ?rest" by (simp only: Cons list.map join_tail)
  obtain j where n: "n = Suc j" "length gs < j" using assms(7) Cons by (cases n) auto
  have f: "readable E ps pol f" using assms(1) Cons by simp
  have d: "delimited ?rest" by (cases gs) (simp_all add: delimited_def lit_def)
  have "yields src (read_next E fuel) s (\<lambda>v. strip_meta v = strip_meta f) ?rest"
    using readable_back [OF f assms(2), of src] assms(3-6) d same_ctx_refl
    by (simp add: reads_back_def reads_as_def join)
  from read_loop_step [OF this f, of b j] obtain v t where v:
    "read_loop E fuel b (Suc j) s = map_prod ((#) v) id (read_loop E fuel b j t)"
    "strip_meta v = strip_meta f" "ahead src t ?rest" "same_ctx s t" by blast
  have "\<exists>us. read_loop E fuel b j t = (us, if b then Some EndOfInput else None) \<and>
      map strip_meta us = map strip_meta gs"
    by (rule read_loop_tail [OF _ assms(2) v(3)])
      (use assms n(2) same_ctx_quotes [OF v(4)] same_ctx_tags [OF v(4)] in \<open>simp_all add: Cons join_tail [of _ "lrepr ps f"] del: join.simps\<close>)
  then show ?thesis using v(1,2) n(1) Cons by (auto simp del: read_loop.simps)
qed

lemma length_tail: "\<forall>w \<in> set ws. w \<noteq> [] \<Longrightarrow> length ws \<le> length (tail_text sep ws)"
proof (induction ws)
  case (Cons w ws)
  then show ?case by (cases w) auto
qed simp

lemma length_joined: "\<forall>w \<in> set ws. w \<noteq> [] \<Longrightarrow> length ws \<le> length (join sep ws)"
proof (cases ws)
  case (Cons w us)
  assume "\<forall>w \<in> set ws. w \<noteq> []"
  then show ?thesis using length_tail [of us sep] Cons by (cases w) (auto simp: join_tail simp del: join.simps)
qed simp

lemma initial_ahead:
  assumes "new_reader src 5 init_line init_column = Inr r"
  shows "ahead src (initial_state r policy counter) src"
proof -
  obtain l c where "new_reader src 5 init_line init_column = new_reader src 5 (Some l) (Some c)"
    by (cases init_line; cases init_column) (auto simp: new_reader_def)
  then have "reads src 5 l c 0 0 r" using new_reader_reads [of 5 src l c] assms by auto
  then have "stands src (initial_state r policy counter) (int 0)"
    unfolding stands_def initial_state_def by (intro exI conjI) auto
  then show ?thesis unfolding ahead_def by (intro exI [of _ 0]) simp
qed

text \<open>
  C14: reading back what was printed. Any list of readable forms, printed readably with single spaces
  between them, is read as that list again, up to the metadata (line and column) that the
  reader attaches, with no error and nothing left over. Readable are nil, booleans, all
  integers and ratios, characters, the strings, keywords and symbols whose text denotes them, and
  lists, vectors, sets, maps (also those printed with a shared namespace), tagged literals and
  reader conditionals of readable forms.
\<close>

theorem read_print_roundtrip:
  fixes E :: "'x reader_env" and ps :: "'x print_settings" and fs :: "'x form list"
  assumes "faithful ps" "\<forall>f \<in> set fs. readable E ps policy f"
    and "src = join (lit '' '') (map (lrepr ps) fs)" "length src + 10 < fuel"
  shows "\<exists>gs. read_str_forms E fuel is_eof_error policy init_line init_column counter src =
      (gs, if is_eof_error then Some EndOfInput else None) \<and>
    map strip_meta gs = map strip_meta fs"
proof -
  obtain r where r: "new_reader src 5 init_line init_column = Inr r"
    using new_reader_reads [of 5 src "case init_line of None \<Rightarrow> 1 | Some l \<Rightarrow> l"
        "case init_column of None \<Rightarrow> 0 | Some c \<Rightarrow> c"] by (auto simp: new_reader_def)
  have "\<forall>w \<in> set (map (lrepr ps) fs). w \<noteq> []"
    using assms(2) readable_starts [OF _ assms(1)] by (auto simp: starts_def)
  then have len: "length fs < fuel" using length_joined [of "map (lrepr ps) fs" "lit '' ''"] assms(3,4) by simp
  have "\<exists>gs. read_loop E fuel is_eof_error fuel (initial_state r policy counter) =
      (gs, if is_eof_error then Some EndOfInput else None) \<and> map strip_meta gs = map strip_meta fs"
    by (rule read_loop_join [OF assms(2,1) _ _ _ _ len])
      (use initial_ahead [OF r] assms(3,4) in \<open>simp_all add: initial_state_def should_process_tags_def\<close>)
  then show ?thesis using r by (simp add: read_str_forms_def)
qed

text \<open>A vector of an integer and a string with an escape, and a map with a shared namespace.\<close>

definition sample_forms :: "unit form list" where
  "sample_forms =
     [FVector [FInt (- 70), FStr (lit ''a'' @ [10])] None,
      FMap [(FKeyword (Some (lit ''k'')) (lit ''x''), FRatio (Fract 3 4))] None]"

theorem read_print_roundtrip_witness:
  "\<exists>gs. read_str_forms ascii_env 50 False True None None 0
      (lit ''[-70 '' @ [34, 97, 92, 110, 34] @ lit ''] #:k{:x 3/4}'') = (gs, None) \<and>
    map strip_meta gs = sample_forms"
proof -
  obtain ps :: "unit print_settings" where ps: "faithful ps" "print_namespace_maps ps"
  proof
    show "faithful (default_settings (\<lambda>_ _ (_ :: unit). []) (\<lambda>_. []))" by (rule faithful_default)
  qed (simp add: default_settings_def)
  then have r: "\<not> human_readable ps" "print_readably ps" by (simp_all add: faithful_def)
  have "gcd (3 :: int) 4 = 1" by code_simp
  then have q: "quotient_of (Fract 3 4) = (3, 4)" by (simp add: quotient_of_Fract Rat.normalize_def)
  have digits: "nat_digits 70 = lit ''70''" "nat_digits 3 = lit ''3''" "nat_digits 4 = lit ''4''"
    by (simp_all add: nat_digits.simps lit_def)
  have space: "shared_ns ps [FKeyword (Some (lit ''k'')) (lit ''x'')] = Some (lit ''k'')"
    by (simp add: shared_ns_def ps(2) lit_def)
  have readable: "\<forall>f \<in> set sample_forms. readable ascii_env ps True f"
    by (simp add: sample_forms_def q space distinct_keys_def ascii_env_def)
      (simp add: name_text_def name_part_def kw_text_def ns_text_def is_ns_name_char_def
        ns_name_char_def word_char_def is_letter_def lit_def ch_def named_repr_def)
  have printed: "lit ''[-70 '' @ [34, 97, 92, 110, 34] @ lit ''] #:k{:x 3/4}'' =
      join (lit '' '') (map (lrepr ps) sample_forms)"
    by (simp add: sample_forms_def lrepr_seq [OF ps(1)] lrepr_map [OF ps(1)] faithful_simps(2) [OF ps(1)]
        q digits r space space [unfolded lit_def, simplified] key_text_def entry_text_def int_repr_def str_repr_def
        unicode_escape_def escape_quote_def lit_def QUOTE_def BACKSLASH_def named_repr_def del: lrepr.simps(2-7))
  have strip: "map strip_meta sample_forms = sample_forms" by (simp add: sample_forms_def)
  show ?thesis
    using read_print_roundtrip [OF ps(1) readable printed, of 50 False None None 0]
    by (simp add: strip lit_def)
qed

end
