(* ===== verification/Agent.thy ===== *)
theory Agent
  imports Reference
begin

text \<open>
  Agents (\<open>src/src/basilisp/lang/agent.py\<close>): a reference whose actions run one after the other on
  the threads of executors. Each method below is one critical section of the agent's lock; what a
  thread has still to do for the agent after it (run an action, commit its result, handle a
  failure) is a task, and tasks of different threads interleave in any order with the methods.
  A watcher counts by what it raises: one that calls its agent back is not modelled. The lock is
  re-entrant, so its call would go through. In the commit of an action the agent is still active and
  a send of a watcher only appends to the queue, as a send just before the commit does; but \<open>restart\<close>
  notifies the watchers while the agent is not active, so a send would schedule its action there
  and then, and \<open>clear_actions\<close> would leave that task with an empty queue.
\<close>

section \<open>State\<close>

text \<open>
  An action with the executor that is to run it. Whether an executor takes a task when it is
  submitted is an argument \<open>ex\<close> of the sections that submit: the exception it raises, if any.
\<close>

record 'v action =
  act_executor :: nat
  act_fn :: "'v \<Rightarrow> 'v res"

datatype error_mode = FailMode | ContinueMode

type_synonym error_handler = "py_error \<Rightarrow> unit res"

record ('v, 'm) agent = "('v, 'm) reference" +
  agent_state :: 'v
  agent_queue :: "'v action list"
  agent_active :: bool
  agent_error :: "py_error option"
  agent_mode :: error_mode
  agent_handler :: "error_handler option"

text \<open>
  What a thread has to do: start the next action (\<open>Waiting\<close>: submitted, not begun), apply it to the
  state it took (\<open>Acting\<close>), commit a validated state (\<open>Committing\<close>), record a failure (\<open>Failing\<close>), or
  call the handler it read and go on (\<open>Handling\<close>).
\<close>

datatype 'v task =
    Waiting
  | Acting "'v action" 'v
  | Committing "'v action" 'v
  | Failing py_error
  | Handling py_error "error_handler option"

type_synonym executors = "nat \<Rightarrow> py_error option"

definition new_agent ::
  "'v \<Rightarrow> 'm \<Rightarrow> 'v validator option \<Rightarrow> error_mode option \<Rightarrow> error_handler option \<Rightarrow> ('v, 'm) agent res"
where
  "new_agent state m vf mode h =
     (case mode of
        None \<Rightarrow> Inl ValueError
      | Some md \<Rightarrow>
          rbind (case vf of None \<Rightarrow> Inr () | Some f \<Rightarrow> run_validator (Some f) state) (\<lambda>_.
            Inr \<lparr>ref_meta = m, ref_validator = vf, ref_watches = [], agent_state = state,
                 agent_queue = [], agent_active = False, agent_error = None, agent_mode = md,
                 agent_handler = h\<rparr>))"

definition agent_deref :: "('v, 'm) agent \<Rightarrow> 'v" where
  "agent_deref a = agent_state a"

definition agent_pending :: "('v, 'm) agent \<Rightarrow> bool" where
  "agent_pending a \<longleftrightarrow>
     agent_active a \<or> (agent_error a = None \<or> agent_mode a = ContinueMode) \<and> agent_queue a \<noteq> []"

section \<open>Scheduling\<close>

text \<open>\<open>_schedule_next\<close>: whether a task was submitted, or the exception of the executor.\<close>

definition schedule_next :: "executors \<Rightarrow> ('v, 'm) agent \<Rightarrow> ('v, 'm) agent \<times> bool res" where
  "schedule_next ex a =
     (case agent_queue a of
        [] \<Rightarrow> (a\<lparr>agent_active := False\<rparr>, Inr False)
      | act # _ \<Rightarrow>
          (a\<lparr>agent_active := True\<rparr>,
           case ex (act_executor act) of None \<Rightarrow> Inr True | Some e \<Rightarrow> Inl e))"

text \<open>
  \<open>_schedule_next\<close> with the handling of its exception: the action is dropped, and the thread has a
  failure to handle, which comes with the result.
\<close>

definition schedule :: "executors \<Rightarrow> ('v, 'm) agent \<Rightarrow> ('v, 'm) agent \<times> 'v task list \<times> unit res" where
  "schedule ex a =
     (case schedule_next ex a of
        (b, Inr started) \<Rightarrow> (b, if started then [Waiting] else [], Inr ())
      | (b, Inl e) \<Rightarrow> (b\<lparr>agent_queue := tl (agent_queue b)\<rparr>, [Failing e], Inl e))"

definition submit ::
  "executors \<Rightarrow> 'v action \<Rightarrow> ('v, 'm) agent \<Rightarrow> ('v, 'm) agent \<times> 'v task list \<times> unit res"
where
  "submit ex act a =
     (if agent_error a \<noteq> None \<and> agent_mode a = FailMode then (a, [], Inl RuntimeError)
      else (let b = a\<lparr>agent_queue := agent_queue a @ [act]\<rparr>
            in if agent_active b then (b, [], Inr ()) else schedule ex b))"

section \<open>Waiting, restarting and settings\<close>

text \<open>The condition that \<open>await_completion\<close> waits for.\<close>

definition await_ready :: "bool \<Rightarrow> ('v, 'm) agent \<Rightarrow> bool" where
  "await_ready wait_on_failure a \<longleftrightarrow>
     \<not> agent_active a \<and>
     (agent_queue a = [] \<or> agent_error a \<noteq> None \<and> agent_mode a = FailMode) \<and>
     (\<not> wait_on_failure \<or> agent_error a = None \<or> agent_mode a \<noteq> FailMode)"

definition clear_error :: "('v, 'm) agent \<Rightarrow> ('v, 'm) agent" where
  "clear_error a = a\<lparr>agent_error := None\<rparr>"

text \<open>The new state of \<open>restart\<close>, if one is given, is installed before a watcher can raise.\<close>

definition install_state ::
  "'v watch_order \<Rightarrow> 'v option \<Rightarrow> ('v, 'm) agent \<Rightarrow> ('v, 'm) agent \<times> unit res"
where
  "install_state word state a =
     (case state of
        None \<Rightarrow> (a, Inr ())
      | Some v \<Rightarrow>
          (case validate a v of
             Inl e \<Rightarrow> (a, Inl e)
           | Inr _ \<Rightarrow> (a\<lparr>agent_state := v\<rparr>, snd (notify_watches word a (agent_state a) v))))"

definition restart ::
  "executors \<Rightarrow> 'v watch_order \<Rightarrow> 'v option \<Rightarrow> bool \<Rightarrow> ('v, 'm) agent \<Rightarrow>
   ('v, 'm) agent \<times> 'v task list \<times> unit res"
where
  "restart ex word state clear_actions a =
     (if agent_active a then (a, [], Inl RuntimeError)
      else (case install_state word state a of
          (b, Inl e) \<Rightarrow> (b, [], Inl e)
        | (b, Inr _) \<Rightarrow>
            (let c = b\<lparr>agent_error := None,
                       agent_queue := if clear_actions then [] else agent_queue b\<rparr>
             in if agent_queue c \<noteq> [] then schedule ex c else (c, [], Inr ()))))"

definition set_error_mode :: "error_mode option \<Rightarrow> ('v, 'm) agent \<Rightarrow> ('v, 'm) agent res" where
  "set_error_mode mode a = (case mode of None \<Rightarrow> Inl ValueError | Some md \<Rightarrow> Inr (a\<lparr>agent_mode := md\<rparr>))"

definition set_error_handler :: "error_handler option \<Rightarrow> ('v, 'm) agent \<Rightarrow> ('v, 'm) agent" where
  "set_error_handler h a = a\<lparr>agent_handler := h\<rparr>"

section \<open>Tasks\<close>

text \<open>The first section of \<open>_run_one\<close>: take the next action and the state.\<close>

definition start_action :: "('v, 'm) agent \<Rightarrow> ('v, 'm) agent \<times> 'v task list" where
  "start_action a =
     (case agent_queue a of
        [] \<Rightarrow> (a\<lparr>agent_active := False\<rparr>, [])
      | act # rest \<Rightarrow> (a\<lparr>agent_queue := rest\<rparr>, [Acting act (agent_state a)]))"

text \<open>The action and the validator run outside the lock, on the state that was taken.\<close>

definition act_result :: "('v, 'm) agent \<Rightarrow> 'v action \<Rightarrow> 'v \<Rightarrow> 'v res" where
  "act_result a act state =
     rbind (act_fn act state) (\<lambda>new. rbind (validate a new) (\<lambda>_. Inr new))"

definition run_action :: "'v action \<Rightarrow> 'v \<Rightarrow> ('v, 'm) agent \<Rightarrow> 'v task" where
  "run_action act state a =
     (case act_result a act state of Inr new \<Rightarrow> Committing act new | Inl e \<Rightarrow> Failing e)"

text \<open>
  The last section of \<open>_run_one\<close>. An exception of a watcher is the result, once the next action
  is scheduled.
\<close>

definition commit_action ::
  "executors \<Rightarrow> 'v watch_order \<Rightarrow> 'v \<Rightarrow> ('v, 'm) agent \<Rightarrow> ('v, 'm) agent \<times> 'v task list \<times> unit res"
where
  "commit_action ex word new a =
     (let watched = snd (notify_watches word a (agent_state a) new);
          (b, ts, r) = schedule ex (a\<lparr>agent_state := new, agent_active := False\<rparr>)
      in (b, ts, watched))"

text \<open>\<open>_handle_failure\<close>: the section before the handler runs, and the one after it.\<close>

definition record_failure :: "py_error \<Rightarrow> ('v, 'm) agent \<Rightarrow> ('v, 'm) agent \<times> 'v task list" where
  "record_failure e a = (a\<lparr>agent_error := Some e\<rparr>, [Handling e (agent_handler a)])"

definition handler_result :: "error_handler option \<Rightarrow> py_error \<Rightarrow> unit res" where
  "handler_result h e = (case h of None \<Rightarrow> Inr () | Some f \<Rightarrow> f e)"

definition finish_failure ::
  "executors \<Rightarrow> py_error \<Rightarrow> error_handler option \<Rightarrow> ('v, 'm) agent \<Rightarrow>
   ('v, 'm) agent \<times> 'v task list \<times> unit res"
where
  "finish_failure ex e h a =
     (let r = handler_result h e; b = a\<lparr>agent_active := False\<rparr>
      in if agent_mode b = ContinueMode
         then (let c = (if r = Inr () then b\<lparr>agent_error := None\<rparr> else b);
                   (d, ts, r') = schedule ex c
               in (d, ts, r))
         else (b, [], r))"

text \<open>\<open>_handle_pre_start_failure\<close>: the executor gave the task up before it began.\<close>

definition pre_start_failure :: "py_error \<Rightarrow> ('v, 'm) agent \<Rightarrow> ('v, 'm) agent \<times> 'v task list \<times> unit res" where
  "pre_start_failure e a =
     (if \<not> agent_active a then (a, [], Inr ())
      else (case agent_queue a of
              [] \<Rightarrow> (a, [], Inl IndexError)
            | _ # rest \<Rightarrow> (a\<lparr>agent_queue := rest\<rparr>, [Failing e], Inr ())))"

fun run_task ::
  "executors \<Rightarrow> 'v watch_order \<Rightarrow> 'v task \<Rightarrow> ('v, 'm) agent \<Rightarrow> ('v, 'm) agent \<times> 'v task list"
where
  "run_task ex word Waiting a = start_action a"
| "run_task ex word (Acting act v) a = (a, [run_action act v a])"
| "run_task ex word (Committing act v) a = (let (b, ts, r) = commit_action ex word v a in (b, ts))"
| "run_task ex word (Failing e) a = record_failure e a"
| "run_task ex word (Handling e h) a = (let (b, ts, r) = finish_failure ex e h a in (b, ts))"

end
