(* ===== verification/AgentCorrect.thy ===== *)
theory AgentCorrect
  imports Agent "HOL-Library.Sublist"
begin

text \<open>
  What agents promise, over every interleaving of calls and tasks: one task at a time, no lost
  update, actions taken in the order in which they were sent, and a queue that is worked off.
\<close>

section \<open>Worlds\<close>

text \<open>
  A world is an agent with the tasks of all threads. \<open>event\<close> is a section some thread runs: a method,
  the next section of the \<open>i\<close>-th task, or the failure of that task before it began.
\<close>

datatype ('v, 'm) event =
    Submit executors "'v action"
  | Restart executors "'v watch_order" "'v option" bool
  | ClearError
  | SetMode "error_mode option"
  | SetHandler "error_handler option"
  | SetValidator "'v validator option"
  | AddWatch nat "'v watcher"
  | RemoveWatch nat
  | RunTask executors "'v watch_order" nat
  | PreStart py_error nat

type_synonym ('v, 'm) agent_world = "('v, 'm) agent \<times> 'v task list"

definition replace_task :: "nat \<Rightarrow> 'v task list \<Rightarrow> 'v task list \<Rightarrow> 'v task list" where
  "replace_task i new ts = take i ts @ new @ drop (Suc i) ts"

fun agent_step :: "('v, 'm) event \<Rightarrow> ('v, 'm) agent_world \<Rightarrow> ('v, 'm) agent_world" where
  "agent_step (Submit ex act) (a, ts) = (let (b, new, r) = submit ex act a in (b, ts @ new))"
| "agent_step (Restart ex word v c) (a, ts) = (let (b, new, r) = restart ex word v c a in (b, ts @ new))"
| "agent_step ClearError (a, ts) = (clear_error a, ts)"
| "agent_step (SetMode md) (a, ts) = (case set_error_mode md a of Inl e \<Rightarrow> (a, ts) | Inr b \<Rightarrow> (b, ts))"
| "agent_step (SetHandler h) (a, ts) = (set_error_handler h a, ts)"
| "agent_step (SetValidator vf) (a, ts) =
     (case set_validator (agent_state a) vf a of Inl e \<Rightarrow> (a, ts) | Inr b \<Rightarrow> (b, ts))"
| "agent_step (AddWatch k w) (a, ts) = (add_watch k w a, ts)"
| "agent_step (RemoveWatch k) (a, ts) = (remove_watch k a, ts)"
| "agent_step (RunTask ex word i) (a, ts) =
     (if i < length ts then (let (b, new) = run_task ex word (ts ! i) a in (b, replace_task i new ts))
      else (a, ts))"
| "agent_step (PreStart e i) (a, ts) =
     (if i < length ts \<and> ts ! i = Waiting
      then (let (b, new, r) = pre_start_failure e a in (b, replace_task i new ts)) else (a, ts))"

definition agent_steps :: "('v, 'm) event list \<Rightarrow> ('v, 'm) agent_world \<Rightarrow> ('v, 'm) agent_world" where
  "agent_steps es w = fold agent_step es w"

section \<open>One task at a time\<close>

definition task_fits :: "('v, 'm) agent \<Rightarrow> 'v task \<Rightarrow> bool" where
  "task_fits a t \<longleftrightarrow>
     (t = Waiting \<longrightarrow> agent_queue a \<noteq> []) \<and>
     (\<forall>act v. t = Acting act v \<longrightarrow> v = agent_state a) \<and>
     (\<forall>act v. t = Committing act v \<longrightarrow> act_fn act (agent_state a) = Inr v)"

definition agent_inv :: "('v, 'm) agent_world \<Rightarrow> bool" where
  "agent_inv w \<longleftrightarrow>
     length (snd w) = (if agent_active (fst w) then 1 else 0) \<and> (\<forall>t \<in> set (snd w). task_fits (fst w) t)"

lemma agent_inv_cases:
  assumes "agent_inv (a, ts)"
  obtains "ts = []" "\<not> agent_active a" | t where "ts = [t]" "agent_active a" "task_fits a t"
  using assms by (cases "agent_active a"; cases ts) (auto simp: agent_inv_def)

lemma agent_inv_idle: "\<not> agent_active a \<Longrightarrow> agent_inv (a, [])"
  by (simp add: agent_inv_def)

lemma agent_inv_task: "agent_active a \<Longrightarrow> task_fits a t \<Longrightarrow> agent_inv (a, [t])"
  by (simp add: agent_inv_def)

lemma schedule_inv:
  assumes "schedule ex a = (b, ts, r)"
  shows "agent_inv (b, ts)" "agent_state b = agent_state a"
  using assms
  by (auto simp: schedule_def schedule_next_def agent_inv_def task_fits_def split: list.splits option.splits)

lemma install_state_simps:
  "agent_active (fst (install_state word v a)) = agent_active a"
  "agent_queue (fst (install_state word v a)) = agent_queue a"
  by (auto simp: install_state_def split: option.split sum.split)

lemma restart_inv:
  assumes "restart ex word v c a = (b, ts, r)" "\<not> agent_active a"
  shows "agent_inv (b, ts)"
proof -
  obtain d q where d: "install_state word v a = (d, q)" by fastforce
  then have "\<not> agent_active d" using install_state_simps(1) [of word v a] assms(2) by simp
  then show ?thesis
    using assms d schedule_inv(1)
    by (auto simp: restart_def Let_def agent_inv_idle split: sum.splits if_splits)
qed

lemma run_task_inv:
  assumes "task_fits a t" "agent_active a" "run_task ex word t a = (b, ts)"
  shows "agent_inv (b, ts)"
proof (cases t)
  case Waiting
  then show ?thesis
    using assms by (auto simp: start_action_def task_fits_def agent_inv_def split: list.splits)
next
  case (Acting act v)
  then show ?thesis
    using assms
    by (auto simp: run_action_def act_result_def agent_inv_def task_fits_def rbind_eq_Inr_iff split: sum.splits)
next
  case (Committing act v)
  then show ?thesis using assms schedule_inv(1) by (auto simp: commit_action_def Let_def split: prod.splits)
next
  case (Failing e)
  then show ?thesis using assms by (auto simp: record_failure_def agent_inv_def task_fits_def)
next
  case (Handling e h)
  then show ?thesis
    using assms schedule_inv(1)
    by (auto simp: finish_failure_def Let_def agent_inv_idle split: prod.splits if_splits)
qed

lemma agent_step_inv:
  assumes "agent_inv (a, ts)"
  shows "agent_inv (agent_step e (a, ts))"
  using assms
proof (cases rule: agent_inv_cases)
  case 1
  show ?thesis
  proof (cases e)
    case (Submit ex act)
    then show ?thesis
      using 1 schedule_inv(1) by (auto simp: submit_def Let_def agent_inv_idle split: prod.splits)
  next
    case (Restart ex word v c)
    then show ?thesis using 1 restart_inv by (auto split: prod.splits)
  qed (use 1 in \<open>auto simp: agent_inv_def clear_error_def set_error_mode_def set_error_handler_def
        set_validator_def add_watch_def remove_watch_def rbind_def split: sum.splits option.splits\<close>)
next
  case (2 t)
  show ?thesis
  proof (cases e)
    case (Submit ex act)
    then show ?thesis using 2 by (auto simp: submit_def Let_def agent_inv_def task_fits_def split: prod.splits)
  next
    case (Restart ex word v c)
    then show ?thesis using 2 by (auto simp: restart_def agent_inv_def)
  next
    case (RunTask ex word i)
    then show ?thesis
      using 2 run_task_inv [OF 2(3,2), of ex word] assms
      by (cases "run_task ex word t a") (auto simp: replace_task_def)
  next
    case (PreStart e i)
    then show ?thesis
      using 2 assms
      by (auto simp: replace_task_def pre_start_failure_def agent_inv_def task_fits_def split: prod.splits list.splits)
  qed (use 2 in \<open>auto simp: agent_inv_def task_fits_def clear_error_def set_error_mode_def set_error_handler_def
        set_validator_def add_watch_def remove_watch_def rbind_def split: sum.splits option.splits\<close>)
qed

lemma agent_steps_inv: "agent_inv w \<Longrightarrow> agent_inv (agent_steps es w)"
  unfolding agent_steps_def
  by (induction es arbitrary: w) (simp_all, metis agent_step_inv surj_pair)

lemma new_agent_inv: "new_agent v m vf md h = Inr a \<Longrightarrow> agent_inv (a, [])"
  by (auto simp: new_agent_def agent_inv_def rbind_eq_Inr_iff split: option.splits)


section \<open>The history of an agent\<close>

text \<open>
  What a section does to the actions and the state: an action is sent, taken by a task, dropped
  because its executor failed, cleared by a restart, or committed; a restart may reset the state.
\<close>

datatype 'v entry =
    Sent "'v action"
  | Taken "'v action"
  | Dropped "'v action"
  | Cleared "'v action list"
  | Committed "'v action" 'v
  | Reset 'v

definition drop_log :: "'v action list \<Rightarrow> 'v task list \<Rightarrow> 'v entry list" where
  "drop_log q new = (case new of [Failing e] \<Rightarrow> [Dropped (hd q)] | _ \<Rightarrow> [])"

fun step_log :: "('v, 'm) event \<Rightarrow> ('v, 'm) agent_world \<Rightarrow> 'v entry list" where
  "step_log (Submit ex act) (a, ts) =
     (let (b, new, r) = submit ex act a
      in if agent_error a \<noteq> None \<and> agent_mode a = FailMode then []
         else Sent act # drop_log (agent_queue a @ [act]) new)"
| "step_log (Restart ex word v c) (a, ts) =
     (let (b, new, r) = restart ex word v c a
      in if agent_active a then []
         else (case v of None \<Rightarrow> [] | Some x \<Rightarrow> if validate a x = Inr () then [Reset x] else []) @
           (if snd (install_state word v a) = Inr ()
            then (if c then [Cleared (agent_queue a)] else drop_log (agent_queue a) new) else []))"
| "step_log (RunTask ex word i) (a, ts) =
     (if i < length ts then (let (b, new) = run_task ex word (ts ! i) a
        in (case ts ! i of
              Waiting \<Rightarrow> (case agent_queue a of [] \<Rightarrow> [] | act # _ \<Rightarrow> [Taken act])
            | Committing act v \<Rightarrow> Committed act v # drop_log (agent_queue a) new
            | Handling e h \<Rightarrow> drop_log (agent_queue a) new
            | _ \<Rightarrow> []))
      else [])"
| "step_log (PreStart e i) (a, ts) =
     (if i < length ts \<and> ts ! i = Waiting \<and> agent_active a \<and> agent_queue a \<noteq> []
      then [Dropped (hd (agent_queue a))] else [])"
| "step_log e w = []"

fun steps_log :: "('v, 'm) event list \<Rightarrow> ('v, 'm) agent_world \<Rightarrow> 'v entry list" where
  "steps_log [] w = []"
| "steps_log (e # es) w = step_log e w @ steps_log es (agent_step e w)"

text \<open>The actions sent, those that left the queue, those taken, and those committed, in order.\<close>

fun sent :: "'v entry list \<Rightarrow> 'v action list" where
  "sent [] = []"
| "sent (Sent act # l) = act # sent l"
| "sent (_ # l) = sent l"

fun gone :: "'v entry list \<Rightarrow> 'v action list" where
  "gone [] = []"
| "gone (Taken act # l) = act # gone l"
| "gone (Dropped act # l) = act # gone l"
| "gone (Cleared acts # l) = acts @ gone l"
| "gone (_ # l) = gone l"

fun taken :: "'v entry list \<Rightarrow> 'v action list" where
  "taken [] = []"
| "taken (Taken act # l) = act # taken l"
| "taken (_ # l) = taken l"

fun committed :: "'v entry list \<Rightarrow> 'v action list" where
  "committed [] = []"
| "committed (Committed act v # l) = act # committed l"
| "committed (_ # l) = committed l"

text \<open>The committed actions applied one after the other: \<open>None\<close> if one of them had another result.\<close>

fun replay_log :: "'v \<Rightarrow> 'v entry list \<Rightarrow> 'v option" where
  "replay_log s [] = Some s"
| "replay_log s (Committed act v # l) = (if act_fn act s = Inr v then replay_log v l else None)"
| "replay_log s (Reset v # l) = replay_log v l"
| "replay_log s (_ # l) = replay_log s l"

lemma sent_append [simp]: "sent (l @ l') = sent l @ sent l'"
  by (induction l rule: sent.induct) simp_all

lemma gone_append [simp]: "gone (l @ l') = gone l @ gone l'"
  by (induction l rule: gone.induct) simp_all

lemma taken_append [simp]: "taken (l @ l') = taken l @ taken l'"
  by (induction l rule: taken.induct) simp_all

lemma committed_append [simp]: "committed (l @ l') = committed l @ committed l'"
  by (induction l rule: committed.induct) simp_all

lemma replay_append: "replay_log s (l @ l') = Option.bind (replay_log s l) (\<lambda>t. replay_log t l')"
  by (induction s l rule: replay_log.induct) simp_all

lemma drop_log_simps [simp]:
  "sent (drop_log q new) = []" "taken (drop_log q new) = []" "committed (drop_log q new) = []"
  "replay_log s (drop_log q new) = Some s"
  by (auto simp: drop_log_def split: list.split task.split)

lemma schedule_log:
  assumes "schedule ex a = (b, new, r)"
  shows "gone (drop_log (agent_queue a) new) @ agent_queue b = agent_queue a"
  using assms
  by (auto simp: schedule_def schedule_next_def drop_log_def split: list.splits option.splits)

lemma submit_log:
  assumes "submit ex act a = (b, new, r)" "\<not> (agent_error a \<noteq> None \<and> agent_mode a = FailMode)"
  shows "agent_queue a @ [act] = gone (drop_log (agent_queue a @ [act]) new) @ agent_queue b"
    "agent_state b = agent_state a"
proof -
  let ?c = "a\<lparr>agent_queue := agent_queue a @ [act]\<rparr>"
  have "agent_queue a @ [act] = gone (drop_log (agent_queue a @ [act]) new) @ agent_queue b \<and>
    agent_state b = agent_state a"
  proof (cases "agent_active a")
    case True
    then show ?thesis using assms by (auto simp: submit_def Let_def drop_log_def)
  next
    case False
    then have "schedule ex ?c = (b, new, r)" using assms by (auto simp: submit_def Let_def)
    then show ?thesis using schedule_log [of ex ?c] schedule_inv(2) [of ex ?c] by fastforce
  qed
  then show "agent_queue a @ [act] = gone (drop_log (agent_queue a @ [act]) new) @ agent_queue b"
    "agent_state b = agent_state a" by blast+
qed

lemma install_state_value:
  "agent_state (fst (install_state word v a)) =
    (case v of None \<Rightarrow> agent_state a | Some x \<Rightarrow> if validate a x = Inr () then x else agent_state a)"
  by (auto simp: install_state_def split: option.split sum.split)

lemma restart_log:
  assumes "restart ex word v c a = (b, new, r)" "\<not> agent_active a"
  shows "agent_queue a = gone (if snd (install_state word v a) = Inr ()
      then (if c then [Cleared (agent_queue a)] else drop_log (agent_queue a) new) else []) @ agent_queue b"
    "agent_state b = agent_state (fst (install_state word v a))"
proof -
  obtain d q where d: "install_state word v a = (d, q)" by fastforce
  then have queue: "agent_queue d = agent_queue a" using install_state_simps(2) [of word v a] by simp
  define f where "f = d\<lparr>agent_error := None, agent_queue := if c then [] else agent_queue d\<rparr>"
  have "(agent_queue a = gone (if q = Inr ()
      then (if c then [Cleared (agent_queue a)] else drop_log (agent_queue a) new) else []) @ agent_queue b) \<and>
    agent_state b = agent_state d"
  proof (cases q)
    case (Inl e)
    then show ?thesis using assms d queue by (auto simp: restart_def)
  next
    case (Inr u)
    show ?thesis
    proof (cases "agent_queue f = []")
      case True
      then have "b = f" "new = []" using assms d Inr by (auto simp: restart_def f_def Let_def)
      then show ?thesis using True Inr queue by (auto simp: f_def drop_log_def split: if_splits)
    next
      case False
      then have "schedule ex f = (b, new, r)" "\<not> c"
        using assms d Inr by (auto simp: restart_def f_def Let_def split: if_splits)
      then show ?thesis
        using schedule_log [of ex f b new r] schedule_inv(2) [of ex f b new r] Inr queue by (auto simp: f_def)
    qed
  qed
  then show "agent_queue a = gone (if snd (install_state word v a) = Inr ()
      then (if c then [Cleared (agent_queue a)] else drop_log (agent_queue a) new) else []) @ agent_queue b"
    "agent_state b = agent_state (fst (install_state word v a))" by (simp_all add: d)
qed

lemma commit_log:
  assumes "commit_action ex word v a = (b, new, r)"
  shows "agent_queue a = gone (drop_log (agent_queue a) new) @ agent_queue b" "agent_state b = v"
  using assms schedule_log [of ex "a\<lparr>agent_state := v, agent_active := False\<rparr>"]
    schedule_inv(2) [of ex "a\<lparr>agent_state := v, agent_active := False\<rparr>"]
  by (fastforce simp: commit_action_def Let_def split: prod.splits)+

lemma finish_log:
  assumes "finish_failure ex e h a = (b, new, r)"
  shows "agent_queue a = gone (drop_log (agent_queue a) new) @ agent_queue b" "agent_state b = agent_state a"
proof -
  let ?idle = "a\<lparr>agent_active := False\<rparr>"
  let ?c = "if handler_result h e = Inr () then ?idle\<lparr>agent_error := None\<rparr> else ?idle"
  have "agent_queue a = gone (drop_log (agent_queue a) new) @ agent_queue b \<and> agent_state b = agent_state a"
  proof (cases "agent_mode a")
    case FailMode
    then show ?thesis using assms by (auto simp: finish_failure_def Let_def drop_log_def)
  next
    case ContinueMode
    obtain d us q where d: "schedule ex ?c = (d, us, q)" by (metis surj_pair)
    have "agent_queue ?c = agent_queue a" "agent_state ?c = agent_state a" by simp_all
    moreover have "b = d" "new = us"
      using assms ContinueMode d by (simp_all add: finish_failure_def Let_def split: prod.splits)
    ultimately show ?thesis using schedule_log [OF d] schedule_inv(2) [OF d] by metis
  qed
  then show "agent_queue a = gone (drop_log (agent_queue a) new) @ agent_queue b" "agent_state b = agent_state a"
    by blast+
qed

text \<open>What one section keeps: the order of the queue, and the state as the replay_log of the history.\<close>

lemma step_log_correct:
  assumes "agent_inv (a, ts)" "agent_step e (a, ts) = (b, us)"
  shows "agent_queue a @ sent (step_log e (a, ts)) = gone (step_log e (a, ts)) @ agent_queue b \<and>
    replay_log (agent_state a) (step_log e (a, ts)) = Some (agent_state b)"
proof (cases e)
  case (Submit ex act)
  then show ?thesis
    using assms(2) submit_log [of ex act a] by (auto simp: submit_def split: prod.splits)
next
  case (Restart ex word v c)
  obtain d new r where d: "restart ex word v c a = (d, new, r)" by (metis surj_pair)
  show ?thesis
  proof (cases "agent_active a")
    case True
    then show ?thesis using assms(2) Restart by (auto simp: restart_def)
  next
    case False
    then show ?thesis
      using assms(2) Restart restart_log [OF d] d
      by (auto simp: install_state_value replay_append split: option.splits)
  qed
next
  case (RunTask ex word i)
  show ?thesis
  proof (cases "i < length ts")
    case True
    then have fits: "task_fits a (ts ! i)" using assms(1) by (simp add: agent_inv_def)
    obtain d new where d: "run_task ex word (ts ! i) a = (d, new)" by fastforce
    then have b: "b = d" using assms(2) RunTask True by simp
    show ?thesis
    proof (cases "ts ! i")
      case Waiting
      then show ?thesis
        using RunTask True d b by (auto simp: start_action_def split: list.splits)
    next
      case (Committing act v)
      then show ?thesis
        using RunTask True d b fits commit_log [of ex word v a]
        by (auto simp: task_fits_def split: prod.splits)
    next
      case (Handling e h)
      then show ?thesis
        using RunTask True d b finish_log [of ex e h a] by (auto split: prod.splits)
    qed (use RunTask True d b in \<open>auto simp: record_failure_def\<close>)
  qed (use assms(2) RunTask in simp)
next
  case (PreStart x i)
  then show ?thesis
    using assms(2) by (auto simp: pre_start_failure_def split: prod.splits list.splits if_splits)
qed (use assms(2) in \<open>auto simp: clear_error_def set_error_mode_def set_error_handler_def
    set_validator_def add_watch_def remove_watch_def rbind_def split: sum.splits option.splits\<close>)

text \<open>A task has at most one action in hand, the last one taken; only that one can be committed.\<close>

fun task_action :: "'v task \<Rightarrow> 'v action option" where
  "task_action (Acting act v) = Some act"
| "task_action (Committing act v) = Some act"
| "task_action _ = None"

definition log_inv :: "'v task list \<Rightarrow> 'v entry list \<Rightarrow> bool" where
  "log_inv ts l \<longleftrightarrow>
     subseq (committed l) (taken l) \<and>
     (\<forall>act. ts \<noteq> [] \<longrightarrow> task_action (hd ts) = Some act \<longrightarrow>
        (\<exists>pre. taken l = pre @ [act] \<and> subseq (committed l) pre))"

lemma log_inv_quiet:
  assumes "log_inv ts l" "taken l' = []" "committed l' = []" "us = ts \<or> us = [] \<or> task_action (hd us) = None"
  shows "log_inv us (l @ l')"
  using assms by (auto simp: log_inv_def)

lemma schedule_tasks: "schedule ex a = (b, new, r) \<Longrightarrow> new = [] \<or> task_action (hd new) = None"
  by (auto simp: schedule_def split: prod.splits sum.splits if_splits)

lemma submit_tasks: "submit ex act a = (b, new, r) \<Longrightarrow> new = [] \<or> task_action (hd new) = None"
  using schedule_tasks by (fastforce simp: submit_def Let_def split: if_splits)

lemma restart_tasks: "restart ex word v c a = (b, new, r) \<Longrightarrow> new = [] \<or> task_action (hd new) = None"
  using schedule_tasks by (fastforce simp: restart_def Let_def split: if_splits prod.splits sum.splits)

lemma commit_tasks: "commit_action ex word v a = (b, new, r) \<Longrightarrow> new = [] \<or> task_action (hd new) = None"
  using schedule_tasks by (fastforce simp: commit_action_def Let_def split: prod.splits)

lemma finish_tasks: "finish_failure ex e h a = (b, new, r) \<Longrightarrow> new = [] \<or> task_action (hd new) = None"
  using schedule_tasks by (fastforce simp: finish_failure_def Let_def split: prod.splits if_splits)

lemma run_task_log_inv:
  assumes "log_inv [t] l" "run_task ex word t a = (b, new)"
  shows "log_inv new (l @ step_log (RunTask ex word 0) (a, [t]))"
proof (cases t)
  case Waiting
  then show ?thesis
    using assms by (cases "agent_queue a") (auto simp: log_inv_def start_action_def)
next
  case (Acting act v)
  then show ?thesis
    using assms by (auto simp: log_inv_def run_action_def split: sum.splits)
next
  case (Committing act v)
  obtain c us r where c: "commit_action ex word v a = (c, us, r)" by (metis surj_pair)
  then have "new = us" using assms(2) Committing by simp
  moreover obtain pre where "taken l = pre @ [act]" "subseq (committed l) pre"
    using assms(1) Committing by (auto simp: log_inv_def)
  then have "subseq (committed l @ [act]) (taken l)" by (simp add: list_emb_append_mono)
  ultimately show ?thesis using Committing c commit_tasks [OF c] by (auto simp: log_inv_def)
next
  case (Failing e)
  then show ?thesis using assms by (auto simp: log_inv_def record_failure_def)
next
  case (Handling e h)
  obtain c us r where c: "finish_failure ex e h a = (c, us, r)" by (metis surj_pair)
  then have "new = us" using assms(2) Handling by simp
  then show ?thesis using assms(1) Handling c finish_tasks [OF c] by (auto simp: log_inv_def)
qed

lemma step_log_inv:
  assumes "agent_inv (a, ts)" "log_inv ts l"
  shows "log_inv (snd (agent_step e (a, ts))) (l @ step_log e (a, ts))"
proof (cases e)
  case (Submit ex act)
  obtain b new r where b: "submit ex act a = (b, new, r)" by (metis surj_pair)
  have "new = []" if "ts \<noteq> []"
    using that assms(1) b by (auto elim!: agent_inv_cases simp: submit_def Let_def split: if_splits)
  then have "ts @ new = ts \<or> ts @ new = [] \<or> task_action (hd (ts @ new)) = None"
    using submit_tasks [OF b] by (cases ts) auto
  then show ?thesis using Submit b by (intro log_inv_quiet [OF assms(2)]) auto
next
  case (Restart ex word v c)
  obtain b new r where b: "restart ex word v c a = (b, new, r)" by (metis surj_pair)
  have "new = []" if "ts \<noteq> []"
    using that assms(1) b by (auto elim!: agent_inv_cases simp: restart_def)
  then have "ts @ new = ts \<or> ts @ new = [] \<or> task_action (hd (ts @ new)) = None"
    using restart_tasks [OF b] by (cases ts) auto
  then show ?thesis using Restart b by (intro log_inv_quiet [OF assms(2)]) (auto split: option.split)
next
  case (RunTask ex word i)
  show ?thesis
    using assms(1)
  proof (cases rule: agent_inv_cases)
    case 1
    then show ?thesis using assms(2) RunTask by simp
  next
    case (2 t)
    obtain b new where b: "run_task ex word t a = (b, new)" by fastforce
    show ?thesis
    proof (cases i)
      case 0
      then show ?thesis using run_task_log_inv [OF _ b] assms(2) RunTask 2 b by (simp add: replace_task_def)
    qed (use assms(2) RunTask 2 in simp)
  qed
next
  case (PreStart x i)
  show ?thesis
    using assms(1)
  proof (cases rule: agent_inv_cases)
    case 1
    then show ?thesis using assms(2) PreStart by simp
  next
    case (2 t)
    then show ?thesis
      using PreStart
      by (intro log_inv_quiet [OF assms(2)])
        (auto simp: replace_task_def pre_start_failure_def split: list.split)
  qed
qed (rule log_inv_quiet [OF assms(2)]; simp split: sum.split)+

lemma steps_history:
  assumes "agent_inv (a, ts)" "log_inv ts l" "sent l = gone l @ agent_queue a" "replay_log v l = Some (agent_state a)"
    and "agent_steps es (a, ts) = (b, us)"
  shows "sent (l @ steps_log es (a, ts)) = gone (l @ steps_log es (a, ts)) @ agent_queue b \<and>
    replay_log v (l @ steps_log es (a, ts)) = Some (agent_state b) \<and> log_inv us (l @ steps_log es (a, ts))"
  using assms
proof (induction es arbitrary: a ts l)
  case (Cons e es)
  obtain c vs where c: "agent_step e (a, ts) = (c, vs)" by fastforce
  let ?l = "l @ step_log e (a, ts)"
  note step = step_log_correct [OF Cons.prems(1) c]
  have "agent_inv (c, vs)" using agent_step_inv [OF Cons.prems(1)] c by metis
  moreover have "log_inv vs ?l" using step_log_inv [OF Cons.prems(1,2), of e] c by simp
  moreover have "sent ?l = gone ?l @ agent_queue c" "replay_log v ?l = Some (agent_state c)"
    using step Cons.prems(3,4) by (simp_all add: replay_append)
  moreover have "agent_steps es (c, vs) = (b, us)" using Cons.prems(5) c by (simp add: agent_steps_def)
  ultimately show ?case using Cons.IH [of c vs ?l] c by simp
qed (simp add: agent_steps_def)

text \<open>
  C27: agents serialise their actions. Whatever calls and tasks of any threads interleave, an
  agent is active exactly while one task works for it, never more, and that task's action sees the
  state it will replace. Actions leave the queue in the order in which they were sent, none is
  lost or taken twice, each taken action is committed at most once and in order, and the
  state is that of the committed actions run one after the other from the initial state (or from
  the last one a restart gave).
\<close>

theorem agent_serialises:
  assumes "new_agent v m vf md h = Inr a0" "agent_steps es (a0, []) = (a, ts)"
    and "l = steps_log es (a0, [])"
  shows "length ts = (if agent_active a then 1 else 0) \<and> list_all (task_fits a) ts \<and>
    sent l = gone l @ agent_queue a \<and> subseq (committed l) (taken l) \<and>
    replay_log v l = Some (agent_state a)"
proof -
  have inv: "agent_inv (a0, [])" by (rule new_agent_inv [OF assms(1)])
  have "agent_queue a0 = []" "agent_state a0 = v"
    using assms(1) by (auto simp: new_agent_def rbind_eq_Inr_iff split: option.splits)
  then have "sent l = gone l @ agent_queue a \<and> replay_log v l = Some (agent_state a) \<and> log_inv ts l"
    using steps_history [OF inv, of "[]" v es a ts] assms(2,3) by (simp add: log_inv_def)
  then show ?thesis
    using agent_steps_inv [OF inv, of es] assms(2) by (simp add: agent_inv_def log_inv_def list_all_iff)
qed

section \<open>Working off the queue\<close>

text \<open>
  What an agent left alone makes of its queue: the actions applied in turn; a failure keeps the
  state, and ends the work in mode \<open>fail\<close>, or is cleared in mode \<open>continue\<close> unless the handler
  raises. The result is the state, the actions left, and the error.
\<close>

fun work ::
  "('v, 'm) agent \<Rightarrow> 'v action list \<Rightarrow> 'v \<Rightarrow> py_error option \<Rightarrow> 'v \<times> 'v action list \<times> py_error option"
where
  "work a [] s err = (s, [], err)"
| "work a (act # acts) s err =
     (case act_result a act s of
        Inr new \<Rightarrow> work a acts new err
      | Inl e \<Rightarrow>
          if agent_mode a = FailMode then (s, acts, Some e)
          else work a acts s (if handler_result (agent_handler a) e = Inr () then None else Some e))"

definition settled :: "'v \<times> 'v action list \<times> py_error option \<Rightarrow> ('v, 'm) agent \<Rightarrow> ('v, 'm) agent" where
  "settled r a = a\<lparr>agent_state := fst r, agent_queue := fst (snd r), agent_error := snd (snd r),
                  agent_active := False\<rparr>"

lemma act_result_updates [simp]:
  "act_result (a\<lparr>agent_state := s\<rparr>) = act_result a"
  "act_result (a\<lparr>agent_queue := q\<rparr>) = act_result a"
  "act_result (a\<lparr>agent_active := b\<rparr>) = act_result a"
  "act_result (a\<lparr>agent_error := e\<rparr>) = act_result a"
  by (simp_all add: act_result_def [abs_def] validate_def)

lemma work_cong:
  assumes "ref_validator a = ref_validator b" "agent_mode a = agent_mode b" "agent_handler a = agent_handler b"
  shows "work a acts = work b acts"
proof (intro ext)
  fix s e
  have "act_result a act t = act_result b act t" for act t
    using assms(1) by (simp add: act_result_def validate_def)
  then show "work a acts s e = work b acts s e"
    using assms(2,3) by (induction acts arbitrary: s e) (simp_all split: sum.split)
qed

lemma agent_steps_simps [simp]:
  "agent_steps [] w = w"
  "agent_steps (e # es) w = agent_steps es (agent_step e w)"
  by (simp_all add: agent_steps_def)

lemma steps_idle: "agent_steps (replicate n (RunTask ex word 0)) (a, []) = (a, [])"
  by (induction n) simp_all

definition go :: "'v action list \<Rightarrow> 'v task list" where
  "go q = (if q = [] then [] else [Waiting])"

lemma schedule_accepted:
  "schedule (\<lambda>_. None) a = (a\<lparr>agent_active := (agent_queue a \<noteq> [])\<rparr>, go (agent_queue a), Inr ())"
  by (cases "agent_queue a") (simp_all add: schedule_def schedule_next_def go_def)

lemma work_success:
  assumes "agent_queue a = act # acts" "act_result a act (agent_state a) = Inr new"
  shows "agent_steps (replicate (Suc (Suc (Suc n))) (RunTask (\<lambda>_. None) word 0)) (a, [Waiting]) =
    agent_steps (replicate n (RunTask (\<lambda>_. None) word 0))
      (a\<lparr>agent_queue := acts, agent_state := new, agent_active := (acts \<noteq> []), agent_error := agent_error a\<rparr>,
       if acts = [] then [] else [Waiting])"
  using assms
  by (cases a) (simp add: start_action_def run_action_def commit_action_def schedule_accepted
      replace_task_def Let_def go_def act_result_def validate_def)

lemma work_failure:
  assumes "agent_queue a = act # acts" "act_result a act (agent_state a) = Inl e"
  shows "agent_steps (replicate (Suc (Suc (Suc (Suc n)))) (RunTask (\<lambda>_. None) word 0)) (a, [Waiting]) =
    agent_steps (replicate n (RunTask (\<lambda>_. None) word 0))
      (if agent_mode a = FailMode
       then (a\<lparr>agent_queue := acts, agent_error := Some e, agent_active := False\<rparr>, [])
       else (a\<lparr>agent_queue := acts, agent_state := agent_state a, agent_active := (acts \<noteq> []),
               agent_error := if handler_result (agent_handler a) e = Inr () then None else Some e\<rparr>,
             if acts = [] then [] else [Waiting]))"
  using assms
  by (cases a; cases "agent_mode a")
    (simp_all add: start_action_def run_action_def record_failure_def finish_failure_def
      schedule_accepted replace_task_def Let_def go_def act_result_def validate_def)

lemma works_off:
  assumes "agent_queue a \<noteq> []" "agent_active a" "4 * length (agent_queue a) \<le> n"
  shows "agent_steps (replicate n (RunTask (\<lambda>_. None) word 0)) (a, [Waiting]) =
    (settled (work a (agent_queue a) (agent_state a) (agent_error a)) a, [])"
  using assms
proof (induction "agent_queue a" arbitrary: a n)
  case (Cons act acts)
  note q = Cons.hyps(2) [symmetric]
  have rest: "agent_steps (replicate k (RunTask (\<lambda>_. None) word 0))
      (b, if acts = [] then [] else [Waiting]) = (settled (work a acts s e) a, [])"
    if b: "b = a\<lparr>agent_queue := acts, agent_state := s, agent_active := (acts \<noteq> []), agent_error := e\<rparr>"
      and k: "4 * length acts \<le> k" for b s e k
  proof (cases "acts = []")
    case True
    then show ?thesis using b by (simp add: steps_idle settled_def)
  next
    case False
    have "agent_steps (replicate k (RunTask (\<lambda>_. None) word 0)) (b, [Waiting]) =
        (settled (work b acts s e) b, [])"
      using Cons.hyps(1) [of b k] b k False by simp
    moreover have "work b acts = work a acts"
      using work_cong [of a b] b by (simp add: act_result_def validate_def)
    ultimately show ?thesis using False b by (simp add: settled_def)
  qed
  have n: "4 * length acts + 4 \<le> n" using Cons.prems(3) q by simp
  show ?case
  proof (cases "act_result a act (agent_state a)")
    case (Inr new)
    obtain k where k: "n = Suc (Suc (Suc k))" "4 * length acts \<le> k"
    proof
      show "n = Suc (Suc (Suc (n - 3)))" "4 * length acts \<le> n - 3" using n by linarith+
    qed
    show ?thesis
      unfolding k(1) work_success [OF q Inr] using rest [where s = new and e = "agent_error a", OF _ k(2)] Inr q by simp
  next
    case (Inl e)
    obtain k where k: "n = Suc (Suc (Suc (Suc k)))" "4 * length acts \<le> k"
    proof
      show "n = Suc (Suc (Suc (Suc (n - 4))))" "4 * length acts \<le> n - 4" using n by linarith+
    qed
    let ?e = "if handler_result (agent_handler a) e = Inr () then None else Some e"
    show ?thesis
    proof (cases "agent_mode a")
      case FailMode
      then show ?thesis unfolding k(1) work_failure [OF q Inl] using Inl q by (simp add: steps_idle settled_def)
    next
      case ContinueMode
      then show ?thesis
        unfolding k(1) work_failure [OF q Inl] using rest [where s = "agent_state a" and e = ?e, OF _ k(2)] Inl q by simp
    qed
  qed
qed simp

text \<open>The same for an agent whose next action, if there is one, is scheduled.\<close>

lemma works_off_go:
  assumes "agent_active a = (agent_queue a \<noteq> [])" "4 * length (agent_queue a) \<le> n"
  shows "agent_steps (replicate n (RunTask (\<lambda>_. None) word 0)) (a, go (agent_queue a)) =
    (settled (work a (agent_queue a) (agent_state a) (agent_error a)) a, [])"
proof (cases "agent_queue a = []")
  case True
  then have "settled (agent_state a, [], agent_error a) a = a" using assms(1) by (cases a) (simp add: settled_def)
  then show ?thesis using True by (simp add: go_def steps_idle)
next
  case False
  then show ?thesis using works_off [OF False _ assms(2), of word] assms(1) by (simp add: go_def)
qed

text \<open>
  What the task of an agent still has to do, as a plain loop: the action it has in hand, or the
  failure it handles, and then the queue. A failure ends the work in mode \<open>fail\<close>; in mode \<open>continue\<close> it
  is cleared unless the handler raises.
\<close>

definition work_on_failure ::
  "('v, 'm) agent \<Rightarrow> py_error \<Rightarrow> error_handler option \<Rightarrow> py_error option \<Rightarrow>
   'v \<times> 'v action list \<times> py_error option"
where
  "work_on_failure a e h err =
     (if agent_mode a = FailMode then (agent_state a, agent_queue a, err)
      else work a (agent_queue a) (agent_state a) (if handler_result h e = Inr () then None else err))"

fun remaining_work ::
  "('v, 'm) agent \<Rightarrow> 'v task list \<Rightarrow> 'v \<times> 'v action list \<times> py_error option"
where
  "remaining_work a (Waiting # ts) = work a (agent_queue a) (agent_state a) (agent_error a)"
| "remaining_work a (Acting act v # ts) = work a (act # agent_queue a) (agent_state a) (agent_error a)"
| "remaining_work a (Committing act v # ts) = work a (agent_queue a) v (agent_error a)"
| "remaining_work a (Failing e # ts) = work_on_failure a e (agent_handler a) (Some e)"
| "remaining_work a (Handling e h # ts) = work_on_failure a e h (agent_error a)"
| "remaining_work a [] = (agent_state a, agent_queue a, agent_error a)"

lemma works_off_committing:
  assumes "4 * length (agent_queue a) \<le> n"
  shows "agent_steps (replicate (Suc n) (RunTask (\<lambda>_. None) word 0)) (a, [Committing act v]) =
    (settled (remaining_work a [Committing act v]) a, [])"
proof -
  let ?b = "a\<lparr>agent_state := v, agent_active := (agent_queue a \<noteq> [])\<rparr>"
  have "work ?b acts = work a acts" for acts by (rule work_cong) simp_all
  then show ?thesis
    using works_off_go [of ?b n word] assms
    by (simp add: commit_action_def schedule_accepted replace_task_def Let_def settled_def)
qed

lemma works_off_handling:
  assumes "4 * length (agent_queue a) \<le> n"
  shows "agent_steps (replicate (Suc n) (RunTask (\<lambda>_. None) word 0)) (a, [Handling e h]) =
    (settled (remaining_work a [Handling e h]) a, [])"
proof (cases "agent_mode a")
  case FailMode
  then show ?thesis
    by (simp add: finish_failure_def replace_task_def Let_def work_on_failure_def steps_idle settled_def)
next
  case ContinueMode
  let ?err = "if handler_result h e = Inr () then None else agent_error a"
  let ?b = "a\<lparr>agent_error := ?err, agent_active := (agent_queue a \<noteq> [])\<rparr>"
  have "agent_step (RunTask (\<lambda>_. None) word 0) (a, [Handling e h]) = (?b, go (agent_queue a))"
    using ContinueMode
    by (cases a) (simp add: finish_failure_def schedule_accepted replace_task_def Let_def)
  moreover have "work ?b acts = work a acts" for acts by (rule work_cong) simp_all
  ultimately show ?thesis
    using works_off_go [of ?b n word] assms ContinueMode by (simp add: work_on_failure_def settled_def)
qed

lemma works_off_failing:
  assumes "4 * length (agent_queue a) \<le> n"
  shows "agent_steps (replicate (Suc (Suc n)) (RunTask (\<lambda>_. None) word 0)) (a, [Failing e]) =
    (settled (remaining_work a [Failing e]) a, [])"
proof -
  let ?b = "a\<lparr>agent_error := Some e\<rparr>"
  have same: "work ?b acts = work a acts" for acts by (rule work_cong) simp_all
  have "agent_step (RunTask (\<lambda>_. None) word 0) (a, [Failing e]) = (?b, [Handling e (agent_handler a)])"
    by (simp add: record_failure_def replace_task_def)
  then have "agent_steps (replicate (Suc (Suc n)) (RunTask (\<lambda>_. None) word 0)) (a, [Failing e]) =
      agent_steps (replicate (Suc n) (RunTask (\<lambda>_. None) word 0)) (?b, [Handling e (agent_handler a)])"
    unfolding replicate.simps(2) [of "Suc n"] agent_steps_simps by simp
  also have "\<dots> = (settled (remaining_work ?b [Handling e (agent_handler a)]) ?b, [])"
    by (rule works_off_handling) (use assms in simp)
  finally show ?thesis by (simp add: work_on_failure_def settled_def same)
qed

lemma works_off_task:
  assumes "agent_inv (a, ts)" "4 * length (agent_queue a) + 4 \<le> n"
  shows "agent_steps (replicate n (RunTask (\<lambda>_. None) word 0)) (a, ts) = (settled (remaining_work a ts) a, [])"
  using assms(1)
proof (cases rule: agent_inv_cases)
  case 1
  then have "settled (remaining_work a ts) a = a" by (cases a) (simp add: settled_def)
  then show ?thesis using 1 by (simp add: steps_idle)
next
  case (2 t)
  obtain k where n: "n = Suc (Suc (Suc k))" "4 * length (agent_queue a) \<le> k"
  proof
    show "n = Suc (Suc (Suc (n - 3)))" "4 * length (agent_queue a) \<le> n - 3" using assms(2) by linarith+
  qed
  show ?thesis
  proof (cases t)
    case Waiting
    then have active: "agent_active a = (agent_queue a \<noteq> [])" and go: "go (agent_queue a) = [Waiting]"
      using 2 by (simp_all add: task_fits_def go_def)
    show ?thesis
      using works_off_go [OF active, of n word] assms(2) unfolding 2(1) Waiting go by simp
  next
    case (Acting act v)
    then have v: "v = agent_state a" using 2(3) by (simp add: task_fits_def)
    show ?thesis
    proof (cases "act_result a act v")
      case (Inl e)
      have "agent_steps (replicate n (RunTask (\<lambda>_. None) word 0)) (a, ts) =
          agent_steps (replicate (Suc (Suc k)) (RunTask (\<lambda>_. None) word 0)) (a, [Failing e])"
        unfolding n(1) 2(1) Acting by (simp add: run_action_def Inl replace_task_def)
      then show ?thesis
        using works_off_failing [OF n(2), of word e] Inl v
        by (simp add: 2(1) Acting work_on_failure_def)
    next
      case (Inr new)
      have "agent_steps (replicate n (RunTask (\<lambda>_. None) word 0)) (a, ts) =
          agent_steps (replicate (Suc (Suc k)) (RunTask (\<lambda>_. None) word 0)) (a, [Committing act new])"
        unfolding n(1) 2(1) Acting by (simp add: run_action_def Inr replace_task_def)
      then show ?thesis
        using works_off_committing [of a "Suc k" word act new] n(2) Inr v by (simp add: 2(1) Acting)
    qed
  next
    case (Committing act v)
    then show ?thesis using works_off_committing [of a "Suc (Suc k)" word act v] n 2(1) by simp
  next
    case (Failing e)
    then show ?thesis using works_off_failing [of a "Suc k" word e] n 2(1) by simp
  next
    case (Handling e h)
    then show ?thesis using works_off_handling [of a "Suc (Suc k)" word e h] n 2(1) by simp
  qed
qed

lemma work_rest:
  "work a acts s e = (s', q, e') \<Longrightarrow> q = [] \<or> e' \<noteq> None \<and> agent_mode a = FailMode"
  by (induction acts arbitrary: s e) (auto split: sum.splits if_splits)

text \<open>Where nobody cleared the error while a handler ran, an await on the agent then returns.\<close>

lemma remaining_work_rest:
  assumes "ts \<noteq> []" "remaining_work a ts = (s, q, e)"
  shows "q = [] \<or> agent_mode a = FailMode \<and> (e \<noteq> None \<or> (\<exists>x h. hd ts = Handling x h))"
proof -
  obtain t us where ts: "ts = t # us" using assms(1) by (cases ts) auto
  show ?thesis
  proof (cases t)
    case (Acting act v)
    then show ?thesis using assms(2) work_rest [of a "act # agent_queue a"] by (fastforce simp: ts simp del: work.simps)
  qed (use assms(2) work_rest in \<open>fastforce simp: ts work_on_failure_def split: if_splits\<close>)+
qed

text \<open>
  C28: a queue is worked off. From any reachable state, if the executors take their tasks, the
  threads at work on an agent bring it to rest within four sections for each queued action and four
  more, with the state, the remaining actions and the error of a plain loop: over its queue if the
  next action is scheduled, and otherwise starting with the action or the failure that its task has
  in hand (an idle agent stays as it is). If it had a task, it rests with an empty queue or, in mode
  \<open>fail\<close>, with the failure, so that whoever awaits it returns; unless its task was already handling a
  failure, in which case the error may have been cleared.
\<close>

theorem agent_works_off:
  assumes "new_agent v m vf md h = Inr a0" "agent_steps es (a0, []) = (a, ts)"
    and "4 * length (agent_queue a) + 4 \<le> n"
  shows "\<exists>b. agent_steps (replicate n (RunTask (\<lambda>_. None) word 0)) (a, ts) = (b, []) \<and>
    b = settled (remaining_work a ts) a \<and>
    (ts \<noteq> [] \<longrightarrow> agent_mode a = ContinueMode \<longrightarrow> agent_queue b = []) \<and>
    (ts \<noteq> [] \<longrightarrow> (\<forall>e h. hd ts \<noteq> Handling e h) \<longrightarrow> await_ready False b)"
proof -
  have inv: "agent_inv (a, ts)" using agent_steps_inv [OF new_agent_inv [OF assms(1)], of es] assms(2) by simp
  obtain s q e where w: "remaining_work a ts = (s, q, e)" by (metis surj_pair)
  show ?thesis
    using works_off_task [OF inv assms(3), of word] remaining_work_rest [OF _ w]
    by (auto simp: w settled_def await_ready_def)
qed

section \<open>Examples\<close>

definition plus_action :: "int \<Rightarrow> int action" where
  "plus_action n = \<lparr>act_executor = 0, act_fn = (\<lambda>s. if n = 0 then Inl (UserError 0) else Inr (s + n))\<rparr>"

definition send :: "int \<Rightarrow> (int, unit) event" where
  "send n = Submit (\<lambda>_. None) (plus_action n)"

definition turn :: "(int, unit) event" where
  "turn = RunTask (\<lambda>_. None) (\<lambda>ws. ws) 0"

definition idle_agent :: "(int, unit) agent" where
  "idle_agent =
     \<lparr>ref_meta = (), ref_validator = None, ref_watches = [], agent_state = 0, agent_queue = [],
      agent_active = False, agent_error = None, agent_mode = FailMode, agent_handler = None\<rparr>"

lemma idle_agent_new: "new_agent 0 () None (Some FailMode) None = Inr idle_agent"
  by (simp add: new_agent_def idle_agent_def)

lemmas agent_eval =
  send_def turn_def idle_agent_def plus_action_def submit_def schedule_def schedule_next_def
  start_action_def run_action_def act_result_def validate_def run_validator_def commit_action_def
  notify_watches_def record_failure_def handler_result_def finish_failure_def replace_task_def
  clear_error_def set_validator_def Let_def

theorem agent_serialises_witness:
  "let (a, ts) = agent_steps [send 2, turn, send 3, turn, turn] (idle_agent, []);
       l = steps_log [send 2, turn, send 3, turn, turn] (idle_agent, [])
   in ts = [Waiting] \<and> agent_state a = 2 \<and> list_all (task_fits a) ts \<and>
      sent l = gone l @ agent_queue a \<and> subseq (committed l) (taken l) \<and> replay_log 0 l = Some 2"
proof -
  obtain a ts where a: "agent_steps [send 2, turn, send 3, turn, turn] (idle_agent, []) = (a, ts)" by fastforce
  moreover have "ts = [Waiting]" "agent_state a = 2" using a by (auto simp: agent_eval)
  ultimately show ?thesis using agent_serialises [OF idle_agent_new a refl] by simp
qed

theorem agent_works_off_witness:
  "let (a, ts) = agent_steps (replicate 12 turn) (agent_steps [send 2, send 5, turn] (idle_agent, []))
   in ts = [] \<and> await_ready False a \<and> agent_state a = 7"
proof -
  obtain a ts where a: "agent_steps [send 2, send 5, turn] (idle_agent, []) = (a, ts)" by fastforce
  then have q: "ts = [Acting (plus_action 2) 0]" "agent_queue a = [plus_action 5]" "agent_state a = 0"
    "ref_validator a = None" by (auto simp: agent_eval)
  then obtain b where b: "agent_steps (replicate 12 turn) (a, ts) = (b, [])" "await_ready False b"
    "b = settled (remaining_work a ts) a"
    using agent_works_off [OF idle_agent_new a, of 12 "\<lambda>ws. ws"] by (auto simp: turn_def)
  moreover have "agent_state b = 7"
    using b(3) q by (simp add: settled_def act_result_def validate_def run_validator_def plus_action_def)
  ultimately show ?thesis unfolding a by simp
qed

section \<open>Agents that are not worked off, and validators that are not asked\<close>

text \<open>Sections that give nobody a task for an idle agent.\<close>

fun schedules_nothing :: "('v, 'm) event \<Rightarrow> bool" where
  "schedules_nothing (Submit ex act) = False"
| "schedules_nothing (Restart ex word v c) = False"
| "schedules_nothing _ = True"

definition stranded :: "'v action list \<Rightarrow> ('v, 'm) agent_world \<Rightarrow> bool" where
  "stranded q w \<longleftrightarrow>
     snd w = [] \<and> \<not> agent_active (fst w) \<and> agent_error (fst w) = None \<and> agent_queue (fst w) = q"

lemma stranded_step: "schedules_nothing e \<Longrightarrow> stranded q w \<Longrightarrow> stranded q (agent_step e w)"
  by (cases w; cases e)
    (auto simp: stranded_def clear_error_def set_error_mode_def set_error_handler_def set_validator_def
      add_watch_def remove_watch_def rbind_def split: sum.splits option.splits)

lemma stranded_steps: "list_all schedules_nothing es \<Longrightarrow> stranded q w \<Longrightarrow> stranded q (agent_steps es w)"
  by (induction es arbitrary: w) (simp_all add: stranded_step)

text \<open>
  C29: two ways in which an agent goes wrong. Where actions are queued on an idle agent, as a failure
  in mode \<open>fail\<close> leaves them, \<open>clear_error\<close> makes nobody work them off: after whatever is done to the
  agent short of a send or a restart, it is pending, an await on it does not return, no thread has
  a task for it, and the queue is as it was. And a validator set while an action is between its own
  validation and its commit is not asked: if it refuses the action's result (and accepts the state
  it replaces, so that it can be set), the commit leaves the agent in a state its validator refuses.
\<close>

theorem agent_surprises:
  assumes "\<not> agent_active a" "agent_queue a \<noteq> []" "list_all schedules_nothing es"
    and "agent_steps (ClearError # es) (a, []) = (b, ts)"
    and "run_action act s a' = Committing act new" "accepts (Some vf) (agent_state a')" "\<not> accepts (Some vf) new"
    and "agent_steps [RunTask ex word 0, SetValidator (Some vf), RunTask ex word 0] (a', [Acting act s]) = (b', ts')"
  shows "ts = [] \<and> agent_queue b = agent_queue a \<and> agent_pending b \<and> \<not> await_ready w b \<and>
    agent_state b' = new \<and> \<not> accepts (ref_validator b') (agent_state b')"
proof -
  have "stranded (agent_queue a) (agent_step ClearError (a, []))"
    using assms(1) by (simp add: stranded_def clear_error_def)
  then have "stranded (agent_queue a) (b, ts)"
    using stranded_steps [OF assms(3)] assms(4) by fastforce
  moreover have "agent_state b' = new \<and> ref_validator b' = Some vf"
    using assms(5-8)
    by (auto simp: replace_task_def set_validator_def run_validator_accepts rbind_def commit_action_def Let_def
        schedule_def schedule_next_def split: list.splits option.splits)
  ultimately show ?thesis
    using assms(2,7) by (auto simp: stranded_def agent_pending_def await_ready_def)
qed

theorem agent_surprises_witness:
  "(let (a, ts) = agent_steps [send 0, send 1, turn, turn, turn, turn, ClearError, turn] (idle_agent, [])
    in ts = [] \<and> agent_pending a \<and> \<not> await_ready False a) \<and>
   (let (a, ts) = agent_steps [send 1, turn, turn, SetValidator (Some (\<lambda>s. Inr (s = 0))), turn] (idle_agent, [])
    in agent_state a = 1 \<and> \<not> accepts (ref_validator a) (agent_state a))"
proof -
  let ?vf = "\<lambda>s :: int. Inr (s = 0) :: bool res"
  obtain a0 ts0 where a0: "agent_steps [send 0, send 1, turn, turn, turn, turn] (idle_agent, []) = (a0, ts0)" by fastforce
  then have idle: "ts0 = []" "\<not> agent_active a0" "agent_queue a0 \<noteq> []" by (auto simp: agent_eval)
  obtain a ts where a: "agent_steps (ClearError # [turn]) (a0, []) = (a, ts)" by fastforce
  obtain b us where b: "agent_steps [send 1, turn] (idle_agent, []) = (b, us)" by fastforce
  then have act: "us = [Acting (plus_action 1) 0]" "run_action (plus_action 1) 0 b = Committing (plus_action 1) 1"
    "accepts (Some ?vf) (agent_state b)" "\<not> accepts (Some ?vf) 1"
    by (auto simp: agent_eval accepts_def)
  obtain b' us' where b': "agent_steps [RunTask (\<lambda>_. None) (\<lambda>ws. ws) 0, SetValidator (Some ?vf),
      RunTask (\<lambda>_. None) (\<lambda>ws. ws) 0] (b, [Acting (plus_action 1) 0]) = (b', us')" by (metis surj_pair)
  have plain: "list_all schedules_nothing [turn]" by (simp add: turn_def)
  note surprise = agent_surprises [OF idle(2,3) plain a act(2-4) b', of False]
  have "agent_steps [send 0, send 1, turn, turn, turn, turn, ClearError, turn] (idle_agent, []) = (a, ts)"
    using a0 a idle(1) by (simp add: agent_steps_def)
  moreover have "agent_steps [send 1, turn, turn, SetValidator (Some ?vf), turn] (idle_agent, []) = (b', us')"
    using b b' act(1) by (simp add: agent_steps_def turn_def)
  ultimately show ?thesis using surprise by (auto simp del: agent_steps_simps)
qed

end
