(* ===== verification/Spec.thy ===== *)
theory Spec
  imports Prelude
begin

text \<open>
  Specs (\<open>src/src/basilisp/lang/spec.py\<close>): descriptors of data, conforming a value to one, the
  matching of regular expressions of specs over sequences with generators, the problems that
  explain a failure, and unforming. Generators of test data are not modelled.
\<close>

section \<open>Values and specs\<close>

text \<open>
  Values as the module looks at them, up to Python's \<open>==\<close>: nil, integers, keywords, sequences, other
  iterables, maps as their entries in iteration order, and the values of the host.
\<close>

type_synonym skey = "string option \<times> string"

datatype 'h sval =
    SNil
  | SInt int
  | SKey skey
  | SSeq "'h sval list"
  | SIter "'h sval list"
  | SMap "('h sval \<times> 'h sval) list"
  | SHost 'h

definition INVALID :: "'h sval" where
  "INVALID = SKey (Some ''basilisp.spec.alpha'', ''invalid'')"

fun is_mapping :: "'h sval \<Rightarrow> bool" where
  "is_mapping (SMap _) = True"
| "is_mapping _ = False"

fun is_sequence :: "'h sval \<Rightarrow> bool" where
  "is_sequence (SSeq _) = True"
| "is_sequence _ = False"

fun regex_items :: "'h sval \<Rightarrow> 'h sval list option" where
  "regex_items (SSeq xs) = Some xs"
| "regex_items (SIter xs) = Some xs"
| "regex_items _ = None"

text \<open>
  One constructor for each class of descriptor. A type, a callable and a set are their tests; the
  test of \<open>kind\<close> is \<open>_matches\<close>. A multi-spec has its dispatch and, when it was given a \<open>retag\<close>, the
  \<open>get_method\<close> of the multimethod.
\<close>

datatype 'v spec =
    FSpec "'v spec option" "'v spec option" "'v spec option"
  | WithGen "'v spec" 'v
  | PredicateSpec "'v spec"
  | Conformer "'v \<Rightarrow> 'v res" "('v \<Rightarrow> 'v res) option"
  | Nonconforming "'v spec"
  | MergeSpec "'v spec list"
  | NamedSpec skey
  | AndSpec "'v spec list"
  | OrSpec "(skey \<times> 'v spec) list"
  | NilableSpec "'v spec"
  | CollOf "'v spec" "('v \<Rightarrow> bool res) option" "nat option" "nat option" "nat option" bool
  | MapOf "'v spec" "'v spec"
  | KeysSpec "(skey \<times> skey) list" "(skey \<times> skey) list"
  | TupleSpec "'v spec list"
  | MultiSpec "'v \<Rightarrow> 'v res" "('v \<Rightarrow> ('v \<Rightarrow> 'v spec res) option) option"
  | Instance "'v \<Rightarrow> bool"
  | PredFn "'v \<Rightarrow> bool res"
  | Members "'v \<Rightarrow> bool res"
  | Unsupported
  | Cat "(skey \<times> 'v spec) list"
  | Alt "(skey \<times> 'v spec) list"
  | Repeat "'v spec" nat
  | Maybe "'v spec"
  | Amp "'v spec" "'v spec list"
  | KeysStar "(skey \<times> skey) list" "(skey \<times> skey) list"

fun is_regex :: "'v spec \<Rightarrow> bool" where
  "is_regex (Cat _) = True"
| "is_regex (Alt _) = True"
| "is_regex (Repeat _ _) = True"
| "is_regex (Maybe _) = True"
| "is_regex (Amp _ _) = True"
| "is_regex (KeysStar _ _) = True"
| "is_regex _ = False"

text \<open>What a problem names as the predicate that failed.\<close>

datatype 'v pred_form = PSpec "'v spec" | PName string | PKey skey | PKind "'v \<Rightarrow> bool res" | PDispatch "'v \<Rightarrow> 'v res"

record 'v problem =
  p_path :: "'v list"
  p_pred :: "'v pred_form"
  p_val :: 'v
  p_via :: "skey list"
  p_in :: "'v list"

text \<open>The arguments \<open>path\<close>, \<open>via\<close> and \<open>location\<close> that every function passes on.\<close>

record 'v spot =
  s_path :: "'v list"
  s_via :: "skey list"
  s_in :: "'v list"

definition top :: "'v spot" where
  "top = \<lparr>s_path = [], s_via = [], s_in = []\<rparr>"

definition via :: "skey \<Rightarrow> 'v spot \<Rightarrow> 'v spot" where
  "via k s = s\<lparr>s_via := s_via s @ [k]\<rparr>"

definition down :: "'v \<Rightarrow> 'v spot \<Rightarrow> 'v spot" where
  "down x s = s\<lparr>s_path := s_path s @ [x]\<rparr>"

definition into :: "'v \<Rightarrow> 'v spot \<Rightarrow> 'v spot" where
  "into x s = s\<lparr>s_in := s_in s @ [x]\<rparr>"

text \<open>
  What the module takes from its surroundings: the registry of named specs, whether a value can be
  called, the size of \<open>set(value)\<close> (which raises on unhashable items), and the order in which a new
  map iterates.
\<close>

record 'h spec_env =
  spec_registry :: "skey \<Rightarrow> 'h sval spec option"
  is_callable :: "'h sval \<Rightarrow> bool"
  set_len :: "'h sval list \<Rightarrow> nat res"
  map_order :: "('h sval \<times> 'h sval) list \<Rightarrow> ('h sval \<times> 'h sval) list"

definition new_smap :: "'h spec_env \<Rightarrow> ('h sval \<times> 'h sval) list \<Rightarrow> 'h sval" where
  "new_smap E kvs = SMap (map_order E kvs)"

section \<open>Outcomes and generators\<close>

text \<open>
  A function that appends to \<open>problems\<close> and returns or raises is the list of what it appended, and the
  result. A generator is the sequence of what happens as it is resumed: a problem is appended, a
  value is yielded, it stops, or it raises. Who stops asking sees nothing of what is behind.
\<close>

type_synonym ('p, 'a) traced = "'p list \<times> 'a res"

definition obind :: "('p, 'a) traced \<Rightarrow> ('a \<Rightarrow> ('p, 'b) traced) \<Rightarrow> ('p, 'b) traced" where
  "obind m f =
     (case m of (ps, Inl e) \<Rightarrow> (ps, Inl e) | (ps, Inr x) \<Rightarrow> (case f x of (qs, r) \<Rightarrow> (ps @ qs, r)))"

definition oret :: "'a \<Rightarrow> ('p, 'a) traced" where
  "oret x = ([], Inr x)"

datatype ('p, 'a) gen = Stop | Fail py_error | Emit 'p "('p, 'a) gen" | Yield 'a "('p, 'a) gen"

fun gappend :: "('p, 'a) gen \<Rightarrow> ('p, 'a) gen \<Rightarrow> ('p, 'a) gen" where
  "gappend Stop h = h"
| "gappend (Fail e) h = Fail e"
| "gappend (Emit p g) h = Emit p (gappend g h)"
| "gappend (Yield x g) h = Yield x (gappend g h)"

text \<open>\<open>for x in g: yield from f(x)\<close>\<close>

fun gbind :: "('p, 'a) gen \<Rightarrow> ('a \<Rightarrow> ('p, 'b) gen) \<Rightarrow> ('p, 'b) gen" where
  "gbind Stop f = Stop"
| "gbind (Fail e) f = Fail e"
| "gbind (Emit p g) f = Emit p (gbind g f)"
| "gbind (Yield x g) f = gappend (f x) (gbind g f)"

definition gdo :: "('p, 'a) traced \<Rightarrow> ('a \<Rightarrow> ('p, 'b) gen) \<Rightarrow> ('p, 'b) gen" where
  "gdo m f = foldr Emit (fst m) (case snd m of Inl e \<Rightarrow> Fail e | Inr x \<Rightarrow> f x)"

text \<open>\<open>for x in g: if P(x): return x\<close>, and \<open>None\<close> at the end.\<close>

fun gfind :: "('a \<Rightarrow> bool) \<Rightarrow> ('p, 'a) gen \<Rightarrow> ('p, 'a option) traced" where
  "gfind P Stop = ([], Inr None)"
| "gfind P (Fail e) = ([], Inl e)"
| "gfind P (Emit p g) = map_prod ((#) p) id (gfind P g)"
| "gfind P (Yield x g) = (if P x then ([], Inr (Some x)) else gfind P g)"

type_synonym 'v conformed = "('v problem, 'v) traced"
type_synonym 'v conform_fn = "'v spec \<Rightarrow> 'v \<Rightarrow> 'v spot \<Rightarrow> bool \<Rightarrow> 'v conformed"
type_synonym 'v matches = "('v problem, 'v \<times> nat) gen"
type_synonym 'v match_fn = "'v spec \<Rightarrow> 'v list \<Rightarrow> nat \<Rightarrow> 'v spot \<Rightarrow> bool \<Rightarrow> 'v matches"

text \<open>\<open>rec\<close> is whether problems are recorded (\<open>problems is not None\<close>).\<close>

definition invalid :: "'h sval pred_form \<Rightarrow> 'h sval \<Rightarrow> 'h sval spot \<Rightarrow> bool \<Rightarrow> 'h sval conformed" where
  "invalid pred v s rec =
     (if rec then [\<lparr>p_path = s_path s, p_pred = pred, p_val = v, p_via = s_via s, p_in = s_in s\<rparr>] else [],
      Inr INVALID)"

definition valid_or ::
  "bool \<Rightarrow> 'h sval spec \<Rightarrow> 'h sval \<Rightarrow> 'h sval spot \<Rightarrow> bool \<Rightarrow> 'h sval conformed" where
  "valid_or b spec v s rec = (if b then oret v else invalid (PSpec spec) v s rec)"

section \<open>Conforming, without the regular expressions\<close>

text \<open>
  The functions below call \<open>_conform\<close> and \<open>_match_regex_all\<close> as \<open>cf\<close> and \<open>mf\<close>; \<open>conform_at\<close> and \<open>match_all\<close>
  tie the knot. A loop over children that returns INVALID at the first that does not conform:
\<close>

fun all_conform :: "'h sval conformed list \<Rightarrow> 'h sval \<Rightarrow> 'h sval conformed" where
  "all_conform [] v = oret v"
| "all_conform (r # rs) v = obind r (\<lambda>c. if c = INVALID then oret INVALID else all_conform rs v)"

fun conform_and ::
  "'h sval conform_fn \<Rightarrow> 'h sval spec list \<Rightarrow> 'h sval \<Rightarrow> 'h sval spot \<Rightarrow> bool \<Rightarrow> 'h sval conformed" where
  "conform_and cf [] v s rec = oret v"
| "conform_and cf (child # cs) v s rec =
     obind (cf child v s rec) (\<lambda>c. if c = INVALID then oret INVALID else conform_and cf cs c s rec)"

text \<open>The branches of \<open>or\<close> are tried silently; the problems of those that failed are kept in \<open>acc\<close>.\<close>

fun conform_or ::
  "'h sval conform_fn \<Rightarrow> (skey \<times> 'h sval spec) list \<Rightarrow> 'h sval \<Rightarrow> 'h sval spot \<Rightarrow> bool \<Rightarrow>
   'h sval problem list \<Rightarrow> 'h sval conformed"
where
  "conform_or cf [] v s rec acc = (acc, Inr INVALID)"
| "conform_or cf ((tag, child) # bs) v s rec acc =
     obind (cf child v (down (SKey tag) s) False) (\<lambda>c.
       if c \<noteq> INVALID then oret (SSeq [SKey tag, c])
       else if rec then
         (case cf child v (down (SKey tag) s) True of
            (ps, Inl e) \<Rightarrow> ([], Inl e)
          | (ps, Inr _) \<Rightarrow> conform_or cf bs v s rec (acc @ ps))
       else conform_or cf bs v s rec acc)"

fun merge_maps :: "'h spec_env \<Rightarrow> ('h sval \<times> 'h sval) list \<Rightarrow> 'h sval list \<Rightarrow> 'h sval res" where
  "merge_maps E d [] = Inr (new_smap E d)"
| "merge_maps E d (SMap kvs # vs) = merge_maps E (AList.updates (map fst kvs) (map snd kvs) d) vs"
| "merge_maps E d (_ # vs) = Inl TypeError"

fun conform_merge ::
  "'h spec_env \<Rightarrow> 'h sval conform_fn \<Rightarrow> 'h sval spec \<Rightarrow> 'h sval spec list \<Rightarrow> 'h sval \<Rightarrow> 'h sval spot \<Rightarrow> bool \<Rightarrow>
   'h sval list \<Rightarrow> 'h sval conformed"
where
  "conform_merge E cf spec [] v s rec acc = ([], merge_maps E [] acc)"
| "conform_merge E cf spec (child # cs) v s rec acc =
     obind (cf child v s rec) (\<lambda>c.
       if c = INVALID then oret INVALID
       else if \<not> is_mapping c then invalid (PSpec spec) v s rec
       else conform_merge E cf spec cs v s rec (acc @ [c]))"

definition bad_size :: "nat \<Rightarrow> nat option \<Rightarrow> nat option \<Rightarrow> nat option \<Rightarrow> bool" where
  "bad_size n cnt min_count max_count \<longleftrightarrow>
     (\<exists>c\<in>set_option cnt. n \<noteq> c) \<or> (\<exists>c\<in>set_option min_count. n < c) \<or> (\<exists>c\<in>set_option max_count. n > c)"

definition conform_coll_of ::
  "'h spec_env \<Rightarrow> 'h sval conform_fn \<Rightarrow> 'h sval spec \<Rightarrow> ('h sval \<Rightarrow> bool res) option \<Rightarrow> nat option \<Rightarrow>
   nat option \<Rightarrow> nat option \<Rightarrow> bool \<Rightarrow> 'h sval \<Rightarrow> 'h sval spot \<Rightarrow> bool \<Rightarrow> 'h sval conformed"
where
  "conform_coll_of E cf child kind cnt min_count max_count dist v s rec =
     (let pred = (case kind of None \<Rightarrow> PName ''sequential?'' | Some k \<Rightarrow> PKind k);
          whole = PSpec (CollOf child kind cnt min_count max_count dist)
      in case v of
        SSeq xs \<Rightarrow>
          obind ([], case kind of None \<Rightarrow> Inr True | Some k \<Rightarrow> k v) (\<lambda>ok.
            if \<not> ok then invalid pred v s rec
            else if bad_size (length xs) cnt min_count max_count then invalid whole v s rec
            else obind ([], if dist then rbind (set_len E xs) (\<lambda>n. Inr (n \<noteq> length xs)) else Inr False) (\<lambda>dup.
              if dup then invalid whole v s rec
              else all_conform (map (\<lambda>(i, x). cf child x (into (SInt (int i)) s) rec) (enumerate 0 xs)) v))
      | _ \<Rightarrow> invalid pred v s rec)"

definition conform_map_of ::
  "'h sval conform_fn \<Rightarrow> 'h sval spec \<Rightarrow> 'h sval spec \<Rightarrow> 'h sval \<Rightarrow> 'h sval spot \<Rightarrow> bool \<Rightarrow> 'h sval conformed"
where
  "conform_map_of cf ks vs v s rec =
     (case v of
        SMap kvs \<Rightarrow>
          all_conform (concat (map (\<lambda>(k, x). [cf ks k (into k s) rec, cf vs x (into k s) rec]) kvs)) v
      | _ \<Rightarrow> invalid (PName ''map?'') v s rec)"

definition conform_keys ::
  "'h sval conform_fn \<Rightarrow> (skey \<times> skey) list \<Rightarrow> (skey \<times> skey) list \<Rightarrow> 'h sval \<Rightarrow> 'h sval spot \<Rightarrow> bool \<Rightarrow>
   'h sval conformed"
where
  "conform_keys cf req opt v s rec =
     (case v of
        SMap kvs \<Rightarrow>
          (case find (\<lambda>(data_key, _). map_of kvs (SKey data_key) = None) req of
             Some (data_key, _) \<Rightarrow> invalid (PKey data_key) v s rec
           | None \<Rightarrow>
               all_conform
                 (map (\<lambda>(data_key, spec_key).
                    cf (NamedSpec spec_key) (the (map_of kvs (SKey data_key)))
                      (into (SKey data_key) (down (SKey data_key) s)) rec)
                   (filter (\<lambda>(data_key, _). map_of kvs (SKey data_key) \<noteq> None) (req @ opt))) v)
      | _ \<Rightarrow> invalid (PName ''map?'') v s rec)"

definition conform_tuple ::
  "'h sval conform_fn \<Rightarrow> 'h sval spec list \<Rightarrow> 'h sval \<Rightarrow> 'h sval spot \<Rightarrow> bool \<Rightarrow> 'h sval conformed"
where
  "conform_tuple cf specs v s rec =
     (case v of
        SSeq xs \<Rightarrow>
          if length xs \<noteq> length specs then invalid (PSpec (TupleSpec specs)) v s rec
          else all_conform
            (map (\<lambda>(i, child, x). cf child x (into (SInt (int i)) (down (SInt (int i)) s)) rec)
              (enumerate 0 (zip specs xs))) v
      | _ \<Rightarrow> invalid (PSpec (TupleSpec specs)) v s rec)"

text \<open>
  \<open>_multispec_spec_for_value\<close>: the spec for a value, and the dispatch value that selected it if the
  spec has a \<open>retag\<close>; a dispatch value of nil, like none, leaves the path as it is.
\<close>

definition multispec_spec ::
  "('h sval \<Rightarrow> 'h sval res) \<Rightarrow> ('h sval \<Rightarrow> ('h sval \<Rightarrow> 'h sval spec res) option) option \<Rightarrow> 'h sval \<Rightarrow>
   ('h sval spec \<times> 'h sval option) res"
where
  "multispec_spec dispatch get_method v =
     rbind (dispatch v) (\<lambda>d.
       case get_method of
         None \<Rightarrow> (case d of SKey k \<Rightarrow> Inr (NamedSpec k, None) | _ \<Rightarrow> Inl TypeError)
       | Some gm \<Rightarrow>
           (case gm d of
              None \<Rightarrow> Inl TypeError
            | Some method \<Rightarrow> rbind (method v) (\<lambda>sp. Inr (sp, Some d))))"

definition conform_multi ::
  "'h sval conform_fn \<Rightarrow> ('h sval \<Rightarrow> 'h sval res) \<Rightarrow> ('h sval \<Rightarrow> ('h sval \<Rightarrow> 'h sval spec res) option) option \<Rightarrow>
   'h sval \<Rightarrow> 'h sval spot \<Rightarrow> bool \<Rightarrow> 'h sval conformed"
where
  "conform_multi cf dispatch get_method v s rec =
     (case multispec_spec dispatch get_method v of
        Inl _ \<Rightarrow> invalid (PDispatch dispatch) v s rec
      | Inr (selected, None) \<Rightarrow> cf selected v s rec
      | Inr (selected, Some d) \<Rightarrow> cf selected v (if d = SNil then s else down d s) rec)"

section \<open>Regular expressions\<close>

definition conform_regex ::
  "'h sval match_fn \<Rightarrow> 'h sval spec \<Rightarrow> 'h sval \<Rightarrow> 'h sval spot \<Rightarrow> bool \<Rightarrow> 'h sval conformed" where
  "conform_regex mf spec v s rec =
     (case regex_items v of
        None \<Rightarrow> invalid (PSpec spec) v s rec
      | Some xs \<Rightarrow>
          obind (gfind (\<lambda>m. snd m = length xs) (mf spec xs 0 s rec)) (\<lambda>m.
            case m of Some (c, _) \<Rightarrow> oret c | None \<Rightarrow> invalid (PSpec spec) v s rec))"

definition match_regex ::
  "'h sval match_fn \<Rightarrow> 'h sval spec \<Rightarrow> 'h sval list \<Rightarrow> nat \<Rightarrow> 'h sval spot \<Rightarrow> bool \<Rightarrow>
   ('h sval problem, ('h sval \<times> nat) option) traced"
where
  "match_regex mf spec xs pos s rec = gfind (\<lambda>_. True) (mf spec xs pos s rec)"

fun alt_branch ::
  "'h sval match_fn \<Rightarrow> (skey \<times> 'h sval spec) list \<Rightarrow> 'h sval list \<Rightarrow> nat \<Rightarrow> 'h sval spot \<Rightarrow>
   ('h sval problem, ('h sval \<times> nat) option) traced"
where
  "alt_branch mf [] xs pos s = oret None"
| "alt_branch mf ((tag, child) # bs) xs pos s =
     obind (match_regex mf child xs pos (down (SKey tag) s) False) (\<lambda>m.
       case m of
         Some (c, next_pos) \<Rightarrow> oret (Some (SSeq [SKey tag, c], next_pos))
       | None \<Rightarrow> alt_branch mf bs xs pos s)"

fun alt_problems ::
  "'h sval match_fn \<Rightarrow> (skey \<times> 'h sval spec) list \<Rightarrow> 'h sval list \<Rightarrow> nat \<Rightarrow> 'h sval spot \<Rightarrow>
   ('h sval problem, unit) traced"
where
  "alt_problems mf [] xs pos s = oret ()"
| "alt_problems mf ((tag, child) # bs) xs pos s =
     obind (match_regex mf child xs pos (down (SKey tag) s) True) (\<lambda>_. alt_problems mf bs xs pos s)"

definition match_alt ::
  "'h sval match_fn \<Rightarrow> (skey \<times> 'h sval spec) list \<Rightarrow> 'h sval list \<Rightarrow> nat \<Rightarrow> 'h sval spot \<Rightarrow> bool \<Rightarrow> 'h sval matches"
where
  "match_alt mf branches xs pos s rec =
     gdo (alt_branch mf branches xs pos s) (\<lambda>m.
       case m of
         Some r \<Rightarrow> Yield r Stop
       | None \<Rightarrow>
           gdo (if rec then alt_problems mf branches xs pos s else oret ()) (\<lambda>_.
             if length xs \<le> pos
             then gdo (invalid (PSpec (Alt branches)) SNil (into (SInt (int pos)) s) rec) (\<lambda>_. Stop)
             else Stop))"

text \<open>
  The loop of a repeat: the values matched and the positions before and after them. \<open>n\<close> bounds the
  turns; one more than the length of the sequence is enough, since each turn consumes.
\<close>

fun repeat_loop ::
  "'h sval match_fn \<Rightarrow> 'h sval spec \<Rightarrow> 'h sval list \<Rightarrow> 'h sval spot \<Rightarrow> nat \<Rightarrow> nat \<Rightarrow> 'h sval list \<Rightarrow> nat list \<Rightarrow>
   ('h sval problem, 'h sval list \<times> nat list \<times> nat) traced"
where
  "repeat_loop mf child xs s 0 pos ms ps = ([], Inl RecursionError)"
| "repeat_loop mf child xs s (Suc n) pos ms ps =
     obind (match_regex mf child xs pos s False) (\<lambda>m.
       case m of
         None \<Rightarrow> oret (ms, ps, pos)
       | Some (c, next_pos) \<Rightarrow>
           if next_pos = pos then ([], Inl ValueError)
           else repeat_loop mf child xs s n next_pos (ms @ [c]) (ps @ [next_pos]))"

fun gen_of :: "'a list \<Rightarrow> ('p, 'a) gen" where
  "gen_of [] = Stop"
| "gen_of (x # xs) = Yield x (gen_of xs)"

definition match_repeat ::
  "'h sval match_fn \<Rightarrow> 'h sval spec \<Rightarrow> nat \<Rightarrow> 'h sval list \<Rightarrow> nat \<Rightarrow> 'h sval spot \<Rightarrow> bool \<Rightarrow> 'h sval matches"
where
  "match_repeat mf child minimum xs pos s rec =
     gdo (repeat_loop mf child xs s (Suc (length xs)) pos [] [pos]) (\<lambda>(ms, ps, last_pos).
       if length ms < minimum
       then gdo (if rec then obind (match_regex mf child xs last_pos s rec) (\<lambda>_. oret ()) else oret ()) (\<lambda>_. Stop)
       else gen_of (map (\<lambda>n. (SSeq (take n ms), ps ! n)) (rev [minimum..<Suc (length ms)])))"

definition match_maybe ::
  "'h sval match_fn \<Rightarrow> 'h sval spec \<Rightarrow> 'h sval list \<Rightarrow> nat \<Rightarrow> 'h sval spot \<Rightarrow> 'h sval matches" where
  "match_maybe mf child xs pos s =
     gdo (match_regex mf child xs pos s False) (\<lambda>m.
       case m of None \<Rightarrow> Yield (SNil, pos) Stop | Some r \<Rightarrow> Yield r Stop)"

definition match_amp ::
  "'h sval conform_fn \<Rightarrow> 'h sval match_fn \<Rightarrow> 'h sval spec \<Rightarrow> 'h sval spec list \<Rightarrow> 'h sval list \<Rightarrow> nat \<Rightarrow>
   'h sval spot \<Rightarrow> bool \<Rightarrow> 'h sval matches"
where
  "match_amp cf mf child preds xs pos s rec =
     gdo (match_regex mf child xs pos s rec) (\<lambda>m.
       case m of
         None \<Rightarrow> Stop
       | Some (c, next_pos) \<Rightarrow>
           gdo (conform_and cf preds c (into (SInt (int pos)) s) rec) (\<lambda>c'.
             if c' = INVALID then Stop else Yield (c', next_pos) Stop))"

definition match_element ::
  "'h sval conform_fn \<Rightarrow> 'h sval spec \<Rightarrow> 'h sval list \<Rightarrow> nat \<Rightarrow> 'h sval spot \<Rightarrow> bool \<Rightarrow> 'h sval matches" where
  "match_element cf spec xs pos s rec =
     (if length xs \<le> pos then gdo (invalid (PSpec spec) SNil (into (SInt (int pos)) s) rec) (\<lambda>_. Stop)
      else gdo (cf spec (xs ! pos) (into (SInt (int pos)) s) rec) (\<lambda>c.
        if c = INVALID then Stop else Yield (c, Suc pos) Stop))"

fun match_cat ::
  "'h spec_env \<Rightarrow> 'h sval match_fn \<Rightarrow> (skey \<times> 'h sval spec) list \<Rightarrow> 'h sval list \<Rightarrow> nat \<Rightarrow> 'h sval spot \<Rightarrow> bool \<Rightarrow>
   ('h sval \<times> 'h sval) list \<Rightarrow> 'h sval matches"
where
  "match_cat E mf [] xs pos s rec result = Yield (new_smap E result, pos) Stop"
| "match_cat E mf ((tag, child) # bs) xs pos s rec result =
     gbind (mf child xs pos (down (SKey tag) s) rec) (\<lambda>(c, next_pos).
       match_cat E mf bs xs next_pos s rec (AList.update (SKey tag) c result))"

text \<open>The pairs of \<open>keys*\<close>: the map they make, or the key that is no keyword and its place.\<close>

fun star_pairs ::
  "'h sval list \<Rightarrow> nat \<Rightarrow> ('h sval \<times> 'h sval) list \<Rightarrow> ('h sval \<times> nat) + ('h sval \<times> 'h sval) list" where
  "star_pairs (SKey k # x # xs) i mapped = star_pairs xs (i + 2) (AList.update (SKey k) x mapped)"
| "star_pairs (k # x # xs) i mapped = Inl (k, i)"
| "star_pairs _ i mapped = Inr mapped"

definition star_end ::
  "'h spec_env \<Rightarrow> 'h sval conform_fn \<Rightarrow> (skey \<times> skey) list \<Rightarrow> (skey \<times> skey) list \<Rightarrow> 'h sval list \<Rightarrow> nat \<Rightarrow>
   'h sval spot \<Rightarrow> bool \<Rightarrow> nat \<Rightarrow> 'h sval matches"
where
  "star_end E cf req opt xs pos s rec end_pos =
     (case star_pairs (take (end_pos - pos) (drop pos xs)) pos [] of
        Inl (k, i) \<Rightarrow>
          gdo (invalid (PName ''keyword?'') k
                (into (SInt (int i)) (down (SKey (Some ''clojure.spec.alpha'', ''k'')) s)) rec) (\<lambda>_. Stop)
      | Inr mapped \<Rightarrow>
          gdo (conform_keys cf req opt (new_smap E mapped) s rec) (\<lambda>c.
            if c = INVALID then Stop else Yield (c, end_pos) Stop))"

definition match_keys_star ::
  "'h spec_env \<Rightarrow> 'h sval conform_fn \<Rightarrow> (skey \<times> skey) list \<Rightarrow> (skey \<times> skey) list \<Rightarrow> 'h sval list \<Rightarrow> nat \<Rightarrow>
   'h sval spot \<Rightarrow> bool \<Rightarrow> 'h sval matches"
where
  "match_keys_star E cf req opt xs pos s rec =
     foldr (\<lambda>i. gappend (star_end E cf req opt xs pos s rec (pos + 2 * i)))
       [0..<(if length xs < pos then 0 else Suc ((length xs - pos) div 2))] Stop"

fun match_step ::
  "'h spec_env \<Rightarrow> 'h sval conform_fn \<Rightarrow> 'h sval match_fn \<Rightarrow> 'h sval match_fn"
where
  "match_step E cf mf (Cat bs) xs pos s rec = match_cat E mf bs xs pos s rec []"
| "match_step E cf mf (KeysStar req opt) xs pos s rec = match_keys_star E cf req opt xs pos s rec"
| "match_step E cf mf (Alt bs) xs pos s rec = match_alt mf bs xs pos s rec"
| "match_step E cf mf (Repeat child minimum) xs pos s rec = match_repeat mf child minimum xs pos s rec"
| "match_step E cf mf (Maybe child) xs pos s rec = match_maybe mf child xs pos s"
| "match_step E cf mf (Amp child preds) xs pos s rec = match_amp cf mf child preds xs pos s rec"
| "match_step E cf mf spec xs pos s rec = match_element cf spec xs pos s rec"

fun conform_step ::
  "'h spec_env \<Rightarrow> 'h sval conform_fn \<Rightarrow> 'h sval match_fn \<Rightarrow> 'h sval conform_fn"
where
  "conform_step E cf mf (FSpec a r f) v s rec = valid_or (is_callable E v) (FSpec a r f) v s rec"
| "conform_step E cf mf (WithGen spec g) v s rec = cf spec v s rec"
| "conform_step E cf mf (PredicateSpec spec) v s rec = cf spec v s rec"
| "conform_step E cf mf (Conformer f u) v s rec =
     (case f v of
        Inr c \<Rightarrow> if c \<noteq> INVALID then oret c else invalid (PSpec (Conformer f u)) v s rec
      | Inl _ \<Rightarrow> invalid (PSpec (Conformer f u)) v s rec)"
| "conform_step E cf mf (Nonconforming spec) v s rec =
     obind (cf spec v s rec) (\<lambda>c. oret (if c = INVALID then INVALID else v))"
| "conform_step E cf mf (MergeSpec specs) v s rec = conform_merge E cf (MergeSpec specs) specs v s rec []"
| "conform_step E cf mf (NamedSpec k) v s rec =
     (case spec_registry E k of
        None \<Rightarrow> invalid (PSpec (NamedSpec k)) v s rec
      | Some spec \<Rightarrow> cf spec v (via k s) rec)"
| "conform_step E cf mf (AndSpec specs) v s rec = conform_and cf specs v s rec"
| "conform_step E cf mf (OrSpec bs) v s rec = conform_or cf bs v s rec []"
| "conform_step E cf mf (NilableSpec spec) v s rec = (if v = SNil then oret v else cf spec v s rec)"
| "conform_step E cf mf (CollOf child kind cnt mn mx dist) v s rec =
     conform_coll_of E cf child kind cnt mn mx dist v s rec"
| "conform_step E cf mf (MapOf ks vs) v s rec = conform_map_of cf ks vs v s rec"
| "conform_step E cf mf (KeysSpec req opt) v s rec = conform_keys cf req opt v s rec"
| "conform_step E cf mf (TupleSpec specs) v s rec = conform_tuple cf specs v s rec"
| "conform_step E cf mf (MultiSpec dispatch gm) v s rec = conform_multi cf dispatch gm v s rec"
| "conform_step E cf mf (Instance f) v s rec = valid_or (f v) (Instance f) v s rec"
| "conform_step E cf mf (PredFn f) v s rec = valid_or (f v = Inr True) (PredFn f) v s rec"
| "conform_step E cf mf (Members f) v s rec =
     obind ([], f v) (\<lambda>b. valid_or b (Members f) v s rec)"
| "conform_step E cf mf Unsupported v s rec = ([], Inl TypeError)"
| "conform_step E cf mf spec v s rec = conform_regex mf spec v s rec"

text \<open>The fuel is the depth to which Python lets the calls nest before it raises RecursionError.\<close>

fun conform_at :: "'h spec_env \<Rightarrow> nat \<Rightarrow> 'h sval conform_fn"
and match_all :: "'h spec_env \<Rightarrow> nat \<Rightarrow> 'h sval match_fn"
where
  "conform_at E 0 = (\<lambda>spec v s rec. ([], Inl RecursionError))"
| "conform_at E (Suc n) = conform_step E (conform_at E n) (match_all E n)"
| "match_all E 0 = (\<lambda>spec xs pos s rec. Fail RecursionError)"
| "match_all E (Suc n) = match_step E (conform_at E n) (match_all E n)"

section \<open>The functions of the module\<close>

definition conform :: "'h spec_env \<Rightarrow> nat \<Rightarrow> 'h sval spec \<Rightarrow> 'h sval \<Rightarrow> 'h sval res" where
  "conform E n spec v = snd (conform_at E n spec v top False)"

definition valid :: "'h spec_env \<Rightarrow> nat \<Rightarrow> 'h sval spec \<Rightarrow> 'h sval \<Rightarrow> bool res" where
  "valid E n spec v = rbind (snd (conform_at E n spec v top False)) (\<lambda>c. Inr (c \<noteq> INVALID))"

definition explain_data ::
  "'h spec_env \<Rightarrow> nat \<Rightarrow> 'h sval spec \<Rightarrow> 'h sval \<Rightarrow> ('h sval problem list \<times> 'h sval spec \<times> 'h sval) option res"
where
  "explain_data E n spec v =
     (case conform_at E n spec v top True of
        (ps, r) \<Rightarrow> rbind r (\<lambda>c. Inr (if c \<noteq> INVALID then None else Some (ps, spec, v))))"

fun unform_and :: "('h sval spec \<Rightarrow> 'h sval \<Rightarrow> 'h sval res) \<Rightarrow> 'h sval spec list \<Rightarrow> 'h sval \<Rightarrow> 'h sval res" where
  "unform_and uf [] v = Inr v"
| "unform_and uf (child # cs) v = rbind (unform_and uf cs v) (uf child)"

fun unform_branch ::
  "('h sval spec \<Rightarrow> 'h sval \<Rightarrow> 'b res) \<Rightarrow> (skey \<times> 'h sval spec) list \<Rightarrow> 'h sval \<Rightarrow> 'h sval \<Rightarrow> 'b res \<Rightarrow> 'b res"
where
  "unform_branch uf [] tag c other = other"
| "unform_branch uf ((branch_tag, child) # bs) tag c other =
     (if tag = SKey branch_tag then uf child c else unform_branch uf bs tag c other)"

text \<open>
  \<open>merge\<close> unforms its specs one by one while \<open>_merge_maps\<close> asks for their values: the first that
  raises or is no map ends it.
\<close>

fun unform_merge ::
  "'h spec_env \<Rightarrow> ('h sval spec \<Rightarrow> 'h sval \<Rightarrow> 'h sval res) \<Rightarrow> ('h sval \<times> 'h sval) list \<Rightarrow>
   'h sval spec list \<Rightarrow> 'h sval \<Rightarrow> 'h sval res"
where
  "unform_merge E uf d [] v = Inr (new_smap E d)"
| "unform_merge E uf d (child # cs) v =
     rbind (uf child v) (\<lambda>u.
       case u of
         SMap kvs \<Rightarrow> unform_merge E uf (AList.updates (map fst kvs) (map snd kvs) d) cs v
       | _ \<Rightarrow> Inl TypeError)"

text \<open>\<open>unform\<close> for a spec that is no regular expression, and \<open>_unform_regex\<close>.\<close>

fun unform_step ::
  "'h spec_env \<Rightarrow> ('h sval spec \<Rightarrow> 'h sval \<Rightarrow> 'h sval res) \<Rightarrow> 'h sval spec \<Rightarrow> 'h sval \<Rightarrow> 'h sval res"
where
  "unform_step E uf (WithGen spec g) v = uf spec v"
| "unform_step E uf (PredicateSpec spec) v = uf spec v"
| "unform_step E uf (Conformer f u) v = (case u of None \<Rightarrow> Inr v | Some g \<Rightarrow> g v)"
| "unform_step E uf (Nonconforming spec) v = Inr v"
| "unform_step E uf (MergeSpec specs) v = unform_merge E uf [] (rev specs) v"
| "unform_step E uf (AndSpec specs) v = unform_and uf specs v"
| "unform_step E uf (NamedSpec k) v =
     (case spec_registry E k of None \<Rightarrow> Inr v | Some spec \<Rightarrow> uf spec v)"
| "unform_step E uf (OrSpec bs) v =
     (case v of SSeq [tag, c] \<Rightarrow> unform_branch uf bs tag c (Inr v) | _ \<Rightarrow> Inr v)"
| "unform_step E uf spec v = Inr v"

fun unform_regex_step ::
  "('h sval spec \<Rightarrow> 'h sval \<Rightarrow> 'h sval res) \<Rightarrow> ('h sval spec \<Rightarrow> 'h sval \<Rightarrow> 'h sval list res) \<Rightarrow>
   'h sval spec \<Rightarrow> 'h sval \<Rightarrow> 'h sval list res"
where
  "unform_regex_step uf rf (Cat bs) v =
     (case v of
        SMap kvs \<Rightarrow>
          rbind (mapM (\<lambda>(tag, child).
             case map_of kvs (SKey tag) of None \<Rightarrow> Inl KeyError | Some c \<Rightarrow> rf child c) bs) (\<lambda>parts. Inr (concat parts))
      | _ \<Rightarrow> Inr [v])"
| "unform_regex_step uf rf (Alt bs) v =
     (case v of SSeq [tag, c] \<Rightarrow> unform_branch rf bs tag c (Inr [v]) | _ \<Rightarrow> Inr [v])"
| "unform_regex_step uf rf (Repeat child minimum) v =
     (case v of SSeq cs \<Rightarrow> rbind (mapM (rf child) cs) (\<lambda>parts. Inr (concat parts)) | _ \<Rightarrow> Inr [v])"
| "unform_regex_step uf rf (Maybe child) v = (if v = SNil then Inr [] else rf child v)"
| "unform_regex_step uf rf (Amp child preds) v = rf child v"
| "unform_regex_step uf rf (KeysStar req opt) v =
     (case v of SMap kvs \<Rightarrow> Inr (concat (map (\<lambda>(k, x). [k, x]) kvs)) | _ \<Rightarrow> Inr [v])"
| "unform_regex_step uf rf spec v = rbind (uf spec v) (\<lambda>u. Inr [u])"

fun unform :: "'h spec_env \<Rightarrow> nat \<Rightarrow> 'h sval spec \<Rightarrow> 'h sval \<Rightarrow> 'h sval res"
and unform_regex :: "'h spec_env \<Rightarrow> nat \<Rightarrow> 'h sval spec \<Rightarrow> 'h sval \<Rightarrow> 'h sval list res"
where
  "unform E 0 = (\<lambda>spec v. Inl RecursionError)"
| "unform E (Suc n) = (\<lambda>spec v.
     if is_regex spec then rbind (unform_regex E n spec v) (\<lambda>xs. Inr (SSeq xs))
     else unform_step E (unform E n) spec v)"
| "unform_regex E 0 = (\<lambda>spec v. Inl RecursionError)"
| "unform_regex E (Suc n) = (\<lambda>spec v. unform_regex_step (unform E n) (unform_regex E n) spec v)"

section \<open>Constructors and the registry\<close>

definition define_spec :: "'h sval \<Rightarrow> 'h sval spec \<Rightarrow> 'h spec_env \<Rightarrow> 'h spec_env res" where
  "define_spec key spec E =
     (case key of SKey k \<Rightarrow> Inr (E\<lparr>spec_registry := (spec_registry E)(k \<mapsto> spec)\<rparr>) | _ \<Rightarrow> Inl TypeError)"

text \<open>
  The tagged branches of \<open>cat\<close>, \<open>alt\<close> and \<open>or\<close>, from their arguments; an argument that is a keyword is a
  \<open>NamedSpec\<close>.
\<close>

fun tagged_specs :: "'v spec list \<Rightarrow> (skey \<times> 'v spec) list res" where
  "tagged_specs [] = Inr []"
| "tagged_specs [_] = Inl ValueError"
| "tagged_specs (NamedSpec k # spec # rest) = rbind (tagged_specs rest) (\<lambda>bs. Inr ((k, spec) # bs))"
| "tagged_specs (_ # _ # rest) = (if odd (length rest) then Inl ValueError else Inl TypeError)"

definition new_or :: "'v spec list \<Rightarrow> 'v spec res" where
  "new_or args = rbind (tagged_specs args) (\<lambda>bs. Inr (OrSpec bs))"

definition new_cat :: "'v spec list \<Rightarrow> 'v spec res" where
  "new_cat args = rbind (tagged_specs args) (\<lambda>bs. Inr (Cat bs))"

definition new_alt :: "'v spec list \<Rightarrow> 'v spec res" where
  "new_alt args = rbind (tagged_specs args) (\<lambda>bs. Inr (Alt bs))"

definition new_amp :: "'v spec \<Rightarrow> 'v spec list \<Rightarrow> 'v spec res" where
  "new_amp spec preds = (if preds = [] then Inl ValueError else Inr (Amp spec preds))"

definition new_merge :: "'v spec list \<Rightarrow> 'v spec res" where
  "new_merge specs = (if specs = [] then Inl ValueError else Inr (MergeSpec specs))"

text \<open>\<open>_key_specs\<close>: pairs of the key looked up in the data and the name of its spec.\<close>

fun key_specs :: "bool \<Rightarrow> 'h sval list \<Rightarrow> (skey \<times> skey) list res" where
  "key_specs unqualified [] = Inr []"
| "key_specs unqualified (SKey k # ks) =
     rbind (key_specs unqualified ks) (\<lambda>ps. Inr ((if unqualified then (None, snd k) else k, k) # ps))"
| "key_specs unqualified (_ # ks) = Inl TypeError"

definition keys_pairs ::
  "'h sval list \<Rightarrow> 'h sval list \<Rightarrow> 'h sval list \<Rightarrow> 'h sval list \<Rightarrow> ((skey \<times> skey) list \<times> (skey \<times> skey) list) res"
where
  "keys_pairs req opt req_un opt_un =
     rbind (key_specs False req) (\<lambda>r. rbind (key_specs True req_un) (\<lambda>ru.
     rbind (key_specs False opt) (\<lambda>p. rbind (key_specs True opt_un) (\<lambda>pu. Inr (r @ ru, p @ pu)))))"

definition new_keys where
  "new_keys req opt req_un opt_un =
     rbind (keys_pairs req opt req_un opt_un) (\<lambda>(r, p). Inr (KeysSpec r p))"

definition new_keys_star where
  "new_keys_star req opt req_un opt_un =
     rbind (keys_pairs req opt req_un opt_un) (\<lambda>(r, p). Inr (KeysStar r p))"

text \<open>\<open>spec\<close> makes a first-class spec of a predicate; \<open>spec_q\<close> and \<open>regex_q\<close> recognise one.\<close>

fun is_descriptor :: "'v spec \<Rightarrow> bool" where
  "is_descriptor (NamedSpec _) = False"
| "is_descriptor (Instance _) = False"
| "is_descriptor (PredFn _) = False"
| "is_descriptor (Members _) = False"
| "is_descriptor Unsupported = False"
| "is_descriptor _ = True"

definition make_spec :: "'v spec \<Rightarrow> 'v option \<Rightarrow> 'v spec" where
  "make_spec pred g =
     (let d = if is_descriptor pred then pred else PredicateSpec pred
      in case g of None \<Rightarrow> d | Some gen \<Rightarrow> WithGen d gen)"

definition spec_q :: "'v spec \<Rightarrow> 'v spec option" where
  "spec_q spec = (if is_descriptor spec \<and> \<not> is_regex spec then Some spec else None)"

definition regex_q :: "'v spec \<Rightarrow> 'v spec option" where
  "regex_q spec = (if is_regex spec then Some spec else None)"

end
