(* ===== verification/SpecLaws.thy ===== *)
theory SpecLaws
  imports Spec
begin

text \<open>
  Explaining a value agrees with validating it: whether problems are recorded, and where a call says
  it is, never changes a result. The functions of Spec.thy are proved to keep this of the calls they
  make, in the locale \<open>conform_calls\<close>; every depth of calls then satisfies it.
\<close>

section \<open>Outcomes\<close>

lemma snd_obind [simp]: "snd (obind m f) = rbind (snd m) (\<lambda>x. snd (f x))"
  by (cases m; cases "snd m") (auto simp: obind_def split: prod.splits)

lemma snd_oret [simp]: "snd (oret x) = Inr x"
  by (simp add: oret_def)

lemma fst_oret [simp]: "fst (oret x) = []"
  by (simp add: oret_def)

lemma fst_obind:
  "fst (obind m f) = fst m @ (case snd m of Inl _ \<Rightarrow> [] | Inr x \<Rightarrow> fst (f x))"
  by (cases m; cases "snd m") (auto simp: obind_def split: prod.splits)

lemma snd_invalid [simp]: "snd (invalid pred v s rec) = Inr INVALID"
  by (simp add: invalid_def)

lemma fst_invalid_quiet [simp]: "fst (invalid pred v s False) = []"
  by (simp add: invalid_def)

text \<open>A generator without its problems.\<close>

fun quiet :: "('p, 'a) gen \<Rightarrow> ('p, 'a) gen" where
  "quiet Stop = Stop"
| "quiet (Fail e) = Fail e"
| "quiet (Emit p g) = quiet g"
| "quiet (Yield x g) = Yield x (quiet g)"

lemma quiet_gappend [simp]: "quiet (gappend g h) = gappend (quiet g) (quiet h)"
  by (induction g) simp_all

lemma quiet_gbind [simp]: "quiet (gbind g f) = gbind (quiet g) (\<lambda>x. quiet (f x))"
  by (induction g) simp_all

lemma quiet_foldr_Emit [simp]: "quiet (foldr Emit ps g) = quiet g"
  by (induction ps) simp_all

lemma quiet_gdo [simp]:
  "quiet (gdo m f) = (case snd m of Inl e \<Rightarrow> Fail e | Inr x \<Rightarrow> quiet (f x))"
  by (auto simp: gdo_def split: sum.splits)

lemma quiet_gen_of [simp]: "quiet (gen_of xs) = gen_of xs"
  by (induction xs) simp_all

lemma snd_gfind_quiet: "snd (gfind P g) = snd (gfind P (quiet g))"
  by (induction g) auto

lemma fst_gfind_quiet: "fst (gfind P (quiet g)) = []"
  by (induction g) auto

text \<open>
  What two calls of \<open>_conform\<close> or of \<open>_match_regex_all\<close> have in common: the result, whatever the
  place they are called at and whether problems are recorded; nothing is recorded unless asked.
\<close>

definition agree_cf :: "'h sval conform_fn \<Rightarrow> bool" where
  "agree_cf cf \<longleftrightarrow>
     (\<forall>spec v s s' rec rec'. snd (cf spec v s rec) = snd (cf spec v s' rec')) \<and>
     (\<forall>spec v s. fst (cf spec v s False) = [])"

definition agree_mf :: "'h sval match_fn \<Rightarrow> bool" where
  "agree_mf mf \<longleftrightarrow>
     (\<forall>spec xs pos s s' rec rec'. quiet (mf spec xs pos s rec) = quiet (mf spec xs pos s' rec')) \<and>
     (\<forall>spec xs pos s. quiet (mf spec xs pos s False) = mf spec xs pos s False)"

lemma agree_cfD: "agree_cf cf \<Longrightarrow> snd (cf spec v s rec) = snd (cf spec v top False)"
  unfolding agree_cf_def by blast

lemma agree_cf_quiet: "agree_cf cf \<Longrightarrow> fst (cf spec v s False) = []"
  unfolding agree_cf_def by blast

lemma agree_mfD: "agree_mf mf \<Longrightarrow> quiet (mf spec xs pos s rec) = quiet (mf spec xs pos top False)"
  unfolding agree_mf_def by blast

lemma agree_mf_quiet: "agree_mf mf \<Longrightarrow> quiet (mf spec xs pos s False) = mf spec xs pos s False"
  unfolding agree_mf_def by blast

text \<open>The results of the functions, as they depend on those of \<open>cf\<close> and \<open>mf\<close>.\<close>

definition result_cf :: "'h sval conform_fn \<Rightarrow> 'h sval spec \<Rightarrow> 'h sval \<Rightarrow> 'h sval res" where
  "result_cf cf spec v = snd (cf spec v top False)"

definition result_mf :: "'h sval match_fn \<Rightarrow> 'h sval spec \<Rightarrow> 'h sval list \<Rightarrow> nat \<Rightarrow> 'h sval matches" where
  "result_mf mf spec xs pos = mf spec xs pos top False"

lemma snd_match_regex: "agree_mf mf \<Longrightarrow>
  snd (match_regex mf spec xs pos s rec) = snd (gfind (\<lambda>_. True) (result_mf mf spec xs pos))"
  unfolding match_regex_def result_mf_def
  by (subst snd_gfind_quiet) (metis agree_mfD agree_mf_quiet)

lemma fst_match_regex: "agree_mf mf \<Longrightarrow> fst (match_regex mf spec xs pos s False) = []"
  unfolding match_regex_def by (metis agree_mf_quiet fst_gfind_quiet)

section \<open>Explaining does not change the result\<close>

lemma snd_all_conform:
  "map snd rs = map snd rs' \<Longrightarrow> snd (all_conform rs v) = snd (all_conform rs' v)"
proof (induction rs arbitrary: rs')
  case (Cons r rs)
  then obtain r' rs2 where [simp]: "rs' = r' # rs2" "snd r' = snd r" and m: "map snd rs = map snd rs2"
    by (cases rs') auto
  have ih: "snd (all_conform rs v) = snd (all_conform rs2 v)" by (rule Cons.IH [OF m])
  show ?case by (cases "snd r") (simp_all add: ih)
qed simp

lemma fst_all_conform: "\<forall>r\<in>set rs. fst r = [] \<Longrightarrow> fst (all_conform rs v) = []"
  by (induction rs) (auto simp: fst_obind split: sum.splits)

lemma case_outcome:
  "(case m of (ps, Inl e) \<Rightarrow> A ps e | (ps, Inr u) \<Rightarrow> B ps u) =
   (case snd m of Inl e \<Rightarrow> A (fst m) e | Inr u \<Rightarrow> B (fst m) u)"
  by (cases m) (auto split: sum.splits)

text \<open>What the functions rely on when they call each other: calls agree as above.\<close>

locale conform_calls =
  fixes cf :: "'h sval conform_fn" and mf :: "'h sval match_fn"
  assumes cf: "agree_cf cf" and mf: "agree_mf mf"
begin

lemma snd_cf: "snd (cf spec v s rec) = result_cf cf spec v"
  unfolding result_cf_def by (rule agree_cfD [OF cf])

lemma fst_cf: "fst (cf spec v s False) = []"
  by (rule agree_cf_quiet [OF cf])

lemma fst_cf_pair: "(ps, r) = cf spec v s False \<Longrightarrow> ps = []"
  using fst_cf by (metis fst_conv)

lemma snd_match: "snd (match_regex mf spec xs pos s rec) = snd (gfind (\<lambda>_. True) (result_mf mf spec xs pos))"
  by (rule snd_match_regex [OF mf])

lemma fst_match: "fst (match_regex mf spec xs pos s False) = []"
  by (rule fst_match_regex [OF mf])

lemma quiet_mf: "quiet (mf spec xs pos s rec) = result_mf mf spec xs pos"
  unfolding result_mf_def using agree_mfD [OF mf] agree_mf_quiet [OF mf] by metis

lemma quiet_mf_False: "quiet (mf spec xs pos s False) = mf spec xs pos s False"
  by (rule agree_mf_quiet [OF mf])

lemma mf_False: "mf spec xs pos s False = result_mf mf spec xs pos"
  using quiet_mf [of spec xs pos s False] by (simp add: quiet_mf_False)

lemma and_agrees:
  "snd (conform_and cf cs v s rec) = snd (conform_and cf cs v s' rec')"
  "fst (conform_and cf cs v s False) = []"
proof -
  show "snd (conform_and cf cs v s rec) = snd (conform_and cf cs v s' rec')"
  proof (induction cs arbitrary: v)
    case (Cons c cs)
    then show ?case by (cases "result_cf cf c v") (auto simp: snd_cf)
  qed simp
  show "fst (conform_and cf cs v s False) = []"
    by (induction cs arbitrary: v) (auto simp: fst_obind fst_cf split: sum.splits)
qed

lemma or_agrees:
  "snd (conform_or cf bs v s rec acc) = snd (conform_or cf bs v s' rec' acc')"
  "fst (conform_or cf bs v s False []) = []"
proof -
  show "snd (conform_or cf bs v s rec acc) = snd (conform_or cf bs v s' rec' acc')"
  proof (induction bs arbitrary: acc acc')
    case (Cons b bs)
    obtain tag c where b: "b = (tag, c)" by fastforce
    show ?case
      unfolding b using Cons.IH by (cases "result_cf cf c v") (auto simp: snd_cf case_outcome)
  qed simp
  show "fst (conform_or cf bs v s False []) = []"
  proof (induction bs)
    case (Cons b bs)
    then show ?case by (cases b) (auto simp: fst_obind fst_cf split: sum.splits)
  qed simp
qed

lemma merge_agrees:
  "snd (conform_merge E cf sp cs v s rec acc) = snd (conform_merge E cf sp cs v s' rec' acc)"
  "fst (conform_merge E cf sp cs v s False acc) = []"
proof -
  show "snd (conform_merge E cf sp cs v s rec acc) = snd (conform_merge E cf sp cs v s' rec' acc)"
  proof (induction cs arbitrary: acc)
    case (Cons c cs)
    then show ?case by (cases "result_cf cf c v") (auto simp: snd_cf)
  qed simp
  show "fst (conform_merge E cf sp cs v s False acc) = []"
    by (induction cs arbitrary: acc) (auto simp: fst_obind fst_cf split: sum.splits)
qed

lemma coll_agrees:
  "snd (conform_coll_of E cf c k n mn mx d v s rec) = snd (conform_coll_of E cf c k n mn mx d v s' rec')"
  "fst (conform_coll_of E cf c k n mn mx d v s False) = []"
proof -
  show "snd (conform_coll_of E cf c k n mn mx d v s rec) = snd (conform_coll_of E cf c k n mn mx d v s' rec')"
    unfolding conform_coll_of_def Let_def
    by (cases v) (auto simp: snd_cf intro!: ext arg_cong2 [where f = rbind] snd_all_conform)
  show "fst (conform_coll_of E cf c k n mn mx d v s False) = []"
    unfolding conform_coll_of_def Let_def
    by (cases v) (auto simp: fst_obind fst_cf dest!: fst_cf_pair split: sum.splits intro!: fst_all_conform)
qed

lemma map_of_agrees:
  "snd (conform_map_of cf ks vs v s rec) = snd (conform_map_of cf ks vs v s' rec')"
  "fst (conform_map_of cf ks vs v s False) = []"
proof -
  show "snd (conform_map_of cf ks vs v s rec) = snd (conform_map_of cf ks vs v s' rec')"
    unfolding conform_map_of_def
    by (cases v) (auto simp: snd_cf map_concat intro!: snd_all_conform arg_cong [where f = concat])
  show "fst (conform_map_of cf ks vs v s False) = []"
    unfolding conform_map_of_def by (cases v) (auto simp: fst_cf dest!: fst_cf_pair intro!: fst_all_conform)
qed

lemma keys_agrees:
  "snd (conform_keys cf req opt v s rec) = snd (conform_keys cf req opt v s' rec')"
  "fst (conform_keys cf req opt v s False) = []"
proof -
  show "snd (conform_keys cf req opt v s rec) = snd (conform_keys cf req opt v s' rec')"
    unfolding conform_keys_def
    by (cases v) (auto simp: snd_cf intro!: snd_all_conform split: option.splits)
  show "fst (conform_keys cf req opt v s False) = []"
    unfolding conform_keys_def by (cases v) (auto simp: fst_cf dest!: fst_cf_pair intro!: fst_all_conform split: option.splits)
qed

lemma tuple_agrees:
  "snd (conform_tuple cf cs v s rec) = snd (conform_tuple cf cs v s' rec')"
  "fst (conform_tuple cf cs v s False) = []"
proof -
  show "snd (conform_tuple cf cs v s rec) = snd (conform_tuple cf cs v s' rec')"
    unfolding conform_tuple_def by (cases v) (auto simp: snd_cf intro!: snd_all_conform)
  show "fst (conform_tuple cf cs v s False) = []"
    unfolding conform_tuple_def by (cases v) (auto simp: fst_cf dest!: fst_cf_pair intro!: fst_all_conform)
qed

lemma multi_agrees:
  "snd (conform_multi cf dp gm v s rec) = snd (conform_multi cf dp gm v s' rec')"
  "fst (conform_multi cf dp gm v s False) = []"
  unfolding conform_multi_def by (auto simp: snd_cf fst_cf split: sum.splits option.splits)

lemma regex_agrees:
  "snd (conform_regex mf sp v s rec) = snd (conform_regex mf sp v s' rec')"
  "fst (conform_regex mf sp v s False) = []"
proof -
  have "snd (gfind P (mf sp xs 0 s rec)) = snd (gfind P (mf sp xs 0 s' rec'))" for P xs
    by (subst (1 2) snd_gfind_quiet) (simp add: quiet_mf)
  then show "snd (conform_regex mf sp v s rec) = snd (conform_regex mf sp v s' rec')"
    unfolding conform_regex_def
    by (cases "regex_items v") (auto intro!: arg_cong2 [where f = rbind] split: option.splits)
  have "fst (gfind P (mf sp xs 0 s False)) = []" for P xs
    by (metis quiet_mf_False fst_gfind_quiet)
  then show "fst (conform_regex mf sp v s False) = []"
    unfolding conform_regex_def by (cases "regex_items v") (auto simp: fst_obind split: option.splits sum.splits)
qed

lemma conform_step_agrees: "agree_cf (conform_step E cf mf)"
proof -
  have "snd (conform_step E cf mf sp v s rec) = snd (conform_step E cf mf sp v s' rec') \<and>
      fst (conform_step E cf mf sp v s False) = []" for sp v s s' rec rec'
  proof (cases sp)
    case (Conformer f u)
    then show ?thesis by (auto split: sum.splits)
  next
    case (CollOf c k n mn mx d)
    then show ?thesis using coll_agrees by (metis conform_step.simps(11))
  next
    case (NamedSpec k)
    then show ?thesis by (cases "spec_registry E k") (auto simp: snd_cf fst_cf)
  next
    case (Members f)
    then show ?thesis by (auto simp: fst_obind valid_or_def split: sum.splits)
  qed (use and_agrees or_agrees merge_agrees map_of_agrees keys_agrees tuple_agrees multi_agrees
         regex_agrees in \<open>auto simp: snd_cf fst_cf fst_obind valid_or_def split: sum.splits\<close>)
  then show ?thesis unfolding agree_cf_def by blast
qed


end

text \<open>Generators agree when they are the same without their problems, and record none unasked.\<close>

definition same_gen :: "(bool \<Rightarrow> 'h sval spot \<Rightarrow> 'h sval matches) \<Rightarrow> bool" where
  "same_gen G \<longleftrightarrow> (\<forall>s s' rec rec'. quiet (G rec s) = quiet (G rec' s')) \<and> (\<forall>s. quiet (G False s) = G False s)"

lemma same_gdo:
  assumes m: "\<And>s s' rec rec'. snd (M rec s) = snd (M rec' s')" "\<And>s. fst (M False s) = []"
    and f: "\<And>x. snd (M False top) = Inr x \<Longrightarrow> same_gen (F x)"
  shows "same_gen (\<lambda>rec s. gdo (M rec s) (\<lambda>x. F x rec s))"
proof (cases "snd (M False top)")
  case (Inl e)
  then have "snd (M rec s) = Inl e" for rec s using m(1) by metis
  then show ?thesis by (auto simp: same_gen_def gdo_def m(2))
next
  case (Inr x)
  then have "snd (M rec s) = Inr x" for rec s using m(1) by metis
  then show ?thesis using f [OF Inr] by (auto simp: same_gen_def gdo_def m(2))
qed

lemma same_pure [intro]: "quiet g = g \<Longrightarrow> same_gen (\<lambda>rec s. g)"
  by (simp add: same_gen_def)

lemma same_gappend: "same_gen G \<Longrightarrow> same_gen H \<Longrightarrow> same_gen (\<lambda>rec s. gappend (G rec s) (H rec s))"
  unfolding same_gen_def by (metis quiet_gappend)

lemma same_gbind:
  assumes "same_gen G" "\<And>x. same_gen (\<lambda>rec s. F x rec s)"
  shows "same_gen (\<lambda>rec s. gbind (G rec s) (\<lambda>x. F x rec s))"
proof -
  have g: "quiet (G rec s) = G False top" for rec s using assms(1) unfolding same_gen_def by metis
  have f: "quiet (F x rec s) = F x False top" for x rec s using assms(2) unfolding same_gen_def by metis
  have g': "G False s = G False top" for s using assms(1) g unfolding same_gen_def by metis
  have f': "(\<lambda>x. F x False s) = (\<lambda>x. F x False top)" for s
    by (rule ext) (use assms(2) f in \<open>metis same_gen_def\<close>)
  have "gbind (G False s) (\<lambda>x. F x False s) = gbind (G False top) (\<lambda>x. F x False top)" for s
    unfolding g' [of s] f' [of s] ..
  note eq = this
  show ?thesis unfolding same_gen_def quiet_gbind g f by (intro conjI allI refl eq [symmetric])
qed

lemma same_invalid: "same_gen (\<lambda>rec s. gdo (invalid pred v (h s) rec) (\<lambda>_. Stop))"
  by (rule same_gdo [where F = "\<lambda>_ _ _. Stop"]) auto

lemma same_shift: "same_gen G \<Longrightarrow> same_gen (\<lambda>rec s. G rec (h s))"
  unfolding same_gen_def by blast

lemma same_silent: "same_gen G \<Longrightarrow> same_gen (\<lambda>rec s. G False (h s))"
  unfolding same_gen_def by blast

context conform_calls
begin

lemma same_mf: "same_gen (\<lambda>rec s. mf sp xs pos s rec)"
  unfolding same_gen_def by (metis quiet_mf quiet_mf_False)

lemma alt_branch_result: "snd (alt_branch mf bs xs pos s) = snd (alt_branch mf bs xs pos s')"
proof (induction bs)
  case (Cons b bs)
  obtain tag c where b: "b = (tag, c)" by fastforce
  show ?case
  proof (cases "snd (gfind (\<lambda>_. True) (result_mf mf c xs pos))")
    case (Inr m)
    then show ?thesis unfolding b using Cons.IH by (cases m) (simp_all add: snd_match split: prod.split)
  qed (simp add: b snd_match)
qed simp

lemma alt_branch_silent: "fst (alt_branch mf bs xs pos s) = []"
proof (induction bs)
  case (Cons b bs)
  obtain tag c where b: "b = (tag, c)" by fastforce
  show ?case
    unfolding b using Cons.IH by (simp add: fst_obind fst_match split: sum.split option.split)
qed simp

lemma alt_problems_result:
  "snd (alt_branch mf bs xs pos s) = Inr None \<Longrightarrow> snd (alt_problems mf bs xs pos s') = Inr ()"
proof (induction bs)
  case (Cons b bs)
  obtain tag c where b: "b = (tag, c)" by fastforce
  show ?case
  proof (cases "snd (gfind (\<lambda>_. True) (result_mf mf c xs pos))")
    case (Inr m)
    then show ?thesis using Cons unfolding b by (cases m) (simp_all add: snd_match split: prod.splits)
  qed (use Cons.prems in \<open>simp add: b snd_match\<close>)
qed simp

lemma same_alt: "same_gen (\<lambda>rec s. match_alt mf bs xs pos s rec)"
proof -
  have r: "snd (if rec then alt_problems mf bs xs pos s else oret ()) = Inr ()"
    if "snd (alt_branch mf bs xs pos top) = Inr None" for rec s
    using alt_problems_result [OF that] by simp
  have 6: "same_gen (\<lambda>rec s. if length xs \<le> pos
      then gdo (invalid pr SNil (into (SInt (int pos)) s) rec) (\<lambda>_. Stop) else Stop)" for pr
    by (cases "length xs \<le> pos") (simp_all add: same_invalid same_pure)
  have "same_gen (\<lambda>rec s. case m of Some r \<Rightarrow> Yield r Stop | None \<Rightarrow>
      gdo (if rec then alt_problems mf bs xs pos s else oret ()) (\<lambda>_.
        if length xs \<le> pos then gdo (invalid pr SNil (into (SInt (int pos)) s) rec) (\<lambda>_. Stop) else Stop))"
    if m: "snd (alt_branch mf bs xs pos top) = Inr m" for m pr
  proof (cases m)
    case None
    note r = r [OF m [unfolded None]]
    show ?thesis
      unfolding None option.case
    proof (rule same_gdo)
      show "snd (if rec then alt_problems mf bs xs pos s else oret ()) =
          snd (if rec' then alt_problems mf bs xs pos s' else oret ())" for s s' rec rec'
        unfolding r ..
      show "fst (if False then alt_problems mf bs xs pos s else oret ()) = []" for s by simp
    qed (rule 6)
  next
    case (Some q)
    then show ?thesis by (simp add: same_pure)
  qed
  note 7 = this
  show ?thesis
    unfolding match_alt_def
  proof (rule same_gdo)
    show "snd (alt_branch mf bs xs pos s) = snd (alt_branch mf bs xs pos s')" for s s' by (rule alt_branch_result)
    show "fst (alt_branch mf bs xs pos s) = []" for s by (rule alt_branch_silent)
  qed (rule 7)
qed

lemma repeat_agrees:
  "snd (repeat_loop mf child xs s n pos ms ps) = snd (repeat_loop mf child xs s' n pos ms ps)"
  "fst (repeat_loop mf child xs s n pos ms ps) = []"
proof -
  show "snd (repeat_loop mf child xs s n pos ms ps) = snd (repeat_loop mf child xs s' n pos ms ps)"
    by (induction n arbitrary: pos ms ps)
       (auto simp: snd_match intro!: ext arg_cong2 [where f = rbind] split: option.splits)
  show "fst (repeat_loop mf child xs s n pos ms ps) = []"
    by (induction n arbitrary: pos ms ps)
       (auto simp: fst_obind fst_match split: sum.splits option.splits)
qed

lemma repeat_ends:
  "snd (repeat_loop mf child xs s n pos ms ps) = Inr (ms', ps', p) \<Longrightarrow>
   snd (match_regex mf child xs p s rec) = Inr None"
proof (induction n arbitrary: pos ms ps)
  case (Suc n)
  from Suc.prems obtain m where m: "snd (match_regex mf child xs pos s False) = Inr m"
    by (auto simp: rbind_eq_Inr_iff)
  show ?case
  proof (cases m)
    case None
    with m Suc.prems show ?thesis by (simp add: snd_match)
  next
    case (Some r)
    with m Suc.prems show ?thesis by (cases r) (auto intro: Suc.IH split: if_splits)
  qed
qed simp

lemma same_repeat: "same_gen (\<lambda>rec s. match_repeat mf child k xs pos s rec)"
proof -
  have "same_gen (\<lambda>rec s. case r of (ms, ps, p) \<Rightarrow> if length ms < k
      then gdo (if rec then obind (match_regex mf child xs p s rec) (\<lambda>_. oret ()) else oret ()) (\<lambda>_. Stop)
      else gen_of (map (\<lambda>n. (SSeq (take n ms), ps ! n)) (rev [k..<Suc (length ms)])))"
    if r: "snd (repeat_loop mf child xs top (Suc (length xs)) pos [] [pos]) = Inr r" for r
  proof -
    obtain ms ps p where [simp]: "r = (ms, ps, p)" by (cases r)
    have "snd (repeat_loop mf child xs s (Suc (length xs)) pos [] [pos]) = Inr (ms, ps, p)" for s
      using r repeat_agrees(1) [of child xs s "Suc (length xs)" pos "[]" "[pos]" top] by simp
    then have "snd (match_regex mf child xs p s rec) = Inr None" for s rec by (rule repeat_ends)
    then have "snd (if rec then obind (match_regex mf child xs p s rec) (\<lambda>_. oret ()) else oret ()) = Inr ()" for s rec
      by simp
    then show ?thesis
      by (cases "length ms < k") (simp_all add: same_pure same_gdo [where F = "\<lambda>_ _ _. Stop"])
  qed
  then show ?thesis unfolding match_repeat_def by (rule same_gdo [OF repeat_agrees])
qed

lemma same_maybe: "same_gen (\<lambda>rec s. match_maybe mf child xs pos s)"
  unfolding match_maybe_def
  by (rule same_gdo) (auto simp: snd_match fst_match split: option.splits)

lemma same_amp: "same_gen (\<lambda>rec s. match_amp cf mf child preds xs pos s rec)"
proof -
  have "same_gen (\<lambda>rec s. case m of None \<Rightarrow> Stop | Some (c, p) \<Rightarrow>
      gdo (conform_and cf preds c (into (SInt (int pos)) s) rec) (\<lambda>c'.
        if c' = INVALID then Stop else Yield (c', p) Stop))" for m
  proof (cases m)
    case (Some r)
    then show ?thesis
      by (cases r) (auto intro!: same_gdo and_agrees split: if_splits)
  qed auto
  then show ?thesis
    unfolding match_amp_def by (intro same_gdo) (auto simp: snd_match fst_match)
qed

lemma same_element: "same_gen (\<lambda>rec s. match_element cf sp xs pos s rec)"
proof (cases "length xs \<le> pos")
  case True
  then show ?thesis unfolding match_element_def by (simp add: same_invalid)
next
  case False
  have "same_gen (\<lambda>rec s. gdo (cf sp (xs ! pos) (into (SInt (int pos)) s) rec) (\<lambda>c.
        if c = INVALID then Stop else Yield (c, Suc pos) Stop))"
    by (rule same_gdo) (auto simp: snd_cf fst_cf)
  with False show ?thesis unfolding match_element_def by simp
qed

lemma same_cat: "same_gen (\<lambda>rec s. match_cat E mf bs xs pos s rec result)"
proof (induction bs arbitrary: pos result)
  case (Cons b bs)
  obtain tag c where b: "b = (tag, c)" by fastforce
  show ?case
    unfolding b match_cat.simps
    by (rule same_gbind, rule same_shift [OF same_mf]) (use Cons.IH in auto)
qed auto

lemma same_keys_star: "same_gen (\<lambda>rec s. match_keys_star E cf req opt xs pos s rec)"
proof -
  have e: "same_gen (\<lambda>rec s. star_end E cf req opt xs pos s rec e)" for e
  proof (cases "star_pairs (take (e - pos) (drop pos xs)) pos []")
    case (Inl b)
    then show ?thesis by (cases b) (simp add: star_end_def same_invalid)
  next
    case (Inr mapped)
    have "same_gen (\<lambda>rec s. gdo (conform_keys cf req opt (new_smap E mapped) s rec) (\<lambda>c.
        if c = INVALID then Stop else Yield (c, e) Stop))"
      by (rule same_gdo, rule keys_agrees, rule keys_agrees(2)) (auto simp: same_pure)
    with Inr show ?thesis by (simp add: star_end_def)
  qed
  have "same_gen (\<lambda>rec s. foldr (\<lambda>i. gappend (star_end E cf req opt xs pos s rec (pos + 2 * i))) is Stop)" for "is"
    by (induction "is") (auto intro!: same_gappend e)
  then show ?thesis unfolding match_keys_star_def by blast
qed

lemma match_step_agrees: "agree_mf (match_step E cf mf)"
proof -
  have "same_gen (\<lambda>rec s. match_step E cf mf sp xs pos s rec)" for sp xs pos
    by (cases sp) (simp_all add: same_alt same_repeat same_maybe same_amp same_element same_cat same_keys_star)
  then show ?thesis unfolding agree_mf_def same_gen_def by blast
qed

end

text \<open>Every depth of calls agrees, so the locale holds of the functions of the module.\<close>

lemma calls_agree: "agree_cf (conform_at E n) \<and> agree_mf (match_all E n)"
proof (induction n)
  case 0
  then show ?case by (simp add: agree_cf_def agree_mf_def)
next
  case (Suc n)
  then have "conform_calls (conform_at E n) (match_all E n)" by (simp add: conform_calls_def)
  then show ?case
    by (simp add: conform_calls.conform_step_agrees conform_calls.match_step_agrees)
qed

interpretation spec_calls: conform_calls "conform_at E n" "match_all E n" for E n
  by unfold_locales (simp_all add: calls_agree)

text \<open>
  C19: explaining agrees with validating. \<open>explain-data\<close> answers nil exactly when the value is valid,
  raises exactly when \<open>valid?\<close> raises, and otherwise returns the problems with the spec and the
  value; that it records problems, and tries branches again to collect them, changes no answer.
\<close>

theorem explain_agrees:
  "explain_data E n spec v = rbind (valid E n spec v) (\<lambda>ok. Inr (if ok then None else
     Some (fst (conform_at E n spec v top True), spec, v)))"
proof -
  have "snd (conform_at E n spec v top True) = snd (conform_at E n spec v top False)"
    by (simp add: spec_calls.snd_cf)
  then show ?thesis
    by (cases "conform_at E n spec v top True"; cases "snd (conform_at E n spec v top False)")
       (auto simp: explain_data_def valid_def)
qed

end
