(* ===== verification/SpecSound.thy ===== *)
theory SpecSound
  imports SpecLaws
begin

text \<open>
  What specs mean, without the order in which the code tries things: the relation \<open>conforms\<close> between
  a value and what it conforms to, and \<open>parses\<close> between the items a regular expression consumes and
  its result. The functions of Spec.thy are proved sound for it, and unforming inverts it.
\<close>

section \<open>The relation\<close>

inductive conforms :: "'h spec_env \<Rightarrow> 'h sval spec \<Rightarrow> 'h sval \<Rightarrow> 'h sval \<Rightarrow> bool"
  and conforms_chain :: "'h spec_env \<Rightarrow> 'h sval spec list \<Rightarrow> 'h sval \<Rightarrow> 'h sval \<Rightarrow> bool"
  and parses :: "'h spec_env \<Rightarrow> 'h sval spec \<Rightarrow> 'h sval list \<Rightarrow> 'h sval \<Rightarrow> bool"
  and parses_cat ::
    "'h spec_env \<Rightarrow> (skey \<times> 'h sval spec) list \<Rightarrow> 'h sval list \<Rightarrow> ('h sval \<times> 'h sval) list \<Rightarrow>
     ('h sval \<times> 'h sval) list \<Rightarrow> bool"
  for E :: "'h spec_env"
where
  Fn: "is_callable E v \<Longrightarrow> conforms E (FSpec a r f) v v"
| Gen: "conforms E sp v c \<Longrightarrow> conforms E (WithGen sp g) v c"
| Pred: "conforms E sp v c \<Longrightarrow> conforms E (PredicateSpec sp) v c"
| Conf: "f v = Inr c \<Longrightarrow> conforms E (Conformer f u) v c"
| Non: "conforms E sp v c \<Longrightarrow> conforms E (Nonconforming sp) v v"
| Merge: "length cs = length specs \<Longrightarrow> (\<forall>i<length cs. conforms E (specs ! i) v (cs ! i)) \<Longrightarrow>
    merge_maps E [] cs = Inr m \<Longrightarrow>
    conforms E (MergeSpec specs) v m"
| Named: "spec_registry E k = Some sp \<Longrightarrow> conforms E sp v c \<Longrightarrow> conforms E (NamedSpec k) v c"
| And: "conforms_chain E specs v c \<Longrightarrow> conforms E (AndSpec specs) v c"
| Or: "(tag, sp) \<in> set bs \<Longrightarrow> conforms E sp v c \<Longrightarrow> conforms E (OrSpec bs) v (SSeq [SKey tag, c])"
| Nil: "conforms E (NilableSpec sp) SNil SNil"
| NotNil: "v \<noteq> SNil \<Longrightarrow> conforms E sp v c \<Longrightarrow> conforms E (NilableSpec sp) v c"
| Coll: "(\<forall>k\<in>set_option kind. k (SSeq xs) = Inr True) \<Longrightarrow> \<not> bad_size (length xs) cnt mn mx \<Longrightarrow>
    (dist \<Longrightarrow> set_len E xs = Inr (length xs)) \<Longrightarrow> (\<forall>x\<in>set xs. \<exists>c. conforms E sp x c) \<Longrightarrow>
    conforms E (CollOf sp kind cnt mn mx dist) (SSeq xs) (SSeq xs)"
| Map: "(\<forall>k x. (k, x) \<in> set kvs \<longrightarrow> (\<exists>c. conforms E ks k c) \<and> (\<exists>c. conforms E vs x c)) \<Longrightarrow>
    conforms E (MapOf ks vs) (SMap kvs) (SMap kvs)"
| Keys: "(\<forall>p\<in>set req. map_of kvs (SKey (fst p)) \<noteq> None) \<Longrightarrow>
    (\<forall>data_key spec_key x. (data_key, spec_key) \<in> set (req @ opt) \<longrightarrow> map_of kvs (SKey data_key) = Some x \<longrightarrow>
       (\<exists>c. conforms E (NamedSpec spec_key) x c)) \<Longrightarrow>
    conforms E (KeysSpec req opt) (SMap kvs) (SMap kvs)"
| Tuple: "length xs = length specs \<Longrightarrow> (\<forall>i<length xs. \<exists>c. conforms E (specs ! i) (xs ! i) c) \<Longrightarrow>
    conforms E (TupleSpec specs) (SSeq xs) (SSeq xs)"
| Multi: "multispec_spec dispatch gm v = Inr (selected, d) \<Longrightarrow> conforms E selected v c \<Longrightarrow>
    conforms E (MultiSpec dispatch gm) v c"
| Inst: "f v \<Longrightarrow> conforms E (Instance f) v v"
| PredF: "f v = Inr True \<Longrightarrow> conforms E (PredFn f) v v"
| Memb: "f v = Inr True \<Longrightarrow> conforms E (Members f) v v"
| Regex: "is_regex sp \<Longrightarrow> regex_items v = Some xs \<Longrightarrow> parses E sp xs c \<Longrightarrow> conforms E sp v c"
| ChainNil: "conforms_chain E [] v v"
| ChainCons: "conforms E sp v c \<Longrightarrow> conforms_chain E specs c d \<Longrightarrow> conforms_chain E (sp # specs) v d"
| Cat: "parses_cat E bs xs [] m \<Longrightarrow> parses E (Cat bs) xs (new_smap E m)"
| Alt: "(tag, sp) \<in> set bs \<Longrightarrow> parses E sp xs c \<Longrightarrow> parses E (Alt bs) xs (SSeq [SKey tag, c])"
| Rep: "length xss = length cs \<Longrightarrow> (\<forall>i<length cs. parses E sp (xss ! i) (cs ! i)) \<Longrightarrow> minimum \<le> length cs \<Longrightarrow>
    parses E (Repeat sp minimum) (concat xss) (SSeq cs)"
| MaybeNone: "parses E (Maybe sp) [] SNil"
| MaybeSome: "parses E sp xs c \<Longrightarrow> parses E (Maybe sp) xs c"
| Amp: "parses E sp xs c \<Longrightarrow> conforms_chain E preds c d \<Longrightarrow> parses E (Amp sp preds) xs d"
| Star: "star_pairs xs i [] = Inr m \<Longrightarrow> even (length xs) \<Longrightarrow> conforms E (KeysSpec req opt) (new_smap E m) c \<Longrightarrow>
    parses E (KeysStar req opt) xs c"
| Elem: "\<not> is_regex sp \<Longrightarrow> conforms E sp x c \<Longrightarrow> parses E sp [x] c"
| CatNil: "parses_cat E [] [] acc acc"
| CatCons: "parses E sp xs c \<Longrightarrow> parses_cat E bs ys (AList.update (SKey tag) c acc) m \<Longrightarrow>
    parses_cat E ((tag, sp) # bs) (xs @ ys) acc m"

section \<open>Soundness\<close>

fun gyields :: "('p, 'a) gen \<Rightarrow> 'a set" where
  "gyields Stop = {}"
| "gyields (Fail e) = {}"
| "gyields (Emit p g) = gyields g"
| "gyields (Yield x g) = insert x (gyields g)"

lemma gyields_quiet [simp]: "gyields (quiet g) = gyields g"
  by (induction g) simp_all

lemma gyields_gappend: "x \<in> gyields (gappend g h) \<Longrightarrow> x \<in> gyields g \<or> x \<in> gyields h"
  by (induction g) auto

lemma gyields_gbind: "y \<in> gyields (gbind g f) \<Longrightarrow> \<exists>x\<in>gyields g. y \<in> gyields (f x)"
  by (induction g) (auto dest: gyields_gappend)

lemma gyields_foldr_Emit [simp]: "gyields (foldr Emit ps g) = gyields g"
  by (induction ps) simp_all

lemma gyields_gdo [simp]: "y \<in> gyields (gdo m f) \<longleftrightarrow> (\<exists>x. snd m = Inr x \<and> y \<in> gyields (f x))"
  by (auto simp: gdo_def split: sum.splits)

lemma gyields_gen_of [simp]: "gyields (gen_of xs) = set xs"
  by (induction xs) simp_all

lemma gfind_yields: "snd (gfind P g) = Inr (Some x) \<Longrightarrow> x \<in> gyields g \<and> P x"
  by (induction g) (auto split: if_splits)

definition segment :: "nat \<Rightarrow> nat \<Rightarrow> 'a list \<Rightarrow> 'a list" where
  "segment i j xs = take (j - i) (drop i xs)"

lemma segment_empty [simp]: "segment i i xs = []"
  by (simp add: segment_def)

lemma segment_all [simp]: "segment 0 (length xs) xs = xs"
  by (simp add: segment_def)

lemma segment_one: "i < length xs \<Longrightarrow> segment i (Suc i) xs = [xs ! i]"
  by (simp add: segment_def take_Suc_conv_app_nth)

lemma segment_append:
  assumes "i \<le> j" "j \<le> k"
  shows "segment i j xs @ segment j k xs = segment i k xs"
proof -
  have "k - i = (j - i) + (k - j)" "drop (j - i) (drop i xs) = drop j xs" using assms by simp_all
  then show ?thesis by (simp only: segment_def take_add)
qed

lemma all_conform_sound:
  "snd (all_conform rs v) = Inr c \<Longrightarrow> c \<noteq> INVALID \<Longrightarrow>
   c = v \<and> (\<forall>r\<in>set rs. \<exists>c. snd r = Inr c \<and> c \<noteq> INVALID)"
  by (induction rs) (auto simp: rbind_eq_Inr_iff split: if_splits)

text \<open>Calls are justified when what they return is in the relation, and what they yield parses.\<close>

locale justified = conform_calls cf mf
  for cf :: "'h sval conform_fn" and mf :: "'h sval match_fn" +
  fixes E :: "'h spec_env"
  assumes cf_just: "result_cf cf sp v = Inr c \<Longrightarrow> c \<noteq> INVALID \<Longrightarrow> conforms E sp v c"
    and mf_just: "(c, q) \<in> gyields (result_mf mf sp xs pos) \<Longrightarrow> pos \<le> length xs \<Longrightarrow>
      pos \<le> q \<and> q \<le> length xs \<and> parses E sp (segment pos q xs) c"
begin

lemma and_just:
  "snd (conform_and cf cs v s rec) = Inr c \<Longrightarrow> c \<noteq> INVALID \<Longrightarrow> conforms_chain E cs v c"
proof (induction cs arbitrary: v)
  case Nil
  then show ?case by (simp add: ChainNil)
next
  case (Cons sp cs)
  then obtain c' where c': "result_cf cf sp v = Inr c'" by (auto simp: snd_cf rbind_eq_Inr_iff)
  with Cons.prems have "c' \<noteq> INVALID" "snd (conform_and cf cs c' s rec) = Inr c"
    by (auto simp: snd_cf split: if_splits)
  then show ?case by (rule ChainCons [OF cf_just [OF c'] Cons.IH [OF _ Cons.prems(2)]])
qed

lemma or_just:
  "snd (conform_or cf bs v s rec acc) = Inr c \<Longrightarrow> c \<noteq> INVALID \<Longrightarrow>
   \<exists>tag sp c'. (tag, sp) \<in> set bs \<and> conforms E sp v c' \<and> c = SSeq [SKey tag, c']"
proof (induction bs arbitrary: acc)
  case (Cons b bs)
  obtain tag sp where b: "b = (tag, sp)" by fastforce
  obtain c' where c': "result_cf cf sp v = Inr c'"
    using Cons.prems by (auto simp: b snd_cf rbind_eq_Inr_iff)
  show ?case
  proof (cases "c' = INVALID")
    case True
    have "snd (conform_or cf bs v s rec (if rec then acc @ fst (cf sp v (down (SKey tag) s) True) else acc)) = Inr c"
      using Cons.prems(1) True c' by (auto simp: b snd_cf case_outcome split: if_splits)
    from Cons.IH [OF this Cons.prems(2)] show ?thesis by (auto simp: b)
  next
    case False
    with Cons.prems c' have "conforms E sp v c'" "c = SSeq [SKey tag, c']" by (auto simp: b snd_cf cf_just)
    then show ?thesis unfolding b by (intro exI [of _ tag] exI [of _ sp] exI [of _ c']) simp
  qed
qed simp

lemma merge_just:
  assumes "snd (conform_merge E cf sp cs v s rec acc) = Inr c" "c \<noteq> INVALID"
  shows "\<exists>rs. length rs = length cs \<and> (\<forall>i<length rs. conforms E (cs ! i) v (rs ! i)) \<and>
    merge_maps E [] (acc @ rs) = Inr c"
  using assms
proof (induction cs arbitrary: acc)
  case (Cons child cs)
  obtain r where r: "result_cf cf child v = Inr r" using Cons.prems by (auto simp: snd_cf rbind_eq_Inr_iff)
  with Cons.prems have "r \<noteq> INVALID" "snd (conform_merge E cf sp cs v s rec (acc @ [r])) = Inr c"
    by (auto simp: snd_cf split: if_splits)
  moreover obtain rs where rs: "length rs = length cs" "\<forall>i<length rs. conforms E (cs ! i) v (rs ! i)"
    "merge_maps E [] ((acc @ [r]) @ rs) = Inr c" using Cons.IH Cons.prems(2) calculation(2) by blast
  ultimately have "conforms E child v r" using r cf_just by blast
  then have "\<forall>i<length (r # rs). conforms E ((child # cs) ! i) v ((r # rs) ! i)"
    using rs(2) by (auto simp: less_Suc_eq_0_disj)
  with rs show ?case by (intro exI [of _ "r # rs"]) simp
qed simp

lemma coll_just:
  assumes "snd (conform_coll_of E cf sp kind cnt mn mx dist v s rec) = Inr c" "c \<noteq> INVALID"
  shows "conforms E (CollOf sp kind cnt mn mx dist) v c"
proof -
  obtain xs where v: "v = SSeq xs" using assms by (cases v) (auto simp: conform_coll_of_def)
  have "\<not> bad_size (length xs) cnt mn mx" "\<forall>k\<in>set_option kind. k (SSeq xs) = Inr True"
    "dist \<Longrightarrow> set_len E xs = Inr (length xs)"
    and all: "snd (all_conform (map (\<lambda>(i, x). cf sp x (into (SInt (int i)) s) rec) (enumerate 0 xs)) v) = Inr c"
    using assms by (auto simp: conform_coll_of_def Let_def v rbind_eq_Inr_iff split: if_splits option.splits)
  moreover have "\<exists>c. conforms E sp x c" if x: "x \<in> set xs" for x
  proof -
    obtain i where "i < length xs" "xs ! i = x" using x by (auto simp: in_set_conv_nth)
    then have "(i, x) \<in> set (enumerate 0 xs)" by (auto simp: in_set_enumerate_eq)
    then have "\<exists>c. snd (cf sp x (into (SInt (int i)) s) rec) = Inr c \<and> c \<noteq> INVALID"
      using all_conform_sound [OF all assms(2)] by force
    then show ?thesis using cf_just by (auto simp: snd_cf)
  qed
  moreover have "c = v" using all_conform_sound [OF all assms(2)] by simp
  ultimately show ?thesis unfolding v by (simp add: Coll)
qed

lemma map_of_just:
  assumes "snd (conform_map_of cf ks vs v s rec) = Inr c" "c \<noteq> INVALID"
  shows "conforms E (MapOf ks vs) v c"
proof -
  obtain kvs where v: "v = SMap kvs" using assms by (cases v) (auto simp: conform_map_of_def)
  have all: "snd (all_conform (concat (map (\<lambda>(k, x). [cf ks k (into k s) rec, cf vs x (into k s) rec]) kvs)) v) = Inr c"
    using assms by (simp add: conform_map_of_def v)
  have "(\<exists>c. conforms E ks k c) \<and> (\<exists>c. conforms E vs x c)" if "(k, x) \<in> set kvs" for k x
  proof -
    let ?rs = "concat (map (\<lambda>(k, x). [cf ks k (into k s) rec, cf vs x (into k s) rec]) kvs)"
    have "cf ks k (into k s) rec \<in> set ?rs" "cf vs x (into k s) rec \<in> set ?rs"
      using that by (auto intro!: bexI [of _ "(k, x)"])
    then have "\<exists>c. snd (cf ks k (into k s) rec) = Inr c \<and> c \<noteq> INVALID"
      "\<exists>c. snd (cf vs x (into k s) rec) = Inr c \<and> c \<noteq> INVALID"
      using all_conform_sound [OF all assms(2)] by blast+
    then show ?thesis using cf_just by (auto simp: snd_cf)
  qed
  then show ?thesis using all_conform_sound [OF all assms(2)] by (simp add: v Map)
qed

lemma keys_just:
  assumes "snd (conform_keys cf req opt v s rec) = Inr c" "c \<noteq> INVALID"
  shows "conforms E (KeysSpec req opt) v c"
proof -
  obtain kvs where v: "v = SMap kvs" using assms by (cases v) (auto simp: conform_keys_def)
  have none: "find (\<lambda>(d, _). map_of kvs (SKey d) = None) req = None"
    using assms by (auto simp: conform_keys_def v split: option.splits)
  then have req: "\<forall>p\<in>set req. map_of kvs (SKey (fst p)) \<noteq> None"
    unfolding find_None_iff by fastforce
  have all: "snd (all_conform
                 (map (\<lambda>(data_key, spec_key).
                    cf (NamedSpec spec_key) (the (map_of kvs (SKey data_key)))
                      (into (SKey data_key) (down (SKey data_key) s)) rec)
                   (filter (\<lambda>(data_key, _). map_of kvs (SKey data_key) \<noteq> None) (req @ opt))) v) = Inr c"
    using assms none by (simp add: conform_keys_def v)
  have "\<exists>c. conforms E (NamedSpec sk) x c" if "(d, sk) \<in> set (req @ opt)" "map_of kvs (SKey d) = Some x" for d sk x
  proof -
    let ?f = "\<lambda>(data_key, spec_key). cf (NamedSpec spec_key) (the (map_of kvs (SKey data_key)))
        (into (SKey data_key) (down (SKey data_key) s)) rec"
    let ?ps = "filter (\<lambda>(data_key, _). map_of kvs (SKey data_key) \<noteq> None) (req @ opt)"
    have "(d, sk) \<in> set ?ps" using that by auto
    then have "?f (d, sk) \<in> set (map ?f ?ps)" unfolding set_map by (rule imageI)
    then have "\<exists>c. snd (?f (d, sk)) = Inr c \<and> c \<noteq> INVALID" using all_conform_sound [OF all assms(2)] by blast
    then show ?thesis using cf_just that by (auto simp: snd_cf)
  qed
  then show ?thesis using all_conform_sound [OF all assms(2)] req by (simp add: v Keys)
qed

lemma tuple_just:
  assumes "snd (conform_tuple cf specs v s rec) = Inr c" "c \<noteq> INVALID"
  shows "conforms E (TupleSpec specs) v c"
proof -
  obtain xs where v: "v = SSeq xs" using assms by (cases v) (auto simp: conform_tuple_def)
  have len: "length xs = length specs" using assms by (auto simp: conform_tuple_def v split: if_splits)
  have all: "snd (all_conform (map (\<lambda>(i, child, x). cf child x (into (SInt (int i)) (down (SInt (int i)) s)) rec)
      (enumerate 0 (zip specs xs))) v) = Inr c"
    using assms len by (simp add: conform_tuple_def v)
  have "\<exists>c. conforms E (specs ! i) (xs ! i) c" if i: "i < length xs" for i
  proof -
    have "(i, specs ! i, xs ! i) \<in> set (enumerate 0 (zip specs xs))"
      using i len by (auto simp: in_set_enumerate_eq)
    then have "\<exists>c. snd (cf (specs ! i) (xs ! i) (into (SInt (int i)) (down (SInt (int i)) s)) rec) = Inr c \<and> c \<noteq> INVALID"
      using all_conform_sound [OF all assms(2)] by force
    then show ?thesis using cf_just by (auto simp: snd_cf)
  qed
  then show ?thesis using all_conform_sound [OF all assms(2)] len by (simp add: v Tuple)
qed

lemma regex_just:
  assumes "snd (conform_regex mf sp v s rec) = Inr c" "c \<noteq> INVALID" "is_regex sp"
  shows "conforms E sp v c"
proof -
  obtain xs where xs: "regex_items v = Some xs" using assms by (auto simp: conform_regex_def split: option.splits)
  with assms obtain q where q: "snd (gfind (\<lambda>m. snd m = length xs) (mf sp xs 0 s rec)) = Inr (Some (c, q))"
    by (auto simp: conform_regex_def rbind_eq_Inr_iff split: option.splits)
  then have "(c, q) \<in> gyields (mf sp xs 0 s rec)" "q = length xs" using gfind_yields by force+
  then have "(c, length xs) \<in> gyields (result_mf mf sp xs 0)" using quiet_mf gyields_quiet by metis
  then show ?thesis using mf_just [of c "length xs" sp xs 0] Regex [OF assms(3) xs] by simp
qed

lemma conform_step_just:
  assumes "snd (conform_step E cf mf sp v s rec) = Inr c" "c \<noteq> INVALID"
  shows "conforms E sp v c"
proof (cases sp)
  case (Conformer f u)
  with assms show ?thesis by (auto intro: Conf split: sum.splits if_splits)
next
  case (NamedSpec k)
  with assms show ?thesis by (auto simp: snd_cf intro: Named cf_just split: option.splits)
next
  case (MergeSpec specs)
  with assms obtain rs where "length rs = length specs" "\<forall>i<length rs. conforms E (specs ! i) v (rs ! i)"
    "merge_maps E [] rs = Inr c" using merge_just [of sp specs v s rec "[]" c] by auto
  then show ?thesis unfolding MergeSpec by (rule Merge)
next
  case (OrSpec bs)
  with assms obtain tag sp' c' where "(tag, sp') \<in> set bs" "conforms E sp' v c'" "c = SSeq [SKey tag, c']"
    using or_just [of bs v s rec "[]" c] by auto
  then show ?thesis unfolding OrSpec by (simp add: Or)
next
  case (MultiSpec dispatch gm)
  with assms obtain sel d where "multispec_spec dispatch gm v = Inr (sel, d)" "result_cf cf sel v = Inr c"
    by (auto simp: conform_multi_def snd_cf split: sum.splits option.splits)
  then show ?thesis unfolding MultiSpec using assms(2) by (intro Multi cf_just)
next
  case (CollOf sp' kind cnt mn mx dist)
  with assms coll_just [of sp' kind cnt mn mx dist v s rec c] show ?thesis by simp
next
  case (Members f)
  with assms show ?thesis by (auto simp: rbind_eq_Inr_iff valid_or_def intro: Memb split: if_splits)
qed (use assms and_just [of _ v s rec c] map_of_just [of _ _ v s rec c] keys_just [of _ _ v s rec c]
       tuple_just [of _ v s rec c] regex_just [of sp v s rec c]
     in \<open>auto simp: snd_cf rbind_eq_Inr_iff valid_or_def split: if_splits
          intro: Fn Gen Pred Non And Nil NotNil Inst PredF cf_just\<close>)


lemma mf_yields:
  "(c, q) \<in> gyields (mf sp xs pos s rec) \<Longrightarrow> pos \<le> length xs \<Longrightarrow>
   pos \<le> q \<and> q \<le> length xs \<and> parses E sp (segment pos q xs) c"
  using mf_just quiet_mf gyields_quiet by metis

lemma match_yields:
  assumes "snd (match_regex mf sp xs pos s rec) = Inr (Some (c, q))" "pos \<le> length xs"
  shows "pos \<le> q \<and> q \<le> length xs \<and> parses E sp (segment pos q xs) c"
  using gfind_yields [OF assms(1) [unfolded match_regex_def]] mf_yields [OF _ assms(2)] by blast

lemma cat_just:
  "(c, q) \<in> gyields (match_cat E mf bs xs pos s rec acc) \<Longrightarrow> pos \<le> length xs \<Longrightarrow>
   pos \<le> q \<and> q \<le> length xs \<and> (\<exists>m. c = new_smap E m \<and> parses_cat E bs (segment pos q xs) acc m)"
proof (induction bs arbitrary: pos acc)
  case Nil
  then show ?case by (auto intro: CatNil)
next
  case (Cons b bs)
  obtain tag sp where b: "b = (tag, sp)" by fastforce
  obtain r p where rp: "(r, p) \<in> gyields (mf sp xs pos (down (SKey tag) s) rec)"
    "(c, q) \<in> gyields (match_cat E mf bs xs p s rec (AList.update (SKey tag) r acc))"
    using gyields_gbind [OF Cons.prems(1) [unfolded b match_cat.simps]] by auto
  have 1: "pos \<le> p" "p \<le> length xs" "parses E sp (segment pos p xs) r" using mf_yields [OF rp(1) Cons.prems(2)] by auto
  obtain m where 2: "p \<le> q" "q \<le> length xs" "c = new_smap E m"
    "parses_cat E bs (segment p q xs) (AList.update (SKey tag) r acc) m"
    using Cons.IH [OF rp(2) 1(2)] by blast
  have "parses_cat E ((tag, sp) # bs) (segment pos p xs @ segment p q xs) acc m" by (rule CatCons [OF 1(3) 2(4)])
  then show ?case using 1 2 by (auto simp: b segment_append)
qed

lemma alt_just:
  assumes "(c, q) \<in> gyields (match_alt mf bs xs pos s rec)" "pos \<le> length xs"
  shows "pos \<le> q \<and> q \<le> length xs \<and> parses E (Alt bs) (segment pos q xs) c"
proof -
  have "\<exists>tag sp r. (tag, sp) \<in> set bs \<and> c = SSeq [SKey tag, r] \<and> pos \<le> q \<and> q \<le> length xs \<and>
      parses E sp (segment pos q xs) r" if "snd (alt_branch mf bs xs pos s) = Inr (Some (c, q))" for bs
    using that
  proof (induction bs)
    case (Cons b bs)
    obtain tag sp where b: "b = (tag, sp)" by fastforce
    obtain m where m: "snd (match_regex mf sp xs pos (down (SKey tag) s) False) = Inr m"
      using Cons.prems by (auto simp: b rbind_eq_Inr_iff)
    show ?case
    proof (cases m)
      case None
      with m Cons.prems have "snd (alt_branch mf bs xs pos s) = Inr (Some (c, q))" by (simp add: b)
      from Cons.IH [OF this] obtain tag' sp' r where "(tag', sp') \<in> set bs" "c = SSeq [SKey tag', r]"
        "pos \<le> q \<and> q \<le> length xs \<and> parses E sp' (segment pos q xs) r" by (elim exE conjE) (rule that, auto)
      then show ?thesis unfolding b by (intro exI [of _ tag'] exI [of _ sp'] exI [of _ r]) simp
    next
      case (Some r)
      obtain d p where r: "r = (d, p)" by (cases r)
      with m Some Cons.prems have c: "c = SSeq [SKey tag, d]" "p = q" by (simp_all add: b)
      have "pos \<le> p \<and> p \<le> length xs \<and> parses E sp (segment pos p xs) d"
        by (rule match_yields [OF m [unfolded Some r] assms(2)])
      then show ?thesis unfolding b using c by (intro exI [of _ tag] exI [of _ sp] exI [of _ d]) simp
    qed
  qed simp
  note found = this
  have "snd (alt_branch mf bs xs pos s) = Inr (Some (c, q))"
    using assms(1) by (auto simp: match_alt_def split: option.splits if_splits)
  from found [OF this] show ?thesis by (elim exE conjE) (simp add: Alt)
qed

text \<open>The positions of a repeat: each value was parsed between two of them.\<close>

definition rep_inv :: "'h sval spec \<Rightarrow> 'h sval list \<Rightarrow> nat \<Rightarrow> nat \<Rightarrow> 'h sval list \<Rightarrow> nat list \<Rightarrow> bool" where
  "rep_inv sp xs start pos ms ps \<longleftrightarrow>
     length ps = Suc (length ms) \<and> ps ! 0 = start \<and> ps ! length ms = pos \<and> pos \<le> length xs \<and>
     (\<forall>i<length ms. ps ! i \<le> ps ! Suc i \<and> ps ! Suc i \<le> length xs \<and>
        parses E sp (segment (ps ! i) (ps ! Suc i) xs) (ms ! i))"

lemma repeat_inv:
  assumes "snd (repeat_loop mf sp xs s n pos ms ps) = Inr (ms', ps', p)" "rep_inv sp xs start pos ms ps"
  shows "rep_inv sp xs start p ms' ps'"
  using assms
proof (induction n arbitrary: pos ms ps)
  case (Suc n)
  obtain m where m: "snd (match_regex mf sp xs pos s False) = Inr m"
    using Suc.prems(1) by (auto simp: rbind_eq_Inr_iff)
  show ?case
  proof (cases m)
    case None
    with m Suc.prems show ?thesis by simp
  next
    case (Some r)
    obtain c q where r: "r = (c, q)" by (cases r)
    have next_loop: "snd (repeat_loop mf sp xs s n q (ms @ [c]) (ps @ [q])) = Inr (ms', ps', p)"
      using m Some r Suc.prems(1) by (auto split: if_splits)
    have "pos \<le> q \<and> q \<le> length xs \<and> parses E sp (segment pos q xs) c"
      by (rule match_yields [OF m [unfolded Some r]]) (use Suc.prems(2) in \<open>simp add: rep_inv_def\<close>)
    then have "rep_inv sp xs start q (ms @ [c]) (ps @ [q])"
      using Suc.prems(2) by (auto simp: rep_inv_def nth_append less_Suc_eq)
    from Suc.IH [OF next_loop this] show ?thesis .
  qed
qed simp

lemma rep_inv_prefix:
  assumes "rep_inv sp xs start p ms ps" "n \<le> length ms"
  shows "start \<le> ps ! n \<and> ps ! n \<le> length xs \<and>
    segment start (ps ! n) xs = concat (map (\<lambda>i. segment (ps ! i) (ps ! Suc i) xs) [0..<n])"
  using assms(2)
proof (induction n)
  case 0
  have "ps ! 0 \<le> length xs"
  proof (cases ms)
    case Nil
    then show ?thesis using assms(1) by (auto simp: rep_inv_def)
  next
    case (Cons m ms')
    then have "ps ! 0 \<le> ps ! Suc 0" "ps ! Suc 0 \<le> length xs" using assms(1) by (auto simp: rep_inv_def)
    then show ?thesis by simp
  qed
  then show ?case using assms(1) by (simp add: rep_inv_def)
next
  case (Suc n)
  then have "ps ! n \<le> ps ! Suc n" "ps ! Suc n \<le> length xs" using assms(1) by (auto simp: rep_inv_def)
  from Suc have ih: "start \<le> ps ! n"
    "segment start (ps ! n) xs = concat (map (\<lambda>i. segment (ps ! i) (ps ! Suc i) xs) [0..<n])" by auto
  have e: "segment start (ps ! n) xs @ segment (ps ! n) (ps ! Suc n) xs = segment start (ps ! Suc n) xs"
    by (rule segment_append) fact+
  show ?case
    using ih \<open>ps ! n \<le> ps ! Suc n\<close> \<open>ps ! Suc n \<le> length xs\<close> by (simp add: e [symmetric])
qed

lemma rep_just:
  assumes "(c, q) \<in> gyields (match_repeat mf sp minimum xs pos s rec)" "pos \<le> length xs"
  shows "pos \<le> q \<and> q \<le> length xs \<and> parses E (Repeat sp minimum) (segment pos q xs) c"
proof -
  obtain ms ps p where loop: "snd (repeat_loop mf sp xs s (Suc (length xs)) pos [] [pos]) = Inr (ms, ps, p)"
    and y: "(c, q) \<in> set (map (\<lambda>n. (SSeq (take n ms), ps ! n)) (rev [minimum..<Suc (length ms)]))"
    using assms(1) unfolding match_repeat_def gyields_gdo by (auto split: if_splits)
  have inv: "rep_inv sp xs pos p ms ps"
    by (rule repeat_inv [OF loop]) (use assms(2) in \<open>simp add: rep_inv_def\<close>)
  from y obtain n where n: "minimum \<le> n" "n \<le> length ms" "c = SSeq (take n ms)" "q = ps ! n" by auto
  let ?xss = "map (\<lambda>i. segment (ps ! i) (ps ! Suc i) xs) [0..<n]"
  have "parses E (Repeat sp minimum) (concat ?xss) (SSeq (take n ms))"
    by (rule Rep) (use n inv in \<open>auto simp: rep_inv_def\<close>)
  then show ?thesis using rep_inv_prefix [OF inv n(2)] n by simp
qed

lemma maybe_just:
  assumes "(c, q) \<in> gyields (match_maybe mf sp xs pos s)" "pos \<le> length xs"
  shows "pos \<le> q \<and> q \<le> length xs \<and> parses E (Maybe sp) (segment pos q xs) c"
proof -
  obtain m where m: "snd (match_regex mf sp xs pos s False) = Inr m"
    "m = None \<longrightarrow> c = SNil \<and> q = pos" "\<forall>r. m = Some r \<longrightarrow> r = (c, q)"
    using assms(1) unfolding match_maybe_def gyields_gdo by (elim exE conjE) (rule that, auto)
  show ?thesis
  proof (cases m)
    case None
    with m assms(2) show ?thesis by (simp add: MaybeNone)
  next
    case (Some r)
    then have "m = Some (c, q)" using m(3) by simp
    from match_yields [OF m(1) [unfolded this] assms(2)] show ?thesis by (simp add: MaybeSome)
  qed
qed

lemma amp_just:
  assumes "(c, q) \<in> gyields (match_amp cf mf sp preds xs pos s rec)" "pos \<le> length xs"
  shows "pos \<le> q \<and> q \<le> length xs \<and> parses E (Amp sp preds) (segment pos q xs) c"
proof -
  obtain d where d: "snd (match_regex mf sp xs pos s rec) = Inr (Some (d, q))"
    "snd (conform_and cf preds d (into (SInt (int pos)) s) rec) = Inr c" "c \<noteq> INVALID"
    using assms(1) unfolding match_amp_def gyields_gdo by (auto split: option.splits if_splits)
  from match_yields [OF d(1) assms(2)] and_just [OF d(2,3)] show ?thesis by (auto intro: Amp)
qed

lemma element_just:
  assumes "(c, q) \<in> gyields (match_element cf sp xs pos s rec)" "\<not> is_regex sp"
  shows "pos \<le> q \<and> q \<le> length xs \<and> parses E sp (segment pos q xs) c"
proof -
  have pos: "pos < length xs" and c: "result_cf cf sp (xs ! pos) = Inr c" "c \<noteq> INVALID" "q = Suc pos"
    using assms(1) unfolding match_element_def by (auto simp: snd_cf split: if_splits)
  have "parses E sp [xs ! pos] c" by (rule Elem [OF assms(2) cf_just [OF c(1,2)]])
  then show ?thesis using pos c(3) by (simp add: segment_one)
qed

lemma star_just:
  assumes "(c, q) \<in> gyields (match_keys_star E cf req opt xs pos s rec)" "pos \<le> length xs"
  shows "pos \<le> q \<and> q \<le> length xs \<and> parses E (KeysStar req opt) (segment pos q xs) c"
proof -
  have "\<exists>i\<in>set is. (c, q) \<in> gyields (star_end E cf req opt xs pos s rec (pos + 2 * i))"
    if "(c, q) \<in> gyields (foldr (\<lambda>i. gappend (star_end E cf req opt xs pos s rec (pos + 2 * i))) is Stop)" for "is"
    using that by (induction "is") (auto dest: gyields_gappend)
  from this [OF assms(1) [unfolded match_keys_star_def]] assms(2)
  obtain i where i: "i \<le> (length xs - pos) div 2"
    and y: "(c, q) \<in> gyields (star_end E cf req opt xs pos s rec (pos + 2 * i))"
    by (elim bexE) (rule that, auto)
  then obtain m where m: "star_pairs (segment pos (pos + 2 * i) xs) pos [] = Inr m" "q = pos + 2 * i"
    "snd (conform_keys cf req opt (new_smap E m) s rec) = Inr c" "c \<noteq> INVALID"
    unfolding star_end_def segment_def [symmetric] by (auto split: sum.splits if_splits)
  have "q \<le> length xs" using i m(2) assms(2) by linarith
  moreover have "even (length (segment pos q xs))" using calculation by (simp add: segment_def m(2) min_absorb2)
  ultimately show ?thesis
    using Star [OF m(1) [folded m(2)] _ keys_just [OF m(3,4)]] m(2) by simp
qed

lemma match_step_just:
  assumes "(c, q) \<in> gyields (match_step E cf mf sp xs pos s rec)" "pos \<le> length xs"
  shows "pos \<le> q \<and> q \<le> length xs \<and> parses E sp (segment pos q xs) c"
proof (cases "is_regex sp")
  case True
  then show ?thesis
  proof (cases sp)
    case (Cat bs)
    with cat_just [of c q bs xs pos s rec "[]"] assms show ?thesis by (auto intro: conforms_conforms_chain_parses_parses_cat.Cat)
  qed (use assms alt_just rep_just maybe_just amp_just star_just in auto)
next
  case False
  then have "match_step E cf mf sp xs pos s rec = match_element cf sp xs pos s rec" by (cases sp) auto
  with assms element_just [OF _ False] show ?thesis by simp
qed

end

lemma spec_justified: "justified (conform_at E n) (match_all E n) E"
proof (induction n)
  case 0
  show ?case by unfold_locales (auto simp: result_cf_def result_mf_def)
next
  case (Suc n)
  show ?case
  proof (rule justified.intro)
    show "conform_calls (conform_at E (Suc n)) (match_all E (Suc n))"
      by unfold_locales (simp_all add: calls_agree del: conform_at.simps match_all.simps)
    show "justified_axioms (conform_at E (Suc n)) (match_all E (Suc n)) E"
      using justified.conform_step_just [OF Suc] justified.match_step_just [OF Suc]
      by unfold_locales (auto simp: result_cf_def result_mf_def)
  qed
qed

interpretation spec_sound: justified "conform_at E n" "match_all E n" E for E n
  by (rule spec_justified)

lemma conform_justified: "conform E n spec v = Inr c \<Longrightarrow> c \<noteq> INVALID \<Longrightarrow> conforms E spec v c"
  using spec_sound.cf_just [of E n spec v c] by (simp add: conform_def result_cf_def)

text \<open>
  C17: conforming is sound. Whatever \<open>conform\<close> returns is what the value conforms to in the relation
  \<open>conforms\<close>, which says what a spec means without order or fuel: for a regular expression, that the
  whole sequence splits into parts that its operators match, with the results of the parts put together.
\<close>

theorem conform_sound:
  assumes "conform E n spec v = Inr c" "c \<noteq> INVALID"
  shows "conforms E spec v c"
  using assms by (rule conform_justified)

end
