(* ===== verification/SpecUnform.thy ===== *)
theory SpecUnform
  imports SpecSound "HOL-Library.Multiset"
begin

text \<open>
  Unforming what a value conformed to gives the value back, for the specs where that can be
  expected, and the ways in which the code falls short of it elsewhere.
\<close>

section \<open>Specs that can be inverted\<close>

text \<open>Specs that return the value they are given.\<close>

fun keeps :: "'h sval spec \<Rightarrow> bool" where
  "keeps (FSpec a r f) = True"
| "keeps (WithGen sp g) = keeps sp"
| "keeps (PredicateSpec sp) = keeps sp"
| "keeps (Nonconforming sp) = True"
| "keeps (AndSpec specs) = list_all keeps specs"
| "keeps (NilableSpec sp) = keeps sp"
| "keeps (CollOf sp kind cnt mn mx dist) = True"
| "keeps (MapOf ks vs) = True"
| "keeps (KeysSpec req opt) = True"
| "keeps (TupleSpec specs) = True"
| "keeps (Instance f) = True"
| "keeps (PredFn f) = True"
| "keeps (Members f) = True"
| "keeps Unsupported = True"
| "keeps _ = False"

text \<open>Specs that return no nil.\<close>

fun never_nil :: "'h sval spec \<Rightarrow> bool" where
  "never_nil (WithGen sp g) = never_nil sp"
| "never_nil (PredicateSpec sp) = never_nil sp"
| "never_nil (OrSpec bs) = True"
| "never_nil (CollOf sp kind cnt mn mx dist) = True"
| "never_nil (MapOf ks vs) = True"
| "never_nil (KeysSpec req opt) = True"
| "never_nil (TupleSpec specs) = True"
| "never_nil (Instance f) = (\<not> f SNil)"
| "never_nil (PredFn f) = (f SNil \<noteq> Inr True)"
| "never_nil (Members f) = (f SNil \<noteq> Inr True)"
| "never_nil (Cat bs) = True"
| "never_nil (Alt bs) = True"
| "never_nil (Repeat sp k) = True"
| "never_nil (KeysStar req opt) = True"
| "never_nil _ = False"

text \<open>Values without iterables that are no sequences; unforming returns vectors.\<close>

fun no_iter :: "'h sval \<Rightarrow> bool" where
  "no_iter (SSeq xs) = list_all no_iter xs"
| "no_iter (SIter xs) = False"
| "no_iter (SMap kvs) = list_all (\<lambda>kv. no_iter (fst kv) \<and> no_iter (snd kv)) kvs"
| "no_iter _ = True"

fun invertible :: "'h sval spec \<Rightarrow> bool" where
  "invertible (WithGen sp g) = invertible sp"
| "invertible (PredicateSpec sp) = invertible sp"
| "invertible (Conformer f u) =
     (\<forall>x y. no_iter x \<longrightarrow> f x = Inr y \<longrightarrow> no_iter y \<and> (case u of None \<Rightarrow> Inr y | Some g \<Rightarrow> g y) = Inr x)"
| "invertible (MergeSpec specs) = False"
| "invertible (AndSpec specs) = list_all invertible specs"
| "invertible (OrSpec bs) = (distinct (map fst bs) \<and> list_all (\<lambda>b. invertible (snd b)) bs)"
| "invertible (NilableSpec sp) = keeps sp"
| "invertible (MultiSpec dispatch gm) = False"
| "invertible (Cat bs) = (distinct (map fst bs) \<and> list_all (\<lambda>b. invertible (snd b)) bs)"
| "invertible (Alt bs) = (distinct (map fst bs) \<and> list_all (\<lambda>b. invertible (snd b)) bs)"
| "invertible (Repeat sp k) = invertible sp"
| "invertible (Maybe sp) = (invertible sp \<and> never_nil sp)"
| "invertible (Amp sp preds) = (invertible sp \<and> list_all keeps preds)"
| "invertible (KeysStar req opt) = False"
| "invertible _ = True"

text \<open>What is relied on: named specs are invertible, and a new map has the entries it is given.\<close>

definition spec_env_ok :: "'h spec_env \<Rightarrow> bool" where
  "spec_env_ok E \<longleftrightarrow>
     (\<forall>k sp. spec_registry E k = Some sp \<longrightarrow> invertible sp) \<and> (\<forall>kvs. mset (map_order E kvs) = mset kvs)"

lemma conforms_keeps:
  shows "conforms E sp v c \<Longrightarrow> keeps sp \<longrightarrow> c = v"
    and "conforms_chain E sps v c \<Longrightarrow> list_all keeps sps \<longrightarrow> c = v"
    and "parses E sp xs c \<Longrightarrow> keeps sp \<and> \<not> is_regex sp \<longrightarrow> xs = [c]"
    and "parses_cat E bs xs acc m \<Longrightarrow> True"
proof (induction rule: conforms_conforms_chain_parses_parses_cat.inducts)
  case (Regex sp v xs c)
  then show ?case by (cases sp) auto
qed auto

lemma conforms_never_nil:
  shows "conforms E sp v c \<Longrightarrow> never_nil sp \<longrightarrow> c \<noteq> SNil"
    and "conforms_chain E sps v c \<Longrightarrow> True"
    and "parses E sp xs c \<Longrightarrow> never_nil sp \<longrightarrow> c \<noteq> SNil"
    and "parses_cat E bs xs acc m \<Longrightarrow> True"
proof (induction rule: conforms_conforms_chain_parses_parses_cat.inducts)
  case (Star xs i m req opt c)
  then show ?case by auto
qed (auto simp: new_smap_def)

section \<open>The round trip\<close>

text \<open>A computation with enough fuel has this result.\<close>

definition settles :: "(nat \<Rightarrow> 'a) \<Rightarrow> 'a \<Rightarrow> bool" where
  "settles f r \<longleftrightarrow> (\<exists>N. \<forall>n\<ge>N. f n = r)"

lemma settles_const: "settles (\<lambda>n. r) r"
  by (simp add: settles_def)

lemma settles_Suc: "settles (\<lambda>n. f (Suc n)) r \<longleftrightarrow> settles f r"
  unfolding settles_def by (metis Suc_le_D Suc_le_mono le_SucI)

lemma settles_rbind:
  assumes "settles f (Inr x)" "settles (\<lambda>n. g n x) r"
  shows "settles (\<lambda>n. rbind (f n) (g n)) r"
proof -
  obtain N M where "\<forall>n\<ge>N. f n = Inr x" "\<forall>n\<ge>M. g n x = r" using assms by (auto simp: settles_def)
  then have "\<forall>n\<ge>max N M. rbind (f n) (g n) = r" by simp
  then show ?thesis unfolding settles_def by blast
qed

lemma settles_mapM:
  assumes "length xs = length ys" "\<forall>i<length xs. settles (\<lambda>n. f n (xs ! i)) (Inr (ys ! i))"
  shows "settles (\<lambda>n. mapM (f n) xs) (Inr ys)"
  using assms
proof (induction xs ys rule: list_induct2)
  case Nil
  then show ?case by (simp add: settles_const)
next
  case (Cons x xs y ys)
  have "settles (\<lambda>n. f n x) (Inr y)" using Cons.prems by force
  moreover have "settles (\<lambda>n. mapM (f n) xs) (Inr ys)" using Cons by force
  ultimately show ?case by (auto intro!: settles_rbind settles_const)
qed

lemma map_of_order:
  assumes "mset kvs' = mset kvs" "distinct (map fst kvs)"
  shows "map_of kvs' = map_of kvs"
proof -
  have "set kvs' = set kvs" using assms(1) by (rule mset_eq_setD)
  moreover have "distinct (map fst kvs')" using assms by (metis mset_map mset_eq_imp_distinct_iff)
  ultimately show ?thesis using assms(2) map_of_inject_set by metis
qed

lemma unform_branch_found:
  "(tag, sp) \<in> set bs \<Longrightarrow> distinct (map fst bs) \<Longrightarrow> unform_branch uf bs (SKey tag) c other = uf sp c"
  by (induction bs) (auto simp: rev_image_eqI)

lemma invertible_branch:
  "(tag, sp) \<in> set bs \<Longrightarrow> list_all (\<lambda>b. invertible (snd b)) bs \<Longrightarrow> invertible sp"
  by (auto simp: list_all_iff)

text \<open>Fuel steps of \<open>unform\<close> and \<open>_unform_regex\<close>.\<close>

lemma settles_unform:
  "\<not> is_regex sp \<Longrightarrow> settles (\<lambda>n. unform E n sp v) r \<longleftrightarrow> settles (\<lambda>n. unform_step E (unform E n) sp v) r"
  by (subst settles_Suc [symmetric]) simp

lemma settles_unform_regex:
  "settles (\<lambda>n. unform_regex E n sp v) r \<longleftrightarrow> settles (\<lambda>n. unform_regex_step (unform E n) (unform_regex E n) sp v) r"
  by (subst settles_Suc [symmetric]) simp

lemma settles_unform_top:
  assumes "is_regex sp" "settles (\<lambda>n. unform_regex E n sp v) (Inr xs)"
  shows "settles (\<lambda>n. unform E n sp v) (Inr (SSeq xs))"
proof -
  have "settles (\<lambda>n. rbind (unform_regex E n sp v) (\<lambda>xs. Inr (SSeq xs))) (Inr (SSeq xs))"
    by (rule settles_rbind [OF assms(2)]) (rule settles_const)
  then show ?thesis using assms(1) by (subst settles_Suc [symmetric]) simp
qed

lemma settles_result:
  "settles f (Inr x) \<Longrightarrow> settles (\<lambda>n. rbind (f n) (\<lambda>y. Inr (g y))) (Inr (g x))"
  by (rule settles_rbind [where x = x]) (simp_all add: settles_const)

lemma conforms_unform:
  assumes E: "spec_env_ok E"
  shows "conforms E sp v c \<Longrightarrow> invertible sp \<longrightarrow> no_iter v \<longrightarrow>
      no_iter c \<and> settles (\<lambda>n. unform E n sp c) (Inr v)"
    and "conforms_chain E sps v c \<Longrightarrow> list_all invertible sps \<longrightarrow> no_iter v \<longrightarrow>
      no_iter c \<and> settles (\<lambda>n. unform_and (unform E n) sps c) (Inr v)"
    and "parses E sp xs c \<Longrightarrow> invertible sp \<longrightarrow> list_all no_iter xs \<longrightarrow>
      no_iter c \<and> settles (\<lambda>n. unform_regex E n sp c) (Inr xs)"
    and "parses_cat E bs xs acc m \<Longrightarrow>
      distinct (map fst bs) \<longrightarrow> list_all (\<lambda>b. invertible (snd b)) bs \<longrightarrow> list_all no_iter xs \<longrightarrow>
      no_iter (SMap acc) \<longrightarrow> distinct (map fst acc) \<longrightarrow>
      no_iter (SMap m) \<and> distinct (map fst m) \<and>
      (\<forall>k. k \<notin> SKey ` set (map fst bs) \<longrightarrow> map_of m k = map_of acc k) \<and>
      (\<exists>parts. concat parts = xs \<and> settles (\<lambda>n. mapM (\<lambda>(tag, child).
         case map_of m (SKey tag) of None \<Rightarrow> Inl KeyError | Some c \<Rightarrow> unform_regex E n child c) bs) (Inr parts))"
proof (induction rule: conforms_conforms_chain_parses_parses_cat.inducts)
  case (Gen sp v c g)
  then show ?case by (simp add: settles_unform [of "WithGen sp g"])
next
  case (Pred sp v c)
  then show ?case by (simp add: settles_unform [of "PredicateSpec sp"])
next
  case (Conf f v c u)
  then show ?case by (simp add: settles_unform [of "Conformer f u"] settles_const)
next
  case (Named k sp v c)
  have "invertible sp" using E Named(1) unfolding spec_env_ok_def by blast
  with Named show ?case by (simp add: settles_unform [of "NamedSpec k"])
next
  case (And specs v c)
  then show ?case by (simp add: settles_unform [of "AndSpec specs"])
next
  case (Or tag sp bs v c)
  show ?case
  proof (intro impI conjI)
    assume inv: "invertible (OrSpec bs)" and v: "no_iter v"
    have d: "distinct (map fst bs)" and sp: "invertible sp" using inv Or(1) invertible_branch by auto
    with Or v show "no_iter (SSeq [SKey tag, c])" by simp
    show "settles (\<lambda>n. unform E n (OrSpec bs) (SSeq [SKey tag, c])) (Inr v)"
      using Or sp v by (simp add: settles_unform [of "OrSpec bs"] unform_branch_found [OF Or(1) d])
  qed
next
  case (Nil sp)
  then show ?case by (simp add: settles_unform [of "NilableSpec sp"] settles_const)
next
  case (NotNil v sp c)
  have "c = v" if "keeps sp" using conforms_keeps(1) NotNil(2) that by blast
  then show ?case by (simp add: settles_unform [of "NilableSpec sp"] settles_const)
next
  case (Regex sp v xs c)
  show ?case
  proof (intro impI)
    assume "invertible sp" "no_iter v"
    moreover from this Regex(1,2) have "v = SSeq xs" by (cases v) auto
    ultimately show "no_iter c \<and> settles (\<lambda>n. unform E n sp c) (Inr v)"
      using Regex by (auto intro: settles_unform_top)
  qed
next
  case (ChainNil v)
  then show ?case by (simp add: settles_const)
next
  case (ChainCons sp v c specs d)
  then show ?case by (simp add: settles_rbind [of _ c])
next
  case (Cat bs xs m)
  show ?case
  proof (intro impI)
    assume "invertible (Cat bs)" "list_all no_iter xs"
    with Cat obtain parts where m: "no_iter (SMap m)" "distinct (map fst m)" "concat parts = xs"
      "settles (\<lambda>n. mapM (\<lambda>(tag, child). case map_of m (SKey tag) of None \<Rightarrow> Inl KeyError
         | Some c \<Rightarrow> unform_regex E n child c) bs) (Inr parts)" by auto
    have o: "mset (map_order E m) = mset m" using E by (simp add: spec_env_ok_def)
    have "no_iter (new_smap E m)" using m(1) mset_eq_setD [OF o] by (simp add: new_smap_def list_all_iff)
    moreover have "settles (\<lambda>n. unform_regex E n (Cat bs) (new_smap E m)) (Inr xs)"
      using settles_result [OF m(4), of concat] m(3)
      by (simp add: settles_unform_regex [of E "Cat bs"] new_smap_def map_of_order [OF o m(2)])
    ultimately show "no_iter (new_smap E m) \<and> settles (\<lambda>n. unform_regex E n (Cat bs) (new_smap E m)) (Inr xs)" ..
  qed
next
  case (Alt tag sp bs xs c)
  show ?case
  proof (intro impI conjI)
    assume inv: "invertible (Alt bs)" and v: "list_all no_iter xs"
    have d: "distinct (map fst bs)" and sp: "invertible sp" using inv Alt(1) invertible_branch by auto
    with Alt v show "no_iter (SSeq [SKey tag, c])" by simp
    show "settles (\<lambda>n. unform_regex E n (Alt bs) (SSeq [SKey tag, c])) (Inr xs)"
      using Alt sp v by (simp add: settles_unform_regex [of E "Alt bs"] unform_branch_found [OF Alt(1) d])
  qed
next
  case (Rep xss cs sp minimum)
  show ?case
  proof (intro impI)
    assume inv: "invertible (Repeat sp minimum)" and v: "list_all no_iter (concat xss)"
    have i: "no_iter (cs ! i)" "settles (\<lambda>n. unform_regex E n sp (cs ! i)) (Inr (xss ! i))" if "i < length cs" for i
    proof -
      have "list_all no_iter (xss ! i)" using v that Rep(1) by (auto simp: list_all_iff)
      then show "no_iter (cs ! i)" "settles (\<lambda>n. unform_regex E n sp (cs ! i)) (Inr (xss ! i))"
        using Rep inv that by auto
    qed
    have "settles (\<lambda>n. mapM (unform_regex E n sp) cs) (Inr xss)"
      by (rule settles_mapM) (use i Rep(1) in auto)
    then have "settles (\<lambda>n. unform_regex E n (Repeat sp minimum) (SSeq cs)) (Inr (concat xss))"
      using settles_result [of _ xss concat] by (simp add: settles_unform_regex [of E "Repeat sp minimum"])
    moreover have "no_iter (SSeq cs)" using i(1) by (simp add: list_all_length)
    ultimately show "no_iter (SSeq cs) \<and>
      settles (\<lambda>n. unform_regex E n (Repeat sp minimum) (SSeq cs)) (Inr (concat xss))" by blast
  qed
next
  case (MaybeNone sp)
  then show ?case by (simp add: settles_unform_regex [of E "Maybe sp"] settles_const)
next
  case (MaybeSome sp xs c)
  have "c \<noteq> SNil" if "never_nil sp" using conforms_never_nil(3) MaybeSome(1) that by blast
  with MaybeSome show ?case by (simp add: settles_unform_regex [of E "Maybe sp"])
next
  case (Amp sp xs c preds d)
  have "d = c" if "list_all keeps preds" using conforms_keeps(2) Amp(3) that by blast
  with Amp show ?case by (simp add: settles_unform_regex [of E "Amp sp preds"])
next
  case (Elem sp x c)
  show ?case
  proof (intro impI)
    assume "invertible sp" "list_all no_iter [x]"
    with Elem have "no_iter c" "settles (\<lambda>n. unform E n sp c) (Inr x)" by auto
    moreover have "unform_regex_step uf rf sp c = rbind (uf sp c) (\<lambda>u. Inr [u])" for uf rf
      using Elem(1) by (cases sp) auto
    ultimately show "no_iter c \<and> settles (\<lambda>n. unform_regex E n sp c) (Inr [x])"
      using settles_result [of _ x "\<lambda>u. [u]"] by (simp add: settles_unform_regex [of E sp])
  qed
next
  case (CatNil acc)
  then show ?case by (intro impI conjI exI [of _ "[]"]) (simp_all add: settles_const)
next
  case (CatCons sp xs c bs ys tag acc m)
  show ?case
  proof (intro impI)
    assume d: "distinct (map fst ((tag, sp) # bs))" and inv: "list_all (\<lambda>b. invertible (snd b)) ((tag, sp) # bs)"
      and v: "list_all no_iter (xs @ ys)" and acc: "no_iter (SMap acc)" "distinct (map fst acc)"
    from CatCons(2) inv v have c: "no_iter c" "settles (\<lambda>n. unform_regex E n sp c) (Inr xs)" by auto
    let ?acc = "AList.update (SKey tag) c acc"
    have "no_iter (SMap ?acc)" using acc(1) c(1)
      by (induction acc) auto
    moreover have "distinct (map fst ?acc)" using acc(2) by (simp add: distinct_update)
    ultimately obtain parts where m: "no_iter (SMap m)" "distinct (map fst m)"
      "\<forall>k. k \<notin> SKey ` set (map fst bs) \<longrightarrow> map_of m k = map_of ?acc k" "concat parts = ys"
      "settles (\<lambda>n. mapM (\<lambda>(tag, child). case map_of m (SKey tag) of None \<Rightarrow> Inl KeyError
         | Some c \<Rightarrow> unform_regex E n child c) bs) (Inr parts)"
      using CatCons(4) d inv v by auto
    have "SKey tag \<notin> SKey ` set (map fst bs)" using d by (auto simp: image_iff)
    then have "map_of m (SKey tag) = map_of ?acc (SKey tag)" using m(3) by blast
    then have "map_of m (SKey tag) = Some c" by (simp add: update_conv')
    moreover have "settles (\<lambda>n. rbind (unform_regex E n sp c) (\<lambda>y. rbind (mapM (\<lambda>(tag, child).
        case map_of m (SKey tag) of None \<Rightarrow> Inl KeyError | Some c \<Rightarrow> unform_regex E n child c) bs)
        (\<lambda>ys. Inr (y # ys)))) (Inr (xs # parts))"
      by (rule settles_rbind [OF c(2)]) (rule settles_result [OF m(5), of "(#) xs"])
    ultimately have "settles (\<lambda>n. mapM (\<lambda>(tag, child). case map_of m (SKey tag) of None \<Rightarrow> Inl KeyError
         | Some c \<Rightarrow> unform_regex E n child c) ((tag, sp) # bs)) (Inr (xs # parts))" by simp
    moreover have "\<forall>k. k \<notin> SKey ` set (map fst ((tag, sp) # bs)) \<longrightarrow> map_of m k = map_of acc k"
      using m(3) by (auto simp: update_conv')
    ultimately show "no_iter (SMap m) \<and> distinct (map fst m) \<and>
      (\<forall>k. k \<notin> SKey ` set (map fst ((tag, sp) # bs)) \<longrightarrow> map_of m k = map_of acc k) \<and>
      (\<exists>parts. concat parts = xs @ ys \<and> settles (\<lambda>n. mapM (\<lambda>(tag, child).
         case map_of m (SKey tag) of None \<Rightarrow> Inl KeyError | Some c \<Rightarrow> unform_regex E n child c) ((tag, sp) # bs)) (Inr parts))"
      using m(1,2,4) by (intro conjI exI [of _ "xs # parts"]) auto
  qed
qed (simp_all add: settles_unform settles_const)

text \<open>
  C18: unforming inverts conforming. For a spec that can be inverted (tags of \<open>or\<close>, \<open>cat\<close> and \<open>alt\<close> are
  distinct, conformers have an inverse, \<open>?\<close> and \<open>nilable\<close> do not lose or change what is under them) in a
  registry of such specs, and a value that contains no iterable that is not a sequence (a set or an
  iterator, which a regular expression accepts and gives back as a vector), unforming what the value
  conformed to gives that value back, with enough depth.
\<close>

theorem unform_conform:
  assumes "conform E n spec v = Inr c" "c \<noteq> INVALID" "spec_env_ok E" "invertible spec" "no_iter v"
  shows "settles (\<lambda>m. unform E m spec c) (Inr v)"
  using conforms_unform(1) [OF assms(3) conform_justified [OF assms(1,2)]] assms(4,5) by simp

end
