(* ===== verification/SpecTotal.thy ===== *)
theory SpecTotal
  imports SpecUnform
begin

text \<open>
  How deep the calls nest: a spec whose names do not lead back to it is conformed to within a depth
  that depends on the spec and the registry only, whatever the value; in particular the loop of a
  repeat ends. A name that leads back to itself exhausts any depth.
\<close>

section \<open>Depth\<close>

text \<open>
  \<open>fits E n sp\<close>: a call of \<open>_conform\<close> on \<open>sp\<close> needs no depth beyond \<open>n\<close>, and the functions of the user that
  are called outside of a handler do not exhaust the stack; \<open>fits_match\<close> is the same for \<open>_match_regex_all\<close>.
\<close>

definition no_overflow :: "('a \<Rightarrow> 'b res) \<Rightarrow> bool" where
  "no_overflow f \<longleftrightarrow> (\<forall>x. f x \<noteq> Inl RecursionError)"

fun fits :: "'h spec_env \<Rightarrow> nat \<Rightarrow> 'h sval spec \<Rightarrow> bool"
and fits_match :: "'h spec_env \<Rightarrow> nat \<Rightarrow> 'h sval spec \<Rightarrow> bool"
where
  "fits E 0 = (\<lambda>sp. False)"
| "fits E (Suc n) = (\<lambda>sp.
     case sp of
       WithGen c g \<Rightarrow> fits E n c
     | PredicateSpec c \<Rightarrow> fits E n c
     | Nonconforming c \<Rightarrow> fits E n c
     | MergeSpec cs \<Rightarrow> list_all (fits E n) cs
     | NamedSpec k \<Rightarrow> (case spec_registry E k of None \<Rightarrow> True | Some c \<Rightarrow> fits E n c)
     | AndSpec cs \<Rightarrow> list_all (fits E n) cs
     | OrSpec bs \<Rightarrow> list_all (\<lambda>b. fits E n (snd b)) bs
     | NilableSpec c \<Rightarrow> fits E n c
     | CollOf c kind cnt mn mx dist \<Rightarrow>
         fits E n c \<and> (\<forall>k\<in>set_option kind. no_overflow k) \<and> (dist \<longrightarrow> no_overflow (set_len E))
     | MapOf ks vs \<Rightarrow> fits E n ks \<and> fits E n vs
     | KeysSpec req opt \<Rightarrow> list_all (\<lambda>p. fits E n (NamedSpec (snd p))) (req @ opt)
     | TupleSpec cs \<Rightarrow> list_all (fits E n) cs
     | MultiSpec dispatch gm \<Rightarrow>
         (\<forall>v sel d. multispec_spec dispatch gm v = Inr (sel, d) \<longrightarrow> fits E n sel)
     | Members f \<Rightarrow> no_overflow f
     | _ \<Rightarrow> is_regex sp \<longrightarrow> fits_match E n sp)"
| "fits_match E 0 = (\<lambda>sp. False)"
| "fits_match E (Suc n) = (\<lambda>sp.
     case sp of
       Cat bs \<Rightarrow> list_all (\<lambda>b. fits_match E n (snd b)) bs
     | Alt bs \<Rightarrow> list_all (\<lambda>b. fits_match E n (snd b)) bs
     | Repeat c k \<Rightarrow> fits_match E n c
     | Maybe c \<Rightarrow> fits_match E n c
     | Amp c preds \<Rightarrow> fits_match E n c \<and> list_all (fits E n) preds
     | KeysStar req opt \<Rightarrow> list_all (\<lambda>p. fits E n (NamedSpec (snd p))) (req @ opt)
     | _ \<Rightarrow> fits E n sp)"

section \<open>No overflow\<close>

definition fine :: "'a res \<Rightarrow> bool" where
  "fine r \<longleftrightarrow> r \<noteq> Inl RecursionError"

lemma fine_simps [simp]: "fine (Inr x)" "fine (Inl e) \<longleftrightarrow> e \<noteq> RecursionError"
  by (simp_all add: fine_def)

lemma fine_rbind: "fine m \<Longrightarrow> (\<And>x. m = Inr x \<Longrightarrow> fine (f x)) \<Longrightarrow> fine (rbind m f)"
  by (cases m) auto

fun gfine :: "('p, 'a) gen \<Rightarrow> bool" where
  "gfine Stop = True"
| "gfine (Fail e) = (e \<noteq> RecursionError)"
| "gfine (Emit p g) = gfine g"
| "gfine (Yield x g) = gfine g"

lemma gfine_quiet [simp]: "gfine (quiet g) = gfine g"
  by (induction g) simp_all

lemma gfine_gappend: "gfine g \<Longrightarrow> gfine h \<Longrightarrow> gfine (gappend g h)"
  by (induction g) auto

lemma gfine_gbind: "gfine g \<Longrightarrow> (\<And>x. x \<in> gyields g \<Longrightarrow> gfine (f x)) \<Longrightarrow> gfine (gbind g f)"
  by (induction g) (auto intro: gfine_gappend)

lemma gfine_gdo: "fine (snd m) \<Longrightarrow> (\<And>x. snd m = Inr x \<Longrightarrow> gfine (f x)) \<Longrightarrow> gfine (gdo m f)"
proof -
  have "gfine (foldr Emit ps g) = gfine g" for ps and g :: "('b, 'c) gen" by (induction ps) simp_all
  then show "fine (snd m) \<Longrightarrow> (\<And>x. snd m = Inr x \<Longrightarrow> gfine (f x)) \<Longrightarrow> gfine (gdo m f)"
    by (auto simp: gdo_def split: sum.splits)
qed

lemma gfine_gen_of [simp]: "gfine (gen_of xs)"
  by (induction xs) simp_all

lemma fine_gfind: "gfine g \<Longrightarrow> fine (snd (gfind P g))"
  by (induction g) auto

lemma fine_all_conform: "\<forall>r\<in>set rs. fine (snd r) \<Longrightarrow> fine (snd (all_conform rs v))"
  by (induction rs) (auto intro!: fine_rbind)

lemma fine_merge_maps: "fine (merge_maps E d vs)"
  by (induction E d vs rule: merge_maps.induct) auto

context justified
begin

definition fine_cf :: "'h sval spec \<Rightarrow> bool" where
  "fine_cf sp \<longleftrightarrow> (\<forall>v. fine (result_cf cf sp v))"

definition fine_mf :: "'h sval spec \<Rightarrow> bool" where
  "fine_mf sp \<longleftrightarrow> (\<forall>xs pos. pos \<le> length xs \<longrightarrow> gfine (result_mf mf sp xs pos))"

lemma fine_cfD: "fine_cf sp \<Longrightarrow> fine (snd (cf sp v s rec))"
  by (simp add: fine_cf_def snd_cf)

lemma fine_cf_pair: "(ps, r) = cf sp v s rec \<Longrightarrow> fine_cf sp \<Longrightarrow> fine r"
  using fine_cfD by (metis snd_conv)

lemma fine_mfD: "fine_mf sp \<Longrightarrow> pos \<le> length xs \<Longrightarrow> gfine (mf sp xs pos s rec)"
  unfolding fine_mf_def using quiet_mf gfine_quiet by metis

lemma fine_match: "fine_mf sp \<Longrightarrow> pos \<le> length xs \<Longrightarrow> fine (snd (match_regex mf sp xs pos s rec))"
  unfolding match_regex_def by (rule fine_gfind) (rule fine_mfD)

lemma fine_and: "list_all fine_cf cs \<Longrightarrow> fine (snd (conform_and cf cs v s rec))"
  by (induction cs arbitrary: v) (auto intro!: fine_rbind fine_cfD)

lemma fine_or: "list_all (\<lambda>b. fine_cf (snd b)) bs \<Longrightarrow> fine (snd (conform_or cf bs v s rec acc))"
proof (induction bs arbitrary: acc)
  case (Cons b bs)
  obtain tag c where b: "b = (tag, c)" by fastforce
  have f: "fine (result_cf cf c v)" using Cons.prems by (simp add: b fine_cf_def)
  show ?case
    unfolding b using Cons f by (cases "result_cf cf c v") (auto simp: snd_cf case_outcome)
qed simp

lemma fine_merge: "list_all fine_cf cs \<Longrightarrow> fine (snd (conform_merge E cf sp cs v s rec acc))"
  by (induction cs arbitrary: acc) (auto intro!: fine_rbind fine_cfD fine_merge_maps)

lemma fine_coll:
  assumes "fine_cf c" "\<forall>k\<in>set_option kind. no_overflow k" "dist \<longrightarrow> no_overflow (set_len E)"
  shows "fine (snd (conform_coll_of E cf c kind cnt mn mx dist v s rec))"
proof -
  have k: "fine (case kind of None \<Rightarrow> Inr True | Some k \<Rightarrow> k v)"
    using assms(2) by (auto simp: no_overflow_def fine_def split: option.splits)
  have l: "dist \<Longrightarrow> fine (set_len E xs)" for xs using assms(3) by (simp add: no_overflow_def fine_def)
  have a: "fine (snd (all_conform (map (\<lambda>(i, x). cf c x (into (SInt (int i)) s) rec) (enumerate 0 xs)) v))" for xs
    by (rule fine_all_conform) (auto intro!: fine_cfD assms(1))
  show ?thesis
  proof (cases v)
    case (SSeq xs)
    then show ?thesis
      unfolding conform_coll_of_def Let_def using k l a by (auto intro!: fine_rbind)
  qed (simp_all add: conform_coll_of_def)
qed

lemma fine_map_of: "fine_cf ks \<Longrightarrow> fine_cf vs \<Longrightarrow> fine (snd (conform_map_of cf ks vs v s rec))"
  by (cases v) (auto simp: conform_map_of_def intro!: fine_all_conform dest!: fine_cf_pair)

lemma fine_keys:
  assumes "list_all (\<lambda>p. fine_cf (NamedSpec (snd p))) (req @ opt)"
  shows "fine (snd (conform_keys cf req opt v s rec))"
proof (cases v)
  case (SMap kvs)
  have "fine (snd (all_conform (map (\<lambda>(d, sk). cf (NamedSpec sk) (the (map_of kvs (SKey d)))
      (into (SKey d) (down (SKey d) s)) rec) (filter (\<lambda>(d, _). map_of kvs (SKey d) \<noteq> None) (req @ opt))) v))"
  proof (rule fine_all_conform, rule ballI)
    fix r
    assume "r \<in> set (map (\<lambda>(d, sk). cf (NamedSpec sk) (the (map_of kvs (SKey d)))
      (into (SKey d) (down (SKey d) s)) rec) (filter (\<lambda>(d, _). map_of kvs (SKey d) \<noteq> None) (req @ opt)))"
    then obtain d sk where dsk: "(d, sk) \<in> set (req @ opt)"
      and r: "r = cf (NamedSpec sk) (the (map_of kvs (SKey d))) (into (SKey d) (down (SKey d) s)) rec" by auto
    have "fine_cf (NamedSpec (snd (d, sk)))" using assms dsk unfolding list_all_iff by (rule bspec)
    then have "fine_cf (NamedSpec sk)" by simp
    then show "fine (snd r)" unfolding r by (rule fine_cfD)
  qed
  then show ?thesis using SMap by (auto simp: conform_keys_def split: option.splits)
qed (simp_all add: conform_keys_def)

lemma fine_tuple: "list_all fine_cf cs \<Longrightarrow> fine (snd (conform_tuple cf cs v s rec))"
proof (cases v)
  case (SSeq xs)
  assume cs: "list_all fine_cf cs"
  have "child \<in> set cs" if "(i, child, x) \<in> set (enumerate 0 (zip cs xs))" for i child x
    using that by (auto simp: in_set_enumerate_eq)
  then have "fine (snd (all_conform (map (\<lambda>(i, child, x). cf child x (into (SInt (int i)) (down (SInt (int i)) s)) rec)
      (enumerate 0 (zip cs xs))) v))"
    by (intro fine_all_conform) (use cs in \<open>fastforce simp: list_all_iff dest: fine_cf_pair\<close>)
  then show ?thesis using SSeq by (simp add: conform_tuple_def)
qed (simp_all add: conform_tuple_def)

lemma fine_regex: "fine_mf sp \<Longrightarrow> fine (snd (conform_regex mf sp v s rec))"
  unfolding conform_regex_def
  by (auto intro!: fine_rbind fine_gfind fine_mfD split: option.splits)

lemma fine_multi:
  assumes "\<And>sel d. multispec_spec dispatch gm v = Inr (sel, d) \<Longrightarrow> fine_cf sel"
  shows "fine (snd (conform_multi cf dispatch gm v s rec))"
  unfolding conform_multi_def using assms by (auto intro!: fine_cfD split: sum.splits option.splits)

lemma fine_alt:
  assumes "list_all (\<lambda>b. fine_mf (snd b)) bs" "pos \<le> length xs"
  shows "gfine (match_alt mf bs xs pos s rec)"
proof -
  have "fine (snd (alt_branch mf bs xs pos s))" using assms(1)
  proof (induction bs)
    case (Cons b bs)
    obtain tag c where b: "b = (tag, c)" by fastforce
    with Cons show ?case
      by (auto intro!: fine_rbind fine_match assms(2) split: option.splits)
  qed simp
  moreover have "fine (snd (alt_problems mf bs xs pos s))" using assms(1)
  proof (induction bs)
    case (Cons b bs)
    obtain tag c where b: "b = (tag, c)" by fastforce
    with Cons show ?case by (auto intro!: fine_rbind fine_match assms(2))
  qed simp
  ultimately show ?thesis
    unfolding match_alt_def by (auto intro!: gfine_gdo split: option.splits)
qed

lemma fine_repeat_loop:
  assumes "fine_mf c" "pos \<le> length xs" "length xs - pos < n"
  shows "fine (snd (repeat_loop mf c xs s n pos ms ps))"
  using assms(2,3)
proof (induction n arbitrary: pos ms ps)
  case (Suc n)
  have "fine (snd (case m of None \<Rightarrow> oret (ms, ps, pos) | Some (r, q) \<Rightarrow>
      if q = pos then ([], Inl ValueError) else repeat_loop mf c xs s n q (ms @ [r]) (ps @ [q])))"
    if m: "snd (match_regex mf c xs pos s False) = Inr m" for m
  proof (cases m)
    case (Some rq)
    obtain r q where rq: "rq = (r, q)" by (cases rq)
    have q: "pos \<le> q" "q \<le> length xs" using match_yields [OF m [unfolded Some rq] Suc.prems(1)] by auto
    show ?thesis
    proof (cases "q = pos")
      case False
      then have "fine (snd (repeat_loop mf c xs s n q (ms @ [r]) (ps @ [q])))"
        using q Suc.prems by (intro Suc.IH) auto
      with False show ?thesis by (simp add: Some rq)
    qed (simp add: Some rq)
  qed simp
  then show ?case
    unfolding repeat_loop.simps snd_obind by (intro fine_rbind fine_match [OF assms(1) Suc.prems(1)])
qed simp

lemma fine_repeat:
  assumes "fine_mf c" "pos \<le> length xs"
  shows "gfine (match_repeat mf c k xs pos s rec)"
  unfolding match_repeat_def
proof (rule gfine_gdo)
  show "fine (snd (repeat_loop mf c xs s (Suc (length xs)) pos [] [pos]))"
    by (rule fine_repeat_loop) (use assms in auto)
next
  fix r
  assume loop: "snd (repeat_loop mf c xs s (Suc (length xs)) pos [] [pos]) = Inr r"
  obtain ms ps p where r: "r = (ms, ps, p)" by (cases r)
  have "rep_inv c xs pos p ms ps"
    by (rule repeat_inv [OF loop [unfolded r]]) (use assms(2) in \<open>simp add: rep_inv_def\<close>)
  then have "p \<le> length xs" by (simp add: rep_inv_def)
  then have "fine (snd (match_regex mf c xs p s rec))" by (rule fine_match [OF assms(1)])
  then show "gfine (case r of (ms, ps, last_pos) \<Rightarrow> if length ms < k
      then gdo (if rec then obind (match_regex mf c xs last_pos s rec) (\<lambda>_. oret ()) else oret ()) (\<lambda>_. Stop)
      else gen_of (map (\<lambda>n. (SSeq (take n ms), ps ! n)) (rev [k..<Suc (length ms)])))"
    unfolding r by (auto intro!: gfine_gdo fine_rbind)
qed

lemma fine_maybe: "fine_mf c \<Longrightarrow> pos \<le> length xs \<Longrightarrow> gfine (match_maybe mf c xs pos s)"
  unfolding match_maybe_def by (auto intro!: gfine_gdo fine_match split: option.splits)

lemma fine_amp:
  "fine_mf c \<Longrightarrow> list_all fine_cf preds \<Longrightarrow> pos \<le> length xs \<Longrightarrow> gfine (match_amp cf mf c preds xs pos s rec)"
  unfolding match_amp_def by (auto intro!: gfine_gdo fine_match fine_and split: option.splits)

lemma fine_element: "fine_cf sp \<Longrightarrow> gfine (match_element cf sp xs pos s rec)"
  unfolding match_element_def by (auto intro!: gfine_gdo fine_cfD)

lemma fine_cat:
  "list_all (\<lambda>b. fine_mf (snd b)) bs \<Longrightarrow> pos \<le> length xs \<Longrightarrow> gfine (match_cat E mf bs xs pos s rec acc)"
proof (induction bs arbitrary: pos acc)
  case (Cons b bs)
  obtain tag c where b: "b = (tag, c)" by fastforce
  show ?case
    unfolding b match_cat.simps
  proof (rule gfine_gbind)
    show "gfine (mf c xs pos (down (SKey tag) s) rec)" using Cons.prems by (auto simp: b intro: fine_mfD)
  next
    fix x
    assume x: "x \<in> gyields (mf c xs pos (down (SKey tag) s) rec)"
    obtain r q where [simp]: "x = (r, q)" by (cases x)
    have "q \<le> length xs" using mf_yields x Cons.prems(2) by simp
    then show "gfine (case x of (r, q) \<Rightarrow> match_cat E mf bs xs q s rec (AList.update (SKey tag) r acc))"
      using Cons by (simp add: b)
  qed
qed simp

lemma fine_keys_star:
  assumes "list_all (\<lambda>p. fine_cf (NamedSpec (snd p))) (req @ opt)"
  shows "gfine (match_keys_star E cf req opt xs pos s rec)"
proof -
  have "gfine (star_end E cf req opt xs pos s rec e)" for e
    unfolding star_end_def by (auto intro!: gfine_gdo fine_keys [OF assms] split: sum.splits)
  then have "gfine (foldr (\<lambda>i. gappend (star_end E cf req opt xs pos s rec (pos + 2 * i))) is Stop)" for "is"
    by (induction "is") (auto intro: gfine_gappend)
  then show ?thesis by (simp add: match_keys_star_def)
qed

end

abbreviation fine_at :: "'h spec_env \<Rightarrow> nat \<Rightarrow> 'h sval spec \<Rightarrow> bool" where
  "fine_at E n \<equiv> justified.fine_cf (conform_at E n)"

abbreviation fine_match_at :: "'h spec_env \<Rightarrow> nat \<Rightarrow> 'h sval spec \<Rightarrow> bool" where
  "fine_match_at E n \<equiv> justified.fine_mf (match_all E n)"

text \<open>One level: if the calls of a level are fine on the specs that fit it, so are those of the next.\<close>

locale fine_level =
  fixes E :: "'h spec_env" and n :: nat
  assumes c: "fits E n sp \<Longrightarrow> fine_at E n sp"
    and m: "fits_match E n sp \<Longrightarrow> fine_match_at E n sp"
begin

lemma specs: "list_all (fits E n) cs \<Longrightarrow> list_all (fine_at E n) cs"
  unfolding list_all_iff using c by blast

lemma branches: "list_all (\<lambda>b. fits E n (snd b)) bs \<Longrightarrow> list_all (\<lambda>b. fine_at E n (snd b)) bs"
  unfolding list_all_iff using c by blast

lemma names: "list_all (\<lambda>p. fits E n (NamedSpec (snd p))) ps \<Longrightarrow> list_all (\<lambda>p. fine_at E n (NamedSpec (snd p))) ps"
  unfolding list_all_iff using c by blast

lemma match_branches:
  "list_all (\<lambda>b. fits_match E n (snd b)) bs \<Longrightarrow> list_all (\<lambda>b. fine_match_at E n (snd b)) bs"
  unfolding list_all_iff using m by blast

lemma call: "fits E n sp \<Longrightarrow> fine (snd (conform_at E n sp v s rec))"
  by (rule spec_sound.fine_cfD) (rule c)

lemma regex: "fits_match E n sp \<Longrightarrow> fine (snd (conform_regex (match_all E n) sp v s rec))"
  by (rule spec_sound.fine_regex) (rule m)

lemma conform_fine:
  assumes "fits E (Suc n) sp"
  shows "fine (snd (conform_step E (conform_at E n) (match_all E n) sp v s rec))"
proof (cases sp)
  case (WithGen c g)
  with assms show ?thesis by (simp add: call)
next
  case (PredicateSpec c)
  with assms show ?thesis by (simp add: call)
next
  case (Conformer f u)
  then show ?thesis by (auto split: sum.splits)
next
  case (Nonconforming c)
  with assms show ?thesis by (auto intro!: fine_rbind call)
next
  case (MergeSpec cs)
  with assms show ?thesis by (simp add: spec_sound.fine_merge specs)
next
  case (NamedSpec k)
  with assms show ?thesis by (auto intro!: call split: option.splits)
next
  case (AndSpec cs)
  with assms show ?thesis by (simp add: spec_sound.fine_and specs)
next
  case (OrSpec bs)
  with assms show ?thesis by (simp add: spec_sound.fine_or branches)
next
  case (NilableSpec c)
  with assms show ?thesis by (simp add: call)
next
  case (CollOf ch kind cnt mn mx dist)
  with assms have "fine_at E n ch" "\<forall>k\<in>set_option kind. no_overflow k" "dist \<longrightarrow> no_overflow (set_len E)"
    by (simp_all add: c)
  from spec_sound.fine_coll [OF this] show ?thesis by (simp add: CollOf)
next
  case (MapOf ks vs)
  with assms show ?thesis by (simp add: spec_sound.fine_map_of c)
next
  case (KeysSpec req opt)
  with assms have "list_all (\<lambda>p. fine_at E n (NamedSpec (snd p))) (req @ opt)" by (intro names) simp
  from spec_sound.fine_keys [OF this] show ?thesis by (simp add: KeysSpec)
next
  case (TupleSpec cs)
  with assms show ?thesis by (simp add: spec_sound.fine_tuple specs)
next
  case (MultiSpec dispatch gm)
  with assms have "fine_at E n sel" if "multispec_spec dispatch gm v = Inr (sel, d)" for sel d
    using that by (intro c) auto
  from spec_sound.fine_multi [OF this] show ?thesis by (simp add: MultiSpec)
next
  case (Members f)
  with assms have "fine (f v)" by (simp add: no_overflow_def fine_def)
  then show ?thesis by (auto simp: Members valid_or_def intro!: fine_rbind)
qed (use assms in \<open>simp_all add: regex valid_or_def\<close>)

lemma match_fine:
  assumes "fits_match E (Suc n) sp" "pos \<le> length xs"
  shows "gfine (match_step E (conform_at E n) (match_all E n) sp xs pos s rec)"
proof (cases "is_regex sp")
  case True
  then show ?thesis
  proof (cases sp)
    case (Cat bs)
    with assms show ?thesis by (simp add: spec_sound.fine_cat match_branches)
  next
    case (Alt bs)
    with assms show ?thesis by (simp add: spec_sound.fine_alt match_branches)
  next
    case (Repeat ch k)
    with assms show ?thesis by (simp add: spec_sound.fine_repeat m)
  next
    case (Maybe ch)
    with assms show ?thesis by (simp add: spec_sound.fine_maybe m)
  next
    case (Amp ch preds)
    with assms show ?thesis by (simp add: spec_sound.fine_amp m specs)
  next
    case (KeysStar req opt)
    with assms have "list_all (\<lambda>p. fine_at E n (NamedSpec (snd p))) (req @ opt)" by (intro names) simp
    from spec_sound.fine_keys_star [OF this] show ?thesis by (simp add: KeysStar)
  qed auto
next
  case False
  then have "match_step E (conform_at E n) (match_all E n) sp xs pos s rec =
      match_element (conform_at E n) sp xs pos s rec" by (cases sp) auto
  moreover have "fits E n sp" using assms(1) False by (cases sp) auto
  ultimately show ?thesis by (simp add: spec_sound.fine_element c)
qed

end

lemma fits_fine: "fine_level E n"
proof (induction n)
  case 0
  show ?case by unfold_locales simp_all
next
  case (Suc n)
  show ?case
  proof
    show "fine_at E (Suc n) sp" if "fits E (Suc n) sp" for sp
      unfolding spec_sound.fine_cf_def result_cf_def
      using fine_level.conform_fine [OF Suc that] by simp
    show "fine_match_at E (Suc n) sp" if "fits_match E (Suc n) sp" for sp
      unfolding spec_sound.fine_mf_def result_mf_def
      using fine_level.match_fine [OF Suc that] by simp
  qed
qed

interpretation spec_fine: fine_level E n for E n
  by (rule fits_fine)

text \<open>
  C20: conforming returns. For a spec that fits a depth, conforming any value never exceeds that
  depth: it returns or raises one of the exceptions the code names. Registered names may be
  followed any number of times as long as they do not lead back; sequences of any length are fine, for
  a repeat consumes an item at each turn or raises.
\<close>

theorem conform_returns:
  assumes "fits E n spec"
  shows "conform E n spec v \<noteq> Inl RecursionError"
  using spec_fine.c [OF assms] by (simp add: spec_sound.fine_cf_def conform_def result_cf_def fine_def)

end
