(* ===== verification/SpecExamples.thy ===== *)
theory SpecExamples
  imports SpecTotal
begin

text \<open>Concrete specs: the hypotheses of the properties can hold, and inputs on which specs surprise.\<close>

definition keyed :: "string \<Rightarrow> skey" where
  "keyed n = (None, n)"

definition int_spec :: "unit sval spec" where
  "int_spec = PredFn (\<lambda>v. Inr (case v of SInt _ \<Rightarrow> True | _ \<Rightarrow> False))"

definition key_spec :: "unit sval spec" where
  "key_spec = PredFn (\<lambda>v. Inr (case v of SKey _ \<Rightarrow> True | _ \<Rightarrow> False))"

text \<open>Two names: \<open>nums\<close>, one or more integers, and \<open>self\<close>, which is registered as itself.\<close>

definition test_registry :: "skey \<Rightarrow> unit sval spec option" where
  "test_registry = [keyed ''nums'' \<mapsto> Repeat int_spec 1, keyed ''self'' \<mapsto> NamedSpec (keyed ''self'')]"

definition test_spec_env :: "unit spec_env" where
  "test_spec_env =
     \<lparr>spec_registry = test_registry, is_callable = (\<lambda>v. False), set_len = (\<lambda>xs. Inr (length (remdups xs))),
      map_order = rev\<rparr>"

text \<open>\<open>(cat :n int? :kvs (* (cat :k keyword? :v (alt :int int? :nums ::nums))))\<close>\<close>

definition pairs_spec :: "unit sval spec" where
  "pairs_spec =
     Cat [(keyed ''n'', int_spec),
          (keyed ''kvs'', Repeat (Cat [(keyed ''k'', key_spec),
             (keyed ''v'', Alt [(keyed ''int'', int_spec), (keyed ''nums'', NamedSpec (keyed ''nums''))])]) 0)]"

definition pairs_value :: "unit sval" where
  "pairs_value = SSeq [SInt 7, SKey (keyed ''x''), SInt 1, SKey (keyed ''y''), SSeq [SInt 2, SInt 3]]"

definition pairs_conformed :: "unit sval" where
  "pairs_conformed =
     SMap [(SKey (keyed ''kvs''), SSeq [
              SMap [(SKey (keyed ''v''), SSeq [SKey (keyed ''int''), SInt 1]), (SKey (keyed ''k''), SKey (keyed ''x''))],
              SMap [(SKey (keyed ''v''), SSeq [SKey (keyed ''nums''), SSeq [SInt 2, SInt 3]]),
                    (SKey (keyed ''k''), SKey (keyed ''y''))]]),
           (SKey (keyed ''n''), SInt 7)]"

lemma pairs_conform: "conform test_spec_env 12 pairs_spec pairs_value = Inr pairs_conformed"
  by code_simp

lemma pairs_valid: "pairs_conformed \<noteq> INVALID"
  by (simp add: pairs_conformed_def INVALID_def)

theorem conform_sound_witness: "conforms test_spec_env pairs_spec pairs_value pairs_conformed"
  by (rule conform_sound [OF pairs_conform pairs_valid])

lemma test_spec_env_ok: "spec_env_ok test_spec_env"
proof -
  have "invertible sp" if "test_registry k = Some sp" for k sp
    using that by (auto simp: test_registry_def int_spec_def split: if_splits)
  then show ?thesis by (simp add: spec_env_ok_def test_spec_env_def)
qed

theorem unform_conform_witness:
  "settles (\<lambda>m. unform test_spec_env m pairs_spec pairs_conformed) (Inr pairs_value)"
  by (rule unform_conform [OF pairs_conform pairs_valid test_spec_env_ok])
     (simp_all add: pairs_spec_def pairs_value_def int_spec_def key_spec_def keyed_def)

theorem conform_returns_witness: "conform test_spec_env 12 pairs_spec pairs_value \<noteq> Inl RecursionError"
  by (rule conform_returns)
     (simp add: eval_nat_numeral pairs_spec_def int_spec_def key_spec_def keyed_def test_spec_env_def test_registry_def)

section \<open>Where specs fall short\<close>

lemma pred_match:
  "match_all E (Suc (Suc n)) (PredFn p) xs pos s False =
     (if pos < length xs \<and> p (xs ! pos) = Inr True \<and> xs ! pos \<noteq> INVALID
      then Yield (xs ! pos, Suc pos) Stop else Stop)"
  by (simp add: match_element_def gdo_def invalid_def valid_or_def oret_def)

lemma maybe_match:
  "match_all E (Suc (Suc (Suc n))) (Maybe (PredFn p)) xs pos s False =
     (if pos < length xs \<and> p (xs ! pos) = Inr True \<and> xs ! pos \<noteq> INVALID
      then Yield (xs ! pos, Suc pos) Stop else Yield (SNil, pos) Stop)"
  using pred_match [of E n p xs pos s]
  by (simp add: match_maybe_def match_regex_def gdo_def del: match_all.simps(2))
     (simp add: match_maybe_def match_regex_def gdo_def)

text \<open>A repeat comes to a turn in which the optional consumes nothing.\<close>

lemma repeat_of_maybe:
  "length xs - pos < m \<Longrightarrow>
     repeat_loop (match_all E (Suc (Suc (Suc n)))) (Maybe (PredFn p)) xs s m pos ms ps = ([], Inl ValueError)"
proof (induction m arbitrary: pos ms ps)
  case (Suc m)
  then show ?case
    using Suc.IH [of "Suc pos"]
    by (auto simp: match_regex_def maybe_match obind_def simp del: match_all.simps)
qed simp

lemma names_only:
  assumes "\<forall>k\<in>K. \<exists>k'\<in>K. spec_registry E k = Some (NamedSpec k')" "k \<in> K"
  shows "conform_at E n (NamedSpec k) v s r = ([], Inl RecursionError)"
  using assms(2)
proof (induction n arbitrary: k s)
  case (Suc n)
  then obtain k' where "k' \<in> K" "spec_registry E k = Some (NamedSpec k')" using assms(1) by blast
  then show ?case using Suc.IH by simp
qed simp

text \<open>
  C21: four ways in which specs fall short, for any predicates and registry. A regular expression
  commits to the first match of what is under \<open>?\<close>: where \<open>x\<close> satisfies both predicates,
  \<open>(cat :a (? p) :b q)\<close> refuses \<open>[x]\<close>, which it describes. A repeat of an optional predicate raises
  ValueError on every sequence, the empty one included. \<open>unform\<close> passes over \<open>nilable\<close>, so what conformed
  to \<open>(nilable (or :a p))\<close> comes back still tagged. And names that are registered as names of each other
  exhaust the stack whatever its depth, so \<open>valid?\<close> raises on every value instead of answering.
\<close>

theorem spec_surprises:
  assumes "p x = Inr True" "q x = Inr True" "x \<noteq> INVALID" "x \<noteq> SNil" "a \<noteq> b"
    and "\<forall>k\<in>K. \<exists>k'\<in>K. spec_registry E k = Some (NamedSpec k')" "k \<in> K"
  shows "conform E (n + 5) (Cat [(a, Maybe (PredFn p)), (b, PredFn q)]) (SSeq [x]) = Inr INVALID \<and>
   conforms E (Cat [(a, Maybe (PredFn p)), (b, PredFn q)]) (SSeq [x])
     (new_smap E [(SKey a, SNil), (SKey b, x)]) \<and>
   conform E (n + 5) (Repeat (Maybe (PredFn p)) m) (SSeq xs) = Inl ValueError \<and>
   conform E (n + 5) (NilableSpec (OrSpec [(a, PredFn p)])) x = Inr (SSeq [SKey a, x]) \<and>
   unform E (n + 5) (NilableSpec (OrSpec [(a, PredFn p)])) (SSeq [SKey a, x]) = Inr (SSeq [SKey a, x]) \<and>
   valid E n (NamedSpec k) v = Inl RecursionError"
proof (intro conjI)
  have five: "n + 5 = Suc (Suc (Suc (Suc (Suc n))))" by simp
  show "conform E (n + 5) (Cat [(a, Maybe (PredFn p)), (b, PredFn q)]) (SSeq [x]) = Inr INVALID"
  proof -
    have "match_all E (Suc (Suc (Suc (Suc n)))) (Cat [(a, Maybe (PredFn p)), (b, PredFn q)]) [x] 0 top False
        = Stop"
      unfolding match_all.simps(2) [of E "Suc (Suc (Suc n))"] match_step.simps
      using assms(1,3) by (simp add: maybe_match pred_match del: match_all.simps)
    then show ?thesis
      unfolding conform_def five conform_at.simps(2) [of E "Suc (Suc (Suc (Suc n)))"]
      by (simp add: conform_regex_def obind_def invalid_def del: match_all.simps conform_at.simps)
  qed
  have "parses_cat E [(a, Maybe (PredFn p)), (b, PredFn q)] ([] @ [x] @ []) []
      (AList.update (SKey b) x (AList.update (SKey a) SNil []))"
    by (rule CatCons [OF MaybeNone CatCons [OF Elem [OF _ PredF] CatNil]]) (use assms(2) in simp_all)
  then have "parses E (Cat [(a, Maybe (PredFn p)), (b, PredFn q)]) [x]
      (new_smap E [(SKey a, SNil), (SKey b, x)])"
    using assms(5) by (intro conforms_conforms_chain_parses_parses_cat.Cat) simp
  then show "conforms E (Cat [(a, Maybe (PredFn p)), (b, PredFn q)]) (SSeq [x])
     (new_smap E [(SKey a, SNil), (SKey b, x)])"
    by (intro Regex) simp_all
  show "conform E (n + 5) (Repeat (Maybe (PredFn p)) m) (SSeq xs) = Inl ValueError"
    unfolding conform_def five conform_at.simps(2) [of E "Suc (Suc (Suc (Suc n)))"]
      match_all.simps(2) [of E "Suc (Suc (Suc n))"]
    using repeat_of_maybe [of xs 0 "Suc (length xs)" E n p top "[]" "[0]"]
    by (simp add: conform_regex_def match_repeat_def gdo_def obind_def
        del: repeat_loop.simps match_all.simps conform_at.simps)
  show "conform E (n + 5) (NilableSpec (OrSpec [(a, PredFn p)])) x = Inr (SSeq [SKey a, x])"
    using assms(1,3,4) unfolding conform_def five by (simp add: valid_or_def oret_def obind_def)
  show "unform E (n + 5) (NilableSpec (OrSpec [(a, PredFn p)])) (SSeq [SKey a, x]) = Inr (SSeq [SKey a, x])"
    unfolding five by simp
  show "valid E n (NamedSpec k) v = Inl RecursionError"
    by (simp add: valid_def names_only [OF assms(6,7)])
qed

theorem spec_surprises_witness:
  "conform test_spec_env 7 (Cat [(keyed ''a'', Maybe int_spec), (keyed ''b'', int_spec)]) (SSeq [SInt 1]) =
     Inr INVALID \<and>
   conform test_spec_env 7 (Repeat (Maybe int_spec) 0) (SSeq []) = Inl ValueError \<and>
   valid test_spec_env 2 (NamedSpec (keyed ''self'')) SNil = Inl RecursionError"
proof -
  let ?p = "\<lambda>v. Inr (case v of SInt _ \<Rightarrow> True | _ \<Rightarrow> False) :: bool res"
  have "(2 :: nat) + 5 = 7" by simp
  from spec_surprises [of ?p "SInt 1" ?p "keyed ''a''" "keyed ''b''" "{keyed ''self''}" test_spec_env
      "keyed ''self''" 2 0 "[]" SNil, unfolded this]
  show ?thesis
    by (simp add: int_spec_def keyed_def INVALID_def test_spec_env_def test_registry_def)
qed

end
