(* ===== verification/Vars.thy ===== *)
theory Vars
  imports Reference
begin

text \<open>
  Vars and thread bindings (\<open>src/src/basilisp/lang/runtime.py\<close>): root bindings, the stacks of
  thread-local bindings of dynamic Vars, and the frames that \<open>binding\<close> pushes and pops together, with
  the decimal context that goes with them. RuntimeException is \<open>RuntimeError\<close> here.
\<close>

section \<open>Vars\<close>

text \<open>A Var and a thread are their numbers. An unbound Var has an \<open>Unbound\<close> object as its root.\<close>

datatype 'v vval = Unbound nat | Bound 'v

type_synonym thread = nat

text \<open>The stack of each thread has the newest binding first.\<close>

record ('v, 'm) var = "('v vval, 'm) reference" +
  v_dynamic :: bool
  v_is_bound :: bool
  v_root :: "'v vval"
  v_tl :: "(thread \<Rightarrow> 'v vval list) option"

definition no_bindings :: "thread \<Rightarrow> 'v vval list" where
  "no_bindings = (\<lambda>t. [])"

text \<open>\<open>mark\<close> adds the key \<open>:dynamic\<close> to metadata that lacks it.\<close>

definition new_var :: "('m \<Rightarrow> 'm) \<Rightarrow> nat \<Rightarrow> bool \<Rightarrow> 'm \<Rightarrow> ('v, 'm) var" where
  "new_var mark i dynamic m =
     \<lparr>ref_meta = (if dynamic then mark m else m), ref_validator = None, ref_watches = [],
      v_dynamic = dynamic, v_is_bound = False, v_root = Unbound i,
      v_tl = (if dynamic then Some no_bindings else None)\<rparr>"

definition set_dynamic :: "bool \<Rightarrow> ('v, 'm) var \<Rightarrow> ('v, 'm) var" where
  "set_dynamic b v =
     (if b = v_dynamic v then v
      else v\<lparr>v_dynamic := b, v_tl := if b then Some no_bindings else None\<rparr>)"

definition is_thread_bound :: "thread \<Rightarrow> ('v, 'm) var \<Rightarrow> bool" where
  "is_thread_bound t v \<longleftrightarrow> v_dynamic v \<and> (case v_tl v of None \<Rightarrow> False | Some st \<Rightarrow> st t \<noteq> [])"

definition is_bound :: "thread \<Rightarrow> ('v, 'm) var \<Rightarrow> bool" where
  "is_bound t v \<longleftrightarrow> v_is_bound v \<or> is_thread_bound t v"

text \<open>The new root is in place before a watcher can raise.\<close>

definition set_root ::
  "'v vval watch_order \<Rightarrow> 'v vval \<Rightarrow> ('v, 'm) var \<Rightarrow> ('v, 'm) var \<times> 'v vval res"
where
  "set_root word new v =
     (case validate v new of
        Inl e \<Rightarrow> (v, Inl e)
      | Inr _ \<Rightarrow>
          (v\<lparr>v_is_bound := True, v_root := new\<rparr>,
           rbind (snd (notify_watches word v (v_root v) new)) (\<lambda>_. Inr new)))"

definition bind_root ::
  "'v vval watch_order \<Rightarrow> 'v vval \<Rightarrow> ('v, 'm) var \<Rightarrow> ('v, 'm) var \<times> unit res"
where
  "bind_root word new v = (case set_root word new v of (v', r) \<Rightarrow> (v', rbind r (\<lambda>_. Inr ())))"

definition alter_root ::
  "'v vval watch_order \<Rightarrow> ('v vval \<Rightarrow> 'v vval res) \<Rightarrow> ('v, 'm) var \<Rightarrow> ('v, 'm) var \<times> 'v vval res"
where
  "alter_root word f v = (case f (v_root v) of Inl e \<Rightarrow> (v, Inl e) | Inr new \<Rightarrow> set_root word new v)"

definition push_bindings :: "thread \<Rightarrow> 'v vval \<Rightarrow> ('v, 'm) var \<Rightarrow> ('v, 'm) var res" where
  "push_bindings t x v =
     (case v_tl v of
        None \<Rightarrow> Inl RuntimeError
      | Some st \<Rightarrow>
          if \<not> v_dynamic v then Inl RuntimeError
          else rbind (validate v x) (\<lambda>_. Inr (v\<lparr>v_tl := Some (st(t := x # st t))\<rparr>)))"

definition pop_bindings :: "thread \<Rightarrow> ('v, 'm) var \<Rightarrow> (('v, 'm) var \<times> 'v vval) res" where
  "pop_bindings t v =
     (case v_tl v of
        None \<Rightarrow> Inl RuntimeError
      | Some st \<Rightarrow>
          if \<not> v_dynamic v then Inl RuntimeError
          else (case st t of
                  [] \<Rightarrow> Inl IndexError
                | x # xs \<Rightarrow> Inr (v\<lparr>v_tl := Some (st(t := xs))\<rparr>, x)))"

text \<open>
  A dynamic Var has a stack of bindings (the source asserts it): \<open>new_var\<close> and \<open>set_dynamic\<close> see to
  that.
\<close>

definition var_value :: "thread \<Rightarrow> ('v, 'm) var \<Rightarrow> 'v vval res" where
  "var_value t v =
     (if v_dynamic v then
        (case v_tl v of
           None \<Rightarrow> Inl AssertionError
         | Some st \<Rightarrow> (case st t of x # _ \<Rightarrow> Inr x | [] \<Rightarrow> Inr (v_root v)))
      else Inr (v_root v))"

definition set_value ::
  "'v vval watch_order \<Rightarrow> thread \<Rightarrow> 'v vval \<Rightarrow> ('v, 'm) var \<Rightarrow> ('v, 'm) var \<times> unit res"
where
  "set_value word t x v =
     (if v_dynamic v then
        (case v_tl v of
           None \<Rightarrow> (v, Inl AssertionError)
         | Some st \<Rightarrow>
             (case validate v x of
                Inl e \<Rightarrow> (v, Inl e)
              | Inr _ \<Rightarrow>
                  (case st t of
                     _ # xs \<Rightarrow> (v\<lparr>v_tl := Some (st(t := x # xs))\<rparr>, Inr ())
                   | [] \<Rightarrow> (case push_bindings t x v of Inl e \<Rightarrow> (v, Inl e) | Inr v' \<Rightarrow> (v', Inr ())))))
      else bind_root word x v)"

section \<open>Thread bindings\<close>

text \<open>
  The Vars of the process, the frames of each thread (newest first: the Vars bound and the decimal
  context entered, if any), and the decimal contexts each thread is in.
\<close>

record ('v, 'm, 'c) runtime =
  rt_vars :: "nat \<Rightarrow> ('v, 'm) var"
  rt_frames :: "thread \<Rightarrow> (nat list \<times> 'c option) list"
  rt_contexts :: "thread \<Rightarrow> 'c list"

fun push_all ::
  "thread \<Rightarrow> (nat \<times> 'v vval) list \<Rightarrow> (nat \<Rightarrow> ('v, 'm) var) \<Rightarrow> nat list \<Rightarrow>
   (nat \<Rightarrow> ('v, 'm) var) \<times> nat list \<times> unit res"
where
  "push_all t [] vars pushed = (vars, pushed, Inr ())"
| "push_all t ((i, x) # m) vars pushed =
     (case push_bindings t x (vars i) of
        Inl e \<Rightarrow> (vars, pushed, Inl e)
      | Inr v \<Rightarrow> push_all t m (vars(i := v)) (pushed @ [i]))"

fun pop_all :: "thread \<Rightarrow> nat list \<Rightarrow> (nat \<Rightarrow> ('v, 'm) var) \<Rightarrow> (nat \<Rightarrow> ('v, 'm) var) \<times> unit res" where
  "pop_all t [] vars = (vars, Inr ())"
| "pop_all t (i # is) vars =
     (case pop_bindings t (vars i) of
        Inl e \<Rightarrow> (vars, Inl e)
      | Inr (v, _) \<Rightarrow> pop_all t is (vars(i := v)))"

text \<open>
  \<open>mc\<close> is the Var \<open>*math-context*\<close>, if there is one, and \<open>localcontext\<close> the decimal context that a value of
  it stands for (none for nil). \<open>setord\<close> is the order in which a set of Vars iterates.
\<close>

definition frame_context ::
  "nat option \<Rightarrow> ('v vval \<Rightarrow> 'c option res) \<Rightarrow> (nat \<times> 'v vval) list \<Rightarrow> 'c option res"
where
  "frame_context mc localcontext m =
     (case mc of
        None \<Rightarrow> Inr None
      | Some i \<Rightarrow> (case map_of m i of None \<Rightarrow> Inr None | Some x \<Rightarrow> localcontext x))"

definition enter_context :: "thread \<Rightarrow> 'c option \<Rightarrow> (thread \<Rightarrow> 'c list) \<Rightarrow> thread \<Rightarrow> 'c list" where
  "enter_context t c cs = (case c of None \<Rightarrow> cs | Some x \<Rightarrow> cs(t := x # cs t))"

definition exit_context :: "thread \<Rightarrow> 'c option \<Rightarrow> (thread \<Rightarrow> 'c list) \<Rightarrow> thread \<Rightarrow> 'c list" where
  "exit_context t c cs = (case c of None \<Rightarrow> cs | Some _ \<Rightarrow> cs(t := tl (cs t)))"

definition push_thread_bindings ::
  "(nat list \<Rightarrow> nat list) \<Rightarrow> nat option \<Rightarrow> ('v vval \<Rightarrow> 'c option res) \<Rightarrow> thread \<Rightarrow> (nat \<times> 'v vval) list \<Rightarrow>
   ('v, 'm, 'c) runtime \<Rightarrow> ('v, 'm, 'c) runtime \<times> unit res"
where
  "push_thread_bindings setord mc localcontext t m w =
     (if \<exists>p\<in>set m. \<not> v_dynamic (rt_vars w (fst p)) then (w, Inl RuntimeError)
      else (case frame_context mc localcontext m of
        Inl e \<Rightarrow> (w, Inl e)
      | Inr c \<Rightarrow>
          (let entered = enter_context t c (rt_contexts w)
           in case push_all t m (rt_vars w) [] of
                (vars, pushed, Inr _) \<Rightarrow>
                  (w\<lparr>rt_vars := vars, rt_frames := (rt_frames w)(t := (pushed, c) # rt_frames w t),
                     rt_contexts := entered\<rparr>, Inr ())
              | (vars, pushed, Inl e) \<Rightarrow>
                  (case pop_all t (setord pushed) vars of
                     (vars', Inl e') \<Rightarrow> (w\<lparr>rt_vars := vars', rt_contexts := entered\<rparr>, Inl e')
                   | (vars', Inr _) \<Rightarrow>
                       (w\<lparr>rt_vars := vars', rt_contexts := exit_context t c entered\<rparr>, Inl e)))))"

definition pop_thread_bindings ::
  "(nat list \<Rightarrow> nat list) \<Rightarrow> thread \<Rightarrow> ('v, 'm, 'c) runtime \<Rightarrow> ('v, 'm, 'c) runtime \<times> unit res"
where
  "pop_thread_bindings setord t w =
     (case rt_frames w t of
        [] \<Rightarrow> (w, Inl RuntimeError)
      | (frame, c) # frames \<Rightarrow>
          (case pop_all t (setord frame) (rt_vars w) of
             (vars, r) \<Rightarrow>
               (w\<lparr>rt_vars := vars, rt_frames := (rt_frames w)(t := frames),
                  rt_contexts := exit_context t c (rt_contexts w)\<rparr>, r)))"

text \<open>The Vars bound by frames, oldest frame first, with their current values.\<close>

definition get_thread_bindings ::
  "(nat list \<Rightarrow> nat list) \<Rightarrow> thread \<Rightarrow> ('v, 'm, 'c) runtime \<Rightarrow> (nat \<times> 'v vval) list res"
where
  "get_thread_bindings setord t w =
     foldM (\<lambda>d i. rbind (var_value t (rt_vars w i)) (\<lambda>x. Inr (AList.update i x d))) []
       (concat (map (\<lambda>frame. setord (fst frame)) (rev (rt_frames w t))))"

end
