(* ===== verification/VarsCorrect.thy ===== *)
theory VarsCorrect
  imports Vars "HOL-Library.Multiset"
begin

text \<open>
  Bindings are balanced: whatever threads push, set, pop and alter, a thread that pops as often as it
  pushes is back at the bindings it had, and no other thread notices.
\<close>

section \<open>Worlds and events\<close>

record ('v, 'c) rt_env =
  e_setord :: "nat list \<Rightarrow> nat list"
  e_mc :: "nat option"
  e_localcontext :: "'v vval \<Rightarrow> 'c option res"
  e_word :: "'v vval watch_order"

datatype 'v event =
    Push thread "(nat \<times> 'v vval) list"
  | Pop thread
  | SetValue thread nat "'v vval"
  | BindRoot nat "'v vval"
  | AlterRoot nat "'v vval \<Rightarrow> 'v vval res"
  | SetDynamic nat bool

fun rt_step :: "('v, 'c) rt_env \<Rightarrow> 'v event \<Rightarrow> ('v, 'm, 'c) runtime \<Rightarrow> ('v, 'm, 'c) runtime \<times> unit res" where
  "rt_step E (Push t m) w = push_thread_bindings (e_setord E) (e_mc E) (e_localcontext E) t m w"
| "rt_step E (Pop t) w = pop_thread_bindings (e_setord E) t w"
| "rt_step E (SetValue t i x) w =
     (case set_value (e_word E) t x (rt_vars w i) of (v, r) \<Rightarrow> (w\<lparr>rt_vars := (rt_vars w)(i := v)\<rparr>, r))"
| "rt_step E (BindRoot i x) w =
     (case bind_root (e_word E) x (rt_vars w i) of (v, r) \<Rightarrow> (w\<lparr>rt_vars := (rt_vars w)(i := v)\<rparr>, r))"
| "rt_step E (AlterRoot i f) w =
     (case alter_root (e_word E) f (rt_vars w i) of
        (v, r) \<Rightarrow> (w\<lparr>rt_vars := (rt_vars w)(i := v)\<rparr>, rbind r (\<lambda>_. Inr ())))"
| "rt_step E (SetDynamic i b) w = (w\<lparr>rt_vars := (rt_vars w)(i := set_dynamic b (rt_vars w i))\<rparr>, Inr ())"

definition rt_run :: "('v, 'c) rt_env \<Rightarrow> 'v event list \<Rightarrow> ('v, 'm, 'c) runtime \<Rightarrow> ('v, 'm, 'c) runtime" where
  "rt_run E es w = foldl (\<lambda>w e. fst (rt_step E e w)) w es"

lemma rt_run_simps [simp]: "rt_run E [] w = w" "rt_run E (e # es) w = rt_run E es (fst (rt_step E e w))"
  by (simp_all add: rt_run_def)

text \<open>The events considered: the bindings pushed are a map, and no Var changes whether it is dynamic.\<close>

fun plain_event :: "'v event \<Rightarrow> bool" where
  "plain_event (Push t m) = distinct (map fst m)"
| "plain_event (SetDynamic i b) = False"
| "plain_event _ = True"

definition rt_env_ok :: "('v, 'c) rt_env \<Rightarrow> bool" where
  "rt_env_ok E \<longleftrightarrow> (\<forall>is. mset (e_setord E is) = mset is)"

section \<open>Stacks\<close>

definition stack :: "thread \<Rightarrow> ('v, 'm) var \<Rightarrow> 'v vval list" where
  "stack t v = (case v_tl v of None \<Rightarrow> [] | Some st \<Rightarrow> st t)"

definition push_var :: "thread \<Rightarrow> 'v vval \<Rightarrow> ('v, 'm) var \<Rightarrow> ('v, 'm) var" where
  "push_var t x v = v\<lparr>v_tl := map_option (\<lambda>st. st(t := x # st t)) (v_tl v)\<rparr>"

definition pop_var :: "thread \<Rightarrow> ('v, 'm) var \<Rightarrow> ('v, 'm) var" where
  "pop_var t v = v\<lparr>v_tl := map_option (\<lambda>st. st(t := tl (st t))) (v_tl v)\<rparr>"

lemma pop_push_var [simp]: "pop_var t (push_var t x v) = v"
  by (cases v; cases "v_tl v") (simp_all add: pop_var_def push_var_def)

lemma stack_push_var: "v_tl v \<noteq> None \<Longrightarrow> stack t' (push_var t x v) = (if t' = t then x # stack t v else stack t' v)"
  by (auto simp: stack_def push_var_def)

lemma stack_pop_var: "stack t' (pop_var t v) = (if t' = t then tl (stack t v) else stack t' v)"
  by (auto simp: stack_def pop_var_def split: option.splits)

lemma var_fields_push_pop [simp]:
  "v_dynamic (push_var t x v) = v_dynamic v" "v_dynamic (pop_var t v) = v_dynamic v"
  "v_tl (push_var t x v) = None \<longleftrightarrow> v_tl v = None" "v_tl (pop_var t v) = None \<longleftrightarrow> v_tl v = None"
  by (simp_all add: push_var_def pop_var_def)

lemma push_bindings_Inr:
  "push_bindings t x v = Inr v' \<Longrightarrow> v' = push_var t x v \<and> v_dynamic v \<and> v_tl v \<noteq> None"
  by (auto simp: push_bindings_def push_var_def rbind_eq_Inr_iff split: option.splits if_splits)

lemma pop_bindings_stack:
  "v_dynamic v \<Longrightarrow> v_tl v \<noteq> None \<Longrightarrow> stack t v \<noteq> [] \<Longrightarrow> pop_bindings t v = Inr (pop_var t v, hd (stack t v))"
  by (auto simp: pop_bindings_def pop_var_def stack_def split: list.splits)

text \<open>Pushing bindings on some Vars, all of them or up to the first that refuses.\<close>

definition pushed_vars ::
  "thread \<Rightarrow> (nat \<times> 'v vval) list \<Rightarrow> (nat \<Rightarrow> ('v, 'm) var) \<Rightarrow> nat \<Rightarrow> ('v, 'm) var" where
  "pushed_vars t m vars i = (case map_of m i of None \<Rightarrow> vars i | Some x \<Rightarrow> push_var t x (vars i))"

definition popped_vars :: "thread \<Rightarrow> nat list \<Rightarrow> (nat \<Rightarrow> ('v, 'm) var) \<Rightarrow> nat \<Rightarrow> ('v, 'm) var" where
  "popped_vars t is vars i = (if i \<in> set is then pop_var t (vars i) else vars i)"

lemma pushed_vars_Cons:
  assumes "map_of m i = None"
  shows "pushed_vars t m (vars(i := push_var t x (vars i))) = pushed_vars t ((i, x) # m) vars"
proof
  show "pushed_vars t m (vars(i := push_var t x (vars i))) j = pushed_vars t ((i, x) # m) vars j" for j
    using assms by (cases "j = i"; cases "map_of m j") (auto simp: pushed_vars_def)
qed

lemma pushed_vars_Nil [simp]: "pushed_vars t [] vars = vars"
  by (simp add: pushed_vars_def fun_eq_iff)

lemma push_all_prefix:
  assumes "push_all t m vars ps = (vars', ps', r)" "distinct (map fst m)"
  shows "\<exists>n. vars' = pushed_vars t (take n m) vars \<and> ps' = ps @ map fst (take n m) \<and> n \<le> length m \<and>
     (r = Inr () \<longrightarrow> n = length m) \<and> (\<forall>p\<in>set (take n m). v_dynamic (vars (fst p)) \<and> v_tl (vars (fst p)) \<noteq> None)"
  using assms
proof (induction m arbitrary: vars ps)
  case Nil
  then show ?case by simp
next
  case (Cons p m)
  obtain i x where p: "p = (i, x)" by (cases p)
  show ?case
  proof (cases "push_bindings t x (vars i)")
    case (Inl e)
    then show ?thesis using Cons.prems by (intro exI [of _ 0]) (auto simp: p)
  next
    case (Inr v)
    have v: "v = push_var t x (vars i)" "v_dynamic (vars i)" "v_tl (vars i) \<noteq> None" using push_bindings_Inr [OF Inr] by auto
    have none: "map_of m i = None" using Cons.prems(2) by (simp add: p map_of_eq_None_iff)
    have "push_all t m (vars(i := v)) (ps @ [i]) = (vars', ps', r)" "distinct (map fst m)"
      using Cons.prems Inr by (simp_all add: p)
    from Cons.IH [OF this] obtain n where n: "vars' = pushed_vars t (take n m) (vars(i := v))"
      "ps' = (ps @ [i]) @ map fst (take n m)" "n \<le> length m" "r = Inr () \<longrightarrow> n = length m"
      "\<forall>p\<in>set (take n m). v_dynamic ((vars(i := v)) (fst p)) \<and> v_tl ((vars(i := v)) (fst p)) \<noteq> None"
      by (elim exE conjE) (rule that)
    have "map_of (take n m) i = None" using none by (auto simp: map_of_eq_None_iff dest: in_set_takeD)
    then have "vars' = pushed_vars t (take (Suc n) (p # m)) vars"
      using n(1) v(1) by (simp add: p pushed_vars_Cons)
    moreover have "\<forall>p\<in>set (take (Suc n) (p # m)). v_dynamic (vars (fst p)) \<and> v_tl (vars (fst p)) \<noteq> None"
      using n(5) v by (auto simp: p split: if_splits)
    ultimately show ?thesis using n by (intro exI [of _ "Suc n"]) (auto simp: p)
  qed
qed

text \<open>Whether a pop of all of these Vars goes through.\<close>

definition poppable :: "thread \<Rightarrow> (nat \<Rightarrow> ('v, 'm) var) \<Rightarrow> nat \<Rightarrow> bool" where
  "poppable t vars i \<longleftrightarrow> v_dynamic (vars i) \<and> v_tl (vars i) \<noteq> None \<and> stack t (vars i) \<noteq> []"

lemma pop_all_popped:
  "distinct is \<Longrightarrow> \<forall>i\<in>set is. poppable t vars i \<Longrightarrow> pop_all t is vars = (popped_vars t is vars, Inr ())"
proof (induction "is" arbitrary: vars)
  case Nil
  then show ?case by (simp add: popped_vars_def fun_eq_iff)
next
  case (Cons i "is")
  have "pop_bindings t (vars i) = Inr (pop_var t (vars i), hd (stack t (vars i)))"
    using Cons.prems(2) by (simp add: poppable_def pop_bindings_stack)
  moreover have "pop_all t is (vars(i := pop_var t (vars i))) = (popped_vars t is (vars(i := pop_var t (vars i))), Inr ())"
    using Cons.prems by (intro Cons.IH) (auto simp: poppable_def)
  moreover have "popped_vars t is (vars(i := pop_var t (vars i))) = popped_vars t (i # is) vars"
    using Cons.prems(1) by (auto simp: popped_vars_def fun_eq_iff)
  ultimately show ?case by simp
qed

lemma popped_vars_perm: "set is = set js \<Longrightarrow> popped_vars t is vars = popped_vars t js vars"
  by (simp add: popped_vars_def fun_eq_iff)

lemma popped_pushed: "popped_vars t (map fst m) (pushed_vars t m vars) = vars"
proof
  show "popped_vars t (map fst m) (pushed_vars t m vars) i = vars i" for i
  proof (cases "map_of m i")
    case None
    then show ?thesis using map_of_eq_None_iff [of m i] by (simp add: popped_vars_def pushed_vars_def)
  next
    case (Some x)
    then have "i \<in> fst ` set m" using map_of_eq_None_iff [of m i] by auto
    with Some show ?thesis by (simp add: popped_vars_def pushed_vars_def)
  qed
qed

lemma poppable_pushed:
  assumes "\<forall>p\<in>set m. v_dynamic (vars (fst p)) \<and> v_tl (vars (fst p)) \<noteq> None" "i \<in> set (map fst m)"
  shows "poppable t (pushed_vars t m vars) i"
proof -
  obtain x where x: "map_of m i = Some x" using assms(2) by (cases "map_of m i") (auto simp: map_of_eq_None_iff)
  have "v_dynamic (vars i)" "v_tl (vars i) \<noteq> None" using assms by auto
  then show ?thesis by (simp add: poppable_def pushed_vars_def x stack_push_var)
qed

lemma setord_facts:
  assumes "rt_env_ok E"
  shows "set (e_setord E is) = set is" "distinct (e_setord E is) = distinct is"
proof -
  have "mset (e_setord E is) = mset is" using assms by (simp add: rt_env_ok_def)
  then show "set (e_setord E is) = set is" "distinct (e_setord E is) = distinct is"
    by (auto dest: mset_eq_setD mset_eq_imp_distinct_iff)
qed

lemma exit_enter_context [simp]: "exit_context t c (enter_context t c cs) = cs"
  by (cases c) (simp_all add: exit_context_def enter_context_def)

text \<open>What a push that raises, and one that returns, does.\<close>

lemma push_thread_raises:
  assumes "rt_env_ok E" "distinct (map fst m)" "rt_step E (Push t m) w = (w', Inl e)"
  shows "w' = w"
proof -
  obtain vars ps r where all: "push_all t m (rt_vars w) [] = (vars, ps, r)" by (metis prod_cases3)
  obtain n where n: "vars = pushed_vars t (take n m) (rt_vars w)" "ps = map fst (take n m)"
    "\<forall>p\<in>set (take n m). v_dynamic (rt_vars w (fst p)) \<and> v_tl (rt_vars w (fst p)) \<noteq> None"
    using push_all_prefix [OF all assms(2)] by auto
  have d: "distinct (e_setord E ps)" and s: "set (e_setord E ps) = set ps"
    using setord_facts [OF assms(1), of ps] assms(2) by (auto simp: n(2) take_map [symmetric])
  have "pop_all t (e_setord E ps) vars = (popped_vars t (e_setord E ps) vars, Inr ())"
  proof (rule pop_all_popped [OF d], rule ballI)
    fix i
    assume i: "i \<in> set (e_setord E ps)"
    have "set (e_setord E ps) = set (map fst (take n m))" unfolding s by (simp add: n(2))
    with i have "i \<in> set (map fst (take n m))" by blast
    then show "poppable t vars i" unfolding n(1) by (rule poppable_pushed [OF n(3)])
  qed
  also have "popped_vars t (e_setord E ps) vars = rt_vars w"
    unfolding popped_vars_perm [OF s] n(1) unfolding n(2) by (rule popped_pushed)
  finally show ?thesis
    using assms(3) all
    by (cases r) (auto simp: push_thread_bindings_def Let_def split: if_splits sum.splits)
qed

lemma push_thread_returns:
  assumes "distinct (map fst m)" "rt_step E (Push t m) w = (w', Inr ())"
  shows "\<exists>c. w' = w\<lparr>rt_vars := pushed_vars t m (rt_vars w),
      rt_frames := (rt_frames w)(t := (map fst m, c) # rt_frames w t),
      rt_contexts := enter_context t c (rt_contexts w)\<rparr> \<and>
    (\<forall>p\<in>set m. v_dynamic (rt_vars w (fst p)) \<and> v_tl (rt_vars w (fst p)) \<noteq> None)"
proof -
  obtain vars ps r where all: "push_all t m (rt_vars w) [] = (vars, ps, r)" by (metis prod_cases3)
  have r: "r = Inr ()"
    using assms(2) all by (auto simp: push_thread_bindings_def Let_def split: if_splits sum.splits prod.splits)
  obtain c where c: "frame_context (e_mc E) (e_localcontext E) m = Inr c"
    using assms(2) by (auto simp: push_thread_bindings_def split: if_splits sum.splits)
  have "vars = pushed_vars t m (rt_vars w)" "ps = map fst m"
    "\<forall>p\<in>set m. v_dynamic (rt_vars w (fst p)) \<and> v_tl (rt_vars w (fst p)) \<noteq> None"
    using push_all_prefix [OF all assms(1)] r by auto
  then show ?thesis
    using assms(2) all r c by (auto simp: push_thread_bindings_def Let_def split: if_splits)
qed


section \<open>Balance\<close>

text \<open>
  Of every thread, a Var has at least as many bindings as there are frames that bind it; it can have one
  more, which \<open>set!\<close> made outside of any frame.
\<close>

definition frame_count :: "nat \<Rightarrow> (nat list \<times> 'c option) list \<Rightarrow> nat" where
  "frame_count i frames = length (filter (\<lambda>f. i \<in> set (fst f)) frames)"

lemma frame_count_simps [simp]:
  "frame_count i [] = 0"
  "frame_count i (f # fs) = (if i \<in> set (fst f) then Suc (frame_count i fs) else frame_count i fs)"
  "frame_count i (fs @ gs) = frame_count i fs + frame_count i gs"
  by (simp_all add: frame_count_def)

definition balanced :: "('v, 'm, 'c) runtime \<Rightarrow> bool" where
  "balanced w \<longleftrightarrow>
     (\<forall>i. v_dynamic (rt_vars w i) \<longleftrightarrow> v_tl (rt_vars w i) \<noteq> None) \<and>
     (\<forall>t. \<forall>f\<in>set (rt_frames w t). distinct (fst f) \<and> (\<forall>i\<in>set (fst f). v_dynamic (rt_vars w i))) \<and>
     (\<forall>t i. frame_count i (rt_frames w t) \<le> length (stack t (rt_vars w i)))"

lemma balancedD:
  assumes "balanced w"
  shows "v_dynamic (rt_vars w i) \<longleftrightarrow> v_tl (rt_vars w i) \<noteq> None"
    and "f \<in> set (rt_frames w t) \<Longrightarrow> distinct (fst f)"
    and "f \<in> set (rt_frames w t) \<Longrightarrow> i \<in> set (fst f) \<Longrightarrow> v_dynamic (rt_vars w i)"
    and "frame_count i (rt_frames w t) \<le> length (stack t (rt_vars w i))"
  using assms unfolding balanced_def by blast+

lemma balancedI:
  assumes "\<And>i. v_dynamic (rt_vars w i) \<longleftrightarrow> v_tl (rt_vars w i) \<noteq> None"
    and "\<And>t f. f \<in> set (rt_frames w t) \<Longrightarrow> distinct (fst f)"
    and "\<And>t f i. f \<in> set (rt_frames w t) \<Longrightarrow> i \<in> set (fst f) \<Longrightarrow> v_dynamic (rt_vars w i)"
    and "\<And>t i. frame_count i (rt_frames w t) \<le> length (stack t (rt_vars w i))"
  shows "balanced w"
  using assms unfolding balanced_def by blast

lemma pop_thread_step:
  assumes "rt_env_ok E" "balanced w" "rt_frames w t = (frame, c) # frames"
  shows "rt_step E (Pop t) w = (w\<lparr>rt_vars := popped_vars t frame (rt_vars w), rt_frames := (rt_frames w)(t := frames),
      rt_contexts := exit_context t c (rt_contexts w)\<rparr>, Inr ())"
proof -
  have f: "(frame, c) \<in> set (rt_frames w t)" using assms(3) by simp
  have "pop_all t (e_setord E frame) (rt_vars w) = (popped_vars t (e_setord E frame) (rt_vars w), Inr ())"
  proof (rule pop_all_popped)
    show "distinct (e_setord E frame)" using setord_facts(2) [OF assms(1)] balancedD(2) [OF assms(2) f] by simp
    show "\<forall>i\<in>set (e_setord E frame). poppable t (rt_vars w) i"
    proof (rule ballI)
      fix i
      assume "i \<in> set (e_setord E frame)"
      then have i: "i \<in> set frame" using setord_facts(1) [OF assms(1)] by blast
      then have "v_dynamic (rt_vars w i)" using balancedD(3) [OF assms(2) f] by simp
      moreover have "stack t (rt_vars w i) \<noteq> []"
        using balancedD(4) [OF assms(2), of i t] i by (cases "stack t (rt_vars w i)") (simp_all add: assms(3))
      ultimately show "poppable t (rt_vars w) i"
        using balancedD(1) [OF assms(2), of i] by (simp add: poppable_def)
    qed
  qed
  also have "popped_vars t (e_setord E frame) (rt_vars w) = popped_vars t frame (rt_vars w)"
    by (rule popped_vars_perm) (rule setord_facts(1) [OF assms(1)])
  finally show ?thesis by (simp add: pop_thread_bindings_def assms(3))
qed

text \<open>Setting the value or the root of a Var: what the stacks of threads become.\<close>

lemma set_root_fields:
  "set_root word x v = (v', r) \<Longrightarrow> v_dynamic v' = v_dynamic v \<and> v_tl v' = v_tl v"
  by (auto simp: set_root_def split: sum.splits)

lemma bind_root_fields:
  "bind_root word x v = (v', r) \<Longrightarrow> v_dynamic v' = v_dynamic v \<and> v_tl v' = v_tl v"
  by (auto simp: bind_root_def split: prod.splits dest: set_root_fields)

lemma alter_root_fields:
  "alter_root word f v = (v', r) \<Longrightarrow> v_dynamic v' = v_dynamic v \<and> v_tl v' = v_tl v"
  by (auto simp: alter_root_def split: sum.splits dest: set_root_fields)

lemma set_value_fields:
  assumes "set_value word t x v = (v', r)"
  shows "v_dynamic v' = v_dynamic v \<and> (v_tl v' = None \<longleftrightarrow> v_tl v = None) \<and>
    (\<forall>t'. t' \<noteq> t \<longrightarrow> stack t' v' = stack t' v) \<and>
    (stack t v \<noteq> [] \<longrightarrow> stack t v' \<noteq> [] \<and> tl (stack t v') = tl (stack t v))"
proof (cases "v_dynamic v")
  case True
  then show ?thesis
    using assms
    by (auto simp: set_value_def stack_def split: sum.splits option.splits list.splits
        dest!: push_bindings_Inr) (auto simp: push_var_def)
next
  case False
  then show ?thesis using assms bind_root_fields by (fastforce simp: set_value_def stack_def)
qed

lemma stack_pushed_vars:
  assumes "\<forall>p\<in>set m. v_tl (vars (fst p)) \<noteq> None"
  shows "stack t' (pushed_vars t m vars i) =
    (case map_of m i of Some x \<Rightarrow> if t' = t then x # stack t (vars i) else stack t' (vars i) | None \<Rightarrow> stack t' (vars i))"
proof (cases "map_of m i")
  case (Some x)
  then have "v_tl (vars i) \<noteq> None" using assms by (metis fst_conv map_of_SomeD)
  with Some show ?thesis by (simp add: pushed_vars_def stack_push_var)
qed (simp add: pushed_vars_def)

lemma stack_popped_vars:
  "stack t' (popped_vars t is vars i) = (if t' = t \<and> i \<in> set is then tl (stack t (vars i)) else stack t' (vars i))"
  by (simp add: popped_vars_def stack_pop_var)

lemma vars_fields [simp]:
  "v_dynamic (pushed_vars t m vars i) = v_dynamic (vars i)" "v_tl (pushed_vars t m vars i) = None \<longleftrightarrow> v_tl (vars i) = None"
  "v_dynamic (popped_vars t is vars i) = v_dynamic (vars i)" "v_tl (popped_vars t is vars i) = None \<longleftrightarrow> v_tl (vars i) = None"
  by (simp_all add: pushed_vars_def popped_vars_def split: option.splits)


text \<open>Every event that is no change of dynamic keeps balance.\<close>

lemma balanced_update:
  assumes "balanced w" "v_dynamic v = v_dynamic (rt_vars w i)" "v_tl v = None \<longleftrightarrow> v_tl (rt_vars w i) = None"
    and "\<And>t. length (stack t (rt_vars w i)) \<le> length (stack t v)"
  shows "balanced (w\<lparr>rt_vars := (rt_vars w)(i := v)\<rparr>)"
proof -
  have d: "v_dynamic (((rt_vars w)(i := v)) j) = v_dynamic (rt_vars w j)"
    "v_tl (((rt_vars w)(i := v)) j) = None \<longleftrightarrow> v_tl (rt_vars w j) = None" for j
    using assms(2,3) by auto
  have "frame_count j (rt_frames w t) \<le> length (stack t (((rt_vars w)(i := v)) j))" for t j
    using balancedD(4) [OF assms(1), of j t] assms(4) [of t] by (cases "j = i") auto
  then show ?thesis
    using balancedD [OF assms(1)] by (intro balancedI) (simp_all add: d del: fun_upd_apply)
qed

lemma balanced_push:
  assumes "balanced w" "\<forall>p\<in>set m. v_dynamic (rt_vars w (fst p)) \<and> v_tl (rt_vars w (fst p)) \<noteq> None"
    "distinct (map fst m)"
  shows "balanced (w\<lparr>rt_vars := pushed_vars t m (rt_vars w),
      rt_frames := (rt_frames w)(t := (map fst m, c) # rt_frames w t), rt_contexts := cs\<rparr>)"
proof -
  have tl: "\<forall>p\<in>set m. v_tl (rt_vars w (fst p)) \<noteq> None" using assms(2) by blast
  have "frame_count i (((rt_frames w)(t := (map fst m, c) # rt_frames w t)) t') \<le>
      length (stack t' (pushed_vars t m (rt_vars w) i))" for i t'
    using balancedD(4) [OF assms(1), of i t'] map_of_eq_None_iff [of m i]
    by (auto simp: stack_pushed_vars [OF tl] split: option.splits)
  then show ?thesis
    using balancedD(1-3) [OF assms(1)] assms(2,3) by (intro balancedI) (auto split: if_splits)
qed

lemma balanced_pop:
  assumes "balanced w" "rt_frames w t = (frame, c) # frames"
  shows "balanced (w\<lparr>rt_vars := popped_vars t frame (rt_vars w), rt_frames := (rt_frames w)(t := frames), rt_contexts := cs\<rparr>)"
proof -
  have "frame_count i (((rt_frames w)(t := frames)) t') \<le> length (stack t' (popped_vars t frame (rt_vars w) i))" for i t'
    using balancedD(4) [OF assms(1), of i t'] by (auto simp: stack_popped_vars assms(2))
  moreover have sub: "f \<in> set (rt_frames w t')" if "f \<in> set (((rt_frames w)(t := frames)) t')" for f t'
    using that by (auto simp: assms(2) split: if_splits)
  ultimately show ?thesis
    using balancedD(1) [OF assms(1)] balancedD(2,3) [OF assms(1) sub]
    by (intro balancedI) (simp_all del: fun_upd_apply)
qed

lemma rt_step_balanced:
  assumes E: "rt_env_ok E" and e: "plain_event e" and w: "balanced w"
  shows "balanced (fst (rt_step E e w))"
proof (cases e)
  case (Push t m)
  obtain w' r where s: "rt_step E (Push t m) w = (w', r)" by fastforce
  have d: "distinct (map fst m)" using e Push by simp
  show ?thesis
  proof (cases r)
    case (Inl x)
    with s have "rt_step E (Push t m) w = (w', Inl x)" by simp
    from push_thread_raises [OF E d this] show ?thesis using s w Push by simp
  next
    case (Inr u)
    then have s': "rt_step E (Push t m) w = (w', Inr ())" using s by simp
    from push_thread_returns [OF d s'] obtain c where
      "w' = w\<lparr>rt_vars := pushed_vars t m (rt_vars w), rt_frames := (rt_frames w)(t := (map fst m, c) # rt_frames w t),
         rt_contexts := enter_context t c (rt_contexts w)\<rparr>"
      "\<forall>p\<in>set m. v_dynamic (rt_vars w (fst p)) \<and> v_tl (rt_vars w (fst p)) \<noteq> None" by blast
    then show ?thesis using balanced_push [OF w _ d] s' Push by simp
  qed
next
  case (Pop t)
  show ?thesis
  proof (cases "rt_frames w t")
    case Nil
    then show ?thesis using w Pop by (simp add: pop_thread_bindings_def)
  next
    case (Cons f frames)
    obtain frame c where "f = (frame, c)" by (cases f)
    then show ?thesis using pop_thread_step [OF E w] balanced_pop [OF w] Cons Pop by (simp del: rt_step.simps)
  qed
next
  case (SetValue t i x)
  obtain v r where v: "set_value (e_word E) t x (rt_vars w i) = (v, r)" by fastforce
  have f: "v_dynamic v = v_dynamic (rt_vars w i)" "v_tl v = None \<longleftrightarrow> v_tl (rt_vars w i) = None"
    and others: "\<forall>t'. t' \<noteq> t \<longrightarrow> stack t' v = stack t' (rt_vars w i)"
    and top: "stack t (rt_vars w i) \<noteq> [] \<longrightarrow>
      stack t v \<noteq> [] \<and> tl (stack t v) = tl (stack t (rt_vars w i))" using set_value_fields [OF v] by blast+
  have "length (stack t (rt_vars w i)) \<le> length (stack t v)"
    using top by (cases "stack t (rt_vars w i)"; cases "stack t v") auto
  then have "length (stack t' (rt_vars w i)) \<le> length (stack t' v)" for t'
    using others by (cases "t' = t") auto
  from balanced_update [OF w f this] show ?thesis using v SetValue by simp
next
  case (BindRoot i x)
  obtain v r where v: "bind_root (e_word E) x (rt_vars w i) = (v, r)" by fastforce
  from bind_root_fields [OF v] balanced_update [OF w, of v i] show ?thesis
    using v BindRoot by (simp add: stack_def)
next
  case (AlterRoot i f)
  obtain v r where v: "alter_root (e_word E) f (rt_vars w i) = (v, r)" by fastforce
  from alter_root_fields [OF v] balanced_update [OF w, of v i] show ?thesis
    using v AlterRoot by (simp add: stack_def)
next
  case (SetDynamic i b)
  then show ?thesis using e by simp
qed

lemma rt_run_balanced:
  "rt_env_ok E \<Longrightarrow> list_all plain_event es \<Longrightarrow> balanced w \<Longrightarrow> balanced (rt_run E es w)"
  by (induction es arbitrary: w) (simp_all add: rt_step_balanced)


section \<open>Isolation\<close>

fun event_thread :: "'v event \<Rightarrow> thread option" where
  "event_thread (Push t m) = Some t"
| "event_thread (Pop t) = Some t"
| "event_thread (SetValue t i x) = Some t"
| "event_thread _ = None"

text \<open>What one thread sees of its bindings.\<close>

definition view :: "thread \<Rightarrow> ('v, 'm, 'c) runtime \<Rightarrow> (nat list \<times> 'c option) list \<times> 'c list \<times> (nat \<Rightarrow> 'v vval list)" where
  "view t w = (rt_frames w t, rt_contexts w t, \<lambda>i. stack t (rt_vars w i))"

lemma view_eqI:
  "rt_frames w' t = rt_frames w t \<Longrightarrow> rt_contexts w' t = rt_contexts w t \<Longrightarrow>
   (\<And>i. stack t (rt_vars w' i) = stack t (rt_vars w i)) \<Longrightarrow> view t w' = view t w"
  by (simp add: view_def)

lemma enter_exit_other:
  "t' \<noteq> t \<Longrightarrow> enter_context t' c cs t = cs t" "t' \<noteq> t \<Longrightarrow> exit_context t' c cs t = cs t"
  by (simp_all add: enter_context_def exit_context_def split: option.splits)

lemma var_update_view:
  "stack t v = stack t (rt_vars w i) \<Longrightarrow> view t (w\<lparr>rt_vars := (rt_vars w)(i := v)\<rparr>) = view t w"
  by (rule view_eqI) simp_all

lemma rt_step_other:
  assumes E: "rt_env_ok E" and e: "plain_event e" and w: "balanced w" and t: "event_thread e \<noteq> Some t"
  shows "view t (fst (rt_step E e w)) = view t w"
proof (cases e)
  case (Push t' m)
  have t': "t' \<noteq> t" and d: "distinct (map fst m)" using e t Push by auto
  obtain w' r where s: "rt_step E (Push t' m) w = (w', r)" by fastforce
  show ?thesis
  proof (cases r)
    case (Inl x)
    with s have "rt_step E (Push t' m) w = (w', Inl x)" by simp
    from push_thread_raises [OF E d this] show ?thesis using s Push by simp
  next
    case (Inr u)
    then have s': "rt_step E (Push t' m) w = (w', Inr ())" using s by simp
    from push_thread_returns [OF d s'] obtain c where
      w': "w' = w\<lparr>rt_vars := pushed_vars t' m (rt_vars w), rt_frames := (rt_frames w)(t' := (map fst m, c) # rt_frames w t'),
         rt_contexts := enter_context t' c (rt_contexts w)\<rparr>"
      and v: "\<forall>p\<in>set m. v_dynamic (rt_vars w (fst p)) \<and> v_tl (rt_vars w (fst p)) \<noteq> None" by blast
    have "stack t (pushed_vars t' m (rt_vars w) i) = stack t (rt_vars w i)" for i
      using v t' by (subst stack_pushed_vars) (auto split: option.splits)
    then have "view t w' = view t w" unfolding w' by (intro view_eqI) (simp_all add: t' [symmetric] enter_exit_other [OF t'])
    then show ?thesis using s' Push by simp
  qed
next
  case (Pop t')
  have t': "t' \<noteq> t" using t Pop by auto
  show ?thesis
  proof (cases "rt_frames w t'")
    case Nil
    then show ?thesis using Pop by (simp add: pop_thread_bindings_def)
  next
    case (Cons f frames)
    obtain frame c where f: "f = (frame, c)" by (cases f)
    have "stack t (popped_vars t' frame (rt_vars w) i) = stack t (rt_vars w i)" for i
      using t' by (simp add: stack_popped_vars)
    then have "view t (w\<lparr>rt_vars := popped_vars t' frame (rt_vars w), rt_frames := (rt_frames w)(t' := frames),
        rt_contexts := exit_context t' c (rt_contexts w)\<rparr>) = view t w"
      by (intro view_eqI) (simp_all add: t' [symmetric] enter_exit_other [OF t'])
    then show ?thesis using pop_thread_step [OF E w, of t' frame c frames] Cons f Pop by (simp del: rt_step.simps)
  qed
next
  case (SetValue t' i x)
  obtain v r where v: "set_value (e_word E) t' x (rt_vars w i) = (v, r)" by fastforce
  have "stack t v = stack t (rt_vars w i)" using set_value_fields [OF v] t SetValue by auto
  then show ?thesis using v SetValue by (simp add: var_update_view)
next
  case (BindRoot i x)
  obtain v r where v: "bind_root (e_word E) x (rt_vars w i) = (v, r)" by fastforce
  from bind_root_fields [OF v] show ?thesis using v BindRoot by (simp add: var_update_view stack_def)
next
  case (AlterRoot i f)
  obtain v r where v: "alter_root (e_word E) f (rt_vars w i) = (v, r)" by fastforce
  from alter_root_fields [OF v] show ?thesis using v AlterRoot by (simp add: var_update_view stack_def)
next
  case (SetDynamic i b)
  then show ?thesis using e by simp
qed

section \<open>Restoring bindings\<close>

definition entered :: "(nat list \<times> 'c option) list \<Rightarrow> 'c list" where
  "entered frames = concat (map (\<lambda>f. case snd f of None \<Rightarrow> [] | Some c \<Rightarrow> [c]) frames)"

lemma entered_simps [simp]:
  "entered [] = []" "entered (f # fs) = (case snd f of None \<Rightarrow> [] | Some c \<Rightarrow> [c]) @ entered fs"
  by (simp_all add: entered_def)

text \<open>
  The thread is inside the frame it pushed on \<open>w0\<close>: it has pushed other frames \<open>new\<close> since, and of every
  Var of the frame it has one binding for each of them, that of the frame, and those it had before.
\<close>

definition inside ::
  "thread \<Rightarrow> ('v, 'm, 'c) runtime \<Rightarrow> (nat list \<times> 'c option) \<Rightarrow> ('v, 'm, 'c) runtime \<Rightarrow>
   (nat list \<times> 'c option) list \<Rightarrow> bool"
where
  "inside t w0 f w new \<longleftrightarrow>
     rt_frames w t = new @ f # rt_frames w0 t \<and>
     rt_contexts w t = entered new @ entered [f] @ rt_contexts w0 t \<and>
     (\<forall>i\<in>set (fst f). \<exists>extra y. stack t (rt_vars w i) = extra @ y # stack t (rt_vars w0 i) \<and>
        length extra = frame_count i new)"

lemma inside_view: "view t w' = view t w \<Longrightarrow> inside t w0 f w new \<Longrightarrow> inside t w0 f w' new"
  by (simp add: inside_def view_def fun_eq_iff)

lemma enter_same: "enter_context t c cs t = (case c of None \<Rightarrow> [] | Some x \<Rightarrow> [x]) @ cs t"
  by (simp add: enter_context_def split: option.splits)

lemma exit_same: "exit_context t c cs t = (case c of None \<Rightarrow> cs t | Some _ \<Rightarrow> tl (cs t))"
  by (simp add: exit_context_def split: option.splits)

lemma inside_push:
  assumes "inside t w0 f w new" "\<forall>p\<in>set m. v_tl (rt_vars w (fst p)) \<noteq> None"
  shows "inside t w0 f (w\<lparr>rt_vars := pushed_vars t m (rt_vars w),
      rt_frames := (rt_frames w)(t := (map fst m, c) # rt_frames w t),
      rt_contexts := enter_context t c (rt_contexts w)\<rparr>) ((map fst m, c) # new)"
proof -
  have "\<exists>extra y. stack t (pushed_vars t m (rt_vars w) i) = extra @ y # stack t (rt_vars w0 i) \<and>
      length extra = frame_count i ((map fst m, c) # new)" if "i \<in> set (fst f)" for i
  proof -
    obtain extra y where s: "stack t (rt_vars w i) = extra @ y # stack t (rt_vars w0 i)"
      "length extra = frame_count i new" using assms(1) \<open>i \<in> set (fst f)\<close> unfolding inside_def by blast
    show ?thesis
    proof (cases "map_of m i")
      case None
      then have "i \<notin> fst ` set m" by (simp add: map_of_eq_None_iff)
      with None s show ?thesis
        by (intro exI [of _ extra] exI [of _ y]) (simp add: stack_pushed_vars [OF assms(2)])
    next
      case (Some x)
      then have "i \<in> fst ` set m" using map_of_eq_None_iff [of m i] by auto
      with Some s show ?thesis
        by (intro exI [of _ "x # extra"] exI [of _ y]) (simp add: stack_pushed_vars [OF assms(2)])
    qed
  qed
  then show ?thesis using assms(1) unfolding inside_def by (simp add: enter_same)
qed

lemma inside_pop:
  assumes "inside t w0 f w ((frame, c) # new)"
  shows "inside t w0 f (w\<lparr>rt_vars := popped_vars t frame (rt_vars w), rt_frames := (rt_frames w)(t := new @ f # rt_frames w0 t),
      rt_contexts := exit_context t c (rt_contexts w)\<rparr>) new"
proof -
  have "\<exists>extra y. stack t (popped_vars t frame (rt_vars w) i) = extra @ y # stack t (rt_vars w0 i) \<and>
      length extra = frame_count i new" if "i \<in> set (fst f)" for i
  proof -
    obtain extra y where s: "stack t (rt_vars w i) = extra @ y # stack t (rt_vars w0 i)"
      "length extra = frame_count i ((frame, c) # new)" using assms(1) \<open>i \<in> set (fst f)\<close> unfolding inside_def by blast
    show ?thesis
    proof (cases "i \<in> set frame")
      case True
      with s(2) obtain e extra' where "extra = e # extra'" by (cases extra) auto
      with True s show ?thesis by (intro exI [of _ extra'] exI [of _ y]) (simp add: stack_popped_vars)
    next
      case False
      with s show ?thesis by (intro exI [of _ extra] exI [of _ y]) (simp add: stack_popped_vars)
    qed
  qed
  then show ?thesis using assms(1) unfolding inside_def by (simp add: exit_same split: option.splits)
qed

lemma inside_set:
  assumes "inside t w0 f w new" "set_value word t x (rt_vars w i) = (v, r)"
  shows "inside t w0 f (w\<lparr>rt_vars := (rt_vars w)(i := v)\<rparr>) new"
proof -
  have "\<exists>extra y. stack t (((rt_vars w)(i := v)) j) = extra @ y # stack t (rt_vars w0 j) \<and>
      length extra = frame_count j new" if "j \<in> set (fst f)" for j
  proof -
    obtain extra y where s: "stack t (rt_vars w j) = extra @ y # stack t (rt_vars w0 j)"
      "length extra = frame_count j new" using assms(1) \<open>j \<in> set (fst f)\<close> unfolding inside_def by blast
    show ?thesis
    proof (cases "j = i")
      case True
      then have top: "stack t v \<noteq> []" "tl (stack t v) = tl (stack t (rt_vars w j))"
        using set_value_fields [OF assms(2)] s by auto
      show ?thesis
      proof (cases extra)
        case Nil
        with top s True have "stack t v = [] @ hd (stack t v) # stack t (rt_vars w0 j)" by (cases "stack t v") auto
        with Nil s True show ?thesis by (metis fun_upd_same)
      next
        case (Cons e extra')
        with top s True have "stack t v = (hd (stack t v) # extra') @ y # stack t (rt_vars w0 j)"
          by (cases "stack t v") auto
        with Cons s True show ?thesis by (metis fun_upd_same length_Cons)
      qed
    next
      case False
      with s show ?thesis by auto
    qed
  qed
  then show ?thesis using assms(1) unfolding inside_def by simp
qed


lemma inside_step:
  assumes E: "rt_env_ok E" and e: "plain_event e" and w: "balanced w" and i: "inside t w0 f w new"
    and above: "length (rt_frames w0 t) < length (rt_frames (fst (rt_step E e w)) t)"
  shows "\<exists>new'. inside t w0 f (fst (rt_step E e w)) new'"
proof (cases "event_thread e = Some t")
  case False
  then show ?thesis using inside_view [OF rt_step_other [OF E e w] i] by blast
next
  case True
  then show ?thesis
  proof (cases e)
    case (Push t' m)
    then have e': "e = Push t m" and d: "distinct (map fst m)" using e True by auto
    obtain w' r where s: "rt_step E (Push t m) w = (w', r)" by fastforce
    show ?thesis
    proof (cases r)
      case (Inl x)
      with s have "rt_step E (Push t m) w = (w', Inl x)" by simp
      from push_thread_raises [OF E d this] show ?thesis using s e' i by auto
    next
      case (Inr u)
      then have s': "rt_step E (Push t m) w = (w', Inr ())" using s by simp
      from push_thread_returns [OF d s'] obtain c where
        w': "w' = w\<lparr>rt_vars := pushed_vars t m (rt_vars w), rt_frames := (rt_frames w)(t := (map fst m, c) # rt_frames w t),
           rt_contexts := enter_context t c (rt_contexts w)\<rparr>"
        and "\<forall>p\<in>set m. v_tl (rt_vars w (fst p)) \<noteq> None" by blast
      from inside_push [OF i this(2), of c] show ?thesis unfolding e' s' fst_conv w' by (rule exI)
    qed
  next
    case (Pop t')
    then have e': "e = Pop t" using True by simp
    have frames: "rt_frames w t = new @ f # rt_frames w0 t" using i by (simp add: inside_def)
    show ?thesis
    proof (cases new)
      case Nil
      obtain frame c where f: "f = (frame, c)" by (cases f)
      have "rt_frames (fst (rt_step E e w)) t = rt_frames w0 t"
        using pop_thread_step [OF E w, of t frame c "rt_frames w0 t"] frames Nil f e' by simp
      then show ?thesis using above by simp
    next
      case (Cons g new')
      obtain frame c where g: "g = (frame, c)" by (cases g)
      have p: "rt_step E (Pop t) w = (w\<lparr>rt_vars := popped_vars t frame (rt_vars w),
          rt_frames := (rt_frames w)(t := new' @ f # rt_frames w0 t), rt_contexts := exit_context t c (rt_contexts w)\<rparr>, Inr ())"
        by (rule pop_thread_step [OF E w]) (simp add: frames Cons g)
      from inside_pop [OF i [unfolded Cons g]] show ?thesis unfolding e' p fst_conv by (rule exI)
    qed
  next
    case (SetValue t' j x)
    then have e': "e = SetValue t j x" using True by simp
    obtain v r where v: "set_value (e_word E) t x (rt_vars w j) = (v, r)" by fastforce
    from inside_set [OF i v] show ?thesis unfolding e' using v by auto
  qed (use True in auto)
qed

text \<open>The thread stays inside: it never pops the frame that was on top of \<open>n\<close> others.\<close>

fun stays_above :: "('v, 'c) rt_env \<Rightarrow> thread \<Rightarrow> nat \<Rightarrow> 'v event list \<Rightarrow> ('v, 'm, 'c) runtime \<Rightarrow> bool" where
  "stays_above E t n [] w = (n < length (rt_frames w t))"
| "stays_above E t n (e # es) w = (n < length (rt_frames w t) \<and> stays_above E t n es (fst (rt_step E e w)))"

lemma inside_run:
  assumes "rt_env_ok E" "list_all plain_event es" "balanced w" "inside t w0 f w new"
    "stays_above E t (length (rt_frames w0 t)) es w"
  shows "\<exists>new'. inside t w0 f (rt_run E es w) new'"
  using assms(2-)
proof (induction es arbitrary: w new)
  case Nil
  then show ?case by auto
next
  case (Cons e es)
  have above: "length (rt_frames w0 t) < length (rt_frames (fst (rt_step E e w)) t)"
    using Cons.prems(4) by (cases es) auto
  obtain new' where "inside t w0 f (fst (rt_step E e w)) new'"
    using inside_step [OF assms(1) _ Cons.prems(2,3) above] Cons.prems(1) by auto
  moreover have "balanced (fst (rt_step E e w))" using rt_step_balanced [OF assms(1) _ Cons.prems(2)] Cons.prems(1) by simp
  ultimately show ?case using Cons.IH Cons.prems(1,4) by simp
qed

text \<open>
  C22: bindings are restored. A thread pushes a frame of bindings; then any threads push, pop and set
  bindings and change roots, in any order (but no Var changes whether it is dynamic), and the thread
  itself is back at that frame without having popped it. Popping it then succeeds, and the thread has
  the frames and the decimal contexts it had before the push and, for each Var of the frame, the
  bindings it had before the push, whatever was set in between. The world before the push is any in
  which stacks and frames are in balance, as they are in every world such events lead to from a start
  without frames.
\<close>

theorem bindings_restored:
  assumes "rt_env_ok E" "balanced w0" "list_all plain_event (Push t m # es)"
    and push: "rt_step E (Push t m) w0 = (w1, Inr ())"
    and "stays_above E t (length (rt_frames w0 t)) es w1"
    and at_frame: "length (rt_frames (rt_run E es w1) t) = Suc (length (rt_frames w0 t))"
  shows "\<exists>w3. rt_step E (Pop t) (rt_run E es w1) = (w3, Inr ()) \<and>
    rt_frames w3 t = rt_frames w0 t \<and> rt_contexts w3 t = rt_contexts w0 t \<and>
    list_all (\<lambda>i. stack t (rt_vars w3 i) = stack t (rt_vars w0 i)) (map fst m)"
proof -
  have d: "distinct (map fst m)" and es: "list_all plain_event es" using assms(3) by auto
  obtain c where w1: "w1 = w0\<lparr>rt_vars := pushed_vars t m (rt_vars w0),
      rt_frames := (rt_frames w0)(t := (map fst m, c) # rt_frames w0 t),
      rt_contexts := enter_context t c (rt_contexts w0)\<rparr>"
    and v: "\<forall>p\<in>set m. v_tl (rt_vars w0 (fst p)) \<noteq> None"
    using push_thread_returns [OF d push] by blast
  have "inside t w0 (map fst m, c) w1 []"
    unfolding inside_def
  proof (intro conjI ballI)
    fix i
    assume "i \<in> set (fst (map fst m, c))"
    then obtain x where "map_of m i = Some x" using map_of_eq_None_iff [of m i] by (cases "map_of m i") auto
    then show "\<exists>extra y. stack t (rt_vars w1 i) = extra @ y # stack t (rt_vars w0 i) \<and> length extra = frame_count i []"
      by (intro exI [of _ "[]"] exI [of _ x]) (simp add: w1 stack_pushed_vars [OF v])
  qed (simp_all add: w1 enter_same)
  moreover have b1: "balanced w1" using rt_step_balanced [OF assms(1) _ assms(2), of "Push t m"] d push by simp
  ultimately obtain new where inside: "inside t w0 (map fst m, c) (rt_run E es w1) new"
    using inside_run [OF assms(1) es _ _ assms(5)] by blast
  then have "new = []" using at_frame by (simp add: inside_def)
  with inside have frames: "rt_frames (rt_run E es w1) t = (map fst m, c) # rt_frames w0 t"
    and contexts: "rt_contexts (rt_run E es w1) t = entered [(map fst m, c)] @ rt_contexts w0 t"
    and stacks: "\<And>i. i \<in> set (map fst m) \<Longrightarrow> \<exists>y. stack t (rt_vars (rt_run E es w1) i) = y # stack t (rt_vars w0 i)"
    by (auto simp: inside_def)
  have b: "balanced (rt_run E es w1)" by (rule rt_run_balanced [OF assms(1) es b1])
  have "stack t (popped_vars t (map fst m) (rt_vars (rt_run E es w1)) i) = stack t (rt_vars w0 i)"
    if "i \<in> set (map fst m)" for i
    using stacks [OF that] that by (auto simp: stack_popped_vars)
  then show ?thesis
    using pop_thread_step [OF assms(1) b frames] contexts
    by (auto simp: exit_same list_all_iff split: option.splits)
qed

text \<open>
  C23: threads are isolated. In a world in balance, what one thread pushes, pops or sets, and any change
  of a root, leaves the frames, the decimal contexts and the thread-local bindings of every other
  thread as they are, whether the operation returns or raises; and a push that raises leaves everything
  as it was. (Changing whether a Var is dynamic is no such operation: it drops the bindings of all
  threads.)
\<close>

theorem bindings_isolated:
  assumes "rt_env_ok E" "balanced w" "plain_event e"
  shows "(event_thread e \<noteq> Some t \<longrightarrow> view t (fst (rt_step E e w)) = view t w) \<and>
    (case (e, rt_step E e w) of (Push t' m, w', Inl x) \<Rightarrow> w' = w | _ \<Rightarrow> True)"
proof -
  have "w' = w" if "e = Push t' m" "rt_step E (Push t' m) w = (w', Inl x)" for t' m w' x
    using push_thread_raises [OF assms(1) _ that(2)] assms(3) that(1) by simp
  then show ?thesis
    using rt_step_other [OF assms(1,3,2)] by (cases e; cases "rt_step E e w"; cases "snd (rt_step E e w)") (auto simp del: rt_step.simps)
qed


section \<open>Examples\<close>

text \<open>All Vars are dynamic; Var 2 is \<open>*math-context*\<close>, and zero is no context.\<close>

definition test_rt_env :: "(int, int) rt_env" where
  "test_rt_env =
     \<lparr>e_setord = (\<lambda>is. is), e_mc = Some 2,
      e_localcontext = (\<lambda>x. case x of Bound n \<Rightarrow> if n = 0 then Inl TypeError else Inr (Some n) | Unbound _ \<Rightarrow> Inl TypeError),
      e_word = (\<lambda>ws. ws)\<rparr>"

definition test_rt :: "(int, unit, int) runtime" where
  "test_rt =
     \<lparr>rt_vars = (\<lambda>i. new_var (\<lambda>m. m) i True ()), rt_frames = (\<lambda>t. []), rt_contexts = (\<lambda>t. [])\<rparr>"

definition test_push :: "int event" where
  "test_push = Push 1 [(0, Bound 5), (2, Bound 6)]"

definition test_events :: "int event list" where
  "test_events = [SetValue 1 0 (Bound 7), Push 1 [(0, Bound 8)], BindRoot 2 (Bound 9), Pop 1]"

lemma test_rt_ok: "rt_env_ok test_rt_env" "balanced test_rt"
  by (simp_all add: rt_env_ok_def test_rt_env_def balanced_def test_rt_def new_var_def)

lemmas rt_eval =
  test_rt_env_def test_rt_def test_push_def test_events_def new_var_def no_bindings_def push_thread_bindings_def
  pop_thread_bindings_def frame_context_def push_bindings_def pop_bindings_def set_value_def bind_root_def
  set_root_def validate_def run_validator_def notify_watches_def enter_context_def exit_context_def Let_def

theorem bindings_restored_witness:
  "\<exists>w3. rt_step test_rt_env (Pop 1) (rt_run test_rt_env test_events (fst (rt_step test_rt_env test_push test_rt))) = (w3, Inr ()) \<and>
     rt_frames w3 1 = [] \<and> rt_contexts w3 1 = [] \<and> stack 1 (rt_vars w3 0) = []"
proof -
  obtain w1 where w1: "rt_step test_rt_env test_push test_rt = (w1, Inr ())" by (simp add: rt_eval)
  then have e: "w1 = fst (rt_step test_rt_env test_push test_rt)" by simp
  have "stays_above test_rt_env 1 (length (rt_frames test_rt 1)) test_events w1"
    "length (rt_frames (rt_run test_rt_env test_events w1) 1) = Suc (length (rt_frames test_rt 1))"
    unfolding e by (simp_all add: rt_eval)
  moreover have "list_all plain_event (Push 1 [(0, Bound 5), (2, Bound 6)] # test_events)" by (simp add: test_events_def)
  ultimately obtain w3 where w3: "rt_step test_rt_env (Pop 1) (rt_run test_rt_env test_events w1) = (w3, Inr ())"
    "rt_frames w3 1 = rt_frames test_rt 1" "rt_contexts w3 1 = rt_contexts test_rt 1"
    "list_all (\<lambda>i. stack 1 (rt_vars w3 i) = stack 1 (rt_vars test_rt i)) (map fst [(0, Bound (5::int)), (2, Bound 6)])"
    using bindings_restored [OF test_rt_ok _ w1 [unfolded test_push_def]] by blast
  have "stack 1 (rt_vars w3 0) = []" using w3(4) by (simp add: test_rt_def new_var_def stack_def no_bindings_def)
  with w3 show ?thesis unfolding w1 by (intro exI [of _ w3]) (simp add: test_rt_def del: rt_step.simps)
qed

theorem bindings_isolated_witness:
  "view 2 (fst (rt_step test_rt_env test_push test_rt)) = view 2 test_rt \<and>
   rt_step test_rt_env (Push 1 [(0, Bound 5), (2, Bound 0)]) test_rt = (test_rt, Inl TypeError)"
proof
  show "view 2 (fst (rt_step test_rt_env test_push test_rt)) = view 2 test_rt"
    using bindings_isolated [OF test_rt_ok, of test_push 2] by (simp add: test_push_def del: rt_step.simps)
  show "rt_step test_rt_env (Push 1 [(0, Bound 5), (2, Bound 0)]) test_rt = (test_rt, Inl TypeError)"
    by (simp add: rt_eval)
qed

section \<open>Bindings that no frame owns, and frames that pop half way\<close>

text \<open>A binding made outside of the frames stays below those that frames push and pop.\<close>

definition leaked :: "thread \<Rightarrow> nat \<Rightarrow> ('v, 'm, 'c) runtime \<Rightarrow> bool" where
  "leaked t i w \<longleftrightarrow> frame_count i (rt_frames w t) < length (stack t (rt_vars w i))"

lemma leaked_view: "view t w' = view t w \<Longrightarrow> leaked t i w \<Longrightarrow> leaked t i w'"
  by (simp add: leaked_def view_def fun_eq_iff)

lemma leaked_step:
  assumes E: "rt_env_ok E" and e: "plain_event e" and w: "balanced w" and l: "leaked t i w"
  shows "leaked t i (fst (rt_step E e w))"
proof (cases "event_thread e = Some t")
  case False
  then show ?thesis using leaked_view [OF rt_step_other [OF E e w False] l] by simp
next
  case True
  then consider m where "e = Push t m" | "e = Pop t" | j x where "e = SetValue t j x"
    by (cases e) auto
  then show ?thesis
  proof cases
    case 1
    obtain w' r where s: "rt_step E (Push t m) w = (w', r)" by fastforce
    have d: "distinct (map fst m)" using e 1 by simp
    show ?thesis
    proof (cases r)
      case (Inl x)
      from push_thread_raises [OF E d s [unfolded Inl]] show ?thesis using s l 1 by simp
    next
      case (Inr u)
      then have s': "rt_step E (Push t m) w = (w', Inr ())" using s by simp
      from push_thread_returns [OF d s'] obtain c where
        w': "w' = w\<lparr>rt_vars := pushed_vars t m (rt_vars w), rt_frames := (rt_frames w)(t := (map fst m, c) # rt_frames w t),
           rt_contexts := enter_context t c (rt_contexts w)\<rparr>"
        and v: "\<forall>p\<in>set m. v_tl (rt_vars w (fst p)) \<noteq> None" by blast
      have "leaked t i w'"
        using l map_of_eq_None_iff [of m i]
        by (auto simp: w' leaked_def stack_pushed_vars [OF v] split: option.splits)
      then show ?thesis using s' 1 by simp
    qed
  next
    case 2
    show ?thesis
    proof (cases "rt_frames w t")
      case Nil
      then show ?thesis using l 2 by (simp add: pop_thread_bindings_def)
    next
      case (Cons f frames)
      obtain frame c where f: "f = (frame, c)" by (cases f)
      have "leaked t i (fst (rt_step E (Pop t) w))"
        unfolding pop_thread_step [OF E w Cons [unfolded f]]
        using l by (auto simp: leaked_def Cons f stack_popped_vars)
      then show ?thesis using 2 by simp
    qed
  next
    case 3
    obtain v r where v: "set_value (e_word E) t x (rt_vars w j) = (v, r)" by fastforce
    have "stack t (rt_vars w j) \<noteq> [] \<longrightarrow> stack t v \<noteq> [] \<and> tl (stack t v) = tl (stack t (rt_vars w j))"
      using set_value_fields [OF v] by blast
    then have "length (stack t (rt_vars w j)) \<le> length (stack t v)"
      by (cases "stack t (rt_vars w j)"; cases "stack t v") auto
    then show ?thesis using l v 3 by (auto simp: leaked_def)
  qed
qed

lemma leaked_run:
  "rt_env_ok E \<Longrightarrow> list_all plain_event es \<Longrightarrow> balanced w \<Longrightarrow> leaked t i w \<Longrightarrow> leaked t i (rt_run E es w)"
  by (induction es arbitrary: w) (simp_all add: rt_step_balanced leaked_step)

lemma leaked_bound: "balanced w \<Longrightarrow> leaked t i w \<Longrightarrow> is_thread_bound t (rt_vars w i)"
  using balancedD(1) [of w i]
  by (auto simp: leaked_def is_thread_bound_def stack_def split: option.splits)

lemma set_value_outside:
  assumes "v_dynamic v" "stack t v = []" "set_value word t x v = (v', Inr ())"
  shows "v_dynamic v' \<and> stack t v' = [x]"
  using assms
  by (auto simp: set_value_def stack_def split: option.splits sum.splits list.splits
      dest!: push_bindings_Inr) (auto simp: push_var_def)

lemma pop_all_append:
  "pop_all t (is @ js) vars =
     (case pop_all t is vars of (vars', Inr _) \<Rightarrow> pop_all t js vars' | (vars', Inl e) \<Rightarrow> (vars', Inl e))"
  by (induction "is" arbitrary: vars) (simp_all split: sum.splits)

text \<open>
  C24: what happens outside of the rules that bindings keep. \<open>set!\<close> of a dynamic Var to which the thread
  has no binding is no error: it makes a binding that no frame owns, and whatever the threads push, pop, set
  and alter afterwards, the thread has a binding of that Var and does not see its root again. And making
  a Var of a frame not dynamic before the frame is popped makes the pop raise half way: the frame is gone,
  the Vars popped before it (in the iteration order of the frame's set) are back at the bindings they had
  before the push, and those after it still have the bindings that the frame made.
\<close>

theorem binding_surprises:
  assumes "rt_env_ok E" "balanced w"
    and "v_dynamic (rt_vars w i)" "stack t (rt_vars w i) = []"
    and "rt_step E (SetValue t i x) w = (w1, Inr ())" "list_all plain_event es"
    and "distinct (map fst m)" "rt_step E (Push t m) w = (w2, Inr ())"
    and "e_setord E (map fst m) = pre @ j # post"
    and "rt_step E (Pop t) (fst (rt_step E (SetDynamic j False) w2)) = (w3, r)"
  shows "is_thread_bound t (rt_vars (rt_run E es w1) i) \<and>
    r = Inl RuntimeError \<and> rt_frames w3 t = rt_frames w t \<and>
    (\<forall>k\<in>set pre. stack t (rt_vars w3 k) = stack t (rt_vars w k)) \<and>
    (\<forall>k\<in>set post. \<exists>y. (k, y) \<in> set m \<and> stack t (rt_vars w3 k) = y # stack t (rt_vars w k))"
proof
  obtain v where v: "set_value (e_word E) t x (rt_vars w i) = (v, Inr ())"
    "w1 = w\<lparr>rt_vars := (rt_vars w)(i := v)\<rparr>"
    using assms(5) by (auto split: prod.splits)
  have "frame_count i (rt_frames w t) = 0" using balancedD(4) [OF assms(2), of i t] assms(4) by simp
  then have "leaked t i w1"
    using set_value_outside [OF assms(3,4) v(1)] by (simp add: leaked_def v(2))
  moreover have "balanced w1" using rt_step_balanced [OF assms(1) _ assms(2), of "SetValue t i x"] assms(5) by simp
  ultimately show "is_thread_bound t (rt_vars (rt_run E es w1) i)"
    using leaked_run [OF assms(1,6)] rt_run_balanced [OF assms(1,6)] leaked_bound by blast
next
  obtain c where w2: "w2 = w\<lparr>rt_vars := pushed_vars t m (rt_vars w),
      rt_frames := (rt_frames w)(t := (map fst m, c) # rt_frames w t),
      rt_contexts := enter_context t c (rt_contexts w)\<rparr>"
    and dyn: "\<forall>p\<in>set m. v_dynamic (rt_vars w (fst p)) \<and> v_tl (rt_vars w (fst p)) \<noteq> None"
    using push_thread_returns [OF assms(7,8)] by blast
  then have tls: "\<forall>p\<in>set m. v_tl (rt_vars w (fst p)) \<noteq> None" by blast
  have d: "distinct (pre @ j # post)" and s: "set (pre @ j # post) = fst ` set m"
    using setord_facts [OF assms(1), of "map fst m"] assms(7,9) by simp_all
  let ?vars = "(pushed_vars t m (rt_vars w))(j := set_dynamic False (pushed_vars t m (rt_vars w) j))"
  have "j \<in> fst ` set m" using s by auto
  then have "v_dynamic (rt_vars w j)" using dyn by auto
  then have off: "\<not> v_dynamic (?vars j)" "v_tl (?vars j) = None" by (simp_all add: set_dynamic_def)
  have pop: "poppable t ?vars k" if "k \<in> set pre" for k
  proof -
    have "k \<in> set (map fst m)" "k \<noteq> j" using that d s by auto
    then show ?thesis using poppable_pushed [OF dyn, of k t] by (simp add: poppable_def)
  qed
  have "pop_all t pre ?vars = (popped_vars t pre ?vars, Inr ())"
    by (rule pop_all_popped) (use d pop in auto)
  moreover have "pop_bindings t (popped_vars t pre ?vars j) = Inl RuntimeError"
    using d off by (simp add: popped_vars_def pop_bindings_def)
  ultimately have all: "pop_all t (e_setord E (map fst m)) ?vars = (popped_vars t pre ?vars, Inl RuntimeError)"
    unfolding assms(9) pop_all_append by simp
  have w3: "r = Inl RuntimeError" "rt_vars w3 = popped_vars t pre ?vars" "rt_frames w3 t = rt_frames w t"
    using assms(10) by (auto simp: w2 pop_thread_bindings_def all)
  have before: "stack t (rt_vars w3 k) = stack t (rt_vars w k)" if "k \<in> set pre" for k
  proof -
    have k: "k \<noteq> j" "k \<in> fst ` set m" using that d s by auto
    then obtain y where "map_of m k = Some y" using map_of_eq_None_iff [of m k] by auto
    then show ?thesis using that k(1) by (simp add: w3(2) stack_popped_vars stack_pushed_vars [OF tls])
  qed
  have behind: "\<exists>y. (k, y) \<in> set m \<and> stack t (rt_vars w3 k) = y # stack t (rt_vars w k)" if "k \<in> set post" for k
  proof -
    have k: "k \<noteq> j" "k \<notin> set pre" "k \<in> fst ` set m" using that d s by auto
    then obtain y where y: "map_of m k = Some y" using map_of_eq_None_iff [of m k] by auto
    then have "stack t (rt_vars w3 k) = y # stack t (rt_vars w k)"
      using k by (simp add: w3(2) stack_popped_vars stack_pushed_vars [OF tls])
    with map_of_SomeD [OF y] show ?thesis by blast
  qed
  show "r = Inl RuntimeError \<and> rt_frames w3 t = rt_frames w t \<and>
    (\<forall>k\<in>set pre. stack t (rt_vars w3 k) = stack t (rt_vars w k)) \<and>
    (\<forall>k\<in>set post. \<exists>y. (k, y) \<in> set m \<and> stack t (rt_vars w3 k) = y # stack t (rt_vars w k))"
    using w3(1,3) before behind by blast
qed

theorem binding_surprises_witness:
  "is_thread_bound 1 (rt_vars (rt_run test_rt_env [BindRoot 0 (Bound 8), Pop 1]
       (fst (rt_step test_rt_env (SetValue 1 0 (Bound 7)) test_rt))) 0) \<and>
   (\<exists>w3. rt_step test_rt_env (Pop 1) (fst (rt_step test_rt_env (SetDynamic 0 False)
        (fst (rt_step test_rt_env (Push 1 [(0, Bound 5), (1, Bound 6)]) test_rt)))) = (w3, Inl RuntimeError) \<and>
      rt_frames w3 1 = [] \<and> stack 1 (rt_vars w3 1) = [Bound 6])"
proof -
  obtain w1 where w1: "rt_step test_rt_env (SetValue 1 0 (Bound 7)) test_rt = (w1, Inr ())" by (simp add: rt_eval)
  obtain w2 where w2: "rt_step test_rt_env (Push 1 [(0, Bound 5), (1, Bound 6)]) test_rt = (w2, Inr ())"
    by (simp add: rt_eval)
  obtain w3 r where w3: "rt_step test_rt_env (Pop 1) (fst (rt_step test_rt_env (SetDynamic 0 False) w2)) = (w3, r)"
    by fastforce
  have dyn: "v_dynamic (rt_vars test_rt 0)" and empty: "\<And>i. stack 1 (rt_vars test_rt i) = []"
    by (simp_all add: test_rt_def new_var_def stack_def no_bindings_def)
  have plain: "list_all plain_event [BindRoot 0 (Bound 8), Pop 1]" by simp
  have ord: "e_setord test_rt_env (map fst [(0, Bound (5 :: int)), (1, Bound 6)]) = [] @ 0 # [1]"
    by (simp add: test_rt_env_def)
  from binding_surprises [OF test_rt_ok dyn empty w1 plain _ w2 ord w3]
  have "is_thread_bound 1 (rt_vars (rt_run test_rt_env [BindRoot 0 (Bound 8), Pop 1] w1) 0)"
    "r = Inl RuntimeError" "rt_frames w3 1 = rt_frames test_rt 1" "stack 1 (rt_vars w3 1) = [Bound 6]"
    using empty [of 1] by (simp_all del: rt_run_simps)
  then show ?thesis using w1 w2 w3 by (simp add: test_rt_def del: rt_step.simps rt_run_simps)
qed

end
