(* ===== verification/Namespaces.thy ===== *)
theory Namespaces
  imports Vars
begin

text \<open>
  Namespaces (\<open>src/src/basilisp/lang/runtime.py\<close>): the aliases, imports, interned and referred Vars of a
  namespace, the cache of namespaces with their global aliases, interning of Vars, and the completion
  of names.
\<close>

section \<open>A namespace\<close>

text \<open>
  Symbols are their namespace and name. Namespaces, Vars and modules are numbers; persistent maps are
  association lists in iteration order.
\<close>

type_synonym symbol = "string option \<times> string"

definition sym :: "string \<Rightarrow> symbol" where
  "sym n = (None, n)"

record namespace =
  ns_name :: symbol
  ns_aliases :: "(symbol \<times> nat) list"
  ns_imports :: "(symbol \<times> nat) list"
  ns_import_aliases :: "(symbol \<times> symbol) list"
  ns_import_refers :: "(symbol \<times> symbol \<times> nat) list"
  ns_interns :: "(symbol \<times> nat) list"
  ns_refers :: "(symbol \<times> nat) list"

definition new_namespace :: "(symbol \<times> nat) list \<Rightarrow> symbol \<Rightarrow> namespace" where
  "new_namespace default_imports name =
     \<lparr>ns_name = name, ns_aliases = [], ns_imports = default_imports, ns_import_aliases = [],
      ns_import_refers = [], ns_interns = [], ns_refers = []\<rparr>"

definition add_alias :: "nat \<Rightarrow> symbol list \<Rightarrow> namespace \<Rightarrow> namespace" where
  "add_alias other als ns = ns\<lparr>ns_aliases := foldl (\<lambda>m a. AList.update a other m) (ns_aliases ns) als\<rparr>"

definition get_alias :: "symbol \<Rightarrow> namespace \<Rightarrow> nat option" where
  "get_alias a ns = map_of (ns_aliases ns) a"

definition remove_alias :: "symbol \<Rightarrow> namespace \<Rightarrow> namespace" where
  "remove_alias a ns = ns\<lparr>ns_aliases := AList.delete a (ns_aliases ns)\<rparr>"

text \<open>The Var a name is mapped to afterwards comes with the namespace.\<close>

definition intern :: "symbol \<Rightarrow> nat \<Rightarrow> bool \<Rightarrow> namespace \<Rightarrow> namespace \<times> nat option" where
  "intern s v force ns =
     (let ns' = (if map_of (ns_interns ns) s = None \<or> force
                 then ns\<lparr>ns_interns := AList.update s v (ns_interns ns)\<rparr> else ns)
      in (ns', map_of (ns_interns ns') s))"

definition unmap :: "symbol \<Rightarrow> namespace \<Rightarrow> namespace" where
  "unmap s ns = ns\<lparr>ns_interns := AList.delete s (ns_interns ns)\<rparr>"

definition find_var :: "symbol \<Rightarrow> namespace \<Rightarrow> nat option" where
  "find_var s ns = (case map_of (ns_interns ns) s of None \<Rightarrow> map_of (ns_refers ns) s | Some v \<Rightarrow> Some v)"

text \<open>
  Import refers leave out the names that \<open>_PRIVATE_NAME_PATTERN\<close> matches whole: an underscore and word
  characters, or a word between double underscores (which the first case covers).
\<close>

definition private_name :: "(char \<Rightarrow> bool) \<Rightarrow> string \<Rightarrow> bool" where
  "private_name word_char n = (case n of [] \<Rightarrow> False | c # cs \<Rightarrow> c = CHR ''_'' \<and> list_all word_char cs)"

definition add_import ::
  "(char \<Rightarrow> bool) \<Rightarrow> symbol \<Rightarrow> nat \<Rightarrow> symbol list \<Rightarrow> (symbol \<times> nat) list \<Rightarrow> namespace \<Rightarrow> namespace" where
  "add_import word_char s modul als refs ns =
     ns\<lparr>ns_imports := AList.update s modul (ns_imports ns),
        ns_import_refers :=
          foldl (\<lambda>m (r, v). if private_name word_char (snd r) then m else AList.update r (s, v) m)
            (ns_import_refers ns) refs,
        ns_import_aliases := foldl (\<lambda>m a. AList.update a s m) (ns_import_aliases ns) als\<rparr>"

definition get_import_refer :: "symbol \<Rightarrow> namespace \<Rightarrow> symbol option" where
  "get_import_refer s ns = map_option fst (map_of (ns_import_refers ns) s)"

definition get_import :: "symbol \<Rightarrow> namespace \<Rightarrow> nat option" where
  "get_import s ns =
     (case map_of (ns_imports ns) s of
        Some md \<Rightarrow> Some md
      | None \<Rightarrow>
          (case map_of (ns_import_aliases ns) s of
             None \<Rightarrow> None
           | Some a \<Rightarrow> map_of (ns_imports ns) a))"

definition add_refer :: "(nat \<Rightarrow> bool) \<Rightarrow> symbol \<Rightarrow> nat \<Rightarrow> namespace \<Rightarrow> namespace" where
  "add_refer is_private s v ns =
     (if is_private v then ns else ns\<lparr>ns_refers := AList.update s v (ns_refers ns)\<rparr>)"

definition get_refer :: "symbol \<Rightarrow> namespace \<Rightarrow> nat option" where
  "get_refer s ns = map_of (ns_refers ns) s"

definition refer_all :: "(nat \<Rightarrow> bool) \<Rightarrow> namespace \<Rightarrow> namespace \<Rightarrow> namespace" where
  "refer_all is_private other ns =
     ns\<lparr>ns_refers :=
        foldl (\<lambda>m (s, v). if is_private v then m else AList.update s v m) (ns_refers ns) (ns_interns other)\<rparr>"

section \<open>The cache of namespaces\<close>

text \<open>All namespace objects ever made, the cache by name, and the global aliases.\<close>

record registry =
  reg_store :: "namespace list"
  reg_cache :: "(symbol \<times> nat) list"
  reg_aliases :: "(symbol \<times> nat) list"

definition CORE_NS :: symbol where
  "CORE_NS = sym ''basilisp.core''"

definition ns_get :: "symbol \<Rightarrow> registry \<Rightarrow> nat option" where
  "ns_get name r = (case map_of (reg_cache r) name of Some i \<Rightarrow> Some i | None \<Rightarrow> map_of (reg_aliases r) name)"

definition find_in_ns :: "symbol \<Rightarrow> symbol \<Rightarrow> registry \<Rightarrow> nat option" where
  "find_in_ns ns s r = (case ns_get ns r of None \<Rightarrow> None | Some i \<Rightarrow> find_var s (reg_store r ! i))"

text \<open>\<open>Var.find\<close> of a qualified symbol.\<close>

definition var_find :: "symbol \<Rightarrow> registry \<Rightarrow> nat option res" where
  "var_find s r =
     (case fst s of None \<Rightarrow> Inl ValueError | Some ns \<Rightarrow> Inr (find_in_ns (sym ns) (sym (snd s)) r))"

definition var_find_safe :: "symbol \<Rightarrow> registry \<Rightarrow> nat res" where
  "var_find_safe s r =
     rbind (var_find s r) (\<lambda>v. case v of None \<Rightarrow> Inl RuntimeError | Some i \<Rightarrow> Inr i)"

text \<open>
  \<open>get_or_create\<close>: a new namespace refers the macro \<open>ns\<close> of the core namespace, when there is one. The
  swap of the cache is one step.
\<close>

definition get_or_create ::
  "(symbol \<times> nat) list \<Rightarrow> (nat \<Rightarrow> bool) \<Rightarrow> symbol \<Rightarrow> registry \<Rightarrow> registry \<times> nat"
where
  "get_or_create default_imports is_private name r =
     (case map_of (reg_cache r) name of
        Some i \<Rightarrow> (r, i)
      | None \<Rightarrow>
          (let ns = new_namespace default_imports name;
               ns' = (case find_in_ns CORE_NS (sym ''ns'') r of
                        None \<Rightarrow> ns | Some v \<Rightarrow> add_refer is_private (sym ''ns'') v ns)
           in (r\<lparr>reg_store := reg_store r @ [ns'],
                 reg_cache := AList.update name (length (reg_store r)) (reg_cache r)\<rparr>,
               length (reg_store r))))"

text \<open>
  \<open>add_namespace_alias\<close> looks the target up, and then swaps the aliases. The source takes these two
  steps without a lock around both; here no other thread acts between them.
\<close>

definition swap_alias :: "symbol \<Rightarrow> nat \<Rightarrow> registry \<Rightarrow> registry" where
  "swap_alias a i r = r\<lparr>reg_aliases := AList.update a i (reg_aliases r)\<rparr>"

definition add_namespace_alias :: "symbol \<Rightarrow> symbol \<Rightarrow> registry \<Rightarrow> registry \<times> unit res" where
  "add_namespace_alias a target r =
     (case ns_get target r of None \<Rightarrow> (r, Inl ValueError) | Some i \<Rightarrow> (swap_alias a i r, Inr ()))"

text \<open>\<open>remove\<close>: the namespace leaves the cache, and then its aliases go; a mere alias is only dropped.\<close>

definition drop_aliases :: "nat \<Rightarrow> registry \<Rightarrow> registry" where
  "drop_aliases i r = r\<lparr>reg_aliases := filter (\<lambda>p. snd p \<noteq> i) (reg_aliases r)\<rparr>"

definition remove_ns :: "symbol \<Rightarrow> registry \<Rightarrow> registry \<times> nat option res" where
  "remove_ns name r =
     (if name = CORE_NS then (r, Inl ValueError)
      else (case map_of (reg_cache r) name of
              Some i \<Rightarrow> (drop_aliases i (r\<lparr>reg_cache := AList.delete name (reg_cache r)\<rparr>), Inr (Some i))
            | None \<Rightarrow>
                (case map_of (reg_aliases r) name of
                   None \<Rightarrow> (r, Inr None)
                 | Some i \<Rightarrow> (r\<lparr>reg_aliases := AList.delete name (reg_aliases r)\<rparr>, Inr (Some i)))))"

text \<open>An operation on one namespace.\<close>

definition in_ns :: "nat \<Rightarrow> (namespace \<Rightarrow> namespace) \<Rightarrow> registry \<Rightarrow> registry" where
  "in_ns i f r = r\<lparr>reg_store := (reg_store r)[i := f (reg_store r ! i)]\<rparr>"

section \<open>Interning Vars\<close>

text \<open>
  \<open>Var.intern\<close>: a fresh Var \<open>i\<close> is made and interned unless the name has a Var already; that Var then
  gets the value (none for \<open>intern_unbound\<close>) and, if it is an old one, the metadata and the dynamic flag.
\<close>

definition intern_var ::
  "('m \<Rightarrow> 'm) \<Rightarrow> 'v vval watch_order \<Rightarrow> nat \<Rightarrow> symbol \<Rightarrow> 'v vval option \<Rightarrow> bool \<Rightarrow> 'm \<Rightarrow>
   namespace \<times> (nat \<Rightarrow> ('v, 'm) var) \<Rightarrow> (namespace \<times> (nat \<Rightarrow> ('v, 'm) var)) \<times> nat res"
where
  "intern_var mark word i name val dynamic m s =
     (case s of (ns, vars) \<Rightarrow>
        let vars1 = vars(i := new_var mark i dynamic m);
            (ns1, found) = intern name i False ns;
            j = the found;
            (vj, r) = (case val of None \<Rightarrow> (vars1 j, Inr ()) | Some x \<Rightarrow> bind_root word x (vars1 j))
        in case r of
             Inl e \<Rightarrow> ((ns1, vars1(j := vj)), Inl e)
           | Inr _ \<Rightarrow>
               ((ns1, vars1(j := if j = i then vj else set_dynamic dynamic (fst (reset_meta m vj)))), Inr j))"

section \<open>Completion\<close>

fun name_begins :: "string \<Rightarrow> string \<Rightarrow> bool" where
  "name_begins [] s = True"
| "name_begins (c # cs) [] = False"
| "name_begins (c # cs) (d # ds) = (c = d \<and> name_begins cs ds)"

definition sym_str :: "symbol \<Rightarrow> string" where
  "sym_str s = (case fst s of None \<Rightarrow> snd s | Some ns \<Rightarrow> ns @ ''/'' @ snd s)"

definition completions :: "string \<Rightarrow> (symbol \<times> 'a) list \<Rightarrow> (symbol \<times> 'a) list" where
  "completions text = filter (\<lambda>entry. name_begins text (snd (fst entry)))"

definition complete_interns :: "(nat \<Rightarrow> bool) \<Rightarrow> string \<Rightarrow> bool \<Rightarrow> namespace \<Rightarrow> string list" where
  "complete_interns is_private text include_private ns =
     map (snd \<circ> fst)
       (filter (\<lambda>entry. include_private \<or> \<not> is_private (snd entry)) (completions text (ns_interns ns)))"

definition complete_alias ::
  "(nat \<Rightarrow> bool) \<Rightarrow> string \<Rightarrow> string option \<Rightarrow> namespace list \<Rightarrow> namespace \<Rightarrow> string list" where
  "complete_alias is_private pre name_in_ns store ns =
     (let candidates = completions pre (ns_aliases ns)
      in case name_in_ns of
           None \<Rightarrow> map (\<lambda>(a, _). sym_str a @ ''/'') candidates
         | Some n \<Rightarrow>
             concat (map (\<lambda>(_, i). map (\<lambda>match. pre @ ''/'' @ match) (complete_interns is_private n False (store ! i)))
               candidates))"

text \<open>\<open>members\<close> are the names in the dictionary of a module; module 0 is \<open>builtins\<close>.\<close>

definition complete_imports ::
  "(nat option \<Rightarrow> string list) \<Rightarrow> string \<Rightarrow> string option \<Rightarrow> namespace \<Rightarrow> string list" where
  "complete_imports members pre name_in_module ns =
     (let als = map (\<lambda>(a, s). (a, map_of (ns_imports ns) s)) (ns_import_aliases ns);
          candidates =
            completions pre (als @ map (apsnd Some) (ns_imports ns) @ [(sym ''python'', Some 0)])
      in case name_in_module of
           None \<Rightarrow> map (\<lambda>(s, _). sym_str s @ ''/'') candidates
         | Some n \<Rightarrow>
             concat (map (\<lambda>(_, md). map (\<lambda>name. pre @ ''/'' @ name) (filter (name_begins n) (members md))) candidates))"

definition complete_refers :: "string \<Rightarrow> namespace \<Rightarrow> string list" where
  "complete_refers text ns =
     map snd (filter (\<lambda>s. name_begins text (snd s)) (map fst (ns_refers ns) @ map fst (ns_import_refers ns)))"

definition complete ::
  "(nat \<Rightarrow> bool) \<Rightarrow> (nat option \<Rightarrow> string list) \<Rightarrow> string \<Rightarrow> namespace list \<Rightarrow> namespace \<Rightarrow> string list" where
  "complete is_private members text store ns =
     (if CHR ''/'' \<in> set text
      then (let pre = takeWhile (\<lambda>c. c \<noteq> CHR ''/'') text; suffix = tl (dropWhile (\<lambda>c. c \<noteq> CHR ''/'') text)
            in complete_alias is_private pre (Some suffix) store ns @ complete_imports members pre (Some suffix) ns)
      else complete_alias is_private text None store ns @ complete_imports members text None ns @
           complete_interns is_private text True ns @ complete_refers text ns)"

end
