(* ===== verification/NamespacesCorrect.thy ===== *)
theory NamespacesCorrect
  imports Namespaces
begin

text \<open>
  A namespace is two maps, of which the interned Vars hide the referred ones; and the registry never
  leads to a namespace that was removed.
\<close>

section \<open>Programs on a namespace\<close>

datatype ns_op =
    Intern symbol nat bool
  | Unmap symbol
  | Refer symbol nat
  | ReferAll namespace
  | Alias nat "symbol list"
  | Unalias symbol
  | Import symbol nat "symbol list" "(symbol \<times> nat) list"

fun ns_step :: "(nat \<Rightarrow> bool) \<Rightarrow> (char \<Rightarrow> bool) \<Rightarrow> ns_op \<Rightarrow> namespace \<Rightarrow> namespace" where
  "ns_step priv wc (Intern s v force) ns = fst (intern s v force ns)"
| "ns_step priv wc (Unmap s) ns = unmap s ns"
| "ns_step priv wc (Refer s v) ns = add_refer priv s v ns"
| "ns_step priv wc (ReferAll other) ns = refer_all priv other ns"
| "ns_step priv wc (Alias i als) ns = add_alias i als ns"
| "ns_step priv wc (Unalias a) ns = remove_alias a ns"
| "ns_step priv wc (Import s md als refs) ns = add_import wc s md als refs ns"

definition ns_run :: "(nat \<Rightarrow> bool) \<Rightarrow> (char \<Rightarrow> bool) \<Rightarrow> ns_op list \<Rightarrow> namespace \<Rightarrow> namespace" where
  "ns_run priv wc ops ns = foldl (\<lambda>ns op. ns_step priv wc op ns) ns ops"

text \<open>The specification: interns, refers and aliases are finite maps.\<close>

type_synonym ns_maps = "(symbol \<rightharpoonup> nat) \<times> (symbol \<rightharpoonup> nat) \<times> (symbol \<rightharpoonup> nat)"

definition abs_ns :: "namespace \<Rightarrow> ns_maps" where
  "abs_ns ns = (map_of (ns_interns ns), map_of (ns_refers ns), map_of (ns_aliases ns))"

definition public :: "(nat \<Rightarrow> bool) \<Rightarrow> (symbol \<rightharpoonup> nat) \<Rightarrow> symbol \<rightharpoonup> nat" where
  "public priv m s = (case m s of None \<Rightarrow> None | Some v \<Rightarrow> if priv v then None else Some v)"

fun map_step :: "(nat \<Rightarrow> bool) \<Rightarrow> ns_op \<Rightarrow> ns_maps \<Rightarrow> ns_maps" where
  "map_step priv (Intern s v force) (i, r, a) = (if s \<in> dom i \<and> \<not> force then i else i(s \<mapsto> v), r, a)"
| "map_step priv (Unmap s) (i, r, a) = (i(s := None), r, a)"
| "map_step priv (Refer s v) (i, r, a) = (i, if priv v then r else r(s \<mapsto> v), a)"
| "map_step priv (ReferAll other) (i, r, a) = (i, r ++ public priv (map_of (ns_interns other)), a)"
| "map_step priv (Alias n als) (i, r, a) = (i, r, \<lambda>s. if s \<in> set als then Some n else a s)"
| "map_step priv (Unalias s) (i, r, a) = (i, r, a(s := None))"
| "map_step priv (Import s md als refs) m = m"

fun op_ok :: "ns_op \<Rightarrow> bool" where
  "op_ok (ReferAll other) = distinct (map fst (ns_interns other))"
| "op_ok _ = True"

lemma map_of_add_aliases: "map_of (foldl (\<lambda>m a. AList.update a n m) m als) = (\<lambda>s. if s \<in> set als then Some n else map_of m s)"
proof (induction als arbitrary: m)
  case (Cons a als)
  show ?case by (rule ext) (simp add: Cons.IH update_conv')
qed simp

lemma map_of_refer_all:
  "distinct (map fst kvs) \<Longrightarrow>
   map_of (foldl (\<lambda>m (s, v). if priv v then m else AList.update s v m) m kvs) = map_of m ++ public priv (map_of kvs)"
proof (induction kvs arbitrary: m)
  case Nil
  then show ?case by (simp add: public_def map_add_def fun_eq_iff)
next
  case (Cons kv kvs)
  obtain s v where kv: "kv = (s, v)" by (cases kv)
  have none: "map_of kvs s = None" using Cons.prems by (simp add: kv map_of_eq_None_iff)
  show ?case
  proof (rule ext)
    fix x
    show "map_of (foldl (\<lambda>m (s, v). if priv v then m else AList.update s v m) m (kv # kvs)) x =
        (map_of m ++ public priv (map_of (kv # kvs))) x"
      using Cons none
      by (cases "x = s"; cases "map_of kvs x") (auto simp: kv public_def map_add_def update_conv' split: option.splits)
  qed
qed

lemma ns_step_abs: "op_ok op \<Longrightarrow> abs_ns (ns_step priv wc op ns) = map_step priv op (abs_ns ns)"
  by (cases op)
     (auto simp: abs_ns_def intern_def Let_def unmap_def add_refer_def refer_all_def add_alias_def remove_alias_def
        add_import_def update_conv' delete_conv' map_of_add_aliases map_of_refer_all dom_def)

lemma ns_step_keeps:
  "ns_name (ns_step priv wc op ns) = ns_name ns"
  by (cases op) (simp_all add: intern_def Let_def unmap_def add_refer_def refer_all_def add_alias_def
    remove_alias_def add_import_def)

text \<open>
  C25: a namespace is its maps. After any program of operations on a namespace, its interned Vars, referred
  Vars and aliases are those of the program on finite maps: interning keeps the first Var of a name unless
  forced, referring all of a namespace refers its public Vars only, and a name is resolved to the interned
  Var first and to the referred one otherwise.
\<close>

theorem namespace_refines_maps:
  assumes "list_all op_ok ops"
  shows "abs_ns (ns_run priv wc ops ns) = fold (map_step priv) ops (abs_ns ns) \<and>
    find_var s (ns_run priv wc ops ns) =
      (case fold (map_step priv) ops (abs_ns ns) of (i, r, a) \<Rightarrow> (r ++ i) s) \<and>
    get_alias s (ns_run priv wc ops ns) = snd (snd (fold (map_step priv) ops (abs_ns ns))) s"
proof -
  have a: "abs_ns (ns_run priv wc ops ns) = fold (map_step priv) ops (abs_ns ns)"
    using assms unfolding ns_run_def by (induction ops arbitrary: ns) (simp_all add: ns_step_abs)
  moreover have "find_var s n = (case abs_ns n of (i, r, a) \<Rightarrow> (r ++ i) s)" for n
    by (simp add: find_var_def abs_ns_def map_add_def)
  moreover have "get_alias s n = snd (snd (abs_ns n)) s" for n
    by (simp add: get_alias_def abs_ns_def)
  ultimately show ?thesis by simp
qed

section \<open>The registry\<close>

datatype reg_event =
    Create symbol
  | AddAlias symbol symbol
  | Remove symbol
  | InNs nat ns_op

definition reg_step ::
  "(symbol \<times> nat) list \<Rightarrow> (nat \<Rightarrow> bool) \<Rightarrow> (char \<Rightarrow> bool) \<Rightarrow> reg_event \<Rightarrow> registry \<Rightarrow> registry" where
  "reg_step defaults priv wc e r =
     (case e of
        Create name \<Rightarrow> fst (get_or_create defaults priv name r)
      | AddAlias a target \<Rightarrow> fst (add_namespace_alias a target r)
      | Remove name \<Rightarrow> fst (remove_ns name r)
      | InNs i op \<Rightarrow> in_ns i (ns_step priv wc op) r)"

definition reg_run ::
  "(symbol \<times> nat) list \<Rightarrow> (nat \<Rightarrow> bool) \<Rightarrow> (char \<Rightarrow> bool) \<Rightarrow> reg_event list \<Rightarrow> registry" where
  "reg_run defaults priv wc es =
     foldl (\<lambda>r e. reg_step defaults priv wc e r) \<lparr>reg_store = [], reg_cache = [], reg_aliases = []\<rparr> es"

definition live :: "registry \<Rightarrow> nat \<Rightarrow> bool" where
  "live r i \<longleftrightarrow> (\<exists>name. map_of (reg_cache r) name = Some i)"

text \<open>Cached namespaces exist and have the name they are cached under; aliases lead to cached ones.\<close>

definition reg_ok :: "registry \<Rightarrow> bool" where
  "reg_ok r \<longleftrightarrow>
     (\<forall>name i. map_of (reg_cache r) name = Some i \<longrightarrow> i < length (reg_store r) \<and> ns_name (reg_store r ! i) = name) \<and>
     (\<forall>p\<in>set (reg_aliases r). live r (snd p))"

lemma reg_okI:
  assumes "\<And>name i. map_of (reg_cache r) name = Some i \<Longrightarrow> i < length (reg_store r) \<and> ns_name (reg_store r ! i) = name"
    and "\<And>p. p \<in> set (reg_aliases r) \<Longrightarrow> live r (snd p)"
  shows "reg_ok r"
  using assms by (simp add: reg_ok_def)

lemma reg_okD:
  assumes "reg_ok r"
  shows "map_of (reg_cache r) name = Some i \<Longrightarrow> i < length (reg_store r) \<and> ns_name (reg_store r ! i) = name"
    and "p \<in> set (reg_aliases r) \<Longrightarrow> live r (snd p)"
  using assms unfolding reg_ok_def by blast+

lemma ns_get_live:
  assumes "reg_ok r" "ns_get name r = Some i"
  shows "live r i"
proof (cases "map_of (reg_cache r) name")
  case None
  then have "(name, i) \<in> set (reg_aliases r)" using assms(2) by (simp add: ns_get_def map_of_SomeD)
  then show ?thesis using reg_okD(2) [OF assms(1)] by fastforce
next
  case (Some j)
  then have "map_of (reg_cache r) name = Some i" using assms(2) by (simp add: ns_get_def)
  then show ?thesis unfolding live_def by (rule exI)
qed

lemma set_alist_update: "set (AList.update k v al) \<subseteq> insert (k, v) (set al)"
  by (induction al) auto

lemma create_ok:
  assumes "reg_ok r"
  shows "reg_ok (fst (get_or_create defaults priv name r))"
proof (cases "map_of (reg_cache r) name")
  case (Some i)
  with assms show ?thesis by (simp add: get_or_create_def)
next
  case None
  define ns where "ns = (case find_in_ns CORE_NS (sym ''ns'') r of None \<Rightarrow> new_namespace defaults name
    | Some v \<Rightarrow> add_refer priv (sym ''ns'') v (new_namespace defaults name))"
  have ns: "ns_name ns = name" by (simp add: ns_def new_namespace_def add_refer_def split: option.splits)
  have "fst (get_or_create defaults priv name r) =
      r\<lparr>reg_store := reg_store r @ [ns], reg_cache := AList.update name (length (reg_store r)) (reg_cache r)\<rparr>" (is "_ = ?r")
    by (simp add: get_or_create_def None ns_def Let_def)
  moreover have "reg_ok ?r"
  proof (rule reg_okI)
    show "i < length (reg_store ?r) \<and> ns_name (reg_store ?r ! i) = n" if "map_of (reg_cache ?r) n = Some i" for n i
      using that ns reg_okD(1) [OF assms, of n i] by (auto simp: update_conv' nth_append split: if_splits)
    show "live ?r (snd p)" if "p \<in> set (reg_aliases ?r)" for p
    proof -
      have "live r (snd p)" using reg_okD(2) [OF assms] that by simp
      then obtain n where n: "map_of (reg_cache r) n = Some (snd p)" unfolding live_def by (elim exE)
      then have "n \<noteq> name" using None by auto
      with n show ?thesis unfolding live_def by (intro exI [of _ n]) (simp add: update_conv')
    qed
  qed
  ultimately show ?thesis by simp
qed

lemma alias_ok:
  assumes "reg_ok r"
  shows "reg_ok (fst (add_namespace_alias a target r))"
proof (cases "ns_get target r")
  case None
  with assms show ?thesis by (simp add: add_namespace_alias_def)
next
  case (Some i)
  have i: "live r i" by (rule ns_get_live [OF assms Some])
  have "reg_ok (swap_alias a i r)"
  proof (rule reg_okI)
    show "j < length (reg_store (swap_alias a i r)) \<and> ns_name (reg_store (swap_alias a i r) ! j) = n"
      if "map_of (reg_cache (swap_alias a i r)) n = Some j" for n j
      using that reg_okD(1) [OF assms] by (simp add: swap_alias_def)
    show "live (swap_alias a i r) (snd p)" if "p \<in> set (reg_aliases (swap_alias a i r))" for p
    proof -
      have "p \<in> insert (a, i) (set (reg_aliases r))"
        using that set_alist_update [of a i "reg_aliases r"] by (auto simp: swap_alias_def)
      then have "live r (snd p)" using i reg_okD(2) [OF assms, of p] by auto
      then show ?thesis by (simp add: live_def swap_alias_def)
    qed
  qed
  with Some show ?thesis by (simp add: add_namespace_alias_def)
qed


text \<open>A namespace that leaves the cache takes its aliases along.\<close>

lemma remove_ok:
  assumes "reg_ok r"
  shows "reg_ok (fst (remove_ns name r))"
proof (cases "name = CORE_NS")
  case True
  with assms show ?thesis by (simp add: remove_ns_def)
next
  case False
  show ?thesis
  proof (cases "map_of (reg_cache r) name")
    case None
    show ?thesis
    proof (cases "map_of (reg_aliases r) name")
      case None
      with \<open>map_of (reg_cache r) name = None\<close> assms False show ?thesis by (simp add: remove_ns_def)
    next
      case (Some i)
      have "set (AList.delete name (reg_aliases r)) \<subseteq> set (reg_aliases r)" by (auto simp: AList.delete_eq)
      then have "reg_ok (r\<lparr>reg_aliases := AList.delete name (reg_aliases r)\<rparr>)"
        using assms by (fastforce simp: reg_ok_def live_def)
      with Some \<open>map_of (reg_cache r) name = None\<close> False show ?thesis by (simp add: remove_ns_def)
    qed
  next
    case (Some i)
    let ?r = "drop_aliases i (r\<lparr>reg_cache := AList.delete name (reg_cache r)\<rparr>)"
    have i: "ns_name (reg_store r ! i) = name" using reg_okD(1) [OF assms Some] by simp
    have "reg_ok ?r"
    proof (rule reg_okI)
      show "j < length (reg_store ?r) \<and> ns_name (reg_store ?r ! j) = n" if "map_of (reg_cache ?r) n = Some j" for n j
        using that reg_okD(1) [OF assms, of n j] by (simp add: drop_aliases_def delete_conv' split: if_splits)
      show "live ?r (snd p)" if p: "p \<in> set (reg_aliases ?r)" for p
      proof -
        have "p \<in> set (reg_aliases r)" and ne: "snd p \<noteq> i" using p by (simp_all add: drop_aliases_def)
        then have "live r (snd p)" using reg_okD(2) [OF assms] by simp
        then obtain n where n: "map_of (reg_cache r) n = Some (snd p)" unfolding live_def by (elim exE)
        then have "n \<noteq> name" using Some ne by auto
        with n show ?thesis unfolding live_def by (intro exI [of _ n]) (simp add: drop_aliases_def delete_conv')
      qed
    qed
    with Some False show ?thesis by (simp add: remove_ns_def)
  qed
qed

lemma in_ns_ok:
  assumes "reg_ok r" "\<And>ns. ns_name (f ns) = ns_name ns"
  shows "reg_ok (in_ns i f r)"
proof (rule reg_okI)
  show "j < length (reg_store (in_ns i f r)) \<and> ns_name (reg_store (in_ns i f r) ! j) = n"
    if "map_of (reg_cache (in_ns i f r)) n = Some j" for n j
    using that reg_okD(1) [OF assms(1), of n j] assms(2) by (cases "j = i") (simp_all add: in_ns_def)
  show "live (in_ns i f r) (snd p)" if "p \<in> set (reg_aliases (in_ns i f r))" for p
    using that reg_okD(2) [OF assms(1), of p] by (simp add: in_ns_def live_def)
qed

lemma reg_run_ok: "reg_ok (reg_run defaults priv wc es)"
proof -
  have step: "reg_ok (reg_step defaults priv wc e r)" if "reg_ok r" for e r
    using that by (cases e) (simp_all add: reg_step_def create_ok alias_ok remove_ok in_ns_ok ns_step_keeps)
  have "reg_ok (foldl (\<lambda>r e. reg_step defaults priv wc e r) r es)" if "reg_ok r" for r
    using that by (induction es arbitrary: r) (simp_all add: step)
  then show ?thesis by (simp add: reg_run_def reg_ok_def)
qed

lemma removed_unreachable:
  assumes "reg_ok r" "map_of (reg_cache r) name = Some i" "name \<noteq> CORE_NS"
  shows "ns_get n (fst (remove_ns name r)) \<noteq> Some i"
proof
  assume "ns_get n (fst (remove_ns name r)) = Some i"
  then have "live (fst (remove_ns name r)) i" by (rule ns_get_live [OF remove_ok [OF assms(1)]])
  then obtain m where "map_of (reg_cache (fst (remove_ns name r))) m = Some i" unfolding live_def by (elim exE)
  then have m: "map_of (reg_cache r) m = Some i" "m \<noteq> name"
    using assms(2,3) by (simp_all add: remove_ns_def drop_aliases_def delete_conv' split: if_splits)
  then show False using reg_okD(1) [OF assms(1) m(1)] reg_okD(1) [OF assms(1,2)] by simp
qed

lemma get_or_create_found:
  "ns_get name (fst (get_or_create defaults priv name r)) = Some (snd (get_or_create defaults priv name r))"
  by (simp add: get_or_create_def ns_get_def Let_def update_conv' split: option.splits)

text \<open>
  C26: the registry leads to live namespaces. After any sequence of creations, aliases, removals and
  operations on namespaces, one after the other, whatever a name or an alias leads to is in the cache, under its own name; a
  created namespace is found, and the same one is returned while it stays; a removed one is found
  under no name and no alias; and the core namespace is never removed.
\<close>

theorem registry_live:
  assumes "r = reg_run defaults priv wc es"
  shows "(case ns_get name r of None \<Rightarrow> True | Some i \<Rightarrow> map_of (reg_cache r) (ns_name (reg_store r ! i)) = Some i) \<and>
    ns_get name (fst (get_or_create defaults priv name r)) = Some (snd (get_or_create defaults priv name r)) \<and>
    get_or_create defaults priv name (fst (get_or_create defaults priv name r)) = get_or_create defaults priv name r \<and>
    (case (map_of (reg_cache r) name, remove_ns name r) of
       (Some i, r', Inr j) \<Rightarrow> j = Some i \<and> ns_get n r' \<noteq> Some i
     | (_, r', _) \<Rightarrow> reg_cache r' = reg_cache r) \<and>
    map_of (reg_cache (fst (remove_ns name r))) CORE_NS = map_of (reg_cache r) CORE_NS"
proof (intro conjI)
  have ok: "reg_ok r" unfolding assms by (rule reg_run_ok)
  have "map_of (reg_cache r) (ns_name (reg_store r ! i)) = Some i" if i: "ns_get name r = Some i" for i
  proof -
    obtain m where m: "map_of (reg_cache r) m = Some i" using ns_get_live [OF ok i] unfolding live_def by (elim exE)
    then show ?thesis using reg_okD(1) [OF ok m] by simp
  qed
  then show "case ns_get name r of None \<Rightarrow> True | Some i \<Rightarrow> map_of (reg_cache r) (ns_name (reg_store r ! i)) = Some i"
    by (simp split: option.split)
  show "ns_get name (fst (get_or_create defaults priv name r)) = Some (snd (get_or_create defaults priv name r))"
    by (rule get_or_create_found)
  show "get_or_create defaults priv name (fst (get_or_create defaults priv name r)) = get_or_create defaults priv name r"
    by (cases "map_of (reg_cache r) name") (simp_all add: get_or_create_def Let_def update_conv')
  show "case (map_of (reg_cache r) name, remove_ns name r) of
       (Some i, r', Inr j) \<Rightarrow> j = Some i \<and> ns_get n r' \<noteq> Some i
     | (_, r', _) \<Rightarrow> reg_cache r' = reg_cache r"
  proof (cases "map_of (reg_cache r) name")
    case None
    then show ?thesis by (simp add: remove_ns_def split: option.split)
  next
    case (Some i)
    show ?thesis
    proof (cases "name = CORE_NS")
      case False
      with removed_unreachable [OF ok Some False, of n] Some show ?thesis by (simp add: remove_ns_def)
    qed (simp add: remove_ns_def split: option.split)
  qed
  show "map_of (reg_cache (fst (remove_ns name r))) CORE_NS = map_of (reg_cache r) CORE_NS"
    by (simp add: remove_ns_def drop_aliases_def delete_conv' split: option.split)
qed

section \<open>Examples\<close>

definition test_ns_ops :: "ns_op list" where
  "test_ns_ops =
     [Intern (sym ''a'') 1 False, Intern (sym ''a'') 2 False, Refer (sym ''a'') 3,
      ReferAll (new_namespace [] (sym ''other'')\<lparr>ns_interns := [(sym ''b'', 4), (sym ''c'', 5)]\<rparr>), Unmap (sym ''a'')]"

theorem namespace_refines_maps_witness:
  "find_var (sym ''a'') (ns_run (\<lambda>v. v = 5) (\<lambda>c. True) test_ns_ops (new_namespace [] (sym ''user''))) = Some 3 \<and>
   find_var (sym ''c'') (ns_run (\<lambda>v. v = 5) (\<lambda>c. True) test_ns_ops (new_namespace [] (sym ''user''))) = None"
proof -
  have ok: "list_all op_ok test_ns_ops" by (simp add: test_ns_ops_def sym_def)
  have f: "find_var s (ns_run (\<lambda>v. v = 5) (\<lambda>c. True) test_ns_ops (new_namespace [] (sym ''user''))) =
      (case fold (map_step (\<lambda>v. v = 5)) test_ns_ops (abs_ns (new_namespace [] (sym ''user''))) of (i, r, a) \<Rightarrow> (r ++ i) s)" for s
    using namespace_refines_maps [OF ok] by blast
  show ?thesis
    unfolding f by (simp add: test_ns_ops_def abs_ns_def new_namespace_def public_def map_add_def sym_def)
qed

definition test_registry_events :: "reg_event list" where
  "test_registry_events = [Create CORE_NS, Create (sym ''user''), AddAlias (sym ''u'') (sym ''user'')]"

theorem registry_live_witness:
  "let r = reg_run [] (\<lambda>v. False) (\<lambda>c. True) test_registry_events
   in ns_get (sym ''u'') r = Some 1 \<and> ns_get (sym ''u'') (fst (remove_ns (sym ''user'') r)) \<noteq> Some 1"
proof -
  define r where "r = reg_run [] (\<lambda>v. False) (\<lambda>c. True) test_registry_events"
  have e: "map_of (reg_cache r) (sym ''user'') = Some 1" "ns_get (sym ''u'') r = Some 1"
    by (simp_all add: r_def reg_run_def test_registry_events_def reg_step_def get_or_create_def add_namespace_alias_def
        swap_alias_def find_in_ns_def find_var_def ns_get_def new_namespace_def Let_def CORE_NS_def sym_def)
  have "snd (remove_ns (sym ''user'') r) = Inr (Some 1)"
    using e(1) by (simp add: remove_ns_def CORE_NS_def sym_def)
  then have "remove_ns (sym ''user'') r = (fst (remove_ns (sym ''user'') r), Inr (Some 1))" by (metis prod.collapse)
  then have "ns_get (sym ''u'') (fst (remove_ns (sym ''user'') r)) \<noteq> Some 1"
    using registry_live [OF r_def, of "sym ''user''" "sym ''u''"] e(1) by (auto split: prod.splits)
  with e(2) show ?thesis by (simp add: r_def Let_def)
qed

text \<open>
  Two ways in which names mislead. An alias whose target is looked up just before it is removed, and
  which is stored after, leads to the removed namespace. And completing \<open>s/jo\<close> where only
  \<open>str\<close> is an alias offers \<open>s/join\<close>, a name that resolves to nothing.
\<close>

theorem name_surprises:
  "(let r = reg_run [] (\<lambda>v. False) (\<lambda>c. True) [Create (sym ''a'')];
        r' = swap_alias (sym ''b'') (the (ns_get (sym ''a'') r)) (fst (remove_ns (sym ''a'') r))
    in ns_get (sym ''a'') r' = None \<and> ns_get (sym ''b'') r' = Some 0 \<and> \<not> live r' 0) \<and>
   (let ns = add_alias 0 [sym ''str''] (new_namespace [] (sym ''user''));
        str = new_namespace [] (sym ''string'')\<lparr>ns_interns := [(sym ''join'', 7)]\<rparr>
    in complete (\<lambda>v. False) (\<lambda>md. []) ''s/jo'' [str] ns = [''s/join''] \<and> get_alias (sym ''s'') ns = None)"
  by (simp add: reg_run_def reg_step_def get_or_create_def find_in_ns_def ns_get_def new_namespace_def Let_def CORE_NS_def
      sym_def remove_ns_def drop_aliases_def swap_alias_def live_def add_alias_def complete_def complete_alias_def
      complete_imports_def completions_def complete_interns_def get_alias_def)

end
