(* ===== verification/Spec2Isabelle.thy ===== *)
theory Spec2Isabelle
  imports VectorOps StmCorrect ChannelCorrect ChannelFlow Atom CacheLimits Character Hashing Base64 Chunk Multifn PriorityMap ReadPrint AgentCorrect SpecExamples VarsCorrect NamespacesCorrect
begin

text \<open>
  Basilisp in Isabelle/HOL.

  Basilisp is a Clojure-compatible Lisp hosted on Python. Its compiler turns Lisp forms into Python
  code; the code it makes runs on a library of Python modules under \<open>src/src/basilisp/\<close> that gives
  Clojure's data and concurrency model: persistent collections, value equality and hashing,
  reference types, transactional memory, channels, caches and multimethods. This development models
  that run-time library and the reader that turns source text into forms; the compiler and the tools
  around it are not modelled (below).

  Conventions. A Python exception is a value of \<open>py_error\<close>, and an operation that can raise returns
  a sum \<open>'a res\<close>; a loop that stops at the first exception is \<open>foldM\<close> or \<open>mapM\<close> (Prelude.thy). Python's
  unbounded integers are \<open>int\<close>, indices into lists \<open>nat\<close>; the bits of a float, and the 32-bit hash
  arithmetic against which the masked arithmetic is proved, are words. A class is a record of its
  slots. A loop that may not end takes fuel or a list of attempts, with a theorem that enough is
  enough. Other threads are an argument: the state that an operation finds each time it looks. The
  order of iteration over a Python set or hash map is an argument, a permutation.

  Components, their theories and their sources.

  \<^item> Persistent, transient and primitive vectors (\<open>lang/vector.py\<close>): VectorTrie.thy has the 32-way
    tree and its paths, PVector.thy the vector operations over it, VectorOps.thy the transient and
    primitive vectors and the contract \<open>list_contract\<close> that all three satisfy. The tree of a vector is
    \<open>build\<close> of its list of elements; every operation is proved to be the list operation, errors
    included, and the depth of the tree is bounded by the size.
  \<^item> References (\<open>lang/reference.py\<close>): Reference.thy has metadata, watches and validators, which refs
    and atoms share. Atoms (\<open>lang/atom.py\<close>): Atom.thy has compare-and-set and the retry loops, with
    linearizability of \<open>swap\<close> and its end once the other threads leave the atom alone.
  \<^item> Agents (\<open>lang/agent.py\<close>): Agent.thy has the agent, each method as one critical section of its
    lock, and tasks, the sections that threads still have to run for it; whether an executor takes a
    task is a parameter. AgentCorrect.thy proves over every interleaving that actions are
    serialised, that the queue is worked off, and in which states nobody works it off. Watchers that
    call back into the agent are not modelled.
  \<^item> Software transactional memory (\<open>lang/stm.py\<close>): Stm.thy has refs, transaction logs, commit and the
    retry loop. StmProps.thy has the invariants of a log; StmCorrect.thy the guarantees: a committed
    attempt that ensured what it commuted has its effect as if it ran alone at its commit, a commit is all or nothing, validators
    hold, and the loop is bounded and ends. The lock order of a commit is the parameter \<open>ord\<close>.
  \<^item> Channels (\<open>concurrent_channel.py\<close>): Channel.thy has channels, buffers, waiters, timeouts and
    \<open>alts\<close>; an async operation is split at its await and the pieces interleave in any order
    (\<open>world_step\<close>). ChannelProps.thy has the invariant of each operation, ChannelCorrect.thy the
    guarantees over all interleavings, from the start of an operation to after its await;
    ChannelFlow.thy pipes and pipelines, whose workers finish in any order and whose destination may
    refuse a value or raise.
  \<^item> Equality and keys (\<open>lang/equality.py\<close>): Equality.thy. Hashes (\<open>lang/hashing.py\<close>): Hashing.thy, with
    Murmur3 over words as its reference. Characters (\<open>lang/character.py\<close>): Character.thy, with strings
    as lists of code points indexed by UTF-16 units.
  \<^item> Maps (\<open>lang/map.py\<close>): Maps.thy has hash maps and transients over the map type of the package
    \<open>immutables\<close>. That package is not part of the program: it is the parameter \<open>H\<close>, a record of the
    operations used, and the locale \<open>hash_map\<close> (MapLaws.thy) is what the code relies on; the locale is
    interpreted on association lists. MapPrograms.thy proves every program of operations to be the
    program on finite maps. OrderedMaps.thy and OrderedCorrect.thy have array maps and struct maps.
  \<^item> Sorted maps, sets (\<open>lang/set.py\<close>): SortedColls.thy, with the proofs in SortedCorrect.thy (the locale
    \<open>hash_set\<close> extends \<open>hash_map\<close>). Priority maps (\<open>lang/priority_map.py\<close>): PriorityMap.thy.
  \<^item> Caches (\<open>core_cache.py\<close>): Cache.thy has the policies and the wrapped look-ups over atoms;
    CacheProtocol.thy the contract \<open>cache_protocol\<close> that the policies share, CacheCorrect.thy the wrapped caches
    and LRU, CacheLimits.thy FIFO, TTL and the programs on which the policies break what they promise.
    Transparency and the limits hold for keys that are integers or not numbers (\<open>plain_key\<close>), those of
    TTL for keys that are not numbers (\<open>bare\<close>).
  \<^item> Chunks and ranges (\<open>lang/chunk.py\<close>, \<open>lang/range.py\<close>): Chunk.thy. Multimethods (\<open>lang/multifn.py\<close>):
    Multifn.thy, with the isa-relation and the iteration order of the method table as parameters.
    Base64 (\<open>data_codec_base64.py\<close>): Base64.thy, with streams that return as many bytes as they like.

  \<^item> The reader (\<open>lang/reader.py\<close>): ReaderStream.thy has the stream reader with its push-back buffer
    and line and column rings, and the cursor it refines. ReaderForms.thy has the forms (a datatype
    with one constructor per kind of form; sets and maps as lists in iteration order; host values are
    the type parameter), their equality as keys, metadata and the walk over them. ReaderTokens.thy has
    the context as a state (\<open>rstate\<close>: the stream and the stacks of \<open>ReaderContext\<close>) threaded through
    reader functions of type \<open>rm\<close>, and the tokens; Reader.thy the collections, quoting, anonymous
    functions, f-strings, reader conditionals, tagged literals, dispatch, and the loops of \<open>read\<close>,
    \<open>read_str\<close> and \<open>read_with_source\<close>. \<open>reader_env\<close> is what the reader takes from Python (constructors of
    floats, decimals and patterns, Unicode tables above ASCII) and from its caller (data readers,
    resolver, features, evaluation). ReaderLaws.thy has the rules by which a reader function is shown
    to end, ReaderTotal.thy applies them to every function and to the whole reader.
  \<^item> Printing (\<open>lang/obj.py\<close>, \<open>map_lrepr\<close> of \<open>lang/map.py\<close> and the \<open>_lrepr\<close> methods): Printer.thy.
    ReadAtoms.thy and ReadPrint.thy run the reader forwards over printed text: \<open>read_print_roundtrip\<close> is
    that readable forms (\<open>readable\<close>) come back as they were, up to location metadata.

  \<^item> Vars and namespaces (\<open>lang/runtime.py\<close>): Vars.thy has root bindings, the thread-local bindings of
    dynamic Vars and the frames a thread pushes and pops; VarsCorrect.thy lets the operations of all
    threads interleave and proves that bindings are restored and threads isolated as long as no Var is
    made dynamic or not dynamic, and what happens otherwise. Namespaces.thy has
    aliases, imports, interned and referred Vars, the cache of namespaces, interning and completion;
    NamespacesCorrect.thy refines a namespace to finite maps and keeps the cache live, one operation
    after the other.
  \<^item> Specs (\<open>lang/spec.py\<close>): Spec.thy has the descriptors, conforming, the matching of regular
    expressions by generators (\<open>gen\<close>: what happens as a generator is resumed), the problems that explain
    a failure, and unforming. SpecLaws.thy proves that recording problems changes no result;
    SpecSound.thy gives specs a meaning without order or fuel (\<open>conforms\<close>, \<open>parses\<close>) and proves the code
    sound for it; SpecUnform.thy inverts conforming; SpecTotal.thy bounds the depth of calls;
    SpecExamples.thy has the ways in which specs fall short of it. Functions of the user and the registry are parameters.

  How the parts interact. Refs and atoms are references, so their changes run validators before
  and watches after the change. A wrapped cache is an atom that holds a policy, and the policies keep
  their entries in hash maps under storage keys. Sets, sorted maps and priority maps are built on the
  same underlying map as the hash maps, and sets and maps hash their entries with the hashes of
  Hashing.thy (what the hash sees of a key or a value is a parameter of \<open>map_hash\<close>; equal maps hash
  alike as long as it respects \<open>=\<close>, which a record beside a map with the same entries does not). A pipeline runs over channels.

  Bounds and fuel. The retry loop of a transaction has the fuel that \<open>run_transaction\<close> is given
  (\<open>max_attempts\<close>); \<open>run_transaction_terminates\<close> shows that one attempt after the interference stops is
  enough. The loops of pipelines take the list of what happens at each wait; the cache of an atom
  retries over the atom as found at each time. Iteration over an infinite range takes the number of
  elements to read. Draining a priority map takes its size. The fuel of the reader bounds both the
  nesting of forms and each loop; \<open>reader_terminates\<close> shows that two more than the number of characters
  is enough for any text. The fuel of conforming and unforming is the depth to which Python lets calls
  nest, and running out is RecursionError; \<open>conform_returns\<close> says which depth is enough for a spec.

  Not modelled. The compiler (\<open>lang/compiler/\<close>), the core functions of \<open>lang/runtime.py\<close> and the
  loading of namespaces by its importer, the generators and checks of \<open>lang/spec.py\<close>, JSON and XML
  codecs, instants, futures, the human-readable printing of \<open>str\<close>, and the command line, importer and
  documentation tools, each listed with its reason in the manifest of the development. Of the modelled modules, metadata is left out where it
  is only carried along (the forms of the reader carry theirs); the limit of Python on the digits of an
  integer is left out of the reader; NaN and the infinities are left out of Equality.thy;
  union and symmetric difference of sets apply operators of the package and are left out, and
  difference and intersection take sets of the model only.
\<close>

end
